(* ===== verification/LG_Prelude.thy ===== *)
theory LG_Prelude
  imports Complex_Main "HOL-Library.Word" "HOL-Library.Multiset" "HOL-Library.Monad_Syntax"
begin

text \<open>
  What the component theories share.

  Go code that may panic (a failed type assertion, an index out of range, a nil
  dereference) is modelled by \<open>'a option\<close> with \<open>None\<close> for the panic, and
  sequenced with the do-notation of \<open>HOL-Library.Monad_Syntax\<close>. Go code that also
  returns an \<open>error\<close> yields an \<open>('e, 'a) outcome\<close>. A function that tells its
  caller, by pointer identity, whether it returned its receiver unchanged yields
  an \<open>'n upd\<close>.

  The rest is generic: checked list access, the association lists that the
  ordered maps and the collision buckets are, and the sets of positions of a
  32-bit bitmap.
\<close>

unbundle bit_operations_syntax

named_theorems go_panic \<comment> \<open>facts that rule out a panic\<close>
named_theorems go_unfold \<comment> \<open>definitions that symbolic execution unfolds\<close>

type_synonym u8 = "8 word"
type_synonym u32 = "32 word"
type_synonym u64 = "64 word"

section \<open>Results\<close>

datatype ('e, 'a) outcome = Ok 'a | Err 'e | Panic

fun obind :: "('e, 'a) outcome \<Rightarrow> ('a \<Rightarrow> ('e, 'b) outcome) \<Rightarrow> ('e, 'b) outcome" where
  "obind (Ok x) f = f x"
| "obind (Err e) f = Err e"
| "obind Panic f = Panic"

fun of_panic :: "'a option \<Rightarrow> ('e, 'a) outcome" where
  "of_panic None = Panic"
| "of_panic (Some x) = Ok x"

lemma obind_eq_Ok [simp]: "obind m f = Ok y \<longleftrightarrow> (\<exists>x. m = Ok x \<and> f x = Ok y)"
  by (cases m) auto

lemma of_panic_eq_Ok [simp]: "of_panic m = Ok x \<longleftrightarrow> m = Some x"
  by (cases m) auto

lemma of_panic_not_Err [simp]: "of_panic m \<noteq> Err e"
  by (cases m) auto

text \<open>\<open>Same\<close>: the receiver itself came back; \<open>Gone\<close>: nil; \<open>New\<close>: another node.\<close>

datatype 'n upd = Same | Gone | New 'n

fun upd_node :: "'n \<Rightarrow> 'n upd \<Rightarrow> 'n option" where
  "upd_node n Same = Some n"
| "upd_node n Gone = None"
| "upd_node n (New m) = Some m"

section \<open>Checked list access\<close>

definition nth_opt :: "'a list \<Rightarrow> nat \<Rightarrow> 'a option" where
  "nth_opt xs i = (if i < length xs then Some (xs ! i) else None)"

lemma nth_opt_eq_Some [simp]: "nth_opt xs i = Some x \<longleftrightarrow> i < length xs \<and> xs ! i = x"
  by (simp add: nth_opt_def)

lemma nth_opt_eq_None [simp]: "nth_opt xs i = None \<longleftrightarrow> length xs \<le> i"
  by (simp add: nth_opt_def not_less)

lemma nth_opt_in_range [go_panic]: "i < length xs \<Longrightarrow> nth_opt xs i = Some (xs ! i)"
  by simp

lemma nth_opt_mem: "nth_opt xs i = Some x \<Longrightarrow> x \<in> set xs"
  by auto

lemma nth_opt_map: "nth_opt (map f xs) i = map_option f (nth_opt xs i)"
  by (simp add: nth_opt_def)

lemma size_nth_opt [termination_simp]:
  "nth_opt xs i = Some x \<Longrightarrow> size x \<le> size_list size xs"
  by (metis less_or_eq_imp_le nth_opt_mem size_list_estimation' le_refl)

lemma take_Suc_nth: "i < length xs \<Longrightarrow> take i xs @ [xs ! i] @ drop (Suc i) xs = xs"
  by (simp add: id_take_nth_drop [symmetric])

lemma mset_update_list:
  "i < length xs \<Longrightarrow> mset (xs[i := x]) = add_mset x (mset xs - {#xs ! i#})"
  by (rule mset_update)

lemma mset_concat_update:
  assumes "i < length xs"
  shows "mset (concat (map f (xs[i := x]))) + mset (f (xs ! i)) =
    mset (concat (map f xs)) + mset (f x)"
proof -
  have s: "xs = take i xs @ xs ! i # drop (Suc i) xs"
    by (simp add: assms id_take_nth_drop)
  have u: "xs[i := x] = take i xs @ x # drop (Suc i) xs"
    by (simp add: assms upd_conv_take_nth_drop)
  have "mset (concat (map f xs)) = mset (concat (map f (take i xs @ xs ! i # drop (Suc i) xs)))"
    using s by simp
  then show ?thesis
    unfolding u by simp
qed

section \<open>Association lists\<close>

text \<open>
  The ordered maps keep their entries in insertion order and look keys up by a
  linear scan with the equivalence the program uses, not with equality, so the
  functions below take that test as an argument.
\<close>

fun al_find :: "('k \<Rightarrow> 'k \<Rightarrow> bool) \<Rightarrow> 'k \<Rightarrow> ('k \<times> 'v) list \<Rightarrow> 'v option" where
  "al_find eq k [] = None"
| "al_find eq k ((k', v) # es) = (if eq k k' then Some v else al_find eq k es)"

fun al_index :: "('k \<Rightarrow> 'k \<Rightarrow> bool) \<Rightarrow> 'k \<Rightarrow> ('k \<times> 'v) list \<Rightarrow> nat option" where
  "al_index eq k [] = None"
| "al_index eq k ((k', v) # es) =
     (if eq k k' then Some 0 else map_option Suc (al_index eq k es))"

text \<open>\<open>al_put upd\<close> replaces the value of an equivalent key by \<open>upd\<close> of the old one, or appends.\<close>

fun al_put :: "('k \<Rightarrow> 'k \<Rightarrow> bool) \<Rightarrow> ('v \<Rightarrow> 'v) \<Rightarrow> 'k \<Rightarrow> 'v \<Rightarrow> ('k \<times> 'v) list \<Rightarrow> ('k \<times> 'v) list" where
  "al_put eq upd k v [] = [(k, v)]"
| "al_put eq upd k v ((k', v') # es) =
     (if eq k k' then (k', upd v') # es else (k', v') # al_put eq upd k v es)"

fun al_del :: "('k \<Rightarrow> 'k \<Rightarrow> bool) \<Rightarrow> 'k \<Rightarrow> ('k \<times> 'v) list \<Rightarrow> ('k \<times> 'v) list" where
  "al_del eq k [] = []"
| "al_del eq k ((k', v) # es) = (if eq k k' then es else (k', v) # al_del eq k es)"

text \<open>No two keys of the list are equivalent.\<close>

fun al_distinct :: "('k \<Rightarrow> 'k \<Rightarrow> bool) \<Rightarrow> ('k \<times> 'v) list \<Rightarrow> bool" where
  "al_distinct eq [] = True"
| "al_distinct eq ((k, v) # es) = (al_find eq k es = None \<and> al_distinct eq es)"

lemma al_find_None_iff: "al_find eq k es = None \<longleftrightarrow> (\<forall>e \<in> set es. \<not> eq k (fst e))"
  by (induction es) (auto split: if_splits)

lemma al_find_Some_mem: "al_find eq k es = Some v \<Longrightarrow> \<exists>k'. (k', v) \<in> set es \<and> eq k k'"
  by (induction es) (auto split: if_splits)

lemma al_find_append:
  "al_find eq k (xs @ ys) = (case al_find eq k xs of None \<Rightarrow> al_find eq k ys | Some v \<Rightarrow> Some v)"
  by (induction xs) auto

lemma al_index_find:
  "al_find eq k es = map_option (\<lambda>i. snd (es ! i)) (al_index eq k es)"
  by (induction es) (auto simp: option.map_comp comp_def)

lemma al_index_bound: "al_index eq k es = Some i \<Longrightarrow> i < length es \<and> eq k (fst (es ! i))"
  by (induction es arbitrary: i) (auto split: if_splits)

lemma al_index_None_iff: "al_index eq k es = None \<longleftrightarrow> al_find eq k es = None"
  by (simp add: al_index_find)

lemma al_put_absent: "al_find eq k es = None \<Longrightarrow> al_put eq upd k v es = es @ [(k, v)]"
  by (induction es) (auto split: if_splits)

lemma al_put_index:
  "al_index eq k es = Some i \<Longrightarrow>
    al_put eq upd k v es = es[i := (fst (es ! i), upd (snd (es ! i)))]"
  by (induction es arbitrary: i) (auto split: if_splits)

lemma al_del_index:
  "al_index eq k es = Some i \<Longrightarrow> al_del eq k es = take i es @ drop (Suc i) es"
  by (induction es arbitrary: i) (auto split: if_splits)

lemma al_del_absent: "al_find eq k es = None \<Longrightarrow> al_del eq k es = es"
  by (induction es) (auto split: if_splits)

text \<open>In a list cut in three, an operation works on the piece that can hold the key.\<close>

lemma al_put_append:
  "al_put eq upd k v (xs @ ys) =
    (if al_find eq k xs = None then xs @ al_put eq upd k v ys else al_put eq upd k v xs @ ys)"
  by (induction xs) auto

lemma al_del_append:
  "al_del eq k (xs @ ys) = (if al_find eq k xs = None then xs @ al_del eq k ys else al_del eq k xs @ ys)"
  by (induction xs) auto

lemma al_find_middle:
  "al_find eq k A = None \<Longrightarrow> al_find eq k C = None \<Longrightarrow> al_find eq k (A @ M @ C) = al_find eq k M"
  by (simp add: al_find_append split: option.splits)

lemma al_put_middle:
  assumes "al_find eq k A = None" "al_find eq k C = None"
  shows "mset (al_put eq upd k v (A @ M @ C)) = mset (A @ al_put eq upd k v M @ C)"
  using assms al_put_absent [of eq k M upd v] al_put_absent [of eq k C upd v]
  by (auto simp: al_put_append)

lemma al_del_middle:
  assumes "al_find eq k A = None" "al_find eq k C = None"
  shows "al_del eq k (A @ M @ C) = A @ al_del eq k M @ C"
  using assms al_del_absent [of eq k M] al_del_absent [of eq k C] by (auto simp: al_del_append)

lemma al_put_nonempty [simp]: "al_put eq upd k v es \<noteq> []"
  by (cases es) (auto split: if_splits)

lemma length_al_put:
  "length (al_put eq upd k v es) =
    (if al_find eq k es = None then Suc (length es) else length es)"
  by (induction es) (auto split: if_splits)

lemma length_al_del:
  "length (al_del eq k es) = (if al_find eq k es = None then length es else length es - 1)"
  proof (induction es)
  case (Cons e es)
  obtain a w where e: "e = (a, w)" by (cases e)
  have "es \<noteq> []" if "al_find eq k es \<noteq> None"
    using that by (cases es) auto
  with Cons e show ?case by (cases es) (auto split: if_splits)
qed simp

lemma keys_al_put:
  "e \<in> set (al_put eq upd k v es) \<Longrightarrow> fst e = k \<or> (\<exists>e' \<in> set es. fst e = fst e')"
  by (induction es) (fastforce split: if_splits)+

lemma set_al_del: "set (al_del eq k es) \<subseteq> set es"
  by (induction es) (auto split: if_splits)

text \<open>
  The interface of a key equality: an equivalence relation on the keys a map may
  hold, and a hash that respects it. Everything the maps need to know of their
  keys is here; the key theory interprets it with the program's own functions.
\<close>

locale key_equality =
  fixes eq :: "'k \<Rightarrow> 'k \<Rightarrow> bool"
    and hash :: "'k \<Rightarrow> u32"
    and good :: "'k \<Rightarrow> bool"
  assumes eq_refl: "good a \<Longrightarrow> eq a a"
    and eq_sym: "good a \<Longrightarrow> good b \<Longrightarrow> eq a b \<Longrightarrow> eq b a"
    and eq_trans: "good a \<Longrightarrow> good b \<Longrightarrow> good c \<Longrightarrow> eq a b \<Longrightarrow> eq b c \<Longrightarrow> eq a c"
    and eq_hash: "good a \<Longrightarrow> good b \<Longrightarrow> eq a b \<Longrightarrow> hash a = hash b"
begin

lemma al_find_cong:
  assumes "good k" "good k'" "eq k k'" "\<forall>e \<in> set es. good (fst e)"
  shows "al_find eq k es = al_find eq k' es"
  using assms(4)
proof (induction es)
  case (Cons e es)
  then show ?case
    using assms(1-3) by (cases e) (auto intro: eq_trans eq_sym)
qed simp

lemma al_find_put:
  assumes "good k" "good k'" "\<forall>e \<in> set es. good (fst e)"
  shows "al_find eq k' (al_put eq upd k v es) =
    (if eq k' k then Some (case al_find eq k es of None \<Rightarrow> v | Some v' \<Rightarrow> upd v')
     else al_find eq k' es)"
  using assms(3)
proof (induction es)
  case Nil
  then show ?case by simp
next
  case (Cons e es)
  obtain a w where e: "e = (a, w)" by (cases e)
  with Cons.prems have a: "good a" by simp
  show ?case
  proof (cases "eq k a")
    case True
    then have "eq k' k = eq k' a"
      using assms(1,2) a by (metis eq_sym eq_trans)
    with True e show ?thesis by simp
  next
    case False
    then have "\<not> (eq k' k \<and> eq k' a)"
      using assms(1,2) a by (metis eq_sym eq_trans)
    with False e Cons show ?thesis by auto
  qed
qed

lemma al_distinct_put:
  assumes "good k" "\<forall>e \<in> set es. good (fst e)" "al_distinct eq es"
  shows "al_distinct eq (al_put eq upd k v es)"
  using assms(2,3)
proof (induction es)
  case (Cons e es)
  obtain a w where e: "e = (a, w)" by (cases e)
  with Cons.prems have a: "good a" and g: "\<forall>e \<in> set es. good (fst e)" by auto
  have "al_find eq a (al_put eq upd k v es) = None" if "\<not> eq k a"
    using that Cons.prems(2) e a assms(1) g by (auto simp: al_find_put dest: eq_sym)
  with Cons e g show ?case by auto
qed simp

lemma al_distinct_del:
  assumes "al_distinct eq es"
  shows "al_distinct eq (al_del eq k es)"
  using assms
proof (induction es)
  case (Cons e es)
  obtain a w where e: "e = (a, w)" by (cases e)
  have "al_find eq a (al_del eq k es) = None" if "al_find eq a es = None"
    using that set_al_del [of eq k es] by (auto simp: al_find_None_iff)
  with Cons e show ?case by auto
qed simp

lemma al_find_del:
  assumes "good k" "good k'" "\<forall>e \<in> set es. good (fst e)" "al_distinct eq es"
  shows "al_find eq k' (al_del eq k es) = (if eq k' k then None else al_find eq k' es)"
  using assms(3,4)
proof (induction es)
  case (Cons e es)
  obtain a w where e: "e = (a, w)" by (cases e)
  with Cons.prems have a: "good a" and g: "\<forall>e \<in> set es. good (fst e)"
    and n: "al_find eq a es = None" by auto
  show ?case
  proof (cases "eq k a")
    case True
    then have "eq k' k = eq k' a"
      using assms(1,2) a by (metis eq_sym eq_trans)
    moreover have "al_find eq k' es = None" if "eq k' a"
      using that n al_find_cong [OF assms(2) a that g] by simp
    ultimately show ?thesis using True e by auto
  next
    case False
    then have "\<not> (eq k' k \<and> eq k' a)"
      using assms(1,2) a by (metis eq_sym eq_trans)
    with False e Cons show ?thesis by auto
  qed
qed simp

lemma al_find_mem:
  assumes "al_distinct eq es" "\<forall>e \<in> set es. good (fst e)" "good k"
  shows "al_find eq k es = Some v \<longleftrightarrow> (\<exists>k'. (k', v) \<in> set es \<and> eq k k')"
  using assms(1,2)
proof (induction es)
  case (Cons e es)
  obtain a w where e: "e = (a, w)" by (cases e)
  with Cons.prems have a: "good a" and g: "\<forall>e \<in> set es. good (fst e)"
    and n: "\<forall>e \<in> set es. \<not> eq a (fst e)" by (auto simp: al_find_None_iff)
  have "\<not> eq k k'" if "eq k a" "(k', v) \<in> set es" for k'
    using that n g a assms(3) by (metis eq_sym eq_trans fst_conv)
  with Cons e show ?case by auto
qed simp

text \<open>Lookup in a list without equivalent keys depends only on its multiset of entries.\<close>

lemma al_distinct_iff:
  assumes "\<forall>e \<in> set es. good (fst e)"
  shows "al_distinct eq es \<longleftrightarrow>
    (\<forall>e \<in># mset es. \<forall>e' \<in># mset es - {#e#}. \<not> eq (fst e) (fst e'))"
  using assms
proof (induction es)
  case (Cons e es)
  obtain a w where e: "e = (a, w)" by (cases e)
  let ?M = "mset es"
  from Cons.prems e have a: "good a" and g: "\<forall>x \<in> set es. good (fst x)" by auto
  have f: "al_find eq a es = None \<longleftrightarrow> (\<forall>x \<in># ?M. \<not> eq a (fst x))"
    by (simp add: al_find_None_iff)
  have r: "x \<noteq> e" if "x \<in># ?M" "\<forall>x \<in># ?M. \<not> eq a (fst x)" for x
    using that eq_refl [OF a] e by auto
  have sy: "\<not> eq (fst x) a" if "x \<in># ?M" "\<forall>x \<in># ?M. \<not> eq a (fst x)" for x
    using that eq_sym [of "fst x" a] a g by auto
  have "(\<forall>x \<in># add_mset e ?M. \<forall>x' \<in># add_mset e ?M - {#x#}. \<not> eq (fst x) (fst x')) \<longleftrightarrow>
    (\<forall>x \<in># ?M. \<not> eq a (fst x)) \<and>
    (\<forall>x \<in># ?M. \<forall>x' \<in># add_mset e ?M - {#x#}. \<not> eq (fst x) (fst x'))"
    by (simp add: e)
  also have "\<dots> \<longleftrightarrow> (\<forall>x \<in># ?M. \<not> eq a (fst x)) \<and>
    (\<forall>x \<in># ?M. \<forall>x' \<in># ?M - {#x#}. \<not> eq (fst x) (fst x'))"
    using r sy by (auto simp: e diff_union_swap [symmetric])
  finally show ?case
    using Cons.IH [OF g] f e by simp
qed simp

lemma al_distinct_perm:
  assumes "mset es = mset es'" "\<forall>e \<in> set es. good (fst e)" "al_distinct eq es"
  shows "al_distinct eq es'"
proof -
  have "\<forall>e \<in> set es'. good (fst e)"
    using assms(1,2) by (metis set_mset_mset)
  with assms show ?thesis by (simp add: al_distinct_iff)
qed

lemma al_find_perm:
  assumes "mset es = mset es'" "\<forall>e \<in> set es. good (fst e)" "al_distinct eq es" "good k"
  shows "al_find eq k es = al_find eq k es'"
proof -
  have s: "set es = set es'" using assms(1) by (metis set_mset_mset)
  with assms have "al_distinct eq es'" "\<forall>e \<in> set es'. good (fst e)"
    by (auto intro: al_distinct_perm)
  then show ?thesis
    using assms s by (metis al_find_mem not_None_eq)
qed

end

end
