(* ===== verification/LG_Float.thy ===== *)
theory LG_Float
  imports LG_Prelude
begin

text \<open>
  Go's \<open>float64\<close> and \<open>math/big.Float\<close>, as far as the number tower uses them.

  A float is a NaN, an infinity, a signed zero or a non-zero rational; the
  arithmetic computes the exact rational result and rounds it, to nearest with
  ties to even, to the format: 53 bits with the exponent range of IEEE 754 for
  \<open>float64\<close>, 128 bits without an exponent range for \<open>big.Float\<close> (whose exponents
  have 32 bits). NaN payloads are not kept. Everything computes.
\<close>

datatype flt = FNaN | FInf bool | FZero bool | FFin rat \<comment> \<open>the \<open>bool\<close>: negative\<close>

section \<open>Rounding\<close>

fun bit_len :: "nat \<Rightarrow> nat" where
  "bit_len n = (if n = 0 then 0 else Suc (bit_len (n div 2)))"

declare bit_len.simps [simp del]

definition pow2 :: "int \<Rightarrow> rat" where
  "pow2 e = (if 0 \<le> e then 2 ^ nat e else 1 / 2 ^ nat (- e))"

text \<open>The exponent of the leading bit of a positive rational.\<close>

definition ilog2 :: "rat \<Rightarrow> int" where
  "ilog2 r = (let (n, d) = quotient_of r; k = int (bit_len (nat n)) - int (bit_len (nat d))
    in if pow2 k \<le> r then k else k - 1)"

definition round_half_even :: "rat \<Rightarrow> int" where
  "round_half_even x = (let f = \<lfloor>x\<rfloor>; d = x - of_int f in
     if d < 1 / 2 then f else if 1 / 2 < d then f + 1 else if even f then f else f + 1)"

text \<open>A positive rational, rounded to \<open>p\<close> bits, none below \<open>2 ^ emin\<close> when a minimum is given.\<close>

definition round_sig :: "nat \<Rightarrow> int option \<Rightarrow> rat \<Rightarrow> rat" where
  "round_sig p emin a = (let e0 = ilog2 a - (int p - 1);
      e = (case emin of None \<Rightarrow> e0 | Some m \<Rightarrow> max e0 m)
    in of_int (round_half_even (a / pow2 e)) * pow2 e)"

text \<open>\<open>neg\<close> is the sign an exact zero takes.\<close>

definition rnd64 :: "bool \<Rightarrow> rat \<Rightarrow> flt" where
  "rnd64 neg r = (if r = 0 then FZero neg
     else let q = round_sig 53 (Some (- 1074)) \<bar>r\<bar> in
       if q = 0 then FZero (r < 0)
       else if pow2 1024 \<le> q then FInf (r < 0)
       else FFin (if r < 0 then - q else q))"

definition rnd128 :: "bool \<Rightarrow> rat \<Rightarrow> flt" where
  "rnd128 neg r = (if r = 0 then FZero neg
     else let q = round_sig 128 None \<bar>r\<bar> in FFin (if r < 0 then - q else q))"

section \<open>Arithmetic\<close>

fun flt_neg :: "flt \<Rightarrow> flt" where
  "flt_neg FNaN = FNaN"
| "flt_neg (FInf s) = FInf (\<not> s)"
| "flt_neg (FZero s) = FZero (\<not> s)"
| "flt_neg (FFin r) = FFin (- r)"

fun flt_sign :: "flt \<Rightarrow> bool" where
  "flt_sign FNaN = False"
| "flt_sign (FInf s) = s"
| "flt_sign (FZero s) = s"
| "flt_sign (FFin r) = (r < 0)"

text \<open>The rational value of a finite float.\<close>

fun flt_rat :: "flt \<Rightarrow> rat option" where
  "flt_rat (FZero s) = Some 0"
| "flt_rat (FFin r) = Some r"
| "flt_rat _ = None"

fun flt_add :: "(bool \<Rightarrow> rat \<Rightarrow> flt) \<Rightarrow> flt \<Rightarrow> flt \<Rightarrow> flt" where
  "flt_add rnd FNaN y = FNaN"
| "flt_add rnd x FNaN = FNaN"
| "flt_add rnd (FInf s) (FInf t) = (if s = t then FInf s else FNaN)"
| "flt_add rnd (FInf s) y = FInf s"
| "flt_add rnd x (FInf t) = FInf t"
| "flt_add rnd (FZero s) (FZero t) = FZero (s \<and> t)"
| "flt_add rnd (FZero s) (FFin r) = rnd False r"
| "flt_add rnd (FFin r) (FZero t) = rnd False r"
| "flt_add rnd (FFin r) (FFin q) = rnd False (r + q)"

definition flt_sub :: "(bool \<Rightarrow> rat \<Rightarrow> flt) \<Rightarrow> flt \<Rightarrow> flt \<Rightarrow> flt" where
  "flt_sub rnd x y = flt_add rnd x (flt_neg y)"

definition flt_mul :: "(bool \<Rightarrow> rat \<Rightarrow> flt) \<Rightarrow> flt \<Rightarrow> flt \<Rightarrow> flt" where
  "flt_mul rnd x y = (let s = (flt_sign x \<noteq> flt_sign y) in
     case (x, y) of
       (FNaN, _) \<Rightarrow> FNaN | (_, FNaN) \<Rightarrow> FNaN
     | (FInf _, FZero _) \<Rightarrow> FNaN | (FZero _, FInf _) \<Rightarrow> FNaN
     | (FInf _, _) \<Rightarrow> FInf s | (_, FInf _) \<Rightarrow> FInf s
     | (FZero _, _) \<Rightarrow> FZero s | (_, FZero _) \<Rightarrow> FZero s
     | (FFin r, FFin q) \<Rightarrow> rnd s (r * q))"

definition flt_div :: "(bool \<Rightarrow> rat \<Rightarrow> flt) \<Rightarrow> flt \<Rightarrow> flt \<Rightarrow> flt" where
  "flt_div rnd x y = (let s = (flt_sign x \<noteq> flt_sign y) in
     case (x, y) of
       (FNaN, _) \<Rightarrow> FNaN | (_, FNaN) \<Rightarrow> FNaN
     | (FInf _, FInf _) \<Rightarrow> FNaN | (FZero _, FZero _) \<Rightarrow> FNaN
     | (FInf _, _) \<Rightarrow> FInf s | (_, FInf _) \<Rightarrow> FZero s
     | (FZero _, _) \<Rightarrow> FZero s | (_, FZero _) \<Rightarrow> FInf s
     | (FFin r, FFin q) \<Rightarrow> rnd s (r / q))"

text \<open>\<open>math.Trunc\<close> and \<open>math.Mod\<close>; the result of \<open>Mod\<close> has the sign of the dividend.\<close>

definition rat_trunc :: "rat \<Rightarrow> int" where
  "rat_trunc r = (if r < 0 then - \<lfloor>- r\<rfloor> else \<lfloor>r\<rfloor>)"

fun flt_trunc :: "flt \<Rightarrow> flt" where
  "flt_trunc (FFin r) = (if rat_trunc r = 0 then FZero (r < 0) else FFin (of_int (rat_trunc r)))"
| "flt_trunc x = x"

definition flt_mod :: "flt \<Rightarrow> flt \<Rightarrow> flt" where
  "flt_mod x y = (case (x, y) of
       (FNaN, _) \<Rightarrow> FNaN | (_, FNaN) \<Rightarrow> FNaN | (FInf _, _) \<Rightarrow> FNaN | (_, FZero _) \<Rightarrow> FNaN
     | (_, FInf _) \<Rightarrow> x | (FZero _, _) \<Rightarrow> x
     | (FFin r, FFin q) \<Rightarrow>
         (let m = r - of_int (rat_trunc (r / q)) * q in if m = 0 then FZero (r < 0) else FFin m))"

section \<open>Comparison\<close>

text \<open>Go's \<open><\<close> and \<open>==\<close>: false on a NaN, and the two zeros are equal.\<close>

fun flt_lt :: "flt \<Rightarrow> flt \<Rightarrow> bool" where
  "flt_lt FNaN y = False"
| "flt_lt x FNaN = False"
| "flt_lt (FInf s) (FInf t) = (s \<and> \<not> t)"
| "flt_lt (FInf s) y = s"
| "flt_lt x (FInf t) = (\<not> t)"
| "flt_lt (FZero s) (FZero t) = False"
| "flt_lt (FZero s) (FFin r) = (0 < r)"
| "flt_lt (FFin r) (FZero t) = (r < 0)"
| "flt_lt (FFin r) (FFin q) = (r < q)"

fun flt_eq :: "flt \<Rightarrow> flt \<Rightarrow> bool" where
  "flt_eq (FInf s) (FInf t) = (s = t)"
| "flt_eq (FZero s) (FZero t) = True"
| "flt_eq (FFin r) (FFin q) = (r = q)"
| "flt_eq x y = False"

definition flt_le :: "flt \<Rightarrow> flt \<Rightarrow> bool" where
  "flt_le x y = (flt_lt x y \<or> flt_eq x y)"

text \<open>\<open>big.Float.Cmp\<close>, and the \<open>if a < b ... if a > b ...\<close> cascade on \<open>float64\<close>.\<close>

definition flt_cmp :: "flt \<Rightarrow> flt \<Rightarrow> int" where
  "flt_cmp x y = (if flt_lt x y then - 1 else if flt_lt y x then 1 else 0)"

fun is_nan :: "flt \<Rightarrow> bool" where
  "is_nan FNaN = True"
| "is_nan _ = False"

fun is_inf :: "flt \<Rightarrow> bool" where
  "is_inf (FInf s) = True"
| "is_inf _ = False"

fun is_zero :: "flt \<Rightarrow> bool" where
  "is_zero (FZero s) = True"
| "is_zero _ = False"

section \<open>The bits of a \<open>float64\<close>\<close>

definition float_bits :: "flt \<Rightarrow> u64" where
  "float_bits x = (case x of
       FNaN \<Rightarrow> 0x7FF8000000000001
     | FInf s \<Rightarrow> (if s then 0xFFF0000000000000 else 0x7FF0000000000000)
     | FZero s \<Rightarrow> (if s then 0x8000000000000000 else 0)
     | FFin r \<Rightarrow> (let e = ilog2 \<bar>r\<bar>; s = (if r < 0 then 2 ^ 63 else 0) in
         if - 1022 \<le> e
         then word_of_int (s + (e + 1023) * 2 ^ 52 + (\<lfloor>\<bar>r\<bar> / pow2 (e - 52)\<rfloor> - 2 ^ 52))
         else word_of_int (s + \<lfloor>\<bar>r\<bar> / pow2 (- 1074)\<rfloor>)))"

section \<open>Facts\<close>

text \<open>A well-formed finite float is not zero: zeros are \<open>FZero\<close>.\<close>

definition wf_flt :: "flt \<Rightarrow> bool" where
  "wf_flt x = (x \<noteq> FFin 0)"

lemma flt_eq_iff_rat:
  "flt_rat x = Some a \<Longrightarrow> flt_rat y = Some b \<Longrightarrow> wf_flt x \<Longrightarrow> wf_flt y \<Longrightarrow> flt_eq x y \<longleftrightarrow> a = b"
  by (cases x; cases y) (auto simp: wf_flt_def)

lemma flt_eq_refl [simp]: "flt_eq x x \<longleftrightarrow> x \<noteq> FNaN"
  by (cases x) auto

lemma flt_eq_sym: "flt_eq x y \<Longrightarrow> flt_eq y x"
  by (cases x; cases y) auto

lemma flt_eq_trans: "flt_eq x y \<Longrightarrow> flt_eq y z \<Longrightarrow> flt_eq x z"
  by (cases x; cases y; cases z) auto

lemma flt_eq_same: "flt_eq x y \<Longrightarrow> \<not> is_zero x \<Longrightarrow> x = y"
  by (cases x; cases y) auto

lemma flt_lt_irrefl [simp]: "\<not> flt_lt x x"
  by (cases x) auto

lemma flt_lt_asym: "flt_lt x y \<Longrightarrow> \<not> flt_lt y x"
  by (cases x; cases y) auto

lemma flt_lt_trans: "flt_lt x y \<Longrightarrow> flt_lt y z \<Longrightarrow> flt_lt x z"
  by (cases x; cases y; cases z) auto

lemma rnd64_not_NaN [simp]: "rnd64 s r \<noteq> FNaN"
  by (auto simp: rnd64_def Let_def)

lemma rnd128_not_NaN [simp]: "rnd128 s r \<noteq> FNaN"
  by (auto simp: rnd128_def Let_def)

lemma rat_trunc_of_int [simp]: "rat_trunc (of_int n) = n"
  by (simp add: rat_trunc_def flip: of_int_minus)

lemma rat_trunc_0 [simp]: "rat_trunc 0 = 0"
  by (simp add: rat_trunc_def)

section \<open>Correct rounding\<close>

lemma bit_len_bounds: "0 < n \<Longrightarrow> 2 ^ (bit_len n - 1) \<le> n \<and> n < 2 ^ bit_len n \<and> 0 < bit_len n"
proof (induction n rule: bit_len.induct)
  case (1 n)
  show ?case
  proof (cases "n div 2 = 0")
    case True
    with 1(2) have "n = 1" by auto
    then show ?thesis by (simp add: bit_len.simps [of "Suc 0"] bit_len.simps [of 0])
  next
    case False
    with 1 have ih: "2 ^ (bit_len (n div 2) - 1) \<le> n div 2" "n div 2 < 2 ^ bit_len (n div 2)"
      "0 < bit_len (n div 2)" by auto
    obtain k where k: "bit_len (n div 2) = Suc k" using ih(3) by (cases "bit_len (n div 2)") auto
    show ?thesis using ih 1(2) by (auto simp: bit_len.simps [of n] k)
  qed
qed

lemma pow2_pos [simp]: "0 < pow2 e"
  by (simp add: pow2_def)

lemma pow2_powi: "pow2 e = 2 powi e"
  by (simp add: pow2_def power_int_def field_simps power_one_over)

lemma pow2_add: "pow2 (a + b) = pow2 a * pow2 b"
  by (simp add: pow2_powi power_int_add)

lemma pow2_diff: "pow2 (a - b) = pow2 a / pow2 b"
  by (simp add: pow2_powi power_int_diff)

lemma pow2_Suc: "pow2 (e + 1) = 2 * pow2 e"
  by (simp add: pow2_add) (simp add: pow2_def)

lemma pow2_mono: "a \<le> b \<Longrightarrow> pow2 a \<le> pow2 b"
  by (simp add: pow2_powi power_int_increasing)

lemma pow2_nat: "pow2 (int n) = 2 ^ n"
  by (simp add: pow2_def)

lemma ilog2_bounds:
  assumes "0 < r"
  shows "pow2 (ilog2 r) \<le> r" "r < pow2 (ilog2 r + 1)"
proof -
  obtain n d where q: "quotient_of r = (n, d)" by (cases "quotient_of r")
  have d: "0 < d" using q by (rule quotient_of_denom_pos)
  have r: "r = of_int n / of_int d" using q by (rule quotient_of_div)
  have n: "0 < n" using assms r d by (simp add: zero_less_divide_iff)
  obtain ln where ln: "bit_len (nat n) = Suc ln" and ln1: "2 ^ ln \<le> nat n" and ln2: "nat n < 2 ^ Suc ln"
    using bit_len_bounds [of "nat n"] n by (cases "bit_len (nat n)") auto
  obtain ld where ld: "bit_len (nat d) = Suc ld" and ld1: "2 ^ ld \<le> nat d" and ld2: "nat d < 2 ^ Suc ld"
    using bit_len_bounds [of "nat d"] d by (cases "bit_len (nat d)") auto
  have N: "pow2 ln \<le> of_int n" "of_int n < pow2 (int ln + 1)"
    and D: "pow2 ld \<le> of_int d" "of_int d < pow2 (int ld + 1)"
  proof -
    have e: "(of_int n :: rat) = of_nat (nat n)" "(of_int d :: rat) = of_nat (nat d)"
      using n d by simp_all
    have p: "pow2 (int m) = of_nat (2 ^ m)" "pow2 (int m + 1) = of_nat (2 ^ Suc m)" for m
      by (simp_all add: pow2_Suc pow2_nat)
    show "pow2 ln \<le> of_int n" "of_int n < pow2 (int ln + 1)"
      "pow2 ld \<le> of_int d" "of_int d < pow2 (int ld + 1)"
      unfolding e p using ln1 ln2 ld1 ld2 by (simp_all only: of_nat_le_iff of_nat_less_iff)
  qed
  define k where "k = int ln - int ld"
  have il: "ilog2 r = (if pow2 k \<le> r then k else k - 1)"
    by (simp add: ilog2_def q ln ld k_def)
  have d': "(0::rat) < of_int d" using d by simp
  have "pow2 k * of_int d < pow2 k * pow2 (int ld + 1)"
    using D(2) by simp
  also have "\<dots> = 2 * pow2 ln"
    by (simp add: k_def pow2_Suc flip: pow2_add)
  finally have lo: "pow2 k < 2 * r"
    using N(1) d' by (simp add: r field_simps)
  have "of_int n < pow2 (k + 1) * pow2 ld"
    using N(2) by (simp add: k_def flip: pow2_add)
  also have "\<dots> \<le> pow2 (k + 1) * of_int d"
    using D(1) by simp
  finally have hi: "r < pow2 (k + 1)"
    using d' by (simp add: r field_simps)
  have h: "pow2 (k - 1) * 2 = pow2 k"
    using pow2_Suc [of "k - 1"] by simp
  show "pow2 (ilog2 r) \<le> r" "r < pow2 (ilog2 r + 1)"
    using lo hi h by (auto simp: il)
qed

lemma round_half_even_of_int [simp]: "round_half_even (of_int n) = n"
  by (simp add: round_half_even_def)

lemma round_half_even_mono_int: "of_int n \<le> x \<Longrightarrow> n \<le> round_half_even x"
  using le_floor_iff [of n x] by (auto simp: round_half_even_def Let_def)

lemma round_sig_exact:
  assumes "a / pow2 (case emin of None \<Rightarrow> ilog2 a - (int p - 1)
      | Some m \<Rightarrow> max (ilog2 a - (int p - 1)) m) = of_int n"
  shows "round_sig p emin a = a"
proof -
  define e where "e = (case emin of None \<Rightarrow> ilog2 a - (int p - 1)
      | Some m \<Rightarrow> max (ilog2 a - (int p - 1)) m)"
  have "a / pow2 e = of_int n" using assms by (simp add: e_def)
  moreover from this have "of_int n * pow2 e = a"
    using pow2_pos [of e] by (simp add: divide_eq_eq)
  ultimately show ?thesis by (simp add: round_sig_def Let_def flip: e_def)
qed

lemma round_sig_None_pos:
  assumes "0 < a" "0 < p"
  shows "0 < round_sig p None a"
proof -
  have "of_int 1 \<le> a / pow2 (ilog2 a - (int p - 1))"
    using ilog2_bounds(1) [OF assms(1)] assms(2) pow2_mono [of "ilog2 a - (int p - 1)" "ilog2 a"]
    by (simp add: le_divide_eq)
  then have "1 \<le> round_half_even (a / pow2 (ilog2 a - (int p - 1)))"
    by (rule round_half_even_mono_int)
  then show ?thesis by (simp add: round_sig_def Let_def zero_less_mult_iff)
qed

lemma wf_rnd64 [simp]: "wf_flt (rnd64 s r)"
  by (auto simp: rnd64_def wf_flt_def Let_def)

lemma wf_rnd128 [simp]: "wf_flt (rnd128 s r)"
  using round_sig_None_pos [of "\<bar>r\<bar>" 128] by (auto simp: rnd128_def wf_flt_def Let_def)

text \<open>Integers of up to 53 bits are exact in a \<open>float64\<close>.\<close>

lemma round_sig_int:
  assumes "0 < n" "n \<le> 2 ^ 53"
  shows "round_sig 53 (Some (- 1074)) (of_int n) = of_int n"
proof -
  let ?a = "of_int n :: rat"
  have a: "0 < ?a" using assms by simp
  define e where "e = max (ilog2 ?a - 52) (- 1074)"
  have il0: "- 1 < ilog2 ?a"
  proof (rule ccontr)
    assume "\<not> - 1 < ilog2 ?a"
    then have "pow2 (ilog2 ?a + 1) \<le> pow2 0" by (intro pow2_mono) simp
    with ilog2_bounds(2) [OF a] have "?a < 1" by (simp add: pow2_def)
    with assms(1) show False by simp
  qed
  have il1: "ilog2 ?a \<le> 53"
  proof (rule ccontr)
    assume "\<not> ilog2 ?a \<le> 53"
    then have "pow2 54 \<le> pow2 (ilog2 ?a)" by (intro pow2_mono) simp
    with ilog2_bounds(1) [OF a] have "pow2 54 \<le> ?a" by simp
    then have "of_int (2 ^ 54) \<le> ?a" by (simp add: pow2_def)
    then show False using assms(2) by (simp only: of_int_le_iff) simp
  qed
  have e: "e = ilog2 ?a - 52" using il0 by (simp add: e_def)
  have "\<exists>m. ?a / pow2 e = of_int m"
  proof (cases "e \<le> 0")
    case True
    then have "?a / pow2 e = of_int (n * 2 ^ nat (- e))"
      by (cases "e = 0") (simp_all add: pow2_def)
    then show ?thesis by blast
  next
    case False
    with e il1 have e1: "e = 1" "ilog2 ?a = 53" by auto
    then have "pow2 53 \<le> ?a" using ilog2_bounds(1) [OF a] by simp
    then have "of_int (2 ^ 53) \<le> ?a" by (simp add: pow2_def)
    then have "2 ^ 53 \<le> n" by (simp only: of_int_le_iff)
    with assms(2) have "n = 2 ^ 53" by simp
    then have "?a / pow2 e = of_int (2 ^ 52)" by (simp add: e1 pow2_def)
    then show ?thesis by blast
  qed
  then obtain m where "?a / pow2 e = of_int m" by blast
  then show ?thesis
    by (intro round_sig_exact [where n = m]) (simp add: e_def)
qed

lemma rnd64_int:
  assumes "\<bar>n\<bar> \<le> 2 ^ 53"
  shows "rnd64 False (of_int n) = (if n = 0 then FZero False else FFin (of_int n))"
proof (cases "n = 0")
  case False
  have "round_sig 53 (Some (- 1074)) \<bar>of_int n\<bar> = of_int \<bar>n\<bar>"
    using round_sig_int [of "\<bar>n\<bar>"] assms False by simp
  moreover have "\<not> pow2 1024 \<le> of_int \<bar>n\<bar>"
  proof
    assume "pow2 1024 \<le> of_int \<bar>n\<bar>"
    then have "of_int (2 ^ 1024) \<le> (of_int \<bar>n\<bar> :: rat)" by (simp add: pow2_def)
    then have "2 ^ 1024 \<le> \<bar>n\<bar>" by (simp only: of_int_le_iff)
    with assms show False by simp
  qed
  ultimately show ?thesis using False by (simp add: rnd64_def Let_def)
qed (simp add: rnd64_def)

end
