(* ===== verification/LG_Value.thy ===== *)
theory LG_Value
  imports LG_Float "HOL-Library.Signed_Division" "HOL-Library.Char_ord"
begin

text \<open>
  The scalar values of \<open>pkg/vm\<close>. \<open>VInt\<close> is Go's \<open>Int\<close>, an \<open>int64\<close> on every host,
  hence a 64-bit word read with \<open>sint\<close>. \<open>VBigDec\<close> holds the \<open>big.Float\<close> of a
  \<open>BigDecimal\<close> (never NaN, and \<open>NewBigDecimal\<close> makes its zero positive). Strings,
  keywords and symbols are byte strings. \<open>VRef k a\<close> is one of the objects the
  program compares by pointer: of kind \<open>k\<close>, at address \<open>a\<close>. Collections are
  objects of their own theories and are not keys here, but for the empty list,
  which the key equivalence treats apart.
\<close>

type_synonym i64 = "64 word"

datatype rkind = RVar | RNamespace | RNativeFn | RFunc | RClosure | RMultiArityFn | RMultiFn | RProtocol

datatype val = VNil | VBool bool | VInt i64 | VFloat flt | VFloat32 flt | VBigInt int
  | VRatio rat | VBigDec flt | VChar int | VString string | VKeyword string | VSymbol string
  | VEmptyList | VRef rkind nat

fun rkind_name :: "rkind \<Rightarrow> string" where
  "rkind_name RVar = ''let-go.lang.Var''"
| "rkind_name RNamespace = ''let-go.lang.Namespace''"
| "rkind_name RNativeFn = ''let-go.lang.NativeFn''"
| "rkind_name RFunc = ''let-go.lang.Fn''"
| "rkind_name RClosure = ''let-go.lang.Fn''"
| "rkind_name RMultiArityFn = ''let-go.lang.Fn''"
| "rkind_name RMultiFn = ''let-go.lang.MultiFn''"
| "rkind_name RProtocol = ''let-go.lang.Protocol''"

text \<open>\<open>v.Type().Name()\<close>\<close>

fun type_name :: "val \<Rightarrow> string" where
  "type_name VNil = ''nil''"
| "type_name (VBool b) = ''let-go.lang.Boolean''"
| "type_name (VInt i) = ''let-go.lang.Int''"
| "type_name (VFloat f) = ''let-go.lang.Float''"
| "type_name (VFloat32 f) = ''let-go.lang.Float''"
| "type_name (VBigInt n) = ''let-go.lang.BigInt''"
| "type_name (VRatio r) = ''let-go.lang.Ratio''"
| "type_name (VBigDec d) = ''let-go.lang.BigDecimal''"
| "type_name (VChar c) = ''let-go.lang.Character''"
| "type_name (VString s) = ''let-go.lang.String''"
| "type_name (VKeyword s) = ''let-go.lang.Keyword''"
| "type_name (VSymbol s) = ''let-go.lang.Symbol''"
| "type_name VEmptyList = ''let-go.lang.PersistentList''"
| "type_name (VRef k a) = rkind_name k"

text \<open>Values the number tower may meet: no \<open>NaN\<close> decimal, no zero written as \<open>FFin 0\<close>, no integral ratio.\<close>

fun wf_val :: "val \<Rightarrow> bool" where
  "wf_val (VFloat f) = wf_flt f"
| "wf_val (VFloat32 f) = wf_flt f"
| "wf_val (VBigDec d) = (wf_flt d \<and> d \<noteq> FNaN \<and> d \<noteq> FZero True)"
| "wf_val (VRatio r) = (snd (quotient_of r) \<noteq> 1)"
| "wf_val v = True"

section \<open>Signed 64-bit integers\<close>

definition max_i64 :: int where "max_i64 = 9223372036854775807"
definition min_i64 :: int where "min_i64 = - 9223372036854775808"

definition in_i64 :: "int \<Rightarrow> bool" where
  "in_i64 n = (min_i64 \<le> n \<and> n \<le> max_i64)"

lemmas i64_bounds = max_i64_def min_i64_def in_i64_def

lemma sint_i64_range [simp]: "min_i64 \<le> sint (x :: i64)" "sint (x :: i64) \<le> max_i64"
  using sint_greater_eq [of x] sint_less [of x] by (auto simp: i64_bounds)

lemma in_i64_sint [simp]: "in_i64 (sint (x :: i64))"
  by (simp add: in_i64_def)

lemma sint_word_of_int_i64: "sint (word_of_int n :: i64) = (n + 2 ^ 63) mod 2 ^ 64 - 2 ^ 63"
  using int_word_sint [where 'a = 64 and x = n] by simp

lemma sint_word_of_int_in: "in_i64 n \<Longrightarrow> sint (word_of_int n :: i64) = n"
  by (simp add: sint_word_of_int_i64 i64_bounds)

lemma word_of_int_sint_i64 [simp]: "word_of_int (sint (x :: i64)) = x"
  by simp

lemma sint_inject_i64: "sint (x :: i64) = sint y \<longleftrightarrow> x = y"
  by (metis word_of_int_sint_i64)

lemma sint_eq_0_i64 [simp]: "sint (x :: i64) = 0 \<longleftrightarrow> x = 0"
  by (metis sint_inject_i64 sint_0)

text \<open>An arithmetic operation of Go on \<open>int64\<close>: the exact result, wrapped.\<close>

lemma sint_add_i64: "in_i64 (sint x + sint y) \<Longrightarrow> sint ((x :: i64) + y) = sint x + sint y"
  by (metis sint_word_of_int_in wi_hom_add word_of_int_sint_i64)

lemma sint_sub_i64: "in_i64 (sint x - sint y) \<Longrightarrow> sint ((x :: i64) - y) = sint x - sint y"
  by (metis sint_word_of_int_in wi_hom_sub word_of_int_sint_i64)

lemma sint_mul_i64: "in_i64 (sint x * sint y) \<Longrightarrow> sint ((x :: i64) * y) = sint x * sint y"
  by (metis sint_word_of_int_in wi_hom_mult word_of_int_sint_i64)

lemma sint_neg_i64: "in_i64 (- sint x) \<Longrightarrow> sint (- (x :: i64)) = - sint x"
  by (metis sint_word_of_int_in wi_hom_neg word_of_int_sint_i64)

section \<open>Truncated division\<close>

lemma rat_trunc_neg: "rat_trunc (- x) = - rat_trunc x"
  by (simp add: rat_trunc_def)

lemma rat_trunc_div_pos: "0 \<le> a \<Longrightarrow> 0 < b \<Longrightarrow> rat_trunc (of_int a / of_int b) = a div b"
  by (simp add: rat_trunc_def divide_less_0_iff floor_divide_of_int_eq)

lemma rat_trunc_div_sdiv:
  assumes "b \<noteq> 0"
  shows "rat_trunc (of_int a / of_int b) = a sdiv b"
proof -
  have p: "rat_trunc (of_int \<bar>a\<bar> / of_int \<bar>b\<bar>) = \<bar>a\<bar> div \<bar>b\<bar>"
    using assms by (intro rat_trunc_div_pos) auto
  consider "0 \<le> a" "0 < b" | "0 \<le> a" "b < 0" | "a < 0" "0 < b" | "a < 0" "b < 0"
    using assms by linarith
  then show ?thesis
  proof cases
    case 1
    then show ?thesis using p by (cases "a = 0") (simp_all add: signed_divide_int_def)
  next
    case 2
    then show ?thesis
      using p rat_trunc_neg [of "of_int a / of_int b"] by (cases "a = 0") (simp_all add: signed_divide_int_def)
  next
    case 3
    then show ?thesis
      using p rat_trunc_neg [of "of_int a / of_int b"] by (simp add: signed_divide_int_def)
  next
    case 4
    then show ?thesis using p by (simp add: signed_divide_int_def)
  qed
qed

lemma sdiv_smod: "(a :: int) smod b = a - (a sdiv b) * b"
  by (simp add: minus_sdiv_mult_eq_smod)

lemma abs_smod_less: "b \<noteq> 0 \<Longrightarrow> \<bar>(a :: int) smod b\<bar> < \<bar>b\<bar>"
  by (simp add: signed_modulo_int_def abs_mult sgn_if)

lemma in_i64_smod: "in_i64 b \<Longrightarrow> b \<noteq> 0 \<Longrightarrow> in_i64 ((a :: int) smod b)"
  using abs_smod_less [of b a] by (auto simp: i64_bounds)

lemma abs_sdiv_le: "\<bar>(a :: int) sdiv b\<bar> \<le> \<bar>a\<bar>"
proof -
  have "\<bar>a\<bar> div \<bar>b\<bar> \<le> \<bar>a\<bar>"
    using zdiv_mono2 [of "\<bar>a\<bar>" 1 "\<bar>b\<bar>"] by (cases "b = 0") auto
  moreover have "\<bar>a sdiv b\<bar> = \<bar>a\<bar> div \<bar>b\<bar>" if "a \<noteq> 0" "b \<noteq> 0"
    using that unfolding signed_divide_int_def abs_mult
    by (simp add: abs_sgn_eq pos_imp_zdiv_nonneg_iff)
  ultimately show ?thesis
    by (cases "a = 0 \<or> b = 0") (auto simp: signed_divide_int_def)
qed

lemma in_i64_sdiv:
  assumes "in_i64 a" "in_i64 b" "\<not> (a = min_i64 \<and> b = - 1)"
  shows "in_i64 (a sdiv b)"
proof (cases "a = min_i64")
  case False
  with assms(1) abs_sdiv_le [of a b] show ?thesis by (auto simp: i64_bounds)
next
  case True
  have "a sdiv b \<le> max_i64"
  proof (cases "b < - 1")
    case True
    then have "\<bar>a\<bar> div \<bar>b\<bar> \<le> \<bar>a\<bar> div 2" by (intro zdiv_mono2) auto
    with \<open>a = min_i64\<close> True show ?thesis by (simp add: signed_divide_int_def i64_bounds)
  next
    case False
    with assms(3) \<open>a = min_i64\<close> have "0 \<le> b" by auto
    then have "a sdiv b \<le> 0"
      using \<open>a = min_i64\<close> by (auto simp: signed_divide_int_def i64_bounds sgn_if pos_imp_zdiv_nonneg_iff)
    then show ?thesis by (simp add: i64_bounds)
  qed
  with abs_sdiv_le [of a b] True show ?thesis by (auto simp: i64_bounds)
qed

section \<open>The exact value of a number\<close>

declare of_int_sint [simp del] \<comment> \<open>\<open>sint\<close> stays the integer reading of a word\<close>

text \<open>Of the exact types, integers, big integers and ratios.\<close>

fun exact :: "val \<Rightarrow> rat option" where
  "exact (VInt x) = Some (of_int (sint x))"
| "exact (VBigInt n) = Some (of_int n)"
| "exact (VRatio r) = Some r"
| "exact _ = None"

lemma exact_cases:
  assumes "exact v = Some r"
  obtains (int) x where "v = VInt x" "r = of_int (sint x)"
    | (big) n where "v = VBigInt n" "r = of_int n"
    | (ratio) "v = VRatio r"
  using assms by (cases v) auto

end
