(* ===== verification/LG_Numbers.thy ===== *)
theory LG_Numbers
  imports LG_Value
begin

text \<open>
  The number tower of \<open>pkg/vm/numbers.go\<close>, \<open>numbers_promote.go\<close>, \<open>bigint.go\<close>,
  \<open>ratio.go\<close> and \<open>bigdecimal.go\<close>. Each Go function is one definition, its type
  switches written as case expressions in the order of the source. An \<open>error\<close> is
  \<open>Err\<close>, a panic of \<open>math/big\<close> (an \<open>ErrNaN\<close>, a rational division by zero) is
  \<open>Panic\<close>. The lemmas show that on the exact types (Int, BigInt, Ratio) the
  operations compute the rational operation or report the overflow.
\<close>

datatype num_err = EIntOverflow | EDivideByZero | ECannot2 string string string
  | ECannot1 string string | EUnsupported

type_synonym num_result = "(num_err, val) outcome"

definition omap :: "('a \<Rightarrow> 'b) \<Rightarrow> ('e, 'a) outcome \<Rightarrow> ('e, 'b) outcome" where
  "omap f m = obind m (\<lambda>x. Ok (f x))"

section \<open>Checked machine arithmetic\<close>

definition maxIntValue :: i64 where "maxIntValue = word_of_int max_i64"
definition minIntValue :: i64 where "minIntValue = - maxIntValue - 1"
definition mulGuardMax :: i64 where "mulGuardMax = push_bit 31 1 - 1"
definition mulGuardMin :: i64 where "mulGuardMin = - mulGuardMax - 1"

definition i64_quo :: "i64 \<Rightarrow> i64 \<Rightarrow> i64" where
  "i64_quo a b = word_of_int (sint a sdiv sint b)"

definition i64_rem :: "i64 \<Rightarrow> i64 \<Rightarrow> i64" where
  "i64_rem a b = word_of_int (sint a smod sint b)"

definition checkedAddInt :: "i64 \<Rightarrow> i64 \<Rightarrow> i64 option" where
  "checkedAddInt a b =
     (if (0 <s b \<and> maxIntValue - b <s a) \<or> (b <s 0 \<and> a <s minIntValue - b)
      then None else Some (a + b))"

definition checkedSubInt :: "i64 \<Rightarrow> i64 \<Rightarrow> i64 option" where
  "checkedSubInt a b =
     (if (b <s 0 \<and> maxIntValue + b <s a) \<or> (0 <s b \<and> a <s minIntValue + b)
      then None else Some (a - b))"

definition checkedMulInt :: "i64 \<Rightarrow> i64 \<Rightarrow> i64 option" where
  "checkedMulInt a b =
     (if mulGuardMin \<le>s a \<and> a \<le>s mulGuardMax \<and> mulGuardMin \<le>s b \<and> b \<le>s mulGuardMax
      then Some (a * b)
      else if a = 0 \<or> b = 0 then Some 0
      else if (a = minIntValue \<and> b = - 1) \<or> (b = minIntValue \<and> a = - 1) then None
      else if 0 <s a then
        (if 0 <s b \<and> i64_quo maxIntValue b <s a then None
         else if b <s 0 \<and> b <s i64_quo minIntValue a then None
         else Some (a * b))
      else
        (if 0 <s b \<and> a <s i64_quo minIntValue b then None
         else if b <s 0 \<and> a <s i64_quo maxIntValue b then None
         else Some (a * b)))"

text \<open>The promoting operations return the wrapped result and whether it overflowed.\<close>

definition addIntChecked :: "i64 \<Rightarrow> i64 \<Rightarrow> i64 \<times> bool" where
  "addIntChecked a b = (let sum = a + b in (sum, ((a XOR sum) AND (b XOR sum)) <s 0))"

definition subIntChecked :: "i64 \<Rightarrow> i64 \<Rightarrow> i64 \<times> bool" where
  "subIntChecked a b = (let diff = a - b in (diff, ((a XOR b) AND (a XOR diff)) <s 0))"

definition mulIntChecked :: "i64 \<Rightarrow> i64 \<Rightarrow> i64 \<times> bool" where
  "mulIntChecked a b =
     (if a = 0 \<or> b = 0 then (0, False)
      else if (a = word_of_int min_i64 \<and> b = - 1) \<or> (b = word_of_int min_i64 \<and> a = - 1) then (0, True)
      else let p = a * b in if i64_quo p b \<noteq> a then (0, True) else (p, False))"

definition negIntChecked :: "i64 \<Rightarrow> i64 \<times> bool" where
  "negIntChecked a = (if a = word_of_int min_i64 then (0, True) else (- a, False))"

section \<open>Conversions\<close>

fun normalizeFloat32 :: "val \<Rightarrow> val" where
  "normalizeFloat32 (VFloat32 f) = VFloat f"
| "normalizeFloat32 v = v"

fun IsNumber :: "val \<Rightarrow> bool" where
  "IsNumber (VInt _) = True"
| "IsNumber (VFloat _) = True"
| "IsNumber (VFloat32 _) = True"
| "IsNumber (VBigInt _) = True"
| "IsNumber (VRatio _) = True"
| "IsNumber (VBigDec _) = True"
| "IsNumber _ = False"

fun is_bigdec :: "val \<Rightarrow> bool" where
  "is_bigdec (VBigDec _) = True"
| "is_bigdec _ = False"

fun is_float :: "val \<Rightarrow> bool" where
  "is_float (VFloat _) = True"
| "is_float _ = False"

fun IsRatio :: "val \<Rightarrow> bool" where
  "IsRatio (VRatio _) = True"
| "IsRatio _ = False"

definition int_float :: "int \<Rightarrow> flt" where
  "int_float n = rnd64 False (of_int n)"

definition i64_float :: "i64 \<Rightarrow> flt" where
  "i64_float x = int_float (sint x)"

text \<open>\<open>big.Float.Float64\<close>\<close>

fun big_float64 :: "flt \<Rightarrow> flt" where
  "big_float64 (FFin r) = rnd64 False r"
| "big_float64 x = x"

fun ToFloat :: "val \<Rightarrow> flt option" where
  "ToFloat (VInt n) = Some (i64_float n)"
| "ToFloat (VFloat f) = Some f"
| "ToFloat (VFloat32 f) = Some f"
| "ToFloat (VBigInt n) = Some (int_float n)"
| "ToFloat (VRatio r) = Some (rnd64 False r)"
| "ToFloat (VBigDec d) = Some (big_float64 d)"
| "ToFloat _ = None"

text \<open>\<open>f, _ := ToFloat(v)\<close>\<close>

definition to_float :: "val \<Rightarrow> flt" where
  "to_float v = (case ToFloat v of None \<Rightarrow> FZero False | Some f \<Rightarrow> f)"

fun ToRat :: "val \<Rightarrow> rat option" where
  "ToRat (VRatio r) = Some r"
| "ToRat (VInt n) = Some (of_int (sint n))"
| "ToRat (VBigInt n) = Some (of_int n)"
| "ToRat _ = None"

definition MaybeDowngrade :: "int \<Rightarrow> val" where
  "MaybeDowngrade n = (if in_i64 n then VInt (word_of_int n) else VBigInt n)"

definition rat_is_int :: "rat \<Rightarrow> bool" where
  "rat_is_int r = (snd (quotient_of r) = 1)"

definition rat_num :: "rat \<Rightarrow> int" where
  "rat_num r = fst (quotient_of r)"

definition MaybeSimplifyRatio :: "rat \<Rightarrow> val" where
  "MaybeSimplifyRatio r =
     (if rat_is_int r
      then (if in_i64 (rat_num r) then VInt (word_of_int (rat_num r)) else VBigInt (rat_num r))
      else VRatio r)"

fun canonicalBigDecimal :: "flt \<Rightarrow> flt" where
  "canonicalBigDecimal (FZero s) = FZero False"
| "canonicalBigDecimal v = v"

definition NewBigDecimal :: "flt \<Rightarrow> val" where
  "NewBigDecimal v = VBigDec (canonicalBigDecimal v)"

text \<open>\<open>SetPrec(128).SetFloat64(f)\<close>: exact, and a panic on a NaN.\<close>

definition big_set_float64 :: "flt \<Rightarrow> flt option" where
  "big_set_float64 f = (if is_nan f then None else Some f)"

definition NewBigDecimalFromFloat64 :: "flt \<Rightarrow> num_result" where
  "NewBigDecimalFromFloat64 f = of_panic (map_option NewBigDecimal (big_set_float64 f))"

text \<open>A \<open>big.Float\<close> operation at 128 bits panics where the result is not a number.\<close>

definition big_op :: "((bool \<Rightarrow> rat \<Rightarrow> flt) \<Rightarrow> flt \<Rightarrow> flt \<Rightarrow> flt) \<Rightarrow> flt \<Rightarrow> flt \<Rightarrow> flt option" where
  "big_op f x y = (let z = f rnd128 x y in if is_nan z then None else Some z)"

definition ratAdd :: "rat \<Rightarrow> rat \<Rightarrow> rat option" where "ratAdd a b = Some (a + b)"
definition ratSub :: "rat \<Rightarrow> rat \<Rightarrow> rat option" where "ratSub a b = Some (a - b)"
definition ratMul :: "rat \<Rightarrow> rat \<Rightarrow> rat option" where "ratMul a b = Some (a * b)"
definition ratDiv :: "rat \<Rightarrow> rat \<Rightarrow> rat option" where
  "ratDiv a b = (if b = 0 then None else Some (a / b))"

definition floatAdd :: "flt \<Rightarrow> flt \<Rightarrow> flt" where "floatAdd = flt_add rnd64"
definition floatSub :: "flt \<Rightarrow> flt \<Rightarrow> flt" where "floatSub = flt_sub rnd64"
definition floatMul :: "flt \<Rightarrow> flt \<Rightarrow> flt" where "floatMul = flt_mul rnd64"
definition floatDiv :: "flt \<Rightarrow> flt \<Rightarrow> flt" where "floatDiv = flt_div rnd64"

definition bdAdd :: "flt \<Rightarrow> flt \<Rightarrow> flt option" where "bdAdd = big_op flt_add"
definition bdSub :: "flt \<Rightarrow> flt \<Rightarrow> flt option" where "bdSub = big_op flt_sub"
definition bdMul :: "flt \<Rightarrow> flt \<Rightarrow> flt option" where "bdMul = big_op flt_mul"
definition bdDiv :: "flt \<Rightarrow> flt \<Rightarrow> flt option" where "bdDiv = big_op flt_div"

section \<open>Ratio and BigDecimal fallbacks\<close>

definition big_dec_op :: "(flt \<Rightarrow> flt \<Rightarrow> flt option) \<Rightarrow> flt option \<Rightarrow> flt option \<Rightarrow> num_result" where
  "big_dec_op bop x y = of_panic (do { a \<leftarrow> x; b \<leftarrow> y; c \<leftarrow> bop a b; Some (NewBigDecimal c) })"

definition rat_op :: "(rat \<Rightarrow> rat \<Rightarrow> rat option) \<Rightarrow> rat \<Rightarrow> rat \<Rightarrow> num_result" where
  "rat_op rop x y = of_panic (map_option MaybeSimplifyRatio (rop x y))"

text \<open>The arm for a ratio, and what follows when it does not apply.\<close>

definition ratio_arm ::
  "val \<Rightarrow> val \<Rightarrow> (rat \<Rightarrow> rat \<Rightarrow> rat option) \<Rightarrow> (flt \<Rightarrow> flt \<Rightarrow> flt) \<Rightarrow> num_result" where
  "ratio_arm a b rop fop =
     (case (a, b) of
        (VRatio _, VFloat f) \<Rightarrow> Ok (VFloat (fop (to_float a) f))
      | (VFloat f, VRatio _) \<Rightarrow> Ok (VFloat (fop f (to_float b)))
      | _ \<Rightarrow>
        if IsRatio a \<or> IsRatio b then
          (case (ToRat a, ToRat b) of
             (Some ar, Some br) \<Rightarrow> rat_op rop ar br
           | _ \<Rightarrow> Err EUnsupported)
        else Err EUnsupported)"

definition numBinOpFallback ::
  "val \<Rightarrow> val \<Rightarrow> (rat \<Rightarrow> rat \<Rightarrow> rat option) \<Rightarrow> (flt \<Rightarrow> flt \<Rightarrow> flt option) \<Rightarrow>
   (flt \<Rightarrow> flt \<Rightarrow> flt) \<Rightarrow> num_result" where
  "numBinOpFallback a b rop bop fop =
     (case a of
        VBigDec ad \<Rightarrow>
          (case b of
             VBigDec bd \<Rightarrow> big_dec_op bop (Some ad) (Some bd)
           | _ \<Rightarrow> (case ToFloat b of
               Some bf \<Rightarrow> big_dec_op bop (Some ad) (big_set_float64 bf)
             | None \<Rightarrow> ratio_arm a b rop fop))
      | _ \<Rightarrow>
          (case b of
             VBigDec bd \<Rightarrow> (case ToFloat a of
               Some af \<Rightarrow> big_dec_op bop (big_set_float64 af) (Some bd)
             | None \<Rightarrow> ratio_arm a b rop fop)
           | _ \<Rightarrow> ratio_arm a b rop fop))"

definition rat_cmp :: "rat \<Rightarrow> rat \<Rightarrow> int" where
  "rat_cmp x y = (if x < y then - 1 else if y < x then 1 else 0)"

definition ratio_cmp_arm :: "val \<Rightarrow> val \<Rightarrow> (num_err, int) outcome" where
  "ratio_cmp_arm a b =
     (case (a, b) of
        (VRatio ar, VFloat bf) \<Rightarrow> Ok (flt_cmp (rnd64 False ar) bf)
      | (VFloat af, VRatio br) \<Rightarrow> Ok (flt_cmp af (rnd64 False br))
      | _ \<Rightarrow>
        if IsRatio a \<or> IsRatio b then
          (case (ToRat a, ToRat b) of
             (Some ar, Some br) \<Rightarrow> Ok (rat_cmp ar br)
           | _ \<Rightarrow> Err EUnsupported)
        else Err EUnsupported)"

definition numCmpFallback :: "val \<Rightarrow> val \<Rightarrow> (num_err, int) outcome" where
  "numCmpFallback a b =
     (case a of
        VBigDec ad \<Rightarrow>
          (case b of
             VBigDec bd \<Rightarrow> Ok (flt_cmp ad bd)
           | _ \<Rightarrow> (case ToFloat b of
               Some bf \<Rightarrow> omap (flt_cmp ad) (of_panic (big_set_float64 bf))
             | None \<Rightarrow> ratio_cmp_arm a b))
      | _ \<Rightarrow>
          (case b of
             VBigDec bd \<Rightarrow> (case ToFloat a of
               Some af \<Rightarrow> omap (\<lambda>av. flt_cmp av bd) (of_panic (big_set_float64 af))
             | None \<Rightarrow> ratio_cmp_arm a b)
           | _ \<Rightarrow> ratio_cmp_arm a b))"

text \<open>\<open>if r, err := fallback; err == nil { return r }\<close>, else the type error.\<close>

fun or_cannot :: "string \<Rightarrow> val \<Rightarrow> val \<Rightarrow> (num_err, 'a) outcome \<Rightarrow> (num_err, 'a) outcome" where
  "or_cannot what a b (Ok r) = Ok r"
| "or_cannot what a b (Err e) = Err (ECannot2 what (type_name a) (type_name b))"
| "or_cannot what a b Panic = Panic"

section \<open>Addition, subtraction, multiplication\<close>

fun checked :: "i64 option \<Rightarrow> num_result" where
  "checked (Some r) = Ok (VInt r)"
| "checked None = Err EIntOverflow"

definition NumAdd :: "val \<Rightarrow> val \<Rightarrow> num_result" where
  "NumAdd a0 b0 = (let a = normalizeFloat32 a0; b = normalizeFloat32 b0;
      fallback = or_cannot ''add'' a b (numBinOpFallback a b ratAdd bdAdd floatAdd) in
     case a of
       VInt av \<Rightarrow>
         (case b of
            VInt bv \<Rightarrow> checked (checkedAddInt av bv)
          | VFloat bv \<Rightarrow> Ok (VFloat (floatAdd (i64_float av) bv))
          | VBigInt bv \<Rightarrow> Ok (VBigInt (sint av + bv))
          | _ \<Rightarrow> fallback)
     | VFloat av \<Rightarrow>
         (case b of
            VInt bv \<Rightarrow> Ok (VFloat (floatAdd av (i64_float bv)))
          | VFloat bv \<Rightarrow> Ok (VFloat (floatAdd av bv))
          | VBigInt bv \<Rightarrow> Ok (VFloat (floatAdd av (int_float bv)))
          | _ \<Rightarrow> fallback)
     | VBigInt av \<Rightarrow>
         (case b of
            VInt bv \<Rightarrow> Ok (VBigInt (av + sint bv))
          | VFloat bv \<Rightarrow> Ok (VFloat (floatAdd (int_float av) bv))
          | VBigInt bv \<Rightarrow> Ok (VBigInt (av + bv))
          | _ \<Rightarrow> fallback)
     | _ \<Rightarrow> fallback)"

definition NumSub :: "val \<Rightarrow> val \<Rightarrow> num_result" where
  "NumSub a0 b0 = (let a = normalizeFloat32 a0; b = normalizeFloat32 b0;
      fallback = or_cannot ''subtract'' a b (numBinOpFallback a b ratSub bdSub floatSub) in
     case a of
       VInt av \<Rightarrow>
         (case b of
            VInt bv \<Rightarrow> checked (checkedSubInt av bv)
          | VFloat bv \<Rightarrow> Ok (VFloat (floatSub (i64_float av) bv))
          | VBigInt bv \<Rightarrow> Ok (VBigInt (sint av - bv))
          | _ \<Rightarrow> fallback)
     | VFloat av \<Rightarrow>
         (case b of
            VInt bv \<Rightarrow> Ok (VFloat (floatSub av (i64_float bv)))
          | VFloat bv \<Rightarrow> Ok (VFloat (floatSub av bv))
          | VBigInt bv \<Rightarrow> Ok (VFloat (floatSub av (int_float bv)))
          | _ \<Rightarrow> fallback)
     | VBigInt av \<Rightarrow>
         (case b of
            VInt bv \<Rightarrow> Ok (VBigInt (av - sint bv))
          | VFloat bv \<Rightarrow> Ok (VFloat (floatSub (int_float av) bv))
          | VBigInt bv \<Rightarrow> Ok (VBigInt (av - bv))
          | _ \<Rightarrow> fallback)
     | _ \<Rightarrow> fallback)"

definition NumMul :: "val \<Rightarrow> val \<Rightarrow> num_result" where
  "NumMul a0 b0 = (let a = normalizeFloat32 a0; b = normalizeFloat32 b0;
      fallback = or_cannot ''multiply'' a b (numBinOpFallback a b ratMul bdMul floatMul) in
     case a of
       VInt av \<Rightarrow>
         (case b of
            VInt bv \<Rightarrow> checked (checkedMulInt av bv)
          | VFloat bv \<Rightarrow> Ok (VFloat (floatMul (i64_float av) bv))
          | VBigInt bv \<Rightarrow> Ok (VBigInt (sint av * bv))
          | _ \<Rightarrow> fallback)
     | VFloat av \<Rightarrow>
         (case b of
            VInt bv \<Rightarrow> Ok (VFloat (floatMul av (i64_float bv)))
          | VFloat bv \<Rightarrow> Ok (VFloat (floatMul av bv))
          | VBigInt bv \<Rightarrow> Ok (VFloat (floatMul av (int_float bv)))
          | _ \<Rightarrow> fallback)
     | VBigInt av \<Rightarrow>
         (case b of
            VInt bv \<Rightarrow> Ok (VBigInt (av * sint bv))
          | VFloat bv \<Rightarrow> Ok (VFloat (floatMul (int_float av) bv))
          | VBigInt bv \<Rightarrow> Ok (VBigInt (av * bv))
          | _ \<Rightarrow> fallback)
     | _ \<Rightarrow> fallback)"

section \<open>Division, negation, absolute value\<close>

definition special_float :: "val \<Rightarrow> bool" where
  "special_float v = (case ToFloat v of None \<Rightarrow> False | Some f \<Rightarrow> is_nan f \<or> is_inf f)"

definition NumDiv :: "val \<Rightarrow> val \<Rightarrow> num_result" where
  "NumDiv a0 b0 = (let a = normalizeFloat32 a0; b = normalizeFloat32 b0;
      fallback = or_cannot ''divide'' a b (numBinOpFallback a b ratDiv bdDiv floatDiv) in
     if is_bigdec a \<and> special_float b \<or> is_bigdec b \<and> special_float a \<or>
        is_bigdec a \<and> is_float b \<or> is_bigdec b \<and> is_float a
     then Ok (VFloat (floatDiv (to_float a) (to_float b)))
     else case a of
       VInt av \<Rightarrow>
         (case b of
            VInt bv \<Rightarrow>
              if bv = 0 then Err EDivideByZero
              else Ok (MaybeSimplifyRatio (of_int (sint av) / of_int (sint bv)))
          | VFloat bv \<Rightarrow> Ok (VFloat (floatDiv (i64_float av) bv))
          | VBigInt bv \<Rightarrow>
              if bv = 0 then Err EDivideByZero
              else Ok (MaybeSimplifyRatio (of_int (sint av) / of_int bv))
          | _ \<Rightarrow> fallback)
     | VFloat av \<Rightarrow>
         (case b of
            VInt bv \<Rightarrow> Ok (VFloat (floatDiv av (i64_float bv)))
          | VFloat bv \<Rightarrow> Ok (VFloat (floatDiv av bv))
          | VBigInt bv \<Rightarrow> Ok (VFloat (floatDiv av (int_float bv)))
          | _ \<Rightarrow> fallback)
     | VBigInt av \<Rightarrow>
         (case b of
            VInt bv \<Rightarrow>
              if bv = 0 then Err EDivideByZero
              else Ok (MaybeSimplifyRatio (of_int av / of_int (sint bv)))
          | VFloat bv \<Rightarrow>
              if is_zero bv then Err EDivideByZero
              else Ok (VFloat (floatDiv (int_float av) bv))
          | VBigInt bv \<Rightarrow>
              if bv = 0 then Err EDivideByZero
              else Ok (MaybeSimplifyRatio (of_int av / of_int bv))
          | _ \<Rightarrow> fallback)
     | _ \<Rightarrow> fallback)"

text \<open>\<open>SetPrec(128)\<close> before \<open>Neg\<close> and \<open>Abs\<close> rounds a wider receiver.\<close>

fun big_round :: "flt \<Rightarrow> flt" where
  "big_round (FFin r) = rnd128 False r"
| "big_round x = x"

fun flt_abs :: "flt \<Rightarrow> flt" where
  "flt_abs FNaN = FNaN"
| "flt_abs (FInf s) = FInf False"
| "flt_abs (FZero s) = FZero False"
| "flt_abs (FFin r) = FFin \<bar>r\<bar>"

definition NumNeg :: "val \<Rightarrow> num_result" where
  "NumNeg a0 = (let a = normalizeFloat32 a0 in
     case a of
       VInt av \<Rightarrow> Ok (VInt (- av))
     | VFloat av \<Rightarrow> Ok (VFloat (flt_neg av))
     | VBigInt av \<Rightarrow> Ok (MaybeDowngrade (- av))
     | VRatio av \<Rightarrow> Ok (VRatio (- av))
     | VBigDec av \<Rightarrow> Ok (NewBigDecimal (flt_neg (big_round av)))
     | _ \<Rightarrow> Err (ECannot1 ''negate'' (type_name a)))"

definition NumAbs :: "val \<Rightarrow> num_result" where
  "NumAbs a0 = (let a = normalizeFloat32 a0 in
     case a of
       VInt av \<Rightarrow> Ok (VInt (if av <s 0 then - av else av))
     | VFloat av \<Rightarrow> Ok (VFloat (if flt_lt av (FZero False) then flt_neg av else av))
     | VBigInt av \<Rightarrow> Ok (MaybeDowngrade \<bar>av\<bar>)
     | VRatio av \<Rightarrow> Ok (VRatio \<bar>av\<bar>)
     | VBigDec av \<Rightarrow> Ok (NewBigDecimal (flt_abs (big_round av)))
     | _ \<Rightarrow> Err (ECannot1 ''abs'' (type_name a)))"

section \<open>Promoting and wrapping arithmetic\<close>

definition NumAddP :: "val \<Rightarrow> val \<Rightarrow> num_result" where
  "NumAddP a b = (case (a, b) of
       (VInt av, VInt bv) \<Rightarrow>
         (let (sum, overflow) = addIntChecked av bv in
          Ok (if \<not> overflow then VInt sum else VBigInt (sint av + sint bv)))
     | _ \<Rightarrow> NumAdd a b)"

definition NumSubP :: "val \<Rightarrow> val \<Rightarrow> num_result" where
  "NumSubP a b = (case (a, b) of
       (VInt av, VInt bv) \<Rightarrow>
         (let (diff, overflow) = subIntChecked av bv in
          Ok (if \<not> overflow then VInt diff else VBigInt (sint av - sint bv)))
     | _ \<Rightarrow> NumSub a b)"

definition NumMulP :: "val \<Rightarrow> val \<Rightarrow> num_result" where
  "NumMulP a b = (case (a, b) of
       (VInt av, VInt bv) \<Rightarrow>
         (let (prod, overflow) = mulIntChecked av bv in
          Ok (if \<not> overflow then VInt prod else VBigInt (sint av * sint bv)))
     | _ \<Rightarrow> NumMul a b)"

definition NumNegP :: "val \<Rightarrow> num_result" where
  "NumNegP a = (case a of
       VInt av \<Rightarrow>
         (let (neg, overflow) = negIntChecked av in
          Ok (if \<not> overflow then VInt neg else VBigInt (- sint av)))
     | VBigInt av \<Rightarrow> Ok (VBigInt (- av))
     | _ \<Rightarrow> NumNeg a)"

datatype unchecked_op = OP_UNCHECKED_ADD | OP_UNCHECKED_SUB | OP_UNCHECKED_MUL

fun uncheckedIntOp :: "unchecked_op \<Rightarrow> i64 \<Rightarrow> i64 \<Rightarrow> val" where
  "uncheckedIntOp OP_UNCHECKED_ADD a b = VInt (a + b)"
| "uncheckedIntOp OP_UNCHECKED_SUB a b = VInt (a - b)"
| "uncheckedIntOp OP_UNCHECKED_MUL a b = VInt (a * b)"

definition numUnchecked :: "unchecked_op \<Rightarrow> val \<Rightarrow> val \<Rightarrow> num_result" where
  "numUnchecked op a b = (case (a, b) of
       (VInt ai, VInt bi) \<Rightarrow> Ok (uncheckedIntOp op ai bi)
     | _ \<Rightarrow> (case op of
         OP_UNCHECKED_ADD \<Rightarrow> NumAdd a b
       | OP_UNCHECKED_SUB \<Rightarrow> NumSub a b
       | OP_UNCHECKED_MUL \<Rightarrow> NumMul a b))"

section \<open>Conversions to machine integers\<close>

definition flt_int :: "flt \<Rightarrow> int" where
  "flt_int f = (case f of FFin r \<Rightarrow> rat_trunc r | _ \<Rightarrow> 0)"

definition int64FromFloat64 :: "flt \<Rightarrow> i64" where
  "int64FromFloat64 f =
     (if is_nan f then 0
      else if f = FInf False \<or> flt_le (int_float max_i64) f then word_of_int max_i64
      else if f = FInf True \<or> flt_lt f (int_float min_i64) then word_of_int min_i64
      else word_of_int (flt_int f))"

text \<open>
  \<open>int(f)\<close> of a float outside the range of \<open>int\<close> is implementation-defined in Go:
  \<open>conv\<close> is the platform's choice.
\<close>

definition intFromFloat64 :: "(flt \<Rightarrow> i64) \<Rightarrow> flt \<Rightarrow> i64" where
  "intFromFloat64 conv f =
     (if is_nan f then 0
      else if f = FInf False \<or> flt_lt (int_float max_i64) f then word_of_int max_i64
      else if f = FInf True \<or> flt_lt f (int_float min_i64) then word_of_int min_i64
      else if in_i64 (flt_int f) then word_of_int (flt_int f) else conv f)"

fun ToInt64 :: "val \<Rightarrow> i64 option" where
  "ToInt64 (VInt n) = Some n"
| "ToInt64 (VFloat f) = Some (int64FromFloat64 f)"
| "ToInt64 (VFloat32 f) = Some (int64FromFloat64 f)"
| "ToInt64 (VBigInt n) = (if in_i64 n then Some (word_of_int n) else None)"
| "ToInt64 (VBool b) = Some (if b then 1 else 0)"
| "ToInt64 (VBigDec d) = Some (int64FromFloat64 (big_float64 d))"
| "ToInt64 (VRatio r) = Some (int64FromFloat64 (rnd64 False r))"
| "ToInt64 _ = None"

fun ToInt :: "(flt \<Rightarrow> i64) \<Rightarrow> val \<Rightarrow> i64 option" where
  "ToInt conv (VInt n) = Some n"
| "ToInt conv (VFloat f) = Some (intFromFloat64 conv f)"
| "ToInt conv (VFloat32 f) = Some (intFromFloat64 conv f)"
| "ToInt conv (VBigInt n) = (if in_i64 n then Some (word_of_int n) else None)"
| "ToInt conv (VBool b) = Some (if b then 1 else 0)"
| "ToInt conv (VBigDec d) = Some (intFromFloat64 conv (big_float64 d))"
| "ToInt conv (VRatio r) = Some (intFromFloat64 conv (rnd64 False r))"
| "ToInt conv _ = None"

section \<open>Machine arithmetic is checked exactly\<close>

lemmas i64_order = word_sless_alt word_sle_eq

lemma sint_maxIntValue [simp]: "sint maxIntValue = max_i64"
  by (simp add: maxIntValue_def sint_word_of_int_in in_i64_def max_i64_def min_i64_def)

lemma sint_minIntValue [simp]: "sint minIntValue = min_i64"
  by (simp add: minIntValue_def maxIntValue_def max_i64_def min_i64_def)

lemma eq_minIntValue_iff: "a = minIntValue \<longleftrightarrow> sint a = min_i64"
  by (metis sint_inject_i64 sint_minIntValue)

lemma sint_minus_one_i64 [simp]: "sint (- 1 :: i64) = - 1"
  by simp

lemma eq_minus_one_iff: "a = - 1 \<longleftrightarrow> sint (a :: i64) = - 1"
  by (metis sint_inject_i64 sint_minus_one_i64)

lemma checkedAddInt_spec:
  "checkedAddInt a b = (if in_i64 (sint a + sint b) then Some (a + b) else None)"
proof -
  have r: "in_i64 (sint a)" "in_i64 (sint b)" by simp_all
  consider "0 < sint b" | "sint b < 0" | "sint b = 0" by linarith
  then show ?thesis
  proof cases
    case 1
    then have "sint (maxIntValue - b) = max_i64 - sint b"
      using r by (subst sint_sub_i64) (auto simp: i64_bounds)
    with 1 r show ?thesis by (auto simp: checkedAddInt_def i64_order i64_bounds)
  next
    case 2
    then have "sint (minIntValue - b) = min_i64 - sint b"
      using r by (subst sint_sub_i64) (auto simp: i64_bounds)
    with 2 r show ?thesis by (auto simp: checkedAddInt_def i64_order i64_bounds)
  qed (use r in \<open>auto simp: checkedAddInt_def i64_order\<close>)
qed

lemma checkedSubInt_spec:
  "checkedSubInt a b = (if in_i64 (sint a - sint b) then Some (a - b) else None)"
proof -
  have r: "in_i64 (sint a)" "in_i64 (sint b)" by simp_all
  consider "0 < sint b" | "sint b < 0" | "sint b = 0" by linarith
  then show ?thesis
  proof cases
    case 1
    then have "sint (minIntValue + b) = min_i64 + sint b"
      using r by (subst sint_add_i64) (auto simp: i64_bounds)
    with 1 r show ?thesis by (auto simp: checkedSubInt_def i64_order i64_bounds)
  next
    case 2
    then have "sint (maxIntValue + b) = max_i64 + sint b"
      using r by (subst sint_add_i64) (auto simp: i64_bounds)
    with 2 r show ?thesis by (auto simp: checkedSubInt_def i64_order i64_bounds)
  qed (use r in \<open>auto simp: checkedSubInt_def i64_order\<close>)
qed

lemma sint_i64_quo:
  "\<not> (sint a = min_i64 \<and> sint b = - 1) \<Longrightarrow> sint (i64_quo a b) = sint a sdiv sint b"
  unfolding i64_quo_def by (intro sint_word_of_int_in in_i64_sdiv) auto

lemma sint_i64_rem: "b \<noteq> 0 \<Longrightarrow> sint (i64_rem a b) = sint a smod sint b"
  unfolding i64_rem_def by (intro sint_word_of_int_in in_i64_smod) auto

text \<open>A product exceeds a bound exactly when a factor exceeds the truncated quotient.\<close>

lemma div_ge_iff: "0 < b \<Longrightarrow> a \<le> m div b \<longleftrightarrow> a * b \<le> (m :: int)"
proof
  assume b: "0 < b" and "a \<le> m div b"
  then have "a * b \<le> m div b * b" by simp
  also have "\<dots> \<le> m" using b by (simp flip: minus_mod_eq_div_mult)
  finally show "a * b \<le> m" .
next
  assume "0 < b" "a * b \<le> m"
  then show "a \<le> m div b" using zdiv_mono1 [of "a * b" m b] by simp
qed

lemma quo_less_iff_pos:
  assumes "0 < b" "0 \<le> m"
  shows "m sdiv b < a \<longleftrightarrow> m < a * (b :: int)"
proof -
  have "m sdiv b = m div b" using assms by (cases "m = 0") (simp_all add: signed_divide_int_def)
  then show ?thesis using div_ge_iff [OF assms(1), of a m] by linarith
qed

lemma less_quo_iff_neg: "0 < b \<Longrightarrow> m \<le> 0 \<Longrightarrow> a < m sdiv b \<longleftrightarrow> a * (b :: int) < m"
  using quo_less_iff_pos [of b "- m" "- a"] by (auto simp: signed_divide_int_def sgn_if)

lemma less_quo_iff_pos: "b < 0 \<Longrightarrow> 0 \<le> m \<Longrightarrow> a < m sdiv b \<longleftrightarrow> m < a * (b :: int)"
  using quo_less_iff_pos [of "- b" m "- a"] by (auto simp: signed_divide_int_def sgn_if)

lemma mult_sdiv_cancel: "y \<noteq> 0 \<Longrightarrow> (x * y) sdiv y = (x :: int)"
proof -
  assume y: "y \<noteq> 0"
  have "sgn y * sgn y = 1" using y by (simp add: sgn_if)
  then have "sgn x * sgn y * sgn y * \<bar>x\<bar> = sgn x * \<bar>x\<bar>" by (simp add: mult.assoc)
  then show ?thesis
    using y by (simp add: signed_divide_int_def sgn_mult abs_mult sgn_mult_abs)
qed

lemma checkedMulInt_spec:
  "checkedMulInt a b = (if in_i64 (sint a * sint b) then Some (a * b) else None)"
proof -
  let ?x = "sint a" and ?y = "sint b"
  have r: "in_i64 ?x" "in_i64 ?y" by simp_all
  have g: "sint mulGuardMax = 2147483647" "sint mulGuardMin = - 2147483648"
    by (simp_all add: mulGuardMax_def mulGuardMin_def)
  show ?thesis
  proof (cases "mulGuardMin \<le>s a \<and> a \<le>s mulGuardMax \<and> mulGuardMin \<le>s b \<and> b \<le>s mulGuardMax")
    case True
    then have "\<bar>?x\<bar> \<le> 2147483648" "\<bar>?y\<bar> \<le> 2147483648" by (auto simp: i64_order g)
    then have "\<bar>?x * ?y\<bar> \<le> 2147483648 * 2147483648"
      unfolding abs_mult by (intro mult_mono) auto
    then have "in_i64 (?x * ?y)" by (auto simp: i64_bounds)
    with True show ?thesis by (simp add: checkedMulInt_def)
  next
    case guard: False
    consider (zero) "a = 0 \<or> b = 0" | (min) "?x = min_i64 \<and> ?y = - 1 \<or> ?y = min_i64 \<and> ?x = - 1"
      | (pp) "0 < ?x" "0 < ?y" "?x \<noteq> 0" "?y \<noteq> 0" "\<not> (?x = min_i64 \<and> ?y = - 1)" "\<not> (?y = min_i64 \<and> ?x = - 1)"
      | (pn) "0 < ?x" "?y < 0" "\<not> (?x = min_i64 \<and> ?y = - 1)" "\<not> (?y = min_i64 \<and> ?x = - 1)"
      | (np) "?x < 0" "0 < ?y" "\<not> (?x = min_i64 \<and> ?y = - 1)" "\<not> (?y = min_i64 \<and> ?x = - 1)"
      | (nn) "?x < 0" "?y < 0" "\<not> (?x = min_i64 \<and> ?y = - 1)" "\<not> (?y = min_i64 \<and> ?x = - 1)"
      by (metis linorder_neqE_linordered_idom sint_eq_0_i64)
    then show ?thesis
    proof cases
      case zero
      with guard show ?thesis by (auto simp: checkedMulInt_def i64_bounds)
    next
      case min
      have "a \<noteq> 0" "b \<noteq> 0" using min by (auto simp: min_i64_def)
      with min guard show ?thesis
        by (auto simp: checkedMulInt_def eq_minIntValue_iff eq_minus_one_iff i64_bounds)
    next
      case pp
      have q: "sint (i64_quo maxIntValue b) = max_i64 sdiv ?y"
        by (subst sint_i64_quo) (auto simp: i64_bounds)
      have "min_i64 \<le> ?x * ?y" using mult_pos_pos [OF pp(1,2)] by (simp add: min_i64_def)
      with pp guard q quo_less_iff_pos [of ?y max_i64 ?x] show ?thesis
        by (auto simp: checkedMulInt_def eq_minIntValue_iff eq_minus_one_iff i64_order in_i64_def max_i64_def)
    next
      case pn
      have q: "sint (i64_quo minIntValue a) = min_i64 sdiv ?x"
        using pn by (subst sint_i64_quo) auto
      have "?x * ?y \<le> max_i64" using mult_pos_neg [OF pn(1,2)] by (simp add: max_i64_def)
      with pn guard q less_quo_iff_neg [of ?x min_i64 ?y] show ?thesis
        by (auto simp: checkedMulInt_def eq_minIntValue_iff eq_minus_one_iff i64_order in_i64_def min_i64_def mult.commute)
    next
      case np
      have q: "sint (i64_quo minIntValue b) = min_i64 sdiv ?y"
        using np by (subst sint_i64_quo) auto
      have "?x * ?y \<le> max_i64" using mult_neg_pos [OF np(1,2)] by (simp add: max_i64_def)
      with np guard q less_quo_iff_neg [of ?y min_i64 ?x] show ?thesis
        by (auto simp: checkedMulInt_def eq_minIntValue_iff eq_minus_one_iff i64_order in_i64_def min_i64_def)
    next
      case nn
      have q: "sint (i64_quo maxIntValue b) = max_i64 sdiv ?y"
        by (subst sint_i64_quo) (auto simp: i64_bounds)
      have "min_i64 \<le> ?x * ?y" using mult_neg_neg [OF nn(1,2)] by (simp add: min_i64_def)
      with nn guard q less_quo_iff_pos [of ?y max_i64 ?x] show ?thesis
        by (auto simp: checkedMulInt_def eq_minIntValue_iff eq_minus_one_iff i64_order in_i64_def max_i64_def)
    qed
  qed
qed

lemma sint_wrap_high: "max_i64 < n \<Longrightarrow> n \<le> 3 * max_i64 \<Longrightarrow> sint (word_of_int n :: i64) = n - 2 ^ 64"
  using minus_mod_self2 [of "n + 2 ^ 63" "2 ^ 64"] mod_pos_pos_trivial [of "n + 2 ^ 63 - 2 ^ 64" "2 ^ 64"]
  unfolding sint_word_of_int_i64 max_i64_def by simp

lemma sint_wrap_low: "n < min_i64 \<Longrightarrow> 3 * min_i64 \<le> n \<Longrightarrow> sint (word_of_int n :: i64) = n + 2 ^ 64"
  using mod_add_self2 [of "n + 2 ^ 63" "2 ^ 64"] mod_pos_pos_trivial [of "n + 2 ^ 63 + 2 ^ 64" "2 ^ 64"]
  unfolding sint_word_of_int_i64 min_i64_def by simp

lemma sless_0_bit: "(x :: i64) <s 0 \<longleftrightarrow> bit x 63"
  using bit_last_iff [of x] by (simp add: i64_order)

lemma sneg_iff: "bit (x :: i64) 63 \<longleftrightarrow> sint x < 0"
  using bit_last_iff [of x] by simp

lemma sneg_and: "sint ((x :: i64) AND y) < 0 \<longleftrightarrow> sint x < 0 \<and> sint y < 0"
  unfolding sneg_iff [symmetric] by (simp add: bit_and_iff)

lemma sneg_xor: "sint ((x :: i64) XOR y) < 0 \<longleftrightarrow> (sint x < 0 \<longleftrightarrow> \<not> sint y < 0)"
  unfolding sneg_iff [symmetric] by (auto simp: bit_xor_iff)

lemma addIntChecked_spec: "addIntChecked a b = (a + b, \<not> in_i64 (sint a + sint b))"
proof -
  have s: "a + b = word_of_int (sint a + sint b)" by simp
  have r: "in_i64 (sint a)" "in_i64 (sint b)" by simp_all
  consider "in_i64 (sint a + sint b)" | "max_i64 < sint a + sint b" | "sint a + sint b < min_i64"
    unfolding in_i64_def by linarith
  then have "bit (a + b) 63 = (if in_i64 (sint a + sint b) then sint a + sint b < 0 else 0 \<le> sint a + sint b)"
  proof cases
    case 1
    then show ?thesis by (simp add: sneg_iff sint_add_i64)
  next
    case 2
    with r show ?thesis unfolding s sneg_iff
      by (subst sint_wrap_high) (auto simp: i64_bounds)
  next
    case 3
    with r show ?thesis unfolding s sneg_iff
      by (subst sint_wrap_low) (auto simp: i64_bounds)
  qed
  with r show ?thesis
    by (auto simp: addIntChecked_def Let_def i64_order sneg_and sneg_xor sneg_iff i64_bounds split: if_splits)
qed

lemma subIntChecked_spec: "subIntChecked a b = (a - b, \<not> in_i64 (sint a - sint b))"
proof -
  have s: "a - b = word_of_int (sint a - sint b)" by simp
  have r: "in_i64 (sint a)" "in_i64 (sint b)" by simp_all
  consider "in_i64 (sint a - sint b)" | "max_i64 < sint a - sint b" | "sint a - sint b < min_i64"
    unfolding in_i64_def by linarith
  then have "bit (a - b) 63 = (if in_i64 (sint a - sint b) then sint a - sint b < 0 else 0 \<le> sint a - sint b)"
  proof cases
    case 1
    then show ?thesis by (simp add: sneg_iff sint_sub_i64)
  next
    case 2
    with r show ?thesis unfolding s sneg_iff
      by (subst sint_wrap_high) (auto simp: i64_bounds)
  next
    case 3
    with r show ?thesis unfolding s sneg_iff
      by (subst sint_wrap_low) (auto simp: i64_bounds)
  qed
  with r show ?thesis
    by (auto simp: subIntChecked_def Let_def i64_order sneg_and sneg_xor sneg_iff i64_bounds split: if_splits)
qed

lemma eq_min_word_iff: "a = word_of_int min_i64 \<longleftrightarrow> sint (a :: i64) = min_i64"
proof -
  have "sint (word_of_int min_i64 :: i64) = min_i64"
    by (rule sint_word_of_int_in) (simp add: i64_bounds)
  then show ?thesis by (metis sint_inject_i64)
qed

lemma negIntChecked_spec: "negIntChecked a = (if in_i64 (- sint a) then (- a, False) else (0, True))"
proof (cases "sint a = min_i64")
  case True
  then show ?thesis by (simp add: negIntChecked_def eq_min_word_iff) (simp add: i64_bounds)
next
  case False
  then have "in_i64 (- sint a)"
    using in_i64_sint [of a] by (auto simp: i64_bounds simp del: in_i64_sint)
  with False show ?thesis by (simp add: negIntChecked_def eq_min_word_iff)
qed

text \<open>Dividing the wrapped product back finds every overflow but that of the least integer by \<open>-1\<close>.\<close>

lemma mulIntChecked_spec:
  "mulIntChecked a b = (if in_i64 (sint a * sint b) then (a * b, False) else (0, True))"
proof -
  let ?x = "sint a" and ?y = "sint b"
  consider (zero) "a = 0 \<or> b = 0"
    | (min) "a \<noteq> 0" "b \<noteq> 0" "?x = min_i64 \<and> ?y = - 1 \<or> ?y = min_i64 \<and> ?x = - 1"
    | (rest) "a \<noteq> 0" "b \<noteq> 0" "\<not> (?x = min_i64 \<and> ?y = - 1 \<or> ?y = min_i64 \<and> ?x = - 1)" by blast
  then show ?thesis
  proof cases
    case zero
    then show ?thesis by (auto simp: mulIntChecked_def i64_bounds)
  next
    case min
    then have "mulIntChecked a b = (0, True)"
      by (simp add: mulIntChecked_def eq_min_word_iff eq_minus_one_iff)
    moreover have "\<not> in_i64 (?x * ?y)" using min(3) by (auto simp: i64_bounds)
    ultimately show ?thesis by simp
  next
    case rest
    have c: "mulIntChecked a b = (if i64_quo (a * b) b \<noteq> a then (0, True) else (a * b, False))"
      using rest by (auto simp: mulIntChecked_def Let_def eq_min_word_iff eq_minus_one_iff)
    have y: "?y \<noteq> 0" using rest(2) by simp
    show ?thesis
    proof (cases "in_i64 (?x * ?y)")
      case True
      then have "sint (a * b) = ?x * ?y" by (rule sint_mul_i64)
      moreover have "?x * ?y sdiv ?y = ?x"
        using y by (rule mult_sdiv_cancel)
      ultimately show ?thesis using True c by (simp add: i64_quo_def)
    next
      case False
      have "i64_quo (a * b) b \<noteq> a"
      proof
        assume q: "i64_quo (a * b) b = a"
        show False
        proof (cases "sint (a * b) = min_i64 \<and> ?y = - 1")
          case True
          then have "b = - 1" by (simp add: eq_minus_one_iff)
          with True have "sint (- a) = min_i64" by simp
          then have "- a = word_of_int min_i64" by (simp add: eq_min_word_iff)
          then have "a = - word_of_int min_i64" by (metis minus_minus)
          then have "?x = min_i64" by (simp add: min_i64_def)
          with True rest show False by simp
        next
          case nm: False
          let ?p = "sint (a * b)"
          have "sint (i64_quo (a * b) b) = ?p sdiv ?y" using nm by (rule sint_i64_quo)
          then have e: "?p sdiv ?y = ?x" using q by simp
          have m: "\<bar>?p - ?x * ?y\<bar> < \<bar>?y\<bar>"
            using abs_smod_less [OF y, of ?p] by (simp add: sdiv_smod e)
          have "(word_of_int ?p :: i64) = word_of_int (?x * ?y)"
            by simp
          then have "?p mod 2 ^ 64 = (?x * ?y) mod 2 ^ 64"
            unfolding word_of_int_eq_iff take_bit_eq_mod by simp
          then have "2 ^ 64 dvd ?p - ?x * ?y" by (simp add: mod_eq_dvd_iff)
          moreover have "\<bar>?p - ?x * ?y\<bar> < 2 ^ 64"
            using m sint_i64_range [of b] by (auto simp: i64_bounds simp del: sint_i64_range)
          ultimately have "?p - ?x * ?y = 0"
            by (metis abs_eq_0 dvd_abs_iff zdvd_not_zless zero_less_abs_iff)
          then show False using False in_i64_sint [of "a * b"] by simp
        qed
      qed
      then show ?thesis using False c by simp
    qed
  qed
qed

section \<open>Rationals in lowest terms\<close>

lemma rat_is_int_of_int [simp]: "rat_is_int (of_int n)"
  by (simp add: rat_is_int_def)

lemma rat_is_int_num: "rat_is_int r \<Longrightarrow> of_int (rat_num r) = r"
  using quotient_of_div [of r] by (cases "quotient_of r") (auto simp: rat_is_int_def rat_num_def)

lemma rat_is_int_iff: "rat_is_int r \<longleftrightarrow> (\<exists>n. r = of_int n)"
  using rat_is_int_num by (metis rat_is_int_of_int)

lemma rat_num_of_int [simp]: "rat_num (of_int n) = n"
  by (simp add: rat_num_def)

lemma exact_MaybeSimplifyRatio [simp]: "exact (MaybeSimplifyRatio r) = Some r"
  by (simp add: MaybeSimplifyRatio_def rat_is_int_num sint_word_of_int_in)

lemma wf_MaybeSimplifyRatio [simp]: "wf_val (MaybeSimplifyRatio r)"
  by (simp add: MaybeSimplifyRatio_def rat_is_int_def)

lemma exact_MaybeDowngrade [simp]: "exact (MaybeDowngrade n) = Some (of_int n)"
  by (simp add: MaybeDowngrade_def sint_word_of_int_in)

lemma exact_normalize: "exact a \<noteq> None \<Longrightarrow> normalizeFloat32 a = a"
  by (cases a) auto

text \<open>On exact operands of which one is a ratio, the fallback is the rational operation.\<close>

lemma numBinOpFallback_exact:
  assumes "exact a = Some x" "exact b = Some y" "IsRatio a \<or> IsRatio b"
  shows "numBinOpFallback a b rop bop fop = rat_op rop x y"
  using assms(3) by (rule_tac exact_cases [OF assms(1)]; rule_tac exact_cases [OF assms(2)])
    (auto simp: numBinOpFallback_def ratio_arm_def)

definition both_int :: "val \<Rightarrow> val \<Rightarrow> bool" where
  "both_int a b = (case (a, b) of (VInt _, VInt _) \<Rightarrow> True | _ \<Rightarrow> False)"

text \<open>
  What an operation on exact numbers must return: a number whose exact value is
  \<open>r\<close>, unless both operands are machine integers and \<open>r\<close> is not one.
\<close>

definition exact_or_overflow :: "val \<Rightarrow> val \<Rightarrow> rat \<Rightarrow> num_result \<Rightarrow> bool" where
  "exact_or_overflow a b r res =
     (if both_int a b \<and> \<not> in_i64 \<lfloor>r\<rfloor> then res = Err EIntOverflow
      else \<exists>v. res = Ok v \<and> exact v = Some r \<and> (both_int a b \<longrightarrow> (\<exists>i. v = VInt i)))"

lemma NumAdd_exact:
  assumes "exact a = Some x" "exact b = Some y"
  shows "exact_or_overflow a b (x + y) (NumAdd a b)"
  by (rule exact_cases [OF assms(1)]; rule exact_cases [OF assms(2)])
    (auto simp: NumAdd_def Let_def exact_or_overflow_def both_int_def checkedAddInt_spec sint_add_i64
      numBinOpFallback_exact rat_op_def ratAdd_def simp flip: of_int_add)

lemma NumSub_exact:
  assumes "exact a = Some x" "exact b = Some y"
  shows "exact_or_overflow a b (x - y) (NumSub a b)"
  by (rule exact_cases [OF assms(1)]; rule exact_cases [OF assms(2)])
    (auto simp: NumSub_def Let_def exact_or_overflow_def both_int_def checkedSubInt_spec sint_sub_i64
      numBinOpFallback_exact rat_op_def ratSub_def simp flip: of_int_diff)

lemma NumMul_exact:
  assumes "exact a = Some x" "exact b = Some y"
  shows "exact_or_overflow a b (x * y) (NumMul a b)"
  by (rule exact_cases [OF assms(1)]; rule exact_cases [OF assms(2)])
    (auto simp: NumMul_def Let_def exact_or_overflow_def both_int_def checkedMulInt_spec sint_mul_i64
      numBinOpFallback_exact rat_op_def ratMul_def simp flip: of_int_mult)

lemma NumDiv_exact:
  assumes "exact a = Some x" "exact b = Some y" "y \<noteq> 0"
  shows "NumDiv a b = Ok (MaybeSimplifyRatio (x / y))"
  using assms(3)
  by (rule_tac exact_cases [OF assms(1)]; rule_tac exact_cases [OF assms(2)])
    (auto simp: NumDiv_def Let_def special_float_def numBinOpFallback_exact rat_op_def ratDiv_def)

lemma promoting_exact:
  assumes "exact a = Some x" "exact b = Some y"
  shows "\<exists>v. NumAddP a b = Ok v \<and> exact v = Some (x + y)"
    and "\<exists>v. NumSubP a b = Ok v \<and> exact v = Some (x - y)"
    and "\<exists>v. NumMulP a b = Ok v \<and> exact v = Some (x * y)"
proof -
  show "\<exists>v. NumAddP a b = Ok v \<and> exact v = Some (x + y)"
    using NumAdd_exact [OF assms] assms
    by (cases a; cases b) (auto simp: NumAddP_def exact_or_overflow_def both_int_def addIntChecked_spec sint_add_i64)
  show "\<exists>v. NumSubP a b = Ok v \<and> exact v = Some (x - y)"
    using NumSub_exact [OF assms] assms
    by (cases a; cases b) (auto simp: NumSubP_def exact_or_overflow_def both_int_def subIntChecked_spec sint_sub_i64)
  show "\<exists>v. NumMulP a b = Ok v \<and> exact v = Some (x * y)"
    using NumMul_exact [OF assms] assms
    by (cases a; cases b) (auto simp: NumMulP_def exact_or_overflow_def both_int_def mulIntChecked_spec sint_mul_i64)
qed

lemma NumNegP_exact:
  "exact a = Some x \<Longrightarrow> \<exists>v. NumNegP a = Ok v \<and> exact v = Some (- x)"
  by (cases a) (auto simp: NumNegP_def NumNeg_def negIntChecked_spec sint_neg_i64)

text \<open>Negation is exact but for the least integer, which it returns unchanged.\<close>

lemma NumNeg_exact:
  assumes "exact a = Some x" "a \<noteq> VInt (word_of_int min_i64)"
  shows "\<exists>v. NumNeg a = Ok v \<and> exact v = Some (- x)"
proof (cases a)
  case (VInt i)
  then have "sint i \<noteq> min_i64" using assms(2) eq_min_word_iff by blast
  then have "in_i64 (- sint i)"
    using in_i64_sint [of i] by (auto simp: i64_bounds simp del: in_i64_sint)
  with VInt assms show ?thesis by (auto simp: NumNeg_def sint_neg_i64)
qed (use assms in \<open>auto simp: NumNeg_def\<close>)

end
