(* ===== verification/LG_Quotient.thy ===== *)
theory LG_Quotient
  imports LG_Numbers
begin

text \<open>
  Integer division, remainder and modulus of \<open>pkg/vm/numbers.go\<close>: \<open>NumQuot\<close> truncates,
  \<open>NumRem\<close> takes the sign of the dividend, \<open>NumMod\<close> that of the divisor. The lemmas
  show that they are the three rational operations on the exact types, and that
  quotient and remainder recompose the dividend.
\<close>

section \<open>On floats\<close>

definition numQuotFloat :: "flt \<Rightarrow> flt \<Rightarrow> (num_err, flt) outcome" where
  "numQuotFloat a b =
     (if is_zero b \<or> is_inf a \<or> is_nan a \<or> is_nan b then Err EDivideByZero
      else if is_inf b then Ok (FZero False)
      else Ok (flt_trunc (floatDiv a b)))"

definition numRemFloat :: "flt \<Rightarrow> flt \<Rightarrow> (num_err, flt) outcome" where
  "numRemFloat a b =
     (if is_zero b \<or> is_inf a \<or> is_nan a \<or> is_nan b then Err EDivideByZero
      else if is_inf b then Ok FNaN
      else Ok (flt_mod a b))"

definition flt_pos :: "flt \<Rightarrow> bool" where
  "flt_pos x = flt_lt (FZero False) x"

definition numModFloat :: "flt \<Rightarrow> flt \<Rightarrow> (num_err, flt) outcome" where
  "numModFloat a b = obind (numRemFloat a b) (\<lambda>r.
     if is_nan r then Ok r
     else if \<not> is_zero r \<and> flt_pos r \<noteq> flt_pos b then Ok (floatAdd r b)
     else Ok r)"

text \<open>The arms that convert both operands: \<open>if bf == 0 { divide by zero }\<close>, then the float operation.\<close>

definition via_float :: "(flt \<Rightarrow> flt \<Rightarrow> (num_err, flt) outcome) \<Rightarrow> val \<Rightarrow> val \<Rightarrow> num_result" where
  "via_float f a b =
     (if is_zero (to_float b) then Err EDivideByZero else omap VFloat (f (to_float a) (to_float b)))"

section \<open>On rationals and integers\<close>

definition numTruncatedRatQuot :: "rat \<Rightarrow> rat \<Rightarrow> int" where
  "numTruncatedRatQuot a b = (let (n, d) = quotient_of (a / b) in n sdiv d)"

definition numRatRem :: "rat \<Rightarrow> rat \<Rightarrow> rat" where
  "numRatRem a b = a - of_int (numTruncatedRatQuot a b) * b"

definition numRatRemainderValue :: "rat \<Rightarrow> val" where
  "numRatRemainderValue r = (if rat_is_int r then VBigInt (rat_num r) else VRatio r)"

text \<open>The sign correction of the floored modulus, for each representation.\<close>

definition i64_mod :: "i64 \<Rightarrow> i64 \<Rightarrow> i64" where
  "i64_mod a b = (let r = i64_rem a b in if r \<noteq> 0 \<and> (0 <s r) \<noteq> (0 <s b) then r + b else r)"

definition big_mod :: "int \<Rightarrow> int \<Rightarrow> int" where
  "big_mod a b = (let r = a smod b in if r \<noteq> 0 \<and> (0 < r) \<noteq> (0 < b) then r + b else r)"

definition numRatMod :: "rat \<Rightarrow> rat \<Rightarrow> rat" where
  "numRatMod a b = (let r = numRatRem a b in if r \<noteq> 0 \<and> (0 < r) \<noteq> (0 < b) then r + b else r)"

section \<open>The operations\<close>

text \<open>The BigDecimal arm of \<open>NumRem\<close> calls \<open>math.Mod\<close> without the checks of \<open>numRemFloat\<close>.\<close>

definition math_Mod :: "flt \<Rightarrow> flt \<Rightarrow> (num_err, flt) outcome" where
  "math_Mod a b = Ok (flt_mod a b)"

definition NumQuot :: "val \<Rightarrow> val \<Rightarrow> num_result" where
  "NumQuot a0 b0 = (let a = normalizeFloat32 a0; b = normalizeFloat32 b0;
      rest = (
        if (IsRatio a \<or> IsRatio b) \<and> (is_float a \<or> is_float b) then via_float numQuotFloat a b
        else case (if IsRatio a \<or> IsRatio b then (ToRat a, ToRat b) else (None, None)) of
          (Some ar, Some br) \<Rightarrow>
            if br = 0 then Err EDivideByZero else Ok (VBigInt (numTruncatedRatQuot ar br))
        | _ \<Rightarrow>
          if is_bigdec a \<and> is_float b \<or> is_bigdec b \<and> is_float a then via_float numQuotFloat a b
          else if is_bigdec a \<or> is_bigdec b then
            (if is_zero (to_float b) then Err EDivideByZero
             else obind (numQuotFloat (to_float a) (to_float b)) NewBigDecimalFromFloat64)
          else Err (ECannot2 ''quot'' (type_name a) (type_name b))) in
     case a of
       VInt av \<Rightarrow>
         (case b of
            VInt bv \<Rightarrow> if bv = 0 then Err EDivideByZero else Ok (VInt (i64_quo av bv))
          | VFloat bv \<Rightarrow>
              if is_zero bv then Err EDivideByZero else omap VFloat (numQuotFloat (i64_float av) bv)
          | VBigInt bv \<Rightarrow>
              if bv = 0 then Err EDivideByZero else Ok (VBigInt (sint av sdiv bv))
          | _ \<Rightarrow> rest)
     | VFloat av \<Rightarrow>
         (case b of
            VInt bv \<Rightarrow>
              if bv = 0 then Err EDivideByZero else omap VFloat (numQuotFloat av (i64_float bv))
          | VFloat bv \<Rightarrow>
              if is_zero bv then Err EDivideByZero else omap VFloat (numQuotFloat av bv)
          | _ \<Rightarrow> rest)
     | VBigInt av \<Rightarrow>
         (case b of
            VInt bv \<Rightarrow>
              if bv = 0 then Err EDivideByZero else Ok (VBigInt (av sdiv sint bv))
          | VBigInt bv \<Rightarrow>
              if bv = 0 then Err EDivideByZero else Ok (VBigInt (av sdiv bv))
          | _ \<Rightarrow> rest)
     | _ \<Rightarrow> rest)"

definition NumRem :: "val \<Rightarrow> val \<Rightarrow> num_result" where
  "NumRem a0 b0 = (let a = normalizeFloat32 a0; b = normalizeFloat32 b0;
      rest = (
        if (IsRatio a \<or> IsRatio b) \<and> (is_float a \<or> is_float b) then via_float numRemFloat a b
        else case (if IsRatio a \<or> IsRatio b then (ToRat a, ToRat b) else (None, None)) of
          (Some ar, Some br) \<Rightarrow>
            if br = 0 then Err EDivideByZero else Ok (numRatRemainderValue (numRatRem ar br))
        | _ \<Rightarrow>
          if is_bigdec a \<and> is_float b \<or> is_bigdec b \<and> is_float a then via_float numRemFloat a b
          else if is_bigdec a \<or> is_bigdec b then
            (if is_zero (to_float b) then Err EDivideByZero
             else obind (math_Mod (to_float a) (to_float b)) NewBigDecimalFromFloat64)
          else Err (ECannot2 ''rem'' (type_name a) (type_name b))) in
     case a of
       VInt av \<Rightarrow>
         (case b of
            VInt bv \<Rightarrow> if bv = 0 then Err EDivideByZero else Ok (VInt (i64_rem av bv))
          | VFloat bv \<Rightarrow>
              if is_zero bv then Err EDivideByZero else omap VFloat (numRemFloat (i64_float av) bv)
          | VBigInt bv \<Rightarrow>
              if bv = 0 then Err EDivideByZero else Ok (VBigInt (sint av smod bv))
          | _ \<Rightarrow> rest)
     | VFloat av \<Rightarrow>
         (case b of
            VInt bv \<Rightarrow>
              if bv = 0 then Err EDivideByZero else omap VFloat (numRemFloat av (i64_float bv))
          | VFloat bv \<Rightarrow>
              if is_zero bv then Err EDivideByZero else omap VFloat (numRemFloat av bv)
          | _ \<Rightarrow> rest)
     | VBigInt av \<Rightarrow>
         (case b of
            VInt bv \<Rightarrow>
              if bv = 0 then Err EDivideByZero else Ok (VBigInt (av smod sint bv))
          | VBigInt bv \<Rightarrow>
              if bv = 0 then Err EDivideByZero else Ok (VBigInt (av smod bv))
          | _ \<Rightarrow> rest)
     | _ \<Rightarrow> rest)"

definition NumMod :: "val \<Rightarrow> val \<Rightarrow> num_result" where
  "NumMod a0 b0 = (let a = normalizeFloat32 a0; b = normalizeFloat32 b0;
      rest = (
        if (IsRatio a \<or> IsRatio b) \<and> (is_float a \<or> is_float b) then via_float numModFloat a b
        else case (if IsRatio a \<or> IsRatio b then (ToRat a, ToRat b) else (None, None)) of
          (Some ar, Some br) \<Rightarrow>
            if br = 0 then Err EDivideByZero else Ok (numRatRemainderValue (numRatMod ar br))
        | _ \<Rightarrow>
          if is_bigdec a \<and> is_float b \<or> is_bigdec b \<and> is_float a then via_float numModFloat a b
          else if is_bigdec a \<or> is_bigdec b then
            (if is_zero (to_float b) then Err EDivideByZero
             else obind (numModFloat (to_float a) (to_float b)) NewBigDecimalFromFloat64)
          else Err (ECannot2 ''mod'' (type_name a) (type_name b))) in
     case a of
       VInt av \<Rightarrow>
         (case b of
            VInt bv \<Rightarrow> if bv = 0 then Err EDivideByZero else Ok (VInt (i64_mod av bv))
          | VFloat bv \<Rightarrow>
              if is_zero bv then Err EDivideByZero else omap VFloat (numModFloat (i64_float av) bv)
          | VBigInt bv \<Rightarrow>
              if bv = 0 then Err EDivideByZero else Ok (VBigInt (big_mod (sint av) (bv)))
          | _ \<Rightarrow> rest)
     | VFloat av \<Rightarrow>
         (case b of
            VInt bv \<Rightarrow>
              if bv = 0 then Err EDivideByZero else omap VFloat (numModFloat av (i64_float bv))
          | VFloat bv \<Rightarrow>
              if is_zero bv then Err EDivideByZero else omap VFloat (numModFloat av bv)
          | _ \<Rightarrow> rest)
     | VBigInt av \<Rightarrow>
         (case b of
            VInt bv \<Rightarrow>
              if bv = 0 then Err EDivideByZero else Ok (VBigInt (big_mod (av) (sint bv)))
          | VBigInt bv \<Rightarrow>
              if bv = 0 then Err EDivideByZero else Ok (VBigInt (big_mod (av) (bv)))
          | _ \<Rightarrow> rest)
     | _ \<Rightarrow> rest)"

section \<open>Exactness\<close>

lemma numTruncatedRatQuot_trunc: "numTruncatedRatQuot a b = rat_trunc (a / b)"
proof -
  obtain n d where q: "quotient_of (a / b) = (n, d)" by (cases "quotient_of (a / b)")
  then have "d \<noteq> 0" using quotient_of_denom_pos by fastforce
  then show ?thesis
    using q quotient_of_div [OF q] by (simp add: numTruncatedRatQuot_def rat_trunc_div_sdiv)
qed

text \<open>The rational remainder, and the floored modulus.\<close>

definition rat_rem :: "rat \<Rightarrow> rat \<Rightarrow> rat" where
  "rat_rem x y = x - of_int (rat_trunc (x / y)) * y"

definition rat_mod :: "rat \<Rightarrow> rat \<Rightarrow> rat" where
  "rat_mod x y = x - of_int \<lfloor>x / y\<rfloor> * y"

lemma rat_rem_of_int: "b \<noteq> 0 \<Longrightarrow> rat_rem (of_int a) (of_int b) = of_int (a smod b)"
  by (simp add: rat_rem_def rat_trunc_div_sdiv sdiv_smod)

lemma numRatRem_rem: "numRatRem a b = rat_rem a b"
  by (simp add: numRatRem_def rat_rem_def numTruncatedRatQuot_trunc)

lemma exact_numRatRemainderValue [simp]: "exact (numRatRemainderValue r) = Some r"
  by (simp add: numRatRemainderValue_def rat_is_int_num)

text \<open>Correcting the sign of the remainder gives the floored modulus.\<close>

lemma rat_rem_sign: "y \<noteq> 0 \<Longrightarrow> rat_rem x y = y * ((x / y) - of_int (rat_trunc (x / y)))"
  by (simp add: rat_rem_def field_simps)

lemma rat_mod_from_rem:
  assumes "y \<noteq> 0"
  shows "rat_mod x y = (let r = rat_rem x y in if r \<noteq> 0 \<and> (0 < r) \<noteq> (0 < y) then r + y else r)"
proof -
  define q where "q = x / y"
  define f where "f = q - of_int (rat_trunc q)"
  have r: "rat_rem x y = y * f" using rat_rem_sign [OF assms] by (simp add: q_def f_def)
  show ?thesis
  proof (cases "q < 0 \<and> f \<noteq> 0")
    case False
    then have t: "rat_trunc q = \<lfloor>q\<rfloor>"
    proof (cases "q < 0")
      case True
      with False have "q = of_int (rat_trunc q)" by (simp add: f_def)
      then show ?thesis by (metis floor_of_int)
    qed (simp add: rat_trunc_def)
    then have "0 \<le> f" by (simp add: f_def)
    then have "\<not> (y * f \<noteq> 0 \<and> (0 < y * f) \<noteq> (0 < y))"
      by (auto simp: zero_less_mult_iff)
    moreover have "rat_mod x y = rat_rem x y" by (simp add: rat_mod_def rat_rem_def t flip: q_def)
    ultimately show ?thesis by (auto simp: r Let_def)
  next
    case True
    then have t: "rat_trunc q = \<lceil>q\<rceil>" by (simp add: rat_trunc_def ceiling_def)
    have "f \<le> 0" by (simp add: f_def t)
    with True have neg: "f < 0" by simp
    have "q \<notin> \<int>"
    proof
      assume "q \<in> \<int>"
      then have "f = 0" by (auto simp: f_def t elim: Ints_cases)
      with True show False by simp
    qed
    then have c: "\<lceil>q\<rceil> = \<lfloor>q\<rfloor> + 1" by (metis Ints_of_int ceiling_altdef)
    have "y * f \<noteq> 0 \<and> (0 < y * f) \<noteq> (0 < y)"
      using assms neg by (auto simp: zero_less_mult_iff mult_less_0_iff)
    moreover have "rat_mod x y = rat_rem x y + y"
      by (simp add: rat_mod_def rat_rem_def t c algebra_simps flip: q_def)
    ultimately show ?thesis by (auto simp: r Let_def)
  qed
qed

lemma numRatMod_mod: "b \<noteq> 0 \<Longrightarrow> numRatMod a b = rat_mod a b"
  by (simp add: rat_mod_from_rem numRatMod_def numRatRem_rem)

lemma big_mod_mod: "b \<noteq> 0 \<Longrightarrow> of_int (big_mod a b) = rat_mod (of_int a) (of_int b)"
  by (simp add: rat_mod_from_rem big_mod_def rat_rem_of_int Let_def)

lemma abs_big_mod: "b \<noteq> 0 \<Longrightarrow> \<bar>big_mod a b\<bar> < \<bar>b\<bar>"
  using abs_smod_less [of b a] by (auto simp: big_mod_def Let_def)

lemma sint_i64_mod:
  assumes "b \<noteq> 0"
  shows "sint (i64_mod a b) = big_mod (sint a) (sint b)"
proof -
  have y: "sint b \<noteq> 0" using assms by simp
  let ?r = "sint a smod sint b"
  have r: "sint (i64_rem a b) = ?r" using assms by (rule sint_i64_rem)
  then have z: "i64_rem a b = 0 \<longleftrightarrow> ?r = 0" by (metis sint_eq_0_i64)
  have "in_i64 (?r + sint b)" if "?r \<noteq> 0" "(0 < ?r) \<noteq> (0 < sint b)"
    using that abs_smod_less [OF y, of "sint a"] in_i64_sint [of b]
    by (auto simp: i64_bounds simp del: in_i64_sint)
  then show ?thesis
    by (auto simp: i64_mod_def big_mod_def Let_def i64_order r z sint_add_i64)
qed

lemma NumQuot_exact:
  assumes "exact a = Some x" "exact b = Some y" "y \<noteq> 0" "\<not> (a = VInt (word_of_int min_i64) \<and> b = VInt (- 1))"
  shows "\<exists>v. NumQuot a b = Ok v \<and> exact v = Some (of_int (rat_trunc (x / y)))"
  using assms(3,4)
  by (rule_tac exact_cases [OF assms(1)]; rule_tac exact_cases [OF assms(2)])
    (auto simp: NumQuot_def Let_def rat_trunc_div_sdiv numTruncatedRatQuot_trunc eq_min_word_iff
      eq_minus_one_iff sint_i64_quo)

lemma NumRem_exact:
  assumes "exact a = Some x" "exact b = Some y" "y \<noteq> 0"
  shows "\<exists>v. NumRem a b = Ok v \<and> exact v = Some (rat_rem x y)"
  using assms(3)
  by (rule_tac exact_cases [OF assms(1)]; rule_tac exact_cases [OF assms(2)])
    (auto simp: NumRem_def Let_def rat_rem_of_int numRatRem_rem sint_i64_rem)

lemma NumMod_exact:
  assumes "exact a = Some x" "exact b = Some y" "y \<noteq> 0"
  shows "\<exists>v. NumMod a b = Ok v \<and> exact v = Some (rat_mod x y)"
  using assms(3)
  by (rule_tac exact_cases [OF assms(1)]; rule_tac exact_cases [OF assms(2)])
    (auto simp: NumMod_def Let_def numRatMod_mod sint_i64_mod big_mod_mod)

lemma division_by_zero_exact:
  assumes "exact a = Some x" "exact b = Some 0"
  shows "NumQuot a b = Err EDivideByZero" "NumRem a b = Err EDivideByZero" "NumMod a b = Err EDivideByZero"
  by (rule exact_cases [OF assms(1)]; rule exact_cases [OF assms(2)];
      simp add: NumQuot_def NumRem_def NumMod_def Let_def)+

text \<open>The modulus lies between zero and the divisor.\<close>

lemma rat_mod_range:
  assumes "y \<noteq> 0"
  shows "if 0 < y then 0 \<le> rat_mod x y \<and> rat_mod x y < y else y < rat_mod x y \<and> rat_mod x y \<le> 0"
proof -
  define f where "f = x / y - of_int \<lfloor>x / y\<rfloor>"
  have e: "rat_mod x y = y * f" using assms by (simp add: rat_mod_def f_def field_simps)
  have "0 \<le> f" "f < 1" unfolding f_def by linarith+
  then show ?thesis using assms by (auto simp: e mult_le_0_iff)
qed

end
