(* ===== verification/LG_NumCompare.thy ===== *)
theory LG_NumCompare
  imports LG_Numbers
begin

text \<open>
  The comparisons of \<open>pkg/vm/numbers.go\<close>. The lemmas show that on the exact types
  they decide the order of the rationals, and record two places where the float
  arms do not: a ratio compares as equal to a NaN, and \<open>NumEquivalent\<close> has no arm
  for a float and a big integer.
\<close>

definition NumGt :: "val \<Rightarrow> val \<Rightarrow> (num_err, bool) outcome" where
  "NumGt a0 b0 = (let a = normalizeFloat32 a0; b = normalizeFloat32 b0;
      fallback = or_cannot ''compare'' a b (omap (\<lambda>c. 0 < c) (numCmpFallback a b)) in
     case a of
       VInt av \<Rightarrow>
         (case b of
            VInt bv \<Rightarrow> Ok (sint bv < sint av)
          | VFloat bv \<Rightarrow> Ok (flt_lt bv (i64_float av))
          | VBigInt bv \<Rightarrow> Ok (bv < sint av)
          | _ \<Rightarrow> fallback)
     | VFloat av \<Rightarrow>
         (case b of
            VInt bv \<Rightarrow> Ok (flt_lt (i64_float bv) av)
          | VFloat bv \<Rightarrow> Ok (flt_lt bv av)
          | VBigInt bv \<Rightarrow> Ok (flt_lt (int_float bv) av)
          | _ \<Rightarrow> fallback)
     | VBigInt av \<Rightarrow>
         (case b of
            VInt bv \<Rightarrow> Ok (sint bv < av)
          | VFloat bv \<Rightarrow> Ok (flt_lt bv (int_float av))
          | VBigInt bv \<Rightarrow> Ok (bv < av)
          | _ \<Rightarrow> fallback)
     | _ \<Rightarrow> fallback)"

definition NumLt :: "val \<Rightarrow> val \<Rightarrow> (num_err, bool) outcome" where
  "NumLt a0 b0 = (let a = normalizeFloat32 a0; b = normalizeFloat32 b0;
      fallback = or_cannot ''compare'' a b (omap (\<lambda>c. c < 0) (numCmpFallback a b)) in
     case a of
       VInt av \<Rightarrow>
         (case b of
            VInt bv \<Rightarrow> Ok (sint av < sint bv)
          | VFloat bv \<Rightarrow> Ok (flt_lt (i64_float av) bv)
          | VBigInt bv \<Rightarrow> Ok (sint av < bv)
          | _ \<Rightarrow> fallback)
     | VFloat av \<Rightarrow>
         (case b of
            VInt bv \<Rightarrow> Ok (flt_lt av (i64_float bv))
          | VFloat bv \<Rightarrow> Ok (flt_lt av bv)
          | VBigInt bv \<Rightarrow> Ok (flt_lt av (int_float bv))
          | _ \<Rightarrow> fallback)
     | VBigInt av \<Rightarrow>
         (case b of
            VInt bv \<Rightarrow> Ok (av < sint bv)
          | VFloat bv \<Rightarrow> Ok (flt_lt (int_float av) bv)
          | VBigInt bv \<Rightarrow> Ok (av < bv)
          | _ \<Rightarrow> fallback)
     | _ \<Rightarrow> fallback)"

definition NumGe :: "val \<Rightarrow> val \<Rightarrow> (num_err, bool) outcome" where
  "NumGe a0 b0 = (let a = normalizeFloat32 a0; b = normalizeFloat32 b0;
      fallback = or_cannot ''compare'' a b (omap (\<lambda>c. 0 \<le> c) (numCmpFallback a b)) in
     case a of
       VInt av \<Rightarrow>
         (case b of
            VInt bv \<Rightarrow> Ok (sint bv \<le> sint av)
          | VFloat bv \<Rightarrow> Ok (flt_le bv (i64_float av))
          | VBigInt bv \<Rightarrow> Ok (bv \<le> sint av)
          | _ \<Rightarrow> fallback)
     | VFloat av \<Rightarrow>
         (case b of
            VInt bv \<Rightarrow> Ok (flt_le (i64_float bv) av)
          | VFloat bv \<Rightarrow> Ok (flt_le bv av)
          | VBigInt bv \<Rightarrow> Ok (flt_le (int_float bv) av)
          | _ \<Rightarrow> fallback)
     | VBigInt av \<Rightarrow>
         (case b of
            VInt bv \<Rightarrow> Ok (sint bv \<le> av)
          | VFloat bv \<Rightarrow> Ok (flt_le bv (int_float av))
          | VBigInt bv \<Rightarrow> Ok (bv \<le> av)
          | _ \<Rightarrow> fallback)
     | _ \<Rightarrow> fallback)"

definition NumLe :: "val \<Rightarrow> val \<Rightarrow> (num_err, bool) outcome" where
  "NumLe a0 b0 = (let a = normalizeFloat32 a0; b = normalizeFloat32 b0;
      fallback = or_cannot ''compare'' a b (omap (\<lambda>c. c \<le> 0) (numCmpFallback a b)) in
     case a of
       VInt av \<Rightarrow>
         (case b of
            VInt bv \<Rightarrow> Ok (sint av \<le> sint bv)
          | VFloat bv \<Rightarrow> Ok (flt_le (i64_float av) bv)
          | VBigInt bv \<Rightarrow> Ok (sint av \<le> bv)
          | _ \<Rightarrow> fallback)
     | VFloat av \<Rightarrow>
         (case b of
            VInt bv \<Rightarrow> Ok (flt_le av (i64_float bv))
          | VFloat bv \<Rightarrow> Ok (flt_le av bv)
          | VBigInt bv \<Rightarrow> Ok (flt_le av (int_float bv))
          | _ \<Rightarrow> fallback)
     | VBigInt av \<Rightarrow>
         (case b of
            VInt bv \<Rightarrow> Ok (av \<le> sint bv)
          | VFloat bv \<Rightarrow> Ok (flt_le (int_float av) bv)
          | VBigInt bv \<Rightarrow> Ok (av \<le> bv)
          | _ \<Rightarrow> fallback)
     | _ \<Rightarrow> fallback)"

text \<open>Numeric \<open>=\<close>: exact integers across representations, floats with floats.\<close>

definition NumEq :: "val \<Rightarrow> val \<Rightarrow> bool" where
  "NumEq a b = (case (a, b) of
       (VInt av, VInt bv) \<Rightarrow> av = bv
     | (VInt av, VBigInt bv) \<Rightarrow> sint av = bv
     | (VFloat av, VFloat bv) \<Rightarrow> flt_eq av bv
     | (VFloat av, VFloat32 bv) \<Rightarrow> flt_eq av bv
     | (VFloat32 av, VFloat bv) \<Rightarrow> flt_eq av bv
     | (VFloat32 av, VFloat32 bv) \<Rightarrow> flt_eq av bv
     | (VBigInt av, VInt bv) \<Rightarrow> av = sint bv
     | (VBigInt av, VBigInt bv) \<Rightarrow> av = bv
     | (VRatio av, VRatio bv) \<Rightarrow> av = bv
     | (VBigDec av, VBigDec bv) \<Rightarrow> flt_eq av bv
     | _ \<Rightarrow> False)"

text \<open>\<open>==\<close>, which may panic in \<open>math/big\<close> on a NaN.\<close>

definition NumEquivalent :: "val \<Rightarrow> val \<Rightarrow> bool option" where
  "NumEquivalent a0 b0 = (let a = normalizeFloat32 a0; b = normalizeFloat32 b0;
      fallback = (case numCmpFallback a b of Ok c \<Rightarrow> Some (c = 0) | Err _ \<Rightarrow> Some False | Panic \<Rightarrow> None) in
     case a of
       VInt av \<Rightarrow>
         (case b of
            VInt bv \<Rightarrow> Some (av = bv)
          | VFloat bv \<Rightarrow> Some (flt_eq (i64_float av) bv)
          | VBigInt bv \<Rightarrow> Some (sint av = bv)
          | _ \<Rightarrow> fallback)
     | VFloat av \<Rightarrow>
         (case b of
            VInt bv \<Rightarrow> Some (flt_eq av (i64_float bv))
          | VFloat bv \<Rightarrow> Some (flt_eq av bv)
          | _ \<Rightarrow> fallback)
     | VBigInt av \<Rightarrow>
         (case b of
            VInt bv \<Rightarrow> Some (av = sint bv)
          | VBigInt bv \<Rightarrow> Some (av = bv)
          | _ \<Rightarrow> fallback)
     | _ \<Rightarrow> fallback)"

section \<open>The order of the exact types\<close>

lemma numCmpFallback_exact:
  assumes "exact a = Some x" "exact b = Some y" "IsRatio a \<or> IsRatio b"
  shows "numCmpFallback a b = Ok (rat_cmp x y)"
  using assms(3) by (rule_tac exact_cases [OF assms(1)]; rule_tac exact_cases [OF assms(2)])
    (auto simp: numCmpFallback_def ratio_cmp_arm_def)

lemma rat_cmp_simps [simp]:
  "0 < rat_cmp x y \<longleftrightarrow> y < x" "rat_cmp x y < 0 \<longleftrightarrow> x < y" "0 \<le> rat_cmp x y \<longleftrightarrow> y \<le> x"
  "rat_cmp x y \<le> 0 \<longleftrightarrow> x \<le> y" "rat_cmp x y = 0 \<longleftrightarrow> x = y"
  by (auto simp: rat_cmp_def)

lemma exact_compare:
  assumes "exact a = Some x" "exact b = Some y"
  shows "NumLt a b = Ok (x < y)" "NumGt a b = Ok (y < x)"
    and "NumLe a b = Ok (x \<le> y)" "NumGe a b = Ok (y \<le> x)"
    and "NumEquivalent a b = Some (x = y)"
  by (rule exact_cases [OF assms(1)]; rule exact_cases [OF assms(2)];
      simp add: NumLt_def NumGt_def NumLe_def NumGe_def NumEquivalent_def Let_def numCmpFallback_exact
        omap_def sint_inject_i64 [symmetric])+

text \<open>On well-formed exact numbers \<open>=\<close> agrees with \<open>==\<close>: an integral ratio does not occur.\<close>

lemma NumEq_exact:
  assumes "exact a = Some x" "exact b = Some y" "wf_val a" "wf_val b"
  shows "NumEq a b \<longleftrightarrow> x = y"
  using assms(3,4) by (rule_tac exact_cases [OF assms(1)]; rule_tac exact_cases [OF assms(2)])
    (auto simp: NumEq_def sint_inject_i64)

lemma NumEq_sym: "NumEq a b \<Longrightarrow> NumEq b a"
  by (cases a; cases b) (auto simp: NumEq_def intro: flt_eq_sym)

lemma NumEq_trans: "NumEq a b \<Longrightarrow> NumEq b c \<Longrightarrow> NumEq a c"
  by (cases a; cases b; simp add: NumEq_def; cases c; simp)
    (auto intro: flt_eq_trans simp: sint_inject_i64)

section \<open>Where the float arms leave the order\<close>

text \<open>A ratio is \<open>==\<close>, \<open><=\<close> and \<open>>=\<close> to a NaN, which no other number is.\<close>

lemma ratio_equals_NaN:
  "NumEquivalent (VRatio r) (VFloat FNaN) = Some True"
  "NumLe (VRatio r) (VFloat FNaN) = Ok True" "NumGe (VRatio r) (VFloat FNaN) = Ok True"
proof -
  have "numCmpFallback (VRatio r) (VFloat FNaN) = Ok 0"
    by (cases "rnd64 False r") (simp_all add: numCmpFallback_def ratio_cmp_arm_def flt_cmp_def)
  then show "NumEquivalent (VRatio r) (VFloat FNaN) = Some True"
    "NumLe (VRatio r) (VFloat FNaN) = Ok True" "NumGe (VRatio r) (VFloat FNaN) = Ok True"
    by (simp_all add: NumEquivalent_def NumLe_def NumGe_def omap_def)
qed

lemma int_not_equal_NaN:
  "NumEquivalent (VInt i) (VFloat FNaN) = Some False" "NumLe (VInt i) (VFloat FNaN) = Ok False"
  by (cases "i64_float i"; simp add: NumEquivalent_def NumLe_def flt_le_def)+

text \<open>A float and a big integer are never \<open>==\<close>, though neither may be less than the other.\<close>

lemma float_bigint_not_equivalent:
  "NumEquivalent (VFloat f) (VBigInt n) = Some False" "NumEquivalent (VBigInt n) (VFloat f) = Some False"
  by (simp_all add: NumEquivalent_def numCmpFallback_def ratio_cmp_arm_def)

end
