(* ===== verification/LG_Hash.thy ===== *)
theory LG_Hash
  imports LG_NumCompare
begin

text \<open>
  Hashing and key equivalence: \<open>pkg/vm/hash.go\<close>, the \<open>Hash\<close> methods of the scalar
  types, and \<open>valueEquals\<close> of \<open>pkg/rt/lang.go\<close> on scalars, which the virtual machine
  calls back for sequences. The maps and sets rely on an equivalence of keys that
  the hash respects; the interpretation of \<open>key_equality\<close> shows which keys have it:
  all but NaN, the negative zero, the empty list and an integral ratio.

  Strings are read byte by byte. An object without a \<open>Hash\<close> method is hashed by its
  printed form, the parameter \<open>str\<close> (it prints names and addresses).
\<close>

section \<open>Hash functions\<close>

definition byte_u32 :: "char \<Rightarrow> u32" where
  "byte_u32 c = of_nat (of_char c)"

definition fnvOffset32 :: u32 where "fnvOffset32 = 2166136261"
definition fnvPrime32 :: u32 where "fnvPrime32 = 16777619"

definition hashString :: "string \<Rightarrow> u32" where
  "hashString s = foldl (\<lambda>h c. (h XOR byte_u32 c) * fnvPrime32) fnvOffset32 s"

definition hashUint64 :: "u64 \<Rightarrow> u32" where
  "hashUint64 v0 = (let
      v1 = v0 XOR drop_bit 33 v0;
      v2 = v1 * 0xff51afd7ed558ccd;
      v3 = v2 XOR drop_bit 33 v2;
      v4 = v3 * 0xc4ceb9fe1a85ec53;
      v5 = v4 XOR drop_bit 33 v4
    in ucast v5)"

definition mixK1 :: "u32 \<Rightarrow> u32" where
  "mixK1 k0 = (let k1 = k0 * 0xcc9e2d51; k2 = push_bit 15 k1 OR drop_bit 17 k1 in k2 * 0x1b873593)"

definition mixH1 :: "u32 \<Rightarrow> u32 \<Rightarrow> u32" where
  "mixH1 h0 k = (let h1 = h0 XOR k; h2 = push_bit 13 h1 OR drop_bit 19 h1 in h2 * 5 + 0xe6546b64)"

definition mixFinishLen :: "u32 \<Rightarrow> u32 \<Rightarrow> u32" where
  "mixFinishLen h0 len = (let
      h1 = h0 XOR len;
      h2 = h1 XOR drop_bit 16 h1;
      h3 = h2 * 0x85ebca6b;
      h4 = h3 XOR drop_bit 13 h3;
      h5 = h4 * 0xc2b2ae35
    in h5 XOR drop_bit 16 h5)"

definition mixFinish :: "u32 \<Rightarrow> u32" where
  "mixFinish h = mixFinishLen h 0"

text \<open>Two bytes per word; an odd last byte is mixed in on its own.\<close>

fun hash_chars_loop :: "u32 \<Rightarrow> string \<Rightarrow> u32" where
  "hash_chars_loop h (c # d # s) =
     hash_chars_loop (mixH1 h (mixK1 (byte_u32 c OR push_bit 16 (byte_u32 d)))) s"
| "hash_chars_loop h [c] = h XOR mixK1 (byte_u32 c)"
| "hash_chars_loop h [] = h"

definition hashUnencodedChars :: "string \<Rightarrow> u32" where
  "hashUnencodedChars s = mixFinishLen (hash_chars_loop 0 s) (of_nat (2 * length s))"

text \<open>The loops of the collection hashes, on the hashes of the elements.\<close>

definition hashOrdered :: "u32 list \<Rightarrow> u32" where
  "hashOrdered hs = mixFinish (foldl (\<lambda>h x. 31 * h + x) 1 hs)"

definition hashUnordered :: "u32 list \<Rightarrow> u32" where
  "hashUnordered hs = mixFinish (foldl (\<lambda>h x. h + x) 0 hs)"

lemma hashUnordered_perm: "mset xs = mset ys \<Longrightarrow> hashUnordered xs = hashUnordered ys"
proof -
  assume p: "mset xs = mset ys"
  have s: "foldl (\<lambda>h x. h + x) a zs = a + sum_list zs" for a and zs :: "u32 list"
    by (induction zs arbitrary: a) (simp_all add: add.assoc)
  have "sum_list xs = sum_list ys" using p by (metis sum_mset_sum_list)
  then show ?thesis by (simp add: hashUnordered_def s)
qed

section \<open>The hash of a value\<close>

fun big_bytes :: "nat \<Rightarrow> u32 list" where
  "big_bytes n = (if n = 0 then [] else big_bytes (n div 256) @ [of_nat (n mod 256)])"

declare big_bytes.simps [simp del]

definition BigInt_Hash :: "int \<Rightarrow> u32" where
  "BigInt_Hash n =
     (if in_i64 n then hashUint64 (word_of_int n)
      else let h = foldl (\<lambda>h b. h * 31 + b) 0 (big_bytes (nat \<bar>n\<bar>)) in if n < 0 then NOT h else h)"

definition Ratio_Hash :: "rat \<Rightarrow> u32" where
  "Ratio_Hash r = (let (num, den) = quotient_of r in
     hashUint64 (word_of_int num) * 31 + hashUint64 (word_of_int den))"

definition Float_Hash :: "flt \<Rightarrow> u32" where
  "Float_Hash f = hashUint64 (float_bits f)"

definition BigDecimal_Hash :: "flt \<Rightarrow> u32" where
  "BigDecimal_Hash d = (let f = big_float64 d in
     if is_nan f then 0 else hashUint64 (float_bits (if is_zero f then FZero False else f)))"

text \<open>The \<open>Hash\<close> methods; \<open>None\<close> where the type has none.\<close>

fun Hash :: "val \<Rightarrow> u32 option" where
  "Hash VNil = None"
| "Hash (VBool b) = Some (if b then 1 else 0)"
| "Hash (VInt i) = Some (hashUint64 i)"
| "Hash (VFloat f) = Some (Float_Hash f)"
| "Hash (VFloat32 f) = Some (Float_Hash f)"
| "Hash (VBigInt n) = Some (BigInt_Hash n)"
| "Hash (VRatio r) = Some (Ratio_Hash r)"
| "Hash (VBigDec d) = Some (BigDecimal_Hash d)"
| "Hash (VChar c) = Some (hashUint64 (word_of_int c))"
| "Hash (VString s) = Some (hashString s)"
| "Hash (VKeyword s) = Some (hashUnencodedChars s + 0x9e3779b9)"
| "Hash (VSymbol s) = Some (hashUnencodedChars s)"
| "Hash VEmptyList = Some (hashOrdered [0])"
| "Hash (VRef k a) = None"

fun computeHash :: "(rkind \<Rightarrow> nat \<Rightarrow> string) \<Rightarrow> val \<Rightarrow> u32" where
  "computeHash str (VRef k a) = hashString (str k a)"
| "computeHash str v = 0"

definition hashValue :: "(rkind \<Rightarrow> nat \<Rightarrow> string) \<Rightarrow> val \<Rightarrow> u32" where
  "hashValue str v = (case Hash v of Some h \<Rightarrow> h | None \<Rightarrow> computeHash str v)"

section \<open>Key equivalence\<close>

text \<open>Go's \<open>==\<close> on interface values: the same dynamic type, and equal contents.\<close>

fun go_eq :: "val \<Rightarrow> val \<Rightarrow> bool" where
  "go_eq (VFloat f) (VFloat g) = flt_eq f g"
| "go_eq (VFloat32 f) (VFloat32 g) = flt_eq f g"
| "go_eq a b = (a = b)"

fun isComparable :: "val \<Rightarrow> bool" where
  "isComparable (VBigInt _) = False"
| "isComparable (VRatio _) = False"
| "isComparable (VBigDec _) = False"
| "isComparable VEmptyList = False"
| "isComparable _ = True"

text \<open>\<open>nil\<close>, strings and lists implement both \<open>Sequable\<close> and \<open>Seq\<close>.\<close>

fun is_seqable :: "val \<Rightarrow> bool" where
  "is_seqable VNil = True"
| "is_seqable (VString _) = True"
| "is_seqable VEmptyList = True"
| "is_seqable _ = False"

fun is_ident_scalar :: "val \<Rightarrow> bool" where
  "is_ident_scalar (VInt _) = True"
| "is_ident_scalar (VFloat _) = True"
| "is_ident_scalar (VBool _) = True"
| "is_ident_scalar (VString _) = True"
| "is_ident_scalar (VChar _) = True"
| "is_ident_scalar (VKeyword _) = True"
| "is_ident_scalar (VSymbol _) = True"
| "is_ident_scalar _ = False"

definition hash_mismatch :: "val \<Rightarrow> val \<Rightarrow> bool" where
  "hash_mismatch a b = (case (Hash a, Hash b) of (Some h, Some k) \<Rightarrow> h \<noteq> k | _ \<Rightarrow> False)"

fun same_object :: "val \<Rightarrow> val \<Rightarrow> bool" where
  "same_object (VRef k x) (VRef l y) = (k = l \<and> x = y)"
| "same_object VEmptyList VEmptyList = True"
| "same_object _ _ = False"

text \<open>
  \<open>valueEquals\<close> of the runtime on scalars: its three short cuts, then
  \<open>valueEqualsCtx\<close>, whose arms for these types are the numeric comparison, the
  methods \<open>Equals\<close> of ratios and decimals (numbers too), the empty list, and \<open>==\<close>.
\<close>

definition valueEquals :: "val \<Rightarrow> val \<Rightarrow> bool" where
  "valueEquals a b =
     (if a = VNil \<and> b = VNil then True
      else if a = VNil \<or> b = VNil then False
      else if is_ident_scalar a \<and> is_ident_scalar b then go_eq a b
      else if same_object a b then True
      else if \<not> (is_seqable a \<and> is_seqable b) \<and> hash_mismatch a b then False
      else if IsNumber a \<and> IsNumber b then NumEq a b
      else go_eq a b)"

definition valueEquiv :: "val \<Rightarrow> val \<Rightarrow> bool" where
  "valueEquiv a b = (case (a, b) of
       (VKeyword s, VKeyword t) \<Rightarrow> s = t
     | (VKeyword s, _) \<Rightarrow> False
     | (VInt i, VInt j) \<Rightarrow> i = j
     | _ \<Rightarrow>
       if a = VNil \<and> b = VEmptyList \<or> a = VEmptyList \<and> b = VNil then True
       else if isComparable a \<and> isComparable b \<and> go_eq a b then True
       else if IsNumber a \<and> IsNumber b then NumEq a b
       else if \<not> is_seqable a \<and> \<not> is_seqable b \<and> hash_mismatch a b then False
       else case (a, b) of
         (VRatio r, VRatio q) \<Rightarrow> r = q
       | (VBigDec d, VBigDec e) \<Rightarrow> flt_eq d e
       | (VRatio _, _) \<Rightarrow> False
       | (VBigDec _, _) \<Rightarrow> False
       | _ \<Rightarrow> if is_seqable a \<and> is_seqable b then valueEquals a b else False)"

section \<open>The keys on which it is an equality\<close>

fun good_key :: "val \<Rightarrow> bool" where
  "good_key (VFloat f) = (wf_flt f \<and> f \<noteq> FNaN \<and> f \<noteq> FZero True)"
| "good_key (VFloat32 f) = (wf_flt f \<and> f \<noteq> FNaN \<and> f \<noteq> FZero True)"
| "good_key VEmptyList = False"
| "good_key v = wf_val v"

text \<open>The representative of a class of equivalent keys.\<close>

fun key_norm :: "val \<Rightarrow> val" where
  "key_norm (VInt i) = VBigInt (sint i)"
| "key_norm (VFloat32 f) = VFloat f"
| "key_norm v = v"

lemma flt_eq_good: "f \<noteq> FZero True \<Longrightarrow> g \<noteq> FZero True \<Longrightarrow> f \<noteq> FNaN \<Longrightarrow> flt_eq f g \<longleftrightarrow> f = g"
  by (cases f; cases g) auto

lemma NumEq_good: "good_key a \<Longrightarrow> good_key b \<Longrightarrow> IsNumber a \<Longrightarrow> IsNumber b \<Longrightarrow>
    NumEq a b \<longleftrightarrow> key_norm a = key_norm b"
  by (cases a; cases b) (auto simp: NumEq_def flt_eq_good sint_inject_i64)

lemma key_norm_IsNumber: "key_norm a = key_norm b \<Longrightarrow> IsNumber a \<longleftrightarrow> IsNumber b"
  by (cases a; cases b) auto

lemma valueEquiv_number: "IsNumber a \<Longrightarrow> IsNumber b \<Longrightarrow> valueEquiv a b \<longleftrightarrow> NumEq a b"
  by (cases a; cases b) (auto simp: valueEquiv_def NumEq_def)

lemma valueEquiv_other:
  assumes "good_key a" "good_key b" "\<not> (IsNumber a \<and> IsNumber b)"
  shows "valueEquiv a b \<longleftrightarrow> a = b"
  using assms by (cases a; cases b) (auto simp: valueEquiv_def valueEquals_def)

lemma valueEquiv_norm:
  assumes "good_key a" "good_key b"
  shows "valueEquiv a b \<longleftrightarrow> key_norm a = key_norm b"
proof (cases "IsNumber a \<and> IsNumber b")
  case True
  then show ?thesis using assms by (simp add: valueEquiv_number NumEq_good)
next
  case False
  then have "key_norm a = key_norm b \<longleftrightarrow> a = b"
    by (cases a; cases b) auto
  then show ?thesis using valueEquiv_other [OF assms False] by simp
qed

lemma hashValue_norm: "hashValue str (key_norm v) = hashValue str v"
  by (cases v) (simp_all add: hashValue_def BigInt_Hash_def)

interpretation keys: key_equality valueEquiv "hashValue str" good_key for str
proof
  fix a b c :: val
  assume a: "good_key a"
  then show "valueEquiv a a" by (simp add: valueEquiv_norm)
  assume b: "good_key b"
  then show "valueEquiv a b \<Longrightarrow> valueEquiv b a" using a by (simp add: valueEquiv_norm)
  show "valueEquiv a b \<Longrightarrow> hashValue str a = hashValue str b"
    using a b by (metis hashValue_norm valueEquiv_norm)
  assume "good_key c" "valueEquiv a b" "valueEquiv b c"
  then show "valueEquiv a c" using a b by (simp add: valueEquiv_norm)
qed

text \<open>On these keys the runtime's \<open>=\<close> is the same relation.\<close>

lemma hash_mismatch_norm: "good_key a \<Longrightarrow> good_key b \<Longrightarrow> key_norm a = key_norm b \<Longrightarrow> \<not> hash_mismatch a b"
  using hashValue_norm [of undefined a] hashValue_norm [of undefined b]
  by (auto simp: hash_mismatch_def hashValue_def split: option.splits)

lemma valueEquals_norm:
  assumes "good_key a" "good_key b"
  shows "valueEquals a b \<longleftrightarrow> key_norm a = key_norm b"
proof (cases "IsNumber a \<and> IsNumber b")
  case True
  with assms show ?thesis
    using hash_mismatch_norm [OF assms] NumEq_good [OF assms]
    by (cases a; cases b) (auto simp: valueEquals_def flt_eq_good sint_inject_i64)
next
  case False
  with assms show ?thesis
    by (cases a; cases b) (auto simp: valueEquals_def)
qed

section \<open>The other keys\<close>

text \<open>\<open>nil\<close> and the empty list are equivalent keys with different hashes, and so are the two zeros.\<close>

lemma nil_empty_list_hash:
  "valueEquiv VNil VEmptyList" "hashValue str VNil \<noteq> hashValue str VEmptyList"
  by (simp add: valueEquiv_def) code_simp

lemma zeros_hash:
  "valueEquiv (VFloat (FZero False)) (VFloat (FZero True))"
  "hashValue str (VFloat (FZero False)) \<noteq> hashValue str (VFloat (FZero True))"
  by (simp add: valueEquiv_def) code_simp

end
