(* ===== verification/LG_NumberClaims.thy ===== *)
theory LG_NumberClaims
  imports LG_Quotient LG_NumCompare LG_Hash
begin

text \<open>The properties of the numbers, of equality and of hashing, with the inputs at which they are applied.\<close>

lemma exact_examples: "exact (VInt 9223372036854775807) = Some 9223372036854775807" "exact (VInt 1) = Some 1"
  "exact (VInt 3) = Some 3" "exact (VInt (- 7)) = Some (- 7)" "exact (VRatio (1 / 2)) = Some (1 / 2)"
  "exact (VBigInt 100000000000000000000) = Some 100000000000000000000"
proof -
  have "sint (9223372036854775807 :: i64) = 9223372036854775807" "sint (3 :: i64) = 3" "sint (- 7 :: i64) = - 7" by code_simp+
  then show "exact (VInt 9223372036854775807) = Some 9223372036854775807" "exact (VInt 1) = Some 1"
    "exact (VInt 3) = Some 3" "exact (VInt (- 7)) = Some (- 7)" "exact (VRatio (1 / 2)) = Some (1 / 2)"
    "exact (VBigInt 100000000000000000000) = Some 100000000000000000000"
    by simp_all
qed

section \<open>Arithmetic\<close>

text \<open>
  C17. Addition, subtraction and multiplication of integers, big integers and ratios are
  exact: the result is the number that arithmetic gives, or the overflow error exactly
  when both operands are machine integers and the result is not one.
\<close>

theorem arithmetic_exact_or_overflow:
  assumes "exact a = Some x" "exact b = Some y"
  shows "exact_or_overflow a b (x + y) (NumAdd a b) \<and> exact_or_overflow a b (x - y) (NumSub a b) \<and>
    exact_or_overflow a b (x * y) (NumMul a b)"
  using NumAdd_exact [OF assms] NumSub_exact [OF assms] NumMul_exact [OF assms] by blast

theorem arithmetic_exact_or_overflow_witness:
  "NumAdd (VInt 9223372036854775807) (VInt 1) = Err EIntOverflow \<and>
    (\<exists>v. NumMul (VInt 9223372036854775807) (VRatio (1 / 2)) = Ok v \<and> exact v = Some (9223372036854775807 / 2))"
  using arithmetic_exact_or_overflow [OF exact_examples(1,2)] arithmetic_exact_or_overflow [OF exact_examples(1,5)]
  by (simp add: exact_or_overflow_def both_int_def i64_bounds)

text \<open>C31. The promoting operations never overflow: every result on exact numbers is the exact one.\<close>

theorem promoting_never_overflows:
  assumes "exact a = Some x" "exact b = Some y"
  shows "\<exists>s d p n. NumAddP a b = Ok s \<and> exact s = Some (x + y) \<and> NumSubP a b = Ok d \<and> exact d = Some (x - y) \<and>
    NumMulP a b = Ok p \<and> exact p = Some (x * y) \<and> NumNegP a = Ok n \<and> exact n = Some (- x)"
  using promoting_exact [OF assms] NumNegP_exact [OF assms(1)] by metis

theorem promoting_never_overflows_witness:
  "\<exists>s. NumAddP (VInt 9223372036854775807) (VInt 1) = Ok s \<and> exact s = Some 9223372036854775808"
  using promoting_never_overflows [OF exact_examples(1,2)] by auto

lemma NumQuot_least: "NumQuot (VInt (word_of_int min_i64)) (VInt (- 1)) = Ok (VInt (word_of_int min_i64))"
  by code_simp



text \<open>C30. On exact numbers the comparisons are those of the rationals, and never fail.\<close>

theorem comparison_exact:
  assumes "exact a = Some x" "exact b = Some y"
  shows "NumLt a b = Ok (x < y) \<and> NumGt a b = Ok (y < x) \<and> NumLe a b = Ok (x \<le> y) \<and> NumGe a b = Ok (y \<le> x) \<and>
    NumEquivalent a b = Some (x = y)"
  using exact_compare [OF assms] by blast

theorem comparison_exact_witness:
  "NumLt (VRatio (1 / 2)) (VBigInt 100000000000000000000) = Ok True \<and> NumEquivalent (VInt 3) (VInt 1) = Some False"
  using comparison_exact [OF exact_examples(5,6)] comparison_exact [OF exact_examples(3,2)] by simp

section \<open>Equality and hashing\<close>

text \<open>
  C23. On scalar keys (nil, booleans, characters, numbers, strings, symbols, keywords, and the
  values compared by identity) other than the empty list, \<open>NaN\<close> and the negative zero, the
  equality of the collections is an equivalence, it is the language's \<open>=\<close>, and equal keys have
  equal hashes. Collections as keys are not values of this model, and nothing is said of them.
\<close>

theorem equality_and_hash:
  assumes "good_key a" "good_key b" "good_key c"
  shows "valueEquiv a a \<and> (valueEquiv a b \<longrightarrow> valueEquiv b a) \<and> (valueEquiv a b \<and> valueEquiv b c \<longrightarrow> valueEquiv a c) \<and>
    (valueEquals a b \<longleftrightarrow> valueEquiv a b) \<and> (valueEquiv a b \<longrightarrow> hashValue str a = hashValue str b)"
  using assms keys.eq_refl keys.eq_sym keys.eq_trans keys.eq_hash valueEquals_norm valueEquiv_norm by metis

theorem equality_and_hash_witness:
  "hashValue (\<lambda>k n. []) (VInt 3) = hashValue (\<lambda>k n. []) (VBigInt 3)"
proof -
  have "valueEquiv (VInt 3) (VBigInt 3)" by code_simp
  then show ?thesis
    using equality_and_hash [of "VInt 3" "VBigInt 3" VNil "\<lambda>k n. []"] by simp
qed

text \<open>
  C38. The corner cases where equality fails its purpose: a ratio is equivalent to \<open>NaN\<close>,
  a float to no big integer, \<open>nil\<close> and the empty list, and the two zeros, are equal keys
  of different hashes.
\<close>

theorem equality_corner_cases:
  "NumEquivalent (VRatio r) (VFloat FNaN) = Some True \<and> NumLe (VRatio r) (VFloat FNaN) = Ok True \<and>
    NumEquivalent (VFloat f) (VBigInt n) = Some False \<and>
    valueEquiv VNil VEmptyList \<and> hashValue str VNil \<noteq> hashValue str VEmptyList \<and>
    valueEquiv (VFloat (FZero False)) (VFloat (FZero True)) \<and>
    hashValue str (VFloat (FZero False)) \<noteq> hashValue str (VFloat (FZero True))"
  using ratio_equals_NaN float_bigint_not_equivalent nil_empty_list_hash zeros_hash by blast

end
