(* ===== verification/LG_Bitmap.thy ===== *)
theory LG_Bitmap
  imports LG_Prelude
begin

text \<open>
  The 32-bit bitmaps of the hash tries (\<open>pkg/vm/persistent_map.go\<close>, bit helpers and
  \<open>bitAtIndex\<close>): a bitmap is read as the increasing list of its set positions, and
  the population count before a bit is the position of the bit in that list.
\<close>

definition hmapShift :: nat where "hmapShift = 5"

definition hmapMaskFn :: "u32 \<Rightarrow> nat \<Rightarrow> u32" where
  "hmapMaskFn hash shift = (drop_bit shift hash AND 31)"

definition hmapBitpos :: "u32 \<Rightarrow> nat \<Rightarrow> u32" where
  "hmapBitpos hash shift = push_bit (unat (hmapMaskFn hash shift)) 1"

text \<open>\<open>bits.OnesCount32\<close>\<close>

definition OnesCount32 :: "u32 \<Rightarrow> nat" where
  "OnesCount32 w = length (filter (bit w) [0..<32])"

definition hmapIndex :: "u32 \<Rightarrow> u32 \<Rightarrow> nat" where
  "hmapIndex bitmap b = OnesCount32 (bitmap AND (b - 1))"

text \<open>Clearing the lowest set bit \<open>idx\<close> times, then isolating the lowest.\<close>

fun clear_lowest :: "nat \<Rightarrow> u32 \<Rightarrow> u32" where
  "clear_lowest 0 b = b"
| "clear_lowest (Suc n) b = clear_lowest n (b AND (b - 1))"

definition bitAtIndex :: "u32 \<Rightarrow> nat \<Rightarrow> u32" where
  "bitAtIndex bitmap idx = (let b = clear_lowest idx bitmap in b AND (NOT b + 1))"

section \<open>Positions\<close>

definition bits_of :: "u32 \<Rightarrow> nat list" where
  "bits_of w = filter (bit w) [0..<32]"

definition chunk :: "u32 \<Rightarrow> nat \<Rightarrow> nat" where
  "chunk hash shift = unat (hmapMaskFn hash shift)"

lemma chunk_take_bit: "chunk h s = unat (take_bit 5 (drop_bit s h))"
  by (simp add: chunk_def hmapMaskFn_def take_bit_eq_mask mask_eq_exp_minus_1)

lemma chunk_less [simp]: "chunk h s < 32"
proof -
  have "unat (take_bit 5 (drop_bit s h)) < 2 ^ 5"
    by (simp add: unsigned_take_bit_eq del: power_numeral)
  then show ?thesis by (simp add: chunk_take_bit)
qed

lemma hmapBitpos_eq: "hmapBitpos h s = 2 ^ chunk h s"
  by (simp add: hmapBitpos_def chunk_def push_bit_of_1)

lemma bit_hmapBitpos [simp]: "bit (hmapBitpos h s) i \<longleftrightarrow> i = chunk h s"
  unfolding hmapBitpos_eq by (auto simp: bit_exp_iff)

lemma bit_u32_bound: "bit (w :: u32) i \<Longrightarrow> i < 32"
  using bit_imp_le_length [of w i] by simp

lemma and_bitpos_eq_0: "bm AND hmapBitpos h s = 0 \<longleftrightarrow> \<not> bit bm (chunk h s)"
proof
  assume "bm AND hmapBitpos h s = 0"
  then have "\<not> bit (bm AND hmapBitpos h s) (chunk h s)" by simp
  then show "\<not> bit bm (chunk h s)" by (simp add: bit_and_iff)
next
  assume "\<not> bit bm (chunk h s)"
  then show "bm AND hmapBitpos h s = 0"
    by (intro bit_eqI) (auto simp: bit_and_iff)
qed

lemma hmapIndex_rank: "hmapIndex bm (hmapBitpos h s) = length (filter (bit bm) [0..<chunk h s])"
proof -
  let ?c = "chunk h s"
  have "filter (bit (bm AND (hmapBitpos h s - 1))) [0..<32] = filter (bit bm) [0..<?c]"
  proof -
    have m: "hmapBitpos h s - 1 = mask ?c" by (simp add: hmapBitpos_eq mask_eq_exp_minus_1)
    have "[0..<32] = [0..<?c] @ [?c..<32]"
      using chunk_less [of h s] by (metis le0 less_imp_le_nat upt_add_eq_append le_add_diff_inverse)
    moreover have "filter (bit (bm AND mask ?c)) [0..<?c] = filter (bit bm) [0..<?c]"
      by (intro filter_cong) (auto simp: bit_and_iff bit_mask_iff dest: bit_u32_bound)
    moreover have "filter (bit (bm AND mask ?c)) [?c..<32] = []"
      by (auto simp: bit_and_iff bit_mask_iff filter_empty_conv)
    ultimately show ?thesis unfolding m by simp
  qed
  then show ?thesis by (simp add: hmapIndex_def OnesCount32_def)
qed

definition lows :: "u32 \<Rightarrow> nat \<Rightarrow> nat list" where
  "lows bm c = filter (bit bm) [0..<c]"

definition highs :: "u32 \<Rightarrow> nat \<Rightarrow> nat list" where
  "highs bm c = filter (bit bm) [Suc c..<32]"

lemma bits_of_split:
  assumes "c < 32"
  shows "bits_of bm = lows bm c @ (if bit bm c then [c] else []) @ highs bm c"
proof -
  have "[0..<32] = [0..<c] @ c # [Suc c..<32]"
    using assms by (metis le0 less_imp_le_nat upt_add_eq_append le_add_diff_inverse upt_conv_Cons)
  then show ?thesis by (simp add: bits_of_def lows_def highs_def)
qed

lemma hmapIndex_lows: "hmapIndex bm (hmapBitpos h s) = length (lows bm (chunk h s))"
  by (simp add: hmapIndex_rank lows_def)

lemma lows_cong: "(\<And>i. i \<noteq> c \<Longrightarrow> bit bm i = bit bm' i) \<Longrightarrow> lows bm c = lows bm' c"
  by (auto simp: lows_def intro!: filter_cong)

lemma highs_cong: "(\<And>i. i \<noteq> c \<Longrightarrow> bit bm i = bit bm' i) \<Longrightarrow> highs bm c = highs bm' c"
  by (auto simp: highs_def intro!: filter_cong)

lemma bits_of_set:
  "bits_of (bm OR hmapBitpos h s) = lows bm (chunk h s) @ chunk h s # highs bm (chunk h s)"
  using lows_cong [of "chunk h s" "bm OR hmapBitpos h s" bm]
    highs_cong [of "chunk h s" "bm OR hmapBitpos h s" bm]
    bits_of_split [OF chunk_less [of h s], of "bm OR hmapBitpos h s"]
  by (auto simp: bit_or_iff)

lemma bits_of_clear:
  "bits_of (bm AND NOT (hmapBitpos h s)) = lows bm (chunk h s) @ highs bm (chunk h s)"
proof -
  have "bit (bm AND NOT (hmapBitpos h s)) i \<longleftrightarrow> bit bm i \<and> i \<noteq> chunk h s" for i
    using bit_u32_bound [of bm i] by (auto simp: bit_and_iff bit_not_iff)
  then show ?thesis
    using lows_cong [of "chunk h s" "bm AND NOT (hmapBitpos h s)" bm]
      highs_cong [of "chunk h s" "bm AND NOT (hmapBitpos h s)" bm]
      bits_of_split [OF chunk_less [of h s], of "bm AND NOT (hmapBitpos h s)"] by simp
qed

lemma bits_of_bitpos [simp]: "bits_of (hmapBitpos h s) = [chunk h s]"
proof -
  have "lows (hmapBitpos h s) (chunk h s) = []" "highs (hmapBitpos h s) (chunk h s) = []"
    by (auto simp: lows_def highs_def filter_empty_conv)
  then show ?thesis using bits_of_split [OF chunk_less [of h s], of "hmapBitpos h s"] by simp
qed

lemma bits_of_0 [simp]: "bits_of 0 = []"
  by (simp add: bits_of_def)

lemma bits_of_Nil_iff: "bits_of bm = [] \<longleftrightarrow> bm = 0"
  using bit_u32_bound [of bm] by (auto simp: bits_of_def filter_empty_conv bit_eq_iff)

lemma bits_of_inject: "bits_of bm = bits_of bm' \<Longrightarrow> bm = bm'"
proof (rule bit_eqI)
  fix i assume e: "bits_of bm = bits_of bm'"
  have "bit w i \<longleftrightarrow> i \<in> set (bits_of w)" for w using bit_u32_bound [of w i] by (auto simp: bits_of_def)
  then show "bit bm i = bit bm' i" using e by simp
qed

section \<open>The bit at an index\<close>

text \<open>\<open>b AND - b\<close> isolates the lowest set bit, and \<open>b AND (b - 1)\<close> clears it.\<close>

lemma lowest_bit:
  fixes b :: u32
  assumes "bit b p" "\<And>i. i < p \<Longrightarrow> \<not> bit b i"
  shows "b AND (NOT b + 1) = 2 ^ p" "b AND (b - 1) = b AND NOT (2 ^ p)"
proof -
  have p: "p < 32" using assms(1) by (rule bit_u32_bound)
  define c where "c = b AND NOT (2 ^ p)"
  have bc: "bit c i \<longleftrightarrow> bit b i \<and> i \<noteq> p" for i
    using bit_u32_bound [of b i] p by (auto simp: c_def bit_and_iff bit_not_iff bit_exp_iff)
  have clow: "\<not> bit c i" if "i \<le> p" for i using that assms(2) bc by (cases "i = p") auto
  have b: "b = c + 2 ^ p"
  proof -
    have "c AND 2 ^ p = 0" by (rule bit_eqI) (auto simp: bit_and_iff bit_exp_iff bc)
    then have "c + 2 ^ p = c OR 2 ^ p" by (simp add: disjunctive_add_eq_or)
    also have "\<dots> = b" using assms(1) p by (intro bit_eqI) (auto simp: bit_or_iff bit_exp_iff bc)
    finally show ?thesis by simp
  qed
  have m: "b - 1 = c OR mask p"
  proof -
    have "c AND mask p = 0" using clow by (intro bit_eqI) (auto simp: bit_and_iff bit_mask_iff)
    then have "c OR mask p = c + mask p" by (simp add: disjunctive_add_eq_or)
    then show ?thesis by (simp add: b mask_eq_exp_minus_1)
  qed
  show "b AND (b - 1) = b AND NOT (2 ^ p)"
    unfolding m using assms p
    by (intro bit_eqI) (auto simp: bit_and_iff bit_or_iff bit_mask_iff bit_not_iff bit_exp_iff bc)
  have "NOT b + 1 = NOT (b - 1)" by (simp add: not_eq_complement)
  then show "b AND (NOT b + 1) = 2 ^ p"
    unfolding m using assms p clow
    by (intro bit_eqI) (auto simp: bit_and_iff bit_or_iff bit_mask_iff bit_not_iff bit_exp_iff bc)
qed

lemma bits_of_sorted: "sorted_wrt (<) (bits_of w)"
  by (auto simp: bits_of_def intro!: sorted_wrt_filter)

lemma set_bits_of: "i \<in> set (bits_of w) \<longleftrightarrow> bit w i"
  using bit_u32_bound [of w i] by (auto simp: bits_of_def)

lemma bits_of_clear_lowest:
  assumes "bits_of b = p # ps"
  shows "bits_of (b AND (b - 1)) = ps" "b AND (NOT b + 1) = 2 ^ p"
proof -
  have p: "bit b p" using assms set_bits_of [of p b] by simp
  have low: "\<not> bit b i" if "i < p" for i
    using that bits_of_sorted [of b] assms set_bits_of [of i b] by auto
  show "b AND (NOT b + 1) = 2 ^ p" by (rule lowest_bit(1) [OF p low])
  have "bits_of (b AND NOT (2 ^ p)) = filter (\<lambda>i. i \<noteq> p) (bits_of b)"
    unfolding bits_of_def filter_filter using bit_u32_bound [OF p]
    by (intro filter_cong) (auto simp: bit_and_iff bit_not_iff bit_exp_iff)
  moreover have "p \<notin> set ps" using bits_of_sorted [of b] assms by auto
  then have "filter (\<lambda>i. i \<noteq> p) ps = ps" by (auto simp: filter_id_conv)
  moreover have "b AND (b - 1) = b AND NOT (2 ^ p)" by (rule lowest_bit(2) [OF p low])
  ultimately show "bits_of (b AND (b - 1)) = ps" using assms by simp
qed

lemma bitAtIndex_nth: "i < length (bits_of b) \<Longrightarrow> bitAtIndex b i = 2 ^ (bits_of b ! i)"
proof (induction i arbitrary: b)
  case 0
  then obtain p ps where "bits_of b = p # ps" by (cases "bits_of b") auto
  then show ?case using bits_of_clear_lowest(2) by (simp add: bitAtIndex_def)
next
  case (Suc i)
  then obtain p ps where ps: "bits_of b = p # ps" by (cases "bits_of b") auto
  then have "bits_of (b AND (b - 1)) = ps" by (rule bits_of_clear_lowest(1))
  with Suc ps show ?case by (simp add: bitAtIndex_def)
qed

lemma bitAtIndex_bitpos:
  assumes "bit bm (chunk h s)"
  shows "bitAtIndex bm (hmapIndex bm (hmapBitpos h s)) = hmapBitpos h s"
proof -
  have b: "bits_of bm = lows bm (chunk h s) @ chunk h s # highs bm (chunk h s)"
    using bits_of_split [OF chunk_less [of h s], of bm] assms by simp
  then have "bits_of bm ! length (lows bm (chunk h s)) = chunk h s" by simp
  then show ?thesis
    using bitAtIndex_nth [of "length (lows bm (chunk h s))" bm] b
    unfolding hmapIndex_lows by (simp add: hmapBitpos_eq)
qed

section \<open>Hashes that agree on their low bits\<close>

lemma agree_next:
  assumes "take_bit s h = take_bit s h'" "chunk h s = chunk h' s"
  shows "take_bit (s + 5) h = take_bit (s + 5) h'"
proof (rule bit_eqI)
  fix i
  have c: "take_bit 5 (drop_bit s h) = take_bit 5 (drop_bit s h')"
    using assms(2) by (simp add: chunk_take_bit word_unat_eq_iff)
  have low: "i < s \<Longrightarrow> bit h i = bit h' i"
    using assms(1) by (metis bit_take_bit_iff)
  have "s \<le> i \<Longrightarrow> i < s + 5 \<Longrightarrow> bit h i = bit h' i"
  proof -
    assume "s \<le> i" "i < s + 5"
    moreover from c have "bit (take_bit 5 (drop_bit s h)) (i - s) = bit (take_bit 5 (drop_bit s h')) (i - s)" by simp
    ultimately show ?thesis by (auto simp: bit_take_bit_iff bit_drop_bit_eq)
  qed
  with low show "bit (take_bit (s + 5) h) i = bit (take_bit (s + 5) h') i"
    unfolding bit_take_bit_iff by (cases "i < s") auto
qed

lemma agree_all: "take_bit s h = take_bit s h' \<Longrightarrow> 32 \<le> s \<Longrightarrow> h = (h' :: u32)"
  by (simp add: take_bit_word_eq_self)

end
