(* ===== verification/LG_Hamt.thy ===== *)
theory LG_Hamt
  imports LG_Bitmap LG_Hash
begin

text \<open>
  The hash trie of \<open>pkg/vm/persistent_map.go\<close>: bitmap nodes and collision nodes. The
  array of a bitmap node, alternating keys and values with a nil key before a
  child, is a list of slots. A node operation that may return its receiver says
  so with \<open>Same\<close> (the callers compare pointers) and nil with \<open>Gone\<close>. \<open>None\<close> is a
  panic (an index out of range) or a recursion that does not end: the recursion of
  \<open>assoc\<close> through \<open>createNode\<close> follows the bits of two hashes until they differ,
  which the invariant makes sure of.

  A node stands for the list of its entries; \<open>hinv s\<close> is the invariant of a node at
  shift \<open>s\<close>. The specification of the operations are the association list functions of
  the prelude.
\<close>

datatype hslot = HEntry val val | HChild hnode
  and hnode = HBitmap u32 "hslot list" | HColl u32 nat "(val \<times> val) list"

type_synonym printer = "rkind \<Rightarrow> nat \<Rightarrow> string"

section \<open>Operations\<close>

definition findIndex :: "nat \<Rightarrow> (val \<times> val) list \<Rightarrow> val \<Rightarrow> nat option" where
  "findIndex cnt es key = al_index valueEquiv key (take cnt es)"

lemma size_hchild [termination_simp]:
  "i < length arr \<Longrightarrow> arr ! i = HChild c \<Longrightarrow> size c < Suc (size_list size arr)"
  using nth_mem [of i arr] size_list_estimation [of "HChild c" arr "size c" size] by auto

fun hfind :: "hnode \<Rightarrow> nat \<Rightarrow> u32 \<Rightarrow> val \<Rightarrow> val option option" where
  "hfind (HBitmap bitmap arr) shift hash key =
     (let b = hmapBitpos hash shift in
      if bitmap AND b = 0 then Some None
      else case nth_opt arr (hmapIndex bitmap b) of
        None \<Rightarrow> None
      | Some (HChild child) \<Rightarrow> hfind child (shift + hmapShift) hash key
      | Some (HEntry k v) \<Rightarrow> Some (if valueEquiv key k then Some v else None))"
| "hfind (HColl h cnt es) shift hash key =
     (case findIndex cnt es key of
        None \<Rightarrow> Some None
      | Some i \<Rightarrow> (case nth_opt es i of None \<Rightarrow> None | Some e \<Rightarrow> Some (Some (snd e))))"

fun keyword_find :: "string \<Rightarrow> (val \<times> val) list \<Rightarrow> val option" where
  "keyword_find k [] = None"
| "keyword_find k ((k', v) # es) = (if k' = VKeyword k then Some v else keyword_find k es)"

fun hfindKeyword :: "hnode \<Rightarrow> nat \<Rightarrow> u32 \<Rightarrow> string \<Rightarrow> val option option" where
  "hfindKeyword (HBitmap bitmap arr) shift hash k =
     (let b = hmapBitpos hash shift in
      if bitmap AND b = 0 then Some None
      else case nth_opt arr (hmapIndex bitmap b) of
        None \<Rightarrow> None
      | Some (HChild child) \<Rightarrow> hfindKeyword child (shift + hmapShift) hash k
      | Some (HEntry k' v) \<Rightarrow> Some (if k' = VKeyword k then Some v else None))"
| "hfindKeyword (HColl h cnt es) shift hash k = Some (keyword_find k es)"

text \<open>
  \<open>assoc\<close> returns the node and whether it set \<open>*addedLeaf\<close>. The arm for two keys in
  one slot is \<open>createNode\<close>, in line.
\<close>

partial_function (option) hassoc ::
  "printer \<Rightarrow> hnode \<Rightarrow> nat \<Rightarrow> u32 \<Rightarrow> val \<Rightarrow> val \<Rightarrow> (hnode upd \<times> bool) option" where
  "hassoc str n shift hash key v = (case n of
     HBitmap bitmap arr \<Rightarrow>
       (let b = hmapBitpos hash shift; idx = hmapIndex bitmap b in
        if bitmap AND b \<noteq> 0 then
          (case nth_opt arr idx of
             None \<Rightarrow> None
           | Some (HChild child) \<Rightarrow>
               do {
                 (u, added) \<leftarrow> hassoc str child (shift + hmapShift) hash key v;
                 Some (case u of Same \<Rightarrow> Same | Gone \<Rightarrow> Gone
                   | New c \<Rightarrow> New (HBitmap bitmap (arr[idx := HChild c])), added)
               }
           | Some (HEntry k w) \<Rightarrow>
               if valueEquiv key k then
                 Some (if valueEquiv w v then Same else New (HBitmap bitmap (arr[idx := HEntry k v])), False)
               else if hashValue str k = hash then
                 Some (New (HBitmap bitmap (arr[idx := HChild (HColl hash 2 [(k, w), (key, v)])])), True)
               else
                 do {
                   (u1, a1) \<leftarrow> hassoc str (HBitmap 0 []) (shift + hmapShift) (hashValue str k) k w;
                   n1 \<leftarrow> upd_node (HBitmap 0 []) u1;
                   (u2, a2) \<leftarrow> hassoc str n1 (shift + hmapShift) hash key v;
                   n2 \<leftarrow> upd_node n1 u2;
                   Some (New (HBitmap bitmap (arr[idx := HChild n2])), True)
                 })
        else
          Some (New (HBitmap (bitmap OR b) (take idx arr @ HEntry key v # drop idx arr)), True))
   | HColl h cnt es \<Rightarrow>
       if hash = h then
         (case findIndex cnt es key of
            Some i \<Rightarrow>
              (case nth_opt es i of
                 None \<Rightarrow> None
               | Some (k, w) \<Rightarrow>
                   Some (if valueEquiv w v then Same else New (HColl h cnt (es[i := (k, v)])), False))
          | None \<Rightarrow> Some (New (HColl h (cnt + 1) (es @ [(key, v)])), True))
       else
         do {
           (u, added) \<leftarrow> hassoc str (HBitmap (hmapBitpos h shift) [HChild n]) shift hash key v;
           Some (case u of Same \<Rightarrow> New (HBitmap (hmapBitpos h shift) [HChild n]) | _ \<Rightarrow> u, True)
         })"

declare hassoc.simps [code]

definition createNode ::
  "printer \<Rightarrow> nat \<Rightarrow> u32 \<Rightarrow> val \<Rightarrow> val \<Rightarrow> u32 \<Rightarrow> val \<Rightarrow> val \<Rightarrow> hnode option" where
  "createNode str shift hash1 key1 val1 hash2 key2 val2 =
     (if hash1 = hash2 then Some (HColl hash1 2 [(key1, val1), (key2, val2)])
      else do {
        (u1, a1) \<leftarrow> hassoc str (HBitmap 0 []) shift hash1 key1 val1;
        n1 \<leftarrow> upd_node (HBitmap 0 []) u1;
        (u2, a2) \<leftarrow> hassoc str n1 shift hash2 key2 val2;
        upd_node n1 u2
      })"

definition removePair :: "u32 \<Rightarrow> hslot list \<Rightarrow> nat \<Rightarrow> hnode" where
  "removePair bitmap arr idx =
     HBitmap (bitmap AND NOT (bitAtIndex bitmap idx)) (take idx arr @ drop (Suc idx) arr)"

fun hdissoc :: "printer \<Rightarrow> hnode \<Rightarrow> nat \<Rightarrow> u32 \<Rightarrow> val \<Rightarrow> hnode upd option" where
  "hdissoc str (HBitmap bitmap arr) shift hash key =
     (let b = hmapBitpos hash shift in
      if bitmap AND b = 0 then Some Same
      else let idx = hmapIndex bitmap b in
        (case nth_opt arr idx of
           None \<Rightarrow> None
         | Some (HChild child) \<Rightarrow>
             (case hdissoc str child (shift + hmapShift) hash key of
                None \<Rightarrow> None
              | Some Same \<Rightarrow> Some Same
              | Some (New c) \<Rightarrow> Some (New (HBitmap bitmap (arr[idx := HChild c])))
              | Some Gone \<Rightarrow> Some (if bitmap = b then Gone else New (removePair bitmap arr idx)))
         | Some (HEntry k v) \<Rightarrow>
             if valueEquiv key k then
               Some (if bitmap = b then Gone else New (removePair bitmap arr idx))
             else Some Same))"
| "hdissoc str (HColl h cnt es) shift hash key =
     (case findIndex cnt es key of
        None \<Rightarrow> Some Same
      | Some i \<Rightarrow>
          if cnt = 1 then Some Gone
          else if cnt = 2 then
            (case nth_opt es (if i = 0 then 1 else 0) of
               None \<Rightarrow> None
             | Some (k, v) \<Rightarrow>
                 (case hassoc str (HBitmap 0 []) 0 h k v of
                    None \<Rightarrow> None
                  | Some (u, a) \<Rightarrow> map_option New (upd_node (HBitmap 0 []) u)))
          else Some (New (HColl h (cnt - 1) (take i es @ drop (Suc i) es))))"

fun nodeSeq :: "hnode \<Rightarrow> (val \<times> val) list" and slotSeq :: "hslot list \<Rightarrow> (val \<times> val) list" where
  "nodeSeq (HBitmap bitmap arr) = slotSeq arr"
| "nodeSeq (HColl h cnt es) = take cnt es"
| "slotSeq [] = []"
| "slotSeq (HEntry k v # ss) = (k, v) # slotSeq ss"
| "slotSeq (HChild c # ss) = nodeSeq c @ slotSeq ss"

text \<open>\<open>each\<close> stops at the first entry on which the callback returns false.\<close>

fun each_entry :: "('k \<Rightarrow> 'v \<Rightarrow> bool option) \<Rightarrow> ('k \<times> 'v) list \<Rightarrow> bool option" where
  "each_entry fn [] = Some True"
| "each_entry fn ((k, v) # es) = (case fn k v of
     None \<Rightarrow> None | Some ok \<Rightarrow> if \<not> ok then Some False else each_entry fn es)"

fun hnode_each :: "hnode \<Rightarrow> (val \<Rightarrow> val \<Rightarrow> bool option) \<Rightarrow> bool option"
  and slots_each :: "hslot list \<Rightarrow> (val \<Rightarrow> val \<Rightarrow> bool option) \<Rightarrow> bool option" where
  "hnode_each (HBitmap bitmap arr) fn = slots_each arr fn"
| "hnode_each (HColl h cnt es) fn = each_entry fn (take cnt es)"
| "slots_each [] fn = Some True"
| "slots_each (HEntry k v # ss) fn = (case fn k v of
     None \<Rightarrow> None | Some ok \<Rightarrow> if \<not> ok then Some False else slots_each ss fn)"
| "slots_each (HChild c # ss) fn = (case hnode_each c fn of
     None \<Rightarrow> None | Some ok \<Rightarrow> if \<not> ok then Some False else slots_each ss fn)"

text \<open>
  The transient \<open>assoc\<close> edits the nodes its token owns in place and copies the
  others; a node it returns has the contents it would have as a copy. A child that
  comes back edited in place is the same pointer, and the parent then needs no write:
  the contents are again those of the parent with that child.
\<close>

fun assocTransient :: "printer \<Rightarrow> hnode \<Rightarrow> nat \<Rightarrow> u32 \<Rightarrow> val \<Rightarrow> val \<Rightarrow> (hnode \<times> bool) option" where
  "assocTransient str (HBitmap bitmap arr) shift hash key v =
     (let b = hmapBitpos hash shift; idx = hmapIndex bitmap b in
      if bitmap AND b \<noteq> 0 then
        (case nth_opt arr idx of
           None \<Rightarrow> None
         | Some (HChild child) \<Rightarrow>
             (case assocTransient str child (shift + hmapShift) hash key v of
                None \<Rightarrow> None
              | Some (c, added) \<Rightarrow> Some (HBitmap bitmap (arr[idx := HChild c]), added))
         | Some (HEntry k w) \<Rightarrow>
             if valueEquiv key k then
               Some (if valueEquiv w v then HBitmap bitmap arr
                     else HBitmap bitmap (arr[idx := HEntry k v]), False)
             else
               (case createNode str (shift + hmapShift) (hashValue str k) k w hash key v of
                  None \<Rightarrow> None
                | Some c \<Rightarrow> Some (HBitmap bitmap (arr[idx := HChild c]), True)))
      else
        Some (HBitmap (bitmap OR b) (take idx arr @ HEntry key v # drop idx arr), True))"
| "assocTransient str (HColl h cnt es) shift hash key v =
     (case hassoc str (HColl h cnt es) shift hash key v of
        None \<Rightarrow> None
      | Some (u, added) \<Rightarrow> map_option (\<lambda>m. (m, added)) (upd_node (HColl h cnt es) u))"

section \<open>The invariant\<close>

fun hinv :: "printer \<Rightarrow> nat \<Rightarrow> hnode \<Rightarrow> bool"
  and slots_inv :: "printer \<Rightarrow> nat \<Rightarrow> nat list \<Rightarrow> hslot list \<Rightarrow> bool" where
  "hinv str s (HBitmap bitmap arr) = slots_inv str s (bits_of bitmap) arr"
| "hinv str s (HColl h cnt es) =
     (cnt = length es \<and> 2 \<le> cnt \<and> al_distinct valueEquiv es \<and>
      (\<forall>e \<in> set es. good_key (fst e) \<and> hashValue str (fst e) = h))"
| "slots_inv str s [] [] = True"
| "slots_inv str s (m # ms) (HEntry k v # ss) =
     (good_key k \<and> chunk (hashValue str k) s = m \<and> slots_inv str s ms ss)"
| "slots_inv str s (m # ms) (HChild c # ss) =
     (hinv str (s + 5) c \<and> nodeSeq c \<noteq> [] \<and> (\<forall>e \<in> set (nodeSeq c). chunk (hashValue str (fst e)) s = m) \<and>
      slots_inv str s ms ss)"
| "slots_inv str s _ _ = False"

section \<open>Entries and slots\<close>

declare nth_opt_eq_Some [simp del]

lemma nth_opt_mid [simp]: "i = length A \<Longrightarrow> nth_opt (A @ x # C) i = Some x"
  by (simp add: nth_opt_def)

lemma slotSeq_append [simp]: "slotSeq (xs @ ys) = slotSeq xs @ slotSeq ys"
proof (induction xs)
  case (Cons x xs)
  then show ?case by (cases x) auto
qed simp

lemma slots_inv_Cons:
  "slots_inv str s (m # ms) arr \<Longrightarrow> \<exists>sl ss. arr = sl # ss \<and> slots_inv str s [m] [sl] \<and> slots_inv str s ms ss"
  by (cases arr; cases "hd arr") auto

lemma slots_inv_ConsI: "slots_inv str s [m] [sl] \<Longrightarrow> slots_inv str s ms ss \<Longrightarrow> slots_inv str s (m # ms) (sl # ss)"
  by (cases sl) auto

lemma slots_inv_appendI:
  "slots_inv str s ms a \<Longrightarrow> slots_inv str s ns b \<Longrightarrow> slots_inv str s (ms @ ns) (a @ b)"
proof (induction ms arbitrary: a)
  case Nil
  then show ?case by (cases a) auto
next
  case (Cons m ms)
  obtain sl ss where "a = sl # ss" "slots_inv str s [m] [sl]" "slots_inv str s ms ss"
    using slots_inv_Cons [OF Cons.prems(1)] by blast
  with Cons show ?case using slots_inv_ConsI [of str s m sl "ms @ ns" "ss @ b"] by simp
qed

lemma slots_inv_appendD:
  "slots_inv str s (ms @ ns) arr \<Longrightarrow>
    \<exists>a b. arr = a @ b \<and> length a = length ms \<and> slots_inv str s ms a \<and> slots_inv str s ns b"
proof (induction ms arbitrary: arr)
  case Nil
  then show ?case by auto
next
  case (Cons m ms)
  then obtain sl ss where s: "arr = sl # ss" "slots_inv str s [m] [sl]" "slots_inv str s (ms @ ns) ss"
    using slots_inv_Cons by fastforce
  then obtain a b where "ss = a @ b" "length a = length ms" "slots_inv str s ms a" "slots_inv str s ns b"
    using Cons.IH by blast
  with s show ?case by (intro exI [of _ "sl # a"] exI [of _ b]) (auto intro: slots_inv_ConsI)
qed

lemma inv_keys:
  "hinv str s n \<Longrightarrow> e \<in> set (nodeSeq n) \<Longrightarrow> good_key (fst e)"
  "slots_inv str s ms arr \<Longrightarrow> e \<in> set (slotSeq arr) \<Longrightarrow>
    good_key (fst e) \<and> chunk (hashValue str (fst e)) s \<in> set ms"
  by (induction str s n and str s ms arr rule: hinv_slots_inv.induct) auto

text \<open>A key is equivalent only to keys in the slot of its hash.\<close>

lemma no_key_in_slots:
  assumes "slots_inv str s ms arr" "good_key k" "chunk (hashValue str k) s \<notin> set ms"
  shows "al_find valueEquiv k (slotSeq arr) = None"
proof -
  have "\<not> valueEquiv k (fst e)" if e: "e \<in> set (slotSeq arr)" for e
    using inv_keys(2) [OF assms(1) e] assms(2,3) keys.eq_hash [of k "fst e" str] by auto
  then show ?thesis by (simp add: al_find_None_iff)
qed

text \<open>The array of a bitmap node, cut at the position of a hash.\<close>

lemma lows_highs [simp]: "c \<notin> set (lows bm c)" "c \<notin> set (highs bm c)"
  by (auto simp: lows_def highs_def)

lemma bitmap_set:
  assumes "hinv str s (HBitmap bm arr)" "bit bm (chunk h s)"
  obtains A sl C where "arr = A @ sl # C" "length A = hmapIndex bm (hmapBitpos h s)"
    "slots_inv str s (lows bm (chunk h s)) A" "slots_inv str s [chunk h s] [sl]"
    "slots_inv str s (highs bm (chunk h s)) C"
proof -
  have "bits_of bm = lows bm (chunk h s) @ chunk h s # highs bm (chunk h s)"
    using bits_of_split [OF chunk_less [of h s], of bm] assms(2) by simp
  then have "slots_inv str s (lows bm (chunk h s) @ chunk h s # highs bm (chunk h s)) arr"
    using assms(1) by simp
  then obtain A B where AB: "arr = A @ B" "length A = length (lows bm (chunk h s))"
    "slots_inv str s (lows bm (chunk h s)) A" "slots_inv str s (chunk h s # highs bm (chunk h s)) B"
    using slots_inv_appendD by blast
  from AB(4) obtain sl C where "B = sl # C" "slots_inv str s [chunk h s] [sl]" "slots_inv str s (highs bm (chunk h s)) C"
    using slots_inv_Cons by blast
  with AB that show ?thesis by (simp add: hmapIndex_lows)
qed

lemma bitmap_unset:
  assumes "hinv str s (HBitmap bm arr)" "\<not> bit bm (chunk h s)"
  obtains A C where "arr = A @ C" "length A = hmapIndex bm (hmapBitpos h s)"
    "slots_inv str s (lows bm (chunk h s)) A" "slots_inv str s (highs bm (chunk h s)) C"
proof -
  have "bits_of bm = lows bm (chunk h s) @ highs bm (chunk h s)"
    using bits_of_split [OF chunk_less [of h s], of bm] assms(2) by simp
  then have "slots_inv str s (lows bm (chunk h s) @ highs bm (chunk h s)) arr"
    using assms(1) by simp
  then show ?thesis using slots_inv_appendD that unfolding hmapIndex_lows by blast
qed

lemma bitmap_rebuild:
  assumes "slots_inv str s (lows bm (chunk h s)) A" "slots_inv str s [chunk h s] [sl]"
    "slots_inv str s (highs bm (chunk h s)) C"
  shows "hinv str s (HBitmap (bm OR hmapBitpos h s) (A @ sl # C))"
    and "bit bm (chunk h s) \<Longrightarrow> hinv str s (HBitmap bm (A @ sl # C))"
proof -
  have i: "slots_inv str s (lows bm (chunk h s) @ chunk h s # highs bm (chunk h s)) (A @ sl # C)"
    by (rule slots_inv_appendI [OF assms(1) slots_inv_ConsI [OF assms(2,3)]])
  then show "hinv str s (HBitmap (bm OR hmapBitpos h s) (A @ sl # C))"
    by (simp add: bits_of_set)
  show "hinv str s (HBitmap bm (A @ sl # C))" if "bit bm (chunk h s)"
    using i that bits_of_split [OF chunk_less [of h s], of bm] by simp
qed

section \<open>Lookup\<close>

lemma findIndex_full: "cnt = length es \<Longrightarrow> findIndex cnt es key = al_index valueEquiv key es"
  by (simp add: findIndex_def)

theorem hfind_correct:
  "hinv str s n \<Longrightarrow> good_key k \<Longrightarrow> hfind n s (hashValue str k) k = Some (al_find valueEquiv k (nodeSeq n))"
proof (induction n s "hashValue str k" k rule: hfind.induct)
  case (1 bm arr s k)
  let ?h = "hashValue str k"
  show ?case
  proof (cases "bit bm (chunk ?h s)")
    case False
    have "chunk ?h s \<notin> set (bits_of bm)" using False by (simp add: set_bits_of)
    then have "al_find valueEquiv k (slotSeq arr) = None"
      using 1(2,3) by (intro no_key_in_slots) auto
    with False show ?thesis by (simp add: and_bitpos_eq_0)
  next
    case True
    obtain A sl C where s: "arr = A @ sl # C" "length A = hmapIndex bm (hmapBitpos ?h s)"
      "slots_inv str s (lows bm (chunk ?h s)) A" "slots_inv str s [chunk ?h s] [sl]"
      "slots_inv str s (highs bm (chunk ?h s)) C"
      using bitmap_set [OF 1(2) True] by metis
    have n: "al_find valueEquiv k (slotSeq A) = None" "al_find valueEquiv k (slotSeq C) = None"
      using no_key_in_slots [OF s(3) 1(3)] no_key_in_slots [OF s(5) 1(3)] by simp_all
    have nth: "nth_opt arr (hmapIndex bm (hmapBitpos ?h s)) = Some sl"
      using s(1,2) by simp
    show ?thesis
    proof (cases sl)
      case (HEntry k' v)
      have "al_find valueEquiv k (slotSeq arr) = (if valueEquiv k k' then Some v else None)"
        using n unfolding s(1) HEntry by (simp add: al_find_append)
      then show ?thesis using nth True HEntry
        by (simp add: and_bitpos_eq_0)
    next
      case (HChild c)
      with s(4) have "hinv str (s + 5) c" by simp
      then have "hfind c (s + hmapShift) ?h k = Some (al_find valueEquiv k (nodeSeq c))"
        using 1(1) True nth HChild 1(3) by (simp add: and_bitpos_eq_0 hmapShift_def)
      moreover have "al_find valueEquiv k (slotSeq arr) = al_find valueEquiv k (nodeSeq c)"
        using n unfolding s(1) HChild by (simp add: al_find_append split: option.splits)
      ultimately show ?thesis using nth True HChild
        by (simp add: and_bitpos_eq_0)
    qed
  qed
next
  case (2 h cnt es s k)
  then have c: "cnt = length es" by simp
  show ?case
  proof (cases "al_index valueEquiv k es")
    case None
    then show ?thesis by (simp add: findIndex_full c al_index_find)
  next
    case (Some i)
    then show ?thesis
      using al_index_bound [OF Some] by (simp add: findIndex_full c al_index_find nth_opt_def)
  qed
qed

lemma keyword_find_al: "keyword_find w es = al_find valueEquiv (VKeyword w) es"
proof (induction es)
  case (Cons e es)
  obtain k v where "e = (k, v)" by (cases e)
  with Cons show ?case by (cases k) (auto simp: valueEquiv_def)
qed simp

lemma keyword_equiv: "valueEquiv (VKeyword w) k \<longleftrightarrow> k = VKeyword w"
  by (cases k) (auto simp: valueEquiv_def)

lemma hfindKeyword_hfind: "hinv str s n \<Longrightarrow> hfindKeyword n s h w = hfind n s h (VKeyword w)"
proof (induction n s h w rule: hfindKeyword.induct)
  case (1 bm arr s h w)
  show ?case
  proof (cases "bit bm (chunk h s)")
    case True
    obtain A sl C where s: "arr = A @ sl # C" "length A = hmapIndex bm (hmapBitpos h s)"
      "slots_inv str s [chunk h s] [sl]"
      using bitmap_set [OF 1(2) True] by metis
    have nth: "nth_opt arr (hmapIndex bm (hmapBitpos h s)) = Some sl"
      using s(1,2) by simp
    show ?thesis
    proof (cases sl)
      case (HChild c)
      with s(3) have "hinv str (s + hmapShift) c" by (simp add: hmapShift_def)
      then show ?thesis using 1(1) True nth HChild by (simp add: and_bitpos_eq_0)
    qed (use nth True in \<open>simp add: and_bitpos_eq_0 keyword_equiv\<close>)
  qed (simp add: and_bitpos_eq_0)
next
  case (2 h cnt es s hash w)
  then have c: "cnt = length es" by simp
  show ?case
  proof (cases "al_index valueEquiv (VKeyword w) es")
    case None
    then show ?thesis by (simp add: findIndex_full c keyword_find_al al_index_find)
  next
    case (Some i)
    then show ?thesis
      using al_index_bound [OF Some] by (simp add: findIndex_full c keyword_find_al al_index_find nth_opt_def)
  qed
qed

section \<open>Insertion\<close>

definition keep :: "val \<Rightarrow> val \<Rightarrow> val" where
  "keep v w = (if valueEquiv w v then w else v)"

text \<open>What a node must become, of a node \<open>n\<close> at shift \<open>s\<close> and a key not on its way there.\<close>

definition upd_get :: "hnode \<Rightarrow> hnode upd \<Rightarrow> hnode" where
  "upd_get n u = (case u of New m \<Rightarrow> m | _ \<Rightarrow> n)"

definition put_ok :: "printer \<Rightarrow> nat \<Rightarrow> hnode \<Rightarrow> val \<Rightarrow> val \<Rightarrow> hnode \<Rightarrow> bool \<Rightarrow> bool" where
  "put_ok str s n k v n' added \<longleftrightarrow>
     hinv str s n' \<and>
     mset (nodeSeq n') = mset (al_put valueEquiv (keep v) k v (nodeSeq n)) \<and>
     (added \<longleftrightarrow> al_find valueEquiv k (nodeSeq n) = None)"

definition assoc_ok :: "printer \<Rightarrow> nat \<Rightarrow> hnode \<Rightarrow> val \<Rightarrow> val \<Rightarrow> bool" where
  "assoc_ok str s n k v \<longleftrightarrow> (\<exists>u added. hassoc str n s (hashValue str k) k v = Some (u, added) \<and>
     u \<noteq> Gone \<and> put_ok str s n k v (upd_get n u) added)"

lemma put_keys:
  assumes "mset es' = mset (al_put valueEquiv (keep v) k v es)" "e \<in> set es'"
  shows "fst e = k \<or> (\<exists>e' \<in> set es. fst e = fst e')"
  using assms keys_al_put [of e valueEquiv "keep v" k v es] by (metis set_mset_mset)

text \<open>A slot replaced by one that holds the insertion into its entries.\<close>

lemma put_ok_slot:
  assumes k: "good_key k" and b: "bit bm (chunk (hashValue str k) s)"
    and A: "slots_inv str s (lows bm (chunk (hashValue str k) s)) A"
    and C: "slots_inv str s (highs bm (chunk (hashValue str k) s)) C"
    and sl: "slots_inv str s [chunk (hashValue str k) s] [sl']"
    and m: "mset (slotSeq [sl']) = mset (al_put valueEquiv (keep v) k v (slotSeq [sl]))"
    and a: "added \<longleftrightarrow> al_find valueEquiv k (slotSeq [sl]) = None"
  shows "put_ok str s (HBitmap bm (A @ sl # C)) k v (HBitmap bm (A @ sl' # C)) added"
proof -
  have none: "al_find valueEquiv k (slotSeq A) = None" "al_find valueEquiv k (slotSeq C) = None"
    using no_key_in_slots [OF A k] no_key_in_slots [OF C k] by simp_all
  have seq: "slotSeq (A @ x # C) = slotSeq A @ slotSeq [x] @ slotSeq C" for x
    using slotSeq_append [of A "[x] @ C"] slotSeq_append [of "[x]" C] by simp
  have "mset (slotSeq (A @ sl' # C)) = mset (al_put valueEquiv (keep v) k v (slotSeq (A @ sl # C)))"
    unfolding seq al_put_middle [OF none] by (simp only: mset_append m)
  moreover have "added \<longleftrightarrow> al_find valueEquiv k (slotSeq (A @ sl # C)) = None"
    unfolding seq al_find_middle [OF none] by (rule a)
  ultimately show ?thesis
    using bitmap_rebuild(2) [OF A sl C b] unfolding put_ok_def nodeSeq.simps by blast
qed

text \<open>A new slot.\<close>

lemma put_ok_new:
  assumes k: "good_key k" and b: "\<not> bit bm (chunk (hashValue str k) s)"
    and A: "slots_inv str s (lows bm (chunk (hashValue str k) s)) A"
    and C: "slots_inv str s (highs bm (chunk (hashValue str k) s)) C"
  shows "put_ok str s (HBitmap bm (A @ C)) k v
    (HBitmap (bm OR hmapBitpos (hashValue str k) s) (A @ HEntry k v # C)) True"
proof -
  have none: "al_find valueEquiv k (slotSeq A) = None" "al_find valueEquiv k (slotSeq C) = None"
    using no_key_in_slots [OF A k] no_key_in_slots [OF C k] by simp_all
  have sl: "slots_inv str s [chunk (hashValue str k) s] [HEntry k v]" using k by simp
  show ?thesis
    using bitmap_rebuild(1) [OF A sl C] none al_put_middle [OF none, of "keep v" v "[]"]
    by (simp add: put_ok_def al_find_append)
qed

lemma hassoc_empty:
  "hassoc str (HBitmap 0 []) s h k v = Some (New (HBitmap (hmapBitpos h s) [HEntry k v]), True)"
  by (subst hassoc.simps) (simp add: hmapIndex_lows lows_def)

text \<open>The unfolding of \<open>assoc\<close> at a bitmap node, by the slot of the hash.\<close>

lemma hassoc_unset:
  assumes "\<not> bit bm (chunk h s)" "length A = hmapIndex bm (hmapBitpos h s)"
  shows "hassoc str (HBitmap bm (A @ C)) s h k v =
    Some (New (HBitmap (bm OR hmapBitpos h s) (A @ HEntry k v # C)), True)"
  using assms by (subst hassoc.simps) (simp add: and_bitpos_eq_0 flip: assms(2))

lemma map_option_bind': "map_option f (Option.bind m g) = Option.bind m (\<lambda>x. map_option f (g x))"
  by (cases m) auto

lemma createNode_slot:
  "map_option f (createNode str s h1 k1 w1 h2 k2 w2) =
    (if h1 = h2 then Some (f (HColl h1 2 [(k1, w1), (k2, w2)]))
     else do {
       (u1, a1) \<leftarrow> hassoc str (HBitmap 0 []) s h1 k1 w1;
       n1 \<leftarrow> upd_node (HBitmap 0 []) u1;
       (u2, a2) \<leftarrow> hassoc str n1 s h2 k2 w2;
       n2 \<leftarrow> upd_node n1 u2;
       Some (f n2)
     })"
  by (simp add: createNode_def map_option_bind' split_def map_conv_bind_option comp_def)

lemma hassoc_entry:
  assumes "bit bm (chunk h s)" "length A = hmapIndex bm (hmapBitpos h s)"
  shows "hassoc str (HBitmap bm (A @ HEntry k' w # C)) s h k v =
    (if valueEquiv k k' then
       Some (if valueEquiv w v then Same else New (HBitmap bm (A @ HEntry k' v # C)), False)
     else map_option (\<lambda>c. (New (HBitmap bm (A @ HChild c # C)), True))
       (createNode str (s + 5) (hashValue str k') k' w h k v))"
  using assms
  by (subst hassoc.simps)
    (simp add: and_bitpos_eq_0 createNode_slot hmapShift_def flip: assms(2))

lemma hassoc_child:
  assumes "bit bm (chunk h s)" "length A = hmapIndex bm (hmapBitpos h s)"
    "hassoc str c (s + 5) h k v = Some (u, added)" "u \<noteq> Gone"
  shows "\<exists>u'. hassoc str (HBitmap bm (A @ HChild c # C)) s h k v = Some (u', added) \<and> u' \<noteq> Gone \<and>
    upd_get (HBitmap bm (A @ HChild c # C)) u' = HBitmap bm (A @ HChild (upd_get c u) # C)"
  using assms
  by (subst hassoc.simps) (cases u; auto simp: and_bitpos_eq_0 hmapShift_def upd_get_def simp flip: assms(2))

section \<open>Insertion is correct\<close>

lemma hassoc_induct [case_names step]:
  assumes step: "\<And>s n. (\<And>s' n'. 32 - s' < 32 - s \<Longrightarrow> P s' n') \<Longrightarrow>
    (\<And>s' n'. 32 - s' \<le> 32 - s \<Longrightarrow> size n' < size n \<Longrightarrow> P s' n') \<Longrightarrow> P s n"
  shows "P (s :: nat) (n :: hnode)"
proof -
  have "\<forall>s n. 32 - s = d \<longrightarrow> P s n" for d
  proof (induction d rule: less_induct)
    case (less d)
    note outer = less.IH
    have "\<forall>s n. 32 - s = d \<longrightarrow> size n = m \<longrightarrow> P s n" for m
    proof (induction m rule: less_induct)
      case (less m)
      show ?case
      proof (intro allI impI)
        fix s :: nat and n :: hnode
        assume m: "32 - s = d" "size n = m"
        show "P s n"
        proof (rule step)
          show "P s' n'" if "32 - s' < 32 - s" for s' n'
            using outer that m by blast
          show "P s' n'" if "32 - s' \<le> 32 - s" "size n' < size n" for s' n'
            using outer less.IH that m by (metis le_less)
        qed
      qed
    qed
    then show ?case by blast
  qed
  then show ?thesis by blast
qed

text \<open>The two keys of a slot part where their hashes do.\<close>

lemma createNode_ok:
  assumes IH: "\<And>n k v. hinv str s n \<Longrightarrow> good_key k \<Longrightarrow>
      (\<forall>e \<in> set (nodeSeq n). take_bit s (hashValue str (fst e)) = take_bit s (hashValue str k)) \<Longrightarrow>
      hashValue str k1 \<noteq> hashValue str k2 \<Longrightarrow> assoc_ok str s n k v"
    and g: "good_key k1" "good_key k2" "\<not> valueEquiv k2 k1"
    and agree: "take_bit s (hashValue str k1) = take_bit s (hashValue str k2)"
  shows "\<exists>c. createNode str s (hashValue str k1) k1 v1 (hashValue str k2) k2 v2 = Some c \<and>
    hinv str s c \<and> mset (nodeSeq c) = {#(k1, v1), (k2, v2)#}"
proof (cases "hashValue str k1 = hashValue str k2")
  case True
  have "\<not> valueEquiv k1 k2" using g keys.eq_sym by blast
  with True g show ?thesis by (auto simp: createNode_def)
next
  case False
  let ?n1 = "HBitmap (hmapBitpos (hashValue str k1) s) [HEntry k1 v1]"
  have "hinv str s ?n1" using g(1) by simp
  then have "assoc_ok str s ?n1 k2 v2" using IH False g agree by simp
  then obtain u a where u: "hassoc str ?n1 s (hashValue str k2) k2 v2 = Some (u, a)" "u \<noteq> Gone"
    "put_ok str s ?n1 k2 v2 (upd_get ?n1 u) a"
    by (auto simp: assoc_ok_def)
  have "upd_node ?n1 u = Some (upd_get ?n1 u)" using u(2) by (cases u) (auto simp: upd_get_def)
  then have "createNode str s (hashValue str k1) k1 v1 (hashValue str k2) k2 v2 = Some (upd_get ?n1 u)"
    using False u(1) by (simp add: createNode_def hassoc_empty)
  moreover have "mset (nodeSeq (upd_get ?n1 u)) = {#(k1, v1), (k2, v2)#}"
    using u(3) g(3) by (simp add: put_ok_def)
  ultimately show ?thesis using u(3) False by (auto simp: put_ok_def)
qed

text \<open>Insertion at each kind of node.\<close>

lemma assoc_ok_unset:
  assumes "hinv str s (HBitmap bm arr)" "good_key k" "\<not> bit bm (chunk (hashValue str k) s)"
  shows "assoc_ok str s (HBitmap bm arr) k v"
proof -
  obtain A C where s: "arr = A @ C" "length A = hmapIndex bm (hmapBitpos (hashValue str k) s)"
    "slots_inv str s (lows bm (chunk (hashValue str k) s)) A"
    "slots_inv str s (highs bm (chunk (hashValue str k) s)) C"
    using bitmap_unset [OF assms(1,3)] by metis
  show ?thesis
    unfolding s(1) assoc_ok_def hassoc_unset [OF assms(3) s(2)]
    using put_ok_new [OF assms(2,3) s(3,4)] by (auto simp: upd_get_def)
qed

lemma assoc_ok_child:
  assumes i: "hinv str s (HBitmap bm arr)" and k: "good_key k"
    and b: "bit bm (chunk (hashValue str k) s)"
    and l: "nth_opt arr (hmapIndex bm (hmapBitpos (hashValue str k) s)) = Some (HChild c)"
    and c: "assoc_ok str (s + 5) c k v"
  shows "assoc_ok str s (HBitmap bm arr) k v"
proof -
  let ?h = "hashValue str k"
  obtain A sl C where s: "arr = A @ sl # C" "length A = hmapIndex bm (hmapBitpos ?h s)"
    "slots_inv str s (lows bm (chunk ?h s)) A" "slots_inv str s [chunk ?h s] [sl]"
    "slots_inv str s (highs bm (chunk ?h s)) C"
    using bitmap_set [OF i b] by metis
  have sl: "sl = HChild c" using l s(1,2) by simp
  obtain u added where u: "hassoc str c (s + 5) ?h k v = Some (u, added)" "u \<noteq> Gone"
    "put_ok str (s + 5) c k v (upd_get c u) added"
    using c by (auto simp: assoc_ok_def)
  obtain u' where u': "hassoc str (HBitmap bm (A @ HChild c # C)) s ?h k v = Some (u', added)" "u' \<noteq> Gone"
    "upd_get (HBitmap bm (A @ HChild c # C)) u' = HBitmap bm (A @ HChild (upd_get c u) # C)"
    using hassoc_child [OF b s(2) u(1,2)] by blast
  have m: "mset (nodeSeq (upd_get c u)) = mset (al_put valueEquiv (keep v) k v (nodeSeq c))"
    using u(3) by (simp add: put_ok_def)
  have ne: "nodeSeq (upd_get c u) \<noteq> []"
    using m by (metis al_put_nonempty mset_zero_iff)
  have ch: "\<forall>e \<in> set (nodeSeq (upd_get c u)). chunk (hashValue str (fst e)) s = chunk ?h s"
  proof
    fix e assume "e \<in> set (nodeSeq (upd_get c u))"
    from put_keys [OF m this] show "chunk (hashValue str (fst e)) s = chunk ?h s"
      using s(4) sl by auto
  qed
  have "put_ok str s (HBitmap bm (A @ HChild c # C)) k v (HBitmap bm (A @ HChild (upd_get c u) # C)) added"
    by (rule put_ok_slot [OF k b s(3,5)]) (use u(3) m ne ch in \<open>simp_all add: put_ok_def\<close>)
  with u' show ?thesis by (auto simp: s(1) sl assoc_ok_def)
qed

lemma assoc_ok_entry:
  assumes i: "hinv str s (HBitmap bm arr)" and k: "good_key k"
    and b: "bit bm (chunk (hashValue str k) s)"
    and l: "nth_opt arr (hmapIndex bm (hmapBitpos (hashValue str k) s)) = Some (HEntry k' w)"
    and c: "\<not> valueEquiv k k' \<Longrightarrow> \<exists>c. createNode str (s + 5) (hashValue str k') k' w (hashValue str k) k v = Some c \<and>
      hinv str (s + 5) c \<and> mset (nodeSeq c) = {#(k', w), (k, v)#}"
  shows "assoc_ok str s (HBitmap bm arr) k v"
proof -
  let ?h = "hashValue str k"
  obtain A sl C where s: "arr = A @ sl # C" "length A = hmapIndex bm (hmapBitpos ?h s)"
    "slots_inv str s (lows bm (chunk ?h s)) A" "slots_inv str s [chunk ?h s] [sl]"
    "slots_inv str s (highs bm (chunk ?h s)) C"
    using bitmap_set [OF i b] by metis
  have sl: "sl = HEntry k' w" using l s(1,2) by simp
  have k': "good_key k'" "chunk (hashValue str k') s = chunk ?h s" using s(4) sl by simp_all
  have n: "upd_get n Same = n" "upd_get n (New m) = m" for n m by (simp_all add: upd_get_def)
  show ?thesis
  proof (cases "valueEquiv k k'")
    case True
    have "put_ok str s (HBitmap bm (A @ HEntry k' w # C)) k v (HBitmap bm (A @ HEntry k' (keep v w) # C)) False"
      by (rule put_ok_slot [OF k b s(3,5)]) (use True k' in simp_all)
    then show ?thesis
      unfolding s(1) sl assoc_ok_def hassoc_entry [OF b s(2)]
      using True by (cases "valueEquiv w v") (auto simp: keep_def n)
  next
    case False
    obtain c where c: "createNode str (s + 5) (hashValue str k') k' w ?h k v = Some c"
      "hinv str (s + 5) c" "mset (nodeSeq c) = {#(k', w), (k, v)#}"
      using c [OF False] by blast
    have e: "set (nodeSeq c) = {(k', w), (k, v)}" using c(3) by (metis set_mset_add_mset_insert set_mset_empty set_mset_mset)
    have "put_ok str s (HBitmap bm (A @ HEntry k' w # C)) k v (HBitmap bm (A @ HChild c # C)) True"
      by (rule put_ok_slot [OF k b s(3,5)]) (use False c k' e in auto)
    then show ?thesis
      unfolding s(1) sl assoc_ok_def hassoc_entry [OF b s(2)]
      using False c(1) by (auto simp: n)
  qed
qed

lemma assoc_ok_bucket:
  assumes i: "hinv str s (HColl h cnt es)" and k: "good_key k" and h: "hashValue str k = h"
  shows "assoc_ok str s (HColl h cnt es) k v"
proof -
  have c: "cnt = length es" and g: "\<forall>e \<in> set es. good_key (fst e)"
    and d: "al_distinct valueEquiv es" using i by simp_all
  let ?es = "al_put valueEquiv (keep v) k v es"
  have "good_key (fst e) \<and> hashValue str (fst e) = h" if "e \<in> set ?es" for e
    using keys_al_put [OF that] i k h by auto
  then have inv: "hinv str s (HColl h (length ?es) ?es)"
    using i keys.al_distinct_put [OF k g d, of "keep v" v] by (auto simp: length_al_put)
  show ?thesis
  proof (cases "al_index valueEquiv k es")
    case None
    then have n: "al_find valueEquiv k es = None" by (simp add: al_index_None_iff)
    then have "put_ok str s (HColl h cnt es) k v (HColl h (cnt + 1) (es @ [(k, v)])) True"
      using inv c by (simp add: put_ok_def al_put_absent)
    then show ?thesis
      unfolding assoc_ok_def using None h c
      by (subst hassoc.simps) (auto simp: findIndex_full upd_get_def)
  next
    case (Some j)
    obtain k' w where e: "es ! j = (k', w)" by (cases "es ! j")
    have j: "j < length es" using al_index_bound [OF Some] by simp
    have p: "?es = es[j := (k', keep v w)]" using al_put_index [OF Some] e by simp
    have l: "length ?es = length es" unfolding p by simp
    have f: "al_find valueEquiv k es \<noteq> None" using Some by (simp add: al_index_find)
    have "put_ok str s (HColl h cnt es) k v (HColl h cnt (es[j := (k', keep v w)])) False"
      using inv c f l unfolding p [symmetric] by (simp add: put_ok_def)
    moreover have "es[j := (k', w)] = es" using e by (metis list_update_id)
    moreover have "hassoc str (HColl h cnt es) s (hashValue str k) k v =
      Some (if valueEquiv w v then Same else New (HColl h cnt (es[j := (k', v)])), False)"
      by (subst hassoc.simps) (simp add: findIndex_full [OF c] nth_opt_def Some h j e)
    ultimately show ?thesis
      unfolding assoc_ok_def by (cases "valueEquiv w v") (auto simp: upd_get_def keep_def)
  qed
qed

text \<open>A key that reaches a bucket of another hash: the bucket moves below a new node.\<close>

lemma assoc_ok_wrap:
  assumes h: "hashValue str k \<noteq> h"
    and w: "assoc_ok str s (HBitmap (hmapBitpos h s) [HChild (HColl h cnt es)]) k v"
    and n: "al_find valueEquiv k (nodeSeq (HColl h cnt es)) = None"
  shows "assoc_ok str s (HColl h cnt es) k v"
proof -
  let ?w = "HBitmap (hmapBitpos h s) [HChild (HColl h cnt es)]"
  obtain u added where u: "hassoc str ?w s (hashValue str k) k v = Some (u, added)" "u \<noteq> Gone"
    "put_ok str s ?w k v (upd_get ?w u) added"
    using w by (auto simp: assoc_ok_def)
  have "hassoc str (HColl h cnt es) s (hashValue str k) k v = Some (New (upd_get ?w u), True)"
    using h u(1,2) by (subst hassoc.simps) (cases u; auto simp: upd_get_def)
  moreover have "put_ok str s (HColl h cnt es) k v (upd_get ?w u) True"
    using u(3) n by (simp add: put_ok_def)
  ultimately show ?thesis by (auto simp: assoc_ok_def upd_get_def)
qed

theorem hassoc_correct:
  "hinv str s n \<Longrightarrow> good_key k \<Longrightarrow>
    \<forall>e \<in> set (nodeSeq n). take_bit s (hashValue str (fst e)) = take_bit s (hashValue str k) \<Longrightarrow>
    assoc_ok str s n k v"
proof (induction s n arbitrary: k v rule: hassoc_induct)
  case (step s n k v)
  let ?h = "hashValue str k"
  have child: "assoc_ok str (s + 5) c k v"
    if "s < 32 \<or> size c < size n" "hinv str (s + 5) c" "\<forall>e \<in> set (nodeSeq c). chunk (hashValue str (fst e)) s = chunk ?h s"
      "set (nodeSeq c) \<subseteq> set (nodeSeq n)" for c
  proof -
    have "\<forall>e \<in> set (nodeSeq c). take_bit (s + 5) (hashValue str (fst e)) = take_bit (s + 5) ?h"
      using that(3,4) step.prems(3) by (auto intro!: agree_next)
    moreover have "32 - (s + 5) < 32 - s \<or> 32 - (s + 5) \<le> 32 - s \<and> size c < size n"
      using that(1) by linarith
    ultimately show ?thesis using step.IH that(2) step.prems(2) by blast
  qed
  show ?case
  proof (cases n)
    case (HBitmap bm arr)
    note i = step.prems(1) [unfolded HBitmap]
    show ?thesis
    proof (cases "bit bm (chunk ?h s)")
      case False
      then show ?thesis unfolding HBitmap by (rule assoc_ok_unset [OF i step.prems(2)])
    next
      case True
      obtain A sl C where s: "arr = A @ sl # C" "length A = hmapIndex bm (hmapBitpos ?h s)"
        "slots_inv str s [chunk ?h s] [sl]"
        using bitmap_set [OF i True] by metis
      then have l: "nth_opt arr (hmapIndex bm (hmapBitpos ?h s)) = Some sl" by simp
      show ?thesis
      proof (cases sl)
        case (HChild c)
        have "assoc_ok str (s + 5) c k v"
          by (rule child) (use s(1,3) HChild HBitmap in auto)
        then show ?thesis
          unfolding HBitmap using assoc_ok_child [OF i step.prems(2) True] l HChild by simp
      next
        case (HEntry k' w)
        have k': "good_key k'" "chunk (hashValue str k') s = chunk ?h s"
          "take_bit s (hashValue str k') = take_bit s ?h"
          using s step.prems(3) HEntry HBitmap by auto
        have s32: "s < 32" if "hashValue str k' \<noteq> ?h"
          using that k'(3) agree_all by (metis not_less)
        have "\<exists>c. createNode str (s + 5) (hashValue str k') k' w ?h k v = Some c \<and>
            hinv str (s + 5) c \<and> mset (nodeSeq c) = {#(k', w), (k, v)#}"
          if "\<not> valueEquiv k k'"
          by (rule createNode_ok)
            (use step.IH(1) [of "s + 5"] s32 that k' step.prems(2) in \<open>auto intro: agree_next\<close>)
        then show ?thesis
          unfolding HBitmap using assoc_ok_entry [OF i step.prems(2) True] l HEntry by simp
      qed
    qed
  next
    case (HColl h cnt es)
    note i = step.prems(1) [unfolded HColl]
    show ?thesis
    proof (cases "?h = h")
      case True
      then show ?thesis unfolding HColl by (rule assoc_ok_bucket [OF i step.prems(2)])
    next
      case False
      have e: "\<forall>e \<in> set es. good_key (fst e) \<and> hashValue str (fst e) = h" and c: "cnt = length es" "es \<noteq> []"
        using i by auto
      have t: "take_bit s h = take_bit s ?h"
        using step.prems(3) c e HColl by (cases es) auto
      with False have s32: "s < 32" using agree_all by (metis not_less)
      let ?w = "HBitmap (hmapBitpos h s) [HChild (HColl h cnt es)]"
      have wi: "hinv str s ?w" using i c e by simp
      have n: "al_find valueEquiv k (nodeSeq (HColl h cnt es)) = None"
        using e c False step.prems(2) keys.eq_hash by (fastforce simp: al_find_None_iff)
      have "assoc_ok str s ?w k v"
      proof (cases "chunk ?h s = chunk h s")
        case True
        have "assoc_ok str (s + 5) (HColl h cnt es) k v"
          by (rule child) (use s32 i e c True HColl in auto)
        then show ?thesis
          using True assoc_ok_child [OF wi step.prems(2)] by (simp add: hmapIndex_lows lows_def nth_opt_def)
      next
        case False
        then show ?thesis by (intro assoc_ok_unset wi step.prems(2)) simp
      qed
      then show ?thesis unfolding HColl using False n by (intro assoc_ok_wrap) auto
    qed
  qed
qed

section \<open>The transient insertion\<close>

text \<open>It makes the node that the persistent insertion makes.\<close>

theorem assocTransient_hassoc:
  "hassoc str n s h k v = Some (u, added) \<Longrightarrow> u \<noteq> Gone \<Longrightarrow>
    assocTransient str n s h k v = Some (upd_get n u, added)"
proof (induction str n s h k v arbitrary: u added rule: assocTransient.induct)
  case (1 str bm arr s h k v)
  let ?i = "hmapIndex bm (hmapBitpos h s)"
  show ?case
  proof (cases "bit bm (chunk h s)")
    case False
    then show ?thesis
      using 1(2) by (subst (asm) hassoc.simps) (auto simp: Let_def and_bitpos_eq_0 upd_get_def)
  next
    case True
    obtain sl where sl: "nth_opt arr ?i = Some sl"
      using 1(2) True by (subst (asm) hassoc.simps) (auto simp: Let_def and_bitpos_eq_0 split: option.splits)
    then have id: "arr[?i := sl] = arr" by (metis list_update_id nth_opt_eq_Some)
    show ?thesis
    proof (cases sl)
      case (HChild c)
      obtain u' where u': "hassoc str c (s + hmapShift) h k v = Some (u', added)"
        "u = (case u' of Same \<Rightarrow> Same | Gone \<Rightarrow> Gone | New c \<Rightarrow> New (HBitmap bm (arr[?i := HChild c])))"
        using 1(2) True sl HChild by (subst (asm) hassoc.simps) (auto simp: Let_def and_bitpos_eq_0 bind_eq_Some_conv)
      then have "assocTransient str c (s + hmapShift) h k v = Some (upd_get c u', added)"
        using 1(1) [OF refl refl _ sl HChild u'(1)] True 1(3) by (cases u') (auto simp: and_bitpos_eq_0)
      then show ?thesis
        using True sl HChild u' 1(3) id by (cases u') (auto simp: Let_def and_bitpos_eq_0 upd_get_def)
    next
      case (HEntry k' w)
      have "hassoc str (HBitmap bm arr) s h k v = (if valueEquiv k k' then
          Some (if valueEquiv w v then Same else New (HBitmap bm (arr[?i := HEntry k' v])), False)
        else map_option (\<lambda>c. (New (HBitmap bm (arr[?i := HChild c])), True))
          (createNode str (s + hmapShift) (hashValue str k') k' w h k v))"
        using True sl HEntry
        by (subst hassoc.simps) (simp add: Let_def and_bitpos_eq_0 createNode_slot)
      from trans [OF sym [OF this] 1(2)] show ?thesis
        using True sl HEntry by (auto simp: Let_def and_bitpos_eq_0 upd_get_def split: if_splits option.splits)
    qed
  qed
next
  case (2 str h cnt es s hash k v)
  then show ?case by (cases u) (auto simp: upd_get_def)
qed

section \<open>Traversal\<close>

lemma each_entry_append: "each_entry fn (xs @ ys) = (case each_entry fn xs of
    None \<Rightarrow> None | Some ok \<Rightarrow> if \<not> ok then Some False else each_entry fn ys)"
  by (induction fn xs rule: each_entry.induct) (auto split: option.splits)

theorem hnode_each_nodeSeq:
  "hnode_each n fn = each_entry fn (nodeSeq n)"
  "slots_each arr fn = each_entry fn (slotSeq arr)"
  by (induction n fn and arr fn rule: hnode_each_slots_each.induct)
    (auto simp: each_entry_append split: option.splits)

text \<open>No key of a trie is equivalent to another.\<close>

lemma al_distinct_append:
  "al_distinct eq (xs @ ys) \<longleftrightarrow>
    al_distinct eq xs \<and> al_distinct eq ys \<and> (\<forall>x \<in> set xs. al_find eq (fst x) ys = None)"
  by (induction xs) (auto simp: al_find_append split: option.splits)

theorem hinv_distinct:
  "hinv str s n \<Longrightarrow> al_distinct valueEquiv (nodeSeq n)"
  "slots_inv str s ms arr \<Longrightarrow> distinct ms \<Longrightarrow> al_distinct valueEquiv (slotSeq arr)"
proof (induction str s n and str s ms arr rule: hinv_slots_inv.induct)
  case (1 str s bm arr)
  then show ?case using bits_of_sorted [of bm] by (auto simp: strict_sorted_iff)
next
  case (4 str s m ms k v ss)
  then show ?case by (auto intro: no_key_in_slots)
next
  case (5 str s m ms c ss)
  have "al_find valueEquiv (fst e) (slotSeq ss) = None" if "e \<in> set (nodeSeq c)" for e
    using that 5(3,4) inv_keys(1) [of str "s + 5" c e] by (intro no_key_in_slots) auto
  with 5 show ?case by (auto simp: al_distinct_append)
qed auto

section \<open>Removal\<close>

text \<open>
  Removal finds the key, and keeps the other entries in their order. The theorem
  leaves out a key that shares its hash with another key: a bucket of two that loses
  one makes the node of the other for shift 0 wherever it stands.
\<close>

definition alone :: "printer \<Rightarrow> val \<Rightarrow> (val \<times> val) list \<Rightarrow> bool" where
  "alone str k es \<longleftrightarrow> (\<forall>e \<in> set es. hashValue str (fst e) = hashValue str k \<longrightarrow> valueEquiv k (fst e))"

definition del_ok :: "printer \<Rightarrow> nat \<Rightarrow> hnode \<Rightarrow> val \<Rightarrow> hnode upd \<Rightarrow> bool" where
  "del_ok str s n k u \<longleftrightarrow> (case u of
     Same \<Rightarrow> al_find valueEquiv k (nodeSeq n) = None
   | Gone \<Rightarrow> al_find valueEquiv k (nodeSeq n) \<noteq> None \<and> al_del valueEquiv k (nodeSeq n) = []
   | New m \<Rightarrow> al_find valueEquiv k (nodeSeq n) \<noteq> None \<and> hinv str s m \<and> nodeSeq m \<noteq> [] \<and>
       nodeSeq m = al_del valueEquiv k (nodeSeq n))"

lemma slots_inv_length: "slots_inv str s ms arr \<Longrightarrow> length arr = length ms"
proof (induction ms arbitrary: arr)
  case Nil
  then show ?case by (cases arr) auto
next
  case (Cons m ms)
  then show ?case using slots_inv_Cons [OF Cons.prems] by auto
qed

lemma slotSeq_nonempty: "slots_inv str s ms arr \<Longrightarrow> arr \<noteq> [] \<Longrightarrow> slotSeq arr \<noteq> []"
  by (cases "(str, s, ms, arr)" rule: slots_inv.cases) auto

lemma drop_slot:
  assumes i: "hinv str s (HBitmap bm (A @ sl # C))" and b: "bit bm (chunk (hashValue str k) s)"
    and l: "length A = hmapIndex bm (hmapBitpos (hashValue str k) s)"
    and A: "slots_inv str s (lows bm (chunk (hashValue str k) s)) A"
    and C: "slots_inv str s (highs bm (chunk (hashValue str k) s)) C" and k: "good_key k"
    and sl: "al_find valueEquiv k (slotSeq [sl]) \<noteq> None" "al_del valueEquiv k (slotSeq [sl]) = []"
  shows "del_ok str s (HBitmap bm (A @ sl # C)) k
    (if bm = hmapBitpos (hashValue str k) s then Gone else New (removePair bm (A @ sl # C) (length A)))"
proof -
  let ?h = "hashValue str k"
  have none: "al_find valueEquiv k (slotSeq A) = None" "al_find valueEquiv k (slotSeq C) = None"
    using no_key_in_slots [OF A k] no_key_in_slots [OF C k] by simp_all
  have seq: "slotSeq (A @ sl # C) = slotSeq A @ slotSeq [sl] @ slotSeq C"
    using slotSeq_append [of A "[sl] @ C"] slotSeq_append [of "[sl]" C] by simp
  have d: "al_del valueEquiv k (slotSeq (A @ sl # C)) = slotSeq (A @ C)"
    and f: "al_find valueEquiv k (slotSeq (A @ sl # C)) \<noteq> None"
    unfolding seq al_del_middle [OF none] al_find_middle [OF none] using sl by simp_all
  have len: "length A = length (lows bm (chunk ?h s))" using l by (simp add: hmapIndex_lows)
  show ?thesis
  proof (cases "bm = hmapBitpos ?h s")
    case True
    have "length (A @ sl # C) = 1"
      using i True by (auto dest: slots_inv_length)
    then have "A = []" "C = []" by auto
    with True d f show ?thesis by (simp add: del_ok_def)
  next
    case False
    have r: "removePair bm (A @ sl # C) (length A) = HBitmap (bm AND NOT (hmapBitpos ?h s)) (A @ C)"
      using bitAtIndex_bitpos [OF b] l by (simp add: removePair_def)
    have inv: "slots_inv str s (bits_of (bm AND NOT (hmapBitpos ?h s))) (A @ C)"
      unfolding bits_of_clear by (rule slots_inv_appendI [OF A C])
    have "A @ C \<noteq> []"
    proof
      assume "A @ C = []"
      then have "bits_of bm = [chunk ?h s]"
        using bits_of_split [OF chunk_less [of ?h s], of bm] b len
          slots_inv_length [OF C] by auto
      then have "bm = hmapBitpos ?h s" by (intro bits_of_inject) simp
      with False show False by simp
    qed
    then have "slotSeq (A @ C) \<noteq> []" by (rule slotSeq_nonempty [OF inv])
    with False r inv d f show ?thesis by (simp add: del_ok_def)
  qed
qed

theorem hdissoc_correct:
  "hinv str s n \<Longrightarrow> good_key k \<Longrightarrow> alone str k (nodeSeq n) \<Longrightarrow>
    \<exists>u. hdissoc str n s (hashValue str k) k = Some u \<and> del_ok str s n k u"
proof (induction str n s "hashValue str k" k rule: hdissoc.induct)
  case (1 str bm arr s k)
  let ?h = "hashValue str k" and ?i = "hmapIndex bm (hmapBitpos (hashValue str k) s)"
  show ?case
  proof (cases "bit bm (chunk ?h s)")
    case False
    then have "al_find valueEquiv k (slotSeq arr) = None"
      using 1(2,3) by (intro no_key_in_slots) (auto simp: set_bits_of)
    with False show ?thesis by (simp add: and_bitpos_eq_0 del_ok_def)
  next
    case True
    obtain A sl C where s: "arr = A @ sl # C" "length A = ?i"
      "slots_inv str s (lows bm (chunk ?h s)) A" "slots_inv str s [chunk ?h s] [sl]"
      "slots_inv str s (highs bm (chunk ?h s)) C"
      using bitmap_set [OF 1(2) True] by metis
    have none: "al_find valueEquiv k (slotSeq A) = None" "al_find valueEquiv k (slotSeq C) = None"
      using no_key_in_slots [OF s(3) 1(3)] no_key_in_slots [OF s(5) 1(3)] by simp_all
    have seq: "slotSeq (A @ x # C) = slotSeq A @ slotSeq [x] @ slotSeq C" for x
      using slotSeq_append [of A "[x] @ C"] slotSeq_append [of "[x]" C] by simp
    have nth: "nth_opt arr ?i = Some sl" using s(1,2) by simp
    note drop = drop_slot [OF 1(2) [unfolded s(1)] True s(2,3,5) 1(3), folded s(1)]
    show ?thesis
    proof (cases sl)
      case (HEntry k' w)
      show ?thesis
      proof (cases "valueEquiv k k'")
        case True
        have "del_ok str s (HBitmap bm arr) k
            (if bm = hmapBitpos ?h s then Gone else New (removePair bm arr ?i))"
          using drop True HEntry unfolding s(2) [symmetric]
          by (cases "bm = hmapBitpos ?h s") simp_all
        with True \<open>bit bm (chunk ?h s)\<close> nth HEntry show ?thesis
          by (auto simp: Let_def and_bitpos_eq_0)
      next
        case False
        then have "al_find valueEquiv k (slotSeq arr) = None"
          unfolding s(1) seq al_find_middle [OF none] HEntry by simp
        with False True nth HEntry show ?thesis
          by (simp add: Let_def and_bitpos_eq_0 del_ok_def)
      qed
    next
      case (HChild c)
      have "hinv str (s + hmapShift) c" "alone str k (nodeSeq c)"
        using s(4) 1(4) unfolding HChild s(1) by (auto simp: alone_def hmapShift_def)
      then obtain u where u: "hdissoc str c (s + hmapShift) ?h k = Some u" "del_ok str (s + 5) c k u"
        using 1(1) [OF refl _ refl nth HChild] True 1(3) by (auto simp: and_bitpos_eq_0 hmapShift_def)
      show ?thesis
      proof (cases u)
        case Same
        then have "al_find valueEquiv k (slotSeq arr) = None"
          using u(2) unfolding s(1) seq al_find_middle [OF none] HChild by (simp add: del_ok_def)
        with True nth HChild u(1) Same show ?thesis
          by (simp add: Let_def and_bitpos_eq_0 del_ok_def)
      next
        case Gone
        then have "del_ok str s (HBitmap bm arr) k
            (if bm = hmapBitpos ?h s then Gone else New (removePair bm arr ?i))"
          using drop u(2) HChild unfolding s(2) [symmetric]
          by (cases "bm = hmapBitpos ?h s") (auto simp: del_ok_def)
        with True nth HChild u(1) Gone show ?thesis
          by (auto simp: Let_def and_bitpos_eq_0)
      next
        case (New m)
        with u(2) have m: "al_find valueEquiv k (nodeSeq c) \<noteq> None" "hinv str (s + 5) m" "nodeSeq m \<noteq> []"
          "nodeSeq m = al_del valueEquiv k (nodeSeq c)" by (auto simp: del_ok_def)
        have sl: "slots_inv str s [chunk ?h s] [HChild m]"
          using m s(4) HChild set_al_del [of valueEquiv k "nodeSeq c"] by auto
        have "slotSeq (A @ HChild m # C) = al_del valueEquiv k (slotSeq arr)"
          "al_find valueEquiv k (slotSeq arr) \<noteq> None"
          unfolding s(1) seq al_del_middle [OF none] al_find_middle [OF none] HChild using m by simp_all
        then have "del_ok str s (HBitmap bm arr) k (New (HBitmap bm (A @ HChild m # C)))"
          using bitmap_rebuild(2) [OF s(3) sl s(5) True] m(3,4) sl slotSeq_nonempty by (auto simp: del_ok_def)
        moreover have "arr[?i := HChild m] = A @ HChild m # C" unfolding s(1) s(2) [symmetric] by simp
        ultimately show ?thesis
          using True nth HChild u(1) New by (simp add: Let_def and_bitpos_eq_0)
      qed
    qed
  qed
next
  case (2 str h cnt es s k)
  then have c: "cnt = length es" and d: "al_distinct valueEquiv es" and g: "\<forall>e \<in> set es. good_key (fst e)"
    by auto
  have "al_find valueEquiv k es = None"
  proof (rule ccontr)
    assume "al_find valueEquiv k es \<noteq> None"
    then obtain e where e: "e \<in> set es" "valueEquiv k (fst e)"
      unfolding al_find_None_iff by blast
    with 2 g have "hashValue str k = h" using keys.eq_hash [of k "fst e" str] by auto
    with 2 have all: "\<forall>e \<in> set es. valueEquiv k (fst e)" by (auto simp: alone_def)
    obtain e1 e2 es' where e: "es = e1 # e2 # es'"
      using 2(1) c by (metis One_nat_def Suc_1 Suc_le_length_iff hinv.simps(2))
    have "valueEquiv (fst e1) (fst e2)"
      using all g 2(2) e by (metis keys.eq_sym keys.eq_trans list.set_intros(1,2))
    with d e show False by (cases e1; cases e2) auto
  qed
  moreover from this have "al_index valueEquiv k es = None" by (simp add: al_index_None_iff)
  ultimately show ?case using c by (simp add: findIndex_full del_ok_def)
qed

end
