(* ===== verification/LG_Map.thy ===== *)
theory LG_Map
  imports LG_Hamt
begin

text \<open>
  The persistent map of \<open>pkg/vm/persistent_map.go\<close> and its transient of
  \<open>pkg/vm/transient.go\<close>. A map of at most eight entries is an ordered list; beyond
  that it is a hash trie. A transient belongs to one owner and what it edits in place
  no one else can see, so its operations are functions on its contents.

  The cached hash and Go's nil interface as a key are left out. \<open>pm_inv\<close> is the
  invariant; \<open>pm_entries\<close>, the entries in iteration order, is what a map stands for.
  \<open>assoc_store\<close> is the contract of a mutable or persistent store of entries; it is
  interpreted on the persistent map and on the transient.
\<close>

section \<open>The contract of a store of entries\<close>

text \<open>The value kept when \<open>v\<close> is put over \<open>w\<close>: \<open>v\<close>, or an equivalent \<open>w\<close>.\<close>

definition stored :: "val \<Rightarrow> (val \<Rightarrow> val) \<Rightarrow> bool" where
  "stored v f \<longleftrightarrow> (\<forall>w. f w = v \<or> f w = w \<and> valueEquiv w v)"

lemma stored_keep [simp]: "stored v (keep v)"
  by (simp add: stored_def keep_def)

lemma stored_const [simp]: "stored v (\<lambda>w. v)"
  by (simp add: stored_def)

locale assoc_store =
  fixes str :: printer
    and inv :: "'s \<Rightarrow> bool"
    and ents :: "'s \<Rightarrow> (val \<times> val) list"
    and cnt :: "'s \<Rightarrow> nat"
    and find :: "'s \<Rightarrow> val \<Rightarrow> val option option"
    and put :: "'s \<Rightarrow> val \<Rightarrow> val \<Rightarrow> 's option"
    and del :: "'s \<Rightarrow> val \<Rightarrow> 's option"
  assumes good: "inv s \<Longrightarrow> e \<in> set (ents s) \<Longrightarrow> good_key (fst e)"
    and distinct: "inv s \<Longrightarrow> al_distinct valueEquiv (ents s)"
    and cnt: "inv s \<Longrightarrow> cnt s = length (ents s)"
    and find: "inv s \<Longrightarrow> good_key k \<Longrightarrow> find s k = Some (al_find valueEquiv k (ents s))"
    and put: "inv s \<Longrightarrow> good_key k \<Longrightarrow> \<exists>s' f. put s k v = Some s' \<and> inv s' \<and> stored v f \<and>
      mset (ents s') = mset (al_put valueEquiv f k v (ents s))"
    and del: "inv s \<Longrightarrow> good_key k \<Longrightarrow> alone str k (ents s) \<Longrightarrow>
      \<exists>s'. del s k = Some s' \<and> inv s' \<and> ents s' = al_del valueEquiv k (ents s)"
begin

lemma find_put:
  assumes "inv s" "good_key k" "good_key k'"
  obtains s' w where "put s k v = Some s'" "inv s'" "w = v \<or> valueEquiv w v"
    "find s' k' = (if valueEquiv k' k then Some (Some w) else find s k')"
proof -
  obtain s' f where s': "put s k v = Some s'" "inv s'" "stored v f"
    and m: "mset (ents s') = mset (al_put valueEquiv f k v (ents s))"
    using put [OF assms(1,2)] by metis
  let ?w = "case al_find valueEquiv k (ents s) of None \<Rightarrow> v | Some v' \<Rightarrow> f v'"
  have g: "\<forall>e \<in> set (ents s). good_key (fst e)" and g': "\<forall>e \<in> set (ents s'). good_key (fst e)"
    using good assms(1) s'(2) by blast+
  have "find s' k' = Some (al_find valueEquiv k' (al_put valueEquiv f k v (ents s)))"
    using find [OF s'(2) assms(3)] keys.al_find_perm [OF m g' distinct [OF s'(2)] assms(3)] by simp
  then have "find s' k' = (if valueEquiv k' k then Some (Some ?w) else find s k')"
    using keys.al_find_put [OF assms(2,3) g] find [OF assms(1,3)] by simp
  moreover have "?w = v \<or> valueEquiv ?w v"
    using s'(3) by (auto simp: stored_def split: option.splits)
  ultimately show ?thesis using that s' by blast
qed

lemma cnt_put:
  assumes "inv s" "good_key k"
  shows "\<exists>s'. put s k v = Some s' \<and> inv s' \<and>
    cnt s' = (if al_find valueEquiv k (ents s) = None then cnt s + 1 else cnt s)"
proof -
  obtain s' f where s': "put s k v = Some s'" "inv s'"
    and m: "mset (ents s') = mset (al_put valueEquiv f k v (ents s))"
    using put [OF assms] by metis
  have "length (ents s') = length (al_put valueEquiv f k v (ents s))"
    using m by (metis size_mset)
  with s' show ?thesis using cnt assms(1) by (simp add: length_al_put)
qed

lemma find_del:
  assumes "inv s" "good_key k" "good_key k'" "alone str k (ents s)"
  shows "\<exists>s'. del s k = Some s' \<and> inv s' \<and>
    find s' k' = (if valueEquiv k' k then Some None else find s k') \<and>
    cnt s' = (if al_find valueEquiv k (ents s) = None then cnt s else cnt s - 1)"
proof -
  obtain s' where s': "del s k = Some s'" "inv s'" and e: "ents s' = al_del valueEquiv k (ents s)"
    using del [OF assms(1,2,4)] by blast
  have g: "\<forall>e \<in> set (ents s). good_key (fst e)" using good assms(1) by blast
  show ?thesis
    using s' find [OF s'(2) assms(3)] find [OF assms(1,3)] cnt [OF s'(2)] cnt [OF assms(1)]
      keys.al_find_del [OF assms(2,3) g distinct [OF assms(1)]]
    by (auto simp: e length_al_del)
qed

text \<open>Putting a list of entries, one after the other.\<close>

fun put_all :: "'s \<Rightarrow> (val \<times> val) list \<Rightarrow> 's option" where
  "put_all s [] = Some s"
| "put_all s ((k, v) # es) = (case put s k v of None \<Rightarrow> None | Some s' \<Rightarrow> put_all s' es)"

lemma put_all:
  assumes "inv s" "\<forall>e \<in> set es. good_key (fst e)" "good_key k"
  shows "\<exists>s'. put_all s es = Some s' \<and> inv s' \<and>
    (case al_find valueEquiv k (rev es) of
       None \<Rightarrow> find s' k = find s k
     | Some v \<Rightarrow> \<exists>w. find s' k = Some (Some w) \<and> (w = v \<or> valueEquiv w v))"
  using assms(1,2)
proof (induction es arbitrary: s)
  case (Cons e es)
  obtain a v where e: "e = (a, v)" by (cases e)
  have a: "good_key a" using Cons.prems e by simp
  obtain s1 w where s1: "put s a v = Some s1" "inv s1" "w = v \<or> valueEquiv w v"
    "find s1 k = (if valueEquiv k a then Some (Some w) else find s k)"
    using find_put [OF Cons.prems(1) a assms(3)] by metis
  have "\<exists>s'. put_all s1 es = Some s' \<and> inv s' \<and>
    (case al_find valueEquiv k (rev es) of
       None \<Rightarrow> find s' k = find s1 k
     | Some v \<Rightarrow> \<exists>w. find s' k = Some (Some w) \<and> (w = v \<or> valueEquiv w v))"
    by (rule Cons.IH [OF s1(2)]) (use Cons.prems in simp)
  with s1 show ?case
    by (auto simp: e al_find_append split: option.splits)
qed simp

end

section \<open>The map\<close>

record pmap =
  pm_count :: nat
  pm_root :: "hnode option"
  pm_okvs :: "(val \<times> val) list"
  pm_meta :: "val option"

definition arrayMapMaxEntries :: nat where
  "arrayMapMaxEntries = 8"

definition EmptyPersistentMap :: pmap where
  "EmptyPersistentMap = \<lparr>pm_count = 0, pm_root = None, pm_okvs = [], pm_meta = None\<rparr>"

definition pm_findValue :: "printer \<Rightarrow> pmap \<Rightarrow> val \<Rightarrow> val option option" where
  "pm_findValue str m key = (case pm_root m of
     None \<Rightarrow> (case al_index valueEquiv key (pm_okvs m) of
         Some i \<Rightarrow> (case nth_opt (pm_okvs m) i of None \<Rightarrow> None | Some e \<Rightarrow> Some (Some (snd e)))
       | None \<Rightarrow> Some None)
   | Some n \<Rightarrow> hfind n 0 (hashValue str key) key)"

definition pm_eachEntry :: "pmap \<Rightarrow> (val \<Rightarrow> val \<Rightarrow> bool option) \<Rightarrow> bool option" where
  "pm_eachEntry m fn = (case pm_root m of
     None \<Rightarrow> each_entry fn (pm_okvs m) | Some n \<Rightarrow> hnode_each n fn)"

definition pm_mapEntries :: "pmap \<Rightarrow> (val \<times> val) list" where
  "pm_mapEntries m = (case pm_root m of None \<Rightarrow> pm_okvs m | Some n \<Rightarrow> nodeSeq n)"

definition pm_entries :: "pmap \<Rightarrow> (val \<times> val) list" where
  "pm_entries m = (if pm_count m = 0 then [] else pm_mapEntries m)"

definition pm_WithMeta :: "pmap \<Rightarrow> val \<Rightarrow> pmap" where
  "pm_WithMeta m meta = m\<lparr>pm_meta := Some meta\<rparr>"

definition pm_Empty :: "pmap \<Rightarrow> pmap" where
  "pm_Empty m = (case pm_meta m of
     None \<Rightarrow> EmptyPersistentMap | Some x \<Rightarrow> pm_WithMeta EmptyPersistentMap x)"

section \<open>The transient map\<close>

record tmap =
  tm_edit :: bool
  tm_root :: "hnode option"
  tm_okvs :: "(val \<times> val) list"
  tm_hamt :: bool
  tm_count :: nat

datatype map_err = EFrozen | EPair | EMapArity nat

definition NewTransientMap :: "pmap \<Rightarrow> tmap" where
  "NewTransientMap m = (case pm_root m of
     None \<Rightarrow> \<lparr>tm_edit = True, tm_root = None, tm_okvs = pm_okvs m, tm_hamt = False, tm_count = pm_count m\<rparr>
   | Some n \<Rightarrow> \<lparr>tm_edit = True, tm_root = Some n, tm_okvs = [], tm_hamt = True, tm_count = pm_count m\<rparr>)"

text \<open>The root edit that \<open>forceHAMT\<close> and \<open>Assoc\<close> share: a nil root starts as an empty node.\<close>

definition tm_rootAssoc :: "printer \<Rightarrow> hnode option \<Rightarrow> val \<Rightarrow> val \<Rightarrow> (hnode \<times> bool) option" where
  "tm_rootAssoc str rt key v = (case rt of
     None \<Rightarrow> assocTransient str (HBitmap 0 []) 0 (hashValue str key) key v
   | Some n \<Rightarrow> assocTransient str n 0 (hashValue str key) key v)"

fun tm_pushAll :: "printer \<Rightarrow> hnode option \<Rightarrow> (val \<times> val) list \<Rightarrow> hnode option option" where
  "tm_pushAll str rt [] = Some rt"
| "tm_pushAll str rt ((k, v) # es) = (case tm_rootAssoc str rt k v of
     None \<Rightarrow> None | Some (n, added) \<Rightarrow> tm_pushAll str (Some n) es)"

definition tm_forceHAMT :: "printer \<Rightarrow> tmap \<Rightarrow> tmap option" where
  "tm_forceHAMT str t =
     (if tm_hamt t then Some t
      else case tm_pushAll str (tm_root t) (tm_okvs t) of
        None \<Rightarrow> None
      | Some rt \<Rightarrow> Some (t\<lparr>tm_root := rt, tm_okvs := [], tm_hamt := True\<rparr>))"

definition tm_hamtAssoc :: "printer \<Rightarrow> tmap \<Rightarrow> val \<Rightarrow> val \<Rightarrow> tmap option" where
  "tm_hamtAssoc str t key v = (case tm_rootAssoc str (tm_root t) key v of
     None \<Rightarrow> None
   | Some (n, added) \<Rightarrow>
       Some (t\<lparr>tm_root := Some n, tm_count := (if added then tm_count t + 1 else tm_count t)\<rparr>))"

definition tm_Assoc :: "printer \<Rightarrow> tmap \<Rightarrow> val \<Rightarrow> val \<Rightarrow> (map_err, tmap) outcome" where
  "tm_Assoc str t key v =
     (if \<not> tm_edit t then Err EFrozen
      else if \<not> tm_hamt t then
        (case al_index valueEquiv key (tm_okvs t) of
           Some i \<Rightarrow> Ok (t\<lparr>tm_okvs := (tm_okvs t)[i := (fst (tm_okvs t ! i), v)]\<rparr>)
         | None \<Rightarrow>
             if tm_count t < arrayMapMaxEntries then
               Ok (t\<lparr>tm_okvs := tm_okvs t @ [(key, v)], tm_count := tm_count t + 1\<rparr>)
             else of_panic (case tm_forceHAMT str t of
               None \<Rightarrow> None | Some t' \<Rightarrow> tm_hamtAssoc str t' key v))
      else of_panic (tm_hamtAssoc str t key v))"

definition tm_Dissoc :: "printer \<Rightarrow> tmap \<Rightarrow> val \<Rightarrow> (map_err, tmap) outcome" where
  "tm_Dissoc str t key =
     (if \<not> tm_edit t then Err EFrozen
      else if \<not> tm_hamt t then
        (case al_index valueEquiv key (tm_okvs t) of
           Some i \<Rightarrow> Ok (t\<lparr>tm_okvs := take i (tm_okvs t) @ drop (Suc i) (tm_okvs t), tm_count := tm_count t - 1\<rparr>)
         | None \<Rightarrow> Ok t)
      else case tm_root t of
        None \<Rightarrow> Ok t
      | Some n \<Rightarrow> of_panic (case hdissoc str n 0 (hashValue str key) key of
          None \<Rightarrow> None
        | Some Same \<Rightarrow> Some t
        | Some Gone \<Rightarrow> Some (t\<lparr>tm_root := None, tm_count := tm_count t - 1\<rparr>)
        | Some (New n') \<Rightarrow> Some (t\<lparr>tm_root := Some n', tm_count := tm_count t - 1\<rparr>)))"

definition tm_Persistent :: "tmap \<Rightarrow> (map_err, pmap \<times> tmap) outcome" where
  "tm_Persistent t =
     (if \<not> tm_edit t then Err EFrozen
      else if \<not> tm_hamt t then
        Ok (\<lparr>pm_count = tm_count t, pm_root = None, pm_okvs = tm_okvs t, pm_meta = None\<rparr>, t\<lparr>tm_edit := False\<rparr>)
      else
        Ok (\<lparr>pm_count = tm_count t, pm_root = tm_root t, pm_okvs = [], pm_meta = None\<rparr>, t\<lparr>tm_edit := False\<rparr>))"

definition tm_find :: "printer \<Rightarrow> tmap \<Rightarrow> val \<Rightarrow> val option option" where
  "tm_find str t key =
     (if \<not> tm_hamt t then
        (case al_index valueEquiv key (tm_okvs t) of
           Some i \<Rightarrow> (case nth_opt (tm_okvs t) i of None \<Rightarrow> None | Some e \<Rightarrow> Some (Some (snd e)))
         | None \<Rightarrow> Some None)
      else case tm_root t of None \<Rightarrow> Some None | Some n \<Rightarrow> hfind n 0 (hashValue str key) key)"

definition tm_ValueAtOr :: "printer \<Rightarrow> tmap \<Rightarrow> val \<Rightarrow> val \<Rightarrow> val option" where
  "tm_ValueAtOr str t key notFound =
     map_option (\<lambda>r. case r of None \<Rightarrow> notFound | Some v \<Rightarrow> v) (tm_find str t key)"

definition tm_Contains :: "printer \<Rightarrow> tmap \<Rightarrow> val \<Rightarrow> bool option" where
  "tm_Contains str t key = map_option (\<lambda>r. r \<noteq> None) (tm_find str t key)"

definition tm_Seq :: "tmap \<Rightarrow> (val \<times> val) list" where
  "tm_Seq t = (if tm_count t = 0 then []
     else if \<not> tm_hamt t then tm_okvs t
     else case tm_root t of None \<Rightarrow> [] | Some n \<Rightarrow> nodeSeq n)"

text \<open>The arms of \<open>conj!\<close> by its argument: nil, a map (the pairs its entries are walked in: a
  \<open>PersistentMap\<close>, a \<open>SortedMap\<close> or a Go map), an entry or vector of two, or anything else.\<close>

datatype tconj_arg = TCNil | TCEntries "(val \<times> val) list" | TCPair val val | TCOther

fun tm_conjAll :: "printer \<Rightarrow> tmap \<Rightarrow> (val \<times> val) list \<Rightarrow> (map_err, tmap) outcome" where
  "tm_conjAll str t [] = Ok t"
| "tm_conjAll str t ((k, v) # es) = obind (tm_Assoc str t k v) (\<lambda>t'. tm_conjAll str t' es)"

definition tm_Conj :: "printer \<Rightarrow> tmap \<Rightarrow> tconj_arg \<Rightarrow> (map_err, tmap) outcome" where
  "tm_Conj str t value =
     (if \<not> tm_edit t then Err EFrozen
      else case value of
        TCNil \<Rightarrow> Ok t
      | TCEntries es \<Rightarrow> tm_conjAll str t es
      | TCPair k v \<Rightarrow> tm_Assoc str t k v
      | TCOther \<Rightarrow> Err EPair)"

definition tm_Invoke :: "printer \<Rightarrow> tmap \<Rightarrow> val list \<Rightarrow> (map_err, val) outcome" where
  "tm_Invoke str t args = (case args of
     [k] \<Rightarrow> of_panic (tm_ValueAtOr str t k VNil)
   | [k, d] \<Rightarrow> of_panic (tm_ValueAtOr str t k d)
   | _ \<Rightarrow> Err (EMapArity (length args)))"

section \<open>Operations of the map\<close>

text \<open>The errors of the transient operations are panics here.\<close>

definition ok_or_panic :: "('e, 'a) outcome \<Rightarrow> 'a option" where
  "ok_or_panic r = (case r of Ok x \<Rightarrow> Some x | _ \<Rightarrow> None)"

fun tm_assocAll :: "printer \<Rightarrow> tmap \<Rightarrow> (val \<times> val) list \<Rightarrow> tmap option" where
  "tm_assocAll str t [] = Some t"
| "tm_assocAll str t ((k, v) # es) = (case ok_or_panic (tm_Assoc str t k v) of
     None \<Rightarrow> None | Some t' \<Rightarrow> tm_assocAll str t' es)"

definition pm_promoteWithAssoc :: "printer \<Rightarrow> pmap \<Rightarrow> val \<Rightarrow> val \<Rightarrow> pmap option" where
  "pm_promoteWithAssoc str m key v = do {
     t0 \<leftarrow> tm_forceHAMT str (NewTransientMap EmptyPersistentMap);
     t1 \<leftarrow> tm_assocAll str t0 (pm_okvs m);
     t2 \<leftarrow> ok_or_panic (tm_Assoc str t1 key v);
     (p, t3) \<leftarrow> ok_or_panic (tm_Persistent t2);
     Some (p\<lparr>pm_meta := pm_meta m\<rparr>)
   }"

definition pm_Assoc :: "printer \<Rightarrow> pmap \<Rightarrow> val \<Rightarrow> val \<Rightarrow> pmap option" where
  "pm_Assoc str m key v = (case pm_root m of
     None \<Rightarrow>
       (case al_index valueEquiv key (pm_okvs m) of
          Some i \<Rightarrow> (case nth_opt (pm_okvs m) i of
              None \<Rightarrow> None
            | Some (k, w) \<Rightarrow> Some (if valueEquiv w v then m
                else \<lparr>pm_count = pm_count m, pm_root = None, pm_okvs = (pm_okvs m)[i := (k, v)], pm_meta = pm_meta m\<rparr>))
        | None \<Rightarrow>
            if arrayMapMaxEntries \<le> pm_count m then pm_promoteWithAssoc str m key v
            else Some \<lparr>pm_count = pm_count m + 1, pm_root = None, pm_okvs = pm_okvs m @ [(key, v)], pm_meta = pm_meta m\<rparr>)
   | Some n \<Rightarrow> do {
       (u, added) \<leftarrow> hassoc str n 0 (hashValue str key) key v;
       case u of
         Same \<Rightarrow> Some m
       | Gone \<Rightarrow> Some \<lparr>pm_count = (if added then pm_count m + 1 else pm_count m), pm_root = None, pm_okvs = [], pm_meta = pm_meta m\<rparr>
       | New n' \<Rightarrow> Some \<lparr>pm_count = (if added then pm_count m + 1 else pm_count m), pm_root = Some n', pm_okvs = [], pm_meta = pm_meta m\<rparr>
     })"

definition pm_Dissoc :: "printer \<Rightarrow> pmap \<Rightarrow> val \<Rightarrow> pmap option" where
  "pm_Dissoc str m key = (case pm_root m of
     None \<Rightarrow>
       (case al_index valueEquiv key (pm_okvs m) of
          None \<Rightarrow> Some m
        | Some i \<Rightarrow>
            if pm_count m = 1 then Some \<lparr>pm_count = 0, pm_root = None, pm_okvs = [], pm_meta = pm_meta m\<rparr>
            else Some \<lparr>pm_count = pm_count m - 1, pm_root = None,
              pm_okvs = take i (pm_okvs m) @ drop (Suc i) (pm_okvs m), pm_meta = pm_meta m\<rparr>)
   | Some n \<Rightarrow> (case hdissoc str n 0 (hashValue str key) key of
       None \<Rightarrow> None
     | Some Same \<Rightarrow> Some m
     | Some Gone \<Rightarrow> Some \<lparr>pm_count = 0, pm_root = None, pm_okvs = [], pm_meta = pm_meta m\<rparr>
     | Some (New n') \<Rightarrow> Some \<lparr>pm_count = pm_count m - 1, pm_root = Some n', pm_okvs = [], pm_meta = pm_meta m\<rparr>))"

fun pm_assocAll :: "printer \<Rightarrow> pmap \<Rightarrow> (val \<times> val) list \<Rightarrow> pmap option" where
  "pm_assocAll str m [] = Some m"
| "pm_assocAll str m ((k, v) # es) = (case pm_Assoc str m k v of
     None \<Rightarrow> None | Some m' \<Rightarrow> pm_assocAll str m' es)"

text \<open>An alternating slice of keys and values; of odd length it yields the empty map.\<close>

fun kv_pairs :: "'a list \<Rightarrow> ('a \<times> 'a) list" where
  "kv_pairs (k # v # xs) = (k, v) # kv_pairs xs"
| "kv_pairs _ = []"

definition NewPersistentMap :: "printer \<Rightarrow> val list \<Rightarrow> pmap option" where
  "NewPersistentMap str kvs =
     (if kvs = [] then Some EmptyPersistentMap
      else if length kvs mod 2 \<noteq> 0 then Some EmptyPersistentMap
      else pm_assocAll str EmptyPersistentMap (kv_pairs kvs))"

definition NewArrayMap :: "printer \<Rightarrow> val list \<Rightarrow> pmap option" where
  "NewArrayMap str kvs =
     (if kvs = [] then Some EmptyPersistentMap
      else if length kvs mod 2 \<noteq> 0 then Some EmptyPersistentMap
      else do {
        t \<leftarrow> tm_assocAll str (NewTransientMap EmptyPersistentMap) (kv_pairs kvs);
        (p, t') \<leftarrow> ok_or_panic (tm_Persistent t);
        Some p
      })"

definition pm_ValueAtOr :: "printer \<Rightarrow> pmap \<Rightarrow> val \<Rightarrow> val \<Rightarrow> val option" where
  "pm_ValueAtOr str m key dflt =
     (if pm_count m = 0 then Some dflt
      else map_option (\<lambda>r. case r of None \<Rightarrow> dflt | Some v \<Rightarrow> v) (pm_findValue str m key))"

definition pm_ValueAtKeywordOr :: "printer \<Rightarrow> pmap \<Rightarrow> string \<Rightarrow> val \<Rightarrow> val option" where
  "pm_ValueAtKeywordOr str m k dflt =
     (if pm_count m = 0 then Some dflt
      else case pm_root m of
        None \<Rightarrow> Some (case keyword_find k (pm_okvs m) of None \<Rightarrow> dflt | Some v \<Rightarrow> v)
      | Some n \<Rightarrow> map_option (\<lambda>r. case r of None \<Rightarrow> dflt | Some v \<Rightarrow> v)
          (hfindKeyword n 0 (hashValue str (VKeyword k)) k))"

definition pm_Contains :: "printer \<Rightarrow> pmap \<Rightarrow> val \<Rightarrow> bool option" where
  "pm_Contains str m key =
     (if pm_count m = 0 then Some False else map_option (\<lambda>r. r \<noteq> None) (pm_findValue str m key))"

definition pm_Invoke :: "printer \<Rightarrow> pmap \<Rightarrow> val list \<Rightarrow> (map_err, val) outcome" where
  "pm_Invoke str m args = (case args of
     [k] \<Rightarrow> of_panic (pm_ValueAtOr str m k VNil)
   | [k, d] \<Rightarrow> of_panic (pm_ValueAtOr str m k d)
   | _ \<Rightarrow> Err (EMapArity (length args)))"

definition pm_Equals :: "printer \<Rightarrow> pmap \<Rightarrow> pmap \<Rightarrow> bool option" where
  "pm_Equals str m other =
     (if pm_count m \<noteq> pm_count other then Some False
      else if pm_count m = 0 then Some True
      else pm_eachEntry m (\<lambda>k v. map_option (\<lambda>r. case r of None \<Rightarrow> False | Some ov \<Rightarrow> valueEquiv v ov)
        (pm_findValue str other k)))"

definition pm_Hash :: "printer \<Rightarrow> pmap \<Rightarrow> u32" where
  "pm_Hash str m = mixFinish (foldl (\<lambda>h (k, v). h + (hashValue str k XOR hashValue str v)) 0 (pm_entries m))"

text \<open>The arms of \<open>Conj\<close> by the argument: a map, a pair, or anything else.\<close>

datatype conj_arg = CMap pmap | CPair val val | COther

fun pm_Conj :: "printer \<Rightarrow> pmap \<Rightarrow> conj_arg \<Rightarrow> pmap option" where
  "pm_Conj str m (CMap om) = pm_assocAll str m (pm_entries om)"
| "pm_Conj str m (CPair k v) = pm_Assoc str m k v"
| "pm_Conj str m COther = Some m"

section \<open>Invariants\<close>

definition list_inv :: "(val \<times> val) list \<Rightarrow> bool" where
  "list_inv es \<longleftrightarrow> al_distinct valueEquiv es \<and> (\<forall>e \<in> set es. good_key (fst e)) \<and> length es \<le> arrayMapMaxEntries"

definition pm_inv :: "printer \<Rightarrow> pmap \<Rightarrow> bool" where
  "pm_inv str m \<longleftrightarrow> pm_count m = length (pm_mapEntries m) \<and>
     (case pm_root m of None \<Rightarrow> list_inv (pm_okvs m) | Some n \<Rightarrow> hinv str 0 n \<and> pm_okvs m = [])"

fun root_ents :: "hnode option \<Rightarrow> (val \<times> val) list" where
  "root_ents None = []"
| "root_ents (Some n) = nodeSeq n"

fun root_inv :: "printer \<Rightarrow> hnode option \<Rightarrow> bool" where
  "root_inv str None = True"
| "root_inv str (Some n) = hinv str 0 n"

definition tm_ents :: "tmap \<Rightarrow> (val \<times> val) list" where
  "tm_ents t = (if tm_hamt t then root_ents (tm_root t) else tm_okvs t)"

definition tm_inv :: "printer \<Rightarrow> tmap \<Rightarrow> bool" where
  "tm_inv str t \<longleftrightarrow> tm_count t = length (tm_ents t) \<and>
     (if tm_hamt t then root_inv str (tm_root t) \<and> tm_okvs t = []
      else list_inv (tm_okvs t) \<and> tm_root t = None)"

lemma pm_entries_inv: "pm_inv str m \<Longrightarrow> pm_entries m = pm_mapEntries m"
  by (auto simp: pm_inv_def pm_entries_def)

lemma pm_inv_keys:
  "pm_inv str m \<Longrightarrow> e \<in> set (pm_entries m) \<Longrightarrow> good_key (fst e)"
  "pm_inv str m \<Longrightarrow> al_distinct valueEquiv (pm_entries m)"
  using inv_keys(1) [of str 0 _ e] hinv_distinct(1) [of str 0]
  by (auto simp: pm_entries_inv pm_inv_def pm_mapEntries_def list_inv_def split: option.splits)

lemma tm_inv_keys:
  "tm_inv str t \<Longrightarrow> e \<in> set (tm_ents t) \<Longrightarrow> good_key (fst e)"
  "tm_inv str t \<Longrightarrow> al_distinct valueEquiv (tm_ents t)"
  using inv_keys(1) [of str 0 _ e] hinv_distinct(1) [of str 0]
  by (cases "tm_root t"; auto simp: tm_inv_def tm_ents_def list_inv_def split: if_splits)+

lemma ordered_find:
  "(case al_index valueEquiv k es of
      Some i \<Rightarrow> (case nth_opt es i of None \<Rightarrow> None | Some e \<Rightarrow> Some (Some (snd e)))
    | None \<Rightarrow> Some None) = Some (al_find valueEquiv k es)"
proof (cases "al_index valueEquiv k es")
  case (Some i)
  then show ?thesis using al_index_bound [OF Some] by (simp add: al_index_find nth_opt_def)
qed (simp add: al_index_find)

lemma pm_find_correct:
  "pm_inv str m \<Longrightarrow> good_key k \<Longrightarrow> pm_findValue str m k = Some (al_find valueEquiv k (pm_entries m))"
  by (auto simp: pm_entries_inv pm_findValue_def pm_inv_def pm_mapEntries_def ordered_find hfind_correct
    split: option.split)

lemma tm_find_correct:
  "tm_inv str t \<Longrightarrow> good_key k \<Longrightarrow> tm_find str t k = Some (al_find valueEquiv k (tm_ents t))"
  by (cases "tm_root t"; auto simp: tm_find_def tm_inv_def tm_ents_def ordered_find hfind_correct)

section \<open>The transient implements a store\<close>

lemma tm_rootAssoc_ok:
  assumes "root_inv str rt" "good_key k"
  shows "\<exists>n added. tm_rootAssoc str rt k v = Some (n, added) \<and> hinv str 0 n \<and>
    mset (nodeSeq n) = mset (al_put valueEquiv (keep v) k v (root_ents rt)) \<and>
    (added \<longleftrightarrow> al_find valueEquiv k (root_ents rt) = None)"
proof -
  let ?n = "case rt of None \<Rightarrow> HBitmap 0 [] | Some n \<Rightarrow> n"
  have n: "hinv str 0 ?n" "root_ents rt = nodeSeq ?n"
    "tm_rootAssoc str rt k v = assocTransient str ?n 0 (hashValue str k) k v"
    using assms(1) by (auto simp: tm_rootAssoc_def split: option.split)
  have "assoc_ok str 0 ?n k v" by (rule hassoc_correct [OF n(1) assms(2)]) simp
  then obtain u added where u: "hassoc str ?n 0 (hashValue str k) k v = Some (u, added)" "u \<noteq> Gone"
    "put_ok str 0 ?n k v (upd_get ?n u) added" by (auto simp: assoc_ok_def)
  show ?thesis
    using assocTransient_hassoc [OF u(1,2)] u(3) unfolding n(2,3) put_ok_def by blast
qed

lemma tm_pushAll_ok:
  assumes "root_inv str rt" "al_distinct valueEquiv es" "\<forall>e \<in> set es. good_key (fst e)"
    "\<forall>e \<in> set es. al_find valueEquiv (fst e) (root_ents rt) = None"
  shows "\<exists>rt'. tm_pushAll str rt es = Some rt' \<and> root_inv str rt' \<and>
    mset (root_ents rt') = mset (root_ents rt) + mset es"
  using assms
proof (induction es arbitrary: rt)
  case (Cons e es)
  obtain k v where e: "e = (k, v)" by (cases e)
  have k: "good_key k" "al_find valueEquiv k (root_ents rt) = None" using Cons.prems e by auto
  obtain n added where n: "tm_rootAssoc str rt k v = Some (n, added)" "hinv str 0 n"
    "mset (nodeSeq n) = mset (al_put valueEquiv (keep v) k v (root_ents rt))"
    using tm_rootAssoc_ok [OF Cons.prems(1) k(1)] by blast
  have m: "mset (nodeSeq n) = add_mset (k, v) (mset (root_ents rt))"
    using n(3) k(2) by (simp add: al_put_absent)
  then have set: "set (nodeSeq n) = insert (k, v) (set (root_ents rt))"
    by (metis set_mset_add_mset_insert set_mset_mset)
  have "\<not> valueEquiv (fst x) k" if "x \<in> set es" for x
    using that Cons.prems(2,3) e keys.eq_sym [of "fst x" k] by (auto simp: al_find_None_iff)
  then have a: "\<forall>x \<in> set es. al_find valueEquiv (fst x) (root_ents (Some n)) = None"
    using Cons.prems(4) by (simp add: al_find_None_iff set)
  have "\<exists>rt'. tm_pushAll str (Some n) es = Some rt' \<and> root_inv str rt' \<and>
    mset (root_ents rt') = mset (root_ents (Some n)) + mset es"
    by (rule Cons.IH [OF _ _ _ a]) (use Cons.prems(2,3) e n(2) in auto)
  with n(1) m show ?case by (simp add: e)
qed simp

lemma tm_forceHAMT_ok:
  assumes "tm_inv str t"
  shows "\<exists>t'. tm_forceHAMT str t = Some t' \<and> tm_inv str t' \<and> tm_hamt t' \<and> tm_edit t' = tm_edit t \<and>
    mset (tm_ents t') = mset (tm_ents t)"
proof (cases "tm_hamt t")
  case False
  with assms have i: "list_inv (tm_okvs t)" "tm_root t = None" "tm_count t = length (tm_okvs t)"
    by (auto simp: tm_inv_def tm_ents_def)
  obtain rt where rt: "tm_pushAll str None (tm_okvs t) = Some rt" "root_inv str rt"
    "mset (root_ents rt) = mset (tm_okvs t)"
    using tm_pushAll_ok [of str None "tm_okvs t"] i(1) by (auto simp: list_inv_def)
  then show ?thesis
    using False i by (auto simp: tm_forceHAMT_def tm_inv_def tm_ents_def dest: mset_eq_length)
qed (use assms in \<open>simp add: tm_forceHAMT_def\<close>)

lemma tm_hamtAssoc_ok:
  assumes "tm_inv str t" "tm_hamt t" "good_key k"
  shows "\<exists>t'. tm_hamtAssoc str t k v = Some t' \<and> tm_inv str t' \<and> tm_hamt t' \<and> tm_edit t' = tm_edit t \<and>
    mset (tm_ents t') = mset (al_put valueEquiv (keep v) k v (tm_ents t))"
proof -
  have i: "root_inv str (tm_root t)" "tm_okvs t = []" "tm_ents t = root_ents (tm_root t)"
    "tm_count t = length (root_ents (tm_root t))"
    using assms(1,2) by (auto simp: tm_inv_def tm_ents_def)
  obtain n added where n: "tm_rootAssoc str (tm_root t) k v = Some (n, added)" "hinv str 0 n"
    and m: "mset (nodeSeq n) = mset (al_put valueEquiv (keep v) k v (root_ents (tm_root t)))"
    and a: "added \<longleftrightarrow> al_find valueEquiv k (root_ents (tm_root t)) = None"
    using tm_rootAssoc_ok [OF i(1) assms(3)] by blast
  have "length (nodeSeq n) = (if added then tm_count t + 1 else tm_count t)"
    using mset_eq_length [OF m] a i(4) by (simp add: length_al_put)
  with n m assms(2) i show ?thesis
    by (simp add: tm_hamtAssoc_def tm_inv_def tm_ents_def)
qed

lemma list_inv_al_put:
  assumes "list_inv es" "good_key k" "length (al_put valueEquiv f k v es) \<le> arrayMapMaxEntries"
  shows "list_inv (al_put valueEquiv f k v es)"
proof -
  have "good_key (fst e)" if "e \<in> set (al_put valueEquiv f k v es)" for e
    using keys_al_put [OF that] assms(1,2) by (auto simp: list_inv_def)
  with assms show ?thesis by (auto simp: list_inv_def intro: keys.al_distinct_put)
qed

lemma list_inv_put:
  assumes "list_inv es" "good_key k" "al_index valueEquiv k es = Some i"
  shows "list_inv (es[i := (fst (es ! i), w)])" "es[i := (fst (es ! i), w)] = al_put valueEquiv (\<lambda>_. w) k w es"
proof -
  show p: "es[i := (fst (es ! i), w)] = al_put valueEquiv (\<lambda>_. w) k w es"
    using al_put_index [OF assms(3), of "\<lambda>_. w" w] by simp
  have "length (al_put valueEquiv (\<lambda>_. w) k w es) \<le> arrayMapMaxEntries"
    using assms(1,3) by (simp add: length_al_put al_index_find list_inv_def)
  then show "list_inv (es[i := (fst (es ! i), w)])"
    unfolding p by (rule list_inv_al_put [OF assms(1,2)])
qed

lemma list_inv_add:
  assumes "list_inv es" "al_index valueEquiv k es = None" "length es < arrayMapMaxEntries" "good_key k"
  shows "list_inv (es @ [(k, v)])" "es @ [(k, v)] = al_put valueEquiv f k v es"
proof -
  have n: "al_find valueEquiv k es = None" using assms(2) by (simp add: al_index_None_iff)
  then show p: "es @ [(k, v)] = al_put valueEquiv f k v es" by (simp add: al_put_absent)
  show "list_inv (es @ [(k, v)])"
    using list_inv_al_put [OF assms(1,4), of f v] assms(3) unfolding p [symmetric] by simp
qed

lemma list_inv_del:
  assumes "list_inv es" "al_index valueEquiv k es = Some i"
  shows "list_inv (take i es @ drop (Suc i) es)" "take i es @ drop (Suc i) es = al_del valueEquiv k es"
    "length (take i es @ drop (Suc i) es) = length es - 1"
proof -
  show p: "take i es @ drop (Suc i) es = al_del valueEquiv k es"
    using al_del_index [OF assms(2)] by simp
  show l: "length (take i es @ drop (Suc i) es) = length es - 1"
    using al_index_bound [OF assms(2)] by simp
  show "list_inv (take i es @ drop (Suc i) es)"
    using assms(1) l keys.al_distinct_del [of es k] set_al_del [of valueEquiv k es] unfolding p
    by (auto simp: list_inv_def)
qed

lemma tm_Assoc_ok:
  assumes i: "tm_inv str t" and e: "tm_edit t" and k: "good_key k"
  shows "\<exists>t' f. tm_Assoc str t k v = Ok t' \<and> tm_inv str t' \<and> tm_edit t' \<and> stored v f \<and>
    mset (tm_ents t') = mset (al_put valueEquiv f k v (tm_ents t))"
proof (cases "tm_hamt t")
  case True
  then show ?thesis
    using tm_hamtAssoc_ok [OF i True k, of v] e by (fastforce simp: tm_Assoc_def intro: stored_keep)
next
  case False
  then have l: "list_inv (tm_okvs t)" "tm_ents t = tm_okvs t" "tm_count t = length (tm_okvs t)" "tm_root t = None"
    using i by (auto simp: tm_inv_def tm_ents_def)
  show ?thesis
  proof (cases "al_index valueEquiv k (tm_okvs t)")
    case (Some j)
    have "tm_Assoc str t k v = Ok (t\<lparr>tm_okvs := al_put valueEquiv (\<lambda>_. v) k v (tm_okvs t)\<rparr>)"
      using False e Some list_inv_put(2) [OF l(1) k Some] by (simp add: tm_Assoc_def)
    moreover have "list_inv (al_put valueEquiv (\<lambda>_. v) k v (tm_okvs t))"
      using list_inv_put [OF l(1) k Some, of v] by simp
    moreover have "al_find valueEquiv k (tm_okvs t) \<noteq> None" using Some by (simp add: al_index_find)
    ultimately show ?thesis
      using False e l by (intro exI [of _ "t\<lparr>tm_okvs := _\<rparr>"] exI [of _ "\<lambda>_. v"])
        (auto simp: tm_inv_def tm_ents_def length_al_put)
  next
    case None
    show ?thesis
    proof (cases "tm_count t < arrayMapMaxEntries")
      case True
      with list_inv_add [OF l(1) None _ k] l
      have a: "list_inv (tm_okvs t @ [(k, v)])" "tm_okvs t @ [(k, v)] = al_put valueEquiv (keep v) k v (tm_okvs t)"
        by simp_all
      have "tm_Assoc str t k v = Ok (t\<lparr>tm_okvs := tm_okvs t @ [(k, v)], tm_count := tm_count t + 1\<rparr>)"
        using False e None True by (simp add: tm_Assoc_def)
      moreover have "length (al_put valueEquiv (keep v) k v (tm_okvs t)) = Suc (length (tm_okvs t))"
        unfolding a(2) [symmetric] by simp
      ultimately show ?thesis
        using False e l a by (auto simp: tm_inv_def tm_ents_def intro!: exI [of _ "keep v"])
    next
      case full: False
      obtain t1 where t1: "tm_forceHAMT str t = Some t1" "tm_inv str t1" "tm_hamt t1" "tm_edit t1"
        "mset (tm_ents t1) = mset (tm_ents t)"
        using tm_forceHAMT_ok [OF i] e by auto
      obtain t2 where t2: "tm_hamtAssoc str t1 k v = Some t2" "tm_inv str t2" "tm_edit t2"
        "mset (tm_ents t2) = mset (al_put valueEquiv (keep v) k v (tm_ents t1))"
        using tm_hamtAssoc_ok [OF t1(2,3) k] t1(4) by blast
      have n: "al_find valueEquiv k (tm_ents t) = None" using None l(2) by (simp add: al_index_None_iff)
      then have "al_find valueEquiv k (tm_ents t1) = None"
        using t1(5) by (metis al_find_None_iff set_mset_mset)
      then have "mset (tm_ents t2) = mset (al_put valueEquiv (keep v) k v (tm_ents t))"
        using t2(4) t1(5) n by (simp add: al_put_absent)
      with False e None full t1 t2 show ?thesis
        by (auto simp: tm_Assoc_def intro!: exI [of _ "keep v"])
    qed
  qed
qed

lemma tm_Dissoc_ok:
  assumes i: "tm_inv str t" and e: "tm_edit t" and k: "good_key k" "alone str k (tm_ents t)"
  shows "\<exists>t'. tm_Dissoc str t k = Ok t' \<and> tm_inv str t' \<and> tm_edit t' \<and>
    tm_ents t' = al_del valueEquiv k (tm_ents t)"
proof (cases "tm_hamt t")
  case False
  then have l: "list_inv (tm_okvs t)" "tm_ents t = tm_okvs t" "tm_count t = length (tm_okvs t)" "tm_root t = None"
    using i by (auto simp: tm_inv_def tm_ents_def)
  show ?thesis
  proof (cases "al_index valueEquiv k (tm_okvs t)")
    case None
    then have "al_del valueEquiv k (tm_okvs t) = tm_okvs t" by (simp add: al_del_absent al_index_None_iff)
    with None show ?thesis using False e i l by (auto simp: tm_Dissoc_def)
  next
    case (Some j)
    then show ?thesis
      using False e i l list_inv_del [OF l(1) Some]
      by (auto simp: tm_Dissoc_def tm_inv_def tm_ents_def)
  qed
next
  case True
  then have h: "tm_ents t = root_ents (tm_root t)" "tm_count t = length (root_ents (tm_root t))"
    "root_inv str (tm_root t)" "tm_okvs t = []"
    using i by (auto simp: tm_inv_def tm_ents_def)
  show ?thesis
  proof (cases "tm_root t")
    case None
    then show ?thesis using True e i h by (auto simp: tm_Dissoc_def)
  next
    case (Some n)
    obtain u where u: "hdissoc str n 0 (hashValue str k) k = Some u" "del_ok str 0 n k u"
      using hdissoc_correct [of str 0 n k] h k Some by auto
    show ?thesis
    proof (cases u)
      case Same
      then show ?thesis using u True e i h Some by (auto simp: tm_Dissoc_def del_ok_def al_del_absent)
    next
      case Gone
      then have "length (nodeSeq n) - 1 = 0"
        using u(2) length_al_del [of valueEquiv k "nodeSeq n"] by (auto simp: del_ok_def)
      then show ?thesis using Gone u True e h Some by (auto simp: tm_Dissoc_def del_ok_def tm_inv_def tm_ents_def)
    next
      case (New m)
      then have "nodeSeq m = al_del valueEquiv k (nodeSeq n)" "hinv str 0 m"
        "length (nodeSeq m) = length (nodeSeq n) - 1"
        using u(2) length_al_del [of valueEquiv k "nodeSeq n"] by (auto simp: del_ok_def)
      then show ?thesis using New u True e h Some by (auto simp: tm_Dissoc_def tm_inv_def tm_ents_def)
    qed
  qed
qed

lemma ok_or_panic_Ok [simp]: "ok_or_panic (Ok x) = Some x"
  by (simp add: ok_or_panic_def)

interpretation tms: assoc_store str "\<lambda>t. tm_inv str t \<and> tm_edit t" tm_ents tm_count "tm_find str"
  "\<lambda>t k v. ok_or_panic (tm_Assoc str t k v)" "\<lambda>t k. ok_or_panic (tm_Dissoc str t k)" for str
proof
  fix t k v
  assume t: "tm_inv str t \<and> tm_edit t"
  show "e \<in> set (tm_ents t) \<Longrightarrow> good_key (fst e)" for e using t tm_inv_keys by blast
  show "al_distinct valueEquiv (tm_ents t)" using t tm_inv_keys by blast
  show "tm_count t = length (tm_ents t)" using t by (simp add: tm_inv_def)
  assume k: "good_key k"
  show "tm_find str t k = Some (al_find valueEquiv k (tm_ents t))" using t k by (simp add: tm_find_correct)
  show "\<exists>t' f. ok_or_panic (tm_Assoc str t k v) = Some t' \<and> (tm_inv str t' \<and> tm_edit t') \<and> stored v f \<and>
      mset (tm_ents t') = mset (al_put valueEquiv f k v (tm_ents t))"
    using tm_Assoc_ok [of str t k v] t k by (auto simp: ok_or_panic_def)
  show "alone str k (tm_ents t) \<Longrightarrow> \<exists>t'. ok_or_panic (tm_Dissoc str t k) = Some t' \<and> (tm_inv str t' \<and> tm_edit t') \<and>
      tm_ents t' = al_del valueEquiv k (tm_ents t)"
    using tm_Dissoc_ok [of str t k] t k by (auto simp: ok_or_panic_def)
qed

lemma tm_assocAll_put_all: "tm_assocAll str t es = tms.put_all str t es"
  by (induction str t es rule: tm_assocAll.induct) (auto split: option.splits)

lemma NewTransientMap_ok:
  assumes "pm_inv str m"
  shows "tm_inv str (NewTransientMap m)" "tm_edit (NewTransientMap m)"
    "tm_ents (NewTransientMap m) = pm_entries m"
  using assms unfolding pm_entries_inv [OF assms]
  by (auto simp: NewTransientMap_def pm_inv_def tm_inv_def tm_ents_def pm_mapEntries_def split: option.splits)

lemma tm_Persistent_ok:
  assumes "tm_inv str t" "tm_edit t"
  shows "\<exists>m t'. tm_Persistent t = Ok (m, t') \<and> pm_inv str m \<and> pm_entries m = tm_ents t \<and> pm_meta m = None \<and>
    \<not> tm_edit t'"
  using assms
  by (cases "tm_root t") (auto simp: tm_Persistent_def tm_inv_def pm_inv_def tm_ents_def pm_entries_def pm_mapEntries_def
    list_inv_def split: if_splits)

text \<open>A frozen transient refuses every edit.\<close>

lemma tm_frozen:
  assumes "\<not> tm_edit t"
  shows "tm_Assoc str t k v = Err EFrozen" "tm_Dissoc str t k = Err EFrozen" "tm_Persistent t = Err EFrozen"
    "tm_Conj str t c = Err EFrozen"
  using assms by (simp_all add: tm_Assoc_def tm_Dissoc_def tm_Persistent_def tm_Conj_def)

section \<open>The map implements a store\<close>

lemma EmptyPersistentMap_inv [simp]: "pm_inv str EmptyPersistentMap" "pm_entries EmptyPersistentMap = []"
  by (simp_all add: pm_inv_def EmptyPersistentMap_def pm_mapEntries_def list_inv_def pm_entries_def)

text \<open>The ninth entry: the ordered entries and the new one in a trie.\<close>

lemma tm_put_all_absent:
  assumes "tm_inv str t" "tm_edit t" "\<forall>e \<in> set es. good_key (fst e)" "al_distinct valueEquiv es"
    "\<forall>e \<in> set es. al_find valueEquiv (fst e) (tm_ents t) = None"
  shows "\<exists>t'. tm_assocAll str t es = Some t' \<and> tm_inv str t' \<and> tm_edit t' \<and>
    mset (tm_ents t') = mset (tm_ents t) + mset es"
  using assms
proof (induction es arbitrary: t)
  case (Cons e es)
  obtain k v where e: "e = (k, v)" by (cases e)
  have k: "good_key k" "al_find valueEquiv k (tm_ents t) = None" using Cons.prems e by auto
  obtain t1 f where t1: "tm_Assoc str t k v = Ok t1" "tm_inv str t1" "tm_edit t1"
    "mset (tm_ents t1) = mset (al_put valueEquiv f k v (tm_ents t))"
    using tm_Assoc_ok [OF Cons.prems(1,2) k(1)] by metis
  have m: "mset (tm_ents t1) = add_mset (k, v) (mset (tm_ents t))"
    using t1(4) k(2) by (simp add: al_put_absent)
  then have set: "set (tm_ents t1) = insert (k, v) (set (tm_ents t))"
    by (metis set_mset_add_mset_insert set_mset_mset)
  have "\<not> valueEquiv (fst x) k" if "x \<in> set es" for x
    using that Cons.prems(3,4) e keys.eq_sym [of "fst x" k] by (auto simp: al_find_None_iff)
  then have a: "\<forall>x \<in> set es. al_find valueEquiv (fst x) (tm_ents t1) = None"
    using Cons.prems(5) by (simp add: al_find_None_iff set)
  have "\<exists>t'. tm_assocAll str t1 es = Some t' \<and> tm_inv str t' \<and> tm_edit t' \<and>
    mset (tm_ents t') = mset (tm_ents t1) + mset es"
    by (rule Cons.IH [OF t1(2,3) _ _ a]) (use Cons.prems(3,4) e in auto)
  with t1(1) m show ?case by (simp add: e)
qed simp

lemma pm_promote_ok:
  assumes m: "pm_inv str m" "pm_root m = None" and k: "good_key k" "al_find valueEquiv k (pm_okvs m) = None"
  shows "\<exists>m'. pm_promoteWithAssoc str m k v = Some m' \<and> pm_inv str m' \<and> pm_meta m' = pm_meta m \<and>
    mset (pm_entries m') = mset (pm_okvs m @ [(k, v)])"
proof -
  let ?t = "NewTransientMap EmptyPersistentMap"
  have l: "list_inv (pm_okvs m)" using m by (simp add: pm_inv_def)
  have et: "tm_inv str ?t" "tm_edit ?t" "tm_ents ?t = []"
    using NewTransientMap_ok [OF EmptyPersistentMap_inv(1)] by simp_all
  obtain t0 where t0: "tm_forceHAMT str ?t = Some t0" "tm_inv str t0" "tm_edit t0" "tm_ents t0 = []"
    using tm_forceHAMT_ok [OF et(1)] et by auto
  obtain t1 where t1: "tm_assocAll str t0 (pm_okvs m) = Some t1" "tm_inv str t1" "tm_edit t1"
    "mset (tm_ents t1) = mset (pm_okvs m)"
    using tm_put_all_absent [OF t0(2,3), of "pm_okvs m"] l t0(4) by (auto simp: list_inv_def)
  have n: "al_find valueEquiv k (tm_ents t1) = None"
    using k(2) t1(4) by (metis al_find_None_iff set_mset_mset)
  obtain t2 f where t2: "tm_Assoc str t1 k v = Ok t2" "tm_inv str t2" "tm_edit t2"
    "mset (tm_ents t2) = mset (al_put valueEquiv f k v (tm_ents t1))"
    using tm_Assoc_ok [OF t1(2,3) k(1)] by metis
  obtain p t3 where p: "tm_Persistent t2 = Ok (p, t3)" "pm_inv str p" "pm_entries p = tm_ents t2"
    using tm_Persistent_ok [OF t2(2,3)] by metis
  have e: "pm_entries (p\<lparr>pm_meta := x\<rparr>) = pm_entries p" "pm_inv str (p\<lparr>pm_meta := x\<rparr>) = pm_inv str p" for x
    by (simp_all add: pm_entries_def pm_inv_def pm_mapEntries_def split: option.split)
  show ?thesis
    using t0(1) t1(1,4) t2(1,4) p n e by (simp add: pm_promoteWithAssoc_def al_put_absent)
qed

lemma pm_ordered:
  "pm_root m = None \<Longrightarrow> pm_inv str m \<longleftrightarrow> pm_count m = length (pm_okvs m) \<and> list_inv (pm_okvs m)"
  "pm_root m = Some n \<Longrightarrow> pm_inv str m \<longleftrightarrow> pm_count m = length (nodeSeq n) \<and> hinv str 0 n \<and> pm_okvs m = []"
  by (simp_all add: pm_inv_def pm_mapEntries_def)

lemma pm_Assoc_ok:
  assumes i: "pm_inv str m" and k: "good_key k"
  shows "\<exists>m'. pm_Assoc str m k v = Some m' \<and> pm_inv str m' \<and> pm_meta m' = pm_meta m \<and>
    mset (pm_entries m') = mset (al_put valueEquiv (keep v) k v (pm_entries m))"
proof (cases "pm_root m")
  case None
  then have l: "list_inv (pm_okvs m)" "pm_entries m = pm_okvs m" "pm_count m = length (pm_okvs m)"
    using i pm_entries_inv [OF i] by (auto simp: pm_ordered pm_mapEntries_def)
  show ?thesis
  proof (cases "al_index valueEquiv k (pm_okvs m)")
    case (Some j)
    have j: "j < length (pm_okvs m)" using al_index_bound [OF Some] by simp
    obtain k' w where e: "pm_okvs m ! j = (k', w)" by (cases "pm_okvs m ! j")
    have p: "al_put valueEquiv (keep v) k v (pm_okvs m) = (pm_okvs m)[j := (k', keep v w)]"
      using al_put_index [OF Some] e by simp
    show ?thesis
    proof (cases "valueEquiv w v")
      case True
      then have "(pm_okvs m)[j := (k', keep v w)] = pm_okvs m"
        using e by (metis keep_def list_update_id)
      with True None Some j e i l p show ?thesis by (simp add: pm_Assoc_def nth_opt_def)
    next
      case False
      then have "list_inv ((pm_okvs m)[j := (k', v)])"
        using list_inv_put(1) [OF l(1) k Some, of v] e by simp
      then show ?thesis
        using False None Some j e l p
        by (simp add: pm_Assoc_def nth_opt_def pm_inv_def pm_mapEntries_def pm_entries_def keep_def)
    qed
  next
    case none: None
    then have n: "al_find valueEquiv k (pm_okvs m) = None" by (simp add: al_index_None_iff)
    show ?thesis
    proof (cases "arrayMapMaxEntries \<le> pm_count m")
      case True
      then show ?thesis
        using None none n l pm_promote_ok [OF i None k n, of v] by (simp add: pm_Assoc_def al_put_absent)
    next
      case False
      then have "list_inv (pm_okvs m @ [(k, v)])" using list_inv_add [OF l(1) none _ k] l by simp
      then show ?thesis
        using False None none l n
        by (simp add: pm_Assoc_def pm_inv_def pm_mapEntries_def pm_entries_def al_put_absent)
    qed
  qed
next
  case (Some n)
  then have h: "pm_entries m = nodeSeq n" "pm_count m = length (nodeSeq n)" "hinv str 0 n" "pm_okvs m = []"
    using i pm_entries_inv [OF i] by (auto simp: pm_ordered pm_mapEntries_def)
  have "assoc_ok str 0 n k v" by (rule hassoc_correct [OF h(3) k]) simp
  then obtain u added where u: "hassoc str n 0 (hashValue str k) k v = Some (u, added)" "u \<noteq> Gone"
    "hinv str 0 (upd_get n u)" "added \<longleftrightarrow> al_find valueEquiv k (nodeSeq n) = None"
    and ms: "mset (nodeSeq (upd_get n u)) = mset (al_put valueEquiv (keep v) k v (nodeSeq n))"
    by (auto simp: assoc_ok_def put_ok_def)
  have len: "length (nodeSeq (upd_get n u)) = (if added then length (nodeSeq n) + 1 else length (nodeSeq n))"
    using mset_eq_length [OF ms] u(4) by (simp add: length_al_put)
  show ?thesis
  proof (cases u)
    case Same
    with u h ms i Some show ?thesis by (simp add: pm_Assoc_def upd_get_def)
  next
    case (New n')
    with u h ms len Some show ?thesis
      by (auto simp: pm_Assoc_def upd_get_def pm_inv_def pm_mapEntries_def pm_entries_def)
  qed (use u in simp)
qed

lemma pm_Dissoc_ok:
  assumes i: "pm_inv str m" and k: "good_key k" "alone str k (pm_entries m)"
  shows "\<exists>m'. pm_Dissoc str m k = Some m' \<and> pm_inv str m' \<and> pm_meta m' = pm_meta m \<and>
    pm_entries m' = al_del valueEquiv k (pm_entries m)"
proof (cases "pm_root m")
  case None
  then have l: "list_inv (pm_okvs m)" "pm_entries m = pm_okvs m" "pm_count m = length (pm_okvs m)"
    using i pm_entries_inv [OF i] by (auto simp: pm_ordered pm_mapEntries_def)
  show ?thesis
  proof (cases "al_index valueEquiv k (pm_okvs m)")
    case none: None
    then have "al_del valueEquiv k (pm_okvs m) = pm_okvs m" by (simp add: al_del_absent al_index_None_iff)
    with none None i l show ?thesis by (simp add: pm_Dissoc_def)
  next
    case (Some j)
    note d = list_inv_del [OF l(1) Some]
    have "al_del valueEquiv k (pm_okvs m) = []" if "length (pm_okvs m) = 1"
      using d that by (metis diff_self_eq_0 length_0_conv)
    moreover have "list_inv []" by (simp add: list_inv_def)
    ultimately show ?thesis
      using d None Some l al_index_bound [OF Some]
      by (auto simp: pm_Dissoc_def pm_inv_def pm_mapEntries_def pm_entries_def)
  qed
next
  case (Some n)
  then have h: "pm_entries m = nodeSeq n" "pm_count m = length (nodeSeq n)" "hinv str 0 n"
    using i pm_entries_inv [OF i] by (auto simp: pm_ordered pm_mapEntries_def)
  obtain u where u: "hdissoc str n 0 (hashValue str k) k = Some u" "del_ok str 0 n k u"
    using hdissoc_correct [of str 0 n k] h k by auto
  show ?thesis
  proof (cases u)
    case Same
    then show ?thesis using u i h Some by (simp add: pm_Dissoc_def del_ok_def al_del_absent)
  next
    case Gone
    then show ?thesis using u h Some
      by (simp add: pm_Dissoc_def del_ok_def pm_inv_def pm_mapEntries_def pm_entries_def list_inv_def)
  next
    case (New n')
    then have "nodeSeq n' = al_del valueEquiv k (nodeSeq n)" "hinv str 0 n'"
      "length (nodeSeq n') = length (nodeSeq n) - 1" "nodeSeq n' \<noteq> []"
      using u(2) length_al_del [of valueEquiv k "nodeSeq n"] by (auto simp: del_ok_def)
    then show ?thesis using New u h Some
      by (auto simp: pm_Dissoc_def pm_inv_def pm_mapEntries_def pm_entries_def)
  qed
qed

interpretation pms: assoc_store str "pm_inv str" pm_entries pm_count "pm_findValue str" "pm_Assoc str" "pm_Dissoc str" for str
proof
  fix m k v
  assume m: "pm_inv str m"
  show "e \<in> set (pm_entries m) \<Longrightarrow> good_key (fst e)" for e using m pm_inv_keys by blast
  show "al_distinct valueEquiv (pm_entries m)" using m pm_inv_keys by blast
  show "pm_count m = length (pm_entries m)" using m pm_entries_inv [OF m] by (simp add: pm_inv_def)
  assume k: "good_key k"
  show "pm_findValue str m k = Some (al_find valueEquiv k (pm_entries m))" using m k by (rule pm_find_correct)
  show "\<exists>m' f. pm_Assoc str m k v = Some m' \<and> pm_inv str m' \<and> stored v f \<and>
      mset (pm_entries m') = mset (al_put valueEquiv f k v (pm_entries m))"
    using pm_Assoc_ok [OF m k, of v] stored_keep by blast
  show "alone str k (pm_entries m) \<Longrightarrow> \<exists>m'. pm_Dissoc str m k = Some m' \<and> pm_inv str m' \<and>
      pm_entries m' = al_del valueEquiv k (pm_entries m)"
    using pm_Dissoc_ok [OF m k] by blast
qed

lemma pm_assocAll_put_all: "pm_assocAll str m es = pms.put_all str m es"
  by (induction str m es rule: pm_assocAll.induct) (auto split: option.splits)

section \<open>Lookup\<close>

lemma pm_get_correct:
  assumes "pm_inv str m" "good_key k"
  shows "pm_ValueAtOr str m k d = Some (case al_find valueEquiv k (pm_entries m) of None \<Rightarrow> d | Some v \<Rightarrow> v)"
    and "pm_Contains str m k = Some (al_find valueEquiv k (pm_entries m) \<noteq> None)"
  using pm_find_correct [OF assms]
  by (auto simp: pm_ValueAtOr_def pm_Contains_def pm_entries_def)

lemma pm_keyword_correct:
  assumes "pm_inv str m"
  shows "pm_ValueAtKeywordOr str m w d = pm_ValueAtOr str m (VKeyword w) d"
proof (cases "pm_root m")
  case None
  then show ?thesis
    by (simp add: pm_ValueAtKeywordOr_def pm_ValueAtOr_def pm_findValue_def ordered_find keyword_find_al)
next
  case (Some n)
  with assms have "hinv str 0 n" by (simp add: pm_ordered)
  with Some show ?thesis
    by (simp add: pm_ValueAtKeywordOr_def pm_ValueAtOr_def pm_findValue_def hfindKeyword_hfind)
qed

section \<open>Building\<close>

lemma NewPersistentMap_put_all:
  "NewPersistentMap str kvs =
    (if length kvs mod 2 = 0 then pms.put_all str EmptyPersistentMap (kv_pairs kvs) else Some EmptyPersistentMap)"
  by (simp add: NewPersistentMap_def pm_assocAll_put_all)

text \<open>
  Both constructors make a map in which a key finds the last value given for it, or an
  equivalent one.
\<close>

definition finds :: "val option option \<Rightarrow> val option \<Rightarrow> bool" where
  "finds r spec \<longleftrightarrow> (case (r, spec) of
     (Some (Some w), Some v) \<Rightarrow> w = v \<or> valueEquiv w v
   | (Some None, None) \<Rightarrow> True
   | _ \<Rightarrow> False)"

lemma finds_simps [simp]:
  "finds r None \<longleftrightarrow> r = Some None"
  "finds r (Some v) \<longleftrightarrow> (\<exists>w. r = Some (Some w) \<and> (w = v \<or> valueEquiv w v))"
  by (auto simp: finds_def split: option.splits)

lemma NewPersistentMap_finds:
  assumes g': "\<forall>e \<in> set (kv_pairs kvs). good_key (fst e)" and k: "good_key k" and e: "length kvs mod 2 = 0"
  shows "\<exists>m. NewPersistentMap str kvs = Some m \<and> pm_inv str m \<and>
    finds (pm_findValue str m k) (al_find valueEquiv k (rev (kv_pairs kvs)))"
proof -
  have n: "pm_findValue str EmptyPersistentMap k = Some None"
    using pm_find_correct [OF EmptyPersistentMap_inv(1) k] by simp
  show ?thesis
    using pms.put_all [where str = str, OF EmptyPersistentMap_inv(1) g' k] e n
    by (auto simp: NewPersistentMap_put_all split: option.splits)
qed

lemma NewArrayMap_finds:
  assumes g': "\<forall>e \<in> set (kv_pairs kvs). good_key (fst e)" and k: "good_key k" and e: "length kvs mod 2 = 0"
  shows "\<exists>m. NewArrayMap str kvs = Some m \<and> pm_inv str m \<and>
    finds (pm_findValue str m k) (al_find valueEquiv k (rev (kv_pairs kvs)))"
proof -
  let ?t = "NewTransientMap EmptyPersistentMap"
  have t: "tm_inv str ?t \<and> tm_edit ?t" "tm_ents ?t = []"
    using NewTransientMap_ok [OF EmptyPersistentMap_inv(1)] by simp_all
  have nt: "tm_find str ?t k = Some None"
    using tm_find_correct [of str ?t k] t k by simp
  obtain t' where t': "tms.put_all str ?t (kv_pairs kvs) = Some t'" "tm_inv str t'" "tm_edit t'"
    and f: "finds (tm_find str t' k) (al_find valueEquiv k (rev (kv_pairs kvs)))"
    using tms.put_all [OF t(1) g' k] nt by (auto split: option.splits)
  obtain m t2 where m: "tm_Persistent t' = Ok (m, t2)" "pm_inv str m" "pm_entries m = tm_ents t'"
    using tm_Persistent_ok [OF t'(2,3)] by metis
  have "NewArrayMap str kvs = Some m"
  proof (cases "kvs = []")
    case True
    then show ?thesis using t' m by (auto simp: NewArrayMap_def NewTransientMap_def EmptyPersistentMap_def tm_Persistent_def)
  next
    case False
    then show ?thesis using e t' m by (simp add: NewArrayMap_def tm_assocAll_put_all)
  qed
  moreover have "pm_findValue str m k = tm_find str t' k"
    using pm_find_correct [OF m(2) k] tm_find_correct [OF t'(2) k] m(3) by simp
  ultimately show ?thesis using m(2) f by simp
qed

section \<open>Equality\<close>

lemma each_entry_total:
  assumes "\<And>k v. (k, v) \<in> set es \<Longrightarrow> fn k v = Some (p k v)"
  shows "each_entry fn es = Some (\<forall>(k, v) \<in> set es. p k v)"
  using assms
proof (induction es)
  case (Cons e es)
  then show ?case by (cases e) auto
qed simp

lemma pm_eachEntry_entries: "pm_inv str m \<Longrightarrow> pm_eachEntry m fn = each_entry fn (pm_entries m)"
  by (auto simp: pm_entries_inv pm_eachEntry_def pm_mapEntries_def hnode_each_nodeSeq split: option.split)

text \<open>Two maps are equal when every key finds an equivalent value, or nothing, in both.\<close>

definition same_map :: "pmap \<Rightarrow> pmap \<Rightarrow> bool" where
  "same_map m n \<longleftrightarrow> pm_count m = pm_count n \<and>
     (\<forall>(k, v) \<in> set (pm_entries m). case al_find valueEquiv k (pm_entries n) of
        None \<Rightarrow> False | Some w \<Rightarrow> valueEquiv v w)"

lemma same_mapD:
  "same_map m n \<Longrightarrow> (k, v) \<in> set (pm_entries m) \<Longrightarrow>
    \<exists>w. al_find valueEquiv k (pm_entries n) = Some w \<and> valueEquiv v w"
  unfolding same_map_def by (auto split: option.splits)

lemma pm_Equals_same_map:
  assumes "pm_inv str m" "pm_inv str n"
  shows "pm_Equals str m n = Some (same_map m n)"
proof -
  have "each_entry (\<lambda>k v. map_option (\<lambda>r. case r of None \<Rightarrow> False | Some ov \<Rightarrow> valueEquiv v ov) (pm_findValue str n k))
      (pm_entries m) =
    Some (\<forall>(k, v) \<in> set (pm_entries m). case al_find valueEquiv k (pm_entries n) of
        None \<Rightarrow> False | Some w \<Rightarrow> valueEquiv v w)"
    by (rule each_entry_total) (use pm_inv_keys(1) [OF assms(1)] pm_find_correct [OF assms(2)] in fastforce)
  then show ?thesis
    using assms(1) by (auto simp: pm_Equals_def same_map_def pm_eachEntry_entries pm_entries_def)
qed

text \<open>The keys of a map, one of each class.\<close>

definition key_set :: "(val \<times> val) list \<Rightarrow> val set" where
  "key_set es = (key_norm \<circ> fst) ` set es"

lemma key_set_find:
  assumes "\<forall>e \<in> set es. good_key (fst e)" "good_key k"
  shows "key_norm k \<in> key_set es \<longleftrightarrow> al_find valueEquiv k es \<noteq> None"
proof -
  have "valueEquiv k (fst e) \<longleftrightarrow> key_norm k = key_norm (fst e)" if "e \<in> set es" for e
    using that assms by (simp add: valueEquiv_norm)
  then show ?thesis by (auto simp: key_set_def al_find_None_iff image_iff)
qed

lemma al_distinct_norm:
  fixes es :: "(val \<times> val) list"
  assumes "\<forall>e \<in> set es. good_key (fst e)" "al_distinct valueEquiv es"
  shows "distinct (map (key_norm \<circ> fst) es)"
  using assms
proof (induction es)
  case (Cons e es)
  obtain k v where e: "e = (k, v)" by (cases e)
  have k: "good_key k" "al_find valueEquiv k es = None" using Cons.prems e by auto
  have "key_norm k \<notin> key_set es" using key_set_find [of es k] Cons.prems(1) k by simp
  with Cons e show ?case by (simp add: key_set_def)
qed simp

lemma card_key_set: "pm_inv str m \<Longrightarrow> card (key_set (pm_entries m)) = pm_count m"
  using al_distinct_norm [of "pm_entries m"] pm_inv_keys(1) [of str m] pm_inv_keys(2) [of str m] pms.cnt [of str m]
  unfolding key_set_def by (metis distinct_card length_map list.set_map)

lemma same_map_iff:
  assumes m: "pm_inv str m" and n: "pm_inv str n"
  shows "same_map m n \<longleftrightarrow> (\<forall>k. good_key k \<longrightarrow>
    rel_option valueEquiv (al_find valueEquiv k (pm_entries m)) (al_find valueEquiv k (pm_entries n)))"
proof
  let ?M = "pm_entries m" and ?N = "pm_entries n"
  have gm: "\<forall>e \<in> set ?M. good_key (fst e)" and gn: "\<forall>e \<in> set ?N. good_key (fst e)"
    using pm_inv_keys(1) m n by blast+
  have fin: "finite (key_set ?N)" by (simp add: key_set_def)
  show "\<forall>k. good_key k \<longrightarrow> rel_option valueEquiv (al_find valueEquiv k ?M) (al_find valueEquiv k ?N)"
    if s: "same_map m n"
  proof (intro allI impI)
    fix k assume k: "good_key k"
    have sub: "key_set ?M \<subseteq> key_set ?N"
    proof
      fix x assume "x \<in> key_set ?M"
      then obtain a v where a: "(a, v) \<in> set ?M" "x = key_norm a" by (auto simp: key_set_def)
      then have "al_find valueEquiv a ?N \<noteq> None" using same_mapD [OF s] by blast
      then show "x \<in> key_set ?N" using key_set_find [OF gn, of a] gm a by auto
    qed
    have "card (key_set ?M) = card (key_set ?N)"
      using s m n by (simp add: card_key_set same_map_def)
    then have eq: "key_set ?M = key_set ?N" by (rule card_subset_eq [OF fin sub])
    show "rel_option valueEquiv (al_find valueEquiv k ?M) (al_find valueEquiv k ?N)"
    proof (cases "al_find valueEquiv k ?M")
      case None
      then have "al_find valueEquiv k ?N = None" using key_set_find [OF gm k] key_set_find [OF gn k] eq by auto
      with None show ?thesis by simp
    next
      case (Some v)
      then obtain a where a: "(a, v) \<in> set ?M" "valueEquiv k a" using al_find_Some_mem by fast
      then have "al_find valueEquiv k ?N = al_find valueEquiv a ?N"
        using gm by (intro keys.al_find_cong [OF k _ a(2) gn]) auto
      with Some same_mapD [OF s a(1)] show ?thesis by auto
    qed
  qed
  show "same_map m n"
    if r: "\<forall>k. good_key k \<longrightarrow> rel_option valueEquiv (al_find valueEquiv k ?M) (al_find valueEquiv k ?N)"
  proof -
    have "key_set ?M = key_set ?N"
    proof (intro equalityI subsetI)
      fix x assume "x \<in> key_set ?M"
      then obtain a where a: "good_key a" "x = key_norm a" "al_find valueEquiv a ?M \<noteq> None"
        using gm key_set_find [OF gm] by (fastforce simp: key_set_def)
      with r have "al_find valueEquiv a ?N \<noteq> None" by (metis option.rel_distinct(2) not_None_eq)
      then show "x \<in> key_set ?N" using key_set_find [OF gn a(1)] a(2) by simp
    next
      fix x assume "x \<in> key_set ?N"
      then obtain a where a: "good_key a" "x = key_norm a" "al_find valueEquiv a ?N \<noteq> None"
        using gn key_set_find [OF gn] by (fastforce simp: key_set_def)
      with r have "al_find valueEquiv a ?M \<noteq> None" by (metis option.rel_distinct(1) not_None_eq)
      then show "x \<in> key_set ?M" using key_set_find [OF gm a(1)] a(2) by simp
    qed
    then have c: "pm_count m = pm_count n" using card_key_set m n by metis
    have "case al_find valueEquiv k ?N of None \<Rightarrow> False | Some w \<Rightarrow> valueEquiv v w" if e: "(k, v) \<in> set ?M" for k v
    proof -
      have k: "good_key k" using gm e by auto
      then have "al_find valueEquiv k ?M = Some v"
        using keys.al_find_mem [OF pm_inv_keys(2) [OF m] gm k] e keys.eq_refl [OF k] by blast
      moreover have "rel_option valueEquiv (al_find valueEquiv k ?M) (al_find valueEquiv k ?N)"
        using r k by blast
      ultimately show ?thesis by (cases "al_find valueEquiv k ?N") simp_all
    qed
    with c show ?thesis by (auto simp: same_map_def)
  qed
qed

text \<open>Equal maps of values that can be keys have equal hashes.\<close>

lemma same_map_sym:
  assumes "pm_inv str m" "pm_inv str n" "\<forall>e \<in> set (pm_entries m) \<union> set (pm_entries n). good_key (snd e)" "same_map m n"
  shows "same_map n m"
proof -
  have "rel_option valueEquiv (al_find valueEquiv k (pm_entries n)) (al_find valueEquiv k (pm_entries m))" if "good_key k" for k
  proof -
    have "rel_option valueEquiv (al_find valueEquiv k (pm_entries m)) (al_find valueEquiv k (pm_entries n))"
      using assms(4) that by (simp add: same_map_iff [OF assms(1,2)])
    then show ?thesis
    proof cases
      case (Some x y)
      then have "good_key x" "good_key y"
        using assms(3) al_find_Some_mem [of valueEquiv k] by (metis UnCI snd_conv)+
      with Some show ?thesis using keys.eq_sym by simp
    qed simp
  qed
  then show ?thesis by (simp add: same_map_iff [OF assms(2,1)])
qed

definition norm_entries :: "(val \<times> val) list \<Rightarrow> (val \<times> val) list" where
  "norm_entries es = map (\<lambda>(k, v). (key_norm k, key_norm v)) es"

lemma same_map_norm_subset:
  assumes "pm_inv str m" "pm_inv str n" "\<forall>e \<in> set (pm_entries m) \<union> set (pm_entries n). good_key (snd e)" "same_map m n"
  shows "set (norm_entries (pm_entries m)) \<subseteq> set (norm_entries (pm_entries n))"
proof
  fix x assume "x \<in> set (norm_entries (pm_entries m))"
  then obtain k v where x: "(k, v) \<in> set (pm_entries m)" "x = (key_norm k, key_norm v)"
    by (auto simp: norm_entries_def)
  then obtain w where w: "al_find valueEquiv k (pm_entries n) = Some w" "valueEquiv v w"
    using same_mapD [OF assms(4)] by blast
  then obtain k' where k': "(k', w) \<in> set (pm_entries n)" "valueEquiv k k'" using al_find_Some_mem by fast
  have "good_key k" "good_key k'" using pm_inv_keys(1) assms(1,2) x(1) k'(1) by fastforce+
  moreover have "good_key v" "good_key w"
    using bspec [OF assms(3), of "(k, v)"] bspec [OF assms(3), of "(k', w)"] x(1) k'(1) by simp_all
  ultimately have "x = (key_norm k', key_norm w)" using w(2) k'(2) x(2) by (simp add: valueEquiv_norm)
  with k'(1) show "x \<in> set (norm_entries (pm_entries n))" by (force simp: norm_entries_def)
qed

lemma distinct_norm_entries: "pm_inv str m \<Longrightarrow> distinct (norm_entries (pm_entries m))"
proof -
  assume "pm_inv str m"
  then have "distinct (map (key_norm \<circ> fst) (pm_entries m))"
    using al_distinct_norm pm_inv_keys by blast
  moreover have "map (key_norm \<circ> fst) (pm_entries m) = map fst (norm_entries (pm_entries m))"
    by (simp add: norm_entries_def case_prod_beta)
  ultimately show ?thesis by (metis distinct_map)
qed

lemma foldl_entry_hash:
  "foldl (\<lambda>h (k, v). h + (hashValue str k XOR hashValue str v)) a es =
    a + sum_mset (image_mset (\<lambda>(k, v). hashValue str k XOR hashValue str v) (mset (norm_entries es)))"
  by (induction es arbitrary: a) (auto simp: norm_entries_def hashValue_norm algebra_simps)

lemma pm_Hash_same_map:
  assumes "pm_inv str m" "pm_inv str n" "\<forall>e \<in> set (pm_entries m) \<union> set (pm_entries n). good_key (snd e)" "same_map m n"
  shows "pm_Hash str m = pm_Hash str n"
proof -
  have "same_map n m" by (rule same_map_sym [OF assms])
  then have "set (norm_entries (pm_entries n)) \<subseteq> set (norm_entries (pm_entries m))"
    using same_map_norm_subset [OF assms(2,1)] assms(3) by blast
  with same_map_norm_subset [OF assms] have "mset (norm_entries (pm_entries m)) = mset (norm_entries (pm_entries n))"
    using distinct_norm_entries assms(1,2) by (metis set_eq_iff_mset_eq_distinct subset_antisym)
  then show ?thesis by (simp add: pm_Hash_def foldl_entry_hash)
qed

section \<open>Two keys of one hash\<close>

lemma nth_opt_Some [termination_simp]: "nth_opt xs i = Some x \<longleftrightarrow> i < length xs \<and> xs ! i = x"
  by (simp add: nth_opt_def)

text \<open>The collision bucket on the path of a hash, with the shift at which it lies.\<close>

fun bucket :: "hnode \<Rightarrow> nat \<Rightarrow> u32 \<Rightarrow> ((val \<times> val) list \<times> nat) option" where
  "bucket (HBitmap bitmap arr) shift hash =
     (let b = hmapBitpos hash shift in
      if bitmap AND b = 0 then None
      else case nth_opt arr (hmapIndex bitmap b) of
        Some (HChild child) \<Rightarrow> bucket child (shift + hmapShift) hash
      | _ \<Rightarrow> None)"
| "bucket (HColl h cnt es) shift hash = (if h = hash \<and> cnt = length es then Some (es, shift) else None)"

lemma slotSeq_child: "i < length arr \<Longrightarrow> set (nodeSeq c) \<subseteq> set (slotSeq (arr[i := HChild c]))"
  by (auto simp: upd_conv_take_nth_drop)

lemma bucket_child:
  assumes "bucket (HBitmap bitmap arr) shift hash = Some r"
  obtains c where "bitmap AND hmapBitpos hash shift \<noteq> 0"
    "nth_opt arr (hmapIndex bitmap (hmapBitpos hash shift)) = Some (HChild c)"
    "bucket c (shift + hmapShift) hash = Some r"
  using assms by (auto simp: Let_def split: if_splits option.splits hslot.splits)

lemma bucket_lookup:
  "bucket n s h = Some (es, s') \<Longrightarrow> hfind n s h k = Some (al_find valueEquiv k es)"
proof (induction n s h k rule: hfind.induct)
  case (1 bitmap arr shift hash key)
  from 1(2) obtain c where c: "bitmap AND hmapBitpos hash shift \<noteq> 0"
    "nth_opt arr (hmapIndex bitmap (hmapBitpos hash shift)) = Some (HChild c)"
    "bucket c (shift + hmapShift) hash = Some (es, s')" by (rule bucket_child)
  show ?case using 1(1) [OF refl c(1,2) refl c(3)] c(1,2) by simp
next
  case (2 h cnt es' shift hash key)
  then show ?case using ordered_find [of es' key] by (simp add: findIndex_def split: if_splits)
qed

lemma bucket_dissoc:
  "es \<in> {[(a, x), (b, y)], [(b, y), (a, x)]} \<Longrightarrow> valueEquiv a a \<Longrightarrow> \<not> valueEquiv a b \<Longrightarrow>
    bucket n s h = Some (es, s') \<Longrightarrow> chunk h s' \<noteq> chunk h 0 \<Longrightarrow>
    \<exists>n'. hdissoc str n s h a = Some (New n') \<and> (b, y) \<in> set (nodeSeq n') \<and> hfind n' s h b = Some None"
proof (induction str n s h a rule: hdissoc.induct)
  case (1 str bitmap arr shift hash key)
  let ?i = "hmapIndex bitmap (hmapBitpos hash shift)"
  from 1(5) obtain c where c: "bitmap AND hmapBitpos hash shift \<noteq> 0" "nth_opt arr ?i = Some (HChild c)"
    "bucket c (shift + hmapShift) hash = Some (es, s')" by (rule bucket_child)
  obtain c' where c': "hdissoc str c (shift + hmapShift) hash key = Some (New c')" "(b, y) \<in> set (nodeSeq c')"
    "hfind c' (shift + hmapShift) hash b = Some None"
    using 1(1) [OF refl c(1) refl c(2) refl 1(2-4) c(3) 1(6)] by blast
  have i: "?i < length arr" using c(2) by (simp add: nth_opt_Some)
  have n: "nth_opt (arr[?i := HChild c']) ?i = Some (HChild c')" using i by (simp add: nth_opt_Some)
  have "hdissoc str (HBitmap bitmap arr) shift hash key = Some (New (HBitmap bitmap (arr[?i := HChild c'])))"
    using c(1,2) c'(1) by simp
  moreover have "(b, y) \<in> set (nodeSeq (HBitmap bitmap (arr[?i := HChild c'])))"
    using slotSeq_child [OF i, of c'] c'(2) by auto
  moreover have "hfind (HBitmap bitmap (arr[?i := HChild c'])) shift hash b = Some None"
    using c(1) c'(3) n by simp
  ultimately show ?case by blast
next
  case (2 str h cnt es' shift hash key)
  have e: "es' = es" "cnt = 2" "h = hash" "s' = shift" using 2(4) 2(1) by (auto split: if_splits)
  have i: "findIndex cnt es' key = Some (if es = [(key, x), (b, y)] then 0 else 1)"
    using 2(1-3) by (auto simp: e findIndex_def)
  have "hdissoc str (HColl h cnt es') shift hash key = Some (New (HBitmap (hmapBitpos hash 0) [HEntry b y]))"
    using 2(1) 2(3) by (auto simp: e i [unfolded e] nth_opt_def hassoc_empty)
  then show ?case using 2(5) by (simp add: and_bitpos_eq_0 e Let_def)
qed

section \<open>Runs of edits on a transient\<close>

text \<open>The edits, and what they do to a log of the pairs put so far, the last put first: a key is
  bound to its first pair there.\<close>

datatype tm_op = TMAssoc val val | TMDissoc val | TMConj tconj_arg

fun tm_step :: "printer \<Rightarrow> tmap \<Rightarrow> tm_op \<Rightarrow> (map_err, tmap) outcome" where
  "tm_step str t (TMAssoc k v) = tm_Assoc str t k v"
| "tm_step str t (TMDissoc k) = tm_Dissoc str t k"
| "tm_step str t (TMConj c) = tm_Conj str t c"

fun tm_run :: "printer \<Rightarrow> tmap \<Rightarrow> tm_op list \<Rightarrow> (map_err, tmap) outcome" where
  "tm_run str t [] = Ok t"
| "tm_run str t (p # ps) = obind (tm_step str t p) (\<lambda>t'. tm_run str t' ps)"

fun log_edit :: "(val \<times> val) list \<Rightarrow> tm_op \<Rightarrow> (val \<times> val) list" where
  "log_edit es (TMAssoc k v) = (k, v) # es"
| "log_edit es (TMDissoc k) = filter (\<lambda>e. \<not> valueEquiv k (fst e)) es"
| "log_edit es (TMConj (TCPair k v)) = (k, v) # es"
| "log_edit es (TMConj (TCEntries l)) = rev l @ es"
| "log_edit es (TMConj _) = es"

fun edit_ok :: "printer \<Rightarrow> (val \<times> val) list \<Rightarrow> tm_op \<Rightarrow> bool" where
  "edit_ok str es (TMAssoc k v) = good_key k"
| "edit_ok str es (TMDissoc k) = (good_key k \<and> alone str k es)"
| "edit_ok str es (TMConj (TCPair k v)) = good_key k"
| "edit_ok str es (TMConj (TCEntries l)) = (\<forall>e \<in> set l. good_key (fst e))"
| "edit_ok str es (TMConj TCNil) = True"
| "edit_ok str es (TMConj TCOther) = False"

fun edits_ok :: "printer \<Rightarrow> (val \<times> val) list \<Rightarrow> tm_op list \<Rightarrow> bool" where
  "edits_ok str es [] = True"
| "edits_ok str es (p # ps) = (edit_ok str es p \<and> edits_ok str (log_edit es p) ps)"

text \<open>A transient holds what a log says: a key finds the value last put for it, or an equivalent one.\<close>

definition reflects :: "printer \<Rightarrow> tmap \<Rightarrow> (val \<times> val) list \<Rightarrow> bool" where
  "reflects str t es \<longleftrightarrow> tm_inv str t \<and> tm_edit t \<and> (\<forall>e \<in> set es. good_key (fst e)) \<and>
     (\<forall>k. good_key k \<longrightarrow> finds (tm_find str t k) (al_find valueEquiv k es))"

lemma reflects_Assoc:
  assumes "reflects str t es" "good_key k"
  shows "\<exists>t'. tm_Assoc str t k v = Ok t' \<and> reflects str t' ((k, v) # es)"
proof -
  have t: "tm_inv str t \<and> tm_edit t" using assms(1) by (simp add: reflects_def)
  obtain t' f where t': "tm_Assoc str t k v = Ok t'" "tm_inv str t'" "tm_edit t'"
    using tm_Assoc_ok [of str t k v] t assms(2) by blast
  have "finds (tm_find str t' k') (al_find valueEquiv k' ((k, v) # es))" if k': "good_key k'" for k'
  proof -
    obtain t1 w where "ok_or_panic (tm_Assoc str t k v) = Some t1" "w = v \<or> valueEquiv w v"
      "tm_find str t1 k' = (if valueEquiv k' k then Some (Some w) else tm_find str t k')"
      using tms.find_put [OF t assms(2) k', of v] by metis
    then show ?thesis using t'(1) assms(1) k' by (auto simp: reflects_def)
  qed
  then show ?thesis using t' assms by (auto simp: reflects_def)
qed

lemma reflects_conjAll:
  "reflects str t es \<Longrightarrow> \<forall>e \<in> set l. good_key (fst e) \<Longrightarrow>
    \<exists>t'. tm_conjAll str t l = Ok t' \<and> reflects str t' (rev l @ es)"
proof (induction l arbitrary: t es)
  case (Cons e l)
  obtain k v where e: "e = (k, v)" by (cases e)
  obtain t1 where t1: "tm_Assoc str t k v = Ok t1" "reflects str t1 ((k, v) # es)"
    using reflects_Assoc [OF Cons.prems(1), of k v] Cons.prems(2) e by auto
  show ?case using Cons.IH [OF t1(2)] Cons.prems(2) t1(1) by (simp add: e)
qed simp

lemma al_find_filter_equiv:
  assumes "good_key k" "good_key k'" "\<forall>e \<in> set es. good_key (fst e)"
  shows "al_find valueEquiv k' (filter (\<lambda>e. \<not> valueEquiv k (fst e)) es) =
    (if valueEquiv k' k then None else al_find valueEquiv k' es)"
  using assms(3)
proof (induction es)
  case (Cons e es)
  have g: "good_key (fst e)" using Cons.prems by simp
  have "valueEquiv k' k \<Longrightarrow> valueEquiv k' (fst e) \<longleftrightarrow> valueEquiv k (fst e)"
    using keys.eq_trans [OF assms(2,1) g] keys.eq_trans [OF assms(1,2) g] keys.eq_sym [OF assms(2,1)] by blast
  moreover have "valueEquiv k (fst e) \<Longrightarrow> valueEquiv k' (fst e) \<Longrightarrow> valueEquiv k' k"
    using keys.eq_trans [OF assms(2) g assms(1)] keys.eq_sym [OF assms(1) g] by blast
  ultimately show ?case using Cons by (cases e) auto
qed simp

lemma alone_reflects:
  assumes "reflects str t es" "alone str k es" "good_key k"
  shows "alone str k (tm_ents t)"
  unfolding alone_def
proof (intro ballI impI)
  fix e assume e: "e \<in> set (tm_ents t)" and h: "hashValue str (fst e) = hashValue str k"
  have i: "tm_inv str t" using assms(1) by (simp add: reflects_def)
  have g: "good_key (fst e)" using tm_inv_keys(1) [OF i e] .
  have "al_find valueEquiv (fst e) (tm_ents t) \<noteq> None"
    using e g keys.eq_refl [of "fst e"] by (auto simp: al_find_None_iff)
  then have "tm_find str t (fst e) \<noteq> Some None" using tm_find_correct [OF i g] by simp
  moreover have "finds (tm_find str t (fst e)) (al_find valueEquiv (fst e) es)"
    using assms(1) g by (simp add: reflects_def)
  ultimately have "al_find valueEquiv (fst e) es \<noteq> None" by (metis finds_simps(1))
  then obtain x where x: "x \<in> set es" "valueEquiv (fst e) (fst x)" by (auto simp: al_find_None_iff)
  have gx: "good_key (fst x)" using assms(1) x(1) by (simp add: reflects_def)
  have "hashValue str (fst x) = hashValue str k" using keys.eq_hash [OF g gx x(2)] h by simp
  then have "valueEquiv k (fst x)" using assms(2) x(1) by (simp add: alone_def)
  then show "valueEquiv k (fst e)" using keys.eq_trans [OF assms(3) gx g] keys.eq_sym [OF g gx] x(2) by blast
qed

lemma reflects_step:
  assumes "reflects str t es" "edit_ok str es p"
  shows "\<exists>t'. tm_step str t p = Ok t' \<and> reflects str t' (log_edit es p)"
proof -
  have t: "tm_inv str t \<and> tm_edit t" using assms(1) by (simp add: reflects_def)
  consider (put) k v where "p = TMAssoc k v" | (del) k where "p = TMDissoc k" | (conj) c where "p = TMConj c"
    by (cases p) auto
  then show ?thesis
  proof cases
    case put
    then show ?thesis using reflects_Assoc [OF assms(1)] assms(2) by simp
  next
    case del
    have k: "good_key k" and a: "alone str k (tm_ents t)"
      using assms alone_reflects [OF assms(1)] del by simp_all
    obtain t' where t': "tm_Dissoc str t k = Ok t'" "tm_inv str t'" "tm_edit t'"
      using tm_Dissoc_ok [of str t k] t k a by blast
    have g: "\<forall>e \<in> set es. good_key (fst e)" using assms(1) by (simp add: reflects_def)
    have "finds (tm_find str t' k') (al_find valueEquiv k' (log_edit es p))" if k': "good_key k'" for k'
    proof -
      have "tm_find str t' k' = (if valueEquiv k' k then Some None else tm_find str t k')"
        using tms.find_del [OF t k k' a] t'(1) by auto
      moreover have "al_find valueEquiv k' (log_edit es p) = (if valueEquiv k' k then None else al_find valueEquiv k' es)"
        unfolding del log_edit.simps by (rule al_find_filter_equiv [OF k k' g])
      ultimately show ?thesis using assms(1) k' by (auto simp: reflects_def)
    qed
    then show ?thesis using t' g del by (auto simp: reflects_def)
  next
    case conj
    then show ?thesis
      using assms t reflects_Assoc [OF assms(1)] reflects_conjAll [OF assms(1)]
      by (cases c) (auto simp: tm_Conj_def)
  qed
qed

lemma reflects_run:
  "reflects str t es \<Longrightarrow> edits_ok str es ps \<Longrightarrow>
    \<exists>t'. tm_run str t ps = Ok t' \<and> reflects str t' (foldl log_edit es ps)"
proof (induction ps arbitrary: t es)
  case (Cons p ps)
  obtain t1 where t1: "tm_step str t p = Ok t1" "reflects str t1 (log_edit es p)"
    using reflects_step [OF Cons.prems(1)] Cons.prems(2) by auto
  show ?case using Cons.IH [OF t1(2)] Cons.prems(2) t1(1) by simp
qed simp

lemma reflects_new: "pm_inv str m \<Longrightarrow> reflects str (NewTransientMap m) (pm_entries m)"
  using NewTransientMap_ok [of str m] pm_inv_keys(1) [of str m] tm_find_correct [of str "NewTransientMap m"]
  by (auto simp: reflects_def finds_def split: option.splits)

lemma frozen_step: "\<not> tm_edit t \<Longrightarrow> tm_step str t p = Err EFrozen"
  by (cases p) (simp_all add: tm_frozen)

end
