(* ===== verification/LG_Set.thy ===== *)
theory LG_Set
  imports LG_Map "HOL-Library.List_Lexorder"
begin

text \<open>
  The persistent set of \<open>pkg/vm/persistent_set.go\<close> and the transient set of
  \<open>pkg/vm/transient.go\<close>: maps in trie mode whose keys are the elements. The contract of
  a store of entries gives the set operations; the last section is about the order in
  which a trie, and so a set, is traversed.
\<close>

section \<open>Operations\<close>

record pset =
  ps_impl :: pmap
  ps_meta :: "val option"

definition emptySetImpl :: pmap where
  "emptySetImpl = \<lparr>pm_count = 0, pm_root = Some (HBitmap 0 []), pm_okvs = [], pm_meta = None\<rparr>"

definition EmptyPersistentSet :: pset where
  "EmptyPersistentSet = \<lparr>ps_impl = emptySetImpl, ps_meta = None\<rparr>"

definition NewPersistentSet :: "printer \<Rightarrow> val list \<Rightarrow> pset option" where
  "NewPersistentSet str vals =
     (if vals = [] then Some EmptyPersistentSet
      else map_option (\<lambda>m. \<lparr>ps_impl = m, ps_meta = None\<rparr>) (pm_assocAll str emptySetImpl (map (\<lambda>v. (v, v)) vals)))"

definition ps_entries :: "pset \<Rightarrow> val list" where
  "ps_entries s = (if pm_count (ps_impl s) = 0 then [] else map fst (pm_mapEntries (ps_impl s)))"

text \<open>The receiver comes back when the map does; a map is compared by contents here, which is the same.\<close>

definition ps_Conj :: "printer \<Rightarrow> pset \<Rightarrow> val \<Rightarrow> pset option" where
  "ps_Conj str s value = (case pm_Assoc str (ps_impl s) value value of
     None \<Rightarrow> None
   | Some newImpl \<Rightarrow> Some (if newImpl = ps_impl s then s else \<lparr>ps_impl = newImpl, ps_meta = ps_meta s\<rparr>))"

definition ps_Disj :: "printer \<Rightarrow> pset \<Rightarrow> val \<Rightarrow> pset option" where
  "ps_Disj str s value = (case pm_Dissoc str (ps_impl s) value of
     None \<Rightarrow> None
   | Some newImpl \<Rightarrow> Some (if newImpl = ps_impl s then s
       else \<lparr>ps_impl = (if pm_count newImpl = 0 then emptySetImpl else newImpl), ps_meta = ps_meta s\<rparr>))"

definition ps_Contains :: "printer \<Rightarrow> pset \<Rightarrow> val \<Rightarrow> bool option" where
  "ps_Contains str s value =
     (if pm_count (ps_impl s) = 0 then Some False
      else map_option (\<lambda>r. r \<noteq> None) (pm_findValue str (ps_impl s) value))"

definition ps_ValueAtOr :: "printer \<Rightarrow> pset \<Rightarrow> val \<Rightarrow> val \<Rightarrow> val option" where
  "ps_ValueAtOr str s key dflt =
     (if pm_count (ps_impl s) = 0 then Some dflt
      else map_option (\<lambda>r. if r \<noteq> None then key else dflt) (pm_findValue str (ps_impl s) key))"

definition ps_Invoke :: "printer \<Rightarrow> pset \<Rightarrow> val list \<Rightarrow> (map_err, val) outcome" where
  "ps_Invoke str s args = (case args of
     [x] \<Rightarrow> of_panic (ps_ValueAtOr str s x VNil)
   | _ \<Rightarrow> Err (EMapArity (length args)))"

definition ps_Hash :: "printer \<Rightarrow> pset \<Rightarrow> u32" where
  "ps_Hash str s = mixFinish (foldl (\<lambda>h x. h + hashValue str x) 0 (ps_entries s))"

definition ps_Empty :: "pset \<Rightarrow> pset" where
  "ps_Empty s = EmptyPersistentSet\<lparr>ps_meta := ps_meta s\<rparr>"

text \<open>The transient set. The results of the inner map edits are discarded, errors included.\<close>

record tset =
  ts_edit :: bool
  ts_tm :: tmap

definition NewTransientSet :: "printer \<Rightarrow> pset \<Rightarrow> tset option" where
  "NewTransientSet str s =
     map_option (\<lambda>tm. \<lparr>ts_edit = True, ts_tm = tm\<rparr>) (tm_forceHAMT str (NewTransientMap (ps_impl s)))"

definition ignore_err :: "'a \<Rightarrow> ('e, 'a) outcome \<Rightarrow> 'a option" where
  "ignore_err t r = (case r of Ok t' \<Rightarrow> Some t' | Err e \<Rightarrow> Some t | Panic \<Rightarrow> None)"

definition ts_Conj :: "printer \<Rightarrow> tset \<Rightarrow> val \<Rightarrow> (map_err, tset) outcome" where
  "ts_Conj str t value =
     (if \<not> ts_edit t then Err EFrozen
      else of_panic (map_option (\<lambda>tm. t\<lparr>ts_tm := tm\<rparr>)
        (ignore_err (ts_tm t) (tm_Assoc str (ts_tm t) value (VBool True)))))"

definition ts_Disj :: "printer \<Rightarrow> tset \<Rightarrow> val \<Rightarrow> (map_err, tset) outcome" where
  "ts_Disj str t value =
     (if \<not> ts_edit t then Err EFrozen
      else of_panic (map_option (\<lambda>tm. t\<lparr>ts_tm := tm\<rparr>)
        (ignore_err (ts_tm t) (tm_Dissoc str (ts_tm t) value))))"

definition ts_Persistent :: "tset \<Rightarrow> (map_err, pset \<times> tset) outcome" where
  "ts_Persistent t =
     (if \<not> ts_edit t then Err EFrozen
      else obind (tm_Persistent (ts_tm t)) (\<lambda>(impl, tm).
        Ok (\<lparr>ps_impl = (if pm_count impl = 0 then emptySetImpl else impl), ps_meta = None\<rparr>,
            t\<lparr>ts_edit := False, ts_tm := tm\<rparr>)))"

definition ts_ValueAtOr :: "printer \<Rightarrow> tset \<Rightarrow> val \<Rightarrow> val \<Rightarrow> val option" where
  "ts_ValueAtOr str t key notFound =
     map_option (\<lambda>b. if b then key else notFound) (tm_Contains str (ts_tm t) key)"

definition ts_Invoke :: "printer \<Rightarrow> tset \<Rightarrow> val list \<Rightarrow> (map_err, val) outcome" where
  "ts_Invoke str t args = (case args of
     [x] \<Rightarrow> of_panic (ts_ValueAtOr str t x VNil)
   | _ \<Rightarrow> Err (EMapArity (length args)))"

section \<open>The invariant\<close>

text \<open>A set never runs in the ordered mode.\<close>

definition ps_inv :: "printer \<Rightarrow> pset \<Rightarrow> bool" where
  "ps_inv str s \<longleftrightarrow> pm_inv str (ps_impl s) \<and> pm_root (ps_impl s) \<noteq> None"

definition ps_member :: "pset \<Rightarrow> val \<Rightarrow> bool" where
  "ps_member s x \<longleftrightarrow> list_ex (valueEquiv x) (ps_entries s)"

definition ts_inv :: "printer \<Rightarrow> tset \<Rightarrow> bool" where
  "ts_inv str t \<longleftrightarrow> tm_inv str (ts_tm t) \<and> tm_hamt (ts_tm t) \<and> tm_edit (ts_tm t) = ts_edit t"

lemma ps_entries_pm: "ps_inv str s \<Longrightarrow> ps_entries s = map fst (pm_entries (ps_impl s))"
  by (auto simp: ps_inv_def ps_entries_def pm_entries_def)

lemma ps_member_find:
  "ps_inv str s \<Longrightarrow> ps_member s x \<longleftrightarrow> al_find valueEquiv x (pm_entries (ps_impl s)) \<noteq> None"
  by (auto simp: ps_member_def ps_entries_pm list_ex_iff al_find_None_iff)

lemma emptySetImpl_inv [simp]:
  "pm_inv str emptySetImpl" "pm_root emptySetImpl = Some (HBitmap 0 [])" "pm_entries emptySetImpl = []"
  "pm_count emptySetImpl = 0"
  by (simp_all add: emptySetImpl_def pm_ordered pm_entries_def)

lemma EmptyPersistentSet_inv [simp]: "ps_inv str EmptyPersistentSet" "\<not> ps_member EmptyPersistentSet x"
  by (simp_all add: ps_inv_def EmptyPersistentSet_def ps_member_def ps_entries_def)

text \<open>Insertion into a trie leaves a trie; removal does unless it empties the map.\<close>

lemma pm_Assoc_hamt:
  assumes "pm_inv str m" "good_key k" "pm_root m \<noteq> None" "pm_Assoc str m k v = Some m'"
  shows "pm_root m' \<noteq> None"
proof -
  obtain n where n: "pm_root m = Some n" using assms(3) by blast
  with assms(1) have "hinv str 0 n" by (simp add: pm_ordered)
  then have "assoc_ok str 0 n k v" by (rule hassoc_correct [OF _ assms(2)]) simp
  then obtain u added where "hassoc str n 0 (hashValue str k) k v = Some (u, added)" "u \<noteq> Gone"
    by (auto simp: assoc_ok_def)
  with assms(4) n show ?thesis by (cases u) (auto simp: pm_Assoc_def)
qed

lemma pm_Dissoc_hamt:
  "pm_root m \<noteq> None \<Longrightarrow> pm_Dissoc str m k = Some m' \<Longrightarrow> pm_root m' \<noteq> None \<or> pm_count m' = 0"
  by (auto simp: pm_Dissoc_def split: option.splits upd.splits)

lemma ps_Conj_ok:
  assumes "ps_inv str s" "good_key x"
  shows "\<exists>s'. ps_Conj str s x = Some s' \<and> ps_inv str s' \<and> ps_meta s' = ps_meta s \<and>
    (\<forall>y. good_key y \<longrightarrow> ps_member s' y = (valueEquiv y x \<or> ps_member s y)) \<and>
    length (ps_entries s') = length (ps_entries s) + (if ps_member s x then 0 else 1)"
proof -
  let ?m = "ps_impl s"
  have i: "pm_inv str ?m" "pm_root ?m \<noteq> None" using assms(1) by (simp_all add: ps_inv_def)
  have g: "\<forall>e \<in> set (pm_entries ?m). good_key (fst e)" using pm_inv_keys(1) i(1) by blast
  obtain m' where m': "pm_Assoc str ?m x x = Some m'" "pm_inv str m'"
    and ms: "mset (pm_entries m') = mset (al_put valueEquiv (keep x) x x (pm_entries ?m))"
    using pm_Assoc_ok [OF i(1) assms(2)] by blast
  have g': "\<forall>e \<in> set (pm_entries m'). good_key (fst e)" using pm_inv_keys(1) m'(2) by blast
  let ?s' = "if m' = ?m then s else \<lparr>ps_impl = m', ps_meta = ps_meta s\<rparr>"
  have s': "ps_inv str ?s'" "ps_impl ?s' = m'" "ps_meta ?s' = ps_meta s" "ps_Conj str s x = Some ?s'"
    using m' i pm_Assoc_hamt [OF i(1) assms(2) i(2) m'(1)] assms(1) by (auto simp: ps_inv_def ps_Conj_def)
  have "ps_member ?s' y = (valueEquiv y x \<or> ps_member s y)" if "good_key y" for y
    using keys.al_find_perm [OF ms g' pm_inv_keys(2) [OF m'(2)] that] keys.al_find_put [OF assms(2) that g]
    unfolding ps_member_find [OF s'(1)] ps_member_find [OF assms(1)] s'(2) by simp
  moreover have "length (ps_entries ?s') = length (ps_entries s) + (if ps_member s x then 0 else 1)"
    using mset_eq_length [OF ms]
    unfolding ps_entries_pm [OF s'(1)] ps_entries_pm [OF assms(1)] ps_member_find [OF assms(1)] s'(2)
    by (simp add: length_al_put)
  ultimately show ?thesis using s' by blast
qed

lemma ps_Disj_ok:
  assumes "ps_inv str s" "good_key x" "alone str x (pm_entries (ps_impl s))"
  shows "\<exists>s'. ps_Disj str s x = Some s' \<and> ps_inv str s' \<and> ps_meta s' = ps_meta s \<and>
    (\<forall>y. good_key y \<longrightarrow> ps_member s' y = (\<not> valueEquiv y x \<and> ps_member s y)) \<and>
    length (ps_entries s') = length (ps_entries s) - (if ps_member s x then 1 else 0)"
proof -
  let ?m = "ps_impl s"
  have i: "pm_inv str ?m" "pm_root ?m \<noteq> None" using assms(1) by (simp_all add: ps_inv_def)
  have g: "\<forall>e \<in> set (pm_entries ?m). good_key (fst e)" using pm_inv_keys(1) i(1) by blast
  obtain m' where m': "pm_Dissoc str ?m x = Some m'" "pm_inv str m'"
    "pm_entries m' = al_del valueEquiv x (pm_entries ?m)"
    using pm_Dissoc_ok [OF i(1) assms(2,3)] by blast
  let ?i = "if pm_count m' = 0 then emptySetImpl else m'"
  let ?s' = "if m' = ?m then s else \<lparr>ps_impl = ?i, ps_meta = ps_meta s\<rparr>"
  have e: "pm_entries ?i = pm_entries m'" using pms.cnt [OF m'(2)] by auto
  have s': "ps_inv str ?s'" "pm_entries (ps_impl ?s') = pm_entries m'" "ps_meta ?s' = ps_meta s"
    "ps_Disj str s x = Some ?s'"
    using m' i pm_Dissoc_hamt [OF i(2) m'(1)] assms(1) e by (auto simp: ps_inv_def ps_Disj_def)
  have "ps_member ?s' y = (\<not> valueEquiv y x \<and> ps_member s y)" if "good_key y" for y
    using keys.al_find_del [OF assms(2) that g pm_inv_keys(2) [OF i(1)]]
    unfolding ps_member_find [OF s'(1)] ps_member_find [OF assms(1)] s'(2) m'(3) by simp
  moreover have "length (ps_entries ?s') = length (ps_entries s) - (if ps_member s x then 1 else 0)"
    unfolding ps_entries_pm [OF s'(1)] ps_entries_pm [OF assms(1)] ps_member_find [OF assms(1)] s'(2) m'(3)
    by (simp add: length_al_del)
  ultimately show ?thesis using s' by blast
qed

lemma ps_get_ok:
  assumes "ps_inv str s" "good_key x"
  shows "ps_Contains str s x = Some (ps_member s x)"
    "ps_ValueAtOr str s x d = Some (if ps_member s x then x else d)"
  using pm_find_correct [of str "ps_impl s" x] assms ps_member_find [OF assms(1), of x]
  by (auto simp: ps_inv_def ps_Contains_def ps_ValueAtOr_def pm_entries_def)

section \<open>The transient set\<close>

definition ts_member :: "tset \<Rightarrow> val \<Rightarrow> bool" where
  "ts_member t x \<longleftrightarrow> al_find valueEquiv x (tm_ents (ts_tm t)) \<noteq> None"

lemma NewTransientSet_ok:
  assumes "ps_inv str s"
  shows "\<exists>t. NewTransientSet str s = Some t \<and> ts_inv str t \<and> ts_edit t \<and> (\<forall>x. ts_member t x = ps_member s x)"
proof -
  let ?tm = "NewTransientMap (ps_impl s)"
  have h: "tm_hamt ?tm" "tm_edit ?tm" using assms by (auto simp: ps_inv_def NewTransientMap_def split: option.splits)
  then have f: "tm_forceHAMT str ?tm = Some ?tm" by (simp add: tm_forceHAMT_def)
  have "tm_inv str ?tm" "tm_ents ?tm = pm_entries (ps_impl s)"
    using NewTransientMap_ok [of str "ps_impl s"] assms by (simp_all add: ps_inv_def)
  with f h show ?thesis
    by (auto simp: NewTransientSet_def ts_inv_def ts_member_def ps_member_find [OF assms])
qed

lemma tm_Assoc_hamt: "tm_hamt t \<Longrightarrow> tm_Assoc str t k v = Ok t' \<Longrightarrow> tm_hamt t'"
  by (auto simp: tm_Assoc_def tm_hamtAssoc_def split: if_splits option.splits)

lemma tm_Dissoc_hamt: "tm_hamt t \<Longrightarrow> tm_Dissoc str t k = Ok t' \<Longrightarrow> tm_hamt t'"
  by (auto simp: tm_Dissoc_def split: if_splits option.splits upd.splits)

lemma ts_Conj_ok:
  assumes "ts_inv str t" "ts_edit t" "good_key x"
  shows "\<exists>t'. ts_Conj str t x = Ok t' \<and> ts_inv str t' \<and> ts_edit t' \<and>
    (\<forall>y. good_key y \<longrightarrow> ts_member t' y = (valueEquiv y x \<or> ts_member t y))"
proof -
  let ?m = "ts_tm t"
  have i: "tm_inv str ?m" "tm_hamt ?m" "tm_edit ?m" using assms by (auto simp: ts_inv_def)
  obtain m' f where m': "tm_Assoc str ?m x (VBool True) = Ok m'" "tm_inv str m'" "tm_edit m'"
    and ms: "mset (tm_ents m') = mset (al_put valueEquiv f x (VBool True) (tm_ents ?m))"
    using tm_Assoc_ok [OF i(1,3) assms(3)] by metis
  have g: "\<forall>e \<in> set (tm_ents ?m). good_key (fst e)" "\<forall>e \<in> set (tm_ents m'). good_key (fst e)"
    using tm_inv_keys(1) i(1) m'(2) by blast+
  have "al_find valueEquiv y (tm_ents m') \<noteq> None \<longleftrightarrow> valueEquiv y x \<or> al_find valueEquiv y (tm_ents ?m) \<noteq> None"
    if "good_key y" for y
    using keys.al_find_perm [OF ms g(2) tm_inv_keys(2) [OF m'(2)] that] keys.al_find_put [OF assms(3) that g(1)] by simp
  then show ?thesis
    using m' assms(2) tm_Assoc_hamt [OF i(2) m'(1)]
    by (simp add: ts_Conj_def ignore_err_def ts_inv_def ts_member_def)
qed

lemma ts_Disj_ok:
  assumes "ts_inv str t" "ts_edit t" "good_key x" "alone str x (tm_ents (ts_tm t))"
  shows "\<exists>t'. ts_Disj str t x = Ok t' \<and> ts_inv str t' \<and> ts_edit t' \<and>
    (\<forall>y. good_key y \<longrightarrow> ts_member t' y = (\<not> valueEquiv y x \<and> ts_member t y))"
proof -
  let ?m = "ts_tm t"
  have i: "tm_inv str ?m" "tm_hamt ?m" "tm_edit ?m" using assms by (auto simp: ts_inv_def)
  obtain m' where m': "tm_Dissoc str ?m x = Ok m'" "tm_inv str m'" "tm_edit m'"
    "tm_ents m' = al_del valueEquiv x (tm_ents ?m)"
    using tm_Dissoc_ok [OF i(1,3) assms(3,4)] by metis
  have g: "\<forall>e \<in> set (tm_ents ?m). good_key (fst e)" using tm_inv_keys(1) i(1) by blast
  have "al_find valueEquiv y (tm_ents m') \<noteq> None \<longleftrightarrow> \<not> valueEquiv y x \<and> al_find valueEquiv y (tm_ents ?m) \<noteq> None"
    if "good_key y" for y
    using keys.al_find_del [OF assms(3) that g tm_inv_keys(2) [OF i(1)]] m'(4) by simp
  then show ?thesis
    using m' assms(2) tm_Dissoc_hamt [OF i(2) m'(1)]
    by (simp add: ts_Disj_def ignore_err_def ts_inv_def ts_member_def)
qed

lemma ts_Persistent_ok:
  assumes "ts_inv str t" "ts_edit t"
  shows "\<exists>s t'. ts_Persistent t = Ok (s, t') \<and> ps_inv str s \<and> \<not> ts_edit t' \<and> (\<forall>x. ps_member s x = ts_member t x)"
proof -
  have i: "tm_inv str (ts_tm t)" "tm_hamt (ts_tm t)" "tm_edit (ts_tm t)" using assms by (auto simp: ts_inv_def)
  obtain m tm where m: "tm_Persistent (ts_tm t) = Ok (m, tm)" "pm_inv str m" "pm_entries m = tm_ents (ts_tm t)"
    using tm_Persistent_ok [OF i(1,3)] by metis
  let ?s = "\<lparr>ps_impl = (if pm_count m = 0 then emptySetImpl else m), ps_meta = None\<rparr>"
  have "pm_root m \<noteq> None" if "pm_count m \<noteq> 0"
    using i m(1) that by (cases "tm_root (ts_tm t)") (auto simp: tm_Persistent_def tm_inv_def tm_ents_def)
  then have s: "ps_inv str ?s" using m(2) by (simp add: ps_inv_def)
  moreover have "pm_entries (ps_impl ?s) = tm_ents (ts_tm t)" using m(3) pms.cnt [OF m(2)] by auto
  ultimately show ?thesis
    using m(1) assms(2) by (auto simp: ts_Persistent_def ts_member_def ps_member_find)
qed

section \<open>The order of traversal\<close>

text \<open>
  A trie is traversed in the order of the five-bit pieces of the hashes, the lowest
  first, so two tries with the same entries, no two of the same hash, are traversed
  alike, whatever the order in which they were built.
\<close>

function path :: "nat \<Rightarrow> u32 \<Rightarrow> nat list" where
  "path s h = (if 32 \<le> s then [] else chunk h s # path (s + 5) h)"
  by pat_completeness auto
termination by (relation "measure (\<lambda>(s, h). 32 - s)") auto

declare path.simps [simp del]

lemma path_inject: "take_bit s h = take_bit s h' \<Longrightarrow> path s h = path s h' \<Longrightarrow> h = h'"
proof (induction s h rule: path.induct)
  case (1 s h)
  show ?case
  proof (cases "32 \<le> s")
    case True
    then show ?thesis using 1(2) agree_all by blast
  next
    case False
    then have "chunk h s = chunk h' s" "path (s + 5) h = path (s + 5) h'"
      using 1(3) by (simp_all add: path.simps [of s])
    then show ?thesis using 1(1) [OF False agree_next [OF 1(2)]] by simp
  qed
qed

abbreviation entry_path :: "printer \<Rightarrow> nat \<Rightarrow> val \<times> val \<Rightarrow> nat list" where
  "entry_path str s e \<equiv> path s (hashValue str (fst e))"

lemma path_chunk_less: "s < 32 \<Longrightarrow> chunk h s < chunk h' s \<Longrightarrow> path s h \<le> path s h'"
  by (simp add: path.simps [of s])

lemma path_chunk_eq: "chunk h s = chunk h' s \<Longrightarrow> path (s + 5) h \<le> path (s + 5) h' \<Longrightarrow> path s h \<le> path s h'"
  by (simp add: path.simps [of s])

theorem traversal_sorted:
  "hinv str s n \<Longrightarrow> sorted (map (entry_path str s) (nodeSeq n))"
  "slots_inv str s ms arr \<Longrightarrow> sorted_wrt (<) ms \<Longrightarrow> sorted (map (entry_path str s) (slotSeq arr))"
proof (induction str s n and str s ms arr rule: hinv_slots_inv.induct)
  case (1 str s bm arr)
  then show ?case using bits_of_sorted [of bm] by simp
next
  case (2 str s h cnt es)
  then have "map (entry_path str s) (take cnt es) = map (\<lambda>_. path s h) (take cnt es)" by simp
  then show ?case by (simp only: nodeSeq.simps map_replicate_const sorted_replicate)
next
  case (4 str s m ms k v ss)
  have "path s (hashValue str k) \<le> entry_path str s e" if "e \<in> set (slotSeq ss)" for e
  proof (cases "s < 32")
    case True
    then show ?thesis
      using inv_keys(2) [of str s ms ss e] that 4(2,3) by (intro path_chunk_less) auto
  qed (simp add: path.simps [of s])
  with 4 show ?case by auto
next
  case (5 str s m ms c ss)
  have "entry_path str s e \<le> entry_path str s e'" if "e \<in> set (nodeSeq c)" "e' \<in> set (slotSeq ss)" for e e'
  proof (cases "s < 32")
    case True
    then show ?thesis
      using inv_keys(2) [of str s ms ss e'] that 5(3,4) by (intro path_chunk_less) auto
  qed (simp add: path.simps [of s])
  moreover have "sorted (map (entry_path str s) (nodeSeq c))"
  proof -
    have "sorted_wrt (\<lambda>a b. entry_path str (s + 5) a \<le> entry_path str (s + 5) b) (nodeSeq c)"
      using 5(1,3) by (simp add: sorted_map)
    then have "sorted_wrt (\<lambda>a b. entry_path str s a \<le> entry_path str s b) (nodeSeq c)"
    proof (rule sorted_wrt_mono_rel [rotated])
      fix a b
      assume "a \<in> set (nodeSeq c)" "b \<in> set (nodeSeq c)" "entry_path str (s + 5) a \<le> entry_path str (s + 5) b"
      then show "entry_path str s a \<le> entry_path str s b"
        using 5(3) path_chunk_eq [of "hashValue str (fst a)" s "hashValue str (fst b)"] by auto
    qed
    then show ?thesis by (simp add: sorted_map)
  qed
  ultimately show ?case using 5 by (auto simp: sorted_append)
qed auto

theorem traversal_unique:
  assumes "hinv str 0 n" "hinv str 0 n'" "mset (nodeSeq n) = mset (nodeSeq n')"
    "inj_on (\<lambda>e. hashValue str (fst e)) (set (nodeSeq n))"
  shows "nodeSeq n = nodeSeq n'"
proof -
  have "inj_on (entry_path str 0) (set (nodeSeq n))"
    using assms(4) path_inject [of 0] by (fastforce intro: inj_onI dest: inj_onD)
  then have "sort_key (entry_path str 0) (nodeSeq n) = xs"
    if "mset (nodeSeq n) = mset xs" "sorted (map (entry_path str 0) xs)" for xs
    using that by (intro sort_key_inj_key_eq) auto
  then show ?thesis using traversal_sorted(1) assms(1-3) by metis
qed

text \<open>So a set lists its elements in an order that does not depend on how it came to be.\<close>

theorem ps_entries_unique:
  assumes "ps_inv str s" "ps_inv str t" "mset (pm_entries (ps_impl s)) = mset (pm_entries (ps_impl t))"
    "inj_on (hashValue str) (set (ps_entries s))"
  shows "ps_entries s = ps_entries t"
proof -
  obtain n n' where n: "pm_root (ps_impl s) = Some n" "pm_root (ps_impl t) = Some n'"
    using assms(1,2) by (auto simp: ps_inv_def)
  then have e: "pm_entries (ps_impl s) = nodeSeq n" "pm_entries (ps_impl t) = nodeSeq n'"
    "hinv str 0 n" "hinv str 0 n'"
    using assms(1,2) pm_entries_inv [of str "ps_impl s"] pm_entries_inv [of str "ps_impl t"]
    by (auto simp: ps_inv_def pm_ordered pm_mapEntries_def)
  have "distinct (map fst (nodeSeq n))"
    using al_distinct_norm [of "nodeSeq n"] inv_keys(1) [OF e(3)] hinv_distinct(1) [OF e(3)]
    by (metis distinct_map list.map_comp)
  then have "inj_on fst (set (nodeSeq n))" by (simp add: distinct_map)
  moreover have "inj_on (hashValue str) (fst ` set (nodeSeq n))"
    using assms(4) unfolding ps_entries_pm [OF assms(1)] e(1) by simp
  ultimately have "inj_on (\<lambda>e. hashValue str (fst e)) (set (nodeSeq n))"
    using comp_inj_on [of fst "set (nodeSeq n)" "hashValue str"] by (simp add: comp_def)
  then have "nodeSeq n = nodeSeq n'"
    using traversal_unique [OF e(3,4)] assms(3) e(1,2) by simp
  then show ?thesis
    unfolding ps_entries_pm [OF assms(1)] ps_entries_pm [OF assms(2)] e(1,2) by simp
qed

end
