(* ===== verification/LG_Chunks.thy ===== *)
theory LG_Chunks
  imports LG_Prelude
begin

text \<open>
  Lists cut into chunks: every chunk has length \<open>n\<close> but the last, which is shorter
  but not empty. The children of a vector node are such a list.
\<close>

fun uniform :: "nat \<Rightarrow> 'a list list \<Rightarrow> bool" where
  "uniform n [] = True"
| "uniform n [xs] = (xs \<noteq> [] \<and> length xs \<le> n)"
| "uniform n (xs # ys # yss) = (xs \<noteq> [] \<and> length xs = n \<and> uniform n (ys # yss))"

fun chunks :: "nat \<Rightarrow> 'a list \<Rightarrow> 'a list list" where
  "chunks n xs = (if n = 0 \<or> xs = [] then [] else take n xs # chunks n (drop n xs))"

declare chunks.simps [simp del]

lemma chunks_step: "0 < n \<Longrightarrow> xs \<noteq> [] \<Longrightarrow> chunks n xs = take n xs # chunks n (drop n xs)"
  by (simp add: chunks.simps)

lemma uniform_tl: "uniform n (xs # xss) \<Longrightarrow> uniform n xss"
  by (cases xss) auto

lemma uniform_hd: "uniform n (xs # xss) \<Longrightarrow> xs \<noteq> [] \<and> length xs \<le> n \<and> (xss \<noteq> [] \<longrightarrow> length xs = n)"
  by (cases xss) auto

lemma uniform_ConsI:
  "xs \<noteq> [] \<Longrightarrow> length xs \<le> n \<Longrightarrow> (xss \<noteq> [] \<Longrightarrow> length xs = n) \<Longrightarrow> uniform n xss \<Longrightarrow> uniform n (xs # xss)"
  by (cases xss) auto

lemma uniform_mem: "uniform n xss \<Longrightarrow> xs \<in> set xss \<Longrightarrow> xs \<noteq> [] \<and> length xs \<le> n"
  by (induction n xss rule: uniform.induct) auto

lemma uniform_nth:
  assumes "uniform n xss" "i < length (concat xss)" "0 < n"
  shows "i div n < length xss" "i mod n < length (xss ! (i div n))"
    "concat xss ! i = xss ! (i div n) ! (i mod n)"
proof -
  have "i div n < length xss \<and> i mod n < length (xss ! (i div n)) \<and>
    concat xss ! i = xss ! (i div n) ! (i mod n)"
    using assms(1,2)
  proof (induction xss arbitrary: i)
    case (Cons xs xss)
    note h = uniform_hd [OF Cons.prems(1)]
    show ?case
    proof (cases "i < length xs")
      case True
      with h have "i < n" by auto
      with True show ?thesis by (simp add: nth_append)
    next
      case False
      with Cons.prems(2) have ne: "xss \<noteq> []" by auto
      with h have l: "length xs = n" by simp
      have "i - n < length (concat xss)" using False Cons.prems(2) l by auto
      note ih = Cons.IH [OF uniform_tl [OF Cons.prems(1)] this]
      have d: "i div n = Suc ((i - n) div n)" "i mod n = (i - n) mod n"
        using False l assms(3) by (simp_all add: le_div_geq le_mod_geq)
      from ih False l show ?thesis by (simp add: d nth_append)
    qed
  qed simp
  then show "i div n < length xss" "i mod n < length (xss ! (i div n))"
    "concat xss ! i = xss ! (i div n) ! (i mod n)" by simp_all
qed

lemma uniform_update:
  assumes "uniform n xss" "i < length (concat xss)" "0 < n"
  shows "concat (xss[i div n := (xss ! (i div n))[i mod n := v]]) = (concat xss)[i := v]"
  using assms(1,2)
proof (induction xss arbitrary: i)
  case (Cons xs xss)
  note h = uniform_hd [OF Cons.prems(1)]
  show ?case
  proof (cases "i < length xs")
    case True
    with h have "i < n" by auto
    with True show ?thesis by (simp add: list_update_append)
  next
    case False
    with Cons.prems(2) have ne: "xss \<noteq> []" by auto
    with h have l: "length xs = n" by simp
    have "i - n < length (concat xss)" using False Cons.prems(2) l by auto
    note ih = Cons.IH [OF uniform_tl [OF Cons.prems(1)] this]
    have d: "i div n = Suc ((i - n) div n)" "i mod n = (i - n) mod n"
      using False l assms(3) by (simp_all add: le_div_geq le_mod_geq)
    from ih False l show ?thesis by (simp add: d list_update_append)
  qed
qed simp

lemma uniform_map_length:
  "uniform n xss \<Longrightarrow> map length xss = map length yss \<Longrightarrow> uniform n yss"
proof (induction n xss arbitrary: yss rule: uniform.induct)
  case (2 n xs)
  then show ?case by (cases yss) auto
next
  case (3 n xs ys zss)
  then obtain xs' ys' zss' where "yss = xs' # ys' # zss'"
    by (cases yss; cases "tl yss") auto
  with 3 show ?case by (cases xs'; cases xs) auto
qed simp

lemma uniform_length:
  "uniform n xss \<Longrightarrow> xss \<noteq> [] \<Longrightarrow>
    length (concat xss) = (length xss - 1) * n + length (last xss)"
proof (induction n xss rule: uniform.induct)
  case (3 n xs ys zss)
  then show ?case by (cases zss) auto
qed auto

lemma uniform_last: "uniform n xss \<Longrightarrow> xss \<noteq> [] \<Longrightarrow> 0 < length (last xss) \<and> length (last xss) \<le> n"
  using uniform_mem last_in_set by (metis length_greater_0_conv)

lemma uniform_length_bounds:
  assumes "uniform n xss" "xss \<noteq> []"
  shows "0 < length (concat xss)" "length (concat xss) \<le> length xss * n"
proof -
  obtain k where k: "length xss = Suc k" using assms(2) by (cases xss) auto
  show "0 < length (concat xss)" "length (concat xss) \<le> length xss * n"
    using uniform_length [OF assms] uniform_last [OF assms] k by auto
qed

lemma uniform_snoc:
  assumes "uniform n xss" "n dvd length (concat xss)" "ys \<noteq> []" "length ys \<le> n"
  shows "uniform n (xss @ [ys])"
  using assms(1,2)
proof (induction xss)
  case (Cons xs xss)
  note h = uniform_hd [OF Cons.prems(1)]
  have l: "length xs = n"
  proof (cases xss)
    case Nil
    with Cons.prems(2) h show ?thesis by (auto dest: dvd_imp_le)
  qed (use h in auto)
  then have "n dvd length (concat xss)"
    using Cons.prems(2) by (simp add: dvd_add_right_iff)
  from Cons.IH [OF uniform_tl [OF Cons.prems(1)] this] h l show ?case
    using uniform_ConsI [of xs n "xss @ [ys]"] by simp
qed (use assms in auto)

lemma uniform_butlast_snoc:
  "uniform n xss \<Longrightarrow> ys \<noteq> [] \<Longrightarrow> length ys \<le> n \<Longrightarrow> uniform n (butlast xss @ [ys])"
proof (induction n xss rule: uniform.induct)
  case (3 n xs zs zss)
  then show ?case by (cases zss) auto
qed auto

lemma uniform_take: "uniform n xss \<Longrightarrow> uniform n (take k xss)"
proof (induction xss arbitrary: k)
  case (Cons xs xss)
  show ?case
  proof (cases k)
    case (Suc m)
    with Cons.IH [OF uniform_tl [OF Cons.prems]] uniform_hd [OF Cons.prems] show ?thesis
      by (auto intro!: uniform_ConsI)
  qed simp
qed simp

lemma uniform_drop: "uniform n xss \<Longrightarrow> uniform n (drop k xss)"
proof (induction xss arbitrary: k)
  case (Cons xs xss)
  then show ?case using uniform_tl [OF Cons.prems] by (cases k) auto
qed simp

lemma uniform_append: "uniform n (xs @ ys) \<Longrightarrow> uniform n xs \<and> uniform n ys"
  by (metis append_eq_conv_conj uniform_drop uniform_take)

lemma concat_map_concat: "concat (map (\<lambda>ys. concat (map f ys)) yss) = concat (map f (concat yss))"
  by (induction yss) auto

lemma uniform_full: "(\<forall>xs \<in> set xss. length xs = n) \<Longrightarrow> 0 < n \<Longrightarrow> uniform n xss"
  by (induction n xss rule: uniform.induct) auto

lemma length_concat_take_uniform:
  "uniform n xss \<Longrightarrow> k < length xss \<Longrightarrow> length (concat (take k xss)) = k * n"
proof (induction xss arbitrary: k)
  case (Cons xs xss)
  show ?case
  proof (cases k)
    case (Suc m)
    with Cons.prems(2) have "m < length xss" "xss \<noteq> []" by auto
    with Cons.IH [OF uniform_tl [OF Cons.prems(1)], of m] uniform_hd [OF Cons.prems(1)] Suc
    show ?thesis by (simp del: length_concat)
  qed simp
qed simp

lemma concat_take_uniform:
  assumes "uniform n xss" "k < length xss"
  shows "concat (take k xss) = take (k * n) (concat xss)"
proof -
  have "concat xss = concat (take k xss) @ concat (drop k xss)"
    by (metis append_take_drop_id concat_append)
  then show ?thesis
    using length_concat_take_uniform [OF assms] by (metis append_eq_conv_conj)
qed

lemma chunks_concat: "0 < n \<Longrightarrow> concat (chunks n xs) = xs"
proof (induction n xs rule: chunks.induct)
  case (1 n xs)
  then show ?case by (subst chunks.simps) simp
qed

lemma chunks_uniform: "0 < n \<Longrightarrow> uniform n (chunks n xs)"
proof (induction n xs rule: chunks.induct)
  case (1 n xs)
  show ?case
  proof (cases "xs = []")
    case False
    have "chunks n (drop n xs) = [] \<longleftrightarrow> length xs \<le> n"
      using 1(2) by (subst chunks.simps) simp
    with 1 False show ?thesis
      by (subst chunks.simps) (auto intro!: uniform_ConsI simp: min_def)
  qed (simp add: chunks.simps)
qed

lemma chunks_Nil [simp]: "chunks n [] = []"
  by (simp add: chunks.simps)

lemma length_chunks: "0 < n \<Longrightarrow> length (chunks n xs) = (length xs + n - 1) div n"
proof (induction n xs rule: chunks.induct)
  case (1 n xs)
  show ?case
  proof (cases "xs = []")
    case False
    then have "length xs > 0" by simp
    have "length (chunks n xs) = Suc ((length xs - n + n - 1) div n)"
      using 1 False by (subst chunks.simps) simp
    also have "\<dots> = (length xs + n - 1) div n"
    proof (cases "length xs \<le> n")
      case True
      then have "(length xs + n - 1) div n = 1"
        using \<open>length xs > 0\<close> by (intro div_nat_eqI) (simp_all del: length_greater_0_conv)
      with True 1(2) show ?thesis by simp
    next
      case False
      then show ?thesis using 1(2) by (simp add: le_div_geq)
    qed
    finally show ?thesis .
  qed (use 1(2) in simp)
qed

lemma chunks_all_full:
  "0 < n \<Longrightarrow> n dvd length xs \<Longrightarrow> ys \<in> set (chunks n xs) \<Longrightarrow> length ys = n"
proof (induction n xs rule: chunks.induct)
  case (1 n xs)
  show ?case
  proof (cases "xs = []")
    case False
    then have "n \<le> length xs" using 1(3) by (simp add: dvd_imp_le)
    moreover have "n dvd length (drop n xs)" using 1(3) by simp
    ultimately show ?thesis
      using 1 False by (auto simp: chunks_step)
  qed (use 1 in simp)
qed

end
