(* ===== verification/LG_Vector.thy ===== *)
theory LG_Vector
  imports LG_Chunks LG_Value
begin

text \<open>
  The persistent vector of \<open>pkg/vm/persistent_vector.go\<close>: a trie of nodes with up to
  32 slots and a separate tail. A node is the list of its slots; a slot holds a
  value or a child (Go's \<open>[]any\<close>). A failed type assertion on a slot and an index
  out of a slice's range are panics (\<open>None\<close>). Levels are the Go shifts: 0 at the
  leaves, 5 more per level. Counts and offsets, machine integers of values that
  fit in memory, are natural numbers. The identity token of a vector, by which
  copies are told apart, is left out.

  The abstraction of a vector is the list of its elements; \<open>pv_inv\<close> is what every
  operation keeps. The interface \<open>vector_adt\<close> states the contract that the array
  vector and the persistent vector share.
\<close>

datatype 'v slot = SVal 'v | SNode "'v slot list"

type_synonym 'v vnode = "'v slot list"

record 'v pvec =
  pv_count :: nat
  pv_shift :: nat
  pv_root :: "'v vnode"
  pv_tail :: "'v list"
  pv_tailOff :: nat
  pv_meta :: "'v option"

definition vshift :: nat where "vshift = 5"
definition nodeCap :: nat where "nodeCap = 32"

text \<open>\<open>(i >> level) & nodeMask\<close>\<close>

definition vidx :: "nat \<Rightarrow> nat \<Rightarrow> nat" where
  "vidx i level = (drop_bit level i AND 31)"

section \<open>Operations on nodes\<close>

function newPath :: "nat \<Rightarrow> 'v list \<Rightarrow> 'v vnode" where
  "newPath level ts = (if level = 0 then map SVal ts else [SNode (newPath (level - vshift) ts)])"
  by pat_completeness auto

termination by (relation "measure fst") (auto simp: vshift_def)

declare newPath.simps [simp del]

lemma size_child [termination_simp]:
  "i < length node \<Longrightarrow> node ! i = SNode child \<Longrightarrow> size_list size child < size_list size node"
  using nth_mem [of i node] by (auto intro: size_list_estimation [of "SNode child"])

function pushTail :: "nat \<Rightarrow> 'v vnode \<Rightarrow> nat \<Rightarrow> 'v list \<Rightarrow> 'v vnode option" where
  "pushTail level parent tailOff ts =
     (let subidx = vidx tailOff level in
      if level = vshift then Some (parent @ [SNode (map SVal ts)])
      else if subidx < length parent then
        (case nth_opt parent subidx of
           Some (SNode child) \<Rightarrow>
             (case pushTail (level - vshift) child tailOff ts of
                Some child' \<Rightarrow> Some (parent[subidx := SNode child'])
              | None \<Rightarrow> None)
         | _ \<Rightarrow> None)
      else Some (parent @ [SNode (newPath (level - vshift) ts)]))"
  by pat_completeness auto

termination by (relation "measure (\<lambda>(l, p, t, ts). size_list size p)") (auto simp: size_child)

declare pushTail.simps [simp del]

text \<open>Go's \<open>nil\<close> result is the inner \<open>None\<close>.\<close>

function popTail :: "nat \<Rightarrow> 'v vnode \<Rightarrow> nat \<Rightarrow> 'v vnode option option" where
  "popTail level node idx =
     (let subidx = vidx idx level in
      if vshift < level then
        (case nth_opt node subidx of
           Some (SNode child) \<Rightarrow>
             (case popTail (level - vshift) child idx of
                None \<Rightarrow> None
              | Some newChild \<Rightarrow>
                  if newChild = None \<and> subidx = 0 then Some None
                  else Some (Some (case newChild of
                      None \<Rightarrow> take subidx node
                    | Some c \<Rightarrow> node[subidx := SNode c])))
         | _ \<Rightarrow> None)
      else if subidx = 0 then Some None
      else if subidx \<le> length node then Some (Some (take subidx node))
      else None)"
  by pat_completeness auto

termination by (relation "measure (\<lambda>(l, p, t). size_list size p)") (auto simp: size_child)

declare popTail.simps [simp del]

fun slot_value :: "'v slot \<Rightarrow> 'v option" where
  "slot_value (SVal v) = Some v"
| "slot_value (SNode n) = None"

fun all_values :: "'v vnode \<Rightarrow> 'v list option" where
  "all_values [] = Some []"
| "all_values (s # ss) = (case (slot_value s, all_values ss) of
     (Some v, Some vs) \<Rightarrow> Some (v # vs) | _ \<Rightarrow> None)"

function leafArray :: "nat \<Rightarrow> 'v vnode \<Rightarrow> nat \<Rightarrow> 'v list option" where
  "leafArray level node i =
     (if level = 0 then all_values node
      else case nth_opt node (vidx i level) of
        Some (SNode child) \<Rightarrow> leafArray (level - vshift) child i
      | _ \<Rightarrow> None)"
  by pat_completeness auto

termination by (relation "measure (\<lambda>(l, p, t). size_list size p)") (auto simp: size_child)

declare leafArray.simps [simp del]

function lookupNode :: "nat \<Rightarrow> 'v vnode \<Rightarrow> nat \<Rightarrow> 'v \<Rightarrow> 'v" where
  "lookupNode level node idx dflt =
     (if 0 < level then
        (if length node = 0 then dflt
         else case nth_opt node (vidx idx level) of
           Some (SNode nextNode) \<Rightarrow> lookupNode (level - vshift) nextNode idx dflt
         | _ \<Rightarrow> dflt)
      else case nth_opt node (vidx idx 0) of
        Some (SVal v) \<Rightarrow> v
      | _ \<Rightarrow> dflt)"
  by pat_completeness auto

termination by (relation "measure (\<lambda>(l, p, t, d). size_list size p)") (auto simp: size_child)

declare lookupNode.simps [simp del]

function doAssoc :: "'v vnode \<Rightarrow> nat \<Rightarrow> nat \<Rightarrow> 'v \<Rightarrow> 'v vnode option" where
  "doAssoc n level idx val =
     (let subidx = vidx idx level in
      if level = 0 then (if subidx < length n then Some (n[subidx := SVal val]) else None)
      else case nth_opt n subidx of
        Some (SNode child) \<Rightarrow>
          (case doAssoc child (level - vshift) idx val of
             Some child' \<Rightarrow> Some (n[subidx := SNode child'])
           | None \<Rightarrow> None)
      | _ \<Rightarrow> None)"
  by pat_completeness auto

termination by (relation "measure (\<lambda>(p, l, t, v). size_list size p)") (auto simp: size_child)

declare doAssoc.simps [simp del]

section \<open>Operations on vectors\<close>

definition pv_Empty :: "'v pvec \<Rightarrow> 'v pvec" where
  "pv_Empty v = \<lparr>pv_count = 0, pv_shift = vshift, pv_root = [], pv_tail = [], pv_tailOff = 0,
     pv_meta = pv_meta v\<rparr>"

definition pv_Conj :: "'v pvec \<Rightarrow> 'v \<Rightarrow> 'v pvec option" where
  "pv_Conj v val =
     (if pv_count v = 0 then
        Some \<lparr>pv_count = 1, pv_shift = vshift, pv_root = [], pv_tail = [val], pv_tailOff = 0,
          pv_meta = pv_meta v\<rparr>
      else if length (pv_tail v) < nodeCap then
        Some (v\<lparr>pv_count := pv_count v + 1, pv_tail := pv_tail v @ [val]\<rparr>)
      else if 2 ^ pv_shift v \<le> drop_bit vshift (pv_tailOff v) then
        Some (v\<lparr>pv_count := pv_count v + 1, pv_shift := pv_shift v + vshift,
          pv_root := [SNode (pv_root v), SNode (newPath (pv_shift v) (pv_tail v))],
          pv_tail := [val], pv_tailOff := pv_count v\<rparr>)
      else (case pushTail (pv_shift v) (pv_root v) (pv_tailOff v) (pv_tail v) of
          Some newRoot \<Rightarrow>
            Some (v\<lparr>pv_count := pv_count v + 1, pv_root := newRoot, pv_tail := [val],
              pv_tailOff := pv_count v\<rparr>)
        | None \<Rightarrow> None))"

text \<open>The end of \<open>Pop\<close>: a root with one child left is collapsed.\<close>

definition pv_popped :: "'v pvec \<Rightarrow> 'v vnode \<Rightarrow> 'v list \<Rightarrow> 'v pvec option" where
  "pv_popped v newRoot newTail =
     (if vshift < pv_shift v \<and> length newRoot = 1 then
        (case newRoot of
           [SNode n] \<Rightarrow>
             Some (v\<lparr>pv_count := pv_count v - 1, pv_shift := pv_shift v - vshift,
               pv_root := n, pv_tail := newTail,
               pv_tailOff := (pv_count v - 1) - length newTail\<rparr>)
         | _ \<Rightarrow> None)
      else
        Some (v\<lparr>pv_count := pv_count v - 1, pv_root := newRoot, pv_tail := newTail,
          pv_tailOff := (pv_count v - 1) - length newTail\<rparr>))"

definition pv_Pop :: "'v pvec \<Rightarrow> 'v pvec option" where
  "pv_Pop v =
     (if pv_count v \<le> 1 then Some (pv_Empty v)
      else if 1 < length (pv_tail v) then
        Some (v\<lparr>pv_count := pv_count v - 1, pv_tail := butlast (pv_tail v)\<rparr>)
      else let removeIdx = pv_count v - 1 - length (pv_tail v) in
        (case leafArray (pv_shift v) (pv_root v) removeIdx of
           None \<Rightarrow> None
         | Some leaf \<Rightarrow>
           if pv_tail v = [] \<and> leaf = [] then None
           else (case popTail (pv_shift v) (pv_root v) removeIdx of
                None \<Rightarrow> None
              | Some r \<Rightarrow>
                  pv_popped v (case r of None \<Rightarrow> [] | Some n \<Rightarrow> n)
                    (if pv_tail v = [] then butlast leaf else leaf))))"

text \<open>The tail access is unchecked: an index past the tail would panic.\<close>

definition pv_ValueAtOr :: "'v pvec \<Rightarrow> val \<Rightarrow> 'v \<Rightarrow> 'v option" where
  "pv_ValueAtOr v key dflt = (case key of
     VInt k \<Rightarrow>
       (let idx = nat (sint k) in
        if sint k < 0 \<or> pv_count v \<le> idx then Some dflt
        else if pv_tailOff v \<le> idx then nth_opt (pv_tail v) (idx - pv_tailOff v)
        else Some (lookupNode (pv_shift v) (pv_root v) idx dflt))
   | _ \<Rightarrow> Some dflt)"

definition pv_Contains :: "'v pvec \<Rightarrow> val \<Rightarrow> bool" where
  "pv_Contains v key = (case key of
     VInt k \<Rightarrow> \<not> (sint k < 0 \<or> pv_count v \<le> nat (sint k))
   | _ \<Rightarrow> False)"

text \<open>The inner \<open>None\<close> is Go's \<open>NIL\<close>, returned for a key that is not an index.\<close>

definition pv_Assoc :: "'v pvec \<Rightarrow> val \<Rightarrow> 'v \<Rightarrow> 'v pvec option option" where
  "pv_Assoc v key val = (case key of
     VInt k \<Rightarrow>
       (let idx = nat (sint k) in
        if sint k < 0 \<or> pv_count v < idx then Some None
        else if idx = pv_count v then map_option Some (pv_Conj v val)
        else if pv_tailOff v \<le> idx then
          (if idx - pv_tailOff v < length (pv_tail v)
           then Some (Some (v\<lparr>pv_tail := (pv_tail v)[idx - pv_tailOff v := val]\<rparr>)) else None)
        else map_option (\<lambda>r. Some (v\<lparr>pv_root := r\<rparr>)) (doAssoc (pv_root v) (pv_shift v) idx val))
   | _ \<Rightarrow> Some None)"

datatype vec_err = EVecArity nat | EVecKey | EVecBounds int

definition pv_Invoke :: "'v \<Rightarrow> 'v pvec \<Rightarrow> val list \<Rightarrow> (vec_err, 'v) outcome" where
  "pv_Invoke nil v args = (case args of
     [VInt k] \<Rightarrow>
       if sint k < 0 \<or> int (pv_count v) \<le> sint k then Err (EVecBounds (sint k))
       else of_panic (pv_ValueAtOr v (VInt k) nil)
   | [_] \<Rightarrow> Err EVecKey
   | _ \<Rightarrow> Err (EVecArity (length args)))"

text \<open>Grouping the nodes of a level under parents until one root can hold them.\<close>

function groupLevels :: "'v vnode list \<Rightarrow> nat \<Rightarrow> 'v vnode list \<times> nat" where
  "groupLevels level treeShift =
     (if nodeCap < length level
      then groupLevels (map (map SNode) (chunks nodeCap level)) (treeShift + vshift)
      else (level, treeShift))"
  by pat_completeness auto

termination
  by (relation "measure (\<lambda>(l, s). length l)") (auto simp: length_chunks nodeCap_def)

declare groupLevels.simps [simp del]

definition NewPersistentVector :: "'v list \<Rightarrow> 'v pvec" where
  "NewPersistentVector values =
     (if length values = 0 then
        \<lparr>pv_count = 0, pv_shift = vshift, pv_root = [], pv_tail = [], pv_tailOff = 0, pv_meta = None\<rparr>
      else let tailSize = length values mod nodeCap; treeSize = length values - tailSize;
               ts = drop treeSize values in
        if treeSize = 0 then
          \<lparr>pv_count = length values, pv_shift = vshift, pv_root = [], pv_tail = ts, pv_tailOff = 0,
           pv_meta = None\<rparr>
        else let leaves = map (map SVal) (chunks nodeCap (take treeSize values));
                 (top, treeShift) = groupLevels leaves vshift in
          \<lparr>pv_count = length values, pv_shift = treeShift, pv_root = map SNode top, pv_tail = ts,
           pv_tailOff = treeSize, pv_meta = None\<rparr>)"

text \<open>\<open>Unbox\<close>: every index in turn.\<close>

definition pv_Unbox :: "'v \<Rightarrow> 'v pvec \<Rightarrow> 'v list option" where
  "pv_Unbox nil v = those (map (\<lambda>i. pv_ValueAtOr v (VInt (word_of_int (int i))) nil) [0..<pv_count v])"

section \<open>Shape and contents of a node\<close>

fun slot_elems :: "'v slot \<Rightarrow> 'v list" where
  "slot_elems (SVal v) = [v]"
| "slot_elems (SNode ss) = concat (map slot_elems ss)"

definition elems :: "'v vnode \<Rightarrow> 'v list" where
  "elems ss = concat (map slot_elems ss)"

fun is_val_slot :: "'v slot \<Rightarrow> bool" where
  "is_val_slot (SVal v) = True"
| "is_val_slot (SNode n) = False"

text \<open>A node with its leaves \<open>d\<close> levels below has level \<open>lev d\<close> and holds up to \<open>ncap d\<close> values.\<close>

definition lev :: "nat \<Rightarrow> nat" where "lev d = 5 * d"
definition ncap :: "nat \<Rightarrow> nat" where "ncap d = 32 ^ Suc d"

text \<open>
  \<open>dense d\<close>: all leaves are \<open>d\<close> levels below and full, and so are all children but
  the rightmost one at each level.
\<close>

fun dense :: "nat \<Rightarrow> 'v vnode \<Rightarrow> bool" where
  "dense 0 ss = (length ss = 32 \<and> (\<forall>s \<in> set ss. is_val_slot s))"
| "dense (Suc d) ss = (ss \<noteq> [] \<and> length ss \<le> 32 \<and>
     (\<forall>s \<in> set ss. case s of SNode n \<Rightarrow> dense d n | SVal v \<Rightarrow> False) \<and>
     uniform (ncap d) (map slot_elems ss))"

lemma lev_simps [simp]: "lev 0 = 0" "0 < lev (Suc d)" "lev (Suc d) - vshift = lev d"
  "lev (Suc d) = vshift \<longleftrightarrow> d = 0" "vshift < lev (Suc d) \<longleftrightarrow> 0 < d" "lev d + vshift = lev (Suc d)"
  "lev d = 0 \<longleftrightarrow> d = 0"
  by (auto simp: lev_def vshift_def)

lemma ncap_simps [simp]: "ncap 0 = 32" "0 < ncap d" "ncap (Suc d) = 32 * ncap d"
  by (simp_all add: ncap_def)

lemma slot_elems_SNode [simp]: "slot_elems (SNode n) = elems n"
  by (simp add: elems_def)

declare slot_elems.simps(2) [simp del]

lemma elems_Nil [simp]: "elems [] = []"
  by (simp add: elems_def)

lemma elems_append [simp]: "elems (xs @ ys) = elems xs @ elems ys"
  by (simp add: elems_def)

lemma elems_Cons [simp]: "elems (s # ss) = slot_elems s @ elems ss"
  by (simp add: elems_def)

lemma elems_SVal [simp]: "elems (map SVal xs) = xs"
  by (induction xs) auto

lemma elems_SNode: "elems (map SNode ns) = concat (map elems ns)"
  by (induction ns) auto

lemma values_node: "(\<forall>s \<in> set ss. is_val_slot s) \<Longrightarrow> \<exists>xs. ss = map SVal xs"
proof (induction ss)
  case (Cons s ss)
  then obtain xs where "ss = map SVal xs" by auto
  with Cons.prems show ?case by (cases s) (auto intro: exI [of _ "_ # xs"])
qed simp

lemma dense_leaf: "dense 0 ss \<longleftrightarrow> (\<exists>xs. ss = map SVal xs \<and> length xs = 32)"
  using values_node by fastforce

lemma dense_leaf_map [simp]: "length xs = 32 \<Longrightarrow> dense 0 (map SVal xs)"
  by auto

lemma dense_size:
  "dense d ss \<Longrightarrow> 0 < length (elems ss) \<and> length (elems ss) \<le> ncap d \<and> 32 dvd length (elems ss)"
proof (induction d arbitrary: ss)
  case 0
  then show ?case by (auto simp: dense_leaf simp del: dense.simps)
next
  case (Suc d)
  have ne: "map slot_elems ss \<noteq> []" and u: "uniform (ncap d) (map slot_elems ss)"
    using Suc.prems by simp_all
  have "length ss * ncap d \<le> 32 * ncap d" using Suc.prems by (intro mult_le_mono1) simp
  then have "0 < length (elems ss)" "length (elems ss) \<le> 32 * ncap d"
    using uniform_length_bounds [OF u ne] unfolding elems_def length_map by (blast intro: le_trans)+
  moreover have "32 dvd length (elems xs)" if "set xs \<subseteq> set ss" for xs
    using that
  proof (induction xs)
    case (Cons s xs)
    then obtain n where "s = SNode n" "dense d n"
      using Suc.prems by (cases s) (auto split: slot.splits)
    with Cons Suc.IH show ?case by simp
  qed simp
  ultimately show ?case by simp
qed

lemma vidx_0: "vidx i 0 = i mod 32"
proof -
  have "i AND 31 = take_bit 5 i" by (simp add: take_bit_eq_mask mask_eq_exp_minus_1)
  then show ?thesis by (simp add: vidx_def take_bit_eq_mod)
qed

lemma two_pow_lev: "(2 :: nat) ^ lev (Suc d) = ncap d"
  by (simp add: lev_def ncap_def power_mult del: power_Suc mult_Suc_right)

lemma vidx_lev: "vidx i (lev (Suc d)) = i div ncap d mod 32"
proof -
  note two_pow_lev [of d]
  moreover have "vidx i l = vidx (i div 2 ^ l) 0" for l by (simp add: vidx_def drop_bit_eq_div)
  ultimately show ?thesis by (simp add: vidx_0)
qed

lemma mod_div_split:
  "(i mod (n * m)) div n = i div n mod (m :: nat)" "(i mod (n * m)) mod n = i mod n"
proof -
  show "(i mod (n * m)) div n = i div n mod m"
    by (cases "n = 0") (simp_all add: mod_mult2_eq)
  show "(i mod (n * m)) mod n = i mod n"
    by (simp add: mod_mult2_eq)
qed

lemma vidx_split: "vidx i (lev (Suc d)) = i mod ncap (Suc d) div ncap d" "i mod ncap (Suc d) mod ncap d = i mod ncap d"
  using mod_div_split [of i "ncap d" 32] by (simp_all add: vidx_lev mult.commute [of _ 32])

text \<open>The step from a node to the child that holds an index.\<close>

lemma dense_child:
  assumes "dense (Suc d) ss" "i mod ncap (Suc d) < length (elems ss)"
  obtains c where "vidx i (lev (Suc d)) < length ss" "ss ! vidx i (lev (Suc d)) = SNode c" "dense d c"
    "i mod ncap d < length (elems c)"
    "elems ss ! (i mod ncap (Suc d)) = elems c ! (i mod ncap d)"
proof -
  let ?j = "vidx i (lev (Suc d))" and ?i = "i mod ncap (Suc d)"
  have u: "uniform (ncap d) (map slot_elems ss)" using assms(1) by simp
  have l: "?i < length (concat (map slot_elems ss))" using assms(2) by (simp add: elems_def)
  note un = uniform_nth [OF u l ncap_simps(2), folded vidx_split(1), unfolded vidx_split(2)]
  have j: "?j < length ss" using un(1) by simp
  then have "ss ! ?j \<in> set ss" by simp
  then have "case ss ! ?j of SNode n \<Rightarrow> dense d n | SVal v \<Rightarrow> False"
    using assms(1) unfolding dense.simps by blast
  then obtain c where c: "ss ! ?j = SNode c" "dense d c"
    by (cases "ss ! ?j") auto
  show ?thesis
  proof (rule that [OF j c])
    show "i mod ncap d < length (elems c)" using un(2) j c by simp
    show "elems ss ! ?i = elems c ! (i mod ncap d)" using un(3) j c by (simp add: elems_def)
  qed
qed

text \<open>Replacing a child by one of the same size.\<close>

lemma dense_update:
  assumes "dense (Suc d) ss" "j < length ss" "ss ! j = SNode c" "dense d c'"
    "length (elems c') = length (elems c)"
  shows "dense (Suc d) (ss[j := SNode c'])"
proof -
  have "map length (map slot_elems ss) = map length (map slot_elems (ss[j := SNode c']))"
    using assms by (auto intro!: nth_equalityI simp: nth_list_update)
  then have "uniform (ncap d) (map slot_elems (ss[j := SNode c']))"
    using assms(1) uniform_map_length by fastforce
  with assms show ?thesis by (auto dest: subsetD [OF set_update_subset_insert])
qed

section \<open>Operations on nodes are correct\<close>

lemma lookupNode_dense:
  "dense d ss \<Longrightarrow> i mod ncap d < length (elems ss) \<Longrightarrow>
    lookupNode (lev d) ss i dflt = elems ss ! (i mod ncap d)"
proof (induction d arbitrary: ss)
  case 0
  then obtain xs where "ss = map SVal xs" "length xs = 32" by (auto simp: dense_leaf simp del: dense.simps)
  with 0 show ?case by (subst lookupNode.simps) (simp add: vidx_0 nth_opt_def)
next
  case (Suc d)
  obtain c where c: "vidx i (lev (Suc d)) < length ss" "ss ! vidx i (lev (Suc d)) = SNode c" "dense d c"
    "i mod ncap d < length (elems c)"
    "elems ss ! (i mod ncap (Suc d)) = elems c ! (i mod ncap d)"
    using dense_child [OF Suc.prems] by metis
  have "lookupNode (lev (Suc d)) ss i dflt = lookupNode (lev d) c i dflt"
    using c(1,2) by (subst lookupNode.simps) (auto simp: nth_opt_def)
  with Suc.IH [OF c(3,4)] c(5) show ?case by simp
qed

lemma doAssoc_dense:
  "dense d ss \<Longrightarrow> i mod ncap d < length (elems ss) \<Longrightarrow>
    \<exists>ss'. doAssoc ss (lev d) i v = Some ss' \<and> dense d ss' \<and>
      elems ss' = (elems ss)[i mod ncap d := v] \<and> length ss' = length ss"
proof (induction d arbitrary: ss)
  case 0
  then obtain xs where xs: "ss = map SVal xs" "length xs = 32" by (auto simp: dense_leaf simp del: dense.simps)
  have "ss[i mod 32 := SVal v] = map SVal (xs[i mod 32 := v])" by (simp add: xs map_update)
  with xs show ?case by (subst doAssoc.simps) (simp add: vidx_0 del: dense.simps)
next
  case (Suc d)
  let ?j = "vidx i (lev (Suc d))" and ?i = "i mod ncap (Suc d)"
  obtain c where c: "?j < length ss" "ss ! ?j = SNode c" "dense d c"
    "i mod ncap d < length (elems c)"
    using dense_child [OF Suc.prems] by metis
  obtain c' where c': "doAssoc c (lev d) i v = Some c'" "dense d c'"
    "elems c' = (elems c)[i mod ncap d := v]"
    using Suc.IH [OF c(3,4)] by blast
  have step: "doAssoc ss (lev (Suc d)) i v = Some (ss[?j := SNode c'])"
    using c(1,2) c'(1) by (subst doAssoc.simps) (simp add: nth_opt_def)
  have u: "uniform (ncap d) (map slot_elems ss)" using Suc.prems by simp
  have l: "?i < length (concat (map slot_elems ss))" using Suc.prems(2) by (simp add: elems_def)
  have "elems (ss[?j := SNode c']) =
      concat ((map slot_elems ss)[?j := (map slot_elems ss ! ?j)[i mod ncap d := v]])"
    using c c' by (simp add: elems_def map_update)
  also have "\<dots> = (elems ss)[?i := v]"
    using uniform_update [OF u l ncap_simps(2), folded vidx_split(1), unfolded vidx_split(2)]
    by (simp add: elems_def)
  finally show ?case
    using step dense_update [OF Suc.prems(1) c(1,2) c'(2)] c'(3) by (simp del: ncap_simps)
qed

text \<open>The index of the last value leads to the last child.\<close>

lemma dense_last_child:
  assumes "dense (Suc d) ss" "length (elems ss) = Suc (i mod ncap (Suc d))"
  obtains c where "vidx i (lev (Suc d)) = length ss - 1" "ss = butlast ss @ [SNode c]" "dense d c"
    "length (elems c) = Suc (i mod ncap d)"
    "length (elems (butlast ss)) = (length ss - 1) * ncap d"
proof -
  let ?j = "vidx i (lev (Suc d))" and ?i = "i mod ncap (Suc d)"
  have lt: "?i < length (elems ss)" using assms(2) by simp
  obtain c where c: "?j < length ss" "ss ! ?j = SNode c" "dense d c" "i mod ncap d < length (elems c)"
    using dense_child [OF assms(1) lt] by metis
  have u: "uniform (ncap d) (map slot_elems ss)" "map slot_elems ss \<noteq> []" using assms(1) by auto
  define m where "m = length (slot_elems (last ss))"
  have L: "length (elems ss) = (length ss - 1) * ncap d + m"
    using uniform_length [OF u] assms(1) by (simp add: elems_def last_map m_def)
  have m: "0 < m" "m \<le> ncap d"
    using uniform_last [OF u] assms(1) by (simp_all add: last_map m_def)
  obtain k where k: "m = Suc k" using m(1) by (cases m) auto
  have i: "?i = k + (length ss - 1) * ncap d"
    using L assms(2) k by linarith
  then have j: "?j = length ss - 1"
    unfolding vidx_split(1) using m k by simp
  then have last: "last ss = SNode c"
    using c(1,2) by (metis last_conv_nth list.size(3) not_less_zero)
  then have ss: "ss = butlast ss @ [SNode c]"
    using assms(1) by (metis append_butlast_last_id dense.simps(2))
  have "i mod ncap d = ?i mod ncap d" by (simp only: vidx_split(2))
  also have "\<dots> = k" using i m k by simp
  finally have lc: "length (elems c) = Suc (i mod ncap d)" using k last by (simp add: m_def)
  have "elems ss = elems (butlast ss) @ elems c"
    by (subst ss) simp
  then have "length (elems (butlast ss)) = (length ss - 1) * ncap d"
    using L last by (simp add: m_def)
  then show ?thesis using that j ss c(3) lc by blast
qed

lemma leafArray_dense:
  "dense d ss \<Longrightarrow> length (elems ss) = Suc (i mod ncap d) \<Longrightarrow>
    leafArray (lev d) ss i = Some (drop (length (elems ss) - 32) (elems ss))"
proof (induction d arbitrary: ss)
  case 0
  then obtain xs where xs: "ss = map SVal xs" "length xs = 32" by (auto simp: dense_leaf simp del: dense.simps)
  have "all_values (map SVal xs) = Some xs" for xs :: "'a list" by (induction xs) auto
  with xs show ?case by (subst leafArray.simps) simp
next
  case (Suc d)
  obtain c where c: "vidx i (lev (Suc d)) = length ss - 1" "ss = butlast ss @ [SNode c]" "dense d c"
    "length (elems c) = Suc (i mod ncap d)"
    using dense_last_child [OF Suc.prems] by metis
  have e: "elems ss = elems (butlast ss) @ elems c"
    by (subst c(2)) simp
  have "ss ! (length ss - 1) = SNode c" "ss \<noteq> []"
    by (subst c(2), simp add: nth_append) (use c(2) in auto)
  then have "leafArray (lev (Suc d)) ss i = leafArray (lev d) c i"
    by (subst leafArray.simps) (simp add: nth_opt_def c(1))
  moreover have "32 \<le> length (elems c)" using dense_size [OF c(3)] by (auto dest: dvd_imp_le)
  ultimately show ?case using Suc.IH [OF c(3,4)] e by simp
qed

lemma dense_single: "dense d c \<Longrightarrow> dense (Suc d) [SNode c]"
  using dense_size [of d c] by (auto simp del: length_greater_0_conv)

lemma newPath_dense: "length ts = 32 \<Longrightarrow> dense d (newPath (lev d) ts) \<and> elems (newPath (lev d) ts) = ts"
proof (induction d)
  case 0
  moreover have "newPath (lev 0) ts = map SVal ts" by (subst newPath.simps) simp
  ultimately show ?case by (simp del: dense.simps)
next
  case (Suc d)
  have "newPath (lev (Suc d)) ts = [SNode (newPath (lev d) ts)]"
    by (subst newPath.simps) simp
  with Suc dense_single [of d "newPath (lev d) ts"] show ?case by (simp del: dense.simps)
qed

text \<open>A child is appended where all children are full; the rightmost child is replaced or dropped.\<close>

lemma dense_snoc:
  assumes "dense (Suc d) ss \<or> ss = []" "ncap d dvd length (elems ss)"
    "length (elems ss) < ncap (Suc d)" "dense d c"
  shows "dense (Suc d) (ss @ [SNode c])" "length (elems ss) = length ss * ncap d"
proof -
  have u: "uniform (ncap d) (map slot_elems ss)" using assms(1) by auto
  have c: "elems c \<noteq> []" "length (elems c) \<le> ncap d" using dense_size [OF assms(4)] by auto
  show L: "length (elems ss) = length ss * ncap d"
  proof (cases "ss = []")
    case False
    define m where "m = length (slot_elems (last ss))"
    have len: "length (elems ss) = (length ss - 1) * ncap d + m"
      using uniform_length [OF u] False by (simp add: elems_def last_map m_def)
    have m: "0 < m" "m \<le> ncap d" using uniform_last [OF u] False by (simp_all add: last_map m_def)
    have "ncap d dvd m" using assms(2) len by (simp add: dvd_add_right_iff)
    with m have "m = ncap d" by (auto dest: dvd_imp_le)
    with len False show ?thesis by (cases ss) auto
  qed simp
  have "uniform (ncap d) (map slot_elems ss @ [elems c])"
    using u assms(2) c by (intro uniform_snoc) (simp_all add: elems_def del: length_concat)
  moreover have "length ss < 32" using L assms(3) by simp
  ultimately show "dense (Suc d) (ss @ [SNode c])" using assms(1,4) by auto
qed

lemma dense_replace_last:
  assumes "dense (Suc d) (xs @ [SNode c])" "dense d c'"
  shows "dense (Suc d) (xs @ [SNode c'])"
proof -
  have "uniform (ncap d) (butlast (map slot_elems (xs @ [SNode c])) @ [elems c'])"
    using assms(1) dense_size [OF assms(2)] by (intro uniform_butlast_snoc) auto
  with assms show ?thesis by auto
qed

lemma dense_butlast: "dense (Suc d) ss \<Longrightarrow> 2 \<le> length ss \<Longrightarrow> dense (Suc d) (butlast ss)"
  using uniform_take [of "ncap d" "map slot_elems ss" "length ss - 1"]
  by (auto simp: butlast_conv_take simp flip: take_map dest: in_set_takeD)

lemma pushTail_dense:
  assumes "length ts = 32"
  shows "dense (Suc d) ss \<or> ss = [] \<and> d = 0 \<Longrightarrow> length (elems ss) = t mod ncap (Suc d) \<Longrightarrow>
    \<exists>ss'. pushTail (lev (Suc d)) ss t ts = Some ss' \<and> dense (Suc d) ss' \<and>
      elems ss' = elems ss @ ts \<and> length ss \<le> length ss'"
proof (induction d arbitrary: ss)
  case 0
  have "pushTail (lev (Suc 0)) ss t ts = Some (ss @ [SNode (map SVal ts)])"
    by (subst pushTail.simps) simp
  moreover have "32 dvd length (elems ss)" using 0(1) dense_size [of "Suc 0" ss] by auto
  moreover have "length (elems ss) < ncap (Suc 0)" using 0(2) by simp
  ultimately show ?case
    using dense_snoc(1) [of 0 ss "map SVal ts"] 0(1) assms by (auto simp del: dense.simps)
next
  case (Suc d)
  let ?n = "ncap (Suc d)" and ?L = "length (elems ss)" and ?j = "vidx t (lev (Suc (Suc d)))"
  have ds: "dense (Suc (Suc d)) ss" using Suc.prems(1) by simp
  have j: "?j = ?L div ?n" by (simp only: vidx_split(1) Suc.prems(2))
  have tm: "t mod ?n = ?L mod ?n" by (metis vidx_split(2) Suc.prems(2))
  have lt: "?L < ncap (Suc (Suc d))" using Suc.prems(2) by (simp del: ncap_simps(3))
  show ?case
  proof (cases "?n dvd ?L")
    case True
    note path = newPath_dense [OF assms, of "Suc d"]
    note snoc = dense_snoc [OF disjI1 [OF ds] True lt conjunct1 [OF path]]
    have "?j = length ss" unfolding j snoc(2) by (rule nonzero_mult_div_cancel_right) (simp del: ncap_simps(3))
    then have "pushTail (lev (Suc (Suc d))) ss t ts = Some (ss @ [SNode (newPath (lev (Suc d)) ts)])"
      by (subst pushTail.simps) simp
    with snoc(1) path show ?thesis by (simp del: dense.simps)
  next
    case False
    have u: "uniform ?n (map slot_elems ss)" "map slot_elems ss \<noteq> []" using ds by auto
    define m where "m = length (slot_elems (last ss))"
    have len: "?L = m + (length ss - 1) * ?n"
      using uniform_length [OF u] ds by (simp add: elems_def last_map m_def)
    have m: "0 < m" "m \<le> ?n" using uniform_last [OF u] ds by (simp_all add: last_map m_def)
    have "m \<noteq> ?n" using False len by auto
    with m have "m < ?n" by simp
    then have jl: "?j = length ss - 1" and tl: "t mod ?n = m"
      unfolding j tm len by (simp_all del: ncap_simps(3) One_nat_def)
    have ne: "ss \<noteq> []" using ds by simp
    then obtain c where c: "ss = butlast ss @ [SNode c]" "dense (Suc d) c"
    proof -
      have "last ss \<in> set ss" using ne by simp
      then have "case last ss of SNode n \<Rightarrow> dense (Suc d) n | SVal v \<Rightarrow> False"
        using ds unfolding dense.simps(2) [of "Suc d"] by blast
      then obtain n where n: "last ss = SNode n" "dense (Suc d) n" by (cases "last ss") auto
      then have "ss = butlast ss @ [SNode n]" using append_butlast_last_id [OF ne] by simp
      with n(2) show ?thesis using that by blast
    qed
    have lc: "length (elems c) = m" unfolding m_def by (subst c(1)) simp
    obtain c' where c': "pushTail (lev (Suc d)) c t ts = Some c'" "dense (Suc d) c'"
      "elems c' = elems c @ ts"
        using Suc.IH [OF disjI1 [OF c(2)]] lc tl by metis
    have "ss ! ?j = SNode c" unfolding jl using c(1) ne by (metis last_conv_nth last_snoc)
    then have "pushTail (lev (Suc (Suc d))) ss t ts = Some (ss[?j := SNode c'])"
      using c'(1) ne by (subst pushTail.simps) (simp add: jl nth_opt_def)
    moreover have "ss[?j := SNode c'] = butlast ss @ [SNode c']"
      unfolding jl using ne by (metis butlast_list_update append_butlast_last_id last_list_update
        length_list_update list_update_nonempty)
    moreover have "dense (Suc (Suc d)) (butlast ss @ [SNode c'])"
      using dense_replace_last [of "Suc d" "butlast ss" c c'] ds c c'(2) by metis
    moreover have "elems ss = elems (butlast ss) @ elems c" by (subst c(1)) simp
    ultimately show ?thesis using c'(3) by (simp del: dense.simps)
  qed
qed

lemma popTail_dense:
  assumes "dense (Suc d) ss" "length (elems ss) = Suc (i mod ncap (Suc d))"
  shows "\<exists>r. popTail (lev (Suc d)) ss i = Some r \<and>
    (case r of None \<Rightarrow> length (elems ss) = 32
     | Some ss' \<Rightarrow> dense (Suc d) ss' \<and> elems ss' = take (length (elems ss) - 32) (elems ss) \<and>
         (ss' = butlast ss \<and> 2 \<le> length ss \<or> length ss' = length ss))"
  using assms
proof (induction d arbitrary: ss)
  case 0
  obtain c where c: "vidx i (lev (Suc 0)) = length ss - 1" "ss = butlast ss @ [SNode c]" "dense 0 c"
    "length (elems (butlast ss)) = (length ss - 1) * ncap 0"
    using dense_last_child [OF 0] by metis
  have e: "elems ss = elems (butlast ss) @ elems c" by (subst c(2)) simp
  have lc: "length (elems c) = 32" using c(3) by (auto simp: dense_leaf simp del: dense.simps)
  have p: "popTail (lev (Suc 0)) ss i =
      Some (if length ss \<le> 1 then None else Some (butlast ss))"
    using c(2) by (subst popTail.simps) (auto simp: c(1) butlast_conv_take)
  show ?case
  proof (cases "length ss \<le> 1")
    case True
    then show ?thesis using p e lc c(4) by simp
  next
    case False
    then show ?thesis using p e lc dense_butlast [OF 0(1)] by (simp del: dense.simps)
  qed
next
  case (Suc d)
  obtain c where c: "vidx i (lev (Suc (Suc d))) = length ss - 1" "ss = butlast ss @ [SNode c]"
    "dense (Suc d) c" "length (elems c) = Suc (i mod ncap (Suc d))"
    "length (elems (butlast ss)) = (length ss - 1) * ncap (Suc d)"
    using dense_last_child [OF Suc.prems] by metis
  have e: "elems ss = elems (butlast ss) @ elems c" by (subst c(2)) simp
  have ne: "ss \<noteq> []" using c(2) by auto
  then have nth: "ss ! (length ss - 1) = SNode c" using c(2) by (metis last_conv_nth last_snoc)
  obtain r where r: "popTail (lev (Suc d)) c i = Some r"
    "case r of None \<Rightarrow> length (elems c) = 32
     | Some c' \<Rightarrow> dense (Suc d) c' \<and> elems c' = take (length (elems c) - 32) (elems c) \<and>
         (c' = butlast c \<and> 2 \<le> length c \<or> length c' = length c)"
    using Suc.IH [OF c(3,4)] by blast
  have ge: "32 \<le> length (elems c)" using dense_size [OF c(3)] by (auto dest: dvd_imp_le)
  have p: "popTail (lev (Suc (Suc d))) ss i =
      (if r = None \<and> length ss - 1 = 0 then Some None
       else Some (Some (case r of None \<Rightarrow> butlast ss | Some c' \<Rightarrow> ss[length ss - 1 := SNode c'])))"
    using ne nth r(1) by (subst popTail.simps)
      (auto simp: c(1) nth_opt_def butlast_conv_take split: option.splits)
  show ?case
  proof (cases r)
    case None
    show ?thesis
    proof (cases "length ss - 1 = 0")
      case True
      then show ?thesis using p None r(2) e c(5) by simp
    next
      case False
      then show ?thesis
        using p None r(2) e dense_butlast [OF Suc.prems(1)] by (simp del: dense.simps)
    qed
  next
    case (Some c')
    have s: "ss[length ss - 1 := SNode c'] = butlast ss @ [SNode c']"
      using ne by (metis butlast_list_update append_butlast_last_id last_list_update
        length_list_update list_update_nonempty)
    have "dense (Suc (Suc d)) (butlast ss @ [SNode c'])"
      using dense_replace_last [of "Suc d" "butlast ss" c c'] Suc.prems(1) c(2) r(2) Some by auto
    moreover have "length (butlast ss @ [SNode c']) = length ss" using ne by simp
    ultimately show ?thesis
      using p Some r(2) e s ge by (simp del: dense.simps length_butlast)
  qed
qed

section \<open>Vectors\<close>

definition pv_list :: "'v pvec \<Rightarrow> 'v list" where
  "pv_list v = elems (pv_root v) @ pv_tail v"

text \<open>
  The invariant: the trie is dense, its height is the least that holds it, the
  offset of the tail counts the values in the trie.
\<close>

definition pv_inv :: "'v pvec \<Rightarrow> bool" where
  "pv_inv v = (let d = pv_shift v div 5 - 1 in
     pv_shift v = lev (Suc d) \<and>
     (pv_root v = [] \<and> d = 0 \<or> dense (Suc d) (pv_root v) \<and> (0 < d \<longrightarrow> 2 \<le> length (pv_root v))) \<and>
     pv_tailOff v = length (elems (pv_root v)) \<and>
     length (pv_tail v) \<le> 32 \<and>
     pv_count v = pv_tailOff v + length (pv_tail v))"

lemma pv_invE:
  assumes "pv_inv v"
  obtains d where "pv_shift v = lev (Suc d)"
    "pv_root v = [] \<and> d = 0 \<or> dense (Suc d) (pv_root v)"
    "0 < d \<longrightarrow> 2 \<le> length (pv_root v)"
    "pv_tailOff v = length (elems (pv_root v))" "length (pv_tail v) \<le> 32"
    "pv_count v = pv_tailOff v + length (pv_tail v)" "pv_tailOff v \<le> ncap (Suc d)"
    "32 dvd pv_tailOff v"
proof -
  let ?d = "pv_shift v div 5 - 1"
  have "length (elems (pv_root v)) \<le> ncap (Suc ?d) \<and> 32 dvd length (elems (pv_root v))"
    using assms dense_size [of "Suc ?d" "pv_root v"] by (auto simp: pv_inv_def Let_def simp del: dense.simps)
  then show ?thesis
    using assms that [of ?d] by (auto simp: pv_inv_def Let_def simp del: dense.simps)
qed

lemma pv_invI:
  assumes "pv_shift v = lev (Suc d)"
    "pv_root v = [] \<and> d = 0 \<or> dense (Suc d) (pv_root v)"
    "0 < d \<longrightarrow> 2 \<le> length (pv_root v)"
    "pv_tailOff v = length (elems (pv_root v))" "length (pv_tail v) \<le> 32"
    "pv_count v = pv_tailOff v + length (pv_tail v)"
  shows "pv_inv v"
proof -
  have "pv_shift v div 5 - 1 = d" using assms(1) by (simp add: lev_def)
  with assms show ?thesis by (auto simp: pv_inv_def simp del: dense.simps)
qed

lemma pv_count_list: "pv_inv v \<Longrightarrow> pv_count v = length (pv_list v)"
  by (auto simp: pv_list_def elim: pv_invE)

lemma pv_Empty_inv [simp]: "pv_inv (pv_Empty v)" "pv_list (pv_Empty v) = []"
  by (rule pv_invI [where d = 0]) (auto simp: pv_Empty_def pv_list_def lev_def vshift_def)

lemma pv_Conj_correct:
  assumes "pv_inv v"
  shows "\<exists>v'. pv_Conj v x = Some v' \<and> pv_inv v' \<and> pv_list v' = pv_list v @ [x] \<and> pv_meta v' = pv_meta v"
proof -
  obtain d where d: "pv_shift v = lev (Suc d)"
    "pv_root v = [] \<and> d = 0 \<or> dense (Suc d) (pv_root v)"
    "0 < d \<longrightarrow> 2 \<le> length (pv_root v)"
    "pv_tailOff v = length (elems (pv_root v))" "length (pv_tail v) \<le> 32"
    "pv_count v = pv_tailOff v + length (pv_tail v)" "pv_tailOff v \<le> ncap (Suc d)"
    "32 dvd pv_tailOff v"
    using assms by (rule pv_invE)
  consider (empty) "pv_count v = 0" | (room) "pv_count v \<noteq> 0" "length (pv_tail v) < 32"
    | (grow) "pv_count v \<noteq> 0" "length (pv_tail v) = 32" "pv_tailOff v = ncap (Suc d)"
    | (push) "pv_count v \<noteq> 0" "length (pv_tail v) = 32" "pv_tailOff v < ncap (Suc d)"
    using d(5,7) by linarith
  then show ?thesis
  proof cases
    case empty
    then have "pv_list v = []" using pv_count_list [OF assms] by simp
    with empty show ?thesis
      by (auto simp: pv_Conj_def pv_list_def lev_def vshift_def intro!: pv_invI [where d = 0])
  next
    case room
    with d show ?thesis
      by (auto simp: pv_Conj_def pv_list_def nodeCap_def intro!: pv_invI [where d = d] simp del: dense.simps)
  next
    case grow
    have over: "2 ^ pv_shift v \<le> drop_bit vshift (pv_tailOff v)"
      by (simp add: d(1) grow(3) drop_bit_eq_div vshift_def two_pow_lev)
    have root: "dense (Suc d) (pv_root v)" using d(2,4) grow(3) by (auto simp del: dense.simps)
    note path = newPath_dense [OF grow(2), of "Suc d"]
    have "length (elems (pv_root v)) = ncap (Suc d)" using d(4) grow(3) by metis
    moreover have "ncap (Suc d) < ncap (Suc (Suc d))"
      using ncap_simps(2) [of "Suc d"] unfolding ncap_simps(3) [of "Suc d"] by linarith
    ultimately have "dense (Suc (Suc d)) [SNode (pv_root v), SNode (newPath (lev (Suc d)) (pv_tail v))]"
      using dense_snoc(1) [of "Suc d" "[SNode (pv_root v)]" "newPath (lev (Suc d)) (pv_tail v)"]
        dense_single [OF root] path by (simp del: dense.simps ncap_simps(3))
    then show ?thesis using over d path grow
      by (auto simp: pv_Conj_def pv_list_def nodeCap_def intro!: pv_invI [where d = "Suc d"] simp del: dense.simps)
  next
    case push
    have no: "\<not> 2 ^ pv_shift v \<le> drop_bit vshift (pv_tailOff v)"
    proof -
      have "2 ^ pv_shift v = ncap d" by (simp add: d(1) two_pow_lev)
      moreover have "drop_bit vshift (pv_tailOff v) < ncap d"
        using push(3) by (simp add: drop_bit_eq_div vshift_def less_mult_imp_div_less mult.commute)
      ultimately show ?thesis by simp
    qed
    obtain ss' where ss': "pushTail (lev (Suc d)) (pv_root v) (pv_tailOff v) (pv_tail v) = Some ss'"
      "dense (Suc d) ss'" "elems ss' = elems (pv_root v) @ pv_tail v" "length (pv_root v) \<le> length ss'"
      using pushTail_dense [OF push(2), of d "pv_root v" "pv_tailOff v"] d(2,4) push(3)
      by (auto simp del: dense.simps ncap_simps(3))
    then show ?thesis using no d push
      by (auto simp: pv_Conj_def pv_list_def nodeCap_def intro!: pv_invI [where d = d] simp del: dense.simps)
  qed
qed

text \<open>Dropping the last leaf of the trie.\<close>

lemma pop_leaf:
  assumes root: "dense (Suc d) n" and i: "i = length (elems n) - 1"
  shows "leafArray (lev (Suc d)) n i = Some (drop (length (elems n) - 32) (elems n))"
    and "\<exists>r. popTail (lev (Suc d)) n i = Some r \<and>
      (let m = (case r of None \<Rightarrow> [] | Some m \<Rightarrow> m) in
        (m = [] \<and> length (elems n) = 32 \<or> dense (Suc d) m) \<and>
        elems m = take (length (elems n) - 32) (elems n) \<and>
        (m = butlast n \<or> m = [] \<or> length m = length n))"
proof -
  have L: "0 < length (elems n)" "length (elems n) \<le> ncap (Suc d)"
    using dense_size [OF root] by simp_all
  then have "i < ncap (Suc d)" using i by linarith
  then have im: "length (elems n) = Suc (i mod ncap (Suc d))"
    using i L(1) by (simp del: ncap_simps(3))
  show "leafArray (lev (Suc d)) n i = Some (drop (length (elems n) - 32) (elems n))"
    by (rule leafArray_dense [OF root im])
  show "\<exists>r. popTail (lev (Suc d)) n i = Some r \<and>
      (let m = (case r of None \<Rightarrow> [] | Some m \<Rightarrow> m) in
        (m = [] \<and> length (elems n) = 32 \<or> dense (Suc d) m) \<and>
        elems m = take (length (elems n) - 32) (elems n) \<and>
        (m = butlast n \<or> m = [] \<or> length m = length n))"
    using popTail_dense [OF root im] by (auto simp: Let_def split: option.splits simp del: dense.simps)
qed

text \<open>A node with at least two children holds more than one of them; a full one has 32 children.\<close>

lemma dense_two_children:
  assumes "dense (Suc d) n" "2 \<le> length n"
  shows "ncap d < length (elems n)"
proof -
  have u: "uniform (ncap d) (map slot_elems n)" "map slot_elems n \<noteq> []" using assms(1) by auto
  have "1 * ncap d \<le> (length n - 1) * ncap d" using assms(2) by (intro mult_le_mono1) simp
  then show ?thesis
    using uniform_length [OF u] uniform_last [OF u] unfolding elems_def length_map by linarith
qed

lemma dense_full_children:
  assumes "dense (Suc d) n" "length (elems n) = ncap (Suc d)"
  shows "2 \<le> length n"
proof (rule ccontr)
  assume "\<not> 2 \<le> length n"
  then have "length n * ncap d \<le> 1 * ncap d" by (intro mult_le_mono1) simp
  moreover have "length (elems n) \<le> length n * ncap d"
    using uniform_length_bounds(2) [of "ncap d" "map slot_elems n"] assms(1) by (simp add: elems_def)
  ultimately show False using assms(2) ncap_simps(2) [of d] by simp
qed

text \<open>The root after a pop, collapsed where one child is left, keeps the least height.\<close>

lemma pop_collapse:
  assumes root: "dense (Suc d) n" and two: "0 < d \<longrightarrow> 2 \<le> length n"
    and m: "m = [] \<and> length (elems n) = 32 \<or> dense (Suc d) m" "m = butlast n \<or> m = [] \<or> length m = length n"
  shows "if 0 < d \<and> length m = 1
    then \<exists>c. m = [SNode c] \<and> dense d c \<and> 2 \<le> length c
    else m = [] \<and> d = 0 \<or> dense (Suc d) m \<and> (0 < d \<longrightarrow> 2 \<le> length m)"
proof (cases "0 < d \<and> length m = 1")
  case True
  then obtain d' where d': "d = Suc d'" by (cases d) auto
  have "m = butlast n" "length n = 2" using True two m(2) by auto
  then obtain a b where ab: "n = [a, b]" "m = [a]"
    by (cases n; cases "tl n") auto
  then obtain c where c: "a = SNode c" "dense (Suc d') c" "length (elems c) = ncap (Suc d')"
    using root by (cases a) (auto simp: d' elems_def)
  then show ?thesis using True ab dense_full_children [OF c(2,3)] by (simp add: d' del: dense.simps)
next
  case False
  have "d = 0" if "m = []"
  proof (rule ccontr)
    assume "d \<noteq> 0"
    then obtain d' where d': "d = Suc d'" by (cases d) auto
    with two have "ncap (Suc d') < length (elems n)" using dense_two_children [OF root] by simp
    moreover have "length (elems n) = 32" using that m(1) by auto
    ultimately show False using ncap_simps(2) [of d'] by simp
  qed
  moreover have "2 \<le> length m" if "m \<noteq> []" "0 < d"
    using that False by (cases m) (auto simp: Suc_le_eq)
  ultimately show ?thesis using False m(1) by (auto simp del: dense.simps)
qed

lemma pv_Pop_trie:
  assumes "pv_inv v" "1 < pv_count v" "\<not> 1 < length (pv_tail v)"
  shows "\<exists>v'. pv_Pop v = Some v' \<and> pv_inv v' \<and> pv_list v' = butlast (pv_list v) \<and> pv_meta v' = pv_meta v"
proof -
  obtain d where d: "pv_shift v = lev (Suc d)"
    "pv_root v = [] \<and> d = 0 \<or> dense (Suc d) (pv_root v)"
    "0 < d \<longrightarrow> 2 \<le> length (pv_root v)"
    "pv_tailOff v = length (elems (pv_root v))" "pv_count v = pv_tailOff v + length (pv_tail v)"
    using assms(1) by (rule pv_invE)
  let ?es = "elems (pv_root v)" and ?i = "pv_count v - 1 - length (pv_tail v)"
  have root: "dense (Suc d) (pv_root v)" using assms(2,3) d(2,4,5) by (auto simp del: dense.simps)
  have L32: "32 \<le> length ?es" using dense_size [OF root] by (auto dest: dvd_imp_le)
  have i: "?i = length ?es - 1" using d(4,5) by simp
  obtain r where r: "popTail (lev (Suc d)) (pv_root v) ?i = Some r"
    and "let m = (case r of None \<Rightarrow> [] | Some m \<Rightarrow> m) in
        (m = [] \<and> length ?es = 32 \<or> dense (Suc d) m) \<and>
        elems m = take (length ?es - 32) ?es \<and>
        (m = butlast (pv_root v) \<or> m = [] \<or> length m = length (pv_root v))"
    using pop_leaf(2) [OF root i] by blast
  then obtain m where m: "m = (case r of None \<Rightarrow> [] | Some m \<Rightarrow> m)"
    "m = [] \<and> length ?es = 32 \<or> dense (Suc d) m" "elems m = take (length ?es - 32) ?es"
    "m = butlast (pv_root v) \<or> m = [] \<or> length m = length (pv_root v)"
    by (metis (no_types, lifting))
  define leaf where "leaf = drop (length ?es - 32) ?es"
  define newTail where "newTail = (if pv_tail v = [] then butlast leaf else leaf)"
  have ll: "length leaf = 32" "leaf \<noteq> []" using L32 by (auto simp: leaf_def)
  have es: "?es = elems m @ leaf" by (simp add: m(3) leaf_def)
  have lst: "elems m @ newTail = butlast (pv_list v)"
    using assms(3) ll(2) by (cases "pv_tail v") (auto simp: pv_list_def newTail_def es butlast_append)
  have len: "length newTail \<le> 32" "pv_count v - 1 = length (elems m) + length newTail"
    using ll assms(3) d(4,5) arg_cong [OF es, of length]
    by (cases "pv_tail v"; auto simp: newTail_def)+
  note norm = pop_collapse [OF root d(3) m(2,4)]
  have pop: "pv_Pop v = pv_popped v m newTail"
    using assms(2,3) pop_leaf(1) [OF root i] r ll(2) unfolding pv_Pop_def
    by (simp add: d(1) m(1) newTail_def leaf_def)
  show ?thesis
  proof (cases "0 < d \<and> length m = 1")
    case True
    then obtain c d' where c: "m = [SNode c]" "dense (Suc d') c" "2 \<le> length c" "d = Suc d'"
      using norm by (cases d) auto
    then show ?thesis using lst len d(1) unfolding pop pv_popped_def
      by (auto simp: pv_list_def intro!: pv_invI [where d = d'] simp del: dense.simps)
  next
    case False
    then show ?thesis using norm lst len d(1) unfolding pop pv_popped_def
      by (auto simp: pv_list_def intro!: pv_invI [where d = d] simp del: dense.simps)
  qed
qed

lemma pv_Pop_correct:
  assumes "pv_inv v"
  shows "\<exists>v'. pv_Pop v = Some v' \<and> pv_inv v' \<and> pv_list v' = butlast (pv_list v) \<and> pv_meta v' = pv_meta v"
proof -
  consider (small) "pv_count v \<le> 1" | (tail) "1 < pv_count v" "1 < length (pv_tail v)"
    | (trie) "1 < pv_count v" "\<not> 1 < length (pv_tail v)" by linarith
  then show ?thesis
  proof cases
    case small
    then have "length (pv_list v) \<le> 1" using pv_count_list [OF assms] by simp
    then have "butlast (pv_list v) = []" by (cases "pv_list v") auto
    with small show ?thesis by (simp add: pv_Pop_def) (simp add: pv_Empty_def)
  next
    case tail
    obtain d where d: "pv_shift v = lev (Suc d)"
      "pv_root v = [] \<and> d = 0 \<or> dense (Suc d) (pv_root v)"
      "0 < d \<longrightarrow> 2 \<le> length (pv_root v)"
      "pv_tailOff v = length (elems (pv_root v))" "length (pv_tail v) \<le> 32"
      "pv_count v = pv_tailOff v + length (pv_tail v)"
      using assms by (rule pv_invE)
    have "pv_tail v \<noteq> []" using tail by auto
    with tail d show ?thesis
      by (auto simp: pv_Pop_def pv_list_def butlast_append intro!: pv_invI [where d = d] simp del: dense.simps)
  qed (rule pv_Pop_trie [OF assms])
qed

text \<open>The index a key denotes.\<close>

definition key_index :: "val \<Rightarrow> nat option" where
  "key_index key = (case key of VInt k \<Rightarrow> if sint k < 0 then None else Some (nat (sint k)) | _ \<Rightarrow> None)"

lemma key_index_of_nat: "int i \<le> max_i64 \<Longrightarrow> key_index (VInt (word_of_int (int i))) = Some i"
proof -
  assume "int i \<le> max_i64"
  then have "sint (word_of_int (int i) :: i64) = int i"
    by (intro sint_word_of_int_in) (simp add: i64_bounds)
  then show ?thesis unfolding key_index_def val.case by (simp only:) simp
qed

lemma pv_ValueAtOr_correct:
  assumes "pv_inv v"
  shows "pv_ValueAtOr v key dflt = Some (case key_index key of
    Some i \<Rightarrow> if i < length (pv_list v) then pv_list v ! i else dflt | None \<Rightarrow> dflt)"
proof -
  obtain d where d: "pv_shift v = lev (Suc d)"
    "pv_root v = [] \<and> d = 0 \<or> dense (Suc d) (pv_root v)"
    "pv_tailOff v = length (elems (pv_root v))" "pv_count v = pv_tailOff v + length (pv_tail v)"
    "pv_tailOff v \<le> ncap (Suc d)"
    using assms by (rule pv_invE)
  have trie: "lookupNode (pv_shift v) (pv_root v) i dflt = elems (pv_root v) ! i" if "i < pv_tailOff v" for i
  proof -
    have "dense (Suc d) (pv_root v)" using that d(2,3) by auto
    moreover have "i mod ncap (Suc d) = i" using that d(5) by (simp del: ncap_simps(3))
    ultimately show ?thesis using lookupNode_dense [of "Suc d" "pv_root v" i] that d(1,3) by simp
  qed
  show ?thesis
    using d(3,4) trie
    by (auto simp: pv_ValueAtOr_def key_index_def Let_def pv_list_def nth_append split: val.splits)
qed

lemma pv_Contains_correct:
  "pv_inv v \<Longrightarrow> pv_Contains v key \<longleftrightarrow> (case key_index key of Some i \<Rightarrow> i < length (pv_list v) | None \<Rightarrow> False)"
  by (auto simp: pv_Contains_def key_index_def pv_count_list split: val.splits)

lemma pv_Assoc_correct:
  assumes "pv_inv v"
  shows "case key_index key of
      Some i \<Rightarrow>
        if i \<le> length (pv_list v)
        then \<exists>v'. pv_Assoc v key x = Some (Some v') \<and> pv_inv v' \<and>
          pv_list v' = (if i = length (pv_list v) then pv_list v @ [x] else (pv_list v)[i := x])
        else pv_Assoc v key x = Some None
    | None \<Rightarrow> pv_Assoc v key x = Some None"
proof (cases "key_index key")
  case None
  then show ?thesis by (auto simp: pv_Assoc_def key_index_def Let_def split: val.splits if_splits)
next
  case (Some i)
  then obtain k where k: "key = VInt k" "\<not> sint k < 0" "nat (sint k) = i"
    by (auto simp: key_index_def split: val.splits if_splits)
  obtain d where d: "pv_shift v = lev (Suc d)"
    "pv_root v = [] \<and> d = 0 \<or> dense (Suc d) (pv_root v)"
    "0 < d \<longrightarrow> 2 \<le> length (pv_root v)"
    "pv_tailOff v = length (elems (pv_root v))" "length (pv_tail v) \<le> 32"
    "pv_count v = pv_tailOff v + length (pv_tail v)" "pv_tailOff v \<le> ncap (Suc d)"
    using assms by (rule pv_invE)
  have cnt: "pv_count v = length (pv_list v)" using assms by (rule pv_count_list)
  consider "pv_count v < i" | "i = pv_count v" | "i < pv_count v" "pv_tailOff v \<le> i" | "i < pv_tailOff v"
    by linarith
  then show ?thesis
  proof cases
    case 1
    with k Some cnt show ?thesis by (simp add: pv_Assoc_def)
  next
    case 2
    with k Some cnt pv_Conj_correct [OF assms, of x] show ?thesis by (auto simp: pv_Assoc_def)
  next
    case 3
    with k d have "pv_Assoc v key x = Some (Some (v\<lparr>pv_tail := (pv_tail v)[i - pv_tailOff v := x]\<rparr>))"
      by (simp add: pv_Assoc_def Let_def)
    with 3 Some cnt d show ?thesis
      by (auto simp: pv_list_def list_update_append intro!: pv_invI [where d = d] simp del: dense.simps)
  next
    case 4
    have root: "dense (Suc d) (pv_root v)" using 4 d(2,4) by auto
    have "i mod ncap (Suc d) = i" using 4 d(7) by (simp del: ncap_simps(3))
    then obtain r where r: "doAssoc (pv_root v) (pv_shift v) i x = Some r" "dense (Suc d) r"
      "elems r = (elems (pv_root v))[i := x]" "length r = length (pv_root v)"
      using doAssoc_dense [OF root, of i x] 4 d(1,4) by (auto simp del: dense.simps)
    with 4 k d have "pv_Assoc v key x = Some (Some (v\<lparr>pv_root := r\<rparr>))"
      by (simp add: pv_Assoc_def Let_def)
    with 4 Some cnt d r show ?thesis
      by (auto simp: pv_list_def list_update_append intro!: pv_invI [where d = d] simp del: dense.simps)
  qed
qed

section \<open>Building a vector from a list\<close>

text \<open>Grouping the nodes of a level in chunks of 32 gives the nodes of the next level.\<close>

lemma uniform_group:
  assumes "uniform n (map f xs)" "0 < n"
  shows "uniform (32 * n) (map (\<lambda>ys. concat (map f ys)) (chunks 32 xs))"
  using assms(1)
proof (induction "32 :: nat" xs rule: chunks.induct)
  case (1 xs)
  show ?case
  proof (cases "xs = []")
    case False
    let ?a = "take 32 xs" and ?b = "drop 32 xs"
    have u: "uniform n (map f ?a)" "uniform n (map f ?b)"
      using uniform_append [of n "map f ?a" "map f ?b"] 1(2) by (simp_all flip: map_append)
    have ih: "uniform (32 * n) (map (\<lambda>ys. concat (map f ys)) (chunks 32 ?b))"
      using 1 False u(2) by simp
    have a: "map f ?a \<noteq> []" using False by simp
    have "length ?a * n \<le> 32 * n" by (intro mult_le_mono1) simp
    then have len: "0 < length (concat (map f ?a))" "length (concat (map f ?a)) \<le> 32 * n"
      using uniform_length_bounds [OF u(1) a] unfolding length_map by linarith+
    have full: "length (concat (map f ?a)) = 32 * n" if "chunks 32 ?b \<noteq> []"
    proof -
      have "32 < length xs" using that by (cases "length xs \<le> 32") auto
      then show ?thesis
        using length_concat_take_uniform [OF 1(2), of 32] by (simp add: take_map)
    qed
    have "chunks 32 xs = ?a # chunks 32 ?b" using False by (subst chunks.simps) simp
    then show ?thesis using ih len full by (auto intro!: uniform_ConsI)
  qed simp
qed

lemma chunks_nonempty: "0 < n \<Longrightarrow> ys \<in> set (chunks n xs) \<Longrightarrow> ys \<noteq> [] \<and> length ys \<le> n \<and> set ys \<subseteq> set xs"
proof (induction n xs rule: chunks.induct)
  case (1 n xs)
  show ?case
  proof (cases "xs = []")
    case False
    with 1 show ?thesis
      by (auto simp: chunks_step dest: in_set_takeD in_set_dropD)
  qed (use 1 in simp)
qed

lemma chunks_infix: "0 < n \<Longrightarrow> ys \<in> set (chunks n xs) \<Longrightarrow> \<exists>as bs. xs = as @ ys @ bs"
proof (induction n xs rule: chunks.induct)
  case (1 n xs)
  show ?case
  proof (cases "xs = []")
    case False
    then have "ys = take n xs \<or> ys \<in> set (chunks n (drop n xs))"
      using 1(2,3) by (simp add: chunks_step)
    then show ?thesis
    proof
      assume "ys = take n xs"
      then show ?thesis by (metis append_Nil append_take_drop_id)
    next
      assume "ys \<in> set (chunks n (drop n xs))"
      then obtain as bs where "drop n xs = as @ ys @ bs" using 1 False by auto
      then show ?thesis by (metis append_assoc append_take_drop_id)
    qed
  qed (use 1 in simp)
qed

lemma groupLevels_correct:
  "\<lbrakk>\<forall>n \<in> set level. dense d n; uniform (ncap d) (map elems level); level \<noteq> [];
    groupLevels level (lev (Suc d)) = (tops, s)\<rbrakk> \<Longrightarrow>
    \<exists>d'. s = lev (Suc d') \<and> dense (Suc d') (map SNode tops) \<and>
      concat (map elems tops) = concat (map elems level) \<and> (d' = d \<and> tops = level \<or> 2 \<le> length tops)"
proof (induction level "lev (Suc d)" arbitrary: d rule: groupLevels.induct)
  case (1 level)
  have slots: "map slot_elems (map SNode ns) = map elems ns" for ns :: "'a vnode list" by simp
  show ?case
  proof (cases "nodeCap < length level")
    case False
    then have "tops = level" "s = lev (Suc d)" using 1(5) by (subst (asm) groupLevels.simps, simp)+
    moreover have "dense (Suc d) (map SNode level)"
      using 1(2-4) False unfolding dense.simps slots by (auto simp: nodeCap_def)
    ultimately show ?thesis by (auto simp: simp del: dense.simps)
  next
    case True
    define parents :: "'a vnode list" where "parents = map (map SNode) (chunks nodeCap level)"
    have g: "groupLevels parents (lev (Suc (Suc d))) = (tops, s)"
      using 1(5) True by (subst (asm) groupLevels.simps) (simp add: parents_def)
    have el: "map elems parents = map (\<lambda>ys. concat (map elems ys)) (chunks 32 level)"
      by (simp add: parents_def nodeCap_def elems_SNode comp_def)
    have u: "uniform (ncap (Suc d)) (map elems parents)"
      unfolding el ncap_simps(3) using 1(3) by (rule uniform_group) simp
    have dn: "dense (Suc d) n" if n: "n \<in> set parents" for n
    proof -
      obtain ys where ys: "ys \<in> set (chunks 32 level)" "n = map SNode ys"
        using n by (auto simp: parents_def nodeCap_def)
      then obtain as bs where ab: "level = as @ ys @ bs" using chunks_infix [of 32] by fastforce
      have "uniform (ncap d) (map elems as @ map elems ys @ map elems bs)"
        using 1(3) unfolding ab by simp
      then have "uniform (ncap d) (map elems ys)"
        using uniform_append by blast
      moreover have "ys \<noteq> []" "length ys \<le> 32" using chunks_nonempty [of 32] ys(1) by auto
      ultimately show ?thesis
        using 1(2) ab unfolding ys(2) dense.simps slots by auto
    qed
    have "2 \<le> (length level + 31) div 32" using True div_le_mono [of 64 "length level + 31" 32] by (simp add: nodeCap_def)
    then have len: "2 \<le> length parents" by (simp add: parents_def nodeCap_def length_chunks)
    then have "parents \<noteq> []" by auto
    then obtain d' where d': "s = lev (Suc d')" "dense (Suc d') (map SNode tops)"
      "concat (map elems tops) = concat (map elems parents)" "d' = Suc d \<and> tops = parents \<or> 2 \<le> length tops"
      using 1(1) [OF True lev_simps(6), folded parents_def, OF ballI [OF dn] u _ g] by blast
    have "concat (map elems parents) = concat (map elems level)"
      unfolding el using chunks_concat [of 32 level] by (simp add: concat_map_concat)
    then show ?thesis using d' len by (auto simp del: dense.simps)
  qed
qed

lemma NewPersistentVector_correct: "pv_inv (NewPersistentVector vs) \<and> pv_list (NewPersistentVector vs) = vs"
proof -
  define treeSize where "treeSize = length vs - length vs mod 32"
  have ts: "treeSize = 32 * (length vs div 32)" unfolding treeSize_def by (simp add: minus_mod_eq_mult_div)
  show ?thesis
  proof (cases "treeSize = 0")
    case True
    then have "length vs mod 32 = length vs" by (simp add: treeSize_def)
    then have "length vs < 32" by (metis mod_less_divisor zero_less_numeral)
    with True show ?thesis
      by (auto simp: NewPersistentVector_def nodeCap_def pv_list_def vshift_def lev_def
        intro!: pv_invI [where d = 0])
  next
    case False
    define leaves where "leaves = map (map SVal) (chunks 32 (take treeSize vs))"
    obtain tops s where g: "groupLevels leaves (lev (Suc 0)) = (tops, s)" by fastforce
    have tl: "length (take treeSize vs) = treeSize" by (simp add: treeSize_def)
    then have ne: "leaves \<noteq> []" using False by (auto simp: leaves_def chunks.simps)
    have el: "map elems leaves = chunks 32 (take treeSize vs)" by (simp add: leaves_def comp_def)
    have all32: "length ys = 32" if "ys \<in> set (chunks 32 (take treeSize vs))" for ys
      using chunks_all_full [of 32 "take treeSize vs" ys] that tl ts by simp
    have "\<exists>d'. s = lev (Suc d') \<and> dense (Suc d') (map SNode tops) \<and>
      concat (map elems tops) = concat (map elems leaves) \<and> (d' = 0 \<and> tops = leaves \<or> 2 \<le> length tops)"
    proof (rule groupLevels_correct [OF _ _ ne g])
      show "\<forall>n \<in> set leaves. dense 0 n" using all32 by (auto simp: leaves_def)
      show "uniform (ncap 0) (map elems leaves)" unfolding el by (simp add: chunks_uniform)
    qed
    then obtain d where d: "s = lev (Suc d)" "dense (Suc d) (map SNode tops)"
      "concat (map elems tops) = take treeSize vs" "d = 0 \<or> 2 \<le> length tops"
      by (auto simp: el chunks_concat)
    have v: "NewPersistentVector vs = \<lparr>pv_count = length vs, pv_shift = s, pv_root = map SNode tops,
        pv_tail = drop treeSize vs, pv_tailOff = treeSize, pv_meta = None\<rparr>"
      using False g unfolding NewPersistentVector_def leaves_def
      by (auto simp: nodeCap_def treeSize_def Let_def vshift_def lev_def)
    have "length (drop treeSize vs) \<le> 32" by (simp add: treeSize_def le_imp_less_Suc less_imp_le)
    then show ?thesis unfolding v
      using d tl by (auto simp: pv_list_def elems_SNode intro!: pv_invI [where d = d] simp del: dense.simps)
  qed
qed

end
