(* ===== verification/LG_ArrayVector.thy ===== *)
theory LG_ArrayVector
  imports LG_Vector
begin

text \<open>
  The vector values of the runtime: the array vector of \<open>pkg/vm/vector.go\<close>, which
  becomes a persistent vector beyond 32 elements, its chunked sequence view, and the
  transient vector of \<open>pkg/vm/transient.go\<close>, which is frozen into one of the two.

  \<open>indexed_vector\<close> is the contract of a vector, an indexed sequence seen through the
  list of its elements; it is interpreted on the persistent vector and on the vector
  values, and the facts on building a vector by conjoining follow from it alone.
\<close>

section \<open>The contract\<close>

locale indexed_vector =
  fixes inv :: "'s \<Rightarrow> bool"
    and lst :: "'s \<Rightarrow> 'v list"
    and get :: "'s \<Rightarrow> val \<Rightarrow> 'v \<Rightarrow> 'v option"
    and conj :: "'s \<Rightarrow> 'v \<Rightarrow> 's option"
    and assoc :: "'s \<Rightarrow> val \<Rightarrow> 'v \<Rightarrow> 's option option"
  assumes get: "inv s \<Longrightarrow> get s key d = Some (case key_index key of
      Some i \<Rightarrow> if i < length (lst s) then lst s ! i else d | None \<Rightarrow> d)"
    and conj: "inv s \<Longrightarrow> \<exists>s'. conj s x = Some s' \<and> inv s' \<and> lst s' = lst s @ [x]"
    and assoc: "inv s \<Longrightarrow> (case key_index key of
      Some i \<Rightarrow>
        if i \<le> length (lst s)
        then \<exists>s'. assoc s key x = Some (Some s') \<and> inv s' \<and>
          lst s' = (if i = length (lst s) then lst s @ [x] else (lst s)[i := x])
        else assoc s key x = Some None
      | None \<Rightarrow> assoc s key x = Some None)"
begin

text \<open>Conjoining a list of elements, one after the other.\<close>

fun conj_all :: "'s \<Rightarrow> 'v list \<Rightarrow> 's option" where
  "conj_all s [] = Some s"
| "conj_all s (x # xs) = (case conj s x of None \<Rightarrow> None | Some s' \<Rightarrow> conj_all s' xs)"

lemma conj_all: "inv s \<Longrightarrow> \<exists>s'. conj_all s xs = Some s' \<and> inv s' \<and> lst s' = lst s @ xs"
proof (induction xs arbitrary: s)
  case (Cons x xs)
  obtain s1 where "conj s x = Some s1" "inv s1" "lst s1 = lst s @ [x]"
    using conj [OF Cons.prems] by blast
  with Cons.IH [of s1] show ?case by auto
qed simp

lemma get_assoc:
  assumes "inv s" "assoc s key x = Some (Some s')" "key_index key = Some i"
  shows "get s' key d = Some x"
  using assoc [OF assms(1), of key x] assms get [of s' key d] by (auto split: if_splits)

lemma get_assoc_other:
  assumes "inv s" "assoc s key x = Some (Some s')" "key_index key = Some i" "key_index k = Some j"
    "i \<noteq> j"
  shows "get s' k d = get s k d"
  using assoc [OF assms(1), of key x] assms get [of s' k d] get [of s k d]
  by (auto simp: nth_append split: if_splits)

end

lemma pv_Conj_appends:
  "pv_inv v \<Longrightarrow> \<exists>v'. pv_Conj v x = Some v' \<and> pv_inv v' \<and> pv_list v' = pv_list v @ [x]"
  using pv_Conj_correct [of v x] by auto

interpretation pv: indexed_vector pv_inv pv_list pv_ValueAtOr pv_Conj pv_Assoc
  by unfold_locales (fact pv_ValueAtOr_correct, fact pv_Conj_appends, fact pv_Assoc_correct)

section \<open>Vector values\<close>

datatype 'v vec = AVec "'v list" | PVec "'v pvec"

definition arrayVectorPromotionThreshold :: nat where
  "arrayVectorPromotionThreshold = 32"

definition av_Conj :: "'v list \<Rightarrow> 'v \<Rightarrow> 'v vec" where
  "av_Conj l val =
     (let newLen = length l + 1 in
      if arrayVectorPromotionThreshold < newLen then PVec (NewPersistentVector (l @ [val]))
      else AVec (l @ [val]))"

definition av_WithMeta :: "'v list \<Rightarrow> 'v \<Rightarrow> 'v vec" where
  "av_WithMeta l m = PVec ((NewPersistentVector l)\<lparr>pv_meta := Some m\<rparr>)"

definition av_ValueAtOr :: "'v list \<Rightarrow> val \<Rightarrow> 'v \<Rightarrow> 'v" where
  "av_ValueAtOr l key dflt = (case key of
     VInt k \<Rightarrow> if sint k < 0 \<or> length l \<le> nat (sint k) then dflt else l ! nat (sint k)
   | _ \<Rightarrow> dflt)"

definition av_Contains :: "'v list \<Rightarrow> val \<Rightarrow> bool" where
  "av_Contains l key = (case key of
     VInt k \<Rightarrow> \<not> (sint k < 0 \<or> length l \<le> nat (sint k)) | _ \<Rightarrow> False)"

text \<open>\<open>None\<close> is Go's \<open>NIL\<close>.\<close>

definition av_Assoc :: "'v list \<Rightarrow> val \<Rightarrow> 'v \<Rightarrow> 'v vec option" where
  "av_Assoc l key v = (case key of
     VInt k \<Rightarrow>
       if sint k < 0 \<or> length l < nat (sint k) then None
       else if nat (sint k) = length l then Some (av_Conj l v)
       else Some (AVec (l[nat (sint k) := v]))
   | _ \<Rightarrow> None)"

definition av_Invoke :: "'v list \<Rightarrow> val list \<Rightarrow> (vec_err, 'v) outcome" where
  "av_Invoke l args = (case args of
     [VInt k] \<Rightarrow>
       if sint k < 0 \<or> int (length l) \<le> sint k then Err (EVecBounds (sint k))
       else Ok (l ! nat (sint k))
   | [_] \<Rightarrow> Err EVecKey
   | _ \<Rightarrow> Err (EVecArity (length args)))"

fun vec_Conj :: "'v vec \<Rightarrow> 'v \<Rightarrow> 'v vec option" where
  "vec_Conj (AVec l) x = Some (av_Conj l x)"
| "vec_Conj (PVec v) x = map_option PVec (pv_Conj v x)"

fun vec_ValueAtOr :: "'v vec \<Rightarrow> val \<Rightarrow> 'v \<Rightarrow> 'v option" where
  "vec_ValueAtOr (AVec l) k d = Some (av_ValueAtOr l k d)"
| "vec_ValueAtOr (PVec v) k d = pv_ValueAtOr v k d"

fun vec_Assoc :: "'v vec \<Rightarrow> val \<Rightarrow> 'v \<Rightarrow> 'v vec option option" where
  "vec_Assoc (AVec l) k x = Some (av_Assoc l k x)"
| "vec_Assoc (PVec v) k x = map_option (map_option PVec) (pv_Assoc v k x)"

fun vec_inv :: "'v vec \<Rightarrow> bool" where
  "vec_inv (AVec l) = True"
| "vec_inv (PVec v) = pv_inv v"

fun vec_list :: "'v vec \<Rightarrow> 'v list" where
  "vec_list (AVec l) = l"
| "vec_list (PVec v) = pv_list v"

lemma av_Conj_correct [simp]: "vec_inv (av_Conj l x)" "vec_list (av_Conj l x) = l @ [x]"
  using NewPersistentVector_correct [of "l @ [x]"] by (auto simp: av_Conj_def Let_def)

lemma vec_ValueAtOr_correct:
  "vec_inv v \<Longrightarrow> vec_ValueAtOr v key d = Some (case key_index key of
      Some i \<Rightarrow> if i < length (vec_list v) then vec_list v ! i else d | None \<Rightarrow> d)"
  by (cases v) (auto simp: pv_ValueAtOr_correct av_ValueAtOr_def key_index_def split: val.splits)

lemma vec_Conj_correct: "vec_inv v \<Longrightarrow> \<exists>v'. vec_Conj v x = Some v' \<and> vec_inv v' \<and> vec_list v' = vec_list v @ [x]"
proof (cases v)
  case (PVec p)
  assume "vec_inv v"
  with PVec obtain q where "pv_Conj p x = Some q" "pv_inv q" "pv_list q = pv_list p @ [x]"
    using pv.conj [of p x] by auto
  with PVec show ?thesis by simp
qed simp

lemma vec_Assoc_correct:
  assumes "vec_inv v"
  shows "case key_index key of
      Some i \<Rightarrow>
        if i \<le> length (vec_list v)
        then \<exists>v'. vec_Assoc v key x = Some (Some v') \<and> vec_inv v' \<and>
          vec_list v' = (if i = length (vec_list v) then vec_list v @ [x] else (vec_list v)[i := x])
        else vec_Assoc v key x = Some None
      | None \<Rightarrow> vec_Assoc v key x = Some None"
proof (cases v)
  case (AVec l)
  then show ?thesis
    by (auto simp: av_Assoc_def key_index_def split: val.splits option.splits)
next
  case (PVec p)
  with assms have inv: "pv_inv p" by simp
  show ?thesis
    using pv.assoc [OF inv, of key x] PVec by (auto split: option.splits if_splits)
qed

interpretation vv: indexed_vector vec_inv vec_list vec_ValueAtOr vec_Conj vec_Assoc
  by unfold_locales (fact vec_ValueAtOr_correct, fact vec_Conj_correct, fact vec_Assoc_correct)

section \<open>Chunked sequences over an array vector\<close>

record 'v aseq =
  as_vec :: "'v list"
  as_i :: nat
  as_chunkLen :: nat

definition SeqFrom :: "'v list \<Rightarrow> nat \<Rightarrow> 'v aseq option" where
  "SeqFrom l i = (if length l \<le> i then None else Some \<lparr>as_vec = l, as_i = i, as_chunkLen = 0\<rparr>)"

definition as_First :: "'v \<Rightarrow> 'v aseq \<Rightarrow> 'v" where
  "as_First nil s = (if length (as_vec s) \<le> as_i s then nil else as_vec s ! as_i s)"

definition as_Next :: "'v aseq \<Rightarrow> 'v aseq option" where
  "as_Next s = (if length (as_vec s) \<le> as_i s + 1 then None
     else Some \<lparr>as_vec = as_vec s, as_i = as_i s + 1, as_chunkLen = 0\<rparr>)"

definition curChunkLen :: "'v aseq \<Rightarrow> nat" where
  "curChunkLen s = (if as_chunkLen s < 1 then 1 else as_chunkLen s)"

text \<open>The window \<open>[off, end)\<close> of the vector that \<open>ChunkedFirst\<close> returns, as its elements.\<close>

definition ChunkedFirst :: "'v aseq \<Rightarrow> 'v list" where
  "ChunkedFirst s = (let e = as_i s + curChunkLen s; e' = (if length (as_vec s) < e then length (as_vec s) else e)
     in drop (as_i s) (take e' (as_vec s)))"

definition ChunkedNext :: "'v aseq \<Rightarrow> 'v aseq option" where
  "ChunkedNext s = (let cl = curChunkLen s; nxt = as_i s + cl in
     if length (as_vec s) \<le> nxt then None
     else Some \<lparr>as_vec = as_vec s, as_i = nxt, as_chunkLen = cl * 2\<rparr>)"

text \<open>A consumer that walks the sequence by elements, and one that walks it by chunks.\<close>

function walk :: "'v \<Rightarrow> 'v aseq \<Rightarrow> 'v list" where
  "walk nil s = as_First nil s # (case as_Next s of None \<Rightarrow> [] | Some s' \<Rightarrow> walk nil s')"
  by pat_completeness auto

termination
  by (relation "measure (\<lambda>(n, s). length (as_vec s) - as_i s)") (auto simp: as_Next_def split: if_splits)

function walk_chunks :: "'v aseq \<Rightarrow> 'v list" where
  "walk_chunks s = ChunkedFirst s @ (case ChunkedNext s of None \<Rightarrow> [] | Some s' \<Rightarrow> walk_chunks s')"
  by pat_completeness auto

termination
  by (relation "measure (\<lambda>s. length (as_vec s) - as_i s)")
    (auto simp: ChunkedNext_def curChunkLen_def Let_def split: if_splits)

declare walk.simps [simp del] walk_chunks.simps [simp del]

lemma walk_drop: "as_i s < length (as_vec s) \<Longrightarrow> walk nil s = drop (as_i s) (as_vec s)"
proof (induction nil s rule: walk.induct)
  case (1 nil s)
  have "drop (as_i s) (as_vec s) = as_vec s ! as_i s # drop (Suc (as_i s)) (as_vec s)"
    using 1(2) by (rule Cons_nth_drop_Suc [symmetric])
  with 1 show ?case
    by (subst walk.simps) (auto simp: as_First_def as_Next_def)
qed

lemma walk_chunks_drop: "as_i s \<le> length (as_vec s) \<Longrightarrow> walk_chunks s = drop (as_i s) (as_vec s)"
proof (induction s rule: walk_chunks.induct)
  case (1 s)
  let ?n = "as_i s + curChunkLen s"
  show ?case
  proof (cases "length (as_vec s) \<le> ?n")
    case True
    then show ?thesis
      by (subst walk_chunks.simps) (auto simp: ChunkedFirst_def ChunkedNext_def Let_def)
  next
    case False
    have "walk_chunks \<lparr>as_vec = as_vec s, as_i = ?n, as_chunkLen = curChunkLen s * 2\<rparr> = drop ?n (as_vec s)"
      using 1(1) False by (simp add: ChunkedNext_def Let_def)
    moreover have "drop (as_i s) (as_vec s) = drop (as_i s) (take ?n (as_vec s)) @ drop ?n (as_vec s)"
      by (metis append_take_drop_id drop_drop drop_take add.commute add_diff_cancel_left')
    ultimately show ?thesis using False
      by (subst walk_chunks.simps) (simp add: ChunkedFirst_def ChunkedNext_def Let_def)
  qed
qed

section \<open>The transient vector\<close>

record 'v tvec =
  tv_edit :: bool
  tv_array :: "'v list"

datatype tvec_err = ETransientUsed | ETransientKey | ETransientBounds int | ETransientEmpty

definition NewTransientVector :: "'v list \<Rightarrow> 'v tvec" where
  "NewTransientVector v = \<lparr>tv_edit = True, tv_array = v\<rparr>"

definition NewTransientVectorOfNils :: "'v \<Rightarrow> nat \<Rightarrow> 'v tvec" where
  "NewTransientVectorOfNils nil n = \<lparr>tv_edit = True, tv_array = replicate n nil\<rparr>"

definition tv_editable :: "'v tvec \<Rightarrow> (tvec_err, unit) outcome" where
  "tv_editable t = (if \<not> tv_edit t then Err ETransientUsed else Ok ())"

definition tv_Conj :: "'v tvec \<Rightarrow> 'v \<Rightarrow> (tvec_err, 'v tvec) outcome" where
  "tv_Conj t v = obind (tv_editable t) (\<lambda>_. Ok (t\<lparr>tv_array := tv_array t @ [v]\<rparr>))"

definition tv_Assoc :: "'v tvec \<Rightarrow> val \<Rightarrow> 'v \<Rightarrow> (tvec_err, 'v tvec) outcome" where
  "tv_Assoc t key v = obind (tv_editable t) (\<lambda>_. case key of
     VInt k \<Rightarrow>
       if sint k < 0 \<or> int (length (tv_array t)) < sint k then Err (ETransientBounds (sint k))
       else if nat (sint k) = length (tv_array t) then Ok (t\<lparr>tv_array := tv_array t @ [v]\<rparr>)
       else Ok (t\<lparr>tv_array := (tv_array t)[nat (sint k) := v]\<rparr>)
   | _ \<Rightarrow> Err ETransientKey)"

definition tv_Pop :: "'v tvec \<Rightarrow> (tvec_err, 'v tvec) outcome" where
  "tv_Pop t = obind (tv_editable t) (\<lambda>_.
     if length (tv_array t) = 0 then Err ETransientEmpty
     else Ok (t\<lparr>tv_array := butlast (tv_array t)\<rparr>))"

text \<open>Freezing clears the flag, so it returns the transient's new state too.\<close>

definition tv_Persistent :: "'v tvec \<Rightarrow> (tvec_err, 'v vec \<times> 'v tvec) outcome" where
  "tv_Persistent t = obind (tv_editable t) (\<lambda>_.
     let t' = t\<lparr>tv_edit := False\<rparr> in
     if length (tv_array t) \<le> arrayVectorPromotionThreshold then Ok (AVec (tv_array t), t')
     else Ok (PVec (NewPersistentVector (tv_array t)), t'))"

definition tv_ValueAtOr :: "'v tvec \<Rightarrow> val \<Rightarrow> 'v \<Rightarrow> 'v" where
  "tv_ValueAtOr t key d = (case key of
     VInt k \<Rightarrow> if sint k < 0 \<or> length (tv_array t) \<le> nat (sint k) then d else tv_array t ! nat (sint k)
   | _ \<Rightarrow> d)"

definition tv_Contains :: "'v tvec \<Rightarrow> val \<Rightarrow> bool" where
  "tv_Contains t key = (case key of
     VInt k \<Rightarrow> 0 \<le> sint k \<and> nat (sint k) < length (tv_array t) | _ \<Rightarrow> False)"

definition tv_Invoke :: "'v tvec \<Rightarrow> val list \<Rightarrow> (vec_err, 'v) outcome" where
  "tv_Invoke t args = (case args of
     [VInt k] \<Rightarrow>
       if sint k < 0 \<or> int (length (tv_array t)) \<le> sint k then Err (EVecBounds (sint k))
       else Ok (tv_array t ! nat (sint k))
   | [_] \<Rightarrow> Err EVecKey
   | _ \<Rightarrow> Err (EVecArity (length args)))"

text \<open>A sequence of edits, and what it does to the persistent vector it stands for.\<close>

datatype 'v tv_op = TConj 'v | TAssoc val 'v | TPop

fun tv_step :: "'v tvec \<Rightarrow> 'v tv_op \<Rightarrow> (tvec_err, 'v tvec) outcome" where
  "tv_step t (TConj v) = tv_Conj t v"
| "tv_step t (TAssoc k v) = tv_Assoc t k v"
| "tv_step t TPop = tv_Pop t"

fun tv_run :: "'v tvec \<Rightarrow> 'v tv_op list \<Rightarrow> (tvec_err, 'v tvec) outcome" where
  "tv_run t [] = Ok t"
| "tv_run t (p # ps) = obind (tv_step t p) (\<lambda>t'. tv_run t' ps)"

fun pv_step :: "'v pvec \<Rightarrow> 'v tv_op \<Rightarrow> 'v pvec option" where
  "pv_step v (TConj x) = pv_Conj v x"
| "pv_step v (TAssoc k x) = (case pv_Assoc v k x of Some (Some v') \<Rightarrow> Some v' | _ \<Rightarrow> None)"
| "pv_step v TPop = pv_Pop v"

fun pv_run :: "'v pvec \<Rightarrow> 'v tv_op list \<Rightarrow> 'v pvec option" where
  "pv_run v [] = Some v"
| "pv_run v (p # ps) = (case pv_step v p of None \<Rightarrow> None | Some v' \<Rightarrow> pv_run v' ps)"

text \<open>Where the transient refuses an edit the persistent vector refuses it too, save the one case of
  \<open>Pop\<close> on no elements: an error of the transient, the empty vector of the persistent one.\<close>

definition refuses :: "'v pvec \<Rightarrow> 'v tv_op \<Rightarrow> tvec_err \<Rightarrow> bool" where
  "refuses v p e \<longleftrightarrow> (case p of
     TPop \<Rightarrow> e = ETransientEmpty \<and> pv_list v = [] \<and> (\<exists>v'. pv_Pop v = Some v' \<and> pv_list v' = [])
   | TAssoc k x \<Rightarrow> (e = ETransientKey \<or> (\<exists>i. e = ETransientBounds i)) \<and> pv_Assoc v k x = Some None
   | TConj x \<Rightarrow> False)"

lemma tv_step_refines:
  assumes "pv_inv v" "pv_list v = tv_array t" "tv_edit t"
  shows "case tv_step t p of
      Ok t' \<Rightarrow> \<exists>v'. pv_step v p = Some v' \<and> pv_inv v' \<and> pv_list v' = tv_array t' \<and> tv_edit t'
    | Err e \<Rightarrow> refuses v p e
    | Panic \<Rightarrow> False"
proof (cases p)
  case (TConj x)
  with assms pv.conj [of v x] show ?thesis by (auto simp: tv_Conj_def tv_editable_def)
next
  case (TAssoc k x)
  show ?thesis
  proof (cases "key_index k")
    case None
    with assms TAssoc pv.assoc [OF assms(1), of k x] show ?thesis
      by (auto simp: tv_Assoc_def tv_editable_def key_index_def refuses_def split: val.splits if_splits)
  next
    case (Some i)
    then obtain n where n: "k = VInt n" "\<not> sint n < 0" "nat (sint n) = i"
      by (auto simp: key_index_def split: val.splits if_splits)
    then have "int (length (tv_array t)) < sint n \<longleftrightarrow> length (tv_array t) < i" by auto
    with n assms Some TAssoc pv.assoc [OF assms(1), of k x] show ?thesis
      by (auto simp: tv_Assoc_def tv_editable_def refuses_def split: if_splits)
  qed
next
  case TPop
  with assms pv_Pop_correct [of v] show ?thesis
    by (auto simp: tv_Pop_def tv_editable_def refuses_def)
qed

lemma tv_run_refines:
  assumes "pv_inv v" "pv_list v = tv_array t" "tv_edit t"
  shows "case tv_run t ps of
      Ok t' \<Rightarrow> \<exists>v'. pv_run v ps = Some v' \<and> pv_inv v' \<and> pv_list v' = tv_array t' \<and> tv_edit t'
    | Err e \<Rightarrow> \<exists>qs p rs v'. ps = qs @ p # rs \<and> pv_run v qs = Some v' \<and> refuses v' p e
    | Panic \<Rightarrow> False"
  using assms
proof (induction ps arbitrary: v t)
  case (Cons p ps)
  note st = tv_step_refines [OF Cons.prems, of p]
  show ?case
  proof (cases "tv_step t p")
    case (Ok t')
    with st obtain v' where v': "pv_step v p = Some v'" "pv_inv v'" "pv_list v' = tv_array t'" "tv_edit t'"
      by auto
    have r: "pv_run v (p # qs) = pv_run v' qs" for qs using v'(1) by simp
    have t: "tv_run t (p # ps) = tv_run t' ps" using Ok by simp
    show ?thesis
    proof (cases "tv_run t' ps")
      case (Err e)
      then obtain qs q rs u where "ps = qs @ q # rs" "pv_run v' qs = Some u" "refuses u q e"
        using Cons.IH [OF v'(2-4)] by auto
      then have "p # ps = (p # qs) @ q # rs" "pv_run v (p # qs) = Some u" "refuses u q e" using r by simp_all
      then show ?thesis unfolding t Err by (simp only: outcome.case) blast
    qed (use Cons.IH [OF v'(2-4)] r t in auto)
  next
    case (Err e)
    then have "refuses v p e" "tv_run t (p # ps) = Err e" using st by simp_all
    moreover have "p # ps = [] @ p # ps" "pv_run v [] = Some v" by simp_all
    ultimately show ?thesis by (simp only: outcome.case) blast
  qed (use st in auto)
qed simp

lemma tv_Persistent_correct:
  "tv_edit t \<Longrightarrow> \<exists>v t'. tv_Persistent t = Ok (v, t') \<and> vec_inv v \<and> vec_list v = tv_array t \<and>
    (\<forall>p. tv_step t' p = Err ETransientUsed)"
proof -
  assume "tv_edit t"
  moreover have "tv_step (t\<lparr>tv_edit := False\<rparr>) p = Err ETransientUsed" for p
    by (cases p) (auto simp: tv_Conj_def tv_Assoc_def tv_Pop_def tv_editable_def)
  ultimately show ?thesis
    using NewPersistentVector_correct [of "tv_array t"]
    by (auto simp: tv_Persistent_def tv_editable_def Let_def)
qed

end
