(* ===== verification/LG_Seq.thy ===== *)
theory LG_Seq
  imports LG_Hash
begin

text \<open>
  Lists (\<open>pkg/vm/list.go\<close>), integer ranges (\<open>pkg/vm/range.go\<close>) and the persistent
  queue (\<open>pkg/vm/persistent_queue.go\<close>).

  \<open>seq_view\<close> is the contract of a sequence, read by \<open>First\<close> and \<open>Next\<close> until
  \<open>Next\<close> is nil; the loops over a sequence are proved once against it, and it is
  interpreted on lists and ranges. Go's \<open>int\<close> is a 64-bit word.
\<close>

section \<open>The contract of a sequence\<close>

locale seq_view =
  fixes inv :: "'s \<Rightarrow> bool"
    and lst :: "'s \<Rightarrow> 'v list"
    and first :: "'s \<Rightarrow> 'v"
    and nxt :: "'s \<Rightarrow> 's option"
  assumes nonempty: "inv s \<Longrightarrow> lst s \<noteq> []"
    and first: "inv s \<Longrightarrow> first s = hd (lst s)"
    and nxt_None: "inv s \<Longrightarrow> nxt s = None \<longleftrightarrow> tl (lst s) = []"
    and nxt_Some: "inv s \<Longrightarrow> nxt s = Some t \<Longrightarrow> inv t \<and> lst t = tl (lst s)"
begin

text \<open>\<open>for s := seq; s != nil; s = s.Next()\<close>, with a bound on the number of turns.\<close>

fun each_seq :: "nat \<Rightarrow> ('a \<Rightarrow> 'v \<Rightarrow> 'a) \<Rightarrow> 'a \<Rightarrow> 's option \<Rightarrow> 'a option" where
  "each_seq n f a None = Some a"
| "each_seq 0 f a (Some s) = None"
| "each_seq (Suc n) f a (Some s) = each_seq n f (f a (first s)) (nxt s)"

lemma each_seq: "inv s \<Longrightarrow> length (lst s) \<le> n \<Longrightarrow> each_seq n f a (Some s) = Some (foldl f a (lst s))"
proof (induction n arbitrary: a s)
  case 0
  then show ?case using nonempty by auto
next
  case (Suc n)
  obtain x xs where l: "lst s = x # xs" using nonempty [OF Suc.prems(1)] by (cases "lst s") auto
  show ?case
  proof (cases "nxt s")
    case None
    then have "xs = []" using nxt_None [OF Suc.prems(1)] l by simp
    then show ?thesis using None first [OF Suc.prems(1)] l by simp
  next
    case (Some t)
    then have "inv t" "lst t = xs" using nxt_Some [OF Suc.prems(1)] l by auto
    with Suc Some l show ?thesis using first [OF Suc.prems(1)] by simp
  qed
qed

end

section \<open>Lists\<close>

text \<open>A list node; the empty list is a node of count 0 without a first element.\<close>

datatype 'v glist = GList (l_first: "'v option") (l_next: "'v glist option") (l_count: nat) (l_meta: "'v option")

definition EmptyList :: "'v glist" where
  "EmptyList = GList None None 0 None"

definition l_Cons :: "'v glist \<Rightarrow> 'v \<Rightarrow> 'v glist" where
  "l_Cons l val = GList (Some val) (Some l) (l_count l + 1) (l_meta l)"

fun l_BoxLoop :: "'v list \<Rightarrow> nat \<Rightarrow> nat \<Rightarrow> 'v glist \<Rightarrow> 'v glist" where
  "l_BoxLoop arr n 0 ret = ret"
| "l_BoxLoop arr n (Suc k) ret = l_BoxLoop arr n k (l_Cons ret (arr ! (n - (n - Suc k) - 1)))"

text \<open>\<open>ListType.Box\<close> of a slice: the elements are consed from the last to the first.\<close>

definition l_Box :: "'v list \<Rightarrow> 'v glist" where
  "l_Box arr = (if length arr = 0 then EmptyList else l_BoxLoop arr (length arr) (length arr) EmptyList)"

definition l_First :: "'v \<Rightarrow> 'v glist \<Rightarrow> 'v option" where
  "l_First nil l = (if l_count l = 0 then Some nil else l_first l)"

definition l_Next :: "'v glist \<Rightarrow> 'v glist option" where
  "l_Next l = (if l_count l \<le> 1 then None else l_next l)"

definition l_More :: "'v glist \<Rightarrow> 'v glist option" where
  "l_More l = (if l_count l \<le> 1 then Some EmptyList else l_next l)"

definition l_WithMeta :: "'v glist \<Rightarrow> 'v \<Rightarrow> 'v glist" where
  "l_WithMeta l m = GList (l_first l) (l_next l) (l_count l) (Some m)"

definition l_Empty :: "'v glist \<Rightarrow> 'v glist" where
  "l_Empty l = (case l_meta l of None \<Rightarrow> EmptyList | Some m \<Rightarrow> l_WithMeta EmptyList m)"

text \<open>The loop of \<open>ValueAtOr\<close>: \<open>li = li.next\<close>, \<open>dflt\<close> if that is a nil pointer.\<close>

fun l_skip :: "nat \<Rightarrow> 'v glist \<Rightarrow> 'v glist option" where
  "l_skip 0 l = Some l"
| "l_skip (Suc n) l = (case l_next l of None \<Rightarrow> None | Some l' \<Rightarrow> l_skip n l')"

definition l_ValueAtOr :: "val glist \<Rightarrow> val \<Rightarrow> val \<Rightarrow> val" where
  "l_ValueAtOr l key dflt = (case key of
     VInt k \<Rightarrow>
       if sint k < 0 then dflt
       else (case l_skip (nat (sint k)) l of
         None \<Rightarrow> dflt
       | Some li \<Rightarrow> (case l_first li of None \<Rightarrow> VNil | Some v \<Rightarrow> v))
   | _ \<Rightarrow> dflt)"

fun l_unboxInternal :: "'v glist \<Rightarrow> 'v list \<Rightarrow> nat \<Rightarrow> 'v list option" where
  "l_unboxInternal (GList f n c m) target idx =
     (if c = 0 then Some target
      else case (f, n) of
        (Some v, Some l) \<Rightarrow> if idx < length target then l_unboxInternal l (target[idx := v]) (idx + 1) else None
      | _ \<Rightarrow> None)"

definition l_Unbox :: "'v \<Rightarrow> 'v glist \<Rightarrow> 'v list option" where
  "l_Unbox nil l = (if l_count l = 0 then Some [] else l_unboxInternal l (replicate (l_count l) nil) 0)"

text \<open>The elements, and the invariant: the counts decrease to an empty node.\<close>

fun l_list :: "'v glist \<Rightarrow> 'v list" where
  "l_list (GList (Some v) (Some l) c m) = v # l_list l"
| "l_list (GList _ _ c m) = []"

fun l_inv :: "'v glist \<Rightarrow> bool" where
  "l_inv (GList (Some v) (Some l) c m) = (c = l_count l + 1 \<and> l_inv l)"
| "l_inv (GList None None c m) = (c = 0)"
| "l_inv (GList _ _ c m) = False"

lemma l_count_length: "l_inv l \<Longrightarrow> l_count l = length (l_list l)"
  by (induction l rule: l_inv.induct) auto

lemma EmptyList_inv [simp]: "l_inv EmptyList" "l_list EmptyList = []"
  by (simp_all add: EmptyList_def)

lemma l_Cons_inv [simp]: "l_inv (l_Cons l x) = l_inv l" "l_list (l_Cons l x) = x # l_list l"
  by (simp_all add: l_Cons_def)

lemma l_BoxLoop_ok:
  "k \<le> n \<Longrightarrow> n = length arr \<Longrightarrow> l_inv ret \<Longrightarrow>
    l_inv (l_BoxLoop arr n k ret) \<and> l_list (l_BoxLoop arr n k ret) = take k arr @ l_list ret"
proof (induction arr n k ret rule: l_BoxLoop.induct)
  case (2 arr n k ret)
  then have "n - (n - Suc k) - 1 = k" "k < length arr" by auto
  with 2 show ?case by (simp add: take_Suc_conv_app_nth)
qed simp

lemma l_Box_ok: "l_inv (l_Box arr)" "l_list (l_Box arr) = arr"
  using l_BoxLoop_ok [of "length arr" "length arr" arr EmptyList] by (auto simp: l_Box_def)

lemma l_node:
  assumes "l_inv l" "l_list l \<noteq> []"
  obtains v l' where "l_first l = Some v" "l_next l = Some l'" "l_inv l'" "l_list l = v # l_list l'" "l_count l = l_count l' + 1"
  using assms by (cases l rule: l_inv.cases) auto

interpretation ls: seq_view "\<lambda>l. l_inv l \<and> l_list l \<noteq> []" l_list "\<lambda>l. the (l_First nil l)" l_Next for nil
proof
  fix l t :: "'a glist"
  assume l: "l_inv l \<and> l_list l \<noteq> []"
  show "l_list l \<noteq> []" using l by blast
  obtain v l' where n: "l_first l = Some v" "l_next l = Some l'" "l_inv l'" "l_list l = v # l_list l'"
    "l_count l = l_count l' + 1"
    using l l_node by metis
  show "the (l_First nil l) = hd (l_list l)" using n by (simp add: l_First_def)
  have c: "l_count l' = length (l_list l')" by (rule l_count_length [OF n(3)])
  show "l_Next l = None \<longleftrightarrow> tl (l_list l) = []" using n c by (simp add: l_Next_def)
  show "l_Next l = Some t \<Longrightarrow> (l_inv t \<and> l_list t \<noteq> []) \<and> l_list t = tl (l_list l)"
    using n c by (auto simp: l_Next_def split: if_splits)
qed

lemma l_unboxInternal_ok:
  "l_inv l \<Longrightarrow> idx + length (l_list l) = length target \<Longrightarrow>
    l_unboxInternal l target idx = Some (take idx target @ l_list l)"
proof (induction l arbitrary: target idx rule: l_inv.induct)
  case (1 v l c m)
  then have "l_unboxInternal l (target[idx := v]) (Suc idx) = Some (take (Suc idx) (target[idx := v]) @ l_list l)"
    by auto
  moreover have "take (Suc idx) (target[idx := v]) = take idx target @ [v]"
    using 1(3) by (simp add: take_Suc_conv_app_nth)
  ultimately show ?case using 1 by simp
qed auto

lemma l_Unbox_ok: "l_inv l \<Longrightarrow> l_Unbox nil l = Some (l_list l)"
  using l_unboxInternal_ok [of l 0 "replicate (l_count l) nil"] l_count_length [of l] by (auto simp: l_Unbox_def)

lemma l_skip_ok:
  "l_inv l \<Longrightarrow> (case l_skip i l of
     None \<Rightarrow> length (l_list l) < i
   | Some t \<Rightarrow> i \<le> length (l_list l) \<and> l_inv t \<and> l_list t = drop i (l_list l))"
proof (induction i arbitrary: l)
  case (Suc i)
  show ?case
  proof (cases "l_list l = []")
    case True
    with Suc.prems have "l_next l = None" by (cases l rule: l_inv.cases) auto
    with True show ?thesis by simp
  next
    case False
    then obtain v l' where n: "l_next l = Some l'" "l_inv l'" "l_list l = v # l_list l'"
      using l_node [OF Suc.prems] by metis
    show ?thesis using Suc.IH [OF n(2)] n by (auto split: option.splits)
  qed
qed simp

text \<open>Within the list the element comes back. At the first index past its end the answer is nil, not the default.\<close>

lemma l_ValueAtOr_ok:
  assumes "l_inv l"
  shows "l_ValueAtOr l (VInt k) d =
    (if sint k < 0 then d
     else if nat (sint k) < length (l_list l) then l_list l ! nat (sint k)
     else if nat (sint k) = length (l_list l) then VNil
     else d)"
proof (cases "sint k < 0")
  case False
  let ?i = "nat (sint k)"
  note s = l_skip_ok [OF assms, of ?i]
  show ?thesis
  proof (cases "l_skip ?i l")
    case None
    with s False show ?thesis by (simp add: l_ValueAtOr_def)
  next
    case (Some t)
    with s have t: "?i \<le> length (l_list l)" "l_inv t" "l_list t = drop ?i (l_list l)" by auto
    have "l_first t = (if ?i < length (l_list l) then Some (l_list l ! ?i) else None)"
    proof (cases "?i < length (l_list l)")
      case True
      then have "l_list t \<noteq> []" using t(3) by simp
      then obtain v where "l_first t = Some v" "hd (l_list t) = v" using l_node [OF t(2)] by (metis list.sel(1))
      with True t(3) show ?thesis by (simp add: hd_drop_conv_nth)
    next
      case False
      then have "l_list t = []" using t(3) by simp
      with t(2) have "l_first t = None" by (cases t rule: l_inv.cases) auto
      with False show ?thesis by simp
    qed
    with False Some t(1) show ?thesis by (simp add: l_ValueAtOr_def)
  qed
qed (simp add: l_ValueAtOr_def)

section \<open>Ranges\<close>

record range =
  r_start :: "64 word"
  r_end :: "64 word"
  r_step :: "64 word"

definition r_inBounds :: "range \<Rightarrow> 64 word \<Rightarrow> bool" where
  "r_inBounds l v = (if 0 < sint (r_step l) then sint v < sint (r_end l) else sint (r_end l) < sint v)"

definition r_First :: "range \<Rightarrow> val" where
  "r_First l = VInt (r_start l)"

definition r_Next :: "range \<Rightarrow> range option" where
  "r_Next l = (let nexts = r_start l + r_step l in
     if r_inBounds l nexts then Some (l\<lparr>r_start := nexts\<rparr>) else None)"

definition r_RawCount :: "range \<Rightarrow> 64 word" where
  "r_RawCount l = (let diff = r_end l - r_start l in
     if r_step l = 1 \<or> r_step l = - 1 then (if sint diff < 0 then - diff else diff)
     else if 0 < sint (r_step l) then i64_quo (diff + r_step l - 1) (r_step l)
     else i64_quo (diff + r_step l + 1) (r_step l))"

definition r_Seq :: "range \<Rightarrow> range option" where
  "r_Seq l = (if r_RawCount l = 0 then None else Some l)"

definition r_ValueAtOr :: "range \<Rightarrow> val \<Rightarrow> val \<Rightarrow> val" where
  "r_ValueAtOr l key dflt = (case key of
     VInt idx \<Rightarrow> if sint idx < 0 \<or> sint (r_RawCount l) \<le> sint idx then dflt
       else VInt (r_start l + idx * r_step l)
   | _ \<Rightarrow> dflt)"

text \<open>\<open>None\<close> is the empty list.\<close>

definition NewRange :: "64 word \<Rightarrow> 64 word \<Rightarrow> 64 word \<Rightarrow> range option" where
  "NewRange s e st =
     (if st = 0 then None
      else if 0 < sint st \<and> sint s < sint e then Some \<lparr>r_start = s, r_end = e, r_step = st\<rparr>
      else if sint st < 0 \<and> sint e < sint s then Some \<lparr>r_start = s, r_end = e, r_step = st\<rparr>
      else None)"

text \<open>The number of elements, and the elements, over the integers.\<close>

definition steps :: "int \<Rightarrow> int \<Rightarrow> nat" where
  "steps d u = nat ((d + u - 1) div u)"

definition range_size :: "range \<Rightarrow> nat" where
  "range_size l = (let s = sint (r_start l); e = sint (r_end l); st = sint (r_step l) in
     if 0 < st then steps (e - s) st else steps (s - e) (- st))"

definition r_list :: "range \<Rightarrow> val list" where
  "r_list l = map (\<lambda>i. VInt (r_start l + of_nat i * r_step l)) [0..<range_size l]"

text \<open>The range has an element, and no sum of the loop leaves the 64-bit integers.\<close>

definition r_inv :: "range \<Rightarrow> bool" where
  "r_inv l \<longleftrightarrow> (let s = sint (r_start l); e = sint (r_end l); st = sint (r_step l) in
     (0 < st \<and> s < e \<or> st < 0 \<and> e < s) \<and> in_i64 (e + st) \<and> in_i64 (e - s + st))"

lemma steps_1: "0 < d \<Longrightarrow> d \<le> u \<Longrightarrow> steps d u = Suc 0"
proof -
  assume "0 < d" "d \<le> u"
  then have "(d - 1 + 1 * u) div u = 1 + (d - 1) div u" "(d - 1) div u = 0"
    by (simp_all only: div_mult_self1) (auto intro: div_pos_pos_trivial)
  then show ?thesis by (simp add: steps_def algebra_simps)
qed

lemma steps_Suc: "0 < u \<Longrightarrow> u < d \<Longrightarrow> steps d u = Suc (steps (d - u) u)"
proof -
  assume "0 < u" "u < d"
  then have "(d - u + u - 1 + 1 * u) div u = 1 + (d - u + u - 1) div u" "0 \<le> (d - u + u - 1) div u"
    by (simp_all only: div_mult_self1) (auto simp: pos_imp_zdiv_nonneg_iff)
  then show ?thesis by (simp add: steps_def algebra_simps nat_add_distrib)
qed

lemma r_step_signs: "r_inv l \<Longrightarrow> 0 < sint (r_step l) \<and> sint (r_start l) < sint (r_end l) \<or>
    sint (r_step l) < 0 \<and> sint (r_end l) < sint (r_start l)"
  by (auto simp: r_inv_def Let_def)

lemma r_nexts:
  assumes "r_inv l"
  shows "sint (r_start l + r_step l) = sint (r_start l) + sint (r_step l)"
  using assms in_i64_sint [of "r_start l"] in_i64_sint [of "r_step l"]
  by (intro sint_add_i64) (auto simp: r_inv_def Let_def i64_bounds simp del: in_i64_sint)

lemma r_Next_cases:
  assumes "r_inv l"
  shows "case r_Next l of
     None \<Rightarrow> range_size l = 1
   | Some m \<Rightarrow> r_inv m \<and> range_size l = Suc (range_size m) \<and> m = l\<lparr>r_start := r_start l + r_step l\<rparr>"
proof (cases "0 < sint (r_step l)")
  case True
  then have b: "r_inBounds l (r_start l + r_step l) \<longleftrightarrow> sint (r_step l) < sint (r_end l) - sint (r_start l)"
    using r_nexts [OF assms] by (auto simp: r_inBounds_def)
  show ?thesis
  proof (cases "r_inBounds l (r_start l + r_step l)")
    case in_: True
    with True b have "range_size l = Suc (range_size (l\<lparr>r_start := r_start l + r_step l\<rparr>))"
      using r_nexts [OF assms] by (simp add: range_size_def steps_Suc algebra_simps)
    moreover have "r_inv (l\<lparr>r_start := r_start l + r_step l\<rparr>)"
      using assms True in_ b r_nexts [OF assms] by (auto simp: r_inv_def Let_def i64_bounds)
    ultimately show ?thesis using in_ by (simp add: r_Next_def)
  next
    case False
    with True b assms show ?thesis
      by (auto simp: r_Next_def range_size_def r_inv_def Let_def intro: steps_1)
  qed
next
  case False
  then have neg: "sint (r_step l) < 0" "sint (r_end l) < sint (r_start l)" using r_step_signs [OF assms] by auto
  then have b: "r_inBounds l (r_start l + r_step l) \<longleftrightarrow> - sint (r_step l) < sint (r_start l) - sint (r_end l)"
    using r_nexts [OF assms] by (auto simp: r_inBounds_def)
  show ?thesis
  proof (cases "r_inBounds l (r_start l + r_step l)")
    case in_: True
    with neg b have "range_size l = Suc (range_size (l\<lparr>r_start := r_start l + r_step l\<rparr>))"
      using r_nexts [OF assms] by (simp add: range_size_def steps_Suc algebra_simps)
    moreover have "r_inv (l\<lparr>r_start := r_start l + r_step l\<rparr>)"
      using assms neg in_ b r_nexts [OF assms] by (auto simp: r_inv_def Let_def i64_bounds)
    ultimately show ?thesis using in_ by (simp add: r_Next_def)
  next
    case False
    with neg b show ?thesis
      by (auto simp: r_Next_def range_size_def Let_def intro: steps_1)
  qed
qed

lemma range_size_pos: "r_inv l \<Longrightarrow> 0 < range_size l"
  using r_Next_cases [of l] by (auto split: option.splits)

lemma r_list_Suc:
  assumes "range_size l = Suc (range_size m)" "m = l\<lparr>r_start := r_start l + r_step l\<rparr>"
  shows "r_list l = VInt (r_start l) # r_list m"
proof -
  have "[0..<range_size l] = 0 # map Suc [0..<range_size m]"
    unfolding assms(1) by (simp add: upt_conv_Cons map_Suc_upt del: upt_Suc)
  moreover have "r_start m = r_start l + r_step l" "r_step m = r_step l" using assms(2) by simp_all
  ultimately show ?thesis by (simp add: r_list_def algebra_simps)
qed

interpretation rs: seq_view r_inv r_list r_First r_Next
proof
  fix l m assume l: "r_inv l"
  show "r_list l \<noteq> []" using range_size_pos [OF l] by (simp add: r_list_def)
  show "r_First l = hd (r_list l)"
    using range_size_pos [OF l] by (simp add: r_First_def r_list_def upt_conv_Cons)
  note n = r_Next_cases [OF l]
  show "r_Next l = None \<longleftrightarrow> tl (r_list l) = []"
    using n range_size_pos by (auto simp: r_list_def map_tl [symmetric] split: option.splits)
  show "r_Next l = Some m \<Longrightarrow> r_inv m \<and> r_list m = tl (r_list l)"
    using n r_list_Suc by auto
qed

lemma steps_bounds: "0 < d \<Longrightarrow> 0 < u \<Longrightarrow> int (steps d u) = (d + u - 1) div u"
  by (simp add: steps_def pos_imp_zdiv_nonneg_iff)

lemma r_RawCount_ok:
  assumes "r_inv l"
  shows "sint (r_RawCount l) = int (length (r_list l))"
proof -
  let ?s = "sint (r_start l)" and ?e = "sint (r_end l)" and ?t = "sint (r_step l)"
  note b = assms [unfolded r_inv_def Let_def] in_i64_sint [of "r_start l"] in_i64_sint [of "r_end l"] in_i64_sint [of "r_step l"]
  have d: "sint (r_end l - r_start l) = ?e - ?s"
    using b by (intro sint_sub_i64) (auto simp: i64_bounds simp del: in_i64_sint)
  have dt: "sint (r_end l - r_start l + r_step l) = ?e - ?s + ?t"
    using b d by (subst sint_add_i64) auto
  have one: "sint (1 :: i64) = 1" "sint (- 1 :: i64) = - 1" by simp_all
  show ?thesis
  proof (cases "0 < ?t")
    case True
    then have se: "?s < ?e" using b by auto
    have "sint (r_end l - r_start l + r_step l - 1) = ?e - ?s + ?t - 1"
      using b True se dt by (subst sint_sub_i64) (auto simp: i64_bounds simp del: in_i64_sint)
    then have "sint (i64_quo (r_end l - r_start l + r_step l - 1) (r_step l)) = (?e - ?s + ?t - 1) div ?t"
      using True se by (subst sint_i64_quo) (auto simp: signed_divide_int_def sgn_if)
    moreover have "r_step l = 1 \<Longrightarrow> ?e - ?s = (?e - ?s + ?t - 1) div ?t" by simp
    moreover have "r_step l \<noteq> - 1" using True one by auto
    ultimately have "sint (r_RawCount l) = (?e - ?s + ?t - 1) div ?t"
      using True se d by (auto simp: r_RawCount_def Let_def)
    then show ?thesis using True se by (simp add: r_list_def range_size_def steps_bounds)
  next
    case False
    then have t: "?t < 0" and se: "?e < ?s" using b by auto
    have x: "sint (r_end l - r_start l + r_step l + 1) = ?e - ?s + ?t + 1"
      using b t se dt by (subst sint_add_i64) (auto simp: i64_bounds simp del: in_i64_sint)
    have "?e - ?s + ?t + 1 \<noteq> min_i64" using b by (auto simp: i64_bounds simp del: in_i64_sint)
    then have "sint (i64_quo (r_end l - r_start l + r_step l + 1) (r_step l)) = (?e - ?s + ?t + 1) sdiv ?t"
      by (subst sint_i64_quo) (simp_all only: x, simp)
    also have "\<dots> = (?s - ?e - ?t - 1) div (- ?t)"
      using t se by (simp add: signed_divide_int_def sgn_if)
    finally have "sint (i64_quo (r_end l - r_start l + r_step l + 1) (r_step l)) = (?s - ?e - ?t - 1) div (- ?t)" .
    moreover have "r_step l = - 1 \<Longrightarrow> ?s - ?e = (?s - ?e - ?t - 1) div (- ?t)" by simp
    moreover have "r_step l \<noteq> 1" using t one by auto
    moreover have "sint (- (r_end l - r_start l)) = ?s - ?e"
      using d b t se by (subst sint_neg_i64) (auto simp: i64_bounds simp del: in_i64_sint)
    ultimately have "sint (r_RawCount l) = (?s - ?e - ?t - 1) div (- ?t)"
      using t se d by (auto simp: r_RawCount_def Let_def)
    then show ?thesis using t se steps_bounds [of "?s - ?e" "- ?t"] by (simp add: r_list_def range_size_def)
  qed
qed

lemma r_ValueAtOr_ok:
  assumes "r_inv l"
  shows "r_ValueAtOr l (VInt k) d =
    (if 0 \<le> sint k \<and> sint k < int (length (r_list l)) then r_list l ! nat (sint k) else d)"
proof -
  have "word_of_nat (nat (sint k)) = k" if "0 \<le> sint k"
    using that by (metis of_int_of_nat_eq int_nat_eq word_of_int_sint_i64 of_int_sint)
  then show ?thesis
    using r_RawCount_ok [OF assms] by (auto simp: r_ValueAtOr_def r_list_def)
qed

text \<open>Near the largest integer the start wraps, and the sequence does not end at its end.\<close>

lemma range_wraps:
  "map_option (\<lambda>l. map_option r_First (r_Next l)) (NewRange 9223372036854775806 9223372036854775807 5) =
    Some (Some (VInt (- 9223372036854775805)))"
  by code_simp

section \<open>The queue\<close>

text \<open>What a queue promises: first in, first out.\<close>

locale fifo_queue =
  fixes inv :: "'q \<Rightarrow> bool"
    and lst :: "'q \<Rightarrow> 'v list"
    and conj :: "'q \<Rightarrow> 'v \<Rightarrow> 'q"
    and peek :: "'q \<Rightarrow> 'v"
    and pop :: "'q \<Rightarrow> 'q option"
    and nil :: 'v
  assumes conj: "inv q \<Longrightarrow> inv (conj q x) \<and> lst (conj q x) = lst q @ [x]"
    and peek: "inv q \<Longrightarrow> peek q = (case lst q of [] \<Rightarrow> nil | x # xs \<Rightarrow> x)"
    and pop: "inv q \<Longrightarrow> \<exists>q'. pop q = Some q' \<and> inv q' \<and> lst q' = tl (lst q)"
begin

text \<open>\<open>n\<close> times peek and pop.\<close>

fun drain :: "nat \<Rightarrow> 'q \<Rightarrow> ('v list \<times> 'q) option" where
  "drain 0 q = Some ([], q)"
| "drain (Suc n) q = (case pop q of
     None \<Rightarrow> None
   | Some q' \<Rightarrow> map_option (\<lambda>(xs, r). (peek q # xs, r)) (drain n q'))"

lemma drain: "inv q \<Longrightarrow> n \<le> length (lst q) \<Longrightarrow> \<exists>r. drain n q = Some (take n (lst q), r) \<and> inv r \<and> lst r = drop n (lst q)"
proof (induction n arbitrary: q)
  case (Suc n)
  then obtain x xs where l: "lst q = x # xs" by (cases "lst q") auto
  obtain q' where "pop q = Some q'" "inv q'" "lst q' = xs" using pop [OF Suc.prems(1)] l by auto
  with Suc.IH [of q'] Suc.prems(2) l peek [OF Suc.prems(1)] show ?case by auto
qed simp

lemma conj_all: "inv q \<Longrightarrow> inv (foldl conj q xs) \<and> lst (foldl conj q xs) = lst q @ xs"
  by (induction xs arbitrary: q) (simp_all add: conj)

lemma fifo:
  assumes "inv q" "lst q = []"
  shows "\<exists>r. drain (length xs) (foldl conj q xs) = Some (xs, r) \<and> inv r \<and> lst r = []"
  using drain [of "foldl conj q xs" "length xs"] conj_all [OF assms(1), of xs] assms(2) by simp

end

record 'v pqueue =
  q_front :: "'v glist option"
  q_rear :: "'v list"
  q_count :: nat
  q_meta :: "'v option"

definition EmptyPersistentQueue :: "'v pqueue" where
  "EmptyPersistentQueue = \<lparr>q_front = None, q_rear = [], q_count = 0, q_meta = None\<rparr>"

definition q_Empty :: "'v pqueue \<Rightarrow> 'v pqueue" where
  "q_Empty q = (if q_meta q \<noteq> None then EmptyPersistentQueue\<lparr>q_meta := q_meta q\<rparr> else EmptyPersistentQueue)"

definition q_Conj :: "'v pqueue \<Rightarrow> 'v \<Rightarrow> 'v pqueue" where
  "q_Conj q value =
     (if q_count q = 0
      then \<lparr>q_front = Some (l_Cons EmptyList value), q_rear = [], q_count = 1, q_meta = q_meta q\<rparr>
      else \<lparr>q_front = q_front q, q_rear = q_rear q @ [value], q_count = q_count q + 1, q_meta = q_meta q\<rparr>)"

text \<open>The loop over the front, at most \<open>count\<close> turns.\<close>

definition q_frontElems :: "'v \<Rightarrow> 'v pqueue \<Rightarrow> 'v list option" where
  "q_frontElems nil q =
     seq_view.each_seq (\<lambda>l. the (l_First nil l)) l_Next (q_count q) (\<lambda>a x. a @ [x]) [] (q_front q)"

definition q_Seq :: "'v \<Rightarrow> 'v pqueue \<Rightarrow> 'v glist option" where
  "q_Seq nil q = (if q_count q = 0 then Some EmptyList
     else map_option (\<lambda>elems. l_Box (elems @ q_rear q)) (q_frontElems nil q))"

definition q_Peek :: "'v \<Rightarrow> 'v pqueue \<Rightarrow> 'v option" where
  "q_Peek nil q = (if q_count q = 0 then Some nil
     else case q_front q of None \<Rightarrow> None | Some f \<Rightarrow> l_First nil f)"

definition q_Pop :: "'v pqueue \<Rightarrow> 'v pqueue option" where
  "q_Pop q =
     (if q_count q = 0 then Some q
      else case q_front q of
        None \<Rightarrow> None
      | Some f \<Rightarrow> Some (case l_Next f of
          None \<Rightarrow>
            if length (q_rear q) = 0 then q_Empty q
            else \<lparr>q_front = Some (l_Box (q_rear q)), q_rear = [], q_count = q_count q - 1, q_meta = q_meta q\<rparr>
        | Some f1 \<Rightarrow> \<lparr>q_front = Some f1, q_rear = q_rear q, q_count = q_count q - 1, q_meta = q_meta q\<rparr>))"

definition q_Hash :: "(rkind \<Rightarrow> nat \<Rightarrow> string) \<Rightarrow> val pqueue \<Rightarrow> u32 option" where
  "q_Hash str q = (if q_count q = 0 then Some 0
     else map_option (\<lambda>l. hashOrdered (map (hashValue str) (l_list l))) (q_Seq VNil q))"

partial_function (option) q_eqLoop :: "val glist option \<Rightarrow> val glist option \<Rightarrow> bool option" where
  "q_eqLoop a b = (case a of
     None \<Rightarrow> Some True
   | Some la \<Rightarrow>
       if la = EmptyList then Some True
       else case b of
         None \<Rightarrow> None
       | Some lb \<Rightarrow>
           if \<not> valueEquiv (the (l_First VNil la)) (the (l_First VNil lb)) then Some False
           else q_eqLoop (l_Next la) (l_Next lb))"

declare q_eqLoop.simps [code]

definition q_Equals :: "val pqueue \<Rightarrow> val pqueue \<Rightarrow> bool option" where
  "q_Equals q other =
     (if q_count q \<noteq> q_count other then Some False
      else case (q_Seq VNil q, q_Seq VNil other) of
        (Some a, Some b) \<Rightarrow> q_eqLoop (Some a) (Some b)
      | _ \<Rightarrow> None)"

fun opt_list :: "'v glist option \<Rightarrow> 'v list" where
  "opt_list None = []"
| "opt_list (Some l) = l_list l"

definition q_list :: "'v pqueue \<Rightarrow> 'v list" where
  "q_list q = opt_list (q_front q) @ q_rear q"

text \<open>Only the empty queue has no front.\<close>

definition q_inv :: "'v pqueue \<Rightarrow> bool" where
  "q_inv q \<longleftrightarrow> q_count q = length (q_list q) \<and>
     (case q_front q of None \<Rightarrow> q_rear q = [] | Some f \<Rightarrow> l_inv f \<and> l_list f \<noteq> [])"

lemma EmptyPersistentQueue_inv [simp]: "q_inv EmptyPersistentQueue" "q_list EmptyPersistentQueue = []"
  by (simp_all add: q_inv_def EmptyPersistentQueue_def q_list_def)

lemma q_Empty_inv [simp]: "q_inv (q_Empty q)" "q_list (q_Empty q) = []"
  by (simp_all add: q_inv_def q_Empty_def EmptyPersistentQueue_def q_list_def)

lemma q_front_cases:
  assumes "q_inv q"
  obtains "q_count q = 0" "q_list q = []"
    | f where "q_count q \<noteq> 0" "q_front q = Some f" "l_inv f" "l_list f \<noteq> []" "q_list q = l_list f @ q_rear q"
      "q_count q = length (l_list f) + length (q_rear q)"
  using assms by (cases "q_front q") (auto simp: q_inv_def q_list_def)

lemma q_Conj_ok: "q_inv q \<Longrightarrow> q_inv (q_Conj q x) \<and> q_list (q_Conj q x) = q_list q @ [x]"
  by (erule q_front_cases) (simp_all add: q_inv_def q_Conj_def q_list_def)

lemma q_Peek_ok: "q_inv q \<Longrightarrow> q_Peek nil q = Some (case q_list q of [] \<Rightarrow> nil | x # xs \<Rightarrow> x)"
proof (erule q_front_cases)
  fix f assume f: "q_count q \<noteq> 0" "q_front q = Some f" "l_inv f" "l_list f \<noteq> []" "q_list q = l_list f @ q_rear q"
  obtain v l' where n: "l_first f = Some v" "l_list f = v # l_list l'" "l_count f = l_count l' + 1"
    using l_node [OF f(3,4)] by metis
  then show ?thesis using f by (simp add: q_Peek_def l_First_def)
qed (simp add: q_Peek_def)

lemma q_Pop_ok:
  assumes inv: "q_inv q"
  shows "\<exists>q'. q_Pop q = Some q' \<and> q_inv q' \<and> q_list q' = tl (q_list q)"
  using inv
proof (rule q_front_cases)
  fix f assume f: "q_count q \<noteq> 0" "q_front q = Some f" "l_inv f" "l_list f \<noteq> []"
    "q_list q = l_list f @ q_rear q" "q_count q = length (l_list f) + length (q_rear q)"
  show ?thesis
  proof (cases "l_Next f")
    case None
    then have "tl (l_list f) = []" using ls.nxt_None f(3,4) by blast
    then obtain x where x: "l_list f = [x]" using f(4) by (cases "l_list f") auto
    show ?thesis
    proof (cases "q_rear q = []")
      case True
      with None f x have "q_Pop q = Some (q_Empty q)" by (simp add: q_Pop_def)
      with x f True show ?thesis by simp
    next
      case False
      with None f x show ?thesis using l_Box_ok [of "q_rear q"] by (simp add: q_Pop_def q_inv_def q_list_def)
    qed
  next
    case (Some f1)
    then have "l_inv f1" "l_list f1 \<noteq> []" "l_list f1 = tl (l_list f)" using ls.nxt_Some f(3,4) by blast+
    with Some f show ?thesis by (cases "l_list f") (auto simp: q_Pop_def q_inv_def q_list_def)
  qed
qed (simp add: q_Pop_def inv)

interpretation pq: fifo_queue q_inv q_list q_Conj "\<lambda>q. the (q_Peek nil q)" q_Pop nil for nil
  by unfold_locales (simp_all add: q_Conj_ok q_Peek_ok q_Pop_ok)

lemma foldl_snoc: "foldl (\<lambda>a x. a @ [x]) a xs = a @ xs"
  by (induction xs arbitrary: a) simp_all

lemma q_Seq_ok: "q_inv q \<Longrightarrow> q_Seq nil q = Some (l_Box (q_list q))"
proof (erule q_front_cases)
  fix f assume f: "q_count q \<noteq> 0" "q_front q = Some f" "l_inv f" "l_list f \<noteq> []" "q_list q = l_list f @ q_rear q"
    "q_count q = length (l_list f) + length (q_rear q)"
  have "q_frontElems nil q = Some (l_list f)"
    using ls.each_seq [of f "q_count q" nil "\<lambda>a x. a @ [x]" "[]"] f by (simp add: q_frontElems_def foldl_snoc)
  with f show ?thesis by (simp add: q_Seq_def)
qed (simp add: q_Seq_def l_Box_def)

lemma q_eqLoop_None: "q_eqLoop None b = Some True"
  by (subst q_eqLoop.simps) simp

lemma q_eqLoop_ok:
  "l_inv a \<Longrightarrow> l_list a \<noteq> [] \<Longrightarrow> l_inv b \<Longrightarrow> length (l_list b) = length (l_list a) \<Longrightarrow>
    q_eqLoop (Some a) (Some b) = Some (list_all2 valueEquiv (l_list a) (l_list b))"
proof (induction "length (l_list a)" arbitrary: a b)
  case (Suc n)
  have nb: "l_list b \<noteq> []" using Suc.prems(2,4) by auto
  have f: "the (l_First VNil a) = hd (l_list a)" "the (l_First VNil b) = hd (l_list b)"
    using ls.first [where nil = VNil and s = a] ls.first [where nil = VNil and s = b] Suc.prems nb by simp_all
  have ne: "a \<noteq> EmptyList" using Suc.prems(2) by auto
  have step: "list_all2 valueEquiv (l_list a) (l_list b) \<longleftrightarrow>
      valueEquiv (hd (l_list a)) (hd (l_list b)) \<and> list_all2 valueEquiv (tl (l_list a)) (tl (l_list b))"
    using Suc.prems(2) nb by (cases "l_list a"; cases "l_list b") auto
  show ?case
  proof (cases "l_Next a")
    case None
    then have "tl (l_list a) = []" using ls.nxt_None Suc.prems(1,2) by blast
    moreover have "tl (l_list b) = []"
      using calculation Suc.prems(4) by (metis length_0_conv length_tl)
    ultimately show ?thesis using step ne f
      by (subst q_eqLoop.simps) (simp add: None q_eqLoop_None)
  next
    case (Some a')
    then have a': "l_inv a'" "l_list a' \<noteq> []" "l_list a' = tl (l_list a)" using ls.nxt_Some Suc.prems(1,2) by blast+
    then have "tl (l_list b) \<noteq> []" using Suc.prems(4) by (metis length_0_conv length_tl)
    then obtain b' where b: "l_Next b = Some b'" using ls.nxt_None Suc.prems(3) nb by blast
    then have b': "l_inv b'" "l_list b' = tl (l_list b)" using ls.nxt_Some Suc.prems(3) nb by blast+
    have "q_eqLoop (Some a') (Some b') = Some (list_all2 valueEquiv (l_list a') (l_list b'))"
      by (rule Suc.hyps(1)) (use a' b' Suc.hyps(2) Suc.prems(4) in auto)
    then show ?thesis using step ne f Some b a' b' by (subst q_eqLoop.simps) simp
  qed
qed simp

lemma q_Equals_ok:
  assumes "q_inv q" "q_inv r"
  shows "q_Equals q r = Some (list_all2 valueEquiv (q_list q) (q_list r))"
proof (cases "q_count q = q_count r")
  case True
  have c: "length (q_list r) = length (q_list q)" using True assms by (simp add: q_inv_def)
  show ?thesis
  proof (cases "q_list q = []")
    case empty: True
    with c show ?thesis using True by (simp add: q_Equals_def q_Seq_ok assms l_Box_def q_eqLoop.simps)
  next
    case False
    with c True show ?thesis using q_eqLoop_ok [of "l_Box (q_list q)" "l_Box (q_list r)"]
      by (simp add: q_Equals_def q_Seq_ok assms l_Box_ok)
  qed
next
  case False
  then have "length (q_list r) \<noteq> length (q_list q)" using assms by (simp add: q_inv_def)
  then have "\<not> list_all2 valueEquiv (q_list q) (q_list r)" by (auto dest: list_all2_lengthD)
  with False show ?thesis by (simp add: q_Equals_def)
qed

end
