(* ===== verification/LG_CollectionClaims.thy ===== *)
theory LG_CollectionClaims
  imports LG_Set LG_ArrayVector LG_Seq
begin

text \<open>The properties of the collections, with the collections at which they are applied.\<close>

definition no_names :: printer where
  "no_names k n = []"

definition two_keys :: pmap where
  "two_keys = \<lparr>pm_count = 2, pm_root = None, pm_okvs = [(VInt 1, VString ''a''), (VKeyword ''k'', VNil)], pm_meta = None\<rparr>"

lemma valueEquiv_examples [simp]:
  "valueEquiv (VInt i) (VInt j) \<longleftrightarrow> i = j" "valueEquiv (VInt i) (VKeyword s) = False" "valueEquiv (VKeyword s) (VInt i) = False"
  "valueEquiv (VKeyword s) (VKeyword t) \<longleftrightarrow> s = t" "valueEquiv (VString s) (VInt i) = False" "valueEquiv VNil VNil"
  by (auto simp: valueEquiv_norm sint_inject_i64)

lemma two_keys_inv [simp]: "pm_inv str two_keys" "pm_entries two_keys = [(VInt 1, VString ''a''), (VKeyword ''k'', VNil)]"
  by (simp_all add: two_keys_def pm_ordered pm_entries_def pm_mapEntries_def list_inv_def arrayMapMaxEntries_def)

section \<open>Maps\<close>

text \<open>
  C16. \<open>Assoc\<close> keeps the invariant of the map, in the ordered form, across its promotion
  and in the trie: the key then finds the value, or one equivalent to it that was there,
  every other key finds what it found, the count grows by one exactly for a new key, and
  the metadata stay.
\<close>

theorem map_assoc_lookup:
  assumes "pm_inv str m" "good_key k" "good_key k'"
  shows "\<exists>m' w. pm_Assoc str m k v = Some m' \<and> pm_inv str m' \<and> pm_meta m' = pm_meta m \<and> (w = v \<or> valueEquiv w v) \<and>
    pm_findValue str m' k' = (if valueEquiv k' k then Some (Some w) else pm_findValue str m k') \<and>
    pm_count m' = (if pm_findValue str m k = Some None then pm_count m + 1 else pm_count m)"
proof -
  obtain m' w where "pm_Assoc str m k v = Some m'" "w = v \<or> valueEquiv w v"
    "pm_findValue str m' k' = (if valueEquiv k' k then Some (Some w) else pm_findValue str m k')"
    using pms.find_put [OF assms, of v] by metis
  with pm_Assoc_ok [OF assms(1,2), of v] pms.cnt_put [OF assms(1,2), of v] pm_find_correct [OF assms(1,2)]
  show ?thesis by auto
qed

theorem map_assoc_lookup_witness:
  "\<exists>m'. pm_Assoc no_names two_keys (VInt 5) VNil = Some m' \<and> pm_findValue no_names m' (VInt 1) = Some (Some (VString ''a''))"
  using map_assoc_lookup [of no_names two_keys "VInt 5" "VInt 1" VNil] pm_find_correct [of no_names two_keys "VInt 1"]
  by auto

text \<open>
  C20. \<open>Dissoc\<close> of a key whose hash no other key of the map has: the key finds nothing,
  every other key what it found, and the count drops by one exactly when the key was there.
\<close>

theorem map_dissoc_lookup:
  assumes "pm_inv str m" "good_key k" "good_key k'" "alone str k (pm_entries m)"
  shows "\<exists>m'. pm_Dissoc str m k = Some m' \<and> pm_inv str m' \<and>
    pm_findValue str m' k' = (if valueEquiv k' k then Some None else pm_findValue str m k') \<and>
    pm_count m' = (if pm_findValue str m k = Some None then pm_count m else pm_count m - 1)"
  using pms.find_del [OF assms] pm_find_correct [OF assms(1,2)] by simp

theorem map_dissoc_lookup_witness:
  "\<exists>m'. pm_Dissoc no_names two_keys (VInt 1) = Some m' \<and> pm_findValue no_names m' (VKeyword ''k'') = Some (Some VNil)"
proof -
  have "hashValue no_names (VInt 1) \<noteq> hashValue no_names (VKeyword ''k'')" by code_simp
  then have "alone no_names (VInt 1) (pm_entries two_keys)" by (simp add: alone_def)
  then show ?thesis
    using map_dissoc_lookup [of no_names two_keys "VInt 1" "VKeyword ''k''"] pm_find_correct [of no_names two_keys "VKeyword ''k''"]
    by auto
qed

text \<open>
  C21. Without that condition it fails: of two different keys with one hash that share a
  collision bucket below the root, at a shift where the bits of the hash are not those at shift
  0, either is found; after the dissociation of one, the other is still listed but no longer found.
\<close>

theorem map_dissoc_loses_a_key:
  assumes "pm_inv str m" "pm_root m = Some n" "bucket n 0 h = Some (es, s)"
    and "es \<in> {[(a, x), (b, y)], [(b, y), (a, x)]}" "chunk h s \<noteq> chunk h 0"
    and "good_key a" "good_key b" "hashValue str a = h" "hashValue str b = h" "\<not> valueEquiv a b"
  shows "\<exists>m'. pm_findValue str m a = Some (Some x) \<and> pm_findValue str m b = Some (Some y) \<and>
    pm_Dissoc str m a = Some m' \<and> (b, y) \<in> set (pm_entries m') \<and> pm_findValue str m' b = Some None"
proof -
  have e: "valueEquiv a a" "valueEquiv b b" "\<not> valueEquiv b a"
    using assms(6,7,10) keys.eq_refl keys.eq_sym [of b a] by blast+
  have f: "pm_findValue str m a = Some (Some x)" "pm_findValue str m b = Some (Some y)"
    using bucket_lookup [OF assms(3)] assms(2,4,8-10) e by (auto simp: pm_findValue_def)
  obtain n' where n': "hdissoc str n 0 h a = Some (New n')" "(b, y) \<in> set (nodeSeq n')" "hfind n' 0 h b = Some None"
    using bucket_dissoc [OF assms(4) e(1) assms(10) assms(3,5)] by blast
  have l: "pm_entries m = nodeSeq n" "pm_count m = length (nodeSeq n)"
    using pm_entries_inv [OF assms(1)] assms(1,2) by (auto simp: pm_mapEntries_def pm_ordered)
  have in_m: "\<exists>e \<in> set (nodeSeq n). valueEquiv k (fst e)" if "k \<in> {a, b}" for k
  proof -
    have "al_find valueEquiv k (nodeSeq n) \<noteq> None"
      using that f pm_find_correct [OF assms(1), of k] assms(6,7) l(1) by auto
    then show ?thesis unfolding al_find_None_iff by blast
  qed
  have "2 \<le> pm_count m"
  proof (rule ccontr)
    assume "\<not> 2 \<le> pm_count m"
    then obtain e where "set (nodeSeq n) \<subseteq> {e}" using l(2) by (cases "nodeSeq n"; cases "tl (nodeSeq n)") auto
    then have s: "valueEquiv a (fst e)" "valueEquiv b (fst e)" "e \<in> set (pm_entries m)"
      using in_m [of a] in_m [of b] l(1) by auto
    have g: "good_key (fst e)" using pm_inv_keys(1) [OF assms(1) s(3)] .
    show False
      using keys.eq_trans [OF assms(6) g assms(7) s(1) keys.eq_sym [OF assms(7) g s(2)]] assms(10) by blast
  qed
  then show ?thesis
    using f n' assms(2,8,9) by (simp add: pm_Dissoc_def pm_findValue_def pm_entries_def pm_mapEntries_def)
qed

definition key_a :: val where "key_a = VInt 5818379579481681392"
definition key_b :: val where "key_b = VInt 17896794805224428924"

definition or_empty :: "pmap option \<Rightarrow> pmap" where
  "or_empty r = (case r of Some m \<Rightarrow> m | None \<Rightarrow> EmptyPersistentMap)"

definition nine_kvs :: "val list" where
  "nine_kvs = [key_a, VInt 100, key_b, VInt 200,
     VInt 1, VNil, VInt 2, VNil, VInt 3, VNil, VInt 4, VNil, VInt 5, VNil, VInt 6, VNil, VInt 7, VNil]"

definition nine_entries :: pmap where
  "nine_entries = or_empty (NewPersistentMap no_names nine_kvs)"

definition nine_root :: hnode where
  "nine_root = (case pm_root nine_entries of Some n \<Rightarrow> n | None \<Rightarrow> HBitmap 0 [])"

theorem map_dissoc_loses_a_key_witness:
  "\<exists>m'. pm_findValue no_names nine_entries key_b = Some (Some (VInt 200)) \<and>
    pm_Dissoc no_names nine_entries key_a = Some m' \<and> pm_findValue no_names m' key_b = Some None"
proof -
  have k: "good_key key_a" "good_key key_b" "\<not> valueEquiv key_a key_b"
    by (simp_all add: key_a_def key_b_def)
  have "\<forall>e \<in> set (kv_pairs nine_kvs). good_key (fst e)" by (simp add: nine_kvs_def k)
  moreover have "length nine_kvs mod 2 = 0" by (simp add: nine_kvs_def)
  ultimately obtain m where "NewPersistentMap no_names nine_kvs = Some m" "pm_inv no_names m"
    using NewPersistentMap_finds [OF _ k(1)] by metis
  then have i: "pm_inv no_names nine_entries" by (simp add: nine_entries_def or_empty_def)
  have "map_option (\<lambda>n. True) (pm_root nine_entries) = Some True" by code_simp
  then have r: "pm_root nine_entries = Some nine_root" by (auto simp: nine_root_def)
  have h: "hashValue no_names key_b = hashValue no_names key_a" by code_simp
  have b: "bucket nine_root 0 (hashValue no_names key_a) = Some ([(key_a, VInt 100), (key_b, VInt 200)], 5)" by code_simp
  have c: "chunk (hashValue no_names key_a) 5 \<noteq> chunk (hashValue no_names key_a) 0" by code_simp
  show ?thesis
    using map_dissoc_loses_a_key [OF i r b insertI1 c k(1,2) refl h k(3)] by blast
qed

text \<open>
  C22. Equality of maps is that every key finds equivalent values, or none, in both; on
  values that are themselves good keys it is symmetric, and equal maps hash alike.
\<close>

theorem map_equality:
  assumes "pm_inv str m" "pm_inv str n" "\<forall>e \<in> set (pm_entries m) \<union> set (pm_entries n). good_key (snd e)"
  shows "\<exists>b. pm_Equals str m n = Some b \<and> pm_Equals str n m = Some b \<and>
    (b \<longleftrightarrow> (\<forall>k. good_key k \<longrightarrow> rel_option valueEquiv (al_find valueEquiv k (pm_entries m)) (al_find valueEquiv k (pm_entries n)))) \<and>
    (b \<longrightarrow> pm_Hash str m = pm_Hash str n)"
proof -
  have "same_map n m \<longleftrightarrow> same_map m n"
    using same_map_sym [OF assms] same_map_sym [OF assms(2,1)] assms(3) by blast
  then show ?thesis
    using pm_Equals_same_map [OF assms(1,2)] pm_Equals_same_map [OF assms(2,1)] same_map_iff [OF assms(1,2)]
      pm_Hash_same_map [OF assms] by (intro exI [of _ "same_map m n"]) simp
qed

definition two_keys_swapped :: pmap where
  "two_keys_swapped = \<lparr>pm_count = 2, pm_root = None, pm_okvs = [(VKeyword ''k'', VNil), (VInt 1, VString ''a'')], pm_meta = None\<rparr>"

theorem map_equality_witness:
  "pm_Equals no_names two_keys two_keys_swapped = Some True \<and> pm_Hash no_names two_keys = pm_Hash no_names two_keys_swapped"
proof -
  have s: "pm_inv no_names two_keys_swapped" "pm_entries two_keys_swapped = [(VKeyword ''k'', VNil), (VInt 1, VString ''a'')]"
    by (simp_all add: two_keys_swapped_def pm_ordered pm_entries_def pm_mapEntries_def list_inv_def arrayMapMaxEntries_def)
  have "pm_Equals no_names two_keys two_keys_swapped = Some True" by code_simp
  then show ?thesis using map_equality [of no_names two_keys two_keys_swapped] s by auto
qed

text \<open>
  C33. Of a slice of even length whose keys are good (without NaN, the negative zero and the
  empty list), both constructors make a map in which a good key finds the last value given for
  it, or an equivalent one, and nothing when none was given; of a slice of odd length both make
  the empty map.
\<close>

theorem map_constructors:
  assumes "\<forall>e \<in> set (kv_pairs kvs). good_key (fst e)" "good_key k"
  shows "(length kvs mod 2 = 0 \<longrightarrow>
      (\<exists>m n. NewPersistentMap str kvs = Some m \<and> pm_inv str m \<and> NewArrayMap str kvs = Some n \<and> pm_inv str n \<and>
        finds (pm_findValue str m k) (al_find valueEquiv k (rev (kv_pairs kvs))) \<and>
        finds (pm_findValue str n k) (al_find valueEquiv k (rev (kv_pairs kvs))))) \<and>
    (length kvs mod 2 = 1 \<longrightarrow>
      NewPersistentMap str kvs = Some EmptyPersistentMap \<and> NewArrayMap str kvs = Some EmptyPersistentMap)"
  using NewPersistentMap_finds [OF assms] NewArrayMap_finds [OF assms]
  by (metis NewPersistentMap_def NewArrayMap_def one_neq_zero)

theorem map_constructors_witness:
  "\<exists>m. NewPersistentMap no_names [VInt 1, VNil, VInt 1, VInt 2] = Some m \<and>
    (\<exists>w. pm_findValue no_names m (VInt 1) = Some (Some w) \<and> valueEquiv w (VInt 2))"
  using map_constructors [of "[VInt 1, VNil, VInt 1, VInt 2]" "VInt 1" no_names] by auto


definition three_edits :: "tm_op list" where
  "three_edits = [TMAssoc (VInt 5) VNil, TMDissoc (VInt 1), TMConj (TCEntries [(VInt 5, VInt 6), (VInt 7, VNil)])]"


section \<open>Sets\<close>

text \<open>
  C27. Conjoining and disjoining a good element, when no other element of the set has its
  hash, keep the invariant of a set and change the membership of that element only, as
  \<open>Contains\<close> and a call of the set see it. (For conjoining the condition on hashes is not needed.)
\<close>

theorem set_membership:
  assumes "ps_inv str s" "good_key x" "good_key y"
  shows "\<exists>s1. ps_Conj str s x = Some s1 \<and> ps_inv str s1 \<and>
    ps_Contains str s1 y = Some (valueEquiv y x \<or> ps_member s y) \<and>
    ps_Contains str s y = Some (ps_member s y) \<and> ps_ValueAtOr str s y d = Some (if ps_member s y then y else d) \<and>
    (alone str x (pm_entries (ps_impl s)) \<longrightarrow> (\<exists>s2. ps_Disj str s x = Some s2 \<and> ps_inv str s2 \<and>
      ps_Contains str s2 y = Some (\<not> valueEquiv y x \<and> ps_member s y)))"
proof -
  obtain s1 where s1: "ps_Conj str s x = Some s1" "ps_inv str s1" "ps_member s1 y = (valueEquiv y x \<or> ps_member s y)"
    using ps_Conj_ok [OF assms(1,2)] assms(3) by blast
  have "\<exists>s2. ps_Disj str s x = Some s2 \<and> ps_inv str s2 \<and> ps_Contains str s2 y = Some (\<not> valueEquiv y x \<and> ps_member s y)"
    if a: "alone str x (pm_entries (ps_impl s))"
  proof -
    obtain s2 where s2: "ps_Disj str s x = Some s2" "ps_inv str s2" "ps_member s2 y = (\<not> valueEquiv y x \<and> ps_member s y)"
      using ps_Disj_ok [OF assms(1,2) a] assms(3) by blast
    then show ?thesis using ps_get_ok [OF s2(2) assms(3)] by auto
  qed
  then show ?thesis using s1 ps_get_ok [OF s1(2) assms(3)] ps_get_ok [OF assms(1,3)] by auto
qed

theorem set_membership_witness:
  "\<exists>s. ps_Conj no_names EmptyPersistentSet (VInt 1) = Some s \<and> ps_Contains no_names s (VInt 1) = Some True"
  using set_membership [OF EmptyPersistentSet_inv(1), of "VInt 1" "VInt 1"] by auto

text \<open>
  Two sets with the same entries list their elements in the same order, however
  they were built, if no two elements have the same hash.
\<close>

theorem set_order_canonical:
  assumes "ps_inv str s" "ps_inv str t" "mset (pm_entries (ps_impl s)) = mset (pm_entries (ps_impl t))"
    "inj_on (hashValue str) (set (ps_entries s))"
  shows "ps_entries s = ps_entries t"
  using assms by (rule ps_entries_unique)

text \<open>The sets of 1 and 2, conjoined in either order.\<close>

theorem set_order_canonical_witness:
  "\<exists>s t. Option.bind (ps_Conj no_names EmptyPersistentSet (VInt 1)) (\<lambda>s. ps_Conj no_names s (VInt 2)) = Some s \<and>
    Option.bind (ps_Conj no_names EmptyPersistentSet (VInt 2)) (\<lambda>s. ps_Conj no_names s (VInt 1)) = Some t \<and>
    ps_entries s = ps_entries t"
proof -
  obtain s1 t1 where 1: "ps_Conj no_names EmptyPersistentSet (VInt 1) = Some s1" "ps_inv no_names s1"
    and 2: "ps_Conj no_names EmptyPersistentSet (VInt 2) = Some t1" "ps_inv no_names t1"
    using ps_Conj_ok [OF EmptyPersistentSet_inv(1), of "VInt 1" no_names] ps_Conj_ok [OF EmptyPersistentSet_inv(1), of "VInt 2" no_names]
    by auto
  obtain s t where s: "ps_Conj no_names s1 (VInt 2) = Some s" "ps_inv no_names s"
    and t: "ps_Conj no_names t1 (VInt 1) = Some t" "ps_inv no_names t"
    using ps_Conj_ok [OF 1(2), of "VInt 2"] ps_Conj_ok [OF 2(2), of "VInt 1"] by auto
  have e: "map_option (\<lambda>s. pm_entries (ps_impl s)) (Option.bind (ps_Conj no_names EmptyPersistentSet (VInt 1))
        (\<lambda>s. ps_Conj no_names s (VInt 2))) = Some [(VInt 2, VInt 2), (VInt 1, VInt 1)]"
    "map_option (\<lambda>s. pm_entries (ps_impl s)) (Option.bind (ps_Conj no_names EmptyPersistentSet (VInt 2))
        (\<lambda>s. ps_Conj no_names s (VInt 1))) = Some [(VInt 2, VInt 2), (VInt 1, VInt 1)]"
    by code_simp+
  have h: "hashValue no_names (VInt 2) \<noteq> hashValue no_names (VInt 1)" by code_simp
  have "ps_entries s = ps_entries t"
    by (rule set_order_canonical [OF s(2) t(2)]) (use e h 1 2 s t in \<open>auto simp: ps_entries_pm\<close>)
  with 1 2 s t show ?thesis by auto
qed

text \<open>C28. The transient set: an edit of it is an edit of the set it was made from.\<close>

theorem transient_set_refines:
  assumes "ps_inv str s" "good_key x" "good_key y"
  shows "\<exists>t t1 s' t2. NewTransientSet str s = Some t \<and> ts_Conj str t x = Ok t1 \<and> ts_Persistent t1 = Ok (s', t2) \<and>
    ps_inv str s' \<and> ps_member s' y = (valueEquiv y x \<or> ps_member s y) \<and> \<not> ts_edit t2"
proof -
  obtain t where t: "NewTransientSet str s = Some t" "ts_inv str t" "ts_edit t" "\<forall>x. ts_member t x = ps_member s x"
    using NewTransientSet_ok [OF assms(1)] by blast
  obtain t1 where t1: "ts_Conj str t x = Ok t1" "ts_inv str t1" "ts_edit t1"
    "\<forall>y. good_key y \<longrightarrow> ts_member t1 y = (valueEquiv y x \<or> ts_member t y)"
    using ts_Conj_ok [OF t(2,3) assms(2)] by blast
  obtain s' t2 where "ts_Persistent t1 = Ok (s', t2)" "ps_inv str s'" "\<not> ts_edit t2" "\<forall>x. ps_member s' x = ts_member t1 x"
    using ts_Persistent_ok [OF t1(2,3)] by blast
  with t t1 assms(3) show ?thesis by auto
qed

theorem transient_set_refines_witness:
  "\<exists>t t1 s' t2. NewTransientSet no_names EmptyPersistentSet = Some t \<and> ts_Conj no_names t (VInt 1) = Ok t1 \<and>
    ts_Persistent t1 = Ok (s', t2) \<and> ps_member s' (VInt 1)"
  using transient_set_refines [of no_names EmptyPersistentSet "VInt 1" "VInt 1"] by auto

section \<open>Vectors\<close>

text \<open>
  C19. The persistent vector is the list of its elements: \<open>Conj\<close> appends, \<open>Pop\<close> drops the
  last, and both keep the trie dense and its height least.
\<close>

theorem vector_refines_list:
  assumes "pv_inv v"
  shows "(\<exists>v'. pv_Conj v x = Some v' \<and> pv_inv v' \<and> pv_list v' = pv_list v @ [x] \<and> pv_meta v' = pv_meta v) \<and>
    (\<exists>v'. pv_Pop v = Some v' \<and> pv_inv v' \<and> pv_list v' = butlast (pv_list v) \<and> pv_meta v' = pv_meta v)"
  using pv_Conj_correct [OF assms] pv_Pop_correct [OF assms] by blast

theorem vector_refines_list_witness:
  "\<exists>v'. pv_Conj (NewPersistentVector [0 ..< 1056 :: nat]) 7 = Some v' \<and> pv_list v' = [0 ..< 1056] @ [7]"
  using vector_refines_list [of "NewPersistentVector [0 ..< 1056]" 7] NewPersistentVector_correct [of "[0 ..< 1056 :: nat]"] by auto

text \<open>
  C24. Lookup and update by index: within the vector the element, at its end an append,
  beyond it the default and a refusal; any other key is no index.
\<close>

theorem vector_index:
  assumes "pv_inv v"
  shows "pv_ValueAtOr v key d = Some (case key_index key of
      Some i \<Rightarrow> if i < length (pv_list v) then pv_list v ! i else d | None \<Rightarrow> d) \<and>
    (case key_index key of
      Some i \<Rightarrow>
        if i \<le> length (pv_list v)
        then \<exists>v'. pv_Assoc v key x = Some (Some v') \<and> pv_inv v' \<and>
          pv_list v' = (if i = length (pv_list v) then pv_list v @ [x] else (pv_list v)[i := x])
        else pv_Assoc v key x = Some None
    | None \<Rightarrow> pv_Assoc v key x = Some None)"
  using pv_ValueAtOr_correct [OF assms] pv_Assoc_correct [OF assms] by blast

theorem vector_index_witness:
  "pv_ValueAtOr (NewPersistentVector [0 ..< 1056 :: nat]) (VInt (word_of_int 1055)) 0 = Some 1055"
  using vector_index [of "NewPersistentVector [0 ..< 1056]" "VInt (word_of_int (int 1055))" 0 0]
    NewPersistentVector_correct [of "[0 ..< 1056 :: nat]"] key_index_of_nat [of 1055]
  by (simp add: i64_bounds del: upt_Suc)

text \<open>Building a vector from a slice gives the dense trie of its elements, whatever their number.\<close>

theorem vector_of_slice:
  "pv_inv (NewPersistentVector vs) \<and> pv_list (NewPersistentVector vs) = vs \<and> pv_count (NewPersistentVector vs) = length vs"
  using NewPersistentVector_correct [of vs] pv_count_list by metis

text \<open>
  C25. A transient vector: a run of its edits that succeeds is the run of the same edits on
  the persistent vector; frozen, it is a vector of the elements and refuses further edits. A run
  that fails does so at an edit which the persistent vector, brought to that point by the same
  edits, refuses as well (a key that is no index, or an index beyond the end), save for \<open>Pop\<close>
  on no elements: an error of the transient, while the persistent vector returns the empty vector.
\<close>

theorem transient_vector_refines:
  assumes "pv_inv v"
  shows "case tv_run (NewTransientVector (pv_list v)) ps of
      Ok t \<Rightarrow> \<exists>v' w t'. pv_run v ps = Some v' \<and> pv_inv v' \<and> pv_list v' = tv_array t \<and>
        tv_Persistent t = Ok (w, t') \<and> vec_inv w \<and> vec_list w = pv_list v' \<and> (\<forall>p. tv_step t' p = Err ETransientUsed)
    | Err e \<Rightarrow> \<exists>qs p rs v'. ps = qs @ p # rs \<and> pv_run v qs = Some v' \<and> refuses v' p e
    | Panic \<Rightarrow> False"
  using tv_run_refines [OF assms, of "NewTransientVector (pv_list v)" ps] tv_Persistent_correct
  by (fastforce simp: NewTransientVector_def split: outcome.splits)

theorem transient_vector_refines_witness:
  "\<exists>v'. pv_run (NewPersistentVector [1, 2 :: nat]) [TPop, TConj 5] = Some v' \<and> pv_list v' = [1, 5]"
  using transient_vector_refines [of "NewPersistentVector [1, 2 :: nat]" "[TPop, TConj 5]"]
    NewPersistentVector_correct [of "[1, 2 :: nat]"]
  by (auto simp: NewTransientVector_def tv_Pop_def tv_Conj_def tv_editable_def simp del: pv_run.simps)

text \<open>A walk over an array vector by elements and one by growing chunks see the same elements.\<close>

theorem chunked_walk:
  assumes "SeqFrom l i = Some s"
  shows "walk_chunks s = drop i l \<and> walk nil s = drop i l"
  using assms walk_drop [of s nil] walk_chunks_drop [of s] by (auto simp: SeqFrom_def split: if_splits)

theorem chunked_walk_witness:
  "walk_chunks \<lparr>as_vec = [1, 2, 3, 4 :: nat], as_i = 1, as_chunkLen = 0\<rparr> = [2, 3, 4]"
  using chunked_walk [of "[1, 2, 3, 4 :: nat]" 1 "\<lparr>as_vec = [1, 2, 3, 4], as_i = 1, as_chunkLen = 0\<rparr>" 0]
  by (simp add: SeqFrom_def)

section \<open>Sequences and queues\<close>

text \<open>
  A queue is first in, first out: what is conjoined to an empty queue comes back in
  order, by \<open>Peek\<close> and \<open>Pop\<close>, and leaves it empty.
\<close>

theorem queue_fifo:
  "\<exists>r. pq.drain VNil (length xs) (foldl q_Conj EmptyPersistentQueue xs) = Some (xs, r) \<and> q_inv r \<and> q_list r = []"
  by (rule pq.fifo) simp_all

text \<open>C34. The sequence of a queue is the list of its elements, and two queues are equal when these are, one by one.\<close>

theorem queue_seq_equality:
  assumes "q_inv q" "q_inv r"
  shows "q_Seq VNil q = Some (l_Box (q_list q)) \<and> l_Unbox VNil (l_Box (q_list q)) = Some (q_list q) \<and>
    q_Equals q r = Some (list_all2 valueEquiv (q_list q) (q_list r))"
  using q_Seq_ok [OF assms(1)] q_Equals_ok [OF assms] l_Box_ok l_Unbox_ok by metis

theorem queue_seq_equality_witness:
  "q_Equals (q_Conj EmptyPersistentQueue (VInt 1)) (q_Conj EmptyPersistentQueue (VInt 2)) = Some False"
proof -
  have "q_inv (q_Conj EmptyPersistentQueue (VInt i))" "q_list (q_Conj EmptyPersistentQueue (VInt i)) = [VInt i]" for i
    using q_Conj_ok [of EmptyPersistentQueue "VInt i"] by simp_all
  then show ?thesis
    using queue_seq_equality [of "q_Conj EmptyPersistentQueue (VInt 1)" "q_Conj EmptyPersistentQueue (VInt 2)"] by simp
qed

text \<open>
  C35. A range whose sums stay in the machine integers yields \<open>start\<close>, \<open>start + step\<close> and so
  on before \<open>end\<close>: a walk by \<open>Next\<close> folds over exactly those, the count is their number,
  and the index finds them. Near the largest integer the walk wraps instead of ending.
\<close>

theorem range_elements:
  assumes "r_inv l"
  shows "rs.each_seq (length (r_list l)) f a (Some l) = Some (foldl f a (r_list l)) \<and>
    sint (r_RawCount l) = int (length (r_list l)) \<and>
    r_ValueAtOr l (VInt k) d = (if 0 \<le> sint k \<and> sint k < int (length (r_list l)) then r_list l ! nat (sint k) else d) \<and>
    map_option (\<lambda>l. map_option r_First (r_Next l)) (NewRange 9223372036854775806 9223372036854775807 5) =
      Some (Some (VInt (- 9223372036854775805)))"
  using rs.each_seq [OF assms, of "length (r_list l)" f a] r_RawCount_ok [OF assms] r_ValueAtOr_ok [OF assms] range_wraps
  by blast

theorem range_elements_witness:
  "sint (r_RawCount \<lparr>r_start = 0, r_end = 10, r_step = 3\<rparr>) = 4"
proof -
  have s: "sint (0 :: i64) = 0" "sint (10 :: i64) = 10" "sint (3 :: i64) = 3" by code_simp+
  have "r_inv \<lparr>r_start = 0, r_end = 10, r_step = 3\<rparr>" by (simp add: r_inv_def s i64_bounds)
  from range_elements [OF this, of "\<lambda>a x. a" VNil 0 VNil] show ?thesis by (simp add: r_list_def range_size_def steps_def s)
qed

text \<open>
  C37. A list made from a slice unboxes to it; indexing finds its elements, but at the
  first index past its end the answer is \<open>nil\<close>, not the default.
\<close>

theorem list_roundtrip_and_index:
  "l_Unbox VNil (l_Box arr) = Some arr \<and> l_count (l_Box arr) = length arr \<and>
    l_ValueAtOr (l_Box arr) (VInt k) d =
      (if sint k < 0 then d
       else if nat (sint k) < length arr then arr ! nat (sint k)
       else if nat (sint k) = length arr then VNil
       else d)"
  using l_Unbox_ok [OF l_Box_ok(1), of VNil arr] l_count_length [OF l_Box_ok(1), of arr] l_ValueAtOr_ok [OF l_Box_ok(1), of arr k d]
  by (simp add: l_Box_ok)

end
