(* ===== verification/LG_Encoding.thy ===== *)
theory LG_Encoding
  imports LG_Value
begin

text \<open>
  The byte encodings of \<open>pkg/bytecode/encoding.go\<close>: LEB128 and zigzag varints,
  little-endian words, byte strings. A \<open>Writer\<close> appends to a buffer, so a write is the
  bytes it appends; a \<open>Reader\<close> is the bytes that are left and the count of those
  consumed. Errors of the underlying stream, other than its end, and the float methods
  are left out (a float is its 64 bits here).

  \<open>codec\<close> is the contract of a pair of a writer and a reader: what is written is read
  back, whatever follows. It is interpreted on every pair below.
\<close>

section \<open>Readers\<close>

record rd =
  rd_rest :: "u8 list"
  rd_pos :: nat

datatype dec_err =
    EEOF
  | EUnexpectedEOF
  | EVarint
  | EMagic
  | EFlags "16 word" "16 word"
  | EVersion "16 word"
  | ECapabilities u32
  | EOpcodeSet u64 u64
  | ECompressed
  | EStringRef u64
  | EStringMissing
  | ETagVersion u8 u8
  | ETag u8
  | EChunkIndex u64
  | EDeferredChunk u64
  | EInvalidText
  | EUnsupported
  | EOddPairs
  | EDepth

type_synonym 'a dec = "rd \<Rightarrow> (dec_err, 'a \<times> rd) outcome"

definition rret :: "'a \<Rightarrow> 'a dec" where
  "rret x = (\<lambda>r. Ok (x, r))"

definition rfail :: "dec_err \<Rightarrow> 'a dec" where
  "rfail e = (\<lambda>r. Err e)"

definition rpanic :: "'a dec" where
  "rpanic = (\<lambda>r. Panic)"

definition rbind :: "'a dec \<Rightarrow> ('a \<Rightarrow> 'b dec) \<Rightarrow> 'b dec" where
  "rbind m f = (\<lambda>r. obind (m r) (\<lambda>(x, r'). f x r'))"

text \<open>\<open>n\<close> items, one after the other.\<close>

fun read_list :: "nat \<Rightarrow> 'a dec \<Rightarrow> 'a list dec" where
  "read_list 0 d = rret []"
| "read_list (Suc n) d = rbind d (\<lambda>x. rbind (read_list n d) (\<lambda>xs. rret (x # xs)))"

text \<open>\<open>make([]T, n)\<close> panics when \<open>n\<close> elements of the size of \<open>T\<close> exceed the address space of the
  runtime, 2 to the 48 bytes (so also when the length is negative as an int); memory is otherwise taken
  to suffice. The elements read in a loop are values and strings, of 16 bytes.\<close>

definition makePanics :: "nat \<Rightarrow> u64 \<Rightarrow> bool" where
  "makePanics sz n \<longleftrightarrow> 2 ^ 48 < sz * unat n"

definition read_make :: "u64 \<Rightarrow> 'a dec \<Rightarrow> 'a list dec" where
  "read_make n d = (if makePanics 16 n then rpanic else read_list (unat n) d)"

section \<open>The encodings\<close>

definition ReadByte :: "u8 dec" where
  "ReadByte r = (case rd_rest r of [] \<Rightarrow> Err EEOF | b # bs \<Rightarrow> Ok (b, \<lparr>rd_rest = bs, rd_pos = rd_pos r + 1\<rparr>))"

text \<open>\<open>io.ReadFull\<close>.\<close>

definition ReadFull :: "nat \<Rightarrow> u8 list dec" where
  "ReadFull n r =
     (if n \<le> length (rd_rest r) then Ok (take n (rd_rest r), \<lparr>rd_rest = drop n (rd_rest r), rd_pos = rd_pos r + n\<rparr>)
      else if rd_rest r = [] then Err EEOF else Err EUnexpectedEOF)"

definition ReadBytes :: "u64 \<Rightarrow> u8 list dec" where
  "ReadBytes n = (if makePanics 1 n then rpanic else ReadFull (unat n))"

definition Skip :: "u64 \<Rightarrow> unit dec" where
  "Skip n = (if sint n < 0 then rfail EUnsupported
     else (\<lambda>r. if unat n \<le> length (rd_rest r)
       then Ok ((), \<lparr>rd_rest = drop (unat n) (rd_rest r), rd_pos = rd_pos r + unat n\<rparr>) else Err EEOF))"

function WriteVarint :: "u64 \<Rightarrow> u8 list" where
  "WriteVarint v = (let b = ucast (v AND 0x7f) :: u8; v' = drop_bit 7 v in
     if v' \<noteq> 0 then (b OR 0x80) # WriteVarint v' else [b])"
  by pat_completeness auto

lemma unat_drop_7: "unat (drop_bit 7 (v :: u64)) = unat v div 128"
  by (subst unat_drop_bit_eq) (simp add: drop_bit_eq_div)

lemma drop_bit_less: "drop_bit 7 (v :: u64) \<noteq> 0 \<Longrightarrow> unat (drop_bit 7 v) < unat v"
proof -
  assume "drop_bit 7 v \<noteq> 0"
  then have "0 < unat v" by (cases "v = 0") (auto simp: unat_gt_0)
  moreover have "unat (drop_bit 7 v) = unat v div 128" by (rule unat_drop_7)
  ultimately show ?thesis by simp
qed

termination WriteVarint
  by (relation "measure unat") (simp_all add: drop_bit_less)

declare WriteVarint.simps [simp del]

text \<open>At most \<open>n\<close> more bytes.\<close>

fun ReadVarintLoop :: "nat \<Rightarrow> u64 \<Rightarrow> nat \<Rightarrow> u64 dec" where
  "ReadVarintLoop 0 result shift = rfail EVarint"
| "ReadVarintLoop (Suc n) result shift = rbind ReadByte (\<lambda>b.
     let result' = result OR push_bit shift (ucast (b AND 0x7f)) in
     if b AND 0x80 = 0 then rret result' else ReadVarintLoop n result' (shift + 7))"

definition ReadVarint :: "u64 dec" where
  "ReadVarint = ReadVarintLoop 10 0 0"

definition WriteSvarint :: "i64 \<Rightarrow> u8 list" where
  "WriteSvarint v = WriteVarint (push_bit 1 v XOR signed_drop_bit 63 v)"

definition ReadSvarint :: "i64 dec" where
  "ReadSvarint = rbind ReadVarint (\<lambda>uv. rret (drop_bit 1 uv XOR - (uv AND 1)))"

fun put_le :: "nat \<Rightarrow> 'a::len word \<Rightarrow> u8 list" where
  "put_le 0 v = []"
| "put_le (Suc n) v = ucast v # put_le n (drop_bit 8 v)"

fun get_le :: "u8 list \<Rightarrow> 'a::len word" where
  "get_le [] = 0"
| "get_le (b # bs) = ucast b OR push_bit 8 (get_le bs)"

definition WriteUint16 :: "16 word \<Rightarrow> u8 list" where "WriteUint16 v = put_le 2 v"
definition WriteUint32 :: "u32 \<Rightarrow> u8 list" where "WriteUint32 v = put_le 4 v"
definition WriteInt32 :: "32 word \<Rightarrow> u8 list" where "WriteInt32 v = put_le 4 v"
definition WriteUint64 :: "u64 \<Rightarrow> u8 list" where "WriteUint64 v = put_le 8 v"

definition ReadUint16 :: "16 word dec" where "ReadUint16 = rbind (ReadFull 2) (\<lambda>bs. rret (get_le bs))"
definition ReadUint32 :: "u32 dec" where "ReadUint32 = rbind (ReadFull 4) (\<lambda>bs. rret (get_le bs))"
definition ReadInt32 :: "32 word dec" where "ReadInt32 = rbind (ReadFull 4) (\<lambda>bs. rret (get_le bs))"
definition ReadUint64 :: "u64 dec" where "ReadUint64 = rbind (ReadFull 8) (\<lambda>bs. rret (get_le bs))"

section \<open>What it means to read back\<close>

definition reads :: "'a dec \<Rightarrow> u8 list \<Rightarrow> 'a \<Rightarrow> bool" where
  "reads d bs x \<longleftrightarrow> (\<forall>rest p. d \<lparr>rd_rest = bs @ rest, rd_pos = p\<rparr> =
     Ok (x, \<lparr>rd_rest = rest, rd_pos = p + length bs\<rparr>))"

named_theorems reads_intros

lemma reads_ret [reads_intros]: "reads (rret x) [] x"
  by (simp add: reads_def rret_def)

lemma reads_bind [reads_intros]: "reads m a x \<Longrightarrow> reads (f x) b y \<Longrightarrow> reads (rbind m f) (a @ b) y"
  by (simp add: reads_def rbind_def add.assoc)

lemma reads_bind_nil: "reads m a x \<Longrightarrow> reads (f x) [] y \<Longrightarrow> reads (rbind m f) a y"
  using reads_bind [of m a x f "[]" y] by simp

lemma reads_bind_ret: "reads m a x \<Longrightarrow> reads (rbind m (\<lambda>x. rret (g x))) a (g x)"
  by (rule reads_bind_nil [OF _ reads_ret])

lemma reads_byte [reads_intros]: "reads ReadByte [b] b"
  by (simp add: reads_def ReadByte_def)

lemma reads_full [reads_intros]: "n = length bs \<Longrightarrow> reads (ReadFull n) bs bs"
  by (simp add: reads_def ReadFull_def)

lemma unat_of_nat_small: "int n < 2 ^ 63 \<Longrightarrow> unat (of_nat n :: u64) = n \<and> 0 \<le> sint (of_nat n :: u64)"
proof -
  assume n: "int n < 2 ^ 63"
  then have "unat (of_nat n :: u64) = n" by (simp add: unat_of_nat take_bit_nat_eq_self_iff)
  moreover have "sint (of_nat n :: u64) = int n"
    using n sint_word_of_int_in [of "int n"] by (simp add: i64_bounds)
  ultimately show ?thesis by simp
qed

lemma reads_bytes [reads_intros]: "length bs \<le> 2 ^ 48 \<Longrightarrow> reads (ReadBytes (of_nat (length bs))) bs bs"
  using unat_of_nat_small [of "length bs"] by (simp add: ReadBytes_def makePanics_def reads_full)

text \<open>The contract, and lists of coded items.\<close>

locale codec =
  fixes valid :: "'a \<Rightarrow> bool"
    and enc :: "'a \<Rightarrow> u8 list"
    and dec :: "'a dec"
  assumes reads: "valid x \<Longrightarrow> reads dec (enc x) x"
begin

lemma reads_list: "\<forall>x \<in> set xs. valid x \<Longrightarrow> reads (read_list (length xs) dec) (concat (map enc xs)) xs"
proof (induction xs)
  case (Cons x xs)
  then have "reads (read_list (length xs) dec) (concat (map enc xs)) xs" by simp
  then have "reads (rbind (read_list (length xs) dec) (\<lambda>xs. rret (x # xs))) (concat (map enc xs)) (x # xs)"
    by (rule reads_bind_ret)
  then show ?case using Cons.prems reads [of x] by (simp add: reads_bind)
qed (simp add: reads_ret)

lemma reads_make:
  assumes "\<forall>x \<in> set xs. valid x" "length xs \<le> 2 ^ 44"
  shows "reads (read_make (of_nat (length xs)) dec) (concat (map enc xs)) xs"
  using unat_of_nat_small [of "length xs"] reads_list [OF assms(1)] assms(2) by (simp add: read_make_def makePanics_def)

text \<open>A count and the items, as the tables of a module are written.\<close>

lemma reads_counted:
  assumes "reads ReadVarint cnt (of_nat (length xs))" "\<forall>x \<in> set xs. valid x" "length xs \<le> 2 ^ 44"
  shows "reads (rbind ReadVarint (\<lambda>n. read_make n dec)) (cnt @ concat (map enc xs)) xs"
  using reads_bind [OF assms(1), of "\<lambda>n. read_make n dec"] reads_make [OF assms(2,3)] by blast

end

section \<open>Round trips\<close>

lemma bit_127 [simp]: "bit (127 :: nat) j \<longleftrightarrow> j < 7" "bit (127 :: int) j \<longleftrightarrow> j < 7"
  using bit_mask_iff [of 7 j, where 'a = nat] bit_mask_iff [of 7 j, where 'a = int]
  by (auto simp: mask_eq_exp_minus_1)

lemma bit_128 [simp]: "bit (128 :: nat) j \<longleftrightarrow> j = 7" "bit (128 :: int) j \<longleftrightarrow> j = 7"
  using bit_exp_iff [of 7 j, where 'a = nat] bit_exp_iff [of 7 j, where 'a = int] by auto

lemma bit_double [simp]: "bit (v * 2 :: i64) n \<longleftrightarrow> n < 64 \<and> 0 < n \<and> bit v (n - 1)"
  using bit_push_bit_iff [of 1 v n] by (auto simp: push_bit_eq_mult dest: bit_imp_le_length)

lemma varint_step:
  "result OR push_bit s (v AND 127) OR push_bit (s + 7) (drop_bit 7 v) = result OR push_bit s (v :: u64)"
proof (rule bit_eqI)
  fix n
  consider "s + 7 \<le> n" "7 + (n - (s + 7)) = n - s" "7 \<le> n - s" | "\<not> s + 7 \<le> n" "s \<le> n \<Longrightarrow> n - s < 7" by linarith
  then show "bit (result OR push_bit s (v AND 127) OR push_bit (s + 7) (drop_bit 7 v)) n = bit (result OR push_bit s v) n"
    by cases (auto simp: bit_simps)
qed

lemma varint_low:
  "ucast (((ucast (v AND 127) :: u8) OR 128) AND 127) = (v AND 127 :: u64)"
  "ucast ((ucast (v AND 127) :: u8) AND 127) = (v AND 127 :: u64)"
  by (rule bit_eqI; auto simp: bit_simps)+

lemma varint_high:
  "((ucast (v AND 127 :: u64) :: u8) OR 128) AND 128 \<noteq> 0"
  "(ucast (v AND 127 :: u64) :: u8) AND 128 = 0"
proof -
  have "bit (((ucast (v AND 127) :: u8) OR 128) AND 128) 7" by (simp add: bit_simps)
  then show "((ucast (v AND 127) :: u8) OR 128) AND 128 \<noteq> 0" by auto
  show "(ucast (v AND 127) :: u8) AND 128 = 0"
    by (rule bit_eqI) (auto simp: bit_simps)
qed

lemma ReadVarintLoop_ok:
  "unat v < 2 ^ (7 * n) \<Longrightarrow> 0 < n \<Longrightarrow> reads (ReadVarintLoop n result s) (WriteVarint v) (result OR push_bit s v)"
proof (induction n arbitrary: v result s)
  case (Suc n)
  show ?case
  proof (cases "drop_bit 7 v = 0")
    case True
    have "\<not> bit v i" if "7 \<le> i" for i
    proof -
      have "bit (drop_bit 7 v) (i - 7) = bit v (7 + (i - 7))" by (simp add: bit_drop_bit_eq)
      with True that show ?thesis by simp
    qed
    then have "v AND 127 = v"
      by (intro bit_eqI) (auto simp: bit_simps not_less [symmetric])
    moreover have "WriteVarint v = [ucast (v AND 127)]"
      using True by (subst WriteVarint.simps) simp
    ultimately show ?thesis
      using varint_high(2) [of v] varint_low(2) [of v]
      by (auto simp: Let_def intro!: reads_bind [of _ "[_]" _ _ "[]", simplified] reads_byte reads_ret)
  next
    case False
    have u: "unat (drop_bit 7 v) < 2 ^ (7 * n)"
      using Suc.prems(1) by (simp add: unat_drop_7 less_mult_imp_div_less power_add)
    have n: "0 < n"
    proof (rule ccontr)
      assume "\<not> 0 < n"
      with u have "unat (drop_bit 7 v) = 0" by simp
      with False show False by (simp add: unat_eq_zero)
    qed
    have w: "WriteVarint v = [ucast (v AND 127) OR 128] @ WriteVarint (drop_bit 7 v)"
      using False by (subst WriteVarint.simps) simp
    have "reads (ReadVarintLoop n (result OR push_bit s (v AND 127)) (s + 7)) (WriteVarint (drop_bit 7 v))
        (result OR push_bit s v)"
      using Suc.IH [OF u n, of "result OR push_bit s (v AND 127)" "s + 7"] by (simp only: or.assoc varint_step)
    then show ?thesis
      unfolding w ReadVarintLoop.simps
      by (intro reads_bind [OF reads_byte]) (simp add: Let_def varint_low(1) varint_high(1))
  qed
qed simp

interpretation varint: codec "\<lambda>_. True" WriteVarint ReadVarint
proof
  fix v :: u64
  have "unat v < 2 ^ (7 * 10)" using unsigned_less [of v, where 'a = nat] by simp
  then show "reads ReadVarint (WriteVarint v) v"
    using ReadVarintLoop_ok [of v 10 0 0] by (simp add: ReadVarint_def)
qed

text \<open>A read takes at most ten bytes, and the writer never makes more.\<close>

lemma length_WriteVarint: "unat v < 2 ^ (7 * n) \<Longrightarrow> 0 < n \<Longrightarrow> length (WriteVarint v) \<le> n"
proof (induction n arbitrary: v)
  case (Suc n)
  show ?case
  proof (cases "drop_bit 7 v = 0")
    case True
    then show ?thesis by (subst WriteVarint.simps) simp
  next
    case False
    have u: "unat (drop_bit 7 v) < 2 ^ (7 * n)"
      using Suc.prems(1) by (simp add: unat_drop_7 less_mult_imp_div_less power_add)
    have "0 < n" using u False by (cases n) (auto simp: unat_eq_zero)
    then show ?thesis using Suc.IH [OF u] False by (subst WriteVarint.simps) simp
  qed
qed simp

lemma zigzag: "drop_bit 1 (push_bit 1 v XOR signed_drop_bit 63 v) XOR - ((push_bit 1 v XOR signed_drop_bit 63 v) AND 1) = (v :: i64)"
proof -
  have s: "signed_drop_bit 63 v = (if bit v 63 then - 1 else 0)"
    by (rule bit_eqI) (auto simp: bit_signed_drop_bit_iff Suc_le_eq)
  have a: "(push_bit 1 v XOR signed_drop_bit 63 v) AND 1 = (if bit v 63 then 1 else 0)"
    unfolding s by (rule bit_eqI) (auto simp: bit_simps bit_1_iff)
  show ?thesis
    unfolding a unfolding s
  proof (rule bit_word_eqI)
    fix n assume "n < LENGTH(64)"
    then have "n < 63 \<or> n = 63" by auto
    then show "bit (drop_bit 1 (push_bit 1 v XOR (if bit v 63 then - 1 else 0)) XOR - (if bit v 63 then 1 else 0)) n = bit v n"
      by (auto simp: bit_simps)
  qed
qed

interpretation svarint: codec "\<lambda>_. True" WriteSvarint ReadSvarint
proof
  fix v :: i64
  show "reads ReadSvarint (WriteSvarint v) v"
    unfolding ReadSvarint_def WriteSvarint_def
    using reads_bind_ret [where g = "\<lambda>uv. drop_bit 1 uv XOR - (uv AND 1)",
      OF varint.reads [OF TrueI, where x = "push_bit 1 v XOR signed_drop_bit 63 v"]]
    by (simp only: zigzag)
qed

lemma length_put_le [simp]: "length (put_le n v) = n"
  by (induction n v rule: put_le.induct) simp_all

lemma get_put_le: "get_le (put_le n v) = take_bit (8 * n) v"
proof (induction n v rule: put_le.induct)
  case (2 n v)
  then show ?case by (intro bit_eqI) (auto simp: bit_simps)
qed simp

lemma reads_le: "8 * n = LENGTH('a) \<Longrightarrow> reads (rbind (ReadFull n) (\<lambda>bs. rret (get_le bs))) (put_le n v) (v :: 'a::len word)"
  using reads_bind_ret [OF reads_full [of n "put_le n v"], of "get_le :: u8 list \<Rightarrow> 'a word"]
  by (simp add: get_put_le)

interpretation uint16: codec "\<lambda>_. True" WriteUint16 ReadUint16
  by unfold_locales (simp add: WriteUint16_def ReadUint16_def reads_le)

interpretation uint32: codec "\<lambda>_. True" WriteUint32 ReadUint32
  by unfold_locales (simp add: WriteUint32_def ReadUint32_def reads_le)

interpretation int32: codec "\<lambda>_. True" WriteInt32 ReadInt32
  by unfold_locales (simp add: WriteInt32_def ReadInt32_def reads_le)

interpretation uint64: codec "\<lambda>_. True" WriteUint64 ReadUint64
  by unfold_locales (simp add: WriteUint64_def ReadUint64_def reads_le)

lemmas reads_prims [reads_intros] = varint.reads [OF TrueI] svarint.reads [OF TrueI] uint16.reads [OF TrueI]
  uint32.reads [OF TrueI] int32.reads [OF TrueI] uint64.reads [OF TrueI]

end
