(* ===== verification/LG_Codec.thy ===== *)
theory LG_Codec
  imports LG_Encoding
begin

text \<open>
  The encoding of constants: \<open>writeValue\<close> of \<open>pkg/bytecode/encoder.go\<close>, and
  \<open>readValueV2\<close> and \<open>skipValueV2\<close> of \<open>pkg/bytecode/decoder.go\<close>.

  A constant is the tree of what its tag carries: a decoded map is the list of
  entries given to \<open>NewPersistentMap\<close>, a record the arguments of \<open>NewRecord\<close>, a
  function the index of its chunk, a variable its two names. A Go string is its bytes, a
  Go int a 64-bit word. The parsers of UUIDs, instants and regular expressions are
  parameters: predicates on the text they accept.

  The decoder recurses once per level of nesting; \<open>fuel\<close> bounds that depth, and the
  length of the input is always enough, since every level reads its tag.
\<close>

type_synonym gostr = "u8 list"

text \<open>\<open>WEmptyList\<close> is the \<open>EmptyList\<close> object, \<open>WList []\<close> any other list without elements, as
  \<open>with-meta\<close> makes one: \<open>writeSeqConsts\<close>, which compares with that object only, walks it once and
  writes the nil that its \<open>First\<close> is.\<close>

datatype wval =
    WNil | WBool bool | WInt i64 | WFloat u64
  | WString gostr | WKeyword gostr | WSymbol gostr | WChar "32 word" | WBigInt int
  | WVoid | WUUID gostr | WInstant gostr
  | WFunc u64 u64 bool gostr
  | WVarRef gostr gostr
  | WEmptyList | WList "wval list" | WVector "wval list"
  | WMap "(wval \<times> wval) list" | WDefMeta "wval list" | WSet "wval list"
  | WRecordType gostr gostr "gostr list"
  | WRecord gostr gostr "gostr list" "wval list" "(wval \<times> wval) list"
  | WDType gostr gostr "gostr list" "wval list"
  | WRegex gostr | WAtom wval
  | WOther

section \<open>Writing\<close>

type_synonym out = "(dec_err, u8 list) outcome"

definition wcat :: "out \<Rightarrow> out \<Rightarrow> out" where
  "wcat a b = obind a (\<lambda>x. obind b (\<lambda>y. Ok (x @ y)))"

definition writeStringRef :: "(gostr \<Rightarrow> u64 option) \<Rightarrow> gostr \<Rightarrow> out" where
  "writeStringRef idx s = (case idx s of None \<Rightarrow> Err EStringMissing | Some i \<Rightarrow> Ok (WriteVarint i))"

fun writeStringRefs :: "(gostr \<Rightarrow> u64 option) \<Rightarrow> gostr list \<Rightarrow> out" where
  "writeStringRefs idx [] = Ok []"
| "writeStringRefs idx (s # ss) = wcat (writeStringRef idx s) (writeStringRefs idx ss)"

definition writeCount :: "'a list \<Rightarrow> out" where
  "writeCount xs = Ok (WriteVarint (of_nat (length xs)))"

text \<open>\<open>big.Int.Bytes\<close> and \<open>SetBytes\<close>: the magnitude, most significant byte first.\<close>

fun mag_bytes :: "nat \<Rightarrow> u8 list" where
  "mag_bytes n = (if n = 0 then [] else mag_bytes (n div 256) @ [of_nat (n mod 256)])"

declare mag_bytes.simps [simp del]

definition mag_value :: "u8 list \<Rightarrow> nat" where
  "mag_value bs = foldl (\<lambda>n b. 256 * n + unat b) 0 bs"

definition writeRecordType :: "(gostr \<Rightarrow> u64 option) \<Rightarrow> u8 \<Rightarrow> u8 \<Rightarrow> gostr \<Rightarrow> gostr \<Rightarrow> gostr list \<Rightarrow> out" where
  "writeRecordType idx tag nsTag ns name flds =
     wcat (if ns = [] then Ok [tag] else wcat (Ok [nsTag]) (writeStringRef idx ns))
       (wcat (writeStringRef idx name) (wcat (writeCount flds) (writeStringRefs idx flds)))"

function writeValue :: "(gostr \<Rightarrow> u64 option) \<Rightarrow> wval \<Rightarrow> out"
  and writeValues :: "(gostr \<Rightarrow> u64 option) \<Rightarrow> wval list \<Rightarrow> out"
  and writePairs :: "(gostr \<Rightarrow> u64 option) \<Rightarrow> (wval \<times> wval) list \<Rightarrow> out" where
  "writeValue idx WNil = Ok [0x00]"
| "writeValue idx (WBool b) = Ok [if b then 0x01 else 0x02]"
| "writeValue idx (WInt i) = wcat (Ok [0x03]) (Ok (WriteSvarint i))"
| "writeValue idx (WFloat bits) = wcat (Ok [0x04]) (Ok (WriteUint64 bits))"
| "writeValue idx (WString s) = wcat (Ok [0x05]) (writeStringRef idx s)"
| "writeValue idx (WKeyword s) = wcat (Ok [0x06]) (writeStringRef idx s)"
| "writeValue idx (WSymbol s) = wcat (Ok [0x07]) (writeStringRef idx s)"
| "writeValue idx (WChar c) = wcat (Ok [0x08]) (Ok (WriteInt32 c))"
| "writeValue idx (WBigInt n) = (let mag = mag_bytes (nat \<bar>n\<bar>) in
     wcat (Ok [0x09]) (wcat (Ok [if n < 0 then 1 else 0]) (wcat (writeCount mag) (Ok mag))))"
| "writeValue idx WVoid = Ok [0x0A]"
| "writeValue idx (WUUID s) = wcat (Ok [0x0B]) (writeStringRef idx s)"
| "writeValue idx (WInstant s) = wcat (Ok [0x0C]) (writeStringRef idx s)"
| "writeValue idx (WFunc chunk arity variadic name) =
     wcat (Ok [0x10]) (wcat (Ok (WriteVarint chunk)) (wcat (Ok (WriteVarint arity))
       (wcat (Ok [if variadic then 1 else 0]) (writeStringRef idx name))))"
| "writeValue idx (WVarRef ns name) = wcat (Ok [0x11]) (wcat (writeStringRef idx ns) (writeStringRef idx name))"
| "writeValue idx WEmptyList = Ok [0x20]"
| "writeValue idx (WList xs) = wcat (Ok [0x21]) (wcat (writeCount xs)
     (if xs = [] then Ok [0x00] else writeValues idx xs))"
| "writeValue idx (WDefMeta xs) =
     (if length xs mod 2 \<noteq> 0 then Err EOddPairs
      else wcat (Ok [0x63]) (wcat (Ok (WriteVarint (of_nat (length xs div 2)))) (writeValues idx xs)))"
| "writeValue idx (WVector xs) = wcat (Ok [0x22]) (wcat (writeCount xs) (writeValues idx xs))"
| "writeValue idx (WMap es) = wcat (Ok [0x23]) (wcat (writeCount es) (writePairs idx es))"
| "writeValue idx (WSet xs) = wcat (Ok [0x24]) (wcat (writeCount xs) (writeValues idx xs))"
| "writeValue idx (WRecordType ns name flds) = writeRecordType idx 0x30 0x70 ns name flds"
| "writeValue idx (WRecord ns name flds vals extra) =
     wcat (writeRecordType idx 0x31 0x71 ns name flds)
       (wcat (writeValues idx vals) (wcat (writeCount extra) (writePairs idx extra)))"
| "writeValue idx (WRegex s) = wcat (Ok [0x32]) (writeStringRef idx s)"
| "writeValue idx (WDType ns name flds vals) =
     (if ns = [] then Err EUnsupported
      else wcat (Ok [0x34]) (wcat (writeStringRef idx ns) (wcat (writeStringRef idx name)
        (wcat (writeCount flds) (wcat (writeStringRefs idx flds) (writeValues idx vals))))))"
| "writeValue idx (WAtom v) = wcat (Ok [0x33]) (writeValue idx v)"
| "writeValue idx WOther = Err EUnsupported"
| "writeValues idx [] = Ok []"
| "writeValues idx (v # vs) = wcat (writeValue idx v) (writeValues idx vs)"
| "writePairs idx [] = Ok []"
| "writePairs idx ((k, v) # es) = wcat (writeValue idx k) (wcat (writeValue idx v) (writePairs idx es))"
  by pat_completeness auto

termination
  by (relation "measure (case_sum (\<lambda>(_, v). size v)
      (case_sum (\<lambda>(_, vs). size_list size vs) (\<lambda>(_, es). size_list (size_prod size size) es)))") auto

section \<open>Reading\<close>

record dctx =
  dc_strings :: "gostr list"
  dc_chunks :: "bool list" \<comment> \<open>one entry per chunk: whether it is decoded, or nil, of a deferred namespace\<close>
  dc_uuid :: "gostr \<Rightarrow> bool"
  dc_inst :: "gostr \<Rightarrow> bool"
  dc_regex :: "gostr \<Rightarrow> bool"

definition readStringRef :: "gostr list \<Rightarrow> gostr dec" where
  "readStringRef strings = rbind ReadVarint (\<lambda>idx.
     if int (length strings) \<le> sint idx then rfail (EStringRef idx)
     else if sint idx < 0 then rpanic
     else rret (strings ! unat idx))"

definition isKnownTagID :: "u8 \<Rightarrow> bool" where
  "isKnownTagID i \<longleftrightarrow> i \<in> set [0x00, 0x01, 0x02, 0x03, 0x04, 0x05, 0x06, 0x07, 0x08, 0x09, 0x0A, 0x0B, 0x0C,
     0x10, 0x11, 0x20, 0x21, 0x22, 0x23, 0x24, 0x30, 0x31, 0x32, 0x33, 0x34]"

definition tagVersionSupported :: "u8 \<Rightarrow> u8 \<Rightarrow> bool" where
  "tagVersionSupported i ver \<longleftrightarrow> ver = 0 \<or> ver = 1 \<and> (i = 0x23 \<or> i = 0x30 \<or> i = 0x31)"

definition tagID :: "u8 \<Rightarrow> u8" where "tagID b = b AND 0x3f"
definition tagVer :: "u8 \<Rightarrow> u8" where "tagVer b = drop_bit 6 b"

text \<open>\<open>for i := 0; i < int(n); i++\<close>.\<close>

definition read_loop :: "u64 \<Rightarrow> 'a dec \<Rightarrow> 'a list dec" where
  "read_loop n d = read_list (nat (sint n)) d"

text \<open>\<open>make([]T, 0, n)\<close>, of values.\<close>

definition make_cap :: "u64 \<Rightarrow> 'a dec \<Rightarrow> 'a dec" where
  "make_cap n d = (if makePanics 16 n then rpanic else d)"

definition read_pair :: "'a dec \<Rightarrow> ('a \<times> 'a) dec" where
  "read_pair d = rbind d (\<lambda>k. rbind d (\<lambda>v. rret (k, v)))"

definition readFuncRest :: "dctx \<Rightarrow> u64 \<Rightarrow> wval dec" where
  "readFuncRest d chunkIdx =
     (if int (length (dc_chunks d)) \<le> sint chunkIdx then rfail (EChunkIndex chunkIdx)
      else rbind ReadVarint (\<lambda>arity. rbind ReadByte (\<lambda>variadic. rbind (readStringRef (dc_strings d)) (\<lambda>name.
        if sint chunkIdx < 0 then rpanic
        else if \<not> dc_chunks d ! unat chunkIdx then rfail (EDeferredChunk chunkIdx)
        else rret (WFunc chunkIdx arity (variadic \<noteq> 0) name)))))"

definition readRecordTypeV2 :: "dctx \<Rightarrow> u8 \<Rightarrow> (gostr \<times> gostr \<times> gostr list) dec" where
  "readRecordTypeV2 d ver =
     rbind (if ver = 1 then readStringRef (dc_strings d) else rret []) (\<lambda>ns.
     rbind (readStringRef (dc_strings d)) (\<lambda>name.
     rbind ReadVarint (\<lambda>fieldCount.
     rbind (read_make fieldCount (readStringRef (dc_strings d))) (\<lambda>flds. rret (ns, name, flds)))))"

definition readVectorBatch :: "wval dec \<Rightarrow> wval dec" where
  "readVectorBatch rv = rbind ReadVarint (\<lambda>n. rbind (read_make n rv) (\<lambda>xs. rret (WVector xs)))"

definition readDefMetaPairs :: "wval dec \<Rightarrow> wval dec" where
  "readDefMetaPairs rv = rbind ReadVarint (\<lambda>n. rbind (read_make (n * 2) rv) (\<lambda>xs. rret (WDefMeta xs)))"

definition readMapBatch :: "wval dec \<Rightarrow> (wval \<times> wval) list dec" where
  "readMapBatch rv = rbind ReadVarint (\<lambda>n. make_cap (n * 2) (read_loop n (read_pair rv)))"

definition readSetBatch :: "wval dec \<Rightarrow> wval dec" where
  "readSetBatch rv = rbind ReadVarint (\<lambda>n. make_cap n (rbind (read_loop n rv) (\<lambda>xs. rret (WSet xs))))"

definition readText :: "dctx \<Rightarrow> (gostr \<Rightarrow> bool) \<Rightarrow> (gostr \<Rightarrow> wval) \<Rightarrow> wval dec" where
  "readText d ok c = rbind (readStringRef (dc_strings d)) (\<lambda>s. if ok s then rret (c s) else rfail EInvalidText)"

definition readValueV2Tagged :: "dctx \<Rightarrow> wval dec \<Rightarrow> u8 \<Rightarrow> wval dec" where
  "readValueV2Tagged d rv tagByte = (let i = tagID tagByte; ver = tagVer tagByte; str = readStringRef (dc_strings d) in
     if isKnownTagID i \<and> \<not> tagVersionSupported i ver then rfail (ETagVersion ver i)
     else if i = 0x00 then rret WNil
     else if i = 0x01 then rret (WBool True)
     else if i = 0x02 then rret (WBool False)
     else if i = 0x03 then rbind ReadSvarint (\<lambda>v. rret (WInt v))
     else if i = 0x04 then rbind ReadUint64 (\<lambda>v. rret (WFloat v))
     else if i = 0x05 then rbind str (\<lambda>s. rret (WString s))
     else if i = 0x06 then rbind str (\<lambda>s. rret (WKeyword s))
     else if i = 0x07 then rbind str (\<lambda>s. rret (WSymbol s))
     else if i = 0x08 then rbind ReadInt32 (\<lambda>c. rret (WChar c))
     else if i = 0x09 then rbind ReadByte (\<lambda>sign. rbind ReadVarint (\<lambda>n. rbind (ReadBytes n) (\<lambda>mag.
       rret (WBigInt (if sign \<noteq> 0 then - int (mag_value mag) else int (mag_value mag))))))
     else if i = 0x0A then rret WVoid
     else if i = 0x0B then readText d (dc_uuid d) WUUID
     else if i = 0x0C then readText d (dc_inst d) WInstant
     else if i = 0x10 then rbind ReadVarint (readFuncRest d)
     else if i = 0x11 then rbind str (\<lambda>ns. rbind str (\<lambda>name. rret (WVarRef ns name)))
     else if i = 0x20 then rret WEmptyList
     else if i = 0x21 then rbind ReadVarint (\<lambda>n. rbind (read_make n rv) (\<lambda>xs. rret (if xs = [] then WEmptyList else WList xs)))
     else if i = 0x22 then readVectorBatch rv
     else if i = 0x23 then if ver = 1 then readDefMetaPairs rv else rbind (readMapBatch rv) (\<lambda>es. rret (WMap es))
     else if i = 0x24 then readSetBatch rv
     else if i = 0x30 then rbind (readRecordTypeV2 d ver) (\<lambda>(ns, name, flds). rret (WRecordType ns name flds))
     else if i = 0x31 then rbind (readRecordTypeV2 d ver) (\<lambda>(ns, name, flds).
       rbind (read_list (length flds) rv) (\<lambda>vals. rbind (readMapBatch rv) (\<lambda>extra. rret (WRecord ns name flds vals extra))))
     else if i = 0x34 then rbind str (\<lambda>ns. rbind str (\<lambda>name. rbind ReadVarint (\<lambda>n. rbind (read_make n str) (\<lambda>flds.
       rbind (read_list (unat n) rv) (\<lambda>vals. rret (WDType ns name flds vals))))))
     else if i = 0x32 then readText d (dc_regex d) WRegex
     else if i = 0x33 then rbind rv (\<lambda>v. rret (WAtom v))
     else rfail (ETag i))"

fun readValueV2 :: "nat \<Rightarrow> dctx \<Rightarrow> wval dec" where
  "readValueV2 0 d = rfail EDepth"
| "readValueV2 (Suc fuel) d = rbind ReadByte (readValueV2Tagged d (readValueV2 fuel d))"

section \<open>Skipping\<close>

definition skip_n :: "nat \<Rightarrow> 'a dec \<Rightarrow> unit dec" where
  "skip_n n d = rbind (read_list n d) (\<lambda>_. rret ())"

definition skip_varints :: "int \<Rightarrow> unit dec" where
  "skip_varints n = skip_n (nat n) ReadVarint"

definition skipValueV2Tagged :: "unit dec \<Rightarrow> u8 \<Rightarrow> unit dec" where
  "skipValueV2Tagged sv tagByte = (let i = tagID tagByte; ver = tagVer tagByte; values = (\<lambda>n :: u64. skip_n (unat n) sv) in
     if isKnownTagID i \<and> \<not> tagVersionSupported i ver then rfail (ETagVersion ver i)
     else if i \<in> set [0x00, 0x01, 0x02, 0x0A, 0x20] then rret ()
     else if i = 0x03 then rbind ReadSvarint (\<lambda>_. rret ())
     else if i = 0x04 then Skip 8
     else if i \<in> set [0x05, 0x06, 0x07, 0x0B, 0x0C, 0x32] then skip_varints 1
     else if i = 0x08 then Skip 4
     else if i = 0x09 then rbind ReadByte (\<lambda>_. rbind ReadVarint (\<lambda>n. Skip n))
     else if i = 0x10 then rbind (skip_varints 2) (\<lambda>_. rbind ReadByte (\<lambda>_. skip_varints 1))
     else if i = 0x11 then skip_varints 2
     else if i \<in> set [0x21, 0x22, 0x24] then rbind ReadVarint values
     else if i = 0x23 then rbind ReadVarint (\<lambda>n. values (n * 2))
     else if i = 0x30 then rbind (skip_varints (1 + uint ver)) (\<lambda>_. rbind ReadVarint (\<lambda>n. skip_varints (sint n)))
     else if i = 0x31 then rbind (skip_varints (1 + uint ver)) (\<lambda>_. rbind ReadVarint (\<lambda>n. rbind (skip_varints (sint n)) (\<lambda>_.
       rbind (values n) (\<lambda>_. rbind ReadVarint (\<lambda>extra. values (extra * 2))))))
     else if i = 0x34 then rbind (skip_varints 2) (\<lambda>_. rbind ReadVarint (\<lambda>n. rbind (skip_varints (sint n)) (\<lambda>_. values n)))
     else if i = 0x33 then sv
     else rfail (ETag i))"

fun skipValueV2 :: "nat \<Rightarrow> unit dec" where
  "skipValueV2 0 = rfail EDepth"
| "skipValueV2 (Suc fuel) = rbind ReadByte (skipValueV2Tagged (skipValueV2 fuel))"

section \<open>Constants that can be written\<close>

definition small :: "nat \<Rightarrow> bool" where
  "small n \<longleftrightarrow> n \<le> 2 ^ 43"

function wf_wval :: "dctx \<Rightarrow> wval \<Rightarrow> bool" where
  "wf_wval d v = (case v of
     WBigInt n \<Rightarrow> small (length (mag_bytes (nat \<bar>n\<bar>)))
   | WUUID s \<Rightarrow> dc_uuid d s
   | WInstant s \<Rightarrow> dc_inst d s
   | WRegex s \<Rightarrow> dc_regex d s
   | WFunc chunk arity variadic name \<Rightarrow>
       0 \<le> sint chunk \<and> sint chunk < int (length (dc_chunks d)) \<and> dc_chunks d ! unat chunk
   | WList xs \<Rightarrow> xs \<noteq> [] \<and> small (length xs) \<and> (\<forall>x \<in> set xs. wf_wval d x)
   | WVector xs \<Rightarrow> small (length xs) \<and> (\<forall>x \<in> set xs. wf_wval d x)
   | WSet xs \<Rightarrow> small (length xs) \<and> (\<forall>x \<in> set xs. wf_wval d x)
   | WDefMeta xs \<Rightarrow> small (length xs) \<and> (\<forall>x \<in> set xs. wf_wval d x)
   | WMap es \<Rightarrow> small (length es) \<and> (\<forall>(k, x) \<in> set es. wf_wval d k \<and> wf_wval d x)
   | WRecordType ns name flds \<Rightarrow> small (length flds)
   | WRecord ns name flds vals extra \<Rightarrow> small (length flds) \<and> length vals = length flds \<and>
       (\<forall>x \<in> set vals. wf_wval d x) \<and> small (length extra) \<and> (\<forall>(k, x) \<in> set extra. wf_wval d k \<and> wf_wval d x)
   | WDType ns name flds vals \<Rightarrow> small (length flds) \<and> length vals = length flds \<and> (\<forall>x \<in> set vals. wf_wval d x)
   | WAtom x \<Rightarrow> wf_wval d x
   | _ \<Rightarrow> True)"
  by pat_completeness auto

lemma size_pair_mem: "(k, x) \<in> set es \<Longrightarrow> size k < size_list (size_prod size size) es \<and> size x < size_list (size_prod size size) es"
  by (induction es) auto

lemma size_list_mem: "(x :: wval) \<in> set xs \<Longrightarrow> size x < size_list size xs"
  by (induction xs) auto

termination wf_wval
  by (relation "measure (\<lambda>(_, v). size v)") (auto dest!: size_pair_mem size_list_mem)

declare wf_wval.simps [simp del]

lemmas wf_wval_cons =
  wf_wval.simps [of d "WList xs" for d xs, simplified wval.case]
  wf_wval.simps [of d "WVector xs" for d xs, simplified wval.case]
  wf_wval.simps [of d "WSet xs" for d xs, simplified wval.case]
  wf_wval.simps [of d "WDefMeta xs" for d xs, simplified wval.case]
  wf_wval.simps [of d "WMap es" for d es, simplified wval.case]
  wf_wval.simps [of d "WRecordType ns name flds" for d ns name flds, simplified wval.case]
  wf_wval.simps [of d "WRecord ns name flds vals extra" for d ns name flds vals extra, simplified wval.case]
  wf_wval.simps [of d "WDType ns name flds vals" for d ns name flds vals, simplified wval.case]
  wf_wval.simps [of d "WAtom x" for d x, simplified wval.case]
  wf_wval.simps [of d "WBigInt n" for d n, simplified wval.case]
  wf_wval.simps [of d "WUUID s" for d s, simplified wval.case]
  wf_wval.simps [of d "WInstant s" for d s, simplified wval.case]
  wf_wval.simps [of d "WRegex s" for d s, simplified wval.case]
  wf_wval.simps [of d "WFunc chunk arity variadic name" for d chunk arity variadic name, simplified wval.case]

function wdepth :: "wval \<Rightarrow> nat" and wdepths :: "wval list \<Rightarrow> nat" and pdepths :: "(wval \<times> wval) list \<Rightarrow> nat" where
  "wdepth v = (case v of
     WList xs \<Rightarrow> Suc (wdepths xs)
   | WVector xs \<Rightarrow> Suc (wdepths xs)
   | WSet xs \<Rightarrow> Suc (wdepths xs)
   | WDefMeta xs \<Rightarrow> Suc (wdepths xs)
   | WMap es \<Rightarrow> Suc (pdepths es)
   | WRecord ns name flds vals extra \<Rightarrow> Suc (max (wdepths vals) (pdepths extra))
   | WDType ns name flds vals \<Rightarrow> Suc (wdepths vals)
   | WAtom x \<Rightarrow> Suc (wdepth x)
   | _ \<Rightarrow> 0)"
| "wdepths [] = 0"
| "wdepths (v # vs) = max (wdepth v) (wdepths vs)"
| "pdepths [] = 0"
| "pdepths ((k, v) # es) = max (max (wdepth k) (wdepth v)) (pdepths es)"
  by pat_completeness auto

termination
  by (relation "measure (case_sum size (case_sum (size_list size) (size_list (size_prod size size))))") auto

declare wdepth.simps [simp del]

text \<open>The string index of an encoder: the last position of each string of the table.\<close>

fun strIndex :: "gostr list \<Rightarrow> nat \<Rightarrow> gostr \<Rightarrow> u64 option" where
  "strIndex [] i s = None"
| "strIndex (t # ts) i s = (case strIndex ts (Suc i) s of
     Some j \<Rightarrow> Some j | None \<Rightarrow> if t = s then Some (of_nat i) else None)"

definition idx_ok :: "gostr list \<Rightarrow> (gostr \<Rightarrow> u64 option) \<Rightarrow> bool" where
  "idx_ok strings idx \<longleftrightarrow> (\<forall>s i. idx s = Some i \<longrightarrow> 0 \<le> sint i \<and> sint i < int (length strings) \<and> strings ! unat i = s)"

lemma strIndex_nth:
  "strIndex ts i s = Some j \<Longrightarrow> \<exists>n. i \<le> n \<and> n < i + length ts \<and> j = of_nat n \<and> ts ! (n - i) = s"
proof (induction ts i s rule: strIndex.induct)
  case (2 t ts i s)
  show ?case
  proof (cases "strIndex ts (Suc i) s")
    case None
    with 2 show ?thesis by (intro exI [of _ i]) (auto split: if_splits)
  next
    case (Some j')
    with 2 obtain n where "Suc i \<le> n" "n < Suc i + length ts" "j = of_nat n" "ts ! (n - Suc i) = s" by auto
    then show ?thesis by (intro exI [of _ n]) (auto simp: nth_Cons')
  qed
qed simp

lemma strIndex_ok: "int (length strings) < 2 ^ 63 \<Longrightarrow> idx_ok strings (strIndex strings 0)"
  unfolding idx_ok_def
proof (intro allI impI)
  fix s i assume l: "int (length strings) < 2 ^ 63" and "strIndex strings 0 s = Some i"
  then obtain n where n: "n < length strings" "i = of_nat n" "strings ! n = s" using strIndex_nth by fastforce
  then have u: "unat i = n" "0 \<le> sint i" using unat_of_nat_small [of n] l by auto
  have "sint i = int n"
    using n(1,2) l sint_word_of_int_in [of "int n"] by (simp add: i64_bounds)
  with n u show "0 \<le> sint i \<and> sint i < int (length strings) \<and> strings ! unat i = s" by simp
qed

lemma strIndex_Some: "s \<in> set ts \<Longrightarrow> strIndex ts i s \<noteq> None"
  by (induction ts i s rule: strIndex.induct) (auto split: option.splits)

section \<open>Round trip\<close>

lemma wcat_eq_Ok [simp]: "wcat a b = Ok bs \<longleftrightarrow> (\<exists>x y. a = Ok x \<and> b = Ok y \<and> bs = x @ y)"
  by (auto simp: wcat_def)

lemma reads_ref:
  assumes "idx_ok strings idx" "writeStringRef idx s = Ok bs"
  shows "reads (readStringRef strings) bs s"
proof -
  obtain i where i: "idx s = Some i" "bs = WriteVarint i"
    using assms(2) by (auto simp: writeStringRef_def split: option.splits)
  with assms(1) have "0 \<le> sint i" "sint i < int (length strings)" "strings ! unat i = s" by (auto simp: idx_ok_def)
  then show ?thesis
    unfolding readStringRef_def i(2)
    by (intro reads_bind_nil [OF varint.reads]) (auto intro: reads_ret)
qed

lemma reads_refs:
  "idx_ok strings idx \<Longrightarrow> writeStringRefs idx ss = Ok bs \<Longrightarrow> reads (read_list (length ss) (readStringRef strings)) bs ss"
proof (induction ss arbitrary: bs)
  case (Cons s ss)
  then obtain a b where ab: "writeStringRef idx s = Ok a" "writeStringRefs idx ss = Ok b" "bs = a @ b" by auto
  with Cons reads_bind_ret [of "read_list (length ss) (readStringRef strings)" b ss "\<lambda>xs. s # xs"]
  show ?case by (auto intro: reads_bind reads_ref)
qed (simp add: reads_ret)

lemma small_make: "small n \<Longrightarrow> read_make (of_nat n) d = read_list n d" "small n \<Longrightarrow> read_loop (of_nat n) d = read_list n d"
  "small n \<Longrightarrow> unat (of_nat n :: u64) = n" "small n \<Longrightarrow> make_cap (of_nat n) d' = d'"
  "small n \<Longrightarrow> make_cap (of_nat n * 2) d' = d'" "small n \<Longrightarrow> read_make (of_nat n * 2) d = read_list (n * 2) d"
proof -
  assume "small n"
  then have n: "int n < 2 ^ 63" "int (n * 2) < 2 ^ 63" "16 * n \<le> 2 ^ 48" "16 * (n * 2) \<le> 2 ^ 48" by (simp_all add: small_def)
  have e: "of_nat n * 2 = (of_nat (n * 2) :: u64)" by simp
  have s: "sint (of_nat n :: u64) = int n" using n(1) sint_word_of_int_in [of "int n"] by (simp add: i64_bounds)
  have p: "\<not> makePanics 16 (of_nat n)" "\<not> makePanics 16 (of_nat (n * 2))"
    using unat_of_nat_small [OF n(1)] unat_of_nat_small [OF n(2)] n(3,4) by (simp_all only: makePanics_def not_less)
  show "read_make (of_nat n) d = read_list n d" "read_loop (of_nat n) d = read_list n d"
    "unat (of_nat n :: u64) = n" "make_cap (of_nat n) d' = d'"
    using unat_of_nat_small [OF n(1)] s p(1) by (simp_all add: read_make_def read_loop_def make_cap_def)
  show "make_cap (of_nat n * 2) d' = d'" "read_make (of_nat n * 2) d = read_list (n * 2) d"
    unfolding e using unat_of_nat_small [OF n(2)] p(2) by (simp_all add: read_make_def make_cap_def del: of_nat_mult)
qed

lemma mag_value_snoc: "mag_value (bs @ [b]) = 256 * mag_value bs + unat b"
  by (simp add: mag_value_def)

lemma mag_round: "mag_value (mag_bytes n) = n"
proof (induction n rule: mag_bytes.induct)
  case (1 n)
  show ?case
  proof (cases "n = 0")
    case False
    have "unat (of_nat (n mod 256) :: u8) = n mod 256" by (simp add: unat_of_nat)
    then show ?thesis using 1 [OF False] False by (subst mag_bytes.simps) (simp add: mag_value_snoc)
  qed (simp add: mag_bytes.simps mag_value_def)
qed

lemma tag_bits [simp]:
  "tagID 0x63 = 0x23" "tagVer 0x63 = 1" "tagID 0x70 = 0x30" "tagVer 0x70 = 1" "tagID 0x71 = 0x31" "tagVer 0x71 = 1"
  by code_simp+

lemma tag_bits0 [simp]: "t < 0x40 \<Longrightarrow> tagID t = t" "t < 0x40 \<Longrightarrow> tagVer t = 0"
proof -
  assume t: "t < 0x40"
  have m: "(0x3f :: u8) = mask 6" by (simp add: mask_eq_exp_minus_1)
  have "unat (take_bit 6 t) = unat t"
    using t by (simp add: unsigned_take_bit_eq take_bit_nat_eq_self word_less_nat_alt)
  then have "take_bit 6 t = t" by (rule unsigned_word_eqI)
  then show "tagID t = t" by (simp add: tagID_def m take_bit_eq_mask)
  have "unat t < 64" using t by (simp add: word_less_nat_alt)
  then have "unat (tagVer t) = 0" unfolding tagVer_def by (subst unat_drop_bit_eq) (simp add: drop_bit_eq_div)
  then show "tagVer t = 0" by (simp add: unat_eq_zero)
qed

text \<open>The body of the reader at the tags that the writer uses.\<close>

lemma tagged_leaves [simp]:
  "readValueV2Tagged d rv 0x00 = rret WNil"
  "readValueV2Tagged d rv 0x01 = rret (WBool True)"
  "readValueV2Tagged d rv 0x02 = rret (WBool False)"
  "readValueV2Tagged d rv 0x03 = rbind ReadSvarint (\<lambda>v. rret (WInt v))"
  "readValueV2Tagged d rv 0x04 = rbind ReadUint64 (\<lambda>v. rret (WFloat v))"
  "readValueV2Tagged d rv 0x05 = rbind (readStringRef (dc_strings d)) (\<lambda>s. rret (WString s))"
  "readValueV2Tagged d rv 0x06 = rbind (readStringRef (dc_strings d)) (\<lambda>s. rret (WKeyword s))"
  "readValueV2Tagged d rv 0x07 = rbind (readStringRef (dc_strings d)) (\<lambda>s. rret (WSymbol s))"
  "readValueV2Tagged d rv 0x08 = rbind ReadInt32 (\<lambda>c. rret (WChar c))"
  "readValueV2Tagged d rv 0x09 = rbind ReadByte (\<lambda>sign. rbind ReadVarint (\<lambda>n. rbind (ReadBytes n) (\<lambda>mag.
     rret (WBigInt (if sign \<noteq> 0 then - int (mag_value mag) else int (mag_value mag))))))"
  "readValueV2Tagged d rv 0x0A = rret WVoid"
  "readValueV2Tagged d rv 0x0B = readText d (dc_uuid d) WUUID"
  "readValueV2Tagged d rv 0x0C = readText d (dc_inst d) WInstant"
  "readValueV2Tagged d rv 0x10 = rbind ReadVarint (readFuncRest d)"
  "readValueV2Tagged d rv 0x11 = rbind (readStringRef (dc_strings d)) (\<lambda>ns.
     rbind (readStringRef (dc_strings d)) (\<lambda>name. rret (WVarRef ns name)))"
  "readValueV2Tagged d rv 0x20 = rret WEmptyList"
  "readValueV2Tagged d rv 0x32 = readText d (dc_regex d) WRegex"
  by (simp_all add: readValueV2Tagged_def Let_def isKnownTagID_def tagVersionSupported_def)

lemma tagged_nodes [simp]:
  "readValueV2Tagged d rv 0x21 = rbind ReadVarint (\<lambda>n. rbind (read_make n rv) (\<lambda>xs. rret (if xs = [] then WEmptyList else WList xs)))"
  "readValueV2Tagged d rv 0x22 = readVectorBatch rv"
  "readValueV2Tagged d rv 0x23 = rbind (readMapBatch rv) (\<lambda>es. rret (WMap es))"
  "readValueV2Tagged d rv 0x63 = readDefMetaPairs rv"
  "readValueV2Tagged d rv 0x24 = readSetBatch rv"
  "readValueV2Tagged d rv 0x30 = rbind (readRecordTypeV2 d 0) (\<lambda>(ns, name, flds). rret (WRecordType ns name flds))"
  "readValueV2Tagged d rv 0x70 = rbind (readRecordTypeV2 d 1) (\<lambda>(ns, name, flds). rret (WRecordType ns name flds))"
  "readValueV2Tagged d rv 0x31 = rbind (readRecordTypeV2 d 0) (\<lambda>(ns, name, flds). rbind (read_list (length flds) rv)
     (\<lambda>vals. rbind (readMapBatch rv) (\<lambda>extra. rret (WRecord ns name flds vals extra))))"
  "readValueV2Tagged d rv 0x71 = rbind (readRecordTypeV2 d 1) (\<lambda>(ns, name, flds). rbind (read_list (length flds) rv)
     (\<lambda>vals. rbind (readMapBatch rv) (\<lambda>extra. rret (WRecord ns name flds vals extra))))"
  "readValueV2Tagged d rv 0x34 = rbind (readStringRef (dc_strings d)) (\<lambda>ns. rbind (readStringRef (dc_strings d)) (\<lambda>name.
     rbind ReadVarint (\<lambda>n. rbind (read_make n (readStringRef (dc_strings d))) (\<lambda>flds.
     rbind (read_list (unat n) rv) (\<lambda>vals. rret (WDType ns name flds vals))))))"
  "readValueV2Tagged d rv 0x33 = rbind rv (\<lambda>v. rret (WAtom v))"
  by (simp_all add: readValueV2Tagged_def Let_def isKnownTagID_def tagVersionSupported_def)

lemma reads_value: "reads (readValueV2Tagged d (readValueV2 n d) t) bs v \<Longrightarrow> reads (readValueV2 (Suc n) d) (t # bs) v"
  using reads_bind [OF reads_byte [of t], of "readValueV2Tagged d (readValueV2 n d)" bs v] by simp

text \<open>A counted sequence: the varint, then the items.\<close>

lemma reads_count:
  "reads (f (of_nat (length xs))) bs y \<Longrightarrow> reads (rbind ReadVarint f) (WriteVarint (of_nat (length xs)) @ bs) y"
  by (rule reads_bind [OF varint.reads [OF TrueI]])

lemma reads_text: "idx_ok (dc_strings d) idx \<Longrightarrow> writeStringRef idx s = Ok bs \<Longrightarrow> ok s \<Longrightarrow> reads (readText d ok c) bs (c s)"
  unfolding readText_def by (rule reads_bind_nil [OF reads_ref]) (auto simp: reads_ret)

lemma reads_recordType:
  assumes "idx_ok (dc_strings d) idx" "small (length flds)" "writeRecordType idx t nt ns name flds = Ok bs"
  obtains b bs' where "bs = b # bs'" "b = (if ns = [] then t else nt)"
    "reads (readRecordTypeV2 d (if ns = [] then 0 else 1)) bs' (ns, name, flds)"
proof -
  obtain a n c f where bs: "(if ns = [] then Ok [t] else wcat (Ok [nt]) (writeStringRef idx ns)) = Ok a"
    "writeStringRef idx name = Ok n" "writeStringRefs idx flds = Ok f" "bs = a @ n @ WriteVarint (of_nat (length flds)) @ f"
    using assms(3) by (auto simp: writeRecordType_def writeCount_def)
  obtain x where x: "a = (if ns = [] then t else nt) # x"
    "reads (if (if ns = [] then 0 else 1 :: u8) = 1 then readStringRef (dc_strings d) else rret []) x ns"
  proof (cases "ns = []")
    case True
    with bs(1) that [of "[]"] show ?thesis by (simp add: reads_ret)
  next
    case False
    with bs(1) obtain r where "writeStringRef idx ns = Ok r" "a = nt # r" by auto
    with False that [of r] reads_ref [OF assms(1)] show ?thesis by simp
  qed
  have "reads (rbind (read_make (of_nat (length flds)) (readStringRef (dc_strings d))) (\<lambda>flds. rret (ns, name, flds))) f (ns, name, flds)"
    unfolding small_make(1) [OF assms(2)]
    using reads_bind_ret [OF reads_refs [OF assms(1) bs(3)], of "\<lambda>flds. (ns, name, flds)"] by simp
  then have "reads (readRecordTypeV2 d (if ns = [] then 0 else 1)) (x @ n @ WriteVarint (of_nat (length flds)) @ f) (ns, name, flds)"
    unfolding readRecordTypeV2_def
    by (intro reads_bind [OF x(2)] reads_bind [OF reads_ref [OF assms(1) bs(2)]] reads_count)
  with that x(1) bs(4) show ?thesis by simp
qed

lemma reads_mapBatch:
  assumes "small (length es)" "reads (read_list (length es) (read_pair rv)) bs es"
  shows "reads (readMapBatch rv) (WriteVarint (of_nat (length es)) @ bs) es"
  unfolding readMapBatch_def using assms by (intro reads_count) (simp add: small_make)

lemma wdepths_mem: "x \<in> set xs \<Longrightarrow> wdepth x \<le> wdepths xs"
  by (induction xs) auto

lemma reads_leaf: "reads m bs x \<Longrightarrow> reads (rbind m (\<lambda>x. rret (g x))) bs (g x)"
  by (rule reads_bind_ret)

lemma reads_list_append:
  "reads d a x \<Longrightarrow> reads (read_list n d) b xs \<Longrightarrow> reads (read_list (Suc n) d) (a @ b) (x # xs)"
  by (auto intro: reads_bind reads_bind_ret)

lemma reads_pair: "reads d a k \<Longrightarrow> reads d b x \<Longrightarrow> reads (read_pair d) (a @ b) (k, x)"
  unfolding read_pair_def by (auto intro: reads_bind reads_bind_ret)

lemma reads_vals:
  assumes "reads (read_list (length xs) rv) bs xs"
  shows "reads (rbind (read_list (length xs) rv) (\<lambda>xs. rret (g xs))) bs (g xs)"
  by (rule reads_bind_ret [OF assms])

text \<open>The leaves.\<close>

lemma leaf_reads:
  assumes idx: "idx_ok (dc_strings d) idx" and w: "writeValue idx v = Ok bs" and wf: "wf_wval d v"
  shows "v \<in> {WNil, WVoid, WEmptyList} \<Longrightarrow> reads (readValueV2 (Suc n) d) bs v"
    and "v = WBool b \<Longrightarrow> reads (readValueV2 (Suc n) d) bs v"
    and "v = WInt i \<Longrightarrow> reads (readValueV2 (Suc n) d) bs v"
    and "v = WFloat x \<Longrightarrow> reads (readValueV2 (Suc n) d) bs v"
    and "v \<in> {WString s, WKeyword s, WSymbol s} \<Longrightarrow> reads (readValueV2 (Suc n) d) bs v"
    and "v \<in> {WUUID s, WInstant s, WRegex s} \<Longrightarrow> reads (readValueV2 (Suc n) d) bs v"
    and "v = WChar c \<Longrightarrow> reads (readValueV2 (Suc n) d) bs v"
  using assms
  by (auto simp: wf_wval.simps simp del: readValueV2.simps
    intro!: reads_value reads_ret reads_leaf svarint.reads uint64.reads int32.reads reads_ref reads_text)

definition leaf :: "wval \<Rightarrow> bool" where
  "leaf v \<longleftrightarrow> (case v of WBigInt n \<Rightarrow> False | WFunc c ar va nm \<Rightarrow> False | WVarRef ns name \<Rightarrow> False | WList xs \<Rightarrow> False
     | WDefMeta xs \<Rightarrow> False | WVector xs \<Rightarrow> False | WMap es \<Rightarrow> False | WSet xs \<Rightarrow> False | WRecordType ns name flds \<Rightarrow> False
     | WRecord ns name flds vals extra \<Rightarrow> False | WDType ns name flds vals \<Rightarrow> False | WAtom x \<Rightarrow> False | _ \<Rightarrow> True)"

lemma leaves_read:
  assumes "idx_ok (dc_strings d) idx" "writeValue idx v = Ok bs" "wf_wval d v" "wdepth v < fuel" "leaf v"
  shows "reads (readValueV2 fuel d) bs v"
proof -
  obtain n where n: "fuel = Suc n" using assms(4) by (cases fuel) auto
  show ?thesis unfolding n using leaf_reads [OF assms(1-3)] assms(2,5)
    by (cases v) (simp_all add: leaf_def del: readValueV2.simps)
qed

lemma bigint_reads:
  assumes "writeValue idx (WBigInt z) = Ok bs" "wf_wval d (WBigInt z)"
  shows "reads (readValueV2 (Suc n) d) bs (WBigInt z)"
proof -
  let ?m = "mag_bytes (nat \<bar>z\<bar>)" let ?s = "if z < 0 then 1 else 0 :: u8"
  have m: "length ?m \<le> 2 ^ 48" using assms(2) by (simp add: wf_wval.simps small_def)
  have bs: "bs = 9 # [?s] @ WriteVarint (of_nat (length ?m)) @ ?m"
    using assms(1) by (auto simp: Let_def writeCount_def)
  have v: "WBigInt z = WBigInt (if ?s \<noteq> 0 then - int (mag_value ?m) else int (mag_value ?m))"
    by (simp add: mag_round)
  show ?thesis
    unfolding bs
  proof (rule reads_value)
    show "reads (readValueV2Tagged d (readValueV2 n d) 9) ([?s] @ WriteVarint (of_nat (length ?m)) @ ?m) (WBigInt z)"
      unfolding tagged_leaves v
      by (intro reads_bind [OF reads_byte] reads_count reads_bind_ret reads_bytes m)
  qed
qed

lemma func_reads:
  assumes "idx_ok (dc_strings d) idx" "writeValue idx (WFunc ch ar vr name) = Ok bs" "wf_wval d (WFunc ch ar vr name)"
  shows "reads (readValueV2 (Suc n) d) bs (WFunc ch ar vr name)"
proof -
  obtain r where r: "writeStringRef idx name = Ok r"
    "bs = 16 # WriteVarint ch @ WriteVarint ar @ [if vr then 1 else 0] @ r"
    using assms(2) by auto
  have ch: "0 \<le> sint ch" "sint ch < int (length (dc_chunks d))" "dc_chunks d ! unat ch" using assms(3) by (simp_all add: wf_wval.simps)
  have v: "WFunc ch ar vr name = WFunc ch ar ((if vr then 1 else 0 :: u8) \<noteq> 0) name" by simp
  have "reads (readFuncRest d ch) (WriteVarint ar @ [if vr then 1 else 0] @ r) (WFunc ch ar vr name)"
    unfolding readFuncRest_def v using ch
    by (auto intro!: reads_bind [OF varint.reads] reads_bind [OF reads_byte] reads_bind_nil [OF reads_ref [OF assms(1) r(1)]] reads_ret
      simp del: append_Cons)
  then show ?thesis
    unfolding r(2) by (intro reads_value) (auto intro: reads_bind [OF varint.reads])
qed

lemma varref_reads:
  assumes "idx_ok (dc_strings d) idx" "writeValue idx (WVarRef ns name) = Ok bs"
  shows "reads (readValueV2 (Suc n) d) bs (WVarRef ns name)"
proof -
  obtain a b where "writeStringRef idx ns = Ok a" "writeStringRef idx name = Ok b" "bs = 17 # a @ b"
    using assms(2) by auto
  then show ?thesis
    by (auto simp del: readValueV2.simps intro!: reads_value reads_bind reads_bind_ret reads_ref [OF assms(1)])
qed

text \<open>The nodes, over their items.\<close>

lemma seq_reads:
  fixes xs :: "wval list"
  assumes r: "reads (read_list (length xs) (readValueV2 n d)) bs xs" and l: "small (length xs)"
  shows "xs \<noteq> [] \<Longrightarrow> reads (readValueV2 (Suc n) d) (0x21 # WriteVarint (of_nat (length xs)) @ bs) (WList xs)"
    and "reads (readValueV2 (Suc n) d) (0x22 # WriteVarint (of_nat (length xs)) @ bs) (WVector xs)"
    and "reads (readValueV2 (Suc n) d) (0x24 # WriteVarint (of_nat (length xs)) @ bs) (WSet xs)"
proof -
  have "reads (rbind (read_list (length xs) (readValueV2 n d)) (\<lambda>xs. rret (if xs = [] then WEmptyList else WList xs))) bs (WList xs)"
    if "xs \<noteq> []"
    using reads_bind_ret [OF r, of "\<lambda>xs. if xs = [] then WEmptyList else WList xs"] that by simp
  then show "xs \<noteq> [] \<Longrightarrow> reads (readValueV2 (Suc n) d) (0x21 # WriteVarint (of_nat (length xs)) @ bs) (WList xs)"
    by (intro reads_value) (auto simp: small_make l intro!: reads_count)
  show "reads (readValueV2 (Suc n) d) (0x22 # WriteVarint (of_nat (length xs)) @ bs) (WVector xs)"
    by (intro reads_value) (auto simp: readVectorBatch_def small_make l intro!: reads_count reads_vals r)
  show "reads (readValueV2 (Suc n) d) (0x24 # WriteVarint (of_nat (length xs)) @ bs) (WSet xs)"
    by (intro reads_value) (auto simp: readSetBatch_def small_make l intro!: reads_count reads_vals r)
qed

lemma defmeta_reads:
  assumes "reads (read_list (length xs) (readValueV2 n d)) bs xs" "small (length xs)" "length xs mod 2 = 0"
  shows "reads (readValueV2 (Suc n) d) (0x63 # WriteVarint (of_nat (length xs div 2)) @ bs) (WDefMeta xs)"
proof -
  have e: "length xs div 2 * 2 = length xs" using assms(3) by auto
  have l: "small (length xs div 2)" using assms(2) by (simp add: small_def)
  have "reads (rbind (read_make (of_nat (length xs div 2) * 2) (readValueV2 n d)) (\<lambda>xs. rret (WDefMeta xs))) bs (WDefMeta xs)"
    unfolding small_make(6) [OF l] e by (rule reads_vals [OF assms(1)])
  then show ?thesis
    by (intro reads_value) (auto simp: readDefMetaPairs_def intro: reads_bind [OF varint.reads])
qed

lemma map_reads:
  assumes "reads (read_list (length es) (read_pair (readValueV2 n d))) bs es" "small (length es)"
  shows "reads (readValueV2 (Suc n) d) (0x23 # WriteVarint (of_nat (length es)) @ bs) (WMap es)"
  using reads_bind_ret [OF reads_mapBatch [OF assms(2,1)], of WMap] by (intro reads_value) simp

lemma recordtype_reads:
  assumes "idx_ok (dc_strings d) idx" "small (length flds)" "writeRecordType idx 0x30 0x70 ns name flds = Ok bs"
  shows "reads (readValueV2 (Suc n) d) bs (WRecordType ns name flds)"
proof -
  obtain b bs' where b: "bs = b # bs'" "b = (if ns = [] then 0x30 else 0x70)"
    "reads (readRecordTypeV2 d (if ns = [] then 0 else 1)) bs' (ns, name, flds)"
    using reads_recordType [OF assms] by blast
  then have "reads (rbind (readRecordTypeV2 d (if ns = [] then 0 else 1)) (\<lambda>(ns, name, flds). rret (WRecordType ns name flds)))
      bs' (WRecordType ns name flds)"
    by (intro reads_bind_nil [OF b(3)]) (simp add: reads_ret)
  then show ?thesis unfolding b(1,2) by (intro reads_value) (auto split: if_splits)
qed

lemma record_reads:
  assumes "idx_ok (dc_strings d) idx" "small (length flds)" "writeRecordType idx 0x31 0x71 ns name flds = Ok bs"
    and "length vals = length flds" "reads (read_list (length vals) (readValueV2 n d)) vs vals"
    and "small (length extra)" "reads (read_list (length extra) (read_pair (readValueV2 n d))) es extra"
  shows "reads (readValueV2 (Suc n) d) (bs @ vs @ WriteVarint (of_nat (length extra)) @ es) (WRecord ns name flds vals extra)"
proof -
  obtain b bs' where b: "bs = b # bs'" "b = (if ns = [] then 0x31 else 0x71)"
    "reads (readRecordTypeV2 d (if ns = [] then 0 else 1)) bs' (ns, name, flds)"
    using reads_recordType [OF assms(1-3)] by blast
  have x: "reads (rbind (readMapBatch (readValueV2 n d)) (\<lambda>extra. rret (WRecord ns name flds vals extra)))
      (WriteVarint (of_nat (length extra)) @ es) (WRecord ns name flds vals extra)"
    by (rule reads_bind_ret [OF reads_mapBatch [OF assms(6,7)]])
  have "reads (rbind (readRecordTypeV2 d (if ns = [] then 0 else 1)) (\<lambda>(ns, name, flds).
      rbind (read_list (length flds) (readValueV2 n d)) (\<lambda>vals. rbind (readMapBatch (readValueV2 n d))
        (\<lambda>extra. rret (WRecord ns name flds vals extra)))))
      (bs' @ vs @ WriteVarint (of_nat (length extra)) @ es) (WRecord ns name flds vals extra)"
    by (rule reads_bind [OF b(3)]) (use assms(4,5) x in \<open>auto intro: reads_bind\<close>)
  then show ?thesis unfolding b(1,2) append_Cons by (intro reads_value) (auto split: if_splits)
qed

lemma dtype_reads:
  assumes "idx_ok (dc_strings d) idx" "small (length flds)" "length vals = length flds"
    and "writeStringRef idx ns = Ok a" "writeStringRef idx name = Ok b" "writeStringRefs idx flds = Ok c"
    and "reads (read_list (length vals) (readValueV2 n d)) vs vals"
  shows "reads (readValueV2 (Suc n) d) (0x34 # a @ b @ WriteVarint (of_nat (length flds)) @ c @ vs) (WDType ns name flds vals)"
proof -
  have v: "reads (rbind (read_list (length flds) (readValueV2 n d)) (\<lambda>vals. rret (WDType ns name flds vals))) vs (WDType ns name flds vals)"
    using reads_vals [OF assms(7), of "WDType ns name flds"] assms(3) by simp
  show ?thesis
    by (intro reads_value)
      (auto simp: small_make assms(2) intro!: reads_bind reads_count reads_ref [OF assms(1,4)] reads_ref [OF assms(1,5)]
        reads_refs [OF assms(1,6)] v)
qed

lemma writeValue_reads:
  shows "idx_ok (dc_strings d) idx \<Longrightarrow> writeValue idx v = Ok bs \<Longrightarrow> wf_wval d v \<Longrightarrow> wdepth v < fuel \<Longrightarrow>
      reads (readValueV2 fuel d) bs v"
    and "idx_ok (dc_strings d) idx \<Longrightarrow> writeValues idx vs = Ok bss \<Longrightarrow> \<forall>x \<in> set vs. wf_wval d x \<Longrightarrow> wdepths vs < fuel \<Longrightarrow>
      reads (read_list (length vs) (readValueV2 fuel d)) bss vs"
    and "idx_ok (dc_strings d) idx \<Longrightarrow> writePairs idx es = Ok bsp \<Longrightarrow> \<forall>(k, x) \<in> set es. wf_wval d k \<and> wf_wval d x \<Longrightarrow>
      pdepths es < fuel \<Longrightarrow> reads (read_list (length es) (read_pair (readValueV2 fuel d))) bsp es"
proof (induction idx v and idx vs and idx es arbitrary: bs fuel and bss fuel and bsp fuel
    rule: writeValue_writeValues_writePairs.induct)
  case (9 idx n)
  then show ?case using bigint_reads by (cases fuel) (simp_all del: writeValue.simps readValueV2.simps)
next
  case (13 idx chunk arity variadic name)
  then show ?case using func_reads by (cases fuel) (simp_all del: writeValue.simps readValueV2.simps)
next
  case (14 idx ns name)
  then show ?case using varref_reads by (cases fuel) (simp_all del: writeValue.simps readValueV2.simps)
next
  case (16 idx xs)
  then have ne: "xs \<noteq> []" by (simp add: wf_wval_cons)
  with 16 obtain n b where n: "fuel = Suc n" "wdepths xs < n" and b: "writeValues idx xs = Ok b"
    "bs = 0x21 # WriteVarint (of_nat (length xs)) @ b"
    by (cases fuel) (auto simp: wdepth.simps writeCount_def)
  then show ?case using 16 seq_reads(1) by (simp add: wf_wval_cons del: readValueV2.simps)
next
  case (17 idx xs)
  then obtain n b where n: "fuel = Suc n" "wdepths xs < n" and b: "writeValues idx xs = Ok b" "length xs mod 2 = 0"
    "bs = 0x63 # WriteVarint (of_nat (length xs div 2)) @ b"
    by (cases fuel) (auto simp: wdepth.simps split: if_splits)
  then show ?case using 17 defmeta_reads by (simp add: wf_wval_cons del: readValueV2.simps)
next
  case (18 idx xs)
  then obtain n b where n: "fuel = Suc n" "wdepths xs < n" and b: "writeValues idx xs = Ok b"
    "bs = 0x22 # WriteVarint (of_nat (length xs)) @ b"
    by (cases fuel) (auto simp: wdepth.simps writeCount_def)
  then show ?case using 18 seq_reads(2) by (simp add: wf_wval_cons del: readValueV2.simps)
next
  case (19 idx es)
  then obtain n b where n: "fuel = Suc n" "pdepths es < n" and b: "writePairs idx es = Ok b"
    "bs = 0x23 # WriteVarint (of_nat (length es)) @ b"
    by (cases fuel) (auto simp: wdepth.simps writeCount_def)
  then show ?case using 19 map_reads by (simp add: wf_wval_cons del: readValueV2.simps)
next
  case (20 idx xs)
  then obtain n b where n: "fuel = Suc n" "wdepths xs < n" and b: "writeValues idx xs = Ok b"
    "bs = 0x24 # WriteVarint (of_nat (length xs)) @ b"
    by (cases fuel) (auto simp: wdepth.simps writeCount_def)
  then show ?case using 20 seq_reads(3) by (simp add: wf_wval_cons del: readValueV2.simps)
next
  case (21 idx ns name flds)
  then show ?case using recordtype_reads by (cases fuel) (simp_all add: wf_wval_cons del: readValueV2.simps)
next
  case (22 idx ns name flds vals extra)
  then obtain n a b c where n: "fuel = Suc n" "wdepths vals < n" "pdepths extra < n"
    and b: "writeRecordType idx 0x31 0x71 ns name flds = Ok a" "writeValues idx vals = Ok b" "writePairs idx extra = Ok c"
    "bs = a @ b @ WriteVarint (of_nat (length extra)) @ c"
    by (cases fuel) (auto simp: wdepth.simps writeCount_def)
  then show ?case using 22 record_reads by (simp add: wf_wval_cons del: readValueV2.simps)
next
  case (24 idx ns name flds vals)
  then obtain n a b c e where n: "fuel = Suc n" "wdepths vals < n" and ns: "ns \<noteq> []"
    and b: "writeStringRef idx ns = Ok a" "writeStringRef idx name = Ok b" "writeStringRefs idx flds = Ok c"
    "writeValues idx vals = Ok e" "bs = 0x34 # a @ b @ WriteVarint (of_nat (length flds)) @ c @ e"
    by (cases fuel) (auto simp: wdepth.simps writeCount_def split: if_splits)
  have wf: "small (length flds)" "length vals = length flds" "\<forall>x \<in> set vals. wf_wval d x"
    using 24(4) by (simp_all add: wf_wval_cons)
  show ?case unfolding n b(5)
    by (rule dtype_reads [OF 24(2) wf(1,2) b(1-3) 24(1) [OF ns 24(2) b(4) wf(3) n(2)]])
next
  case (25 idx v)
  then obtain n b where "fuel = Suc n" "wdepth v < n" "writeValue idx v = Ok b" "bs = 0x33 # b"
    by (cases fuel) (auto simp: wdepth.simps [of "WAtom v"])
  with 25 show ?case by (auto simp: wf_wval.simps [of d "WAtom v"] simp del: readValueV2.simps intro!: reads_value reads_bind_ret)
next
  case (28 idx v vs)
  then show ?case by (auto intro!: reads_list_append simp del: read_list.simps)
next
  case (30 idx k v es)
  then obtain a b c where "writeValue idx k = Ok a" "writeValue idx v = Ok b" "writePairs idx es = Ok c" "bsp = (a @ b) @ c" by auto
  with 30 show ?case by (auto intro!: reads_list_append reads_pair simp del: read_list.simps append_assoc)
qed (rule leaves_read; simp add: leaf_def; fail | simp add: reads_ret)+


section \<open>The fuel\<close>

text \<open>
  Every value starts with a tag byte, so fuel above the length of the input is never
  used up: a read (or a skip) ends with a value, a panic or an error of the code.
\<close>

named_theorems bounded_intros

definition bounded :: "nat \<Rightarrow> 'a dec \<Rightarrow> bool" where
  "bounded n d \<longleftrightarrow> (\<forall>r. length (rd_rest r) < n \<longrightarrow> (case d r of
     Ok (x, r') \<Rightarrow> length (rd_rest r') \<le> length (rd_rest r) | Err e \<Rightarrow> e \<noteq> EDepth | Panic \<Rightarrow> True))"

lemma bounded_ret [bounded_intros]: "bounded n (rret x)"
  by (simp add: bounded_def rret_def)

lemma bounded_fail [bounded_intros]: "e \<noteq> EDepth \<Longrightarrow> bounded n (rfail e)"
  by (simp add: bounded_def rfail_def)

lemma bounded_panic [bounded_intros]: "bounded n rpanic"
  by (simp add: bounded_def rpanic_def)

lemma boundedI:
  assumes "\<And>r x r'. length (rd_rest r) < n \<Longrightarrow> d r = Ok (x, r') \<Longrightarrow> length (rd_rest r') \<le> length (rd_rest r)"
    and "\<And>r. length (rd_rest r) < n \<Longrightarrow> d r \<noteq> Err EDepth"
  shows "bounded n d"
  using assms by (auto simp: bounded_def split: outcome.splits)

lemma boundedD:
  assumes "bounded n d" "length (rd_rest (r :: rd)) < n"
  shows "d r = Ok (x, r') \<Longrightarrow> length (rd_rest r') \<le> length (rd_rest r)" "d r \<noteq> Err EDepth"
  using assms by (auto simp: bounded_def split: outcome.splits)

lemma bounded_bind [bounded_intros]: "bounded n m \<Longrightarrow> (\<And>x. bounded n (f x)) \<Longrightarrow> bounded n (rbind m f)"
proof (rule boundedI)
  fix r :: rd assume m: "bounded n m" "length (rd_rest r) < n" and f: "\<And>x. bounded n (f x)"
  have le: "length (rd_rest r1) < n" "length (rd_rest r1) \<le> length (rd_rest r)" if "m r = Ok (x, r1)" for x r1
    using boundedD(1) [OF m that] m(2) by simp_all
  show "rbind m f r \<noteq> Err EDepth"
    using boundedD(2) [OF m] le(1) boundedD(2) [OF f] by (cases "m r") (auto simp: rbind_def)
  show "length (rd_rest r') \<le> length (rd_rest r)" if "rbind m f r = Ok (y, r')" for y r'
    using that le boundedD(1) [OF f] by (fastforce simp: rbind_def)
qed

lemma bounded_if [bounded_intros]: "(b \<Longrightarrow> bounded n c) \<Longrightarrow> (\<not> b \<Longrightarrow> bounded n d) \<Longrightarrow> bounded n (if b then c else d)"
  by simp

lemma bounded_prod [bounded_intros]: "(\<And>a b. bounded n (f a b)) \<Longrightarrow> bounded n (case p of (a, b) \<Rightarrow> f a b)"
  by (cases p) simp

lemma bounded_list [bounded_intros]: "bounded n d \<Longrightarrow> bounded n (read_list k d)"
  by (induction k) (auto intro!: bounded_intros)

lemma bounded_byte [bounded_intros]: "bounded n ReadByte"
  by (auto simp: bounded_def ReadByte_def split: list.splits)

lemma bounded_full [bounded_intros]: "bounded n (ReadFull k)"
  by (auto simp: bounded_def ReadFull_def)

lemma bounded_skip [bounded_intros]: "bounded n (Skip k)"
  by (auto simp: bounded_def Skip_def rfail_def)

lemma bounded_varintLoop: "bounded n (ReadVarintLoop k result s)"
  by (induction k arbitrary: result s) (auto simp: Let_def intro!: bounded_intros)

lemma bounded_prims [bounded_intros]: "bounded n ReadVarint" "bounded n ReadSvarint" "bounded n ReadUint64" "bounded n ReadInt32"
  "bounded n (ReadBytes k)" "bounded n (readStringRef strings)"
  by (auto simp: ReadVarint_def ReadSvarint_def ReadUint64_def ReadInt32_def ReadBytes_def readStringRef_def
    intro!: bounded_intros bounded_varintLoop)

lemmas reader_defs = read_make_def read_loop_def make_cap_def read_pair_def readFuncRest_def readRecordTypeV2_def
  readVectorBatch_def readDefMetaPairs_def readMapBatch_def readSetBatch_def readText_def

lemma bounded_tagged: "bounded n rv \<Longrightarrow> bounded n (readValueV2Tagged d rv t)"
  unfolding readValueV2Tagged_def Let_def reader_defs by (intro bounded_intros; simp)

lemma bounded_skipTagged: "bounded n sv \<Longrightarrow> bounded n (skipValueV2Tagged sv t)"
  unfolding skipValueV2Tagged_def Let_def skip_varints_def skip_n_def by (intro bounded_intros; simp)

lemma bounded_Suc: "(\<And>t. bounded n (f t)) \<Longrightarrow> bounded (Suc n) (rbind ReadByte f)"
proof (rule boundedI)
  fix r :: rd assume f: "\<And>t. bounded n (f t)" and r: "length (rd_rest r) < Suc n"
  show "rbind ReadByte f r \<noteq> Err EDepth"
    using r boundedD(2) [OF f] by (auto simp: rbind_def ReadByte_def split: list.splits)
  show "length (rd_rest r') \<le> length (rd_rest r)" if "rbind ReadByte f r = Ok (y, r')" for y r'
  proof -
    obtain b bs where "rd_rest r = b # bs" "f b \<lparr>rd_rest = bs, rd_pos = rd_pos r + 1\<rparr> = Ok (y, r')"
      using \<open>rbind ReadByte f r = Ok (y, r')\<close> by (auto simp: rbind_def ReadByte_def split: list.splits)
    with r boundedD(1) [OF f, of "\<lparr>rd_rest = bs, rd_pos = rd_pos r + 1\<rparr>" b y r'] show ?thesis by simp
  qed
qed

lemma readValueV2_bounded: "bounded fuel (readValueV2 fuel d)"
proof (induction fuel)
  case (Suc fuel)
  then show ?case by (auto intro: bounded_Suc bounded_tagged)
qed (simp add: bounded_def)

lemma skipValueV2_bounded: "bounded fuel (skipValueV2 fuel)"
proof (induction fuel)
  case (Suc fuel)
  then show ?case by (auto intro: bounded_Suc bounded_skipTagged)
qed (simp add: bounded_def)

section \<open>Skipping what was written\<close>

lemma skip_leaves [simp]:
  "skipValueV2Tagged sv 0x00 = rret ()" "skipValueV2Tagged sv 0x01 = rret ()" "skipValueV2Tagged sv 0x02 = rret ()"
  "skipValueV2Tagged sv 0x0A = rret ()" "skipValueV2Tagged sv 0x20 = rret ()"
  "skipValueV2Tagged sv 0x03 = rbind ReadSvarint (\<lambda>_. rret ())"
  "skipValueV2Tagged sv 0x04 = Skip 8" "skipValueV2Tagged sv 0x08 = Skip 4"
  "skipValueV2Tagged sv 0x05 = skip_varints 1" "skipValueV2Tagged sv 0x06 = skip_varints 1"
  "skipValueV2Tagged sv 0x07 = skip_varints 1" "skipValueV2Tagged sv 0x0B = skip_varints 1"
  "skipValueV2Tagged sv 0x0C = skip_varints 1" "skipValueV2Tagged sv 0x32 = skip_varints 1"
  "skipValueV2Tagged sv 0x09 = rbind ReadByte (\<lambda>_. rbind ReadVarint (\<lambda>n. Skip n))"
  "skipValueV2Tagged sv 0x10 = rbind (skip_varints 2) (\<lambda>_. rbind ReadByte (\<lambda>_. skip_varints 1))"
  "skipValueV2Tagged sv 0x11 = skip_varints 2"
  by (simp_all add: skipValueV2Tagged_def Let_def isKnownTagID_def tagVersionSupported_def)

lemma skip_nodes [simp]:
  "skipValueV2Tagged sv 0x21 = rbind ReadVarint (\<lambda>n. skip_n (unat n) sv)"
  "skipValueV2Tagged sv 0x22 = rbind ReadVarint (\<lambda>n. skip_n (unat n) sv)"
  "skipValueV2Tagged sv 0x24 = rbind ReadVarint (\<lambda>n. skip_n (unat n) sv)"
  "skipValueV2Tagged sv 0x23 = rbind ReadVarint (\<lambda>n. skip_n (unat (n * 2)) sv)"
  "skipValueV2Tagged sv 0x63 = rbind ReadVarint (\<lambda>n. skip_n (unat (n * 2)) sv)"
  "skipValueV2Tagged sv 0x30 = rbind (skip_varints 1) (\<lambda>_. rbind ReadVarint (\<lambda>n. skip_varints (sint n)))"
  "skipValueV2Tagged sv 0x70 = rbind (skip_varints 2) (\<lambda>_. rbind ReadVarint (\<lambda>n. skip_varints (sint n)))"
  "skipValueV2Tagged sv 0x31 = rbind (skip_varints 1) (\<lambda>_. rbind ReadVarint (\<lambda>n. rbind (skip_varints (sint n)) (\<lambda>_.
     rbind (skip_n (unat n) sv) (\<lambda>_. rbind ReadVarint (\<lambda>extra. skip_n (unat (extra * 2)) sv)))))"
  "skipValueV2Tagged sv 0x71 = rbind (skip_varints 2) (\<lambda>_. rbind ReadVarint (\<lambda>n. rbind (skip_varints (sint n)) (\<lambda>_.
     rbind (skip_n (unat n) sv) (\<lambda>_. rbind ReadVarint (\<lambda>extra. skip_n (unat (extra * 2)) sv)))))"
  "skipValueV2Tagged sv 0x34 = rbind (skip_varints 2) (\<lambda>_. rbind ReadVarint (\<lambda>n. rbind (skip_varints (sint n))
     (\<lambda>_. skip_n (unat n) sv)))"
  "skipValueV2Tagged sv 0x33 = sv"
  by (simp_all add: skipValueV2Tagged_def Let_def isKnownTagID_def tagVersionSupported_def)

lemma reads_skip: "reads (Skip (of_nat (length bs))) bs ()" if "int (length bs) < 2 ^ 63"
  using unat_of_nat_small [OF that] by (simp add: reads_def Skip_def)

lemma reads_skip_value: "reads (skipValueV2Tagged (skipValueV2 n) t) bs () \<Longrightarrow> reads (skipValueV2 (Suc n)) (t # bs) ()"
  using reads_bind [OF reads_byte [of t], of "skipValueV2Tagged (skipValueV2 n)" bs "()"] by simp

lemma reads_skip_n: "reads (read_list n d) bs xs \<Longrightarrow> reads (skip_n n d) bs ()"
  unfolding skip_n_def by (erule reads_bind_ret)

lemma skip_n_Suc: "skip_n (Suc n) d = rbind d (\<lambda>_. skip_n n d)"
proof
  fix r
  have "obind (obind m (\<lambda>(xs, r). Ok (x # xs, r))) (\<lambda>(x, r). Ok ((), r)) = obind m (\<lambda>(x, r). Ok ((), r))" for m :: "(dec_err, 'a list \<times> rd) outcome" and x
    by (cases m) auto
  then show "skip_n (Suc n) d r = rbind d (\<lambda>_. skip_n n d) r"
    unfolding skip_n_def by (cases "d r") (auto simp: rbind_def rret_def)
qed

lemma reads_skip_append: "reads d a () \<Longrightarrow> reads (skip_n n d) b () \<Longrightarrow> reads (skip_n (Suc n) d) (a @ b) ()"
  unfolding skip_n_Suc by (rule reads_bind)

lemma read_list_refs: "writeStringRefs idx ss = Ok bs \<Longrightarrow> \<exists>xs. reads (read_list (length ss) ReadVarint) bs xs"
proof (induction ss arbitrary: bs)
  case (Cons s ss)
  then obtain i b xs where "bs = WriteVarint i @ b" "reads (read_list (length ss) ReadVarint) b xs"
    by (auto simp: writeStringRef_def split: option.splits)
  then show ?case using reads_list_append [OF varint.reads [OF TrueI, of i]] by auto
qed (auto intro: reads_ret)

lemma skip_refs: "writeStringRefs idx ss = Ok bs \<Longrightarrow> n = int (length ss) \<Longrightarrow> reads (skip_varints n) bs ()"
  unfolding skip_varints_def by (auto intro: reads_skip_n dest: read_list_refs)

lemma skip_ref: "writeStringRef idx s = Ok bs \<Longrightarrow> reads (skip_varints 1) bs ()"
  by (rule skip_refs [of idx "[s]"]) simp_all

lemma skip_ref2: "writeStringRef idx s = Ok a \<Longrightarrow> writeStringRef idx s' = Ok b \<Longrightarrow> reads (skip_varints 2) (a @ b) ()"
  by (rule skip_refs [of idx "[s, s']"]) simp_all

lemma skip_varint2: "reads (skip_varints 2) (WriteVarint a @ WriteVarint b) ()"
proof -
  have "reads (read_list 1 ReadVarint) (WriteVarint b) [b]"
    using reads_bind_ret [OF varint.reads [OF TrueI, of b], of "\<lambda>x. [x]"] by (simp add: rbind_def rret_def)
  then have "reads (read_list 2 ReadVarint) (WriteVarint a @ WriteVarint b) [a, b]"
    using reads_list_append [OF varint.reads [OF TrueI, of a]] by (simp only: numeral_2_eq_2 One_nat_def)
  then show ?thesis unfolding skip_varints_def by (auto intro: reads_skip_n)
qed

lemma small_counts: "small n \<Longrightarrow> sint (of_nat n :: u64) = int n" "small n \<Longrightarrow> unat (of_nat n :: u64) = n"
  "small n \<Longrightarrow> unat (of_nat n * 2 :: u64) = n * 2"
proof -
  assume n: "small n"
  then show "sint (of_nat n :: u64) = int n" using sint_word_of_int_in [of "int n"] by (simp add: small_def i64_bounds)
  show "unat (of_nat n :: u64) = n" using small_make(3) [OF n] .
  have "unat (of_nat (n * 2) :: u64) = n * 2" using n unat_of_nat_small [of "n * 2"] by (simp add: small_def del: of_nat_mult)
  then show "unat (of_nat n * 2 :: u64) = n * 2" by simp
qed

text \<open>The pairs of a map are skipped as twice as many values.\<close>

lemma skip_record_head:
  assumes "writeRecordType idx t nt ns name flds = Ok bs" "small (length flds)"
  obtains b bs' x where "bs = b # bs' @ WriteVarint (of_nat (length flds)) @ x" "b = (if ns = [] then t else nt)"
    "reads (skip_varints (if ns = [] then 1 else 2)) bs' ()" "reads (skip_varints (sint (of_nat (length flds) :: u64))) x ()"
proof -
  obtain a n f where bs: "(if ns = [] then Ok [t] else wcat (Ok [nt]) (writeStringRef idx ns)) = Ok a"
    "writeStringRef idx name = Ok n" "writeStringRefs idx flds = Ok f" "bs = a @ n @ WriteVarint (of_nat (length flds)) @ f"
    using assms(1) by (auto simp: writeRecordType_def writeCount_def)
  have f: "reads (skip_varints (sint (of_nat (length flds) :: u64))) f ()"
    using skip_refs [OF bs(3)] small_counts(1) [OF assms(2)] by simp
  show thesis
  proof (cases "ns = []")
    case True
    with that [of t n f] f bs skip_ref [OF bs(2)] show ?thesis by simp
  next
    case False
    with bs(1) obtain r where r: "writeStringRef idx ns = Ok r" "a = nt # r" by auto
    with False that [of nt "r @ n" f] f bs skip_ref2 [OF r(1) bs(2)] show ?thesis by simp
  qed
qed

lemma skip_count:
  "small n \<Longrightarrow> reads (f (of_nat n)) bs () \<Longrightarrow> reads (rbind ReadVarint f) (WriteVarint (of_nat n) @ bs) ()"
  by (rule reads_bind [OF varint.reads [OF TrueI]])

lemma mag_skip: "small (length mag) \<Longrightarrow> reads (Skip (of_nat (length mag))) mag ()"
  by (rule reads_skip) (simp add: small_def)

lemma leaves_skip:
  assumes w: "writeValue idx v = Ok bs" and wf: "wf_wval d v" and v: "leaf v \<or> (\<exists>n. v = WBigInt n) \<or> (\<exists>c a b n. v = WFunc c a b n) \<or> (\<exists>n x. v = WVarRef n x)"
  shows "reads (skipValueV2 (Suc n)) bs ()"
proof -
  have k: "reads (Skip 8) (WriteUint64 x) ()" "reads (Skip 4) (WriteInt32 c) ()" for x c
    using reads_skip [of "WriteUint64 x"] reads_skip [of "WriteInt32 c"] by (simp_all add: WriteUint64_def WriteInt32_def)
  have f: "reads (skipValueV2Tagged sv 0x10) (WriteVarint c @ WriteVarint ar @ [b] @ x) ()" if "writeStringRef idx nm = Ok x" for sv c ar b x nm
    using reads_bind [OF skip_varint2 [of c ar] reads_bind [OF reads_byte [of b] skip_ref [OF that]]] by simp
  have i: "reads (skipValueV2Tagged sv 0x09) ([b] @ WriteVarint (of_nat (length mag)) @ mag) ()" if "small (length mag)" for sv b mag
    unfolding skip_leaves by (intro reads_bind [OF reads_byte] skip_count [OF that] mag_skip [OF that])
  from v w wf show ?thesis
    by (cases v) (auto simp: leaf_def wf_wval_cons writeCount_def Let_def simp del: skipValueV2.simps
      intro!: reads_skip_value reads_ret reads_bind_ret svarint.reads k skip_ref skip_ref2 f [simplified] i [simplified])
qed

lemma record_skip:
  assumes "small (length flds)" "length vals = length flds" "small (length extra)"
    and "writeRecordType idx 0x31 0x71 ns name flds = Ok a"
    and "reads (skip_n (length vals) (skipValueV2 n)) b ()" "reads (skip_n (length extra * 2) (skipValueV2 n)) c ()"
  shows "reads (skipValueV2 (Suc n)) (a @ b @ WriteVarint (of_nat (length extra)) @ c) ()"
proof -
  obtain t bs' x where a: "a = t # bs' @ WriteVarint (of_nat (length flds)) @ x" "t = (if ns = [] then 0x31 else 0x71)"
    "reads (skip_varints (if ns = [] then 1 else 2)) bs' ()" "reads (skip_varints (sint (of_nat (length flds) :: u64))) x ()"
    by (rule skip_record_head [OF assms(4,1)])
  have v: "reads (skip_n (unat (of_nat (length flds) :: u64)) (skipValueV2 n)) b ()"
    using assms(5) small_counts(2) [OF assms(1)] assms(2) by simp
  have e: "reads (skip_n (unat (of_nat (length extra) * 2 :: u64)) (skipValueV2 n)) c ()"
    using assms(6) small_counts(3) [OF assms(3)] by simp
  have "reads (skipValueV2Tagged (skipValueV2 n) t) (bs' @ WriteVarint (of_nat (length flds)) @ x @ b @
      WriteVarint (of_nat (length extra)) @ c) ()"
  proof (cases "ns = []")
    case True
    with a(3) have r: "reads (skip_varints 1) bs' ()" by simp
    show ?thesis unfolding a(2) if_P [OF True] skip_nodes
      by (intro reads_bind [OF r] skip_count assms(1,3) reads_bind [OF a(4)] reads_bind [OF v] e)
  next
    case False
    with a(3) have r: "reads (skip_varints 2) bs' ()" by simp
    show ?thesis unfolding a(2) if_not_P [OF False] skip_nodes
      by (intro reads_bind [OF r] skip_count assms(1,3) reads_bind [OF a(4)] reads_bind [OF v] e)
  qed
  from reads_skip_value [OF this] show ?thesis by (simp add: a(1))
qed

lemma recordtype_skip:
  assumes "small (length flds)" "writeRecordType idx 0x30 0x70 ns name flds = Ok a"
  shows "reads (skipValueV2 (Suc n)) a ()"
proof -
  obtain t bs' x where a: "a = t # bs' @ WriteVarint (of_nat (length flds)) @ x" "t = (if ns = [] then 0x30 else 0x70)"
    "reads (skip_varints (if ns = [] then 1 else 2)) bs' ()" "reads (skip_varints (sint (of_nat (length flds) :: u64))) x ()"
    by (rule skip_record_head [OF assms(2,1)])
  have "reads (skipValueV2Tagged (skipValueV2 n) t) (bs' @ WriteVarint (of_nat (length flds)) @ x) ()"
  proof (cases "ns = []")
    case True
    with a(3) have r: "reads (skip_varints 1) bs' ()" by simp
    show ?thesis unfolding a(2) if_P [OF True] skip_nodes by (intro reads_bind [OF r] skip_count assms(1) a(4))
  next
    case False
    with a(3) have r: "reads (skip_varints 2) bs' ()" by simp
    show ?thesis unfolding a(2) if_not_P [OF False] skip_nodes by (intro reads_bind [OF r] skip_count assms(1) a(4))
  qed
  from reads_skip_value [OF this] show ?thesis by (simp add: a(1))
qed

lemma dtype_skip:
  assumes "small (length flds)" "length vals = length flds"
    and "writeStringRef idx ns = Ok a" "writeStringRef idx name = Ok b" "writeStringRefs idx flds = Ok c"
    and "reads (skip_n (length vals) (skipValueV2 n)) vs ()"
  shows "reads (skipValueV2 (Suc n)) (0x34 # a @ b @ WriteVarint (of_nat (length flds)) @ c @ vs) ()"
proof -
  have f: "reads (skip_varints (sint (of_nat (length flds) :: u64))) c ()"
    using skip_refs [OF assms(5)] small_counts(1) [OF assms(1)] by simp
  have v: "reads (skip_n (unat (of_nat (length flds) :: u64)) (skipValueV2 n)) vs ()"
    using assms(6) small_counts(2) [OF assms(1)] assms(2) by simp
  have "reads (skipValueV2Tagged (skipValueV2 n) 0x34) ((a @ b) @ WriteVarint (of_nat (length flds)) @ c @ vs) ()"
    unfolding skip_nodes by (intro reads_bind [OF skip_ref2 [OF assms(3,4)]] skip_count assms(1) reads_bind [OF f] v)
  from reads_skip_value [OF this] show ?thesis by simp
qed

lemma seq_skip:
  assumes "small k" "t \<in> {0x21, 0x22, 0x24}" "reads (skip_n k (skipValueV2 n)) b ()"
  shows "reads (skipValueV2 (Suc n)) (t # WriteVarint (of_nat k) @ b) ()"
  using assms small_counts(2) [OF assms(1)]
  by (intro reads_skip_value) (auto simp del: skipValueV2.simps intro!: skip_count)

lemma pairs_skip:
  assumes "small k" "t \<in> {0x23, 0x63}" "reads (skip_n (k * 2) (skipValueV2 n)) b ()"
  shows "reads (skipValueV2 (Suc n)) (t # WriteVarint (of_nat k) @ b) ()"
  using assms small_counts(3) [OF assms(1)]
  by (intro reads_skip_value) (auto simp del: skipValueV2.simps intro!: skip_count)

lemma writeValue_skip:
  shows "writeValue idx v = Ok bs \<Longrightarrow> wf_wval d v \<Longrightarrow> wdepth v < fuel \<Longrightarrow> reads (skipValueV2 fuel) bs ()"
    and "writeValues idx vs = Ok bss \<Longrightarrow> \<forall>x \<in> set vs. wf_wval d x \<Longrightarrow> wdepths vs < fuel \<Longrightarrow>
      reads (skip_n (length vs) (skipValueV2 fuel)) bss ()"
    and "writePairs idx es = Ok bsp \<Longrightarrow> \<forall>(k, x) \<in> set es. wf_wval d k \<and> wf_wval d x \<Longrightarrow>
      pdepths es < fuel \<Longrightarrow> reads (skip_n (length es * 2) (skipValueV2 fuel)) bsp ()"
proof (induction idx v and idx vs and idx es arbitrary: bs fuel and bss fuel and bsp fuel
    rule: writeValue_writeValues_writePairs.induct)
  case (16 idx xs)
  then have ne: "xs \<noteq> []" by (simp add: wf_wval_cons)
  with 16 obtain n b where n: "fuel = Suc n" "wdepths xs < n" and b: "writeValues idx xs = Ok b"
    "bs = 0x21 # WriteVarint (of_nat (length xs)) @ b"
    by (cases fuel) (auto simp: wdepth.simps writeCount_def)
  then show ?case using 16 seq_skip by (simp add: wf_wval_cons del: skipValueV2.simps)
next
  case (17 idx xs)
  then obtain n b where n: "fuel = Suc n" "wdepths xs < n" and b: "writeValues idx xs = Ok b" "length xs mod 2 = 0"
    "bs = 0x63 # WriteVarint (of_nat (length xs div 2)) @ b"
    by (cases fuel) (auto simp: wdepth.simps split: if_splits)
  then have "length xs div 2 * 2 = length xs" "small (length xs) \<Longrightarrow> small (length xs div 2)" by (auto simp: small_def)
  then show ?case using 17 pairs_skip [where k = "length xs div 2" and t = "0x63" and n = n and b = b] b n
    by (simp add: wf_wval_cons del: skipValueV2.simps)
next
  case (18 idx xs)
  then obtain n b where n: "fuel = Suc n" "wdepths xs < n" and b: "writeValues idx xs = Ok b"
    "bs = 0x22 # WriteVarint (of_nat (length xs)) @ b"
    by (cases fuel) (auto simp: wdepth.simps writeCount_def)
  then show ?case using 18 seq_skip by (simp add: wf_wval_cons del: skipValueV2.simps)
next
  case (19 idx es)
  then obtain n b where n: "fuel = Suc n" "pdepths es < n" and b: "writePairs idx es = Ok b"
    "bs = 0x23 # WriteVarint (of_nat (length es)) @ b"
    by (cases fuel) (auto simp: wdepth.simps writeCount_def)
  then show ?case using 19 pairs_skip by (simp add: wf_wval_cons del: skipValueV2.simps)
next
  case (20 idx xs)
  then obtain n b where n: "fuel = Suc n" "wdepths xs < n" and b: "writeValues idx xs = Ok b"
    "bs = 0x24 # WriteVarint (of_nat (length xs)) @ b"
    by (cases fuel) (auto simp: wdepth.simps writeCount_def)
  then show ?case using 20 seq_skip by (simp add: wf_wval_cons del: skipValueV2.simps)
next
  case (21 idx ns name flds)
  then show ?case using recordtype_skip by (cases fuel) (simp_all add: wf_wval_cons del: skipValueV2.simps)
next
  case (22 idx ns name flds vals extra)
  then obtain n a b c where n: "fuel = Suc n" "wdepths vals < n" "pdepths extra < n"
    and b: "writeRecordType idx 0x31 0x71 ns name flds = Ok a" "writeValues idx vals = Ok b" "writePairs idx extra = Ok c"
    "bs = a @ b @ WriteVarint (of_nat (length extra)) @ c"
    by (cases fuel) (auto simp: wdepth.simps writeCount_def)
  have wf: "small (length flds)" "length vals = length flds" "small (length extra)" "\<forall>x \<in> set vals. wf_wval d x"
    "\<forall>(k, x) \<in> set extra. wf_wval d k \<and> wf_wval d x"
    using 22(4) by (simp_all add: wf_wval_cons)
  show ?case unfolding n b(4) by (rule record_skip [OF wf(1-3) b(1) 22(1) [OF b(2) wf(4) n(2)] 22(2) [OF b(3) wf(5) n(3)]])
next
  case (24 idx ns name flds vals)
  then obtain n a b c e where n: "fuel = Suc n" "wdepths vals < n" and ns: "ns \<noteq> []"
    and b: "writeStringRef idx ns = Ok a" "writeStringRef idx name = Ok b" "writeStringRefs idx flds = Ok c"
    "writeValues idx vals = Ok e" "bs = 0x34 # a @ b @ WriteVarint (of_nat (length flds)) @ c @ e"
    by (cases fuel) (auto simp: wdepth.simps writeCount_def split: if_splits)
  have wf: "small (length flds)" "length vals = length flds" "\<forall>x \<in> set vals. wf_wval d x"
    using 24(3) by (simp_all add: wf_wval_cons)
  show ?case unfolding n b(5) by (rule dtype_skip [OF wf(1,2) b(1-3) 24(1) [OF ns b(4) wf(3) n(2)]])
next
  case (25 idx v)
  then obtain n b where n: "fuel = Suc n" "wdepth v < n" "writeValue idx v = Ok b" "bs = 0x33 # b"
    by (cases fuel) (auto simp: wdepth.simps [of "WAtom v"])
  have "reads (skipValueV2 n) b ()" using 25(1) [OF n(3) _ n(2)] 25(3) by (simp add: wf_wval_cons)
  then show ?case unfolding n by (intro reads_skip_value) simp
next
  case (27 idx)
  then show ?case by (auto simp: skip_n_def intro: reads_bind_ret reads_ret)
next
  case (28 idx v vs)
  then show ?case by (auto intro!: reads_skip_append)
next
  case (29 idx)
  then show ?case by (auto simp: skip_n_def intro: reads_bind_ret reads_ret)
next
  case (30 idx k v es)
  then show ?case by (auto intro!: reads_skip_append)
qed (auto simp: gr0_conv_Suc leaf_def dest!: less_imp_Suc_add simp del: writeValue.simps skipValueV2.simps intro!: leaves_skip)

section \<open>Depth and length\<close>

text \<open>A value writes at least one byte for each level of its nesting, so the length of the input is fuel enough.\<close>

lemma WriteVarint_nonempty: "0 < length (WriteVarint v)"
  by (subst WriteVarint.simps) (simp add: Let_def)

lemma depth_seq: "n \<le> length b \<Longrightarrow> Suc n < length (t # xs @ WriteVarint c @ ys @ b)"
  using WriteVarint_nonempty [of c] unfolding length_append list.size by linarith

lemmas depth_seqs = depth_seq depth_seq [of _ _ _ "[]", simplified append_Nil] depth_seq [of _ _ _ "[]" _ "[]", simplified append_Nil]

lemmas wdepth_cons =
  wdepth.simps [of "WList xs" for xs, simplified wval.case] wdepth.simps [of "WVector xs" for xs, simplified wval.case]
  wdepth.simps [of "WSet xs" for xs, simplified wval.case] wdepth.simps [of "WDefMeta xs" for xs, simplified wval.case]
  wdepth.simps [of "WMap es" for es, simplified wval.case] wdepth.simps [of "WAtom x" for x, simplified wval.case]
  wdepth.simps [of "WDType ns name flds vals" for ns name flds vals, simplified wval.case]
  wdepth.simps [of "WRecord ns name flds vals extra" for ns name flds vals extra, simplified wval.case]

lemma wdepth_leaf: "leaf v \<or> (\<exists>n. v = WBigInt n) \<or> (\<exists>c a b n. v = WFunc c a b n) \<or> (\<exists>n x. v = WVarRef n x) \<or>
    (\<exists>n x f. v = WRecordType n x f) \<Longrightarrow> wdepth v = 0"
  by (subst wdepth.simps) (auto simp: leaf_def split: wval.splits)

lemma writeValue_nonempty: "writeValue idx v = Ok bs \<Longrightarrow> 0 < length bs"
  by (cases v) (auto simp: writeRecordType_def Let_def split: if_splits)

lemma writeValue_depth:
  shows "writeValue idx v = Ok bs \<Longrightarrow> wdepth v < length bs"
    and "writeValues idx vs = Ok bss \<Longrightarrow> wdepths vs \<le> length bss"
    and "writePairs idx es = Ok bsp \<Longrightarrow> pdepths es \<le> length bsp"
proof (induction idx v and idx vs and idx es arbitrary: bs and bss and bsp
    rule: writeValue_writeValues_writePairs.induct)
  case (22 idx ns name flds vals extra)
  then obtain a b c where b: "writeRecordType idx 0x31 0x71 ns name flds = Ok a" "wdepths vals \<le> length b"
    "pdepths extra \<le> length c" "bs = a @ b @ WriteVarint (of_nat (length extra)) @ c"
    by (auto simp: writeCount_def)
  have "0 < length a" using b(1) by (auto simp: writeRecordType_def split: if_splits)
  with b(2,3) WriteVarint_nonempty [of "of_nat (length extra)"] show ?case
    unfolding b(4) wdepth.simps [of "WRecord ns name flds vals extra"] wval.case length_append by linarith
next
  case (16 idx xs)
  then show ?case
    by (cases "xs = []") (auto simp: wdepth_cons writeCount_def intro!: depth_seqs simp del: length_Cons list.size)
next
  case (17 idx xs)
  then show ?case by (auto simp: wdepth_cons writeCount_def intro!: depth_seqs simp del: length_Cons list.size split: if_splits)
next
  case (18 idx xs)
  then show ?case by (auto simp: wdepth_cons writeCount_def intro!: depth_seqs simp del: length_Cons list.size)
next
  case (19 idx es)
  then show ?case by (auto simp: wdepth_cons writeCount_def intro!: depth_seqs simp del: length_Cons list.size)
next
  case (20 idx xs)
  then show ?case by (auto simp: wdepth_cons writeCount_def intro!: depth_seqs simp del: length_Cons list.size)
next
  case (24 idx ns name flds vals)
  then obtain a b c e where b: "wdepths vals \<le> length e" "bs = 0x34 # a @ b @ WriteVarint (of_nat (length flds)) @ c @ e"
    by (auto simp: writeCount_def split: if_splits)
  show ?case unfolding b(2) wdepth_cons using depth_seq [OF b(1), where t = "0x34" and xs = "a @ b" and ys = c] by (simp only: append_assoc)
next
  case (25 idx v)
  then show ?case by (auto simp: wdepth_cons)
next
  case (28 idx v vs)
  then obtain a b where "wdepth v < length a" "wdepths vs \<le> length b" "bss = a @ b" by auto
  then show ?case by simp
next
  case (30 idx k v es)
  then obtain a b c where "wdepth k < length a" "wdepth v < length b" "pdepths es \<le> length c" "bsp = a @ b @ c" by auto
  then show ?case by simp
qed (use writeValue_nonempty in \<open>fastforce simp: wdepth_leaf leaf_def\<close>)+

end
