(* ===== verification/LG_BytecodeClaims.thy ===== *)
theory LG_BytecodeClaims
  imports LG_Codec
begin

text \<open>The properties of the bytecode encodings, with the inputs at which they are applied.\<close>

section \<open>Primitive encodings\<close>

text \<open>
  C36. Every primitive that the writer appends is what the reader returns, with exactly
  its bytes consumed, whatever follows; a varint takes at most ten bytes.
\<close>

theorem primitives_roundtrip:
  "ReadVarint \<lparr>rd_rest = WriteVarint v @ rest, rd_pos = p\<rparr> = Ok (v, \<lparr>rd_rest = rest, rd_pos = p + length (WriteVarint v)\<rparr>) \<and>
    ReadSvarint \<lparr>rd_rest = WriteSvarint i @ rest, rd_pos = p\<rparr> = Ok (i, \<lparr>rd_rest = rest, rd_pos = p + length (WriteSvarint i)\<rparr>) \<and>
    ReadInt32 \<lparr>rd_rest = WriteInt32 w @ rest, rd_pos = p\<rparr> = Ok (w, \<lparr>rd_rest = rest, rd_pos = p + 4\<rparr>) \<and>
    ReadUint64 \<lparr>rd_rest = WriteUint64 v @ rest, rd_pos = p\<rparr> = Ok (v, \<lparr>rd_rest = rest, rd_pos = p + 8\<rparr>) \<and>
    length (WriteVarint v) \<le> 10"
proof -
  have "unat v < 2 ^ (7 * 10)" using unsigned_less [of v, where 'a = nat] by simp
  then have "length (WriteVarint v) \<le> 10" by (rule length_WriteVarint) simp
  then show ?thesis
    using varint.reads [OF TrueI, of v] svarint.reads [OF TrueI, of i] int32.reads [OF TrueI, of w] uint64.reads [OF TrueI, of v]
    by (simp add: reads_def WriteInt32_def WriteUint64_def)
qed

section \<open>Constants\<close>

lemma rbind_ret_left: "rbind (rret x) f = f x"
  by (simp add: rbind_def rret_def)

lemma empty_list_reads:
  "\<exists>cs. writeValue idx (WList []) = Ok (cs @ [0x00]) \<and> reads (readValueV2 (Suc n) d) cs WEmptyList \<and>
    reads (skipValueV2 (Suc n)) cs ()"
proof (intro exI conjI)
  show "writeValue idx (WList []) = Ok ((0x21 # WriteVarint 0) @ [0x00])" by (simp add: writeCount_def wcat_def)
  have m: "read_make 0 rv = rret []" for rv :: "wval dec" by (simp add: read_make_def makePanics_def)
  show "reads (readValueV2 (Suc n) d) (0x21 # WriteVarint 0) WEmptyList"
    by (intro reads_value) (auto intro!: reads_bind_nil [OF varint.reads] reads_ret simp: m rbind_ret_left)
  show "reads (skipValueV2 (Suc n)) (0x21 # WriteVarint 0) ()"
    by (intro reads_skip_value) (auto intro!: reads_bind_nil [OF varint.reads] reads_ret simp: skip_n_def rbind_ret_left)
qed

text \<open>
  C18. A constant that the encoder writes is what the decoder reads back, from exactly its bytes,
  whatever follows, and skipping it consumes the same bytes, if throughout it the counts are at
  most 2 to the 43, the texts are accepted by their parsers, the chunks of functions are decoded
  ones of the context, records have a value per field, and no list is empty without being the
  \<open>EmptyList\<close> object. Such a list, which \<open>with-meta\<close> makes, is written with one byte too many:
  the decoder and the skipper stop before it.
\<close>

theorem constant_roundtrip:
  assumes "writeValue (strIndex (dc_strings d) 0) v = Ok bs" "wf_wval d v" "int (length (dc_strings d)) < 2 ^ 63"
    and "length bs \<le> fuel"
  shows "readValueV2 fuel d \<lparr>rd_rest = bs @ rest, rd_pos = p\<rparr> = Ok (v, \<lparr>rd_rest = rest, rd_pos = p + length bs\<rparr>) \<and>
    skipValueV2 fuel \<lparr>rd_rest = bs @ rest, rd_pos = p\<rparr> = Ok ((), \<lparr>rd_rest = rest, rd_pos = p + length bs\<rparr>) \<and>
    (\<exists>cs. writeValue (strIndex (dc_strings d) 0) (WList []) = Ok (cs @ [0x00]) \<and>
      readValueV2 fuel d \<lparr>rd_rest = (cs @ [0x00]) @ rest, rd_pos = p\<rparr> =
        Ok (WEmptyList, \<lparr>rd_rest = 0x00 # rest, rd_pos = p + length cs\<rparr>) \<and>
      skipValueV2 fuel \<lparr>rd_rest = (cs @ [0x00]) @ rest, rd_pos = p\<rparr> =
        Ok ((), \<lparr>rd_rest = 0x00 # rest, rd_pos = p + length cs\<rparr>))"
proof -
  have f: "wdepth v < fuel" using writeValue_depth(1) [OF assms(1)] assms(4) by linarith
  then obtain n where n: "fuel = Suc n" by (cases fuel) auto
  show ?thesis
    using writeValue_reads(1) [OF strIndex_ok [OF assms(3)] assms(1,2) f] writeValue_skip(1) [OF assms(1,2) f]
      empty_list_reads [where n = n and d = d] unfolding n by (auto simp: reads_def)
qed

definition plain_ctx :: dctx where
  "plain_ctx = \<lparr>dc_strings = [[104, 105], [110]], dc_chunks = [True], dc_uuid = (\<lambda>s. True), dc_inst = (\<lambda>s. True), dc_regex = (\<lambda>s. True)\<rparr>"

definition sample_const :: wval where
  "sample_const = WMap [(WKeyword [110], WVector [WInt (- 3), WString [104, 105], WList [WNil, WBool True]])]"

lemma sample_written:
  "writeValue (strIndex (dc_strings plain_ctx) 0) sample_const = Ok [0x23, 1, 6, 1, 0x22, 3, 3, 5, 5, 0, 0x21, 2, 0, 1]"
  by code_simp

theorem constant_roundtrip_witness:
  "readValueV2 14 plain_ctx \<lparr>rd_rest = [0x23, 1, 6, 1, 0x22, 3, 3, 5, 5, 0, 0x21, 2, 0, 1], rd_pos = 0\<rparr> =
    Ok (sample_const, \<lparr>rd_rest = [], rd_pos = 14\<rparr>)"
proof -
  have "wf_wval plain_ctx sample_const"
    by (simp add: sample_const_def wf_wval_cons small_def wf_wval.simps [of plain_ctx "WKeyword [110]"]
      wf_wval.simps [of plain_ctx "WInt (- 3)"] wf_wval.simps [of plain_ctx "WString [104, 105]"]
      wf_wval.simps [of plain_ctx WNil] wf_wval.simps [of plain_ctx "WBool True"])
  from constant_roundtrip [OF sample_written this, of 14 "[]" 0] show ?thesis by (simp add: plain_ctx_def)
qed

text \<open>
  C32. On any input, well formed or not, the decoder of constants and the skipper end:
  the depth of their recursion never exceeds the length of the input.
\<close>

theorem constants_terminate:
  assumes "length (rd_rest r) < fuel"
  shows "readValueV2 fuel d r \<noteq> Err EDepth \<and> skipValueV2 fuel r \<noteq> Err EDepth"
  using boundedD(2) [OF readValueV2_bounded assms] boundedD(2) [OF skipValueV2_bounded assms] by blast

theorem constants_terminate_witness:
  "readValueV2 3 plain_ctx \<lparr>rd_rest = [0x33, 0x33], rd_pos = 0\<rparr> \<noteq> Err EDepth"
  using constants_terminate [of "\<lparr>rd_rest = [0x33, 0x33], rd_pos = 0\<rparr>" 3 plain_ctx] by simp

text \<open>
  C40. They disagree on every map whose count \<open>c\<close> is beyond the machine integers. With
  \<open>k = c - 2 ^ 63\<close>, the decoder takes it for the empty map if \<open>k\<close> is at most 2 to the 43, since the
  capacity \<open>2 * c\<close> wraps to \<open>2 * k\<close> and the loop bound is negative, and panics if it is larger; the
  skipper skips \<open>2 * k\<close> values.
\<close>

theorem map_count_divergence:
  assumes "2 ^ 63 \<le> unat c"
  shows "readValueV2 (Suc fuel) d \<lparr>rd_rest = 0x23 # WriteVarint c @ rest, rd_pos = p\<rparr> =
      (if unat c - 2 ^ 63 \<le> 2 ^ 43
       then Ok (WMap [], \<lparr>rd_rest = rest, rd_pos = p + Suc (length (WriteVarint c))\<rparr>) else Panic) \<and>
    skipValueV2 (Suc fuel) \<lparr>rd_rest = 0x23 # WriteVarint c @ rest, rd_pos = p\<rparr> =
      skip_n (2 * (unat c - 2 ^ 63)) (skipValueV2 fuel) \<lparr>rd_rest = rest, rd_pos = p + Suc (length (WriteVarint c))\<rparr>"
proof -
  let ?k = "unat c - 2 ^ 63"
  obtain k where k: "unat c = k + 2 ^ 63" using assms le_Suc_ex add.commute by metis
  have lt: "k < 2 ^ 63" using unsigned_less [of c, where 'a = nat] k by simp
  have "unat (c * 2) = (k * 2 + 2 ^ 64) mod 2 ^ 64" by (simp add: unat_word_ariths k)
  also have "\<dots> = k * 2" unfolding mod_add_self2 using lt by (intro mod_less) simp
  finally have u: "unat (c * 2) = 2 * ?k" by (simp add: k)
  have c: "uint c = int k + 2 ^ 63" using k by (simp add: uint_nat)
  have "(uint c + 2 ^ 63) mod 2 ^ 64 = (int k + 2 ^ 64) mod 2 ^ 64" unfolding c by simp
  also have "\<dots> = int k" unfolding mod_add_self2 using lt by (intro mod_pos_pos_trivial) simp_all
  finally have "sint c = int k - 2 ^ 63" using sint_word_of_int_i64 [of "uint c"] by simp
  then have s: "nat (sint c) = 0" using lt by simp
  have v: "ReadVarint \<lparr>rd_rest = WriteVarint c @ rest, rd_pos = q\<rparr> =
      Ok (c, \<lparr>rd_rest = rest, rd_pos = q + length (WriteVarint c)\<rparr>)" for q
    using varint.reads [OF TrueI, of c] by (simp add: reads_def)
  have b: "ReadByte \<lparr>rd_rest = x # xs, rd_pos = p\<rparr> = Ok (x, \<lparr>rd_rest = xs, rd_pos = p + 1\<rparr>)" for x xs
    by (simp add: ReadByte_def)
  have m: "makePanics 16 (c * 2) \<longleftrightarrow> \<not> ?k \<le> 2 ^ 43" by (auto simp: makePanics_def u)
  show ?thesis
    by (simp add: rbind_def b v readMapBatch_def make_cap_def m read_loop_def s u rpanic_def rret_def)
qed

theorem map_count_divergence_witness:
  "readValueV2 5 plain_ctx \<lparr>rd_rest = 0x23 # WriteVarint 0x8000000000000001 @ [0, 0], rd_pos = 0\<rparr> =
      Ok (WMap [], \<lparr>rd_rest = [0, 0], rd_pos = 11\<rparr>)"
proof -
  have u: "unat (0x8000000000000001 :: u64) = 2 ^ 63 + 1" by simp
  have l: "length (WriteVarint 0x8000000000000001) = 10" by code_simp
  show ?thesis
    using map_count_divergence [of "0x8000000000000001" 4 plain_ctx "[0, 0]" 0] unfolding u l by simp
qed

end
