(* ===== verification/LG_VMValue.thy ===== *)
theory LG_VMValue
  imports LG_Hash
begin

text \<open>
  The values and errors that the bytecode interpreter of \<open>pkg/vm/vm.go\<close> moves
  around: code chunks, the four shapes of bytecode callable of \<open>func.go\<close> and the
  error chain of \<open>errors.go\<close>.

  Objects with identity are numbers: a \<open>*Var\<close> is \<open>VarV\<close> of its number, the captured
  values of a \<open>*Closure\<close> live in the world under the closure's number (they grow
  while the closure is built), every other heap object is \<open>ObjV\<close>. Messages are kept
  as data, not rendered; source positions and metadata of functions are left out.
\<close>

record chunk =
  ck_maxStack :: int
  ck_consts :: nat
  ck_code :: "u32 list"

datatype vv = Prim val | VarV nat | ObjV nat | ListV "vv list"
  | FuncV (fn_name: string) (fn_arity: int) (fn_variadic: bool) (fn_chunk: chunk)
  | ClosureV nat vv
  | MultiV "(int \<times> vv) list" "vv option" int string
  | MetaV vv
  | NativeV nat string int bool
  | ExInfoV vm_err "string list"
and msg = Msg string | Calling string | BadArity vv int nat | BadArityAtLeast vv int nat
  | NoVariant vv nat | InvalidSuspended string int int
and vm_err = ThrownError vv | ExecutionError msg "vm_err option" | TypeError vv string
  | NumError num_err | CannotNum string vv vv | PlainError string

abbreviation NIL :: vv where "NIL \<equiv> Prim VNil"
abbreviation BoolV :: "bool \<Rightarrow> vv" where "BoolV b \<equiv> Prim (VBool b)"
abbreviation IntV :: "i64 \<Rightarrow> vv" where "IntV n \<equiv> Prim (VInt n)"

definition IsTruthy :: "vv \<Rightarrow> bool" where
  "IsTruthy v \<longleftrightarrow> v \<noteq> NIL \<and> v \<noteq> BoolV False"

fun is_Func :: "vv \<Rightarrow> bool" where
  "is_Func (FuncV _ _ _ _) = True"
| "is_Func _ = False"

text \<open>The values whose Go type implements \<open>Fn\<close> for certain; the rest is the host's.\<close>

fun static_fn :: "vv \<Rightarrow> bool" where
  "static_fn (FuncV _ _ _ _) = True"
| "static_fn (ClosureV _ _) = True"
| "static_fn (MultiV _ _ _ _) = True"
| "static_fn (MetaV _) = True"
| "static_fn (NativeV _ _ _ _) = True"
| "static_fn (VarV _) = True"
| "static_fn _ = False"

fun fnName :: "vv \<Rightarrow> string" where
  "fnName (FuncV n _ _ _) = (if n \<noteq> '''' then n else ''anonymous fn'')"
| "fnName (ClosureV _ f) = fnName f"
| "fnName (MultiV _ _ _ n) = (if n \<noteq> '''' then n else ''anonymous fn'')"
| "fnName (NativeV _ n _ _) = (if n \<noteq> '''' then n else ''native fn'')"
| "fnName _ = ''fn''"

section \<open>The error chain\<close>

fun unwrapThrown :: "vm_err \<Rightarrow> vv option" where
  "unwrapThrown (ThrownError v) = Some v"
| "unwrapThrown (ExecutionError _ (Some c)) = unwrapThrown c"
| "unwrapThrown _ = None"

fun innermost :: "vm_err \<Rightarrow> vm_err" where
  "innermost (ExecutionError m (Some c)) = innermost c"
| "innermost e = e"

fun call_trace :: "vm_err \<Rightarrow> string list" where
  "call_trace (ExecutionError (Calling n) c) =
     (if n \<noteq> '''' then [n] else []) @ (case c of Some e \<Rightarrow> call_trace e | None \<Rightarrow> [])"
| "call_trace (ExecutionError _ (Some e)) = call_trace e"
| "call_trace _ = []"

definition errorToValue :: "vm_err \<Rightarrow> vv" where
  "errorToValue err = (case unwrapThrown err of
     Some v \<Rightarrow> v
   | None \<Rightarrow> ExInfoV (innermost err) (call_trace err))"

abbreviation execErr :: "string \<Rightarrow> vm_err" where
  "execErr m \<equiv> ExecutionError (Msg m) None"

definition wrapCallErr :: "vv \<Rightarrow> vm_err \<Rightarrow> vm_err" where
  "wrapCallErr fn err = ExecutionError (Calling (fnName fn)) (Some err)"

lemma unwrapThrown_wrapCallErr [simp]: "unwrapThrown (wrapCallErr fn e) = unwrapThrown e"
  by (simp add: wrapCallErr_def)

lemma innermost_wrapCallErr [simp]: "innermost (wrapCallErr fn e) = innermost e"
  by (simp add: wrapCallErr_def)

lemma fnName_nonempty [simp]: "fnName fn \<noteq> ''''"
  by (induction fn rule: fnName.induct) auto

lemma call_trace_wrapCallErr [simp]: "call_trace (wrapCallErr fn e) = fnName fn # call_trace e"
  by (simp add: wrapCallErr_def)

end
