(* ===== verification/LG_Bindings.thy ===== *)
theory LG_Bindings
  imports LG_VMValue "HOL-Library.AList"
begin

text \<open>
  Vars and dynamic bindings: \<open>pkg/vm/var.go\<close> (roots and the guard of native
  primitives), \<open>root_bindings.go\<close> (the binding chains of the root context, one per
  var), \<open>binding_stack.go\<close> (the chain of a child context, one for all its vars) and
  \<open>exec_context.go\<close> (what resolves a var where). The state record stands for the
  fields of the vars, the process-wide registry and counter, and the contexts;
  locks are left out, each operation being one step under its lock.

  \<open>binding_env\<close> is the contract that both kinds of chain keep: a stack of values per
  var. Its lemma on balanced runs is the discipline of \<open>binding\<close> forms.
\<close>

section \<open>Balanced binding operations over a stack per var\<close>

datatype act = Push nat vv | Pop nat | Set nat vv

fun act_env :: "act \<Rightarrow> (nat \<Rightarrow> vv list) \<Rightarrow> nat \<Rightarrow> vv list" where
  "act_env (Push v x) e = e(v := x # e v)"
| "act_env (Pop v) e = e(v := tl (e v))"
| "act_env (Set v x) e = (if e v = [] then e else e(v := x # tl (e v)))"

inductive balanced :: "nat set \<Rightarrow> act list \<Rightarrow> bool" where
  bal_Nil: "balanced B []"
| bal_Set: "v \<in> B \<Longrightarrow> balanced B [Set v x]"
| bal_App: "balanced B as \<Longrightarrow> balanced B bs \<Longrightarrow> balanced B (as @ bs)"
| bal_Bind: "balanced (insert v B) as \<Longrightarrow> balanced B ([Push v x] @ as @ [Pop v])"

locale binding_env =
  fixes env :: "'s \<Rightarrow> nat \<Rightarrow> vv list"
    and push :: "nat \<Rightarrow> vv \<Rightarrow> 's \<Rightarrow> 's"
    and pop :: "nat \<Rightarrow> 's \<Rightarrow> 's"
    and setc :: "nat \<Rightarrow> vv \<Rightarrow> 's \<Rightarrow> 's option"
    and cur :: "nat \<Rightarrow> 's \<Rightarrow> vv option"
  assumes push: "env (push v x s) = (env s)(v := x # env s v)"
    and pop: "env (pop v s) = (env s)(v := tl (env s v))"
    and setc_None: "setc v x s = None \<longleftrightarrow> env s v = []"
    and setc_Some: "setc v x s = Some t \<Longrightarrow> env t = (env s)(v := x # tl (env s v))"
    and cur: "cur v s = (case env s v of [] \<Rightarrow> None | x # _ \<Rightarrow> Some x)"
begin

fun perform :: "act \<Rightarrow> 's \<Rightarrow> 's" where
  "perform (Push v x) s = push v x s"
| "perform (Pop v) s = pop v s"
| "perform (Set v x) s = (case setc v x s of Some t \<Rightarrow> t | None \<Rightarrow> s)"

lemma env_perform: "env (perform a s) = act_env a (env s)"
proof (cases a)
  case (Set v x)
  then show ?thesis using setc_None[of v x s] setc_Some[of v x s]
    by (cases "setc v x s") auto
qed (simp_all add: push pop)

lemma env_perform_all: "env (fold perform as s) = fold act_env as (env s)"
  by (induction as arbitrary: s) (simp_all add: env_perform)

end

definition same_below :: "nat set \<Rightarrow> (nat \<Rightarrow> vv list) \<Rightarrow> (nat \<Rightarrow> vv list) \<Rightarrow> bool" where
  "same_below B e e' \<longleftrightarrow> (\<forall>v. if v \<in> B then e' v \<noteq> [] \<and> tl (e' v) = tl (e v) else e' v = e v)"

lemma balanced_same_below:
  "balanced B as \<Longrightarrow> \<forall>v\<in>B. e v \<noteq> [] \<Longrightarrow> same_below B e (fold act_env as e)"
proof (induction arbitrary: e rule: balanced.induct)
  case (bal_App B as bs)
  have 1: "same_below B e (fold act_env as e)" by (rule bal_App.IH(1)[OF bal_App.prems])
  then have "\<forall>v\<in>B. fold act_env as e v \<noteq> []" by (auto simp: same_below_def)
  from bal_App.IH(2)[OF this] 1 show ?case by (auto simp: same_below_def)
next
  case (bal_Bind v B as x)
  let ?e = "e(v := x # e v)"
  have "\<forall>u\<in>insert v B. ?e u \<noteq> []" using bal_Bind.prems by auto
  from bal_Bind.IH[OF this] have s: "same_below (insert v B) ?e (fold act_env as ?e)" .
  then have "tl (fold act_env as ?e v) = e v" by (auto simp: same_below_def)
  then show ?case using s bal_Bind.prems by (fastforce simp: same_below_def)
qed (auto simp: same_below_def)

section \<open>The state\<close>

record var_cell =
  vc_ns :: string
  vc_name :: string
  vc_root :: "vv option"
  vc_dynamic :: bool
  vc_rootBind :: "vv list"
  vc_guard :: "vv option"
  vc_deviated :: bool
  vc_watches :: "(vv \<times> vv) list" \<comment> \<open>in the order in which the Go map yields them\<close>

type_synonym bindings = "(nat \<times> vv) list"
type_synonym snapshot = "(nat \<times> vv list) list"
type_synonym ec = "nat option" \<comment> \<open>\<open>None\<close> is \<open>RootExecContext\<close>, which nil stands for too\<close>

record dyn =
  d_var :: "nat \<Rightarrow> var_cell"
  d_registry :: "nat list"
  d_chain :: "nat \<Rightarrow> bindings"
  d_next :: nat
  d_deviations :: int
  d_traceVar :: "nat option"
  d_traceArmed :: bool

definition upd_var :: "nat \<Rightarrow> (var_cell \<Rightarrow> var_cell) \<Rightarrow> dyn \<Rightarrow> dyn" where
  "upd_var v f d = d\<lparr>d_var := (d_var d)(v := f (d_var d v))\<rparr>"

lemma upd_var_simps [simp]:
  "d_var (upd_var v f d) = (d_var d)(v := f (d_var d v))"
  "d_registry (upd_var v f d) = d_registry d" "d_chain (upd_var v f d) = d_chain d"
  "d_next (upd_var v f d) = d_next d" "d_deviations (upd_var v f d) = d_deviations d"
  "d_traceVar (upd_var v f d) = d_traceVar d" "d_traceArmed (upd_var v f d) = d_traceArmed d"
  by (simp_all add: upd_var_def)

section \<open>The chain of a child context\<close>

definition bs_push :: "nat \<Rightarrow> vv \<Rightarrow> bindings \<Rightarrow> bindings" where
  "bs_push v val head = (v, val) # head"

fun removeTopBinding :: "bindings \<Rightarrow> nat \<Rightarrow> bindings" where
  "removeTopBinding [] v = []"
| "removeTopBinding (f # fs) v = (if fst f = v then fs else f # removeTopBinding fs v)"

fun replaceTopBinding :: "bindings \<Rightarrow> nat \<Rightarrow> vv \<Rightarrow> bindings option" where
  "replaceTopBinding [] v val = None"
| "replaceTopBinding (f # fs) v val =
     (if fst f = v then Some ((v, val) # fs)
      else map_option ((#) f) (replaceTopBinding fs v val))"

definition bs_pop :: "nat \<Rightarrow> bindings \<Rightarrow> bindings" where
  "bs_pop v head = removeTopBinding head v"

fun bs_current :: "nat \<Rightarrow> bindings \<Rightarrow> vv option" where
  "bs_current v [] = None"
| "bs_current v (f # fs) = (if fst f = v then Some (snd f) else bs_current v fs)"

definition bs_setCurrent :: "nat \<Rightarrow> vv \<Rightarrow> bindings \<Rightarrow> bindings option" where
  "bs_setCurrent v val head = replaceTopBinding head v val"

fun bs_hasBinding :: "nat \<Rightarrow> bindings \<Rightarrow> bool" where
  "bs_hasBinding v [] = False"
| "bs_hasBinding v (f # fs) = (fst f = v \<or> bs_hasBinding v fs)"

definition chain_env :: "bindings \<Rightarrow> nat \<Rightarrow> vv list" where
  "chain_env b v = map snd (filter (\<lambda>f. fst f = v) b)"

lemma chain_env_Nil [simp]: "chain_env [] = (\<lambda>_. [])"
  by (simp add: chain_env_def fun_eq_iff)

lemma chain_env_Cons: "chain_env (f # b) = (chain_env b)(fst f := snd f # chain_env b (fst f))"
  by (simp add: chain_env_def fun_eq_iff)

lemma chain_env_append: "chain_env (a @ b) v = chain_env a v @ chain_env b v"
  by (simp add: chain_env_def)

lemma chain_env_remove: "chain_env (removeTopBinding b v) = (chain_env b)(v := tl (chain_env b v))"
  by (induction b) (auto simp: chain_env_Cons fun_eq_iff)

lemma chain_env_replace_None: "replaceTopBinding b v x = None \<longleftrightarrow> chain_env b v = []"
  by (induction b) (auto simp: chain_env_Cons)

lemma chain_env_replace_Some:
  "replaceTopBinding b v x = Some c \<Longrightarrow> chain_env c = (chain_env b)(v := x # tl (chain_env b v))"
  by (induction b arbitrary: c) (auto simp: chain_env_Cons fun_eq_iff split: if_splits)

lemma bs_current_env: "bs_current v b = (case chain_env b v of [] \<Rightarrow> None | x # _ \<Rightarrow> Some x)"
  by (induction b) (auto simp: chain_env_Cons)

lemma bs_hasBinding_env: "bs_hasBinding v b \<longleftrightarrow> chain_env b v \<noteq> []"
  by (induction b) (auto simp: chain_env_Cons)

interpretation child_env: binding_env chain_env bs_push bs_pop bs_setCurrent bs_current
  by unfold_locales
    (simp_all add: bs_push_def bs_pop_def bs_setCurrent_def chain_env_Cons chain_env_remove
      chain_env_replace_None chain_env_replace_Some bs_current_env)

text \<open>\<open>snapshot\<close> collects the frames per var, innermost last; a Go map, so the order
  of its entries is left to the map.\<close>

fun snapshot_append :: "snapshot \<Rightarrow> nat \<times> vv \<Rightarrow> snapshot" where
  "snapshot_append [] (v, x) = [(v, [x])]"
| "snapshot_append ((u, xs) # s) (v, x) =
     (if u = v then (u, xs @ [x]) # s else (u, xs) # snapshot_append s (v, x))"

definition bs_snapshot :: "bindings \<Rightarrow> snapshot" where
  "bs_snapshot b = map (\<lambda>(v, xs). (v, rev xs)) (foldl snapshot_append [] b)"

definition installSnapshot :: "snapshot \<Rightarrow> bindings" where
  "installSnapshot snap =
     foldl (\<lambda>head (v, stack). foldl (\<lambda>h val. bs_push v val h) head stack) [] snap"

lemma snapshot_append_keys:
  "set (map fst (snapshot_append s f)) = insert (fst f) (set (map fst s))"
  "distinct (map fst s) \<Longrightarrow> distinct (map fst (snapshot_append s f))"
  by (induction s f rule: snapshot_append.induct) auto

lemma map_of_snapshot_append:
  "map_of (snapshot_append s (v, x)) u =
     (if u = v then Some ((case map_of s v of Some xs \<Rightarrow> xs | None \<Rightarrow> []) @ [x]) else map_of s u)"
  by (induction s "(v, x)" rule: snapshot_append.induct) auto

lemma foldl_snapshot_append:
  "distinct (map fst s) \<Longrightarrow> distinct (map fst (foldl snapshot_append s b))"
  by (induction b arbitrary: s) (simp_all add: snapshot_append_keys(2))

lemma map_of_foldl_snapshot_append:
  "map_of (foldl snapshot_append s b) v =
     (if chain_env b v = [] then map_of s v
      else Some ((case map_of s v of Some xs \<Rightarrow> xs | None \<Rightarrow> []) @ chain_env b v))"
  by (induction b arbitrary: s)
    (auto simp: map_of_snapshot_append chain_env_Cons split: option.splits)

lemma map_of_map_rev: "map_of (map (\<lambda>(v, xs). (v, rev xs)) s) v = map_option rev (map_of s v)"
  by (induction s) auto

lemma map_of_bs_snapshot:
  "map_of (bs_snapshot b) v = (if chain_env b v = [] then None else Some (rev (chain_env b v)))"
  by (simp add: bs_snapshot_def map_of_map_rev map_of_foldl_snapshot_append)

lemma distinct_bs_snapshot: "distinct (map fst (bs_snapshot b))"
  using foldl_snapshot_append[of "[]" b]
  by (simp add: bs_snapshot_def map_map o_def case_prod_unfold)

lemma install_stack: "foldl (\<lambda>h val. bs_push v val h) head stack = map (Pair v) (rev stack) @ head"
  by (induction stack arbitrary: head) (simp_all add: bs_push_def)

definition snap_env :: "snapshot \<Rightarrow> nat \<Rightarrow> vv list" where
  "snap_env snap v = (case map_of snap v of Some xs \<Rightarrow> rev xs | None \<Rightarrow> [])"

lemma chain_env_Pair: "chain_env (map (Pair u) xs) v = (if u = v then xs else [])"
  by (induction xs) (auto simp: chain_env_Cons)

lemma chain_env_install_aux:
  "distinct (map fst snap) \<Longrightarrow> \<forall>v\<in>fst ` set snap. chain_env head v = [] \<Longrightarrow>
   chain_env (foldl (\<lambda>head (v, stack). foldl (\<lambda>h val. bs_push v val h) head stack) head snap) v =
     snap_env snap v @ chain_env head v"
proof (induction snap arbitrary: head)
  case (Cons f snap)
  obtain u xs where f: "f = (u, xs)" by force
  have u: "map_of snap u = None"
    using Cons.prems(1) f by (auto simp: map_of_eq_None_iff)
  show ?case
    using Cons.prems f u
    by (subst foldl_Cons, subst Cons.IH)
      (auto simp: install_stack chain_env_append chain_env_Pair snap_env_def image_iff
        split: option.splits)
qed (simp add: snap_env_def)

lemma chain_env_install: "distinct (map fst snap) \<Longrightarrow> chain_env (installSnapshot snap) = snap_env snap"
  by (rule ext) (simp add: installSnapshot_def chain_env_install_aux)

lemma snap_env_bs_snapshot [simp]: "snap_env (bs_snapshot b) = chain_env b"
  by (rule ext) (simp add: snap_env_def map_of_bs_snapshot)

lemma snap_env_perm:
  assumes "mset s = mset t" "distinct (map fst s)"
  shows "snap_env s = snap_env t" "distinct (map fst t)"
proof -
  from assms(1) have "mset (map fst s) = mset (map fst t)" by simp
  then show d: "distinct (map fst t)" using assms(2) by (metis distinct_count_atmost_1 set_mset_mset)
  have "set s = set t" using assms(1) by (metis set_mset_mset)
  then have "map_of s = map_of t" using assms(2) d by (intro map_of_inject_set[THEN iffD2]) auto
  then show "snap_env s = snap_env t" by (simp add: snap_env_def fun_eq_iff)
qed

section \<open>The chains of the root context\<close>

abbreviation root_bind :: "dyn \<Rightarrow> nat \<Rightarrow> vv list" where
  "root_bind d v \<equiv> vc_rootBind (d_var d v)"

definition store_rootBind :: "nat \<Rightarrow> vv list \<Rightarrow> dyn \<Rightarrow> dyn" where
  "store_rootBind v fs = upd_var v (\<lambda>c. c\<lparr>vc_rootBind := fs\<rparr>)"

definition registryAdd :: "nat \<Rightarrow> dyn \<Rightarrow> dyn" where
  "registryAdd v d = d\<lparr>d_registry := List.insert v (d_registry d)\<rparr>"

definition registryRemove :: "nat \<Rightarrow> dyn \<Rightarrow> dyn" where
  "registryRemove v d = d\<lparr>d_registry := filter (\<lambda>u. u \<noteq> v) (d_registry d)\<rparr>"

definition rootPush :: "nat \<Rightarrow> vv \<Rightarrow> dyn \<Rightarrow> dyn" where
  "rootPush v val d =
     (let old = root_bind d v; d' = store_rootBind v (val # old) d
      in if old = [] then registryAdd v d' else d')"

definition rootPop :: "nat \<Rightarrow> dyn \<Rightarrow> dyn" where
  "rootPop v d =
     (let cur = root_bind d v; next = tl cur; d' = store_rootBind v next d
      in if cur \<noteq> [] \<and> next = [] then registryRemove v d' else d')"

definition rootDerefHead :: "nat \<Rightarrow> dyn \<Rightarrow> vv option" where
  "rootDerefHead v d = (case root_bind d v of f # _ \<Rightarrow> Some f | [] \<Rightarrow> None)"

definition rootHasBinding :: "nat \<Rightarrow> dyn \<Rightarrow> bool" where
  "rootHasBinding v d \<longleftrightarrow> root_bind d v \<noteq> []"

definition rootSetCurrent :: "nat \<Rightarrow> vv \<Rightarrow> dyn \<Rightarrow> dyn option" where
  "rootSetCurrent v val d =
     (case root_bind d v of [] \<Rightarrow> None | _ # next \<Rightarrow> Some (store_rootBind v (val # next) d))"

definition rootSnapshot :: "dyn \<Rightarrow> snapshot" where
  "rootSnapshot d =
     map (\<lambda>v. (v, rev (root_bind d v))) (filter (\<lambda>v. root_bind d v \<noteq> []) (d_registry d))"

definition rootInstall :: "snapshot \<Rightarrow> dyn \<Rightarrow> dyn" where
  "rootInstall target d =
     (let clear = (\<lambda>v d. if v \<in> fst ` set target then d
                      else registryRemove v (store_rootBind v [] d));
          d1 = fold clear (d_registry d) d;
          install = (\<lambda>(v, vals) d.
            let head = foldl (\<lambda>h val. val # h) [] vals; d' = store_rootBind v head d
            in if head \<noteq> [] then registryAdd v d' else registryRemove v d')
      in fold install target d1)"

lemma store_rootBind_simps [simp]:
  "d_var (store_rootBind v fs d) = (d_var d)(v := (d_var d v)\<lparr>vc_rootBind := fs\<rparr>)"
  "d_registry (store_rootBind v fs d) = d_registry d" "d_chain (store_rootBind v fs d) = d_chain d"
  "d_next (store_rootBind v fs d) = d_next d"
  "d_deviations (store_rootBind v fs d) = d_deviations d"
  by (simp_all add: store_rootBind_def)

lemma registry_simps [simp]:
  "d_var (registryAdd v d) = d_var d" "d_var (registryRemove v d) = d_var d"
  "d_chain (registryAdd v d) = d_chain d" "d_chain (registryRemove v d) = d_chain d"
  "d_next (registryAdd v d) = d_next d" "d_next (registryRemove v d) = d_next d"
  "d_deviations (registryAdd v d) = d_deviations d"
  "d_deviations (registryRemove v d) = d_deviations d"
  "d_registry (registryAdd v d) = List.insert v (d_registry d)"
  "d_registry (registryRemove v d) = filter (\<lambda>u. u \<noteq> v) (d_registry d)"
  by (simp_all add: registryAdd_def registryRemove_def)

section \<open>Roots and the guard of native primitives\<close>

definition Root :: "nat \<Rightarrow> dyn \<Rightarrow> vv" where
  "Root v d = (case vc_root (d_var d v) of Some x \<Rightarrow> x | None \<Rightarrow> NIL)"

definition derefRoot :: "nat \<Rightarrow> dyn \<Rightarrow> vv" where
  "derefRoot v d = (case rootDerefHead v d of Some x \<Rightarrow> x | None \<Rightarrow> Root v d)"

text \<open>\<open>guardDeviated.Swap\<close> with the counter moved along.\<close>

definition swap_deviated :: "bool \<Rightarrow> nat \<Rightarrow> dyn \<Rightarrow> dyn" where
  "swap_deviated b v d =
     (let was = vc_deviated (d_var d v); d' = upd_var v (\<lambda>c. c\<lparr>vc_deviated := b\<rparr>) d
      in d'\<lparr>d_deviations := d_deviations d + (if b \<and> \<not> was then 1 else if \<not> b \<and> was then - 1 else 0)\<rparr>)"

definition updateGuard :: "(vv \<Rightarrow> vv \<Rightarrow> bool) \<Rightarrow> nat \<Rightarrow> vv \<Rightarrow> dyn \<Rightarrow> dyn" where
  "updateGuard same v newVal d = (case vc_guard (d_var d v) of
     None \<Rightarrow> d
   | Some p \<Rightarrow> if same p newVal then swap_deviated False v d else swap_deviated True v d)"

definition SetRoot :: "(vv \<Rightarrow> vv \<Rightarrow> bool) \<Rightarrow> nat \<Rightarrow> vv \<Rightarrow> dyn \<Rightarrow> dyn" where
  "SetRoot same v val d = updateGuard same v val (upd_var v (\<lambda>c. c\<lparr>vc_root := Some val\<rparr>) d)"

definition GuardRoot :: "nat \<Rightarrow> dyn \<Rightarrow> dyn" where
  "GuardRoot v d = swap_deviated False v (upd_var v (\<lambda>c. c\<lparr>vc_guard := Some (Root v d)\<rparr>) d)"

definition adoptGuard :: "(vv \<Rightarrow> vv \<Rightarrow> bool) \<Rightarrow> nat \<Rightarrow> nat option \<Rightarrow> dyn \<Rightarrow> dyn" where
  "adoptGuard same v old d = (case old of
     None \<Rightarrow> d
   | Some u \<Rightarrow> (case vc_guard (d_var d u) of
       None \<Rightarrow> d
     | Some p \<Rightarrow>
         let d1 = upd_var v (\<lambda>c. c\<lparr>vc_guard := Some p\<rparr>) d;
             d2 = swap_deviated False u d1
         in updateGuard same v (Root v d2) d2))"

definition GuardedRootsIntact :: "dyn \<Rightarrow> bool" where
  "GuardedRootsIntact d \<longleftrightarrow> d_deviations d = 0"

definition IsBound :: "nat \<Rightarrow> dyn \<Rightarrow> bool" where
  "IsBound v d \<longleftrightarrow> rootHasBinding v d \<or> vc_root (d_var d v) \<noteq> None"

definition armTraceIfTruthy :: "nat \<Rightarrow> vv \<Rightarrow> dyn \<Rightarrow> dyn" where
  "armTraceIfTruthy v val d =
     (if \<not> IsTruthy val then d
      else if d_traceVar d = Some v then d\<lparr>d_traceArmed := True\<rparr>
      else if d_traceVar d = None \<and> vc_ns (d_var d v) = ''core'' \<and> vc_name (d_var d v) = ''*lg-trace*''
      then d\<lparr>d_traceVar := Some v, d_traceArmed := True\<rparr>
      else d)"

text \<open>Watchers and the function of \<open>alter-var-root\<close> are called through \<open>Fn.Invoke\<close>: a parameter.\<close>

type_synonym invoker = "vv \<Rightarrow> vv list \<Rightarrow> dyn \<Rightarrow> (vm_err, vv) outcome \<times> dyn"

fun notify_each :: "invoker \<Rightarrow> nat \<Rightarrow> vv \<Rightarrow> vv \<Rightarrow> (vv \<times> vv) list \<Rightarrow> dyn \<Rightarrow> (vm_err, unit) outcome \<times> dyn" where
  "notify_each call v oldVal newVal [] d = (Ok (), d)"
| "notify_each call v oldVal newVal ((key, fn) # ws) d =
     (case call fn [key, VarV v, oldVal, newVal] d of
        (Ok _, d') \<Rightarrow> notify_each call v oldVal newVal ws d'
      | (Err e, d') \<Rightarrow> (Err e, d')
      | (Panic, d') \<Rightarrow> (Panic, d'))"

definition notifyWatches :: "invoker \<Rightarrow> nat \<Rightarrow> vv \<Rightarrow> vv \<Rightarrow> dyn \<Rightarrow> (vm_err, unit) outcome \<times> dyn" where
  "notifyWatches call v oldVal newVal d = notify_each call v oldVal newVal (vc_watches (d_var d v)) d"

definition AlterRootArgs ::
    "(vv \<Rightarrow> vv \<Rightarrow> bool) \<Rightarrow> invoker \<Rightarrow> nat \<Rightarrow> vv \<Rightarrow> vv list \<Rightarrow> dyn \<Rightarrow> (vm_err, vv) outcome \<times> dyn" where
  "AlterRootArgs same call v fn args d =
     (let old = Root v d in
      case call fn (old # args) d of
        (Ok result, d1) \<Rightarrow>
          (let d2 = armTraceIfTruthy v result (SetRoot same v result d1) in
           case notifyWatches call v old result d2 of
             (Ok _, d3) \<Rightarrow> (Ok result, d3)
           | (Err e, d3) \<Rightarrow> (Err e, d3)
           | (Panic, d3) \<Rightarrow> (Panic, d3))
      | (Err e, d1) \<Rightarrow> (Err e, d1)
      | (Panic, d1) \<Rightarrow> (Panic, d1))"

definition AddWatch :: "nat \<Rightarrow> vv \<Rightarrow> vv \<Rightarrow> dyn \<Rightarrow> dyn" where
  "AddWatch v key fn = upd_var v (\<lambda>c. c\<lparr>vc_watches := AList.update key fn (vc_watches c)\<rparr>)"

definition RemoveWatch :: "nat \<Rightarrow> vv \<Rightarrow> dyn \<Rightarrow> dyn" where
  "RemoveWatch v key = upd_var v (\<lambda>c. c\<lparr>vc_watches := AList.delete key (vc_watches c)\<rparr>)"

section \<open>Execution contexts\<close>

definition set_chain :: "nat \<Rightarrow> bindings \<Rightarrow> dyn \<Rightarrow> dyn" where
  "set_chain c b d = d\<lparr>d_chain := (d_chain d)(c := b)\<rparr>"

lemma set_chain_simps [simp]:
  "d_var (set_chain c b d) = d_var d" "d_registry (set_chain c b d) = d_registry d"
  "d_chain (set_chain c b d) = (d_chain d)(c := b)" "d_next (set_chain c b d) = d_next d"
  "d_deviations (set_chain c b d) = d_deviations d"
  by (simp_all add: set_chain_def)

definition NewExecContext :: "dyn \<Rightarrow> ec \<times> dyn" where
  "NewExecContext d = (Some (d_next d), set_chain (d_next d) [] (d\<lparr>d_next := Suc (d_next d)\<rparr>))"

definition NewExecContextFrom :: "snapshot \<Rightarrow> dyn \<Rightarrow> ec \<times> dyn" where
  "NewExecContextFrom snap d =
     (let (c, d1) = NewExecContext d in (c, set_chain (the c) (installSnapshot snap) d1))"

definition BindingSnapshot :: "ec \<Rightarrow> dyn \<Rightarrow> snapshot" where
  "BindingSnapshot ec d =
     (case ec of None \<Rightarrow> rootSnapshot d | Some c \<Rightarrow> bs_snapshot (d_chain d c))"

definition Child :: "ec \<Rightarrow> dyn \<Rightarrow> ec \<times> dyn" where
  "Child src d =
     (let (c, d1) = NewExecContext d
      in (c, set_chain (the c) (installSnapshot (BindingSnapshot src d1)) d1))"

definition deref :: "ec \<Rightarrow> nat \<Rightarrow> dyn \<Rightarrow> vv" where
  "deref ec v d = (case ec of
     None \<Rightarrow> derefRoot v d
   | Some c \<Rightarrow>
       (case (if vc_dynamic (d_var d v) then bs_current v (d_chain d c) else None) of
          Some val \<Rightarrow> val
        | None \<Rightarrow> Root v d))"

definition pushBinding :: "ec \<Rightarrow> nat \<Rightarrow> vv \<Rightarrow> dyn \<Rightarrow> dyn" where
  "pushBinding ec v val d =
     (let d1 = armTraceIfTruthy v val (upd_var v (\<lambda>c. c\<lparr>vc_dynamic := True\<rparr>) d) in
      case ec of
        None \<Rightarrow> rootPush v val d1
      | Some c \<Rightarrow> set_chain c (bs_push v val (d_chain d1 c)) d1)"

definition popBinding :: "ec \<Rightarrow> nat \<Rightarrow> dyn \<Rightarrow> dyn" where
  "popBinding ec v d = (case ec of
     None \<Rightarrow> rootPop v d
   | Some c \<Rightarrow> set_chain c (bs_pop v (d_chain d c)) d)"

definition hasBinding :: "ec \<Rightarrow> nat \<Rightarrow> dyn \<Rightarrow> bool" where
  "hasBinding ec v d = (case ec of
     None \<Rightarrow> rootHasBinding v d
   | Some c \<Rightarrow> bs_hasBinding v (d_chain d c))"

definition setBinding :: "ec \<Rightarrow> nat \<Rightarrow> vv \<Rightarrow> dyn \<Rightarrow> dyn option" where
  "setBinding ec v val d = (case ec of
     None \<Rightarrow> rootSetCurrent v val d
   | Some c \<Rightarrow> map_option (\<lambda>b. set_chain c b d) (bs_setCurrent v val (d_chain d c)))"

text \<open>\<open>RunWithBindings\<close> of a body that returns a value or an error, or panics: nothing is
  deferred, so a panic of the body passes the second \<open>rootInstall\<close> by.\<close>

definition RunWithBindings ::
    "snapshot \<Rightarrow> (dyn \<Rightarrow> ('e, 'a) outcome \<times> dyn) \<Rightarrow> dyn \<Rightarrow> ('e, 'a) outcome \<times> dyn" where
  "RunWithBindings snap fn d =
     (let saved = rootSnapshot d in
      case fn (rootInstall snap d) of
        (Ok x, d') \<Rightarrow> (Ok x, rootInstall saved d')
      | (Err e, d') \<Rightarrow> (Err e, rootInstall saved d')
      | (Panic, d') \<Rightarrow> (Panic, d'))"

section \<open>The stack per var that a context keeps\<close>

definition ec_env :: "ec \<Rightarrow> dyn \<Rightarrow> nat \<Rightarrow> vv list" where
  "ec_env ec d v = (case ec of None \<Rightarrow> root_bind d v | Some c \<Rightarrow> chain_env (d_chain d c) v)"

definition ec_current :: "ec \<Rightarrow> nat \<Rightarrow> dyn \<Rightarrow> vv option" where
  "ec_current ec v d = (case ec of None \<Rightarrow> rootDerefHead v d | Some c \<Rightarrow> bs_current v (d_chain d c))"

lemma armTrace_simps [simp]:
  "d_var (armTraceIfTruthy v x d) = d_var d" "d_registry (armTraceIfTruthy v x d) = d_registry d"
  "d_chain (armTraceIfTruthy v x d) = d_chain d" "d_next (armTraceIfTruthy v x d) = d_next d"
  "d_deviations (armTraceIfTruthy v x d) = d_deviations d"
  by (simp_all add: armTraceIfTruthy_def)

lemmas context_defs = pushBinding_def popBinding_def setBinding_def hasBinding_def
  rootPush_def rootPop_def rootSetCurrent_def rootHasBinding_def Let_def

lemma ec_env_pushBinding:
  "ec_env ec' (pushBinding ec v x d) =
     (if ec' = ec then (ec_env ec d)(v := x # ec_env ec d v) else ec_env ec' d)"
  by (cases ec; cases ec') (auto simp: ec_env_def context_defs child_env.push fun_eq_iff)

lemma ec_env_popBinding:
  "ec_env ec' (popBinding ec v d) =
     (if ec' = ec then (ec_env ec d)(v := tl (ec_env ec d v)) else ec_env ec' d)"
  by (cases ec; cases ec') (auto simp: ec_env_def context_defs child_env.pop fun_eq_iff)

lemma setBinding_None: "setBinding ec v x d = None \<longleftrightarrow> ec_env ec d v = []"
  by (cases ec) (auto simp: ec_env_def context_defs child_env.setc_None split: list.splits)

lemma ec_env_setBinding:
  "setBinding ec v x d = Some d' \<Longrightarrow>
   ec_env ec' d' = (if ec' = ec then (ec_env ec d)(v := x # tl (ec_env ec d v)) else ec_env ec' d)"
  by (cases ec; cases ec')
    (auto simp: ec_env_def context_defs child_env.setc_Some fun_eq_iff split: list.splits)

lemma ec_current_env: "ec_current ec v d = (case ec_env ec d v of [] \<Rightarrow> None | x # _ \<Rightarrow> Some x)"
  by (cases ec) (simp_all add: ec_env_def ec_current_def rootDerefHead_def bs_current_env split: list.splits)

lemma hasBinding_env: "hasBinding ec v d \<longleftrightarrow> ec_env ec d v \<noteq> []"
  by (cases ec) (simp_all add: ec_env_def hasBinding_def rootHasBinding_def bs_hasBinding_env)

interpretation ctx_env: binding_env "ec_env ec" "pushBinding ec" "popBinding ec" "setBinding ec"
    "ec_current ec" for ec
  by unfold_locales
    (simp_all add: ec_env_pushBinding ec_env_popBinding setBinding_None ec_env_setBinding ec_current_env)

section \<open>The invariant of the binding state\<close>

definition dyn_ok :: "dyn \<Rightarrow> bool" where
  "dyn_ok d \<longleftrightarrow> distinct (d_registry d) \<and> set (d_registry d) = {v. root_bind d v \<noteq> []} \<and>
     (\<forall>ec v. ec_env ec d v \<noteq> [] \<longrightarrow> vc_dynamic (d_var d v)) \<and>
     (\<forall>c\<ge>d_next d. d_chain d c = [])"

definition ec_ok :: "ec \<Rightarrow> dyn \<Rightarrow> bool" where
  "ec_ok ec d \<longleftrightarrow> (case ec of None \<Rightarrow> True | Some c \<Rightarrow> c < d_next d)"

lemma dyn_ok_dynamic: "dyn_ok d \<Longrightarrow> ec_env ec d v \<noteq> [] \<Longrightarrow> vc_dynamic (d_var d v)"
  by (simp add: dyn_ok_def)

lemma deref_env:
  assumes "dyn_ok d"
  shows "deref ec v d = (case ec_env ec d v of [] \<Rightarrow> Root v d | x # _ \<Rightarrow> x)"
  using dyn_ok_dynamic[OF assms, of ec v]
  by (cases ec) (auto simp: deref_def derefRoot_def ec_env_def rootDerefHead_def
      bs_current_env split: list.splits option.splits)

fun run_act :: "ec \<Rightarrow> act \<Rightarrow> dyn \<Rightarrow> dyn" where
  "run_act ec (Push v x) d = pushBinding ec v x d"
| "run_act ec (Pop v) d = popBinding ec v d"
| "run_act ec (Set v x) d = (case setBinding ec v x d of Some d' \<Rightarrow> d' | None \<Rightarrow> d)"

lemma run_act_perform: "run_act ec = ctx_env.perform ec"
  by (intro ext, rename_tac a d, case_tac a) auto

lemma ec_env_run_acts: "ec_env ec (fold (run_act ec) as d) = fold act_env as (ec_env ec d)"
  by (simp add: run_act_perform ctx_env.env_perform_all)

lemma ec_env_run_act_other: "ec' \<noteq> ec \<Longrightarrow> ec_env ec' (run_act ec a d) = ec_env ec' d"
  by (cases a) (auto simp: ec_env_pushBinding ec_env_popBinding ec_env_setBinding split: option.splits)

lemma ec_env_run_acts_other:
  "ec' \<noteq> ec \<Longrightarrow> ec_env ec' (fold (run_act ec) as d) = ec_env ec' d"
  by (induction as arbitrary: d) (simp_all add: ec_env_run_act_other)

lemma Root_run_act [simp]: "Root v (run_act ec a d) = Root v d"
  by (cases a; cases ec) (auto simp: Root_def context_defs split: option.splits list.splits)

lemma Root_run_acts [simp]: "Root v (fold (run_act ec) as d) = Root v d"
  by (induction as arbitrary: d) simp_all

lemma d_next_run_act [simp]: "d_next (run_act ec a d) = d_next d"
  by (cases a; cases ec) (auto simp: context_defs split: option.splits list.splits)

lemma chain_env_in: "chain_env b v \<noteq> [] \<longleftrightarrow> v \<in> fst ` set b"
  by (induction b) (auto simp: chain_env_Cons)

definition registry_ok :: "dyn \<Rightarrow> bool" where
  "registry_ok d \<longleftrightarrow> distinct (d_registry d) \<and> set (d_registry d) = {v. root_bind d v \<noteq> []}"

lemma registry_ok_store:
  assumes "registry_ok d"
  shows "fs \<noteq> [] \<Longrightarrow> registry_ok (registryAdd v (store_rootBind v fs d))"
    "registry_ok (registryRemove v (store_rootBind v [] d))"
    "(fs \<noteq> [] \<longleftrightarrow> root_bind d v \<noteq> []) \<Longrightarrow> registry_ok (store_rootBind v fs d)"
  using assms by (auto simp: registry_ok_def)

lemma registry_ok_rootPush: "registry_ok d \<Longrightarrow> registry_ok (rootPush v x d)"
  using registry_ok_store(1,3)[of d] by (auto simp: rootPush_def Let_def)

lemma registry_ok_rootPop: "registry_ok d \<Longrightarrow> registry_ok (rootPop v d)"
  using registry_ok_store(2)[of d v] registry_ok_store(3)[of d "tl (root_bind d v)" v]
    registry_ok_store(3)[of d "[]" v]
  by (cases "root_bind d v") (auto simp: rootPop_def Let_def)

lemma registry_ok_run_act:
  assumes "registry_ok d"
  shows "registry_ok (run_act ec a d)"
proof -
  have 1: "registry_ok (armTraceIfTruthy v x (upd_var v (\<lambda>c. c\<lparr>vc_dynamic := True\<rparr>) d))" for v x
    using assms by (auto simp: registry_ok_def)
  have 2: "registry_ok (set_chain c b d) = registry_ok d" for c b and d :: dyn
    by (simp add: registry_ok_def)
  show ?thesis using assms registry_ok_rootPush[OF 1] registry_ok_rootPop[OF assms] registry_ok_store(3)[OF assms]
    by (cases a; cases ec) (auto simp: pushBinding_def popBinding_def setBinding_def rootSetCurrent_def
        Let_def 1 2 split: list.splits option.splits)
qed

lemma vc_dynamic_run_act:
  "vc_dynamic (d_var d u) \<Longrightarrow> vc_dynamic (d_var (run_act ec a d) u)"
  "vc_dynamic (d_var (pushBinding ec v x d) v)"
  by (cases a; cases ec; auto simp: context_defs split: option.splits list.splits)
    (cases ec; auto simp: context_defs)

lemma d_chain_run_act: "ec \<noteq> Some c \<Longrightarrow> d_chain (run_act ec a d) c = d_chain d c"
  by (cases a; cases ec) (auto simp: context_defs split: option.splits list.splits)

lemma dyn_ok_run_act:
  assumes d: "dyn_ok d" and c: "ec_ok ec d"
  shows "dyn_ok (run_act ec a d)"
proof -
  have "registry_ok (run_act ec a d)" using d registry_ok_run_act by (simp add: dyn_ok_def registry_ok_def)
  moreover have "vc_dynamic (d_var (run_act ec a d) v)" if "ec_env ec' (run_act ec a d) v \<noteq> []" for ec' v
  proof (cases "ec_env ec' d v = []")
    case False
    then show ?thesis using dyn_ok_dynamic[OF d] vc_dynamic_run_act(1) by blast
  next
    case True
    then show ?thesis using that vc_dynamic_run_act(2)[of ec] setBinding_None[of ec v _ d]
      by (cases a) (auto simp: ec_env_pushBinding ec_env_popBinding ec_env_setBinding
          split: if_splits option.splits)
  qed
  moreover have "d_chain (run_act ec a d) i = []" if "d_next d \<le> i" for i
    using that d c d_chain_run_act[of ec i a d] by (auto simp: dyn_ok_def ec_ok_def split: option.splits)
  ultimately show ?thesis by (simp add: dyn_ok_def registry_ok_def)
qed

lemma dyn_ok_run_acts: "dyn_ok d \<Longrightarrow> ec_ok ec d \<Longrightarrow> dyn_ok (fold (run_act ec) as d)"
  by (induction as arbitrary: d) (auto simp: dyn_ok_run_act ec_ok_def split: option.splits)

lemma deref_run_acts_other:
  assumes "dyn_ok d" "ec_ok ec d" "ec' \<noteq> ec"
  shows "deref ec' v (fold (run_act ec) as d) = deref ec' v d"
  using dyn_ok_run_acts[OF assms(1,2)] assms(1,3)
  by (simp add: deref_env ec_env_run_acts_other split: list.split)

lemma deref_balanced:
  assumes "dyn_ok d" "ec_ok ec d" "balanced {} as"
  shows "deref ec v (fold (run_act ec) as d) = deref ec v d"
proof -
  have "fold act_env as (ec_env ec d) = ec_env ec d"
    using balanced_same_below[OF assms(3)] by (auto simp: same_below_def)
  then show ?thesis
    using dyn_ok_run_acts[OF assms(1,2)] assms(1) by (simp add: deref_env ec_env_run_acts split: list.split)
qed

section \<open>Child contexts\<close>

lemma map_of_rootSnapshot:
  assumes "dyn_ok d"
  shows "snap_env (rootSnapshot d) = root_bind d" "distinct (map fst (rootSnapshot d))"
proof -
  have m: "map_of (map (\<lambda>v. (v, rev (root_bind d v))) vs) u =
      (if u \<in> set vs then Some (rev (root_bind d u)) else None)" for vs u
    by (induction vs) auto
  have "set (d_registry d) = {v. root_bind d v \<noteq> []}" using assms by (simp add: dyn_ok_def)
  then show "snap_env (rootSnapshot d) = root_bind d"
    by (auto simp: snap_env_def rootSnapshot_def m fun_eq_iff)
  show "distinct (map fst (rootSnapshot d))"
    using assms by (simp add: rootSnapshot_def dyn_ok_def o_def)
qed

lemma BindingSnapshot_env:
  assumes "dyn_ok d"
  shows "snap_env (BindingSnapshot ec d) = ec_env ec d" "distinct (map fst (BindingSnapshot ec d))"
  using map_of_rootSnapshot[OF assms]
  by (cases ec; simp add: BindingSnapshot_def ec_env_def fun_eq_iff distinct_bs_snapshot)+

lemma dyn_ok_fresh: "dyn_ok d \<Longrightarrow> dyn_ok (snd (NewExecContext d))"
  by (auto simp: dyn_ok_def NewExecContext_def ec_env_def split: option.splits)

lemma NewExecContext_simps [simp]:
  "fst (NewExecContext d) = Some (d_next d)" "d_next (snd (NewExecContext d)) = Suc (d_next d)"
  "d_var (snd (NewExecContext d)) = d_var d"
  by (simp_all add: NewExecContext_def)

lemma ec_env_fresh: "ec_ok ec d \<Longrightarrow> ec_env ec (snd (NewExecContext d)) = ec_env ec d"
  by (auto simp: NewExecContext_def ec_env_def ec_ok_def fun_eq_iff split: option.splits)

lemma dyn_ok_set_chain:
  assumes "dyn_ok d" "c < d_next d" "\<And>v. chain_env b v \<noteq> [] \<Longrightarrow> vc_dynamic (d_var d v)"
  shows "dyn_ok (set_chain c b d)"
proof -
  have "vc_dynamic (d_var d v)" if "ec_env ec (set_chain c b d) v \<noteq> []" for ec v
    using that assms(3)[of v] dyn_ok_dynamic[OF assms(1), of ec v]
    by (cases ec) (auto simp: ec_env_def split: if_splits)
  then show ?thesis using assms(1,2) by (auto simp: dyn_ok_def)
qed

lemma Child_env:
  assumes d: "dyn_ok d" and e: "ec_ok src d"
  shows "ec_env (fst (Child src d)) (snd (Child src d)) = ec_env src d"
    and "dyn_ok (snd (Child src d))" and "ec_ok (fst (Child src d)) (snd (Child src d))"
    and "fst (Child src d) \<noteq> src" and "ec_ok ec d \<Longrightarrow> ec_env ec (snd (Child src d)) = ec_env ec d"
    and "Root v (snd (Child src d)) = Root v d"
proof -
  let ?d1 = "snd (NewExecContext d)"
  have env: "chain_env (installSnapshot (BindingSnapshot src ?d1)) = ec_env src d"
    using BindingSnapshot_env[OF dyn_ok_fresh[OF d]] by (simp add: chain_env_install ec_env_fresh[OF e])
  have ch: "Child src d = (Some (d_next d), set_chain (d_next d) (installSnapshot (BindingSnapshot src ?d1)) ?d1)"
    by (simp add: Child_def case_prod_unfold Let_def)
  show "ec_env (fst (Child src d)) (snd (Child src d)) = ec_env src d"
    using env by (simp add: ch ec_env_def fun_eq_iff)
  show "dyn_ok (snd (Child src d))"
    using dyn_ok_set_chain[OF dyn_ok_fresh[OF d], of "d_next d" "installSnapshot (BindingSnapshot src ?d1)"]
      dyn_ok_dynamic[OF d, of src] env by (simp add: ch)
  show "ec_ok (fst (Child src d)) (snd (Child src d))" by (simp add: ch ec_ok_def)
  show "fst (Child src d) \<noteq> src" using e by (auto simp: ch ec_ok_def)
  show "ec_env ec (snd (Child src d)) = ec_env ec d" if "ec_ok ec d"
    using ec_env_fresh[OF that] that by (auto simp: ch ec_env_def ec_ok_def fun_eq_iff split: option.splits)
  show "Root v (snd (Child src d)) = Root v d" by (simp add: ch Root_def)
qed

section \<open>Swapping the whole root state\<close>

lemma foldl_cons: "foldl (\<lambda>h val. val # h) h vals = rev vals @ h"
  by (induction vals arbitrary: h) auto

lemma root_bind_clear:
  "root_bind (fold (\<lambda>v d. if v \<in> K then d else registryRemove v (store_rootBind v [] d)) vs d) u =
     (if u \<in> set vs - K then [] else root_bind d u)"
  by (induction vs arbitrary: d) auto

lemma registry_ok_clear:
  "registry_ok d \<Longrightarrow>
   registry_ok (fold (\<lambda>v d. if v \<in> K then d else registryRemove v (store_rootBind v [] d)) vs d)"
  by (induction vs arbitrary: d) (auto simp: registry_ok_store(2))

definition install_one :: "nat \<times> vv list \<Rightarrow> dyn \<Rightarrow> dyn" where
  "install_one = (\<lambda>(v, vals) d.
     let head = foldl (\<lambda>h val. val # h) [] vals; d' = store_rootBind v head d
     in if head \<noteq> [] then registryAdd v d' else registryRemove v d')"

lemma install_one_simps:
  "root_bind (install_one (v, vals) d) u = (if u = v then rev vals else root_bind d u)"
  "registry_ok d \<Longrightarrow> registry_ok (install_one f d)"
  using registry_ok_store(1,2)[of d]
  by (auto simp: install_one_def foldl_cons Let_def split: prod.splits)

lemma root_bind_install:
  "distinct (map fst snap) \<Longrightarrow>
   root_bind (fold install_one snap d) u =
     (case map_of snap u of Some vals \<Rightarrow> rev vals | None \<Rightarrow> root_bind d u)"
proof (induction snap arbitrary: d)
  case (Cons f snap)
  obtain v vals where f: "f = (v, vals)" by force
  have "map_of snap v = None" using Cons.prems f by (auto simp: map_of_eq_None_iff)
  then show ?case
    using Cons.IH[of "install_one f d"] Cons.prems by (auto simp: f install_one_simps split: option.splits)
qed simp

lemma registry_ok_install: "registry_ok d \<Longrightarrow> registry_ok (fold install_one snap d)"
  by (induction snap arbitrary: d) (auto simp: install_one_simps)

lemma rootInstall_fold:
  "rootInstall target d = fold install_one target
     (fold (\<lambda>v d. if v \<in> fst ` set target then d else registryRemove v (store_rootBind v [] d)) (d_registry d) d)"
  by (simp add: rootInstall_def install_one_def Let_def)

lemma rootInstall_env:
  assumes "registry_ok d" "distinct (map fst target)"
  shows "root_bind (rootInstall target d) = snap_env target"
    and "registry_ok (rootInstall target d)"
proof -
  show "registry_ok (rootInstall target d)"
    by (simp add: rootInstall_fold registry_ok_install registry_ok_clear assms(1))
  show "root_bind (rootInstall target d) = snap_env target"
  proof
    fix u
    show "root_bind (rootInstall target d) u = snap_env target u"
    proof (cases "map_of target u")
      case None
      then have "u \<notin> fst ` set target" by (simp add: map_of_eq_None_iff)
      then show ?thesis using assms None
        by (auto simp: rootInstall_fold root_bind_install root_bind_clear snap_env_def registry_ok_def)
    next
      case (Some vals)
      then show ?thesis using assms by (simp add: rootInstall_fold root_bind_install snap_env_def)
    qed
  qed
qed

definition rest_same :: "dyn \<Rightarrow> dyn \<Rightarrow> bool" where
  "rest_same d d' \<longleftrightarrow> d_chain d' = d_chain d \<and> d_next d' = d_next d \<and>
     (\<forall>v. vc_dynamic (d_var d' v) = vc_dynamic (d_var d v) \<and> vc_root (d_var d' v) = vc_root (d_var d v))"

lemma rest_same_refl: "rest_same d d"
  by (simp add: rest_same_def)

lemma rest_same_trans: "rest_same a b \<Longrightarrow> rest_same b c \<Longrightarrow> rest_same a c"
  by (simp add: rest_same_def)

lemma rest_same_fold:
  assumes "\<And>x d. rest_same d (f x d)"
  shows "rest_same d (fold f xs d)"
proof (induction xs arbitrary: d)
  case (Cons x xs)
  show ?case using rest_same_trans[OF assms Cons.IH] by simp
qed (simp add: rest_same_refl)

lemma rest_same_store [simp]:
  "rest_same d (store_rootBind v fs d)" "rest_same d (registryAdd v (store_rootBind v fs d))"
  "rest_same d (registryRemove v (store_rootBind v fs d))"
  by (simp_all add: rest_same_def)

lemma rootInstall_rest: "rest_same d (rootInstall target d)"
proof -
  have "rest_same d (install_one f d)" for f d
    by (cases f) (simp add: install_one_def Let_def)
  then have 1: "rest_same d (fold install_one xs d)" for xs d by (intro rest_same_fold)
  have 2: "rest_same d (fold (\<lambda>v d. if v \<in> K then d else registryRemove v (store_rootBind v [] d)) vs d)"
    for K vs d by (rule rest_same_fold) (simp add: rest_same_def)
  show ?thesis unfolding rootInstall_fold by (rule rest_same_trans[OF 2 1])
qed

section \<open>The counter of deviating guarded roots\<close>

definition deviates :: "(vv \<Rightarrow> vv \<Rightarrow> bool) \<Rightarrow> dyn \<Rightarrow> nat \<Rightarrow> bool" where
  "deviates same d v \<longleftrightarrow> (case vc_guard (d_var d v) of Some p \<Rightarrow> \<not> same p (Root v d) | None \<Rightarrow> False)"

definition counter_ok :: "dyn \<Rightarrow> bool" where
  "counter_ok d \<longleftrightarrow> finite {v. vc_deviated (d_var d v)} \<and>
     d_deviations d = int (card {v. vc_deviated (d_var d v)})"

text \<open>\<open>same\<close> stands for \<open>sameRootIdentity\<close>, which is not reflexive: it is false of two values
  of an uncomparable type and of a NaN. So a var can be marked only when it deviates, and every
  var that deviates is marked, but for two kinds: vars whose guarded root is not even the same as
  itself (\<open>GuardRoot\<close> clears their mark regardless), and vars replaced by a newer one
  (\<open>adoptGuard\<close> clears the mark of the old var and leaves its guard), the set \<open>X\<close>.\<close>

definition guard_ok :: "(vv \<Rightarrow> vv \<Rightarrow> bool) \<Rightarrow> nat set \<Rightarrow> dyn \<Rightarrow> bool" where
  "guard_ok same X d \<longleftrightarrow> counter_ok d \<and>
     (\<forall>v. vc_deviated (d_var d v) \<longrightarrow> deviates same d v) \<and>
     (\<forall>v p. v \<notin> X \<longrightarrow> vc_guard (d_var d v) = Some p \<longrightarrow> same p p \<longrightarrow> \<not> same p (Root v d) \<longrightarrow>
        vc_deviated (d_var d v))"

lemma swap_deviated_simps [simp]:
  "vc_deviated (d_var (swap_deviated b v d) u) = (if u = v then b else vc_deviated (d_var d u))"
  "vc_guard (d_var (swap_deviated b v d) u) = vc_guard (d_var d u)"
  "vc_root (d_var (swap_deviated b v d) u) = vc_root (d_var d u)"
  by (auto simp: swap_deviated_def Let_def)

lemma Root_swap [simp]: "Root u (swap_deviated b v d) = Root u d"
  by (simp add: Root_def)

lemma counter_ok_swap: "counter_ok d \<Longrightarrow> counter_ok (swap_deviated b v d)"
proof -
  assume d: "counter_ok d"
  let ?D = "{u. vc_deviated (d_var d u)}"
  have s: "{u. vc_deviated (d_var (swap_deviated b v d) u)} = (if b then insert v ?D else ?D - {v})"
    by auto
  have "v \<in> ?D \<Longrightarrow> 0 < card ?D" using d by (auto simp: counter_ok_def card_gt_0_iff)
  then show ?thesis
    using d unfolding counter_ok_def s
    by (auto simp: swap_deviated_def Let_def card_insert_if card_Diff_singleton_if of_nat_diff Suc_leI)
qed

lemma counter_ok_upd:
  "(\<And>c. vc_deviated (f c) = vc_deviated c) \<Longrightarrow> counter_ok (upd_var v f d) = counter_ok d"
proof -
  assume "\<And>c. vc_deviated (f c) = vc_deviated c"
  then have "{u. vc_deviated (d_var (upd_var v f d) u)} = {u. vc_deviated (d_var d u)}" by auto
  then show ?thesis by (simp add: counter_ok_def)
qed

lemma counter_ok_SetRoot: "counter_ok d \<Longrightarrow> counter_ok (SetRoot same v x d)"
  by (auto simp: SetRoot_def updateGuard_def counter_ok_upd counter_ok_swap split: option.split)

lemma Root_SetRoot: "Root u (SetRoot same v x d) = (if u = v then x else Root u d)"
  by (auto simp: SetRoot_def updateGuard_def Root_def split: option.split)

lemma vc_guard_SetRoot: "vc_guard (d_var (SetRoot same v x d) u) = vc_guard (d_var d u)"
  by (auto simp: SetRoot_def updateGuard_def split: option.split)

lemma vc_deviated_SetRoot:
  "vc_deviated (d_var (SetRoot same v x d) u) =
     (if u = v then (case vc_guard (d_var d v) of Some p \<Rightarrow> \<not> same p x | None \<Rightarrow> vc_deviated (d_var d v))
      else vc_deviated (d_var d u))"
  by (auto simp: SetRoot_def updateGuard_def split: option.split)

lemma guard_ok_SetRoot:
  assumes "guard_ok same X d"
  shows "guard_ok same X (SetRoot same v x d)"
  unfolding guard_ok_def deviates_def Root_SetRoot vc_guard_SetRoot vc_deviated_SetRoot
  using assms counter_ok_SetRoot[of d same v x]
  by (auto simp: guard_ok_def deviates_def split: option.splits)

lemma guard_ok_GuardRoot:
  assumes "guard_ok same X d"
  shows "guard_ok same X (GuardRoot v d)"
proof -
  have r: "Root u (GuardRoot v d) = Root u d" for u
    by (simp add: GuardRoot_def) (simp add: Root_def)
  have g: "vc_guard (d_var (GuardRoot v d) u) = (if u = v then Some (Root v d) else vc_guard (d_var d u))"
    "vc_deviated (d_var (GuardRoot v d) u) = (u \<noteq> v \<and> vc_deviated (d_var d u))" for u
    by (simp_all add: GuardRoot_def)
  have "counter_ok (GuardRoot v d)"
    using assms by (simp add: GuardRoot_def guard_ok_def counter_ok_swap counter_ok_upd)
  then show ?thesis using assms by (auto simp: guard_ok_def deviates_def r g split: option.splits)
qed

lemma counter_ok_adoptGuard: "counter_ok d \<Longrightarrow> counter_ok (adoptGuard same v old d)"
  by (auto simp: adoptGuard_def updateGuard_def Let_def counter_ok_swap counter_ok_upd split: option.split)

lemma adoptGuard_simps:
  assumes "vc_guard (d_var d u) = Some p"
  shows "Root w (adoptGuard same v (Some u) d) = Root w d"
    "vc_guard (d_var (adoptGuard same v (Some u) d) w) = (if w = v then Some p else vc_guard (d_var d w))"
    "vc_deviated (d_var (adoptGuard same v (Some u) d) w) =
       (if w = v then \<not> same p (Root v d) else w \<noteq> u \<and> vc_deviated (d_var d w))"
  using assms by (auto simp: adoptGuard_def updateGuard_def Let_def Root_def)

lemma guard_ok_adoptGuard:
  assumes "guard_ok same X d" "set_option old \<subseteq> X"
  shows "guard_ok same X (adoptGuard same v old d)"
proof (cases old)
  case (Some u)
  show ?thesis
  proof (cases "vc_guard (d_var d u)")
    case (Some p)
    have "counter_ok (adoptGuard same v old d)" using assms(1) counter_ok_adoptGuard by (simp add: guard_ok_def)
    then show ?thesis
      using assms unfolding \<open>old = Some u\<close> guard_ok_def deviates_def adoptGuard_simps[OF Some]
      by (auto split: option.splits)
  qed (use assms \<open>old = Some u\<close> in \<open>simp add: adoptGuard_def\<close>)
qed (use assms in \<open>simp add: adoptGuard_def\<close>)

lemma Root_armTrace [simp]: "Root u (armTraceIfTruthy v x d) = Root u d"
  by (simp add: Root_def)

lemma guard_ok_armTrace [simp]: "guard_ok same X (armTraceIfTruthy v x d) = guard_ok same X d"
  unfolding guard_ok_def counter_ok_def deviates_def Root_armTrace by simp

lemma guard_ok_notify_each:
  assumes "\<And>fn args d. guard_ok same X d \<Longrightarrow> guard_ok same X (snd (call fn args d))"
  shows "guard_ok same X d \<Longrightarrow> guard_ok same X (snd (notify_each call v oldVal newVal ws d))"
proof (induction ws arbitrary: d)
  case (Cons wf ws)
  obtain key fn where wf: "wf = (key, fn)" by force
  obtain r d1 where c: "call fn [key, VarV v, oldVal, newVal] d = (r, d1)" by fastforce
  have "guard_ok same X d1" using assms[OF Cons.prems, of fn "[key, VarV v, oldVal, newVal]"] c by simp
  then show ?case using Cons.IH by (cases r) (simp_all add: wf c)
qed simp

lemma guard_ok_AlterRootArgs:
  assumes call: "\<And>fn args d. guard_ok same X d \<Longrightarrow> guard_ok same X (snd (call fn args d))"
    and d: "guard_ok same X d"
  shows "guard_ok same X (snd (AlterRootArgs same call v fn args d))"
proof -
  obtain r d1 where c: "call fn (Root v d # args) d = (r, d1)" by fastforce
  have d1: "guard_ok same X d1" using call[OF d, of fn "Root v d # args"] c by simp
  show ?thesis
  proof (cases r)
    case (Ok x)
    let ?d2 = "armTraceIfTruthy v x (SetRoot same v x d1)"
    obtain q d3 where n: "notifyWatches call v (Root v d) x ?d2 = (q, d3)" by fastforce
    have "guard_ok same X ?d2" using guard_ok_SetRoot[OF d1] by simp
    from guard_ok_notify_each[OF call this] have "guard_ok same X (snd (notifyWatches call v (Root v d) x ?d2))"
      unfolding notifyWatches_def .
    then have "guard_ok same X d3" using n by simp
    then show ?thesis using n by (cases q) (simp_all add: AlterRootArgs_def Let_def c Ok)
  qed (use d1 c in \<open>simp_all add: AlterRootArgs_def\<close>)
qed

text \<open>What the counter says: nothing is wrong only if every var outside \<open>X\<close> whose guarded root
  is the same as itself has it, and surely if every guarded var has its guarded root.\<close>

lemma guard_ok_intact:
  assumes "guard_ok same X d"
  shows "GuardedRootsIntact d \<Longrightarrow> v \<notin> X \<Longrightarrow> vc_guard (d_var d v) = Some p \<Longrightarrow> same p p \<Longrightarrow> same p (Root v d)"
    and "(\<And>v p. vc_guard (d_var d v) = Some p \<Longrightarrow> same p (Root v d)) \<Longrightarrow> GuardedRootsIntact d"
proof -
  have c: "GuardedRootsIntact d \<longleftrightarrow> {v. vc_deviated (d_var d v)} = {}"
    using assms unfolding GuardedRootsIntact_def guard_ok_def counter_ok_def
    by (metis card_eq_0_iff of_nat_eq_0_iff)
  show "GuardedRootsIntact d \<Longrightarrow> v \<notin> X \<Longrightarrow> vc_guard (d_var d v) = Some p \<Longrightarrow> same p p \<Longrightarrow> same p (Root v d)"
    using assms by (auto simp: guard_ok_def c)
  show "(\<And>v p. vc_guard (d_var d v) = Some p \<Longrightarrow> same p (Root v d)) \<Longrightarrow> GuardedRootsIntact d"
    using assms by (auto simp: guard_ok_def c deviates_def split: option.splits)
qed

end
