(* ===== verification/LG_VM.thy ===== *)
theory LG_VM
  imports LG_Bindings LG_Quotient LG_NumCompare "HOL-Library.AList"
begin

text \<open>
  The interpreter loop of \<open>pkg/vm/vm.go\<close> and the call resolution of \<open>func.go\<close>.

  A \<open>frame\<close> has the fields of the Go struct: an operand stack of fixed length with
  the depth \<open>fr_sp\<close> beside it, arguments, captures, code, instruction pointer and the
  handlers of \<open>try\<close> (head = innermost). The machine is the frame that runs and the list
  of its suspended callers (the \<open>parent\<close> links). An instruction yields a \<open>res\<close>; \<open>None\<close>
  is a Go panic (an index out of range, a nil dereference), which \<open>Run\<close> does not
  recover. \<open>host\<close> stands for the code outside this file that the loop calls through
  interfaces: native functions, \<open>ValueEquals\<close>, typed arrays, the \<open>IFn\<close> protocol.

  Slots at or above \<open>fr_sp\<close> hold whatever a pooled frame left there and are filled with
  nil here; a fixed-arity callee that borrows its caller's slots for its arguments gets a
  copy, which cannot be told apart because the caller drops those slots before it reads
  them. Tracing, profiling and allocation attribution are left out.
\<close>

section \<open>Checked access to slices\<close>

definition slot :: "'a list \<Rightarrow> int \<Rightarrow> 'a option" where
  "slot xs i = (if 0 \<le> i \<and> i < int (length xs) then Some (xs ! nat i) else None)"

definition put_slot :: "'a list \<Rightarrow> int \<Rightarrow> 'a \<Rightarrow> 'a list option" where
  "put_slot xs i x = (if 0 \<le> i \<and> i < int (length xs) then Some (xs[nat i := x]) else None)"

text \<open>\<open>xs[lo:hi]\<close>.\<close>

definition slice :: "'a list \<Rightarrow> int \<Rightarrow> int \<Rightarrow> 'a list option" where
  "slice xs lo hi = (if 0 \<le> lo \<and> lo \<le> hi \<and> hi \<le> int (length xs)
     then Some (take (nat (hi - lo)) (drop (nat lo) xs)) else None)"

text \<open>\<open>copy(dst, src)\<close>: as many elements as fit.\<close>

definition copy :: "'a list \<Rightarrow> 'a list \<Rightarrow> 'a list" where
  "copy dst src = take (length dst) src @ drop (length src) dst"

section \<open>Opcodes\<close>

datatype opcode = OP_NOOP | OP_LOAD_CONST | OP_LOAD_ARG | OP_INVOKE | OP_RETURN
  | OP_BRANCH_TRUE | OP_BRANCH_FALSE | OP_JUMP | OP_POP | OP_POP_N | OP_DUP_NTH
  | OP_SET_VAR | OP_LOAD_VAR | OP_MAKE_CLOSURE | OP_LOAD_CLOSEDOVER | OP_PUSH_CLOSEDOVER
  | OP_RECUR | OP_RECUR_FN | OP_MAKE_MULTI_ARITY | OP_TAIL_CALL
  | OP_TRY_PUSH | OP_TRY_POP | OP_THROW
  | OP_ADD | OP_SUB | OP_MUL | OP_BIT_AND | OP_BIT_OR | OP_BIT_XOR | OP_BIT_AND_NOT
  | OP_BIT_SHIFT_LEFT | OP_BIT_SHIFT_RIGHT | OP_UNSIGNED_BIT_SHIFT_RIGHT
  | OP_LT | OP_LTE | OP_GT | OP_GTE | OP_EQ | OP_INC | OP_DEC | OP_BIT_NOT
  | OP_QUOT | OP_DIV | OP_UNCHECKED unchecked_op
  | OP_FINALLY_END | OP_AGET | OP_ASET

definition opcodes :: "opcode list" where
  "opcodes = [OP_NOOP, OP_LOAD_CONST, OP_LOAD_ARG, OP_INVOKE, OP_RETURN,
     OP_BRANCH_TRUE, OP_BRANCH_FALSE, OP_JUMP, OP_POP, OP_POP_N, OP_DUP_NTH,
     OP_SET_VAR, OP_LOAD_VAR, OP_MAKE_CLOSURE, OP_LOAD_CLOSEDOVER, OP_PUSH_CLOSEDOVER,
     OP_RECUR, OP_RECUR_FN, OP_MAKE_MULTI_ARITY, OP_TAIL_CALL,
     OP_TRY_PUSH, OP_TRY_POP, OP_THROW,
     OP_ADD, OP_SUB, OP_MUL, OP_BIT_AND, OP_BIT_OR, OP_BIT_XOR, OP_BIT_AND_NOT,
     OP_BIT_SHIFT_LEFT, OP_BIT_SHIFT_RIGHT, OP_UNSIGNED_BIT_SHIFT_RIGHT,
     OP_LT, OP_LTE, OP_GT, OP_GTE, OP_EQ, OP_INC, OP_DEC, OP_BIT_NOT,
     OP_QUOT, OP_DIV, OP_UNCHECKED OP_UNCHECKED_ADD, OP_UNCHECKED OP_UNCHECKED_SUB,
     OP_UNCHECKED OP_UNCHECKED_MUL, OP_FINALLY_END, OP_AGET, OP_ASET]"

text \<open>The low byte of the instruction word selects the opcode.\<close>

definition decode :: "u32 \<Rightarrow> opcode option" where
  "decode inst = nth_opt opcodes (unat (inst AND 255))"

definition OpcodeStride :: "u32 \<Rightarrow> nat" where
  "OpcodeStride inst = (case decode inst of
     Some OP_TRY_PUSH \<Rightarrow> 3
   | Some OP_RECUR \<Rightarrow> 4
   | Some oc \<Rightarrow>
       if oc \<in> {OP_LOAD_ARG, OP_BRANCH_TRUE, OP_BRANCH_FALSE, OP_JUMP, OP_POP_N, OP_DUP_NTH,
         OP_INVOKE, OP_LOAD_CLOSEDOVER, OP_RECUR_FN, OP_MAKE_MULTI_ARITY, OP_TAIL_CALL,
         OP_LOAD_CONST, OP_LOAD_VAR, OP_FINALLY_END} then 2 else 1
   | None \<Rightarrow> 1)"

section \<open>Frames and the world\<close>

record handler =
  h_catchIP :: int
  h_finallyIP :: int
  h_savedSP :: int
  h_pending :: "vm_err option"

record frame =
  fr_stack :: "vv list"
  fr_sp :: int
  fr_args :: "vv list"
  fr_argc :: int
  fr_clos :: "vv list"
  fr_code :: chunk
  fr_constsc :: int
  fr_ip :: int
  fr_handlers :: "handler list"
  fr_ec :: ec

record 'h world =
  w_pools :: "nat \<Rightarrow> vv list" \<comment> \<open>the constant pools, flattened\<close>
  w_clos :: "vv list list" \<comment> \<open>\<open>closedOvers\<close> of every \<open>*Closure\<close> made so far\<close>
  w_dyn :: dyn
  w_host :: 'h

record 'h host =
  ho_invoke :: "vv \<Rightarrow> ec \<Rightarrow> vv list \<Rightarrow> 'h world \<Rightarrow> (vm_err, vv) outcome \<times> 'h world"
  ho_is_fn :: "vv \<Rightarrow> bool" \<comment> \<open>the Go type of a value that is not \<open>static_fn\<close> implements \<open>Fn\<close>\<close>
  ho_satisfies_IFn :: "vv \<Rightarrow> 'h world \<Rightarrow> bool"
  ho_arity :: "vv \<Rightarrow> 'h world \<Rightarrow> int"
  ho_FuncType :: "vv \<Rightarrow> bool"
  ho_equals :: "vv \<Rightarrow> vv \<Rightarrow> 'h world \<Rightarrow> bool option"
  ho_aget :: "vv \<Rightarrow> vv \<Rightarrow> 'h world \<Rightarrow> (vm_err, vv) outcome"
  ho_aset :: "vv \<Rightarrow> vv \<Rightarrow> vv \<Rightarrow> 'h world \<Rightarrow> (vm_err, unit) outcome \<times> 'h world"
  ho_same :: "vv \<Rightarrow> vv \<Rightarrow> bool" \<comment> \<open>\<open>sameRootIdentity\<close>\<close>

definition stack_len :: "chunk \<Rightarrow> nat" where
  "stack_len c = nat (max (ck_maxStack c) 4)"

definition const_count :: "'h world \<Rightarrow> chunk \<Rightarrow> int" where
  "const_count w c = int (length (w_pools w (ck_consts c)))"

definition initFrame :: "'h world \<Rightarrow> chunk \<Rightarrow> vv list \<Rightarrow> frame" where
  "initFrame w code args = \<lparr>fr_stack = replicate (stack_len code) NIL, fr_sp = 0, fr_args = args,
     fr_argc = int (length args), fr_clos = [], fr_code = code, fr_constsc = const_count w code,
     fr_ip = 0, fr_handlers = [], fr_ec = None\<rparr>"

subsection \<open>The operand stack\<close>

definition fr_push :: "vv \<Rightarrow> frame \<Rightarrow> frame option" where
  "fr_push v f = do {
     s \<leftarrow> put_slot (fr_stack f) (fr_sp f) v;
     Some (f\<lparr>fr_stack := s, fr_sp := fr_sp f + 1\<rparr>) }"

definition fr_pushMult :: "vv list \<Rightarrow> frame \<Rightarrow> frame option" where
  "fr_pushMult vs f = do {
     tail \<leftarrow> slice (fr_stack f) (fr_sp f) (int (length (fr_stack f)));
     Some (f\<lparr>fr_stack := take (nat (fr_sp f)) (fr_stack f) @ copy tail vs,
             fr_sp := fr_sp f + int (length vs)\<rparr>) }"

definition fr_pop :: "frame \<Rightarrow> (vv \<times> frame) option" where
  "fr_pop f = do {
     v \<leftarrow> slot (fr_stack f) (fr_sp f - 1);
     Some (v, f\<lparr>fr_sp := fr_sp f - 1\<rparr>) }"

definition fr_nth :: "int \<Rightarrow> frame \<Rightarrow> vv option" where
  "fr_nth n f = slot (fr_stack f) (fr_sp f - 1 - n)"

definition fr_mult :: "int \<Rightarrow> int \<Rightarrow> frame \<Rightarrow> vv list option" where
  "fr_mult start n f = (let i = fr_sp f - start in slice (fr_stack f) (i - n) i)"

definition fr_drop :: "int \<Rightarrow> frame \<Rightarrow> frame" where
  "fr_drop n f = f\<lparr>fr_sp := fr_sp f - n\<rparr>"

definition advance :: "int \<Rightarrow> frame \<Rightarrow> frame" where
  "advance n f = f\<lparr>fr_ip := fr_ip f + n\<rparr>"

text \<open>The argument words of an instruction: \<open>int32\<close> values.\<close>

definition operand :: "int \<Rightarrow> frame \<Rightarrow> int option" where
  "operand n f = map_option sint (slot (ck_code (fr_code f)) (fr_ip f + n))"

section \<open>Errors and handlers\<close>

text \<open>\<open>None\<close>: panic; \<open>Some None\<close>: no handler took the error.\<close>

fun handle_with :: "vm_err \<Rightarrow> handler list \<Rightarrow> frame \<Rightarrow> frame option option" where
  "handle_with err [] f = Some None"
| "handle_with err (h # hs) f =
     (if h_pending h \<noteq> None then handle_with err hs f
      else if 0 \<le> h_catchIP h then do {
        let hs' = (if h_finallyIP h < 0 then hs else h\<lparr>h_catchIP := - 1\<rparr> # hs);
        f' \<leftarrow> fr_push (errorToValue err) (f\<lparr>fr_handlers := hs', fr_sp := h_savedSP h\<rparr>);
        Some (Some (f'\<lparr>fr_ip := h_catchIP h\<rparr>)) }
      else if 0 \<le> h_finallyIP h then do {
        f' \<leftarrow> fr_push NIL (f\<lparr>fr_handlers := h\<lparr>h_pending := Some err\<rparr> # hs, fr_sp := h_savedSP h\<rparr>);
        Some (Some (f'\<lparr>fr_ip := h_finallyIP h\<rparr>)) }
      else handle_with err hs f)"

definition handleError :: "vm_err \<Rightarrow> frame \<Rightarrow> frame option option" where
  "handleError err f = handle_with err (fr_handlers f) f"

definition suspendedCallArity :: "frame \<Rightarrow> (vm_err, int) outcome" where
  "suspendedCallArity f =
     (let code = ck_code (fr_code f); ip = fr_ip f; sp = fr_sp f;
          bad = (\<lambda>what n. Err (ExecutionError (InvalidSuspended what ip n) None)) in
      if ip < 0 \<or> int (length code) \<le> ip then bad ''instruction pointer out of bounds'' 0
      else if int (length code) \<le> ip + 1 then bad ''missing arity operand'' 0
      else if sp < 0 \<or> int (length (fr_stack f)) < sp then bad ''stack depth out of bounds'' sp
      else if decode (code ! nat ip) \<notin> {Some OP_INVOKE, Some OP_TAIL_CALL}
      then bad ''found another instruction'' (sint (code ! nat ip))
      else let arity = sint (code ! nat (ip + 1)) in
        if arity < 0 \<or> sp < arity + 1 then bad ''arity exceeds stack depth'' arity else Ok arity)"

definition AsFn :: "'h host \<Rightarrow> 'h world \<Rightarrow> vv \<Rightarrow> bool" where
  "AsFn H w v \<longleftrightarrow> static_fn v \<or> ho_is_fn H v \<or> ho_satisfies_IFn H v w"

definition wrapCallSite :: "'h host \<Rightarrow> 'h world \<Rightarrow> frame \<Rightarrow> vm_err \<Rightarrow> vm_err option" where
  "wrapCallSite H w f err = (case suspendedCallArity f of
     Err (ExecutionError m _) \<Rightarrow> Some (ExecutionError m (Some err))
   | Err _ \<Rightarrow> None
   | Panic \<Rightarrow> None
   | Ok arity \<Rightarrow> do {
       callee \<leftarrow> slot (fr_stack f) (fr_sp f - 1 - arity);
       let name = (if AsFn H w callee then fnName callee else ''fn'');
       Some (ExecutionError (Calling name) (Some err)) })"

section \<open>Resolving a call\<close>

record bytecodeCallTarget =
  bt_chunk :: chunk
  bt_args :: "vv list"
  bt_closedOvers :: "vv list"

fun restMinArgs :: "'h host \<Rightarrow> 'h world \<Rightarrow> vv \<Rightarrow> int" where
  "restMinArgs H w (ClosureV _ (FuncV _ a _ _)) = a - 1"
| "restMinArgs H w (FuncV _ a _ _) = a - 1"
| "restMinArgs H w (ClosureV _ f) = ho_arity H f w"
| "restMinArgs H w f = ho_arity H f w"

definition variantFor ::
    "'h host \<Rightarrow> 'h world \<Rightarrow> vv \<Rightarrow> (int \<times> vv) list \<Rightarrow> vv option \<Rightarrow> nat \<Rightarrow> vm_err + vv" where
  "variantFor H w display fns rest argc = (case map_of fns (int argc) of
     Some f \<Rightarrow> Inr f
   | None \<Rightarrow> (case rest of
       Some r \<Rightarrow> if restMinArgs H w r \<le> int argc then Inr r
                 else Inl (ExecutionError (NoVariant display argc) None)
     | None \<Rightarrow> Inl (ExecutionError (NoVariant display argc) None)))"

lemma size_variantFor:
  assumes "variantFor H w d fns rest n = Inr f"
  shows "size f < size (MultiV fns rest a nm)"
proof -
  have "size f < size_list (size_prod (\<lambda>_. 0) size) fns + 1"
    if "map_of fns k = Some f" for k
    using that by (induction fns) (auto split: if_splits)
  note fixed = less_le_trans[OF this]
  show ?thesis
    using assms by (auto simp: variantFor_def intro: fixed split: option.splits if_splits)
qed

function (sequential) unwrapBytecodeFn ::
    "'h host \<Rightarrow> 'h world \<Rightarrow> vv \<Rightarrow> nat \<Rightarrow> vv list \<Rightarrow> vv \<Rightarrow> vm_err + (vv \<times> vv list) option" where
  "unwrapBytecodeFn H w display argc clos (MetaV f) = unwrapBytecodeFn H w display argc clos f"
| "unwrapBytecodeFn H w display argc clos (MultiV fns rest a nm) =
     (case variantFor H w display fns rest argc of
        Inl e \<Rightarrow> Inl e
      | Inr f \<Rightarrow> unwrapBytecodeFn H w display argc clos f)"
| "unwrapBytecodeFn H w display argc clos (ClosureV c f) =
     unwrapBytecodeFn H w display argc (case nth_opt (w_clos w) c of Some xs \<Rightarrow> xs | None \<Rightarrow> []) f"
| "unwrapBytecodeFn H w display argc clos (FuncV n a v c) = Inr (Some (FuncV n a v c, clos))"
| "unwrapBytecodeFn H w display argc clos _ = Inr None"
  by pat_completeness auto
termination
  by (relation "measure (\<lambda>(H, w, d, n, c, f). size f)")
    (auto dest: size_variantFor)

definition boxRest :: "vv list \<Rightarrow> vv" where
  "boxRest rest = (if rest = [] then NIL else ListV rest)"

definition resolveBytecodeCall ::
    "'h host \<Rightarrow> 'h world \<Rightarrow> vv \<Rightarrow> vv list \<Rightarrow> (vm_err, bytecodeCallTarget option) outcome" where
  "resolveBytecodeCall H w fn args =
     (case unwrapBytecodeFn H w fn (length args) [] fn of
        Inl e \<Rightarrow> Err e
      | Inr None \<Rightarrow> Ok None
      | Inr (Some (t, closedOvers)) \<Rightarrow>
          let n = int (length args); arity = fn_arity t in
          if fn_variadic t then
            if n < arity - 1 then Err (ExecutionError (BadArityAtLeast fn (arity - 1) (length args)) None)
            else (case (slice args (arity - 1) n, slice args 0 (arity - 1)) of
                (Some rest, Some fixed) \<Rightarrow>
                  Ok (Some \<lparr>bt_chunk = fn_chunk t, bt_args = fixed @ [boxRest rest],
                            bt_closedOvers = closedOvers\<rparr>)
              | _ \<Rightarrow> Panic)
          else if n \<noteq> arity then Err (ExecutionError (BadArity fn arity (length args)) None)
          else Ok (Some \<lparr>bt_chunk = fn_chunk t, bt_args = args, bt_closedOvers = closedOvers\<rparr>))"

definition newFrameForBytecodeCall :: "'h world \<Rightarrow> bytecodeCallTarget \<Rightarrow> ec \<Rightarrow> frame" where
  "newFrameForBytecodeCall w target ec =
     (initFrame w (bt_chunk target) (bt_args target))\<lparr>fr_clos := bt_closedOvers target, fr_ec := ec\<rparr>"

text \<open>The same-frame transition: handlers, context and stack contents stay.\<close>

definition installBytecodeCall :: "'h world \<Rightarrow> frame \<Rightarrow> bytecodeCallTarget \<Rightarrow> frame" where
  "installBytecodeCall w f target = f\<lparr>
     fr_args := bt_args target, fr_argc := int (length (bt_args target)),
     fr_clos := bt_closedOvers target, fr_code := bt_chunk target,
     fr_constsc := const_count w (bt_chunk target), fr_ip := 0, fr_sp := 0,
     fr_stack := take (stack_len (bt_chunk target)) (fr_stack f) @
       replicate (stack_len (bt_chunk target) - length (fr_stack f)) NIL\<rparr>"

text \<open>\<open>ExecContext.Invoke\<close> on a callable that is not bytecode: wrappers are peeled as the
  code peels them, what remains is the host's.\<close>

function (sequential) ec_Invoke ::
    "'h host \<Rightarrow> ec \<Rightarrow> vv list \<Rightarrow> 'h world \<Rightarrow> vv \<Rightarrow> (vm_err, vv) outcome \<times> 'h world" where
  "ec_Invoke H ec args w (MetaV f) = ec_Invoke H ec args w f"
| "ec_Invoke H ec args w (MultiV fns rest a nm) =
     (case variantFor H w (MultiV fns rest a nm) fns rest (length args) of
        Inl e \<Rightarrow> (Err e, w)
      | Inr f \<Rightarrow> ec_Invoke H ec args w f)"
| "ec_Invoke H ec args w (ClosureV c (MultiV fns rest a nm)) =
     (case variantFor H w (ClosureV c (MultiV fns rest a nm)) fns rest (length args) of
        Inl e \<Rightarrow> (Err e, w)
      | Inr f \<Rightarrow> ec_Invoke H ec args w f)"
| "ec_Invoke H ec args w (ClosureV c (FuncV n a v k)) = ho_invoke H (ClosureV c (FuncV n a v k)) ec args w"
| "ec_Invoke H ec args w (ClosureV c f) = (Err (execErr ''unsupported closure function type''), w)"
| "ec_Invoke H ec args w f = ho_invoke H f ec args w"
  by pat_completeness auto
termination
  by (relation "measure (\<lambda>(H, ec, args, w, f). size f)")
    (auto dest: size_variantFor)

fun vv_Arity :: "'h host \<Rightarrow> 'h world \<Rightarrow> vv \<Rightarrow> int" where
  "vv_Arity H w (FuncV _ a _ _) = a"
| "vv_Arity H w (ClosureV _ f) = vv_Arity H w f"
| "vv_Arity H w (MultiV _ _ a _) = a"
| "vv_Arity H w (MetaV f) = vv_Arity H w f"
| "vv_Arity H w (NativeV _ _ a _) = a"
| "vv_Arity H w f = ho_arity H f w"

fun is_rest_arm :: "vv \<Rightarrow> bool" where
  "is_rest_arm (FuncV _ _ v _) = v"
| "is_rest_arm (NativeV _ _ _ v) = v"
| "is_rest_arm (ClosureV _ (FuncV _ _ v _)) = v"
| "is_rest_arm _ = False"

fun add_arm :: "'h host \<Rightarrow> 'h world \<Rightarrow> vv \<Rightarrow> vv \<Rightarrow> vv" where
  "add_arm H w (MultiV fns rest arity name) f =
     (let name' = (case f of FuncV n _ _ _ \<Rightarrow> n | _ \<Rightarrow> name);
          a = vv_Arity H w f in
      if is_rest_arm f then MultiV fns (Some f) (max arity a) name'
      else MultiV (AList.update a f fns) rest (max arity a) name')"
| "add_arm H w ma f = ma"

fun make_arms :: "'h host \<Rightarrow> 'h world \<Rightarrow> vv \<Rightarrow> vv list \<Rightarrow> vm_err + vv" where
  "make_arms H w ma [] = Inr ma"
| "make_arms H w ma (e # es) =
     (if \<not> (static_fn e \<or> ho_is_fn H e) then Inl (execErr ''making multi-arity function failed'')
      else make_arms H w (add_arm H w ma e) es)"

definition MakeMultiArity :: "'h host \<Rightarrow> 'h world \<Rightarrow> vv list \<Rightarrow> vm_err + vv" where
  "MakeMultiArity H w fns = make_arms H w (MultiV [] None 0 '''') fns"

text \<open>The fn of an all-constant literal is cached on its first arm when it was built from
  the same arms, so the cache returns the fn that \<open>MakeMultiArity\<close> builds.\<close>

definition multiArityAt :: "'h host \<Rightarrow> 'h world \<Rightarrow> vv list \<Rightarrow> (vm_err + vv) option" where
  "multiArityAt H w fns = (if fns = [] then None else Some (MakeMultiArity H w fns))"

section \<open>Instructions\<close>

datatype 'h res =
    Next frame "'h world"
  | Enter frame frame "'h world" \<comment> \<open>suspended caller, callee\<close>
  | Return vv frame "'h world"
  | Raise frame vm_err "'h world" \<comment> \<open>offered to the frame's own handlers first\<close>
  | Fail frame vm_err "'h world" \<comment> \<open>returned at once, past the frame's own handlers\<close>

type_synonym 'h instr = "'h world \<Rightarrow> frame \<Rightarrow> 'h res option"

subsection \<open>Constants, arguments, control flow\<close>

definition op_LOAD_CONST :: "'h instr" where
  "op_LOAD_CONST w f = do {
     idx \<leftarrow> operand 1 f;
     if fr_constsc f \<le> idx then Some (Fail f (execErr ''const lookup out of bounds'') w)
     else do {
       v \<leftarrow> slot (w_pools w (ck_consts (fr_code f))) idx;
       f' \<leftarrow> fr_push v f;
       Some (Next (advance 2 f') w) } }"

definition op_LOAD_ARG :: "'h instr" where
  "op_LOAD_ARG w f = do {
     idx \<leftarrow> operand 1 f;
     if fr_argc f \<le> idx then Some (Fail f (execErr ''argument lookup out of bounds'') w)
     else do {
       v \<leftarrow> slot (fr_args f) idx;
       f' \<leftarrow> fr_push v f;
       Some (Next (advance 2 f') w) } }"

definition op_RETURN :: "'h instr" where
  "op_RETURN w f = do { (v, f') \<leftarrow> fr_pop f; Some (Return v f' w) }"

definition op_BRANCH :: "bool \<Rightarrow> 'h instr" where
  "op_BRANCH on w f = do {
     offset \<leftarrow> operand 1 f;
     (v, f') \<leftarrow> fr_pop f;
     Some (Next (advance (if IsTruthy v = on then offset else 2) f') w) }"

definition op_JUMP :: "'h instr" where
  "op_JUMP w f = do { offset \<leftarrow> operand 1 f; Some (Next (advance offset f) w) }"

subsection \<open>The stack\<close>

definition op_POP :: "'h instr" where
  "op_POP w f = do { (v, f') \<leftarrow> fr_pop f; Some (Next (advance 1 f') w) }"

definition op_POP_N :: "'h instr" where
  "op_POP_N w f = do {
     (v, f1) \<leftarrow> fr_pop f;
     num \<leftarrow> operand 1 f;
     f2 \<leftarrow> fr_push v (fr_drop num f1);
     Some (Next (advance 2 f2) w) }"

definition op_DUP_NTH :: "'h instr" where
  "op_DUP_NTH w f = do {
     num \<leftarrow> operand 1 f;
     v \<leftarrow> fr_nth num f;
     f' \<leftarrow> fr_push v f;
     Some (Next (advance 2 f') w) }"

subsection \<open>Vars\<close>

definition op_SET_VAR :: "'h host \<Rightarrow> 'h instr" where
  "op_SET_VAR H w f = do {
     (val, f1) \<leftarrow> fr_pop f;
     (varr, f2) \<leftarrow> fr_pop f1;
     (case varr of
        VarV v \<Rightarrow> do {
          let d = w_dyn w;
          let d1 = (case setBinding (fr_ec f) v val d of Some d' \<Rightarrow> d' | None \<Rightarrow> SetRoot (ho_same H) v val d);
          f3 \<leftarrow> fr_push varr f2;
          Some (Next (advance 1 f3) (w\<lparr>w_dyn := armTraceIfTruthy v val d1\<rparr>)) }
      | _ \<Rightarrow> Some (Fail f2 (execErr ''SET_VAR invalid Var'') w)) }"

definition op_LOAD_VAR :: "'h instr" where
  "op_LOAD_VAR w f = do {
     idx \<leftarrow> operand 1 f;
     if fr_constsc f \<le> idx then Some (Fail f (execErr ''const lookup out of bounds'') w)
     else do {
       c \<leftarrow> slot (w_pools w (ck_consts (fr_code f))) idx;
       v \<leftarrow> (case c of VarV v \<Rightarrow> Some v | _ \<Rightarrow> None);
       f' \<leftarrow> fr_push (deref (fr_ec f) v (w_dyn w)) f;
       Some (Next (advance 2 f') w) } }"

subsection \<open>Closures\<close>

fun MakeClosure :: "vv \<Rightarrow> 'h world \<Rightarrow> (vv \<times> 'h world) option" where
  "MakeClosure (FuncV n a v c) w =
     Some (ClosureV (length (w_clos w)) (FuncV n a v c), w\<lparr>w_clos := w_clos w @ [[]]\<rparr>)"
| "MakeClosure (MultiV fns r a n) w =
     Some (ClosureV (length (w_clos w)) (MultiV fns r a n), w\<lparr>w_clos := w_clos w @ [[]]\<rparr>)"
| "MakeClosure _ w = None"

definition op_MAKE_CLOSURE :: "'h instr" where
  "op_MAKE_CLOSURE w f = (let idx = fr_sp f - 1 in
     if idx < 0 then Some (Fail f (execErr ''MAKE_CLOSURE stack underflow'') w)
     else do {
       v \<leftarrow> slot (fr_stack f) idx;
       (case MakeClosure v w of
          None \<Rightarrow> Some (Fail f (execErr ''MAKE_CLOSURE invalid func on stack'') w)
        | Some (cl, w') \<Rightarrow> do {
            s \<leftarrow> put_slot (fr_stack f) idx cl;
            Some (Next (advance 1 (f\<lparr>fr_stack := s\<rparr>)) w') }) })"

definition op_LOAD_CLOSEDOVER :: "'h instr" where
  "op_LOAD_CLOSEDOVER w f = do {
     idx \<leftarrow> operand 1 f;
     if int (length (fr_clos f)) \<le> idx then Some (Fail f (execErr ''closed over lookup out of bounds'') w)
     else do {
       v \<leftarrow> slot (fr_clos f) idx;
       f' \<leftarrow> fr_push v f;
       Some (Next (advance 2 f') w) } }"

definition op_PUSH_CLOSEDOVER :: "'h host \<Rightarrow> 'h instr" where
  "op_PUSH_CLOSEDOVER H w f = do {
     (val, f1) \<leftarrow> fr_pop f;
     let idx = fr_sp f1 - 1;
     if idx < 0 then Some (Fail f1 (execErr ''PUSH_CLOSEDOVER stack overflow'') w)
     else do {
       cls \<leftarrow> slot (fr_stack f1) idx;
       (case cls of
          ClosureV c fn \<Rightarrow> do {
            captured \<leftarrow> nth_opt (w_clos w) c;
            Some (Next (advance 1 f1) (w\<lparr>w_clos := (w_clos w)[c := captured @ [val]]\<rparr>)) }
        | FuncV _ _ _ _ \<Rightarrow> Some (Fail f1 (execErr ''PUSH_CLOSEDOVER invalid closure on stack'') w)
        | MultiV _ _ _ _ \<Rightarrow> Some (Fail f1 (execErr ''PUSH_CLOSEDOVER invalid closure on stack'') w)
        | _ \<Rightarrow> Some (Fail f1 (execErr (if ho_FuncType H cls
             then ''PUSH_CLOSEDOVER invalid closure on stack'' else ''PUSH_CLOSEDOVER expected a Fn'')) w)) } }"

definition op_MAKE_MULTI_ARITY :: "'h host \<Rightarrow> 'h instr" where
  "op_MAKE_MULTI_ARITY H w f = do {
     n \<leftarrow> operand 1 f;
     fns \<leftarrow> fr_mult 0 n f;
     let f1 = f\<lparr>fr_sp := fr_sp f - n\<rparr>;
     r \<leftarrow> multiArityAt H w fns;
     (case r of
        Inl e \<Rightarrow> Some (Fail f1 (ExecutionError (Msg ''MAKE_MULTI_ARITY failed'') (Some e)) w)
      | Inr fn \<Rightarrow> do { f2 \<leftarrow> fr_push fn f1; Some (Next (advance 2 f2) w) }) }"

subsection \<open>Calls\<close>

definition op_INVOKE :: "'h host \<Rightarrow> 'h instr" where
  "op_INVOKE H w f = do {
     arity \<leftarrow> operand 1 f;
     let n = (if 0 < arity then arity else 0);
     fn \<leftarrow> fr_nth n f;
     if \<not> AsFn H w fn then Some (Fail f (TypeError fn ''is not a function'') w)
     else do {
       a \<leftarrow> (if 0 < arity then fr_mult 0 arity f else Some []);
       (case resolveBytecodeCall H w fn a of
          Panic \<Rightarrow> None
        | Err e \<Rightarrow> Some (Raise f (wrapCallErr fn e) w)
        | Ok (Some target) \<Rightarrow> Some (Enter f (newFrameForBytecodeCall w target (fr_ec f)) w)
        | Ok None \<Rightarrow>
            (let f0 = (if 0 < arity then f else fr_drop 1 f) in
             case ec_Invoke H (fr_ec f) a w fn of
               (Panic, w') \<Rightarrow> None
             | (Err e, w') \<Rightarrow> Some (Raise f0 (wrapCallErr fn e) w')
             | (Ok out, w') \<Rightarrow> do {
                 f' \<leftarrow> fr_push out (fr_drop (n + 1) f);
                 Some (Next (advance 2 f') w') })) } }"

definition op_TAIL_CALL :: "'h host \<Rightarrow> 'h instr" where
  "op_TAIL_CALL H w f = do {
     arity \<leftarrow> operand 1 f;
     fn \<leftarrow> fr_nth arity f;
     if \<not> AsFn H w fn then Some (Fail f (TypeError fn ''is not a function'') w)
     else do {
       a \<leftarrow> (if 0 < arity then fr_mult 0 arity f else Some []);
       (case resolveBytecodeCall H w fn a of
          Panic \<Rightarrow> None
        | Err e \<Rightarrow> Some (Raise f (wrapCallErr fn e) w)
        | Ok (Some target) \<Rightarrow>
            if is_Func fn then Some (Next (installBytecodeCall w f target) w)
            else Some (Enter f (newFrameForBytecodeCall w target (fr_ec f)) w)
        | Ok None \<Rightarrow>
            (case ec_Invoke H (fr_ec f) a w fn of
               (Panic, w') \<Rightarrow> None
             | (Err e, w') \<Rightarrow> Some (Raise f (wrapCallErr fn e) w')
             | (Ok out, w') \<Rightarrow> do {
                 f' \<leftarrow> fr_push out (fr_drop (arity + 1) f);
                 Some (Next (advance 2 f') w') })) } }"

definition op_RECUR_FN :: "'h instr" where
  "op_RECUR_FN w f = do {
     arity \<leftarrow> operand 1 f;
     a \<leftarrow> fr_mult 0 arity f;
     Some (Next (f\<lparr>fr_args := copy (fr_args f) a, fr_argc := arity, fr_sp := 0, fr_ip := 0\<rparr>) w) }"

definition op_RECUR :: "'h instr" where
  "op_RECUR w f = do {
     offset \<leftarrow> operand 1 f;
     argc \<leftarrow> operand 2 f;
     ignore \<leftarrow> operand 3 f;
     a \<leftarrow> fr_mult 0 argc f;
     f' \<leftarrow> fr_pushMult a (fr_drop (argc * 2 + ignore) f);
     Some (Next (advance (- offset) f') w) }"

subsection \<open>Exceptions\<close>

definition op_TRY_PUSH :: "'h instr" where
  "op_TRY_PUSH w f = do {
     catchOffset \<leftarrow> operand 1 f;
     finallyOffset \<leftarrow> operand 2 f;
     let catchIP = (if catchOffset \<noteq> 0 then fr_ip f + catchOffset else - 1);
     let finallyIP = (if finallyOffset \<noteq> 0 then fr_ip f + finallyOffset else - 1);
     let h = \<lparr>h_catchIP = catchIP, h_finallyIP = finallyIP, h_savedSP = fr_sp f, h_pending = None\<rparr>;
     Some (Next (advance 3 (f\<lparr>fr_handlers := h # fr_handlers f\<rparr>)) w) }"

definition op_TRY_POP :: "'h instr" where
  "op_TRY_POP w f = Some (Next (advance 1 (f\<lparr>fr_handlers := tl (fr_handlers f)\<rparr>)) w)"

definition op_THROW :: "'h instr" where
  "op_THROW w f = do { (v, f') \<leftarrow> fr_pop f; Some (Raise f' (ThrownError v) w) }"

definition op_FINALLY_END :: "'h instr" where
  "op_FINALLY_END w f = (case fr_handlers f of
     [] \<Rightarrow> Some (Next (advance 2 f) w)
   | h # hs \<Rightarrow> (case h_pending h of
       None \<Rightarrow> Some (Next (advance 2 f) w)
     | Some err \<Rightarrow> do {
         offset \<leftarrow> operand 1 f;
         if h_finallyIP h = fr_ip f + offset then Some (Raise (f\<lparr>fr_handlers := hs\<rparr>) err w)
         else Some (Next (advance 2 f) w) }))"

subsection \<open>Arithmetic and comparison\<close>

text \<open>Type assertions on operands.\<close>

fun as_int :: "vv \<Rightarrow> i64 option" where
  "as_int (Prim (VInt n)) = Some n"
| "as_int _ = None"

fun as_keyword :: "vv \<Rightarrow> string option" where
  "as_keyword (Prim (VKeyword k)) = Some k"
| "as_keyword _ = None"

fun as_prim :: "vv \<Rightarrow> val option" where
  "as_prim (Prim x) = Some x"
| "as_prim _ = None"

definition num2 ::
    "string \<Rightarrow> (val \<Rightarrow> val \<Rightarrow> (num_err, 'a) outcome) \<Rightarrow> ('a \<Rightarrow> vv) \<Rightarrow> vv \<Rightarrow> vv \<Rightarrow> (vm_err, vv) outcome" where
  "num2 what num box a b = (case (as_prim a, as_prim b) of
     (Some x, Some y) \<Rightarrow> (case num x y of
        Ok r \<Rightarrow> Ok (box r) | Err e \<Rightarrow> Err (NumError e) | Panic \<Rightarrow> Panic)
   | _ \<Rightarrow> Err (CannotNum what a b))"

abbreviation errIntOverflow :: vm_err where "errIntOverflow \<equiv> execErr ''integer overflow''"
abbreviation errDivByZero :: vm_err where "errDivByZero \<equiv> execErr ''integer division by zero''"

text \<open>The inline path of two machine integers, else the numeric tower.\<close>

definition checked_op ::
    "(i64 \<Rightarrow> i64 \<Rightarrow> i64 option) \<Rightarrow> string \<Rightarrow> (val \<Rightarrow> val \<Rightarrow> num_result) \<Rightarrow> vv \<Rightarrow> vv \<Rightarrow> (vm_err, vv) outcome" where
  "checked_op fast what slow a b = (case (as_int a, as_int b) of
     (Some ai, Some bi) \<Rightarrow> (case fast ai bi of Some r \<Rightarrow> Ok (IntV r) | None \<Rightarrow> Err errIntOverflow)
   | _ \<Rightarrow> num2 what slow Prim a b)"

definition compare_op ::
    "(i64 \<Rightarrow> i64 \<Rightarrow> bool) \<Rightarrow> (val \<Rightarrow> val \<Rightarrow> (num_err, bool) outcome) \<Rightarrow> vv \<Rightarrow> vv \<Rightarrow> (vm_err, vv) outcome" where
  "compare_op fast slow a b = (case (as_int a, as_int b) of
     (Some ai, Some bi) \<Rightarrow> Ok (BoolV (fast ai bi))
   | _ \<Rightarrow> num2 ''compare'' slow BoolV a b)"

definition quot_op :: "vv \<Rightarrow> vv \<Rightarrow> (vm_err, vv) outcome" where
  "quot_op a b = (case (as_int a, as_int b) of
     (Some ai, Some bi) \<Rightarrow> if bi = 0 then Err errDivByZero else Ok (IntV (i64_quo ai bi))
   | _ \<Rightarrow> num2 ''quot'' NumQuot Prim a b)"

definition div_op :: "vv \<Rightarrow> vv \<Rightarrow> (vm_err, vv) outcome" where
  "div_op = num2 ''divide'' NumDiv Prim"

fun unchecked_what :: "unchecked_op \<Rightarrow> string" where
  "unchecked_what OP_UNCHECKED_ADD = ''add''"
| "unchecked_what OP_UNCHECKED_SUB = ''subtract''"
| "unchecked_what OP_UNCHECKED_MUL = ''multiply''"

definition unchecked_op :: "unchecked_op \<Rightarrow> vv \<Rightarrow> vv \<Rightarrow> (vm_err, vv) outcome" where
  "unchecked_op op a b = (case (as_int a, as_int b) of
     (Some ai, Some bi) \<Rightarrow> Ok (Prim (uncheckedIntOp op ai bi))
   | _ \<Rightarrow> num2 (unchecked_what op) (numUnchecked op) Prim a b)"

definition bit_op :: "string \<Rightarrow> (i64 \<Rightarrow> i64 \<Rightarrow> i64) \<Rightarrow> vv \<Rightarrow> vv \<Rightarrow> (vm_err, vv) outcome" where
  "bit_op name g a b = (case as_int a of
     None \<Rightarrow> Err (PlainError (name @ '' expected Int''))
   | Some ai \<Rightarrow> (case as_int b of
       None \<Rightarrow> Err (PlainError (name @ '' expected Int''))
     | Some bi \<Rightarrow> Ok (IntV (g ai bi))))"

text \<open>Go shifts by \<open>uint(b)\<close>: a count of 64 or more shifts everything out.\<close>

definition shl :: "i64 \<Rightarrow> i64 \<Rightarrow> i64" where
  "shl a b = (if b < 64 then push_bit (unat b) a else 0)"

definition sar :: "i64 \<Rightarrow> i64 \<Rightarrow> i64" where
  "sar a b = (if b < 64 then signed_drop_bit (unat b) a else if bit a 63 then - 1 else 0)"

definition shr :: "i64 \<Rightarrow> i64 \<Rightarrow> i64" where
  "shr a b = (if b < 64 then drop_bit (unat b) a else 0)"

definition equal_op :: "'h host \<Rightarrow> 'h world \<Rightarrow> vv \<Rightarrow> vv \<Rightarrow> (vm_err, vv) outcome" where
  "equal_op H w a b = (case (as_int a, as_int b) of
     (Some ai, Some bi) \<Rightarrow> Ok (BoolV (ai = bi))
   | _ \<Rightarrow> (case (as_keyword a, as_keyword b) of
       (Some ak, Some bk) \<Rightarrow> Ok (BoolV (ak = bk))
     | _ \<Rightarrow> (case ho_equals H a b w of Some r \<Rightarrow> Ok (BoolV r) | None \<Rightarrow> Panic)))"

definition inc_op :: "vv \<Rightarrow> (vm_err, vv) outcome" where
  "inc_op a = checked_op checkedAddInt ''add'' NumAdd a (IntV 1)"

definition dec_op :: "vv \<Rightarrow> (vm_err, vv) outcome" where
  "dec_op a = checked_op checkedSubInt ''subtract'' NumSub a (IntV 1)"

definition bit_not_op :: "vv \<Rightarrow> (vm_err, vv) outcome" where
  "bit_not_op a = (case as_int a of
     Some ai \<Rightarrow> Ok (IntV (NOT ai))
   | None \<Rightarrow> Err (PlainError ''bit-not expected Int''))"

text \<open>Operands are read in place; the result replaces the lower one, and on an error the
  stack is left as it is for the handler.\<close>

definition op_binary :: "(vv \<Rightarrow> vv \<Rightarrow> (vm_err, vv) outcome) \<Rightarrow> 'h instr" where
  "op_binary g w f = do {
     b \<leftarrow> slot (fr_stack f) (fr_sp f - 1);
     a \<leftarrow> slot (fr_stack f) (fr_sp f - 2);
     (case g a b of
        Panic \<Rightarrow> None
      | Err e \<Rightarrow> Some (Raise f e w)
      | Ok r \<Rightarrow> do {
          s \<leftarrow> put_slot (fr_stack f) (fr_sp f - 2) r;
          Some (Next (advance 1 (f\<lparr>fr_stack := s, fr_sp := fr_sp f - 1\<rparr>)) w) }) }"

definition op_unary :: "(vv \<Rightarrow> (vm_err, vv) outcome) \<Rightarrow> 'h instr" where
  "op_unary g w f = do {
     a \<leftarrow> slot (fr_stack f) (fr_sp f - 1);
     (case g a of
        Panic \<Rightarrow> None
      | Err e \<Rightarrow> Some (Raise f e w)
      | Ok r \<Rightarrow> do {
          s \<leftarrow> put_slot (fr_stack f) (fr_sp f - 1) r;
          Some (Next (advance 1 (f\<lparr>fr_stack := s\<rparr>)) w) }) }"

definition op_ASET :: "'h host \<Rightarrow> 'h instr" where
  "op_ASET H w f = do {
     val \<leftarrow> slot (fr_stack f) (fr_sp f - 1);
     idx \<leftarrow> slot (fr_stack f) (fr_sp f - 2);
     arr \<leftarrow> slot (fr_stack f) (fr_sp f - 3);
     (case ho_aset H arr idx val w of
        (Panic, w') \<Rightarrow> None
      | (Err e, w') \<Rightarrow> Some (Raise f e w')
      | (Ok _, w') \<Rightarrow> do {
          s \<leftarrow> put_slot (fr_stack f) (fr_sp f - 3) val;
          Some (Next (advance 1 (f\<lparr>fr_stack := s, fr_sp := fr_sp f - 2\<rparr>)) w') }) }"

subsection \<open>The dispatch\<close>

fun binary_op :: "'h host \<Rightarrow> 'h world \<Rightarrow> opcode \<Rightarrow> (vv \<Rightarrow> vv \<Rightarrow> (vm_err, vv) outcome) option" where
  "binary_op H w OP_ADD = Some (checked_op checkedAddInt ''add'' NumAdd)"
| "binary_op H w OP_SUB = Some (checked_op checkedSubInt ''subtract'' NumSub)"
| "binary_op H w OP_MUL = Some (checked_op checkedMulInt ''multiply'' NumMul)"
| "binary_op H w OP_BIT_AND = Some (bit_op ''bit-and'' (AND))"
| "binary_op H w OP_BIT_OR = Some (bit_op ''bit-or'' (OR))"
| "binary_op H w OP_BIT_XOR = Some (bit_op ''bit-xor'' (XOR))"
| "binary_op H w OP_BIT_AND_NOT = Some (bit_op ''bit-and-not'' (\<lambda>a b. a AND NOT b))"
| "binary_op H w OP_BIT_SHIFT_LEFT = Some (bit_op ''bit-shift-left'' shl)"
| "binary_op H w OP_BIT_SHIFT_RIGHT = Some (bit_op ''bit-shift-right'' sar)"
| "binary_op H w OP_UNSIGNED_BIT_SHIFT_RIGHT = Some (bit_op ''unsigned-bit-shift-right'' shr)"
| "binary_op H w OP_QUOT = Some quot_op"
| "binary_op H w OP_DIV = Some div_op"
| "binary_op H w (OP_UNCHECKED uop) = Some (unchecked_op uop)"
| "binary_op H w OP_LT = Some (compare_op (<s) NumLt)"
| "binary_op H w OP_LTE = Some (compare_op (\<le>s) NumLe)"
| "binary_op H w OP_GT = Some (compare_op (\<lambda>a b. b <s a) NumGt)"
| "binary_op H w OP_GTE = Some (compare_op (\<lambda>a b. b \<le>s a) NumGe)"
| "binary_op H w OP_EQ = Some (equal_op H w)"
| "binary_op H w OP_AGET = Some (\<lambda>arr idx. ho_aget H arr idx w)"
| "binary_op H w _ = None"

fun unary_op :: "opcode \<Rightarrow> (vv \<Rightarrow> (vm_err, vv) outcome) option" where
  "unary_op OP_INC = Some inc_op"
| "unary_op OP_DEC = Some dec_op"
| "unary_op OP_BIT_NOT = Some bit_not_op"
| "unary_op _ = None"

fun exec_op :: "'h host \<Rightarrow> opcode \<Rightarrow> 'h instr" where
  "exec_op H OP_NOOP w f = Some (Next (advance 1 f) w)"
| "exec_op H OP_LOAD_CONST w f = op_LOAD_CONST w f"
| "exec_op H OP_LOAD_ARG w f = op_LOAD_ARG w f"
| "exec_op H OP_RETURN w f = op_RETURN w f"
| "exec_op H OP_INVOKE w f = op_INVOKE H w f"
| "exec_op H OP_TAIL_CALL w f = op_TAIL_CALL H w f"
| "exec_op H OP_BRANCH_TRUE w f = op_BRANCH True w f"
| "exec_op H OP_BRANCH_FALSE w f = op_BRANCH False w f"
| "exec_op H OP_JUMP w f = op_JUMP w f"
| "exec_op H OP_POP w f = op_POP w f"
| "exec_op H OP_POP_N w f = op_POP_N w f"
| "exec_op H OP_DUP_NTH w f = op_DUP_NTH w f"
| "exec_op H OP_SET_VAR w f = op_SET_VAR H w f"
| "exec_op H OP_LOAD_VAR w f = op_LOAD_VAR w f"
| "exec_op H OP_MAKE_CLOSURE w f = op_MAKE_CLOSURE w f"
| "exec_op H OP_LOAD_CLOSEDOVER w f = op_LOAD_CLOSEDOVER w f"
| "exec_op H OP_PUSH_CLOSEDOVER w f = op_PUSH_CLOSEDOVER H w f"
| "exec_op H OP_RECUR_FN w f = op_RECUR_FN w f"
| "exec_op H OP_RECUR w f = op_RECUR w f"
| "exec_op H OP_MAKE_MULTI_ARITY w f = op_MAKE_MULTI_ARITY H w f"
| "exec_op H OP_TRY_PUSH w f = op_TRY_PUSH w f"
| "exec_op H OP_TRY_POP w f = op_TRY_POP w f"
| "exec_op H OP_THROW w f = op_THROW w f"
| "exec_op H OP_FINALLY_END w f = op_FINALLY_END w f"
| "exec_op H OP_ASET w f = op_ASET H w f"
| "exec_op H oc w f = (case binary_op H w oc of
     Some g \<Rightarrow> op_binary g w f
   | None \<Rightarrow> (case unary_op oc of Some g \<Rightarrow> op_unary g w f | None \<Rightarrow> None))"

definition exec :: "'h host \<Rightarrow> 'h instr" where
  "exec H w f = do {
     inst \<leftarrow> slot (ck_code (fr_code f)) (fr_ip f);
     (case decode inst of
        None \<Rightarrow> Some (Fail f (execErr ''unknown instruction'') w)
      | Some oc \<Rightarrow> exec_op H oc w f) }"

section \<open>The machine\<close>

datatype 'h machine =
    Running frame "frame list" "'h world"
  | Halted "(vm_err, vv) outcome" "'h world"

fun releaseFailedFrames :: "'h host \<Rightarrow> frame list \<Rightarrow> vm_err \<Rightarrow> 'h world \<Rightarrow> 'h machine" where
  "releaseFailedFrames H [] err w = Halted (Err err) w"
| "releaseFailedFrames H (p # ps) err w = (case wrapCallSite H w p err of
     None \<Rightarrow> Halted Panic w
   | Some err' \<Rightarrow> (case handleError err' p of
       None \<Rightarrow> Halted Panic w
     | Some (Some p') \<Rightarrow> Running p' ps w
     | Some None \<Rightarrow> releaseFailedFrames H ps err' w))"

definition raise :: "'h host \<Rightarrow> frame \<Rightarrow> frame list \<Rightarrow> vm_err \<Rightarrow> 'h world \<Rightarrow> 'h machine" where
  "raise H f ps err w = (case handleError err f of
     None \<Rightarrow> Halted Panic w
   | Some (Some f') \<Rightarrow> Running f' ps w
   | Some None \<Rightarrow> releaseFailedFrames H ps err w)"

text \<open>\<open>OP_RETURN\<close> in a frame with a suspended caller.\<close>

definition resume :: "'h host \<Rightarrow> frame \<Rightarrow> frame list \<Rightarrow> vv \<Rightarrow> 'h world \<Rightarrow> 'h machine" where
  "resume H p ps v w = (case suspendedCallArity p of
     Panic \<Rightarrow> Halted Panic w
   | Err callErr \<Rightarrow> raise H p ps callErr w
   | Ok callArity \<Rightarrow> (case fr_push v (fr_drop (callArity + 1) p) of
       None \<Rightarrow> Halted Panic w
     | Some p' \<Rightarrow> Running (advance 2 p') ps w))"

fun deliver :: "'h host \<Rightarrow> frame list \<Rightarrow> 'h world \<Rightarrow> 'h res option \<Rightarrow> 'h machine" where
  "deliver H ps w0 None = Halted Panic w0"
| "deliver H ps w0 (Some (Next f w)) = Running f ps w"
| "deliver H ps w0 (Some (Enter p c w)) = Running c (p # ps) w"
| "deliver H ps w0 (Some (Return v f w)) =
     (case ps of [] \<Rightarrow> Halted (Ok v) w | p # ps' \<Rightarrow> resume H p ps' v w)"
| "deliver H ps w0 (Some (Raise f err w)) = raise H f ps err w"
| "deliver H ps w0 (Some (Fail f err w)) = releaseFailedFrames H ps err w"

fun step :: "'h host \<Rightarrow> 'h machine \<Rightarrow> 'h machine" where
  "step H (Running f ps w) = deliver H ps w (exec H w f)"
| "step H (Halted r w) = Halted r w"

text \<open>\<open>Run\<close>, with a bound on the number of instructions.\<close>

definition run :: "'h host \<Rightarrow> nat \<Rightarrow> 'h machine \<Rightarrow> 'h machine" where
  "run H n m = (step H ^^ n) m"

inductive vm_step :: "'h host \<Rightarrow> 'h machine \<Rightarrow> 'h machine \<Rightarrow> bool" for H where
  "vm_step H (Running f ps w) (step H (Running f ps w))"

inductive reaches :: "'h host \<Rightarrow> 'h machine \<Rightarrow> 'h machine \<Rightarrow> bool" for H where
  reaches_refl: "reaches H m m"
| reaches_step: "reaches H m m' \<Longrightarrow> vm_step H m' m'' \<Longrightarrow> reaches H m m''"

end
