(* ===== verification/LG_VMType.thy ===== *)
theory LG_VMType
  imports LG_VM
begin

text \<open>
  A typing of bytecode, and what it guarantees of the interpreter.

  A typing gives for the addresses of a chunk the depth of the operand stack and the
  stack of exception handlers there. \<open>Armed c f s\<close> is a handler that \<open>TRY_PUSH\<close> armed
  at depth \<open>s\<close> with these two targets; \<open>Maybe f s\<close> stands inside a \<open>finally\<close> block for the
  handler that is there with its pending error when the block was entered abnormally,
  and is not there when it was entered normally. The typing is checked by \<open>check_chunk\<close>,
  which computes.
\<close>

section \<open>Typings\<close>

datatype hty = Armed int int int | Maybe int int

type_synonym aty = "int \<times> hty list" \<comment> \<open>depth, handlers\<close>

text \<open>Entering a \<open>finally\<close> block normally forgets that its handler may be there.\<close>

fun hsub :: "hty list \<Rightarrow> hty list \<Rightarrow> bool" where
  "hsub S [] \<longleftrightarrow> S = []"
| "hsub S (Maybe f s # S') \<longleftrightarrow>
     hsub S S' \<or> (case S of x # S0 \<Rightarrow> x = Maybe f s \<and> hsub S0 S' | [] \<Rightarrow> False)"
| "hsub S (Armed c f s # S') \<longleftrightarrow>
     (case S of x # S0 \<Rightarrow> x = Armed c f s \<and> hsub S0 S' | [] \<Rightarrow> False)"

definition flows :: "(int \<Rightarrow> aty option) \<Rightarrow> int \<Rightarrow> int \<Rightarrow> hty list \<Rightarrow> bool" where
  "flows T pc d S = (case T pc of Some (d', S') \<Rightarrow> d' = d \<and> hsub S S' | None \<Rightarrow> False)"

text \<open>The targets of the armed handlers expect what \<open>handleError\<close> leaves.\<close>

fun entries_ok :: "(int \<Rightarrow> aty option) \<Rightarrow> int \<Rightarrow> hty list \<Rightarrow> bool" where
  "entries_ok T L [] = True"
| "entries_ok T L (Maybe f s # S) = entries_ok T L S"
| "entries_ok T L (Armed c f s # S) =
     (0 \<le> s \<and> s < L \<and>
      (0 \<le> c \<longrightarrow> flows T c (s + 1) (if f < 0 then S else Armed (- 1) f s # S)) \<and>
      (0 \<le> f \<longrightarrow> flows T f (s + 1) (Maybe f s # S)) \<and>
      entries_ok T L S)"

definition argw :: "u32 list \<Rightarrow> int \<Rightarrow> int option" where
  "argw code i = map_option sint (slot code i)"

fun is_var :: "vv option \<Rightarrow> bool" where
  "is_var (Some (VarV _)) = True"
| "is_var _ = False"

abbreviation ensure :: "bool \<Rightarrow> 'a \<Rightarrow> 'a option" where
  "ensure b x \<equiv> (if b then Some x else None)"

text \<open>What an instruction needs, and the states it may continue in.\<close>

fun succs ::
    "vv list \<Rightarrow> int \<Rightarrow> u32 list \<Rightarrow> int \<Rightarrow> opcode \<Rightarrow> int \<Rightarrow> hty list \<Rightarrow> (int \<times> aty) list option" where
  "succs P nargs code pc OP_NOOP d S = Some [(pc + 1, d, S)]"
| "succs P nargs code pc OP_LOAD_CONST d S = do {
     i \<leftarrow> argw code (pc + 1); ensure (0 \<le> i) [(pc + 2, d + 1, S)] }"
| "succs P nargs code pc OP_LOAD_ARG d S = do {
     i \<leftarrow> argw code (pc + 1); ensure (0 \<le> i) [(pc + 2, d + 1, S)] }"
| "succs P nargs code pc OP_LOAD_CLOSEDOVER d S = do {
     i \<leftarrow> argw code (pc + 1); ensure (0 \<le> i) [(pc + 2, d + 1, S)] }"
| "succs P nargs code pc OP_LOAD_VAR d S = do {
     i \<leftarrow> argw code (pc + 1); ensure (is_var (slot P i)) [(pc + 2, d + 1, S)] }"
| "succs P nargs code pc OP_RETURN d S = ensure (1 \<le> d) []"
| "succs P nargs code pc OP_THROW d S = ensure (1 \<le> d) []"
| "succs P nargs code pc OP_INVOKE d S = do {
     n \<leftarrow> argw code (pc + 1); ensure (0 \<le> n \<and> n + 1 \<le> d) [(pc + 2, d - n, S)] }"
| "succs P nargs code pc OP_TAIL_CALL d S = do {
     n \<leftarrow> argw code (pc + 1); ensure (0 \<le> n \<and> n + 1 \<le> d \<and> S = []) [(pc + 2, d - n, S)] }"
| "succs P nargs code pc OP_BRANCH_TRUE d S = do {
     off \<leftarrow> argw code (pc + 1); ensure (1 \<le> d) [(pc + 2, d - 1, S), (pc + off, d - 1, S)] }"
| "succs P nargs code pc OP_BRANCH_FALSE d S = do {
     off \<leftarrow> argw code (pc + 1); ensure (1 \<le> d) [(pc + 2, d - 1, S), (pc + off, d - 1, S)] }"
| "succs P nargs code pc OP_JUMP d S = do {
     off \<leftarrow> argw code (pc + 1); Some [(pc + off, d, S)] }"
| "succs P nargs code pc OP_POP d S = ensure (1 \<le> d) [(pc + 1, d - 1, S)]"
| "succs P nargs code pc OP_POP_N d S = do {
     n \<leftarrow> argw code (pc + 1); ensure (0 \<le> n \<and> n + 1 \<le> d) [(pc + 2, d - n, S)] }"
| "succs P nargs code pc OP_DUP_NTH d S = do {
     n \<leftarrow> argw code (pc + 1); ensure (0 \<le> n \<and> n < d) [(pc + 2, d + 1, S)] }"
| "succs P nargs code pc OP_SET_VAR d S = ensure (2 \<le> d) [(pc + 1, d - 1, S)]"
| "succs P nargs code pc OP_MAKE_CLOSURE d S = ensure (1 \<le> d) [(pc + 1, d, S)]"
| "succs P nargs code pc OP_PUSH_CLOSEDOVER d S = ensure (2 \<le> d) [(pc + 1, d - 1, S)]"
| "succs P nargs code pc OP_RECUR_FN d S = do {
     n \<leftarrow> argw code (pc + 1); ensure (0 \<le> n \<and> n \<le> d \<and> n \<le> nargs \<and> S = []) [(0, 0, [])] }"
| "succs P nargs code pc OP_RECUR d S = do {
     off \<leftarrow> argw code (pc + 1);
     n \<leftarrow> argw code (pc + 2);
     ign \<leftarrow> argw code (pc + 3);
     ensure (0 \<le> n \<and> 0 \<le> ign \<and> 2 * n + ign \<le> d) [(pc - off, d - n - ign, S)] }"
| "succs P nargs code pc OP_MAKE_MULTI_ARITY d S = do {
     n \<leftarrow> argw code (pc + 1); ensure (1 \<le> n \<and> n \<le> d) [(pc + 2, d - n + 1, S)] }"
| "succs P nargs code pc OP_TRY_PUSH d S = do {
     co \<leftarrow> argw code (pc + 1);
     fo \<leftarrow> argw code (pc + 2);
     Some [(pc + 3, d, Armed (if co \<noteq> 0 then pc + co else - 1) (if fo \<noteq> 0 then pc + fo else - 1) d # S)] }"
| "succs P nargs code pc OP_TRY_POP d S = (case S of
     Armed c f s # S' \<Rightarrow> Some [(pc + 1, d, S')] | _ \<Rightarrow> None)"
| "succs P nargs code pc OP_FINALLY_END d S = (case S of
     Maybe f s # S' \<Rightarrow> do {
       off \<leftarrow> argw code (pc + 1);
       ensure (f = pc + off \<and> (\<forall>x\<in>set S'. case x of Maybe g _ \<Rightarrow> g \<noteq> f | Armed _ _ _ \<Rightarrow> True))
         [(pc + 2, d, S')] }
   | _ \<Rightarrow> None)"
| "succs P nargs code pc OP_ASET d S = ensure (3 \<le> d) [(pc + 1, d - 2, S)]"
| "succs P nargs code pc OP_INC d S = ensure (1 \<le> d) [(pc + 1, d, S)]"
| "succs P nargs code pc OP_DEC d S = ensure (1 \<le> d) [(pc + 1, d, S)]"
| "succs P nargs code pc OP_BIT_NOT d S = ensure (1 \<le> d) [(pc + 1, d, S)]"
| "succs P nargs code pc oc d S = ensure (2 \<le> d) [(pc + 1, d - 1, S)]"

definition wt_instr ::
    "vv list \<Rightarrow> int \<Rightarrow> u32 list \<Rightarrow> (int \<Rightarrow> aty option) \<Rightarrow> int \<Rightarrow> int \<Rightarrow> hty list \<Rightarrow> bool" where
  "wt_instr P nargs code T pc d S = (case slot code pc of
     None \<Rightarrow> False
   | Some inst \<Rightarrow> (case decode inst of
       None \<Rightarrow> True
     | Some oc \<Rightarrow> (case succs P nargs code pc oc d S of
         None \<Rightarrow> False
       | Some ss \<Rightarrow> list_all (\<lambda>(pc', d', S'). flows T pc' d' S') ss)))"

type_synonym typing = "(int \<times> aty) list"

definition check_chunk :: "vv list \<Rightarrow> int \<Rightarrow> chunk \<Rightarrow> typing \<Rightarrow> bool" where
  "check_chunk P nargs c tab \<longleftrightarrow>
     map_of tab 0 = Some (0, []) \<and>
     list_all (\<lambda>(pc, d, S). 0 \<le> d \<and> d \<le> int (stack_len c) \<and>
       entries_ok (map_of tab) (int (stack_len c)) S \<and>
       wt_instr P nargs (ck_code c) (map_of tab) pc d S) tab"

definition typed_fn :: "vv list \<Rightarrow> int \<Rightarrow> bool \<Rightarrow> chunk \<Rightarrow> bool" where
  "typed_fn P arity variadic c \<longleftrightarrow>
     (variadic \<longrightarrow> 1 \<le> arity) \<and> (\<exists>tab. check_chunk P arity c tab)"

section \<open>Well-formed values, errors and worlds\<close>

fun val_ok :: "'h world \<Rightarrow> vv \<Rightarrow> bool"
  and msg_ok :: "'h world \<Rightarrow> msg \<Rightarrow> bool"
  and err_ok :: "'h world \<Rightarrow> vm_err \<Rightarrow> bool" where
  "val_ok w (ListV vs) = (\<forall>v\<in>set vs. val_ok w v)"
| "val_ok w (FuncV n a v c) = typed_fn (w_pools w (ck_consts c)) a v c"
| "val_ok w (ClosureV i f) = (i < length (w_clos w) \<and> val_ok w f)"
| "val_ok w (MultiV fns rest a n) =
     ((\<forall>f\<in>snd ` set fns. val_ok w f) \<and> (case rest of Some r \<Rightarrow> val_ok w r | None \<Rightarrow> True))"
| "val_ok w (MetaV f) = val_ok w f"
| "val_ok w (ExInfoV e tr) = err_ok w e"
| "val_ok w (Prim x) = True"
| "val_ok w (VarV x) = True"
| "val_ok w (ObjV x) = True"
| "val_ok w (NativeV i n a v) = True"
| "msg_ok w (BadArity f a n) = val_ok w f"
| "msg_ok w (BadArityAtLeast f a n) = val_ok w f"
| "msg_ok w (NoVariant f n) = val_ok w f"
| "msg_ok w (Msg x) = True"
| "msg_ok w (Calling x) = True"
| "msg_ok w (InvalidSuspended x a b) = True"
| "err_ok w (ThrownError v) = val_ok w v"
| "err_ok w (ExecutionError m c) = (msg_ok w m \<and> (case c of Some e \<Rightarrow> err_ok w e | None \<Rightarrow> True))"
| "err_ok w (TypeError v x) = val_ok w v"
| "err_ok w (NumError e) = True"
| "err_ok w (CannotNum x a b) = (val_ok w a \<and> val_ok w b)"
| "err_ok w (PlainError x) = True"

definition dyn_vals_ok :: "'h world \<Rightarrow> dyn \<Rightarrow> bool" where
  "dyn_vals_ok w d \<longleftrightarrow>
     (\<forall>v x. vc_root (d_var d v) = Some x \<longrightarrow> val_ok w x) \<and>
     (\<forall>v. \<forall>x\<in>set (vc_rootBind (d_var d v)). val_ok w x) \<and>
     (\<forall>c. \<forall>x\<in>snd ` set (d_chain d c). val_ok w x)"

definition world_ok :: "'h world \<Rightarrow> bool" where
  "world_ok w \<longleftrightarrow>
     (\<forall>p. \<forall>v\<in>set (w_pools w p). val_ok w v) \<and>
     (\<forall>cl\<in>set (w_clos w). \<forall>v\<in>set cl. val_ok w v) \<and>
     dyn_vals_ok w (w_dyn w)"

text \<open>Pools only grow at the end and closures are never forgotten.\<close>

definition wext :: "'h world \<Rightarrow> 'h world \<Rightarrow> bool" where
  "wext w w' \<longleftrightarrow> (\<forall>p. \<exists>xs. w_pools w' p = w_pools w p @ xs) \<and> length (w_clos w) \<le> length (w_clos w')"

lemma wext_refl [simp]: "wext w w"
  by (simp add: wext_def)

lemma wext_trans: "wext a b \<Longrightarrow> wext b c \<Longrightarrow> wext a c"
  unfolding wext_def by (metis append.assoc order_trans)

lemma wext_same:
  "w_pools w' = w_pools w \<Longrightarrow> length (w_clos w) \<le> length (w_clos w') \<Longrightarrow> wext w w'"
  by (simp add: wext_def)

section \<open>Handlers that match their types\<close>

fun hmatch :: "hty list \<Rightarrow> handler list \<Rightarrow> bool" where
  "hmatch [] hs \<longleftrightarrow> hs = []"
| "hmatch (Armed c f s # S) hs \<longleftrightarrow> (case hs of
     h # hs' \<Rightarrow> h_catchIP h = c \<and> h_finallyIP h = f \<and> h_savedSP h = s \<and> h_pending h = None \<and> hmatch S hs'
   | [] \<Rightarrow> False)"
| "hmatch (Maybe f s # S) hs \<longleftrightarrow> hmatch S hs \<or> (case hs of
     h # hs' \<Rightarrow> h_finallyIP h = f \<and> h_pending h \<noteq> None \<and> hmatch S hs'
   | [] \<Rightarrow> False)"

lemma hmatch_hsub: "hsub S S' \<Longrightarrow> hmatch S hs \<Longrightarrow> hmatch S' hs"
proof (induction S S' arbitrary: hs rule: hsub.induct)
  case (2 S f s S')
  then show ?case by (cases S; cases hs) auto
next
  case (3 S c f s S')
  then show ?case by (cases S; cases hs) auto
qed simp

lemma flows_hmatch:
  assumes "flows T pc d S" "hmatch S hs"
  shows "\<exists>S'. T pc = Some (d, S') \<and> hmatch S' hs"
  using assms hmatch_hsub by (auto simp: flows_def split: option.splits)

section \<open>Well-typed frames\<close>

definition pending_ok :: "'h world \<Rightarrow> handler list \<Rightarrow> bool" where
  "pending_ok w hs \<longleftrightarrow> (\<forall>h\<in>set hs. case h_pending h of Some e \<Rightarrow> err_ok w e | None \<Rightarrow> True)"

definition base_ok :: "'h world \<Rightarrow> frame \<Rightarrow> int \<Rightarrow> typing \<Rightarrow> bool" where
  "base_ok w f nargs tab \<longleftrightarrow>
     check_chunk (w_pools w (ck_consts (fr_code f))) nargs (fr_code f) tab \<and>
     length (fr_stack f) = stack_len (fr_code f) \<and>
     nargs \<le> int (length (fr_args f)) \<and> fr_argc f \<le> int (length (fr_args f)) \<and>
     fr_constsc f \<le> const_count w (fr_code f) \<and>
     (\<forall>v\<in>set (fr_stack f) \<union> set (fr_args f) \<union> set (fr_clos f). val_ok w v) \<and>
     pending_ok w (fr_handlers f)"

definition frame_at :: "'h world \<Rightarrow> frame \<Rightarrow> int \<Rightarrow> typing \<Rightarrow> hty list \<Rightarrow> bool" where
  "frame_at w f nargs tab S \<longleftrightarrow>
     base_ok w f nargs tab \<and> map_of tab (fr_ip f) = Some (fr_sp f, S) \<and> hmatch S (fr_handlers f)"

definition frame_ok :: "'h world \<Rightarrow> frame \<Rightarrow> bool" where
  "frame_ok w f \<longleftrightarrow> (\<exists>nargs tab S. frame_at w f nargs tab S)"

text \<open>A frame whose handlers can take an error, wherever it is.\<close>

definition raisable :: "'h world \<Rightarrow> frame \<Rightarrow> bool" where
  "raisable w f \<longleftrightarrow> (\<exists>nargs tab S. base_ok w f nargs tab \<and>
     entries_ok (map_of tab) (int (stack_len (fr_code f))) S \<and> hmatch S (fr_handlers f))"

definition suspended_ok :: "'h world \<Rightarrow> frame \<Rightarrow> bool" where
  "suspended_ok w f \<longleftrightarrow> frame_ok w f \<and>
     (\<exists>inst n. slot (ck_code (fr_code f)) (fr_ip f) = Some inst \<and>
        decode inst \<in> {Some OP_INVOKE, Some OP_TAIL_CALL} \<and>
        operand 1 f = Some n \<and> 0 \<le> n \<and> n + 1 \<le> fr_sp f)"

definition res_ok :: "'h world \<Rightarrow> frame \<Rightarrow> 'h res \<Rightarrow> bool" where
  "res_ok w f r = (case r of
     Next f' w' \<Rightarrow> wext w w' \<and> world_ok w' \<and> frame_ok w' f'
   | Enter p c w' \<Rightarrow> wext w w' \<and> world_ok w' \<and> suspended_ok w' p \<and> frame_ok w' c
   | Return v f' w' \<Rightarrow> wext w w' \<and> world_ok w' \<and> val_ok w' v
   | Raise f' e w' \<Rightarrow> wext w w' \<and> world_ok w' \<and> err_ok w' e \<and> raisable w' f'
   | Fail f' e w' \<Rightarrow> wext w w' \<and> world_ok w' \<and> err_ok w' e)"

fun machine_ok :: "'h machine \<Rightarrow> bool" where
  "machine_ok (Running f ps w) \<longleftrightarrow> world_ok w \<and> frame_ok w f \<and> list_all (suspended_ok w) ps"
| "machine_ok (Halted r w) \<longleftrightarrow> world_ok w \<and>
     (case r of Ok v \<Rightarrow> val_ok w v | Err e \<Rightarrow> err_ok w e | Panic \<Rightarrow> False)"

definition good_result :: "'h world \<Rightarrow> ('a \<Rightarrow> 'h world \<Rightarrow> bool) \<Rightarrow> (vm_err, 'a) outcome \<times> 'h world \<Rightarrow> bool" where
  "good_result w good r \<longleftrightarrow> wext w (snd r) \<and> world_ok (snd r) \<and>
     (case fst r of Ok v \<Rightarrow> good v (snd r) | Err e \<Rightarrow> err_ok (snd r) e | Panic \<Rightarrow> False)"

text \<open>What the interpreter relies on: the code it calls out to keeps its heap well-formed and
  reports failures as errors.\<close>

definition host_ok :: "'h host \<Rightarrow> bool" where
  "host_ok H \<longleftrightarrow> (\<forall>w. world_ok w \<longrightarrow>
     (\<forall>fn ec args. val_ok w fn \<longrightarrow> (\<forall>a\<in>set args. val_ok w a) \<longrightarrow>
        good_result w (\<lambda>v w'. val_ok w' v) (ho_invoke H fn ec args w)) \<and>
     (\<forall>a b. val_ok w a \<longrightarrow> val_ok w b \<longrightarrow> ho_equals H a b w \<noteq> None \<and>
        good_result w (\<lambda>v w'. val_ok w' v) (ho_aget H a b w, w)) \<and>
     (\<forall>a b c. val_ok w a \<longrightarrow> val_ok w b \<longrightarrow> val_ok w c \<longrightarrow>
        good_result w (\<lambda>v w'. True) (ho_aset H a b c w)))"

section \<open>Growth of the world keeps everything well-formed\<close>

lemma slot_append: "slot xs i = Some x \<Longrightarrow> slot (xs @ ys) i = Some x"
  by (auto simp: slot_def nth_append split: if_splits)

lemma is_var_append: "is_var (slot P i) \<Longrightarrow> is_var (slot (P @ xs) i)"
  using slot_append[of P i] by (cases "slot P i") auto

lemma succs_append: "succs P n code pc oc d S = Some ss \<Longrightarrow> succs (P @ xs) n code pc oc d S = Some ss"
  by (cases oc) (auto simp: is_var_append bind_eq_Some_conv split: if_splits)

lemma check_chunk_append: "check_chunk P n c tab \<Longrightarrow> check_chunk (P @ xs) n c tab"
proof -
  have "wt_instr P n code T pc d S \<Longrightarrow> wt_instr (P @ xs) n code T pc d S" for code T pc d S
    by (auto simp: wt_instr_def succs_append split: option.splits)
  then show "check_chunk P n c tab \<Longrightarrow> check_chunk (P @ xs) n c tab"
    by (fastforce simp: check_chunk_def list_all_iff)
qed

lemma check_chunk_wext: "wext w w' \<Longrightarrow> check_chunk (w_pools w p) n c tab \<Longrightarrow> check_chunk (w_pools w' p) n c tab"
  unfolding wext_def using check_chunk_append by metis

lemma typed_fn_wext: "wext w w' \<Longrightarrow> typed_fn (w_pools w p) a v c \<Longrightarrow> typed_fn (w_pools w' p) a v c"
  unfolding typed_fn_def using check_chunk_wext by metis

lemma val_ok_wext:
  "wext w w' \<Longrightarrow> val_ok w v \<Longrightarrow> val_ok w' v"
  "wext w w' \<Longrightarrow> msg_ok w m \<Longrightarrow> msg_ok w' m"
  "wext w w' \<Longrightarrow> err_ok w e \<Longrightarrow> err_ok w' e"
proof (induction w v and w m and w e rule: val_ok_msg_ok_err_ok.induct)
  case (2 w n a v c)
  then show ?case using typed_fn_wext[of w w'] by simp
next
  case (3 w i f)
  then show ?case by (auto simp: wext_def)
qed (auto split: option.splits)

lemma dyn_vals_wext: "wext w w' \<Longrightarrow> dyn_vals_ok w d \<Longrightarrow> dyn_vals_ok w' d"
  unfolding dyn_vals_ok_def using val_ok_wext(1) by blast

lemma pending_ok_wext: "wext w w' \<Longrightarrow> pending_ok w hs \<Longrightarrow> pending_ok w' hs"
  unfolding pending_ok_def using val_ok_wext(3) by (fastforce split: option.splits)

lemma const_count_wext: "wext w w' \<Longrightarrow> const_count w c \<le> const_count w' c"
proof -
  assume "wext w w'"
  then obtain xs where "w_pools w' (ck_consts c) = w_pools w (ck_consts c) @ xs"
    unfolding wext_def by blast
  then show ?thesis by (simp add: const_count_def)
qed

lemma base_ok_wext: "wext w w' \<Longrightarrow> base_ok w f n tab \<Longrightarrow> base_ok w' f n tab"
  unfolding base_ok_def
  using check_chunk_wext val_ok_wext(1) pending_ok_wext const_count_wext by (meson order_trans)

lemma frame_ok_wext: "wext w w' \<Longrightarrow> frame_ok w f \<Longrightarrow> frame_ok w' f"
  unfolding frame_ok_def frame_at_def using base_ok_wext by blast

lemma suspended_ok_wext: "wext w w' \<Longrightarrow> suspended_ok w f \<Longrightarrow> suspended_ok w' f"
  unfolding suspended_ok_def using frame_ok_wext by blast

section \<open>Access to slots\<close>

lemma slot_eq_Some [simp]: "slot xs i = Some x \<longleftrightarrow> 0 \<le> i \<and> i < int (length xs) \<and> xs ! nat i = x"
  by (auto simp: slot_def)

lemma slot_in: "0 \<le> i \<Longrightarrow> i < int (length xs) \<Longrightarrow> slot xs i = Some (xs ! nat i)"
  by simp

lemma nth_ok: "\<forall>v\<in>set xs. P v \<Longrightarrow> 0 \<le> i \<Longrightarrow> i < int (length xs) \<Longrightarrow> P (xs ! nat i)"
  by (simp add: nat_less_iff)

lemma put_slot_in: "0 \<le> i \<Longrightarrow> i < int (length xs) \<Longrightarrow> put_slot xs i x = Some (xs[nat i := x])"
  by (simp add: put_slot_def)

lemma slice_in: "0 \<le> lo \<Longrightarrow> lo \<le> hi \<Longrightarrow> hi \<le> int (length xs) \<Longrightarrow>
    slice xs lo hi = Some (take (nat (hi - lo)) (drop (nat lo) xs))"
  by (simp add: slice_def)

lemma set_slice: "slice xs lo hi = Some ys \<Longrightarrow> set ys \<subseteq> set xs"
  by (auto simp: slice_def dest: in_set_takeD in_set_dropD split: if_splits)

lemma length_slice: "slice xs lo hi = Some ys \<Longrightarrow> int (length ys) = hi - lo"
  by (auto simp: slice_def split: if_splits)

lemma length_copy [simp]: "length (copy dst src) = length dst"
  by (simp add: copy_def)

lemma set_copy: "set (copy dst src) \<subseteq> set dst \<union> set src"
  by (auto simp: copy_def dest: in_set_takeD in_set_dropD)

lemma fr_push_in:
  "0 \<le> fr_sp f \<Longrightarrow> fr_sp f < int (length (fr_stack f)) \<Longrightarrow>
   fr_push v f = Some (f\<lparr>fr_stack := (fr_stack f)[nat (fr_sp f) := v], fr_sp := fr_sp f + 1\<rparr>)"
  by (simp add: fr_push_def put_slot_in)

lemma fr_pop_in:
  "1 \<le> fr_sp f \<Longrightarrow> fr_sp f \<le> int (length (fr_stack f)) \<Longrightarrow>
   fr_pop f = Some (fr_stack f ! nat (fr_sp f - 1), f\<lparr>fr_sp := fr_sp f - 1\<rparr>)"
  by (simp add: fr_pop_def slot_in)

lemma advance_simps [simp]:
  "fr_ip (advance n f) = fr_ip f + n" "fr_sp (advance n f) = fr_sp f"
  "fr_stack (advance n f) = fr_stack f" "fr_handlers (advance n f) = fr_handlers f"
  "fr_code (advance n f) = fr_code f" "base_ok w (advance n f) = base_ok w f"
  by (simp_all add: advance_def base_ok_def fun_eq_iff)

lemma fr_drop_simps [simp]:
  "fr_ip (fr_drop n f) = fr_ip f" "fr_sp (fr_drop n f) = fr_sp f - n"
  "fr_stack (fr_drop n f) = fr_stack f" "fr_handlers (fr_drop n f) = fr_handlers f"
  "fr_code (fr_drop n f) = fr_code f" "base_ok w (fr_drop n f) = base_ok w f"
  by (simp_all add: fr_drop_def base_ok_def fun_eq_iff)

section \<open>Errors and handlers\<close>

lemma val_ok_errorToValue: "err_ok w e \<Longrightarrow> val_ok w (errorToValue e)"
proof -
  assume e: "err_ok w e"
  have "unwrapThrown e = Some v \<Longrightarrow> val_ok w v" for v
    using e by (induction e rule: unwrapThrown.induct) (auto split: option.splits)
  moreover have "err_ok w (innermost e)"
    using e by (induction e rule: innermost.induct) auto
  ultimately show ?thesis by (auto simp: errorToValue_def split: option.split)
qed

lemma err_ok_wrapCallErr [simp]: "err_ok w (wrapCallErr fn e) = err_ok w e"
  by (simp add: wrapCallErr_def)

lemma base_ok_new:
  assumes "base_ok w f n tab"
    and "fr_code g = fr_code f" "fr_args g = fr_args f" "fr_argc g = fr_argc f" "fr_clos g = fr_clos f"
      "fr_constsc g = fr_constsc f" "length (fr_stack g) = length (fr_stack f)"
      "\<forall>v\<in>set (fr_stack g). val_ok w v" "pending_ok w (fr_handlers g)"
  shows "base_ok w g n tab"
  using assms by (auto simp: base_ok_def)

lemma stack_upd_ok: "\<forall>v\<in>set s. val_ok w v \<Longrightarrow> val_ok w x \<Longrightarrow> \<forall>v\<in>set (s[i := x]). val_ok w v"
  using set_update_subset_insert[of s i x] by auto

lemma frame_okI:
  assumes "base_ok w f n tab" "flows (map_of tab) (fr_ip f) (fr_sp f) S" "hmatch S (fr_handlers f)"
  shows "frame_ok w f"
  using assms flows_hmatch[OF assms(2,3)] unfolding frame_ok_def frame_at_def by metis

lemma handle_with_ok:
  assumes b: "base_ok w f n tab" and e: "err_ok w e"
  shows "entries_ok (map_of tab) (int (stack_len (fr_code f))) S \<Longrightarrow> hmatch S hs \<Longrightarrow> pending_ok w hs \<Longrightarrow>
    \<exists>r. handle_with e hs f = Some r \<and> (\<forall>f'. r = Some f' \<longrightarrow> frame_ok w f')"
proof (induction S arbitrary: hs)
  case (Cons x S)
  have st: "length (fr_stack f) = stack_len (fr_code f)" "\<forall>v\<in>set (fr_stack f). val_ok w v"
    using b by (auto simp: base_ok_def)
  have enter: "\<exists>r. (do { f' \<leftarrow> fr_push v (f\<lparr>fr_handlers := hs', fr_sp := s\<rparr>);
        Some (Some (f'\<lparr>fr_ip := pc\<rparr>)) }) = Some r \<and> (\<forall>f'. r = Some f' \<longrightarrow> frame_ok w f')"
    if "flows (map_of tab) pc (s + 1) S'" "hmatch S' hs'" "0 \<le> s" "s < int (stack_len (fr_code f))"
      "pending_ok w hs'" "val_ok w v" for v hs' s pc S'
  proof -
    let ?g = "f\<lparr>fr_handlers := hs', fr_stack := (fr_stack f)[nat s := v], fr_sp := s + 1, fr_ip := pc\<rparr>"
    have "base_ok w ?g n tab"
      by (rule base_ok_new[OF b]) (use that st stack_upd_ok[OF st(2) that(6)] in simp_all)
    then have "frame_ok w ?g" by (rule frame_okI[of _ _ _ _ S']) (use that in auto)
    then show ?thesis using that st by (simp add: fr_push_in)
  qed
  show ?case
  proof (cases x)
    case (Armed c f0 s)
    then obtain h hs' where hs: "hs = h # hs'" "h_catchIP h = c" "h_finallyIP h = f0" "h_savedSP h = s"
        "h_pending h = None" "hmatch S hs'"
      using Cons.prems(2) by (auto split: list.splits)
    have p: "pending_ok w hs'" using Cons.prems(3) hs by (auto simp: pending_ok_def)
    note ih = Cons.IH[OF _ hs(6) p]
    show ?thesis
      using Cons.prems(1) Armed hs p e
        enter[of c s "if f0 < 0 then S else Armed (- 1) f0 s # S" "if f0 < 0 then hs' else h\<lparr>h_catchIP := - 1\<rparr> # hs'" "errorToValue e"]
        enter[of f0 s "Maybe f0 s # S" "h\<lparr>h_pending := Some e\<rparr> # hs'" NIL] ih
      by (auto simp: val_ok_errorToValue pending_ok_def)
  next
    case (Maybe f0 s)
    show ?thesis
    proof (cases "hmatch S hs")
      case True
      then show ?thesis using Cons.IH[OF _ True Cons.prems(3)] Cons.prems(1) Maybe by simp
    next
      case False
      then obtain h hs' where hs: "hs = h # hs'" "h_pending h \<noteq> None" "hmatch S hs'"
        using Cons.prems(2) Maybe by (auto split: list.splits)
      have "pending_ok w hs'" using Cons.prems(3) hs by (auto simp: pending_ok_def)
      then show ?thesis using Cons.IH[OF _ hs(3)] Cons.prems(1) Maybe hs by simp
    qed
  qed
qed simp

lemma handleError_ok:
  assumes "raisable w f" "err_ok w e"
  shows "\<exists>r. handleError e f = Some r \<and> (\<forall>f'. r = Some f' \<longrightarrow> frame_ok w f')"
proof -
  obtain n tab S where b: "base_ok w f n tab" and S: "entries_ok (map_of tab) (int (stack_len (fr_code f))) S"
      "hmatch S (fr_handlers f)"
    using assms(1) by (auto simp: raisable_def)
  have "pending_ok w (fr_handlers f)" using b by (simp add: base_ok_def)
  from handle_with_ok[OF b assms(2) S this] show ?thesis by (simp add: handleError_def)
qed

end
