(* ===== verification/LG_VMSafe.thy ===== *)
theory LG_VMSafe
  imports LG_VMType
begin

text \<open>
  Well-typed bytecode does not panic: every instruction of a well-typed frame stays in
  bounds and leaves a well-typed machine, calls and returns, errors and handlers included
  (\<open>step_ok\<close>). The only panics left are those of the numeric tower on its own operands.
\<close>

section \<open>One instruction of a well-typed frame\<close>

definition ready :: "'h world \<Rightarrow> frame \<Rightarrow> int \<Rightarrow> typing \<Rightarrow> hty list \<Rightarrow> opcode \<Rightarrow> bool" where
  "ready w f n tab S oc \<longleftrightarrow> world_ok w \<and> frame_at w f n tab S \<and>
     (\<exists>ss. succs (w_pools w (ck_consts (fr_code f))) n (ck_code (fr_code f)) (fr_ip f) oc (fr_sp f) S = Some ss \<and>
        (\<forall>(pc, d, S')\<in>set ss. flows (map_of tab) pc d S'))"

definition ok_exec :: "'h world \<Rightarrow> frame \<Rightarrow> 'h res option \<Rightarrow> bool" where
  "ok_exec w f r \<longleftrightarrow> (\<exists>x. r = Some x \<and> res_ok w f x)"

lemma operand_argw: "operand i f = argw (ck_code (fr_code f)) (fr_ip f + i)"
  by (simp add: operand_def argw_def)

lemma check_depth: "check_chunk P n c tab \<Longrightarrow> map_of tab pc = Some (d, S) \<Longrightarrow>
    0 \<le> d \<and> d \<le> int (stack_len c) \<and> entries_ok (map_of tab) (int (stack_len c)) S \<and>
    wt_instr P n (ck_code c) (map_of tab) pc d S"
  by (auto simp: check_chunk_def list_all_iff dest!: map_of_SomeD)

lemma flows_depth: "base_ok w f n tab \<Longrightarrow> flows (map_of tab) pc d S \<Longrightarrow> 0 \<le> d \<and> d \<le> int (length (fr_stack f))"
  using check_depth by (fastforce simp: flows_def base_ok_def split: option.splits)

lemma frame_at_depth: "frame_at w f n tab S \<Longrightarrow> 0 \<le> fr_sp f \<and> fr_sp f \<le> int (length (fr_stack f))"
  using check_depth by (fastforce simp: frame_at_def base_ok_def)

lemma frame_at_raisable: "frame_at w f n tab S \<Longrightarrow> raisable w f"
  unfolding raisable_def frame_at_def using check_depth unfolding base_ok_def by blast

lemma frame_at_wext: "wext w w' \<Longrightarrow> frame_at w f n tab S \<Longrightarrow> frame_at w' f n tab S"
  unfolding frame_at_def using base_ok_wext by blast

lemma raisable_wext: "wext w w' \<Longrightarrow> raisable w f \<Longrightarrow> raisable w' f"
  unfolding raisable_def using base_ok_wext by blast

lemma base_ok_sp [simp]:
  "base_ok w (f\<lparr>fr_sp := sp\<rparr>) = base_ok w f" "base_ok w (f\<lparr>fr_ip := ip\<rparr>) = base_ok w f"
  by (simp_all add: base_ok_def fun_eq_iff)

lemma raisable_sp [simp]: "raisable w (fr_drop m f) = raisable w f" "raisable w (f\<lparr>fr_sp := sp\<rparr>) = raisable w f"
  by (auto simp: raisable_def base_ok_def fr_drop_def)

lemma base_okD:
  assumes "base_ok w f n tab"
  shows "\<forall>v\<in>set (fr_stack f). val_ok w v" "\<forall>v\<in>set (fr_args f). val_ok w v" "\<forall>v\<in>set (fr_clos f). val_ok w v"
    "pending_ok w (fr_handlers f)" "fr_constsc f \<le> const_count w (fr_code f)"
    "fr_argc f \<le> int (length (fr_args f))" "n \<le> int (length (fr_args f))"
  using assms by (auto simp: base_ok_def)

lemma readyD:
  assumes "ready w f n tab S oc"
  shows "world_ok w" "frame_at w f n tab S" "base_ok w f n tab" "hmatch S (fr_handlers f)" "raisable w f"
    "0 \<le> fr_sp f" "fr_sp f \<le> int (length (fr_stack f))"
  using assms frame_at_depth[of w f n tab S] frame_at_raisable[of w f n tab S]
  by (auto simp: ready_def frame_at_def)

lemma push_ok:
  assumes b: "base_ok w f n tab" and h: "hmatch S (fr_handlers f)" and v: "val_ok w v"
    and fl: "flows (map_of tab) (fr_ip f + k) (fr_sp f + 1) S" and sp: "0 \<le> fr_sp f"
  shows "\<exists>f'. fr_push v f = Some f' \<and> frame_ok w (advance k f')"
proof -
  have "fr_sp f < int (length (fr_stack f))" using flows_depth[OF b fl] by simp
  then have p: "fr_push v f = Some (f\<lparr>fr_stack := (fr_stack f)[nat (fr_sp f) := v], fr_sp := fr_sp f + 1\<rparr>)"
    using sp by (simp add: fr_push_in)
  have "base_ok w (f\<lparr>fr_stack := (fr_stack f)[nat (fr_sp f) := v], fr_sp := fr_sp f + 1\<rparr>) n tab"
    by (rule base_ok_new[OF b]) (use base_okD[OF b] stack_upd_ok[OF base_okD(1)[OF b] v] in simp_all)
  then have "frame_ok w (advance k (f\<lparr>fr_stack := (fr_stack f)[nat (fr_sp f) := v], fr_sp := fr_sp f + 1\<rparr>))"
    by (intro frame_okI[of _ _ n tab S]) (use fl h in simp_all)
  then show ?thesis using p by simp
qed

text \<open>Moving on without a change to values: sp and ip only.\<close>

lemma move_ok:
  assumes "base_ok w f n tab" "hmatch S (fr_handlers f)" "flows (map_of tab) pc sp S"
  shows "frame_ok w (f\<lparr>fr_sp := sp, fr_ip := pc\<rparr>)"
  by (rule frame_okI[of _ _ n tab S]) (use assms in \<open>auto simp: base_ok_def\<close>)

lemma stack_val: "base_ok w f n tab \<Longrightarrow> 0 \<le> i \<Longrightarrow> i < int (length (fr_stack f)) \<Longrightarrow> val_ok w (fr_stack f ! nat i)"
  by (rule nth_ok[OF base_okD(1)])

lemma pool_val: "world_ok w \<Longrightarrow> 0 \<le> i \<Longrightarrow> i < int (length (w_pools w p)) \<Longrightarrow> val_ok w (w_pools w p ! nat i)"
  by (rule nth_ok) (auto simp: world_ok_def)

section \<open>Introduction rules for results\<close>

lemma ok_results [intro]:
  "wext w w' \<Longrightarrow> world_ok w' \<Longrightarrow> frame_ok w' f' \<Longrightarrow> ok_exec w f (Some (Next f' w'))"
  "wext w w' \<Longrightarrow> world_ok w' \<Longrightarrow> suspended_ok w' p \<Longrightarrow> frame_ok w' c \<Longrightarrow> ok_exec w f (Some (Enter p c w'))"
  "wext w w' \<Longrightarrow> world_ok w' \<Longrightarrow> val_ok w' v \<Longrightarrow> ok_exec w f (Some (Return v f' w'))"
  "wext w w' \<Longrightarrow> world_ok w' \<Longrightarrow> err_ok w' e \<Longrightarrow> raisable w' f' \<Longrightarrow> ok_exec w f (Some (Raise f' e w'))"
  "wext w w' \<Longrightarrow> world_ok w' \<Longrightarrow> err_ok w' e \<Longrightarrow> ok_exec w f (Some (Fail f' e w'))"
  by (simp_all add: ok_exec_def res_ok_def)

lemma ok_push:
  assumes "base_ok w' g n tab" "hmatch S (fr_handlers g)" "val_ok w' v"
    "flows (map_of tab) (fr_ip g + k) (fr_sp g + 1) S" "0 \<le> fr_sp g" "wext w w'" "world_ok w'"
  shows "ok_exec w f (fr_push v g \<bind> (\<lambda>f'. Some (Next (advance k f') w')))"
  using push_ok[OF assms(1-5)] assms(6,7) by auto

text \<open>A result in an unchanged world.\<close>

lemma ok_move:
  assumes "ready w f n tab S oc" "flows (map_of tab) (fr_ip g) (fr_sp g) S'" "hmatch S' (fr_handlers g)"
    "base_ok w g n tab"
  shows "ok_exec w f (Some (Next g w))"
  using readyD(1)[OF assms(1)] frame_okI[OF assms(4,2,3)] by (intro ok_results(1)) simp_all

lemma ok_fail: "ready w f n tab S oc \<Longrightarrow> err_ok w e \<Longrightarrow> ok_exec w f (Some (Fail g e w))"
  using readyD(1) by (intro ok_results(5)) simp_all

lemmas ready_unfold = ready_def operand_argw bind_eq_Some_conv

section \<open>Constants, arguments, control flow, the stack\<close>

lemma NOOP_ok: "ready w f n tab S OP_NOOP \<Longrightarrow> ok_exec w f (exec_op H OP_NOOP w f)"
proof -
  assume r: "ready w f n tab S OP_NOOP"
  then have "flows (map_of tab) (fr_ip f + 1) (fr_sp f) S" by (simp add: ready_def)
  then show ?thesis using readyD[OF r] by (simp add: ok_move[OF r])
qed

lemma LOAD_CONST_ok: "ready w f n tab S OP_LOAD_CONST \<Longrightarrow> ok_exec w f (op_LOAD_CONST w f)"
proof -
  assume r: "ready w f n tab S OP_LOAD_CONST"
  note d = readyD[OF r] and b = base_okD[OF readyD(3)[OF r]]
  obtain i where i: "operand 1 f = Some i" "0 \<le> i" "flows (map_of tab) (fr_ip f + 2) (fr_sp f + 1) S"
    using r by (auto simp: ready_unfold split: if_splits)
  show ?thesis
  proof (cases "fr_constsc f \<le> i")
    case True
    then show ?thesis using i by (simp add: op_LOAD_CONST_def ok_fail[OF r])
  next
    case False
    then have l: "i < int (length (w_pools w (ck_consts (fr_code f))))" using b(5) by (simp add: const_count_def)
    show ?thesis
      using False i by (simp add: op_LOAD_CONST_def slot_in[OF i(2) l])
        (rule ok_push[OF d(3,4) pool_val[OF d(1) i(2) l] i(3) d(6) wext_refl d(1)])
  qed
qed

lemma LOAD_ARG_ok: "ready w f n tab S OP_LOAD_ARG \<Longrightarrow> ok_exec w f (op_LOAD_ARG w f)"
proof -
  assume r: "ready w f n tab S OP_LOAD_ARG"
  note d = readyD[OF r] and b = base_okD[OF readyD(3)[OF r]]
  obtain i where i: "operand 1 f = Some i" "0 \<le> i" "flows (map_of tab) (fr_ip f + 2) (fr_sp f + 1) S"
    using r by (auto simp: ready_unfold split: if_splits)
  show ?thesis
  proof (cases "fr_argc f \<le> i")
    case True
    then show ?thesis using i by (simp add: op_LOAD_ARG_def ok_fail[OF r])
  next
    case False
    then have l: "i < int (length (fr_args f))" using b(6) by simp
    show ?thesis
      using False i by (simp add: op_LOAD_ARG_def slot_in[OF i(2) l])
        (rule ok_push[OF d(3,4) nth_ok[OF b(2) i(2) l] i(3) d(6) wext_refl d(1)])
  qed
qed

lemma LOAD_CLOSEDOVER_ok: "ready w f n tab S OP_LOAD_CLOSEDOVER \<Longrightarrow> ok_exec w f (op_LOAD_CLOSEDOVER w f)"
proof -
  assume r: "ready w f n tab S OP_LOAD_CLOSEDOVER"
  note d = readyD[OF r] and b = base_okD[OF readyD(3)[OF r]]
  obtain i where i: "operand 1 f = Some i" "0 \<le> i" "flows (map_of tab) (fr_ip f + 2) (fr_sp f + 1) S"
    using r by (auto simp: ready_unfold split: if_splits)
  show ?thesis
  proof (cases "int (length (fr_clos f)) \<le> i")
    case True
    then show ?thesis using i by (simp add: op_LOAD_CLOSEDOVER_def ok_fail[OF r])
  next
    case False
    then have l: "i < int (length (fr_clos f))" by simp
    show ?thesis
      using False i by (simp add: op_LOAD_CLOSEDOVER_def slot_in[OF i(2) l])
        (rule ok_push[OF d(3,4) nth_ok[OF b(3) i(2) l] i(3) d(6) wext_refl d(1)])
  qed
qed

lemma popD:
  assumes "ready w f n tab S oc" "1 \<le> fr_sp f"
  shows "fr_pop f = Some (fr_stack f ! nat (fr_sp f - 1), f\<lparr>fr_sp := fr_sp f - 1\<rparr>)"
    and "val_ok w (fr_stack f ! nat (fr_sp f - 1))"
    and "base_ok w (f\<lparr>fr_sp := fr_sp f - 1\<rparr>) n tab"
  using readyD[OF assms(1)] assms(2) stack_val[of w f n tab "fr_sp f - 1"]
  by (auto simp: fr_pop_in base_ok_def)

lemma RETURN_ok: "ready w f n tab S OP_RETURN \<Longrightarrow> ok_exec w f (op_RETURN w f)"
proof -
  assume r: "ready w f n tab S OP_RETURN"
  have sp: "1 \<le> fr_sp f" using r by (auto simp: ready_unfold split: if_splits)
  show ?thesis using popD[OF r sp] readyD(1)[OF r] by (auto simp: op_RETURN_def)
qed

lemma BRANCH_ok:
  assumes r: "ready w f n tab S oc" and oc: "oc = OP_BRANCH_TRUE \<or> oc = OP_BRANCH_FALSE"
  shows "ok_exec w f (op_BRANCH on w f)"
proof -
  obtain off where off: "operand 1 f = Some off" "1 \<le> fr_sp f"
      "flows (map_of tab) (fr_ip f + 2) (fr_sp f - 1) S" "flows (map_of tab) (fr_ip f + off) (fr_sp f - 1) S"
    using r oc by (auto simp: ready_unfold split: if_splits)
  show ?thesis using off popD[OF r off(2)] readyD[OF r]
    by (simp add: op_BRANCH_def ok_move[OF r, of _ S])
qed

lemma JUMP_ok: "ready w f n tab S OP_JUMP \<Longrightarrow> ok_exec w f (op_JUMP w f)"
proof -
  assume r: "ready w f n tab S OP_JUMP"
  then obtain off where off: "operand 1 f = Some off" "flows (map_of tab) (fr_ip f + off) (fr_sp f) S"
    by (auto simp: ready_unfold split: if_splits)
  show ?thesis using off readyD[OF r] by (simp add: op_JUMP_def ok_move[OF r])
qed

lemma POP_ok: "ready w f n tab S OP_POP \<Longrightarrow> ok_exec w f (op_POP w f)"
proof -
  assume r: "ready w f n tab S OP_POP"
  then have f: "1 \<le> fr_sp f" "flows (map_of tab) (fr_ip f + 1) (fr_sp f - 1) S"
    by (auto simp: ready_unfold split: if_splits)
  show ?thesis using f popD[OF r f(1)] readyD[OF r] by (simp add: op_POP_def ok_move[OF r])
qed

lemma POP_N_ok: "ready w f n tab S OP_POP_N \<Longrightarrow> ok_exec w f (op_POP_N w f)"
proof -
  assume r: "ready w f n tab S OP_POP_N"
  then obtain m where m: "operand 1 f = Some m" "0 \<le> m" "m + 1 \<le> fr_sp f"
      "flows (map_of tab) (fr_ip f + 2) (fr_sp f - m) S"
    by (auto simp: ready_unfold split: if_splits)
  note d = readyD[OF r]
  have sp: "1 \<le> fr_sp f" using m by simp
  show ?thesis using m popD[OF r sp] d
    by (simp add: op_POP_N_def) (rule ok_push[of _ _ n tab S], auto)
qed

lemma DUP_NTH_ok: "ready w f n tab S OP_DUP_NTH \<Longrightarrow> ok_exec w f (op_DUP_NTH w f)"
proof -
  assume r: "ready w f n tab S OP_DUP_NTH"
  then obtain m where m: "operand 1 f = Some m" "0 \<le> m" "m < fr_sp f"
      "flows (map_of tab) (fr_ip f + 2) (fr_sp f + 1) S"
    by (auto simp: ready_unfold split: if_splits)
  note d = readyD[OF r]
  have i: "0 \<le> fr_sp f - 1 - m" "fr_sp f - 1 - m < int (length (fr_stack f))" using m d by auto
  show ?thesis using m
    by (simp add: op_DUP_NTH_def fr_nth_def slot_in[OF i])
      (rule ok_push[OF d(3,4) stack_val[OF d(3) i] m(4) d(6) wext_refl d(1)])
qed

section \<open>Vars and closures\<close>

lemma deref_val: "world_ok w \<Longrightarrow> val_ok w (deref ec v (w_dyn w))"
proof -
  assume "world_ok w"
  then have d: "\<forall>x. vc_root (d_var (w_dyn w) v) = Some x \<longrightarrow> val_ok w x"
    "\<forall>x\<in>set (root_bind (w_dyn w) v). val_ok w x"
    and c: "\<And>c. \<forall>x\<in>snd ` set (d_chain (w_dyn w) c). val_ok w x"
    unfolding world_ok_def dyn_vals_ok_def by blast+
  have r: "val_ok w (Root v (w_dyn w))" using d by (auto simp: Root_def split: option.split)
  have cu: "bs_current v b = Some x \<Longrightarrow> x \<in> snd ` set b" for b x
    by (induction b) (auto split: if_splits)
  have cv: "bs_current v (d_chain (w_dyn w) c) = Some x \<Longrightarrow> val_ok w x" for c x
    using cu c by blast
  show ?thesis using d r cv
    by (cases ec) (auto simp: deref_def derefRoot_def rootDerefHead_def split: option.splits list.splits if_splits)
qed

lemma dyn_vals_SetRoot: "dyn_vals_ok w d \<Longrightarrow> val_ok w x \<Longrightarrow> dyn_vals_ok w (SetRoot same v x d)"
  by (auto simp: dyn_vals_ok_def SetRoot_def updateGuard_def swap_deviated_def Let_def split: option.splits if_splits)

lemma dyn_vals_armTrace: "dyn_vals_ok w (armTraceIfTruthy v x d) = dyn_vals_ok w d"
  by (simp add: dyn_vals_ok_def)

lemma replaceTop_vals: "replaceTopBinding b v x = Some c \<Longrightarrow> set c \<subseteq> insert (v, x) (set b)"
  by (induction b arbitrary: c) (auto split: if_splits)

lemma dyn_vals_setBinding:
  assumes d: "dyn_vals_ok w d" and x: "val_ok w x" and s: "setBinding ec v x d = Some d'"
  shows "dyn_vals_ok w d'"
proof (cases ec)
  case None
  then obtain y ys where y: "root_bind d v = y # ys" "d' = store_rootBind v (x # ys) d"
    using s by (auto simp: setBinding_def rootSetCurrent_def split: list.splits)
  have "\<forall>z\<in>set (root_bind d v). val_ok w z" using d unfolding dyn_vals_ok_def by blast
  then have "\<forall>z\<in>set ys. val_ok w z" using y(1) by simp
  then show ?thesis using d x y(2) by (simp add: dyn_vals_ok_def)
next
  case (Some c)
  then obtain b where b: "replaceTopBinding (d_chain d c) v x = Some b" "d' = set_chain c b d"
    using s by (auto simp: setBinding_def bs_setCurrent_def)
  have "\<forall>f\<in>insert (v, x) (set (d_chain d c)). val_ok w (snd f)" using d x by (simp add: dyn_vals_ok_def)
  then have "\<forall>y\<in>snd ` set b. val_ok w y" using replaceTop_vals[OF b(1)] by blast
  then show ?thesis using d b(2) by (simp add: dyn_vals_ok_def)
qed

lemma world_ok_dyn: "world_ok w \<Longrightarrow> dyn_vals_ok w d \<Longrightarrow> world_ok (w\<lparr>w_dyn := d\<rparr>) \<and> wext w (w\<lparr>w_dyn := d\<rparr>)"
proof -
  assume w: "world_ok w" "dyn_vals_ok w d"
  have e: "wext w (w\<lparr>w_dyn := d\<rparr>)" by (rule wext_same) simp_all
  show ?thesis using w e val_ok_wext(1)[OF e] dyn_vals_wext[OF e] unfolding world_ok_def by simp
qed

lemma SET_VAR_ok: "ready w f n tab S OP_SET_VAR \<Longrightarrow> ok_exec w f (op_SET_VAR H w f)"
proof -
  assume r: "ready w f n tab S OP_SET_VAR"
  then have f: "2 \<le> fr_sp f" "flows (map_of tab) (fr_ip f + 1) (fr_sp f - 1) S"
    by (auto simp: ready_unfold split: if_splits)
  note d = readyD[OF r]
  let ?f1 = "f\<lparr>fr_sp := fr_sp f - 1\<rparr>" and ?f2 = "f\<lparr>fr_sp := fr_sp f - 2\<rparr>"
  let ?val = "fr_stack f ! nat (fr_sp f - 1)" and ?varr = "fr_stack f ! nat (fr_sp f - 2)"
  have p1: "fr_pop f = Some (?val, ?f1)" and v1: "val_ok w ?val" using popD[OF r] f by auto
  have p2: "fr_pop ?f1 = Some (?varr, ?f2)" using f d by (simp add: fr_pop_in)
  have v2: "val_ok w ?varr" using stack_val[OF d(3), of "fr_sp f - 2"] f d by simp
  show ?thesis
  proof (cases "\<exists>v. ?varr = VarV v")
    case True
    then obtain v where v: "?varr = VarV v" by blast
    define dd where "dd = armTraceIfTruthy v ?val (case setBinding (fr_ec f) v ?val (w_dyn w) of
        Some d' \<Rightarrow> d' | None \<Rightarrow> SetRoot (ho_same H) v ?val (w_dyn w))"
    have "dyn_vals_ok w (w_dyn w)" using d(1) by (simp add: world_ok_def)
    then have "dyn_vals_ok w dd"
      using v1 dyn_vals_SetRoot dyn_vals_setBinding by (auto simp: dd_def dyn_vals_armTrace split: option.split)
    note ext = world_ok_dyn[OF d(1) this]
    have b: "base_ok (w\<lparr>w_dyn := dd\<rparr>) ?f2 n tab"
      using base_ok_wext[of w "w\<lparr>w_dyn := dd\<rparr>" f] ext d(3) by simp
    show ?thesis
      using p1 p2 v f d ext
      by (simp add: op_SET_VAR_def dd_def[symmetric]) (rule ok_push[OF b], auto)
  next
    case False
    then show ?thesis using p1 p2 by (cases ?varr) (auto simp: op_SET_VAR_def intro: ok_fail[OF r])
  qed
qed

lemma LOAD_VAR_ok: "ready w f n tab S OP_LOAD_VAR \<Longrightarrow> ok_exec w f (op_LOAD_VAR w f)"
proof -
  assume r: "ready w f n tab S OP_LOAD_VAR"
  let ?P = "w_pools w (ck_consts (fr_code f))"
  obtain i where i: "operand 1 f = Some i" "is_var (slot ?P i)"
      "flows (map_of tab) (fr_ip f + 2) (fr_sp f + 1) S"
    using r by (auto simp: ready_unfold split: if_splits)
  then obtain v where v: "slot ?P i = Some (VarV v)" by (cases "slot ?P i" rule: is_var.cases) (auto simp del: slot_eq_Some)
  note d = readyD[OF r]
  show ?thesis using i v
    by (simp add: op_LOAD_VAR_def ok_fail[OF r] del: slot_eq_Some)
      (rule impI, rule ok_push[OF d(3,4) deref_val[OF d(1)] i(3) d(6) wext_refl d(1)])
qed

lemma MakeClosure_ok:
  assumes w: "world_ok w" and v: "val_ok w v" and m: "MakeClosure v w = Some (cl, w')"
  shows "world_ok w'" "wext w w'" "val_ok w' cl"
proof -
  have w': "w' = w\<lparr>w_clos := w_clos w @ [[]]\<rparr>" and cl: "cl = ClosureV (length (w_clos w)) v"
    using m by (cases v; auto)+
  show e: "wext w w'" by (simp add: w' wext_def)
  show "world_ok w'" using w val_ok_wext(1)[OF e] dyn_vals_wext[OF e] by (auto simp: world_ok_def w')
  have "val_ok w' v" using val_ok_wext(1)[OF e v] .
  then show "val_ok w' cl" by (simp add: cl w')
qed

lemma MAKE_CLOSURE_ok: "ready w f n tab S OP_MAKE_CLOSURE \<Longrightarrow> ok_exec w f (op_MAKE_CLOSURE w f)"
proof -
  assume r: "ready w f n tab S OP_MAKE_CLOSURE"
  then have f: "1 \<le> fr_sp f" "flows (map_of tab) (fr_ip f + 1) (fr_sp f) S"
    by (auto simp: ready_unfold split: if_splits)
  note d = readyD[OF r]
  let ?v = "fr_stack f ! nat (fr_sp f - 1)"
  have i: "0 \<le> fr_sp f - 1" "fr_sp f - 1 < int (length (fr_stack f))" using f d by auto
  show ?thesis
  proof (cases "MakeClosure ?v w")
    case None
    then show ?thesis using f by (simp add: op_MAKE_CLOSURE_def slot_in[OF i] ok_fail[OF r] Let_def del: slot_eq_Some)
  next
    case (Some p)
    obtain cl w' where p: "p = (cl, w')" by force
    note mc = MakeClosure_ok[OF d(1) popD(2)[OF r f(1)] Some[unfolded p]]
    note b = base_ok_wext[OF mc(2) d(3)]
    have "base_ok w' (f\<lparr>fr_stack := (fr_stack f)[nat (fr_sp f - 1) := cl]\<rparr>) n tab"
      by (rule base_ok_new[OF b]) (use base_okD[OF b] stack_upd_ok[OF base_okD(1)[OF b] mc(3)] in simp_all)
    then have "frame_ok w' (advance 1 (f\<lparr>fr_stack := (fr_stack f)[nat (fr_sp f - 1) := cl]\<rparr>))"
      by (intro frame_okI[of _ _ n tab S]) (use f d in simp_all)
    then show ?thesis using Some f mc
      by (auto simp: op_MAKE_CLOSURE_def slot_in[OF i] put_slot_in[OF i] p Let_def simp del: slot_eq_Some)
  qed
qed

lemma PUSH_CLOSEDOVER_ok: "ready w f n tab S OP_PUSH_CLOSEDOVER \<Longrightarrow> ok_exec w f (op_PUSH_CLOSEDOVER H w f)"
proof -
  assume r: "ready w f n tab S OP_PUSH_CLOSEDOVER"
  then have f: "2 \<le> fr_sp f" "flows (map_of tab) (fr_ip f + 1) (fr_sp f - 1) S"
    by (auto simp: ready_unfold split: if_splits)
  note d = readyD[OF r]
  let ?f1 = "f\<lparr>fr_sp := fr_sp f - 1\<rparr>" and ?val = "fr_stack f ! nat (fr_sp f - 1)" and ?cls = "fr_stack f ! nat (fr_sp f - 2)"
  have p1: "fr_pop f = Some (?val, ?f1)" and v1: "val_ok w ?val" using popD[OF r] f by auto
  have i: "0 \<le> fr_sp f - 2" "fr_sp f - 2 < int (length (fr_stack f))" using f d by auto
  have v2: "val_ok w ?cls" using stack_val[OF d(3) i] .
  show ?thesis
  proof (cases "\<exists>c fn. ?cls = ClosureV c fn")
    case True
    then obtain c fn where c: "?cls = ClosureV c fn" by blast
    then have l: "c < length (w_clos w)" using v2 by simp
    define w' where "w' = w\<lparr>w_clos := (w_clos w)[c := w_clos w ! c @ [?val]]\<rparr>"
    have e: "wext w w'" by (simp add: w'_def wext_def)
    have "\<forall>cl\<in>set (w_clos w). \<forall>v\<in>set cl. val_ok w v" using d(1) by (simp add: world_ok_def)
    then have "\<forall>cl\<in>insert (w_clos w ! c @ [?val]) (set (w_clos w)). \<forall>v\<in>set cl. val_ok w v"
      using v1 l by auto
    moreover have "set (w_clos w') \<subseteq> insert (w_clos w ! c @ [?val]) (set (w_clos w))"
      using set_update_subset_insert[of "w_clos w" c] by (simp add: w'_def)
    ultimately have "\<forall>cl\<in>set (w_clos w'). \<forall>v\<in>set cl. val_ok w v" by blast
    then have "\<forall>cl\<in>set (w_clos w'). \<forall>v\<in>set cl. val_ok w' v"
      using val_ok_wext(1)[OF e] by blast
    moreover have "\<forall>p. \<forall>v\<in>set (w_pools w' p). val_ok w' v" "dyn_vals_ok w' (w_dyn w')"
      using d(1) val_ok_wext(1)[OF e] dyn_vals_wext[OF e] by (simp_all add: world_ok_def w'_def)
    ultimately have "world_ok w'" by (simp add: world_ok_def)
    moreover have "frame_ok w' (advance 1 ?f1)"
      using frame_okI[of w' "advance 1 ?f1" n tab S] f d base_ok_wext[OF e popD(3)[OF r]] by simp
    ultimately show ?thesis using e f c l p1
      by (auto simp: op_PUSH_CLOSEDOVER_def slot_in[OF i] nth_opt_in_range w'_def[symmetric] Let_def
          simp del: slot_eq_Some)
  next
    case False
    then show ?thesis using p1 f
      by (cases ?cls) (auto simp: op_PUSH_CLOSEDOVER_def slot_in[OF i] Let_def simp del: slot_eq_Some intro: ok_fail[OF r])
  qed
qed

section \<open>Calls\<close>

definition target_ok :: "'h world \<Rightarrow> bytecodeCallTarget \<Rightarrow> bool" where
  "target_ok w t \<longleftrightarrow> (\<exists>tab. check_chunk (w_pools w (ck_consts (bt_chunk t))) (int (length (bt_args t))) (bt_chunk t) tab) \<and>
     (\<forall>v\<in>set (bt_args t) \<union> set (bt_closedOvers t). val_ok w v)"

lemma variantFor_ok:
  assumes "val_ok w (MultiV fns rest a nm)" "val_ok w display"
  shows "case variantFor H w display fns rest n of Inl e \<Rightarrow> err_ok w e | Inr f \<Rightarrow> val_ok w f"
proof -
  have "val_ok w f" if "map_of fns k = Some f" for k f
    using assms(1) map_of_SomeD[OF that] by force
  then show ?thesis using assms by (auto simp: variantFor_def split: option.splits)
qed

lemma unwrap_ok:
  "world_ok w \<Longrightarrow> val_ok w display \<Longrightarrow> val_ok w f \<Longrightarrow> \<forall>v\<in>set clos. val_ok w v \<Longrightarrow>
   (case unwrapBytecodeFn H w display n clos f of
      Inl e \<Rightarrow> err_ok w e
    | Inr None \<Rightarrow> True
    | Inr (Some (t, c)) \<Rightarrow> is_Func t \<and> val_ok w t \<and> (\<forall>v\<in>set c. val_ok w v))"
proof (induction H w display n clos f rule: unwrapBytecodeFn.induct)
  case (2 H w display n clos fns rest a nm)
  then show ?case using variantFor_ok[OF 2(4,3), of H n]
    by (cases "variantFor H w display fns rest n") auto
next
  case (3 H w display n clos c f)
  have "\<forall>v\<in>set (case nth_opt (w_clos w) c of Some xs \<Rightarrow> xs | None \<Rightarrow> []). val_ok w v"
  proof (cases "nth_opt (w_clos w) c")
    case (Some xs)
    show ?thesis unfolding Some using 3(2) nth_opt_mem[OF Some] by (simp add: world_ok_def)
  next
    case None
    show ?thesis unfolding None by simp
  qed
  then show ?case using 3 by simp
qed auto

lemma resolve_ok:
  assumes w: "world_ok w" and fn: "val_ok w fn" and args: "\<forall>v\<in>set args. val_ok w v"
  shows "case resolveBytecodeCall H w fn args of
      Panic \<Rightarrow> False | Err e \<Rightarrow> err_ok w e | Ok None \<Rightarrow> True | Ok (Some t) \<Rightarrow> target_ok w t"
proof (cases "unwrapBytecodeFn H w fn (length args) [] fn")
  case (Inl e)
  then show ?thesis using unwrap_ok[OF w fn fn, of "[]" H "length args"] by (simp add: resolveBytecodeCall_def)
next
  case (Inr r)
  show ?thesis
  proof (cases r)
    case None
    then show ?thesis using Inr by (simp add: resolveBytecodeCall_def)
  next
    case (Some p)
    obtain t clos where p: "p = (t, clos)" by force
    have t: "is_Func t" "val_ok w t" "\<forall>v\<in>set clos. val_ok w v"
      using unwrap_ok[OF w fn fn, of "[]" H "length args"] Inr Some p by auto
    then obtain nm a v c where f: "t = FuncV nm a v c" by (cases t) auto
    have ty: "typed_fn (w_pools w (ck_consts c)) a v c" using t f by simp
    show ?thesis
    proof (cases v)
      case False
      then show ?thesis using Inr Some p f ty t fn args
        by (auto simp: resolveBytecodeCall_def typed_fn_def target_ok_def Let_def)
    next
      case True
      show ?thesis
      proof (cases "int (length args) < a - 1")
        case True
        then show ?thesis using Inr Some p f \<open>v\<close> fn by (auto simp: resolveBytecodeCall_def Let_def)
      next
        case False
        have a: "0 \<le> a - 1" using ty \<open>v\<close> by (simp add: typed_fn_def)
        let ?rest = "take (nat (int (length args) - (a - 1))) (drop (nat (a - 1)) args)"
        let ?fixed = "take (nat (a - 1)) args"
        have s: "slice args (a - 1) (int (length args)) = Some ?rest" "slice args 0 (a - 1) = Some ?fixed"
          using a False by (simp_all add: slice_in)
        have len: "int (length (?fixed @ [boxRest ?rest])) = a" using a False by simp
        have "\<forall>v\<in>set ?rest. val_ok w v" "\<forall>v\<in>set ?fixed. val_ok w v"
          using args by (auto dest: in_set_takeD in_set_dropD)
        then have "\<forall>v\<in>set (?fixed @ [boxRest ?rest]). val_ok w v" by (auto simp: boxRest_def)
        then have "target_ok w \<lparr>bt_chunk = c, bt_args = ?fixed @ [boxRest ?rest], bt_closedOvers = clos\<rparr>"
          using ty t(3) len by (auto simp: typed_fn_def target_ok_def simp del: length_append)
        then show ?thesis using Inr Some p f False s \<open>v\<close>
          by (simp add: resolveBytecodeCall_def Let_def)
      qed
    qed
  qed
qed

lemma newFrame_ok:
  assumes "target_ok w t"
  shows "frame_ok w (newFrameForBytecodeCall w t ec)"
proof -
  obtain tab where c: "check_chunk (w_pools w (ck_consts (bt_chunk t))) (int (length (bt_args t))) (bt_chunk t) tab"
    and v: "\<forall>v\<in>set (bt_args t) \<union> set (bt_closedOvers t). val_ok w v"
    using assms by (auto simp: target_ok_def)
  have "base_ok w (newFrameForBytecodeCall w t ec) (int (length (bt_args t))) tab"
    using c v by (auto simp: base_ok_def newFrameForBytecodeCall_def initFrame_def pending_ok_def)
  then show ?thesis
    using c by (intro frame_okI[of _ _ _ tab "[]"])
      (auto simp: newFrameForBytecodeCall_def initFrame_def flows_def check_chunk_def)
qed

lemma install_ok:
  assumes t: "target_ok w t" and b: "base_ok w f n tab" and h: "fr_handlers f = []"
  shows "frame_ok w (installBytecodeCall w f t)"
proof -
  obtain tb where c: "check_chunk (w_pools w (ck_consts (bt_chunk t))) (int (length (bt_args t))) (bt_chunk t) tb"
    and v: "\<forall>v\<in>set (bt_args t) \<union> set (bt_closedOvers t). val_ok w v"
    using t by (auto simp: target_ok_def)
  have "\<forall>v\<in>set (take k (fr_stack f)). val_ok w v" for k
    using base_okD(1)[OF b] by (auto dest: in_set_takeD)
  then have "base_ok w (installBytecodeCall w f t) (int (length (bt_args t))) tb"
    using c v h by (auto simp: base_ok_def installBytecodeCall_def pending_ok_def)
  then show ?thesis
    using c h by (intro frame_okI[of _ _ _ tb "[]"])
      (auto simp: installBytecodeCall_def flows_def check_chunk_def)
qed

lemma ec_Invoke_ok:
  "host_ok H \<Longrightarrow> world_ok w \<Longrightarrow> val_ok w f \<Longrightarrow> \<forall>a\<in>set args. val_ok w a \<Longrightarrow>
   good_result w (\<lambda>v w'. val_ok w' v) (ec_Invoke H ec args w f)"
proof (induction H ec args w f rule: ec_Invoke.induct)
  case (2 H ec args w fns rest a nm)
  then show ?case using variantFor_ok[OF 2(4) 2(4), of H "length args"]
    by (cases "variantFor H w (MultiV fns rest a nm) fns rest (length args)") (auto simp: good_result_def)
next
  case (3 H ec args w c fns rest a nm)
  have "val_ok w (MultiV fns rest a nm)" using 3(4) by simp
  then show ?case using 3 variantFor_ok[OF _ 3(4), of fns rest a nm H "length args"]
    by (cases "variantFor H w (ClosureV c (MultiV fns rest a nm)) fns rest (length args)") (auto simp: good_result_def)
qed (auto simp: host_ok_def good_result_def)

lemma suspended_okI:
  assumes "frame_at w f n tab S" "slot (ck_code (fr_code f)) (fr_ip f) = Some inst"
    "decode inst \<in> {Some OP_INVOKE, Some OP_TAIL_CALL}" "operand 1 f = Some m" "0 \<le> m" "m + 1 \<le> fr_sp f"
  shows "suspended_ok w f"
  using assms unfolding suspended_ok_def frame_ok_def by blast

text \<open>The part that both call instructions share: callee and arguments.\<close>

lemma call_args:
  assumes r: "ready w f n tab S oc" and m: "0 \<le> m" "m + 1 \<le> fr_sp f"
  shows "\<exists>fn a. fr_nth m f = Some fn \<and> val_ok w fn \<and> (\<forall>v\<in>set a. val_ok w v) \<and>
    (if 0 < m then fr_mult 0 m f else Some []) = Some a"
proof -
  note d = readyD[OF r]
  have i: "0 \<le> fr_sp f - 1 - m" "fr_sp f - 1 - m < int (length (fr_stack f))" using m d by auto
  have s: "fr_mult 0 m f = Some (take (nat m) (drop (nat (fr_sp f - m)) (fr_stack f)))"
    using m d by (simp add: fr_mult_def slice_in)
  have "\<forall>v\<in>set (take (nat m) (drop (nat (fr_sp f - m)) (fr_stack f))). val_ok w v"
    using base_okD(1)[OF d(3)] by (auto dest: in_set_takeD in_set_dropD)
  then show ?thesis using stack_val[OF d(3) i] s i by (auto simp: fr_nth_def slot_in)
qed

lemma native_ok:
  assumes r: "ready w f n tab S oc" and H: "host_ok H" and m: "0 \<le> m" "m + 1 \<le> fr_sp f"
    and fl: "flows (map_of tab) (fr_ip f + 2) (fr_sp f - m) S"
    and fn: "val_ok w fn" "\<forall>v\<in>set a. val_ok w v" and f0: "fr_handlers f0 = fr_handlers f" "base_ok w f0 = base_ok w f" "fr_code f0 = fr_code f"
  shows "ok_exec w f (case ec_Invoke H ec a w fn of
      (Panic, w') \<Rightarrow> None
    | (Err e, w') \<Rightarrow> Some (Raise f0 (wrapCallErr fn e) w')
    | (Ok out, w') \<Rightarrow> fr_push out (fr_drop (m + 1) f) \<bind> (\<lambda>f'. Some (Next (advance 2 f') w')))"
proof -
  note d = readyD[OF r]
  obtain res w' where res: "ec_Invoke H ec a w fn = (res, w')" by force
  have g: "wext w w'" "world_ok w'" "case res of Ok v \<Rightarrow> val_ok w' v | Err e \<Rightarrow> err_ok w' e | Panic \<Rightarrow> False"
    using ec_Invoke_ok[OF H d(1) fn(1) fn(2), of ec] res
    by (auto simp: good_result_def split: outcome.splits)
  show ?thesis
  proof (cases res)
    case (Ok out)
    have "base_ok w' (fr_drop (m + 1) f) n tab" using base_ok_wext[OF g(1) d(3)] by simp
    then show ?thesis using res Ok g d m fl
      by simp (rule ok_push[of _ _ n tab S], auto)
  next
    case (Err e)
    have "raisable w f0" using d(5) f0 by (simp add: raisable_def)
    then show ?thesis using res Err g raisable_wext[OF g(1)] by auto
  qed (use g in simp)
qed

lemma INVOKE_ok:
  assumes r: "ready w f n tab S OP_INVOKE" and H: "host_ok H"
    and inst: "slot (ck_code (fr_code f)) (fr_ip f) = Some inst" "decode inst = Some OP_INVOKE"
  shows "ok_exec w f (op_INVOKE H w f)"
proof -
  note d = readyD[OF r]
  obtain m where m: "operand 1 f = Some m" "0 \<le> m" "m + 1 \<le> fr_sp f"
      "flows (map_of tab) (fr_ip f + 2) (fr_sp f - m) S"
    using r by (auto simp: ready_unfold split: if_splits)
  obtain fn a where a: "fr_nth m f = Some fn" "val_ok w fn" "\<forall>v\<in>set a. val_ok w v"
      "(if 0 < m then fr_mult 0 m f else Some []) = Some a"
    using call_args[OF r m(2,3)] by blast
  have m0: "(if 0 < m then m else 0) = m" using m by simp
  have sus: "suspended_ok w f" by (rule suspended_okI[OF d(2) inst(1)]) (use inst m in simp_all)
  have nat: "ok_exec w f (case ec_Invoke H (fr_ec f) a w fn of
      (Panic, w') \<Rightarrow> None
    | (Err e, w') \<Rightarrow> Some (Raise (if 0 < m then f else fr_drop 1 f) (wrapCallErr fn e) w')
    | (Ok out, w') \<Rightarrow> fr_push out (fr_drop (m + 1) f) \<bind> (\<lambda>f'. Some (Next (advance 2 f') w')))"
    by (rule native_ok[OF r H m(2,3,4) a(2,3)]) auto
  show ?thesis
  proof (cases "AsFn H w fn")
    case False
    then show ?thesis using m a m0 by (simp add: op_INVOKE_def Let_def ok_fail[OF r])
  next
    case True
    have x: "op_INVOKE H w f = (case resolveBytecodeCall H w fn a of
          Panic \<Rightarrow> None
        | Err e \<Rightarrow> Some (Raise f (wrapCallErr fn e) w)
        | Ok (Some target) \<Rightarrow> Some (Enter f (newFrameForBytecodeCall w target (fr_ec f)) w)
        | Ok None \<Rightarrow> (case ec_Invoke H (fr_ec f) a w fn of
            (Panic, w') \<Rightarrow> None
          | (Err e, w') \<Rightarrow> Some (Raise (if 0 < m then f else fr_drop 1 f) (wrapCallErr fn e) w')
          | (Ok out, w') \<Rightarrow> fr_push out (fr_drop (m + 1) f) \<bind> (\<lambda>f'. Some (Next (advance 2 f') w'))))"
      using True m(1) a m0 by (simp only: op_INVOKE_def Let_def bind.bind_lunit) simp
    note res = resolve_ok[OF d(1) a(2,3), of H]
    show ?thesis
    proof (cases "resolveBytecodeCall H w fn a")
      case (Ok t)
      show ?thesis
      proof (cases t)
        case None
        show ?thesis unfolding x Ok None using nat by (simp only: outcome.case option.case)
      next
        case (Some target)
        then have "target_ok w target" using res Ok by simp
        then show ?thesis unfolding x Ok Some
          using ok_results(2)[OF wext_refl d(1) sus newFrame_ok] by simp
      qed
    qed (use res d(1,5) x in auto)
  qed
qed

lemma TAIL_CALL_ok:
  assumes r: "ready w f n tab S OP_TAIL_CALL" and H: "host_ok H"
    and inst: "slot (ck_code (fr_code f)) (fr_ip f) = Some inst" "decode inst = Some OP_TAIL_CALL"
  shows "ok_exec w f (op_TAIL_CALL H w f)"
proof -
  note d = readyD[OF r]
  obtain m where m: "operand 1 f = Some m" "0 \<le> m" "m + 1 \<le> fr_sp f" "S = []"
      "flows (map_of tab) (fr_ip f + 2) (fr_sp f - m) S"
    using r by (auto simp: ready_unfold split: if_splits)
  obtain fn a where a: "fr_nth m f = Some fn" "val_ok w fn" "\<forall>v\<in>set a. val_ok w v"
      "(if 0 < m then fr_mult 0 m f else Some []) = Some a"
    using call_args[OF r m(2,3)] by blast
  have h: "fr_handlers f = []" using d(4) m(4) by simp
  have sus: "suspended_ok w f" by (rule suspended_okI[OF d(2) inst(1)]) (use inst m in simp_all)
  have nat: "ok_exec w f (case ec_Invoke H (fr_ec f) a w fn of
      (Panic, w') \<Rightarrow> None
    | (Err e, w') \<Rightarrow> Some (Raise f (wrapCallErr fn e) w')
    | (Ok out, w') \<Rightarrow> fr_push out (fr_drop (m + 1) f) \<bind> (\<lambda>f'. Some (Next (advance 2 f') w')))"
    by (rule native_ok[OF r H m(2,3,5) a(2,3)]) auto
  show ?thesis
  proof (cases "AsFn H w fn")
    case False
    then show ?thesis using m a by (simp add: op_TAIL_CALL_def Let_def ok_fail[OF r])
  next
    case True
    have x: "op_TAIL_CALL H w f = (case resolveBytecodeCall H w fn a of
          Panic \<Rightarrow> None
        | Err e \<Rightarrow> Some (Raise f (wrapCallErr fn e) w)
        | Ok (Some target) \<Rightarrow>
            if is_Func fn then Some (Next (installBytecodeCall w f target) w)
            else Some (Enter f (newFrameForBytecodeCall w target (fr_ec f)) w)
        | Ok None \<Rightarrow> (case ec_Invoke H (fr_ec f) a w fn of
            (Panic, w') \<Rightarrow> None
          | (Err e, w') \<Rightarrow> Some (Raise f (wrapCallErr fn e) w')
          | (Ok out, w') \<Rightarrow> fr_push out (fr_drop (m + 1) f) \<bind> (\<lambda>f'. Some (Next (advance 2 f') w'))))"
      using True m(1) a by (simp only: op_TAIL_CALL_def Let_def) simp
    note res = resolve_ok[OF d(1) a(2,3), of H]
    show ?thesis
    proof (cases "resolveBytecodeCall H w fn a")
      case (Ok t)
      show ?thesis
      proof (cases t)
        case None
        show ?thesis unfolding x Ok None using nat by (simp only: outcome.case option.case)
      next
        case (Some target)
        then have "target_ok w target" using res Ok by simp
        then show ?thesis unfolding x Ok Some
          using ok_results(2)[OF wext_refl d(1) sus newFrame_ok]
            ok_results(1)[OF wext_refl d(1) install_ok[OF _ d(3) h]] by simp
      qed
    qed (use res d(1,5) x in auto)
  qed
qed

lemma RECUR_FN_ok: "ready w f n tab S OP_RECUR_FN \<Longrightarrow> ok_exec w f (op_RECUR_FN w f)"
proof -
  assume r: "ready w f n tab S OP_RECUR_FN"
  then obtain m where m: "operand 1 f = Some m" "0 \<le> m" "m \<le> fr_sp f" "m \<le> n" "S = []"
      "flows (map_of tab) 0 0 []"
    by (auto simp: ready_unfold split: if_splits)
  note d = readyD[OF r]
  let ?a = "take (nat m) (drop (nat (fr_sp f - m)) (fr_stack f))"
  have s: "fr_mult 0 m f = Some ?a" using m d by (simp add: fr_mult_def slice_in)
  have "\<forall>v\<in>set ?a. val_ok w v" using base_okD(1)[OF d(3)] by (auto dest: in_set_takeD in_set_dropD)
  then have "\<forall>v\<in>set (copy (fr_args f) ?a). val_ok w v"
    using set_copy[of "fr_args f" ?a] base_okD(2)[OF d(3)] by blast
  then have "base_ok w (f\<lparr>fr_args := copy (fr_args f) ?a, fr_argc := m, fr_sp := 0, fr_ip := 0\<rparr>) n tab"
    using d(3) m(4) by (auto simp: base_ok_def)
  then show ?thesis
    using m s d by (simp add: op_RECUR_FN_def) (rule ok_move[OF r, of _ "[]"], auto)
qed

lemma pushMult_ok:
  assumes b: "base_ok w f n tab" and vs: "\<forall>v\<in>set vs. val_ok w v"
    and sp: "0 \<le> fr_sp f" "fr_sp f + int (length vs) \<le> int (length (fr_stack f))"
  obtains g where "fr_pushMult vs f = Some g" "base_ok w g n tab" "fr_sp g = fr_sp f + int (length vs)"
    "fr_ip g = fr_ip f" "fr_handlers g = fr_handlers f"
proof -
  let ?tail = "drop (nat (fr_sp f)) (fr_stack f)"
  have sl: "slice (fr_stack f) (fr_sp f) (int (length (fr_stack f))) = Some ?tail"
    using sp by (simp add: slice_in)
  let ?s = "take (nat (fr_sp f)) (fr_stack f) @ copy ?tail vs"
  let ?g = "f\<lparr>fr_stack := ?s, fr_sp := fr_sp f + int (length vs)\<rparr>"
  have "set ?s \<subseteq> set (fr_stack f) \<union> set vs"
    using set_copy[of ?tail vs] by (auto dest: in_set_takeD in_set_dropD)
  then have "\<forall>v\<in>set ?s. val_ok w v" using vs base_okD(1)[OF b] by blast
  then have "base_ok w ?g n tab"
    by (intro base_ok_new[OF b]) (use base_okD[OF b] sp in simp_all)
  then show ?thesis by (intro that[of ?g]) (simp_all add: fr_pushMult_def sl)
qed

lemma RECUR_ok: "ready w f n tab S OP_RECUR \<Longrightarrow> ok_exec w f (op_RECUR w f)"
proof -
  assume r: "ready w f n tab S OP_RECUR"
  then obtain off m ign where m: "operand 1 f = Some off" "operand 2 f = Some m" "operand 3 f = Some ign"
      "0 \<le> m" "0 \<le> ign" "2 * m + ign \<le> fr_sp f" "flows (map_of tab) (fr_ip f - off) (fr_sp f - m - ign) S"
    by (auto simp: ready_unfold split: if_splits)
  note d = readyD[OF r]
  let ?a = "take (nat m) (drop (nat (fr_sp f - m)) (fr_stack f))"
  have s: "fr_mult 0 m f = Some ?a" using m d by (simp add: fr_mult_def slice_in)
  have a: "\<forall>v\<in>set ?a. val_ok w v" using base_okD(1)[OF d(3)] by (auto dest: in_set_takeD in_set_dropD)
  have len: "int (length ?a) = m" using m d by simp
  obtain g where g: "fr_pushMult ?a (fr_drop (m * 2 + ign) f) = Some g" "base_ok w g n tab"
      "fr_sp g = fr_sp f - (m * 2 + ign) + m" "fr_ip g = fr_ip f" "fr_handlers g = fr_handlers f"
    using pushMult_ok[of w "fr_drop (m * 2 + ign) f" n tab ?a] a d m len by auto
  have "ok_exec w f (Some (Next (advance (- off) g) w))"
  proof (rule ok_move[OF r, of _ S])
    have "fr_sp f - m - ign = fr_sp g" using g(3) by simp
    then show "flows (map_of tab) (fr_ip (advance (- off) g)) (fr_sp (advance (- off) g)) S"
      using m(7) g(4) by simp
  qed (use g d in simp_all)
  then show ?thesis using m(1-3) s g(1) by (simp add: op_RECUR_def)
qed

lemma add_arm_ok: "val_ok w ma \<Longrightarrow> val_ok w f \<Longrightarrow> val_ok w (add_arm H w ma f)"
proof (cases ma)
  case (MultiV fns rest a nm)
  assume v: "val_ok w ma" "val_ok w f"
  have "\<forall>x\<in>snd ` set fns. val_ok w x" using v MultiV by simp
  then have "\<forall>x\<in>snd ` set (AList.update k f fns). val_ok w x" for k
    using v(2) by (induction fns) auto
  then show ?thesis using v MultiV by (auto simp: Let_def)
qed simp_all

lemma MakeMultiArity_ok:
  assumes "\<forall>v\<in>set fns. val_ok w v"
  shows "case MakeMultiArity H w fns of Inl e \<Rightarrow> err_ok w e | Inr v \<Rightarrow> val_ok w v"
proof -
  have "val_ok w ma \<Longrightarrow> \<forall>v\<in>set fns. val_ok w v \<Longrightarrow>
      (case make_arms H w ma fns of Inl e \<Rightarrow> err_ok w e | Inr v \<Rightarrow> val_ok w v)" for ma
    by (induction fns arbitrary: ma) (auto simp: add_arm_ok)
  then show ?thesis using assms by (simp add: MakeMultiArity_def)
qed

lemma MAKE_MULTI_ARITY_ok: "ready w f n tab S OP_MAKE_MULTI_ARITY \<Longrightarrow> ok_exec w f (op_MAKE_MULTI_ARITY H w f)"
proof -
  assume r: "ready w f n tab S OP_MAKE_MULTI_ARITY"
  then obtain m where m: "operand 1 f = Some m" "1 \<le> m" "m \<le> fr_sp f"
      "flows (map_of tab) (fr_ip f + 2) (fr_sp f - m + 1) S"
    by (auto simp: ready_unfold split: if_splits)
  note d = readyD[OF r]
  let ?a = "take (nat m) (drop (nat (fr_sp f - m)) (fr_stack f))"
  have s: "fr_mult 0 m f = Some ?a" using m d by (simp add: fr_mult_def slice_in)
  have "\<forall>v\<in>set ?a. val_ok w v" using base_okD(1)[OF d(3)] by (auto dest: in_set_takeD in_set_dropD)
  note mk = MakeMultiArity_ok[OF this, of H]
  have "length ?a = nat m" using m d by simp
  then have "multiArityAt H w ?a = Some (MakeMultiArity H w ?a)" using m by (auto simp: multiArityAt_def)
  then have x: "op_MAKE_MULTI_ARITY H w f = (case MakeMultiArity H w ?a of
      Inl e \<Rightarrow> Some (Fail (f\<lparr>fr_sp := fr_sp f - m\<rparr>) (ExecutionError (Msg ''MAKE_MULTI_ARITY failed'') (Some e)) w)
    | Inr fn \<Rightarrow> fr_push fn (f\<lparr>fr_sp := fr_sp f - m\<rparr>) \<bind> (\<lambda>f2. Some (Next (advance 2 f2) w)))"
    using m(1) s by (simp add: op_MAKE_MULTI_ARITY_def Let_def)
  show ?thesis
  proof (cases "MakeMultiArity H w ?a")
    case (Inl e)
    then show ?thesis using mk unfolding x by (auto intro: ok_fail[OF r])
  next
    case (Inr fn)
    show ?thesis unfolding x Inr using mk Inr m d
      by simp (rule ok_push[of _ _ n tab S], auto)
  qed
qed

section \<open>Exceptions\<close>

lemma TRY_PUSH_ok: "ready w f n tab S OP_TRY_PUSH \<Longrightarrow> ok_exec w f (op_TRY_PUSH w f)"
proof -
  assume r: "ready w f n tab S OP_TRY_PUSH"
  then obtain co fo where m: "operand 1 f = Some co" "operand 2 f = Some fo"
      "flows (map_of tab) (fr_ip f + 3) (fr_sp f)
        (Armed (if co \<noteq> 0 then fr_ip f + co else - 1) (if fo \<noteq> 0 then fr_ip f + fo else - 1) (fr_sp f) # S)"
    by (auto simp: ready_unfold split del: if_split)
  note d = readyD[OF r]
  have b: "base_ok w (f\<lparr>fr_handlers := h # fr_handlers f\<rparr>) n tab" if "h_pending h = None" for h
    by (rule base_ok_new[OF d(3)]) (use base_okD[OF d(3)] that in \<open>auto simp: pending_ok_def\<close>)
  show ?thesis
    using m d by (simp add: op_TRY_PUSH_def Let_def split del: if_split) (rule ok_move[OF r], auto intro!: b)
qed

lemma TRY_POP_ok: "ready w f n tab S OP_TRY_POP \<Longrightarrow> ok_exec w f (op_TRY_POP w f)"
proof -
  assume r: "ready w f n tab S OP_TRY_POP"
  then obtain c fi s S' where m: "S = Armed c fi s # S'" "flows (map_of tab) (fr_ip f + 1) (fr_sp f) S'"
    by (auto simp: ready_unfold split: list.splits hty.splits)
  note d = readyD[OF r]
  obtain h hs where h: "fr_handlers f = h # hs" "hmatch S' hs" using d(4) m(1) by (auto split: list.splits)
  have b: "base_ok w (f\<lparr>fr_handlers := hs\<rparr>) n tab"
    by (rule base_ok_new[OF d(3)]) (use base_okD[OF d(3)] h in \<open>auto simp: pending_ok_def\<close>)
  show ?thesis
    using m d h b by (simp add: op_TRY_POP_def) (rule ok_move[OF r, of _ S'], auto)
qed

lemma THROW_ok: "ready w f n tab S OP_THROW \<Longrightarrow> ok_exec w f (op_THROW w f)"
proof -
  assume r: "ready w f n tab S OP_THROW"
  have sp: "1 \<le> fr_sp f" using r by (auto simp: ready_unfold split: if_splits)
  show ?thesis using popD[OF r sp] readyD[OF r] by (auto simp: op_THROW_def)
qed

lemma hmatch_pending_head:
  assumes "hmatch S (h # hs)" "h_pending h \<noteq> None"
    "\<forall>s. Maybe i s \<notin> set S"
  shows "h_finallyIP h \<noteq> i"
  using assms(1,3)
proof (induction S)
  case (Cons x S)
  then show ?case using assms(2) by (cases x) auto
qed simp

lemma FINALLY_END_ok: "ready w f n tab S OP_FINALLY_END \<Longrightarrow> ok_exec w f (op_FINALLY_END w f)"
proof -
  assume r: "ready w f n tab S OP_FINALLY_END"
  then obtain fi s S' off where m: "S = Maybe fi s # S'" "operand 1 f = Some off" "fi = fr_ip f + off"
      "\<forall>s. Maybe fi s \<notin> set S'"
      "flows (map_of tab) (fr_ip f + 2) (fr_sp f) S'"
    by (force simp: ready_unfold split: list.splits hty.splits if_splits)
  note d = readyD[OF r]
  have next_ok: "ok_exec w f (Some (Next (advance 2 f) w))" if "hmatch S' (fr_handlers f)"
    using that m d by (intro ok_move[OF r, of _ S']) auto
  show ?thesis
  proof (cases "fr_handlers f")
    case Nil
    then show ?thesis using next_ok d(4) m(1) by (simp add: op_FINALLY_END_def)
  next
    case (Cons h hs)
    show ?thesis
    proof (cases "h_pending h")
      case None
      then show ?thesis using next_ok d(4) m(1) Cons by (simp add: op_FINALLY_END_def)
    next
      case (Some e)
      show ?thesis
      proof (cases "h_finallyIP h = fi")
        case True
        then have hs: "hmatch S' hs"
          using d(4) m(1) Cons Some hmatch_pending_head[of S' h hs] m(4) by auto
        have p: "pending_ok w hs" "err_ok w e"
          using base_okD(4)[OF d(3)] Cons Some by (auto simp: pending_ok_def)
        have b: "base_ok w (f\<lparr>fr_handlers := hs\<rparr>) n tab"
          by (rule base_ok_new[OF d(3)]) (use base_okD[OF d(3)] p in simp_all)
        have "map_of tab (fr_ip f) = Some (fr_sp f, S)" using d(2) by (simp add: frame_at_def)
        then have "entries_ok (map_of tab) (int (stack_len (fr_code f))) S"
          using d(3) check_depth unfolding base_ok_def by blast
        then have "raisable w (f\<lparr>fr_handlers := hs\<rparr>)"
          using b hs m(1) by (auto simp: raisable_def)
        then show ?thesis using Cons Some True m p d by (auto simp: op_FINALLY_END_def)
      next
        case False
        then have "hmatch S' (fr_handlers f)" using d(4) m(1) Cons by auto
        then show ?thesis using next_ok Cons Some False m by (simp add: op_FINALLY_END_def)
      qed
    qed
  qed
qed

section \<open>Arithmetic\<close>

definition value_ok :: "'h world \<Rightarrow> (vm_err, vv) outcome \<Rightarrow> bool" where
  "value_ok w r \<longleftrightarrow> (case r of Ok v \<Rightarrow> val_ok w v | Err e \<Rightarrow> err_ok w e | Panic \<Rightarrow> True)"

lemma num2_ok:
  "(\<And>x. val_ok w (box x)) \<Longrightarrow> val_ok w a \<Longrightarrow> val_ok w b \<Longrightarrow> value_ok w (num2 what num box a b)"
  by (auto simp: num2_def value_ok_def split: option.split outcome.split)

lemmas int_op_defs = checked_op_def compare_op_def quot_op_def unchecked_op_def bit_op_def div_op_def
  equal_op_def bit_not_op_def inc_op_def dec_op_def

lemma binary_op_ok:
  assumes g: "binary_op H w oc = Some g" and H: "host_ok H" "world_ok w" and a: "val_ok w a" and b: "val_ok w b"
  shows "value_ok w (g a b)"
proof -
  have get: "value_ok w (ho_aget H a b w)"
  proof -
    have "good_result w (\<lambda>v w'. val_ok w' v) (ho_aget H a b w, w)"
      using H a b unfolding host_ok_def by blast
    then show ?thesis by (simp add: good_result_def value_ok_def split: outcome.splits)
  qed
  have num: "value_ok w (num2 what num Prim a b)" "value_ok w (num2 what cmp BoolV a b)" for what num cmp
    by (rule num2_ok; use a b in simp)+
  have lit: "value_ok w (Ok (Prim x))" "value_ok w (Err (ExecutionError (Msg m) None))" "value_ok w (Err (PlainError m))"
    "value_ok w Panic" for x m
    by (simp_all add: value_ok_def)
  show ?thesis
    using g by (cases oc) (auto simp: int_op_defs num lit get split: option.split)
qed

lemma unary_op_ok: "unary_op oc = Some g \<Longrightarrow> val_ok w a \<Longrightarrow> value_ok w (g a)"
proof -
  assume g: "unary_op oc = Some g" "val_ok w a"
  have num: "value_ok w (num2 what num Prim a (IntV 1))" for what num
    by (rule num2_ok) (use g(2) in simp_all)
  have lit: "value_ok w (Ok (Prim x))" "value_ok w (Err (ExecutionError (Msg m) None))" "value_ok w (Err (PlainError m))" for x m
    by (simp_all add: value_ok_def)
  show ?thesis
    using g(1) by (cases oc) (auto simp: int_op_defs num lit split: option.split)
qed

text \<open>The operands at which the numeric tower itself panics (a BigDecimal beside NaN, a ratio
  divided by the machine integer zero, see \<open>LG_Numbers\<close>).\<close>

definition numeric_panic :: "'h host \<Rightarrow> 'h world \<Rightarrow> frame \<Rightarrow> bool" where
  "numeric_panic H w f \<longleftrightarrow> (\<exists>inst oc. slot (ck_code (fr_code f)) (fr_ip f) = Some inst \<and> decode inst = Some oc \<and>
     ((\<exists>g. binary_op H w oc = Some g \<and>
         g (fr_stack f ! nat (fr_sp f - 2)) (fr_stack f ! nat (fr_sp f - 1)) = Panic) \<or>
      (\<exists>g. unary_op oc = Some g \<and> g (fr_stack f ! nat (fr_sp f - 1)) = Panic)))"

lemma ready_binary:
  "ready w f n tab S oc \<Longrightarrow> binary_op H w oc = Some g \<Longrightarrow>
   2 \<le> fr_sp f \<and> flows (map_of tab) (fr_ip f + 1) (fr_sp f - 1) S"
  by (cases oc) (auto simp: ready_unfold split: if_splits)

lemma ready_unary:
  "ready w f n tab S oc \<Longrightarrow> unary_op oc = Some g \<Longrightarrow>
   1 \<le> fr_sp f \<and> flows (map_of tab) (fr_ip f + 1) (fr_sp f) S"
  by (cases oc) (auto simp: ready_unfold split: if_splits)

lemma stack_put_ok:
  assumes "base_ok w f n tab" "val_ok w v"
  shows "base_ok w (f\<lparr>fr_stack := (fr_stack f)[i := v]\<rparr>) n tab"
    and "base_ok w (f\<lparr>fr_stack := (fr_stack f)[i := v], fr_sp := sp\<rparr>) n tab"
  by (rule base_ok_new[OF assms(1)]; use base_okD[OF assms(1)] stack_upd_ok[OF base_okD(1)[OF assms(1)] assms(2)] in simp)+

lemma binary_ok:
  assumes r: "ready w f n tab S oc" and g: "binary_op H w oc = Some g" and H: "host_ok H"
  shows "ok_exec w f (op_binary g w f) \<or>
    g (fr_stack f ! nat (fr_sp f - 2)) (fr_stack f ! nat (fr_sp f - 1)) = Panic"
proof -
  note d = readyD[OF r] and s = ready_binary[OF r g]
  let ?b = "fr_stack f ! nat (fr_sp f - 1)" and ?a = "fr_stack f ! nat (fr_sp f - 2)"
  have i: "0 \<le> fr_sp f - 1" "fr_sp f - 1 < int (length (fr_stack f))"
    "0 \<le> fr_sp f - 2" "fr_sp f - 2 < int (length (fr_stack f))" using s d by auto
  have v: "value_ok w (g ?a ?b)"
    using binary_op_ok[OF g H d(1)] stack_val[OF d(3) i(1,2)] stack_val[OF d(3) i(3,4)] by simp
  have x: "op_binary g w f = (case g ?a ?b of
        Panic \<Rightarrow> None
      | Err e \<Rightarrow> Some (Raise f e w)
      | Ok r \<Rightarrow> Some (Next (advance 1 (f\<lparr>fr_stack := (fr_stack f)[nat (fr_sp f - 2) := r], fr_sp := fr_sp f - 1\<rparr>)) w))"
    by (simp add: op_binary_def slot_in[OF i(1,2)] slot_in[OF i(3,4)] put_slot_in[OF i(3,4)] del: slot_eq_Some split: outcome.split)
  show ?thesis
  proof (cases "g ?a ?b")
    case (Ok v1)
    then have b: "base_ok w (f\<lparr>fr_stack := (fr_stack f)[nat (fr_sp f - 2) := v1], fr_sp := fr_sp f - 1\<rparr>) n tab"
      using v by (intro stack_put_ok(2)[OF d(3)]) (simp add: value_ok_def)
    show ?thesis unfolding x Ok using b s d by simp (rule ok_move[OF r, of _ S], auto)
  next
    case (Err e)
    then show ?thesis unfolding x using v d by (auto simp: value_ok_def)
  qed simp
qed

lemma unary_ok:
  assumes r: "ready w f n tab S oc" and g: "unary_op oc = Some g"
  shows "ok_exec w f (op_unary g w f) \<or> g (fr_stack f ! nat (fr_sp f - 1)) = Panic"
proof -
  note d = readyD[OF r] and s = ready_unary[OF r g]
  let ?a = "fr_stack f ! nat (fr_sp f - 1)"
  have i: "0 \<le> fr_sp f - 1" "fr_sp f - 1 < int (length (fr_stack f))" using s d by auto
  have v: "value_ok w (g ?a)" by (rule unary_op_ok[OF g stack_val[OF d(3) i]])
  have x: "op_unary g w f = (case g ?a of
        Panic \<Rightarrow> None
      | Err e \<Rightarrow> Some (Raise f e w)
      | Ok r \<Rightarrow> Some (Next (advance 1 (f\<lparr>fr_stack := (fr_stack f)[nat (fr_sp f - 1) := r]\<rparr>)) w))"
    by (simp add: op_unary_def slot_in[OF i] put_slot_in[OF i] del: slot_eq_Some split: outcome.split)
  show ?thesis
  proof (cases "g ?a")
    case (Ok v1)
    then have b: "base_ok w (f\<lparr>fr_stack := (fr_stack f)[nat (fr_sp f - 1) := v1]\<rparr>) n tab"
      using v by (intro stack_put_ok(1)[OF d(3)]) (simp add: value_ok_def)
    show ?thesis unfolding x Ok using b s d by simp (rule ok_move[OF r, of _ S], auto)
  next
    case (Err e)
    then show ?thesis unfolding x using v d by (auto simp: value_ok_def)
  qed simp
qed

lemma ASET_ok:
  assumes r: "ready w f n tab S OP_ASET" and H: "host_ok H"
  shows "ok_exec w f (op_ASET H w f)"
proof -
  note d = readyD[OF r]
  have s: "3 \<le> fr_sp f" "flows (map_of tab) (fr_ip f + 1) (fr_sp f - 2) S"
    using r by (auto simp: ready_unfold split: if_splits)
  let ?v = "fr_stack f ! nat (fr_sp f - 1)" and ?i = "fr_stack f ! nat (fr_sp f - 2)"
    and ?a = "fr_stack f ! nat (fr_sp f - 3)"
  have i: "0 \<le> fr_sp f - 1" "fr_sp f - 1 < int (length (fr_stack f))"
    "0 \<le> fr_sp f - 2" "fr_sp f - 2 < int (length (fr_stack f))"
    "0 \<le> fr_sp f - 3" "fr_sp f - 3 < int (length (fr_stack f))" using s d by auto
  note vals = stack_val[OF d(3) i(1,2)] stack_val[OF d(3) i(3,4)] stack_val[OF d(3) i(5,6)]
  obtain res w' where res: "ho_aset H ?a ?i ?v w = (res, w')" by force
  have g: "wext w w'" "world_ok w'" "case res of Ok v \<Rightarrow> True | Err e \<Rightarrow> err_ok w' e | Panic \<Rightarrow> False"
  proof -
    have "good_result w (\<lambda>v w'. True) (ho_aset H ?a ?i ?v w)"
      using H d(1) vals unfolding host_ok_def by blast
    then show "wext w w'" "world_ok w'" "case res of Ok v \<Rightarrow> True | Err e \<Rightarrow> err_ok w' e | Panic \<Rightarrow> False"
      using res by (auto simp: good_result_def split: outcome.splits)
  qed
  have x: "op_ASET H w f = (case res of
        Panic \<Rightarrow> None
      | Err e \<Rightarrow> Some (Raise f e w')
      | Ok _ \<Rightarrow> Some (Next (advance 1 (f\<lparr>fr_stack := (fr_stack f)[nat (fr_sp f - 3) := ?v], fr_sp := fr_sp f - 2\<rparr>)) w'))"
    by (simp add: op_ASET_def slot_in[OF i(1,2)] slot_in[OF i(3,4)] slot_in[OF i(5,6)] put_slot_in[OF i(5,6)] res
        del: slot_eq_Some split: outcome.split)
  show ?thesis
  proof (cases res)
    case (Ok u)
    have b: "base_ok w' (f\<lparr>fr_stack := (fr_stack f)[nat (fr_sp f - 3) := ?v], fr_sp := fr_sp f - 2\<rparr>) n tab"
      by (rule stack_put_ok(2)[OF base_ok_wext[OF g(1) d(3)] val_ok_wext(1)[OF g(1) vals(1)]])
    have "frame_ok w' (advance 1 (f\<lparr>fr_stack := (fr_stack f)[nat (fr_sp f - 3) := ?v], fr_sp := fr_sp f - 2\<rparr>))"
      by (rule frame_okI[of _ _ n tab S]) (use b s d in simp_all)
    then show ?thesis unfolding x Ok using g by auto
  next
    case (Err e)
    then show ?thesis unfolding x using g raisable_wext[OF g(1) d(5)] by auto
  qed (use g in simp)
qed

section \<open>The machine\<close>

lemma exec_ok:
  assumes w: "world_ok w" and f: "frame_ok w f" and H: "host_ok H"
  shows "ok_exec w f (exec H w f) \<or> numeric_panic H w f"
proof -
  obtain n tab S where at: "frame_at w f n tab S" using f by (auto simp: frame_ok_def)
  then have c: "check_chunk (w_pools w (ck_consts (fr_code f))) n (fr_code f) tab"
    and m: "map_of tab (fr_ip f) = Some (fr_sp f, S)" by (auto simp: frame_at_def base_ok_def)
  note wt = check_depth[OF c m]
  obtain inst where inst: "slot (ck_code (fr_code f)) (fr_ip f) = Some inst"
    using wt by (auto simp: wt_instr_def split: option.splits)
  show ?thesis
  proof (cases "decode inst")
    case None
    then show ?thesis using inst w by (auto simp: exec_def simp del: slot_eq_Some)
  next
    case (Some oc)
    have r: "ready w f n tab S oc"
      using wt at w Some inst by (auto simp: ready_def wt_instr_def list_all_iff simp del: slot_eq_Some split: option.splits)
    have x: "exec H w f = exec_op H oc w f" using inst Some by (simp add: exec_def del: slot_eq_Some)
    have bin: "ok_exec w f (exec_op H oc w f) \<or> numeric_panic H w f"
      if "binary_op H w oc = Some g" "exec_op H oc w f = op_binary g w f" for g
      using binary_ok[OF r that(1) H] that inst Some unfolding numeric_panic_def by auto
    have un: "ok_exec w f (exec_op H oc w f) \<or> numeric_panic H w f"
      if "unary_op oc = Some g" "exec_op H oc w f = op_unary g w f" for g
      using unary_ok[OF r that(1)] that inst Some unfolding numeric_panic_def by auto
    have "ok_exec w f (exec_op H oc w f) \<or> numeric_panic H w f"
      using r bin un INVOKE_ok[OF _ H inst] TAIL_CALL_ok[OF _ H inst] Some
      by (cases oc)
        (simp_all add: LOAD_CONST_ok LOAD_ARG_ok RETURN_ok BRANCH_ok JUMP_ok POP_ok POP_N_ok DUP_NTH_ok
          SET_VAR_ok LOAD_VAR_ok MAKE_CLOSURE_ok LOAD_CLOSEDOVER_ok PUSH_CLOSEDOVER_ok RECUR_FN_ok RECUR_ok
          MAKE_MULTI_ARITY_ok TRY_PUSH_ok TRY_POP_ok THROW_ok FINALLY_END_ok ASET_ok[OF _ H] NOOP_ok[simplified])
    then show ?thesis using x by simp
  qed
qed

lemma suspended_arity:
  assumes "suspended_ok w f"
  shows "\<exists>m n tab S. suspendedCallArity f = Ok m \<and> 0 \<le> m \<and> m + 1 \<le> fr_sp f \<and> fr_sp f \<le> int (length (fr_stack f)) \<and>
    frame_at w f n tab S \<and> flows (map_of tab) (fr_ip f + 2) (fr_sp f - m) S"
proof -
  obtain n tab S inst m where at: "frame_at w f n tab S"
    and inst: "slot (ck_code (fr_code f)) (fr_ip f) = Some inst" "decode inst \<in> {Some OP_INVOKE, Some OP_TAIL_CALL}"
    and m: "operand 1 f = Some m" "0 \<le> m" "m + 1 \<le> fr_sp f"
    using assms unfolding suspended_ok_def frame_ok_def by blast
  have c: "check_chunk (w_pools w (ck_consts (fr_code f))) n (fr_code f) tab"
    and mo: "map_of tab (fr_ip f) = Some (fr_sp f, S)" using at by (auto simp: frame_at_def base_ok_def)
  have fl: "flows (map_of tab) (fr_ip f + 2) (fr_sp f - m) S"
    using check_depth[OF c mo] inst m(1)
    by (auto simp: wt_instr_def operand_argw bind_eq_Some_conv simp del: slot_eq_Some split: if_splits)
  note dp = frame_at_depth[OF at]
  have "0 \<le> fr_ip f" "fr_ip f + 1 < int (length (ck_code (fr_code f)))" "decode (ck_code (fr_code f) ! nat (fr_ip f)) = decode inst"
    "sint (ck_code (fr_code f) ! nat (fr_ip f + 1)) = m"
    using inst m(1) by (auto simp: operand_argw argw_def)
  then have "suspendedCallArity f = Ok m"
    using inst(2) m dp by (auto simp: suspendedCallArity_def Let_def)
  then show ?thesis using at fl m dp by blast
qed

lemma wrapCallSite_ok:
  assumes "suspended_ok w p" "err_ok w e"
  shows "\<exists>e'. wrapCallSite H w p e = Some e' \<and> err_ok w e'"
proof -
  obtain m where m: "suspendedCallArity p = Ok m" "0 \<le> m" "m + 1 \<le> fr_sp p" "fr_sp p \<le> int (length (fr_stack p))"
    using suspended_arity[OF assms(1)] by blast
  have i: "0 \<le> fr_sp p - 1 - m" "fr_sp p - 1 - m < int (length (fr_stack p))" using m by auto
  show ?thesis using m assms(2) by (simp add: wrapCallSite_def slot_in[OF i] Let_def del: slot_eq_Some)
qed

lemma suspended_raisable: "suspended_ok w f \<Longrightarrow> raisable w f"
  unfolding suspended_ok_def frame_ok_def using frame_at_raisable by blast

lemma releaseFailedFrames_ok:
  "world_ok w \<Longrightarrow> err_ok w e \<Longrightarrow> list_all (suspended_ok w) ps \<Longrightarrow> machine_ok (releaseFailedFrames H ps e w)"
proof (induction H ps e w rule: releaseFailedFrames.induct)
  case (2 H p ps err w)
  obtain e' where e': "wrapCallSite H w p err = Some e'" "err_ok w e'" using wrapCallSite_ok 2 by fastforce
  obtain r where r: "handleError e' p = Some r" "\<forall>f'. r = Some f' \<longrightarrow> frame_ok w f'"
    using handleError_ok[OF suspended_raisable e'(2)] 2 by fastforce
  show ?case
  proof (cases r)
    case None
    then show ?thesis using 2 e' r by simp
  next
    case (Some f')
    then show ?thesis using 2 e' r by simp
  qed
qed simp

lemma raise_ok:
  "world_ok w \<Longrightarrow> raisable w f \<Longrightarrow> err_ok w e \<Longrightarrow> list_all (suspended_ok w) ps \<Longrightarrow> machine_ok (raise H f ps e w)"
  using handleError_ok[of w f e] releaseFailedFrames_ok[of w e ps H]
  by (auto simp: raise_def split: option.split)

lemma resume_ok:
  assumes w: "world_ok w" and p: "suspended_ok w p" and v: "val_ok w v" and ps: "list_all (suspended_ok w) ps"
  shows "machine_ok (resume H p ps v w)"
proof -
  obtain m n tab S where m: "suspendedCallArity p = Ok m" "0 \<le> m" "m + 1 \<le> fr_sp p"
      "frame_at w p n tab S" "flows (map_of tab) (fr_ip p + 2) (fr_sp p - m) S"
    using suspended_arity[OF p] by blast
  have b: "base_ok w (fr_drop (m + 1) p) n tab" "hmatch S (fr_handlers (fr_drop (m + 1) p))"
    using m(4) by (simp_all add: frame_at_def)
  obtain f' where "fr_push v (fr_drop (m + 1) p) = Some f'" "frame_ok w (advance 2 f')"
    using push_ok[OF b v, of 2] m by auto
  then show ?thesis using m(1) w ps by (simp add: resume_def)
qed

theorem step_ok:
  assumes H: "host_ok H" and m: "machine_ok m"
  shows "machine_ok (step H m) \<or> (\<exists>f ps w. m = Running f ps w \<and> numeric_panic H w f)"
proof (cases m)
  case (Running f ps w)
  have ok: "world_ok w" "frame_ok w f" "list_all (suspended_ok w) ps" using m Running by auto
  have ps: "list_all (suspended_ok w') ps" if "wext w w'" for w'
    using ok(3) suspended_ok_wext[OF that] by (auto simp: list_all_iff)
  show ?thesis
  proof (cases "numeric_panic H w f")
    case False
    then obtain x where x: "exec H w f = Some x" "res_ok w f x"
      using exec_ok[OF ok(1,2) H] by (auto simp: ok_exec_def)
    have "machine_ok (deliver H ps w (Some x))"
    proof (cases x)
      case (Next f' w')
      then show ?thesis using x(2) ps by (simp add: res_ok_def)
    next
      case (Enter p c w')
      then show ?thesis using x(2) ps by (simp add: res_ok_def)
    next
      case (Return v f' w')
      then have "world_ok w'" "val_ok w' v" "list_all (suspended_ok w') ps" using x(2) ps by (simp_all add: res_ok_def)
      then show ?thesis using Return by (cases ps) (simp_all add: resume_ok)
    next
      case (Raise f' e w')
      then show ?thesis using x(2) ps by (simp add: res_ok_def raise_ok)
    next
      case (Fail f' e w')
      then show ?thesis using x(2) ps by (simp add: res_ok_def releaseFailedFrames_ok)
    qed
    then show ?thesis using Running x(1) by simp
  qed (use Running in blast)
qed (use m in simp)

end
