(* ===== verification/LG_HostPanic.thy ===== *)
theory LG_HostPanic
  imports LG_VMSafe
begin

text \<open>
  Panics of the host. A native function of \<open>pkg/vm\<close> may panic in Go (\<open>thrownPanic\<close> of
  \<open>errors.go\<close>, raised for instance when a lazy sequence fails in \<open>lazy_seq.go\<close>), and the
  dispatch loop does not recover it. \<open>recovering\<close> is the host with such panics
  replaced by errors; the machine over the host and the machine over the recovering host go the same way
  until an instruction panics because its call of the host did (\<open>host_panic\<close>). So what
  holds of a host that does not panic holds of every host up to that instruction.
\<close>

definition recovering :: "'h host \<Rightarrow> 'h host" where
  "recovering H = H\<lparr>
     ho_invoke := (\<lambda>fn ec args w. if fst (ho_invoke H fn ec args w) = Panic then (Err (PlainError ''panic''), w) else ho_invoke H fn ec args w),
     ho_equals := (\<lambda>a b w. if ho_equals H a b w = None then Some False else ho_equals H a b w),
     ho_aget := (\<lambda>a b w. if ho_aget H a b w = Panic then Err (PlainError ''panic'') else ho_aget H a b w),
     ho_aset := (\<lambda>a b c w. if fst (ho_aset H a b c w) = Panic then (Err (PlainError ''panic''), w) else ho_aset H a b c w)\<rparr>"

definition host_panic :: "'h host \<Rightarrow> 'h world \<Rightarrow> frame \<Rightarrow> bool" where
  "host_panic H w f \<longleftrightarrow> exec H w f = None \<and> exec (recovering H) w f \<noteq> None"

section \<open>What does not call the host is the same\<close>

lemma recovering_simps [simp]:
  "ho_is_fn (recovering H) = ho_is_fn H" "ho_satisfies_IFn (recovering H) = ho_satisfies_IFn H" "ho_arity (recovering H) = ho_arity H"
  "ho_FuncType (recovering H) = ho_FuncType H" "ho_same (recovering H) = ho_same H"
  by (simp_all add: recovering_def)

lemma recovering_AsFn [simp]: "AsFn (recovering H) w v = AsFn H w v"
  by (simp add: AsFn_def)

lemma recovering_wrapCallSite [simp]: "wrapCallSite (recovering H) w f e = wrapCallSite H w f e"
  unfolding wrapCallSite_def recovering_AsFn by (rule refl)

lemma recovering_restMinArgs [simp]: "restMinArgs (recovering H) w v = restMinArgs H w v"
  by (induction H w v rule: restMinArgs.induct) simp_all

lemma recovering_variantFor [simp]: "variantFor (recovering H) w d fns rest n = variantFor H w d fns rest n"
  unfolding variantFor_def recovering_restMinArgs by (rule refl)

lemma recovering_unwrapBytecodeFn [simp]: "unwrapBytecodeFn (recovering H) w d n c f = unwrapBytecodeFn H w d n c f"
  by (induction H w d n c f rule: unwrapBytecodeFn.induct) (simp_all split: sum.split)

lemma recovering_resolveBytecodeCall [simp]: "resolveBytecodeCall (recovering H) w fn args = resolveBytecodeCall H w fn args"
  by (simp add: resolveBytecodeCall_def)

lemma recovering_vv_Arity [simp]: "vv_Arity (recovering H) w f = vv_Arity H w f"
  by (induction H w f rule: vv_Arity.induct) simp_all

lemma recovering_add_arm [simp]: "add_arm (recovering H) w ma f = add_arm H w ma f"
  by (cases ma) (simp_all add: Let_def)

lemma recovering_make_arms [simp]: "make_arms (recovering H) w ma es = make_arms H w ma es"
  by (induction es arbitrary: ma) simp_all

lemma recovering_instructions [simp]:
  "op_SET_VAR (recovering H) = op_SET_VAR H" "op_PUSH_CLOSEDOVER (recovering H) = op_PUSH_CLOSEDOVER H"
  "op_MAKE_MULTI_ARITY (recovering H) = op_MAKE_MULTI_ARITY H"
  unfolding op_SET_VAR_def op_PUSH_CLOSEDOVER_def op_MAKE_MULTI_ARITY_def multiArityAt_def MakeMultiArity_def
    recovering_simps recovering_make_arms by (rule refl)+

lemma recovering_releaseFailedFrames [simp]: "releaseFailedFrames (recovering H) ps e w = releaseFailedFrames H ps e w"
  by (induction H ps e w rule: releaseFailedFrames.induct) (simp split: option.split)+

lemma recovering_raise [simp]: "raise (recovering H) f ps e w = raise H f ps e w"
  unfolding raise_def recovering_releaseFailedFrames by (rule refl)

lemma recovering_resume [simp]: "resume (recovering H) p ps v w = resume H p ps v w"
  unfolding resume_def recovering_raise by (rule refl)

lemma recovering_deliver: "deliver (recovering H) ps w r = deliver H ps w r"
proof (cases r)
  case (Some x)
  then show ?thesis by (cases x) (simp_all split: list.split)
qed simp

section \<open>What calls the host\<close>

lemma recovering_ho_invoke: "fst (ho_invoke H fn ec args w) = Panic \<or> ho_invoke (recovering H) fn ec args w = ho_invoke H fn ec args w"
  by (simp add: recovering_def)

lemma recovering_ec_Invoke:
  "fst (ec_Invoke H ec args w f) = Panic \<or> ec_Invoke (recovering H) ec args w f = ec_Invoke H ec args w f"
  by (induction H ec args w f rule: ec_Invoke.induct) (auto simp: recovering_ho_invoke split: sum.split)

text \<open>The recovering run of a step, and how it is composed.\<close>

definition refines_panic :: "'a option \<Rightarrow> 'a option \<Rightarrow> bool" where
  "refines_panic m m' \<longleftrightarrow> m = None \<or> m' = m"

lemma refines_panic_rules:
  "refines_panic m m"
  "(\<And>x. refines_panic (k x) (k' x)) \<Longrightarrow> refines_panic (m \<bind> k) (m \<bind> k')"
  "refines_panic a a' \<Longrightarrow> refines_panic b b' \<Longrightarrow> refines_panic (if c then a else b) (if c then a' else b')"
  "refines_panic x x' \<Longrightarrow> refines_panic
     (case r of Panic \<Rightarrow> None | Err e \<Rightarrow> A e | Ok t \<Rightarrow> (case t of Some y \<Rightarrow> B y | None \<Rightarrow> x))
     (case r of Panic \<Rightarrow> None | Err e \<Rightarrow> A e | Ok t \<Rightarrow> (case t of Some y \<Rightarrow> B y | None \<Rightarrow> x'))"
  "refines_panic
     (case ec_Invoke H ec args w fn of (Panic, w') \<Rightarrow> None | (Err e, w') \<Rightarrow> R e w' | (Ok v, w') \<Rightarrow> K v w')
     (case ec_Invoke (recovering H) ec args w fn of (Panic, w') \<Rightarrow> None | (Err e, w') \<Rightarrow> R e w' | (Ok v, w') \<Rightarrow> K v w')"
  using recovering_ec_Invoke[of H ec args w fn]
  by (cases m; auto simp: refines_panic_def split: outcome.split option.split prod.split)+

lemma recovering_calls:
  "refines_panic (op_INVOKE H w f) (op_INVOKE (recovering H) w f)"
  "refines_panic (op_TAIL_CALL H w f) (op_TAIL_CALL (recovering H) w f)"
  unfolding op_INVOKE_def op_TAIL_CALL_def recovering_AsFn recovering_resolveBytecodeCall Let_def
  by (intro refines_panic_rules)+

lemma recovering_ASET: "refines_panic (op_ASET H w f) (op_ASET (recovering H) w f)"
proof -
  have "refines_panic (case ho_aset H a b c w of (Panic, w') \<Rightarrow> None | (Err e, w') \<Rightarrow> R e w' | (Ok v, w') \<Rightarrow> K v w')
     (case ho_aset (recovering H) a b c w of (Panic, w') \<Rightarrow> None | (Err e, w') \<Rightarrow> R e w' | (Ok v, w') \<Rightarrow> K v w')"
    for a b c and R :: "vm_err \<Rightarrow> 'a world \<Rightarrow> 'a res option" and K
    by (auto simp: refines_panic_def recovering_def split: prod.split)
  then show ?thesis unfolding op_ASET_def by (intro refines_panic_rules)
qed

lemma recovering_binary:
  "case binary_op H w oc of None \<Rightarrow> binary_op (recovering H) w oc = None
   | Some g \<Rightarrow> \<exists>g'. binary_op (recovering H) w oc = Some g' \<and> (\<forall>a b. g a b = Panic \<or> g' a b = g a b)"
  by (cases oc) (auto simp: equal_op_def recovering_def split: option.split)

lemma recovering_op_binary:
  fixes w :: "'h world"
  assumes g: "\<forall>a b. g a b = Panic \<or> g' a b = g a b"
  shows "refines_panic (op_binary g w f) (op_binary g' w f)"
proof -
  have "refines_panic (case g a b of Panic \<Rightarrow> None | Err e \<Rightarrow> R e | Ok v \<Rightarrow> K v) (case g' a b of Panic \<Rightarrow> None | Err e \<Rightarrow> R e | Ok v \<Rightarrow> K v)"
    for a b and R :: "vm_err \<Rightarrow> 'h res option" and K :: "vv \<Rightarrow> 'h res option"
    using g[rule_format, of a b] by (auto simp: refines_panic_def)
  then show ?thesis unfolding op_binary_def by (intro refines_panic_rules)
qed

lemma recovering_dispatch:
  "refines_panic
    (case binary_op H w oc of Some g \<Rightarrow> op_binary g w f | None \<Rightarrow> (case unary_op oc of Some g \<Rightarrow> op_unary g w f | None \<Rightarrow> None))
    (case binary_op (recovering H) w oc of Some g \<Rightarrow> op_binary g w f | None \<Rightarrow> (case unary_op oc of Some g \<Rightarrow> op_unary g w f | None \<Rightarrow> None))"
  using recovering_binary[of H w oc] by (auto simp: refines_panic_rules(1) recovering_op_binary split: option.splits)

lemma recovering_exec_op: "refines_panic (exec_op H oc w f) (exec_op (recovering H) oc w f)"
proof (cases oc)
  case (OP_UNCHECKED u)
  then show ?thesis using recovering_dispatch[where H = H and w = w and f = f and oc = "OP_UNCHECKED u"] by simp
qed (use recovering_dispatch[where H = H and w = w and f = f and oc = oc] recovering_calls[of H w f] recovering_ASET[of H w f] in \<open>simp_all add: refines_panic_rules(1)\<close>)

lemma exec_recovering: "exec (recovering H) w f = exec H w f \<or> host_panic H w f"
proof -
  have "refines_panic (exec H w f) (exec (recovering H) w f)"
    unfolding exec_def
  proof (intro refines_panic_rules)
    fix inst
    show "refines_panic (case decode inst of None \<Rightarrow> Some (Fail f (execErr ''unknown instruction'') w) | Some oc \<Rightarrow> exec_op H oc w f)
      (case decode inst of None \<Rightarrow> Some (Fail f (execErr ''unknown instruction'') w) | Some oc \<Rightarrow> exec_op (recovering H) oc w f)"
      by (simp add: refines_panic_rules(1) recovering_exec_op split: option.split)
  qed
  then show ?thesis by (auto simp: refines_panic_def host_panic_def)
qed

lemma numeric_panic_recovering: "numeric_panic (recovering H) w f \<Longrightarrow> numeric_panic H w f"
proof -
  have "\<exists>g. binary_op H w oc = Some g \<and> g a b = Panic" if "binary_op (recovering H) w oc = Some g'" "g' a b = Panic" for oc g' a b
    using recovering_binary[of H w oc] that by (fastforce split: option.splits)
  then show "numeric_panic (recovering H) w f \<Longrightarrow> numeric_panic H w f" unfolding numeric_panic_def by blast
qed

text \<open>A step over the host is a step over the recovering host, up to the host's panic.\<close>

lemma step_recovering: "step (recovering H) (Running f ps w) = step H (Running f ps w) \<or> host_panic H w f"
  using exec_recovering[of H w f] by (auto simp: recovering_deliver)

lemma step_ok_any_host:
  assumes "host_ok (recovering H)" "machine_ok m"
  shows "machine_ok (step H m) \<or> (\<exists>f ps w. m = Running f ps w \<and> (numeric_panic H w f \<or> host_panic H w f))"
proof (cases m)
  case (Running f ps w)
  then show ?thesis
    using step_ok[OF assms] step_recovering[of H f ps w] numeric_panic_recovering by fastforce
next
  case (Halted r w)
  then show ?thesis using assms(2) by simp
qed

end
