(* ===== verification/LG_VMRun.thy ===== *)
theory LG_VMRun
  imports LG_VM
begin

text \<open>
  How runs of the interpreter compose. One dispatch loop drives the whole chain of frames;
  \<open>run_graft\<close> shows that this is the recursive interpreter: a callee runs under suspended
  callers as it runs alone, and its result or error is then delivered to the caller. The rest
  describes the dispatch of errors to handlers, the inline arithmetic beside the numeric
  tower, and the choice of the arm of a multi-arity function.
\<close>

section \<open>A chain of frames runs as nested runs do\<close>

definition finish :: "'h host \<Rightarrow> frame list \<Rightarrow> (vm_err, vv) outcome \<Rightarrow> 'h world \<Rightarrow> 'h machine" where
  "finish H qs r w = (case r of
     Ok v \<Rightarrow> (case qs of [] \<Rightarrow> Halted (Ok v) w | q # qs' \<Rightarrow> resume H q qs' v w)
   | Err e \<Rightarrow> releaseFailedFrames H qs e w
   | Panic \<Rightarrow> Halted Panic w)"

fun graft :: "'h host \<Rightarrow> frame list \<Rightarrow> 'h machine \<Rightarrow> 'h machine" where
  "graft H qs (Running f ps w) = Running f (ps @ qs) w"
| "graft H qs (Halted r w) = finish H qs r w"

lemma graft_releaseFailedFrames:
  "releaseFailedFrames H (ps @ qs) e w = graft H qs (releaseFailedFrames H ps e w)"
  by (induction H ps e w rule: releaseFailedFrames.induct) (auto simp: finish_def split: option.split)

lemma graft_raise: "raise H f (ps @ qs) e w = graft H qs (raise H f ps e w)"
  by (auto simp: raise_def finish_def graft_releaseFailedFrames split: option.split)

lemma graft_resume: "resume H p (ps @ qs) v w = graft H qs (resume H p ps v w)"
  by (auto simp: resume_def finish_def graft_raise split: outcome.split option.split)

lemma graft_deliver: "deliver H (ps @ qs) w r = graft H qs (deliver H ps w r)"
proof (cases r)
  case (Some x)
  show ?thesis
  proof (cases x)
    case (Return v)
    then show ?thesis using Some by (cases ps) (simp_all add: finish_def graft_resume split: list.split)
  next
    case (Raise f e w')
    then show ?thesis using Some by (simp add: graft_raise)
  next
    case (Fail e)
    then show ?thesis using Some by (simp add: graft_releaseFailedFrames)
  qed (use Some in simp_all)
qed (simp add: finish_def)

lemma graft_step: "step H (Running f (ps @ qs) w) = graft H qs (step H (Running f ps w))"
  by (simp add: graft_deliver)

fun running :: "'h machine \<Rightarrow> bool" where
  "running (Running _ _ _) = True"
| "running (Halted _ _) = False"

lemma run_0 [simp]: "run H 0 m = m"
  by (simp add: run_def)

lemma run_Suc: "run H (Suc n) m = step H (run H n m)"
  by (simp add: run_def)

lemma run_add: "run H (m + n) x = run H m (run H n x)"
  by (simp add: run_def funpow_add)

lemma run_graft:
  "\<forall>k<n. running (run H k (Running f ps w)) \<Longrightarrow>
   run H n (Running f (ps @ qs) w) = graft H qs (run H n (Running f ps w))"
proof (induction n)
  case (Suc n)
  obtain f' ps' w' where r: "run H n (Running f ps w) = Running f' ps' w'"
    using Suc.prems by (cases "run H n (Running f ps w)") force+
  have "run H n (Running f (ps @ qs) w) = graft H qs (run H n (Running f ps w))"
    using Suc by simp
  then show ?case by (simp only: run_Suc r graft.simps graft_step)
qed simp

section \<open>Dispatch of errors\<close>

text \<open>A handler that can take an error: not the one whose own abnormal \<open>finally\<close> is running,
  and with a target left.\<close>

definition live :: "handler \<Rightarrow> bool" where
  "live h \<longleftrightarrow> h_pending h = None \<and> (0 \<le> h_catchIP h \<or> 0 \<le> h_finallyIP h)"

definition enter_handler :: "vm_err \<Rightarrow> handler \<Rightarrow> handler list \<Rightarrow> frame \<Rightarrow> frame option" where
  "enter_handler err h hs f =
     (if 0 \<le> h_catchIP h
      then map_option (\<lambda>f'. f'\<lparr>fr_ip := h_catchIP h\<rparr>) (fr_push (errorToValue err)
        (f\<lparr>fr_handlers := (if h_finallyIP h < 0 then hs else h\<lparr>h_catchIP := - 1\<rparr> # hs), fr_sp := h_savedSP h\<rparr>))
      else map_option (\<lambda>f'. f'\<lparr>fr_ip := h_finallyIP h\<rparr>) (fr_push NIL
        (f\<lparr>fr_handlers := h\<lparr>h_pending := Some err\<rparr> # hs, fr_sp := h_savedSP h\<rparr>)))"

lemma handle_with_dropWhile:
  "handle_with err hs f = (case dropWhile (\<lambda>h. \<not> live h) hs of
     [] \<Rightarrow> Some None
   | h # hs' \<Rightarrow> map_option Some (enter_handler err h hs' f))"
  by (induction hs) (auto simp: live_def enter_handler_def map_option_case Let_def split: option.split)

lemma handle_with_skip: "\<forall>h\<in>set hs. \<not> live h \<Longrightarrow> handle_with err (hs @ hs') f = handle_with err hs' f"
  by (induction hs) (auto simp: live_def)

section \<open>Inline arithmetic and the numeric tower\<close>

text \<open>The same result, or both an error (of different text), or both a panic.\<close>

definition agrees :: "(vm_err, vv) outcome \<Rightarrow> (vm_err, vv) outcome \<Rightarrow> bool" where
  "agrees r s \<longleftrightarrow> (case (r, s) of
     (Ok x, Ok y) \<Rightarrow> x = y | (Err _, Err _) \<Rightarrow> True | (Panic, Panic) \<Rightarrow> True | _ \<Rightarrow> False)"

lemma agrees_refl [simp]: "agrees r r"
  by (simp add: agrees_def split: outcome.split)

lemma as_int_Some [simp]: "as_int a = Some x \<longleftrightarrow> a = IntV x"
  by (cases a rule: as_int.cases) auto

text \<open>All inline paths have the one shape: two machine integers, or the tower.\<close>

lemma agrees_inline:
  assumes "\<And>x y. agrees (fast x y) (slow (IntV x) (IntV y))"
  shows "agrees (case (as_int a, as_int b) of (Some x, Some y) \<Rightarrow> fast x y | _ \<Rightarrow> slow a b) (slow a b)"
  using assms by (cases "as_int a"; cases "as_int b") auto

lemma num2_ints:
  "num2 what num box (IntV x) (IntV y) = (case num (VInt x) (VInt y) of
     Ok r \<Rightarrow> Ok (box r) | Err e \<Rightarrow> Err (NumError e) | Panic \<Rightarrow> Panic)"
  by (simp add: num2_def)

lemma agrees_checked:
  assumes "\<And>x y. num (VInt x) (VInt y) = checked (fast x y)"
  shows "agrees (checked_op fast what num a b) (num2 what num Prim a b)"
  unfolding checked_op_def
  by (rule agrees_inline) (simp add: num2_ints assms agrees_def split: option.split)

lemma agrees_compare:
  assumes "\<And>x y. num (VInt x) (VInt y) = Ok (fast x y)"
  shows "agrees (compare_op fast num a b) (num2 ''compare'' num BoolV a b)"
  unfolding compare_op_def by (rule agrees_inline) (simp add: num2_ints assms)

lemma tower_ints:
  "NumAdd (VInt x) (VInt y) = checked (checkedAddInt x y)"
  "NumSub (VInt x) (VInt y) = checked (checkedSubInt x y)"
  "NumMul (VInt x) (VInt y) = checked (checkedMulInt x y)"
  "NumLt (VInt x) (VInt y) = Ok (x <s y)"
  "NumLe (VInt x) (VInt y) = Ok (x \<le>s y)"
  "NumGt (VInt x) (VInt y) = Ok (y <s x)"
  "NumGe (VInt x) (VInt y) = Ok (y \<le>s x)"
  "NumQuot (VInt x) (VInt y) = (if y = 0 then Err EDivideByZero else Ok (VInt (i64_quo x y)))"
  "numUnchecked uop (VInt x) (VInt y) = Ok (uncheckedIntOp uop x y)"
  by (simp_all add: NumAdd_def NumSub_def NumMul_def NumLt_def NumLe_def NumGt_def NumGe_def NumQuot_def
      numUnchecked_def Let_def word_sless_alt word_sle_eq)

lemma agrees_quot: "agrees (quot_op a b) (num2 ''quot'' NumQuot Prim a b)"
  unfolding quot_op_def by (rule agrees_inline) (simp add: num2_ints tower_ints agrees_def)

lemma agrees_unchecked: "agrees (unchecked_op uop a b) (num2 (unchecked_what uop) (numUnchecked uop) Prim a b)"
  unfolding unchecked_op_def by (rule agrees_inline) (simp add: num2_ints tower_ints)

section \<open>The arm of a multi-arity function\<close>

fun bytecode_arm :: "vv \<Rightarrow> (string \<times> int \<times> bool \<times> chunk \<times> nat option) option" where
  "bytecode_arm (FuncV n a v c) = Some (n, a, v, c, None)"
| "bytecode_arm (ClosureV i (FuncV n a v c)) = Some (n, a, v, c, Some i)"
| "bytecode_arm _ = None"

definition takes_rest :: "vv \<Rightarrow> bool" where
  "takes_rest f = (case bytecode_arm f of Some (n, a, v, c, i) \<Rightarrow> v | None \<Rightarrow> False)"

definition arm_arity :: "vv \<Rightarrow> int" where
  "arm_arity f = (case bytecode_arm f of Some (n, a, v, c, i) \<Rightarrow> a | None \<Rightarrow> 0)"

text \<open>The last arm written with that many parameters, else the last rest arm when it has its
  fixed parameters.\<close>

definition chosen_arm :: "vv list \<Rightarrow> int \<Rightarrow> vv option" where
  "chosen_arm arms n = (case find (\<lambda>f. \<not> takes_rest f \<and> arm_arity f = n) (rev arms) of
     Some f \<Rightarrow> Some f
   | None \<Rightarrow> (case find takes_rest (rev arms) of
       Some f \<Rightarrow> if arm_arity f - 1 \<le> n then Some f else None
     | None \<Rightarrow> None))"

definition packed :: "vv \<Rightarrow> vv list \<Rightarrow> vv list" where
  "packed f args = (if takes_rest f
     then take (nat (arm_arity f - 1)) args @ [boxRest (drop (nat (arm_arity f - 1)) args)] else args)"

fun or_else :: "'a option \<Rightarrow> 'a option \<Rightarrow> 'a option" where
  "or_else (Some x) y = Some x"
| "or_else None y = y"

lemma or_else_None [simp]: "or_else x None = x"
  by (cases x) auto

lemma or_else_assoc: "or_else (or_else x y) z = or_else x (or_else y z)"
  by (cases x) auto

lemma find_snoc: "find P (xs @ [y]) = or_else (find P xs) (if P y then Some y else None)"
  by (induction xs) auto

lemma bytecode_arm_cases:
  assumes "bytecode_arm f \<noteq> None"
  obtains n a v c where "f = FuncV n a v c" | i n a v c where "f = ClosureV i (FuncV n a v c)"
  using assms by (cases f rule: bytecode_arm.cases) auto

lemma arm_facts:
  assumes "bytecode_arm f \<noteq> None"
  shows "is_rest_arm f = takes_rest f" "vv_Arity H w f = arm_arity f" "static_fn f"
    "takes_rest f \<Longrightarrow> restMinArgs H w f = arm_arity f - 1"
  by (rule bytecode_arm_cases[OF assms]; simp add: takes_rest_def arm_arity_def)+

lemma make_arms_table:
  assumes "\<forall>f\<in>set arms. bytecode_arm f \<noteq> None"
  shows "\<exists>fns' rest' a' nm'. make_arms H w (MultiV fns rest a nm) arms = Inr (MultiV fns' rest' a' nm') \<and>
    (\<forall>k. map_of fns' k = or_else (find (\<lambda>f. \<not> takes_rest f \<and> arm_arity f = k) (rev arms)) (map_of fns k)) \<and>
    rest' = or_else (find takes_rest (rev arms)) rest"
  using assms
proof (induction arms arbitrary: fns rest a nm)
  case (Cons f arms)
  have f: "bytecode_arm f \<noteq> None" using Cons.prems by simp
  have all: "\<forall>f\<in>set arms. bytecode_arm f \<noteq> None" using Cons.prems by simp
  note facts = arm_facts[OF f]
  obtain nm1 where nm1: "add_arm H w (MultiV fns rest a nm) f =
    (if takes_rest f then MultiV fns (Some f) (max a (arm_arity f)) nm1
     else MultiV (AList.update (arm_arity f) f fns) rest (max a (arm_arity f)) nm1)"
    by (simp add: facts Let_def)
  show ?case
  proof (cases "takes_rest f")
    case True
    from Cons.IH[OF all, of fns "Some f" "max a (arm_arity f)" nm1] show ?thesis
      by (simp only: make_arms.simps facts(3) nm1 True if_True simp_thms if_False)
        (auto simp: find_snoc or_else_assoc True)
  next
    case False
    from Cons.IH[OF all, of "AList.update (arm_arity f) f fns" rest "max a (arm_arity f)" nm1] show ?thesis
      by (simp only: make_arms.simps facts(3) nm1 False if_True simp_thms if_False)
        (auto simp: find_snoc or_else_assoc False update_conv)
  qed
qed simp

lemma unwrap_arm:
  assumes "bytecode_arm f = Some (n, a, v, c, i)"
  shows "unwrapBytecodeFn H w d k [] f = Inr (Some (FuncV n a v c, case i of
     Some j \<Rightarrow> (case nth_opt (w_clos w) j of Some xs \<Rightarrow> xs | None \<Rightarrow> []) | None \<Rightarrow> []))"
  using assms by (cases f rule: bytecode_arm.cases) auto

lemma chosen_arm_mem:
  assumes "chosen_arm arms n = Some f"
  shows "f \<in> set arms" "if takes_rest f then arm_arity f - 1 \<le> n else arm_arity f = n"
  using assms by (auto simp: chosen_arm_def find_Some_iff split: option.splits if_splits
      intro: nth_mem[of _ "rev arms", simplified set_rev length_rev])

lemma MakeMultiArity_variant:
  assumes "\<forall>f\<in>set arms. bytecode_arm f \<noteq> None"
  obtains fns rest a nm where "MakeMultiArity H w arms = Inr (MultiV fns rest a nm)"
    "\<And>d k. variantFor H w d fns rest k = (case chosen_arm arms (int k) of
       Some f \<Rightarrow> Inr f | None \<Rightarrow> Inl (ExecutionError (NoVariant d k) None))"
proof -
  obtain fns rest a nm where m: "MakeMultiArity H w arms = Inr (MultiV fns rest a nm)"
    "\<And>k. map_of fns k = find (\<lambda>f. \<not> takes_rest f \<and> arm_arity f = k) (rev arms)"
    "rest = find takes_rest (rev arms)"
    using make_arms_table[OF assms, of H w "[]" None 0 "''''"]
    by (auto simp: MakeMultiArity_def)
  have "restMinArgs H w f = arm_arity f - 1" if "find takes_rest (rev arms) = Some f" for f
  proof -
    have "f \<in> set arms" "takes_rest f"
      using that by (auto simp: find_Some_iff) (metis length_rev nth_mem set_rev)
    then show ?thesis using assms arm_facts(4) by blast
  qed
  then have "variantFor H w d fns rest k = (case chosen_arm arms (int k) of
       Some f \<Rightarrow> Inr f | None \<Rightarrow> Inl (ExecutionError (NoVariant d k) None))" for d k
    by (auto simp: variantFor_def chosen_arm_def m(2,3) split: option.splits)
  with m(1) that show ?thesis by blast
qed

text \<open>What such a call runs: the arm's chunk on its packed arguments, with the captures.\<close>

definition arm_target :: "'h world \<Rightarrow> vv \<Rightarrow> vv list \<Rightarrow> bytecodeCallTarget option" where
  "arm_target w f args = (case bytecode_arm f of None \<Rightarrow> None | Some (n, a, v, c, i) \<Rightarrow>
     Some \<lparr>bt_chunk = c, bt_args = packed f args,
       bt_closedOvers = (case i of Some j \<Rightarrow> (case nth_opt (w_clos w) j of Some xs \<Rightarrow> xs | None \<Rightarrow> []) | None \<Rightarrow> [])\<rparr>)"

lemma resolve_arm:
  assumes "bytecode_arm f \<noteq> None" "takes_rest f \<Longrightarrow> 1 \<le> arm_arity f"
    and "if takes_rest f then arm_arity f - 1 \<le> int (length args) else arm_arity f = int (length args)"
    and "unwrapBytecodeFn H w g (length args) [] g = unwrapBytecodeFn H w d (length args) [] f"
  shows "resolveBytecodeCall H w g args = Ok (arm_target w f args)"
    and "arm_target w f args = Some t \<Longrightarrow> int (length (bt_args t)) = arm_arity f"
proof -
  obtain n a v k i where b: "bytecode_arm f = Some (n, a, v, k, i)" using assms(1) by fastforce
  then have d: "takes_rest f = v" "arm_arity f = a" by (simp_all add: takes_rest_def arm_arity_def)
  show "resolveBytecodeCall H w g args = Ok (arm_target w f args)"
    using assms(2,3)
    by (simp add: resolveBytecodeCall_def assms(4) unwrap_arm[OF b] d arm_target_def b packed_def slice_def
        Let_def nat_diff_distrib split: if_splits)
  show "arm_target w f args = Some t \<Longrightarrow> int (length (bt_args t)) = arm_arity f"
    using assms(2,3) by (auto simp: arm_target_def b d packed_def split: if_splits)
qed

lemma resolve_arms:
  assumes "\<forall>f\<in>set arms. bytecode_arm f \<noteq> None \<and> (takes_rest f \<longrightarrow> 1 \<le> arm_arity f)"
  shows "\<exists>ma. MakeMultiArity H w arms = Inr ma \<and> resolveBytecodeCall H w ma args =
    (case chosen_arm arms (int (length args)) of
       None \<Rightarrow> Err (ExecutionError (NoVariant ma (length args)) None)
     | Some f \<Rightarrow> Ok (arm_target w f args))"
proof -
  obtain fns rest a nm where m: "MakeMultiArity H w arms = Inr (MultiV fns rest a nm)"
    "\<And>d k. variantFor H w d fns rest k = (case chosen_arm arms (int k) of
       Some f \<Rightarrow> Inr f | None \<Rightarrow> Inl (ExecutionError (NoVariant d k) None))"
    using MakeMultiArity_variant[of arms H w] assms by blast
  have "resolveBytecodeCall H w (MultiV fns rest a nm) args = (case chosen_arm arms (int (length args)) of
       None \<Rightarrow> Err (ExecutionError (NoVariant (MultiV fns rest a nm) (length args)) None)
     | Some f \<Rightarrow> Ok (arm_target w f args))"
  proof (cases "chosen_arm arms (int (length args))")
    case (Some f)
    note c = chosen_arm_mem[OF Some]
    have "resolveBytecodeCall H w (MultiV fns rest a nm) args = Ok (arm_target w f args)"
      by (rule resolve_arm(1)[where d = "MultiV fns rest a nm"])
        (use c assms in \<open>simp_all add: m(2) Some\<close>)
    then show ?thesis by (simp add: Some)
  qed (simp add: resolveBytecodeCall_def m(2))
  with m(1) show ?thesis by blast
qed

lemma arm_target_fits:
  assumes "chosen_arm arms (int (length args)) = Some f"
    and "\<forall>f\<in>set arms. bytecode_arm f \<noteq> None \<and> (takes_rest f \<longrightarrow> 1 \<le> arm_arity f)"
  shows "\<exists>t. arm_target w f args = Some t \<and> int (length (bt_args t)) = arm_arity f"
proof -
  note c = chosen_arm_mem[OF assms(1)]
  then have b: "bytecode_arm f \<noteq> None" "takes_rest f \<longrightarrow> 1 \<le> arm_arity f" using assms(2) by auto
  then obtain t where "arm_target w f args = Some t" by (auto simp: arm_target_def)
  then show ?thesis using resolve_arm(2)[OF b(1) _ c(2) refl] b(2) by blast
qed

section \<open>Unwinding\<close>

definition wraps :: "'h host \<Rightarrow> 'h world \<Rightarrow> frame list \<Rightarrow> vm_err \<Rightarrow> vm_err option" where
  "wraps H w qs err = foldl (\<lambda>e q. Option.bind e (wrapCallSite H w q)) (Some err) qs"

lemma foldl_bind_None: "foldl (\<lambda>e q. Option.bind e (g q)) None qs = None"
  by (induction qs) auto

lemma wraps_simps:
  "wraps H w [] err = Some err"
  "wraps H w (q # qs) err = Option.bind (wrapCallSite H w q err) (wraps H w qs)"
  by (cases "wrapCallSite H w q err"; simp add: wraps_def foldl_bind_None)+

lemma unwind:
  assumes "\<forall>q\<in>set qs. \<forall>h\<in>set (fr_handlers q). \<not> live h" "wraps H w qs err = Some err'"
  shows "releaseFailedFrames H (qs @ ps) err w = releaseFailedFrames H ps err' w"
  using assms
proof (induction qs arbitrary: err)
  case (Cons q qs)
  have "handle_with e (fr_handlers q) q = Some None" for e
    using handle_with_skip[of "fr_handlers q" e "[]" q] Cons.prems(1) by simp
  then show ?case using Cons by (auto simp: wraps_simps handleError_def bind_eq_Some_conv)
qed (simp add: wraps_simps)

lemma unwrapThrown_wrapCallSite: "wrapCallSite H w f err = Some e \<Longrightarrow> unwrapThrown e = unwrapThrown err"
  by (auto simp: wrapCallSite_def bind_eq_Some_conv Let_def split: outcome.splits vm_err.splits)

lemma unwrapThrown_wraps: "wraps H w qs err = Some e \<Longrightarrow> unwrapThrown e = unwrapThrown err"
  by (induction qs arbitrary: err)
    (auto simp: wraps_simps bind_eq_Some_conv unwrapThrown_wrapCallSite)

end
