(* ===== verification/LG_MachineClaims.thy ===== *)
theory LG_MachineClaims
  imports LG_HostPanic LG_VMRun
begin

text \<open>The properties of the bytecode interpreter and of dynamic bindings, with the programs and
  states at which they are applied.\<close>

section \<open>Programs for the witnesses\<close>

definition plain_host :: "unit host" where
  "plain_host = \<lparr>ho_invoke = (\<lambda>fn ec args w. (Err (TypeError fn ''not callable here''), w)), ho_is_fn = (\<lambda>v. False),
     ho_satisfies_IFn = (\<lambda>v w. False), ho_arity = (\<lambda>v w. 0), ho_FuncType = (\<lambda>v. False),
     ho_equals = (\<lambda>a b w. Some (a = b)), ho_aget = (\<lambda>a b w. Err (TypeError a ''no array'')),
     ho_aset = (\<lambda>a b c w. (Err (TypeError a ''no array''), w)), ho_same = (=)\<rparr>"

lemma plain_host_ok: "host_ok plain_host"
  by (simp add: host_ok_def plain_host_def good_result_def)

text \<open>A host all of whose native functions panic.\<close>

definition panicking_host :: "unit host" where
  "panicking_host = plain_host\<lparr>ho_invoke := (\<lambda>fn ec args w. (Panic, w))\<rparr>"

lemma recovering_hosts_ok: "host_ok (recovering plain_host)" "host_ok (recovering panicking_host)"
  by (simp_all add: host_ok_def recovering_def panicking_host_def plain_host_def good_result_def)

definition no_dyn :: dyn where
  "no_dyn = \<lparr>d_var = (\<lambda>v. \<lparr>vc_ns = ''user'', vc_name = ''x'', vc_root = None, vc_dynamic = False, vc_rootBind = [],
     vc_guard = None, vc_deviated = False, vc_watches = []\<rparr>), d_registry = [], d_chain = (\<lambda>c. []), d_next = 0,
     d_deviations = 0, d_traceVar = None, d_traceArmed = False\<rparr>"

definition world_of :: "vv list \<Rightarrow> unit world" where
  "world_of pool = \<lparr>w_pools = (\<lambda>p. pool), w_clos = [], w_dyn = no_dyn, w_host = ()\<rparr>"

definition ins :: "opcode \<Rightarrow> u32" where
  "ins oc = of_nat (length (takeWhile (\<lambda>x. x \<noteq> oc) opcodes))"

definition program :: "u32 list \<Rightarrow> chunk" where
  "program code = \<lparr>ck_maxStack = 4, ck_consts = 0, ck_code = code\<rparr>"

definition start :: "vv list \<Rightarrow> u32 list \<Rightarrow> unit machine" where
  "start pool code = Running (initFrame (world_of pool) (program code) []) [] (world_of pool)"

fun outcome_of :: "'h machine \<Rightarrow> (vm_err, vv) outcome option" where
  "outcome_of (Halted r w) = Some r"
| "outcome_of (Running f ps w) = None"

lemma world_of_ok: "\<forall>v\<in>set pool. val_ok (world_of pool) v \<Longrightarrow> world_ok (world_of pool)"
  by (simp add: world_ok_def dyn_vals_ok_def world_of_def no_dyn_def)

lemma start_ok:
  assumes "check_chunk pool 0 (program code) tab" "\<forall>v\<in>set pool. val_ok (world_of pool) v"
  shows "machine_ok (start pool code)"
proof -
  have "frame_at (world_of pool) (initFrame (world_of pool) (program code) []) 0 tab []"
    using assms by (auto simp: frame_at_def base_ok_def initFrame_def check_chunk_def pending_ok_def world_of_def)
  then show ?thesis using world_of_ok[OF assms(2)] by (auto simp: start_def frame_ok_def)
qed

text \<open>\<open>(fn [x] (throw x))\<close> and \<open>(try (f 1) (catch e e) (finally nil))\<close>, as the compiler lays them out.\<close>

definition thrower :: vv where
  "thrower = FuncV ''f'' 1 False (program [ins OP_LOAD_ARG, 0, ins OP_THROW])"

definition try_code :: "u32 list" where
  "try_code = [ins OP_TRY_PUSH, 12, 17,
       ins OP_LOAD_CONST, 0, ins OP_LOAD_CONST, 1, ins OP_INVOKE, 1,
     ins OP_TRY_POP, ins OP_JUMP, 7,
       ins OP_DUP_NTH, 0, ins OP_POP_N, 1, ins OP_TRY_POP,
       ins OP_LOAD_CONST, 2, ins OP_POP, ins OP_FINALLY_END, - 3,
     ins OP_RETURN]"

definition try_typing :: typing where
  "try_typing = (let a = [Armed 12 17 0]; c = [Armed (- 1) 17 0]; m = [Maybe 17 0] in
     [(0, 0, []), (3, 0, a), (5, 1, a), (7, 2, a), (9, 1, a), (10, 1, []),
      (12, 1, c), (14, 2, c), (16, 1, c), (17, 1, m), (19, 2, m), (20, 1, m), (22, 1, [])])"

abbreviation try_pool :: "vv list" where
  "try_pool \<equiv> [thrower, IntV 1, NIL]"

lemma thrower_ok: "val_ok (world_of try_pool) thrower"
proof -
  have "check_chunk try_pool 1 (program [ins OP_LOAD_ARG, 0, ins OP_THROW]) [(0, 0, []), (2, 1, [])]" by code_simp
  then show ?thesis by (auto simp: thrower_def typed_fn_def world_of_def)
qed

lemma try_start_ok: "machine_ok (start try_pool try_code)"
proof (rule start_ok)
  show "check_chunk try_pool 0 (program try_code) try_typing" by code_simp
qed (use thrower_ok in simp)

section \<open>Safety\<close>

lemma machine_ok_run:
  assumes "host_ok (recovering H)" "machine_ok m"
  shows "machine_ok (run H n m) \<or>
    (\<exists>k<n. \<exists>f ps w. run H k m = Running f ps w \<and> (numeric_panic H w f \<or> host_panic H w f))"
proof (induction n)
  case (Suc n)
  then show ?case
    using step_ok_any_host[OF assms(1), of "run H n m"] by (auto simp: run_Suc less_Suc_eq)
qed (simp add: assms(2))

text \<open>
  C1. Typed code is safe: from a well-formed machine every state the interpreter reaches is
  well-formed, so the stack stays within its bounds, handlers stay matched with their blocks,
  and no Go panic happens, save two: a panic of the numeric tower inside an arithmetic instruction,
  and a panic of the host - a native function, the equality of objects, an array - that an instruction calls.
  When the host returns, with a value or an error, it must have kept the heap well-formed; whether it panics is its own
  affair.
\<close>

theorem typed_code_is_safe:
  assumes "host_ok (recovering H)" "machine_ok m"
  shows "machine_ok (run H n m) \<or>
    (\<exists>k<n. \<exists>f ps w. run H k m = Running f ps w \<and> (numeric_panic H w f \<or> host_panic H w f))"
  by (rule machine_ok_run[OF assms])

theorem typed_code_is_safe_witness:
  "(machine_ok (run panicking_host 8 (start try_pool try_code)) \<or>
     (\<exists>k<8. \<exists>f ps w. run panicking_host k (start try_pool try_code) = Running f ps w \<and>
        (numeric_panic panicking_host w f \<or> host_panic panicking_host w f))) \<and>
   outcome_of (run panicking_host 13 (start try_pool try_code)) = Some (Ok (IntV 1))"
proof -
  have "outcome_of (run panicking_host 13 (start try_pool try_code)) = Some (Ok (IntV 1))" by code_simp
  then show ?thesis using typed_code_is_safe[OF recovering_hosts_ok(2) try_start_ok, of 8] by blast
qed

section \<open>Calls\<close>

text \<open>
  C6. A call runs the callee to its end and then goes on in the caller: when a call instruction
  enters a callee whose run alone ends after \<open>n\<close> instructions, then, under any suspended
  callers, after these instructions a returned value is in the caller's frame in place of the
  function and its arguments, and an error is at the caller's handlers. One loop over a chain
  of frames is the recursive interpreter.
\<close>

theorem call_runs_callee:
  assumes "exec H w f = Some (Enter p c w1)" "run H n (Running c [] w1) = Halted r w2"
    and "\<forall>k<n. running (run H k (Running c [] w1))"
  shows "run H (Suc n) (Running f ps w) = (case r of
     Ok v \<Rightarrow> (case suspendedCallArity p of
         Ok a \<Rightarrow> (case fr_push v (fr_drop (a + 1) p) of
             Some p' \<Rightarrow> Running (advance 2 p') ps w2 | None \<Rightarrow> Halted Panic w2)
       | Err e \<Rightarrow> raise H p ps e w2
       | Panic \<Rightarrow> Halted Panic w2)
   | Err e \<Rightarrow> releaseFailedFrames H (p # ps) e w2
   | Panic \<Rightarrow> Halted Panic w2)"
proof -
  have "run H (Suc n) (Running f ps w) = run H n (Running c ([] @ p # ps) w1)"
    using run_add[of H n 1 "Running f ps w"] assms(1) by (simp add: run_Suc)
  then show ?thesis
    unfolding run_graft[OF assms(3)] assms(2)
    by (simp add: finish_def resume_def split: outcome.split option.split)
qed

definition call_code :: "u32 list" where
  "call_code = [ins OP_LOAD_CONST, 0, ins OP_LOAD_CONST, 1, ins OP_INVOKE, 1, ins OP_RETURN]"

abbreviation call_pool :: "vv list" where
  "call_pool \<equiv> [FuncV ''inc'' 1 False (program [ins OP_LOAD_ARG, 0, ins OP_INC, ins OP_RETURN]), IntV 41]"

abbreviation at_call :: frame where
  "at_call \<equiv> (initFrame (world_of call_pool) (program call_code) [])
     \<lparr>fr_stack := [hd call_pool, IntV 41, NIL, NIL], fr_sp := 2, fr_ip := 4\<rparr>"

fun entered :: "'h res option \<Rightarrow> (frame \<times> 'h machine) option" where
  "entered (Some (Enter p c w)) = Some (p, Running c [] w)"
| "entered _ = None"

lemma entered_Some: "entered x = Some (p, m) \<Longrightarrow> \<exists>c w. x = Some (Enter p c w) \<and> m = Running c [] w"
  by (cases x rule: entered.cases) auto

theorem call_runs_callee_witness:
  "\<exists>p w. run plain_host (Suc 3) (Running at_call [at_call] (world_of call_pool)) = Running p [at_call] w \<and>
     fr_ip p = 6 \<and> fr_sp p = 1 \<and> hd (fr_stack p) = IntV 42"
proof -
  let ?x = "entered (exec plain_host (world_of call_pool) at_call)"
  have "?x \<noteq> None" by code_simp
  then obtain p m where x: "?x = Some (p, m)" by fastforce
  obtain c w1 where e: "exec plain_host (world_of call_pool) at_call = Some (Enter p c w1)" "m = Running c [] w1"
    using entered_Some[OF x] by blast
  have "map_option (\<lambda>(p, m). outcome_of (run plain_host 3 m)) ?x = Some (Some (Ok (IntV 42)))"
    "map_option (\<lambda>(p, m). list_all (\<lambda>k. running (run plain_host k m)) [0, 1, 2]) ?x = Some True"
    "map_option (\<lambda>(p, m). suspendedCallArity p) ?x = Some (Ok 1)"
    "map_option (\<lambda>(p, m). map_option (\<lambda>p'. (fr_ip p', fr_sp p', hd (fr_stack p')))
       (fr_push (IntV 42) (fr_drop 2 p))) ?x = Some (Some (4, 1, IntV 42))"
    by code_simp+
  then have f: "outcome_of (run plain_host 3 m) = Some (Ok (IntV 42))"
    "\<forall>k\<in>{0, 1, 2}. running (run plain_host k m)" "suspendedCallArity p = Ok 1"
    "\<exists>p'. fr_push (IntV 42) (fr_drop 2 p) = Some p' \<and> fr_ip p' = 4 \<and> fr_sp p' = 1 \<and> hd (fr_stack p') = IntV 42"
    unfolding x by auto
  obtain w2 where h: "run plain_host 3 (Running c [] w1) = Halted (Ok (IntV 42)) w2"
    using f(1) e(2) by (cases "run plain_host 3 (Running c [] w1)") auto
  have k: "\<forall>k<3. running (run plain_host k (Running c [] w1))"
    using f(2) e(2) by (auto simp: less_Suc_eq numeral_eq_Suc)
  show ?thesis
    using call_runs_callee[OF e(1) h k, of "[at_call]"] f(3,4) by (auto simp: advance_def)
qed

section \<open>Errors and handlers\<close>

definition at_instr :: "frame \<Rightarrow> opcode \<Rightarrow> bool" where
  "at_instr f oc \<longleftrightarrow> (case slot (ck_code (fr_code f)) (fr_ip f) of
     None \<Rightarrow> False | Some inst \<Rightarrow> decode inst = Some oc)"

lemma exec_at_instr: "at_instr f oc \<Longrightarrow> exec H w f = exec_op H oc w f"
  by (auto simp: at_instr_def exec_def simp del: slot_eq_Some split: option.splits)

text \<open>
  C7. An error goes to the nearest enclosing handler that can take it, frame by frame: frames
  without one are abandoned, each adding its call to the trace, and the first frame with a live
  handler continues at its catch, with the value that was thrown, or at its \<open>finally\<close> with
  the error parked.
\<close>

theorem error_finds_handler:
  assumes "\<forall>q\<in>set qs. \<forall>h\<in>set (fr_handlers q). \<not> live h"
    and "wraps H w (qs @ [p]) err = Some err'"
    and "dropWhile (\<lambda>h. \<not> live h) (fr_handlers p) = h # hs"
  shows "releaseFailedFrames H (qs @ p # ps) err w = (case enter_handler err' h hs p of
      None \<Rightarrow> Halted Panic w | Some p' \<Rightarrow> Running p' ps w) \<and>
    (unwrapThrown err = Some v \<longrightarrow> errorToValue err' = v)"
proof -
  obtain e where e: "wraps H w qs err = Some e" "wrapCallSite H w p e = Some err'"
    using assms(2) by (auto simp: wraps_def bind_eq_Some_conv)
  have "releaseFailedFrames H (qs @ p # ps) err w = releaseFailedFrames H (p # ps) e w"
    by (rule unwind[OF assms(1) e(1)])
  then show ?thesis
    using e unwrapThrown_wraps[OF assms(2)]
    by (simp add: handleError_def handle_with_dropWhile assms(3) errorToValue_def split: option.split)
qed

definition armed :: "int \<Rightarrow> int \<Rightarrow> handler" where
  "armed c f = \<lparr>h_catchIP = c, h_finallyIP = f, h_savedSP = 0, h_pending = None\<rparr>"

abbreviation guarded :: frame where
  "guarded \<equiv> at_call\<lparr>fr_handlers := [armed (- 1) (- 1), armed 6 (- 1)]\<rparr>"

theorem error_finds_handler_witness:
  "\<exists>w p'. releaseFailedFrames plain_host ([at_call] @ guarded # []) (ThrownError (IntV 7)) w = Running p' [] w \<and>
     fr_ip p' = 6 \<and> fr_sp p' = 1 \<and> hd (fr_stack p') = IntV 7 \<and> fr_handlers p' = []"
proof -
  let ?w = "world_of call_pool"
  let ?e = "wraps plain_host ?w ([at_call] @ [guarded]) (ThrownError (IntV 7))"
  have "?e \<noteq> None" by code_simp
  then obtain e where e: "?e = Some e" by blast
  have d: "dropWhile (\<lambda>h. \<not> live h) (fr_handlers guarded) = armed 6 (- 1) # []" by code_simp
  have no: "\<forall>q\<in>set [at_call]. \<forall>h\<in>set (fr_handlers q). \<not> live h" by code_simp
  have "map_option (\<lambda>e. map_option (\<lambda>p'. (fr_ip p', fr_sp p', hd (fr_stack p'), fr_handlers p'))
      (enter_handler e (armed 6 (- 1)) [] guarded)) ?e = Some (Some (6, 1, IntV 7, []))" by code_simp
  then obtain p' where p': "enter_handler e (armed 6 (- 1)) [] guarded = Some p'" "fr_ip p' = 6" "fr_sp p' = 1"
      "hd (fr_stack p') = IntV 7" "fr_handlers p' = []"
    unfolding e by auto
  show ?thesis using error_finds_handler[OF no e d, of "[]" "IntV 7"] p' by auto
qed

text \<open>
  C8. The protocol of \<open>finally\<close>: an error that reaches a handler with a \<open>finally\<close> and no catch
  left enters the block once, with the error parked; while the block runs its handler takes no
  error, so one raised in it goes outward in place of the parked one; and the end of the
  block takes the handler away and raises the parked error again.
\<close>

theorem finally_protocol:
  assumes "fr_handlers f = h # hs" "live h" "h_catchIP h < 0"
    and "0 \<le> h_savedSP h" "h_savedSP h < int (length (fr_stack f))"
  shows "\<exists>f1. handleError err f = Some (Some f1) \<and> fr_ip f1 = h_finallyIP h \<and> fr_sp f1 = h_savedSP h + 1 \<and>
    fr_code f1 = fr_code f \<and>
    (\<forall>g. fr_handlers g = fr_handlers f1 \<longrightarrow>
      (\<forall>err2. handleError err2 g = handle_with err2 hs g) \<and>
      (\<forall>w off. operand 1 g = Some off \<longrightarrow> fr_ip g + off = h_finallyIP h \<longrightarrow>
        op_FINALLY_END w g = Some (Raise (g\<lparr>fr_handlers := hs\<rparr>) err w)))"
proof -
  have f: "0 \<le> h_finallyIP h" "h_pending h = None" using assms(2,3) by (auto simp: live_def)
  then show ?thesis
    using assms
    by (auto simp: handleError_def fr_push_in op_FINALLY_END_def)
qed

theorem finally_protocol_witness:
  "\<exists>f1. handleError (ThrownError NIL) (at_call\<lparr>fr_handlers := [armed (- 1) 6]\<rparr>) = Some (Some f1) \<and> fr_ip f1 = 6"
  using finally_protocol[of "at_call\<lparr>fr_handlers := [armed (- 1) 6]\<rparr>" "armed (- 1) 6" "[]" "ThrownError NIL"]
  by (auto simp: live_def armed_def)

text \<open>
  C15. A call of a value that is not a function escapes the handlers of its own frame: whatever
  handlers the frame has armed, \<open>OP_INVOKE\<close> and \<open>OP_TAIL_CALL\<close> hand the type error to the
  suspended callers, and without one the run ends with it. The other errors of a call, a wrong
  number of arguments as much as an error of a native function, go to the handlers of the
  frame first.
\<close>

theorem noncallable_escapes_handler:
  assumes "at_instr f oc" "oc \<in> {OP_INVOKE, OP_TAIL_CALL}"
    and "operand 1 f = Some arity" "0 \<le> arity" "fr_nth arity f = Some fn"
  shows "(\<not> AsFn H w fn \<longrightarrow>
      step H (Running f ps w) = releaseFailedFrames H ps (TypeError fn ''is not a function'') w \<and>
      step H (Running f [] w) = Halted (Err (TypeError fn ''is not a function'')) w) \<and>
    (AsFn H w fn \<longrightarrow> fr_mult 0 arity f = Some args \<longrightarrow>
      (resolveBytecodeCall H w fn args = Err e \<longrightarrow>
        step H (Running f ps w) = raise H f ps (wrapCallErr fn e) w) \<and>
      (resolveBytecodeCall H w fn args = Ok None \<longrightarrow> ec_Invoke H (fr_ec f) args w fn = (Err e, w') \<longrightarrow>
        (\<exists>g\<in>{f, fr_drop 1 f}. step H (Running f ps w) = raise H g ps (wrapCallErr fn e) w')))"
proof -
  have m: "arity = 0 \<Longrightarrow> fr_mult 0 arity f = Some args \<Longrightarrow> args = []"
    by (auto simp: fr_mult_def Let_def LG_VM.slice_def split: if_splits)
  from assms(2) show ?thesis
  proof (elim insertE emptyE)
    assume "oc = OP_INVOKE"
    then have e: "exec H w f = op_INVOKE H w f" using exec_at_instr[OF assms(1)] by simp
    show ?thesis using assms(3-5) m
      by (cases "arity = 0") (auto simp: e op_INVOKE_def Let_def)
  next
    assume "oc = OP_TAIL_CALL"
    then have e: "exec H w f = op_TAIL_CALL H w f" using exec_at_instr[OF assms(1)] by simp
    show ?thesis using assms(3-5) m
      by (cases "arity = 0") (auto simp: e op_TAIL_CALL_def)
  qed
qed

abbreviation at_bad_call :: frame where
  "at_bad_call \<equiv> (initFrame (world_of call_pool) (program call_code) [])
     \<lparr>fr_stack := [IntV 1, IntV 41, NIL, NIL], fr_sp := 2, fr_ip := 4, fr_handlers := [armed 6 (- 1)]\<rparr>"

theorem noncallable_escapes_handler_witness:
  "step plain_host (Running at_bad_call [] (world_of call_pool)) =
    Halted (Err (TypeError (IntV 1) ''is not a function'')) (world_of call_pool)"
proof -
  have a: "at_instr at_bad_call OP_INVOKE" unfolding at_instr_def by code_simp
  have o: "operand 1 at_bad_call = Some 1" "fr_nth 1 at_bad_call = Some (IntV 1)" by code_simp+
  have "\<not> AsFn plain_host (world_of call_pool) (IntV 1)" by code_simp
  then show ?thesis
    using noncallable_escapes_handler[OF a _ o(1) _ o(2), of plain_host "world_of call_pool" "[]"] by simp
qed

section \<open>Arithmetic and multi-arity functions\<close>

text \<open>What the numeric tower gives for an instruction with an inline path.\<close>

fun tower :: "opcode \<Rightarrow> vv list \<Rightarrow> (vm_err, vv) outcome option" where
  "tower OP_ADD [a, b] = Some (num2 ''add'' NumAdd Prim a b)"
| "tower OP_SUB [a, b] = Some (num2 ''subtract'' NumSub Prim a b)"
| "tower OP_MUL [a, b] = Some (num2 ''multiply'' NumMul Prim a b)"
| "tower OP_QUOT [a, b] = Some (num2 ''quot'' NumQuot Prim a b)"
| "tower (OP_UNCHECKED uop) [a, b] = Some (num2 (unchecked_what uop) (numUnchecked uop) Prim a b)"
| "tower OP_LT [a, b] = Some (num2 ''compare'' NumLt BoolV a b)"
| "tower OP_LTE [a, b] = Some (num2 ''compare'' NumLe BoolV a b)"
| "tower OP_GT [a, b] = Some (num2 ''compare'' NumGt BoolV a b)"
| "tower OP_GTE [a, b] = Some (num2 ''compare'' NumGe BoolV a b)"
| "tower OP_INC [a] = Some (num2 ''add'' NumAdd Prim a (IntV 1))"
| "tower OP_DEC [a] = Some (num2 ''subtract'' NumSub Prim a (IntV 1))"
| "tower oc args = None"

text \<open>What the instruction computes from its operands on the stack.\<close>

fun computes :: "'h host \<Rightarrow> 'h world \<Rightarrow> opcode \<Rightarrow> vv list \<Rightarrow> (vm_err, vv) outcome option" where
  "computes H w oc [a, b] = map_option (\<lambda>g. g a b) (binary_op H w oc)"
| "computes H w oc [a] = map_option (\<lambda>g. g a) (unary_op oc)"
| "computes H w oc args = None"

text \<open>
  C9. The inline paths of the arithmetic and comparison instructions are the numeric tower: on
  all operands, machine integers or not, they give its value, an error when it gives an error,
  and panic when it does. These are \<open>OP_ADD\<close>, \<open>OP_SUB\<close>, \<open>OP_MUL\<close>, \<open>OP_QUOT\<close>, the unchecked operations, the four
  comparisons, and \<open>OP_INC\<close> and \<open>OP_DEC\<close>, which add and subtract one.
\<close>

theorem inline_arithmetic_is_tower:
  assumes "tower oc args = Some t"
  shows "\<exists>r. computes H w oc args = Some r \<and> agrees r t"
  using assms
  by (cases "(oc, args)" rule: tower.cases)
    (auto simp: inc_op_def dec_op_def tower_ints
      intro!: agrees_checked agrees_compare agrees_quot agrees_unchecked)

theorem inline_arithmetic_is_tower_witness:
  "(\<exists>r. computes plain_host (world_of []) OP_INC [IntV (2 ^ 63 - 1)] = Some r \<and>
     agrees r (num2 ''add'' NumAdd Prim (IntV (2 ^ 63 - 1)) (IntV 1)))"
  using inline_arithmetic_is_tower[of OP_INC "[IntV (2 ^ 63 - 1)]" _ plain_host "world_of []"] by simp

text \<open>
  C10. A function of several arities, made from its arms, runs on \<open>n\<close> arguments the last arm
  written with \<open>n\<close> parameters, else the rest arm when \<open>n\<close> covers its fixed parameters, with
  the surplus boxed as its last argument and with its own captures; else the call is the
  error that no variant fits. The arm always gets exactly as many arguments as it has slots.
\<close>

theorem multi_arity_selects_arm:
  assumes "\<forall>f\<in>set arms. bytecode_arm f \<noteq> None \<and> (takes_rest f \<longrightarrow> 1 \<le> arm_arity f)"
  shows "\<exists>ma. MakeMultiArity H w arms = Inr ma \<and> (case chosen_arm arms (int (length args)) of
      None \<Rightarrow> resolveBytecodeCall H w ma args = Err (ExecutionError (NoVariant ma (length args)) None)
    | Some f \<Rightarrow> \<exists>t. resolveBytecodeCall H w ma args = Ok (Some t) \<and> arm_target w f args = Some t \<and>
        int (length (bt_args t)) = arm_arity f)"
proof (cases "chosen_arm arms (int (length args))")
  case (Some f)
  then show ?thesis using resolve_arms[OF assms, of H w args] arm_target_fits[OF Some assms, of w] by auto
qed (use resolve_arms[OF assms, of H w args] in auto)

abbreviation two_arms :: "vv list" where
  "two_arms \<equiv> [FuncV ''f'' 1 False (program [ins OP_NOOP]), FuncV ''f'' 3 True (program [ins OP_RETURN])]"

theorem multi_arity_selects_arm_witness:
  "\<exists>ma t. MakeMultiArity plain_host (world_of []) two_arms = Inr ma \<and>
     resolveBytecodeCall plain_host (world_of []) ma [IntV 1, IntV 2, IntV 3, IntV 4] = Ok (Some t) \<and>
     bt_args t = [IntV 1, IntV 2, ListV [IntV 3, IntV 4]]"
proof -
  have c: "chosen_arm two_arms (int (length [IntV 1, IntV 2, IntV 3, IntV 4])) = Some (two_arms ! 1)" by code_simp
  have p: "packed (two_arms ! 1) [IntV 1, IntV 2, IntV 3, IntV 4] = [IntV 1, IntV 2, ListV [IntV 3, IntV 4]]"
    by code_simp
  have "\<forall>f\<in>set two_arms. bytecode_arm f \<noteq> None \<and> (takes_rest f \<longrightarrow> 1 \<le> arm_arity f)" by code_simp
  from multi_arity_selects_arm[OF this, of plain_host "world_of []" "[IntV 1, IntV 2, IntV 3, IntV 4]", unfolded c]
  obtain ma t where "MakeMultiArity plain_host (world_of []) two_arms = Inr ma"
    "resolveBytecodeCall plain_host (world_of []) ma [IntV 1, IntV 2, IntV 3, IntV 4] = Ok (Some t)"
    "arm_target (world_of []) (two_arms ! 1) [IntV 1, IntV 2, IntV 3, IntV 4] = Some t" by auto
  moreover from this(3) have "bt_args t = [IntV 1, IntV 2, ListV [IntV 3, IntV 4]]"
    unfolding arm_target_def p by auto
  ultimately show ?thesis by blast
qed

section \<open>Dynamic bindings\<close>

definition push_all :: "dyn \<Rightarrow> dyn" where
  "push_all d = fold (run_act None) [Push 0 (IntV 1), Push 1 (IntV 2)] d"

lemma no_dyn_ok: "dyn_ok no_dyn"
  by (simp add: dyn_ok_def no_dyn_def ec_env_def split: option.split)

text \<open>
  C11. Bindings nest: after any properly nested run of push, set and pop in a context, with
  sets only where the var is bound within the run, every var has the value it had, in this
  context and in every other, and the state stays well-formed; within the run the value of
  a var is what the innermost push or the last set gave it.
\<close>

theorem bindings_nest:
  assumes "dyn_ok d" "ec_ok ec d" "balanced {} as"
  shows "deref ec v (fold (run_act ec) as d) = deref ec v d \<and>
    (ec' \<noteq> ec \<longrightarrow> (\<forall>bs. deref ec' v (fold (run_act ec) bs d) = deref ec' v d)) \<and>
    dyn_ok (fold (run_act ec) as d) \<and>
    (\<forall>bs. deref ec v (fold (run_act ec) bs d) = (case fold act_env bs (ec_env ec d) v of [] \<Rightarrow> Root v d | x # _ \<Rightarrow> x))"
  using deref_balanced[OF assms] deref_run_acts_other[OF assms(1,2)] dyn_ok_run_acts[OF assms(1,2)]
  by (auto simp: deref_env ec_env_run_acts split: list.split)

theorem bindings_nest_witness:
  "deref None 0 (fold (run_act None) ([Push 0 (IntV 1)] @ [Set 0 (IntV 2)] @ [Pop 0]) no_dyn) = deref None 0 no_dyn"
proof -
  have "balanced {} ([Push 0 (IntV 1)] @ [Set 0 (IntV 2)] @ [Pop 0])"
    by (intro bal_Bind bal_Set) simp
  from bindings_nest[OF no_dyn_ok _ this, of None] show ?thesis by (simp add: ec_ok_def)
qed

text \<open>
  C12. A child context starts with the bindings of its parent and is isolated from it: each
  var has the parent's value in the child, no change in the child is seen by the parent or
  any other context, and no change in the parent is seen by the child.
\<close>

theorem child_context_isolated:
  assumes "dyn_ok d" "ec_ok src d" "Child src d = (c, d')"
  shows "deref c v d' = deref src v d \<and>
    (ec_ok ec d \<longrightarrow> deref ec v (fold (run_act c) as d') = deref ec v d) \<and>
    (ec_ok ec d \<longrightarrow> deref c v (fold (run_act ec) as d') = deref src v d)"
proof -
  have s: "fst (Child src d) = c" "snd (Child src d) = d'" using assms(3) by auto
  note C = Child_env[OF assms(1,2), unfolded s]
  have ne: "ec_ok ec d \<Longrightarrow> ec \<noteq> c"
    using assms(3) by (auto simp: Child_def NewExecContext_def ec_ok_def split: option.splits)
  have e: "ec_ok ec d \<Longrightarrow> ec_ok ec d'"
    using assms(3) by (auto simp: Child_def NewExecContext_def ec_ok_def split: option.splits)
  have "deref c v d' = deref src v d" using C assms(1) by (simp add: deref_env split: list.split)
  moreover have "deref ec v (fold (run_act c) as d') = deref ec v d" if "ec_ok ec d"
    using deref_run_acts_other[OF C(2,3) ne[OF that]] C that assms(1) by (simp add: deref_env split: list.split)
  moreover have "deref c v (fold (run_act ec) as d') = deref src v d" if "ec_ok ec d"
    using deref_run_acts_other[OF C(2) e[OF that] ne[OF that, symmetric]] calculation(1) by simp
  ultimately show ?thesis by blast
qed

theorem child_context_isolated_witness:
  "\<exists>c d'. Child None (push_all no_dyn) = (c, d') \<and> deref c 0 d' = IntV 1 \<and>
     deref None 0 (fold (run_act c) [Set 0 (IntV 5)] d') = IntV 1"
proof -
  have d: "dyn_ok (push_all no_dyn)" unfolding push_all_def by (rule dyn_ok_run_acts) (simp_all add: no_dyn_ok ec_ok_def)
  obtain c d' where c: "Child None (push_all no_dyn) = (c, d')" by fastforce
  have "deref None 0 (push_all no_dyn) = IntV 1" by code_simp
  then show ?thesis
    using child_context_isolated[OF d _ c, of 0 None "[Set 0 (IntV 5)]"] c by (auto simp: ec_ok_def)
qed

text \<open>
  C13. \<open>RunWithBindings\<close> runs its body under exactly the bindings of the snapshot. When the
  body returns, with a value or an error, the earlier bindings are back, whatever the body
  pushed, set or popped, and the roots and the other contexts are as the body left them. When
  it panics nothing is restored: the bindings are those the body left. The body is any
  transformer of the state that keeps the registry of bound vars right, as every operation
  on bindings does.
\<close>

theorem run_with_bindings_restores:
  assumes "dyn_ok d" "distinct (map fst snap)"
    and "registry_ok (snd (fn (rootInstall snap d)))" "RunWithBindings snap fn d = (out, d')"
  shows "fst (fn (rootInstall snap d)) = out \<and>
    deref None v (rootInstall snap d) = (case snap_env snap v of [] \<Rightarrow> Root v d | x # _ \<Rightarrow> x) \<and>
    (out \<noteq> Panic \<longrightarrow> root_bind d' = root_bind d \<and> registry_ok d' \<and> rest_same (snd (fn (rootInstall snap d))) d') \<and>
    (out = Panic \<longrightarrow> d' = snd (fn (rootInstall snap d)))"
proof -
  have r: "registry_ok d" using assms(1) by (simp add: dyn_ok_def registry_ok_def)
  note i = rootInstall_env[OF r assms(2)] rootInstall_rest[of d snap]
  have d: "deref None v (rootInstall snap d) = (case snap_env snap v of [] \<Rightarrow> Root v d | x # _ \<Rightarrow> x)"
    using fun_cong[OF i(1), of v] i(3)
    by (simp add: deref_def derefRoot_def rootDerefHead_def Root_def rest_same_def split: list.split)
  obtain d1 where d1: "fn (rootInstall snap d) = (out, d1)"
    "d' = (if out = Panic then d1 else rootInstall (rootSnapshot d) d1)"
    using assms(4) by (auto simp: RunWithBindings_def Let_def split: prod.splits outcome.splits)
  note s = map_of_rootSnapshot[OF assms(1)]
  have "registry_ok d1" using assms(3) d1(1) by simp
  from rootInstall_env[OF this s(2)] rootInstall_rest[of d1 "rootSnapshot d"] s(1) d d1 show ?thesis by simp
qed

definition bind_body :: "dyn \<Rightarrow> (vm_err, vv) outcome \<times> dyn" where
  "bind_body d = (Ok (deref None 0 d), pushBinding None 1 (IntV 3) d)"

theorem run_with_bindings_restores_witness:
  "\<exists>d'. RunWithBindings [(0, [IntV 9])] bind_body (push_all no_dyn) = (Ok (IntV 9), d') \<and>
     root_bind d' = root_bind (push_all no_dyn)"
proof -
  have d: "dyn_ok (push_all no_dyn)" unfolding push_all_def by (rule dyn_ok_run_acts) (simp_all add: no_dyn_ok ec_ok_def)
  then have "registry_ok (rootInstall [(0, [IntV 9])] (push_all no_dyn))"
    by (intro rootInstall_env) (simp_all add: dyn_ok_def registry_ok_def)
  then have r: "registry_ok (snd (bind_body (rootInstall [(0, [IntV 9])] (push_all no_dyn))))"
    using registry_ok_run_act[of _ None "Push 1 (IntV 3)"] by (simp add: bind_body_def)
  obtain out d' where e: "RunWithBindings [(0, [IntV 9])] bind_body (push_all no_dyn) = (out, d')" by fastforce
  from run_with_bindings_restores[OF d _ r e, of 0] e show ?thesis by (auto simp: snap_env_def bind_body_def)
qed

text \<open>What can happen to roots and guards; \<open>call\<close> runs the function of an \<open>alter-var-root\<close>.\<close>

datatype root_act = SetTo nat vv | Guard nat | Adopt nat "nat option" | Alter nat vv "vv list"

fun do_root :: "(vv \<Rightarrow> vv \<Rightarrow> bool) \<Rightarrow> invoker \<Rightarrow> root_act \<Rightarrow> dyn \<Rightarrow> dyn" where
  "do_root same call (SetTo v x) d = SetRoot same v x d"
| "do_root same call (Guard v) d = GuardRoot v d"
| "do_root same call (Adopt v old) d = adoptGuard same v old d"
| "do_root same call (Alter v fn args) d = snd (AlterRootArgs same call v fn args d)"

fun replaced :: "root_act list \<Rightarrow> nat set" where
  "replaced [] = {}"
| "replaced (Adopt v (Some u) # as) = insert u (replaced as)"
| "replaced (a # as) = replaced as"

lemma guard_ok_do_root:
  assumes "\<And>fn args d. guard_ok same X d \<Longrightarrow> guard_ok same X (snd (call fn args d))"
  shows "guard_ok same X d \<Longrightarrow> replaced as \<subseteq> X \<Longrightarrow> guard_ok same X (fold (do_root same call) as d)"
proof (induction as arbitrary: d rule: replaced.induct)
  case (2 v u as)
  then show ?case using guard_ok_adoptGuard[of same X d "Some u" v] by simp
qed (auto simp: guard_ok_SetRoot guard_ok_GuardRoot guard_ok_AlterRootArgs[OF assms] guard_ok_adoptGuard)

text \<open>
  C14. The counter behind \<open>GuardedRootsIntact\<close> after any run of \<open>SetRoot\<close>, \<open>GuardRoot\<close>,
  \<open>adoptGuard\<close> and \<open>AlterRootArgs\<close>: if it answers yes, every guarded var has its guarded root,
  save a var that was replaced (\<open>adoptGuard\<close>) or whose guarded root is not the same as itself
  by \<open>sameRootIdentity\<close>; and if every guarded var has its guarded root, it answers yes. The
  functions that \<open>alter-var-root\<close> and the watches call may do anything that keeps the counter
  in this sense. \<open>same\<close>, the identity of roots, is any relation.
\<close>

theorem guard_counter_exact:
  assumes "guard_ok same (replaced as) d"
    and "\<And>fn args d. guard_ok same (replaced as) d \<Longrightarrow> guard_ok same (replaced as) (snd (call fn args d))"
    and "d' = fold (do_root same call) as d"
  shows "(GuardedRootsIntact d' \<longrightarrow> (\<forall>v p. v \<notin> replaced as \<longrightarrow> vc_guard (d_var d' v) = Some p \<longrightarrow> same p p \<longrightarrow>
      same p (Root v d'))) \<and>
    ((\<forall>v p. vc_guard (d_var d' v) = Some p \<longrightarrow> same p (Root v d')) \<longrightarrow> GuardedRootsIntact d')"
proof -
  from guard_ok_do_root[where as = as, OF assms(2,1) order_refl] have "guard_ok same (replaced as) d'"
    using assms(3) by simp
  from guard_ok_intact[OF this] show ?thesis by blast
qed

definition const_call :: invoker where
  "const_call fn args d = (Ok (IntV 7), d)"

definition root_acts :: "root_act list" where
  "root_acts = [SetTo 0 (IntV 1), Guard 0, Adopt 1 (Some 0), SetTo 1 (IntV 1), Alter 1 NIL []]"

theorem guard_counter_exact_witness:
  "\<not> GuardedRootsIntact (fold (do_root (=) const_call) root_acts no_dyn)"
proof -
  have g: "guard_ok (=) (replaced root_acts) no_dyn"
    by (simp add: guard_ok_def counter_ok_def deviates_def no_dyn_def)
  let ?d = "fold (do_root (=) const_call) root_acts no_dyn"
  have "vc_guard (d_var ?d 1) = Some (IntV 1)" "Root 1 ?d = IntV 7" by code_simp+
  moreover have "1 \<notin> replaced root_acts" by (simp add: root_acts_def)
  ultimately show ?thesis
    using guard_counter_exact[OF g _ refl, of const_call] by (fastforce simp: const_call_def)
qed

end
