(* ===== verification/LG_Compiler.thy ===== *)
theory LG_Compiler
  imports LG_VM
begin

text \<open>
  The compiler of \<open>pkg/compiler/compiler.go\<close> with the cells of \<open>cell.go\<close>: forms to chunks.

  A \<open>Context\<close> is a \<open>cctx\<close>; the contexts of the enclosing functions are the list \<open>cs_outer\<close>,
  innermost first, because a lookup may extend their captures. Scopes, slot counts and recur
  points are lists with the innermost first. The namespaces, macro expansion and the other
  run-time services are the record \<open>chost\<close> over an environment \<open>'e\<close> that they may change.
  A form compiler takes the function that compiles subforms, so that only \<open>compileForm\<close>
  recurs; its fuel bounds the depth of forms and macro expansions.

  Left out: source positions, local names for debugging, reflection warnings, and the causes
  that wrap a compile error. A function constant has no identity here, so it is never shared.
\<close>

section \<open>Forms\<close>

text \<open>What the reader returns; the first field of a collection is its metadata.\<close>

datatype form = FVal vv | FSym string | FList "form list"
  | FVec "form option" "form list" | FMap "form option" "(form \<times> form) list" | FSet "form option" "form list"

text \<open>What the compiler asks of the Go type of a heap object that occurs as a form.\<close>

datatype obj_type = UUIDType | InstantType | RegexType | TypeType | VoidType | OtherType

datatype cerr = CompileError string | MacroFailed nat | OutOfFuel

definition splitNamespaced :: "string \<Rightarrow> (string \<times> string) option" where
  "splitNamespaced s = (if s = ''/'' \<or> CHR ''/'' \<notin> set s then None
     else Some (takeWhile (\<lambda>c. c \<noteq> CHR ''/'') s, tl (dropWhile (\<lambda>c. c \<noteq> CHR ''/'') s)))"

text \<open>\<open>f.(vm.Seq)\<close>: besides lists the vectors without metadata (\<open>ArrayVector\<close>) and the sets are sequences.\<close>

fun formSeq :: "form \<Rightarrow> form list option" where
  "formSeq (FList fs) = Some fs"
| "formSeq (FVec None fs) = Some fs"
| "formSeq (FSet m fs) = Some fs"
| "formSeq _ = None"

definition stripBindingMeta :: "form \<Rightarrow> form" where
  "stripBindingMeta f = (case f of FList (FSym h # x # _) \<Rightarrow> if h = ''with-meta'' then x else f | _ \<Rightarrow> f)"

fun quotedSymbol :: "form \<Rightarrow> bool" where
  "quotedSymbol (FList (FSym h # FSym s # _)) \<longleftrightarrow> h = ''quote''"
| "quotedSymbol _ \<longleftrightarrow> False"

text \<open>\<open>(. obj member args...)\<close> and \<open>(. obj (member args...))\<close> to \<open>(. obj 'member args...)\<close>.\<close>

definition normalizeDotForm :: "form list \<Rightarrow> form option" where
  "normalizeDotForm fs = (case fs of
     dot # obj # member # rest \<Rightarrow>
       if quotedSymbol member then None
       else (case member of
           FSym name \<Rightarrow> Some (FList (FSym ''.'' # obj # FList [FSym ''quote'', FSym name] # rest))
         | FList (FSym name # args) \<Rightarrow> Some (FList (FSym ''.'' # obj # FList [FSym ''quote'', FSym name] # args))
         | _ \<Rightarrow> None)
   | _ \<Rightarrow> None)"

section \<open>Compilation contexts\<close>

datatype cell = LocalCell int | ArgCell int | ClosureCell nat

record recurPoint =
  rp_address :: int
  rp_locals :: nat
  rp_argsc :: nat

record cctx =
  cx_code :: "u32 list"
  cx_args :: "(string \<times> int) list"
  cx_argCount :: nat
  cx_variadic :: bool
  cx_locals :: "(string \<times> int) list list"
  cx_slots :: "nat list"
  cx_sp :: int
  cx_spMax :: int
  cx_isFunction :: bool
  cx_captured :: "(string \<times> cell) list" \<comment> \<open>\<open>closedOversSeq\<close> with the cells they come from\<close>
  cx_recurs :: "recurPoint list"
  cx_tail :: bool
  cx_defName :: string

record 'e cstate =
  cs_cur :: cctx
  cs_outer :: "cctx list"
  cs_pool :: "vv list"
  cs_env :: 'e
  cs_caught :: nat

type_synonym 'e cresult = "(cerr, 'e cstate) outcome"
type_synonym 'e compiler = "form \<Rightarrow> 'e cstate \<Rightarrow> 'e cresult"

record 'e chost =
  ch_pool :: nat \<comment> \<open>the pool that the chunks refer to\<close>
  ch_lookup :: "'e \<Rightarrow> string \<Rightarrow> nat option" \<comment> \<open>\<open>CurrentNS().Lookup\<close>\<close>
  ch_lookupPrivate :: "'e \<Rightarrow> string \<Rightarrow> nat option"
  ch_core :: "'e \<Rightarrow> string \<Rightarrow> nat option" \<comment> \<open>the core namespace's \<open>Lookup\<close>\<close>
  ch_hostClass :: "string \<Rightarrow> vv option"
  ch_isMacro :: "'e \<Rightarrow> nat \<Rightarrow> bool"
  ch_expand :: "nat \<Rightarrow> form \<Rightarrow> form list \<Rightarrow> 'e \<Rightarrow> form option \<times> 'e"
  ch_intern :: "string \<Rightarrow> 'e \<Rightarrow> nat \<times> 'e" \<comment> \<open>\<open>LookupOrAdd\<close>\<close>
  ch_defMeta :: "string \<Rightarrow> form option \<Rightarrow> string option \<Rightarrow> form \<Rightarrow> nat \<Rightarrow> 'e \<Rightarrow> vv \<times> 'e"
  ch_irCompile :: "string \<Rightarrow> form \<Rightarrow> 'e \<Rightarrow> (cerr, form option) outcome \<times> 'e"
  ch_detectInNS :: "form \<Rightarrow> 'e \<Rightarrow> 'e"
  ch_simulate :: "form \<Rightarrow> 'e \<Rightarrow> (cerr, 'e) outcome"
  ch_uncheckedMath :: "'e \<Rightarrow> bool"
  ch_upper :: "string \<Rightarrow> bool" \<comment> \<open>the first rune is an upper-case letter\<close>
  ch_object :: "form \<Rightarrow> nat" \<comment> \<open>the collection object that a quoted literal is\<close>
  ch_objType :: "nat \<Rightarrow> obj_type"

definition newContext :: cctx where
  "newContext = \<lparr>cx_code = [], cx_args = [], cx_argCount = 0, cx_variadic = False, cx_locals = [], cx_slots = [],
     cx_sp = 0, cx_spMax = 0, cx_isFunction = False, cx_captured = [], cx_recurs = [], cx_tail = False,
     cx_defName = ''''\<rparr>"

abbreviation upd_cur :: "(cctx \<Rightarrow> cctx) \<Rightarrow> 'e cstate \<Rightarrow> 'e cstate" where
  "upd_cur g st \<equiv> st\<lparr>cs_cur := g (cs_cur st)\<rparr>"

subsection \<open>Emitting\<close>

definition opnum :: "opcode \<Rightarrow> nat" where
  "opnum oc = length (takeWhile (\<lambda>x. x \<noteq> oc) opcodes)"

text \<open>The upper half of an instruction word records the depth.\<close>

definition opword :: "opcode \<Rightarrow> int \<Rightarrow> u32" where
  "opword oc sp = of_nat (opnum oc) OR push_bit 16 (word_of_int sp)"

definition emit :: "opcode \<Rightarrow> cctx \<Rightarrow> cctx" where
  "emit oc c = c\<lparr>cx_code := cx_code c @ [opword oc (cx_sp c)]\<rparr>"

definition append32 :: "int \<Rightarrow> cctx \<Rightarrow> cctx" where
  "append32 n c = c\<lparr>cx_code := cx_code c @ [word_of_int n]\<rparr>"

definition emitWithArg :: "opcode \<Rightarrow> int \<Rightarrow> cctx \<Rightarrow> cctx" where
  "emitWithArg oc n c = append32 n (emit oc c)"

definition currentAddress :: "cctx \<Rightarrow> int" where
  "currentAddress c = int (length (cx_code c))"

definition updatePlaceholderArg :: "int \<Rightarrow> int \<Rightarrow> cctx \<Rightarrow> cctx" where
  "updatePlaceholderArg p n c = c\<lparr>cx_code := (cx_code c)[nat (p + 1) := word_of_int n]\<rparr>"

definition incSP :: "int \<Rightarrow> cctx \<Rightarrow> cctx" where
  "incSP i c = c\<lparr>cx_sp := cx_sp c + i, cx_spMax := max (cx_spMax c) (cx_sp c + i)\<rparr>"

definition decSP :: "int \<Rightarrow> cctx \<Rightarrow> cctx" where
  "decSP i c = c\<lparr>cx_sp := cx_sp c - i\<rparr>"

definition setTail :: "bool \<Rightarrow> cctx \<Rightarrow> cctx" where
  "setTail b c = c\<lparr>cx_tail := b\<rparr>"

text \<open>Equal constants share an index: scalars of one type by value and hash, vars and objects
  by identity.\<close>

fun constEqual :: "vv \<Rightarrow> vv \<Rightarrow> bool" where
  "constEqual (Prim a) (Prim b) \<longleftrightarrow>
     (if a = VEmptyList \<or> b = VEmptyList then a = b
      else (case a of VBigInt _ \<Rightarrow> False | VRatio _ \<Rightarrow> False | VBigDec _ \<Rightarrow> False | VRef _ _ \<Rightarrow> a = b
        | _ \<Rightarrow> hashValue (\<lambda>k n. '''') a = hashValue (\<lambda>k n. '''') b \<and> type_name a = type_name b \<and> valueEquiv a b))"
| "constEqual (VarV u) (VarV v) \<longleftrightarrow> u = v"
| "constEqual (ObjV u) (ObjV v) \<longleftrightarrow> u = v"
| "constEqual (NativeV u _ _ _) (NativeV v _ _ _) \<longleftrightarrow> u = v"
| "constEqual _ _ \<longleftrightarrow> False"

definition Intern :: "vv \<Rightarrow> vv list \<Rightarrow> int \<times> vv list" where
  "Intern v P = (let i = length (takeWhile (\<lambda>x. \<not> constEqual x v) P) in
     (int i, if i < length P then P else P @ [v]))"

definition poolConstant :: "vv \<Rightarrow> 'e cstate \<Rightarrow> int \<times> 'e cstate" where
  "poolConstant v st = (let (n, P) = Intern v (cs_pool st) in (n, st\<lparr>cs_pool := P\<rparr>))"

definition loadConstant :: "vv \<Rightarrow> 'e cstate \<Rightarrow> 'e cstate" where
  "loadConstant v st = (let (n, st') = poolConstant v st in
     upd_cur (incSP 1 \<circ> emitWithArg OP_LOAD_CONST n) st')"

definition loadVar :: "nat \<Rightarrow> 'e cstate \<Rightarrow> 'e cstate" where
  "loadVar v st = (let (n, st') = poolConstant (VarV v) st in
     upd_cur (incSP 1 \<circ> emitWithArg OP_LOAD_VAR n) st')"

definition emitCell :: "cell \<Rightarrow> cctx \<Rightarrow> cctx" where
  "emitCell cl c = incSP 1 (case cl of
     LocalCell l \<Rightarrow> emitWithArg OP_DUP_NTH (cx_sp c - 1 - l) c
   | ArgCell n \<Rightarrow> emitWithArg OP_LOAD_ARG n c
   | ClosureCell k \<Rightarrow> emitWithArg OP_LOAD_CLOSEDOVER (int k) c)"

subsection \<open>Scopes\<close>

definition pushLocals :: "cctx \<Rightarrow> cctx" where
  "pushLocals c = c\<lparr>cx_locals := [] # cx_locals c, cx_slots := 0 # cx_slots c\<rparr>"

definition popLocals :: "cctx \<Rightarrow> cctx" where
  "popLocals c = c\<lparr>cx_locals := tl (cx_locals c), cx_slots := tl (cx_slots c)\<rparr>"

definition addLocal :: "string \<Rightarrow> cctx \<Rightarrow> cctx" where
  "addLocal name c = c\<lparr>cx_locals := (case cx_locals c of [] \<Rightarrow> [] | s # ss \<Rightarrow> ((name, cx_sp c - 1) # s) # ss),
     cx_slots := (case cx_slots c of [] \<Rightarrow> [] | n # ns \<Rightarrow> Suc n # ns)\<rparr>"

fun lookupScopes :: "(string \<times> int) list list \<Rightarrow> string \<Rightarrow> int option" where
  "lookupScopes [] s = None"
| "lookupScopes (m # ms) s = (case map_of m s of Some l \<Rightarrow> Some l | None \<Rightarrow> lookupScopes ms s)"

definition lookupLocal :: "string \<Rightarrow> cctx \<Rightarrow> int option" where
  "lookupLocal s c = lookupScopes (cx_locals c) s"

definition arg :: "string \<Rightarrow> cctx \<Rightarrow> int option" where
  "arg s c = map_of (cx_args c) s"

definition capture_index :: "string \<Rightarrow> cctx \<Rightarrow> nat option" where
  "capture_index s c = (let i = length (takeWhile (\<lambda>e. fst e \<noteq> s) (cx_captured c)) in
     if i < length (cx_captured c) then Some i else None)"

text \<open>A symbol of an enclosing function is captured in every context on the way.\<close>

fun lookup_chain :: "string \<Rightarrow> cctx list \<Rightarrow> cell option \<times> cctx list" where
  "lookup_chain s [] = (None, [])"
| "lookup_chain s (c # cs) = (case lookupLocal s c of
     Some l \<Rightarrow> (Some (LocalCell l), c # cs)
   | None \<Rightarrow> (case arg s c of
       Some n \<Rightarrow> (Some (ArgCell n), c # cs)
     | None \<Rightarrow> (case capture_index s c of
         Some k \<Rightarrow> (Some (ClosureCell k), c # cs)
       | None \<Rightarrow> (case lookup_chain s cs of
           (None, cs') \<Rightarrow> (None, c # cs')
         | (Some outer, cs') \<Rightarrow>
             (Some (ClosureCell (length (cx_captured c))),
              c\<lparr>cx_captured := cx_captured c @ [(s, outer)]\<rparr> # cs')))))"

definition symbolLookup :: "string \<Rightarrow> 'e cstate \<Rightarrow> cell option \<times> 'e cstate" where
  "symbolLookup s st = (case lookup_chain s (cs_cur st # cs_outer st) of
     (r, c # cs) \<Rightarrow> (r, st\<lparr>cs_cur := c, cs_outer := cs\<rparr>) | (r, []) \<Rightarrow> (r, st))"

definition resolvesAsLexical :: "string \<Rightarrow> 'e cstate \<Rightarrow> bool" where
  "resolvesAsLexical s st \<longleftrightarrow> list_ex (\<lambda>c. capture_index s c \<noteq> None \<or> lookupLocal s c \<noteq> None \<or> arg s c \<noteq> None)
     (cs_cur st # cs_outer st)"

definition pushRecurPoint :: "nat \<Rightarrow> cctx \<Rightarrow> cctx" where
  "pushRecurPoint argsc c = c\<lparr>cx_recurs :=
     \<lparr>rp_address = currentAddress c, rp_locals = length (cx_locals c), rp_argsc = argsc\<rparr> # cx_recurs c\<rparr>"

definition popRecurPoint :: "cctx \<Rightarrow> cctx" where
  "popRecurPoint c = c\<lparr>cx_recurs := tl (cx_recurs c)\<rparr>"

subsection \<open>Several forms\<close>

fun compileAll :: "'e compiler \<Rightarrow> form list \<Rightarrow> 'e cstate \<Rightarrow> 'e cresult" where
  "compileAll cf [] st = Ok st"
| "compileAll cf (f # fs) st = obind (cf f st) (compileAll cf fs)"

text \<open>Forms whose last value is kept. \<open>pre\<close> runs before each; the last is compiled in tail
  position when \<open>tp\<close> says so.\<close>

fun compileBody :: "(form \<Rightarrow> 'e cstate \<Rightarrow> 'e cresult) \<Rightarrow> 'e compiler \<Rightarrow> bool \<Rightarrow> form list \<Rightarrow> 'e cstate \<Rightarrow> 'e cresult" where
  "compileBody pre cf tp [] st = Ok (loadConstant NIL st)"
| "compileBody pre cf tp [f] st = obind (pre f st) (\<lambda>st1. cf f (if tp then upd_cur (setTail True) st1 else st1))"
| "compileBody pre cf tp (f # g # fs) st = obind (pre f st) (\<lambda>st1. obind (cf f st1) (\<lambda>st2.
     compileBody pre cf tp (g # fs) (upd_cur (decSP 1 \<circ> emit OP_POP) st2)))"

abbreviation no_pre :: "form \<Rightarrow> 'e cstate \<Rightarrow> 'e cresult" where
  "no_pre f st \<equiv> Ok st"

section \<open>Special forms\<close>

text \<open>A form compiler is given the list form without its head.\<close>

definition ifCompiler :: "'e compiler \<Rightarrow> form list \<Rightarrow> 'e cstate \<Rightarrow> 'e cresult" where
  "ifCompiler cf args st = (let tc = cx_tail (cs_cur st) in
     case args of
       test # thn # els \<Rightarrow>
         if 1 < length els then Err (CompileError ''if: wrong number of forms'')
         else obind (cf test (upd_cur (setTail False) st)) (\<lambda>st1.
           let elseJumpStart = currentAddress (cs_cur st1);
               st2 = upd_cur (setTail tc \<circ> decSP 1 \<circ> emitWithArg OP_BRANCH_FALSE 0) st1 in
           obind (cf thn st2) (\<lambda>st3.
             let finJumpStart = currentAddress (cs_cur st3);
                 st4 = upd_cur (emitWithArg OP_JUMP 0 \<circ> decSP 1) st3;
                 st5 = upd_cur (updatePlaceholderArg elseJumpStart (currentAddress (cs_cur st4) - elseJumpStart)) st4 in
             obind (case els of e # _ \<Rightarrow> cf e st5 | [] \<Rightarrow> Ok (loadConstant NIL st5)) (\<lambda>st6.
               Ok (upd_cur (updatePlaceholderArg finJumpStart (currentAddress (cs_cur st6) - finJumpStart)) st6))))
     | _ \<Rightarrow> Err (CompileError ''if: wrong number of forms''))"

definition simulate :: "'e chost \<Rightarrow> form \<Rightarrow> 'e cstate \<Rightarrow> 'e cresult" where
  "simulate H f st = obind (ch_simulate H f (cs_env st)) (\<lambda>e. Ok (st\<lparr>cs_env := e\<rparr>))"

definition doCompiler :: "'e chost \<Rightarrow> 'e compiler \<Rightarrow> form list \<Rightarrow> 'e cstate \<Rightarrow> 'e cresult" where
  "doCompiler H cf args st = (let tc = cx_tail (cs_cur st);
       st0 = upd_cur (setTail False) st;
       st1 = (case args of f # _ \<Rightarrow> st0\<lparr>cs_env := ch_detectInNS H f (cs_env st0)\<rparr> | [] \<Rightarrow> st0) in
     obind (compileBody (simulate H) cf tc args st1) (\<lambda>st2. Ok (upd_cur (setTail tc) st2)))"

fun compileBindings :: "'e compiler \<Rightarrow> form list \<Rightarrow> 'e cstate \<Rightarrow> 'e cresult" where
  "compileBindings cf [] st = Ok st"
| "compileBindings cf [b] st = (case stripBindingMeta b of
     FSym name \<Rightarrow> Err (CompileError ''bindings must have even number of forms'')
   | _ \<Rightarrow> Err (CompileError ''binding name must be a symbol''))"
| "compileBindings cf (b # v # bs) st = (case stripBindingMeta b of
     FSym name \<Rightarrow> obind (cf v st) (\<lambda>st1. compileBindings cf bs (upd_cur (addLocal name) st1))
   | _ \<Rightarrow> Err (CompileError ''binding name must be a symbol''))"

definition popScope :: "nat \<Rightarrow> cctx \<Rightarrow> cctx" where
  "popScope bindn c = (let c1 = popLocals c in
     if 0 < bindn then decSP (int bindn) (emitWithArg OP_POP_N (int bindn) c1) else c1)"

definition letCompiler :: "'e compiler \<Rightarrow> form list \<Rightarrow> 'e cstate \<Rightarrow> 'e cresult" where
  "letCompiler cf args st = (case args of
     [] \<Rightarrow> Err (CompileError ''let requires bindings'')
   | FVec m binds # body \<Rightarrow> (let tc = cx_tail (cs_cur st) in
       obind (compileBindings cf binds (upd_cur (setTail False \<circ> pushLocals) st)) (\<lambda>st1.
       obind (compileBody no_pre cf tc body st1) (\<lambda>st2.
       Ok (upd_cur (setTail tc \<circ> popScope (length binds div 2)) st2))))
   | _ \<Rightarrow> Err (CompileError ''let bindings should be a vector''))"

definition loopCompiler :: "'e compiler \<Rightarrow> form list \<Rightarrow> 'e cstate \<Rightarrow> 'e cresult" where
  "loopCompiler cf args st = (case args of
     [] \<Rightarrow> Err (CompileError ''loop requires bindings'')
   | FVec m binds # body \<Rightarrow> (let tc = cx_tail (cs_cur st); bindn = length binds div 2 in
       obind (compileBindings cf binds (upd_cur (setTail False \<circ> pushLocals) st)) (\<lambda>st1.
       obind (compileBody no_pre cf True body (upd_cur (pushRecurPoint bindn) st1)) (\<lambda>st2.
       Ok (upd_cur (setTail tc \<circ> popScope bindn \<circ> popRecurPoint) st2))))
   | _ \<Rightarrow> Err (CompileError ''loop bindings should be a vector''))"

definition recurCompiler :: "'e compiler \<Rightarrow> form list \<Rightarrow> 'e cstate \<Rightarrow> 'e cresult" where
  "recurCompiler cf args st = (let c = cs_cur st; argc = length args in
     if \<not> cx_tail c then Err (CompileError ''recur is only allowed in tail position'')
     else (case cx_recurs c of
         rp # _ \<Rightarrow> if argc \<noteq> rp_argsc rp then Err (CompileError ''recur argument count must match loop bindings count'')
           else obind (compileAll cf args (upd_cur (setTail False) st)) (\<lambda>st1.
             let c1 = cs_cur st1;
                 passed = length (cx_locals c1) - rp_locals rp;
                 ignore = sum_list (take passed (cx_slots c1)) in
             Ok (upd_cur (decSP (int argc - 1) \<circ> setTail True \<circ> append32 (int ignore) \<circ> append32 (int argc) \<circ>
               emitWithArg OP_RECUR (currentAddress c1 - rp_address rp)) st1))
       | [] \<Rightarrow> if \<not> cx_isFunction c then Err (CompileError ''recur is only allowed inside loops and functions'')
           else if argc \<noteq> cx_argCount c then Err (CompileError ''recur argument count must match function argument count'')
           else obind (compileAll cf args (upd_cur (setTail False) st)) (\<lambda>st1.
             Ok (upd_cur (decSP (int argc - 1) \<circ> setTail True \<circ> emitWithArg OP_RECUR_FN (int argc)) st1))))"

text \<open>What a quoted form is as a value.\<close>

fun const_of :: "'e chost \<Rightarrow> form \<Rightarrow> vv" where
  "const_of H (FVal v) = v"
| "const_of H (FSym s) = Prim (VSymbol s)"
| "const_of H (FList fs) = (if fs = [] then Prim VEmptyList else ListV (map (const_of H) fs))"
| "const_of H f = ObjV (ch_object H f)"

definition quoteCompiler :: "'e chost \<Rightarrow> form list \<Rightarrow> 'e cstate \<Rightarrow> 'e cresult" where
  "quoteCompiler H args st = Ok (loadConstant (case args of f # _ \<Rightarrow> const_of H f | [] \<Rightarrow> NIL) st)"

definition varCompiler :: "'e chost \<Rightarrow> form list \<Rightarrow> 'e cstate \<Rightarrow> 'e cresult" where
  "varCompiler H args st = (case args of
     FSym s # _ \<Rightarrow> (case ch_lookupPrivate H (cs_env st) s of
         Some v \<Rightarrow> Ok (loadConstant (VarV v) st)
       | None \<Rightarrow> Err (CompileError ''Can't resolve symbol in this context''))
   | _ \<Rightarrow> Panic)"

definition setBangCompiler :: "'e chost \<Rightarrow> 'e compiler \<Rightarrow> form list \<Rightarrow> 'e cstate \<Rightarrow> 'e cresult" where
  "setBangCompiler H cf args st = (case args of
     [FSym s, val] \<Rightarrow> (let tc = cx_tail (cs_cur st);
         v = (case ch_lookup H (cs_env st) s of Some u \<Rightarrow> VarV u | None \<Rightarrow> NIL) in
       obind (cf val (loadConstant v (upd_cur (setTail False) st))) (\<lambda>st1.
       Ok (upd_cur (setTail tc \<circ> decSP 1 \<circ> emit OP_SET_VAR) st1)))
   | [_, _] \<Rightarrow> Err (CompileError ''set!: first argument must be a symbol'')
   | _ \<Rightarrow> Err (CompileError ''set!: wrong number of forms''))"

text \<open>A core function pushed by name: the constant is its var.\<close>

definition coreConst :: "'e chost \<Rightarrow> string \<Rightarrow> 'e cstate \<Rightarrow> vv" where
  "coreConst H s st = (case ch_core H (cs_env st) s of Some v \<Rightarrow> VarV v | None \<Rightarrow> NIL)"

text \<open>The target, the docstring and the value of a \<open>def\<close>; the target is a symbol, maybe with metadata.\<close>

definition defArgs :: "form list \<Rightarrow> (cerr, form \<times> string option \<times> form option) outcome" where
  "defArgs args = (case args of
       [s] \<Rightarrow> Ok (s, None, None)
     | [s, v] \<Rightarrow> Ok (s, None, Some v)
     | [s, FVal (Prim (VString doc)), v] \<Rightarrow> Ok (s, Some doc, Some v)
     | [_, _, _] \<Rightarrow> Err (CompileError ''def: 3-arg form requires a docstring'')
     | _ \<Rightarrow> Err (CompileError ''def: wrong number of forms''))"

definition defTarget :: "form \<Rightarrow> (cerr, string \<times> form option) outcome" where
  "defTarget s = (case s of
       FSym name \<Rightarrow> Ok (name, None)
     | FList (FSym h # rest) \<Rightarrow> if h \<noteq> ''with-meta'' then Err (CompileError ''def: first argument must be a symbol'')
         else (case rest of
             FSym name # m # _ \<Rightarrow> Ok (name, Some m)
           | _ # _ # _ \<Rightarrow> Err (CompileError ''def: first argument must be a symbol'')
           | _ \<Rightarrow> Panic)
     | _ \<Rightarrow> Err (CompileError ''def: first argument must be a symbol''))"

text \<open>The IR rewrite of a \<open>def\<close>'s value is asked for outside functions and \<open>let\<close>s only.\<close>

definition maybeIRCompileDefFnArg :: "'e chost \<Rightarrow> string \<Rightarrow> form \<Rightarrow> 'e cstate \<Rightarrow> (cerr, form option) outcome \<times> 'e" where
  "maybeIRCompileDefFnArg H name x st =
     (if cx_locals (cs_cur st) \<noteq> [] then (Ok None, cs_env st) else ch_irCompile H name x (cs_env st))"

definition defCompiler :: "'e chost \<Rightarrow> 'e compiler \<Rightarrow> form \<Rightarrow> form list \<Rightarrow> 'e cstate \<Rightarrow> 'e cresult" where
  "defCompiler H cf form args st = (let tc = cx_tail (cs_cur st) in
     obind (defArgs args) (\<lambda>(s, doc, val). obind (defTarget s) (\<lambda>(name, m).
       let (v, e1) = ch_intern H name (cs_env st);
           (meta, e2) = ch_defMeta H name m doc form v e1;
           st1 = upd_cur (\<lambda>c. c\<lparr>cx_tail := False, cx_defName := name\<rparr>) (st\<lparr>cs_env := e2\<rparr>);
           st2 = loadConstant (VarV v) st1;
           st3 = loadConstant meta (loadConstant (VarV v) (loadConstant (coreConst H ''apply-def-meta!'' st2) st2));
           st4 = upd_cur (decSP 1 \<circ> emit OP_POP \<circ> decSP 2 \<circ> emitWithArg OP_INVOKE 2) st3 in
       case val of
         None \<Rightarrow> Ok (upd_cur (\<lambda>c. c\<lparr>cx_tail := tc, cx_defName := ''''\<rparr>) st4)
       | Some x \<Rightarrow> (case maybeIRCompileDefFnArg H name x st4 of
           (r, e3) \<Rightarrow> obind r (\<lambda>rewritten.
             obind (cf (case rewritten of Some y \<Rightarrow> y | None \<Rightarrow> x) (st4\<lparr>cs_env := e3\<rparr>)) (\<lambda>st5.
             Ok (upd_cur (\<lambda>c. (decSP 1 (emit OP_SET_VAR c))\<lparr>cx_tail := tc, cx_defName := ''''\<rparr>) st5)))))))"

subsection \<open>Functions\<close>

text \<open>The parameters of a function, numbered from 0; \<open>&\<close> takes no slot.\<close>

fun enterArgs :: "form list \<Rightarrow> int \<Rightarrow> cctx \<Rightarrow> (cerr, cctx) outcome" where
  "enterArgs [] i fc = Ok fc"
| "enterArgs (a # as) i fc = (case stripBindingMeta a of
     FSym s \<Rightarrow>
       if s = ''&'' then
         (if cx_variadic fc then Err (CompileError ''only one rest argument allowed'')
          else enterArgs as (i + 1) (fc\<lparr>cx_variadic := True\<rparr>))
       else if cx_variadic fc \<and> as \<noteq> [] then Err (CompileError ''only one argument allowed after &'')
       else enterArgs as (i + 1) (fc\<lparr>cx_argCount := cx_argCount fc + 1,
              cx_args := (s, if cx_variadic fc then i - 1 else i) # cx_args fc\<rparr>)
   | _ \<Rightarrow> Err (CompileError ''all fn formal arguments must be symbols''))"

definition enterFn :: "form list \<Rightarrow> 'e cstate \<Rightarrow> 'e cresult" where
  "enterFn args st = obind (enterArgs args 0 (newContext\<lparr>cx_isFunction := True, cx_tail := True\<rparr>)) (\<lambda>fc.
     Ok (st\<lparr>cs_cur := fc, cs_outer := cs_cur st # cs_outer st\<rparr>))"

definition chunk_of :: "'e chost \<Rightarrow> cctx \<Rightarrow> chunk" where
  "chunk_of H fc = \<lparr>ck_maxStack = cx_spMax fc, ck_consts = ch_pool H, ck_code = cx_code fc\<rparr>"

definition pushCapture :: "cell \<Rightarrow> cctx \<Rightarrow> cctx" where
  "pushCapture src c = decSP 1 (emit OP_PUSH_CLOSEDOVER (emitCell src c))"

definition leaveFn :: "'e chost \<Rightarrow> 'e cstate \<Rightarrow> 'e cresult" where
  "leaveFn H st = (case cs_outer st of
     [] \<Rightarrow> Panic
   | c # cs \<Rightarrow> (let fc = cs_cur st;
         f = FuncV (cx_defName c) (int (cx_argCount fc)) (cx_variadic fc) (chunk_of H fc);
         st1 = loadConstant f (st\<lparr>cs_cur := c, cs_outer := cs\<rparr>) in
       Ok (if cx_captured fc = [] then st1
           else upd_cur (fold (\<lambda>(s, src). pushCapture src) (cx_captured fc) \<circ> emit OP_MAKE_CLOSURE) st1)))"

definition fnFormCompiler :: "'e chost \<Rightarrow> 'e compiler \<Rightarrow> form list \<Rightarrow> form list \<Rightarrow> 'e cstate \<Rightarrow> 'e cresult" where
  "fnFormCompiler H cf args body st = obind (enterFn args st) (\<lambda>st1.
     obind (compileBody no_pre cf True body (upd_cur (setTail False) st1)) (\<lambda>st2.
     leaveFn H (upd_cur (emit OP_RETURN) st2)))"

fun fnArms :: "'e chost \<Rightarrow> 'e compiler \<Rightarrow> form list \<Rightarrow> 'e cstate \<Rightarrow> 'e cresult" where
  "fnArms H cf [] st = Ok st"
| "fnArms H cf (arm # arms) st = (case formSeq arm of
     Some (FVec m args # body) \<Rightarrow> obind (fnFormCompiler H cf args body st) (fnArms H cf arms)
   | Some _ \<Rightarrow> Err (CompileError ''unexpected fn form'')
   | None \<Rightarrow> Panic)"

definition fnCompiler :: "'e chost \<Rightarrow> 'e compiler \<Rightarrow> form list \<Rightarrow> 'e cstate \<Rightarrow> 'e cresult" where
  "fnCompiler H cf fs st = (case fs of
     FVec m args # body \<Rightarrow> fnFormCompiler H cf args body st
   | f # _ \<Rightarrow> if formSeq f = None then Err (CompileError ''unexpected fn form'')
       else obind (fnArms H cf fs st) (\<lambda>st1.
         Ok (upd_cur (decSP (int (length fs) - 1) \<circ> emitWithArg OP_MAKE_MULTI_ARITY (int (length fs))) st1))
   | [] \<Rightarrow> Err (CompileError ''unexpected fn form''))"

subsection \<open>Try\<close>

record try_parts =
  tr_body :: "form list"
  tr_clauses :: "(string \<times> string \<times> form list) list" \<comment> \<open>class, binding, body\<close>
  tr_finally :: "form list"

text \<open>\<open>(catch ClassSym bind body...)\<close> or \<open>(catch bind body...)\<close>: a class is qualified, dotted or upper-case.\<close>

definition parseCatch :: "'e chost \<Rightarrow> form list \<Rightarrow> (cerr, string \<times> string \<times> form list) outcome" where
  "parseCatch H rest = (case rest of
     [] \<Rightarrow> Err (CompileError ''catch requires a binding symbol'')
   | _ \<Rightarrow> (let (class, rest') = (case rest of
           FSym a # FSym b # rest2 \<Rightarrow>
             if CHR ''.'' \<in> set a \<or> CHR ''/'' \<in> set a \<or> ch_upper H a then (a, FSym b # rest2) else ('''', rest)
         | _ \<Rightarrow> ('''', rest)) in
       (case rest' of
          FSym b # body \<Rightarrow> Ok (class, b, body)
        | _ \<Rightarrow> Err (CompileError ''catch requires a binding symbol''))))"

fun parseTry :: "'e chost \<Rightarrow> form list \<Rightarrow> try_parts \<Rightarrow> (cerr, try_parts) outcome" where
  "parseTry H [] t = Ok t"
| "parseTry H (f # fs) t = (case formSeq f of
     Some (FSym h # rest) \<Rightarrow>
       if h = ''catch'' then obind (parseCatch H rest) (\<lambda>cl. parseTry H fs (t\<lparr>tr_clauses := tr_clauses t @ [cl]\<rparr>))
       else if h = ''finally'' then parseTry H fs (t\<lparr>tr_finally := tr_finally t @ rest\<rparr>)
       else parseTry H fs (t\<lparr>tr_body := tr_body t @ [f]\<rparr>)
   | _ \<Rightarrow> parseTry H fs (t\<lparr>tr_body := tr_body t @ [f]\<rparr>))"

text \<open>All clauses become one dispatch on the class, in source order.\<close>

definition dispatchClauses :: "string \<Rightarrow> (string \<times> string \<times> form list) list \<Rightarrow> form" where
  "dispatchClauses caught cls = foldr (\<lambda>(class, b, body) acc.
     FList [FSym ''if'',
       FList [FSym ''core/catch-matches?'',
         FList [FSym ''quote'', FSym (if class = '''' then ''Throwable'' else class)], FSym caught],
       FList (FSym ''let*'' # FVec None [FSym b, FSym caught] # body),
       acc]) cls (FList [FSym ''core/throw'', FSym caught])"

fun show_digits :: "nat \<Rightarrow> nat \<Rightarrow> string" where
  "show_digits 0 n = ''''"
| "show_digits (Suc k) n = (if n < 10 then [char_of (48 + n)] else show_digits k (n div 10) @ [char_of (48 + n mod 10)])"

definition caughtSym :: "nat \<Rightarrow> string" where
  "caughtSym n = ''__lg-caught-'' @ show_digits (Suc n) n @ [CHR 0x09]"

definition freshCaughtSym :: "'e cstate \<Rightarrow> string \<times> 'e cstate" where
  "freshCaughtSym st = (let n = Suc (cs_caught st) in (caughtSym n, st\<lparr>cs_caught := n\<rparr>))"

definition catchBlock :: "'e compiler \<Rightarrow> string \<Rightarrow> form \<Rightarrow> bool \<Rightarrow> 'e cstate \<Rightarrow> 'e cresult" where
  "catchBlock cf caught form hasFinally st =
     obind (cf form (upd_cur (addLocal caught \<circ> pushLocals) st)) (\<lambda>st1.
     Ok (upd_cur ((if hasFinally then emit OP_TRY_POP else id) \<circ> popLocals \<circ> decSP 1 \<circ> emitWithArg OP_POP_N 1) st1))"

definition finallyBlock :: "'e compiler \<Rightarrow> int \<Rightarrow> form list \<Rightarrow> 'e cstate \<Rightarrow> 'e cresult" where
  "finallyBlock cf finallyAddr forms st =
     obind (compileBody no_pre cf False forms st) (\<lambda>st1.
       let st2 = upd_cur (decSP 1 \<circ> emit OP_POP) st1; finallyEndAddr = currentAddress (cs_cur st2) in
       Ok (upd_cur (emitWithArg OP_FINALLY_END (finallyAddr - finallyEndAddr)) st2))"

definition tryLayout :: "'e compiler \<Rightarrow> form list \<Rightarrow> (string \<times> form) option \<Rightarrow> form list \<Rightarrow> 'e cstate \<Rightarrow> 'e cresult" where
  "tryLayout cf body handler finally st = (let tc = cx_tail (cs_cur st);
       tryPushAddr = currentAddress (cs_cur st);
       st1 = upd_cur (setTail False \<circ> append32 0 \<circ> append32 0 \<circ> emit OP_TRY_PUSH) st in
     obind (compileBody no_pre cf False body st1) (\<lambda>st2.
       let st3 = upd_cur (emit OP_TRY_POP) st2;
           jumpOverCatchAddr = currentAddress (cs_cur st3);
           st4 = upd_cur (emitWithArg OP_JUMP 0) st3;
           catchAddr = currentAddress (cs_cur st4) in
       obind (case handler of Some (caught, form) \<Rightarrow>
           obind (catchBlock cf caught form (finally \<noteq> []) st4) (\<lambda>st5.
             Ok (upd_cur (updatePlaceholderArg tryPushAddr (catchAddr - tryPushAddr)) st5))
         | None \<Rightarrow> Ok st4) (\<lambda>st6.
       let afterAddr = currentAddress (cs_cur st6);
           st7 = upd_cur (updatePlaceholderArg jumpOverCatchAddr (afterAddr - jumpOverCatchAddr) \<circ>
             (if finally = [] then id else updatePlaceholderArg (tryPushAddr + 1) (afterAddr - tryPushAddr))) st6 in
       obind (if finally = [] then Ok st7 else finallyBlock cf afterAddr finally st7) (\<lambda>st8.
       Ok (upd_cur (setTail tc) st8)))))"

text \<open>Without catch and \<open>finally\<close> the forms are compiled one after the other; the tail position of
  the whole is that of each.\<close>

fun compileEach :: "'e compiler \<Rightarrow> form list \<Rightarrow> 'e cstate \<Rightarrow> 'e cresult" where
  "compileEach cf [] st = Ok st"
| "compileEach cf [f] st = cf f st"
| "compileEach cf (f # g # fs) st = obind (cf f st) (\<lambda>st1.
     compileEach cf (g # fs) (upd_cur (decSP 1 \<circ> emit OP_POP) st1))"

definition tryCompiler :: "'e chost \<Rightarrow> 'e compiler \<Rightarrow> form list \<Rightarrow> 'e cstate \<Rightarrow> 'e cresult" where
  "tryCompiler H cf args st =
     (if args = [] then Err (CompileError ''try requires a body'')
      else obind (parseTry H args \<lparr>tr_body = [], tr_clauses = [], tr_finally = []\<rparr>) (\<lambda>t.
        if tr_clauses t = [] \<and> tr_finally t = [] then compileEach cf (tr_body t) st
        else if tr_clauses t = [] then tryLayout cf (tr_body t) None (tr_finally t) st
        else (let (caught, st1) = freshCaughtSym st in
          tryLayout cf (tr_body t) (Some (caught, dispatchClauses caught (tr_clauses t))) (tr_finally t) st1)))"

section \<open>Calls and literals\<close>

definition uncheckedArithFor :: "string \<Rightarrow> string" where
  "uncheckedArithFor op = (if op = ''+'' then ''clojure.core/unchecked-add''
     else if op = ''-'' then ''clojure.core/unchecked-subtract''
     else if op = ''*'' then ''clojure.core/unchecked-multiply''
     else if op = ''inc'' then ''clojure.core/unchecked-inc'' else ''clojure.core/unchecked-dec'')"

definition rewriteUncheckedArith :: "string \<Rightarrow> form list \<Rightarrow> form option" where
  "rewriteUncheckedArith base args =
     (if base = ''inc'' \<or> base = ''dec'' then
        (case args of [a] \<Rightarrow> Some (FList [FSym (uncheckedArithFor base), a]) | _ \<Rightarrow> None)
      else if base \<in> {''+'', ''-'', ''*''} then (case args of
          a # b # as \<Rightarrow> Some (foldl (\<lambda>acc x. FList [FSym (uncheckedArithFor base), acc, x])
            (FList [FSym (uncheckedArithFor base), a, b]) as)
        | [a] \<Rightarrow> if base = ''-'' then Some (FList [FSym ''clojure.core/unchecked-negate'', a]) else None
        | [] \<Rightarrow> None)
      else None)"

definition resolveCoreArith :: "'e chost \<Rightarrow> string \<Rightarrow> 'e cstate \<Rightarrow> string option \<times> 'e cstate" where
  "resolveCoreArith H s st =
     (if resolvesAsLexical s st then (None, st)
      else (case symbolLookup s st of
          (Some _, st1) \<Rightarrow> (None, st1)
        | (None, st1) \<Rightarrow> (case ch_lookup H (cs_env st1) s of
            None \<Rightarrow> (None, st1)
          | Some v \<Rightarrow> (find (\<lambda>name. ch_core H (cs_env st1) name = Some v) [''+'', ''-'', ''*'', ''inc'', ''dec''], st1))))"

definition fastOpcodeCoreName :: "'e chost \<Rightarrow> string \<Rightarrow> 'e cstate \<Rightarrow> string option \<times> 'e cstate" where
  "fastOpcodeCoreName H head st = (case splitNamespaced head of
       Some (sns, name) \<Rightarrow> (case ch_core H (cs_env st) name of
           None \<Rightarrow> (None, st)
         | Some coreVar \<Rightarrow> (let resolved = (case ch_lookup H (cs_env st) head of
               None \<Rightarrow> if sns = ''core'' then Some coreVar else None | Some v \<Rightarrow> Some v) in
             (if resolved = Some coreVar then Some name else None, st)))
     | None \<Rightarrow> (case symbolLookup head st of
           (Some _, st1) \<Rightarrow> (None, st1)
         | (None, st1) \<Rightarrow> (case ch_core H (cs_env st1) head of
             None \<Rightarrow> (None, st1)
           | Some coreVar \<Rightarrow> (if ch_lookup H (cs_env st1) head = Some coreVar then Some head else None, st1))))"

definition fastOps3 :: "(string \<times> opcode) list" where
  "fastOps3 = [(''aset'', OP_ASET)]"

definition fastOps2 :: "(string \<times> opcode) list" where
  "fastOps2 = [(''aget'', OP_AGET), (''+'', OP_ADD), (''-'', OP_SUB), (''*'', OP_MUL), (''bit-and'', OP_BIT_AND),
     (''bit-or'', OP_BIT_OR), (''bit-xor'', OP_BIT_XOR), (''bit-and-not'', OP_BIT_AND_NOT),
     (''bit-shift-left'', OP_BIT_SHIFT_LEFT), (''bit-shift-right'', OP_BIT_SHIFT_RIGHT),
     (''unsigned-bit-shift-right'', OP_UNSIGNED_BIT_SHIFT_RIGHT),
     (''unchecked-add'', OP_UNCHECKED OP_UNCHECKED_ADD), (''unchecked-subtract'', OP_UNCHECKED OP_UNCHECKED_SUB),
     (''unchecked-multiply'', OP_UNCHECKED OP_UNCHECKED_MUL), (''<'', OP_LT), (''<='', OP_LTE), (''>'', OP_GT),
     (''>='', OP_GTE), (''='', OP_EQ)]"

definition fastOps1 :: "(string \<times> opcode) list" where
  "fastOps1 = [(''inc'', OP_INC), (''dec'', OP_DEC), (''bit-not'', OP_BIT_NOT)]"

definition tryFastOpcode :: "'e chost \<Rightarrow> string \<Rightarrow> nat \<Rightarrow> 'e cstate \<Rightarrow> opcode option \<times> 'e cstate" where
  "tryFastOpcode H head argc st = (case fastOpcodeCoreName H head st of
     (None, st1) \<Rightarrow> (None, st1)
   | (Some name, st1) \<Rightarrow>
       (if ch_uncheckedMath H (cs_env st1) \<and> name \<in> {''+'', ''-'', ''*'', ''inc'', ''dec''} then None
        else if argc = 3 then map_of fastOps3 name
        else if argc = 2 then map_of fastOps2 name
        else if argc = 1 then map_of fastOps1 name
        else None, st1))"

text \<open>A call whose head is neither a special form nor a macro.\<close>

definition compileCall :: "'e chost \<Rightarrow> 'e compiler \<Rightarrow> form \<Rightarrow> form list \<Rightarrow> 'e cstate \<Rightarrow> 'e cresult" where
  "compileCall H cf fn args st = (let tp = cx_tail (cs_cur st); argc = length args;
       (fastOp, st1) = (case fn of FSym s \<Rightarrow> tryFastOpcode H s argc (upd_cur (setTail False) st)
         | _ \<Rightarrow> (None, upd_cur (setTail False) st)) in
     case fastOp of
       Some oc \<Rightarrow> obind (compileAll cf args st1) (\<lambda>st2.
         Ok (upd_cur (setTail tp \<circ> decSP (int argc - 1) \<circ> emit oc) st2))
     | None \<Rightarrow> obind (cf fn st1) (\<lambda>st2. obind (compileAll cf args st2) (\<lambda>st3.
         let oc = (if tp \<and> cx_recurs (cs_cur st3) = [] then OP_TAIL_CALL else OP_INVOKE) in
         Ok (upd_cur (setTail tp \<circ> decSP (int argc) \<circ> emitWithArg oc (int argc)) st3))))"

text \<open>\<open>(Name. args...)\<close> to \<open>(->Name args...)\<close>, and \<open>(.member target args...)\<close> to \<open>(. target 'member args...)\<close>.\<close>

definition ctorShorthand :: "string \<Rightarrow> string option" where
  "ctorShorthand s = (if 1 < length s \<and> last s = CHR ''.'' \<and> hd s \<noteq> CHR ''.'' \<and> take 2 s \<noteq> ''->''
     then Some (''->'' @ butlast s) else None)"

definition memberCall :: "string \<Rightarrow> string option" where
  "memberCall s = (if 1 < length s \<and> hd s = CHR ''.'' \<and> s ! 1 \<noteq> CHR ''.'' then Some (tl s) else None)"

definition expandMacro :: "'e chost \<Rightarrow> 'e compiler \<Rightarrow> nat \<Rightarrow> form \<Rightarrow> form list \<Rightarrow> 'e cstate \<Rightarrow> 'e cresult" where
  "expandMacro H cf v form args st = (case ch_expand H v form args (cs_env st) of
     (None, e) \<Rightarrow> Err (MacroFailed v)
   | (Some f, e) \<Rightarrow> cf f (st\<lparr>cs_env := e\<rparr>))"

definition compileMacroOrCall :: "'e chost \<Rightarrow> 'e compiler \<Rightarrow> string \<Rightarrow> form list \<Rightarrow> 'e cstate \<Rightarrow> 'e cresult" where
  "compileMacroOrCall H cf s args st =
     (case (if resolvesAsLexical s st then None else ch_lookup H (cs_env st) s) of
        Some v \<Rightarrow> if ch_isMacro H (cs_env st) v then expandMacro H cf v (FList (FSym s # args)) args st
          else compileCall H cf (FSym s) args st
      | None \<Rightarrow> compileCall H cf (FSym s) args st)"

definition compilePlainSymbolCall :: "'e chost \<Rightarrow> 'e compiler \<Rightarrow> string \<Rightarrow> form list \<Rightarrow> 'e cstate \<Rightarrow> 'e cresult" where
  "compilePlainSymbolCall H cf s args st =
     (if ch_uncheckedMath H (cs_env st) then (case resolveCoreArith H s st of
          (Some base, st1) \<Rightarrow> (case rewriteUncheckedArith base args of
              Some f \<Rightarrow> cf f st1
            | None \<Rightarrow> compileMacroOrCall H cf s args st1)
        | (None, st1) \<Rightarrow> compileMacroOrCall H cf s args st1)
      else compileMacroOrCall H cf s args st)"

definition compileSymbolHead :: "'e chost \<Rightarrow> 'e compiler \<Rightarrow> string \<Rightarrow> form list \<Rightarrow> 'e cstate \<Rightarrow> 'e cresult" where
  "compileSymbolHead H cf s args st =
     (if s = ''if'' then ifCompiler cf args st
      else if s = ''do'' then doCompiler H cf args st
      else if s = ''def'' then defCompiler H cf (FList (FSym s # args)) args st
      else if s = ''set!'' then setBangCompiler H cf args st
      else if s = ''fn*'' then fnCompiler H cf args st
      else if s = ''quote'' then quoteCompiler H args st
      else if s = ''var'' then varCompiler H args st
      else if s = ''let*'' then letCompiler cf args st
      else if s = ''loop*'' then loopCompiler cf args st
      else if s = ''recur'' then recurCompiler cf args st
      else if s = ''try'' then tryCompiler H cf args st
      else (case ctorShorthand s of
          Some ctor \<Rightarrow> cf (FList (FSym ctor # args)) st
        | None \<Rightarrow> (case memberCall s of
            Some member \<Rightarrow> (case args of
                [] \<Rightarrow> Err (CompileError ''Malformed member expression'')
              | obj # rest \<Rightarrow> cf (FList (FSym ''.'' # obj # FList [FSym ''quote'', FSym member] # rest)) st)
          | None \<Rightarrow> (case (if s = ''.'' then normalizeDotForm (FSym s # args) else None) of
              Some f \<Rightarrow> cf f st
            | None \<Rightarrow> compilePlainSymbolCall H cf s args st))))"

definition compileSymbol :: "'e chost \<Rightarrow> string \<Rightarrow> 'e cstate \<Rightarrow> 'e cresult" where
  "compileSymbol H s st =
     (let fallback = (\<lambda>st. case ch_hostClass H s of
          Some v \<Rightarrow> Ok (loadConstant v st)
        | None \<Rightarrow> Err (CompileError ''Can't resolve symbol in this context'')) in
      case splitNamespaced s of
        Some (sns, name) \<Rightarrow>
          (case (case ch_lookup H (cs_env st) s of
               None \<Rightarrow> if sns = ''core'' then ch_core H (cs_env st) name else None
             | Some v \<Rightarrow> Some v) of
             Some v \<Rightarrow> Ok (loadVar v st)
           | None \<Rightarrow> fallback st)
      | None \<Rightarrow> (case symbolLookup s st of
          (Some cl, st1) \<Rightarrow> Ok (upd_cur (emitCell cl) st1)
        | (None, st1) \<Rightarrow> (case ch_lookup H (cs_env st1) s of
            Some v \<Rightarrow> Ok (loadVar v st1)
          | None \<Rightarrow> fallback st1)))"

text \<open>A literal without symbols, calls and metadata is itself the constant.\<close>

fun self_evaluating :: "'e chost \<Rightarrow> vv \<Rightarrow> bool" where
  "self_evaluating H (Prim (VSymbol s)) = False"
| "self_evaluating H (Prim VEmptyList) = False"
| "self_evaluating H (Prim (VRef k n)) = (k \<in> {RFunc, RClosure, RMultiArityFn, RNativeFn})"
| "self_evaluating H (Prim x) = True"
| "self_evaluating H (FuncV _ _ _ _) = True"
| "self_evaluating H (ClosureV _ _) = True"
| "self_evaluating H (MultiV _ _ _ _) = True"
| "self_evaluating H (MetaV f) = self_evaluating H f"
| "self_evaluating H (NativeV _ _ _ _) = True"
| "self_evaluating H (ObjV n) = (ch_objType H n \<noteq> OtherType)"
| "self_evaluating H _ = False"

fun isConstantLiteral :: "'e chost \<Rightarrow> form \<Rightarrow> bool" where
  "isConstantLiteral H (FVal (Prim x)) = (self_evaluating H (Prim x) \<and> (case x of VRef _ _ \<Rightarrow> False | _ \<Rightarrow> True))"
| "isConstantLiteral H (FVec None fs) = list_all (isConstantLiteral H) fs"
| "isConstantLiteral H (FSet None fs) = list_all (isConstantLiteral H) fs"
| "isConstantLiteral H (FMap None kvs) = list_all (\<lambda>(k, v). isConstantLiteral H k \<and> isConstantLiteral H v) kvs"
| "isConstantLiteral H (FVal (ObjV n)) = (ch_objType H n \<in> {UUIDType, InstantType, RegexType})"
| "isConstantLiteral H _ = False"

text \<open>Data-read metadata keeps a bare type hint a symbol.\<close>

fun quoteTagHint :: "form \<Rightarrow> form" where
  "quoteTagHint (FMap m kvs) = FMap m (map (\<lambda>(k, v). case (k, v) of
     (FVal (Prim (VKeyword t)), FSym s) \<Rightarrow> (k, if t = ''tag'' then FList [FSym ''quote'', FSym s] else FSym s)
   | _ \<Rightarrow> (k, v)) kvs)"
| "quoteTagHint f = f"

definition compileAggregate :: "'e chost \<Rightarrow> 'e compiler \<Rightarrow> string \<Rightarrow> form \<Rightarrow> form option \<Rightarrow> form list \<Rightarrow> 'e cstate \<Rightarrow> 'e cresult" where
  "compileAggregate H cf ctor whole meta elems st = (let tp = cx_tail (cs_cur st); st0 = upd_cur (setTail False) st in
     if isConstantLiteral H whole then Ok (upd_cur (setTail tp) (loadConstant (const_of H whole) st0))
     else (let emit_it = (\<lambda>st1. obind (compileAll cf elems (loadConstant (coreConst H ctor st1) st1)) (\<lambda>st2.
             Ok (upd_cur (decSP (int (length elems)) \<circ> emitWithArg OP_INVOKE (int (length elems))) st2))) in
       obind (case meta of
           None \<Rightarrow> emit_it st0
         | Some m \<Rightarrow> obind (emit_it (loadConstant (coreConst H ''with-meta'' st0) st0)) (\<lambda>st1.
             obind (cf (quoteTagHint m) st1) (\<lambda>st2. Ok (upd_cur (decSP 2 \<circ> emitWithArg OP_INVOKE 2) st2))))
         (\<lambda>st3. Ok (upd_cur (setTail tp) st3))))"

section \<open>Compilation\<close>

definition compileStep :: "'e chost \<Rightarrow> 'e compiler \<Rightarrow> 'e compiler" where
  "compileStep H cf f st = (case f of
     FVal v \<Rightarrow> if self_evaluating H v then Ok (loadConstant v st)
       else if v = Prim VEmptyList then Ok (loadConstant v st)
       else Err (CompileError ''cannot compile a value of this type as a form'')
   | FSym s \<Rightarrow> compileSymbol H s st
   | FVec m fs \<Rightarrow> compileAggregate H cf ''vector'' f m fs st
   | FMap m kvs \<Rightarrow> compileAggregate H cf ''array-map'' f m (concat (map (\<lambda>(k, v). [k, v]) kvs)) st
   | FSet m fs \<Rightarrow> compileAggregate H cf ''hash-set'' f m fs st
   | FList [] \<Rightarrow> Ok (loadConstant (Prim VEmptyList) st)
   | FList (FSym s # args) \<Rightarrow> compileSymbolHead H cf s args st
   | FList (fn # args) \<Rightarrow> compileCall H cf fn args st)"

fun compileForm :: "'e chost \<Rightarrow> nat \<Rightarrow> 'e compiler" where
  "compileForm H 0 f st = Err OutOfFuel"
| "compileForm H (Suc n) f st = compileStep H (compileForm H n) f st"

definition Compile :: "'e chost \<Rightarrow> nat \<Rightarrow> form \<Rightarrow> 'e cstate \<Rightarrow> (cerr, chunk \<times> 'e cstate) outcome" where
  "Compile H n f st = obind (compileForm H n f (upd_cur (\<lambda>c. c\<lparr>cx_code := [], cx_sp := 0, cx_spMax := 0\<rparr>) st)) (\<lambda>st1.
     let st2 = upd_cur (decSP 1 \<circ> emit OP_RETURN) st1 in Ok (chunk_of H (cs_cur st2), st2))"

end
