(* ===== verification/LG_CodeSeg.thy ===== *)
theory LG_CodeSeg
  imports LG_VMType
begin

text \<open>
  Typings of pieces of code, and how they compose. \<open>seg\<close> says that a table types the words \<open>ws\<close>
  at address \<open>a\<close> in any code that has them there, under any typing of the whole that agrees
  with the table inside and satisfies the assumption \<open>R\<close> outside. \<open>piece\<close> is a segment with
  one entry and, when \<open>ex\<close> holds, an exit at its end; code after a jump that nothing reaches
  has an empty table.
\<close>

definition holds :: "u32 list \<Rightarrow> int \<Rightarrow> u32 list \<Rightarrow> bool" where
  "holds code a ws \<longleftrightarrow> (\<forall>i<length ws. slot code (a + int i) = Some (ws ! i))"

definition agrees_at :: "(int \<Rightarrow> aty option) \<Rightarrow> int \<Rightarrow> nat \<Rightarrow> typing \<Rightarrow> bool" where
  "agrees_at T a n tab \<longleftrightarrow> (\<forall>pc. a \<le> pc \<and> pc < a + int n \<longrightarrow> T pc = map_of tab pc)"

definition entry_ok :: "vv list \<Rightarrow> int \<Rightarrow> int \<Rightarrow> u32 list \<Rightarrow> (int \<Rightarrow> aty option) \<Rightarrow> int \<times> aty \<Rightarrow> bool" where
  "entry_ok P n L code T = (\<lambda>(pc, d, S). 0 \<le> d \<and> d \<le> L \<and> entries_ok T L S \<and> wt_instr P n code T pc d S)"

definition seg :: "vv list \<Rightarrow> int \<Rightarrow> int \<Rightarrow> ((int \<Rightarrow> aty option) \<Rightarrow> bool) \<Rightarrow> int \<Rightarrow> u32 list \<Rightarrow> typing \<Rightarrow> bool" where
  "seg P n L R a ws tab \<longleftrightarrow>
     (\<forall>e\<in>set tab. a \<le> fst e \<and> fst e < a + int (length ws)) \<and>
     (\<forall>T code. holds code a ws \<longrightarrow> agrees_at T a (length ws) tab \<longrightarrow> R T \<longrightarrow> (\<forall>e\<in>set tab. entry_ok P n L code T e))"

lemma all_less_add: "(\<forall>i<m + n. Q i) \<longleftrightarrow> (\<forall>i<m. Q i) \<and> (\<forall>i<n. Q (m + i))" for m n :: nat
proof -
  have "Q i" if "\<forall>i<m. Q i" "\<forall>i<n. Q (m + i)" "i < m + n" for i
    using that(1) that(2)[rule_format, of "i - m"] that(3) by (cases "i < m") auto
  then show ?thesis by auto
qed

lemma holds_append: "holds code a (us @ vs) \<longleftrightarrow> holds code a us \<and> holds code (a + int (length us)) vs"
  unfolding holds_def length_append all_less_add
  by (simp add: nth_append add.assoc del: slot_eq_Some)

lemma map_of_out: "\<forall>e\<in>set tab. \<not> fst e = pc \<Longrightarrow> map_of tab pc = None"
  by (induction tab) auto

lemma agrees_at_append:
  assumes "agrees_at T a (m + n) (tab1 @ tab2)"
    and "\<forall>e\<in>set tab1. a \<le> fst e \<and> fst e < a + int m" "\<forall>e\<in>set tab2. a + int m \<le> fst e \<and> fst e < a + int m + int n"
  shows "agrees_at T a m tab1" "agrees_at T (a + int m) n tab2"
proof -
  have "map_of tab2 pc = None" if "pc < a + int m" for pc using assms(3) that by (intro map_of_out) auto
  then show "agrees_at T a m tab1" using assms(1) by (auto simp: agrees_at_def map_add_def split: option.split)
  have "map_of tab1 pc = None" if "a + int m \<le> pc" for pc using assms(2) that by (intro map_of_out) force
  then show "agrees_at T (a + int m) n tab2"
    using assms(1) by (auto simp: agrees_at_def map_add_def split: option.split)
qed

text \<open>Two adjacent segments: each may use what the other's table says.\<close>

lemma seg_append:
  assumes "seg P n L R1 a us tab1" "seg P n L R2 (a + int (length us)) vs tab2"
    and "\<And>T. agrees_at T a (length us) tab1 \<Longrightarrow> agrees_at T (a + int (length us)) (length vs) tab2 \<Longrightarrow> R T \<Longrightarrow> R1 T \<and> R2 T"
  shows "seg P n L R a (us @ vs) (tab1 @ tab2)"
  unfolding seg_def
proof (intro conjI allI impI)
  show "\<forall>e\<in>set (tab1 @ tab2). a \<le> fst e \<and> fst e < a + int (length (us @ vs))"
    using assms(1,2) by (force simp: seg_def)
  fix T code
  assume h: "holds code a (us @ vs)" "agrees_at T a (length (us @ vs)) (tab1 @ tab2)" "R T"
  have t: "agrees_at T a (length us) tab1" "agrees_at T (a + int (length us)) (length vs) tab2"
    using agrees_at_append[of T a "length us" "length vs" tab1 tab2] h(2) assms(1,2) by (auto simp: seg_def)
  show "\<forall>e\<in>set (tab1 @ tab2). entry_ok P n L code T e"
    using assms(1,2) assms(3)[OF t h(3)] t h(1) by (auto simp: seg_def holds_append)
qed

lemma seg_empty: "seg P n L R a ws []"
  by (simp add: seg_def)

lemma seg_weaken: "seg P n L R a ws tab \<Longrightarrow> (\<And>T. R' T \<Longrightarrow> agrees_at T a (length ws) tab \<Longrightarrow> R T) \<Longrightarrow> seg P n L R' a ws tab"
  by (auto simp: seg_def)

lemma seg_pool: "seg P n L R a ws tab \<Longrightarrow> seg (P @ xs) n L R a ws tab"
proof -
  have "wt_instr P n code T pc d S \<Longrightarrow> wt_instr (P @ xs) n code T pc d S" for code T pc d S
    by (auto simp: wt_instr_def succs_append split: option.splits)
  then show "seg P n L R a ws tab \<Longrightarrow> seg (P @ xs) n L R a ws tab"
    by (fastforce simp: seg_def entry_ok_def)
qed

section \<open>Pieces\<close>

definition exits :: "bool \<Rightarrow> int \<Rightarrow> int \<Rightarrow> hty list \<Rightarrow> (int \<Rightarrow> aty option) \<Rightarrow> bool" where
  "exits ex pc d S T \<longleftrightarrow> (ex \<longrightarrow> flows T pc d S)"

definition piece ::
    "vv list \<Rightarrow> int \<Rightarrow> int \<Rightarrow> ((int \<Rightarrow> aty option) \<Rightarrow> bool) \<Rightarrow> int \<Rightarrow> u32 list \<Rightarrow> int \<Rightarrow> hty list \<Rightarrow> int \<Rightarrow> hty list \<Rightarrow> bool \<Rightarrow> typing \<Rightarrow> bool" where
  "piece P n L R a ws d S d' S' ex tab \<longleftrightarrow> map_of tab a = Some (d, S) \<and>
     seg P n L (\<lambda>T. R T \<and> exits ex (a + int (length ws)) d' S' T) a ws tab"

text \<open>A piece, or nothing: no words, or a start that is not reached.\<close>

definition part ::
    "bool \<Rightarrow> vv list \<Rightarrow> int \<Rightarrow> int \<Rightarrow> ((int \<Rightarrow> aty option) \<Rightarrow> bool) \<Rightarrow> int \<Rightarrow> u32 list \<Rightarrow> int \<Rightarrow> hty list \<Rightarrow> int \<Rightarrow> hty list \<Rightarrow> bool \<Rightarrow> typing \<Rightarrow> bool" where
  "part b P n L R a ws d S d' S' ex tab \<longleftrightarrow>
     (if \<not> b then tab = [] \<and> \<not> ex
      else if ws = [] then tab = [] \<and> ex \<and> d' = d \<and> S' = S
      else piece P n L R a ws d S d' S' ex tab)"

lemma hsub_refl [simp]: "hsub S S"
proof (induction S)
  case (Cons x S)
  then show ?case by (cases x) simp_all
qed simp

lemma flows_refl: "T pc = Some (d, S) \<Longrightarrow> flows T pc d S"
  by (simp add: flows_def)

lemma piece_pool: "piece P n L R a ws d S d' S' ex tab \<Longrightarrow> piece (P @ xs) n L R a ws d S d' S' ex tab"
  unfolding piece_def using seg_pool by blast

lemma piece_weaken:
  "piece P n L R a ws d S d' S' ex tab \<Longrightarrow> (\<And>T. R' T \<Longrightarrow> R T) \<Longrightarrow> piece P n L R' a ws d S d' S' ex tab"
  unfolding piece_def by (auto elim!: seg_weaken)

lemma piece_nonempty: "piece P n L R a ws d S d' S' ex tab \<Longrightarrow> ws \<noteq> []"
  by (auto simp: piece_def seg_def dest!: map_of_SomeD)

lemma piece_in: "piece P n L R a ws d S d' S' ex tab \<Longrightarrow> agrees_at T a (length ws) tab \<Longrightarrow> T a = Some (d, S)"
  using piece_nonempty[of P n L R a ws d S d' S' ex tab] by (auto simp: piece_def agrees_at_def)

lemma piece_seq:
  assumes "piece P n L R a us d S d1 S1 ex1 tab1"
    and "part ex1 P n L R (a + int (length us)) vs d1 S1 d2 S2 ex2 tab2"
  shows "piece P n L R a (us @ vs) d S d2 S2 ex2 (tab1 @ tab2)"
proof -
  consider (a) "\<not> ex1" "tab2 = []" "\<not> ex2" | (b) "vs = []" "tab2 = []" "ex1" "ex2" "d2 = d1" "S2 = S1"
    | (c) "ex1" "piece P n L R (a + int (length us)) vs d1 S1 d2 S2 ex2 tab2"
    using assms(2) by (auto simp: part_def split: if_splits)
  then show ?thesis
  proof cases
    case a
    have "seg P n L (\<lambda>T. R T \<and> exits ex2 (a + int (length (us @ vs))) d2 S2 T) a (us @ vs) (tab1 @ [])"
      by (rule seg_append[OF assms(1)[unfolded piece_def, THEN conjunct2] seg_empty[where R = "\<lambda>_. True"]])
        (use a in \<open>auto simp: exits_def\<close>)
    then show ?thesis using assms(1) a by (simp add: piece_def)
  next
    case b
    then show ?thesis using assms(1) by simp
  next
    case c
    have "seg P n L (\<lambda>T. R T \<and> exits ex2 (a + int (length (us @ vs))) d2 S2 T) a (us @ vs) (tab1 @ tab2)"
      by (rule seg_append[OF assms(1)[unfolded piece_def, THEN conjunct2] c(2)[unfolded piece_def, THEN conjunct2]])
        (use piece_in[OF c(2)] in \<open>auto simp: exits_def add.assoc intro: flows_refl\<close>)
    then show ?thesis using assms(1) by (simp add: piece_def)
  qed
qed

lemma part_seq:
  assumes "part b P n L R a us d S d1 S1 ex1 tab1"
    and "part ex1 P n L R (a + int (length us)) vs d1 S1 d2 S2 ex2 tab2"
  shows "part b P n L R a (us @ vs) d S d2 S2 ex2 (tab1 @ tab2)"
  using assms piece_seq[of P n L R a us d S d1 S1 ex1 tab1 vs d2 S2 ex2 tab2]
  by (auto simp: part_def split: if_splits)

lemma part_pool: "part b P n L R a ws d S d' S' ex tab \<Longrightarrow> part b (P @ xs) n L R a ws d S d' S' ex tab"
  by (auto simp: part_def piece_pool split: if_splits)

lemma part_weaken:
  "part b P n L R a ws d S d' S' ex tab \<Longrightarrow> (\<And>T. R' T \<Longrightarrow> R T) \<Longrightarrow> part b P n L R' a ws d S d' S' ex tab"
  by (auto simp: part_def intro: piece_weaken split: if_splits)

lemma part_piece: "piece P n L R a ws d S d' S' ex tab \<Longrightarrow> part True P n L R a ws d S d' S' ex tab"
  using piece_nonempty[of P n L R a ws d S d' S' ex tab] by (simp add: part_def)

lemma part_False [simp]: "part False P n L R a ws d S d' S' ex tab \<longleftrightarrow> tab = [] \<and> \<not> ex"
  by (simp add: part_def)

lemma part_Nil [simp]: "part True P n L R a [] d S d' S' ex tab \<longleftrightarrow> tab = [] \<and> ex \<and> d' = d \<and> S' = S"
  by (simp add: part_def)

text \<open>Any part is a segment; when entered and not empty, its table has the entry.\<close>

lemma part_seg:
  "part b P n L R a ws d S d' S' ex tab \<Longrightarrow> seg P n L (\<lambda>T. R T \<and> exits ex (a + int (length ws)) d' S' T) a ws tab"
  by (auto simp: part_def piece_def seg_empty split: if_splits)

lemma part_in:
  "part True P n L R a ws d S d' S' ex tab \<Longrightarrow> ws \<noteq> [] \<Longrightarrow> agrees_at T a (length ws) tab \<Longrightarrow> T a = Some (d, S)"
  using piece_in by (auto simp: part_def)

section \<open>Blocks\<close>

text \<open>Adjacent segments with their assumptions; together each may use all the tables.\<close>

type_synonym block = "((int \<Rightarrow> aty option) \<Rightarrow> bool) \<times> u32 list \<times> typing"

fun segs :: "vv list \<Rightarrow> int \<Rightarrow> int \<Rightarrow> int \<Rightarrow> block list \<Rightarrow> bool" where
  "segs P n L a [] \<longleftrightarrow> True"
| "segs P n L a ((R, ws, tab) # bs) \<longleftrightarrow> seg P n L R a ws tab \<and> segs P n L (a + int (length ws)) bs"

fun known :: "(int \<Rightarrow> aty option) \<Rightarrow> int \<Rightarrow> block list \<Rightarrow> bool" where
  "known T a [] \<longleftrightarrow> True"
| "known T a ((R, ws, tab) # bs) \<longleftrightarrow> agrees_at T a (length ws) tab \<and> known T (a + int (length ws)) bs"

fun needs :: "(int \<Rightarrow> aty option) \<Rightarrow> block list \<Rightarrow> bool" where
  "needs T [] \<longleftrightarrow> True"
| "needs T ((R, ws, tab) # bs) \<longleftrightarrow> R T \<and> needs T bs"

fun block_words :: "block list \<Rightarrow> u32 list" where
  "block_words [] = []"
| "block_words ((R, ws, tab) # bs) = ws @ block_words bs"

fun block_table :: "block list \<Rightarrow> typing" where
  "block_table [] = []"
| "block_table ((R, ws, tab) # bs) = tab @ block_table bs"

lemma seg_range: "seg P n L R a ws tab \<Longrightarrow> \<forall>e\<in>set tab. a \<le> fst e \<and> fst e < a + int (length ws)"
  by (simp add: seg_def)

lemma segs_range:
  "segs P n L a bs \<Longrightarrow> \<forall>e\<in>set (block_table bs). a \<le> fst e \<and> fst e < a + int (length (block_words bs))"
  by (induction bs arbitrary: a rule: block_words.induct) (force dest: seg_range)+

lemma agrees_known:
  "segs P n L a bs \<Longrightarrow> agrees_at T a (length (block_words bs)) (block_table bs) \<Longrightarrow> known T a bs"
proof (induction bs arbitrary: a rule: block_words.induct)
  case (2 R ws tab bs)
  from 2(2) have s: "seg P n L R a ws tab" "segs P n L (a + int (length ws)) bs" by simp_all
  have "agrees_at T a (length ws + length (block_words bs)) (tab @ block_table bs)" using 2(3) by simp
  from agrees_at_append[OF this seg_range[OF s(1)] segs_range[OF s(2)]] 2(1)[OF s(2)] show ?case by simp
qed simp

lemma segs_entries:
  "segs P n L a bs \<Longrightarrow> holds code a (block_words bs) \<Longrightarrow> known T a bs \<Longrightarrow> needs T bs \<Longrightarrow>
   \<forall>e\<in>set (block_table bs). entry_ok P n L code T e"
  by (induction bs arbitrary: a rule: block_words.induct) (auto simp: seg_def holds_append)

lemma segs_join:
  assumes "segs P n L a bs" "\<And>T. known T a bs \<Longrightarrow> R T \<Longrightarrow> needs T bs"
  shows "seg P n L R a (block_words bs) (block_table bs)"
  unfolding seg_def
  using segs_range[OF assms(1)] segs_entries[OF assms(1)] agrees_known[OF assms(1)] assms(2) by blast

section \<open>Single instructions\<close>

lemma holds_slot: "holds code a ws \<Longrightarrow> i < length ws \<Longrightarrow> slot code (a + int i) = Some (ws ! i)"
  by (simp add: holds_def)

lemma seg_one:
  assumes "decode w = Some oc" "0 \<le> d" "d \<le> L"
    and "\<And>T code. holds code a (w # args) \<Longrightarrow> R T \<Longrightarrow> agrees_at T a (Suc (length args)) [(a, d, S)] \<Longrightarrow>
      entries_ok T L S \<and> (\<exists>ss. succs P n code a oc d S = Some ss \<and> list_all (\<lambda>(pc, d, S). flows T pc d S) ss)"
  shows "seg P n L R a (w # args) [(a, d, S)]"
proof -
  have w: "slot code a = Some w" if "holds code a (w # args)" for code
    using holds_slot[OF that, of 0] by simp
  have "entry_ok P n L code T (a, d, S)"
    if h: "holds code a (w # args)" "agrees_at T a (Suc (length args)) [(a, d, S)]" "R T" for code T
    using assms(4)[OF h(1,3,2)] assms(1-3) w[OF h(1)]
    by (auto simp: entry_ok_def wt_instr_def simp del: slot_eq_Some)
  then show ?thesis by (simp add: seg_def)
qed

lemma argw_holds:
  "holds code a (w # x # args) \<Longrightarrow> argw code (a + 1) = Some (sint x)"
  "holds code a (w # x # y # args) \<Longrightarrow> argw code (a + 2) = Some (sint y)"
  "holds code a (w # x # y # z # args) \<Longrightarrow> argw code (a + 3) = Some (sint z)"
  using holds_slot[of code a "w # x # args" 1] holds_slot[of code a "w # x # y # args" 2]
    holds_slot[of code a "w # x # y # z # args" 3]
  by (simp_all add: argw_def del: slot_eq_Some)

text \<open>An instruction that goes on with the next one only.\<close>

lemma piece_next:
  assumes "decode w = Some oc" "0 \<le> d" "d \<le> L"
    and "\<And>code. holds code a (w # args) \<Longrightarrow> succs P n code a oc d S = Some [(a + 1 + int (length args), d', S')]"
  shows "piece P n L (\<lambda>T. entries_ok T L S) a (w # args) d S d' S' True [(a, d, S)]"
  unfolding piece_def
  using assms by (auto intro!: seg_one simp: exits_def algebra_simps)

text \<open>An instruction that does not go on.\<close>

lemma piece_stop:
  assumes "decode w = Some oc" "0 \<le> d" "d \<le> L"
    and "\<And>code. holds code a (w # args) \<Longrightarrow> \<exists>ss. succs P n code a oc d S = Some ss \<and>
      (\<forall>T. R T \<longrightarrow> list_all (\<lambda>(pc, d, S). flows T pc d S) ss)"
  shows "piece P n L (\<lambda>T. entries_ok T L S \<and> R T) a (w # args) d S d' S' False [(a, d, S)]"
  unfolding piece_def
  using assms by (fastforce intro!: seg_one)

section \<open>Control structures\<close>

lemma agrees_entry: "agrees_at T a (length (w # ws)) ((a, d, S) # tab) \<Longrightarrow> T a = Some (d, S)"
  by (simp add: agrees_at_def)

lemma seg_jump:
  assumes "decode w = Some OP_JUMP" "0 \<le> d" "d \<le> L"
  shows "seg P n L (\<lambda>T. entries_ok T L S \<and> flows T (a + sint x) d S) a [w, x] [(a, d, S)]"
  using assms argw_holds(1)[of _ a w x "[]"] by (intro seg_one) auto

lemma seg_branch:
  assumes "decode w = Some OP_BRANCH_FALSE" "1 \<le> d" "d \<le> L"
  shows "seg P n L (\<lambda>T. entries_ok T L S \<and> flows T (a + 2) (d - 1) S \<and> flows T (a + sint x) (d - 1) S) a [w, x] [(a, d, S)]"
  using assms argw_holds(1)[of _ a w x "[]"] by (intro seg_one) auto

text \<open>The two arms of an \<open>if\<close>, from the branch on.\<close>

lemma piece_branches:
  assumes "decode wb = Some OP_BRANCH_FALSE" "decode wj = Some OP_JUMP"
    and off: "sint o1 = int (length wt) + 4" "sint o2 = int (length we) + 2"
    and d: "0 \<le> d" "d + 1 \<le> L" and R: "\<And>T. R T \<Longrightarrow> entries_ok T L S"
    and t: "piece P n L R (a + 2) wt d S (d + 1) S ex2 tab2"
    and e: "piece P n L R (a + 2 + int (length wt) + 2) we d S (d + 1) S ex3 tab3"
  shows "\<exists>tab. piece P n L R a ([wb, o1] @ wt @ [wj, o2] @ we) (d + 1) S (d + 1) S (ex2 \<or> ex3) tab"
proof -
  let ?j = "a + 2 + int (length wt)"
  let ?fin = "?j + 2 + int (length we)"
  let ?jt = "if ex2 then [(?j, d + 1, S)] else []"
  define bs where "bs = [(\<lambda>T. entries_ok T L S \<and> flows T (a + 2) (d + 1 - 1) S \<and> flows T (a + sint o1) (d + 1 - 1) S, [wb, o1], [(a, d + 1, S)]),
    (\<lambda>T. R T \<and> exits ex2 (a + 2 + int (length wt)) (d + 1) S T, wt, tab2),
    (\<lambda>T. entries_ok T L S \<and> flows T (?j + sint o2) (d + 1) S \<or> \<not> ex2, [wj, o2], ?jt),
    (\<lambda>T. R T \<and> exits ex3 (?j + 2 + int (length we)) (d + 1) S T, we, tab3)]"
  have j: "seg P n L (\<lambda>T. entries_ok T L S \<and> flows T (?j + sint o2) (d + 1) S \<or> \<not> ex2) ?j [wj, o2] ?jt"
    using seg_weaken[OF seg_jump[OF assms(2), of "d + 1" L P n S ?j o2]] d by (cases ex2) (auto simp: seg_empty)
  have "segs P n L a bs"
    using seg_branch[OF assms(1), of "d + 1" L P n S a o1] j t e d
    by (simp add: bs_def piece_def algebra_simps)
  moreover have "needs T bs" if k: "known T a bs" and r: "R T \<and> exits (ex2 \<or> ex3) ?fin (d + 1) S T" for T
  proof -
    have "T (a + 2) = Some (d, S)" "T (?j + 2) = Some (d, S)"
      using piece_in[OF t, of T] piece_in[OF e, of T] k by (simp_all add: bs_def algebra_simps)
    moreover have "ex2 \<Longrightarrow> T ?j = Some (d + 1, S)"
      using k by (simp add: bs_def agrees_at_def algebra_simps)
    ultimately show ?thesis
      using r R off by (auto simp: bs_def exits_def algebra_simps flows_refl)
  qed
  ultimately have "seg P n L (\<lambda>T. R T \<and> exits (ex2 \<or> ex3) ?fin (d + 1) S T) a (block_words bs) (block_table bs)"
    by (rule segs_join)
  moreover have "block_words bs = [wb, o1] @ wt @ [wj, o2] @ we" "map_of (block_table bs) a = Some (d + 1, S)"
    by (simp_all add: bs_def)
  ultimately show ?thesis unfolding piece_def by (intro exI[of _ "block_table bs"]) (simp add: algebra_simps)
qed

text \<open>A loop: inside, the entry is known.\<close>

lemma piece_loop:
  assumes "piece P n L (\<lambda>T. R T \<and> flows T a d S) a ws d S d' S' ex tab"
  shows "piece P n L R a ws d S d' S' ex tab"
proof -
  have "seg P n L (\<lambda>T. R T \<and> exits ex (a + int (length ws)) d' S' T) a ws tab"
    by (rule seg_weaken[OF assms[unfolded piece_def, THEN conjunct2]])
      (use piece_in[OF assms] in \<open>auto intro: flows_refl\<close>)
  then show ?thesis using assms by (simp add: piece_def)
qed

lemma seg_try_push:
  assumes "decode w = Some OP_TRY_PUSH" "0 \<le> d" "d \<le> L"
    and "c = (if sint x \<noteq> 0 then a + sint x else - 1)" "f = (if sint y \<noteq> 0 then a + sint y else - 1)"
  shows "seg P n L (\<lambda>T. entries_ok T L S \<and> flows T (a + 3) d (Armed c f d # S)) a [w, x, y] [(a, d, S)]"
  using assms argw_holds(1)[of _ a w x "[y]"] argw_holds(2)[of _ a w x y "[]"]
  by (intro seg_one) auto

lemma seg_try_pop:
  assumes "decode w = Some OP_TRY_POP" "0 \<le> d" "d \<le> L"
  shows "seg P n L (\<lambda>T. entries_ok T L (Armed c f s # S) \<and> flows T (a + 1) d S) a [w] [(a, d, Armed c f s # S)]"
  using assms by (intro seg_one) auto

text \<open>\<open>try\<close>: the body under its handler, then the catch block and the \<open>finally\<close> block, if any. The
  catch block starts at \<open>ac\<close>, what follows it is at \<open>ae\<close>.\<close>

lemma piece_try:
  fixes cat fin :: bool
  assumes dec: "decode wt = Some OP_TRY_PUSH" "decode wp = Some OP_TRY_POP" "decode wj = Some OP_JUMP"
    and ac: "ac = a + 3 + int (length wb) + 3" and ae: "ae = ac + int (length wc)"
    and off: "sint o1 = (if cat then ac - a else 0)" "sint o2 = (if fin then ae - a else 0)" "sint o3 = ae - (ac - 2)"
    and d: "0 \<le> d" "d + 1 \<le> L" "0 \<le> a" and R: "\<And>T. R T \<Longrightarrow> entries_ok T L S"
    and c: "c = (if cat then ac else - 1)" and f: "f = (if fin then ae else - 1)"
    and Sc: "Sc = (if fin then Armed (- 1) f d # S else S)" and Sf: "Sf = (if fin then Maybe f d # S else S)"
    and b: "piece P n L (\<lambda>T. entries_ok T L (Armed c f d # S)) (a + 3) wb d (Armed c f d # S) (d + 1) (Armed c f d # S) ex1 tab1"
    and k: "if cat then piece P n L (\<lambda>T. entries_ok T L Sc) ac wc (d + 1) Sc (d + 1) S ex2 tab2
      else wc = [] \<and> tab2 = [] \<and> \<not> ex2"
    and e: "if fin then piece P n L (\<lambda>T. entries_ok T L Sf) ae wz (d + 1) Sf (d + 1) S ex3 tab3
      else wz = [] \<and> tab3 = [] \<and> ex3 = (ex1 \<or> ex2)"
  shows "\<exists>tab. piece P n L R a ([wt, o1, o2] @ wb @ [wp, wj, o3] @ wc @ wz) d S (d + 1) S ex3 tab"
proof -
  let ?A = "Armed c f d # S"
  let ?p = "a + 3 + int (length wb)"
  let ?fin = "ae + int (length wz)"
  let ?pt = "if ex1 then [(?p, d + 1, ?A)] else []"
  let ?jt = "if ex1 then [(?p + 1, d + 1, S)] else []"
  define bs where "bs = [(\<lambda>T. entries_ok T L S \<and> flows T (a + 3) d ?A, [wt, o1, o2], [(a, d, S)]),
    (\<lambda>T. entries_ok T L ?A \<and> exits ex1 (a + 3 + int (length wb)) (d + 1) ?A T, wb, tab1),
    (\<lambda>T. entries_ok T L ?A \<and> flows T (?p + 1) (d + 1) S \<or> \<not> ex1, [wp], ?pt),
    (\<lambda>T. entries_ok T L S \<and> flows T (?p + 1 + sint o3) (d + 1) S \<or> \<not> ex1, [wj, o3], ?jt),
    (\<lambda>T. entries_ok T L Sc \<and> exits ex2 (ac + int (length wc)) (d + 1) S T \<or> \<not> cat, wc, tab2),
    (\<lambda>T. entries_ok T L Sf \<and> exits ex3 (ae + int (length wz)) (d + 1) S T \<or> \<not> fin, wz, tab3)]"
  have p: "seg P n L (\<lambda>T. entries_ok T L ?A \<and> flows T (?p + 1) (d + 1) S \<or> \<not> ex1) ?p [wp] ?pt"
    using seg_weaken[OF seg_try_pop[OF dec(2), of "d + 1" L P n c f d S ?p]] d by (cases ex1) (auto simp: seg_empty)
  have j: "seg P n L (\<lambda>T. entries_ok T L S \<and> flows T (?p + 1 + sint o3) (d + 1) S \<or> \<not> ex1) (?p + 1) [wj, o3] ?jt"
    using seg_weaken[OF seg_jump[OF dec(3), of "d + 1" L P n S "?p + 1" o3]] d by (cases ex1) (auto simp: seg_empty)
  have t: "seg P n L (\<lambda>T. entries_ok T L S \<and> flows T (a + 3) d ?A) a [wt, o1, o2] [(a, d, S)]"
    by (rule seg_try_push[OF dec(1)]) (use d off c f ac ae in auto)
  have kk: "seg P n L (\<lambda>T. entries_ok T L Sc \<and> exits ex2 (ac + int (length wc)) (d + 1) S T \<or> \<not> cat) ac wc tab2"
    using k seg_weaken[of P n L "\<lambda>T. entries_ok T L Sc \<and> exits ex2 (ac + int (length wc)) (d + 1) S T" ac wc tab2]
    by (auto simp: piece_def seg_empty split: if_splits)
  have ee: "seg P n L (\<lambda>T. entries_ok T L Sf \<and> exits ex3 (ae + int (length wz)) (d + 1) S T \<or> \<not> fin) ae wz tab3"
    using e seg_weaken[of P n L "\<lambda>T. entries_ok T L Sf \<and> exits ex3 (ae + int (length wz)) (d + 1) S T" ae wz tab3]
    by (auto simp: piece_def seg_empty split: if_splits)
  have "segs P n L a bs"
    using t b p j kk ee by (simp add: bs_def piece_def ac ae algebra_simps)
  moreover have "needs T bs" if kn: "known T a bs" and r: "R T \<and> exits ex3 ?fin (d + 1) S T" for T
  proof -
    have 1: "T (a + 3) = Some (d, ?A)" using piece_in[OF b, of T] kn by (simp add: bs_def)
    have 2: "cat \<Longrightarrow> T ac = Some (d + 1, Sc)" using piece_in[of P n L _ ac wc] k kn by (auto simp: bs_def ac algebra_simps)
    have 3: "fin \<Longrightarrow> T ae = Some (d + 1, Sf)" using piece_in[of P n L _ ae wz] e kn by (auto simp: bs_def ac ae algebra_simps)
    have 4: "ex1 \<Longrightarrow> T ?p = Some (d + 1, ?A)" "ex1 \<Longrightarrow> T (?p + 1) = Some (d + 1, S)"
      using kn by (simp_all add: bs_def agrees_at_def algebra_simps)
    have S: "entries_ok T L S" using r R by blast
    have pos: "0 \<le> ac" "0 \<le> ae" using d ac ae by simp_all
    have Sc': "entries_ok T L Sc" "entries_ok T L Sf"
      using S 3 d pos by (auto simp: Sc Sf f flows_refl)
    have A: "entries_ok T L ?A"
      using S 2 3 d pos by (auto simp: c f Sc Sf flows_refl)
    have fl: "ex1 \<Longrightarrow> flows T ae (d + 1) S" "ex2 \<Longrightarrow> flows T ae (d + 1) S"
      using 3 r e by (auto simp: Sf flows_def exits_def split: if_splits)
    show ?thesis
      using 1 2 3 4 S Sc' A fl r off(3)
      by (auto simp: bs_def exits_def flows_refl ac ae algebra_simps)
  qed
  ultimately have "seg P n L (\<lambda>T. R T \<and> exits ex3 ?fin (d + 1) S T) a (block_words bs) (block_table bs)"
    by (rule segs_join)
  moreover have "block_words bs = [wt, o1, o2] @ wb @ [wp, wj, o3] @ wc @ wz" "map_of (block_table bs) a = Some (d, S)"
    by (simp_all add: bs_def)
  ultimately show ?thesis
    unfolding piece_def by (intro exI[of _ "block_table bs"]) (simp add: ac ae algebra_simps)
qed

end
