(* ===== verification/LG_Contract.thy ===== *)
theory LG_Contract
  imports LG_Compiler LG_CodeSeg
begin

text \<open>
  The contract of a form compiler: \<open>compiled H w k st st'\<close> says that from \<open>st\<close> to \<open>st'\<close> code
  was added that changes the depth by \<open>k\<close>, that code, constants and captures only grew, that the
  scopes are as before, and that under the handlers, the depth and the recur point of its place
  the new code has a typing of the interpreter. Rules compose it from instructions, constants,
  symbols and scopes.
\<close>

section \<open>Instruction words\<close>

lemma opcode_cases_all:
  assumes "list_all Q opcodes"
  shows "Q oc"
proof (cases oc)
  case (OP_UNCHECKED u)
  then show ?thesis using assms by (cases u) (simp_all add: opcodes_def)
qed (use assms in \<open>simp_all add: opcodes_def\<close>)

lemma opnum_word: "unat (of_nat (opnum oc) AND (255::u32)) = opnum oc \<and> nth_opt opcodes (opnum oc) = Some oc"
proof -
  have "list_all (\<lambda>oc. unat (of_nat (opnum oc) AND (255::u32)) = opnum oc \<and> nth_opt opcodes (opnum oc) = Some oc) opcodes"
    by code_simp
  then show ?thesis by (rule opcode_cases_all)
qed

lemma high_bits_and_255: "push_bit 16 (w :: u32) AND 255 = 0"
proof -
  have "push_bit 16 w AND mask 8 = 0" by (rule bit_word_eqI) (auto simp: bit_simps)
  moreover have "mask 8 = (255 :: u32)" by (simp add: mask_eq_exp_minus_1)
  ultimately show ?thesis by simp
qed

lemma decode_opword [simp]: "decode (opword oc sp) = Some oc"
  using opnum_word[of oc]
  by (simp add: decode_def opword_def word_ao_dist high_bits_and_255 del: nth_opt_eq_Some)

lemma sint_u32: "- (2 ^ 31) \<le> n \<Longrightarrow> n < 2 ^ 31 \<Longrightarrow> sint (word_of_int n :: u32) = n"
  by (simp add: signed_take_bit_int_eq_self sint_sbintrunc')

section \<open>Well-formed compilation states\<close>

lemmas cx_ops = emit_def append32_def emitWithArg_def incSP_def decSP_def setTail_def currentAddress_def
  pushLocals_def popLocals_def addLocal_def pushRecurPoint_def popRecurPoint_def updatePlaceholderArg_def

abbreviation lim :: int where "lim \<equiv> 2 ^ 31"

definition cell_ok :: "cctx \<Rightarrow> cell \<Rightarrow> bool" where
  "cell_ok c cl \<longleftrightarrow> (case cl of
     LocalCell l \<Rightarrow> 0 \<le> l \<and> l < cx_sp c | ArgCell n \<Rightarrow> 0 \<le> n \<and> n < lim
   | ClosureCell k \<Rightarrow> k < length (cx_captured c))"

definition ctx_ok :: "cctx \<Rightarrow> bool" where
  "ctx_ok c \<longleftrightarrow> 0 \<le> cx_sp c \<and> cx_sp c \<le> currentAddress c \<and> length (cx_slots c) = length (cx_locals c) \<and>
     (\<forall>m\<in>set (cx_locals c). \<forall>e\<in>set m. 0 \<le> snd e \<and> snd e < cx_sp c) \<and>
     (\<forall>e\<in>set (cx_args c). 0 \<le> snd e \<and> snd e < lim) \<and>
     (\<forall>rp\<in>set (cx_recurs c). rp_locals rp \<le> length (cx_locals c) \<and> 0 \<le> rp_address rp \<and> rp_address rp \<le> currentAddress c)"

fun chain_ok :: "cctx list \<Rightarrow> bool" where
  "chain_ok [] \<longleftrightarrow> True"
| "chain_ok [c] \<longleftrightarrow> ctx_ok c \<and> cx_captured c = []"
| "chain_ok (c # p # cs) \<longleftrightarrow> ctx_ok c \<and> (\<forall>e\<in>set (cx_captured c). cell_ok p (snd e)) \<and> chain_ok (p # cs)"

abbreviation st_ok :: "'e cstate \<Rightarrow> bool" where
  "st_ok st \<equiv> chain_ok (cs_cur st # cs_outer st)"

text \<open>What a form compiler leaves as it is.\<close>

definition same_ctx :: "cctx \<Rightarrow> cctx \<Rightarrow> bool" where
  "same_ctx c c' \<longleftrightarrow> cx_args c' = cx_args c \<and> cx_argCount c' = cx_argCount c \<and> cx_variadic c' = cx_variadic c \<and>
     cx_locals c' = cx_locals c \<and> cx_slots c' = cx_slots c \<and> cx_isFunction c' = cx_isFunction c \<and>
     cx_recurs c' = cx_recurs c \<and> cx_tail c' = cx_tail c"

text \<open>Code, constants and captures only grow.\<close>

definition extends :: "'a list \<Rightarrow> 'a list \<Rightarrow> bool" where
  "extends xs ys \<longleftrightarrow> (\<exists>zs. ys = xs @ zs)"

definition outer_ext :: "cctx \<Rightarrow> cctx \<Rightarrow> bool" where
  "outer_ext c c' \<longleftrightarrow> c' = c\<lparr>cx_captured := cx_captured c'\<rparr> \<and> extends (cx_captured c) (cx_captured c')"

definition grows :: "'e cstate \<Rightarrow> 'e cstate \<Rightarrow> bool" where
  "grows st st' \<longleftrightarrow> extends (cx_code (cs_cur st)) (cx_code (cs_cur st')) \<and> extends (cs_pool st) (cs_pool st') \<and>
     cx_spMax (cs_cur st) \<le> cx_spMax (cs_cur st') \<and> extends (cx_captured (cs_cur st)) (cx_captured (cs_cur st')) \<and>
     list_all2 outer_ext (cs_outer st) (cs_outer st')"

lemma extends_refl [simp]: "extends xs xs"
  by (simp add: extends_def)

lemma extends_append [simp]: "extends xs (xs @ ys)"
  by (simp add: extends_def)

lemma extends_trans: "extends xs ys \<Longrightarrow> extends ys zs \<Longrightarrow> extends xs zs"
  by (auto simp: extends_def)

lemma extends_length: "extends xs ys \<Longrightarrow> length xs \<le> length ys"
  by (auto simp: extends_def)

lemma extends_set: "extends xs ys \<Longrightarrow> set xs \<subseteq> set ys"
  by (auto simp: extends_def)

lemma outer_ext_refl [simp]: "outer_ext c c"
  by (simp add: outer_ext_def)

lemma outer_ext_trans: "outer_ext a b \<Longrightarrow> outer_ext b c \<Longrightarrow> outer_ext a c"
proof -
  assume a: "outer_ext a b" and b: "outer_ext b c"
  have "c = b\<lparr>cx_captured := cx_captured c\<rparr>" "b = a\<lparr>cx_captured := cx_captured b\<rparr>"
    using a b by (simp_all only: outer_ext_def)
  then have "c = a\<lparr>cx_captured := cx_captured c\<rparr>" by (cases a; cases b; cases c) simp
  then show ?thesis using a b extends_trans unfolding outer_ext_def by blast
qed

lemma outers_refl [simp]: "list_all2 outer_ext cs cs"
  by (simp add: list_all2_refl)

lemma outers_trans: "list_all2 outer_ext as bs \<Longrightarrow> list_all2 outer_ext bs cs \<Longrightarrow> list_all2 outer_ext as cs"
  by (rule list_all2_trans[OF outer_ext_trans])

lemma grows_refl [simp]: "grows st st"
  by (simp add: grows_def)

lemma grows_trans: "grows st st1 \<Longrightarrow> grows st1 st2 \<Longrightarrow> grows st st2"
  unfolding grows_def using extends_trans outers_trans by (meson order_trans)

lemma same_ctx_refl [simp]: "same_ctx c c"
  by (simp add: same_ctx_def)

lemma same_ctx_trans: "same_ctx a b \<Longrightarrow> same_ctx b c \<Longrightarrow> same_ctx a c"
  by (simp add: same_ctx_def)

text \<open>Sizes that fit the 32-bit operands.\<close>

fun fn_small :: "vv \<Rightarrow> bool" where
  "fn_small (FuncV n a v c) \<longleftrightarrow> int (length (ck_code c)) < lim"
| "fn_small v \<longleftrightarrow> True"

definition small :: "'e cstate \<Rightarrow> bool" where
  "small st \<longleftrightarrow> currentAddress (cs_cur st) < lim \<and> int (length (cs_pool st)) < lim \<and>
     (\<forall>v\<in>set (cs_pool st). fn_small v) \<and>
     (\<forall>c\<in>set (cs_cur st # cs_outer st). int (length (cx_captured c)) < lim)"

lemma outers_captured:
  "list_all2 outer_ext cs cs' \<Longrightarrow> \<forall>c\<in>set cs'. int (length (cx_captured c)) < lim \<Longrightarrow>
   \<forall>c\<in>set cs. int (length (cx_captured c)) < lim"
  by (induction rule: list_all2_induct) (auto simp: outer_ext_def dest!: extends_length)

lemma small_grows: "grows st st' \<Longrightarrow> small st' \<Longrightarrow> small st"
proof -
  assume g: "grows st st'" and m: "small st'"
  have l: "length (cx_code (cs_cur st)) \<le> length (cx_code (cs_cur st'))" "length (cs_pool st) \<le> length (cs_pool st')"
      "length (cx_captured (cs_cur st)) \<le> length (cx_captured (cs_cur st'))" "set (cs_pool st) \<subseteq> set (cs_pool st')"
    using g by (simp_all add: grows_def extends_length extends_set)
  have "\<forall>c\<in>set (cs_outer st). int (length (cx_captured c)) < lim"
    by (rule outers_captured[of _ "cs_outer st'"]) (use g m in \<open>simp_all add: grows_def small_def\<close>)
  then show ?thesis using l m unfolding small_def currentAddress_def by auto
qed

section \<open>Typed code between two states\<close>

definition words :: "cctx \<Rightarrow> cctx \<Rightarrow> u32 list" where
  "words c c' = drop (length (cx_code c)) (cx_code c')"

definition tpart ::
    "vv list \<Rightarrow> int \<Rightarrow> int \<Rightarrow> ((int \<Rightarrow> aty option) \<Rightarrow> bool) \<Rightarrow> hty list \<Rightarrow> hty list \<Rightarrow> cctx \<Rightarrow> cctx \<Rightarrow> bool \<Rightarrow> bool" where
  "tpart P n L R S S' c c' ex \<longleftrightarrow> extends (cx_code c) (cx_code c') \<and>
     (\<exists>tab. part True P n L R (currentAddress c) (words c c') (cx_sp c) S (cx_sp c') S' ex tab)"

text \<open>Typed code, whose end is within the depth \<open>M\<close> when it is reached.\<close>

definition typed ::
    "vv list \<Rightarrow> int \<Rightarrow> int \<Rightarrow> ((int \<Rightarrow> aty option) \<Rightarrow> bool) \<Rightarrow> hty list \<Rightarrow> hty list \<Rightarrow> cctx \<Rightarrow> cctx \<Rightarrow> int \<Rightarrow> bool" where
  "typed P n L R S S' c c' M \<longleftrightarrow> (\<exists>ex. tpart P n L R S S' c c' ex \<and> (ex \<longrightarrow> cx_sp c' \<le> M))"

lemma words_append: "extends (cx_code c) (cx_code c1) \<Longrightarrow> extends (cx_code c1) (cx_code c2) \<Longrightarrow>
    words c c2 = words c c1 @ words c1 c2"
  by (auto simp: words_def extends_def)

lemma words_address: "extends (cx_code c) (cx_code c1) \<Longrightarrow> currentAddress c1 = currentAddress c + int (length (words c c1))"
  by (auto simp: words_def extends_def currentAddress_def)

lemma typed_seq:
  assumes "typed P n L R S S1 c c1 M1" "extends (cx_code c1) (cx_code c2)"
    and "cx_sp c1 \<le> M1 \<Longrightarrow> typed P n L R S1 S2 c1 c2 M2"
  shows "typed P n L R S S2 c c2 M2"
proof -
  obtain ex1 tab1 where e1: "extends (cx_code c) (cx_code c1)" "ex1 \<longrightarrow> cx_sp c1 \<le> M1"
    and p1: "part True P n L R (currentAddress c) (words c c1) (cx_sp c) S (cx_sp c1) S1 ex1 tab1"
    using assms(1) by (auto simp: typed_def tpart_def)
  have x: "extends (cx_code c) (cx_code c2)" using extends_trans e1(1) assms(2) by blast
  show ?thesis
  proof (cases ex1)
    case True
    then obtain ex2 tab2 where e2: "ex2 \<longrightarrow> cx_sp c2 \<le> M2"
      and p2: "part True P n L R (currentAddress c1) (words c1 c2) (cx_sp c1) S1 (cx_sp c2) S2 ex2 tab2"
      using assms(3) e1(2) by (auto simp: typed_def tpart_def)
    have "part True P n L R (currentAddress c) (words c c2) (cx_sp c) S (cx_sp c2) S2 ex2 (tab1 @ tab2)"
      using part_seq[OF p1, of "words c1 c2" "cx_sp c2" S2 ex2 tab2] p2 True
      by (simp add: words_append[OF e1(1) assms(2)] words_address[OF e1(1)])
    then show ?thesis using x e2 by (auto simp: typed_def tpart_def)
  next
    case False
    have "part True P n L R (currentAddress c) (words c c2) (cx_sp c) S (cx_sp c2) S2 False (tab1 @ [])"
      using part_seq[OF p1, of "words c1 c2" "cx_sp c2" S2 False "[]"] False
      by (simp add: words_append[OF e1(1) assms(2)])
    then show ?thesis using x by (auto simp: typed_def tpart_def)
  qed
qed

lemma typed_pool: "typed P n L R S S' c c' M \<Longrightarrow> extends P Q \<Longrightarrow> typed Q n L R S S' c c' M"
  unfolding typed_def tpart_def extends_def using part_pool by blast

lemma typed_weaken: "typed P n L R S S' c c' M \<Longrightarrow> (\<And>T. R' T \<Longrightarrow> R T) \<Longrightarrow> typed P n L R' S S' c c' M"
  unfolding typed_def tpart_def using part_weaken by meson

lemma typed_bound: "typed P n L R S S' c c' M \<Longrightarrow> M \<le> M' \<Longrightarrow> typed P n L R S S' c c' M'"
  unfolding typed_def by force

text \<open>Only code and depth matter.\<close>

lemma typed_cong:
  "cx_code c = cx_code d \<Longrightarrow> cx_sp c = cx_sp d \<Longrightarrow> cx_code c' = cx_code d' \<Longrightarrow> cx_sp c' = cx_sp d' \<Longrightarrow>
   typed P n L R S S' c c' M = typed P n L R S S' d d' M"
  by (simp add: typed_def tpart_def words_def currentAddress_def)

lemma typed_refl: "cx_sp c \<le> M \<Longrightarrow> typed P n L R S S c c M"
  by (auto simp: typed_def tpart_def words_def)

lemma typed_piece:
  assumes "cx_code c' = cx_code c @ ws" "cx_sp c' \<le> M"
    and "piece P n L R (currentAddress c) ws (cx_sp c) S (cx_sp c') S' ex tab"
  shows "typed P n L R S S' c c' M"
  using assms part_piece unfolding typed_def tpart_def words_def by fastforce

text \<open>An instruction that goes on to the next.\<close>

lemma typed_instr:
  assumes "cx_code c' = cx_code c @ opword oc sp # args" "cx_sp c' \<le> M" "0 \<le> cx_sp c" "cx_sp c \<le> L"
    and "\<And>code. holds code (currentAddress c) (opword oc sp # args) \<Longrightarrow>
      succs P n code (currentAddress c) oc (cx_sp c) S = Some [(currentAddress c + 1 + int (length args), cx_sp c', S')]"
    and "\<And>T. R T \<Longrightarrow> entries_ok T L S"
  shows "typed P n L R S S' c c' M"
  by (rule typed_piece[OF assms(1,2)], rule piece_weaken, rule piece_next) (use assms in auto)


section \<open>The contract\<close>

text \<open>Stack slots between the top and the recur point: the bindings of the scopes opened since.\<close>

definition passed :: "cctx \<Rightarrow> recurPoint \<Rightarrow> int" where
  "passed c rp = int (sum_list (take (length (cx_locals c) - rp_locals rp) (cx_slots c)))"

definition enters :: "cctx \<Rightarrow> hty list \<Rightarrow> bool" where
  "enters c S \<longleftrightarrow> cx_sp c \<le> cx_spMax c \<and>
     (cx_tail c \<longrightarrow> (case cx_recurs c of [] \<Rightarrow> S = [] | rp # _ \<Rightarrow> int (rp_argsc rp) \<le> cx_sp c - passed c rp)) \<and>
     (\<forall>g s. Maybe g s \<in> set S \<longrightarrow> g \<le> currentAddress c)"

text \<open>What the code of a form relies on outside: the handlers, and in tail position the recur point.\<close>

definition ctxR :: "int \<Rightarrow> hty list \<Rightarrow> cctx \<Rightarrow> (int \<Rightarrow> aty option) \<Rightarrow> bool" where
  "ctxR L S c T \<longleftrightarrow> entries_ok T L S \<and>
     (cx_tail c \<longrightarrow> (case cx_recurs c of [] \<Rightarrow> flows T 0 0 []
        | rp # _ \<Rightarrow> flows T (rp_address rp) (cx_sp c - passed c rp) S))"

definition with_pool :: "'e chost \<Rightarrow> 'h world \<Rightarrow> vv list \<Rightarrow> 'h world" where
  "with_pool H w P = w\<lparr>w_pools := (w_pools w)(ch_pool H := P)\<rparr>"

definition pool_good :: "'e chost \<Rightarrow> 'h world \<Rightarrow> vv list \<Rightarrow> bool" where
  "pool_good H w P \<longleftrightarrow> extends (w_pools w (ch_pool H)) P \<and> (\<forall>v\<in>set P. val_ok (with_pool H w P) v)"

definition yields :: "'e chost \<Rightarrow> 'h world \<Rightarrow> 'e cstate \<Rightarrow> 'e cstate \<Rightarrow> bool" where
  "yields H w st st' \<longleftrightarrow> (small st' \<longrightarrow> pool_good H w (cs_pool st) \<longrightarrow> pool_good H w (cs_pool st') \<and>
     (\<forall>S L. enters (cs_cur st) S \<longrightarrow> cx_spMax (cs_cur st') \<le> L \<longrightarrow>
        typed (cs_pool st') (int (cx_argCount (cs_cur st))) L (ctxR L S (cs_cur st)) S S
          (cs_cur st) (cs_cur st') (cx_spMax (cs_cur st'))))"

text \<open>From \<open>st\<close> to \<open>st'\<close> code was added that changes the depth by \<open>k\<close>.\<close>

definition ran :: "'e chost \<Rightarrow> 'h world \<Rightarrow> int \<Rightarrow> 'e cstate \<Rightarrow> 'e cstate \<Rightarrow> bool" where
  "ran H w k st st' \<longleftrightarrow> st_ok st' \<and> grows st st' \<and> cx_sp (cs_cur st') = cx_sp (cs_cur st) + k \<and>
     currentAddress (cs_cur st) + k \<le> currentAddress (cs_cur st') \<and> yields H w st st'"

definition compiled :: "'e chost \<Rightarrow> 'h world \<Rightarrow> int \<Rightarrow> 'e cstate \<Rightarrow> 'e cstate \<Rightarrow> bool" where
  "compiled H w k st st' \<longleftrightarrow> ran H w k st st' \<and> same_ctx (cs_cur st) (cs_cur st')"

text \<open>A tail position at \<open>c1\<close> continues the one of \<open>c\<close>.\<close>

definition under :: "cctx \<Rightarrow> cctx \<Rightarrow> bool" where
  "under c c1 \<longleftrightarrow> cx_argCount c1 = cx_argCount c \<and> (cx_tail c1 \<longrightarrow> cx_tail c \<and> cx_recurs c1 = cx_recurs c \<and>
     (case cx_recurs c of [] \<Rightarrow> True | rp # _ \<Rightarrow> cx_sp c1 - passed c1 rp = cx_sp c - passed c rp))"

lemma ctxR_entries: "ctxR L S c T \<Longrightarrow> entries_ok T L S"
  by (simp add: ctxR_def)

lemma ctxR_under: "under c c1 \<Longrightarrow> ctxR L S c T \<Longrightarrow> ctxR L S c1 T"
  by (auto simp: under_def ctxR_def split: list.splits)

lemma enters_under:
  "under c c1 \<Longrightarrow> enters c S \<Longrightarrow> cx_sp c1 \<le> cx_spMax c1 \<Longrightarrow> currentAddress c \<le> currentAddress c1 \<Longrightarrow> enters c1 S"
  by (fastforce simp: under_def enters_def split: list.splits)

lemma under_False: "cx_argCount c1 = cx_argCount c \<Longrightarrow> \<not> cx_tail c1 \<Longrightarrow> under c c1"
  by (simp add: under_def)

lemma under_same: "same_ctx c c1 \<Longrightarrow> cx_sp c1 = cx_sp c \<Longrightarrow> under c c1"
  by (auto simp: under_def same_ctx_def passed_def split: list.splits)

lemma grows_address: "grows st st' \<Longrightarrow> currentAddress (cs_cur st) \<le> currentAddress (cs_cur st')"
  by (simp add: grows_def currentAddress_def extends_length)

lemma st_ok_ctx: "st_ok st \<Longrightarrow> ctx_ok (cs_cur st)"
  by (cases "cs_outer st") auto

lemma chain_cur: "chain_ok (c # cs) \<Longrightarrow> ctx_ok c' \<Longrightarrow> cx_captured c' = cx_captured c \<Longrightarrow> chain_ok (c' # cs)"
  by (cases cs) auto

lemma compiled_ok: "compiled H w k st st' \<Longrightarrow> st_ok st'"
  by (simp add: compiled_def ran_def)

lemma ran_refl: "st_ok st \<Longrightarrow> ran H w 0 st st"
  by (auto simp: ran_def yields_def enters_def intro: typed_refl)

lemma ran_seq:
  assumes "ran H w j st st1" "ran H w k st1 st2" "under (cs_cur st) (cs_cur st1)"
  shows "ran H w (j + k) st st2"
proof -
  note a = assms(1)[unfolded ran_def] and b = assms(2)[unfolded ran_def]
  have "yields H w st st2"
    unfolding yields_def
  proof (intro impI conjI allI)
    assume s: "small st2" and p: "pool_good H w (cs_pool st)"
    have s1: "small st1" using small_grows b s by blast
    then have p1: "pool_good H w (cs_pool st1)" using a p by (simp add: yields_def)
    then show "pool_good H w (cs_pool st2)" using b s by (simp add: yields_def)
    fix S L assume e: "enters (cs_cur st) S" and L: "cx_spMax (cs_cur st2) \<le> L"
    let ?n = "int (cx_argCount (cs_cur st))"
    have L1: "cx_spMax (cs_cur st1) \<le> L" using L b by (simp add: grows_def)
    have "typed (cs_pool st1) ?n L (ctxR L S (cs_cur st)) S S (cs_cur st) (cs_cur st1) (cx_spMax (cs_cur st1))"
      using a s1 p e L1 by (simp add: yields_def)
    then have 1: "typed (cs_pool st2) ?n L (ctxR L S (cs_cur st)) S S (cs_cur st) (cs_cur st1) (cx_spMax (cs_cur st1))"
      using typed_pool b by (simp add: grows_def)
    have 2: "typed (cs_pool st2) ?n L (ctxR L S (cs_cur st)) S S (cs_cur st1) (cs_cur st2) (cx_spMax (cs_cur st2))"
      if "cx_sp (cs_cur st1) \<le> cx_spMax (cs_cur st1)"
    proof (rule typed_weaken)
      show "typed (cs_pool st2) ?n L (ctxR L S (cs_cur st1)) S S (cs_cur st1) (cs_cur st2) (cx_spMax (cs_cur st2))"
        using b s p1 L enters_under[OF assms(3) e that grows_address] a assms(3)
        by (simp add: yields_def under_def)
    qed (rule ctxR_under[OF assms(3)])
    show "typed (cs_pool st2) ?n L (ctxR L S (cs_cur st)) S S (cs_cur st) (cs_cur st2) (cx_spMax (cs_cur st2))"
      by (rule typed_seq[OF 1 _ 2]) (use b in \<open>simp_all add: grows_def\<close>)
  qed
  then show ?thesis using a b grows_trans[of st st1 st2] by (simp add: ran_def)
qed

text \<open>Changes of scopes and flags emit nothing.\<close>

lemma ran_silent:
  assumes "ran H w k st st1" "ctx_ok (cs_cur st2)"
    and "cx_code (cs_cur st2) = cx_code (cs_cur st1)" "cx_sp (cs_cur st2) = cx_sp (cs_cur st1)"
      "cx_spMax (cs_cur st2) = cx_spMax (cs_cur st1)" "cx_captured (cs_cur st2) = cx_captured (cs_cur st1)"
      "cs_outer st2 = cs_outer st1" "cs_pool st2 = cs_pool st1"
  shows "ran H w k st st2"
proof -
  have "small st2 = small st1" using assms(3,6,7,8) by (simp add: small_def currentAddress_def)
  moreover have "typed P n L R S S' (cs_cur st) (cs_cur st2) M = typed P n L R S S' (cs_cur st) (cs_cur st1) M" for P n L R S S' M
    by (rule typed_cong) (simp_all add: assms(3,4))
  ultimately have "yields H w st st2"
    using assms(1,5,8) by (simp add: ran_def yields_def)
  moreover have "st_ok st2"
    using chain_cur[of "cs_cur st1" "cs_outer st1" "cs_cur st2"] assms by (simp add: ran_def)
  ultimately show ?thesis
    using assms by (simp add: ran_def grows_def currentAddress_def)
qed


text \<open>An instruction after what ran.\<close>

lemma ran_instr:
  assumes r: "ran H w j st st1" and ok: "ctx_ok (cs_cur st2)"
    and c: "cx_code (cs_cur st2) = cx_code (cs_cur st1) @ opword oc sp # args" "cx_sp (cs_cur st2) = cx_sp (cs_cur st1) + k"
      "k \<le> 1 + int (length args)" "cx_spMax (cs_cur st2) = max (cx_spMax (cs_cur st1)) (cx_sp (cs_cur st2))
        \<or> k \<le> 0 \<and> cx_spMax (cs_cur st2) = cx_spMax (cs_cur st1)"
      "cx_captured (cs_cur st2) = cx_captured (cs_cur st1)" "cs_outer st2 = cs_outer st1" "cs_pool st2 = cs_pool st1"
    and i: "\<And>P n S code. small st2 \<Longrightarrow> pool_good H w (cs_pool st) \<Longrightarrow> P = cs_pool st2 \<Longrightarrow>
      n = int (cx_argCount (cs_cur st)) \<Longrightarrow> enters (cs_cur st) S \<Longrightarrow>
      holds code (currentAddress (cs_cur st1)) (opword oc sp # args) \<Longrightarrow>
      succs P n code (currentAddress (cs_cur st1)) oc (cx_sp (cs_cur st1)) S =
        Some [(currentAddress (cs_cur st1) + 1 + int (length args), cx_sp (cs_cur st1) + k, S)]"
  shows "ran H w (j + k) st st2"
proof -
  note a = r[unfolded ran_def]
  have g: "grows st1 st2" using c by (auto simp: grows_def)
  have y: "yields H w st st2"
    unfolding yields_def
  proof (intro impI conjI allI)
    assume s: "small st2" and p: "pool_good H w (cs_pool st)"
    have s1: "small st1" using small_grows g s by blast
    then show "pool_good H w (cs_pool st2)" using a p c(7) by (simp add: yields_def)
    fix S L assume e: "enters (cs_cur st) S" and L: "cx_spMax (cs_cur st2) \<le> L"
    let ?n = "int (cx_argCount (cs_cur st))"
    have L1: "cx_spMax (cs_cur st1) \<le> L" using L c(4) by auto
    have 1: "typed (cs_pool st2) ?n L (ctxR L S (cs_cur st)) S S (cs_cur st) (cs_cur st1) (cx_spMax (cs_cur st1))"
      using a s1 p e L1 c(7) by (simp add: yields_def)
    have d: "0 \<le> cx_sp (cs_cur st1)" using st_ok_ctx[of st1] a by (simp add: ctx_ok_def)
    have 2: "typed (cs_pool st2) ?n L (ctxR L S (cs_cur st)) S S (cs_cur st1) (cs_cur st2) (cx_spMax (cs_cur st2))"
      if "cx_sp (cs_cur st1) \<le> cx_spMax (cs_cur st1)"
      by (rule typed_instr[OF c(1)]) (use c(2,4) that d L1 i[OF s p refl refl e] in \<open>auto intro: ctxR_entries\<close>)
    show "typed (cs_pool st2) ?n L (ctxR L S (cs_cur st)) S S (cs_cur st) (cs_cur st2) (cx_spMax (cs_cur st2))"
      by (rule typed_seq[OF 1 _ 2]) (use c in simp_all)
  qed
  have "st_ok st2" using chain_cur[of "cs_cur st1" "cs_outer st1" "cs_cur st2"] a ok c by simp
  then show ?thesis using a y c grows_trans[OF _ g, of st] by (simp add: ran_def currentAddress_def)
qed

lemma arg_word: "holds code a [w, word_of_int n] \<Longrightarrow> 0 \<le> n \<Longrightarrow> n < lim \<Longrightarrow> argw code (a + 1) = Some n"
  using argw_holds(1)[of code a w "word_of_int n" "[]"] sint_u32[of n] by simp

text \<open>The shapes that occur: an opcode alone, with one operand, and a push with one operand.\<close>

lemma ctx_ok_ops:
  "ctx_ok c \<Longrightarrow> 0 \<le> cx_sp c + k \<Longrightarrow> k \<le> 1 + int (length args) \<Longrightarrow>
   \<forall>m\<in>set (cx_locals c). \<forall>e\<in>set m. snd e < cx_sp c + k \<Longrightarrow>
   cx_code c' = cx_code c @ x # args \<Longrightarrow> cx_sp c' = cx_sp c + k \<Longrightarrow> cx_locals c' = cx_locals c \<Longrightarrow>
   cx_slots c' = cx_slots c \<Longrightarrow> cx_args c' = cx_args c \<Longrightarrow> cx_recurs c' = cx_recurs c \<Longrightarrow> ctx_ok c'"
  by (auto simp: ctx_ok_def currentAddress_def)

text \<open>When the scopes are those of the start, the locals are still below.\<close>

lemma locals_below:
  "ctx_ok c \<Longrightarrow> cx_locals c1 = cx_locals c \<Longrightarrow> cx_sp c \<le> d \<Longrightarrow> \<forall>m\<in>set (cx_locals c1). \<forall>e\<in>set m. snd e < d"
  by (fastforce simp: ctx_ok_def)

lemma compiled_instr:
  assumes r: "compiled H w j st st1" and st: "st_ok st" and jk: "0 \<le> j + k"
    and c: "cx_code (cs_cur st2) = cx_code (cs_cur st1) @ opword oc sp # args" "cx_sp (cs_cur st2) = cx_sp (cs_cur st1) + k"
      "k \<le> 1 + int (length args)" "cx_spMax (cs_cur st2) = max (cx_spMax (cs_cur st1)) (cx_sp (cs_cur st2))
        \<or> k \<le> 0 \<and> cx_spMax (cs_cur st2) = cx_spMax (cs_cur st1)"
      "cx_captured (cs_cur st2) = cx_captured (cs_cur st1)" "cs_outer st2 = cs_outer st1" "cs_pool st2 = cs_pool st1"
    and same: "same_ctx (cs_cur st1) (cs_cur st2)"
    and i: "\<And>P n S code. small st2 \<Longrightarrow> pool_good H w (cs_pool st) \<Longrightarrow> P = cs_pool st2 \<Longrightarrow>
      n = int (cx_argCount (cs_cur st)) \<Longrightarrow> enters (cs_cur st) S \<Longrightarrow>
      holds code (currentAddress (cs_cur st1)) (opword oc sp # args) \<Longrightarrow>
      succs P n code (currentAddress (cs_cur st1)) oc (cx_sp (cs_cur st1)) S =
        Some [(currentAddress (cs_cur st1) + 1 + int (length args), cx_sp (cs_cur st1) + k, S)]"
  shows "compiled H w (j + k) st st2"
proof -
  note a = r[unfolded compiled_def ran_def]
  have ok1: "ctx_ok (cs_cur st1)" and ok: "ctx_ok (cs_cur st)" using a st st_ok_ctx by blast+
  have d: "0 \<le> cx_sp (cs_cur st)" "cx_sp (cs_cur st1) + k = cx_sp (cs_cur st) + (j + k)"
    "cx_locals (cs_cur st1) = cx_locals (cs_cur st)"
    using ok a by (simp_all add: ctx_ok_def same_ctx_def)
  have "ctx_ok (cs_cur st2)"
    by (rule ctx_ok_ops[OF ok1 _ c(3) locals_below[OF ok d(3)] c(1,2)])
      (use d jk same in \<open>simp_all add: same_ctx_def\<close>)
  from ran_instr[OF r[unfolded compiled_def, THEN conjunct1] this c i]
  have "ran H w (j + k) st st2" by blast
  moreover have "same_ctx (cs_cur st) (cs_cur st2)" using a same same_ctx_trans by blast
  ultimately show ?thesis by (simp add: compiled_def)
qed


lemma compiled_op:
  assumes "compiled H w j st st1" "st_ok st" "0 \<le> i" "i \<le> j"
    and "\<And>P n a code S. succs P n code a oc (cx_sp (cs_cur st) + j) S = Some [(a + 1, cx_sp (cs_cur st) + j - i, S)]"
  shows "compiled H w (j - i) st (upd_cur (decSP i \<circ> emit oc) st1)"
proof -
  have sp: "cx_sp (cs_cur st1) = cx_sp (cs_cur st) + j" using assms(1) by (simp add: compiled_def ran_def)
  have "compiled H w (j + - i) st (upd_cur (decSP i \<circ> emit oc) st1)"
    by (rule compiled_instr[OF assms(1,2), where oc = oc and sp = "cx_sp (cs_cur st1)" and args = "[]"])
      (use assms(3,4,5) sp in \<open>simp_all add: cx_ops same_ctx_def\<close>)
  then show ?thesis by simp
qed

lemma compiled_op1:
  assumes "compiled H w j st st1" "st_ok st" "0 \<le> i" "i \<le> j" "0 \<le> m"
    and "small (upd_cur (decSP i \<circ> emitWithArg oc m) st1) \<Longrightarrow> m < lim"
    and "\<And>P n a code S. argw code (a + 1) = Some m \<Longrightarrow> enters (cs_cur st) S \<Longrightarrow>
      succs P n code a oc (cx_sp (cs_cur st) + j) S = Some [(a + 2, cx_sp (cs_cur st) + j - i, S)]"
  shows "compiled H w (j - i) st (upd_cur (decSP i \<circ> emitWithArg oc m) st1)"
proof -
  let ?st2 = "upd_cur (decSP i \<circ> emitWithArg oc m) st1"
  have sp: "cx_sp (cs_cur st1) = cx_sp (cs_cur st) + j" using assms(1) by (simp add: compiled_def ran_def)
  have i: "succs P n code (currentAddress (cs_cur st1)) oc (cx_sp (cs_cur st1)) S =
      Some [(currentAddress (cs_cur st1) + 1 + int (length [word_of_int m :: u32]), cx_sp (cs_cur st1) + - i, S)]"
    if "small ?st2" "enters (cs_cur st) S" "holds code (currentAddress (cs_cur st1)) [opword oc (cx_sp (cs_cur st1)), word_of_int m]"
    for P n code S
    using assms(7)[OF arg_word[OF that(3) assms(5) assms(6)[OF that(1)]] that(2), of P n] sp by simp
  have "compiled H w (j + - i) st ?st2"
    by (rule compiled_instr[OF assms(1,2), where oc = oc and sp = "cx_sp (cs_cur st1)" and args = "[word_of_int m]"])
      (use assms(3,4) i in \<open>simp_all add: cx_ops same_ctx_def\<close>)
  then show ?thesis by simp
qed

text \<open>Pushes.\<close>

lemma compiled_push:
  assumes "compiled H w j st st1" "st_ok st" "0 \<le> j" "0 \<le> m"
    and "small (upd_cur (incSP 1 \<circ> emitWithArg oc m) st1) \<Longrightarrow> m < lim"
    and "\<And>P n a code S. small (upd_cur (incSP 1 \<circ> emitWithArg oc m) st1) \<Longrightarrow> P = cs_pool st1 \<Longrightarrow> argw code (a + 1) = Some m \<Longrightarrow>
      succs P n code a oc (cx_sp (cs_cur st) + j) S = Some [(a + 2, cx_sp (cs_cur st) + j + 1, S)]"
  shows "compiled H w (j + 1) st (upd_cur (incSP 1 \<circ> emitWithArg oc m) st1)"
proof -
  let ?st2 = "upd_cur (incSP 1 \<circ> emitWithArg oc m) st1"
  have sp: "cx_sp (cs_cur st1) = cx_sp (cs_cur st) + j" using assms(1) by (simp add: compiled_def ran_def)
  have i: "succs P n code (currentAddress (cs_cur st1)) oc (cx_sp (cs_cur st1)) S =
      Some [(currentAddress (cs_cur st1) + 1 + int (length [word_of_int m :: u32]), cx_sp (cs_cur st1) + 1, S)]"
    if "small ?st2" "P = cs_pool st1" "holds code (currentAddress (cs_cur st1)) [opword oc (cx_sp (cs_cur st1)), word_of_int m]"
    for P n code S
    using assms(6)[OF that(1,2) arg_word[OF that(3) assms(4) assms(5)[OF that(1)]], of n S] sp by simp
  show ?thesis
    by (rule compiled_instr[OF assms(1,2), where oc = oc and sp = "cx_sp (cs_cur st1)" and args = "[word_of_int m]"])
      (use assms(3) i in \<open>simp_all add: cx_ops same_ctx_def\<close>)
qed

section \<open>Constants\<close>

lemma with_pool_wext: "extends P Q \<Longrightarrow> wext (with_pool H w P) (with_pool H w Q)"
  by (auto simp: wext_def with_pool_def extends_def)

lemma pool_good_wext: "pool_good H w P \<Longrightarrow> wext w (with_pool H w P)"
  by (auto simp: pool_good_def wext_def with_pool_def extends_def)

lemma val_good: "val_ok w v \<Longrightarrow> pool_good H w P \<Longrightarrow> val_ok (with_pool H w P) v"
  using val_ok_wext(1) pool_good_wext by blast

lemma Intern_spec:
  assumes "Intern v P = (i, P')"
  shows "0 \<le> i" "i < int (length P')" "P' = P \<or> P' = P @ [v]" "P' ! nat i = v \<or> constEqual (P' ! nat i) v"
proof -
  let ?n = "length (takeWhile (\<lambda>x. \<not> constEqual x v) P)"
  have e: "i = int ?n" "P' = (if ?n < length P then P else P @ [v])"
    using assms by (auto simp: Intern_def Let_def)
  have "?n \<le> length P" by (rule length_takeWhile_le)
  then show "0 \<le> i" "i < int (length P')" "P' = P \<or> P' = P @ [v]" using e by auto
  show "P' ! nat i = v \<or> constEqual (P' ! nat i) v"
    using e \<open>?n \<le> length P\<close> nth_length_takeWhile[of "\<lambda>x. \<not> constEqual x v" P] by (auto simp: nth_append)
qed

lemma constEqual_VarV [simp]: "constEqual x (VarV v) \<longleftrightarrow> x = VarV v"
  by (cases x) auto

lemma Intern_new: "(\<And>x. \<not> constEqual x v) \<Longrightarrow> Intern v P = (int (length P), P @ [v])"
proof -
  assume n: "\<And>x. \<not> constEqual x v"
  have "takeWhile (\<lambda>x. \<not> constEqual x v) P = P" using n by (simp add: takeWhile_eq_all_conv)
  then show ?thesis by (simp only: Intern_def Let_def less_irrefl if_False)
qed

lemma pool_good_snoc:
  assumes "pool_good H w P" "val_ok (with_pool H w P) v"
  shows "pool_good H w (P @ [v])"
proof -
  have x: "wext (with_pool H w P) (with_pool H w (P @ [v]))" by (rule with_pool_wext) simp
  have "extends (w_pools w (ch_pool H)) (P @ [v])" using assms(1) extends_trans extends_append unfolding pool_good_def by blast
  then show ?thesis using assms val_ok_wext(1)[OF x] by (auto simp: pool_good_def)
qed

lemma ran_pool:
  assumes r: "ran H w k st st1" and i: "Intern v (cs_pool st1) = (n, P')"
    and v: "small (st1\<lparr>cs_pool := P'\<rparr>) \<Longrightarrow> pool_good H w (cs_pool st) \<Longrightarrow> pool_good H w (cs_pool st1) \<Longrightarrow>
      val_ok (with_pool H w (cs_pool st1)) v"
  shows "ran H w k st (st1\<lparr>cs_pool := P'\<rparr>)"
proof -
  let ?st2 = "st1\<lparr>cs_pool := P'\<rparr>"
  note a = r[unfolded ran_def]
  have x: "extends (cs_pool st1) P'" using Intern_spec(3)[OF i] by auto
  then have g: "grows st1 ?st2" by (simp add: grows_def)
  have "yields H w st ?st2"
    unfolding yields_def
  proof (intro impI conjI allI)
    assume s: "small ?st2" and p: "pool_good H w (cs_pool st)"
    have s1: "small st1" using small_grows g s by blast
    then have p1: "pool_good H w (cs_pool st1)" using a p by (simp add: yields_def)
    then show "pool_good H w (cs_pool ?st2)"
      using Intern_spec(3)[OF i] pool_good_snoc[OF p1 v[OF s p p1]] by auto
    fix S L assume e: "enters (cs_cur st) S" and L: "cx_spMax (cs_cur ?st2) \<le> L"
    show "typed (cs_pool ?st2) (int (cx_argCount (cs_cur st))) L (ctxR L S (cs_cur st)) S S (cs_cur st) (cs_cur ?st2) (cx_spMax (cs_cur ?st2))"
      using a s1 p e L typed_pool[OF _ x] by (simp add: yields_def)
  qed
  then show ?thesis using a grows_trans[OF _ g] by (simp add: ran_def)
qed

lemma compiled_load:
  assumes r: "compiled H w j st st1" and st: "st_ok st" and j: "0 \<le> j"
    and v: "small (st1\<lparr>cs_pool := snd (Intern v (cs_pool st1))\<rparr>) \<Longrightarrow> pool_good H w (cs_pool st) \<Longrightarrow>
      pool_good H w (cs_pool st1) \<Longrightarrow> val_ok (with_pool H w (cs_pool st1)) v"
  shows "compiled H w (j + 1) st (loadConstant v st1)"
proof -
  obtain n P' where i: "Intern v (cs_pool st1) = (n, P')" by fastforce
  let ?st2 = "st1\<lparr>cs_pool := P'\<rparr>"
  have e: "loadConstant v st1 = upd_cur (incSP 1 \<circ> emitWithArg OP_LOAD_CONST n) ?st2"
    by (simp add: loadConstant_def poolConstant_def i)
  have "compiled H w j st ?st2"
    unfolding compiled_def
  proof
    show "ran H w j st ?st2"
      by (rule ran_pool[OF r[unfolded compiled_def, THEN conjunct1] i]) (use v i in simp)
  qed (use r in \<open>simp add: compiled_def\<close>)
  from compiled_push[OF this st j Intern_spec(1)[OF i]] show ?thesis
    unfolding e using Intern_spec(1,2)[OF i] by (simp add: small_def)
qed


lemma compiled_refl: "st_ok st \<Longrightarrow> compiled H w 0 st st"
  by (simp add: compiled_def ran_refl)

lemma compiled_const: "compiled H w j st st1 \<Longrightarrow> st_ok st \<Longrightarrow> 0 \<le> j \<Longrightarrow> val_ok w v \<Longrightarrow> compiled H w (j + 1) st (loadConstant v st1)"
  using compiled_load[of H w j st st1 v] val_good by blast

lemma loadConstant_ok: "st_ok st \<Longrightarrow> val_ok w v \<Longrightarrow> compiled H w 1 st (loadConstant v st)"
  using compiled_const[OF compiled_refl, where st = st] by simp

lemma loadVar_ok:
  assumes "st_ok st"
  shows "compiled H w 1 st (loadVar v st)"
proof -
  obtain n P' where i: "Intern (VarV v) (cs_pool st) = (n, P')" by fastforce
  let ?st2 = "st\<lparr>cs_pool := P'\<rparr>"
  have e: "loadVar v st = upd_cur (incSP 1 \<circ> emitWithArg OP_LOAD_VAR n) ?st2"
    by (simp add: loadVar_def poolConstant_def i)
  have s: "slot P' n = Some (VarV v)" using Intern_spec[OF i] by auto
  have "compiled H w 0 st ?st2"
    unfolding compiled_def using ran_pool[OF ran_refl[OF assms] i] by simp
  from compiled_push[OF this assms order.refl Intern_spec(1)[OF i], of OP_LOAD_VAR] show ?thesis
    unfolding e using Intern_spec(1,2)[OF i] s by (simp add: small_def del: slot_eq_Some)
qed

lemma compiled_cell:
  assumes r: "compiled H w j st st1" and st: "st_ok st" and j: "0 \<le> j" and cl: "cell_ok (cs_cur st1) cl"
  shows "compiled H w (j + 1) st (upd_cur (emitCell cl) st1)"
proof -
  have ok: "ctx_ok (cs_cur st1)" by (rule st_ok_ctx[OF compiled_ok[OF r]])
  have sp: "0 \<le> cx_sp (cs_cur st1)" "cx_sp (cs_cur st1) \<le> currentAddress (cs_cur st1)" "cx_sp (cs_cur st1) = cx_sp (cs_cur st) + j"
    using ok r by (simp_all add: ctx_ok_def compiled_def ran_def)
  show ?thesis
  proof (cases cl)
    case (LocalCell l)
    have "compiled H w (j + 1) st (upd_cur (incSP 1 \<circ> emitWithArg OP_DUP_NTH (cx_sp (cs_cur st1) - 1 - l)) st1)"
      by (rule compiled_push[OF r st j]) (use cl LocalCell sp in \<open>auto simp: small_def cx_ops cell_ok_def\<close>)
    then show ?thesis using LocalCell by (simp add: emitCell_def)
  next
    case (ArgCell m)
    have "compiled H w (j + 1) st (upd_cur (incSP 1 \<circ> emitWithArg OP_LOAD_ARG m) st1)"
      by (rule compiled_push[OF r st j]) (use cl ArgCell in \<open>auto simp: cell_ok_def\<close>)
    then show ?thesis using ArgCell by (simp add: emitCell_def)
  next
    case (ClosureCell k)
    have "compiled H w (j + 1) st (upd_cur (incSP 1 \<circ> emitWithArg OP_LOAD_CLOSEDOVER (int k)) st1)"
      by (rule compiled_push[OF r st j]) (use cl ClosureCell in \<open>auto simp: cell_ok_def small_def cx_ops\<close>)
    then show ?thesis using ClosureCell by (simp add: emitCell_def)
  qed
qed

section \<open>Tail positions and several forms\<close>

lemma ctx_ok_tail [simp]: "ctx_ok (c\<lparr>cx_tail := b\<rparr>) = ctx_ok c"
  by (simp add: ctx_ok_def currentAddress_def)

lemma chain_ok_tail [simp]: "chain_ok (setTail b c # cs) = chain_ok (c # cs)"
  by (cases cs) (simp_all add: setTail_def)

lemma upd_cur_comp: "upd_cur (f \<circ> g) st = upd_cur f (upd_cur g st)"
  by simp

lemma setTail_id: "cx_tail (cs_cur st) = b \<Longrightarrow> upd_cur (setTail b) st = st"
  by (cases st; cases "cs_cur st") (simp add: setTail_def)

lemma setTail_setTail: "setTail b (setTail b' c) = setTail b c"
  by (simp add: setTail_def)

lemma tail_cur: "cx_tail (cs_cur (upd_cur (setTail b) st)) = b"
  by (simp add: setTail_def)

lemma ran_setTail: "ran H w k st st1 \<Longrightarrow> ran H w k st (upd_cur (setTail b) st1)"
  by (rule ran_silent) (simp_all add: ran_def st_ok_ctx setTail_def)

text \<open>What is compiled outside of tail position may stand in one.\<close>

lemma compiled_tail:
  assumes "compiled H w k (upd_cur (setTail False) st) st1" "st_ok st" "cx_tail (cs_cur st) = tc"
  shows "compiled H w k st (upd_cur (setTail tc) st1)"
proof -
  have 1: "ran H w 0 st (upd_cur (setTail False) st)" by (rule ran_setTail[OF ran_refl[OF assms(2)]])
  have "ran H w (0 + k) st st1"
    by (rule ran_seq[OF 1]) (use assms(1) in \<open>simp_all add: compiled_def under_def setTail_def\<close>)
  from ran_setTail[OF this, of tc] show ?thesis
    using assms(1,3) by (simp add: compiled_def same_ctx_def setTail_def)
qed

lemma compiled_retail:
  assumes "compiled H w k st st1" "st_ok st" "\<not> cx_tail (cs_cur st)"
  shows "compiled H w k (upd_cur (setTail tp) st) (upd_cur (setTail tp) st1)"
proof (rule compiled_tail[OF _ _ tail_cur])
  have "upd_cur (setTail False) (upd_cur (setTail tp) st) = st"
    using setTail_id[of st False] assms(3) by (simp add: setTail_setTail)
  then show "compiled H w k (upd_cur (setTail False) (upd_cur (setTail tp) st)) st1" using assms(1) by simp
qed (use assms(2) in simp)

lemma compiled_tail_eq: "compiled H w k st st1 \<Longrightarrow> cx_tail (cs_cur st1) = cx_tail (cs_cur st)"
  by (simp add: compiled_def same_ctx_def)

lemma compiled_seq:
  assumes "compiled H w j st st1" "compiled H w k st1 st2" "\<not> cx_tail (cs_cur st) \<or> j = 0"
  shows "compiled H w (j + k) st st2"
proof -
  have "under (cs_cur st) (cs_cur st1)"
    using assms(1,3) under_same[of "cs_cur st" "cs_cur st1"]
    by (auto simp: compiled_def ran_def same_ctx_def intro: under_False)
  then show ?thesis
    using assms ran_seq[of H w j st st1 k st2] same_ctx_trans[of "cs_cur st" "cs_cur st1" "cs_cur st2"]
    by (simp add: compiled_def)
qed

lemma compiled_pop:
  "compiled H w j st st1 \<Longrightarrow> st_ok st \<Longrightarrow> 1 \<le> j \<Longrightarrow> compiled H w (j - 1) st (upd_cur (decSP 1 \<circ> emit OP_POP) st1)"
proof -
  assume a: "compiled H w j st st1" "st_ok st" "1 \<le> j"
  have "0 \<le> cx_sp (cs_cur st)" using st_ok_ctx[OF a(2)] by (simp add: ctx_ok_def)
  then show ?thesis using a by (intro compiled_op[where i = 1]) simp_all
qed

lemma sp_nonneg: "st_ok st \<Longrightarrow> 0 \<le> cx_sp (cs_cur st)"
  using st_ok_ctx by (auto simp: ctx_ok_def)

text \<open>Every value on the stack was pushed by some code word.\<close>

lemma depth_address: "compiled H w j st st1 \<Longrightarrow> st_ok st \<Longrightarrow> j \<le> currentAddress (cs_cur st1)"
  using st_ok_ctx[of st] by (simp add: compiled_def ran_def ctx_ok_def)

lemma compiled_invoke:
  assumes "compiled H w j st st1" "st_ok st" "1 + int n \<le> j"
  shows "compiled H w (j - int n) st (upd_cur (decSP (int n) \<circ> emitWithArg OP_INVOKE (int n)) st1)"
  by (rule compiled_op1[OF assms(1,2)])
    (use assms sp_nonneg[OF assms(2)] depth_address[OF assms(1,2)] in \<open>auto simp: small_def cx_ops\<close>)

lemma compiled_set_var:
  "compiled H w 2 st st1 \<Longrightarrow> st_ok st \<Longrightarrow> compiled H w 1 st (upd_cur (decSP 1 \<circ> emit OP_SET_VAR) st1)"
  using compiled_op[of H w 2 st st1 1 OP_SET_VAR] sp_nonneg[of st] by simp

text \<open>The name being defined is not part of the contract.\<close>

lemma compiled_defName: "compiled H w k st st1 \<Longrightarrow> compiled H w k st (upd_cur (cx_defName_update f) st1)"
  using ran_silent[of H w k st st1 "upd_cur (cx_defName_update f) st1"] st_ok_ctx[of st1]
  by (simp add: compiled_def same_ctx_def ran_def ctx_ok_def currentAddress_def)

section \<open>Symbols\<close>

lemma lookupScopes_in: "lookupScopes ms s = Some l \<Longrightarrow> \<exists>m\<in>set ms. \<exists>e\<in>set m. snd e = l"
  by (induction ms) (auto split: option.splits dest!: map_of_SomeD intro: bexI[rotated])

lemma lookupLocal_below: "ctx_ok c \<Longrightarrow> lookupLocal s c = Some l \<Longrightarrow> 0 \<le> l \<and> l < cx_sp c"
  unfolding lookupLocal_def ctx_ok_def by (drule lookupScopes_in) blast

lemma arg_range: "ctx_ok c \<Longrightarrow> arg s c = Some n \<Longrightarrow> 0 \<le> n \<and> n < lim"
  unfolding arg_def ctx_ok_def by (drule map_of_SomeD) auto

lemma capture_index_less: "capture_index s c = Some k \<Longrightarrow> k < length (cx_captured c)"
  by (auto simp: capture_index_def Let_def split: if_splits)

lemma cell_ok_ext: "outer_ext p p' \<Longrightarrow> cell_ok p cl \<Longrightarrow> cell_ok p' cl"
proof -
  assume "outer_ext p p'" and c: "cell_ok p cl"
  then have e: "p' = p\<lparr>cx_captured := cx_captured p'\<rparr>" "length (cx_captured p) \<le> length (cx_captured p')"
    by (simp_all only: outer_ext_def extends_length)
  have "cx_sp p' = cx_sp p" by (subst e(1)) simp
  then show ?thesis using c e(2) by (auto simp: cell_ok_def split: cell.splits)
qed

lemma ctx_ok_captured [simp]: "ctx_ok (c\<lparr>cx_captured := xs\<rparr>) = ctx_ok c"
  by (simp add: ctx_ok_def currentAddress_def)

lemma chain_captured:
  assumes "chain_ok (c # p # cs)" "outer_ext p p'" "chain_ok (p' # cs')" "extends (cx_captured c) xs"
    and "\<forall>e\<in>set (drop (length (cx_captured c)) xs). cell_ok p' (snd e)"
  shows "chain_ok (c\<lparr>cx_captured := xs\<rparr> # p' # cs')"
proof -
  obtain zs where "xs = cx_captured c @ zs" using assms(4) by (auto simp: extends_def)
  then show ?thesis using assms(1,3,5) cell_ok_ext[OF assms(2)] by auto
qed

lemma lookup_chain_ok:
  "lookup_chain s cs = (r, cs') \<Longrightarrow> chain_ok cs \<Longrightarrow>
   chain_ok cs' \<and> list_all2 outer_ext cs cs' \<and> (\<forall>cl. r = Some cl \<longrightarrow> cs' \<noteq> [] \<and> cell_ok (hd cs') cl)"
proof (induction cs arbitrary: r cs')
  case (Cons c cs)
  have ok: "ctx_ok c" using Cons.prems(2) by (cases cs) auto
  have rest: "chain_ok cs" using Cons.prems(2) by (cases cs) auto
  obtain r1 cs1 where l: "lookup_chain s cs = (r1, cs1)" by fastforce
  note ih = Cons.IH[OF l rest]
  have keep: "chain_ok (c # cs1) \<and> list_all2 outer_ext (c # cs) (c # cs1)"
  proof (cases cs)
    case (Cons p ps)
    then obtain p' ps' where "cs1 = p' # ps'" "outer_ext p p'" using ih by (cases cs1) auto
    then show ?thesis using chain_captured[of c p ps p' ps' "cx_captured c"] Cons.prems(2) ih Cons by simp
  qed (use l Cons.prems(2) in simp)
  show ?case
  proof (cases "lookupLocal s c = None \<and> arg s c = None \<and> capture_index s c = None")
    case True
    show ?thesis
    proof (cases r1)
      case (Some outer)
      then obtain p' ps' where p': "cs1 = p' # ps'" using ih by (cases cs1) auto
      then obtain p ps where p: "cs = p # ps" "outer_ext p p'" using ih by (cases cs) auto
      have "chain_ok (c\<lparr>cx_captured := cx_captured c @ [(s, outer)]\<rparr> # p' # ps')"
        by (rule chain_captured[OF _ p(2)]) (use Cons.prems(2) p p' ih Some in auto)
      then show ?thesis
        using Cons.prems(1) True l Some p p' ih by (auto simp: cell_ok_def outer_ext_def)
    qed (use Cons.prems(1) True l keep in auto)
  qed (use Cons.prems ok lookupLocal_below[OF ok, of s] arg_range[OF ok, of s] capture_index_less[of s c] in
      \<open>auto simp: cell_ok_def list_all2_refl split: option.splits\<close>)
qed simp

lemma symbolLookup_ok:
  assumes st: "st_ok st" and s: "symbolLookup s st = (r, st1)"
  shows "compiled H w 0 st st1" "\<And>cl. r = Some cl \<Longrightarrow> cell_ok (cs_cur st1) cl"
proof -
  obtain r' cs' where l: "lookup_chain s (cs_cur st # cs_outer st) = (r', cs')" by fastforce
  note ok = lookup_chain_ok[OF l st]
  then obtain c cs where cs: "cs' = c # cs" "outer_ext (cs_cur st) c" "list_all2 outer_ext (cs_outer st) cs"
    by (cases cs') auto
  have e: "st1 = st\<lparr>cs_cur := c, cs_outer := cs\<rparr>" "r' = r" using s l cs by (auto simp: symbolLookup_def)
  have "c = (cs_cur st)\<lparr>cx_captured := cx_captured c\<rparr>" using cs(2) by (simp only: outer_ext_def)
  then have f: "cx_code c = cx_code (cs_cur st)" "cx_sp c = cx_sp (cs_cur st)" "cx_spMax c = cx_spMax (cs_cur st)"
      "same_ctx (cs_cur st) c" "extends (cx_captured (cs_cur st)) (cx_captured c)"
    using cs(2) by (cases "cs_cur st"; cases c; simp add: same_ctx_def outer_ext_def)+
  have g: "grows st st1" using e f cs(3) by (simp add: grows_def)
  have "yields H w st st1"
    using e f typed_cong[of "cs_cur st" "cs_cur st" c "cs_cur st"] typed_refl[of "cs_cur st"]
    by (auto simp: yields_def enters_def)
  then show "compiled H w 0 st st1" using ok e f g cs by (simp add: compiled_def ran_def currentAddress_def)
  show "cell_ok (cs_cur st1) cl" if "r = Some cl" for cl using ok e cs that by simp
qed


section \<open>Forms and hosts\<close>

text \<open>The arguments of \<open>fn*\<close> and \<open>try\<close> for which the compiler emits working code: a rest
  parameter has a parameter before it or after it, and \<open>try\<close> has more than empty \<open>finally\<close> blocks.
  A loop without bindings whose body is \<open>(recur)\<close> emits no push; as the body of a \<open>try\<close>
  it leaves the handler no stack slot in the recorded depth, and it is left out too. \<open>silent\<close> are the
  forms that may emit nothing but such a jump.\<close>

fun silent :: "form \<Rightarrow> bool" where
  "silent (FList (FSym s # args)) \<longleftrightarrow>
     (if s = ''recur'' \<or> s = ''finally'' then args = []
      else if s = ''do'' \<or> s = ''try'' then args \<noteq> [] \<and> list_all silent args
      else if s = ''let*'' then (case args of FVec m [] # body \<Rightarrow> body \<noteq> [] \<and> list_all silent body | _ \<Rightarrow> False)
      else False)"
| "silent (FVec None [FSym s]) \<longleftrightarrow> s = ''finally''"
| "silent (FSet m [FSym s]) \<longleftrightarrow> s = ''finally''"
| "silent f \<longleftrightarrow> False"

definition params_ok :: "form list \<Rightarrow> bool" where
  "params_ok as \<longleftrightarrow> int (length as) < lim \<and> map stripBindingMeta as \<noteq> [FSym ''&'']"

definition arm_ok :: "form \<Rightarrow> bool" where
  "arm_ok f \<longleftrightarrow> (case formSeq f of Some (FVec m as # _) \<Rightarrow> params_ok as | _ \<Rightarrow> True)"

definition special_ok :: "form list \<Rightarrow> bool" where
  "special_ok fs \<longleftrightarrow> (case fs of
     FSym s # args \<Rightarrow>
       (s = ''try'' \<longrightarrow> args = [] \<or> (\<exists>f\<in>set args. formSeq f \<noteq> Some [FSym ''finally''])) \<and>
       (s = ''loop*'' \<longrightarrow> (case args of FVec m [] # body \<Rightarrow> body = [] \<or> \<not> list_all silent body | _ \<Rightarrow> True)) \<and>
       (s = ''fn*'' \<longrightarrow> (case args of FVec m as # _ \<Rightarrow> params_ok as | _ \<Rightarrow> \<forall>f\<in>set args. arm_ok f))
   | _ \<Rightarrow> True)"

fun form_ok :: "'h world \<Rightarrow> form \<Rightarrow> bool" where
  "form_ok w (FVal v) = val_ok w v"
| "form_ok w (FSym s) = True"
| "form_ok w (FList fs) = ((\<forall>f\<in>set fs. form_ok w f) \<and> special_ok fs)"
| "form_ok w (FVec m fs) = ((case m of Some x \<Rightarrow> form_ok w x | None \<Rightarrow> True) \<and> (\<forall>f\<in>set fs. form_ok w f))"
| "form_ok w (FMap m kvs) = ((case m of Some x \<Rightarrow> form_ok w x | None \<Rightarrow> True) \<and>
     (\<forall>kv\<in>set kvs. form_ok w (fst kv) \<and> form_ok w (snd kv)))"
| "form_ok w (FSet m fs) = ((case m of Some x \<Rightarrow> form_ok w x | None \<Rightarrow> True) \<and> (\<forall>f\<in>set fs. form_ok w f))"

text \<open>What the services around the compiler give back is well-formed.\<close>

definition chost_ok :: "'e chost \<Rightarrow> 'h world \<Rightarrow> bool" where
  "chost_ok H w \<longleftrightarrow>
     (\<forall>s v. ch_hostClass H s = Some v \<longrightarrow> val_ok w v) \<and>
     (\<forall>s m d f v e. val_ok w (fst (ch_defMeta H s m d f v e))) \<and>
     (\<forall>v f args e g. form_ok w f \<longrightarrow> fst (ch_expand H v f args e) = Some g \<longrightarrow> form_ok w g \<and> \<not> silent g) \<and>
     (\<forall>s f e g. form_ok w f \<longrightarrow> fst (ch_irCompile H s f e) = Ok (Some g) \<longrightarrow> form_ok w g)"

lemma formSeq_ok: "formSeq f = Some fs \<Longrightarrow> form_ok w f \<Longrightarrow> \<forall>f\<in>set fs. form_ok w f"
  by (cases f rule: formSeq.cases) auto

lemma formSeq_finally: "formSeq f = Some [FSym ''finally''] \<Longrightarrow> silent f"
  by (cases f rule: formSeq.cases) auto

lemma chost_irCompile: "chost_ok H w \<Longrightarrow> form_ok w f \<Longrightarrow> fst (ch_irCompile H s f e) = Ok (Some g) \<Longrightarrow> form_ok w g"
  unfolding chost_ok_def by blast

lemma chost_expand: "chost_ok H w \<Longrightarrow> form_ok w f \<Longrightarrow> fst (ch_expand H v f args e) = Some g \<Longrightarrow> form_ok w g \<and> \<not> silent g"
  unfolding chost_ok_def by blast

lemma chost_defMeta: "chost_ok H w \<Longrightarrow> val_ok w (fst (ch_defMeta H s m d f v e))"
  unfolding chost_ok_def by blast

lemma chost_hostClass: "chost_ok H w \<Longrightarrow> ch_hostClass H s = Some v \<Longrightarrow> val_ok w v"
  unfolding chost_ok_def by blast

lemma val_ok_const_of: "form_ok w f \<Longrightarrow> val_ok w (const_of H f)"
  by (induction H f rule: const_of.induct) auto

lemma val_ok_coreConst [simp]: "val_ok w (coreConst H s st)"
  by (simp add: coreConst_def split: option.split)

text \<open>Environments and counters do not matter.\<close>

lemma compiled_env [simp]:
  "compiled H w k st (st1\<lparr>cs_env := e\<rparr>) = compiled H w k st st1"
  "compiled H w k (st\<lparr>cs_env := e\<rparr>) st1 = compiled H w k st st1"
  "compiled H w k (st\<lparr>cs_caught := n\<rparr>) st1 = compiled H w k st st1"
  by (simp_all add: compiled_def ran_def yields_def grows_def small_def)

lemma compiled_from:
  "compiled H w k st st' \<Longrightarrow> cs_cur a = cs_cur st \<Longrightarrow> cs_outer a = cs_outer st \<Longrightarrow> cs_pool a = cs_pool st \<Longrightarrow>
   compiled H w k a st'"
  by (simp add: compiled_def ran_def yields_def grows_def small_def)

lemma ex_env: "\<exists>e. st = st\<lparr>cs_env := e\<rparr>"
  by (rule exI[of _ "cs_env st"]) simp

lemma no_pre_env: "no_pre f st = Ok st1 \<Longrightarrow> \<exists>e. st1 = st\<lparr>cs_env := e\<rparr>"
  by (auto intro: ex_env)

lemma obind_assoc: "obind (obind r f) g = obind r (\<lambda>x. obind (f x) g)"
  by (cases r) simp_all

lemma obind_Ok: "obind r f = Ok y \<longleftrightarrow> (\<exists>x. r = Ok x \<and> f x = Ok y)"
  by (cases r) auto

section \<open>Scopes\<close>

lemmas ctx_simps = cx_ops popScope_def Let_def

lemma cx_tail_setTail [simp]: "cx_tail (setTail b c) = b"
  by (simp add: setTail_def)

lemma setTail_same [simp]: "setTail (cx_tail c) c = c"
  by (simp add: setTail_def)

lemma setTail_commute:
  "setTail b (emit oc c) = emit oc (setTail b c)" "setTail b (append32 n c) = append32 n (setTail b c)"
  "setTail b (emitWithArg oc n c) = emitWithArg oc n (setTail b c)" "setTail b (decSP i c) = decSP i (setTail b c)"
  "setTail b (popScope k c) = popScope k (setTail b c)" "setTail b (popRecurPoint c) = popRecurPoint (setTail b c)"
  by (cases c; simp add: ctx_simps)+

text \<open>The innermost scope gained \<open>b\<close> slots; the rest is as it was.\<close>

definition bound :: "nat \<Rightarrow> cctx \<Rightarrow> cctx \<Rightarrow> bool" where
  "bound b c c1 \<longleftrightarrow> cx_args c1 = cx_args c \<and> cx_argCount c1 = cx_argCount c \<and> cx_variadic c1 = cx_variadic c \<and>
     cx_isFunction c1 = cx_isFunction c \<and> cx_recurs c1 = cx_recurs c \<and>
     (\<exists>m m' ms n ns. cx_locals c = m # ms \<and> cx_locals c1 = m' # ms \<and> cx_slots c = n # ns \<and> cx_slots c1 = (n + b) # ns)"

lemma ran_ok: "ran H w k st st1 \<Longrightarrow> st_ok st1"
  by (simp add: ran_def)

lemma ran_addLocal:
  assumes "ran H w k st st1" "1 \<le> cx_sp (cs_cur st1)" "cx_locals (cs_cur st1) \<noteq> []"
  shows "ran H w k st (upd_cur (addLocal name) st1)"
proof -
  have "ctx_ok (addLocal name (cs_cur st1))"
    using st_ok_ctx[OF ran_ok[OF assms(1)]] assms(2,3)
    by (cases "cx_locals (cs_cur st1)"; cases "cx_slots (cs_cur st1)") (auto simp: ctx_ok_def addLocal_def currentAddress_def)
  then show ?thesis by (intro ran_silent[OF assms(1)]) (simp_all add: addLocal_def)
qed

lemma ctx_ok_pushLocals: "ctx_ok c \<Longrightarrow> ctx_ok (pushLocals c)"
  by (simp add: ctx_ok_def pushLocals_def currentAddress_def le_SucI)

lemma ran_pushLocals:
  "ran H w k st st1 \<Longrightarrow> ran H w k st (upd_cur (setTail b \<circ> pushLocals) st1)"
proof -
  assume r: "ran H w k st st1"
  have "ctx_ok (pushLocals (cs_cur st1))" by (rule ctx_ok_pushLocals[OF st_ok_ctx[OF ran_ok[OF r]]])
  then show ?thesis by (intro ran_silent[OF r]) (simp_all add: setTail_def pushLocals_def)
qed

lemma bound_ctx: "same_ctx c c1 \<Longrightarrow> cx_locals c = m # ms \<Longrightarrow> cx_slots c = n # ns \<Longrightarrow> bound 1 c (addLocal name c1)"
  by (simp add: bound_def same_ctx_def addLocal_def)

lemma bound_trans: "bound a c c1 \<Longrightarrow> bound b c1 c2 \<Longrightarrow> bound (a + b) c c2"
  by (auto simp: bound_def)

text \<open>In tail position after a scope was opened and \<open>b\<close> slots were bound.\<close>

lemma under_bound:
  assumes "bound b (pushLocals c) c1" "ctx_ok c" "cx_sp c1 = cx_sp c + int b"
  shows "under c (setTail (cx_tail c) c1)"
proof -
  have "cx_recurs c = rp # rps \<Longrightarrow> Suc (length (cx_locals c)) - rp_locals rp = Suc (length (cx_locals c) - rp_locals rp)" for rp rps
    using assms(2) by (auto simp: ctx_ok_def Suc_diff_le)
  then show ?thesis using assms(1,3)
    by (auto simp: under_def bound_def passed_def setTail_def pushLocals_def split: list.splits)
qed

text \<open>Leaving the scope drops its slots under the value.\<close>

lemma scope_close:
  assumes r: "ran H w (int b + j) st s" and st: "st_ok st" and j: "0 \<le> j" "1 \<le> cx_sp (cs_cur st) + j"
    and c: "cx_args (cs_cur s) = cx_args (cs_cur st)" "cx_argCount (cs_cur s) = cx_argCount (cs_cur st)"
      "cx_variadic (cs_cur s) = cx_variadic (cs_cur st)" "cx_isFunction (cs_cur s) = cx_isFunction (cs_cur st)"
      "cx_recurs (cs_cur s) = cx_recurs (cs_cur st)" "cx_tail (cs_cur s) = cx_tail (cs_cur st)"
      "cx_locals (cs_cur s) = m # cx_locals (cs_cur st)" "cx_slots (cs_cur s) = n # cx_slots (cs_cur st)"
  shows "compiled H w j st (upd_cur (popScope b) s)"
proof -
  let ?s = "upd_cur popLocals s"
  have ok: "ctx_ok (cs_cur st)" "ctx_ok (cs_cur s)" using st_ok_ctx st ran_ok[OF r] by blast+
  then have sp: "0 \<le> cx_sp (cs_cur st)" "cx_sp (cs_cur s) = cx_sp (cs_cur st) + int b + j"
      "cx_sp (cs_cur st) \<le> currentAddress (cs_cur st)" "int b \<le> currentAddress (cs_cur s)"
    using r j by (simp_all add: ctx_ok_def ran_def)
  have "ctx_ok (cs_cur ?s)"
    using ok c(5,7,8) by (auto simp: ctx_ok_def popLocals_def currentAddress_def)
  then have "ran H w (int b + j) st ?s" by (rule ran_silent[OF r]) (simp_all add: popLocals_def)
  then have 1: "compiled H w (int b + j) st ?s" using c by (simp add: compiled_def same_ctx_def popLocals_def)
  show ?thesis
  proof (cases "b = 0")
    case False
    have "compiled H w (int b + j - int b) st (upd_cur (decSP (int b) \<circ> emitWithArg OP_POP_N (int b)) ?s)"
      by (rule compiled_op1[OF 1 st]) (use sp j False in \<open>auto simp: small_def ctx_simps\<close>)
    then show ?thesis using False by (simp add: popScope_def Let_def)
  qed (use 1 in \<open>simp add: popScope_def Let_def\<close>)
qed

text \<open>A loop may use that its own entry is typed.\<close>

lemma typed_loop:
  assumes "typed P n L R' S S c c' M" "\<And>T. R T \<Longrightarrow> flows T (currentAddress c) (cx_sp c) S \<Longrightarrow> R' T"
    and "currentAddress c < currentAddress c'"
  shows "typed P n L R S S c c' M"
proof -
  have "words c c' \<noteq> []" using assms(3) by (simp add: words_def currentAddress_def)
  then have "part True P n L R a (words c c') (cx_sp c) S d S ex tab"
    if "part True P n L R' a (words c c') (cx_sp c) S d S ex tab" "a = currentAddress c" for a d ex tab
    using that piece_loop[OF piece_weaken[of P n L R' a "words c c'" "cx_sp c" S d S ex tab "\<lambda>T. R T \<and> flows T a (cx_sp c) S"]]
      assms(2) by (auto simp: part_def)
  then show ?thesis using assms(1) unfolding typed_def tpart_def by blast
qed

lemma ran_loop:
  assumes r: "ran H w 1 (upd_cur (setTail True \<circ> pushRecurPoint b) st) st'" and st: "st_ok st"
    and b: "int b \<le> cx_sp (cs_cur st)" "\<not> cx_tail (cs_cur st)"
  shows "ran H w 1 st st'"
proof -
  let ?s = "upd_cur (setTail True \<circ> pushRecurPoint b) st"
  have c: "cx_code (cs_cur ?s) = cx_code (cs_cur st)" "cx_sp (cs_cur ?s) = cx_sp (cs_cur st)"
      "cx_spMax (cs_cur ?s) = cx_spMax (cs_cur st)" "currentAddress (cs_cur ?s) = currentAddress (cs_cur st)"
      "cx_argCount (cs_cur ?s) = cx_argCount (cs_cur st)" "cx_tail (cs_cur ?s)"
    by (simp_all add: ctx_simps)
  have e: "enters (cs_cur ?s) S" if "enters (cs_cur st) S" for S
    using that b by (simp add: enters_def passed_def ctx_simps)
  have R: "ctxR L S (cs_cur ?s) T" if "ctxR L S (cs_cur st) T" "flows T (currentAddress (cs_cur st)) (cx_sp (cs_cur st)) S" for L S T
    using that by (simp add: ctxR_def passed_def ctx_simps)
  have a: "currentAddress (cs_cur st) < currentAddress (cs_cur st')" using r c(4) by (simp add: ran_def)
  have "yields H w st st'"
    unfolding yields_def
  proof (intro impI conjI allI)
    assume s: "small st'" and p: "pool_good H w (cs_pool st)"
    then show "pool_good H w (cs_pool st')" using r by (simp add: ran_def yields_def)
    fix S L assume S: "enters (cs_cur st) S" and L: "cx_spMax (cs_cur st') \<le> L"
    have "typed (cs_pool st') (int (cx_argCount (cs_cur st))) L (ctxR L S (cs_cur ?s)) S S (cs_cur ?s) (cs_cur st') (cx_spMax (cs_cur st'))"
      using r s p e[OF S] L c(5) by (simp add: ran_def yields_def)
    then have "typed (cs_pool st') (int (cx_argCount (cs_cur st))) L (ctxR L S (cs_cur ?s)) S S (cs_cur st) (cs_cur st') (cx_spMax (cs_cur st'))"
      using typed_cong[OF c(1,2) refl refl] by blast
    then show "typed (cs_pool st') (int (cx_argCount (cs_cur st))) L (ctxR L S (cs_cur st)) S S (cs_cur st) (cs_cur st') (cx_spMax (cs_cur st'))"
      by (rule typed_loop[OF _ R a])
  qed
  then show ?thesis using r c by (simp add: ran_def grows_def ctx_simps)
qed

text \<open>An instruction that does not go on.\<close>

lemma typed_stop:
  assumes c: "cx_code c' = cx_code c @ opword oc sp # args" and d: "0 \<le> cx_sp c" "cx_sp c \<le> L"
    and i: "\<And>code. holds code (currentAddress c) (opword oc sp # args) \<Longrightarrow>
      \<exists>ss. succs P n code (currentAddress c) oc (cx_sp c) S = Some ss \<and> (\<forall>T. R T \<longrightarrow> list_all (\<lambda>(pc, d, S). flows T pc d S) ss)"
    and R: "\<And>T. R T \<Longrightarrow> entries_ok T L S"
  shows "typed P n L R S S c c' M"
proof -
  let ?ws = "opword oc sp # args"
  have "piece P n L R (currentAddress c) ?ws (cx_sp c) S (cx_sp c') S False [(currentAddress c, cx_sp c, S)]"
    by (rule piece_weaken[OF piece_stop[where R = R and oc = oc]]) (use d i R in simp_all)
  moreover have "words c c' = ?ws" using c by (simp add: words_def)
  ultimately show ?thesis using part_piece[of P n L R "currentAddress c" ?ws] c unfolding typed_def tpart_def by fastforce
qed

lemma ran_stop:
  assumes r: "ran H w j st st1" and ok: "ctx_ok (cs_cur st2)"
    and c: "cx_code (cs_cur st2) = cx_code (cs_cur st1) @ opword oc sp # args" "cx_sp (cs_cur st2) = cx_sp (cs_cur st1) + k"
      "k \<le> 1 + int (length args)" "cx_spMax (cs_cur st1) \<le> cx_spMax (cs_cur st2)"
      "cx_captured (cs_cur st2) = cx_captured (cs_cur st1)" "cs_outer st2 = cs_outer st1" "cs_pool st2 = cs_pool st1"
    and i: "\<And>S L code. small st2 \<Longrightarrow> enters (cs_cur st) S \<Longrightarrow>
      holds code (currentAddress (cs_cur st1)) (opword oc sp # args) \<Longrightarrow>
      \<exists>ss. succs (cs_pool st2) (int (cx_argCount (cs_cur st))) code (currentAddress (cs_cur st1)) oc (cx_sp (cs_cur st1)) S = Some ss \<and>
        (\<forall>T. ctxR L S (cs_cur st) T \<longrightarrow> list_all (\<lambda>(pc, d, S). flows T pc d S) ss)"
  shows "ran H w (j + k) st st2"
proof -
  note a = r[unfolded ran_def]
  have g: "grows st1 st2" using c by (auto simp: grows_def)
  have y: "yields H w st st2"
    unfolding yields_def
  proof (intro impI conjI allI)
    assume s: "small st2" and p: "pool_good H w (cs_pool st)"
    have s1: "small st1" using small_grows g s by blast
    then show "pool_good H w (cs_pool st2)" using a p c(7) by (simp add: yields_def)
    fix S L assume e: "enters (cs_cur st) S" and L: "cx_spMax (cs_cur st2) \<le> L"
    let ?n = "int (cx_argCount (cs_cur st))"
    have L1: "cx_spMax (cs_cur st1) \<le> L" using L c(4) by simp
    have 1: "typed (cs_pool st2) ?n L (ctxR L S (cs_cur st)) S S (cs_cur st) (cs_cur st1) (cx_spMax (cs_cur st1))"
      using a s1 p e L1 c(7) by (simp add: yields_def)
    have d: "0 \<le> cx_sp (cs_cur st1)" using st_ok_ctx[of st1] a by (simp add: ctx_ok_def)
    have 2: "typed (cs_pool st2) ?n L (ctxR L S (cs_cur st)) S S (cs_cur st1) (cs_cur st2) (cx_spMax (cs_cur st2))"
      if "cx_sp (cs_cur st1) \<le> cx_spMax (cs_cur st1)"
      by (rule typed_stop[OF c(1) d _ i[OF s e] ctxR_entries]) (use L1 that in simp_all)
    show "typed (cs_pool st2) ?n L (ctxR L S (cs_cur st)) S S (cs_cur st) (cs_cur st2) (cx_spMax (cs_cur st2))"
      by (rule typed_seq[OF 1 _ 2]) (use c in simp_all)
  qed
  have "st_ok st2" using chain_cur[of "cs_cur st1" "cs_outer st1" "cs_cur st2"] a ok c by simp
  then show ?thesis using a y c grows_trans[OF _ g, of st] by (simp add: ran_def currentAddress_def)
qed

lemma recur_words:
  assumes "holds code a [w, word_of_int x, word_of_int y, word_of_int z]" "0 \<le> x" "x < lim" "0 \<le> y" "y < lim" "0 \<le> z" "z < lim"
  shows "argw code (a + 1) = Some x" "argw code (a + 2) = Some y" "argw code (a + 3) = Some z"
  using argw_holds[of code a w] assms sint_u32[of x] sint_u32[of y] sint_u32[of z] by force+

end
