(* ===== verification/LG_ContractCode.thy ===== *)
theory LG_ContractCode
  imports LG_Contract
begin

text \<open>
  The contract for composed code: branches, functions with their captures, exception handlers,
  recorded depths and the forms that the compiler rewrites.
\<close>

section \<open>Branches\<close>

lemma typed_pieceD:
  "typed P n L R S S' c c' M \<Longrightarrow> currentAddress c < currentAddress c' \<Longrightarrow>
   \<exists>ex tab. piece P n L R (currentAddress c) (words c c') (cx_sp c) S (cx_sp c') S' ex tab \<and> (ex \<longrightarrow> cx_sp c' \<le> M)"
  by (auto simp: typed_def tpart_def part_def words_def currentAddress_def split: if_splits)

lemma extends_words: "extends (cx_code c) (cx_code c') \<Longrightarrow> cx_code c' = cx_code c @ words c c'"
  by (auto simp: words_def extends_def)

lemma patch_code:
  "cx_code c = A @ x # y # B \<Longrightarrow> p = int (length A) \<Longrightarrow> cx_code (updatePlaceholderArg p n c) = A @ x # word_of_int n # B"
  by (simp add: updatePlaceholderArg_def nat_add_distrib list_update_append)

lemma patch_other [simp]:
  "cx_sp (updatePlaceholderArg p n c) = cx_sp c" "cx_spMax (updatePlaceholderArg p n c) = cx_spMax c"
  "cx_captured (updatePlaceholderArg p n c) = cx_captured c" "currentAddress (updatePlaceholderArg p n c) = currentAddress c"
  "length (cx_code (updatePlaceholderArg p n c)) = length (cx_code c)" "cx_argCount (updatePlaceholderArg p n c) = cx_argCount c"
  "cx_tail (updatePlaceholderArg p n c) = cx_tail c" "cx_locals (updatePlaceholderArg p n c) = cx_locals c"
  "cx_slots (updatePlaceholderArg p n c) = cx_slots c" "cx_args (updatePlaceholderArg p n c) = cx_args c"
  "cx_recurs (updatePlaceholderArg p n c) = cx_recurs c" "same_ctx (updatePlaceholderArg p n c) d = same_ctx c d"
  "same_ctx d (updatePlaceholderArg p n c) = same_ctx d c" "ctx_ok (updatePlaceholderArg p n c) = ctx_ok c"
  by (simp_all add: updatePlaceholderArg_def currentAddress_def same_ctx_def ctx_ok_def)

definition store_grows :: "'e cstate \<Rightarrow> 'e cstate \<Rightarrow> bool" where
  "store_grows st st' \<longleftrightarrow> extends (cs_pool st) (cs_pool st') \<and> cx_spMax (cs_cur st) \<le> cx_spMax (cs_cur st') \<and>
     extends (cx_captured (cs_cur st)) (cx_captured (cs_cur st')) \<and> list_all2 outer_ext (cs_outer st) (cs_outer st')"

lemma grows_store: "grows st st' \<longleftrightarrow> extends (cx_code (cs_cur st)) (cx_code (cs_cur st')) \<and> store_grows st st'"
  by (auto simp: grows_def store_grows_def)

lemma store_trans: "store_grows a b \<Longrightarrow> store_grows b c \<Longrightarrow> store_grows a c"
  unfolding store_grows_def using extends_trans outers_trans by (meson order_trans)

lemma store_same:
  "cs_pool b = cs_pool a \<and> cx_spMax (cs_cur b) = cx_spMax (cs_cur a) \<and> cx_captured (cs_cur b) = cx_captured (cs_cur a) \<and>
   cs_outer b = cs_outer a \<Longrightarrow> store_grows a b"
  by (simp add: store_grows_def)

lemma sint_small: "0 \<le> n \<Longrightarrow> n < lim \<Longrightarrow> sint (word_of_int n :: u32) = n"
  using sint_u32[of n] by simp

lemma compiled_pool:
  "compiled H w k st st' \<Longrightarrow> small st' \<Longrightarrow> pool_good H w (cs_pool st) \<Longrightarrow> pool_good H w (cs_pool st')"
  by (simp add: compiled_def ran_def yields_def)

text \<open>A form compiled in the context \<open>c\<close> at its depth; the typing stands in a later pool.\<close>

lemma compiled_at:
  assumes "compiled H w k st st'" "small st'" "pool_good H w (cs_pool st)"
    and "same_ctx c (cs_cur st)" "cx_sp (cs_cur st) = cx_sp c" "enters c S"
    and "cx_spMax c \<le> cx_spMax (cs_cur st)" "currentAddress c \<le> currentAddress (cs_cur st)"
    and "cx_spMax (cs_cur st') \<le> L" "extends (cs_pool st') P"
  shows "typed P (int (cx_argCount c)) L (ctxR L S c) S S (cs_cur st) (cs_cur st') (cx_spMax (cs_cur st'))"
proof (rule typed_pool[OF typed_weaken assms(10)])
  have "cx_sp (cs_cur st) \<le> cx_spMax (cs_cur st)" using assms(5,6,7) by (simp add: enters_def)
  from enters_under[OF under_same[OF assms(4,5)] assms(6) this assms(8)]
  have "typed (cs_pool st') (int (cx_argCount (cs_cur st))) L (ctxR L S (cs_cur st)) S S (cs_cur st) (cs_cur st') (cx_spMax (cs_cur st'))"
    using assms(1,2,3,9) by (simp add: compiled_def ran_def yields_def)
  then show "typed (cs_pool st') (int (cx_argCount c)) L (ctxR L S (cs_cur st)) S S (cs_cur st) (cs_cur st') (cx_spMax (cs_cur st'))"
    using assms(4) by (simp add: same_ctx_def)
qed (rule ctxR_under[OF under_same[OF assms(4,5)]])

text \<open>Both arms start at the depth of the whole, without the test.\<close>

lemma compiled_branches:
  assumes r: "compiled H w 1 (upd_cur (setTail False) st) s1" and st: "st_ok st"
    and s2: "s2 = upd_cur (setTail (cx_tail (cs_cur st)) \<circ> decSP 1 \<circ> emitWithArg OP_BRANCH_FALSE 0) s1"
    and t: "st_ok s2 \<Longrightarrow> compiled H w 1 s2 s3"
    and s5: "s5 = upd_cur (updatePlaceholderArg a1 (currentAddress (cs_cur s3) + 2 - a1) \<circ> emitWithArg OP_JUMP 0 \<circ> decSP 1) s3"
    and e: "st_ok s5 \<Longrightarrow> compiled H w 1 s5 s6"
    and s': "st' = upd_cur (updatePlaceholderArg a3 (currentAddress (cs_cur s6) - a3)) s6"
    and a: "a1 = currentAddress (cs_cur s1)" "a3 = currentAddress (cs_cur s3)"
  shows "compiled H w 1 st st' \<and> cx_spMax (cs_cur s1) \<le> cx_spMax (cs_cur st')"
proof -
  let ?c = "cs_cur st" and ?c1 = "cs_cur s1" and ?c2 = "cs_cur s2" and ?c3 = "cs_cur s3" and ?c5 = "cs_cur s5" and ?c6 = "cs_cur s6"
  have ok: "ctx_ok ?c" and ok1: "st_ok s1" using st_ok_ctx[OF st] compiled_ok[OF r] by simp_all
  have c1: "same_ctx (setTail False ?c) ?c1" "cx_sp ?c1 = cx_sp ?c + 1"
    using r by (simp_all add: compiled_def ran_def setTail_def)
  have sp: "0 \<le> cx_sp ?c" "cx_sp ?c \<le> currentAddress ?c1"
    using ok st_ok_ctx[OF ok1] c1 by (simp_all add: ctx_ok_def)
  have c2: "same_ctx ?c ?c2" "cx_sp ?c2 = cx_sp ?c" "cx_code ?c2 = cx_code ?c1 @ [opword OP_BRANCH_FALSE (cx_sp ?c1), 0]"
      "cx_spMax ?c2 = cx_spMax ?c1" "cx_captured ?c2 = cx_captured ?c1" "cs_outer s2 = cs_outer s1" "cs_pool s2 = cs_pool s1"
    using c1 by (simp_all add: s2 ctx_simps same_ctx_def)
  have ok2: "ctx_ok ?c2"
    by (rule ctx_ok_ops[OF st_ok_ctx[OF ok1], where k = "- 1" and x = "opword OP_BRANCH_FALSE (cx_sp ?c1)" and args = "[0]"])
      (use sp c1 locals_below[OF ok, of ?c1] in \<open>simp_all add: s2 ctx_simps same_ctx_def\<close>)
  then have "st_ok s2" using chain_cur[OF ok1] c2 by simp
  note t = t[OF this]
  have ok3: "st_ok s3" by (rule compiled_ok[OF t])
  have c3: "same_ctx ?c ?c3" "cx_sp ?c3 = cx_sp ?c + 1" using t c2 same_ctx_trans by (auto simp: compiled_def ran_def)
  define wt where "wt = words ?c2 ?c3"
  have k3: "cx_code ?c3 = cx_code ?c1 @ opword OP_BRANCH_FALSE (cx_sp ?c1) # 0 # wt"
    using extends_words[of ?c2 ?c3] t c2 by (simp add: wt_def compiled_def ran_def grows_def)
  let ?o1 = "int (length wt) + 4"
  define j where "j = opword OP_JUMP (cx_sp ?c3 - 1)"
  have k4: "cx_code (emitWithArg OP_JUMP 0 (decSP 1 ?c3)) = cx_code ?c1 @ opword OP_BRANCH_FALSE (cx_sp ?c1) # 0 # wt @ [j, 0]"
    using k3 by (simp add: ctx_simps j_def)
  have k5: "cx_code ?c5 = (cx_code ?c1 @ opword OP_BRANCH_FALSE (cx_sp ?c1) # word_of_int ?o1 # wt) @ [j, 0]"
  proof -
    have "currentAddress ?c3 + 2 - a1 = ?o1" using k3 a by (simp add: currentAddress_def)
    moreover have "?c5 = updatePlaceholderArg a1 (currentAddress ?c3 + 2 - a1) (emitWithArg OP_JUMP 0 (decSP 1 ?c3))"
      by (simp add: s5)
    ultimately have "?c5 = updatePlaceholderArg a1 ?o1 (emitWithArg OP_JUMP 0 (decSP 1 ?c3))" by (simp only:)
    then show ?thesis using patch_code[OF k4, of a1 ?o1] a by (simp add: currentAddress_def)
  qed
  have c5: "same_ctx ?c ?c5" "cx_sp ?c5 = cx_sp ?c" "cx_spMax ?c5 = cx_spMax ?c3" "cx_captured ?c5 = cx_captured ?c3"
      "cs_outer s5 = cs_outer s3" "cs_pool s5 = cs_pool s3"
    using c3 by (simp_all add: s5 ctx_simps same_ctx_def)
  have "ctx_ok (emitWithArg OP_JUMP 0 (decSP 1 ?c3))"
    by (rule ctx_ok_ops[OF st_ok_ctx[OF ok3], where k = "- 1" and x = j and args = "[0]"])
      (use sp c3 locals_below[OF ok, of ?c3] in \<open>simp_all add: ctx_simps same_ctx_def j_def\<close>)
  then have "ctx_ok ?c5" by (simp add: s5)
  then have "st_ok s5" using chain_cur[OF ok3] c5 by simp
  note e = e[OF this]
  have ok6: "st_ok s6" by (rule compiled_ok[OF e])
  define we where "we = words ?c5 ?c6"
  let ?o2 = "int (length we) + 2"
  have k6: "cx_code ?c6 = (cx_code ?c1 @ opword OP_BRANCH_FALSE (cx_sp ?c1) # word_of_int ?o1 # wt) @ j # 0 # we"
    using extends_words[of ?c5 ?c6] e k5 by (simp add: we_def compiled_def ran_def grows_def)
  have k': "cx_code (cs_cur st') = cx_code ?c1 @ [opword OP_BRANCH_FALSE (cx_sp ?c1), word_of_int ?o1] @ wt @ [j, word_of_int ?o2] @ we"
  proof -
    have "currentAddress ?c6 - a3 = ?o2" "a3 = int (length (cx_code ?c1 @ opword OP_BRANCH_FALSE (cx_sp ?c1) # word_of_int ?o1 # wt))"
      using k3 k6 a by (simp_all add: currentAddress_def)
    moreover have "cs_cur st' = updatePlaceholderArg a3 (currentAddress ?c6 - a3) ?c6" by (simp add: s')
    ultimately have "cx_code (cs_cur st') = (cx_code ?c1 @ opword OP_BRANCH_FALSE (cx_sp ?c1) # word_of_int ?o1 # wt) @ j # word_of_int ?o2 # we"
      using patch_code[OF k6, of a3 ?o2] by (simp only:)
    then show ?thesis by simp
  qed
  have c': "same_ctx ?c (cs_cur st')" "cx_sp (cs_cur st') = cx_sp ?c + 1" "cx_spMax (cs_cur st') = cx_spMax ?c6"
      "cx_captured (cs_cur st') = cx_captured ?c6" "cs_outer st' = cs_outer s6" "cs_pool st' = cs_pool s6"
    using c5 e same_ctx_trans[OF c5(1)] by (simp_all add: s' compiled_def ran_def)
  have g1: "grows st s1" and g2: "grows s2 s3" and g5: "grows s5 s6"
    using r t e by (simp_all add: compiled_def ran_def grows_def setTail_def)
  have "store_grows s1 s2" "store_grows s3 s5" "store_grows s6 st'"
    by (rule store_same; use c2 c5 c' in simp)+
  then have "store_grows s1 st'" using g2 g5 by (meson store_trans grows_store)
  then have g: "grows s1 st'" "grows st s1" using g1 k' by (simp_all add: grows_store)
  have y: "yields H w st st'"
    unfolding yields_def
  proof (intro impI conjI allI)
    assume s: "small st'" and p: "pool_good H w (cs_pool st)"
    have s6: "small s6" using s by (simp add: small_def s')
    then have s5: "small s5" using small_grows[OF g5] by simp
    then have s3: "small s3" using k3 k5 c5 by (simp add: small_def currentAddress_def)
    then have s1: "small s1" using small_grows[OF g2] c2 by (simp add: small_def currentAddress_def)
    have p1: "pool_good H w (cs_pool s1)" using r s1 p by (simp add: compiled_def ran_def yields_def)
    have p3: "pool_good H w (cs_pool s3)" using t s3 p1 c2 by (simp add: compiled_def ran_def yields_def)
    have p6: "pool_good H w (cs_pool s6)" using e s6 p3 c5 by (simp add: compiled_def ran_def yields_def)
    then show "pool_good H w (cs_pool st')" by (simp add: c')
    fix S L assume en: "enters ?c S" and L: "cx_spMax (cs_cur st') \<le> L"
    let ?n = "int (cx_argCount ?c)" and ?P = "cs_pool st'" and ?M = "cx_spMax (cs_cur st')"
    have mx: "cx_spMax ?c1 \<le> cx_spMax ?c3" "cx_spMax ?c3 \<le> ?M" "cx_spMax ?c \<le> cx_spMax ?c1"
      using g1 g2 g5 c2 c5 c' by (simp_all add: grows_def)
    have px: "extends (cs_pool s1) ?P" "extends (cs_pool s3) ?P"
      using g2 g5 c2 c5 c' extends_trans by (auto simp: grows_def)
    have ad: "currentAddress ?c \<le> currentAddress ?c1" using grows_address[OF g1] .
    have "typed (cs_pool s1) ?n L (ctxR L S (setTail False ?c)) S S (setTail False ?c) ?c1 (cx_spMax ?c1)"
      using r s1 p L mx en by (simp add: compiled_def ran_def yields_def enters_def setTail_def currentAddress_def)
    then have "typed (cs_pool s1) ?n L (ctxR L S (setTail False ?c)) S S ?c ?c1 (cx_spMax ?c1)"
      using typed_cong[of "setTail False ?c" ?c ?c1 ?c1] by (simp add: setTail_def)
    then have "typed (cs_pool s1) ?n L (ctxR L S ?c) S S ?c ?c1 (cx_spMax ?c1)"
      by (rule typed_weaken) (simp add: ctxR_def setTail_def)
    then have 1: "typed ?P ?n L (ctxR L S ?c) S S ?c ?c1 (cx_spMax ?c1)" by (rule typed_pool[OF _ px(1)])
    have T: "typed ?P ?n L (ctxR L S ?c) S S ?c2 ?c3 (cx_spMax ?c3)"
      by (rule compiled_at[OF t s3 _ c2(1,2) en _ _ _ px(2)]) (use p1 c2 mx L ad in \<open>simp_all add: currentAddress_def\<close>)
    have E: "typed ?P ?n L (ctxR L S ?c) S S ?c5 ?c6 (cx_spMax ?c6)"
      by (rule compiled_at[OF e s6 _ c5(1,2) en]) (use p3 c5 c' mx L ad k5 in \<open>simp_all add: currentAddress_def\<close>)
    have adr: "currentAddress ?c2 = currentAddress ?c1 + 2" "currentAddress ?c5 = currentAddress ?c1 + 2 + int (length wt) + 2"
      using c2 k5 by (simp_all add: currentAddress_def)
    have lt: "currentAddress ?c2 < currentAddress ?c3" "currentAddress ?c5 < currentAddress ?c6"
      using t e by (simp_all add: compiled_def ran_def)
    obtain x2 t2 where b2: "piece ?P ?n L (ctxR L S ?c) (currentAddress ?c1 + 2) wt (cx_sp ?c) S (cx_sp ?c + 1) S x2 t2"
      using typed_pieceD[OF T lt(1)] c2 c3 adr by (auto simp: wt_def)
    obtain x3 t3 where b3: "piece ?P ?n L (ctxR L S ?c) (currentAddress ?c1 + 2 + int (length wt) + 2) we (cx_sp ?c) S (cx_sp ?c + 1) S x3 t3"
      using typed_pieceD[OF E lt(2)] c5 c' adr by (auto simp: we_def s')
    have lm: "currentAddress (cs_cur st') < lim" using s by (simp add: small_def)
    show "typed ?P ?n L (ctxR L S ?c) S S ?c (cs_cur st') ?M"
    proof (rule typed_seq[OF 1])
      show "extends (cx_code ?c1) (cx_code (cs_cur st'))" using g by (simp add: grows_def)
      assume m: "cx_sp ?c1 \<le> cx_spMax ?c1"
      have "\<exists>tab. piece ?P ?n L (ctxR L S ?c) (currentAddress ?c1)
          ([opword OP_BRANCH_FALSE (cx_sp ?c1), word_of_int ?o1] @ wt @ [j, word_of_int ?o2] @ we) (cx_sp ?c + 1) S (cx_sp ?c + 1) S (x2 \<or> x3) tab"
      proof (rule piece_branches[OF _ _ _ _ sp(1) _ ctxR_entries b2 b3])
        show "sint (word_of_int ?o1 :: u32) = int (length wt) + 4" "sint (word_of_int ?o2 :: u32) = int (length we) + 2"
          by (rule sint_small; use lm k' in \<open>simp add: currentAddress_def\<close>)+
        show "cx_sp ?c + 1 \<le> L" using m mx L c1 by simp
      qed (simp_all add: j_def)
      then show "typed ?P ?n L (ctxR L S ?c) S S ?c1 (cs_cur st') ?M"
        using typed_piece[of "cs_cur st'" ?c1] k' c1 c' m mx by auto
    qed
  qed
  have "st_ok st'" using chain_cur[OF ok6, of "cs_cur st'"] c' st_ok_ctx[OF ok6] by (simp add: s')
  moreover have "currentAddress ?c + 1 \<le> currentAddress (cs_cur st')"
    using grows_address[OF g(2)] k' by (simp add: currentAddress_def)
  ultimately show ?thesis using y c' grows_trans[OF g(2,1)] g(1) by (simp add: compiled_def ran_def grows_def)
qed

section \<open>Functions\<close>

lemma emitCell_other [simp]: "cx_sp (emitCell cl c) = cx_sp c + 1" "cx_captured (emitCell cl c) = cx_captured c"
  by (simp_all add: emitCell_def ctx_simps split: cell.split)

lemma pushCapture_other [simp]: "cx_sp (pushCapture cl c) = cx_sp c" "cx_captured (pushCapture cl c) = cx_captured c"
  by (simp_all add: pushCapture_def decSP_def emit_def)

lemma currentAddress_pushCapture: "currentAddress c + 1 \<le> currentAddress (pushCapture cl c)"
  by (simp add: pushCapture_def emitCell_def ctx_simps split: cell.split)

lemma compiled_captures:
  "compiled H w j st st1 \<Longrightarrow> st_ok st \<Longrightarrow> 1 \<le> j \<Longrightarrow> \<forall>e\<in>set cs. cell_ok (cs_cur st1) (snd e) \<Longrightarrow>
   compiled H w j st (upd_cur (fold (\<lambda>(s, src). pushCapture src) cs) st1) \<and>
   currentAddress (cs_cur st1) + int (length cs) \<le> currentAddress (fold (\<lambda>(s, src). pushCapture src) cs (cs_cur st1))"
proof (induction cs arbitrary: st1)
  case (Cons e cs)
  obtain s cl where e: "e = (s, cl)" by fastforce
  let ?st2 = "upd_cur (pushCapture cl) st1"
  have "compiled H w (j + 1) st (upd_cur (emitCell cl) st1)"
    by (rule compiled_cell[OF Cons.prems(1,2)]) (use Cons.prems(3,4) e in simp_all)
  from compiled_op[OF this Cons.prems(2), of 1 OP_PUSH_CLOSEDOVER] have c2: "compiled H w j st ?st2"
    using sp_nonneg[OF Cons.prems(2)] Cons.prems(3) by (simp add: pushCapture_def)
  have "\<forall>e\<in>set cs. cell_ok (cs_cur ?st2) (snd e)"
    using Cons.prems(4) by (auto simp: cell_ok_def split: cell.splits)
  from Cons.IH[OF c2 Cons.prems(2,3) this] show ?case
    using currentAddress_pushCapture[of "cs_cur st1" cl] e by simp
qed simp

text \<open>Parameters.\<close>

lemma enterArgs_ctx:
  "enterArgs as i fc = Ok fc' \<Longrightarrow> fc' = fc\<lparr>cx_args := cx_args fc', cx_argCount := cx_argCount fc', cx_variadic := cx_variadic fc'\<rparr>"
  by (induction as i fc rule: enterArgs.induct) (auto split: form.splits if_splits)

lemma enterArgs_range:
  "enterArgs as i fc = Ok fc' \<Longrightarrow> 0 \<le> i \<Longrightarrow> (cx_variadic fc \<longrightarrow> 1 \<le> i) \<Longrightarrow> \<forall>e\<in>set (cx_args fc). 0 \<le> snd e \<and> snd e < i \<Longrightarrow>
   \<forall>e\<in>set (cx_args fc'). 0 \<le> snd e \<and> snd e < i + int (length as)"
proof (induction as i fc rule: enterArgs.induct)
  case (2 a as i fc)
  have up: "\<forall>e\<in>set (cx_args fc). 0 \<le> snd e \<and> snd e < i + 1" using 2(6) by force
  show ?case
  proof (cases "stripBindingMeta a")
    case (FSym s)
    show ?thesis
    proof (cases "s = ''&''")
      case True
      have "\<not> cx_variadic fc" using 2(3) FSym True by (simp split: if_splits)
      then show ?thesis using 2(1)[OF FSym True] 2(3,4) FSym True up by (simp add: algebra_simps)
    next
      case False
      then have n: "\<not> (cx_variadic fc \<and> as \<noteq> [])" using 2(3) FSym by (simp split: if_splits)
      show ?thesis
      proof (cases "cx_variadic fc")
        case True
        then have "fc' = fc\<lparr>cx_argCount := cx_argCount fc + 1, cx_args := (s, i - 1) # cx_args fc\<rparr>"
          using 2(3) FSym False n by simp
        then show ?thesis using up 2(4,5) True n by (simp add: algebra_simps)
      qed (use 2(2)[OF FSym False n] 2(3,4) FSym False up in \<open>simp add: algebra_simps\<close>)
    qed
  qed (use 2(3) in simp_all)
qed simp

lemma enterArgs_count: "enterArgs as i fc = Ok fc' \<Longrightarrow> cx_argCount fc \<le> cx_argCount fc'"
  by (induction as i fc rule: enterArgs.induct) (auto split: form.splits if_splits)

lemma enterArgs_variadic:
  "enterArgs as i fc = Ok fc' \<Longrightarrow> \<not> cx_variadic fc \<Longrightarrow> cx_variadic fc' \<Longrightarrow> map stripBindingMeta as \<noteq> [FSym ''&''] \<Longrightarrow>
   1 \<le> cx_argCount fc'"
proof (induction as arbitrary: i fc)
  case (Cons a as)
  obtain s where s: "stripBindingMeta a = FSym s" using Cons.prems(1) by (auto split: form.splits)
  show ?case
  proof (cases "s = ''&''")
    case True
    then obtain b bs where as: "as = b # bs" using Cons.prems(4) s by (cases as) auto
    then show ?thesis using Cons.prems(1,2) s True by (auto split: form.splits if_splits)
  next
    case False
    then have "enterArgs as (i + 1) (fc\<lparr>cx_argCount := cx_argCount fc + 1, cx_args := (s, i) # cx_args fc\<rparr>) = Ok fc'"
      using Cons.prems(1,2) s by simp
    from enterArgs_count[OF this] show ?thesis by simp
  qed
qed simp

text \<open>Code that returns at its end is a typed chunk.\<close>

lemma piece_check:
  assumes "piece P n (int (stack_len c)) (\<lambda>T. True) 0 (ck_code c) 0 [] d S False tab"
  shows "check_chunk P n c tab"
proof -
  let ?L = "int (stack_len c)"
  have seg: "seg P n ?L (\<lambda>T. exits False (0 + int (length (ck_code c))) d S T) 0 (ck_code c) tab"
    and m: "map_of tab 0 = Some (0, [])"
    using assms by (simp_all add: piece_def)
  have "holds (ck_code c) 0 (ck_code c)" by (simp add: holds_def slot_def)
  moreover have "agrees_at (map_of tab) 0 (length (ck_code c)) tab" by (simp add: agrees_at_def)
  ultimately have "\<forall>e\<in>set tab. entry_ok P n ?L (ck_code c) (map_of tab) e"
    using seg unfolding seg_def exits_def by blast
  then show ?thesis using m by (auto simp: check_chunk_def list_all_iff entry_ok_def)
qed

lemma code_typed:
  assumes b: "compiled H w 1 st s2" and s: "small s2" and p: "pool_good H w (cs_pool st)"
    and c: "cx_code (cs_cur st) = []" "cx_sp (cs_cur st) = 0" "cx_spMax (cs_cur st) = 0" "cx_recurs (cs_cur st) = []"
    and k: "ck_code k = cx_code (cs_cur s2) @ [opword OP_RETURN sp]" "ck_maxStack k = cx_spMax (cs_cur s2)"
  shows "\<exists>tab. check_chunk (cs_pool s2) (int (cx_argCount (cs_cur st))) k tab"
proof -
  let ?L = "int (stack_len k)" and ?n = "int (cx_argCount (cs_cur st))" and ?P = "cs_pool s2"
  let ?ws = "cx_code (cs_cur s2)"
  have L: "cx_spMax (cs_cur s2) \<le> ?L" "1 \<le> ?L" by (auto simp: stack_len_def k max_def)
  have a: "currentAddress (cs_cur st) = 0" "words (cs_cur st) (cs_cur s2) = ?ws"
    by (simp_all add: currentAddress_def words_def c)
  have sp: "cx_sp (cs_cur s2) = 1" and lt: "currentAddress (cs_cur st) < currentAddress (cs_cur s2)"
    using b c by (simp_all add: compiled_def ran_def)
  have "typed ?P ?n ?L (ctxR ?L [] (cs_cur st)) [] [] (cs_cur st) (cs_cur s2) (cx_spMax (cs_cur s2))"
    by (rule compiled_at[OF b s p]) (use L c in \<open>simp_all add: enters_def\<close>)
  from typed_pieceD[OF this lt] obtain ex tab1 where
    1: "piece ?P ?n ?L (ctxR ?L [] (cs_cur st)) 0 ?ws 0 [] 1 [] ex tab1"
    using a c sp by auto
  let ?tab2 = "if ex then [(int (length ?ws), 1, [])] else []"
  have "piece ?P ?n ?L (\<lambda>T. entries_ok T ?L [] \<and> ctxR ?L [] (cs_cur st) T) (int (length ?ws)) [opword OP_RETURN sp] 1 [] 1 []
      False [(int (length ?ws), 1, [])]"
    by (rule piece_stop[where oc = OP_RETURN]) (use L in simp_all)
  then have "piece ?P ?n ?L (ctxR ?L [] (cs_cur st)) (int (length ?ws)) [opword OP_RETURN sp] 1 [] 1 []
      False [(int (length ?ws), 1, [])]"
    by (rule piece_weaken) (simp add: ctxR_entries)
  then have "part ex ?P ?n ?L (ctxR ?L [] (cs_cur st)) (0 + int (length ?ws)) [opword OP_RETURN sp] 1 [] 1 [] False ?tab2"
    by (cases ex) (simp_all add: part_def)
  from piece_seq[OF 1 this]
  have 2: "piece ?P ?n ?L (ctxR ?L [] (cs_cur st)) 0 (ck_code k) 0 [] 1 [] False (tab1 @ ?tab2)" by (simp add: k)
  have "piece ?P ?n ?L (\<lambda>T. True \<and> flows T 0 0 []) 0 (ck_code k) 0 [] 1 [] False (tab1 @ ?tab2)"
    by (rule piece_weaken[OF 2]) (use c in \<open>simp add: ctxR_def\<close>)
  from piece_check[OF piece_loop[OF this]] show ?thesis by blast
qed

text \<open>What is static of the contract holds in every world; so it may be shown with a pool that is good in none.\<close>

lemma compiled_static:
  assumes "\<And>v. (G \<and> v = w) \<or> \<not> pool_good H v (cs_pool st) \<Longrightarrow> compiled H v k st st'" and "small st' \<Longrightarrow> G"
  shows "compiled H w k st st'"
proof (cases G)
  case False
  define v where "v = w\<lparr>w_pools := (\<lambda>_. cs_pool st @ [NIL])\<rparr>"
  have "\<not> pool_good H v (cs_pool st)" by (simp add: pool_good_def v_def extends_def)
  then have "compiled H v k st st'" using assms(1) by blast
  moreover have "yields H w st st'" using assms(2) False by (auto simp: yields_def)
  ultimately show ?thesis by (simp add: compiled_def ran_def)
qed (use assms(1) in blast)

lemma fn_function:
  assumes r0: "compiled H w j st0 st" and st0: "st_ok st0" and j: "0 \<le> j" and e: "enterFn args st = Ok st1" and po: "params_ok args" and b: "compiled H w 1 st1 s2"
    and l: "leaveFn H (upd_cur (emit OP_RETURN) s2) = Ok st'"
  shows "compiled H w (j + 1) st0 st'"
proof -
  have st: "st_ok st" by (rule compiled_ok[OF r0])
  obtain fc where en: "enterArgs args 0 (newContext\<lparr>cx_isFunction := True, cx_tail := True\<rparr>) = Ok fc"
    and st1: "st1 = st\<lparr>cs_cur := fc, cs_outer := cs_cur st # cs_outer st\<rparr>"
    using e by (auto simp: enterFn_def obind_Ok)
  note fc0 = enterArgs_ctx[OF en]
  have fc: "cx_code fc = []" "cx_sp fc = 0" "cx_spMax fc = 0" "cx_recurs fc = []"
    by (subst fc0, simp add: newContext_def)+
  have var: "cx_variadic fc \<Longrightarrow> 1 \<le> cx_argCount fc"
    using enterArgs_variadic[OF en] po by (simp add: newContext_def params_ok_def)
  obtain c cs where out: "cs_outer s2 = c # cs" "outer_ext (cs_cur st) c" "list_all2 outer_ext (cs_outer st) cs"
    using b by (auto simp: compiled_def ran_def grows_def st1 list_all2_Cons1)
  have pools: "extends (cs_pool st) (cs_pool s2)" using b by (simp add: compiled_def ran_def grows_def st1)
  have "c = (cs_cur st)\<lparr>cx_captured := cx_captured c\<rparr>" "extends (cx_captured (cs_cur st)) (cx_captured c)"
    using out(2) by (simp_all only: outer_ext_def)
  then have c: "cx_code c = cx_code (cs_cur st)" "cx_sp c = cx_sp (cs_cur st)" "cx_spMax c = cx_spMax (cs_cur st)"
      "same_ctx (cs_cur st) c" "extends (cx_captured (cs_cur st)) (cx_captured c)"
    by (cases "cs_cur st"; cases c; simp add: same_ctx_def)+
  have ok: "chain_ok (cs_cur s2 # c # cs)" using compiled_ok[OF b] out by simp
  have same2: "cx_argCount (cs_cur s2) = cx_argCount fc" "cx_variadic (cs_cur s2) = cx_variadic fc"
    using b by (simp_all add: compiled_def same_ctx_def st1)
  let ?s3 = "upd_cur (emit OP_RETURN) s2"
  let ?caps = "cx_captured (cs_cur s2)"
  define s4 where "s4 = s2\<lparr>cs_cur := c, cs_outer := cs\<rparr>"
  define f where "f = FuncV (cx_defName c) (int (cx_argCount fc)) (cx_variadic fc) (chunk_of H (emit OP_RETURN (cs_cur s2)))"
  define s5 where "s5 = loadConstant f s4"
  have st': "st' = (if ?caps = [] then s5
      else upd_cur (fold (\<lambda>(s, src). pushCapture src) ?caps) (upd_cur (decSP 0 \<circ> emit OP_MAKE_CLOSURE) s5))"
    using l same2 by (auto simp: leaveFn_def out Let_def s5_def f_def s4_def emit_def decSP_def)
  have pool5: "cs_pool s5 = cs_pool s2 @ [f]" "cs_outer s5 = cs" "cx_captured (cs_cur s5) = cx_captured c"
    using Intern_new[of f "cs_pool s2"] by (simp_all add: s5_def loadConstant_def poolConstant_def s4_def ctx_simps f_def)
  have s5c: "int (length (cx_code (cs_cur s5))) = int (length (cx_code c)) + 2" "cx_sp (cs_cur s5) = cx_sp c + 1"
    by (simp_all add: s5_def loadConstant_def poolConstant_def s4_def ctx_simps split: prod.split)
  let ?G = "small ?s3"
  have cells: "\<forall>e\<in>set ?caps. cell_ok c (snd e)" using ok by simp
  have main: "compiled H v (j + 1) st0 st' \<and> int (length ?caps) \<le> currentAddress (cs_cur st')"
    if v: "(?G \<and> v = w) \<or> \<not> pool_good H v (cs_pool st0)" for v
  proof -
    have r: "compiled H v j st0 st" using r0 v by (auto simp: compiled_def ran_def yields_def)
    have g4: "grows st s4" using c out(3) pools by (simp add: grows_def s4_def)
    have inner: "pool_good H v (cs_pool s2) \<and> (\<exists>tab. check_chunk (cs_pool s2) (int (cx_argCount fc)) (chunk_of H (emit OP_RETURN (cs_cur s2))) tab)"
      if s: "small s4" and p: "pool_good H v (cs_pool st0)"
    proof
      have g: "?G" and vw: "v = w" using p v by blast+
      then have s2: "small s2" using small_grows[of s2 ?s3] by (simp add: grows_def emit_def)
      have p1: "pool_good H w (cs_pool st1)" using compiled_pool[OF r small_grows[OF g4 s] p] vw by (simp add: st1)
      show "pool_good H v (cs_pool s2)" using compiled_pool[OF b s2 p1] vw by simp
      show "\<exists>tab. check_chunk (cs_pool s2) (int (cx_argCount fc)) (chunk_of H (emit OP_RETURN (cs_cur s2))) tab"
        using code_typed[OF b s2 p1, of "chunk_of H (emit OP_RETURN (cs_cur s2))"] fc by (simp add: st1 chunk_of_def emit_def)
    qed
    note rr = r[unfolded compiled_def ran_def]
    have y4: "yields H v st0 s4"
      unfolding yields_def
    proof (intro impI conjI allI)
      assume s: "small s4" and p: "pool_good H v (cs_pool st0)"
      then show "pool_good H v (cs_pool s4)" using inner by (simp add: s4_def)
      fix S L assume en: "enters (cs_cur st0) S" and L: "cx_spMax (cs_cur s4) \<le> L"
      have "typed (cs_pool st) (int (cx_argCount (cs_cur st0))) L (ctxR L S (cs_cur st0)) S S (cs_cur st0) (cs_cur st) (cx_spMax (cs_cur st))"
        using rr small_grows[OF g4 s] p en L c(3) by (simp add: yields_def s4_def)
      from typed_pool[OF this pools]
      show "typed (cs_pool s4) (int (cx_argCount (cs_cur st0))) L (ctxR L S (cs_cur st0)) S S (cs_cur st0) (cs_cur s4) (cx_spMax (cs_cur s4))"
        using typed_cong[OF refl refl c(1,2)] c(3) by (simp add: s4_def)
    qed
    have "same_ctx (cs_cur st0) (cs_cur s4)" using rr c(4) same_ctx_trans by (auto simp: s4_def)
    then have 4: "compiled H v j st0 s4"
      using ok y4 c rr grows_trans[OF _ g4, of st0] by (simp add: compiled_def ran_def s4_def currentAddress_def)
    have s4: "small s4" if "small (s4\<lparr>cs_pool := snd (Intern f (cs_pool s4))\<rparr>)"
      by (rule small_grows[OF _ that]) (use Intern_new[of f "cs_pool s4"] in \<open>simp add: grows_def f_def\<close>)
    have 5: "compiled H v (j + 1) st0 s5"
      unfolding s5_def
    proof (rule compiled_load[OF 4 st0 j])
      assume "small (s4\<lparr>cs_pool := snd (Intern f (cs_pool s4))\<rparr>)" "pool_good H v (cs_pool st0)"
      then show "val_ok (with_pool H v (cs_pool s4)) f"
        using inner[OF s4] var by (simp add: f_def with_pool_def typed_fn_def chunk_of_def s4_def)
    qed
    show ?thesis
    proof (cases "?caps = []")
      case False
      have 6: "compiled H v (j + 1) st0 (upd_cur (decSP 0 \<circ> emit OP_MAKE_CLOSURE) s5)"
        using compiled_op[OF 5 st0, of 0 OP_MAKE_CLOSURE] sp_nonneg[OF st0] j by simp
      have "\<forall>e\<in>set ?caps. cell_ok (cs_cur (upd_cur (decSP 0 \<circ> emit OP_MAKE_CLOSURE) s5)) (snd e)"
        using cells s5c(2) pool5(3) by (auto simp: cell_ok_def ctx_simps split: cell.splits)
      from compiled_captures[OF 6 st0 _ this] j show ?thesis using False by (simp add: st' currentAddress_def emit_def decSP_def)
    qed (use 5 s5c in \<open>simp add: st' currentAddress_def\<close>)
  qed
  show ?thesis
  proof (rule compiled_static[where G = ?G])
    show "compiled H v (j + 1) st0 st'" if "?G \<and> v = w \<or> \<not> pool_good H v (cs_pool st0)" for v using main[OF that] by blast
    assume s: "small st'"
    have e': "cs_pool st' = cs_pool s2 @ [f]" "cs_outer st' = cs"
      using pool5 by (simp_all add: st')
    have cap': "cx_captured (cs_cur st') = cx_captured c"
    proof -
      have "cx_captured (fold (\<lambda>(s, src). pushCapture src) xs d) = cx_captured d" for xs :: "(string \<times> cell) list" and d
        by (induction xs arbitrary: d) auto
      then show ?thesis using pool5(3) by (simp add: st' emit_def decSP_def)
    qed
    have "fn_small f" using s e' by (simp add: small_def)
    then have "currentAddress (emit OP_RETURN (cs_cur s2)) < lim" by (simp add: f_def chunk_of_def currentAddress_def)
    moreover have "int (length ?caps) < lim"
    proof -
      define v where "v = w\<lparr>w_pools := (\<lambda>_. cs_pool st0 @ [NIL])\<rparr>"
      have "\<not> pool_good H v (cs_pool st0)" by (simp add: pool_good_def v_def extends_def)
      then have "int (length ?caps) \<le> currentAddress (cs_cur st')" using main[of v] by blast
      then show ?thesis using s by (simp add: small_def)
    qed
    ultimately show "?G" using s e' cap' out(1) by (simp add: small_def currentAddress_def emit_def)
  qed
qed

lemma leaveFn_cong:
  "cx_argCount a = cx_argCount b \<Longrightarrow> cx_variadic a = cx_variadic b \<Longrightarrow> cx_code a = cx_code b \<Longrightarrow> cx_spMax a = cx_spMax b \<Longrightarrow>
   cx_captured a = cx_captured b \<Longrightarrow> leaveFn H (s\<lparr>cs_cur := a\<rparr>) = leaveFn H (s\<lparr>cs_cur := b\<rparr>)"
  by (cases "cs_outer s") (simp_all add: leaveFn_def chunk_of_def cong: if_cong)

section \<open>Exception handlers\<close>

text \<open>A block that is entered with the handlers \<open>Sin\<close> and left with \<open>S\<close>, at the same depth.\<close>

definition block ::
    "'e chost \<Rightarrow> 'h world \<Rightarrow> (hty list \<Rightarrow> hty list \<Rightarrow> bool) \<Rightarrow> 'e cstate \<Rightarrow> 'e cstate \<Rightarrow> bool" where
  "block H w Q st st' \<longleftrightarrow> st_ok st' \<and> grows st st' \<and> same_ctx (cs_cur st) (cs_cur st') \<and>
     cx_sp (cs_cur st') = cx_sp (cs_cur st) \<and> currentAddress (cs_cur st) < currentAddress (cs_cur st') \<and>
     (small st' \<longrightarrow> pool_good H w (cs_pool st) \<longrightarrow> pool_good H w (cs_pool st') \<and>
       (\<forall>S Sin L. Q S Sin \<longrightarrow> enters (cs_cur st) Sin \<longrightarrow> cx_spMax (cs_cur st') \<le> L \<longrightarrow>
          typed (cs_pool st') (int (cx_argCount (cs_cur st))) L (\<lambda>T. entries_ok T L Sin) Sin S
            (cs_cur st) (cs_cur st') (cx_spMax (cs_cur st'))))"

lemma compiled_block:
  assumes r: "compiled H w 0 st st1" and t: "\<not> cx_tail (cs_cur st)" and st: "st_ok st"
    and c: "cs_cur st2 = (cs_cur st1)\<lparr>cx_code := cx_code (cs_cur st1) @ opword oc sp # args\<rparr>"
      "cs_outer st2 = cs_outer st1" "cs_pool st2 = cs_pool st1"
    and i: "\<And>S Sin P code. small st2 \<Longrightarrow> Q S Sin \<Longrightarrow> enters (cs_cur st) Sin \<Longrightarrow>
      holds code (currentAddress (cs_cur st1)) (opword oc sp # args) \<Longrightarrow>
      succs P (int (cx_argCount (cs_cur st))) code (currentAddress (cs_cur st1)) oc (cx_sp (cs_cur st1)) Sin =
        Some [(currentAddress (cs_cur st1) + 1 + int (length args), cx_sp (cs_cur st1), S)]"
  shows "block H w Q st st2"
proof -
  note a = r[unfolded compiled_def ran_def]
  have ok1: "ctx_ok (cs_cur st1)" by (rule st_ok_ctx[OF compiled_ok[OF r]])
  have g: "grows st1 st2" using c by (simp add: grows_def)
  have "ctx_ok (cs_cur st2)" using ok1 c by (auto simp: ctx_ok_def currentAddress_def)
  then have "st_ok st2" using chain_cur[of "cs_cur st1" "cs_outer st1" "cs_cur st2"] a c by simp
  moreover have "typed (cs_pool st2) (int (cx_argCount (cs_cur st))) L (\<lambda>T. entries_ok T L Sin) Sin S
      (cs_cur st) (cs_cur st2) (cx_spMax (cs_cur st2))"
    if s: "small st2" and p: "pool_good H w (cs_pool st)" and q: "Q S Sin" and e: "enters (cs_cur st) Sin"
      and L: "cx_spMax (cs_cur st2) \<le> L" for S Sin L
  proof (rule typed_seq)
    have "typed (cs_pool st1) (int (cx_argCount (cs_cur st))) L (ctxR L Sin (cs_cur st)) Sin Sin (cs_cur st) (cs_cur st1) (cx_spMax (cs_cur st1))"
      using a small_grows[OF g s] p e L c by (simp add: yields_def)
    then have "typed (cs_pool st1) (int (cx_argCount (cs_cur st))) L (\<lambda>T. entries_ok T L Sin) Sin Sin (cs_cur st) (cs_cur st1) (cx_spMax (cs_cur st1))"
      by (rule typed_weaken) (use t in \<open>simp add: ctxR_def\<close>)
    then show "typed (cs_pool st2) (int (cx_argCount (cs_cur st))) L (\<lambda>T. entries_ok T L Sin) Sin Sin (cs_cur st) (cs_cur st1) (cx_spMax (cs_cur st1))"
      by (simp add: c)
    show "extends (cx_code (cs_cur st1)) (cx_code (cs_cur st2))" by (simp add: c)
    assume m: "cx_sp (cs_cur st1) \<le> cx_spMax (cs_cur st1)"
    show "typed (cs_pool st2) (int (cx_argCount (cs_cur st))) L (\<lambda>T. entries_ok T L Sin) Sin S (cs_cur st1) (cs_cur st2) (cx_spMax (cs_cur st2))"
      by (rule typed_instr[where oc = oc and sp = sp and args = args]) (use c m L ok1 i[OF s q e] in \<open>simp_all add: ctx_ok_def\<close>)
  qed
  moreover have "pool_good H w (cs_pool st2)" if "small st2" "pool_good H w (cs_pool st)"
    using compiled_pool[OF r small_grows[OF g that(1)] that(2)] c by simp
  ultimately show ?thesis
    using a c grows_trans[OF _ g, of st] by (simp add: block_def same_ctx_def currentAddress_def)
qed

lemma compiled_block0:
  assumes r: "compiled H w 0 st st1" and t: "\<not> cx_tail (cs_cur st)" and a: "currentAddress (cs_cur st) < currentAddress (cs_cur st1)"
  shows "block H w (\<lambda>S Sin. Sin = S) st st1"
proof -
  have "typed (cs_pool st1) (int (cx_argCount (cs_cur st))) L (\<lambda>T. entries_ok T L S) S S (cs_cur st) (cs_cur st1) (cx_spMax (cs_cur st1))"
    if "small st1" "pool_good H w (cs_pool st)" "enters (cs_cur st) S" "cx_spMax (cs_cur st1) \<le> L" for S L
  proof (rule typed_weaken)
    show "typed (cs_pool st1) (int (cx_argCount (cs_cur st))) L (ctxR L S (cs_cur st)) S S (cs_cur st) (cs_cur st1) (cx_spMax (cs_cur st1))"
      using r that by (simp add: compiled_def ran_def yields_def)
  qed (use t in \<open>simp add: ctxR_def\<close>)
  then show ?thesis using r a compiled_pool[OF r] by (simp add: block_def compiled_def ran_def)
qed

definition catch_entry :: "bool \<Rightarrow> hty list \<Rightarrow> hty list \<Rightarrow> bool" where
  "catch_entry fin S Sin \<longleftrightarrow> (if fin then \<exists>f s. Sin = Armed (- 1) f s # S else Sin = S)"

definition finally_entry :: "int \<Rightarrow> hty list \<Rightarrow> hty list \<Rightarrow> bool" where
  "finally_entry a S Sin \<longleftrightarrow> (\<exists>s. Sin = Maybe a s # S) \<and> (\<forall>g s. Maybe g s \<in> set S \<longrightarrow> g \<noteq> a)"

lemma block_typed:
  "block H w Q st st' \<Longrightarrow> small st' \<Longrightarrow> pool_good H w (cs_pool st) \<Longrightarrow> Q S Sin \<Longrightarrow> enters (cs_cur st) Sin \<Longrightarrow>
   cx_spMax (cs_cur st') \<le> L \<Longrightarrow> n = int (cx_argCount (cs_cur st)) \<Longrightarrow>
   typed (cs_pool st') n L (\<lambda>T. entries_ok T L Sin) Sin S (cs_cur st) (cs_cur st') (cx_spMax (cs_cur st'))"
  unfolding block_def by blast

lemma block_grows: "block H w Q st st' \<Longrightarrow> grows st st'"
  by (simp add: block_def)

lemma enters_more: "enters c S \<Longrightarrow> \<not> cx_tail c1 \<Longrightarrow> cx_sp c1 \<le> cx_spMax c1 \<Longrightarrow> currentAddress c \<le> currentAddress c1 \<Longrightarrow>
   (\<And>g s. Maybe g s \<in> set S1 \<Longrightarrow> Maybe g s \<in> set S \<or> g \<le> currentAddress c1) \<Longrightarrow> enters c1 S1"
  unfolding enters_def by force

lemma try_patched:
  assumes c: "cx_code c = K @ [tp, 0, 0] @ wb @ [pp, jj, 0] @ wc" and a: "a = int (length K)" "j = a + 3 + int (length wb) + 1"
  shows "cx_code ((updatePlaceholderArg j n3 \<circ> (if fin then updatePlaceholderArg (a + 1) n2 else id) \<circ>
      (if cat then updatePlaceholderArg a n1 else id)) c) =
    K @ [tp, word_of_int (if cat then n1 else 0), word_of_int (if fin then n2 else 0)] @ wb @ [pp, jj, word_of_int n3] @ wc"
proof -
  let ?c1 = "(if cat then updatePlaceholderArg a n1 else id) c" and ?o1 = "word_of_int (if cat then n1 else 0) :: u32"
  let ?c2 = "(if fin then updatePlaceholderArg (a + 1) n2 else id) ?c1" and ?o2 = "word_of_int (if fin then n2 else 0) :: u32"
  have 1: "cx_code ?c1 = (K @ [tp]) @ ?o1 # 0 # (wb @ [pp, jj, 0] @ wc)"
    using patch_code[of c K tp 0 "0 # wb @ [pp, jj, 0] @ wc" a n1] c a by simp
  then have 2: "cx_code ?c2 = (K @ [tp, ?o1, ?o2] @ wb @ [pp]) @ jj # 0 # wc"
    using patch_code[OF 1, of "a + 1" n2] a by simp
  from patch_code[OF 2, of j n3] a show ?thesis by (simp add: algebra_simps)
qed

lemma compiled_handlers:
  assumes "compiled H w k st st'" "\<not> cx_tail (cs_cur st)" "small st'" "pool_good H w (cs_pool st)" "enters (cs_cur st) S"
    "cx_spMax (cs_cur st') \<le> L" "extends (cs_pool st') P" "n = int (cx_argCount (cs_cur st))"
  shows "typed P n L (\<lambda>T. entries_ok T L S) S S (cs_cur st) (cs_cur st') (cx_spMax (cs_cur st'))"
proof (rule typed_weaken[OF typed_pool[OF _ assms(7)]])
  show "typed (cs_pool st') n L (ctxR L S (cs_cur st)) S S (cs_cur st) (cs_cur st') (cx_spMax (cs_cur st'))"
    using assms by (simp add: compiled_def ran_def yields_def)
qed (use assms(2) in \<open>simp add: ctxR_def\<close>)

lemma try_push_ok:
  assumes "st_ok st"
  shows "st_ok (upd_cur (setTail False \<circ> append32 0 \<circ> append32 0 \<circ> emit OP_TRY_PUSH) st)"
proof -
  have ok: "ctx_ok (cs_cur st)" by (rule st_ok_ctx[OF assms])
  have "ctx_ok (setTail False (append32 0 (append32 0 (emit OP_TRY_PUSH (cs_cur st)))))"
    by (rule ctx_ok_ops[OF ok, where k = 0 and x = "opword OP_TRY_PUSH (cx_sp (cs_cur st))" and args = "[0, 0]"])
      (use ok locals_below[OF ok refl order.refl] in \<open>simp_all add: ctx_simps ctx_ok_def\<close>)
  then show ?thesis using chain_cur[OF assms] by (simp add: ctx_simps)
qed

lemma compiled_try:
  fixes cat fin :: bool
  assumes st: "st_ok st"
    and s1: "s1 = upd_cur (setTail False \<circ> append32 0 \<circ> append32 0 \<circ> emit OP_TRY_PUSH) st"
    and b: "st_ok s1 \<Longrightarrow> compiled H w 1 s1 s2"
    and lv: "cx_sp (cs_cur st) \<le> cx_spMax (cs_cur st) \<Longrightarrow> cx_sp (cs_cur s2) \<le> cx_spMax (cs_cur s2)"
    and s4: "s4 = upd_cur (emitWithArg OP_JUMP 0 \<circ> emit OP_TRY_POP) s2"
    and k: "st_ok s4 \<Longrightarrow> if cat then block H w (catch_entry fin) s4 s5 else s5 = s4"
    and s7: "s7 = upd_cur (updatePlaceholderArg (ac - 2) (ae - (ac - 2)) \<circ>
      (if fin then updatePlaceholderArg (a + 1) (ae - a) else id) \<circ> (if cat then updatePlaceholderArg a (ac - a) else id)) s5"
    and adr: "a = currentAddress (cs_cur st)" "ac = currentAddress (cs_cur s4)" "ae = currentAddress (cs_cur s5)"
    and e: "st_ok s4 \<Longrightarrow> st_ok s7 \<Longrightarrow> if fin then block H w (finally_entry ae) s7 s8 else s8 = s7"
  shows "compiled H w 1 st (upd_cur (setTail (cx_tail (cs_cur st))) s8) \<and> cx_spMax (cs_cur s2) \<le> cx_spMax (cs_cur s8)"
proof -
  let ?c = "cs_cur st" and ?K = "cx_code (cs_cur st)" and ?d = "cx_sp (cs_cur st)"
  let ?c1 = "cs_cur s1" and ?c2 = "cs_cur s2" and ?c4 = "cs_cur s4" and ?c5 = "cs_cur s5" and ?c7 = "cs_cur s7" and ?c8 = "cs_cur s8"
  define tp where "tp = opword OP_TRY_PUSH ?d"
  define pp where "pp = opword OP_TRY_POP (?d + 1)"
  define jj where "jj = opword OP_JUMP (?d + 1)"
  have ok: "ctx_ok ?c" by (rule st_ok_ctx[OF st])
  then have d: "0 \<le> ?d" by (simp add: ctx_ok_def)
  have k1: "cx_code ?c1 = ?K @ [tp, 0, 0]" and c1: "same_ctx (setTail False ?c) ?c1" "cx_sp ?c1 = ?d" "cx_spMax ?c1 = cx_spMax ?c"
      "cx_captured ?c1 = cx_captured ?c" "cs_outer s1 = cs_outer st" "cs_pool s1 = cs_pool st"
    by (simp_all add: s1 ctx_simps same_ctx_def tp_def)
  have "st_ok s1" unfolding s1 by (rule try_push_ok[OF st])
  note b = b[OF this]
  have ok2: "st_ok s2" by (rule compiled_ok[OF b])
  have c2: "same_ctx (setTail False ?c) ?c2" "cx_sp ?c2 = ?d + 1" using b c1 same_ctx_trans by (auto simp: compiled_def ran_def)
  define wb where "wb = words ?c1 ?c2"
  have k2: "cx_code ?c2 = ?K @ [tp, 0, 0] @ wb"
    using extends_words[of ?c1 ?c2] b k1 by (simp add: wb_def compiled_def ran_def grows_def)
  have k4: "cx_code ?c4 = ?K @ [tp, 0, 0] @ wb @ [pp, jj, 0]" and c4: "same_ctx (setTail False ?c) ?c4" "cx_sp ?c4 = ?d + 1"
      "cx_spMax ?c4 = cx_spMax ?c2" "cx_captured ?c4 = cx_captured ?c2" "cs_outer s4 = cs_outer s2" "cs_pool s4 = cs_pool s2"
    using c2 by (simp_all add: s4 ctx_simps same_ctx_def k2 pp_def jj_def)
  have "ctx_ok ?c4"
    by (rule ctx_ok_ops[OF st_ok_ctx[OF ok2], where k = 0 and x = pp and args = "[jj, 0]"])
      (use st_ok_ctx[OF ok2] k2 k4 c2 c4 locals_below[OF ok, of ?c2] in \<open>simp_all add: same_ctx_def setTail_def ctx_ok_def\<close>)
  then have "st_ok s4" using chain_cur[OF ok2] c4 by simp
  note k = k[OF this]
  have ok5: "st_ok s5" using k \<open>st_ok s4\<close> by (auto simp: block_def split: if_splits)
  have g45: "grows s4 s5" using k block_grows by (auto split: if_splits)
  have c5: "same_ctx (setTail False ?c) ?c5" "cx_sp ?c5 = ?d + 1"
    using k c4 same_ctx_trans by (auto simp: block_def split: if_splits)
  define wc where "wc = words ?c4 ?c5"
  have k5: "cx_code ?c5 = ?K @ [tp, 0, 0] @ wb @ [pp, jj, 0] @ wc"
    using extends_words[of ?c4 ?c5] g45 k4 by (simp add: wc_def grows_def)
  define o1 where "o1 = (if cat then ac - a else 0)"
  define o2 where "o2 = (if fin then ae - a else 0)"
  define o3 where "o3 = ae - (ac - 2)"
  have ad: "a = int (length ?K)" "ac = a + 3 + int (length wb) + 3" "ae = ac + int (length wc)"
    using adr k4 k5 by (simp_all add: currentAddress_def)
  let ?w = "word_of_int :: int \<Rightarrow> u32"
  have k7: "cx_code ?c7 = ?K @ [tp, ?w o1, ?w o2] @ wb @ [pp, jj, ?w o3] @ wc"
    using try_patched[OF k5 ad(1), of "ac - 2" "ae - (ac - 2)" fin "ae - a" cat "ac - a"] ad
    by (simp add: s7 o1_def o2_def o3_def)
  have c7: "same_ctx (setTail False ?c) ?c7" "cx_sp ?c7 = ?d + 1" "cx_spMax ?c7 = cx_spMax ?c5" "cx_captured ?c7 = cx_captured ?c5"
      "cs_outer s7 = cs_outer s5" "cs_pool s7 = cs_pool s5" "currentAddress ?c7 = ae" "ctx_ok ?c7 = ctx_ok ?c5"
    using c5 adr by (simp_all add: s7)
  have "st_ok s7" using chain_cur[OF ok5] c7 st_ok_ctx[OF ok5] by simp
  note e = e[OF \<open>st_ok s4\<close> this]
  have ok8: "st_ok s8" using e \<open>st_ok s7\<close> by (auto simp: block_def split: if_splits)
  have g78: "grows s7 s8" using e block_grows by (auto split: if_splits)
  have c8: "same_ctx (setTail False ?c) ?c8" "cx_sp ?c8 = ?d + 1"
    using e c7 same_ctx_trans by (auto simp: block_def split: if_splits)
  define wz where "wz = words ?c7 ?c8"
  define W where "W = [tp, ?w o1, ?w o2] @ wb @ [pp, jj, ?w o3] @ wc @ wz"
  have k8: "cx_code ?c8 = ?K @ W"
    using extends_words[of ?c7 ?c8] g78 k7 by (simp add: wz_def W_def grows_def)
  have sg: "store_grows s1 s2" "store_grows s4 s5" "store_grows s7 s8" "store_grows st s1" "store_grows s2 s4" "store_grows s5 s7"
  proof -
    show "store_grows s1 s2" "store_grows s4 s5" "store_grows s7 s8"
      using b g45 g78 by (simp_all add: compiled_def ran_def grows_store)
    show "store_grows st s1" "store_grows s2 s4" "store_grows s5 s7" by (rule store_same; use c1 c4 c7 in simp)+
  qed
  then have g: "store_grows st s8" "store_grows s5 s8" "store_grows s2 s8" by (meson store_trans)+
  have t: "\<not> cx_tail ?c1" "\<not> cx_tail ?c4" "\<not> cx_tail ?c7" and n: "cx_argCount ?c1 = cx_argCount ?c" "cx_argCount ?c4 = cx_argCount ?c"
      "cx_argCount ?c7 = cx_argCount ?c" "currentAddress ?c1 = a + 3"
    using c1(1) c4(1) c7(1) k1 ad by (simp_all add: same_ctx_def setTail_def currentAddress_def)
  have y: "yields H w st s8"
    unfolding yields_def
  proof (intro impI conjI allI)
    assume s: "small s8" and p: "pool_good H w (cs_pool st)"
    have s7: "small s7" by (rule small_grows[OF g78 s])
    then have s5: "small s5" using k5 k7 c7 by (simp add: small_def currentAddress_def)
    then have "small s4" by (rule small_grows[OF g45])
    then have s2: "small s2" using k2 k4 c4 by (simp add: small_def currentAddress_def)
    have p2: "pool_good H w (cs_pool s2)" using compiled_pool[OF b s2] p c1 by simp
    have p5: "pool_good H w (cs_pool s5)" using k s5 p2 c4 by (auto simp: block_def split: if_splits)
    show "pool_good H w (cs_pool s8)" using e s p5 c7 by (auto simp: block_def split: if_splits)
    fix S L assume en: "enters ?c S" and L: "cx_spMax ?c8 \<le> L"
    let ?n = "int (cx_argCount ?c)" and ?P = "cs_pool s8" and ?M = "cx_spMax ?c8"
    let ?cc = "if cat then ac else - 1" and ?ff = "if fin then ae else - 1"
    let ?A = "Armed ?cc ?ff ?d # S" and ?Sc = "if fin then Armed (- 1) ?ff ?d # S else S" and ?Sf = "if fin then Maybe ?ff ?d # S else S"
    have m: "?d \<le> cx_spMax ?c" "?d + 1 \<le> cx_spMax ?c2" using en lv c2 by (simp_all add: enters_def)
    have mx: "cx_spMax ?c2 \<le> cx_spMax ?c5" "cx_spMax ?c5 \<le> ?M"
      using sg c4 g by (simp_all add: store_grows_def)
    have px: "extends (cs_pool s2) ?P" "extends (cs_pool s5) ?P" using g by (simp_all add: store_grows_def)
    have mb: "g \<le> a" if "Maybe g s \<in> set S" for g s using en that adr by (auto simp: enters_def)
    have "enters ?c1 ?A" by (rule enters_more[OF en t(1)]) (use m c1 n ad adr in auto)
    from compiled_handlers[OF b t(1) s2 _ this _ px(1), of L ?n]
    have "typed ?P ?n L (\<lambda>T. entries_ok T L ?A) ?A ?A ?c1 ?c2 (cx_spMax ?c2)" using p c1 mx L n by simp
    from typed_pieceD[OF this] obtain ex1 tab1 where
      B: "piece ?P ?n L (\<lambda>T. entries_ok T L ?A) (a + 3) wb ?d ?A (?d + 1) ?A ex1 tab1"
      using b c1 c2 n by (auto simp: compiled_def ran_def wb_def)
    have "\<exists>ex2 tab2. if cat then piece ?P ?n L (\<lambda>T. entries_ok T L ?Sc) ac wc (?d + 1) ?Sc (?d + 1) S ex2 tab2
      else wc = [] \<and> tab2 = [] \<and> \<not> ex2"
    proof (cases cat)
      case True
      have "enters ?c4 ?Sc" by (rule enters_more[OF en t(2)]) (use m c4 n ad adr in \<open>auto split: if_splits\<close>)
      moreover have "catch_entry fin S ?Sc" by (simp add: catch_entry_def)
      ultimately have "typed (cs_pool s5) ?n L (\<lambda>T. entries_ok T L ?Sc) ?Sc S ?c4 ?c5 (cx_spMax ?c5)"
        by (intro block_typed[of H w "catch_entry fin"]) (use k True s5 p2 c4 mx L n in simp_all)
      from typed_pieceD[OF typed_pool[OF this px(2)]] k True obtain ex2 tab2 where
        "piece ?P ?n L (\<lambda>T. entries_ok T L ?Sc) (currentAddress ?c4) wc (cx_sp ?c4) ?Sc (cx_sp ?c5) S ex2 tab2"
        unfolding block_def wc_def if_P[OF True] by blast
      then show ?thesis using True c4(2) c5(2) adr(2) by (intro exI[of _ ex2] exI[of _ tab2]) (simp only: if_True)
    qed (use k in \<open>auto simp: wc_def words_def\<close>)
    then obtain ex2 tab2 where C: "if cat then piece ?P ?n L (\<lambda>T. entries_ok T L ?Sc) ac wc (?d + 1) ?Sc (?d + 1) S ex2 tab2
      else wc = [] \<and> tab2 = [] \<and> \<not> ex2" by blast
    have "\<exists>ex3 tab3. if fin then piece ?P ?n L (\<lambda>T. entries_ok T L ?Sf) ae wz (?d + 1) ?Sf (?d + 1) S ex3 tab3
      else wz = [] \<and> tab3 = [] \<and> ex3 = (ex1 \<or> ex2)"
    proof (cases fin)
      case True
      have "enters ?c7 ?Sf" by (rule enters_more[OF en t(3)]) (use True m mx c7 n ad adr in auto)
      moreover have "finally_entry ae S ?Sf" using True mb ad by (force simp: finally_entry_def)
      ultimately have "typed ?P ?n L (\<lambda>T. entries_ok T L ?Sf) ?Sf S ?c7 ?c8 ?M"
        by (intro block_typed[of H w "finally_entry ae"]) (use e True s p5 c7 L n in simp_all)
      from typed_pieceD[OF this] e True obtain ex3 tab3 where
        "piece ?P ?n L (\<lambda>T. entries_ok T L ?Sf) (currentAddress ?c7) wz (cx_sp ?c7) ?Sf (cx_sp ?c8) S ex3 tab3"
        unfolding block_def wz_def if_P[OF True] by blast
      then show ?thesis using True c7(2,7) c8(2) by (intro exI[of _ ex3] exI[of _ tab3]) (simp only: if_True)
    qed (use e in \<open>auto simp: wz_def words_def\<close>)
    then obtain ex3 tab3 where F: "if fin then piece ?P ?n L (\<lambda>T. entries_ok T L ?Sf) ae wz (?d + 1) ?Sf (?d + 1) S ex3 tab3
      else wz = [] \<and> tab3 = [] \<and> ex3 = (ex1 \<or> ex2)" by blast
    have lm: "ae < lim" using s7 c7 by (simp add: small_def)
    have off: "sint (?w o1) = (if cat then ac - a else 0)" "sint (?w o2) = (if fin then ae - a else 0)" "sint (?w o3) = ae - (ac - 2)"
    proof -
      have "0 \<le> o1 \<and> o1 < lim" "0 \<le> o2 \<and> o2 < lim" "0 \<le> o3 \<and> o3 < lim"
        using lm ad by (auto simp: o1_def o2_def o3_def)
      then have "sint (?w o1) = o1" "sint (?w o2) = o2" "sint (?w o3) = o3" using sint_small by blast+
      then show "sint (?w o1) = (if cat then ac - a else 0)" "sint (?w o2) = (if fin then ae - a else 0)" "sint (?w o3) = ae - (ac - 2)"
        using o1_def o2_def o3_def by (simp_all only:)
    qed
    have "\<exists>tab. piece ?P ?n L (ctxR L S ?c) a ([tp, ?w o1, ?w o2] @ wb @ [pp, jj, ?w o3] @ wc @ wz) ?d S (?d + 1) S ex3 tab"
      by (rule piece_try[OF _ _ _ ad(2,3) off d _ _ ctxR_entries refl refl refl refl B C F])
        (use m mx L ad in \<open>simp_all add: tp_def pp_def jj_def\<close>)
    then obtain tab where "piece ?P ?n L (ctxR L S ?c) (currentAddress ?c) W ?d S (cx_sp ?c8) S ex3 tab"
      using c8 adr by (auto simp: W_def)
    from typed_piece[OF k8 _ this] show "typed ?P ?n L (ctxR L S ?c) S S ?c ?c8 ?M" using c8 m mx by simp
  qed
  have "ran H w 1 st s8"
    using ok8 g k8 c8 y by (simp add: ran_def grows_store currentAddress_def W_def)
  from ran_setTail[OF this, of "cx_tail ?c"] show ?thesis
    using c8 g(3) by (simp add: compiled_def same_ctx_def setTail_def store_grows_def)
qed

section \<open>Recorded depth\<close>

text \<open>When the depth at the start is within the recorded maximum, so is the depth at the end.\<close>

definition level :: "'e cstate \<Rightarrow> 'e cstate \<Rightarrow> bool" where
  "level st st' \<longleftrightarrow> (cx_sp (cs_cur st) \<le> cx_spMax (cs_cur st) \<longrightarrow> cx_sp (cs_cur st') \<le> cx_spMax (cs_cur st'))"

lemma level_load: "level st (loadConstant v st1)"
  by (simp add: level_def loadConstant_def poolConstant_def incSP_def split: prod.split)

lemma level_via: "level st s1 \<Longrightarrow> cx_sp (cs_cur st') \<le> cx_sp (cs_cur s1) \<Longrightarrow> cx_spMax (cs_cur s1) \<le> cx_spMax (cs_cur st') \<Longrightarrow> level st st'"
  by (auto simp: level_def)

lemma compiled_spMax: "compiled H w k st st' \<Longrightarrow> cx_spMax (cs_cur st) \<le> cx_spMax (cs_cur st')"
  by (simp add: compiled_def ran_def grows_def)

lemma compiled_sp: "compiled H w k st st' \<Longrightarrow> cx_sp (cs_cur st') = cx_sp (cs_cur st) + k"
  by (simp add: compiled_def ran_def)

lemma not_False: "\<not> False"
  by simp

section \<open>The parts of a try\<close>

definition parts_ok :: "'h world \<Rightarrow> try_parts \<Rightarrow> bool" where
  "parts_ok w t \<longleftrightarrow> (\<forall>f\<in>set (tr_body t). form_ok w f) \<and> (\<forall>f\<in>set (tr_finally t). form_ok w f) \<and>
     (\<forall>(cn, b, body)\<in>set (tr_clauses t). \<forall>f\<in>set body. form_ok w f)"

lemma parseCatch_body: "parseCatch H rest = Ok (cn, b, body) \<Longrightarrow> set body \<subseteq> set rest"
  by (auto simp: parseCatch_def split: list.splits form.splits if_splits)

lemma parseTry_step:
  "parseTry H (f # fs) t = (case formSeq f of
     Some (FSym h # rest) \<Rightarrow>
       if h = ''catch'' then obind (parseCatch H rest) (\<lambda>cl. parseTry H fs (t\<lparr>tr_clauses := tr_clauses t @ [cl]\<rparr>))
       else if h = ''finally'' then parseTry H fs (t\<lparr>tr_finally := tr_finally t @ rest\<rparr>)
       else parseTry H fs (t\<lparr>tr_body := tr_body t @ [f]\<rparr>)
   | _ \<Rightarrow> parseTry H fs (t\<lparr>tr_body := tr_body t @ [f]\<rparr>))"
  by simp

text \<open>Each form is a clause, a \<open>finally\<close> or part of the body.\<close>

lemma parseTry_cases:
  assumes "parseTry H (f # fs) t = Ok t'"
  obtains (clause) rest cn b body where "formSeq f = Some (FSym ''catch'' # rest)" "parseCatch H rest = Ok (cn, b, body)"
      "parseTry H fs (t\<lparr>tr_clauses := tr_clauses t @ [(cn, b, body)]\<rparr>) = Ok t'"
    | (cleanup) rest where "formSeq f = Some (FSym ''finally'' # rest)" "parseTry H fs (t\<lparr>tr_finally := tr_finally t @ rest\<rparr>) = Ok t'"
    | (body) "parseTry H fs (t\<lparr>tr_body := tr_body t @ [f]\<rparr>) = Ok t'"
  using assms unfolding parseTry_step
  by (auto simp: obind_Ok simp del: parseTry.simps split: option.splits list.splits form.splits if_splits)

lemma parseTry_ok: "parseTry H fs t = Ok t' \<Longrightarrow> \<forall>f\<in>set fs. form_ok w f \<Longrightarrow> parts_ok w t \<Longrightarrow> parts_ok w t'"
proof (induction fs arbitrary: t)
  case (Cons f fs)
  from Cons.prems(1) show ?case
  proof (cases rule: parseTry_cases)
    case (clause rest cn b body)
    have "\<forall>f\<in>set body. form_ok w f" using parseCatch_body[OF clause(2)] formSeq_ok[OF clause(1), of w] Cons.prems(2) by auto
    then show ?thesis by (intro Cons.IH[OF clause(3)]) (use Cons.prems(2,3) in \<open>simp_all add: parts_ok_def\<close>)
  next
    case (cleanup rest)
    have "\<forall>f\<in>set rest. form_ok w f" using formSeq_ok[OF cleanup(1), of w] Cons.prems(2) by simp
    then show ?thesis
      by (intro Cons.IH[OF cleanup(2)]) (use Cons.prems(2,3) in \<open>simp_all add: parts_ok_def ball_Un\<close>)
  next
    case body
    show ?thesis by (rule Cons.IH[OF body]) (use Cons.prems(2,3) in \<open>simp_all add: parts_ok_def ball_Un\<close>)
  qed
qed simp

text \<open>The parts only grow.\<close>

lemma parseTry_grows:
  "parseTry H fs t = Ok t' \<Longrightarrow> set (tr_body t) \<subseteq> set (tr_body t') \<and> set (tr_finally t) \<subseteq> set (tr_finally t') \<and>
   set (tr_clauses t) \<subseteq> set (tr_clauses t')"
proof (induction fs arbitrary: t)
  case (Cons f fs)
  from Cons.prems show ?case by (cases rule: parseTry_cases) (auto dest!: Cons.IH)
qed simp

lemma parseTry_no_handler:
  "parseTry H fs t = Ok t' \<Longrightarrow> tr_clauses t' = [] \<Longrightarrow> tr_finally t' = [] \<Longrightarrow> f \<in> set fs \<Longrightarrow>
   f \<in> set (tr_body t') \<or> formSeq f = Some [FSym ''finally'']"
proof (induction fs arbitrary: t)
  case (Cons g fs)
  from Cons.prems(1) show ?case
  proof (cases rule: parseTry_cases)
    case (clause rest cn b body)
    then show ?thesis using parseTry_grows[OF clause(3)] Cons.prems(2) by auto
  next
    case (cleanup rest)
    then show ?thesis using parseTry_grows[OF cleanup(2)] Cons.IH[OF cleanup(2)] Cons.prems(2,3,4) by auto
  next
    case body
    then show ?thesis using parseTry_grows[OF body] Cons.IH[OF body] Cons.prems(2,3,4) by auto
  qed
qed simp

lemma dispatchClauses_ok:
  assumes "\<forall>(class, b, body)\<in>set cls. \<forall>f\<in>set body. form_ok w f"
  shows "form_ok w (dispatchClauses caught cls)"
  using assms by (induction cls) (auto simp: dispatchClauses_def special_ok_def)

lemma leaveFn_level: "leaveFn H s = Ok st' \<Longrightarrow> level st st'"
proof -
  assume l: "leaveFn H s = Ok st'"
  have cap: "cx_sp c \<le> cx_spMax c \<Longrightarrow> cx_sp (fold (\<lambda>(s, src). pushCapture src) xs c) \<le> cx_spMax (fold (\<lambda>(s, src). pushCapture src) xs c)"
    for xs :: "(string \<times> cell) list" and c
  proof (induction xs arbitrary: c)
    case (Cons x xs)
    have "cx_sp (pushCapture (snd x) c) \<le> cx_spMax (pushCapture (snd x) c)"
      using Cons.prems by (simp add: pushCapture_def emitCell_def ctx_simps split: cell.split)
    then show ?case using Cons.IH by (cases x) simp
  qed simp
  have ld: "cx_sp (cs_cur (loadConstant v u)) \<le> cx_spMax (cs_cur (loadConstant v u))" for v and u :: "'a cstate"
    by (simp add: loadConstant_def poolConstant_def ctx_simps split: prod.split)
  have "cx_sp (cs_cur st') \<le> cx_spMax (cs_cur st')"
    using l cap[of "emit OP_MAKE_CLOSURE c" for c] ld
    by (auto simp: leaveFn_def Let_def emit_def split: list.splits if_splits)
  then show ?thesis by (simp add: level_def)
qed

lemma fastOps_succs:
  "(x, oc) \<in> set fastOps1 \<Longrightarrow> 1 \<le> d \<Longrightarrow> succs P m code a oc d S = Some [(a + 1, d, S)]"
  "(x, oc) \<in> set fastOps2 \<Longrightarrow> 2 \<le> d \<Longrightarrow> succs P m code a oc d S = Some [(a + 1, d - 1, S)]"
  "(x, oc) \<in> set fastOps3 \<Longrightarrow> 3 \<le> d \<Longrightarrow> succs P m code a oc d S = Some [(a + 1, d - 2, S)]"
  by (auto simp: fastOps1_def fastOps2_def fastOps3_def)

section \<open>Rewritten forms\<close>

lemma load_depth:
  "cx_sp (cs_cur (loadConstant v s)) = cx_sp (cs_cur s) + 1"
  "cx_sp (cs_cur (loadConstant v s)) \<le> cx_spMax (cs_cur (loadConstant v s))"
  by (simp_all add: loadConstant_def poolConstant_def ctx_simps split: prod.split)

lemma call_form_ok:
  "s \<notin> {''recur'', ''finally'', ''do'', ''try'', ''let*'', ''loop*'', ''fn*''} \<Longrightarrow> \<forall>f\<in>set fs. form_ok w f \<Longrightarrow>
   form_ok w (FList (FSym s # fs)) \<and> \<not> silent (FList (FSym s # fs))"
  by (simp add: special_ok_def)

lemma uncheckedArithFor_call: "uncheckedArithFor b \<notin> {''recur'', ''finally'', ''do'', ''try'', ''let*'', ''loop*'', ''fn*''}"
  by (simp add: uncheckedArithFor_def)

lemma fold_unchecked_ok:
  assumes "form_ok w acc \<and> \<not> silent acc" "\<forall>f\<in>set fs. form_ok w f"
  shows "form_ok w (foldl (\<lambda>acc x. FList [FSym (uncheckedArithFor base), acc, x]) acc fs) \<and>
      \<not> silent (foldl (\<lambda>acc x. FList [FSym (uncheckedArithFor base), acc, x]) acc fs)"
  using assms
proof (induction fs arbitrary: acc)
  case (Cons f fs)
  have "form_ok w (FList [FSym (uncheckedArithFor base), acc, f]) \<and> \<not> silent (FList [FSym (uncheckedArithFor base), acc, f])"
    by (rule call_form_ok[OF uncheckedArithFor_call]) (use Cons.prems in simp)
  then show ?case using Cons.IH Cons.prems by simp
qed simp

lemma rewriteUncheckedArith_ok:
  assumes r: "rewriteUncheckedArith base args = Some f" and a: "\<forall>f\<in>set args. form_ok w f"
  shows "form_ok w f \<and> \<not> silent f"
proof -
  consider (one) x where "f = FList [FSym (uncheckedArithFor base), x]" "x \<in> set args"
    | (neg) x where "f = FList [FSym ''clojure.core/unchecked-negate'', x]" "x \<in> set args"
    | (many) x y xs where "f = foldl (\<lambda>acc x. FList [FSym (uncheckedArithFor base), acc, x])
        (FList [FSym (uncheckedArithFor base), x, y]) xs" "args = x # y # xs"
    using r by (auto simp: rewriteUncheckedArith_def split: list.splits if_splits)
  then show ?thesis
  proof cases
    case (one x)
    show ?thesis unfolding one(1) by (rule call_form_ok[OF uncheckedArithFor_call]) (use one(2) a in simp)
  next
    case (neg x)
    show ?thesis unfolding neg(1) by (rule call_form_ok) (use neg(2) a in simp_all)
  next
    case (many x y xs)
    have "form_ok w (FList [FSym (uncheckedArithFor base), x, y]) \<and> \<not> silent (FList [FSym (uncheckedArithFor base), x, y])"
      by (rule call_form_ok[OF uncheckedArithFor_call]) (use a many in simp)
    from fold_unchecked_ok[OF this] show ?thesis using many a by simp
  qed
qed

lemma ctorShorthand_ok:
  "ctorShorthand s = Some ctor \<Longrightarrow> \<forall>f\<in>set args. form_ok w f \<Longrightarrow>
   form_ok w (FList (FSym ctor # args)) \<and> \<not> silent (FList (FSym ctor # args))"
  by (rule call_form_ok) (auto simp: ctorShorthand_def split: if_splits)

lemma normalizeDotForm_ok:
  assumes n: "normalizeDotForm (FSym s # args) = Some f" and a: "\<forall>f\<in>set args. form_ok w f"
  shows "form_ok w f \<and> \<not> silent f"
proof -
  obtain obj member rest where args: "args = obj # member # rest"
    using n by (auto simp: normalizeDotForm_def split: list.splits)
  have q: "form_ok w (FList [FSym ''quote'', FSym name])" for name by (simp add: special_ok_def)
  obtain name as where f: "f = FList (FSym ''.'' # obj # FList [FSym ''quote'', FSym name] # as)" "\<forall>f\<in>set as. form_ok w f"
  proof (cases member)
    case (FSym name)
    then show ?thesis using n a that by (auto simp: normalizeDotForm_def args)
  next
    case (FList ms)
    then obtain name as where "ms = FSym name # as" "f = FList (FSym ''.'' # obj # FList [FSym ''quote'', FSym name] # as)"
      using n by (auto simp: normalizeDotForm_def args split: list.splits form.splits if_splits)
    then show ?thesis using that[of name as] a FList args by simp
  qed (use n in \<open>simp_all add: normalizeDotForm_def args\<close>)
  show ?thesis unfolding f(1) by (rule call_form_ok) (use q f(2) a args in simp_all)
qed

lemma quoteTagHint_ok:
  assumes "form_ok w m"
  shows "form_ok w (quoteTagHint m)"
proof (cases m)
  case (FMap meta kvs)
  let ?g = "\<lambda>(k, v). case (k, v) of
     (FVal (Prim (VKeyword t)), FSym s) \<Rightarrow> (k, if t = ''tag'' then FList [FSym ''quote'', FSym s] else FSym s)
   | _ \<Rightarrow> (k, v)"
  have sq: "special_ok [FSym ''quote'', FSym s]" for s by (simp add: special_ok_def)
  have "form_ok w (fst (?g (k, v))) \<and> form_ok w (snd (?g (k, v)))" if "form_ok w k" "form_ok w v" for k v
  proof (cases "\<exists>t s. k = FVal (Prim (VKeyword t)) \<and> v = FSym s")
    case True
    then show ?thesis using sq by auto
  next
    case False
    then have "?g (k, v) = (k, v)" by (auto split: form.split vv.split val.split)
    then show ?thesis using that by simp
  qed
  then have "\<forall>kv\<in>set kvs. form_ok w (fst (?g kv)) \<and> form_ok w (snd (?g kv))" using assms FMap by auto
  then show ?thesis using assms FMap by simp
qed (use assms in simp_all)

lemma resolveCoreArith_ok: "st_ok st \<Longrightarrow> resolveCoreArith H s st = (r, st1) \<Longrightarrow> compiled H w 0 st st1"
  using symbolLookup_ok(1)[of st s] compiled_refl[of st]
  by (fastforce simp: resolveCoreArith_def split: if_splits option.splits prod.splits)

lemma loadVar_depth: "cx_sp (cs_cur (loadVar v s)) \<le> cx_spMax (cs_cur (loadVar v s))"
  by (simp add: loadVar_def poolConstant_def ctx_simps split: prod.split)

lemma compileSymbol_ok:
  assumes h: "chost_ok H w" and c: "compileSymbol H s st = Ok st'" and st: "st_ok st"
  shows "compiled H w 1 st st' \<and> level st st'"
proof -
  have load: "compiled H w 1 st (loadConstant v st1) \<and> level st (loadConstant v st1)"
    if "ch_hostClass H s = Some v" "compiled H w 0 st st1" for v st1
    using compiled_const[OF that(2) st _ chost_hostClass[OF h that(1)]] level_load by simp
  have var: "compiled H w 1 st (loadVar v st1) \<and> level st (loadVar v st1)" if "compiled H w 0 st st1" for v st1
    using compiled_seq[OF that loadVar_ok[OF compiled_ok[OF that]], of v] loadVar_depth[of v st1] by (simp add: level_def)
  have cell: "compiled H w 1 st (upd_cur (emitCell cl) st1) \<and> level st (upd_cur (emitCell cl) st1)"
    if "compiled H w 0 st st1" "cell_ok (cs_cur st1) cl" for cl st1
    using compiled_cell[OF that(1) st _ that(2)] by (auto simp: level_def emitCell_def ctx_simps split: cell.splits)
  show ?thesis
  proof (cases "splitNamespaced s")
    case (Some x)
    then show ?thesis using c load[OF _ compiled_refl[OF st]] var[OF compiled_refl[OF st]]
      by (fastforce simp: compileSymbol_def Let_def split: prod.splits option.splits if_splits)
  next
    case None
    obtain r st1 where l: "symbolLookup s st = (r, st1)" by fastforce
    note lk = symbolLookup_ok(1)[OF st l, of H w] symbolLookup_ok(2)[OF st l]
    show ?thesis
    proof (cases r)
      case (Some cl)
      then show ?thesis using c None l cell[OF lk(1) lk(2)] by (auto simp: compileSymbol_def Let_def)
    next
      case r: None
      then show ?thesis using c None l load[OF _ lk(1)] var[OF lk(1)]
        by (fastforce simp: compileSymbol_def Let_def split: option.splits)
    qed
  qed
qed

end
