(* ===== verification/LG_CompilerSafe.thy ===== *)
theory LG_CompilerSafe
  imports LG_ContractCode
begin

text \<open>
  Compiled code is well-typed. The locale \<open>subcompiler\<close> is the contract of the function that
  compiles subforms; each special form, literal and call is proved in it, so one compilation step
  keeps the contract, and \<open>compileForm\<close> with any fuel is an instance.
\<close>

section \<open>Special forms, given a compiler of subforms\<close>

locale subcompiler =
  fixes H :: "'e chost" and w :: "'h world" and cf :: "'e compiler"
  assumes sub: "chost_ok H w \<Longrightarrow> cf f st = Ok st' \<Longrightarrow> form_ok w f \<Longrightarrow> st_ok st \<Longrightarrow> compiled H w 1 st st'"
    and loud: "chost_ok H w \<Longrightarrow> cf f st = Ok st' \<Longrightarrow> form_ok w f \<Longrightarrow> st_ok st \<Longrightarrow>
      \<not> cx_tail (cs_cur st) \<or> \<not> silent f \<Longrightarrow> level st st'"
begin

lemma compileAll_ok:
  assumes "chost_ok H w"
  shows "compileAll cf fs st = Ok st1 \<Longrightarrow> \<forall>f\<in>set fs. form_ok w f \<Longrightarrow> st_ok st \<Longrightarrow> \<not> cx_tail (cs_cur st) \<Longrightarrow>
    compiled H w (int (length fs)) st st1"
proof (induction fs arbitrary: st)
  case (Cons f fs)
  then obtain st2 where s: "cf f st = Ok st2" "compileAll cf fs st2 = Ok st1" by (auto simp: obind_Ok)
  have 1: "compiled H w 1 st st2" using sub[OF assms s(1)] Cons.prems by simp
  then have "compiled H w (int (length fs)) st2 st1"
    using Cons.IH[OF s(2)] Cons.prems compiled_ok[OF 1] compiled_tail_eq[OF 1] by simp
  from compiled_seq[OF 1 this] show ?case using Cons.prems by (simp add: add.commute)
qed (auto intro: compiled_refl)

lemma compileBody_ok:
  assumes h: "chost_ok H w" and pre: "\<And>f st st1. pre f st = Ok st1 \<Longrightarrow> \<exists>e. st1 = st\<lparr>cs_env := e\<rparr>"
  shows "compileBody pre cf tp fs st = Ok st1 \<Longrightarrow> \<forall>f\<in>set fs. form_ok w f \<Longrightarrow> st_ok st \<Longrightarrow> \<not> cx_tail (cs_cur st) \<Longrightarrow>
    compiled H w 1 (upd_cur (setTail tp) st) (upd_cur (setTail tp) st1)"
proof (induction fs arbitrary: st rule: induct_list012)
  case 1
  then show ?case using compiled_retail[OF loadConstant_ok[of st w NIL H]] by simp
next
  case (2 f)
  then obtain st2 where p: "pre f st = Ok st2"
    and c2: "cf f (if tp then upd_cur (setTail True) st2 else st2) = Ok st1" by (auto simp: obind_Ok)
  then obtain e where e: "st2 = st\<lparr>cs_env := e\<rparr>" using pre by blast
  have "(if tp then upd_cur (setTail True) st2 else st2) = upd_cur (setTail tp) st2"
    using setTail_id[of st2 False] 2 e by simp
  then have c: "cf f (upd_cur (setTail tp) (st\<lparr>cs_env := e\<rparr>)) = Ok st1" using c2 e by simp
  have 1: "compiled H w 1 (upd_cur (setTail tp) st) st1" by (rule compiled_from[OF sub[OF h c]]) (use 2 in simp_all)
  then have "cx_tail (cs_cur st1) = tp" using compiled_tail_eq[OF 1] by (simp add: setTail_def)
  then show ?case using 1 setTail_id[of st1 tp] by simp
next
  case (3 f g fs)
  then obtain st2 st3 where p: "pre f st = Ok st2" and c2: "cf f st2 = Ok st3"
    and b: "compileBody pre cf tp (g # fs) (upd_cur (decSP 1 \<circ> emit OP_POP) st3) = Ok st1"
    by (auto simp: obind_Ok)
  then obtain e where c: "cf f (st\<lparr>cs_env := e\<rparr>) = Ok st3" using pre by blast
  let ?st4 = "upd_cur (decSP 1 \<circ> emit OP_POP) st3"
  have "compiled H w 1 st st3" using sub[OF h c] 3 by simp
  from compiled_pop[OF this] have p: "compiled H w 0 st ?st4" using 3 by simp
  then have t: "\<not> cx_tail (cs_cur ?st4)" using compiled_tail_eq[OF p] 3 by simp
  have 4: "compiled H w 1 (upd_cur (setTail tp) ?st4) (upd_cur (setTail tp) st1)"
    using 3(2)[OF b _ compiled_ok[OF p] t] 3 by simp
  have "compiled H w 0 (upd_cur (setTail tp) st) (upd_cur (setTail tp) ?st4)"
    by (rule compiled_retail[OF p]) (use 3 in simp_all)
  from compiled_seq[OF this 4] show ?case by simp
qed

lemma doCompiler_ok:
  assumes h: "chost_ok H w" and c: "doCompiler H cf args st = Ok st'" and f: "\<forall>f\<in>set args. form_ok w f" and st: "st_ok st"
  shows "compiled H w 1 st st'"
proof -
  define s where "s = (case args of f # _ \<Rightarrow> (upd_cur (setTail False) st)\<lparr>cs_env := ch_detectInNS H f (cs_env (upd_cur (setTail False) st))\<rparr>
    | [] \<Rightarrow> upd_cur (setTail False) st)"
  have s: "cs_cur s = setTail False (cs_cur st)" "cs_outer s = cs_outer st" "cs_pool s = cs_pool st"
    by (simp_all add: s_def split: list.split)
  obtain st2 where b: "compileBody (simulate H) cf (cx_tail (cs_cur st)) args s = Ok st2"
    and e: "st' = upd_cur (setTail (cx_tail (cs_cur st))) st2"
    using c by (auto simp: doCompiler_def Let_def obind_Ok s_def)
  have "compiled H w 1 (upd_cur (setTail (cx_tail (cs_cur st))) s) st'"
    unfolding e by (rule compileBody_ok[OF h _ b f])
      (use s st in \<open>auto simp: simulate_def obind_Ok\<close>)
  then show ?thesis by (rule compiled_from) (simp_all add: s setTail_setTail)
qed

lemma compileBindings_ok:
  assumes h: "chost_ok H w"
  shows "compileBindings cf bs st = Ok st1 \<Longrightarrow> \<forall>f\<in>set bs. form_ok w f \<Longrightarrow> st_ok st \<Longrightarrow> \<not> cx_tail (cs_cur st) \<Longrightarrow>
    cx_locals (cs_cur st) \<noteq> [] \<Longrightarrow>
    ran H w (int (length bs div 2)) st st1 \<and> bound (length bs div 2) (cs_cur st) (cs_cur st1) \<and> \<not> cx_tail (cs_cur st1)"
proof (induction bs arbitrary: st rule: induct_list012)
  case 1
  have "length (cx_slots (cs_cur st)) = length (cx_locals (cs_cur st))" using st_ok_ctx[of st] 1 by (simp add: ctx_ok_def)
  then show ?case using 1 by (cases "cx_locals (cs_cur st)"; cases "cx_slots (cs_cur st)") (auto simp: bound_def intro: ran_refl)
next
  case (2 b)
  then show ?case by (simp split: form.splits)
next
  case (3 b v bs)
  from 3(3) obtain name st2 where c: "cf v st = Ok st2"
    and r: "compileBindings cf bs (upd_cur (addLocal name) st2) = Ok st1"
    by (auto simp: obind_Ok split: form.splits)
  let ?st3 = "upd_cur (addLocal name) st2"
  have 1: "compiled H w 1 st st2" using sub[OF h c] 3 by simp
  then have loc: "cx_locals (cs_cur st2) = cx_locals (cs_cur st)" "cx_slots (cs_cur st2) = cx_slots (cs_cur st)"
    by (simp_all add: compiled_def same_ctx_def)
  have r3: "ran H w 1 st ?st3"
    by (rule ran_addLocal) (use 1 3 loc sp_nonneg[of st] in \<open>simp_all add: compiled_def ran_def\<close>)
  have "length (cx_slots (cs_cur st)) = length (cx_locals (cs_cur st))" using st_ok_ctx[of st] 3 by (simp add: ctx_ok_def)
  then have b3: "bound 1 (cs_cur st) (cs_cur ?st3)"
    using 1 3 bound_ctx[of "cs_cur st" "cs_cur st2"]
    by (cases "cx_locals (cs_cur st)"; cases "cx_slots (cs_cur st)") (auto simp: compiled_def)
  have t3: "\<not> cx_tail (cs_cur ?st3)" using compiled_tail_eq[OF 1] 3 by (simp add: addLocal_def)
  have ih: "ran H w (int (length bs div 2)) ?st3 st1 \<and> bound (length bs div 2) (cs_cur ?st3) (cs_cur st1) \<and> \<not> cx_tail (cs_cur st1)"
    by (rule 3(1)[OF r]) (use 3 ran_ok[OF r3] t3 b3 in \<open>auto simp: bound_def\<close>)
  have "ran H w (1 + int (length bs div 2)) st st1"
    by (rule ran_seq[OF r3 conjunct1[OF ih] under_False]) (use b3 t3 in \<open>simp_all add: bound_def\<close>)
  then show ?case using ih bound_trans[OF b3, of "length bs div 2"] by simp
qed

lemma bindings_open:
  assumes h: "chost_ok H w" and b: "compileBindings cf binds (upd_cur (setTail False \<circ> pushLocals) st) = Ok s1"
    and f: "\<forall>f\<in>set binds. form_ok w f" and st: "st_ok st"
  shows "ran H w (int (length binds div 2)) st s1" "bound (length binds div 2) (pushLocals (cs_cur st)) (cs_cur s1)"
    "\<not> cx_tail (cs_cur s1)"
proof -
  let ?s0 = "upd_cur (setTail False \<circ> pushLocals) st" and ?b = "length binds div 2"
  have r0: "ran H w 0 st ?s0" by (rule ran_pushLocals[OF ran_refl[OF st]])
  have 1: "ran H w (int ?b) ?s0 s1 \<and> bound ?b (cs_cur ?s0) (cs_cur s1) \<and> \<not> cx_tail (cs_cur s1)"
    by (rule compileBindings_ok[OF h b]) (use f ran_ok[OF r0] in \<open>simp_all add: pushLocals_def setTail_def\<close>)
  show "ran H w (int ?b) st s1"
    using ran_seq[OF r0 conjunct1[OF 1] under_False] by (simp add: pushLocals_def setTail_def)
  show "bound ?b (pushLocals (cs_cur st)) (cs_cur s1)" "\<not> cx_tail (cs_cur s1)" using 1 by (simp_all add: bound_def setTail_def)
qed

lemma letCompiler_ok:
  assumes h: "chost_ok H w" and c: "letCompiler cf (FVec m binds # body) st = Ok st'"
    and f: "\<forall>f\<in>set binds \<union> set body. form_ok w f" and st: "st_ok st"
  shows "compiled H w 1 st st'"
proof -
  let ?tc = "cx_tail (cs_cur st)" and ?b = "length binds div 2"
  obtain s1 s2 where b: "compileBindings cf binds (upd_cur (setTail False \<circ> pushLocals) st) = Ok s1"
    and d: "compileBody no_pre cf ?tc body s1 = Ok s2" and e: "st' = upd_cur (setTail ?tc \<circ> popScope ?b) s2"
    using c by (auto simp: letCompiler_def Let_def obind_Ok)
  note o = bindings_open[OF h b _ st]
  have 2: "compiled H w 1 (upd_cur (setTail ?tc) s1) (upd_cur (setTail ?tc) s2)"
    by (rule compileBody_ok[OF h _ d]) (use f o ran_ok in \<open>simp_all add: ex_env\<close>)
  have "ran H w (int ?b + 1) st (upd_cur (setTail ?tc) s2)"
    by (rule ran_seq[OF ran_setTail[OF o(1)] 2[unfolded compiled_def, THEN conjunct1]])
      (use under_bound[OF o(2) st_ok_ctx[OF st]] o(1) f in \<open>simp_all add: ran_def\<close>)
  then have "compiled H w 1 st (upd_cur (popScope ?b) (upd_cur (setTail ?tc) s2))"
    by (rule scope_close[OF _ st, where m = "hd (cx_locals (cs_cur s1))" and n = "hd (cx_slots (cs_cur s1))"])
      (use o(2) f 2 sp_nonneg[OF st] in \<open>auto simp: bound_def compiled_def same_ctx_def setTail_def pushLocals_def\<close>)
  then show ?thesis unfolding e by (simp add: setTail_commute)
qed

lemma loopCompiler_ok:
  assumes h: "chost_ok H w" and c: "loopCompiler cf (FVec m binds # body) st = Ok st'"
    and f: "\<forall>f\<in>set binds \<union> set body. form_ok w f" and st: "st_ok st"
  shows "compiled H w 1 st st'"
proof -
  let ?tc = "cx_tail (cs_cur st)" and ?b = "length binds div 2"
  obtain s1 s2 where b: "compileBindings cf binds (upd_cur (setTail False \<circ> pushLocals) st) = Ok s1"
    and d: "compileBody no_pre cf True body (upd_cur (pushRecurPoint ?b) s1) = Ok s2"
    and e: "st' = upd_cur (setTail ?tc \<circ> popScope ?b \<circ> popRecurPoint) s2"
    using c by (auto simp: loopCompiler_def Let_def obind_Ok)
  have f1: "\<forall>f\<in>set binds. form_ok w f" and f2: "\<forall>f\<in>set body. form_ok w f" using f by simp_all
  note o = bindings_open[OF h b f1 st]
  have ok1: "ctx_ok (cs_cur s1)" by (rule st_ok_ctx[OF ran_ok[OF o(1)]])
  have sp: "int ?b \<le> cx_sp (cs_cur s1)" using o(1) st_ok_ctx[OF st] by (simp add: ran_def ctx_ok_def)
  have "ctx_ok (pushRecurPoint ?b (cs_cur s1))" using ok1 by (simp add: ctx_ok_def pushRecurPoint_def currentAddress_def)
  then have okp: "st_ok (upd_cur (pushRecurPoint ?b) s1)"
    using chain_cur[OF ran_ok[OF o(1)]] by (simp add: pushRecurPoint_def)
  have 2: "compiled H w 1 (upd_cur (setTail True) (upd_cur (pushRecurPoint ?b) s1)) (upd_cur (setTail True) s2)"
    by (rule compileBody_ok[OF h _ d f2 okp]) (use o(3) in \<open>simp_all add: ex_env pushRecurPoint_def\<close>)
  have "ran H w 1 s1 (upd_cur (setTail True) s2)"
    by (rule ran_loop[OF _ ran_ok[OF o(1)] sp o(3)]) (use 2 in \<open>simp add: compiled_def\<close>)
  from ran_seq[OF o(1) this under_False] o(2,3) have r: "ran H w (int ?b + 1) st (upd_cur (setTail True) s2)"
    by (simp add: bound_def pushLocals_def)
  let ?s3 = "upd_cur (setTail ?tc \<circ> popRecurPoint) s2"
  have ok2: "ctx_ok (cs_cur s2)" using st_ok_ctx[OF ran_ok[OF r]] by (simp add: setTail_def)
  have "ctx_ok (popRecurPoint (cs_cur s2))"
    using ok2 by (cases "cx_recurs (cs_cur s2)") (simp_all add: ctx_ok_def popRecurPoint_def currentAddress_def)
  then have "ran H w (int ?b + 1) st ?s3"
    by (intro ran_silent[OF r]) (simp_all add: setTail_def popRecurPoint_def)
  then have "compiled H w 1 st (upd_cur (popScope ?b) ?s3)"
    by (rule scope_close[OF _ st, where m = "hd (cx_locals (cs_cur s1))" and n = "hd (cx_slots (cs_cur s1))"])
      (use o(2) 2 sp_nonneg[OF st] in \<open>auto simp: bound_def compiled_def same_ctx_def setTail_def pushLocals_def popRecurPoint_def pushRecurPoint_def\<close>)
  then show ?thesis unfolding e by (simp add: setTail_commute)
qed

lemma recurCompiler_ok:
  assumes h: "chost_ok H w" and c: "recurCompiler cf args st = Ok st'" and f: "\<forall>f\<in>set args. form_ok w f" and st: "st_ok st"
  shows "compiled H w 1 st st'"
proof -
  have tail: "cx_tail (cs_cur st)" using c by (simp add: recurCompiler_def Let_def split: if_splits)
  obtain st1 where a: "compileAll cf args (upd_cur (setTail False) st) = Ok st1"
    using c tail by (auto simp: recurCompiler_def Let_def obind_Ok split: list.splits if_splits)
  let ?argc = "int (length args)"
  have 1: "compiled H w ?argc (upd_cur (setTail False) st) st1" by (rule compileAll_ok[OF h a f]) (use st in simp_all)
  have r: "ran H w ?argc st (upd_cur (setTail True) st1)" and same: "same_ctx (cs_cur st) (setTail True (cs_cur st1))"
    using compiled_tail[OF 1 st] tail by (simp_all add: compiled_def)
  let ?s1 = "upd_cur (setTail True) st1"
  have ok: "ctx_ok (cs_cur st)" and ok1: "ctx_ok (cs_cur st1)" using st_ok_ctx[OF st] st_ok_ctx[OF compiled_ok[OF 1]] by simp_all
  have sp: "0 \<le> cx_sp (cs_cur st)" "cx_sp (cs_cur st1) = cx_sp (cs_cur st) + ?argc"
      "cx_sp (cs_cur st1) \<le> currentAddress (cs_cur st1)"
    using ok ok1 r by (simp_all add: ctx_ok_def ran_def setTail_def)
  have low: "\<forall>m\<in>set (cx_locals (cs_cur st1)). \<forall>e\<in>set m. snd e < cx_sp (cs_cur st1) + (1 - ?argc)"
    by (rule locals_below[OF ok]) (use same sp in \<open>simp_all add: same_ctx_def setTail_def\<close>)
  have "ran H w (?argc + (1 - ?argc)) st st'"
  proof (cases "cx_recurs (cs_cur st)")
    case Nil
    then have e: "st' = upd_cur (decSP (?argc - 1) \<circ> setTail True \<circ> emitWithArg OP_RECUR_FN ?argc) st1" "length args = cx_argCount (cs_cur st)"
      using c a tail by (auto simp: recurCompiler_def Let_def obind_Ok split: if_splits)
    have ok': "ctx_ok (cs_cur st')"
      by (rule ctx_ok_ops[OF ok1 _ _ low, where x = "opword OP_RECUR_FN (cx_sp (cs_cur st1))" and args = "[word_of_int ?argc]"])
        (use sp in \<open>simp_all add: e(1) ctx_simps\<close>)
    show ?thesis
    proof (rule ran_stop[OF r ok', where oc = OP_RECUR_FN and sp = "cx_sp (cs_cur st1)" and args = "[word_of_int ?argc]"])
      fix S L code
      assume s: "small st'" and en: "enters (cs_cur st) S"
        and hd: "holds code (currentAddress (cs_cur ?s1)) [opword OP_RECUR_FN (cx_sp (cs_cur st1)), word_of_int ?argc]"
      have "?argc < lim" using s sp by (simp add: small_def e(1) ctx_simps)
      with arg_word[OF hd] have "argw code (currentAddress (cs_cur ?s1) + 1) = Some ?argc" by simp
      then show "\<exists>ss. succs (cs_pool st') (int (cx_argCount (cs_cur st))) code (currentAddress (cs_cur ?s1)) OP_RECUR_FN (cx_sp (cs_cur ?s1)) S = Some ss \<and>
          (\<forall>T. ctxR L S (cs_cur st) T \<longrightarrow> list_all (\<lambda>(pc, d, S). flows T pc d S) ss)"
        using en tail Nil sp e(2) by (simp add: enters_def ctxR_def setTail_def)
    qed (use sp in \<open>simp_all add: e(1) ctx_simps\<close>)
  next
    case (Cons rp rps)
    let ?off = "currentAddress (cs_cur st1) - rp_address rp"
    have p: "sum_list (take (length (cx_locals (cs_cur st1)) - rp_locals rp) (cx_slots (cs_cur st1))) = nat (passed (cs_cur st) rp)"
      using same by (simp add: passed_def same_ctx_def setTail_def)
    have pos: "0 \<le> passed (cs_cur st) rp" by (simp add: passed_def)
    let ?ws = "[word_of_int ?off, word_of_int ?argc, word_of_int (passed (cs_cur st) rp)] :: u32 list"
    have e: "st' = upd_cur (decSP (?argc - 1) \<circ> setTail True \<circ> append32 (passed (cs_cur st) rp) \<circ> append32 ?argc \<circ> emitWithArg OP_RECUR ?off) st1"
        "length args = rp_argsc rp"
      using c a tail Cons p pos by (auto simp: recurCompiler_def Let_def obind_Ok split: if_splits)
    have ok': "ctx_ok (cs_cur st')"
      by (rule ctx_ok_ops[OF ok1 _ _ low, where x = "opword OP_RECUR (cx_sp (cs_cur st1))" and args = "?ws"])
        (use sp in \<open>simp_all add: e(1) ctx_simps\<close>)
    have rpa: "0 \<le> rp_address rp" "rp_address rp \<le> currentAddress (cs_cur st1)"
      using ok1 same Cons by (auto simp: ctx_ok_def same_ctx_def setTail_def)
    show ?thesis
    proof (rule ran_stop[OF r ok', where oc = OP_RECUR and sp = "cx_sp (cs_cur st1)" and args = "?ws"])
      fix S L code
      assume s: "small st'" and en: "enters (cs_cur st) S"
        and hd: "holds code (currentAddress (cs_cur ?s1)) (opword OP_RECUR (cx_sp (cs_cur st1)) # ?ws)"
      have lim: "currentAddress (cs_cur st1) < lim" using s by (simp add: small_def e(1) ctx_simps)
      have room: "?argc \<le> cx_sp (cs_cur st) - passed (cs_cur st) rp" using en tail Cons e(2) by (simp add: enters_def)
      note ws = recur_words[OF hd]
      have "argw code (currentAddress (cs_cur ?s1) + 1) = Some ?off" "argw code (currentAddress (cs_cur ?s1) + 2) = Some ?argc"
          "argw code (currentAddress (cs_cur ?s1) + 3) = Some (passed (cs_cur st) rp)"
        by (rule ws; use lim room sp rpa pos in simp)+
      then show "\<exists>ss. succs (cs_pool st') (int (cx_argCount (cs_cur st))) code (currentAddress (cs_cur ?s1)) OP_RECUR (cx_sp (cs_cur ?s1)) S = Some ss \<and>
          (\<forall>T. ctxR L S (cs_cur st) T \<longrightarrow> list_all (\<lambda>(pc, d, S). flows T pc d S) ss)"
        using tail Cons sp room pos by (simp add: ctxR_def setTail_def currentAddress_def)
    qed (use sp in \<open>simp_all add: e(1) ctx_simps\<close>)
  qed
  moreover have "same_ctx (cs_cur st) (cs_cur st')"
    using c a tail same by (auto simp: recurCompiler_def Let_def obind_Ok same_ctx_def ctx_simps split: list.splits if_splits)
  ultimately show ?thesis by (simp add: compiled_def)
qed

lemma quoteCompiler_ok: "quoteCompiler H args st = Ok st' \<Longrightarrow> \<forall>f\<in>set args. form_ok w f \<Longrightarrow> st_ok st \<Longrightarrow> compiled H w 1 st st'"
  by (auto simp: quoteCompiler_def intro!: loadConstant_ok val_ok_const_of split: list.splits)

lemma varCompiler_ok: "varCompiler H args st = Ok st' \<Longrightarrow> st_ok st \<Longrightarrow> compiled H w 1 st st'"
  by (auto simp: varCompiler_def intro!: loadConstant_ok split: list.splits form.splits option.splits)

lemma setBangCompiler_ok:
  assumes h: "chost_ok H w" and c: "setBangCompiler H cf args st = Ok st'" and f: "\<forall>f\<in>set args. form_ok w f" and st: "st_ok st"
  shows "compiled H w 1 st st'"
proof -
  obtain s val where args: "args = [FSym s, val]"
    using c by (auto simp: setBangCompiler_def split: list.splits form.splits)
  define v where "v = (case ch_lookup H (cs_env st) s of Some u \<Rightarrow> VarV u | None \<Rightarrow> NIL)"
  let ?s0 = "upd_cur (setTail False) st"
  obtain st1 where v1: "cf val (loadConstant v ?s0) = Ok st1"
    and e: "st' = upd_cur (setTail (cx_tail (cs_cur st))) (upd_cur (decSP 1 \<circ> emit OP_SET_VAR) st1)"
    using c by (auto simp: setBangCompiler_def args obind_Ok v_def Let_def)
  have ok0: "st_ok ?s0" using st by simp
  have "val_ok w v" by (simp add: v_def split: option.split)
  then have 1: "compiled H w 1 ?s0 (loadConstant v ?s0)" by (rule loadConstant_ok[OF ok0])
  have "compiled H w (1 + 1) ?s0 st1"
    by (rule compiled_seq[OF 1 sub[OF h v1]]) (use f args compiled_ok[OF 1] in simp_all)
  then have "compiled H w 1 ?s0 (upd_cur (decSP 1 \<circ> emit OP_SET_VAR) st1)"
    using compiled_set_var[OF _ ok0] by simp
  then show ?thesis unfolding e by (rule compiled_tail[OF _ st refl])
qed

lemma defArgs_val: "defArgs args = Ok (s, doc, val) \<Longrightarrow> val = Some x \<Longrightarrow> x \<in> set args"
  by (auto simp: defArgs_def split: list.splits form.splits val.splits vv.splits)

lemma defCompiler_ok:
  assumes h: "chost_ok H w" and c: "defCompiler H cf form args st = Ok st'" and f: "\<forall>f\<in>set args. form_ok w f" and st: "st_ok st"
  shows "compiled H w 1 st st' \<and> level st st'"
proof -
  obtain target name m doc val where p: "defArgs args = Ok (target, doc, val)" "defTarget target = Ok (name, m)"
    using c by (auto simp: defCompiler_def obind_Ok Let_def)
  have valf: "form_ok w x" if "val = Some x" for x
    using defArgs_val[OF p(1)] f that by blast
  obtain v e1 where v: "ch_intern H name (cs_env st) = (v, e1)" by fastforce
  obtain meta e2 where meta: "ch_defMeta H name m doc form v e1 = (meta, e2)" by fastforce
  have mok: "val_ok w meta" using chost_defMeta[OF h] meta by (metis fst_conv)
  let ?tc = "cx_tail (cs_cur st)"
  let ?s0 = "upd_cur (setTail False) st"
  define st1 where "st1 = upd_cur (\<lambda>c. c\<lparr>cx_tail := False, cx_defName := name\<rparr>) (st\<lparr>cs_env := e2\<rparr>)"
  define st2 where "st2 = loadConstant (VarV v) st1"
  define st3 where "st3 = loadConstant meta (loadConstant (VarV v) (loadConstant (coreConst H ''apply-def-meta!'' st2) st2))"
  define st4 where "st4 = upd_cur (decSP 1 \<circ> emit OP_POP) (upd_cur (decSP (int 2) \<circ> emitWithArg OP_INVOKE (int 2)) st3)"
  have ok0: "st_ok ?s0" using st by simp
  have "compiled H w 0 ?s0 (upd_cur (cx_defName_update (\<lambda>_. name)) ?s0)" by (rule compiled_defName[OF compiled_refl[OF ok0]])
  moreover have "st1 = (upd_cur (cx_defName_update (\<lambda>_. name)) ?s0)\<lparr>cs_env := e2\<rparr>"
    by (cases st) (simp add: st1_def setTail_def)
  ultimately have 1: "compiled H w 0 ?s0 st1" by simp
  have 2: "compiled H w 1 ?s0 st2" unfolding st2_def using compiled_const[OF 1 ok0, of "VarV v"] by simp
  have "compiled H w (((1 + 1) + 1) + 1) ?s0 st3"
    unfolding st3_def by (intro compiled_const 2 ok0 mok) simp_all
  from compiled_invoke[OF this ok0, of 2] have "compiled H w 2 ?s0 (upd_cur (decSP (int 2) \<circ> emitWithArg OP_INVOKE (int 2)) st3)"
    by simp
  from compiled_pop[OF this ok0] have 4: "compiled H w 1 ?s0 st4" unfolding st4_def by simp
  have inc: "cx_sp (cs_cur (loadConstant v s)) = cx_sp (cs_cur s) + 1" "cx_sp (cs_cur (loadConstant v s)) \<le> cx_spMax (cs_cur (loadConstant v s))"
    for v and s :: "'e cstate"
    by (simp_all add: loadConstant_def poolConstant_def ctx_simps split: prod.split)
  have l4: "cx_sp (cs_cur st4) \<le> cx_spMax (cs_cur st4)"
    using inc(2)[of meta "loadConstant (VarV v) (loadConstant (coreConst H ''apply-def-meta!'' st2) st2)"]
    by (simp add: st4_def st3_def inc(1) ctx_simps)
  let ?fin = "\<lambda>s. upd_cur (cx_defName_update (\<lambda>_. '''')) (upd_cur (setTail ?tc) s)"
  have fin: "compiled H w 1 ?s0 s \<Longrightarrow> compiled H w 1 st (?fin s)" for s
    by (rule compiled_defName, rule compiled_tail[OF _ st refl])
  have c': "(case val of None \<Rightarrow> Ok (?fin st4)
       | Some x \<Rightarrow> (case maybeIRCompileDefFnArg H name x st4 of
           (r, e3) \<Rightarrow> obind r (\<lambda>rewritten.
             obind (cf (case rewritten of Some y \<Rightarrow> y | None \<Rightarrow> x) (st4\<lparr>cs_env := e3\<rparr>)) (\<lambda>st5.
             Ok (?fin (upd_cur (decSP 1 \<circ> emit OP_SET_VAR) st5)))))) = Ok st'"
    using c by (simp add: defCompiler_def p v meta st1_def st2_def st3_def st4_def Let_def setTail_def split: option.splits prod.splits)
  show ?thesis
  proof (cases val)
    case None
    then have "st' = ?fin st4" using c' by simp
    then show ?thesis using fin[OF 4] l4 by (simp add: level_def setTail_def)
  next
    case (Some x)
    obtain r e3 where ir: "maybeIRCompileDefFnArg H name x st4 = (r, e3)" by fastforce
    then obtain y st5 where y: "r = Ok y" "cf (case y of Some y \<Rightarrow> y | None \<Rightarrow> x) (st4\<lparr>cs_env := e3\<rparr>) = Ok st5"
      and e: "st' = ?fin (upd_cur (decSP 1 \<circ> emit OP_SET_VAR) st5)"
      using c' Some by (auto simp: obind_Ok)
    have fy: "form_ok w (case y of Some y \<Rightarrow> y | None \<Rightarrow> x)"
    proof (cases y)
      case (Some z)
      have "fst (ch_irCompile H name x (cs_env st4)) = Ok (Some z)"
        using ir y(1) Some by (simp add: maybeIRCompileDefFnArg_def split: if_splits)
      then have "form_ok w z" using chost_irCompile[OF h valf[OF \<open>val = Some x\<close>]] by blast
      then show ?thesis using Some by simp
    qed (use valf[OF Some] in simp)
    have 5: "compiled H w 1 st4 st5" using sub[OF h y(2) fy] compiled_ok[OF 4] by simp
    have "compiled H w (1 + 1) ?s0 st5" by (rule compiled_seq[OF 4 5]) simp
    then have "compiled H w 1 ?s0 (upd_cur (decSP 1 \<circ> emit OP_SET_VAR) st5)" using compiled_set_var[OF _ ok0] by simp
    then have "compiled H w 1 st st'" unfolding e by (rule fin)
    moreover have "level st st'"
      using l4 compiled_spMax[OF 5] compiled_sp[OF 5] by (simp add: level_def e ctx_simps)
    ultimately show ?thesis by blast
  qed
qed

lemma ifCompiler_ok:
  assumes h: "chost_ok H w" and c: "ifCompiler cf args st = Ok st'" and f: "\<forall>f\<in>set args. form_ok w f" and st: "st_ok st"
  shows "compiled H w 1 st st' \<and> level st st'"
proof -
  obtain test thn els where args: "args = test # thn # els"
    using c by (auto simp: ifCompiler_def Let_def split: list.splits)
  let ?s2 = "\<lambda>s1. upd_cur (setTail (cx_tail (cs_cur st)) \<circ> decSP 1 \<circ> emitWithArg OP_BRANCH_FALSE 0) s1"
  let ?s5 = "\<lambda>s1 s3. upd_cur (updatePlaceholderArg (currentAddress (cs_cur s1)) (currentAddress (cs_cur s3) + 2 - currentAddress (cs_cur s1)) \<circ>
    emitWithArg OP_JUMP 0 \<circ> decSP 1) s3"
  have adr: "currentAddress (emitWithArg OP_JUMP 0 (decSP 1 c)) = currentAddress c + 2" for c by (simp add: ctx_simps)
  obtain s1 s3 s6 where 1: "cf test (upd_cur (setTail False) st) = Ok s1" and 2: "cf thn (?s2 s1) = Ok s3"
    and 3: "(case els of e # _ \<Rightarrow> cf e (?s5 s1 s3) | [] \<Rightarrow> Ok (loadConstant NIL (?s5 s1 s3))) = Ok s6"
    and e: "st' = upd_cur (updatePlaceholderArg (currentAddress (cs_cur s3)) (currentAddress (cs_cur s6) - currentAddress (cs_cur s3))) s6"
    using c by (cases els) (auto simp: ifCompiler_def args Let_def obind_Ok adr split: if_splits)
  have fs: "form_ok w test" "form_ok w thn" "\<forall>f\<in>set els. form_ok w f" using f args by simp_all
  have "compiled H w 1 st st' \<and> cx_spMax (cs_cur s1) \<le> cx_spMax (cs_cur st')"
  proof (rule compiled_branches[OF _ st refl _ refl _ e refl refl])
    show "compiled H w 1 (upd_cur (setTail False) st) s1" using sub[OF h 1] fs st by simp
    show "st_ok (?s2 s1) \<Longrightarrow> compiled H w 1 (?s2 s1) s3" using sub[OF h 2] fs by simp
    show "compiled H w 1 (?s5 s1 s3) s6" if "st_ok (?s5 s1 s3)"
      using 3 fs sub[OF h _ _ that] loadConstant_ok[OF that, of w NIL] by (auto split: list.splits)
  qed
  moreover have "level (upd_cur (setTail False) st) s1" by (rule loud[OF h 1]) (use fs st in simp_all)
  moreover have "cx_sp (cs_cur s1) = cx_sp (cs_cur st) + 1"
    using compiled_sp[OF sub[OF h 1 fs(1)]] chain_ok_tail[of False "cs_cur st" "cs_outer st"] st by (simp add: setTail_def)
  ultimately show ?thesis using compiled_sp[of H w 1 st st'] by (auto simp: level_def setTail_def)
qed

lemma fnFormCompiler_ok:
  assumes h: "chost_ok H w" and c: "fnFormCompiler H cf args body st = Ok st'" and po: "params_ok args"
    and f: "\<forall>f\<in>set body. form_ok w f" and r: "compiled H w j st0 st" and st0: "st_ok st0" and j: "0 \<le> j"
  shows "compiled H w (j + 1) st0 st'"
proof -
  obtain st1 s2 where e: "enterFn args st = Ok st1" and b: "compileBody no_pre cf True body (upd_cur (setTail False) st1) = Ok s2"
    and l: "leaveFn H (upd_cur (emit OP_RETURN) s2) = Ok st'"
    using c by (auto simp: fnFormCompiler_def obind_Ok)
  obtain fc where en: "enterArgs args 0 (newContext\<lparr>cx_isFunction := True, cx_tail := True\<rparr>) = Ok fc"
    and st1: "st1 = st\<lparr>cs_cur := fc, cs_outer := cs_cur st # cs_outer st\<rparr>"
    using e by (auto simp: enterFn_def obind_Ok)
  note fc0 = enterArgs_ctx[OF en]
  have fc: "cx_code fc = []" "cx_sp fc = 0" "cx_locals fc = []" "cx_slots fc = []" "cx_recurs fc = []" "cx_captured fc = []" "cx_tail fc"
    by (subst fc0, simp add: newContext_def)+
  have "\<forall>e\<in>set (cx_args fc). 0 \<le> snd e \<and> snd e < lim"
    using enterArgs_range[OF en] po by (force simp: newContext_def params_ok_def)
  then have "ctx_ok fc" using fc by (simp add: ctx_ok_def currentAddress_def)
  then have ok1: "st_ok st1" using compiled_ok[OF r] fc by (simp add: st1)
  have id: "upd_cur (setTail True) (upd_cur (setTail False) st1) = st1"
    using setTail_id[of st1 True] fc by (simp add: st1 setTail_setTail)
  have "compiled H w 1 (upd_cur (setTail True) (upd_cur (setTail False) st1)) (upd_cur (setTail True) s2)"
    by (rule compileBody_ok[OF h _ b f]) (use ok1 in \<open>simp_all add: ex_env\<close>)
  then have b': "compiled H w 1 st1 (upd_cur (setTail True) s2)" using id by simp
  have "leaveFn H (upd_cur (emit OP_RETURN) (upd_cur (setTail True) s2)) = Ok st'"
    using leaveFn_cong[of "emit OP_RETURN (setTail True (cs_cur s2))" "emit OP_RETURN (cs_cur s2)" H s2] l
    by (simp add: emit_def setTail_def)
  from fn_function[OF r st0 j e po b' this] show ?thesis .
qed

lemma fnArms_ok:
  assumes h: "chost_ok H w" and st0: "st_ok st0"
  shows "fnArms H cf arms st = Ok st' \<Longrightarrow> \<forall>f\<in>set arms. form_ok w f \<and> arm_ok f \<Longrightarrow> compiled H w j st0 st \<Longrightarrow> 0 \<le> j \<Longrightarrow>
    compiled H w (j + int (length arms)) st0 st'"
proof (induction arms arbitrary: st j)
  case (Cons arm arms)
  obtain m args body st1 where arm: "formSeq arm = Some (FVec m args # body)" "fnFormCompiler H cf args body st = Ok st1"
    "fnArms H cf arms st1 = Ok st'"
    using Cons.prems(1) by (auto simp: obind_Ok split: option.splits form.splits list.splits)
  have "\<forall>f\<in>set body. form_ok w f" using formSeq_ok[OF arm(1), of w] Cons.prems(2) by simp
  then have "compiled H w (j + 1) st0 st1"
    by (intro fnFormCompiler_ok[OF h arm(2) _ _ Cons.prems(3) st0]) (use Cons.prems(2,4) arm(1) in \<open>simp_all add: arm_ok_def\<close>)
  from Cons.IH[OF arm(3) _ this] show ?case using Cons.prems(2,4) by (simp add: algebra_simps)
qed simp

lemma fnCompiler_ok:
  assumes h: "chost_ok H w" and c: "fnCompiler H cf fs st = Ok st'" and f: "form_ok w (FList (FSym ''fn*'' # fs))" and st: "st_ok st"
  shows "compiled H w 1 st st'"
proof (cases "\<exists>m args body. fs = FVec m args # body")
  case True
  then obtain m args body where fs: "fs = FVec m args # body" by blast
  have "compiled H w (0 + 1) st st'"
    by (rule fnFormCompiler_ok[OF h _ _ _ compiled_refl[OF st] st, of args body])
      (use c f in \<open>simp_all add: fs fnCompiler_def special_ok_def\<close>)
  then show ?thesis by simp
next
  case False
  let ?n = "length fs"
  obtain st1 where a: "fnArms H cf fs st = Ok st1" "fs \<noteq> []"
    and e: "st' = upd_cur (decSP (int ?n - 1) \<circ> emitWithArg OP_MAKE_MULTI_ARITY (int ?n)) st1"
    using c False by (auto simp: fnCompiler_def obind_Ok split: list.splits form.splits if_splits)
  have "\<forall>f\<in>set fs. form_ok w f \<and> arm_ok f"
    using f False by (auto simp: special_ok_def split: list.splits form.splits)
  from fnArms_ok[OF h st a(1) this compiled_refl[OF st]] have 1: "compiled H w (int ?n) st st1" by simp
  have n: "1 \<le> int ?n" using a(2) by (cases fs) simp_all
  have "compiled H w (int ?n - (int ?n - 1)) st st'"
    unfolding e by (rule compiled_op1[OF 1 st])
      (use n sp_nonneg[OF st] depth_address[OF 1 st] in \<open>auto simp: small_def ctx_simps\<close>)
  then show ?thesis by simp
qed

lemma compileAll_level:
  assumes "chost_ok H w"
  shows "compileAll cf fs st = Ok st1 \<Longrightarrow> \<forall>f\<in>set fs. form_ok w f \<Longrightarrow> st_ok st \<Longrightarrow> \<not> cx_tail (cs_cur st) \<Longrightarrow> level st st1"
proof (induction fs arbitrary: st)
  case (Cons f fs)
  then obtain st2 where s: "cf f st = Ok st2" "compileAll cf fs st2 = Ok st1" by (auto simp: obind_Ok)
  have 1: "compiled H w 1 st st2" using sub[OF assms s(1)] Cons.prems by simp
  have "level st2 st1" using Cons.IH[OF s(2)] Cons.prems compiled_ok[OF 1] compiled_tail_eq[OF 1] by simp
  moreover have "level st st2" by (rule loud[OF assms s(1)]) (use Cons.prems in simp_all)
  ultimately show ?case by (simp add: level_def)
qed (simp add: level_def)

lemma compileBody_level:
  assumes h: "chost_ok H w" and pre: "\<And>f st st1. pre f st = Ok st1 \<Longrightarrow> \<exists>e. st1 = st\<lparr>cs_env := e\<rparr>"
    and c: "compileBody pre cf tp fs st = Ok st1" and f: "\<forall>f\<in>set fs. form_ok w f" and st: "st_ok st" "\<not> cx_tail (cs_cur st)"
    and q: "\<not> tp \<or> fs = [] \<or> \<not> list_all silent fs"
  shows "level st st1"
proof -
  have r: "compiled H w 1 (upd_cur (setTail tp) st) (upd_cur (setTail tp) st1)" by (rule compileBody_ok[OF h pre c f st])
  consider (a) "fs = []" | (b) g where "fs = [g]" | (c) g g' gs where "fs = g # g' # gs" by (metis list.exhaust)
  then show ?thesis
  proof cases
    case a
    then show ?thesis using c by (auto intro: level_load)
  next
    case (b g)
    then obtain st2 where p: "pre g st = Ok st2" and c2: "cf g (if tp then upd_cur (setTail True) st2 else st2) = Ok st1"
      using c by (auto simp: obind_Ok)
    from pre[OF p] obtain e where e: "st2 = st\<lparr>cs_env := e\<rparr>" by blast
    have "level (if tp then upd_cur (setTail True) st2 else st2) st1"
      by (rule loud[OF h c2]) (use b f st q e in \<open>auto simp: list_all_iff\<close>)
    then show ?thesis using e by (auto simp: level_def setTail_def split: if_splits)
  next
    case (c g g' gs)
    then obtain st2 st3 where p: "pre g st = Ok st2" and c2: "cf g st2 = Ok st3"
      and b: "compileBody pre cf tp (g' # gs) (upd_cur (decSP 1 \<circ> emit OP_POP) st3) = Ok st1"
      using assms(3) by (auto simp: obind_Ok)
    from pre[OF p] obtain e where e: "st2 = st\<lparr>cs_env := e\<rparr>" by blast
    have ok2: "st_ok st2" "\<not> cx_tail (cs_cur st2)" using st e by simp_all
    have g: "form_ok w g" using f c by simp
    have 3: "compiled H w 1 st2 st3" by (rule sub[OF h c2 g ok2(1)])
    from compiled_pop[OF this ok2(1)] have 4: "compiled H w 0 st2 (upd_cur (decSP 1 \<circ> emit OP_POP) st3)" by simp
    have 5: "compiled H w 1 (upd_cur (setTail tp) (upd_cur (decSP 1 \<circ> emit OP_POP) st3)) (upd_cur (setTail tp) st1)"
      by (rule compileBody_ok[OF h pre b]) (use f c compiled_ok[OF 4] compiled_tail_eq[OF 4] ok2 in simp_all)
    have "level st2 st3" using loud[OF h c2 g ok2(1)] ok2(2) by blast
    then have "level st st3" by (simp add: level_def e)
    then show ?thesis
      by (rule level_via) (use compiled_sp[OF r] compiled_sp[OF 3] compiled_spMax[OF 5] e in \<open>simp_all add: setTail_def decSP_def emit_def\<close>)
  qed
qed

lemma compileBody_False:
  assumes "chost_ok H w"
  shows "compileBody no_pre cf False fs st = Ok st1 \<Longrightarrow> \<forall>f\<in>set fs. form_ok w f \<Longrightarrow> st_ok st \<Longrightarrow> \<not> cx_tail (cs_cur st) \<Longrightarrow>
    compiled H w 1 st st1"
proof -
  assume c: "compileBody no_pre cf False fs st = Ok st1" and f: "\<forall>f\<in>set fs. form_ok w f" and st: "st_ok st" "\<not> cx_tail (cs_cur st)"
  have "compileBody no_pre cf False fs st = Ok st1 \<Longrightarrow> \<forall>f\<in>set fs. form_ok w f \<Longrightarrow> st_ok st \<Longrightarrow> \<not> cx_tail (cs_cur st) \<Longrightarrow> \<not> cx_tail (cs_cur st1)"
  proof (induction fs arbitrary: st rule: induct_list012)
    case 1
    then show ?case using compiled_tail_eq[OF loadConstant_ok[of st w NIL H]] by simp
  next
    case (2 f)
    then show ?case using compiled_tail_eq[OF sub[OF assms, of f st st1]] by simp
  next
    case (3 f g fs)
    from 3(3) obtain st3 where c: "cf f st = Ok st3"
      and b: "compileBody no_pre cf False (g # fs) (upd_cur (decSP 1 \<circ> emit OP_POP) st3) = Ok st1" by (auto simp: obind_Ok)
    have "compiled H w 1 st st3" using sub[OF assms c] 3 by simp
    from compiled_pop[OF this] 3(5) have p: "compiled H w 0 st (upd_cur (decSP 1 \<circ> emit OP_POP) st3)" by simp
    show ?case using 3(2)[OF b _ compiled_ok[OF p]] compiled_tail_eq[OF p] 3 by simp
  qed
  then have "upd_cur (setTail False) st1 = st1" using setTail_id[of st1 False] c f st by blast
  then show "compiled H w 1 st st1" using compileBody_ok[OF assms no_pre_env c f st] setTail_id[of st False] st by simp
qed

lemma catchBlock_ok:
  assumes h: "chost_ok H w" and c: "catchBlock cf caught form fin st = Ok st'" and f: "form_ok w form"
    and st: "st_ok st" "\<not> cx_tail (cs_cur st)" "1 \<le> cx_sp (cs_cur st)"
  shows "block H w (catch_entry fin) st st'"
proof -
  let ?sp = "upd_cur pushLocals st" and ?s = "upd_cur (addLocal caught) (upd_cur pushLocals st)"
  obtain s1 where c1: "cf form ?s = Ok s1"
    and e: "st' = upd_cur ((if fin then emit OP_TRY_POP else id) \<circ> popLocals \<circ> decSP 1 \<circ> emitWithArg OP_POP_N 1) s1"
    using c by (auto simp: catchBlock_def obind_Ok)
  have "ran H w 0 st (upd_cur (setTail False \<circ> pushLocals) st)" by (rule ran_pushLocals[OF ran_refl[OF st(1)]])
  moreover have "upd_cur (setTail False \<circ> pushLocals) st = ?sp"
    using st(2) by (cases "cs_cur st") (simp add: setTail_def pushLocals_def)
  ultimately have "ran H w 0 st ?sp" by simp
  then have r0: "ran H w 0 st ?s" by (rule ran_addLocal) (use st(3) in \<open>simp_all add: pushLocals_def\<close>)
  have cs: "cx_tail (cs_cur ?s) = cx_tail (cs_cur st)" "cx_argCount (cs_cur ?s) = cx_argCount (cs_cur st)"
      "currentAddress (cs_cur ?s) = currentAddress (cs_cur st)"
    by (simp_all add: ctx_simps)
  have 1: "compiled H w 1 ?s s1" by (rule sub[OF h c1 f ran_ok[OF r0]])
  have r: "ran H w (0 + 1) st s1"
    by (rule ran_seq[OF r0 1[unfolded compiled_def, THEN conjunct1] under_False]) (use cs st in simp_all)
  let ?s2 = "upd_cur (popScope 1) s1"
  have 2: "compiled H w 0 st ?s2"
    by (rule scope_close[where m = "[(caught, cx_sp (cs_cur st) - 1)]" and n = 1])
      (use r st 1 in \<open>simp_all add: compiled_def same_ctx_def pushLocals_def addLocal_def\<close>)
  have pop: "popLocals (decSP 1 (emitWithArg OP_POP_N 1 c)) = popScope 1 c" for c by (cases c) (simp add: ctx_simps)
  have lt: "currentAddress (cs_cur st) < currentAddress (cs_cur ?s2)"
    using 1 cs by (simp add: compiled_def ran_def ctx_simps)
  show ?thesis
  proof (cases fin)
    case True
    have q: "catch_entry True = (\<lambda>S Sin. \<exists>f s. Sin = Armed (- 1) f s # S)" by (simp add: catch_entry_def fun_eq_iff)
    have "block H w (catch_entry True) st (upd_cur (emit OP_TRY_POP) ?s2)"
      by (rule compiled_block[OF 2 st(2,1), where oc = OP_TRY_POP and sp = "cx_sp (cs_cur ?s2)" and args = "[]"])
        (auto simp: q emit_def)
    then show ?thesis using True by (simp add: e pop)
  next
    case False
    have "catch_entry False = (\<lambda>S Sin. Sin = S)" by (simp add: catch_entry_def fun_eq_iff)
    then show ?thesis using compiled_block0[OF 2 st(2) lt] False by (simp add: e pop)
  qed
qed

lemma finallyBlock_ok:
  assumes h: "chost_ok H w" and c: "finallyBlock cf a fs st = Ok st'" and f: "\<forall>f\<in>set fs. form_ok w f"
    and st: "st_ok st" "\<not> cx_tail (cs_cur st)" and a: "a = currentAddress (cs_cur st)"
  shows "block H w (finally_entry a) st st'"
proof -
  obtain s1 where b: "compileBody no_pre cf False fs st = Ok s1"
    and e: "st' = upd_cur (emitWithArg OP_FINALLY_END (a - currentAddress (cs_cur (upd_cur (decSP 1 \<circ> emit OP_POP) s1))))
      (upd_cur (decSP 1 \<circ> emit OP_POP) s1)"
    using c by (auto simp: finallyBlock_def obind_Ok Let_def)
  let ?s2 = "upd_cur (decSP 1 \<circ> emit OP_POP) s1"
  let ?off = "a - currentAddress (cs_cur ?s2)"
  have "compiled H w 1 st s1" by (rule compileBody_False[OF h b f st])
  from compiled_pop[OF this st(1)] have 2: "compiled H w 0 st ?s2" by simp
  have le: "a \<le> currentAddress (cs_cur ?s2)" using 2 a by (simp add: compiled_def ran_def)
  have a0: "0 \<le> a" by (simp add: a currentAddress_def)
  show ?thesis
  proof (rule compiled_block[OF 2 st(2,1), where oc = OP_FINALLY_END and sp = "cx_sp (cs_cur ?s2)" and args = "[word_of_int ?off]"])
    fix S Sin P code
    assume s: "small st'" and q: "finally_entry a S Sin"
      and hd: "holds code (currentAddress (cs_cur ?s2)) [opword OP_FINALLY_END (cx_sp (cs_cur ?s2)), word_of_int ?off]"
    obtain d where Sin: "Sin = Maybe a d # S" "\<forall>s. Maybe a s \<notin> set S" using q by (auto simp: finally_entry_def)
    have "currentAddress (cs_cur ?s2) < lim" using s by (simp add: small_def e ctx_simps)
    then have "sint (word_of_int ?off :: u32) = ?off" using le a0 by (intro sint_u32) simp_all
    then have "argw code (currentAddress (cs_cur ?s2) + 1) = Some ?off" using argw_holds(1)[OF hd] by simp
    then show "succs P (int (cx_argCount (cs_cur st))) code (currentAddress (cs_cur ?s2)) OP_FINALLY_END (cx_sp (cs_cur ?s2)) Sin =
        Some [(currentAddress (cs_cur ?s2) + 1 + int (length [word_of_int ?off :: u32]), cx_sp (cs_cur ?s2), S)]"
      using Sin by (auto split: hty.splits)
  qed (simp_all add: e ctx_simps)
qed

lemma tryLayout_ok:
  assumes h: "chost_ok H w" and c: "tryLayout cf body handler fin st = Ok st'" and b: "\<forall>f\<in>set body. form_ok w f"
    and k: "\<And>caught form. handler = Some (caught, form) \<Longrightarrow> form_ok w form" and f: "\<forall>f\<in>set fin. form_ok w f" and st: "st_ok st"
  shows "compiled H w 1 st st' \<and> level st st'"
proof -
  let ?s1 = "upd_cur (setTail False \<circ> append32 0 \<circ> append32 0 \<circ> emit OP_TRY_PUSH) st"
  let ?s4 = "\<lambda>s2. upd_cur (emitWithArg OP_JUMP 0 \<circ> emit OP_TRY_POP) s2"
  let ?a = "currentAddress (cs_cur st)"
  let ?s7 = "\<lambda>s2 s5. upd_cur (updatePlaceholderArg (currentAddress (cs_cur (?s4 s2)) - 2) (currentAddress (cs_cur s5) - (currentAddress (cs_cur (?s4 s2)) - 2)) \<circ>
      (if fin \<noteq> [] then updatePlaceholderArg (?a + 1) (currentAddress (cs_cur s5) - ?a) else id) \<circ>
      (if handler \<noteq> None then updatePlaceholderArg ?a (currentAddress (cs_cur (?s4 s2)) - ?a) else id)) s5"
  have adr: "currentAddress (emit OP_TRY_POP c) = currentAddress (emitWithArg OP_JUMP 0 (emit OP_TRY_POP c)) - 2" for c
    by (simp add: ctx_simps)
  have "tryLayout cf body handler fin st = obind (compileBody no_pre cf False body ?s1) (\<lambda>s2.
      obind (case handler of Some (caught, form) \<Rightarrow> catchBlock cf caught form (fin \<noteq> []) (?s4 s2) | None \<Rightarrow> Ok (?s4 s2)) (\<lambda>s5.
      obind (if fin = [] then Ok (?s7 s2 s5) else finallyBlock cf (currentAddress (cs_cur s5)) fin (?s7 s2 s5)) (\<lambda>s8.
      Ok (upd_cur (setTail (cx_tail (cs_cur st))) s8))))"
    by (cases handler; cases "fin = []") (auto simp: tryLayout_def Let_def adr obind_assoc)
  from trans[OF this[symmetric] c, unfolded obind_Ok]
  obtain s2 s5 s8 where 2: "compileBody no_pre cf False body ?s1 = Ok s2"
    and 5: "(case handler of Some (caught, form) \<Rightarrow> catchBlock cf caught form (fin \<noteq> []) (?s4 s2) | None \<Rightarrow> Ok (?s4 s2)) = Ok s5"
    and 8: "(if fin = [] then Ok (?s7 s2 s5) else finallyBlock cf (currentAddress (cs_cur s5)) fin (?s7 s2 s5)) = Ok s8"
    and e': "Ok (upd_cur (setTail (cx_tail (cs_cur st))) s8) = (Ok st' :: 'e cresult)"
    by blast
  have e: "st' = upd_cur (setTail (cx_tail (cs_cur st))) s8" using e' by simp
  have ok1: "st_ok ?s1" by (rule try_push_ok[OF st])
  have t1: "\<not> cx_tail (cs_cur ?s1)" by simp
  have b2: "compiled H w 1 ?s1 s2" by (rule compileBody_False[OF h 2 b ok1 t1])
  have sp1: "cx_sp (cs_cur ?s1) = cx_sp (cs_cur st)" "cx_spMax (cs_cur ?s1) = cx_spMax (cs_cur st)" by (simp_all add: ctx_simps)
  have "level ?s1 s2" by (rule compileBody_level[OF h no_pre_env 2 b ok1 t1 disjI1[OF not_False]])
  then have lv: "cx_sp (cs_cur st) \<le> cx_spMax (cs_cur st) \<Longrightarrow> cx_sp (cs_cur s2) \<le> cx_spMax (cs_cur s2)"
    using sp1 by (simp add: level_def)
  have s4: "\<not> cx_tail (cs_cur (?s4 s2))" "cx_sp (cs_cur (?s4 s2)) = cx_sp (cs_cur st) + 1" "1 \<le> cx_sp (cs_cur (?s4 s2))"
    using compiled_tail_eq[OF b2] t1 compiled_sp[OF b2] sp1 sp_nonneg[OF st] by (simp_all add: emit_def emitWithArg_def append32_def)
  have K: "if handler \<noteq> None then block H w (catch_entry (fin \<noteq> [])) (?s4 s2) s5 else s5 = ?s4 s2" if "st_ok (?s4 s2)"
  proof (cases handler)
    case (Some x)
    obtain caught form where x: "x = (caught, form)" by fastforce
    have "catchBlock cf caught form (fin \<noteq> []) (?s4 s2) = Ok s5" using 5 Some x by simp
    from catchBlock_ok[OF h this k that s4(1,3)] show ?thesis using Some x by simp
  qed (use 5 in simp)
  have t7: "\<not> cx_tail (cs_cur (?s7 s2 s5))" if "st_ok (?s4 s2)"
    using K[OF that] s4(1) by (auto simp: block_def same_ctx_def split: if_splits)
  have a7: "currentAddress (cs_cur s5) = currentAddress (cs_cur (?s7 s2 s5))" by (cases handler) simp_all
  have C: "compiled H w 1 st (upd_cur (setTail (cx_tail (cs_cur st))) s8) \<and> cx_spMax (cs_cur s2) \<le> cx_spMax (cs_cur s8)"
  proof (rule compiled_try[OF st refl b2 lv refl K refl refl refl refl])
    assume ok: "st_ok (?s4 s2)" "st_ok (?s7 s2 s5)"
    show "if fin \<noteq> [] then block H w (finally_entry (currentAddress (cs_cur s5))) (?s7 s2 s5) s8 else s8 = ?s7 s2 s5"
    proof (cases "fin = []")
      case False
      then have "finallyBlock cf (currentAddress (cs_cur s5)) fin (?s7 s2 s5) = Ok s8" using 8 by simp
      from finallyBlock_ok[OF h this f ok(2) t7[OF ok(1)] a7] show ?thesis unfolding if_P[OF False] .
    qed (use 8 in simp)
  qed
  then have C: "compiled H w 1 st st'" and m: "cx_spMax (cs_cur s2) \<le> cx_spMax (cs_cur st')"
    by (simp_all add: e setTail_def)
  have "level st st'"
    using lv m compiled_sp[OF C] compiled_sp[OF b2] sp1 by (auto simp: level_def)
  with C show ?thesis by blast
qed

lemma compileEach_ok:
  assumes h: "chost_ok H w"
  shows "compileEach cf fs st = Ok st' \<Longrightarrow> fs \<noteq> [] \<Longrightarrow> \<forall>f\<in>set fs. form_ok w f \<Longrightarrow> st_ok st \<Longrightarrow>
    compiled H w 1 st st' \<and> (\<not> cx_tail (cs_cur st) \<or> \<not> list_all silent fs \<longrightarrow> level st st')"
proof (induction fs arbitrary: st rule: induct_list012)
  case (2 f)
  then have "cf f st = Ok st'" by simp
  then show ?case using sub[OF h, of f st st'] loud[OF h, of f st st'] 2 by auto
next
  case (3 f g fs)
  then obtain s where c: "cf f st = Ok s" and r: "compileEach cf (g # fs) (upd_cur (decSP 1 \<circ> emit OP_POP) s) = Ok st'"
    by (auto simp: obind_Ok)
  let ?s = "upd_cur (decSP 1 \<circ> emit OP_POP) s"
  have 1: "compiled H w 1 st s" using sub[OF h c] 3 by simp
  from compiled_pop[OF this] 3 have 2: "compiled H w 0 st ?s" by simp
  have ih: "compiled H w 1 ?s st' \<and> (\<not> cx_tail (cs_cur ?s) \<or> \<not> list_all silent (g # fs) \<longrightarrow> level ?s st')"
    by (rule "3.IH"(2)[OF r]) (use 3 compiled_ok[OF 2] in simp_all)
  have m: "cx_spMax (cs_cur st) \<le> cx_spMax (cs_cur s)" "cx_spMax (cs_cur ?s) = cx_spMax (cs_cur s)"
      "cx_sp (cs_cur ?s) = cx_sp (cs_cur st)" "cx_spMax (cs_cur ?s) \<le> cx_spMax (cs_cur st')"
      "cx_sp (cs_cur st') = cx_sp (cs_cur st) + 1" "cx_sp (cs_cur s) = cx_sp (cs_cur st) + 1"
    using compiled_spMax[OF 1] compiled_sp[OF 2] compiled_spMax[of H w 1 ?s st'] compiled_sp[of H w 1 ?s st'] compiled_sp[OF 1] ih
    by (simp_all add: decSP_def emit_def)
  have "level st st'" if q: "\<not> cx_tail (cs_cur st) \<or> \<not> list_all silent (f # g # fs)"
  proof (cases "\<not> cx_tail (cs_cur st) \<or> \<not> silent f")
    case True
    have "level st s" by (rule loud[OF h c _ _ True]) (use 3 in simp_all)
    then show ?thesis by (rule level_via) (use m in simp_all)
  next
    case False
    then have "level ?s st'" using ih q by simp
    then show ?thesis using m by (auto simp: level_def)
  qed
  then show ?case using compiled_seq[OF 2] ih by auto
qed simp

lemma tryCompiler_ok:
  assumes h: "chost_ok H w" and c: "tryCompiler H cf args st = Ok st'" and f: "form_ok w (FList (FSym ''try'' # args))" and st: "st_ok st"
  shows "compiled H w 1 st st' \<and> (\<not> cx_tail (cs_cur st) \<or> \<not> silent (FList (FSym ''try'' # args)) \<longrightarrow> level st st')"
proof -
  have ne: "args \<noteq> []" using c by (auto simp: tryCompiler_def)
  then obtain t where p: "parseTry H args \<lparr>tr_body = [], tr_clauses = [], tr_finally = []\<rparr> = Ok t"
    and r: "(if tr_clauses t = [] \<and> tr_finally t = [] then compileEach cf (tr_body t) st
        else if tr_clauses t = [] then tryLayout cf (tr_body t) None (tr_finally t) st
        else (let (caught, st1) = freshCaughtSym st in
          tryLayout cf (tr_body t) (Some (caught, dispatchClauses caught (tr_clauses t))) (tr_finally t) st1)) = Ok st'"
    using c by (auto simp: tryCompiler_def obind_Ok)
  have "parts_ok w t" by (rule parseTry_ok[OF p]) (use f in \<open>simp_all add: parts_ok_def\<close>)
  then have fs: "\<forall>f\<in>set (tr_body t). form_ok w f" "\<forall>f\<in>set (tr_finally t). form_ok w f"
      "form_ok w (dispatchClauses caught (tr_clauses t))" for caught
    using dispatchClauses_ok[of "tr_clauses t" w caught] by (simp_all add: parts_ok_def)
  consider (a) "tr_clauses t = []" "tr_finally t = []" | (b) "tr_clauses t = []" "tr_finally t \<noteq> []" | (c) "tr_clauses t \<noteq> []" by blast
  then show ?thesis
  proof cases
    case a
    have n: "f \<in> set (tr_body t) \<or> formSeq f = Some [FSym ''finally'']" if "f \<in> set args" for f
      using parseTry_no_handler[OF p a that] .
    have ne': "tr_body t \<noteq> []" using f ne n by (auto simp: special_ok_def)
    have "list_all silent (tr_body t) \<Longrightarrow> silent (FList (FSym ''try'' # args))"
      using n ne formSeq_finally by (force simp: list_all_iff)
    moreover have "compileEach cf (tr_body t) st = Ok st'" using r a by simp
    ultimately show ?thesis using compileEach_ok[OF h _ ne' fs(1) st, of st'] by blast
  next
    case b
    then have "tryLayout cf (tr_body t) None (tr_finally t) st = Ok st'" using r by simp
    from tryLayout_ok[OF h this fs(1) _ fs(2) st] show ?thesis by simp
  next
    case c
    let ?n = "Suc (cs_caught st)"
    have "tryLayout cf (tr_body t) (Some (caughtSym ?n, dispatchClauses (caughtSym ?n) (tr_clauses t))) (tr_finally t) (st\<lparr>cs_caught := ?n\<rparr>) = Ok st'"
      using r c by (simp add: freshCaughtSym_def Let_def)
    from tryLayout_ok[OF h this fs(1) _ fs(2)] st fs(3) show ?thesis by (simp add: level_def)
  qed
qed

lemma doCompiler_level:
  assumes h: "chost_ok H w" and c: "doCompiler H cf args st = Ok st'" and f: "\<forall>f\<in>set args. form_ok w f" and st: "st_ok st"
    and q: "\<not> cx_tail (cs_cur st) \<or> args = [] \<or> \<not> list_all silent args"
  shows "level st st'"
proof -
  define s where "s = (case args of f # _ \<Rightarrow> (upd_cur (setTail False) st)\<lparr>cs_env := ch_detectInNS H f (cs_env (upd_cur (setTail False) st))\<rparr>
    | [] \<Rightarrow> upd_cur (setTail False) st)"
  have s: "cs_cur s = setTail False (cs_cur st)" "cs_outer s = cs_outer st"
    by (simp_all add: s_def split: list.split)
  obtain st2 where b: "compileBody (simulate H) cf (cx_tail (cs_cur st)) args s = Ok st2"
    and e: "st' = upd_cur (setTail (cx_tail (cs_cur st))) st2"
    using c by (auto simp: doCompiler_def Let_def obind_Ok s_def)
  have "level s st2"
    by (rule compileBody_level[OF h _ b f _ _ q]) (use s st in \<open>auto simp: simulate_def obind_Ok\<close>)
  then show ?thesis using e s by (simp add: level_def setTail_def)
qed

lemma compileBindings_level:
  assumes h: "chost_ok H w"
  shows "compileBindings cf bs st = Ok st1 \<Longrightarrow> \<forall>f\<in>set bs. form_ok w f \<Longrightarrow> st_ok st \<Longrightarrow> \<not> cx_tail (cs_cur st) \<Longrightarrow>
    cx_locals (cs_cur st) \<noteq> [] \<Longrightarrow> level st st1"
proof (induction bs arbitrary: st rule: induct_list012)
  case (2 b)
  then show ?case by (simp split: form.splits)
next
  case (3 b v bs)
  from 3(3) obtain name st2 where c: "cf v st = Ok st2"
    and r: "compileBindings cf bs (upd_cur (addLocal name) st2) = Ok st1"
    by (auto simp: obind_Ok split: form.splits)
  let ?st3 = "upd_cur (addLocal name) st2"
  have 1: "compiled H w 1 st st2" using sub[OF h c] 3 by simp
  have loc: "cx_locals (cs_cur st2) \<noteq> []" using 1 3 by (simp add: compiled_def same_ctx_def)
  have "ran H w 1 st ?st3"
    by (rule ran_addLocal) (use 1 loc 3 sp_nonneg[of st] in \<open>simp_all add: compiled_def ran_def\<close>)
  then have ok: "st_ok ?st3" by (rule ran_ok)
  have t: "\<not> cx_tail (cs_cur ?st3)" using compiled_tail_eq[OF 1] 3 by (simp add: addLocal_def)
  have "level ?st3 st1"
    by (rule 3(1)[OF r]) (use 3 ok t loc in \<open>auto simp: addLocal_def split: list.splits\<close>)
  moreover have "level st st2" by (rule loud[OF h c]) (use 3 in simp_all)
  ultimately show ?case by (simp add: level_def addLocal_def)
qed (simp add: level_def)

text \<open>The scope, then the body: with a binding or a body that is not silent.\<close>

lemma scope_level:
  assumes h: "chost_ok H w" and b: "compileBindings cf binds (upd_cur (setTail False \<circ> pushLocals) st) = Ok s1"
    and d: "compileBody no_pre cf tp body s2 = Ok s3" and s2: "level s1 s2" "cx_sp (cs_cur s2) = cx_sp (cs_cur s1)" "st_ok s2" "\<not> cx_tail (cs_cur s2)"
      "cx_spMax (cs_cur s1) \<le> cx_spMax (cs_cur s2)"
    and f: "\<forall>f\<in>set binds. form_ok w f" "\<forall>f\<in>set body. form_ok w f" and st: "st_ok st"
    and q: "\<not> tp \<or> binds \<noteq> [] \<or> body = [] \<or> \<not> list_all silent body"
    and e: "cx_sp (cs_cur st') = cx_sp (cs_cur s3) - int (length binds div 2)" "cx_spMax (cs_cur st') = cx_spMax (cs_cur s3)"
  shows "level st st'"
proof -
  note o = bindings_open[OF h b f(1) st]
  have ok0: "st_ok (upd_cur (setTail False \<circ> pushLocals) st)" by (rule ran_ok[OF ran_pushLocals[OF ran_refl[OF st]]])
  have "level (upd_cur (setTail False \<circ> pushLocals) st) s1"
    by (rule compileBindings_level[OF h b f(1) ok0]) (simp_all add: setTail_def pushLocals_def)
  then have l1: "level st s1" by (simp add: level_def setTail_def pushLocals_def)
  have sp1: "cx_sp (cs_cur s1) = cx_sp (cs_cur st) + int (length binds div 2)" using o(1) by (simp add: ran_def)
  have r: "compiled H w 1 (upd_cur (setTail tp) s2) (upd_cur (setTail tp) s3)"
    by (rule compileBody_ok[OF h no_pre_env d f(2) s2(3,4)])
  have sp3: "cx_sp (cs_cur s3) = cx_sp (cs_cur s1) + 1" "cx_spMax (cs_cur s1) \<le> cx_spMax (cs_cur s3)"
    using compiled_sp[OF r] compiled_spMax[OF r] s2 by (simp_all add: setTail_def)
  show ?thesis
  proof (cases "\<not> tp \<or> body = [] \<or> \<not> list_all silent body")
    case True
    have "level s2 s3" by (rule compileBody_level[OF h no_pre_env d f(2) s2(3,4) True])
    then show ?thesis using l1 s2 e sp1 sp3 by (auto simp: level_def)
  next
    case False
    then obtain b1 bs where bs: "binds = b1 # bs" using q by (cases binds) auto
    have "bs \<noteq> []" using b bs by (auto split: form.splits)
    then have "1 \<le> length binds div 2" using bs by (cases bs) auto
    then show ?thesis using l1 e sp1 sp3 by (auto simp: level_def)
  qed
qed

lemma letCompiler_level:
  assumes h: "chost_ok H w" and c: "letCompiler cf (FVec m binds # body) st = Ok st'"
    and f: "\<forall>f\<in>set binds \<union> set body. form_ok w f" and st: "st_ok st"
    and q: "\<not> cx_tail (cs_cur st) \<or> \<not> silent (FList (FSym ''let*'' # FVec m binds # body))"
  shows "level st st'"
proof -
  let ?tc = "cx_tail (cs_cur st)" and ?b = "length binds div 2"
  obtain s1 s2 where b: "compileBindings cf binds (upd_cur (setTail False \<circ> pushLocals) st) = Ok s1"
    and d: "compileBody no_pre cf ?tc body s1 = Ok s2" and e: "st' = upd_cur (setTail ?tc \<circ> popScope ?b) s2"
    using c by (auto simp: letCompiler_def Let_def obind_Ok)
  have f1: "\<forall>f\<in>set binds. form_ok w f" and f2: "\<forall>f\<in>set body. form_ok w f" using f by simp_all
  note o = bindings_open[OF h b f1 st]
  show ?thesis
    by (rule scope_level[OF h b d _ refl ran_ok[OF o(1)] o(3) _ f1 f2 st])
      (use q in \<open>auto simp: level_def e ctx_simps split: list.splits\<close>)
qed

lemma loopCompiler_level:
  assumes h: "chost_ok H w" and c: "loopCompiler cf (FVec m binds # body) st = Ok st'"
    and f: "form_ok w (FList (FSym ''loop*'' # FVec m binds # body))" and st: "st_ok st"
  shows "level st st'"
proof -
  let ?tc = "cx_tail (cs_cur st)" and ?b = "length binds div 2"
  obtain s1 s2 where b: "compileBindings cf binds (upd_cur (setTail False \<circ> pushLocals) st) = Ok s1"
    and d: "compileBody no_pre cf True body (upd_cur (pushRecurPoint ?b) s1) = Ok s2"
    and e: "st' = upd_cur (setTail ?tc \<circ> popScope ?b \<circ> popRecurPoint) s2"
    using c by (auto simp: loopCompiler_def Let_def obind_Ok)
  have f1: "\<forall>f\<in>set binds. form_ok w f" and f2: "\<forall>f\<in>set body. form_ok w f" using f by simp_all
  note o = bindings_open[OF h b f1 st]
  have "ctx_ok (pushRecurPoint ?b (cs_cur s1))"
    using st_ok_ctx[OF ran_ok[OF o(1)]] by (simp add: ctx_ok_def pushRecurPoint_def currentAddress_def)
  then have okp: "st_ok (upd_cur (pushRecurPoint ?b) s1)"
    using chain_cur[OF ran_ok[OF o(1)]] by (simp add: pushRecurPoint_def)
  show ?thesis
    by (rule scope_level[OF h b d _ _ okp _ _ f1 f2 st])
      (use f o(3) in \<open>auto simp: level_def e ctx_simps special_ok_def split: list.splits\<close>)
qed

lemma recurCompiler_level:
  assumes h: "chost_ok H w" and c: "recurCompiler cf args st = Ok st'" and f: "\<forall>f\<in>set args. form_ok w f" and st: "st_ok st"
    and q: "\<not> cx_tail (cs_cur st) \<or> args \<noteq> []"
  shows "level st st'"
proof -
  have tail: "cx_tail (cs_cur st)" using c by (simp add: recurCompiler_def Let_def split: if_splits)
  obtain st1 where a: "compileAll cf args (upd_cur (setTail False) st) = Ok st1"
    using c tail by (auto simp: recurCompiler_def Let_def obind_Ok split: list.splits if_splits)
  have ok: "st_ok (upd_cur (setTail False) st)" using st by simp
  have "level (upd_cur (setTail False) st) st1" by (rule compileAll_level[OF h a f ok]) simp
  moreover have "cx_sp (cs_cur st') = cx_sp (cs_cur st1) - (int (length args) - 1)" "cx_spMax (cs_cur st') = cx_spMax (cs_cur st1)"
    using c a tail by (auto simp: recurCompiler_def Let_def obind_Ok ctx_simps split: list.splits if_splits)
  moreover have "1 \<le> int (length args)" using q tail by (cases args) auto
  ultimately show ?thesis by (auto simp: level_def setTail_def)
qed

lemma setBangCompiler_level:
  assumes h: "chost_ok H w" and c: "setBangCompiler H cf args st = Ok st'" and f: "\<forall>f\<in>set args. form_ok w f" and st: "st_ok st"
  shows "level st st'"
proof -
  obtain s val where args: "args = [FSym s, val]"
    using c by (auto simp: setBangCompiler_def split: list.splits form.splits)
  define v where "v = (case ch_lookup H (cs_env st) s of Some u \<Rightarrow> VarV u | None \<Rightarrow> NIL)"
  let ?sf = "upd_cur (setTail False) st"
  obtain st1 where v1: "cf val (loadConstant v ?sf) = Ok st1"
    and e: "st' = upd_cur (setTail (cx_tail (cs_cur st))) (upd_cur (decSP 1 \<circ> emit OP_SET_VAR) st1)"
    using c by (auto simp: setBangCompiler_def args obind_Ok v_def Let_def)
  have "val_ok w v" by (simp add: v_def split: option.split)
  then have 1: "compiled H w 1 ?sf (loadConstant v ?sf)" using loadConstant_ok[of ?sf] st by simp
  have "level (loadConstant v ?sf) st1"
    by (rule loud[OF h v1 _ compiled_ok[OF 1]]) (use f args compiled_tail_eq[OF 1] in simp_all)
  then show ?thesis using level_load[of ?sf v ?sf] e by (auto simp: level_def ctx_simps)
qed

lemma fnFormCompiler_level: "fnFormCompiler H cf args body st = Ok st' \<Longrightarrow> level st0 st'"
  by (auto simp: fnFormCompiler_def obind_Ok intro: leaveFn_level)

lemma fnArms_level: "fnArms H cf arms st = Ok st' \<Longrightarrow> arms \<noteq> [] \<Longrightarrow> level st0 st'"
proof (induction arms arbitrary: st)
  case (Cons arm arms)
  then obtain m args body st1 where 1: "fnFormCompiler H cf args body st = Ok st1" and 2: "fnArms H cf arms st1 = Ok st'"
    by (auto simp: obind_Ok split: option.splits form.splits list.splits)
  show ?case
  proof (cases "arms = []")
    case True
    then show ?thesis using 2 fnFormCompiler_level[OF 1] by simp
  qed (rule Cons.IH[OF 2])
qed simp

lemma fnCompiler_level:
  assumes "fnCompiler H cf fs st = Ok st'"
  shows "level st st'"
proof (cases "\<exists>m args body. fs = FVec m args # body")
  case True
  then show ?thesis using assms by (auto simp: fnCompiler_def intro: fnFormCompiler_level)
next
  case False
  then obtain st1 where a: "fnArms H cf fs st = Ok st1" "fs \<noteq> []"
    and e: "st' = upd_cur (decSP (int (length fs) - 1) \<circ> emitWithArg OP_MAKE_MULTI_ARITY (int (length fs))) st1"
    using assms by (auto simp: fnCompiler_def obind_Ok split: list.splits form.splits if_splits)
  have "1 \<le> int (length fs)" using a(2) by (cases fs) auto
  then show ?thesis using fnArms_level[OF a, of st] by (auto simp: level_def e ctx_simps)
qed

text \<open>Calls.\<close>

lemma tryFastOpcode_ok:
  assumes st: "st_ok st" and t: "tryFastOpcode H s n st = (r, st1)"
  shows "compiled H w 0 st st1" "\<And>oc. r = Some oc \<Longrightarrow> 1 \<le> n"
    "\<And>oc P m code a d S. r = Some oc \<Longrightarrow> int n \<le> d \<Longrightarrow> succs P m code a oc d S = Some [(a + 1, d - (int n - 1), S)]"
proof -
  have "compiled H w 0 st (snd (fastOpcodeCoreName H s st))"
    using symbolLookup_ok(1)[OF st] compiled_refl[OF st]
    by (auto simp: fastOpcodeCoreName_def Let_def split: option.splits prod.splits)
  then show "compiled H w 0 st st1"
    using t by (auto simp: tryFastOpcode_def split: prod.splits option.splits)
  show n: "1 \<le> n" if "r = Some oc" for oc
    using t that by (auto simp: tryFastOpcode_def split: prod.splits option.splits if_splits)
  show "succs P m code a oc d S = Some [(a + 1, d - (int n - 1), S)]" if r: "r = Some oc" and d: "int n \<le> d" for oc P m code a d S
  proof -
    obtain x where "(n = 1 \<and> (x, oc) \<in> set fastOps1) \<or> (n = 2 \<and> (x, oc) \<in> set fastOps2) \<or> (n = 3 \<and> (x, oc) \<in> set fastOps3)"
      using t[unfolded r] by (auto simp: tryFastOpcode_def dest: map_of_SomeD split: prod.splits option.splits if_splits)
    then show ?thesis using fastOps_succs[of x oc d P m code a S] d by auto
  qed
qed

lemma compileCall_ok:
  assumes h: "chost_ok H w" and c: "compileCall H cf fn args st = Ok st'" and f: "form_ok w fn" "\<forall>f\<in>set args. form_ok w f" and st: "st_ok st"
  shows "compiled H w 1 st st' \<and> level st st'"
proof -
  let ?sf = "upd_cur (setTail False) st" and ?tp = "cx_tail (cs_cur st)" and ?n = "length args"
  have okf: "st_ok ?sf" and tf: "\<not> cx_tail (cs_cur ?sf)" using st by simp_all
  obtain r st1 where fo: "(case fn of FSym s \<Rightarrow> tryFastOpcode H s ?n ?sf | _ \<Rightarrow> (None, ?sf)) = (r, st1)" by fastforce
  have fast: "compiled H w 0 ?sf st1" "\<And>oc. r = Some oc \<Longrightarrow> 1 \<le> ?n"
    "\<And>oc P m code a d S. r = Some oc \<Longrightarrow> int ?n \<le> d \<Longrightarrow> succs P m code a oc d S = Some [(a + 1, d - (int ?n - 1), S)]"
  proof (atomize (full), cases "\<exists>s. fn = FSym s")
    case True
    then obtain s where t: "tryFastOpcode H s ?n ?sf = (r, st1)" using fo by auto
    show "compiled H w 0 ?sf st1 \<and> (\<forall>oc. r = Some oc \<longrightarrow> 1 \<le> ?n) \<and>
        (\<forall>oc P m code a d S. r = Some oc \<longrightarrow> int ?n \<le> d \<longrightarrow> succs P m code a oc d S = Some [(a + 1, d - (int ?n - 1), S)])"
      using tryFastOpcode_ok[OF okf t] by blast
  next
    case False
    then have "r = None" "st1 = ?sf" using fo by (cases fn; simp)+
    then show "compiled H w 0 ?sf st1 \<and> (\<forall>oc. r = Some oc \<longrightarrow> 1 \<le> ?n) \<and>
        (\<forall>oc P m code a d S. r = Some oc \<longrightarrow> int ?n \<le> d \<longrightarrow> succs P m code a oc d S = Some [(a + 1, d - (int ?n - 1), S)])"
      using compiled_refl[OF okf] by simp
  qed
  have ok1: "st_ok st1" and t1: "\<not> cx_tail (cs_cur st1)" using compiled_ok[OF fast(1)] compiled_tail_eq[OF fast(1)] tf by simp_all
  have l1: "level ?sf st1" using compiled_spMax[OF fast(1)] compiled_sp[OF fast(1)] by (simp add: level_def)
  show ?thesis
  proof (cases r)
    case (Some oc)
    then obtain st2 where a: "compileAll cf args st1 = Ok st2"
      and e: "st' = upd_cur (setTail ?tp) (upd_cur (decSP (int ?n - 1) \<circ> emit oc) st2)"
      using c fo by (auto simp: compileCall_def Let_def obind_Ok)
    have 2: "compiled H w (int ?n) ?sf st2"
      using compiled_seq[OF fast(1) compileAll_ok[OF h a f(2) ok1 t1]] by simp
    have n: "1 \<le> int ?n" using fast(2)[OF Some] by simp
    have "compiled H w (int ?n - (int ?n - 1)) ?sf (upd_cur (decSP (int ?n - 1) \<circ> emit oc) st2)"
      by (rule compiled_op[OF 2 okf]) (use n fast(3)[OF Some] sp_nonneg[OF okf] in auto)
    then have 3: "compiled H w 1 ?sf (upd_cur (decSP (int ?n - 1) \<circ> emit oc) st2)" by simp
    have "compiled H w 1 st st'" unfolding e by (rule compiled_tail[OF 3 st refl])
    moreover have "level st st'"
      using l1 compileAll_level[OF h a f(2) ok1 t1] n by (auto simp: level_def e ctx_simps)
    ultimately show ?thesis by blast
  next
    case None
    let ?oc = "\<lambda>st3. if ?tp \<and> cx_recurs (cs_cur st3) = [] then OP_TAIL_CALL else OP_INVOKE"
    obtain st2 st3 where a: "cf fn st1 = Ok st2" "compileAll cf args st2 = Ok st3"
      and e: "st' = upd_cur (setTail ?tp) (upd_cur (decSP (int ?n) \<circ> emitWithArg (?oc st3) (int ?n)) st3)"
      using c fo None by (auto simp: compileCall_def Let_def obind_Ok)
    have 2: "compiled H w 1 st1 st2" by (rule sub[OF h a(1) f(1) ok1])
    have ok2: "st_ok st2" and t2: "\<not> cx_tail (cs_cur st2)" using compiled_ok[OF 2] compiled_tail_eq[OF 2] t1 by simp_all
    have 3: "compiled H w (1 + int ?n) ?sf st3"
      using compiled_seq[OF compiled_seq[OF fast(1) 2] compileAll_ok[OF h a(2) f(2) ok2 t2]] tf by simp
    have "level st1 st2" by (rule loud[OF h a(1) f(1) ok1]) (use t1 in simp)
    then have "level st st'"
      using l1 compileAll_level[OF h a(2) f(2) ok2 t2] by (auto simp: level_def e ctx_simps)
    moreover have "compiled H w 1 st st'"
    proof (cases "?tp \<and> cx_recurs (cs_cur st3) = []")
      case True
      have rec: "cx_recurs (cs_cur st) = []" using 3 True by (simp add: compiled_def same_ctx_def setTail_def)
      let ?st3 = "upd_cur (setTail ?tp) st3"
      have 4: "compiled H w (1 + int ?n) st ?st3" by (rule compiled_tail[OF 3 st refl])
      have "compiled H w (1 + int ?n - int ?n) st (upd_cur (decSP (int ?n) \<circ> emitWithArg OP_TAIL_CALL (int ?n)) ?st3)"
      proof (rule compiled_op1[OF 4 st])
        show "small (upd_cur (decSP (int ?n) \<circ> emitWithArg OP_TAIL_CALL (int ?n)) ?st3) \<Longrightarrow> int ?n < lim"
          using depth_address[OF 4 st] by (simp add: small_def ctx_simps)
      qed (use True rec sp_nonneg[OF st] in \<open>simp_all add: enters_def\<close>)
      then show ?thesis using True by (simp add: e setTail_commute)
    next
      case False
      from compiled_invoke[OF 3 okf, of ?n] have "compiled H w 1 ?sf (upd_cur (decSP (int ?n) \<circ> emitWithArg OP_INVOKE (int ?n)) st3)" by simp
      then show ?thesis unfolding e if_not_P[OF False] by (rule compiled_tail[OF _ st refl])
    qed
    ultimately show ?thesis by blast
  qed
qed

lemma compileMacroOrCall_ok:
  assumes h: "chost_ok H w" and c: "compileMacroOrCall H cf s args st = Ok st'"
    and f: "form_ok w (FList (FSym s # args))" and st: "st_ok st"
  shows "compiled H w 1 st st' \<and> level st st'"
proof -
  have call: ?thesis if "compileCall H cf (FSym s) args st = Ok st'"
    by (rule compileCall_ok[OF h that _ _ st]) (use f in simp_all)
  have "?thesis" if x: "expandMacro H cf v (FList (FSym s # args)) args st = Ok st'" for v
  proof -
    obtain g e where g: "ch_expand H v (FList (FSym s # args)) args (cs_env st) = (Some g, e)" "cf g (st\<lparr>cs_env := e\<rparr>) = Ok st'"
      using x by (auto simp: expandMacro_def split: prod.splits option.splits)
    have ok: "form_ok w g \<and> \<not> silent g" by (rule chost_expand[OF h f, of v args "cs_env st"]) (simp add: g(1))
    then show ?thesis using sub[OF h g(2)] loud[OF h g(2)] st by (simp add: level_def)
  qed
  then show ?thesis using c call unfolding compileMacroOrCall_def by (auto split: option.splits if_splits)
qed

lemma compilePlainSymbolCall_ok:
  assumes h: "chost_ok H w" and c: "compilePlainSymbolCall H cf s args st = Ok st'"
    and f: "form_ok w (FList (FSym s # args))" and st: "st_ok st"
  shows "compiled H w 1 st st' \<and> level st st'"
proof (cases "ch_uncheckedMath H (cs_env st)")
  case False
  then show ?thesis using c compileMacroOrCall_ok[OF h _ f st] by (simp add: compilePlainSymbolCall_def)
next
  case True
  obtain r st1 where ra: "resolveCoreArith H s st = (r, st1)" by fastforce
  have 1: "compiled H w 0 st st1" by (rule resolveCoreArith_ok[OF st ra])
  have l1: "level st1 st' \<Longrightarrow> level st st'" using compiled_spMax[OF 1] compiled_sp[OF 1] by (auto simp: level_def)
  have next_ok: "compiled H w 1 st st' \<and> level st st'" if "compiled H w 1 st1 st' \<and> level st1 st'"
    using that l1 compiled_seq[OF 1, of 1 st'] by simp
  have m: "compiled H w 1 st1 st' \<and> level st1 st'" if "compileMacroOrCall H cf s args st1 = Ok st'"
    by (rule compileMacroOrCall_ok[OF h that f compiled_ok[OF 1]])
  show ?thesis
  proof (cases "\<exists>base g. r = Some base \<and> rewriteUncheckedArith base args = Some g")
    case True
    then obtain base g where g: "r = Some base" "rewriteUncheckedArith base args = Some g" by blast
    have gok: "form_ok w g \<and> \<not> silent g" by (rule rewriteUncheckedArith_ok[OF g(2)]) (use f in simp)
    have "cf g st1 = Ok st'" using c ra g \<open>ch_uncheckedMath H (cs_env st)\<close> by (simp add: compilePlainSymbolCall_def)
    then show ?thesis using next_ok sub[OF h _ _ compiled_ok[OF 1]] loud[OF h _ _ compiled_ok[OF 1]] gok by blast
  next
    case False
    then have "compileMacroOrCall H cf s args st1 = Ok st'"
      using c ra \<open>ch_uncheckedMath H (cs_env st)\<close> by (auto simp: compilePlainSymbolCall_def split: option.splits)
    then show ?thesis using next_ok m by blast
  qed
qed

text \<open>Literals.\<close>

lemma aggregate_call:
  assumes h: "chost_ok H w" and f: "\<forall>f\<in>set elems. form_ok w f" and st: "st_ok st" "\<not> cx_tail (cs_cur st)"
    and r: "compiled H w j st st1" and j: "0 \<le> j"
    and c: "compileAll cf elems (loadConstant (coreConst H ctor st1) st1) = Ok st2"
  shows "compiled H w (j + 1) st (upd_cur (decSP (int (length elems)) \<circ> emitWithArg OP_INVOKE (int (length elems))) st2)"
    and "cx_spMax (cs_cur (loadConstant (coreConst H ctor st1) st1)) \<le> cx_spMax (cs_cur st2)"
proof -
  let ?l = "loadConstant (coreConst H ctor st1) st1"
  have 1: "compiled H w (j + 1) st ?l" by (rule compiled_const[OF r st(1) j val_ok_coreConst])
  have t: "\<not> cx_tail (cs_cur ?l)" using compiled_tail_eq[OF 1] st by simp
  have 2: "compiled H w (int (length elems)) ?l st2" by (rule compileAll_ok[OF h c f compiled_ok[OF 1] t])
  then show "cx_spMax (cs_cur ?l) \<le> cx_spMax (cs_cur st2)" by (rule compiled_spMax)
  from compiled_seq[OF 1 2] st have "compiled H w (j + 1 + int (length elems)) st st2" by simp
  from compiled_invoke[OF this st(1), of "length elems"] j
  show "compiled H w (j + 1) st (upd_cur (decSP (int (length elems)) \<circ> emitWithArg OP_INVOKE (int (length elems))) st2)" by simp
qed

lemma compileAggregate_ok:
  assumes h: "chost_ok H w" and c: "compileAggregate H cf ctor whole meta elems st = Ok st'"
    and f: "form_ok w whole" "\<forall>f\<in>set elems. form_ok w f" "\<And>m. meta = Some m \<Longrightarrow> form_ok w m" and st: "st_ok st"
  shows "compiled H w 1 st st' \<and> level st st'"
proof -
  let ?tp = "cx_tail (cs_cur st)" and ?sf = "upd_cur (setTail False) st" and ?n = "length elems"
  let ?call = "\<lambda>s. upd_cur (decSP (int ?n) \<circ> emitWithArg OP_INVOKE (int ?n)) s"
  let ?ctor = "\<lambda>s. loadConstant (coreConst H ctor s) s"
  have ok: "st_ok ?sf" "\<not> cx_tail (cs_cur ?sf)" using st by simp_all
  have finish: "compiled H w 1 st st' \<and> level st st'"
    if "st' = upd_cur (setTail ?tp) s" "compiled H w 1 ?sf s" "cx_sp (cs_cur st) + 1 \<le> cx_spMax (cs_cur s)" for s
    using compiled_tail[OF that(2) st refl] compiled_sp[OF that(2)] that(1,3) by (simp add: level_def setTail_def)
  show ?thesis
  proof (cases "isConstantLiteral H whole")
    case True
    then have "st' = upd_cur (setTail ?tp) (loadConstant (const_of H whole) ?sf)" using c by (simp add: compileAggregate_def Let_def)
    from finish[OF this loadConstant_ok[OF ok(1) val_ok_const_of[OF f(1)]]] show ?thesis
      using load_depth[of "const_of H whole" ?sf] by (simp add: setTail_def)
  next
    case lit: False
    show ?thesis
    proof (cases meta)
      case None
      then obtain s2 where a: "compileAll cf elems (?ctor ?sf) = Ok s2" and e: "st' = upd_cur (setTail ?tp) (?call s2)"
        using c lit by (auto simp: compileAggregate_def Let_def obind_Ok)
      note ag = aggregate_call[OF h f(2) ok compiled_refl[OF ok(1)] order.refl a]
      from finish[OF e] ag load_depth[of "coreConst H ctor ?sf" ?sf] show ?thesis by (simp add: ctx_simps)
    next
      case (Some m)
      let ?l = "loadConstant (coreConst H ''with-meta'' ?sf) ?sf"
      obtain s2 s3 where a: "compileAll cf elems (?ctor ?l) = Ok s2" and b: "cf (quoteTagHint m) (?call s2) = Ok s3"
        and e: "st' = upd_cur (setTail ?tp) (upd_cur (decSP 2 \<circ> emitWithArg OP_INVOKE 2) s3)"
        using c lit Some by (auto simp: compileAggregate_def Let_def obind_Ok)
      have l: "compiled H w 1 ?sf ?l" by (rule loadConstant_ok[OF ok(1) val_ok_coreConst])
      note ag = aggregate_call[OF h f(2) ok l _ a]
      have 2: "compiled H w 2 ?sf (?call s2)" using ag(1) by simp
      have 3: "compiled H w 1 (?call s2) s3"
        by (rule sub[OF h b quoteTagHint_ok[OF f(3)[OF Some]] compiled_ok[OF 2]])
      from compiled_seq[OF 2 3] have "compiled H w 3 ?sf s3" using ok by simp
      from compiled_invoke[OF this ok(1), of 2] have 4: "compiled H w 1 ?sf (upd_cur (decSP 2 \<circ> emitWithArg OP_INVOKE 2) s3)" by simp
      have "cx_sp (cs_cur st) + 1 \<le> cx_spMax (cs_cur s3)"
        using load_depth[of "coreConst H ctor ?l" ?l] load_depth(1)[of "coreConst H ''with-meta'' ?sf" ?sf] ag(2) compiled_spMax[OF 3]
        by (simp add: ctx_simps)
      with finish[OF e 4] show ?thesis by (simp add: ctx_simps)
    qed
  qed
qed

lemma compileSymbolHead_ok:
  assumes h: "chost_ok H w" and c: "compileSymbolHead H cf s args st = Ok st'"
    and f: "form_ok w (FList (FSym s # args))" and st: "st_ok st"
  shows "compiled H w 1 st st' \<and> (\<not> cx_tail (cs_cur st) \<or> \<not> silent (FList (FSym s # args)) \<longrightarrow> level st st')"
proof -
  have a: "\<forall>f\<in>set args. form_ok w f" using f by simp
  show ?thesis
  proof (cases "s \<in> {''if'', ''do'', ''def'', ''set!'', ''fn*'', ''quote'', ''var'', ''let*'', ''loop*'', ''recur'', ''try''}")
    case special: True
    then have "s = ''if'' \<or> s = ''do'' \<or> s = ''def'' \<or> s = ''set!'' \<or> s = ''fn*'' \<or> s = ''quote'' \<or> s = ''var'' \<or> s = ''let*'' \<or> s = ''loop*'' \<or> s = ''recur'' \<or> s = ''try''"
      by (simp only: insert_iff empty_iff simp_thms)
    then show ?thesis
    proof (elim disjE)
      assume 1: "s = ''if''"
      then show ?thesis using ifCompiler_ok[OF h _ a st] c by (simp add: compileSymbolHead_def)
    next
      assume 2: "s = ''do''"
      then have "doCompiler H cf args st = Ok st'" using c by (simp add: compileSymbolHead_def)
      from doCompiler_ok[OF h this a st] doCompiler_level[OF h this a st] show ?thesis using 2 by auto
    next
      assume 3: "s = ''def''"
      then show ?thesis using defCompiler_ok[OF h _ a st] c by (simp add: compileSymbolHead_def)
    next
      assume 4: "s = ''set!''"
      then have "setBangCompiler H cf args st = Ok st'" using c by (simp add: compileSymbolHead_def)
      from setBangCompiler_ok[OF h this a st] setBangCompiler_level[OF h this a st] show ?thesis by blast
    next
      assume 5: "s = ''fn*''"
      then have "fnCompiler H cf args st = Ok st'" using c by (simp add: compileSymbolHead_def)
      from fnCompiler_ok[OF h this _ st] fnCompiler_level[OF this] show ?thesis using f 5 by blast
    next
      assume 6: "s = ''quote''"
      then have q: "quoteCompiler H args st = Ok st'" using c by (simp add: compileSymbolHead_def)
      then have "level st st'" by (auto simp: quoteCompiler_def intro: level_load)
      with quoteCompiler_ok[OF q a st] show ?thesis by blast
    next
      assume 7: "s = ''var''"
      then have q: "varCompiler H args st = Ok st'" using c by (simp add: compileSymbolHead_def)
      then have "level st st'"
        by (auto simp: varCompiler_def intro: level_load split: list.splits form.splits option.splits)
      with varCompiler_ok[OF q st] show ?thesis by blast
    next
      assume 8: "s = ''let*''"
      then have l: "letCompiler cf args st = Ok st'" using c by (simp add: compileSymbolHead_def)
      then obtain m binds body where args: "args = FVec m binds # body" by (auto simp: letCompiler_def split: list.splits form.splits)
      have fs: "\<forall>f\<in>set binds \<union> set body. form_ok w f" using a args by auto
      from letCompiler_ok[OF h l[unfolded args] fs st] letCompiler_level[OF h l[unfolded args] fs st] show ?thesis
        unfolding 8 args by blast
    next
      assume 9: "s = ''loop*''"
      then have l: "loopCompiler cf args st = Ok st'" using c by (simp add: compileSymbolHead_def)
      then obtain m binds body where args: "args = FVec m binds # body" by (auto simp: loopCompiler_def split: list.splits form.splits)
      have fs: "\<forall>f\<in>set binds \<union> set body. form_ok w f" using a args by auto
      from loopCompiler_ok[OF h l[unfolded args] fs st] loopCompiler_level[OF h l[unfolded args] f[unfolded 9 args] st] show ?thesis
        by blast
    next
      assume 10: "s = ''recur''"
      then have r: "recurCompiler cf args st = Ok st'" using c by (simp add: compileSymbolHead_def)
      from recurCompiler_ok[OF h r a st] recurCompiler_level[OF h r a st] show ?thesis using 10 by auto
    next
      assume 11: "s = ''try''"
      then have "tryCompiler H cf args st = Ok st'" using c by (simp add: compileSymbolHead_def)
      from tryCompiler_ok[OF h this f[unfolded 11] st] show ?thesis unfolding 11 .
    qed
  next
    case other: False
    have cf_ok: "compiled H w 1 st st' \<and> level st st'" if "cf g st = Ok st'" "form_ok w g \<and> \<not> silent g" for g
      using sub[OF h that(1) _ st] loud[OF h that(1) _ st] that(2) by blast
    have ne: "s \<noteq> ''if'' \<and> s \<noteq> ''do'' \<and> s \<noteq> ''def'' \<and> s \<noteq> ''set!'' \<and> s \<noteq> ''fn*'' \<and> s \<noteq> ''quote'' \<and> s \<noteq> ''var'' \<and> s \<noteq> ''let*'' \<and> s \<noteq> ''loop*'' \<and> s \<noteq> ''recur'' \<and> s \<noteq> ''try''"
      using other by (simp only: insert_iff empty_iff de_Morgan_disj simp_thms)
    have c': "(case ctorShorthand s of
          Some ctor \<Rightarrow> cf (FList (FSym ctor # args)) st
        | None \<Rightarrow> (case memberCall s of
            Some member \<Rightarrow> (case args of
                [] \<Rightarrow> Err (CompileError ''Malformed member expression'')
              | obj # rest \<Rightarrow> cf (FList (FSym ''.'' # obj # FList [FSym ''quote'', FSym member] # rest)) st)
          | None \<Rightarrow> (case (if s = ''.'' then normalizeDotForm (FSym s # args) else None) of
              Some f \<Rightarrow> cf f st
            | None \<Rightarrow> compilePlainSymbolCall H cf s args st))) = Ok st'"
      using c by (simp only: compileSymbolHead_def ne if_False)
    show ?thesis
    proof (cases "ctorShorthand s")
      case (Some ctor)
      then show ?thesis using c' cf_ok ctorShorthand_ok[OF Some a] by simp
    next
      case ctor: None
      show ?thesis
      proof (cases "memberCall s")
        case (Some member)
        then obtain obj rest where args: "args = obj # rest" using c' ctor by (cases args) auto
        have "form_ok w (FList (FSym ''.'' # obj # FList [FSym ''quote'', FSym member] # rest)) \<and>
            \<not> silent (FList (FSym ''.'' # obj # FList [FSym ''quote'', FSym member] # rest))"
          by (rule call_form_ok) (use a args in \<open>simp_all add: special_ok_def\<close>)
        with cf_ok show ?thesis using c' ctor Some args by simp
      next
        case mem: None
        show ?thesis
        proof (cases "if s = ''.'' then normalizeDotForm (FSym s # args) else None")
          case (Some g)
          then have "normalizeDotForm (FSym s # args) = Some g" by (simp split: if_splits)
          from normalizeDotForm_ok[OF this a] cf_ok show ?thesis using c' ctor mem Some by simp
        next
          case None
          then show ?thesis using c' ctor mem compilePlainSymbolCall_ok[OF h _ f st] by simp
        qed
      qed
    qed
  qed
qed

text \<open>Every form.\<close>

lemma compileStep_ok:
  assumes h: "chost_ok H w" and c: "compileStep H cf f st = Ok st'" and f: "form_ok w f" and st: "st_ok st"
  shows "compiled H w 1 st st' \<and> (\<not> cx_tail (cs_cur st) \<or> \<not> silent f \<longrightarrow> level st st')"
proof (cases f)
  case (FVal v)
  then have "st' = loadConstant v st" using c by (auto simp: compileStep_def split: if_splits)
  with f FVal show ?thesis by (simp add: loadConstant_ok[OF st] level_load)
next
  case (FSym s)
  then show ?thesis using compileSymbol_ok[OF h _ st] c by (simp add: compileStep_def)
next
  case (FVec m fs)
  have "compiled H w 1 st st' \<and> level st st'"
    by (rule compileAggregate_ok[OF h _ f _ _ st, of "''vector''" m "fs"])
      (use c f FVec in \<open>auto simp: compileStep_def split: option.splits\<close>)
  then show ?thesis by blast
next
  case (FMap m kvs)
  have "compiled H w 1 st st' \<and> level st st'"
    by (rule compileAggregate_ok[OF h _ f _ _ st, of "''array-map''" m "concat (map (\<lambda>(k, v). [k, v]) kvs)"])
      (use c f FMap in \<open>auto simp: compileStep_def split: option.splits\<close>)
  then show ?thesis by blast
next
  case (FSet m fs)
  have "compiled H w 1 st st' \<and> level st st'"
    by (rule compileAggregate_ok[OF h _ f _ _ st, of "''hash-set''" m "fs"])
      (use c f FSet in \<open>auto simp: compileStep_def split: option.splits\<close>)
  then show ?thesis by blast
next
  case (FList fs)
  show ?thesis
  proof (cases fs)
    case Nil
    then have "st' = loadConstant (Prim VEmptyList) st" using c FList by (simp add: compileStep_def)
    then show ?thesis by (simp add: loadConstant_ok[OF st] level_load)
  next
    case (Cons fn args)
    show ?thesis
    proof (cases "\<exists>s. fn = FSym s")
      case True
      then show ?thesis using compileSymbolHead_ok[OF h _ _ st] c f FList Cons by (auto simp: compileStep_def)
    next
      case False
      then have "compileCall H cf fn args st = Ok st'" using c FList Cons by (cases fn) (simp_all add: compileStep_def)
      moreover have "form_ok w fn" "\<forall>f\<in>set args. form_ok w f" using f FList Cons by simp_all
      ultimately show ?thesis using compileCall_ok[OF h _ _ _ st] by blast
    qed
  qed
qed

end

section \<open>Every form, with any fuel\<close>

lemma subcompiler_step:
  fixes H :: "'e chost"
  assumes cf: "subcompiler H w cf"
  shows "subcompiler H w (compileStep H cf)"
proof (rule subcompiler.intro)
  fix f :: form and st st' :: "'e cstate"
  assume *: "chost_ok H w" "compileStep H cf f st = Ok st'" "form_ok w f" "st_ok st"
  note ok = subcompiler.compileStep_ok[OF cf *]
  show "compiled H w 1 st st'" using ok by blast
  show "level st st'" if "\<not> cx_tail (cs_cur st) \<or> \<not> silent f" using ok that by blast
qed

interpretation cform: subcompiler H w "compileForm H n" for H :: "'e chost" and w :: "'h world" and n
proof (induction n)
  case 0
  show ?case by (rule subcompiler.intro) simp_all
next
  case (Suc n)
  have "compileForm H (Suc n) = compileStep H (compileForm H n)" by (rule ext)+ simp
  then show ?case using subcompiler_step[OF Suc] by simp
qed

section \<open>A top-level form\<close>

lemma with_pool_same [simp]: "w_pools (with_pool H w P) (ch_pool H) = P"
  by (simp add: with_pool_def)

lemma compiled_chunk:
  assumes h: "chost_ok H w" and f: "form_ok w f" and c: "Compile H n f st = Ok (k, st')"
    and st: "st_ok st" "cx_recurs (cs_cur st) = []" "cs_outer st = []" "cx_locals (cs_cur st) = []"
    and p: "pool_good H w (cs_pool st)" and s: "small st'"
  shows "\<exists>tab. check_chunk (cs_pool st') (int (cx_argCount (cs_cur st))) k tab"
    and "pool_good H w (cs_pool st')" and "ck_consts k = ch_pool H"
proof -
  let ?st = "upd_cur (\<lambda>c. c\<lparr>cx_code := [], cx_sp := 0, cx_spMax := 0\<rparr>) st"
  obtain st1 where c1: "compileForm H n f ?st = Ok st1"
    and e: "st' = upd_cur (decSP 1 \<circ> emit OP_RETURN) st1" and k: "k = chunk_of H (cs_cur st')"
    using c by (auto simp: Compile_def obind_Ok Let_def)
  have ok: "st_ok ?st" using st by (simp add: ctx_ok_def currentAddress_def)
  have b: "compiled H w 1 ?st st1" by (rule cform.sub[OF h c1 f ok])
  have s1: "small st1" using s by (auto simp: small_def e ctx_simps)
  have P: "cs_pool st' = cs_pool st1" by (simp add: e)
  have "\<exists>tab. check_chunk (cs_pool st1) (int (cx_argCount (cs_cur ?st))) k tab"
    by (rule code_typed[OF b s1]) (use p in \<open>simp_all add: k e chunk_of_def ctx_simps decSP_def emit_def st\<close>)
  then show "\<exists>tab. check_chunk (cs_pool st') (int (cx_argCount (cs_cur st))) k tab" using P by simp
  show "pool_good H w (cs_pool st')" using b s1 p P by (simp add: compiled_def ran_def yields_def)
  show "ck_consts k = ch_pool H" by (simp add: k chunk_of_def)
qed

end
