(* ===== verification/LG_Eval.thy ===== *)
theory LG_Eval
  imports LG_Compiler
begin

text \<open>
  What top-level forms mean: an evaluator of forms as they are read, without code, stack or
  handlers. It is the specification that compiled code is measured against.

  A form is evaluated in an environment of its local names and in a world. The answer is a value,
  the arguments of a \<open>recur\<close>, an error that a \<open>try\<close> may take, or one that passes every \<open>try\<close>;
  \<open>None\<close> stands for no answer within the fuel, a Go panic, and the forms left out: \<open>def\<close>,
  \<open>fn*\<close>, macro calls, literals with metadata, and a bare \<open>try\<close> without body. Functions that are called
  are run by the interpreter, as far as they are bytecode.
\<close>

section \<open>Answers\<close>

datatype answer = Val vv | Again "vv list" | Raised vm_err | Failed vm_err

type_synonym 'h eval = "(answer \<times> 'h world) option"
type_synonym 'h sem = "(string \<Rightarrow> vv option) \<Rightarrow> 'h world \<Rightarrow> 'h eval"
type_synonym 'h evaluator = "form \<Rightarrow> 'h sem"

definition thenV :: "'h eval \<Rightarrow> (vv \<Rightarrow> 'h world \<Rightarrow> 'h eval) \<Rightarrow> 'h eval" where
  "thenV r k = (case r of Some (Val v, w) \<Rightarrow> k v w | _ \<Rightarrow> r)"

definition answer_of :: "(vm_err, vv) outcome \<Rightarrow> 'h world \<Rightarrow> 'h eval" where
  "answer_of r w = (case r of Ok v \<Rightarrow> Some (Val v, w) | Err x \<Rightarrow> Some (Raised x, w) | Panic \<Rightarrow> None)"

text \<open>The names the compiler makes up contain a tab, which the reader never puts into a symbol.\<close>

definition plain_name :: "string \<Rightarrow> bool" where
  "plain_name s \<longleftrightarrow> CHR 0x09 \<notin> set s"

text \<open>Equal constants share a place in the pool, and the first stands for both; that is no difference
  but for a \<open>Float32\<close>, which shares with a \<open>Float\<close>, and for native functions, which are told apart by
  identity alone.\<close>

fun plain_const :: "vv \<Rightarrow> bool" where
  "plain_const (Prim (VFloat32 x)) \<longleftrightarrow> False"
| "plain_const (NativeV i n a v) \<longleftrightarrow> False"
| "plain_const v \<longleftrightarrow> True"

definition constant_answer :: "vv \<Rightarrow> 'h world \<Rightarrow> 'h eval" where
  "constant_answer v w = (if plain_const v then Some (Val v, w) else None)"

section \<open>Names\<close>

definition resolveGlobal :: "'e chost \<Rightarrow> 'e \<Rightarrow> string \<Rightarrow> nat option" where
  "resolveGlobal H e s = (case ch_lookup H e s of
     Some v \<Rightarrow> Some v
   | None \<Rightarrow> (case splitNamespaced s of
       Some (sns, name) \<Rightarrow> if sns = ''core'' then ch_core H e name else None
     | None \<Rightarrow> None))"

definition evSymbol :: "'e chost \<Rightarrow> 'e \<Rightarrow> ec \<Rightarrow> string \<Rightarrow> 'h sem" where
  "evSymbol H e ec s env w =
     (if \<not> plain_name s then None
      else (case (if splitNamespaced s = None then env s else None) of
          Some v \<Rightarrow> Some (Val v, w)
        | None \<Rightarrow> (case resolveGlobal H e s of
            Some x \<Rightarrow> Some (Val (deref ec x (w_dyn w)), w)
          | None \<Rightarrow> (case ch_hostClass H s of Some v \<Rightarrow> constant_answer v w | None \<Rightarrow> None))))"

text \<open>The core function that a call by this name reaches, when it is one the compiler has an opcode for.\<close>

definition coreName :: "'e chost \<Rightarrow> 'e \<Rightarrow> (string \<Rightarrow> vv option) \<Rightarrow> string \<Rightarrow> string option" where
  "coreName H e env s = (case splitNamespaced s of
     Some (sns, name) \<Rightarrow> (if ch_core H e name \<noteq> None \<and> resolveGlobal H e s = ch_core H e name then Some name else None)
   | None \<Rightarrow> (if env s = None \<and> ch_core H e s \<noteq> None \<and> ch_lookup H e s = ch_core H e s then Some s else None))"

definition primitive :: "string \<Rightarrow> nat \<Rightarrow> opcode option" where
  "primitive name argc = (if argc = 3 then map_of fastOps3 name else if argc = 2 then map_of fastOps2 name
     else if argc = 1 then map_of fastOps1 name else None)"

section \<open>Calls\<close>

definition applyPrimitive :: "'h host \<Rightarrow> opcode \<Rightarrow> vv list \<Rightarrow> 'h world \<Rightarrow> 'h eval" where
  "applyPrimitive VH oc vs w = (case vs of
     [a] \<Rightarrow> (case unary_op oc of Some g \<Rightarrow> answer_of (g a) w | None \<Rightarrow> None)
   | [a, b] \<Rightarrow> (case binary_op VH w oc of Some g \<Rightarrow> answer_of (g a b) w | None \<Rightarrow> None)
   | [a, b, c] \<Rightarrow> (if oc = OP_ASET then (case ho_aset VH a b c w of
         (Ok _, w1) \<Rightarrow> Some (Val c, w1) | (Err x, w1) \<Rightarrow> Some (Raised x, w1) | (Panic, w1) \<Rightarrow> None) else None)
   | _ \<Rightarrow> None)"

text \<open>A function written in let-go runs alone on its arguments; what it raises is wrapped with its name.\<close>

definition callFunction :: "'h host \<Rightarrow> nat \<Rightarrow> ec \<Rightarrow> vv \<Rightarrow> vv list \<Rightarrow> 'h world \<Rightarrow> 'h eval" where
  "callFunction VH n ec fn args w =
     (if \<not> AsFn VH w fn then Some (Failed (TypeError fn ''is not a function''), w)
      else (case resolveBytecodeCall VH w fn args of
          Panic \<Rightarrow> None
        | Err x \<Rightarrow> Some (Raised (wrapCallErr fn x), w)
        | Ok None \<Rightarrow> (case ec_Invoke VH ec args w fn of
              (Ok v, w1) \<Rightarrow> Some (Val v, w1) | (Err x, w1) \<Rightarrow> Some (Raised (wrapCallErr fn x), w1) | (Panic, w1) \<Rightarrow> None)
        | Ok (Some t) \<Rightarrow> (case run VH n (Running (newFrameForBytecodeCall w t ec) [] w) of
              Halted (Ok v) w1 \<Rightarrow> Some (Val v, w1) | Halted (Err x) w1 \<Rightarrow> Some (Raised (wrapCallErr fn x), w1) | _ \<Rightarrow> None)))"

text \<open>The values of the arguments, from left to right, go to the continuation.\<close>

fun evArgs :: "'h evaluator \<Rightarrow> form list \<Rightarrow> (string \<Rightarrow> vv option) \<Rightarrow> 'h world \<Rightarrow> (vv list \<Rightarrow> 'h world \<Rightarrow> 'h eval) \<Rightarrow> 'h eval" where
  "evArgs ev [] env w k = k [] w"
| "evArgs ev (f # fs) env w k = thenV (ev f env w) (\<lambda>v w1. evArgs ev fs env w1 (\<lambda>vs. k (v # vs)))"

definition evCall :: "'h host \<Rightarrow> nat \<Rightarrow> ec \<Rightarrow> 'h evaluator \<Rightarrow> form \<Rightarrow> form list \<Rightarrow> 'h sem" where
  "evCall VH n ec ev f args env w = thenV (ev f env w) (\<lambda>fn w1. evArgs ev args env w1 (callFunction VH n ec fn))"

definition evSymbolCall :: "'h host \<Rightarrow> 'e chost \<Rightarrow> 'e \<Rightarrow> nat \<Rightarrow> ec \<Rightarrow> 'h evaluator \<Rightarrow> string \<Rightarrow> form list \<Rightarrow> 'h sem" where
  "evSymbolCall VH H e n ec ev s args env w =
     (if \<not> plain_name s \<or> ch_uncheckedMath H e \<or> (env s = None \<and> (case ch_lookup H e s of Some v \<Rightarrow> ch_isMacro H e v | None \<Rightarrow> False)) then None
      else (case Option.bind (coreName H e env s) (\<lambda>name. primitive name (length args)) of
          Some oc \<Rightarrow> evArgs ev args env w (applyPrimitive VH oc)
        | None \<Rightarrow> evCall VH n ec ev (FSym s) args env w))"

definition evLiteral :: "'h host \<Rightarrow> 'e chost \<Rightarrow> 'e \<Rightarrow> nat \<Rightarrow> ec \<Rightarrow> 'h evaluator \<Rightarrow> string \<Rightarrow> form \<Rightarrow> form list \<Rightarrow> 'h sem" where
  "evLiteral VH H e n ec ev ctor whole elems env w =
     (if isConstantLiteral H whole then constant_answer (const_of H whole) w
      else evArgs ev elems env w (callFunction VH n ec (case ch_core H e ctor of Some v \<Rightarrow> VarV v | None \<Rightarrow> NIL)))"

section \<open>Special forms\<close>

fun evBody :: "'h evaluator \<Rightarrow> form list \<Rightarrow> 'h sem" where
  "evBody ev [] env w = Some (Val NIL, w)"
| "evBody ev [f] env w = ev f env w"
| "evBody ev (f # g # fs) env w = thenV (ev f env w) (\<lambda>v w1. evBody ev (g # fs) env w1)"

definition evIf :: "'h evaluator \<Rightarrow> form list \<Rightarrow> 'h sem" where
  "evIf ev args env w = (case args of
     [test, thn] \<Rightarrow> thenV (ev test env w) (\<lambda>v w1. if IsTruthy v then ev thn env w1 else Some (Val NIL, w1))
   | [test, thn, els] \<Rightarrow> thenV (ev test env w) (\<lambda>v w1. if IsTruthy v then ev thn env w1 else ev els env w1)
   | _ \<Rightarrow> None)"

text \<open>Bindings, each in the scope of the ones before it; the names and their values go on.\<close>

fun evBindings ::
    "'h evaluator \<Rightarrow> form list \<Rightarrow> (string \<Rightarrow> vv option) \<Rightarrow> 'h world \<Rightarrow> ((string \<times> vv) list \<Rightarrow> 'h world \<Rightarrow> 'h eval) \<Rightarrow> 'h eval" where
  "evBindings ev (b # x # bs) env w k = (case stripBindingMeta b of
     FSym s \<Rightarrow> if \<not> plain_name s then None
       else thenV (ev x env w) (\<lambda>v w1. evBindings ev bs (env(s \<mapsto> v)) w1 (\<lambda>bvs. k ((s, v) # bvs)))
   | _ \<Rightarrow> None)"
| "evBindings ev [] env w k = k [] w"
| "evBindings ev [b] env w k = None"

fun bind_all :: "(string \<Rightarrow> vv option) \<Rightarrow> (string \<times> vv) list \<Rightarrow> string \<Rightarrow> vv option" where
  "bind_all env [] = env"
| "bind_all env ((s, v) # bvs) = bind_all (env(s \<mapsto> v)) bvs"

definition evLet :: "'h evaluator \<Rightarrow> form list \<Rightarrow> 'h sem" where
  "evLet ev args env w = (case args of
     FVec m binds # body \<Rightarrow> evBindings ev binds env w (\<lambda>bvs. evBody ev body (bind_all env bvs))
   | _ \<Rightarrow> None)"

text \<open>The loop proper, on the body as a function of the values of the loop's names.\<close>

fun evLoop :: "nat \<Rightarrow> (vv list \<Rightarrow> 'h world \<Rightarrow> 'h eval) \<Rightarrow> vv list \<Rightarrow> 'h world \<Rightarrow> 'h eval" where
  "evLoop 0 body vs w = None"
| "evLoop (Suc n) body vs w = (case body vs w of
     Some (Again vs1, w1) \<Rightarrow> evLoop n body vs1 w1
   | r \<Rightarrow> r)"

definition evLoopForm :: "nat \<Rightarrow> 'h evaluator \<Rightarrow> form list \<Rightarrow> 'h sem" where
  "evLoopForm n ev args env w = (case args of
     FVec m binds # body \<Rightarrow> evBindings ev binds env w (\<lambda>bvs w1.
       evLoop n (\<lambda>vs. evBody ev body (bind_all env (zip (map fst bvs) vs))) (map snd bvs) w1)
   | _ \<Rightarrow> None)"

definition evSet :: "'h host \<Rightarrow> 'e chost \<Rightarrow> 'e \<Rightarrow> ec \<Rightarrow> 'h evaluator \<Rightarrow> form list \<Rightarrow> 'h sem" where
  "evSet VH H e ec ev args env w = (case args of
     [FSym s, x] \<Rightarrow> thenV (ev x env w) (\<lambda>val w1. (case ch_lookup H e s of
         None \<Rightarrow> Some (Failed (execErr ''SET_VAR invalid Var''), w1)
       | Some v \<Rightarrow> (let d = (case setBinding ec v val (w_dyn w1) of Some d' \<Rightarrow> d' | None \<Rightarrow> SetRoot (ho_same VH) v val (w_dyn w1)) in
           Some (Val (VarV v), w1\<lparr>w_dyn := armTraceIfTruthy v val d\<rparr>))))
   | _ \<Rightarrow> None)"

subsection \<open>Exceptions\<close>

text \<open>The clauses in source order; a class matches by the library's \<open>catch-matches?\<close>, and what
  matches nowhere is thrown again.\<close>

fun evClauses :: "'h evaluator \<Rightarrow> (string \<Rightarrow> vv list \<Rightarrow> 'h sem) \<Rightarrow> (string \<times> string \<times> form list) list \<Rightarrow> vv \<Rightarrow> 'h sem" where
  "evClauses ev call [] exn env w = call ''core/throw'' [exn] env w"
| "evClauses ev call ((class, b, body) # cls) exn env w =
     (if \<not> plain_name b then None
      else thenV (call ''core/catch-matches?'' [Prim (VSymbol (if class = '''' then ''Throwable'' else class)), exn] env w)
        (\<lambda>t w1. if IsTruthy t then evBody ev body (env(b \<mapsto> exn)) w1 else evClauses ev call cls exn env w1))"

definition afterFinally :: "'h eval \<Rightarrow> ('h world \<Rightarrow> 'h eval) \<Rightarrow> 'h eval" where
  "afterFinally r fin = (case r of
     Some (Val v, w) \<Rightarrow> thenV (fin w) (\<lambda>u w1. Some (Val v, w1))
   | Some (Raised x, w) \<Rightarrow> thenV (fin w) (\<lambda>u w1. Some (Raised x, w1))
   | _ \<Rightarrow> r)"

definition evTry :: "'e chost \<Rightarrow> 'h evaluator \<Rightarrow> (string \<Rightarrow> vv list \<Rightarrow> 'h sem) \<Rightarrow> form list \<Rightarrow> 'h sem" where
  "evTry H ev call args env w = (case parseTry H args \<lparr>tr_body = [], tr_clauses = [], tr_finally = []\<rparr> of
     Ok t \<Rightarrow>
       if tr_clauses t = [] \<and> tr_finally t = [] then (if tr_body t = [] then None else evBody ev (tr_body t) env w)
       else let r1 = evBody ev (tr_body t) env w;
           r2 = (case r1 of
             Some (Raised x, w1) \<Rightarrow> if tr_clauses t = [] then r1 else evClauses ev call (tr_clauses t) (errorToValue x) env w1
           | _ \<Rightarrow> r1) in
         if tr_finally t = [] then r2 else afterFinally r2 (evBody ev (tr_finally t) env)
   | _ \<Rightarrow> None)"

text \<open>A call of a global function by name on values that are there already.\<close>

definition callNamed :: "'h host \<Rightarrow> 'e chost \<Rightarrow> 'e \<Rightarrow> nat \<Rightarrow> ec \<Rightarrow> string \<Rightarrow> vv list \<Rightarrow> 'h sem" where
  "callNamed VH H e n ec s vs env w =
     evSymbolCall VH H e n ec (\<lambda>f env w. case f of FVal v \<Rightarrow> Some (Val v, w) | FSym s \<Rightarrow> evSymbol H e ec s env w | _ \<Rightarrow> None)
       s (map FVal vs) env w"

section \<open>Forms\<close>

definition evSymbolHead :: "'h host \<Rightarrow> 'e chost \<Rightarrow> 'e \<Rightarrow> nat \<Rightarrow> ec \<Rightarrow> 'h evaluator \<Rightarrow> string \<Rightarrow> form list \<Rightarrow> 'h sem" where
  "evSymbolHead VH H e n ec ev s args env w =
     (if s = ''if'' then evIf ev args env w
      else if s = ''do'' then evBody ev args env w
      else if s = ''def'' then None
      else if s = ''set!'' then evSet VH H e ec ev args env w
      else if s = ''fn*'' then None
      else if s = ''quote'' then constant_answer (case args of f # _ \<Rightarrow> const_of H f | [] \<Rightarrow> NIL) w
      else if s = ''var'' then (case args of
          FSym v # _ \<Rightarrow> (case ch_lookupPrivate H e v of Some x \<Rightarrow> Some (Val (VarV x), w) | None \<Rightarrow> None)
        | _ \<Rightarrow> None)
      else if s = ''let*'' then evLet ev args env w
      else if s = ''loop*'' then evLoopForm n ev args env w
      else if s = ''recur'' then evArgs ev args env w (\<lambda>vs w1. Some (Again vs, w1))
      else if s = ''try'' then evTry H ev (callNamed VH H e n ec) args env w
      else (case ctorShorthand s of
          Some ctor \<Rightarrow> ev (FList (FSym ctor # args)) env w
        | None \<Rightarrow> (case memberCall s of
            Some member \<Rightarrow> (case args of
                [] \<Rightarrow> None
              | obj # rest \<Rightarrow> ev (FList (FSym ''.'' # obj # FList [FSym ''quote'', FSym member] # rest)) env w)
          | None \<Rightarrow> (case (if s = ''.'' then normalizeDotForm (FSym s # args) else None) of
              Some f \<Rightarrow> ev f env w
            | None \<Rightarrow> evSymbolCall VH H e n ec ev s args env w))))"

definition evStep :: "'h host \<Rightarrow> 'e chost \<Rightarrow> 'e \<Rightarrow> nat \<Rightarrow> ec \<Rightarrow> 'h evaluator \<Rightarrow> 'h evaluator" where
  "evStep VH H e n ec ev f env w = (case f of
     FVal v \<Rightarrow> if self_evaluating H v \<or> v = Prim VEmptyList then constant_answer v w else None
   | FSym s \<Rightarrow> evSymbol H e ec s env w
   | FVec None fs \<Rightarrow> evLiteral VH H e n ec ev ''vector'' f fs env w
   | FMap None kvs \<Rightarrow> evLiteral VH H e n ec ev ''array-map'' f (concat (map (\<lambda>(k, v). [k, v]) kvs)) env w
   | FSet None fs \<Rightarrow> evLiteral VH H e n ec ev ''hash-set'' f fs env w
   | FList [] \<Rightarrow> constant_answer (Prim VEmptyList) w
   | FList (FSym s # args) \<Rightarrow> evSymbolHead VH H e n ec ev s args env w
   | FList (g # args) \<Rightarrow> evCall VH n ec ev g args env w
   | _ \<Rightarrow> None)"

fun evalForm :: "'h host \<Rightarrow> 'e chost \<Rightarrow> 'e \<Rightarrow> ec \<Rightarrow> nat \<Rightarrow> 'h evaluator" where
  "evalForm VH H e ec 0 f env w = None"
| "evalForm VH H e ec (Suc n) f env w = evStep VH H e (Suc n) ec (evalForm VH H e ec n) f env w"

end
