(* ===== verification/LG_CodeRun.thy ===== *)
theory LG_CodeRun
  imports LG_VMRun LG_ContractCode LG_Eval
begin

text \<open>
  Runs of code that is on its place in a frame: what a world keeps, how runs compose, what each
  instruction does to the operand stack.
\<close>

section \<open>Constant pools only grow\<close>

definition pools_grow :: "'h world \<Rightarrow> 'h world \<Rightarrow> bool" where
  "pools_grow w w' \<longleftrightarrow> (\<forall>p. extends (w_pools w p) (w_pools w' p))"

lemma pools_grow_refl [simp]: "w_pools w' = w_pools w \<Longrightarrow> pools_grow w w'"
  by (simp add: pools_grow_def)

lemma pools_grow_trans: "pools_grow a b \<Longrightarrow> pools_grow b c \<Longrightarrow> pools_grow a c"
  unfolding pools_grow_def using extends_trans by blast

definition host_pools :: "'h host \<Rightarrow> bool" where
  "host_pools VH \<longleftrightarrow> (\<forall>fn ec args w. pools_grow w (snd (ho_invoke VH fn ec args w))) \<and>
     (\<forall>a i v w. pools_grow w (snd (ho_aset VH a i v w)))"

lemma ec_Invoke_pools: "host_pools VH \<Longrightarrow> pools_grow w (snd (ec_Invoke VH ec args w fn))"
  by (induction VH ec args w fn rule: ec_Invoke.induct) (auto simp: host_pools_def split: sum.split)

fun res_world :: "'h res \<Rightarrow> 'h world" where
  "res_world (Next f w) = w"
| "res_world (Enter p c w) = w"
| "res_world (Return v f w) = w"
| "res_world (Raise f x w) = w"
| "res_world (Fail f x w) = w"

fun machine_world :: "'h machine \<Rightarrow> 'h world" where
  "machine_world (Running f ps w) = w"
| "machine_world (Halted r w) = w"

lemma release_world [simp]: "machine_world (releaseFailedFrames VH ps x w) = w"
  by (induction VH ps x w rule: releaseFailedFrames.induct) (auto split: option.split)

lemma raise_world [simp]: "machine_world (raise VH f ps x w) = w"
  by (auto simp: raise_def split: option.split)

lemma resume_world [simp]: "machine_world (resume VH f ps v w) = w"
  by (auto simp: resume_def split: outcome.split option.split)

lemma deliver_world: "machine_world (deliver VH ps w (Some r)) = res_world r"
  by (cases r) (auto split: list.split)

lemma MakeClosure_pools: "MakeClosure v w = Some (c, w') \<Longrightarrow> w_pools w' = w_pools w"
  by (induction v w rule: MakeClosure.induct) auto

lemmas op_defs = op_LOAD_CONST_def op_LOAD_ARG_def op_RETURN_def op_BRANCH_def op_JUMP_def op_POP_def op_POP_N_def
  op_DUP_NTH_def op_SET_VAR_def op_LOAD_VAR_def op_MAKE_CLOSURE_def op_LOAD_CLOSEDOVER_def op_PUSH_CLOSEDOVER_def
  op_MAKE_MULTI_ARITY_def op_RECUR_FN_def op_RECUR_def op_TRY_PUSH_def op_TRY_POP_def op_THROW_def op_FINALLY_END_def

definition keeps_pools :: "'h world \<Rightarrow> 'h res option \<Rightarrow> bool" where
  "keeps_pools w r \<longleftrightarrow> (\<forall>x. r = Some x \<longrightarrow> pools_grow w (res_world x))"

lemma keeps_simps [simp]: "keeps_pools w None" "keeps_pools w (Some x) = pools_grow w (res_world x)"
  by (simp_all add: keeps_pools_def)

lemma keeps_bind [intro!]: "(\<And>x. m = Some x \<Longrightarrow> keeps_pools w (k x)) \<Longrightarrow> keeps_pools w (Option.bind m k)"
  by (cases m) simp_all

lemma op_binary_pools: "keeps_pools w (op_binary g w f)"
  by (auto simp: op_binary_def split: outcome.split)

lemma op_unary_pools: "keeps_pools w (op_unary g w f)"
  by (auto simp: op_unary_def split: outcome.split)

lemma op_ASET_pools: "host_pools VH \<Longrightarrow> keeps_pools w (op_ASET VH w f)"
proof -
  assume h: "host_pools VH"
  have g: "ho_aset VH a i v w = (x, w') \<Longrightarrow> pools_grow w w'" for a i v x w'
    using h unfolding host_pools_def by (metis snd_conv)
  show ?thesis by (auto simp: op_ASET_def split: prod.split outcome.split dest!: g)
qed

lemma call_pools:
  assumes "host_pools VH"
  shows "keeps_pools w (op_INVOKE VH w f)" "keeps_pools w (op_TAIL_CALL VH w f)"
proof -
  have g: "ec_Invoke VH ec args w fn = (x, w') \<Longrightarrow> pools_grow w w'" for ec args fn x w'
    using ec_Invoke_pools[OF assms, of w ec args fn] by simp
  show "keeps_pools w (op_INVOKE VH w f)"
    unfolding op_INVOKE_def Let_def by (intro keeps_bind) (auto split: outcome.split option.split prod.split dest!: g)
  show "keeps_pools w (op_TAIL_CALL VH w f)"
    unfolding op_TAIL_CALL_def by (intro keeps_bind) (auto split: outcome.split option.split prod.split dest!: g)
qed

lemma op_pools:
  "keeps_pools w (op_LOAD_CONST w f)" "keeps_pools w (op_LOAD_ARG w f)" "keeps_pools w (op_RETURN w f)"
  "keeps_pools w (op_BRANCH b w f)" "keeps_pools w (op_JUMP w f)" "keeps_pools w (op_POP w f)" "keeps_pools w (op_POP_N w f)"
  "keeps_pools w (op_DUP_NTH w f)" "keeps_pools w (op_SET_VAR VH w f)" "keeps_pools w (op_LOAD_VAR w f)"
  "keeps_pools w (op_LOAD_CLOSEDOVER w f)" "keeps_pools w (op_MAKE_MULTI_ARITY VH w f)" "keeps_pools w (op_RECUR_FN w f)"
  "keeps_pools w (op_RECUR w f)" "keeps_pools w (op_TRY_PUSH w f)" "keeps_pools w (op_TRY_POP w f)"
  "keeps_pools w (op_THROW w f)" "keeps_pools w (op_FINALLY_END w f)"
  by (auto simp: op_defs Let_def split: option.split vv.split sum.split list.split)

lemma closure_pools: "keeps_pools w (op_MAKE_CLOSURE w f)" "keeps_pools w (op_PUSH_CLOSEDOVER VH w f)"
  by (auto simp: op_MAKE_CLOSURE_def op_PUSH_CLOSEDOVER_def Let_def split: option.split vv.split dest!: MakeClosure_pools)

lemma exec_op_pools: "host_pools VH \<Longrightarrow> keeps_pools w (exec_op VH oc w f)"
  using op_pools closure_pools call_pools[of VH w f] op_ASET_pools[of VH w f]
    op_binary_pools[of w _ f] op_unary_pools[of w _ f]
  by (cases oc) (simp_all split: option.split)

lemma step_pools: "host_pools VH \<Longrightarrow> pools_grow (machine_world m) (machine_world (step VH m))"
proof (cases m)
  case (Running f ps w)
  assume h: "host_pools VH"
  show ?thesis
  proof (cases "exec VH w f")
    case (Some r)
    have "keeps_pools w (exec VH w f)"
      unfolding exec_def by (auto split: option.split intro: exec_op_pools[OF h])
    then have "pools_grow w (res_world r)" using Some by simp
    then show ?thesis using Running Some by (simp add: deliver_world)
  qed (use Running in simp)
qed simp

lemma run_pools: "host_pools VH \<Longrightarrow> pools_grow (machine_world m) (machine_world (run VH j m))"
proof (induction j)
  case (Suc j)
  then show ?case using pools_grow_trans step_pools by (fastforce simp: run_Suc)
qed simp

section \<open>Runs of one frame\<close>

text \<open>From the frame \<open>f\<close>, without callers, the machine comes to \<open>m\<close>.\<close>

definition comes :: "'h host \<Rightarrow> frame \<Rightarrow> 'h world \<Rightarrow> 'h machine \<Rightarrow> bool" where
  "comes VH f w m \<longleftrightarrow> (\<exists>j. run VH j (Running f [] w) = m)"

lemma comes_refl [simp]: "comes VH f w (Running f [] w)"
  unfolding comes_def by (rule exI[of _ 0]) simp

lemma comes_trans: "comes VH f w (Running f1 [] w1) \<Longrightarrow> comes VH f1 w1 m \<Longrightarrow> comes VH f w m"
  unfolding comes_def using run_add by metis

lemma comes_deliver: "exec VH w f = r \<Longrightarrow> comes VH f w (deliver VH [] w r)"
  unfolding comes_def by (rule exI[of _ 1]) (simp add: run_Suc[of _ 0, simplified])

lemma comes_next: "exec VH w f = Some (Next f1 w1) \<Longrightarrow> comes VH f w (Running f1 [] w1)"
  using comes_deliver by fastforce

lemma comes_raise: "exec VH w f = Some (Raise f1 x w1) \<Longrightarrow> comes VH f w (raise VH f1 [] x w1)"
  using comes_deliver by fastforce

lemma comes_fail: "exec VH w f = Some (Fail f1 x w1) \<Longrightarrow> comes VH f w (Halted (Err x) w1)"
  using comes_deliver by fastforce

lemma comes_pools: "host_pools VH \<Longrightarrow> comes VH f w m \<Longrightarrow> pools_grow w (machine_world m)"
  using run_pools[of VH "Running f [] w"] by (auto simp: comes_def)

lemma first_halt:
  assumes "run VH j m = Halted r w"
  obtains i where "run VH i m = Halted r w" "\<forall>k<i. running (run VH k m)"
proof -
  let ?i = "LEAST i. \<not> running (run VH i m)"
  have j: "\<not> running (run VH j m)" using assms by simp
  then have i: "\<not> running (run VH ?i m)" "?i \<le> j" by (rule LeastI, rule Least_le)
  then obtain r' w' where e: "run VH ?i m = Halted r' w'" by (cases "run VH ?i m") auto
  have h: "run VH k (Halted r' w') = Halted r' w'" for k by (induction k) (simp_all add: run_Suc)
  have "run VH j m = run VH (j - ?i) (run VH ?i m)" using i(2) by (simp flip: run_add)
  then have "Halted r w = Halted r' w'" using e h assms by simp
  then have "run VH ?i m = Halted r w" using e by simp
  moreover have "\<forall>k<?i. running (run VH k m)" using not_less_Least by blast
  ultimately show ?thesis using that by blast
qed

text \<open>A call of bytecode: the callee runs alone, then its result goes to the caller.\<close>

lemma comes_call:
  assumes "exec VH w f = Some (Enter f c w1)" "run VH j (Running c [] w1) = Halted r w2"
  shows "comes VH f w (finish VH [f] r w2)"
proof -
  obtain i where i: "run VH i (Running c [] w1) = Halted r w2" "\<forall>k<i. running (run VH k (Running c [] w1))"
    using first_halt[OF assms(2)] by blast
  have s: "run VH 1 (Running f [] w) = Running c ([] @ [f]) w1" using assms(1) by (simp add: run_Suc[of _ 0, simplified])
  have "run VH (i + 1) (Running f [] w) = finish VH [f] r w2"
    unfolding run_add s run_graft[OF i(2)] i(1) by simp
  then show ?thesis unfolding comes_def by blast
qed

section \<open>Values on top of a frame\<close>

text \<open>\<open>f1\<close> is \<open>f\<close> at address \<open>a\<close> with \<open>vs\<close> above the values it had; what lies above is arbitrary.\<close>

definition grown :: "frame \<Rightarrow> int \<Rightarrow> vv list \<Rightarrow> frame \<Rightarrow> bool" where
  "grown f a vs f1 \<longleftrightarrow> (\<exists>s n. f1 = f\<lparr>fr_stack := s, fr_sp := int (n + length vs), fr_ip := a\<rparr> \<and> fr_sp f = int n \<and>
     length s = length (fr_stack f) \<and> n + length vs \<le> length s \<and> take (n + length vs) s = take n (fr_stack f) @ vs)"

text \<open>\<open>f1\<close> still has what \<open>f\<close> had on its stack.\<close>

definition kept :: "frame \<Rightarrow> frame \<Rightarrow> bool" where
  "kept f f1 \<longleftrightarrow> (\<exists>s d a. f1 = f\<lparr>fr_stack := s, fr_sp := d, fr_ip := a\<rparr> \<and> length s = length (fr_stack f) \<and>
     take (nat (fr_sp f)) s = take (nat (fr_sp f)) (fr_stack f))"

lemma grownI:
  assumes "f1 = f\<lparr>fr_stack := s, fr_sp := int (n + length vs), fr_ip := a\<rparr>" "fr_sp f = int n"
    "length s = length (fr_stack f)" "n + length vs \<le> length s" "take (n + length vs) s = take n (fr_stack f) @ vs"
  shows "grown f a vs f1"
  using assms by (auto simp: grown_def)

lemma grownE:
  assumes "grown f a vs f1"
  obtains s n where "f1 = f\<lparr>fr_stack := s, fr_sp := int (n + length vs), fr_ip := a\<rparr>" "fr_sp f = int n"
    "length s = length (fr_stack f)" "n + length vs \<le> length s" "take (n + length vs) s = take n (fr_stack f) @ vs"
  using assms by (auto simp: grown_def)

lemma grown_fields:
  assumes "grown f a vs f1"
  shows "fr_sp f1 = fr_sp f + int (length vs)" "fr_ip f1 = a" "length (fr_stack f1) = length (fr_stack f)"
    "fr_args f1 = fr_args f" "fr_argc f1 = fr_argc f" "fr_clos f1 = fr_clos f" "fr_code f1 = fr_code f"
    "fr_constsc f1 = fr_constsc f" "fr_handlers f1 = fr_handlers f" "fr_ec f1 = fr_ec f" "0 \<le> fr_sp f"
    "fr_sp f + int (length vs) \<le> int (length (fr_stack f))"
  by (rule grownE[OF assms]; simp)+

lemma grown_refl: "0 \<le> fr_sp f \<Longrightarrow> fr_sp f \<le> int (length (fr_stack f)) \<Longrightarrow> fr_ip f = a \<Longrightarrow> grown f a [] f"
  by (rule grownI[where s = "fr_stack f" and n = "nat (fr_sp f)"]) auto

lemma grown_trans:
  assumes 1: "grown f a us f1" and 2: "grown f1 b vs f2"
  shows "grown f b (us @ vs) f2"
proof -
  obtain s n where g: "f1 = f\<lparr>fr_stack := s, fr_sp := int (n + length us), fr_ip := a\<rparr>" "fr_sp f = int n"
    "length s = length (fr_stack f)" "n + length us \<le> length s" "take (n + length us) s = take n (fr_stack f) @ us"
    by (rule grownE[OF 1])
  obtain t m where h: "f2 = f1\<lparr>fr_stack := t, fr_sp := int (m + length vs), fr_ip := b\<rparr>" "fr_sp f1 = int m"
    "length t = length (fr_stack f1)" "m + length vs \<le> length t" "take (m + length vs) t = take m (fr_stack f1) @ vs"
    by (rule grownE[OF 2])
  have "m = n + length us" using g(1) h(2) by simp
  then show ?thesis by (intro grownI[where s = t and n = n]) (use g h in \<open>simp_all add: add.assoc\<close>)
qed

lemma grown_nth: "grown f a vs f1 \<Longrightarrow> i < length vs \<Longrightarrow> slot (fr_stack f1) (fr_sp f + int i) = Some (vs ! i)"
proof -
  assume 1: "grown f a vs f1" and i: "i < length vs"
  obtain s n where g: "f1 = f\<lparr>fr_stack := s, fr_sp := int (n + length vs), fr_ip := a\<rparr>" "fr_sp f = int n"
    "length s = length (fr_stack f)" "n + length vs \<le> length s" "take (n + length vs) s = take n (fr_stack f) @ vs"
    by (rule grownE[OF 1])
  have "s ! (n + i) = take (n + length vs) s ! (n + i)" using i by simp
  also have "\<dots> = vs ! i" using g i by (simp only: g(5)) (simp add: nth_append)
  finally show ?thesis using g i by (simp add: slot_def nat_int_add)
qed

lemma take_slot: "take n s = take n t \<Longrightarrow> n \<le> length s \<Longrightarrow> length s = length t \<Longrightarrow> l < int n \<Longrightarrow> slot s l = slot t l"
proof -
  assume a: "take n s = take n t" "n \<le> length s" "length s = length t" "l < int n"
  have "s ! nat l = t ! nat l" if "0 \<le> l" using a that by (metis nat_less_iff nth_take)
  then show ?thesis using a by (simp add: slot_def)
qed

lemma kept_slot: "kept f f1 \<Longrightarrow> l < fr_sp f \<Longrightarrow> slot (fr_stack f1) l = slot (fr_stack f) l"
proof (cases "nat (fr_sp f) \<le> length (fr_stack f)")
  case True
  assume "kept f f1" "l < fr_sp f"
  then show ?thesis using True by (auto simp: kept_def intro!: take_slot[of "nat (fr_sp f)"])
next
  case False
  assume "kept f f1"
  then have "fr_stack f1 = fr_stack f" using False by (auto simp: kept_def)
  then show ?thesis by simp
qed

lemma grown_keep: "grown f a vs f1 \<Longrightarrow> kept f f1"
proof -
  assume 1: "grown f a vs f1"
  obtain s n where g: "f1 = f\<lparr>fr_stack := s, fr_sp := int (n + length vs), fr_ip := a\<rparr>" "fr_sp f = int n"
    "length s = length (fr_stack f)" "n + length vs \<le> length s" "take (n + length vs) s = take n (fr_stack f) @ vs"
    by (rule grownE[OF 1])
  have "take n s = take n (take (n + length vs) s)" by simp
  also have "\<dots> = take n (fr_stack f)" using g by (simp only: g(5)) simp
  finally show ?thesis unfolding kept_def using g by auto
qed

lemma grown_slot: "grown f a vs f1 \<Longrightarrow> l < fr_sp f \<Longrightarrow> slot (fr_stack f1) l = slot (fr_stack f) l"
  using kept_slot grown_keep by blast

lemma kept_refl [simp]: "kept f f"
  unfolding kept_def by (intro exI[of _ "fr_stack f"] exI[of _ "fr_sp f"] exI[of _ "fr_ip f"]) simp

lemma kept_trans:
  assumes 1: "grown f a vs f1" and 2: "kept f1 f2"
  shows "kept f f2"
proof -
  obtain s n where g: "f1 = f\<lparr>fr_stack := s, fr_sp := int (n + length vs), fr_ip := a\<rparr>" "fr_sp f = int n"
    "length s = length (fr_stack f)" "n + length vs \<le> length s" "take (n + length vs) s = take n (fr_stack f) @ vs"
    by (rule grownE[OF 1])
  obtain t d b where h: "f2 = f1\<lparr>fr_stack := t, fr_sp := d, fr_ip := b\<rparr>" "length t = length s" "take (n + length vs) t = take (n + length vs) s"
    using 2 g by (auto simp: kept_def nat_int_add)
  have "take n t = take n (take (n + length vs) t)" by simp
  also have "\<dots> = take n (fr_stack f)" using g by (simp only: h(3) g(5)) simp
  finally have "take n t = take n (fr_stack f)" .
  then show ?thesis unfolding kept_def by (intro exI[of _ t] exI[of _ d] exI[of _ b]) (use g h in simp)
qed

lemma kept_drop: "kept f g \<Longrightarrow> kept f (fr_drop k g)"
proof -
  assume "kept f g"
  then obtain s d a where "g = f\<lparr>fr_stack := s, fr_sp := d, fr_ip := a\<rparr>" "length s = length (fr_stack f)"
    "take (nat (fr_sp f)) s = take (nat (fr_sp f)) (fr_stack f)" by (auto simp: kept_def)
  then show ?thesis unfolding kept_def fr_drop_def by (intro exI[of _ s] exI[of _ "d - k"] exI[of _ a]) simp
qed

text \<open>Fewer values.\<close>

lemma grown_cut:
  assumes 1: "grown f a vs f1" and k: "k \<le> length vs"
  shows "grown f b (take k vs) (f1\<lparr>fr_sp := fr_sp f + int k, fr_ip := b\<rparr>)"
proof -
  obtain s n where g: "f1 = f\<lparr>fr_stack := s, fr_sp := int (n + length vs), fr_ip := a\<rparr>" "fr_sp f = int n"
    "length s = length (fr_stack f)" "n + length vs \<le> length s" "take (n + length vs) s = take n (fr_stack f) @ vs"
    by (rule grownE[OF 1])
  have "take (n + k) s = take (n + k) (take (n + length vs) s)" using k by (simp add: min_def)
  also have "\<dots> = take n (fr_stack f) @ take k vs" using g k by (simp only: g(5)) (simp add: min_def)
  finally show ?thesis by (intro grownI[where s = s and n = n]) (use g k in \<open>simp_all add: min_def\<close>)
qed

text \<open>One value more.\<close>

lemma grown_push:
  assumes 1: "grown f a vs f1" and r: "fr_sp f + int (length vs) < int (length (fr_stack f))"
  obtains s where "fr_push v f1 = Some (f1\<lparr>fr_stack := s, fr_sp := fr_sp f1 + 1\<rparr>)"
    "\<And>b. grown f b (vs @ [v]) (f1\<lparr>fr_stack := s, fr_sp := fr_sp f1 + 1, fr_ip := b\<rparr>)"
    "put_slot (fr_stack f1) (fr_sp f1) v = Some s"
proof -
  obtain s n where g: "f1 = f\<lparr>fr_stack := s, fr_sp := int (n + length vs), fr_ip := a\<rparr>" "fr_sp f = int n"
    "length s = length (fr_stack f)" "n + length vs \<le> length s" "take (n + length vs) s = take n (fr_stack f) @ vs"
    by (rule grownE[OF 1])
  let ?s = "s[n + length vs := v]"
  have p: "put_slot (fr_stack f1) (fr_sp f1) v = Some ?s" using g r by (simp add: put_slot_def nat_int_add)
  have "take (Suc (n + length vs)) ?s = take (n + length vs) s @ [v]" using g r by (simp add: take_Suc_conv_app_nth)
  then have "grown f b (vs @ [v]) (f1\<lparr>fr_stack := ?s, fr_sp := fr_sp f1 + 1, fr_ip := b\<rparr>)" for b
    by (intro grownI[where s = ?s and n = n]) (use g r in simp_all)
  then show ?thesis using that[of ?s] p by (simp add: fr_push_def)
qed

section \<open>Instructions\<close>

lemma exec_at: "grown f a vs g \<Longrightarrow> holds (ck_code (fr_code f)) a (opword oc d # args) \<Longrightarrow> exec VH w g = exec_op VH oc w g"
  using holds_slot[of "ck_code (fr_code f)" a "opword oc d # args" 0] grown_fields(2,7)[of f a vs g]
  by (simp add: exec_def del: slot_eq_Some)

lemma operand_at:
  assumes "grown f a vs g" "holds (ck_code (fr_code f)) a (x # map word_of_int ns)" "i < length ns" "0 \<le> ns ! i" "ns ! i < lim"
  shows "operand (1 + int i) g = Some (ns ! i)"
proof -
  have "slot (ck_code (fr_code f)) (a + int (Suc i)) = Some (word_of_int (ns ! i))"
    using holds_slot[OF assms(2), of "Suc i"] assms(3) by simp
  then show ?thesis using grown_fields(2,7)[OF assms(1)] sint_small[OF assms(4,5)]
    by (simp add: operand_def algebra_simps del: slot_eq_Some)
qed

lemma operand1:
  "grown f a vs g \<Longrightarrow> holds (ck_code (fr_code f)) a [x, word_of_int n] \<Longrightarrow> 0 \<le> n \<Longrightarrow> n < lim \<Longrightarrow> operand 1 g = Some n"
  using operand_at[of f a vs g x "[n]" 0] by simp

lemma push_advance:
  assumes "grown f a vs g" "fr_sp f + int (length vs) < int (length (fr_stack f))"
  obtains g1 where "fr_push v g = Some g1" "\<And>k. grown f (a + k) (vs @ [v]) (advance k g1)"
proof -
  obtain s where s: "fr_push v g = Some (g\<lparr>fr_stack := s, fr_sp := fr_sp g + 1\<rparr>)"
    "\<And>b. grown f b (vs @ [v]) (g\<lparr>fr_stack := s, fr_sp := fr_sp g + 1, fr_ip := b\<rparr>)"
    "put_slot (fr_stack g) (fr_sp g) v = Some s"
    by (rule grown_push[OF assms, of v]) blast
  have "grown f (a + k) (vs @ [v]) (advance k (g\<lparr>fr_stack := s, fr_sp := fr_sp g + 1\<rparr>))" for k
    using s(2)[of "a + k"] grown_fields(2)[OF assms(1)] by (simp add: advance_def)
  then show ?thesis using s(1) that by blast
qed

lemma goes_next:
  assumes "exec VH w g = Some (Next g1 w1)" "grown f b vs g1"
  shows "\<exists>g1. comes VH g w (Running g1 [] w1) \<and> grown f b vs g1"
  using comes_next[OF assms(1)] assms(2) by blast

lemma run_const:
  assumes g: "grown f a vs g" and h: "holds (ck_code (fr_code f)) a [opword OP_LOAD_CONST d, word_of_int n]"
    and n: "0 \<le> n" "n < lim" "n < fr_constsc f" "slot (w_pools w (ck_consts (fr_code f))) n = Some v"
    and r: "fr_sp f + int (length vs) < int (length (fr_stack f))"
  shows "\<exists>g1. comes VH g w (Running g1 [] w) \<and> grown f (a + 2) (vs @ [v]) g1"
proof -
  obtain g1 where p: "fr_push v g = Some g1" "\<And>k. grown f (a + k) (vs @ [v]) (advance k g1)"
    by (rule push_advance[OF g r, of v]) blast
  have "exec VH w g = Some (Next (advance 2 g1) w)"
    using n operand1[OF g h n(1,2)] grown_fields(7,8)[OF g] p(1)
    by (simp add: exec_at[OF g h] op_LOAD_CONST_def del: slot_eq_Some)
  then show ?thesis using p(2) by (rule goes_next)
qed

lemma run_var:
  assumes g: "grown f a vs g" and h: "holds (ck_code (fr_code f)) a [opword OP_LOAD_VAR d, word_of_int n]"
    and n: "0 \<le> n" "n < lim" "n < fr_constsc f" "slot (w_pools w (ck_consts (fr_code f))) n = Some (VarV x)"
    and r: "fr_sp f + int (length vs) < int (length (fr_stack f))"
  shows "\<exists>g1. comes VH g w (Running g1 [] w) \<and> grown f (a + 2) (vs @ [deref (fr_ec f) x (w_dyn w)]) g1"
proof -
  obtain g1 where p: "fr_push (deref (fr_ec f) x (w_dyn w)) g = Some g1"
    "\<And>k. grown f (a + k) (vs @ [deref (fr_ec f) x (w_dyn w)]) (advance k g1)"
    by (rule push_advance[OF g r, of "deref (fr_ec f) x (w_dyn w)"]) blast
  have "exec VH w g = Some (Next (advance 2 g1) w)"
    using n operand1[OF g h n(1,2)] grown_fields(7,8,10)[OF g] p(1)
    by (simp add: exec_at[OF g h] op_LOAD_VAR_def del: slot_eq_Some)
  then show ?thesis using p(2) by (rule goes_next)
qed

lemma run_local:
  assumes g: "grown f a vs g" and h: "holds (ck_code (fr_code f)) a [opword OP_DUP_NTH d, word_of_int n]"
    and n: "0 \<le> n" "n < lim" "slot (fr_stack g) (fr_sp g - 1 - n) = Some v"
    and r: "fr_sp f + int (length vs) < int (length (fr_stack f))"
  shows "\<exists>g1. comes VH g w (Running g1 [] w) \<and> grown f (a + 2) (vs @ [v]) g1"
proof -
  obtain g1 where p: "fr_push v g = Some g1" "\<And>k. grown f (a + k) (vs @ [v]) (advance k g1)"
    by (rule push_advance[OF g r, of v]) blast
  have "exec VH w g = Some (Next (advance 2 g1) w)"
    using n operand1[OF g h n(1,2)] p(1) by (simp add: exec_at[OF g h] op_DUP_NTH_def fr_nth_def del: slot_eq_Some)
  then show ?thesis using p(2) by (rule goes_next)
qed

text \<open>The topmost value.\<close>

lemma pop_grown:
  assumes g: "grown f a (vs @ [v]) g"
  shows "fr_pop g = Some (v, g\<lparr>fr_sp := fr_sp g - 1\<rparr>)" "grown f a vs (g\<lparr>fr_sp := fr_sp g - 1\<rparr>)"
proof -
  show "fr_pop g = Some (v, g\<lparr>fr_sp := fr_sp g - 1\<rparr>)"
    using grown_nth[OF g, of "length vs"] grown_fields(1)[OF g]
    by (simp add: fr_pop_def algebra_simps del: slot_eq_Some)
  have "g\<lparr>fr_sp := fr_sp f + int (length vs), fr_ip := a\<rparr> = g\<lparr>fr_sp := fr_sp g - 1\<rparr>"
    using grown_fields(1,2)[OF g] by (cases g) simp
  then show "grown f a vs (g\<lparr>fr_sp := fr_sp g - 1\<rparr>)" using grown_cut[OF g, of "length vs" a] by simp
qed

lemma same_sp: "fr_sp g = d \<Longrightarrow> g\<lparr>fr_sp := d, fr_ip := b\<rparr> = g\<lparr>fr_ip := b\<rparr>"
  by (cases g) simp

lemma grown_advance: "grown f a vs g \<Longrightarrow> grown f (a + k) vs (advance k g)"
  using grown_cut[of f a vs g "length vs" "a + k"] grown_fields(1,2)[of f a vs g]
  by (simp add: advance_def same_sp)

lemma run_pop:
  assumes g: "grown f a (vs @ [v]) g" and h: "holds (ck_code (fr_code f)) a [opword OP_POP d]"
  shows "\<exists>g1. comes VH g w (Running g1 [] w) \<and> grown f (a + 1) vs g1"
proof (rule goes_next)
  show "exec VH w g = Some (Next (advance 1 (g\<lparr>fr_sp := fr_sp g - 1\<rparr>)) w)"
    by (simp add: exec_at[OF g h] op_POP_def pop_grown(1)[OF g])
qed (rule grown_advance[OF pop_grown(2)[OF g]])

lemma run_branch:
  assumes g: "grown f a (vs @ [v]) g" and h: "holds (ck_code (fr_code f)) a [opword OP_BRANCH_FALSE d, word_of_int n]"
    and n: "0 \<le> n" "n < lim"
  shows "\<exists>g1. comes VH g w (Running g1 [] w) \<and> grown f (a + (if IsTruthy v then 2 else n)) vs g1"
proof (rule goes_next)
  show "exec VH w g = Some (Next (advance (if IsTruthy v then 2 else n) (g\<lparr>fr_sp := fr_sp g - 1\<rparr>)) w)"
    by (simp add: exec_at[OF g h] op_BRANCH_def operand1[OF g h n] pop_grown(1)[OF g])
qed (rule grown_advance[OF pop_grown(2)[OF g]])

lemma run_jump:
  assumes g: "grown f a vs g" and h: "holds (ck_code (fr_code f)) a [opword OP_JUMP d, word_of_int n]" and n: "0 \<le> n" "n < lim"
  shows "\<exists>g1. comes VH g w (Running g1 [] w) \<and> grown f (a + n) vs g1"
  by (rule goes_next[OF _ grown_advance[OF g]]) (simp add: exec_at[OF g h] op_JUMP_def operand1[OF g h n])

text \<open>The value stays, the slots under it go.\<close>

lemma run_pop_n:
  assumes g: "grown f a (vs @ us @ [v]) g" and h: "holds (ck_code (fr_code f)) a [opword OP_POP_N d, word_of_int (int (length us))]"
    and n: "int (length us) < lim"
  shows "\<exists>g1. comes VH g w (Running g1 [] w) \<and> grown f (a + 2) (vs @ [v]) g1"
proof -
  let ?g = "g\<lparr>fr_sp := fr_sp g - 1\<rparr>" and ?h = "fr_drop (int (length us)) (g\<lparr>fr_sp := fr_sp g - 1\<rparr>)"
  have p: "fr_pop g = Some (v, ?g)" "grown f a (vs @ us) ?g" using pop_grown[of f a "vs @ us" v g] g by simp_all
  have c: "grown f a vs ?h"
    using grown_cut[OF p(2), of "length vs" a] grown_fields(1,2)[OF p(2)] by (cases g) (simp add: fr_drop_def)
  have "fr_sp f + int (length vs) < int (length (fr_stack f))" using grown_fields(12)[OF g] by simp
  from push_advance[OF c this] obtain g1 where q: "fr_push v ?h = Some g1" "\<And>k. grown f (a + k) (vs @ [v]) (advance k g1)"
    by blast
  have "exec VH w g = Some (Next (advance 2 g1) w)"
    using operand1[OF g h _ n] q(1) by (simp add: exec_at[OF g h] op_POP_N_def p(1))
  then show ?thesis using q(2) by (rule goes_next)
qed

text \<open>Several values on top: reading them, and putting a result in their place.\<close>

lemma top_slot:
  assumes g: "grown f a (vs @ us) g" and i: "i < length us"
  shows "slot (fr_stack g) (fr_sp g - 1 - int i) = Some (us ! (length us - 1 - i))"
proof -
  have "fr_sp g - 1 - int i = fr_sp f + int (length vs + (length us - 1 - i))"
    using grown_fields(1)[OF g] i by simp
  then show ?thesis using grown_nth[OF g, of "length vs + (length us - 1 - i)"] i
    by (simp only: length_append nat_add_left_cancel_less nth_append_length_plus)
qed

lemma top_mult:
  assumes 1: "grown f a (vs @ us) g"
  shows "fr_mult 0 (int (length us)) g = Some us"
proof -
  obtain s n where g: "g = f\<lparr>fr_stack := s, fr_sp := int (n + length (vs @ us)), fr_ip := a\<rparr>" "fr_sp f = int n"
    "length s = length (fr_stack f)" "n + length (vs @ us) \<le> length s" "take (n + length (vs @ us)) s = take n (fr_stack f) @ vs @ us"
    by (rule grownE[OF 1])
  have "take (length us) (drop (n + length vs) s) = drop (n + length vs) (take (n + length (vs @ us)) s)"
    by (simp add: take_drop add.commute add.left_commute)
  also have "\<dots> = us" using g by (simp only: g(5)) simp
  finally show ?thesis using g by (simp add: fr_mult_def slice_def Let_def nat_int_add)
qed

lemma replace_top:
  assumes g: "grown f a (vs @ us) g" and us: "us \<noteq> []"
  shows "\<exists>s. put_slot (fr_stack g) (fr_sp g - int (length us)) r = Some s \<and>
    fr_push r (fr_drop (int (length us)) g) = Some (g\<lparr>fr_stack := s, fr_sp := fr_sp g - int (length us) + 1\<rparr>) \<and>
    grown f (a + k) (vs @ [r]) (advance k (g\<lparr>fr_stack := s, fr_sp := fr_sp g - int (length us) + 1\<rparr>))"
proof -
  let ?d = "fr_drop (int (length us)) g"
  have e: "?d = g\<lparr>fr_sp := fr_sp f + int (length vs), fr_ip := a\<rparr>"
    using grown_fields(1,2)[OF g] by (cases g) (simp add: fr_drop_def)
  have c: "grown f a vs ?d" unfolding e using grown_cut[OF g, of "length vs" a] by simp
  have "fr_sp f + int (length vs) < int (length (fr_stack f))" using grown_fields(12)[OF g] us by (cases us) simp_all
  from grown_push[OF c this, of r] obtain s where s:
    "fr_push r ?d = Some (?d\<lparr>fr_stack := s, fr_sp := fr_sp ?d + 1\<rparr>)"
    "grown f (a + k) (vs @ [r]) (?d\<lparr>fr_stack := s, fr_sp := fr_sp ?d + 1, fr_ip := a + k\<rparr>)"
    "put_slot (fr_stack ?d) (fr_sp ?d) r = Some s" by blast
  then show ?thesis using grown_fields(2)[OF g] by (intro exI[of _ s]) (simp add: fr_drop_def advance_def)
qed

text \<open>\<open>f\<close> is back at address \<open>a\<close> and depth \<open>d\<close> with \<open>us\<close> on top.\<close>

definition restarted :: "frame \<Rightarrow> int \<Rightarrow> int \<Rightarrow> vv list \<Rightarrow> frame \<Rightarrow> bool" where
  "restarted f d a us f1 \<longleftrightarrow> (\<exists>s n. f1 = f\<lparr>fr_stack := s, fr_sp := d, fr_ip := a\<rparr> \<and> length s = length (fr_stack f) \<and>
     d = int (n + length us) \<and> n + length us \<le> length s \<and> d \<le> fr_sp f \<and> take (n + length us) s = take n (fr_stack f) @ us)"

text \<open>What a run from \<open>g\<close>, which has \<open>vs\<close> above \<open>f\<close>, comes to: its value in the place of nothing
  but itself at \<open>a\<close>, an error, or the start of the loop \<open>T\<close>, a depth, an address and a number of values.\<close>

definition ends ::
    "'h host \<Rightarrow> (int \<times> int \<times> nat) option \<Rightarrow> frame \<Rightarrow> frame \<Rightarrow> 'h world \<Rightarrow> int \<Rightarrow> vv list \<Rightarrow> answer \<Rightarrow> 'h world \<Rightarrow> bool" where
  "ends VH T f g w a vs r w1 \<longleftrightarrow> (case r of
     Val v \<Rightarrow> \<exists>g1. comes VH g w (Running g1 [] w1) \<and> grown f a (vs @ [v]) g1
   | Raised x \<Rightarrow> \<exists>g1. comes VH g w (raise VH g1 [] x w1) \<and> kept f g1
   | Failed x \<Rightarrow> comes VH g w (Halted (Err x) w1)
   | Again us \<Rightarrow> \<exists>d b g1. T = Some (d, b, length us) \<and> comes VH g w (Running g1 [] w1) \<and> restarted f d b us g1)"

lemma ends_raise: "exec VH w g = Some (Raise g1 x w1) \<Longrightarrow> kept f g1 \<Longrightarrow> ends VH T f g w a vs (Raised x) w1"
  unfolding ends_def using comes_raise by fastforce

lemma ends_next: "exec VH w g = Some (Next g1 w1) \<Longrightarrow> grown f a (vs @ [v]) g1 \<Longrightarrow> ends VH T f g w a vs (Val v) w1"
  unfolding ends_def using comes_next by fastforce

lemma run_unary:
  assumes g: "grown f a (vs @ [x]) g" and h: "holds (ck_code (fr_code f)) a [opword oc d]"
    and oc: "unary_op oc = Some p" and r: "answer_of (p x) w = Some (r, w1)"
  shows "ends VH T f g w (a + 1) vs r w1"
proof -
  have e: "exec VH w g = op_unary p w g" using oc by (cases oc) (simp_all add: exec_at[OF g h])
  have x: "slot (fr_stack g) (fr_sp g - 1) = Some x" using top_slot[OF g, of 0] by simp
  show ?thesis
  proof (cases "p x")
    case (Ok v)
    obtain s where s: "put_slot (fr_stack g) (fr_sp g - int (length [x])) v = Some s"
      "grown f (a + 1) (vs @ [v]) (advance 1 (g\<lparr>fr_stack := s, fr_sp := fr_sp g - int (length [x]) + 1\<rparr>))"
      using replace_top[OF g, of v 1] by blast
    have "exec VH w g = Some (Next (advance 1 (g\<lparr>fr_stack := s, fr_sp := fr_sp g - int (length [x]) + 1\<rparr>)) w)"
      using s(1) x by (simp add: e op_unary_def Ok del: slot_eq_Some)
    from ends_next[OF this s(2)] show ?thesis using r by (simp add: Ok answer_of_def)
  next
    case (Err y)
    have "exec VH w g = Some (Raise g y w)" using x by (simp add: e op_unary_def Err del: slot_eq_Some)
    from ends_raise[OF this grown_keep[OF g]] show ?thesis using r by (simp add: Err answer_of_def)
  qed (use r in \<open>simp add: answer_of_def\<close>)
qed

lemma run_binary:
  assumes g: "grown f a (vs @ [x, y]) g" and h: "holds (ck_code (fr_code f)) a [opword oc d]"
    and oc: "binary_op VH w oc = Some p" and r: "answer_of (p x y) w = Some (r, w1)"
  shows "ends VH T f g w (a + 1) vs r w1"
proof -
  have e: "exec VH w g = op_binary p w g" using oc by (cases oc) (simp_all add: exec_at[OF g h])
  have y: "slot (fr_stack g) (fr_sp g - 1) = Some y" using top_slot[OF g, of 0] by simp
  have x: "slot (fr_stack g) (fr_sp g - 2) = Some x" using top_slot[OF g, of 1] by simp
  show ?thesis
  proof (cases "p x y")
    case (Ok v)
    obtain s where s: "put_slot (fr_stack g) (fr_sp g - int (length [x, y])) v = Some s"
      "grown f (a + 1) (vs @ [v]) (advance 1 (g\<lparr>fr_stack := s, fr_sp := fr_sp g - int (length [x, y]) + 1\<rparr>))"
      using replace_top[OF g, of v 1] by blast
    have "exec VH w g = Some (Next (advance 1 (g\<lparr>fr_stack := s, fr_sp := fr_sp g - int (length [x, y]) + 1\<rparr>)) w)"
      using s(1) x y by (simp add: e op_binary_def Ok del: slot_eq_Some)
    from ends_next[OF this s(2)] show ?thesis using r by (simp add: Ok answer_of_def)
  next
    case (Err z)
    have "exec VH w g = Some (Raise g z w)" using x y by (simp add: e op_binary_def Err del: slot_eq_Some)
    from ends_raise[OF this grown_keep[OF g]] show ?thesis using r by (simp add: Err answer_of_def)
  qed (use r in \<open>simp add: answer_of_def\<close>)
qed

lemma run_aset:
  assumes g: "grown f a (vs @ [x, y, z]) g" and h: "holds (ck_code (fr_code f)) a [opword OP_ASET d]"
    and r: "applyPrimitive VH OP_ASET [x, y, z] w = Some (r, w1)"
  shows "ends VH T f g w (a + 1) vs r w1"
proof -
  have e: "exec VH w g = op_ASET VH w g" by (simp add: exec_at[OF g h])
  have z: "slot (fr_stack g) (fr_sp g - 1) = Some z" using top_slot[OF g, of 0] by simp
  have y: "slot (fr_stack g) (fr_sp g - 2) = Some y" using top_slot[OF g, of 1] by simp
  have x: "slot (fr_stack g) (fr_sp g - 3) = Some x" using top_slot[OF g, of 2] by (simp add: numeral_2_eq_2)
  obtain o' w' where p: "ho_aset VH x y z w = (o', w')" by fastforce
  show ?thesis
  proof (cases o')
    case (Ok u)
    obtain s where s: "put_slot (fr_stack g) (fr_sp g - int (length [x, y, z])) z = Some s"
      "grown f (a + 1) (vs @ [z]) (advance 1 (g\<lparr>fr_stack := s, fr_sp := fr_sp g - int (length [x, y, z]) + 1\<rparr>))"
      using replace_top[OF g, of z 1] by blast
    have "exec VH w g = Some (Next (advance 1 (g\<lparr>fr_stack := s, fr_sp := fr_sp g - int (length [x, y, z]) + 1\<rparr>)) w')"
      using s(1) x y z by (simp add: e op_ASET_def p Ok del: slot_eq_Some)
    from ends_next[OF this s(2)] show ?thesis using r by (simp add: p Ok applyPrimitive_def)
  next
    case (Err u)
    have "exec VH w g = Some (Raise g u w')" using x y z by (simp add: e op_ASET_def p Err del: slot_eq_Some)
    from ends_raise[OF this grown_keep[OF g]] show ?thesis using r by (simp add: p Err applyPrimitive_def)
  qed (use r in \<open>simp add: p applyPrimitive_def\<close>)
qed

lemma run_primitive:
  assumes g: "grown f a (vs @ us) g" and h: "holds (ck_code (fr_code f)) a [opword oc d]"
    and r: "applyPrimitive VH oc us w = Some (r, w1)"
  shows "ends VH T f g w (a + 1) vs r w1"
proof -
  consider x where "us = [x]" | x y where "us = [x, y]" | x y z where "us = [x, y, z]" "oc = OP_ASET"
    using r by (auto simp: applyPrimitive_def split: list.splits if_splits)
  then show ?thesis
  proof cases
    case 1
    then obtain p where "unary_op oc = Some p" "answer_of (p x) w = Some (r, w1)"
      using r by (auto simp: applyPrimitive_def split: option.splits)
    then show ?thesis by (rule run_unary[OF g[unfolded 1] h])
  next
    case 2
    then obtain p where "binary_op VH w oc = Some p" "answer_of (p x y) w = Some (r, w1)"
      using r by (auto simp: applyPrimitive_def split: option.splits)
    then show ?thesis by (rule run_binary[OF g[unfolded 2] h])
  next
    case 3
    then show ?thesis using run_aset[of f a vs x y z g] g h r by auto
  qed
qed

text \<open>\<open>set!\<close>: the var below, its new value above.\<close>

lemma run_set_var:
  assumes g: "grown f a (vs @ [VarV v, x]) g" and h: "holds (ck_code (fr_code f)) a [opword OP_SET_VAR d]"
    and dn: "dn = (case setBinding (fr_ec f) v x (w_dyn w) of Some d' \<Rightarrow> d' | None \<Rightarrow> SetRoot (ho_same VH) v x (w_dyn w))"
  shows "ends VH T f g w (a + 1) vs (Val (VarV v)) (w\<lparr>w_dyn := armTraceIfTruthy v x dn\<rparr>)"
proof -
  obtain s where s: "fr_push (VarV v) (fr_drop (int (length [VarV v, x])) g) =
      Some (g\<lparr>fr_stack := s, fr_sp := fr_sp g - int (length [VarV v, x]) + 1\<rparr>)"
    "grown f (a + 1) (vs @ [VarV v]) (advance 1 (g\<lparr>fr_stack := s, fr_sp := fr_sp g - int (length [VarV v, x]) + 1\<rparr>))"
    using replace_top[OF g, of "VarV v" 1] by blast
  have p: "fr_pop g = Some (x, g\<lparr>fr_sp := fr_sp g - 1\<rparr>)" "grown f a (vs @ [VarV v]) (g\<lparr>fr_sp := fr_sp g - 1\<rparr>)"
    using pop_grown[of f a "vs @ [VarV v]" x g] g by simp_all
  have q: "fr_pop (g\<lparr>fr_sp := fr_sp g - 1\<rparr>) = Some (VarV v, fr_drop (int (length [VarV v, x])) g)"
    using pop_grown(1)[OF p(2)] by (simp add: fr_drop_def)
  have "exec VH w g = Some (Next (advance 1 (g\<lparr>fr_stack := s, fr_sp := fr_sp g - int (length [VarV v, x]) + 1\<rparr>))
      (w\<lparr>w_dyn := armTraceIfTruthy v x dn\<rparr>))"
    using s(1) grown_fields(10)[OF g] by (simp add: exec_at[OF g h] op_SET_VAR_def p(1) q dn Let_def)
  from ends_next[OF this s(2)] show ?thesis .
qed

lemma run_set_bad:
  assumes g: "grown f a (vs @ [y, x]) g" and h: "holds (ck_code (fr_code f)) a [opword OP_SET_VAR d]" and y: "\<forall>v. y \<noteq> VarV v"
  shows "ends VH T f g w (a + 1) vs (Failed (execErr ''SET_VAR invalid Var'')) w"
proof -
  have p: "fr_pop g = Some (x, g\<lparr>fr_sp := fr_sp g - 1\<rparr>)" "grown f a (vs @ [y]) (g\<lparr>fr_sp := fr_sp g - 1\<rparr>)"
    using pop_grown[of f a "vs @ [y]" x g] g by simp_all
  have "\<exists>g1. exec VH w g = Some (Fail g1 (execErr ''SET_VAR invalid Var'') w)"
    using y by (simp add: exec_at[OF g h] op_SET_VAR_def p(1) pop_grown(1)[OF p(2)] split: vv.split)
  then show ?thesis using comes_fail by (fastforce simp: ends_def)
qed

section \<open>Calls\<close>

lemma resolve_static: "resolveBytecodeCall VH w fn args = Ok (Some t) \<Longrightarrow> static_fn fn"
proof (cases fn)
  case (MetaV f)
  then show ?thesis by simp
qed (auto simp: resolveBytecodeCall_def split: sum.splits option.splits)

lemma suspended_at:
  assumes g: "grown f a (vs @ fn # us) g" and h: "holds (ck_code (fr_code f)) a [opword OP_INVOKE d, word_of_int (int (length us))]"
    and n: "int (length us) < lim"
  shows "suspendedCallArity g = Ok (int (length us))"
proof -
  have w0: "slot (ck_code (fr_code f)) a = Some (opword OP_INVOKE d)" and w1: "slot (ck_code (fr_code f)) (a + 1) = Some (word_of_int (int (length us)))"
    using holds_slot[OF h, of 0] holds_slot[OF h, of 1] by (simp_all del: slot_eq_Some)
  have "sint (word_of_int (int (length us)) :: u32) = int (length us)" by (rule sint_small) (use n in simp_all)
  then show ?thesis using w0 w1 grown_fields[OF g]
    by (auto simp: suspendedCallArity_def Let_def nat_add_distrib)
qed

text \<open>What the caller does with the end of its callee.\<close>

lemma finish_call:
  assumes g: "grown f a (vs @ fn # us) g" and h: "holds (ck_code (fr_code f)) a [opword OP_INVOKE d, word_of_int (int (length us))]"
    and n: "int (length us) < lim" and fn: "static_fn fn"
  shows "\<exists>g1. finish VH [g] (Ok v) w = Running g1 [] w \<and> grown f (a + 2) (vs @ [v]) g1"
    "finish VH [g] (Err x) w = raise VH g [] (wrapCallErr fn x) w"
proof -
  note s = suspended_at[OF g h n]
  obtain t where t: "fr_push v (fr_drop (int (length (fn # us))) g) = Some (g\<lparr>fr_stack := t, fr_sp := fr_sp g - int (length (fn # us)) + 1\<rparr>)"
    "grown f (a + 2) (vs @ [v]) (advance 2 (g\<lparr>fr_stack := t, fr_sp := fr_sp g - int (length (fn # us)) + 1\<rparr>))"
    using replace_top[OF g, of v 2] by blast
  have e: "int (length us) + 1 = int (length (fn # us))" by simp
  show "\<exists>g1. finish VH [g] (Ok v) w = Running g1 [] w \<and> grown f (a + 2) (vs @ [v]) g1"
    using t by (simp add: finish_def resume_def s e del: list.size of_nat_Suc)
  have "slot (fr_stack g) (fr_sp g - 1 - int (length us)) = Some fn"
    using top_slot[OF g, of "length us"] by simp
  then have "wrapCallSite VH w g x = Some (wrapCallErr fn x)"
    using fn by (simp add: wrapCallSite_def s AsFn_def wrapCallErr_def del: slot_eq_Some)
  then show "finish VH [g] (Err x) w = raise VH g [] (wrapCallErr fn x) w"
    by (simp add: finish_def raise_def split: option.split)
qed

lemma run_call:
  assumes g: "grown f a (vs @ fn # us) g" and h: "holds (ck_code (fr_code f)) a [opword OP_INVOKE d, word_of_int (int (length us))]"
    and n: "int (length us) < lim" and r: "callFunction VH j (fr_ec f) fn us w = Some (r, w1)"
  shows "ends VH T f g w (a + 2) vs r w1"
proof -
  let ?n = "int (length us)"
  have o1: "operand 1 g = Some ?n" by (rule operand1[OF g h]) (use n in simp_all)
  have s: "fr_nth (if 0 < ?n then ?n else 0) g = Some fn"
    using top_slot[OF g, of "length us"] by (cases us) (simp_all add: fr_nth_def del: slot_eq_Some)
  have ec: "fr_ec g = fr_ec f" by (rule grown_fields(10)[OF g])
  have m: "(if 0 < ?n then fr_mult 0 ?n g else Some []) = Some us"
    using top_mult[of f a "vs @ [fn]" us g] g by simp
  have e: "exec VH w g = op_INVOKE VH w g" by (simp add: exec_at[OF g h])
  note call = e op_INVOKE_def o1 s[simplified] m[simplified] Let_def ec
  have kd: "kept f (fr_drop 1 g)" by (rule kept_drop[OF grown_keep[OF g]])
  show ?thesis
  proof (cases "AsFn VH w fn")
    case False
    have "exec VH w g = Some (Fail g (TypeError fn ''is not a function'') w)" by (simp add: call False)
    from comes_fail[OF this] show ?thesis using r False by (auto simp: callFunction_def ends_def)
  next
    case fn: True
    show ?thesis
    proof (cases "resolveBytecodeCall VH w fn us")
      case (Err x)
      have "exec VH w g = Some (Raise g (wrapCallErr fn x) w)" by (simp add: call fn Err)
      from ends_raise[OF this grown_keep[OF g]] show ?thesis using r fn Err by (simp add: callFunction_def)
    next
      case (Ok t')
      show ?thesis
      proof (cases t')
        case None
        obtain o' w' where p: "ec_Invoke VH (fr_ec f) us w fn = (o', w')" by fastforce
        show ?thesis
        proof (cases o')
          case (Ok v)
          obtain t where t: "fr_push v (fr_drop (int (length (fn # us))) g) = Some (g\<lparr>fr_stack := t, fr_sp := fr_sp g - int (length (fn # us)) + 1\<rparr>)"
            "grown f (a + 2) (vs @ [v]) (advance 2 (g\<lparr>fr_stack := t, fr_sp := fr_sp g - int (length (fn # us)) + 1\<rparr>))"
            using replace_top[OF g, of v 2] by blast
          have "(if 0 < ?n then ?n else 0) + 1 = int (length (fn # us))" by simp
          then have "exec VH w g = Some (Next (advance 2 (g\<lparr>fr_stack := t, fr_sp := fr_sp g - int (length (fn # us)) + 1\<rparr>)) w')"
            using t(1) by (simp add: call fn \<open>resolveBytecodeCall VH w fn us = Ok t'\<close> None p Ok del: list.size of_nat_Suc)
          from ends_next[OF this t(2)] show ?thesis
            using r fn \<open>resolveBytecodeCall VH w fn us = Ok t'\<close> None p Ok by (simp add: callFunction_def)
        next
          case (Err x)
          have "\<exists>g1. exec VH w g = Some (Raise g1 (wrapCallErr fn x) w') \<and> kept f g1"
            using kd grown_keep[OF g] by (simp add: call fn \<open>resolveBytecodeCall VH w fn us = Ok t'\<close> None p Err)
          then show ?thesis using r fn \<open>resolveBytecodeCall VH w fn us = Ok t'\<close> None p Err ends_raise
            by (fastforce simp: callFunction_def)
        qed (use r fn \<open>resolveBytecodeCall VH w fn us = Ok t'\<close> None p in \<open>simp add: callFunction_def\<close>)
      next
        case (Some t)
        have x: "exec VH w g = Some (Enter g (newFrameForBytecodeCall w t (fr_ec f)) w)" by (simp add: call fn Ok Some)
        have st: "static_fn fn" by (rule resolve_static) (use Ok Some in simp)
        from r fn Ok Some consider v where "run VH j (Running (newFrameForBytecodeCall w t (fr_ec f)) [] w) = Halted (Ok v) w1" "r = Val v"
          | z where "run VH j (Running (newFrameForBytecodeCall w t (fr_ec f)) [] w) = Halted (Err z) w1" "r = Raised (wrapCallErr fn z)"
          by (auto simp: callFunction_def split: machine.splits outcome.splits)
        then show ?thesis
        proof cases
          case 1
          from comes_call[OF x 1(1)] finish_call(1)[OF g h n st, of VH v w1] show ?thesis by (auto simp: 1(2) ends_def)
        next
          case 2
          from comes_call[OF x 2(1)] have "comes VH g w (raise VH g [] (wrapCallErr fn z) w1)"
            unfolding finish_call(2)[OF g h n st] .
          then show ?thesis using grown_keep[OF g] by (auto simp: 2(2) ends_def)
        qed
      qed
    qed (use r fn in \<open>simp add: callFunction_def\<close>)
  qed
qed

section \<open>Loops\<close>

lemma run_recur:
  assumes g: "grown f a us g" and h: "holds (ck_code (fr_code f)) a (opword OP_RECUR d # map word_of_int [off, int (length us), p])"
    and n: "0 \<le> off" "off < lim" "int (length us) < lim" "0 \<le> p" "p < lim" and r: "int (length us) \<le> fr_sp f - p"
  shows "\<exists>g1. comes VH g w (Running g1 [] w) \<and> restarted f (fr_sp f - p) (a - off) us g1"
proof -
  obtain k where k: "fr_sp f - p = int k + int (length us)" using zle_iff_zadd[of "int (length us)" "fr_sp f - p"] r by (auto simp: add.commute)
  let ?d = "fr_drop (int (length us) * 2 + p) g"
  have o: "operand 1 g = Some off" "operand 2 g = Some (int (length us))" "operand 3 g = Some p"
    using operand_at[OF g h, of 0] operand_at[OF g h, of 1] operand_at[OF g h, of 2] n
    by (simp_all add: numeral_3_eq_3 numeral_2_eq_2)
  have m: "fr_mult 0 (int (length us)) g = Some us" using top_mult[of f a "[]" us g] g by simp
  have l: "fr_sp f + int (length us) \<le> int (length (fr_stack f))" "length (fr_stack g) = length (fr_stack f)"
    using grown_fields(3,12)[OF g] by simp_all
  have sp: "fr_sp ?d = int k" using grown_fields(1)[OF g] k by (simp add: fr_drop_def)
  have len: "k + length us \<le> length (fr_stack f)" using l k n by linarith
  let ?s = "take k (fr_stack g) @ us @ drop (k + length us) (fr_stack g)"
  have "fr_pushMult us ?d = Some (?d\<lparr>fr_stack := ?s, fr_sp := int k + int (length us)\<rparr>)"
    unfolding fr_pushMult_def sp using len l(2) by (simp add: slice_def copy_def fr_drop_def add.commute)
  then have x: "exec VH w g = Some (Next (advance (- off) (?d\<lparr>fr_stack := ?s, fr_sp := int k + int (length us)\<rparr>)) w)"
    by (simp add: exec_at[OF g h] op_RECUR_def o m)
  have "take k (fr_stack g) = take k (fr_stack f)"
  proof -
    have "k \<le> nat (fr_sp f)" using k n by linarith
    moreover have "take (nat (fr_sp f)) (fr_stack g) = take (nat (fr_sp f)) (fr_stack f)"
      using grown_keep[OF g] by (auto simp: kept_def)
    ultimately show ?thesis by (metis min.absorb1 take_take)
  qed
  moreover obtain s' d' where "g = f\<lparr>fr_stack := s', fr_sp := d', fr_ip := a\<rparr>" by (rule grownE[OF g]) blast
  ultimately have "restarted f (fr_sp f - p) (a - off) us (advance (- off) (?d\<lparr>fr_stack := ?s, fr_sp := int k + int (length us)\<rparr>))"
    unfolding restarted_def using k len l n
    by (intro exI[of _ ?s] exI[of _ k]) (simp add: advance_def fr_drop_def)
  then show ?thesis using comes_next[OF x] by blast
qed

lemma restarted_below:
  assumes 1: "grown f b vs g" and 2: "restarted g d a us f1" and d: "d \<le> fr_sp f"
  shows "restarted f d a us f1"
proof -
  obtain s n where g: "g = f\<lparr>fr_stack := s, fr_sp := int (n + length vs), fr_ip := b\<rparr>" "fr_sp f = int n"
    "length s = length (fr_stack f)" "n + length vs \<le> length s" "take (n + length vs) s = take n (fr_stack f) @ vs"
    by (rule grownE[OF 1])
  obtain t m where h: "f1 = g\<lparr>fr_stack := t, fr_sp := d, fr_ip := a\<rparr>" "length t = length (fr_stack g)" "d = int (m + length us)"
    "m + length us \<le> length t" "take (m + length us) t = take m (fr_stack g) @ us"
    using 2 by (auto simp: restarted_def)
  have m: "m \<le> n" using d h(3) g(2) by simp
  have "take m s = take m (take (n + length vs) s)" using m by (simp add: min_def)
  also have "\<dots> = take m (fr_stack f)" using m g(3,4) by (simp only: g(5)) (simp add: min_def take_append)
  finally show ?thesis unfolding restarted_def by (intro exI[of _ t] exI[of _ m]) (use g h d in simp)
qed

text \<open>A loop that restarts has its new values in the place of the old ones.\<close>

lemma restarted_grown:
  assumes 1: "grown f b vs g" and 2: "restarted g (fr_sp g) a us f1" and l: "length us = length vs"
  shows "grown f a us f1"
proof -
  obtain s n where g: "g = f\<lparr>fr_stack := s, fr_sp := int (n + length vs), fr_ip := b\<rparr>" "fr_sp f = int n"
    "length s = length (fr_stack f)" "n + length vs \<le> length s" "take (n + length vs) s = take n (fr_stack f) @ vs"
    by (rule grownE[OF 1])
  obtain t m where h: "f1 = g\<lparr>fr_stack := t, fr_sp := fr_sp g, fr_ip := a\<rparr>" "length t = length (fr_stack g)" "fr_sp g = int (m + length us)"
    "m + length us \<le> length t" "take (m + length us) t = take m (fr_stack g) @ us"
    using 2 unfolding restarted_def by blast
  have m: "m = n" using h(3) g(1) l by simp
  have "take n s = take n (take (n + length vs) s)" by simp
  also have "\<dots> = take n (fr_stack f)" using g(3,4) by (simp only: g(5)) simp
  finally show ?thesis by (intro grownI[where s = t and n = n]) (use g h m l in simp_all)
qed

section \<open>Handlers\<close>

abbreviation with_handlers :: "handler list \<Rightarrow> frame \<Rightarrow> frame" where
  "with_handlers hs f \<equiv> f\<lparr>fr_handlers := hs\<rparr>"

lemma grown_handlers: "grown f a vs g \<Longrightarrow> grown (with_handlers hs f) a vs (with_handlers hs g)"
proof -
  assume 1: "grown f a vs g"
  obtain s n where g: "g = f\<lparr>fr_stack := s, fr_sp := int (n + length vs), fr_ip := a\<rparr>" "fr_sp f = int n"
    "length s = length (fr_stack f)" "n + length vs \<le> length s" "take (n + length vs) s = take n (fr_stack f) @ vs"
    by (rule grownE[OF 1])
  show ?thesis by (rule grownI[where s = s and n = n]) (use g in simp_all)
qed

lemma kept_handlers: "kept f g \<Longrightarrow> kept (with_handlers hs f) (with_handlers hs g)"
proof -
  assume "kept f g"
  then obtain s d a where "g = f\<lparr>fr_stack := s, fr_sp := d, fr_ip := a\<rparr>" "length s = length (fr_stack f)"
    "take (nat (fr_sp f)) s = take (nat (fr_sp f)) (fr_stack f)" by (auto simp: kept_def)
  then show ?thesis unfolding kept_def by (intro exI[of _ s] exI[of _ d] exI[of _ a]) simp
qed

lemma with_handlers_id: "fr_handlers f = hs \<Longrightarrow> with_handlers hs f = f"
  by (cases f) simp

lemma kept_fields: "kept f g \<Longrightarrow> fr_handlers g = fr_handlers f"
  by (auto simp: kept_def)

text \<open>\<open>catch\<close> and \<open>finally\<close> are given as offsets, 0 for none.\<close>

lemma run_try_push:
  assumes g: "grown f a vs g" and h: "holds (ck_code (fr_code f)) a (opword OP_TRY_PUSH d # map word_of_int [c, n])"
    and n: "0 \<le> c" "c < lim" "0 \<le> n" "n < lim"
  shows "\<exists>g1. comes VH g w (Running g1 [] w) \<and> grown (with_handlers (\<lparr>h_catchIP = if c \<noteq> 0 then a + c else - 1,
    h_finallyIP = if n \<noteq> 0 then a + n else - 1, h_savedSP = fr_sp f + int (length vs), h_pending = None\<rparr> # fr_handlers f) f) (a + 3) vs g1"
proof -
  let ?h = "\<lparr>h_catchIP = if c \<noteq> 0 then a + c else - 1, h_finallyIP = if n \<noteq> 0 then a + n else - 1,
    h_savedSP = fr_sp f + int (length vs), h_pending = None\<rparr>"
  have o: "operand 1 g = Some c" "operand 2 g = Some n"
    using operand_at[OF g h, of 0] operand_at[OF g h, of 1] n by simp_all
  have "exec VH w g = Some (Next (advance 3 (with_handlers (?h # fr_handlers f) g)) w)"
    using grown_fields(1,2,9)[OF g] by (simp add: exec_at[OF g h] op_TRY_PUSH_def o Let_def)
  then show ?thesis by (rule goes_next) (rule grown_advance[OF grown_handlers[OF g]])
qed

lemma run_try_pop:
  assumes g: "grown (with_handlers (x # hs) f) a vs g" and h: "holds (ck_code (fr_code f)) a [opword OP_TRY_POP d]"
  shows "\<exists>g1. comes VH g w (Running g1 [] w) \<and> grown (with_handlers hs f) (a + 1) vs g1"
proof -
  have "exec VH w g = Some (Next (advance 1 (with_handlers hs g)) w)"
    using grown_fields(9)[OF g] by (simp add: exec_at[OF g, simplified, OF h] op_TRY_POP_def)
  then show ?thesis by (rule goes_next) (use grown_advance[OF grown_handlers[OF g, of hs]] in simp)
qed

lemma run_finally_end:
  assumes g: "grown f a vs g" and h: "holds (ck_code (fr_code f)) a [opword OP_FINALLY_END d, word_of_int n]" and n: "- lim \<le> n" "n < lim"
    and p: "\<And>x hs e. fr_handlers f = x # hs \<Longrightarrow> h_pending x = Some e \<Longrightarrow> h_finallyIP x \<noteq> a + n"
  shows "\<exists>g1. comes VH g w (Running g1 [] w) \<and> grown f (a + 2) vs g1"
proof -
  have "operand 1 g = Some n"
    using holds_slot[OF h, of 1] grown_fields(2,7)[OF g] sint_u32[of n] n by (simp add: operand_def del: slot_eq_Some)
  then have "exec VH w g = Some (Next (advance 2 g) w)"
    using grown_fields(2,9)[OF g] p by (auto simp: exec_at[OF g h] op_FINALLY_END_def split: list.split option.split)
  then show ?thesis by (rule goes_next) (rule grown_advance[OF g])
qed

lemma run_finally_raise:
  assumes g: "grown (with_handlers (x # hs) f) a vs g" and h: "holds (ck_code (fr_code f)) a [opword OP_FINALLY_END d, word_of_int n]"
    and n: "- lim \<le> n" "n < lim" and x: "h_pending x = Some e" "h_finallyIP x = a + n"
  shows "comes VH g w (raise VH (with_handlers hs g) [] e w)"
proof -
  have "operand 1 g = Some n"
    using holds_slot[OF h, of 1] grown_fields(2,7)[OF g] sint_u32[of n] n by (simp add: operand_def del: slot_eq_Some)
  then have "exec VH w g = Some (Raise (with_handlers hs g) e w)"
    using grown_fields(2,9)[OF g] x by (simp add: exec_at[OF g, simplified, OF h] op_FINALLY_END_def)
  then show ?thesis by (rule comes_raise)
qed

text \<open>An error enters the innermost handler that is free.\<close>

lemma kept_push:
  assumes k: "kept f g" and r: "0 \<le> fr_sp f" "fr_sp f < int (length (fr_stack f))"
  obtains g1 where "fr_push v (g\<lparr>fr_handlers := hs, fr_sp := fr_sp f\<rparr>) = Some g1" "grown (with_handlers hs f) a [v] (g1\<lparr>fr_ip := a\<rparr>)"
proof -
  obtain s d b where g: "g = f\<lparr>fr_stack := s, fr_sp := d, fr_ip := b\<rparr>" "length s = length (fr_stack f)"
    "take (nat (fr_sp f)) s = take (nat (fr_sp f)) (fr_stack f)" using k by (auto simp: kept_def)
  let ?f = "with_handlers hs f" and ?g = "g\<lparr>fr_handlers := hs, fr_sp := fr_sp f\<rparr>"
  have "grown ?f b [] ?g" by (rule grownI[where s = s and n = "nat (fr_sp f)"]) (use g r in simp_all)
  from grown_push[OF this, of v] r obtain t where t: "fr_push v ?g = Some (?g\<lparr>fr_stack := t, fr_sp := fr_sp ?g + 1\<rparr>)"
    "grown ?f a ([] @ [v]) (?g\<lparr>fr_stack := t, fr_sp := fr_sp ?g + 1, fr_ip := a\<rparr>)" by auto
  show ?thesis by (rule that[OF t(1)]) (use t(2) in simp)
qed

lemma enter_catch:
  assumes k: "kept f g" "fr_handlers f = x # hs" "h_pending x = None" "0 \<le> h_catchIP x" "h_savedSP x = fr_sp f"
    and r: "0 \<le> fr_sp f" "fr_sp f < int (length (fr_stack f))"
  shows "\<exists>g1. raise VH g [] e w = Running g1 [] w \<and>
    grown (with_handlers (if h_finallyIP x < 0 then hs else x\<lparr>h_catchIP := - 1\<rparr> # hs) f) (h_catchIP x) [errorToValue e] g1"
proof -
  let ?hs = "if h_finallyIP x < 0 then hs else x\<lparr>h_catchIP := - 1\<rparr> # hs"
  obtain g1 where "fr_push (errorToValue e) (g\<lparr>fr_handlers := ?hs, fr_sp := fr_sp f\<rparr>) = Some g1"
    "grown (with_handlers ?hs f) (h_catchIP x) [errorToValue e] (g1\<lparr>fr_ip := h_catchIP x\<rparr>)" by (rule kept_push[OF k(1) r])
  then show ?thesis using k kept_fields[OF k(1)] by (simp add: raise_def handleError_def)
qed

lemma enter_finally:
  assumes k: "kept f g" "fr_handlers f = x # hs" "h_pending x = None" "h_catchIP x < 0" "0 \<le> h_finallyIP x" "h_savedSP x = fr_sp f"
    and r: "0 \<le> fr_sp f" "fr_sp f < int (length (fr_stack f))"
  shows "\<exists>g1. raise VH g [] e w = Running g1 [] w \<and>
    grown (with_handlers (x\<lparr>h_pending := Some e\<rparr> # hs) f) (h_finallyIP x) [NIL] g1"
proof -
  let ?hs = "x\<lparr>h_pending := Some e\<rparr> # hs"
  obtain g1 where "fr_push NIL (g\<lparr>fr_handlers := ?hs, fr_sp := fr_sp f\<rparr>) = Some g1"
    "grown (with_handlers ?hs f) (h_finallyIP x) [NIL] (g1\<lparr>fr_ip := h_finallyIP x\<rparr>)" by (rule kept_push[OF k(1) r])
  then show ?thesis using k kept_fields[OF k(1)] by (simp add: raise_def handleError_def)
qed

text \<open>One that is occupied is passed over.\<close>

lemma handle_with_other: "handle_with e hs (f\<lparr>fr_handlers := hs'\<rparr>) = handle_with e hs f"
  by (induction hs) (simp_all add: Let_def)

lemma pass_handler:
  assumes "fr_handlers g = x # hs" "h_pending x \<noteq> None"
  shows "raise VH g ps e w = raise VH (with_handlers hs g) ps e w"
  using assms by (simp add: raise_def handleError_def handle_with_other)

section \<open>Runs in sequence\<close>

lemma ends_after: "comes VH g w (Running g1 [] w1) \<Longrightarrow> ends VH T f g1 w1 a vs r w2 \<Longrightarrow> ends VH T f g w a vs r w2"
  by (cases r) (auto simp: ends_def intro: comes_trans)

lemma ends_value:
  assumes "grown f a vs g" "ends VH T g g w b [] (Val v) w1"
  shows "\<exists>g1. comes VH g w (Running g1 [] w1) \<and> grown f b (vs @ [v]) g1"
  using assms grown_trans[OF assms(1)] by (auto simp: ends_def)

text \<open>What is not a value ends the whole.\<close>

lemma ends_early:
  assumes g: "grown f a vs g" and e: "ends VH T1 g g w b us r w1" and r: "\<forall>v. r \<noteq> Val v"
    and T: "T1 = None \<or> T1 = T \<and> (\<forall>d ad n. T = Some (d, ad, n) \<longrightarrow> d \<le> fr_sp f)"
  shows "ends VH T f g w c xs r w1"
proof (cases r)
  case (Again ys)
  then obtain d ad g1 where a: "T1 = Some (d, ad, length ys)" "comes VH g w (Running g1 [] w1)" "restarted g d ad ys g1"
    using e by (auto simp: ends_def)
  then have "T = Some (d, ad, length ys)" "d \<le> fr_sp f" using T by auto
  then show ?thesis using a(2) restarted_below[OF g a(3)] Again by (auto simp: ends_def)
next
  case (Raised x)
  then show ?thesis using e kept_trans[OF g] by (auto simp: ends_def)
qed (use e r in \<open>auto simp: ends_def\<close>)

lemma ends_then:
  assumes g: "grown f a vs g" and m: "thenV m k = Some (r, w2)"
    and p: "\<And>r1 w1. m = Some (r1, w1) \<Longrightarrow> ends VH T1 g g w b [] r1 w1"
    and T: "T1 = None \<or> T1 = T \<and> (\<forall>d ad n. T = Some (d, ad, n) \<longrightarrow> d \<le> fr_sp f)"
    and c: "\<And>v w1 g1. comes VH g w (Running g1 [] w1) \<Longrightarrow> grown f b (vs @ [v]) g1 \<Longrightarrow> k v w1 = Some (r, w2) \<Longrightarrow>
      ends VH T f g1 w1 e us r w2"
  shows "ends VH T f g w e us r w2"
proof -
  obtain r1 w1 where r1: "m = Some (r1, w1)" using m by (auto simp: thenV_def split: option.splits prod.splits)
  note p = p[OF r1]
  show ?thesis
  proof (cases "\<exists>v. r1 = Val v")
    case True
    then obtain v where v: "r1 = Val v" by blast
    then obtain g1 where g1: "comes VH g w (Running g1 [] w1)" "grown f b (vs @ [v]) g1"
      using ends_value[OF g] p by blast
    have "k v w1 = Some (r, w2)" using m r1 v by (simp add: thenV_def)
    then show ?thesis by (rule ends_after[OF g1(1) c[OF g1]])
  next
    case False
    then have "r = r1" "w2 = w1" using m r1 by (auto simp: thenV_def split: answer.splits)
    then show ?thesis using ends_early[OF g p _ T] False by simp
  qed
qed

end
