(* ===== verification/LG_Implements.thy ===== *)
theory LG_Implements
  imports LG_CompilerSafe LG_CodeRun
begin

text \<open>
  What it means that compiled code does what its form means. \<open>implements\<close> says of the code between
  two states of the compiler that it runs to what a meaning gives: from any frame that has the code
  in its place, the constants at hand and the locals on its stack. Constants, locals, vars and
  symbols are proved here, on top of the lemmas that split code and frames.
\<close>

section \<open>Code in its place\<close>

definition pending_before :: "frame \<Rightarrow> int \<Rightarrow> bool" where
  "pending_before f a \<longleftrightarrow> (\<forall>h\<in>set (fr_handlers f). h_pending h \<noteq> None \<longrightarrow> h_finallyIP h \<le> a)"

definition fits :: "vv list \<Rightarrow> 'e cstate \<Rightarrow> 'e cstate \<Rightarrow> frame \<Rightarrow> bool" where
  "fits P st st' f \<longleftrightarrow> small st' \<and> extends (cs_pool st') P \<and> cx_spMax (cs_cur st') \<le> int (length (fr_stack f)) \<and>
     holds (ck_code (fr_code f)) (currentAddress (cs_cur st)) (words (cs_cur st) (cs_cur st')) \<and>
     pending_before f (currentAddress (cs_cur st))"

definition loaded :: "'e chost \<Rightarrow> vv list \<Rightarrow> ec \<Rightarrow> 'h world \<Rightarrow> frame \<Rightarrow> bool" where
  "loaded H P ec w f \<longleftrightarrow> ck_consts (fr_code f) = ch_pool H \<and> int (length P) \<le> fr_constsc f \<and>
     extends P (w_pools w (ch_pool H)) \<and> fr_ec f = ec"

text \<open>The environment gives the locals their values on the stack: those with a plain name, and of the
  names that the compiler makes up the ones in \<open>X\<close>.\<close>

definition lexical :: "string set \<Rightarrow> cctx \<Rightarrow> (string \<Rightarrow> vv option) \<Rightarrow> frame \<Rightarrow> bool" where
  "lexical X c env f \<longleftrightarrow> (\<forall>s. env s = (if plain_name s \<or> s \<in> X then Option.bind (lookupLocal s c) (slot (fr_stack f)) else None))"

definition target :: "cctx \<Rightarrow> (int \<times> int \<times> nat) option" where
  "target c = (if cx_tail c then (case cx_recurs c of
     rp # _ \<Rightarrow> Some (cx_sp c - passed c rp, rp_address rp, rp_argsc rp) | [] \<Rightarrow> None) else None)"

text \<open>Compilation at the top level, where there is neither an enclosing function nor a parameter.\<close>

definition ready :: "'e cstate \<Rightarrow> bool" where
  "ready st \<longleftrightarrow> st_ok st \<and> enters (cs_cur st) [] \<and> (cx_tail (cs_cur st) \<longrightarrow> cx_recurs (cs_cur st) \<noteq> []) \<and>
     cs_outer st = [] \<and> cx_args (cs_cur st) = [] \<and> \<not> cx_isFunction (cs_cur st)"

definition implements ::
    "string set \<Rightarrow> 'h host \<Rightarrow> 'e chost \<Rightarrow> vv list \<Rightarrow> ec \<Rightarrow> 'e cstate \<Rightarrow> 'e cstate \<Rightarrow> 'h sem \<Rightarrow> bool" where
  "implements X VH H P ec st st' m \<longleftrightarrow> (\<forall>f w env r w1. fits P st st' f \<longrightarrow> loaded H P ec w f \<longrightarrow>
     fr_ip f = currentAddress (cs_cur st) \<longrightarrow> fr_sp f = cx_sp (cs_cur st) \<longrightarrow> lexical X (cs_cur st) env f \<longrightarrow>
     m env w = Some (r, w1) \<longrightarrow> ends VH (target (cs_cur st)) f f w (currentAddress (cs_cur st')) [] r w1)"

lemma implementsI:
  assumes "\<And>f w env r w1. fits P st st' f \<Longrightarrow> loaded H P ec w f \<Longrightarrow> fr_ip f = currentAddress (cs_cur st) \<Longrightarrow>
    fr_sp f = cx_sp (cs_cur st) \<Longrightarrow> lexical X (cs_cur st) env f \<Longrightarrow> m env w = Some (r, w1) \<Longrightarrow>
    ends VH (target (cs_cur st)) f f w (currentAddress (cs_cur st')) [] r w1"
  shows "implements X VH H P ec st st' m"
  using assms by (simp add: implements_def)

section \<open>Frames with values on top\<close>

lemma fits_grown: "grown f a vs g \<Longrightarrow> fits P st st' f \<Longrightarrow> fits P st st' g"
  using grown_fields[of f a vs g] by (simp add: fits_def pending_before_def)

lemma loaded_grown: "grown f a vs g \<Longrightarrow> loaded H P ec w f \<Longrightarrow> loaded H P ec w g"
  using grown_fields[of f a vs g] by (simp add: loaded_def)

lemma loaded_comes:
  "host_pools VH \<Longrightarrow> comes VH g w m \<Longrightarrow> machine_world m = w1 \<Longrightarrow> loaded H P ec w f \<Longrightarrow> loaded H P ec w1 f"
  using comes_pools[of VH g w m] extends_trans unfolding loaded_def pools_grow_def by blast

lemma lexical_grown:
  "lexical X c env g \<Longrightarrow> grown g a us g1 \<Longrightarrow> ctx_ok c \<Longrightarrow> cx_sp c \<le> fr_sp g \<Longrightarrow> cx_locals c' = cx_locals c \<Longrightarrow> lexical X c' env g1"
proof -
  assume l: "lexical X c env g" and g: "grown g a us g1" and c: "ctx_ok c" "cx_sp c \<le> fr_sp g" "cx_locals c' = cx_locals c"
  have "slot (fr_stack g1) k = slot (fr_stack g) k" if "lookupLocal s c = Some k" for s k
    using lookupLocal_below[OF c(1) that] c(2) grown_slot[OF g, of k] by simp
  moreover have "lookupLocal s c' = lookupLocal s c" for s using c(3) by (simp add: lookupLocal_def)
  ultimately show ?thesis using l by (auto simp: lexical_def bind_eq_Some_conv split: Option.bind_split)
qed

lemma implements_at:
  assumes i: "implements X VH H P ec st st' m" and g: "grown f (currentAddress (cs_cur st)) vs g"
    and f: "fits P st st' f" "loaded H P ec w f" "cx_sp (cs_cur st) = fr_sp f + int (length vs)"
    and m: "lexical X (cs_cur st) env g" "m env w = Some (r, w1)"
  shows "ends VH (target (cs_cur st)) g g w (currentAddress (cs_cur st')) [] r w1"
  using i[unfolded implements_def, rule_format, OF fits_grown[OF g f(1)] loaded_grown[OF g f(2)] grown_fields(2)[OF g] _ m]
    grown_fields(1)[OF g] f(3) by simp

section \<open>Code of two parts\<close>

lemma pending_mono: "pending_before f a \<Longrightarrow> a \<le> b \<Longrightarrow> pending_before f b"
  by (auto simp: pending_before_def)

lemma fits_split:
  assumes f: "fits P st st' f" and g: "grows st st1" "grows st1 st'"
  shows "fits P st st1 f" "fits P st1 st' f"
proof -
  have w: "words (cs_cur st) (cs_cur st') = words (cs_cur st) (cs_cur st1) @ words (cs_cur st1) (cs_cur st')"
    and a: "currentAddress (cs_cur st1) = currentAddress (cs_cur st) + int (length (words (cs_cur st) (cs_cur st1)))"
    using g words_append[of "cs_cur st" "cs_cur st1" "cs_cur st'"] words_address[of "cs_cur st" "cs_cur st1"]
    by (simp_all add: grows_def)
  have h: "holds (ck_code (fr_code f)) (currentAddress (cs_cur st)) (words (cs_cur st) (cs_cur st1))"
    "holds (ck_code (fr_code f)) (currentAddress (cs_cur st1)) (words (cs_cur st1) (cs_cur st'))"
    using f by (simp_all add: fits_def w a holds_append)
  show "fits P st st1 f"
    using f h(1) small_grows[OF g(2)] g(2) extends_trans by (auto simp: fits_def grows_def)
  show "fits P st1 st' f"
    using f h(2) grows_address[OF g(1)] pending_mono by (auto simp: fits_def)
qed

lemma compiled_grows: "compiled H w k st st' \<Longrightarrow> grows st st'"
  by (simp add: compiled_def ran_def)

section \<open>Constants\<close>

text \<open>Sharing a constant does not change it.\<close>

lemma zero_hashes: "Float_Hash (FZero True) \<noteq> Float_Hash (FZero False)"
  by code_simp

lemma float_shared: "flt_eq x y \<Longrightarrow> Float_Hash x = Float_Hash y \<Longrightarrow> x = y"
  using zero_hashes by (cases x; cases y) (auto, (metis (full_types))+)

lemma constEqual_same: "constEqual x v \<Longrightarrow> plain_const x \<Longrightarrow> plain_const v \<Longrightarrow> x = v"
proof (induction x v rule: constEqual.induct)
  case (1 a b)
  then show ?case
    by (cases a; cases b) (auto simp: valueEquiv_def NumEq_def hashValue_def valueEquals_def hash_mismatch_def
        dest: float_shared split: if_splits)
qed auto

lemma implements_cong:
  "implements X VH H P ec st st' m \<Longrightarrow>
   (\<And>f env w x. fits P st st' f \<Longrightarrow> lexical X (cs_cur st) env f \<Longrightarrow> m' env w = Some x \<Longrightarrow> m env w = Some x) \<Longrightarrow>
   implements X VH H P ec st st' m'"
  unfolding implements_def by blast

lemma implements_mono: "implements X VH H P ec st st' m \<Longrightarrow> (\<And>env w x. m' env w = Some x \<Longrightarrow> m env w = Some x) \<Longrightarrow> implements X VH H P ec st st' m'"
  by (rule implements_cong)

text \<open>An instruction that pushes.\<close>

lemma implements_push:
  assumes st: "0 \<le> cx_sp (cs_cur st)" and pool: "extends (cs_pool st) Q"
    and st': "st' = upd_cur (incSP 1 \<circ> emitWithArg oc n) (st\<lparr>cs_pool := Q\<rparr>)"
    and i: "\<And>f w env r w1. fits P st st' f \<Longrightarrow> loaded H P ec w f \<Longrightarrow> fr_sp f = cx_sp (cs_cur st) \<Longrightarrow> lexical X (cs_cur st) env f \<Longrightarrow>
      grown f (currentAddress (cs_cur st)) [] f \<Longrightarrow> fr_sp f < int (length (fr_stack f)) \<Longrightarrow>
      holds (ck_code (fr_code f)) (currentAddress (cs_cur st)) [opword oc (cx_sp (cs_cur st)), word_of_int n] \<Longrightarrow> m env w = Some (r, w1) \<Longrightarrow>
      \<exists>v. r = Val v \<and> w1 = w \<and> (\<exists>g1. comes VH f w (Running g1 [] w) \<and> grown f (currentAddress (cs_cur st) + 2) ([] @ [v]) g1)"
  shows "implements X VH H P ec st st' m"
proof (rule implementsI)
  fix f w env r w1
  assume a: "fits P st st' f" "loaded H P ec w f" "fr_ip f = currentAddress (cs_cur st)" "fr_sp f = cx_sp (cs_cur st)"
    "lexical X (cs_cur st) env f" "m env w = Some (r, w1)"
  have r: "fr_sp f < int (length (fr_stack f))" using a(1,4) by (simp add: fits_def st' ctx_simps)
  have "grown f (currentAddress (cs_cur st)) [] f" by (rule grown_refl) (use st a(3,4) r in simp_all)
  moreover have "holds (ck_code (fr_code f)) (currentAddress (cs_cur st)) [opword oc (cx_sp (cs_cur st)), word_of_int n]"
    using a(1) by (simp add: fits_def st' words_def ctx_simps)
  ultimately obtain v where v: "r = Val v \<and> w1 = w \<and> (\<exists>g1. comes VH f w (Running g1 [] w) \<and> grown f (currentAddress (cs_cur st) + 2) ([] @ [v]) g1)"
    using i[OF a(1,2,4,5) _ r _ a(6)] by blast
  have "currentAddress (cs_cur st') = currentAddress (cs_cur st) + 2" by (simp add: st' ctx_simps)
  then show "ends VH (target (cs_cur st)) f f w (currentAddress (cs_cur st')) [] r w1" using v by (auto simp: ends_def)
qed

lemma pool_slot: "loaded H P ec w f \<Longrightarrow> slot P n = Some x \<Longrightarrow>
    slot (w_pools w (ck_consts (fr_code f))) n = Some x \<and> n < fr_constsc f"
  using slot_append[of P n x] by (auto simp: loaded_def extends_def slot_def split: if_splits)

lemma intern_slot:
  assumes "Intern v Q = (n, Q')" "extends Q' P"
  shows "\<exists>x. slot P n = Some x \<and> (x = v \<or> constEqual x v)" "0 \<le> n" "extends Q Q'" "n < int (length Q')"
proof -
  note s = Intern_spec[OF assms(1)]
  show "0 \<le> n" "n < int (length Q')" "extends Q Q'" using s by auto
  have "slot Q' n = Some (Q' ! nat n)" using s by (simp add: slot_def)
  then have "slot P n = Some (Q' ! nat n)" using assms(2) slot_append by (auto simp: extends_def simp del: slot_eq_Some)
  then show "\<exists>x. slot P n = Some x \<and> (x = v \<or> constEqual x v)" using s(4) by blast
qed

lemma implements_const:
  assumes st: "0 \<le> cx_sp (cs_cur st)" and P: "list_all plain_const P"
  shows "implements X VH H P ec st (loadConstant v st) (\<lambda>env. constant_answer v)"
proof -
  obtain n Q where i: "Intern v (cs_pool st) = (n, Q)" by fastforce
  have e: "loadConstant v st = upd_cur (incSP 1 \<circ> emitWithArg OP_LOAD_CONST n) (st\<lparr>cs_pool := Q\<rparr>)"
    by (simp add: loadConstant_def poolConstant_def i)
  show ?thesis
  proof (rule implements_push[OF st _ e])
    show "extends (cs_pool st) Q" using Intern_spec(3)[OF i] by auto
    fix f and w :: "'b world" and env r w1
    assume a: "fits P st (loadConstant v st) f" "loaded H P ec w f" "grown f (currentAddress (cs_cur st)) [] f"
      "fr_sp f < int (length (fr_stack f))" "constant_answer v w = Some (r, w1)"
      and h: "holds (ck_code (fr_code f)) (currentAddress (cs_cur st)) [opword OP_LOAD_CONST (cx_sp (cs_cur st)), word_of_int n]"
    have v: "plain_const v" "r = Val v" "w1 = w" using a(5) by (auto simp: constant_answer_def split: if_splits)
    have q: "extends Q P" "int (length Q) < lim" using a(1) by (simp_all add: fits_def small_def e)
    obtain x where x: "slot P n = Some x" "x = v \<or> constEqual x v" using intern_slot(1)[OF i q(1)] by blast
    have "x \<in> set P" using x(1) by (auto simp: slot_def split: if_splits)
    then have "x = v" using x(2) constEqual_same v(1) P by (auto simp: list_all_iff)
    then have "slot (w_pools w (ck_consts (fr_code f))) n = Some v \<and> n < fr_constsc f" using pool_slot[OF a(2) x(1)] by blast
    from run_const[OF a(3) h _ _ conjunct2[OF this] conjunct1[OF this]] show "\<exists>v. r = Val v \<and> w1 = w \<and>
        (\<exists>g1. comes VH f w (Running g1 [] w) \<and> grown f (currentAddress (cs_cur st) + 2) ([] @ [v]) g1)"
      using v intern_slot(2,4)[OF i q(1)] q(2) a(4) by simp
  qed
qed

lemma implements_var:
  assumes st: "0 \<le> cx_sp (cs_cur st)"
  shows "implements X VH H P ec st (loadVar x st) (\<lambda>env w. Some (Val (deref ec x (w_dyn w)), w))"
proof -
  obtain n Q where i: "Intern (VarV x) (cs_pool st) = (n, Q)" by fastforce
  have e: "loadVar x st = upd_cur (incSP 1 \<circ> emitWithArg OP_LOAD_VAR n) (st\<lparr>cs_pool := Q\<rparr>)"
    by (simp add: loadVar_def poolConstant_def i)
  show ?thesis
  proof (rule implements_push[OF st _ e])
    show "extends (cs_pool st) Q" using Intern_spec(3)[OF i] by auto
    fix f and w :: "'b world" and env r w1
    assume a: "fits P st (loadVar x st) f" "loaded H P ec w f" "grown f (currentAddress (cs_cur st)) [] f"
      "fr_sp f < int (length (fr_stack f))" "Some (Val (deref ec x (w_dyn w)), w) = Some (r, w1)"
      and h: "holds (ck_code (fr_code f)) (currentAddress (cs_cur st)) [opword OP_LOAD_VAR (cx_sp (cs_cur st)), word_of_int n]"
    have q: "extends Q P" "int (length Q) < lim" using a(1) by (simp_all add: fits_def small_def e)
    have "slot P n = Some (VarV x)" using intern_slot(1)[OF i q(1)] by auto
    then have p: "slot (w_pools w (ck_consts (fr_code f))) n = Some (VarV x) \<and> n < fr_constsc f" using pool_slot[OF a(2)] by blast
    have "fr_ec f = ec" using a(2) by (simp add: loaded_def)
    with run_var[OF a(3) h _ _ conjunct2[OF p] conjunct1[OF p]] show "\<exists>v. r = Val v \<and> w1 = w \<and>
        (\<exists>g1. comes VH f w (Running g1 [] w) \<and> grown f (currentAddress (cs_cur st) + 2) ([] @ [v]) g1)"
      using a(5) intern_slot(2,4)[OF i q(1)] q(2) a(4) by auto
  qed
qed

lemma implements_local:
  assumes st: "ctx_ok (cs_cur st)" and l: "lookupLocal s (cs_cur st) = Some l" "plain_name s \<or> s \<in> X"
  shows "implements X VH H P ec st (upd_cur (emitCell (LocalCell l)) st) (\<lambda>env w. map_option (\<lambda>v. (Val v, w)) (env s))"
proof -
  let ?c = "cs_cur st"
  have b: "0 \<le> l" "l < cx_sp ?c" "0 \<le> cx_sp ?c" "cx_sp ?c \<le> currentAddress ?c"
    using lookupLocal_below[OF st l(1)] st by (simp_all add: ctx_ok_def)
  have e: "upd_cur (emitCell (LocalCell l)) st = upd_cur (incSP 1 \<circ> emitWithArg OP_DUP_NTH (cx_sp ?c - 1 - l)) (st\<lparr>cs_pool := cs_pool st\<rparr>)"
    by (simp add: emitCell_def)
  show ?thesis
  proof (rule implements_push[OF b(3) _ e])
    fix f and w :: "'b world" and env r w1
    assume a: "fits P st (upd_cur (emitCell (LocalCell l)) st) f" "fr_sp f = cx_sp ?c" "lexical X ?c env f" "grown f (currentAddress ?c) [] f"
      "fr_sp f < int (length (fr_stack f))" "map_option (\<lambda>v. (Val v, w)) (env s) = Some (r, w1)"
      and h: "holds (ck_code (fr_code f)) (currentAddress ?c) [opword OP_DUP_NTH (cx_sp ?c), word_of_int (cx_sp ?c - 1 - l)]"
    obtain v where v: "env s = Some v" "r = Val v" "w1 = w" using a(6) by auto
    then have "slot (fr_stack f) l = Some v" using a(3) l by (simp add: lexical_def)
    moreover have "fr_sp f - 1 - (cx_sp ?c - 1 - l) = l" using a(2) by simp
    ultimately have s: "slot (fr_stack f) (fr_sp f - 1 - (cx_sp ?c - 1 - l)) = Some v" by (simp only:)
    have "cx_sp ?c - 1 - l < lim" using a(1) b by (simp add: fits_def small_def emitCell_def ctx_simps)
    from run_local[OF a(4) h _ this s] show "\<exists>v. r = Val v \<and> w1 = w \<and>
        (\<exists>g1. comes VH f w (Running g1 [] w) \<and> grown f (currentAddress ?c + 2) ([] @ [v]) g1)"
      using v b a(5) by simp
  qed simp
qed

section \<open>States at the top level\<close>

definition steady :: "'e chost \<Rightarrow> 'e \<Rightarrow> bool" where
  "steady H e \<longleftrightarrow> (\<forall>d. ch_lookup H d = ch_lookup H e \<and> ch_lookupPrivate H d = ch_lookupPrivate H e \<and>
     ch_core H d = ch_core H e \<and> ch_isMacro H d = ch_isMacro H e \<and> ch_uncheckedMath H d = ch_uncheckedMath H e)"

lemma steady_simps:
  assumes "steady H e"
  shows "ch_lookup H d = ch_lookup H e" "ch_lookupPrivate H d = ch_lookupPrivate H e" "ch_core H d = ch_core H e"
    "ch_isMacro H d = ch_isMacro H e" "ch_uncheckedMath H d = ch_uncheckedMath H e"
  using assms unfolding steady_def by blast+

lemma ready_ok:
  assumes "ready st"
  shows "st_ok st" "ctx_ok (cs_cur st)" "0 \<le> cx_sp (cs_cur st)" "cx_sp (cs_cur st) \<le> cx_spMax (cs_cur st)" "cs_outer st = []"
proof -
  show 1: "st_ok st" "cx_sp (cs_cur st) \<le> cx_spMax (cs_cur st)" "cs_outer st = []"
    using assms unfolding ready_def enters_def by blast+
  show "ctx_ok (cs_cur st)" by (rule st_ok_ctx[OF 1(1)])
  then show "0 \<le> cx_sp (cs_cur st)" by (simp add: ctx_ok_def)
qed

lemma setTail_fields [simp]:
  "cx_code (setTail b c) = cx_code c" "cx_sp (setTail b c) = cx_sp c" "cx_spMax (setTail b c) = cx_spMax c"
  "cx_locals (setTail b c) = cx_locals c" "cx_recurs (setTail b c) = cx_recurs c" "cx_args (setTail b c) = cx_args c"
  "cx_isFunction (setTail b c) = cx_isFunction c" "cx_captured (setTail b c) = cx_captured c" "currentAddress (setTail b c) = currentAddress c"
  "passed (setTail b c) rp = passed c rp" "lookupLocal s (setTail b c) = lookupLocal s c" "words (setTail b c) d = words c d"
  "words d (setTail b c) = words d c"
  by (simp_all add: setTail_def currentAddress_def passed_def lookupLocal_def words_def)

lemma ready_context:
  assumes "ready st"
  shows "cx_captured (cs_cur st) = []" "cx_args (cs_cur st) = []"
proof -
  show "cx_captured (cs_cur st) = []" using ready_ok(1,5)[OF assms] by simp
  show "cx_args (cs_cur st) = []" using assms by (simp add: ready_def)
qed

lemma ready_lookup: "ready st \<Longrightarrow> symbolLookup s st = (map_option LocalCell (lookupLocal s (cs_cur st)), st)"
  using ready_ok(5)[of st] ready_context[of st] by (simp add: symbolLookup_def arg_def capture_index_def split: option.split)

lemma ready_lexical: "ready st \<Longrightarrow> resolvesAsLexical s st \<longleftrightarrow> lookupLocal s (cs_cur st) \<noteq> None"
  using ready_ok(5)[of st] ready_context[of st] by (simp add: resolvesAsLexical_def arg_def capture_index_def)

lemma ready_next:
  assumes "compiled H w k st st1" "ready st" "\<not> cx_tail (cs_cur st)" "cx_sp (cs_cur st1) \<le> cx_spMax (cs_cur st1)"
  shows "ready st1"
proof -
  have "list_all2 outer_ext (cs_outer st) (cs_outer st1)" "same_ctx (cs_cur st) (cs_cur st1)"
    using assms(1) by (simp_all add: compiled_def ran_def grows_def)
  then show ?thesis
    using assms(2-4) compiled_ok[OF assms(1)] by (auto simp: ready_def enters_def same_ctx_def)
qed

lemma ready_setTail_False: "ready st \<Longrightarrow> ready (upd_cur (setTail False) st)"
proof -
  assume r: "ready st"
  have "enters (setTail False (cs_cur st)) []" using ready_ok(4)[OF r] by (simp add: enters_def)
  moreover have "st_ok (upd_cur (setTail False) st)" using ready_ok(1)[OF r] chain_ok_tail[of False "cs_cur st" "cs_outer st"] by simp
  ultimately show ?thesis using r unfolding ready_def by (simp del: chain_ok.simps)
qed

lemma lexical_None:
  assumes "lexical X c env f" "ctx_ok c" "plain_name s" "cx_sp c \<le> int (length (fr_stack f))"
  shows "env s = None \<longleftrightarrow> lookupLocal s c = None"
proof -
  have "slot (fr_stack f) l \<noteq> None" if "lookupLocal s c = Some l" for l
    using lookupLocal_below[OF assms(2) that] assms(4) by (simp add: slot_def)
  then show ?thesis using assms(1,3) by (cases "lookupLocal s c") (auto simp: lexical_def)
qed

lemma fits_room: "fits P st st' f \<Longrightarrow> cx_spMax (cs_cur st) \<le> cx_spMax (cs_cur st') \<Longrightarrow> ready st \<Longrightarrow>
    cx_sp (cs_cur st) \<le> int (length (fr_stack f))"
  using ready_ok(4)[of st] by (simp add: fits_def)

lemma implements_symbol:
  assumes e: "steady H e" and st: "ready st" and c: "compileSymbol H s st = Ok st'" and P: "list_all plain_const P"
  shows "implements X VH H P ec st st' (evSymbol H e ec s)"
proof (cases "plain_name s")
  case True
  let ?c = "cs_cur st"
  note ok = ready_ok[OF st] and env = steady_simps[OF e, of "cs_env st"]
  have fb: "implements X VH H P ec st st' (\<lambda>env w. case ch_hostClass H s of Some v \<Rightarrow> constant_answer v w | None \<Rightarrow> None)"
    if "(case ch_hostClass H s of Some v \<Rightarrow> Ok (loadConstant v st) | None \<Rightarrow> Err (CompileError ''Can't resolve symbol in this context'')) = Ok st'"
    using that implements_const[OF ok(3) P] by (auto split: option.splits)
  have global: "implements X VH H P ec st st' (\<lambda>env w. case resolveGlobal H e s of Some x \<Rightarrow> Some (Val (deref ec x (w_dyn w)), w)
      | None \<Rightarrow> (case ch_hostClass H s of Some v \<Rightarrow> constant_answer v w | None \<Rightarrow> None))"
    if "(case resolveGlobal H e s of Some x \<Rightarrow> Ok (loadVar x st) | None \<Rightarrow>
      (case ch_hostClass H s of Some v \<Rightarrow> Ok (loadConstant v st) | None \<Rightarrow> Err (CompileError ''Can't resolve symbol in this context''))) = Ok st'"
    using that implements_var[OF ok(3)] fb by (auto split: option.splits)
  show ?thesis
  proof (cases "splitNamespaced s")
    case (Some p)
    obtain sns name where p: "p = (sns, name)" by fastforce
    have "(case resolveGlobal H e s of Some x \<Rightarrow> Ok (loadVar x st) | None \<Rightarrow>
      (case ch_hostClass H s of Some v \<Rightarrow> Ok (loadConstant v st) | None \<Rightarrow> Err (CompileError ''Can't resolve symbol in this context''))) = Ok st'"
      using c unfolding compileSymbol_def resolveGlobal_def Let_def Some p
      by (simp add: env split: option.splits if_splits)
    from global[OF this] show ?thesis
      by (rule implements_mono) (auto simp: evSymbol_def True Some)
  next
    case None
    show ?thesis
    proof (cases "lookupLocal s ?c")
      case (Some l)
      then have "st' = upd_cur (emitCell (LocalCell l)) st"
        using c by (simp add: compileSymbol_def None ready_lookup[OF st])
      then have "implements X VH H P ec st st' (\<lambda>env w. map_option (\<lambda>v. (Val v, w)) (env s))"
        using implements_local[OF ok(2) Some disjI1[OF True]] by simp
      moreover have "cx_sp ?c \<le> int (length (fr_stack f))" if "fits P st st' f" for f
        by (rule fits_room[OF that _ st]) (simp add: \<open>st' = _\<close> emitCell_def ctx_simps)
      then have l: "env s \<noteq> None" if "fits P st st' f" "lexical X ?c env f" for f env
        using lexical_None[OF that(2) ok(2) True] Some that(1) by simp
      ultimately show ?thesis
        by (elim implements_cong) (drule l, assumption, use True None in \<open>auto simp: evSymbol_def\<close>)
    next
      case n: None
      have "(case resolveGlobal H e s of Some x \<Rightarrow> Ok (loadVar x st) | None \<Rightarrow>
        (case ch_hostClass H s of Some v \<Rightarrow> Ok (loadConstant v st) | None \<Rightarrow> Err (CompileError ''Can't resolve symbol in this context''))) = Ok st'"
        using c unfolding compileSymbol_def resolveGlobal_def Let_def None
        by (simp add: env ready_lookup[OF st] n split: option.splits)
      note g = global[OF this]
      have m: "cx_spMax ?c \<le> cx_spMax (cs_cur st')"
        using symbolLookup_ok(1)[OF ok(1)] c by (auto simp: compileSymbol_def None ready_lookup[OF st] n loadVar_def loadConstant_def poolConstant_def ctx_simps
            split: option.splits prod.splits)
      have l: "env s = None" if "fits P st st' f" "lexical X ?c env f" for f env
        using lexical_None[OF that(2) ok(2) True fits_room[OF that(1) m st]] n by simp
      show ?thesis by (rule implements_cong[OF g]) (drule l, assumption, use True None in \<open>simp add: evSymbol_def\<close>)
    qed
  qed
qed (simp add: implements_def evSymbol_def)


section \<open>Parts of a form\<close>

lemma grown_prefix:
  assumes 1: "grown f a vs g" and 2: "grown f b (vs @ us) g1"
  shows "grown g b us g1"
proof -
  obtain s n where g: "g = f\<lparr>fr_stack := s, fr_sp := int (n + length vs), fr_ip := a\<rparr>" "fr_sp f = int n"
    "length s = length (fr_stack f)" "n + length vs \<le> length s" "take (n + length vs) s = take n (fr_stack f) @ vs"
    by (rule grownE[OF 1])
  obtain t m where h: "g1 = f\<lparr>fr_stack := t, fr_sp := int (m + length (vs @ us)), fr_ip := b\<rparr>" "fr_sp f = int m"
    "length t = length (fr_stack f)" "m + length (vs @ us) \<le> length t" "take (m + length (vs @ us)) t = take m (fr_stack f) @ vs @ us"
    by (rule grownE[OF 2])
  have "m = n" using g(2) h(2) by simp
  then show ?thesis
    by (intro grownI[where s = t and n = "n + length vs"]) (use g h in \<open>simp_all add: add.assoc\<close>)
qed

lemma target_None [simp]: "\<not> cx_tail c \<Longrightarrow> target c = None"
  by (simp add: target_def)

lemma target_le: "target c = Some (d, a, n) \<Longrightarrow> d \<le> cx_sp c"
  by (auto simp: target_def passed_def split: if_splits list.splits)

lemma target_same: "same_ctx c c' \<Longrightarrow> cx_sp c' = cx_sp c \<Longrightarrow> target c' = target c"
  by (auto simp: target_def same_ctx_def passed_def split: list.split)

text \<open>The loop of an inner position is that of the outer one, if it has one.\<close>

definition reaches :: "(int \<times> int \<times> nat) option \<Rightarrow> (int \<times> int \<times> nat) option \<Rightarrow> int \<Rightarrow> bool" where
  "reaches T1 T d \<longleftrightarrow> T1 = None \<or> T1 = T \<and> (\<forall>b a n. T = Some (b, a, n) \<longrightarrow> b \<le> d)"

lemma reaches_None [simp]: "reaches None T d"
  by (simp add: reaches_def)

lemma reaches_target: "cx_sp c \<le> d \<Longrightarrow> reaches (target c) (target c) d"
  using target_le[of c] by (fastforce simp: reaches_def)

lemma reaches_under: "under c c1 \<Longrightarrow> cx_sp c \<le> d \<Longrightarrow> reaches (target c1) (target c) d"
proof (cases "cx_tail c1")
  case True
  assume u: "under c c1" and d: "cx_sp c \<le> d"
  have "target c1 = target c" using u True by (auto simp: under_def target_def split: list.splits)
  then show ?thesis using reaches_target[OF d] by simp
qed simp

lemma implements_run:
  assumes i: "implements X VH H P ec st st' m" and g: "grown f (currentAddress (cs_cur st)) vs g"
    and f: "fits P st st' f" "loaded H P ec w f" "cx_sp (cs_cur st) = fr_sp f + int (length vs)"
    and m: "lexical X (cs_cur st) env g" "m env w = Some (r, w1)" and T: "reaches (target (cs_cur st)) T (fr_sp f)"
  shows "ends VH T f g w (currentAddress (cs_cur st')) vs r w1"
proof -
  note e = implements_at[OF i g f m]
  show ?thesis
  proof (cases "\<exists>v. r = Val v")
    case True
    then show ?thesis using ends_value[OF g] e by (fastforce simp: ends_def)
  next
    case False
    then show ?thesis by (intro ends_early[OF g e] T[unfolded reaches_def]) blast
  qed
qed

text \<open>The value of a part goes on top.\<close>

lemma implements_then:
  assumes i: "implements X VH H P ec st st1 m" and g: "grown f (currentAddress (cs_cur st)) vs g"
    and f: "fits P st st1 f" "loaded H P ec w f" "cx_sp (cs_cur st) = fr_sp f + int (length vs)"
    and l: "lexical X (cs_cur st) env g" and T: "reaches (target (cs_cur st)) T (fr_sp f)" and hp: "host_pools VH"
    and m: "thenV (m env w) k = Some (r, w2)"
    and c: "\<And>v w1 g1. comes VH g w (Running g1 [] w1) \<Longrightarrow> grown f (currentAddress (cs_cur st1)) (vs @ [v]) g1 \<Longrightarrow>
      grown g (currentAddress (cs_cur st1)) [v] g1 \<Longrightarrow> loaded H P ec w1 f \<Longrightarrow> k v w1 = Some (r, w2) \<Longrightarrow> ends VH T f g1 w1 e us r w2"
  shows "ends VH T f g w e us r w2"
proof (rule ends_then[OF g m _ T[unfolded reaches_def]])
  show "ends VH (target (cs_cur st)) g g w (currentAddress (cs_cur st1)) [] r1 w1" if "m env w = Some (r1, w1)" for r1 w1
    by (rule implements_at[OF i g f l that])
  fix v w1 g1
  assume g1: "comes VH g w (Running g1 [] w1)" "grown f (currentAddress (cs_cur st1)) (vs @ [v]) g1" "k v w1 = Some (r, w2)"
  show "ends VH T f g1 w1 e us r w2"
    by (rule c[OF g1(1,2) grown_prefix[OF g g1(2)] loaded_comes[OF hp g1(1) _ f(2)] g1(3)]) simp
qed

text \<open>Flags, environments and counters do not matter.\<close>

lemma fits_from:
  "cs_cur a = cs_cur st \<Longrightarrow> fits P a st' f = fits P st st' f"
  "cs_cur b = cs_cur st' \<Longrightarrow> cs_pool b = cs_pool st' \<Longrightarrow> cs_outer b = cs_outer st' \<Longrightarrow> fits P st b f = fits P st st' f"
  by (simp_all add: fits_def small_def)

lemma implements_from:
  "cs_cur a = cs_cur st \<Longrightarrow> implements X VH H P ec a st' m = implements X VH H P ec st st' m"
  "cs_cur b = cs_cur st' \<Longrightarrow> cs_pool b = cs_pool st' \<Longrightarrow> cs_outer b = cs_outer st' \<Longrightarrow>
   implements X VH H P ec st b m = implements X VH H P ec st st' m"
  by (simp_all add: implements_def fits_from(1)[of a st] fits_from(2)[of b st'])

lemma fits_tail [simp]: "fits P st (upd_cur (setTail b) st') f = fits P st st' f" "fits P (upd_cur (setTail b) st) st' f = fits P st st' f"
  by (simp_all add: fits_def small_def)

lemma implements_tail [simp]: "implements X VH H P ec st (upd_cur (setTail b) st') m = implements X VH H P ec st st' m"
  by (simp add: implements_def)

lemma ready_env [simp]: "ready (st\<lparr>cs_env := x\<rparr>) = ready st" "ready (st\<lparr>cs_caught := k\<rparr>) = ready st"
  by (simp_all add: ready_def)

lemma ready_at:
  assumes r: "ready st" and ok: "st_ok st1" "cs_outer st1 = []" and u: "under (cs_cur st) (cs_cur st1)"
    and d: "cx_sp (cs_cur st1) \<le> cx_spMax (cs_cur st1)" "currentAddress (cs_cur st) \<le> currentAddress (cs_cur st1)"
    and s: "cx_args (cs_cur st1) = cx_args (cs_cur st)" "cx_isFunction (cs_cur st1) = cx_isFunction (cs_cur st)"
  shows "ready st1"
proof -
  have e: "enters (cs_cur st) []" "cx_tail (cs_cur st) \<longrightarrow> cx_recurs (cs_cur st) \<noteq> []" "cx_args (cs_cur st) = []" "\<not> cx_isFunction (cs_cur st)"
    using r unfolding ready_def by blast+
  have "enters (cs_cur st1) []" by (rule enters_under[OF u e(1) d])
  moreover have "cx_tail (cs_cur st1) \<longrightarrow> cx_recurs (cs_cur st1) \<noteq> []" using u e(2) by (auto simp: under_def)
  ultimately show ?thesis using ok s e unfolding ready_def by (simp del: chain_ok.simps)
qed

lemma ready_outer: "ready st \<Longrightarrow> grows st st1 \<Longrightarrow> cs_outer st1 = []"
  using ready_ok(5)[of st] by (simp add: grows_def)

lemma ready_ran:
  assumes "ready st" "ran H w k st st1" "under (cs_cur st) (cs_cur st1)" "cx_sp (cs_cur st1) \<le> cx_spMax (cs_cur st1)"
    "cx_args (cs_cur st1) = cx_args (cs_cur st)" "cx_isFunction (cs_cur st1) = cx_isFunction (cs_cur st)"
  shows "ready st1"
proof -
  have "grows st st1" "st_ok st1" using assms(2) unfolding ran_def by blast+
  then show ?thesis using ready_at[OF assms(1) _ ready_outer[OF assms(1)] assms(3,4) grows_address assms(5,6)] by blast
qed

lemma ready_same:
  assumes "ready st" "compiled H w 0 st st1"
  shows "ready st1"
proof -
  have r: "ran H w 0 st st1" "same_ctx (cs_cur st) (cs_cur st1)" using assms(2) unfolding compiled_def by blast+
  show ?thesis
    by (rule ready_ran[OF assms(1) r(1) under_same[OF r(2)]])
      (use r compiled_sp[OF assms(2)] compiled_spMax[OF assms(2)] ready_ok(4)[OF assms(1)] in \<open>simp_all add: same_ctx_def\<close>)
qed

end
