(* ===== verification/LG_Correct.thy ===== *)
theory LG_Correct
  imports LG_Implements
begin

text \<open>
  Each form compiler implements the evaluator's clause of \<open>LG_Eval\<close>, in a locale whose assumption
  is that the compiler of subforms implements the evaluator of subforms.
\<close>

section \<open>Branches\<close>

lemma ends_on:
  assumes "ends VH T f g w a vs r w1"
    and "\<And>v g1. grown f a (vs @ [v]) g1 \<Longrightarrow> \<exists>g2. comes VH g1 w1 (Running g2 [] w1) \<and> grown f b (us @ [v]) g2"
  shows "ends VH T f g w b us r w1"
proof (cases "\<exists>v. r = Val v")
  case True
  then obtain v where v: "r = Val v" by blast
  then obtain g1 where g1: "comes VH g w (Running g1 [] w1)" "grown f a (vs @ [v]) g1" using assms(1) by (auto simp: ends_def)
  obtain g2 where g2: "comes VH g1 w1 (Running g2 [] w1)" "grown f b (us @ [v]) g2" using assms(2)[OF g1(2)] by blast
  show ?thesis using v g2(2) comes_trans[OF g1(1) g2(1)] by (auto simp: ends_def)
next
  case False
  then show ?thesis using assms(1) by (cases r) (simp_all add: ends_def)
qed

lemma small_store: "store_grows b st \<Longrightarrow> currentAddress (cs_cur b) \<le> currentAddress (cs_cur st) \<Longrightarrow> small st \<Longrightarrow> small b"
proof -
  assume g: "store_grows b st" and a: "currentAddress (cs_cur b) \<le> currentAddress (cs_cur st)" and m: "small st"
  have l: "length (cs_pool b) \<le> length (cs_pool st)" "length (cx_captured (cs_cur b)) \<le> length (cx_captured (cs_cur st))"
      "set (cs_pool b) \<subseteq> set (cs_pool st)"
    using g by (simp_all add: store_grows_def extends_length extends_set)
  have "\<forall>c\<in>set (cs_outer b). int (length (cx_captured c)) < lim"
    by (rule outers_captured[of _ "cs_outer st"]) (use g m in \<open>simp_all add: store_grows_def small_def\<close>)
  then show ?thesis using l a m unfolding small_def by auto
qed

text \<open>A part of code in its place is in its place.\<close>

lemma fits_part:
  assumes f: "fits P st st' f" and w: "cx_code (cs_cur st') = A @ words (cs_cur a) (cs_cur b) @ B"
    and a: "length A = length (cx_code (cs_cur a))" "currentAddress (cs_cur st) \<le> currentAddress (cs_cur a)"
    and x: "extends (cx_code (cs_cur st)) (cx_code (cs_cur st'))" "extends (cx_code (cs_cur a)) (cx_code (cs_cur b))" and s: "store_grows b st'"
  shows "fits P a b f"
proof -
  let ?n = "length (cx_code (cs_cur st))"
  have n: "?n \<le> length A" using a by (simp add: currentAddress_def)
  have e: "words (cs_cur st) (cs_cur st') = drop ?n A @ words (cs_cur a) (cs_cur b) @ B" using n by (simp add: words_def[of "cs_cur st"] w)
  have ad: "currentAddress (cs_cur a) = currentAddress (cs_cur st) + int (length (drop ?n A))"
    using n a by (simp add: currentAddress_def)
  have "holds (ck_code (fr_code f)) (currentAddress (cs_cur a)) (words (cs_cur a) (cs_cur b))"
    using f by (simp add: fits_def e holds_append ad)
  moreover have "small b"
  proof (rule small_store[OF s])
    show "currentAddress (cs_cur b) \<le> currentAddress (cs_cur st')"
      using words_address[OF x(2)] w a by (simp add: currentAddress_def)
  qed (use f in \<open>simp add: fits_def\<close>)
  moreover have "extends (cs_pool b) P" "cx_spMax (cs_cur b) \<le> int (length (fr_stack f))"
    using f s extends_trans by (auto simp: fits_def store_grows_def)
  ultimately show ?thesis using f pending_mono[OF _ a(2)] by (simp add: fits_def)
qed

lemma holds_part:
  assumes f: "fits P st st' f" and w: "cx_code (cs_cur st') = A @ ws @ B" and a: "currentAddress (cs_cur st) \<le> int (length A)"
  shows "holds (ck_code (fr_code f)) (int (length A)) ws"
proof -
  let ?n = "length (cx_code (cs_cur st))"
  have n: "?n \<le> length A" using a by (simp add: currentAddress_def)
  have "words (cs_cur st) (cs_cur st') = drop ?n A @ ws @ B" using n by (simp add: words_def w)
  moreover have "int (length A) = currentAddress (cs_cur st) + int (length (drop ?n A))" using n by (simp add: currentAddress_def)
  ultimately show ?thesis using f by (simp add: fits_def holds_append)
qed

lemma branches_code:
  assumes s2: "s2 = upd_cur (setTail tc \<circ> decSP 1 \<circ> emitWithArg OP_BRANCH_FALSE 0) s1"
    and t: "extends (cx_code (cs_cur s2)) (cx_code (cs_cur s3))"
    and s5: "s5 = upd_cur (updatePlaceholderArg a1 (currentAddress (cs_cur s3) + 2 - a1) \<circ> emitWithArg OP_JUMP 0 \<circ> decSP 1) s3"
    and e: "extends (cx_code (cs_cur s5)) (cx_code (cs_cur s6))"
    and s': "st' = upd_cur (updatePlaceholderArg a3 (currentAddress (cs_cur s6) - a3)) s6"
    and a: "a1 = currentAddress (cs_cur s1)" "a3 = currentAddress (cs_cur s3)"
  shows "cx_code (cs_cur st') = cx_code (cs_cur s1) @ [opword OP_BRANCH_FALSE (cx_sp (cs_cur s1)), word_of_int (currentAddress (cs_cur s5) - a1)] @
      words (cs_cur s2) (cs_cur s3) @ [opword OP_JUMP (cx_sp (cs_cur s3) - 1), word_of_int (currentAddress (cs_cur s6) - a3)] @ words (cs_cur s5) (cs_cur s6)"
    and "currentAddress (cs_cur s2) = a1 + 2" "currentAddress (cs_cur s5) = a3 + 2"
      "a3 = a1 + 2 + int (length (words (cs_cur s2) (cs_cur s3)))" "currentAddress (cs_cur st') = currentAddress (cs_cur s6)"
proof -
  let ?c1 = "cs_cur s1" and ?c2 = "cs_cur s2" and ?c3 = "cs_cur s3" and ?c5 = "cs_cur s5" and ?c6 = "cs_cur s6"
  let ?wt = "words ?c2 ?c3" and ?we = "words ?c5 ?c6"
  have c2: "cx_code ?c2 = cx_code ?c1 @ [opword OP_BRANCH_FALSE (cx_sp ?c1), 0]" by (simp add: s2 ctx_simps)
  show ad2: "currentAddress ?c2 = a1 + 2" by (simp add: c2 currentAddress_def a)
  show ad3: "a3 = a1 + 2 + int (length ?wt)" using words_address[OF t] ad2 a by simp
  show ad5: "currentAddress ?c5 = a3 + 2" by (simp add: s5 a ctx_simps)
  show "currentAddress (cs_cur st') = currentAddress ?c6" by (simp add: s')
  define j where "j = opword OP_JUMP (cx_sp ?c3 - 1)"
  have k3: "cx_code ?c3 = cx_code ?c1 @ opword OP_BRANCH_FALSE (cx_sp ?c1) # 0 # ?wt"
    using extends_words[OF t] c2 by simp
  have k4: "cx_code (emitWithArg OP_JUMP 0 (decSP 1 ?c3)) = cx_code ?c1 @ opword OP_BRANCH_FALSE (cx_sp ?c1) # 0 # ?wt @ [j, 0]"
    using k3 by (simp add: ctx_simps j_def)
  have k5: "cx_code ?c5 = (cx_code ?c1 @ opword OP_BRANCH_FALSE (cx_sp ?c1) # word_of_int (a3 + 2 - a1) # ?wt) @ [j, 0]"
    using patch_code[OF k4, of a1 "a3 + 2 - a1"] by (simp add: s5 a currentAddress_def)
  have k6: "cx_code ?c6 = (cx_code ?c1 @ opword OP_BRANCH_FALSE (cx_sp ?c1) # word_of_int (a3 + 2 - a1) # ?wt) @ j # 0 # ?we"
    using extends_words[OF e] k5 by simp
  have "a3 = int (length (cx_code ?c1 @ opword OP_BRANCH_FALSE (cx_sp ?c1) # word_of_int (a3 + 2 - a1) # ?wt))"
    using ad3 a by (simp add: currentAddress_def)
  from patch_code[OF k6 this, of "currentAddress ?c6 - a3"]
  show "cx_code (cs_cur st') = cx_code ?c1 @ [opword OP_BRANCH_FALSE (cx_sp ?c1), word_of_int (currentAddress ?c5 - a1)] @
      ?wt @ [j, word_of_int (currentAddress ?c6 - a3)] @ ?we"
    by (simp add: s' ad5)
qed

lemma ctx_ok_drop:
  assumes "ctx_ok c" "ctx_ok c1" "cx_locals c1 = cx_locals c" "cx_sp c1 = cx_sp c + 1"
  shows "ctx_ok (decSP 1 (emitWithArg oc n c1))" "ctx_ok (emitWithArg oc n (decSP 1 c1))"
proof -
  have l: "\<forall>m\<in>set (cx_locals c1). \<forall>e\<in>set m. snd e < cx_sp c1 + - 1" by (rule locals_below[OF assms(1,3)]) (simp add: assms(4))
  have "0 \<le> cx_sp c" using assms(1) by (simp add: ctx_ok_def)
  then show "ctx_ok (decSP 1 (emitWithArg oc n c1))"
    by (intro ctx_ok_ops[OF assms(2) _ _ l, where x = "opword oc (cx_sp c1)" and args = "[word_of_int n]"]) (use assms in \<open>simp_all add: ctx_simps\<close>)
  show "ctx_ok (emitWithArg oc n (decSP 1 c1))"
    by (intro ctx_ok_ops[OF assms(2) _ _ l, where x = "opword oc (cx_sp c1 - 1)" and args = "[word_of_int n]"])
      (use assms \<open>0 \<le> cx_sp c\<close> in \<open>simp_all add: ctx_simps\<close>)
qed

lemma implements_if:
  assumes st: "ready st" and hp: "host_pools VH" and r: "compiled H w0 1 (upd_cur (setTail False) st) s1"
    and s2: "s2 = upd_cur (setTail (cx_tail (cs_cur st)) \<circ> decSP 1 \<circ> emitWithArg OP_BRANCH_FALSE 0) s1"
    and t: "compiled H w0 1 s2 s3"
    and s5: "s5 = upd_cur (updatePlaceholderArg a1 (currentAddress (cs_cur s3) + 2 - a1) \<circ> emitWithArg OP_JUMP 0 \<circ> decSP 1) s3"
    and e: "compiled H w0 1 s5 s6"
    and s': "st' = upd_cur (updatePlaceholderArg a3 (currentAddress (cs_cur s6) - a3)) s6"
    and a: "a1 = currentAddress (cs_cur s1)" "a3 = currentAddress (cs_cur s3)"
    and i1: "implements X VH H P ec (upd_cur (setTail False) st) s1 m1" and i2: "implements X VH H P ec s2 s3 m2"
    and i3: "implements X VH H P ec s5 s6 m3"
  shows "implements X VH H P ec st st' (\<lambda>env w. thenV (m1 env w) (\<lambda>v w1. if IsTruthy v then m2 env w1 else m3 env w1))"
proof (rule implementsI)
  let ?c = "cs_cur st" and ?c1 = "cs_cur s1" and ?c2 = "cs_cur s2" and ?c3 = "cs_cur s3" and ?c5 = "cs_cur s5" and ?c6 = "cs_cur s6"
  fix f w env r' w2
  assume b: "fits P st st' f" "loaded H P ec w f" "fr_ip f = currentAddress ?c" "fr_sp f = cx_sp ?c" "lexical X ?c env f"
    "thenV (m1 env w) (\<lambda>v w1. if IsTruthy v then m2 env w1 else m3 env w1) = Some (r', w2)"
  have g1: "grows st s1" and g2: "grows s2 s3" and g5: "grows s5 s6"
    using compiled_grows[OF r] compiled_grows[OF t] compiled_grows[OF e] by (simp_all add: grows_def)
  have x: "extends (cx_code ?c2) (cx_code ?c3)" "extends (cx_code ?c5) (cx_code ?c6)" using g2 g5 by (simp_all add: grows_def)
  define o1 o3 :: u32 where o: "o1 = word_of_int (currentAddress ?c5 - a1)" "o3 = word_of_int (currentAddress ?c6 - a3)"
  note k = branches_code[OF s2 x(1) s5 x(2) s' a, folded o]
  have sc: "same_ctx ?c ?c2" "cx_sp ?c2 = cx_sp ?c" "same_ctx ?c ?c5" "cx_sp ?c5 = cx_sp ?c" "cx_locals ?c1 = cx_locals ?c"
    using r t compiled_sp[OF r] compiled_sp[OF t] by (simp_all add: s2 s5 compiled_def same_ctx_def ctx_simps)
  have sg: "store_grows s1 s2" "store_grows s2 s3" "store_grows s3 s5" "store_grows s5 s6" "store_grows s6 st'"
    using g2 g5 by (simp_all add: s2 s5 s' grows_store store_same ctx_simps)
  then have sg: "store_grows s1 st'" "store_grows s3 st'" "store_grows s6 st'" by (meson store_trans)+
  have ad: "currentAddress ?c \<le> a1" using grows_address[OF g1] a by simp
  have x': "extends (cx_code ?c) (cx_code (cs_cur st'))"
    using g1 k(1) extends_trans[of "cx_code ?c" "cx_code ?c1"] by (simp add: grows_def)
  note c1 = extends_words[of ?c ?c1]
  have f1: "fits P (upd_cur (setTail False) st) s1 f"
    unfolding fits_tail by (rule fits_part[OF b(1) _ refl _ x' _ sg(1), where B = "drop (length (cx_code ?c1)) (cx_code (cs_cur st'))"])
      (use k(1) c1 g1 in \<open>simp_all add: grows_def\<close>)
  have f2: "fits P s2 s3 f"
    by (rule fits_part[OF b(1) _ _ _ x' x(1) sg(2), where A = "cx_code ?c1 @ [opword OP_BRANCH_FALSE (cx_sp ?c1), o1]"])
      (use k ad a in \<open>simp_all add: currentAddress_def\<close>)
  have f3: "fits P s5 s6 f"
    by (rule fits_part[OF b(1) _ _ _ x' x(2) sg(3), where B = "[]" and A = "cx_code ?c1 @ [opword OP_BRANCH_FALSE (cx_sp ?c1), o1] @
        words ?c2 ?c3 @ [opword OP_JUMP (cx_sp ?c3 - 1), o3]"])
      (use k ad a in \<open>simp_all add: currentAddress_def\<close>)
  have h1: "holds (ck_code (fr_code f)) a1 [opword OP_BRANCH_FALSE (cx_sp ?c1), o1]"
    using holds_part[OF b(1) k(1)] ad a by (simp add: currentAddress_def)
  have h3: "holds (ck_code (fr_code f)) a3 [opword OP_JUMP (cx_sp ?c3 - 1), o3]"
    using holds_part[OF b(1), of "cx_code ?c1 @ [opword OP_BRANCH_FALSE (cx_sp ?c1), o1] @ words ?c2 ?c3"
        "[opword OP_JUMP (cx_sp ?c3 - 1), o3]" "words ?c5 ?c6"] k ad a
    by (simp add: currentAddress_def algebra_simps)
  have sm: "currentAddress ?c6 < lim" using b(1) k(5) by (simp add: fits_def small_def)
  have le: "a1 \<le> a3" "currentAddress ?c5 \<le> currentAddress ?c6" "0 \<le> a1" using k(4) grows_address[OF g5] a by (simp_all add: currentAddress_def)
  have g0: "grown f (currentAddress (cs_cur (upd_cur (setTail False) st))) [] f"
    by (rule grown_refl) (use b(3,4) ready_ok(3)[OF st] fits_room[OF f1[unfolded fits_tail] _ st] compiled_spMax[OF r] in simp_all)
  show "ends VH (target ?c) f f w (currentAddress (cs_cur st')) [] r' w2"
  proof (rule implements_then[OF i1 g0 f1 b(2) _ _ _ hp b(6)])
    show "lexical X (cs_cur (upd_cur (setTail False) st)) env f" using b(5) by (simp add: lexical_def)
    fix v w1 g1
    assume d: "comes VH f w (Running g1 [] w1)" "grown f (currentAddress ?c1) ([] @ [v]) g1" "loaded H P ec w1 f"
      "(if IsTruthy v then m2 env w1 else m3 env w1) = Some (r', w2)"
    obtain g2 where q: "comes VH g1 w1 (Running g2 [] w1)" "grown f (a1 + (if IsTruthy v then 2 else currentAddress ?c5 - a1)) [] g2"
      using run_branch[OF d(2)[folded a(1)] h1[unfolded o]] le k sm by auto
    have l: "lexical X ?c2 env g2" "lexical X ?c5 env g2"
      by (rule lexical_grown[OF b(5) q(2) ready_ok(2)[OF st]]; use b(4) sc in \<open>simp add: same_ctx_def\<close>)+
    have T: "reaches (target ?c2) (target ?c) (fr_sp f)" "reaches (target ?c5) (target ?c) (fr_sp f)"
      using reaches_target[of ?c "fr_sp f"] b(4) target_same[OF sc(1,2)] target_same[OF sc(3,4)] by simp_all
    have "ends VH (target ?c) f g2 w1 (currentAddress (cs_cur st')) [] r' w2"
    proof (cases "IsTruthy v")
      case True
      have "ends VH (target ?c) f g2 w1 a3 [] r' w2"
        unfolding a(2) by (rule implements_run[OF i2 _ f2 d(3) _ l(1) _ T(1)]) (use True q(2) k(2) sc b(4) d(4) in simp_all)
      then show ?thesis
      proof (rule ends_on)
        show "\<exists>g4. comes VH g3 w2 (Running g4 [] w2) \<and> grown f (currentAddress (cs_cur st')) ([] @ [u]) g4" if "grown f a3 ([] @ [u]) g3" for u g3
          using run_jump[OF that h3[unfolded o]] le k sm by simp
      qed
    next
      case False
      have "ends VH (target ?c) f g2 w1 (currentAddress ?c6) [] r' w2"
        by (rule implements_run[OF i3 _ f3 d(3) _ l(2) _ T(2)]) (use False q(2) k(3) sc b(4) d(4) in simp_all)
      then show ?thesis using k(5) by simp
    qed
    then show "ends VH (target ?c) f g1 w1 (currentAddress (cs_cur st')) [] r' w2" by (rule ends_after[OF q(1)])
  qed (use b(4) in simp_all)
qed

section \<open>Bindings\<close>

text \<open>Wherever these values are on top of \<open>f\<close>, the environment gives the locals their values.\<close>

definition placed :: "frame \<Rightarrow> vv list \<Rightarrow> string set \<Rightarrow> cctx \<Rightarrow> (string \<Rightarrow> vv option) \<Rightarrow> bool" where
  "placed f vs X c env \<longleftrightarrow> (\<forall>a g. grown f a vs g \<longrightarrow> lexical X c env g)"

lemma placed_lexical: "placed f vs X c env \<Longrightarrow> grown f a vs g \<Longrightarrow> lexical X c env g"
  by (simp add: placed_def)

lemma placed_nil: "lexical X c env f \<Longrightarrow> ctx_ok c \<Longrightarrow> cx_sp c \<le> fr_sp f \<Longrightarrow> placed f [] X c env"
  unfolding placed_def using lexical_grown[of X c env f _ "[]" _ c] by blast

lemma placed_same: "placed f vs X c env \<Longrightarrow> cx_locals c' = cx_locals c \<Longrightarrow> placed f vs X c' env"
  by (simp add: placed_def lexical_def lookupLocal_def)

lemma placed_open: "placed f vs X c env \<Longrightarrow> placed f vs X (pushLocals c) env"
  by (simp add: placed_def lexical_def lookupLocal_def pushLocals_def)

lemma placed_name:
  assumes p: "placed f vs X c env" and c: "cx_sp c = fr_sp f + int (length vs)"
    and c2: "cx_locals c2 = cx_locals c" "cx_locals c \<noteq> []" "cx_sp c2 = cx_sp c + 1"
  shows "placed f (vs @ [v]) (insert s X) (addLocal s c2) (env(s \<mapsto> v))"
  unfolding placed_def
proof (intro allI impI)
  fix a g assume g: "grown f a (vs @ [v]) g"
  have "grown f a vs (g\<lparr>fr_sp := fr_sp f + int (length vs), fr_ip := a\<rparr>)" using grown_cut[OF g, of "length vs" a] by simp
  then have l: "env s = (if plain_name s \<or> s \<in> X then Option.bind (lookupLocal s c) (slot (fr_stack g)) else None)" for s
    using p by (fastforce simp: placed_def lexical_def)
  have "slot (fr_stack g) (cx_sp c) = Some v" using grown_nth[OF g, of "length vs"] c by simp
  moreover have "lookupLocal s' (addLocal s c2) = (if s' = s then Some (cx_sp c) else lookupLocal s' c)" for s'
    using c2 by (cases "cx_locals c") (simp_all add: lookupLocal_def addLocal_def)
  ultimately show "lexical (insert s X) (addLocal s c2) (env(s \<mapsto> v)) g" using l by (simp add: lexical_def del: slot_eq_Some)
qed

lemma placed_bind:
  assumes "placed f vs X c env" "cx_sp c = fr_sp f + int (length vs)" "cx_locals c2 = cx_locals c" "cx_locals c \<noteq> []"
    "cx_sp c2 = cx_sp c + 1" "plain_name s \<or> s \<in> X"
  shows "placed f (vs @ [v]) X (addLocal s c2) (env(s \<mapsto> v))"
proof -
  have "plain_name s' \<or> s' \<in> insert s X \<longleftrightarrow> plain_name s' \<or> s' \<in> X" for s' using assms(6) by auto
  then show ?thesis using placed_name[OF assms(1-5), of v s] by (simp add: placed_def lexical_def)
qed

fun bnames :: "form list \<Rightarrow> string list" where
  "bnames (b # x # bs) = (case stripBindingMeta b of FSym s \<Rightarrow> s | _ \<Rightarrow> '''') # bnames bs"
| "bnames bs = []"

text \<open>Dropping the slots of a scope.\<close>

lemma run_popScope:
  assumes f: "fits P s st' f" and st': "st' = upd_cur (setTail tc \<circ> popScope (length us)) s" and n: "int (length us) < lim"
    and g: "grown f (currentAddress (cs_cur s)) (us @ [v]) g"
  shows "\<exists>g1. comes VH g w (Running g1 [] w) \<and> grown f (currentAddress (cs_cur st')) ([] @ [v]) g1"
proof (cases us)
  case Nil
  then show ?thesis using g by (auto simp: st' popScope_def popLocals_def Let_def currentAddress_def intro: comes_refl)
next
  case (Cons u us')
  have "holds (ck_code (fr_code f)) (currentAddress (cs_cur s)) [opword OP_POP_N (cx_sp (cs_cur s)), word_of_int (int (length us))]"
    using f by (simp add: fits_def st' words_def ctx_simps Cons)
  moreover have "currentAddress (cs_cur st') = currentAddress (cs_cur s) + 2" by (simp add: st' ctx_simps Cons)
  ultimately show ?thesis using run_pop_n[of f _ "[]" us v g] g n by simp
qed

section \<open>Parts, given the meaning of subforms\<close>

text \<open>What holds of everything outside the compiled form: the services are well-formed, the
  namespaces stay as they are while the form is compiled, native code keeps the constants, and the
  constants are such that equal ones are the same.\<close>

definition setting :: "'h host \<Rightarrow> 'e chost \<Rightarrow> 'e \<Rightarrow> 'h world \<Rightarrow> vv list \<Rightarrow> bool" where
  "setting VH H e w P \<longleftrightarrow> chost_ok H w \<and> steady H e \<and> host_pools VH \<and> list_all plain_const P"

locale meaning = subcompiler H w0 cf
  for H :: "'e chost" and w0 :: "'h world" and cf :: "'e compiler" +
  fixes VH :: "'h host" and e :: 'e and ec :: ec and P :: "vv list" and X :: "string set" and ev :: "'h evaluator"
  assumes means: "setting VH H e w0 P \<Longrightarrow> cf f st = Ok st' \<Longrightarrow> form_ok w0 f \<Longrightarrow> ready st \<Longrightarrow> implements X VH H P ec st st' (ev f)"
begin

lemma setting_parts:
  assumes "setting VH H e w0 P"
  shows "chost_ok H w0" "steady H e" "host_pools VH" "list_all plain_const P"
  using assms by (simp_all add: setting_def)

lemma part_ok:
  assumes h: "chost_ok H w0" and c: "cf f st = Ok st1" and f: "form_ok w0 f" and st: "ready st" "\<not> cx_tail (cs_cur st)"
  shows "compiled H w0 1 st st1" "ready st1" "\<not> cx_tail (cs_cur st1)" "grows st st1"
proof -
  show 1: "compiled H w0 1 st st1" by (rule sub[OF h c f ready_ok(1)[OF st(1)]])
  have "level st st1" using loud[OF h c f ready_ok(1)[OF st(1)]] st(2) by blast
  then have "cx_sp (cs_cur st1) \<le> cx_spMax (cs_cur st1)" using ready_ok(4)[OF st(1)] by (simp add: level_def)
  then show "ready st1" by (rule ready_next[OF 1 st])
  show "\<not> cx_tail (cs_cur st1)" using compiled_tail_eq[OF 1] st(2) by simp
  show "grows st st1" by (rule compiled_grows[OF 1])
qed

lemma all_ok:
  assumes h: "chost_ok H w0" and c: "compileAll cf fs st = Ok st1" and f: "\<forall>f\<in>set fs. form_ok w0 f" and st: "ready st" "\<not> cx_tail (cs_cur st)"
  shows "compiled H w0 (int (length fs)) st st1" "ready st1" "\<not> cx_tail (cs_cur st1)" "grows st st1"
proof -
  show 1: "compiled H w0 (int (length fs)) st st1" by (rule compileAll_ok[OF h c f ready_ok(1)[OF st(1)] st(2)])
  have "level st st1" by (rule compileAll_level[OF h c f ready_ok(1)[OF st(1)] st(2)])
  then have "cx_sp (cs_cur st1) \<le> cx_spMax (cs_cur st1)" using ready_ok(4)[OF st(1)] by (simp add: level_def)
  then show "ready st1" by (rule ready_next[OF 1 st])
  show "\<not> cx_tail (cs_cur st1)" using compiled_tail_eq[OF 1] st(2) by simp
  show "grows st st1" by (rule compiled_grows[OF 1])
qed

text \<open>Values go on top one after the other.\<close>

lemma run_args:
  assumes S: "setting VH H e w0 P"
  shows "compileAll cf fs st = Ok st1 \<Longrightarrow> \<forall>f\<in>set fs. form_ok w0 f \<Longrightarrow> ready st \<Longrightarrow> \<not> cx_tail (cs_cur st) \<Longrightarrow>
    grown f0 (currentAddress (cs_cur st)) vs g \<Longrightarrow> fits P st st1 f0 \<Longrightarrow> loaded H P ec w f0 \<Longrightarrow>
    cx_sp (cs_cur st) = fr_sp f0 + int (length vs) \<Longrightarrow> lexical X (cs_cur st) env g \<Longrightarrow> evArgs ev fs env w k = Some (r, w2) \<Longrightarrow>
    (\<And>us w1 g1. comes VH g w (Running g1 [] w1) \<Longrightarrow> length us = length fs \<Longrightarrow> grown f0 (currentAddress (cs_cur st1)) (vs @ us) g1 \<Longrightarrow>
      loaded H P ec w1 f0 \<Longrightarrow> k us w1 = Some (r, w2) \<Longrightarrow> ends VH T f0 g1 w1 b xs r w2) \<Longrightarrow>
    ends VH T f0 g w b xs r w2"
proof (induction fs arbitrary: st vs g w k)
  case Nil
  show ?case by (rule Nil(11)[of g w "[]"]) (use Nil in simp_all)
next
  case (Cons f fs)
  note h = setting_parts[OF S]
  obtain st2 where s: "cf f st = Ok st2" "compileAll cf fs st2 = Ok st1" using Cons.prems(1) by (auto simp: obind_Ok)
  have fo: "form_ok w0 f" "\<forall>f\<in>set fs. form_ok w0 f" using Cons.prems(2) by simp_all
  note 1 = part_ok[OF h(1) s(1) fo(1) Cons.prems(3,4)]
  note 2 = all_ok[OF h(1) s(2) fo(2) 1(2,3)]
  note ft = fits_split[OF Cons.prems(6) 1(4) 2(4)]
  have m: "thenV (ev f env w) (\<lambda>v w1. evArgs ev fs env w1 (\<lambda>vs. k (v # vs))) = Some (r, w2)" using Cons.prems(10) by simp
  show ?case
  proof (rule implements_then[OF means[OF S s(1) fo(1) Cons.prems(3)] Cons.prems(5) ft(1) Cons.prems(7,8,9) _ h(3) m])
    fix v w1 g1
    assume a: "comes VH g w (Running g1 [] w1)" "grown f0 (currentAddress (cs_cur st2)) (vs @ [v]) g1"
      "grown g (currentAddress (cs_cur st2)) [v] g1" "loaded H P ec w1 f0" "evArgs ev fs env w1 (\<lambda>vs. k (v # vs)) = Some (r, w2)"
    have l: "lexical X (cs_cur st2) env g1"
      by (rule lexical_grown[OF Cons.prems(9) a(3) ready_ok(2)[OF Cons.prems(3)]])
        (use Cons.prems(8) grown_fields(1)[OF Cons.prems(5)] 1(1) in \<open>simp_all add: compiled_def same_ctx_def\<close>)
    show "ends VH T f0 g1 w1 b xs r w2"
    proof (rule Cons.IH[OF s(2) fo(2) 1(2,3) a(2) ft(2) a(4) _ l a(5)])
      show "cx_sp (cs_cur st2) = fr_sp f0 + int (length (vs @ [v]))" using Cons.prems(8) compiled_sp[OF 1(1)] by simp
      fix us w3 g2
      assume b: "comes VH g1 w1 (Running g2 [] w3)" "length us = length fs" "grown f0 (currentAddress (cs_cur st1)) ((vs @ [v]) @ us) g2"
        "loaded H P ec w3 f0" "k (v # us) w3 = Some (r, w2)"
      show "ends VH T f0 g2 w3 b xs r w2"
        by (rule Cons.prems(11)[OF comes_trans[OF a(1) b(1)]]) (use b in simp_all)
    qed
  qed (use Cons.prems(4) in simp)
qed

text \<open>Forms of which the last gives the value.\<close>

lemma implements_pop_then:
  assumes S: "setting VH H e w0 P" and i: "implements X VH H P ec st s m1" and t: "\<not> cx_tail (cs_cur st) \<or> tp = cx_tail (cs_cur st)"
    and c: "compiled H w0 1 st s" and st: "ready st" and s1: "s1 = upd_cur (decSP 1 \<circ> emit OP_POP) s"
    and j: "implements X VH H P ec (upd_cur (setTail tp) s1) st' m2" and g: "grows s1 st'"
  shows "implements X VH H P ec (upd_cur (setTail tp) st) st' (\<lambda>env w. thenV (m1 env w) (\<lambda>v. m2 env))"
proof (rule implementsI)
  note h = setting_parts[OF S]
  fix f w env r w2
  assume a: "fits P (upd_cur (setTail tp) st) st' f" "loaded H P ec w f" "fr_ip f = currentAddress (cs_cur (upd_cur (setTail tp) st))"
    "fr_sp f = cx_sp (cs_cur (upd_cur (setTail tp) st))" "lexical X (cs_cur (upd_cur (setTail tp) st)) env f"
    "thenV (m1 env w) (\<lambda>v. m2 env) = Some (r, w2)"
  have at: "currentAddress (cs_cur (upd_cur (setTail tp) st)) = currentAddress (cs_cur st)" "cx_sp (cs_cur (upd_cur (setTail tp) st)) = cx_sp (cs_cur st)"
    by simp_all
  have p: "compiled H w0 0 st s1" using compiled_pop[OF c ready_ok(1)[OF st]] by (simp add: s1)
  have sc: "same_ctx (cs_cur st) (cs_cur s1)" "cx_sp (cs_cur s1) = cx_sp (cs_cur st)" using p compiled_sp[OF p] by (simp_all add: compiled_def)
  have gs: "grows s s1" by (simp add: s1 grows_def ctx_simps)
  have ft: "fits P st st' f" using a(1) by simp
  note f1 = fits_split[OF ft compiled_grows[OF c] grows_trans[OF gs g]]
  note f2 = fits_split[OF f1(2) gs g]
  have g0: "grown f (currentAddress (cs_cur st)) [] f"
    by (rule grown_refl) (use a(3,4) at ready_ok(3)[OF st] fits_room[OF f1(1) compiled_spMax[OF c] st] in simp_all)
  have l: "lexical X (cs_cur st) env f" using a(5) by (simp add: lexical_def)
  have T: "reaches (target (cs_cur st)) (target (cs_cur (upd_cur (setTail tp) st))) (fr_sp f)"
  proof (cases "cx_tail (cs_cur st)")
    case True
    then have "setTail tp (cs_cur st) = cs_cur st" using t setTail_same[of "cs_cur st"] by simp
    then show ?thesis using reaches_target[of "cs_cur st" "fr_sp f"] a(4) at(2) by simp
  qed simp
  show "ends VH (target (cs_cur (upd_cur (setTail tp) st))) f f w (currentAddress (cs_cur st')) [] r w2"
  proof (rule implements_then[OF i g0 f1(1) a(2) _ l T h(3) a(6)])
    fix v w1 g1
    assume b: "comes VH f w (Running g1 [] w1)" "grown f (currentAddress (cs_cur s)) ([] @ [v]) g1" "loaded H P ec w1 f" "m2 env w1 = Some (r, w2)"
    have "holds (ck_code (fr_code f)) (currentAddress (cs_cur s)) [opword OP_POP (cx_sp (cs_cur s))]"
      using f2(1) by (simp add: fits_def s1 words_def ctx_simps)
    note rp = run_pop[OF b(2) this]
    have "currentAddress (cs_cur s) + 1 = currentAddress (cs_cur s1)" by (simp add: s1 ctx_simps)
    with rp obtain g2 where g2: "comes VH g1 w1 (Running g2 [] w1)" "grown f (currentAddress (cs_cur s1)) [] g2" by auto
    have "ends VH (target (cs_cur (upd_cur (setTail tp) st))) f g2 w1 (currentAddress (cs_cur st')) [] r w2"
    proof (rule implements_run[OF j _ _ b(3) _ _ b(4)])
      show "lexical X (cs_cur (upd_cur (setTail tp) s1)) env g2"
        by (rule lexical_grown[OF l g2(2) ready_ok(2)[OF st]]) (use a(4) sc in \<open>simp_all add: same_ctx_def\<close>)
      have "target (cs_cur (upd_cur (setTail tp) s1)) = target (cs_cur (upd_cur (setTail tp) st))"
        by (rule target_same) (use sc in \<open>simp_all add: same_ctx_def setTail_def\<close>)
      then show "reaches (target (cs_cur (upd_cur (setTail tp) s1))) (target (cs_cur (upd_cur (setTail tp) st))) (fr_sp f)"
        using reaches_target[of "cs_cur (upd_cur (setTail tp) st)" "fr_sp f"] a(4) by simp
    qed (use g2 f2(2) a(4) sc in simp_all)
    from ends_after[OF g2(1) this] show "ends VH (target (cs_cur (upd_cur (setTail tp) st))) f g1 w1 (currentAddress (cs_cur st')) [] r w2" .
  qed (use a(4) at in simp_all)
qed

lemma grows_tail [simp]: "grows (upd_cur (setTail b) st) st' = grows st st'" "grows st (upd_cur (setTail b) st') = grows st st'"
  by (simp_all add: grows_def)

lemma implements_body:
  assumes S: "setting VH H e w0 P" and pre: "\<And>f st st1. pre f st = Ok st1 \<Longrightarrow> \<exists>x. st1 = st\<lparr>cs_env := x\<rparr>"
  shows "compileBody pre cf tp fs st = Ok st1 \<Longrightarrow> \<forall>f\<in>set fs. form_ok w0 f \<Longrightarrow> ready st \<Longrightarrow> ready (upd_cur (setTail tp) st) \<Longrightarrow>
    \<not> cx_tail (cs_cur st) \<Longrightarrow> implements X VH H P ec (upd_cur (setTail tp) st) st1 (evBody ev fs)"
proof (induction fs arbitrary: st rule: induct_list012)
  case 1
  have "st1 = loadConstant NIL st" using 1 by simp
  then have "upd_cur (setTail tp) st1 = loadConstant NIL (upd_cur (setTail tp) st)"
    by (simp add: loadConstant_def poolConstant_def setTail_def incSP_def emitWithArg_def emit_def append32_def split: prod.split)
  moreover have "implements X VH H P ec (upd_cur (setTail tp) st) (loadConstant NIL (upd_cur (setTail tp) st)) (\<lambda>env. constant_answer NIL)"
    by (rule implements_const) (use ready_ok(3)[OF 1(4)] setting_parts(4)[OF S] in simp_all)
  ultimately have "implements X VH H P ec (upd_cur (setTail tp) st) (upd_cur (setTail tp) st1) (\<lambda>env. constant_answer NIL)" by simp
  then have "implements X VH H P ec (upd_cur (setTail tp) st) st1 (\<lambda>env. constant_answer NIL)" by simp
  then show ?case by (rule implements_mono) (simp add: constant_answer_def)
next
  case (2 f)
  then obtain st2 where p: "pre f st = Ok st2"
    and c2: "cf f (if tp then upd_cur (setTail True) st2 else st2) = Ok st1" by (auto simp: obind_Ok)
  then obtain x where x: "st2 = st\<lparr>cs_env := x\<rparr>" using pre by blast
  have "(if tp then upd_cur (setTail True) st2 else st2) = upd_cur (setTail tp) st2"
    using setTail_id[of st2 False] 2 x by simp
  moreover have "upd_cur (setTail tp) st2 = (upd_cur (setTail tp) st)\<lparr>cs_env := x\<rparr>" unfolding x by (cases st) simp
  ultimately have c: "cf f ((upd_cur (setTail tp) st)\<lparr>cs_env := x\<rparr>) = Ok st1" using c2 by (simp only:)
  have "implements X VH H P ec ((upd_cur (setTail tp) st)\<lparr>cs_env := x\<rparr>) st1 (ev f)"
    by (rule means[OF S c]) (use 2 in \<open>simp_all only: ready_env list.set_intros ball_simps list.set\<close>)
  then show ?case by (simp add: implements_from(1)[of "(upd_cur (setTail tp) st)\<lparr>cs_env := x\<rparr>" "upd_cur (setTail tp) st"])
next
  case (3 f g fs)
  note h = setting_parts[OF S]
  obtain st2 st3 where p: "pre f st = Ok st2" and c2: "cf f st2 = Ok st3"
    and b: "compileBody pre cf tp (g # fs) (upd_cur (decSP 1 \<circ> emit OP_POP) st3) = Ok st1"
    using 3(3) by (auto simp: obind_Ok)
  then obtain x where x: "st2 = st\<lparr>cs_env := x\<rparr>" using pre by blast
  let ?st4 = "upd_cur (decSP 1 \<circ> emit OP_POP) st3"
  have f: "form_ok w0 f" "\<forall>f\<in>set (g # fs). form_ok w0 f" using 3 by simp_all
  have r2: "ready st2" "\<not> cx_tail (cs_cur st2)" using 3(5,7) by (simp_all add: x)
  have e2: "upd_cur (setTail tp) st2 = (upd_cur (setTail tp) st)\<lparr>cs_env := x\<rparr>" unfolding x by (cases st) simp
  have r2t: "ready (upd_cur (setTail tp) st2)" unfolding e2 ready_env by (rule 3(6))
  note 1 = part_ok[OF h(1) c2 f(1) r2]
  have p0: "compiled H w0 0 st2 ?st4" using compiled_pop[OF 1(1) ready_ok(1)[OF r2(1)]] by simp
  have r4: "ready ?st4" by (rule ready_same[OF r2(1) p0])
  have t4: "\<not> cx_tail (cs_cur ?st4)" using compiled_tail_eq[OF p0] r2(2) by simp
  have r4t: "ready (upd_cur (setTail tp) ?st4)"
    by (rule ready_same[OF r2t compiled_retail[OF p0 ready_ok(1)[OF r2(1)] r2(2)]])
  have i: "implements X VH H P ec (upd_cur (setTail tp) ?st4) st1 (evBody ev (g # fs))"
    by (rule 3(2)[OF b f(2) r4 r4t t4])
  have "compiled H w0 1 (upd_cur (setTail tp) ?st4) (upd_cur (setTail tp) st1)"
    by (rule compileBody_ok[OF h(1) pre b f(2) ready_ok(1)[OF r4] t4])
  from compiled_grows[OF this] have g: "grows ?st4 st1" by (simp only: grows_tail)
  have "implements X VH H P ec (upd_cur (setTail tp) st2) st1 (\<lambda>env w. thenV (ev f env w) (\<lambda>v. evBody ev (g # fs) env))"
    by (rule implements_pop_then[OF S means[OF S c2 f(1) r2(1)] disjI1[OF r2(2)] 1(1) r2(1) refl i g])
  then show ?case by (simp add: e2 implements_from(1)[of "(upd_cur (setTail tp) st)\<lparr>cs_env := x\<rparr>" "upd_cur (setTail tp) st"])
qed

text \<open>After a jump the context is the one at the start.\<close>

lemma ready_jump:
  assumes st: "ready st" and s: "st_ok s" "cs_outer s = []" "cx_sp (cs_cur s) = cx_sp (cs_cur st) + 1"
    and r: "cs_cur s' = setTail (cx_tail (cs_cur st)) (decSP 1 (emitWithArg oc n (cs_cur s))) \<or>
      cs_cur s' = updatePlaceholderArg p q (emitWithArg oc n (decSP 1 (cs_cur s)))" "cs_outer s' = cs_outer s"
    and c: "same_ctx (cs_cur st) (cs_cur s')" "cx_spMax (cs_cur st) \<le> cx_spMax (cs_cur s)"
      "currentAddress (cs_cur st) \<le> currentAddress (cs_cur s)" "cx_locals (cs_cur s) = cx_locals (cs_cur st)"
  shows "ready s'"
proof (rule ready_at[OF st])
  have d: "ctx_ok (decSP 1 (emitWithArg oc n (cs_cur s)))" "ctx_ok (emitWithArg oc n (decSP 1 (cs_cur s)))"
    by (rule ctx_ok_drop[OF ready_ok(2)[OF st] st_ok_ctx[OF s(1)] c(4) s(3)])+
  then have "ctx_ok (cs_cur s')" using r(1) by (auto simp: setTail_def)
  moreover have "cx_captured (cs_cur s') = cx_captured (cs_cur s)" using r(1) by (auto simp: ctx_simps)
  ultimately show "st_ok s'" using chain_cur[OF s(1), of "cs_cur s'"] r(2) by simp
  have sp: "cx_sp (cs_cur s') = cx_sp (cs_cur st)" "cx_spMax (cs_cur s') = cx_spMax (cs_cur s)"
    "currentAddress (cs_cur s) \<le> currentAddress (cs_cur s')"
    using r(1) s(3) by (auto simp: ctx_simps)
  show "under (cs_cur st) (cs_cur s')" by (rule under_same[OF c(1) sp(1)])
  show "cx_sp (cs_cur s') \<le> cx_spMax (cs_cur s')" "currentAddress (cs_cur st) \<le> currentAddress (cs_cur s')"
    using sp c(2,3) ready_ok(4)[OF st] by simp_all
qed (use s r(2) c(1) in \<open>simp_all add: same_ctx_def\<close>)

lemma if_implements:
  assumes S: "setting VH H e w0 P" and c: "ifCompiler cf (test # thn # els) st = Ok st'"
    and f: "\<forall>f\<in>set (test # thn # els). form_ok w0 f" and st: "ready st"
    and i1: "\<And>s. cf test (upd_cur (setTail False) st) = Ok s \<Longrightarrow> implements X VH H P ec (upd_cur (setTail False) st) s m1"
    and i2: "\<And>s s'. ready s \<Longrightarrow> cf thn s = Ok s' \<Longrightarrow> implements X VH H P ec s s' m2"
    and i3: "\<And>s s'. ready s \<Longrightarrow> (case els of x # _ \<Rightarrow> cf x s | [] \<Rightarrow> Ok (loadConstant NIL s)) = Ok s' \<Longrightarrow> implements X VH H P ec s s' m3"
  shows "implements X VH H P ec st st' (\<lambda>env w. thenV (m1 env w) (\<lambda>v w1. if IsTruthy v then m2 env w1 else m3 env w1))"
proof -
  note h = setting_parts[OF S]
  let ?c = "cs_cur st"
  let ?s2 = "\<lambda>s1. upd_cur (setTail (cx_tail ?c) \<circ> decSP 1 \<circ> emitWithArg OP_BRANCH_FALSE 0) s1"
  let ?s5 = "\<lambda>s1 s3. upd_cur (updatePlaceholderArg (currentAddress (cs_cur s1)) (currentAddress (cs_cur s3) + 2 - currentAddress (cs_cur s1)) \<circ>
    emitWithArg OP_JUMP 0 \<circ> decSP 1) s3"
  have adr: "currentAddress (emitWithArg OP_JUMP 0 (decSP 1 c)) = currentAddress c + 2" for c by (simp add: ctx_simps)
  obtain s1 s3 s6 where 1: "cf test (upd_cur (setTail False) st) = Ok s1" and 2: "cf thn (?s2 s1) = Ok s3"
    and 3: "(case els of x # _ \<Rightarrow> cf x (?s5 s1 s3) | [] \<Rightarrow> Ok (loadConstant NIL (?s5 s1 s3))) = Ok s6"
    and e: "st' = upd_cur (updatePlaceholderArg (currentAddress (cs_cur s3)) (currentAddress (cs_cur s6) - currentAddress (cs_cur s3))) s6"
    using c by (cases els) (auto simp: ifCompiler_def Let_def obind_Ok adr split: if_splits)
  have fs: "form_ok w0 test" "form_ok w0 thn" "\<forall>f\<in>set els. form_ok w0 f" using f by simp_all
  note p1 = part_ok[OF h(1) 1 fs(1) ready_setTail_False[OF st]]
  have r1: "compiled H w0 1 (upd_cur (setTail False) st) s1" "ready s1" using p1(1,2) by simp_all
  have c1: "same_ctx (setTail False ?c) (cs_cur s1)" "cx_sp (cs_cur s1) = cx_sp ?c + 1" "cx_spMax ?c \<le> cx_spMax (cs_cur s1)"
      "currentAddress ?c \<le> currentAddress (cs_cur s1)"
    using r1(1) compiled_sp[OF r1(1)] compiled_spMax[OF r1(1)] grows_address[OF compiled_grows[OF r1(1)]] by (simp_all add: compiled_def)
  have r2: "ready (?s2 s1)"
    by (rule ready_jump[OF st ready_ok(1,5)[OF r1(2)] c1(2), where oc = OP_BRANCH_FALSE and n = 0])
      (use c1 in \<open>simp_all add: same_ctx_def ctx_simps\<close>)
  have r3: "compiled H w0 1 (?s2 s1) s3" by (rule sub[OF h(1) 2 fs(2) ready_ok(1)[OF r2]])
  have c3: "same_ctx (cs_cur (?s2 s1)) (cs_cur s3)" "cx_sp (cs_cur s3) = cx_sp ?c + 1" "cx_spMax ?c \<le> cx_spMax (cs_cur s3)"
      "currentAddress ?c \<le> currentAddress (cs_cur s3)"
    using r3 compiled_sp[OF r3] compiled_spMax[OF r3] grows_address[OF compiled_grows[OF r3]] c1
    by (simp_all add: compiled_def ctx_simps)
  have r5: "ready (?s5 s1 s3)"
    by (rule ready_jump[OF st compiled_ok[OF r3] ready_outer[OF r2 compiled_grows[OF r3]] c3(2), where oc = OP_JUMP and n = 0 and
        p = "currentAddress (cs_cur s1)" and q = "currentAddress (cs_cur s3) + 2 - currentAddress (cs_cur s1)"])
      (use c1 c3 in \<open>simp_all add: same_ctx_def ctx_simps\<close>)
  have r6: "compiled H w0 1 (?s5 s1 s3) s6"
    using 3 fs sub[OF h(1) _ _ ready_ok(1)[OF r5]] loadConstant_ok[OF ready_ok(1)[OF r5], of w0 NIL] by (auto split: list.splits)
  show ?thesis
    by (rule implements_if[OF st h(3) r1(1) refl r3 refl r6 e refl refl i1[OF 1] i2[OF r2 2] i3[OF r5 3]])
qed

lemma nil_implements:
  assumes "setting VH H e w0 P" "ready st"
  shows "implements X VH H P ec st (loadConstant NIL st) (\<lambda>env w. Some (Val NIL, w))"
  by (rule implements_mono[OF implements_const[OF ready_ok(3)[OF assms(2)] setting_parts(4)[OF assms(1)]]]) (simp add: constant_answer_def)

lemma if_means:
  assumes S: "setting VH H e w0 P" and c: "ifCompiler cf args st = Ok st'" and f: "\<forall>f\<in>set args. form_ok w0 f" and st: "ready st"
  shows "implements X VH H P ec st st' (evIf ev args)"
proof -
  obtain test thn els where args: "args = test # thn # els" "length els \<le> 1"
    using c by (auto simp: ifCompiler_def Let_def split: list.splits if_splits)
  note fs = f[unfolded args] and m = means[OF S]
  let ?m3 = "case els of x # _ \<Rightarrow> ev x | [] \<Rightarrow> \<lambda>env w. Some (Val NIL, w)"
  have "implements X VH H P ec st st' (\<lambda>env w. thenV (ev test env w) (\<lambda>v w1. if IsTruthy v then ev thn env w1 else ?m3 env w1))"
  proof (rule if_implements[OF S c[unfolded args] fs st])
    show "implements X VH H P ec s s' ?m3" if "ready s" "(case els of x # _ \<Rightarrow> cf x s | [] \<Rightarrow> Ok (loadConstant NIL s)) = Ok s'" for s s'
    proof (cases els)
      case Nil
      then show ?thesis using that nil_implements[OF S that(1)] by simp
    next
      case (Cons x xs)
      then show ?thesis using m[of x s s'] that fs by simp
    qed
  qed (use m fs ready_setTail_False[OF st] in simp_all)
  then show ?thesis
    by (rule implements_mono) (use args in \<open>cases els; auto simp: evIf_def cong: if_cong\<close>)
qed

lemma do_means:
  assumes S: "setting VH H e w0 P" and c: "doCompiler H cf args st = Ok st'" and f: "\<forall>f\<in>set args. form_ok w0 f" and st: "ready st"
  shows "implements X VH H P ec st st' (evBody ev args)"
proof -
  let ?tc = "cx_tail (cs_cur st)"
  define s where "s = (case args of f # _ \<Rightarrow> (upd_cur (setTail False) st)\<lparr>cs_env := ch_detectInNS H f (cs_env (upd_cur (setTail False) st))\<rparr>
    | [] \<Rightarrow> upd_cur (setTail False) st)"
  have "\<exists>x. s = (upd_cur (setTail False) st)\<lparr>cs_env := x\<rparr>"
    using ex_env[of "upd_cur (setTail False) st"] by (cases args) (auto simp: s_def)
  then obtain x where x: "s = (upd_cur (setTail False) st)\<lparr>cs_env := x\<rparr>" by blast
  obtain st2 where b: "compileBody (simulate H) cf ?tc args s = Ok st2" and e: "st' = upd_cur (setTail ?tc) st2"
    using c by (auto simp: doCompiler_def Let_def obind_Ok s_def)
  have t: "upd_cur (setTail ?tc) s = st\<lparr>cs_env := x\<rparr>" unfolding x by (cases st) (simp add: setTail_setTail)
  have "implements X VH H P ec (upd_cur (setTail ?tc) s) st2 (evBody ev args)"
  proof (rule implements_body[OF S _ b f])
    show "ready s" unfolding x ready_env by (rule ready_setTail_False[OF st])
    show "ready (upd_cur (setTail ?tc) s)" unfolding t ready_env by (rule st)
    show "\<not> cx_tail (cs_cur s)" by (simp add: x)
  qed (auto simp: simulate_def obind_Ok)
  then have "implements X VH H P ec st st2 (evBody ev args)" unfolding t by (simp add: implements_from(1)[of "st\<lparr>cs_env := x\<rparr>" st])
  then show ?thesis unfolding e implements_tail .
qed

lemma quote_means:
  assumes S: "setting VH H e w0 P" and c: "quoteCompiler H args st = Ok st'" and st: "ready st"
  shows "implements X VH H P ec st st' (\<lambda>env. constant_answer (case args of f # _ \<Rightarrow> const_of H f | [] \<Rightarrow> NIL))"
  using c implements_const[OF ready_ok(3)[OF st] setting_parts(4)[OF S]] by (auto simp: quoteCompiler_def)

lemma var_means:
  assumes S: "setting VH H e w0 P" and c: "varCompiler H args st = Ok st'" and st: "ready st"
  shows "implements X VH H P ec st st' (\<lambda>env w. case args of
      FSym v # _ \<Rightarrow> (case ch_lookupPrivate H e v of Some x \<Rightarrow> Some (Val (VarV x), w) | None \<Rightarrow> None) | _ \<Rightarrow> None)"
proof -
  note h = setting_parts[OF S]
  obtain s x rest where a: "args = FSym s # rest" "ch_lookupPrivate H (cs_env st) s = Some x" "st' = loadConstant (VarV x) st"
    using c by (auto simp: varCompiler_def split: list.splits form.splits option.splits)
  have "ch_lookupPrivate H e s = Some x" using a(2) steady_simps(2)[OF h(2), of "cs_env st"] by simp
  then show ?thesis unfolding a(3)
    by (intro implements_mono[OF implements_const[OF ready_ok(3)[OF st] h(4)]]) (simp add: a(1) constant_answer_def)
qed

text \<open>Scopes.\<close>

lemma bindings_ready:
  assumes h: "chost_ok H w0" and b: "compileBindings cf binds (upd_cur (setTail False \<circ> pushLocals) st) = Ok s1"
    and f: "\<forall>f\<in>set binds. form_ok w0 f" and st: "ready st"
  shows "ran H w0 (int (length binds div 2)) st s1" "bound (length binds div 2) (pushLocals (cs_cur st)) (cs_cur s1)"
    "\<not> cx_tail (cs_cur s1)" "ready (upd_cur (setTail False \<circ> pushLocals) st)" "ready s1" "ready (upd_cur (setTail (cx_tail (cs_cur st))) s1)"
    "under (cs_cur st) (setTail (cx_tail (cs_cur st)) (cs_cur s1))"
proof -
  let ?s0 = "upd_cur (setTail False \<circ> pushLocals) st"
  note ok = ready_ok[OF st]
  show o: "ran H w0 (int (length binds div 2)) st s1" "bound (length binds div 2) (pushLocals (cs_cur st)) (cs_cur s1)"
    "\<not> cx_tail (cs_cur s1)"
    using bindings_open[OF h b f ok(1)] by simp_all
  have r0: "ran H w0 0 st ?s0" by (rule ran_pushLocals[OF ran_refl[OF ok(1)]])
  show 0: "ready ?s0"
    by (rule ready_ran[OF st r0 under_False]) (use ok(4) in \<open>simp_all add: pushLocals_def setTail_def\<close>)
  have "level ?s0 s1"
    by (rule compileBindings_level[OF h b f ready_ok(1)[OF 0]]) (simp_all add: pushLocals_def)
  then have l: "cx_sp (cs_cur s1) \<le> cx_spMax (cs_cur s1)" using ready_ok(4)[OF 0] by (simp add: level_def)
  show u: "under (cs_cur st) (setTail (cx_tail (cs_cur st)) (cs_cur s1))"
    by (rule under_bound[OF o(2) ok(2)]) (use o(1) in \<open>simp add: ran_def\<close>)
  have c: "cx_args (cs_cur s1) = cx_args (cs_cur st)" "cx_isFunction (cs_cur s1) = cx_isFunction (cs_cur st)"
    "cx_argCount (cs_cur s1) = cx_argCount (cs_cur st)"
    using o(2) by (simp_all add: bound_def pushLocals_def)
  show "ready s1" by (rule ready_ran[OF st o(1) under_False l]) (use c o(3) in simp_all)
  show "ready (upd_cur (setTail (cx_tail (cs_cur st))) s1)"
    by (rule ready_ran[OF st ran_setTail[OF o(1)]]) (use u l c in simp_all)
qed

lemma binding_step:
  assumes h: "chost_ok H w0" and c: "cf v st = Ok st2" and f: "form_ok w0 v" and st: "ready st" "\<not> cx_tail (cs_cur st)" "cx_locals (cs_cur st) \<noteq> []"
  shows "ready (upd_cur (addLocal name) st2)" "\<not> cx_tail (cs_cur (upd_cur (addLocal name) st2))" "cx_locals (cs_cur (upd_cur (addLocal name) st2)) \<noteq> []"
    "cx_locals (cs_cur st2) = cx_locals (cs_cur st)" "cx_sp (cs_cur st2) = cx_sp (cs_cur st) + 1" "grows st st2" "ready st2"
proof -
  note 1 = part_ok[OF h c f st(1,2)]
  show loc: "cx_locals (cs_cur st2) = cx_locals (cs_cur st)" using 1(1) by (simp add: compiled_def same_ctx_def)
  show sp: "cx_sp (cs_cur st2) = cx_sp (cs_cur st) + 1" by (rule compiled_sp[OF 1(1)])
  have r: "ran H w0 0 st2 (upd_cur (addLocal name) st2)"
    by (rule ran_addLocal[OF ran_refl[OF ready_ok(1)[OF 1(2)]]]) (use loc sp st ready_ok(3)[OF st(1)] in simp_all)
  show "ready (upd_cur (addLocal name) st2)"
    by (rule ready_ran[OF 1(2) r under_False]) (use ready_ok(4)[OF 1(2)] 1(3) in \<open>simp_all add: addLocal_def\<close>)
  show "\<not> cx_tail (cs_cur (upd_cur (addLocal name) st2))" "cx_locals (cs_cur (upd_cur (addLocal name) st2)) \<noteq> []"
    using 1(3) loc st(3) by (simp_all add: addLocal_def split: list.split)
  show "grows st st2" "ready st2" by (rule 1)+
qed

lemma bindings_placed:
  assumes h: "chost_ok H w0"
  shows "compileBindings cf bs st = Ok st1 \<Longrightarrow> \<forall>f\<in>set bs. form_ok w0 f \<Longrightarrow> ready st \<Longrightarrow> \<not> cx_tail (cs_cur st) \<Longrightarrow>
    cx_locals (cs_cur st) \<noteq> [] \<Longrightarrow> placed f0 vs X (cs_cur st) env \<Longrightarrow> cx_sp (cs_cur st) = fr_sp f0 + int (length vs) \<Longrightarrow>
    list_all (\<lambda>s. plain_name s \<or> s \<in> X) (bnames bs) \<Longrightarrow> length us = length bs div 2 \<Longrightarrow>
    placed f0 (vs @ us) X (cs_cur st1) (bind_all env (zip (bnames bs) us))"
proof (induction bs arbitrary: st vs us env rule: induct_list012)
  case (3 b v bs)
  obtain s st2 where b: "stripBindingMeta b = FSym s" "cf v st = Ok st2" "compileBindings cf bs (upd_cur (addLocal s) st2) = Ok st1"
    using 3(3) by (auto simp: obind_Ok split: form.splits)
  obtain u us' where us: "us = u # us'" "length us' = length bs div 2" using 3(11) by (cases us) auto
  have fv: "form_ok w0 v" "\<forall>f\<in>set bs. form_ok w0 f" using 3(4) by simp_all
  note 1 = binding_step(1,2,3)[OF h b(2) fv(1) 3(5,6,7), of s] binding_step(4,5,6,7)[OF h b(2) fv(1) 3(5,6,7)]
  have pl: "placed f0 (vs @ [u]) X (cs_cur (upd_cur (addLocal s) st2)) (env(s \<mapsto> u))"
    using placed_bind[OF 3(8,9) 1(4) 3(7) 1(5)] 3(10) b(1) by simp
  have "placed f0 ((vs @ [u]) @ us') X (cs_cur st1) (bind_all (env(s \<mapsto> u)) (zip (bnames bs) us'))"
    by (rule 3(1)[OF b(3) fv(2) 1(1,2,3) pl _ _ us(2)]) (use 3(9,10) 1(5) in \<open>simp_all add: addLocal_def\<close>)
  then show ?case by (simp add: us(1) b(1))
qed (simp_all split: form.splits)

lemma run_bindings:
  assumes S: "setting VH H e w0 P"
  shows "compileBindings cf bs st = Ok st1 \<Longrightarrow> \<forall>f\<in>set bs. form_ok w0 f \<Longrightarrow> ready st \<Longrightarrow> \<not> cx_tail (cs_cur st) \<Longrightarrow>
    cx_locals (cs_cur st) \<noteq> [] \<Longrightarrow> grown f0 (currentAddress (cs_cur st)) vs g \<Longrightarrow> fits P st st1 f0 \<Longrightarrow> loaded H P ec w f0 \<Longrightarrow>
    cx_sp (cs_cur st) = fr_sp f0 + int (length vs) \<Longrightarrow> placed f0 vs X (cs_cur st) env \<Longrightarrow> evBindings ev bs env w k = Some (r, w2) \<Longrightarrow>
    (\<And>bvs w1 g1. comes VH g w (Running g1 [] w1) \<Longrightarrow> map fst bvs = bnames bs \<Longrightarrow> list_all plain_name (bnames bs) \<Longrightarrow>
      length bvs = length bs div 2 \<Longrightarrow> grown f0 (currentAddress (cs_cur st1)) (vs @ map snd bvs) g1 \<Longrightarrow>
      loaded H P ec w1 f0 \<Longrightarrow> k bvs w1 = Some (r, w2) \<Longrightarrow> ends VH T f0 g1 w1 b xs r w2) \<Longrightarrow>
    ends VH T f0 g w b xs r w2"
proof (induction bs arbitrary: st vs g w env k rule: induct_list012)
  case 1
  show ?case by (rule 1(12)[of g w "[]"]) (use 1 in simp_all)
next
  case (2 x)
  then show ?case by simp
next
  case (3 x v bs)
  note h = setting_parts[OF S]
  obtain s st2 where b: "stripBindingMeta x = FSym s" "cf v st = Ok st2" "compileBindings cf bs (upd_cur (addLocal s) st2) = Ok st1"
    using 3(3) by (auto simp: obind_Ok split: form.splits)
  have fv: "form_ok w0 v" "\<forall>f\<in>set bs. form_ok w0 f" using 3(4) by simp_all
  note 1 = binding_step(1,2,3)[OF h(1) b(2) fv(1) 3(5,6,7), of s] binding_step(4,5,6,7)[OF h(1) b(2) fv(1) 3(5,6,7)]
  let ?s = "upd_cur (addLocal s) st2"
  have ps: "plain_name s" and m: "thenV (ev v env w) (\<lambda>v w1. evBindings ev bs (env(s \<mapsto> v)) w1 (\<lambda>bvs. k ((s, v) # bvs))) = Some (r, w2)"
    using 3(13) by (simp_all add: b(1) split: if_splits)
  have "ran H w0 (int (length bs div 2)) ?s st1" using compileBindings_ok[OF h(1) b(3) fv(2) ready_ok(1)[OF 1(1)] 1(2,3)] by simp
  then have gr: "grows ?s st1" by (simp add: ran_def)
  have cur: "currentAddress (cs_cur ?s) = currentAddress (cs_cur st2)" "fits P ?s st1 f0 = fits P st2 st1 f0" "grows st2 st1"
    using gr by (simp_all add: addLocal_def currentAddress_def fits_def words_def grows_def)
  note ft = fits_split[OF 3(9) 1(6) cur(3)]
  show ?case
  proof (rule implements_then[OF means[OF S b(2) fv(1) 3(5)] 3(8) ft(1) 3(10,11) placed_lexical[OF 3(12,8)] _ h(3) m])
    fix u w1 g1
    assume a: "comes VH g w (Running g1 [] w1)" "grown f0 (currentAddress (cs_cur st2)) (vs @ [u]) g1" "loaded H P ec w1 f0"
      "evBindings ev bs (env(s \<mapsto> u)) w1 (\<lambda>bvs. k ((s, u) # bvs)) = Some (r, w2)"
    have pl: "placed f0 (vs @ [u]) X (cs_cur ?s) (env(s \<mapsto> u))"
      using placed_bind[OF 3(12,11) 1(4) 3(7) 1(5)] ps by simp
    show "ends VH T f0 g1 w1 b xs r w2"
    proof (rule 3(1)[OF b(3) fv(2) 1(1,2,3) a(2)[folded cur(1)] ft(2)[folded cur(2)] a(3) _ pl a(4)])
      show "cx_sp (cs_cur ?s) = fr_sp f0 + int (length (vs @ [u]))" using 3(11) 1(5) by (simp add: addLocal_def)
      fix bvs w3 g2
      assume d: "comes VH g1 w1 (Running g2 [] w3)" "map fst bvs = bnames bs" "list_all plain_name (bnames bs)" "length bvs = length bs div 2"
        "grown f0 (currentAddress (cs_cur st1)) ((vs @ [u]) @ map snd bvs) g2" "loaded H P ec w3 f0" "k ((s, u) # bvs) w3 = Some (r, w2)"
      show "ends VH T f0 g2 w3 b xs r w2"
        by (rule 3(14)[OF comes_trans[OF a(1) d(1)] _ _ _ _ d(6,7)]) (use d ps b(1) in simp_all)
    qed
  qed (use 3(6) in simp)
qed

lemma ctx_ok_tail': "ctx_ok (setTail b c) = ctx_ok c"
  by (simp add: setTail_def)

lemma grows_popScope: "grows s (upd_cur (setTail b \<circ> popScope n) s)" "grows s (upd_cur (setTail b \<circ> popScope n \<circ> popRecurPoint) s)"
  by (simp_all add: grows_def ctx_simps)

lemma let_means:
  assumes S: "setting VH H e w0 P" and c: "letCompiler cf (FVec m binds # body) st = Ok st'"
    and f: "\<forall>f\<in>set binds. form_ok w0 f" "\<forall>f\<in>set body. form_ok w0 f" and st: "ready st"
  shows "implements X VH H P ec st st' (evLet ev (FVec m binds # body))"
proof (rule implementsI)
  note h = setting_parts[OF S]
  let ?c = "cs_cur st" and ?tc = "cx_tail (cs_cur st)" and ?b = "length binds div 2"
  let ?s0 = "upd_cur (setTail False \<circ> pushLocals) st"
  fix f w env r w2
  assume a: "fits P st st' f" "loaded H P ec w f" "fr_ip f = currentAddress ?c" "fr_sp f = cx_sp ?c" "lexical X ?c env f"
    "evLet ev (FVec m binds # body) env w = Some (r, w2)"
  obtain s1 s2 where b: "compileBindings cf binds ?s0 = Ok s1" and d: "compileBody no_pre cf ?tc body s1 = Ok s2"
    and e: "st' = upd_cur (setTail ?tc \<circ> popScope ?b) s2"
    using c by (auto simp: letCompiler_def Let_def obind_Ok)
  note o = bindings_ready[OF h(1) b f(1) st]
  have i: "implements X VH H P ec (upd_cur (setTail ?tc) s1) s2 (evBody ev body)"
    by (rule implements_body[OF S no_pre_env d f(2) o(5,6,3)])
  have b2: "compiled H w0 1 (upd_cur (setTail ?tc) s1) (upd_cur (setTail ?tc) s2)"
    by (rule compileBody_ok[OF h(1) no_pre_env d f(2) ready_ok(1)[OF o(5)] o(3)])
  have gr: "grows st s1" "grows s1 s2" "grows s2 st'" using o(1) compiled_grows[OF b2] grows_popScope(1)[of s2 ?tc ?b] by (simp_all add: ran_def e)
  note f1 = fits_split[OF a(1) gr(1) grows_trans[OF gr(2,3)]]
  note f2 = fits_split[OF f1(2) gr(2,3)]
  have z: "currentAddress (cs_cur ?s0) = currentAddress ?c" "cx_sp (cs_cur ?s0) = cx_sp ?c" "fits P ?s0 s1 f = fits P st s1 f" "cx_locals (cs_cur ?s0) \<noteq> []"
    by (simp_all add: pushLocals_def currentAddress_def fits_def words_def)
  have g0: "grown f (currentAddress ?c) [] f"
    by (rule grown_refl) (use a(3,4) ready_ok(3)[OF st] fits_room[OF f1(1) _ st] gr(1) in \<open>simp_all add: grows_def\<close>)
  have pl: "placed f [] X (cs_cur ?s0) env"
    by (rule placed_same[OF placed_open[OF placed_nil[OF a(5) ready_ok(2)[OF st]]]]) (use a(4) in simp_all)
  have sp: "cx_sp (cs_cur s1) = cx_sp ?c + int ?b" "cx_sp (cs_cur s2) = cx_sp ?c + int ?b + 1"
    using o(1) compiled_sp[OF b2] by (simp_all add: ran_def)
  have bl: "int ?b < lim"
    using sp(2) ready_ok(3)[OF st] st_ok_ctx[OF compiled_ok[OF b2]] f2(1) by (simp add: ctx_ok_tail' ctx_ok_def fits_def small_def)
  have m: "evBindings ev binds env w (\<lambda>bvs. evBody ev body (bind_all env bvs)) = Some (r, w2)" using a(6) by (simp add: evLet_def)
  show "ends VH (target ?c) f f w (currentAddress (cs_cur st')) [] r w2"
  proof (rule run_bindings[OF S b f(1) o(4) _ z(4) _ f1(1)[folded z(3)] a(2) _ pl m])
    fix bvs w1 g1
    assume u: "map fst bvs = bnames binds" "list_all plain_name (bnames binds)" "length bvs = ?b"
      "grown f (currentAddress (cs_cur s1)) ([] @ map snd bvs) g1" "loaded H P ec w1 f" "evBody ev body (bind_all env bvs) w1 = Some (r, w2)"
    have "placed f ([] @ map snd bvs) X (cs_cur s1) (bind_all env (zip (bnames binds) (map snd bvs)))"
      by (rule bindings_placed[OF h(1) b f(1) o(4) _ z(4) pl]) (use u a(4) z(2) in \<open>auto simp: list_all_iff\<close>)
    then have "placed f (map snd bvs) X (cs_cur s1) (bind_all env bvs)" by (simp add: u(1)[symmetric] zip_map_fst_snd)
    then have l: "lexical X (cs_cur (upd_cur (setTail ?tc) s1)) (bind_all env bvs) g1"
      by (intro placed_lexical[OF placed_same]) (use u(4) in simp_all)
    have "ends VH (target ?c) f g1 w1 (currentAddress (cs_cur s2)) (map snd bvs) r w2"
    proof (rule implements_run[OF i _ _ u(5) _ l u(6)])
      show "reaches (target (cs_cur (upd_cur (setTail ?tc) s1))) (target ?c) (fr_sp f)"
        using reaches_under[OF o(7)] a(4) by simp
    qed (use u(3,4) f2(1) sp a(4) in simp_all)
    then show "ends VH (target ?c) f g1 w1 (currentAddress (cs_cur st')) [] r w2"
      by (rule ends_on) (rule run_popScope[OF f2(2)], use e u(3) bl in simp_all)
  qed (use g0 z a(4) in simp_all)
qed

text \<open>A loop: its body runs until it ends otherwise than by \<open>recur\<close>.\<close>

lemma run_loop:
  assumes hp: "host_pools VH" and i: "implements X VH H P ec s s2 (evBody ev body)" and t: "target (cs_cur s) = Some (fr_sp f + int n, currentAddress (cs_cur s), n)"
    and f: "fits P s s2 f" "fits P s2 st' f" and sp: "cx_sp (cs_cur s) = fr_sp f + int n" and e: "st' = upd_cur (setTail tc \<circ> popScope n) s2'"
    and s2': "cx_code (cs_cur s2') = cx_code (cs_cur s2)" "cx_sp (cs_cur s2') = cx_sp (cs_cur s2)" and n: "int n < lim"
    and l: "\<And>us. length us = n \<Longrightarrow> placed f us X (cs_cur s) (benv us)"
  shows "length us = n \<Longrightarrow> grown f (currentAddress (cs_cur s)) us g \<Longrightarrow> loaded H P ec w f \<Longrightarrow>
    evLoop j (\<lambda>us. evBody ev body (benv us)) us w = Some (r, w2) \<Longrightarrow> ends VH T f g w (currentAddress (cs_cur st')) [] r w2"
proof (induction j arbitrary: us g w)
  case (Suc j)
  obtain r1 w1 where r1: "evBody ev body (benv us) w = Some (r1, w1)"
    using Suc.prems(4) by (auto split: option.splits prod.splits)
  have x: "ends VH (target (cs_cur s)) g g w (currentAddress (cs_cur s2)) [] r1 w1"
    by (rule implements_at[OF i Suc.prems(2) f(1) Suc.prems(3) _ placed_lexical[OF l[OF Suc.prems(1)] Suc.prems(2)] r1]) (use sp Suc.prems(1) in simp)
  show ?case
  proof (cases "\<exists>vs. r1 = Again vs")
    case True
    then obtain vs where v: "r1 = Again vs" by blast
    then obtain g1 where g1: "length vs = n" "comes VH g w (Running g1 [] w1)" "restarted g (fr_sp f + int n) (currentAddress (cs_cur s)) vs g1"
      using x t by (auto simp: ends_def)
    have "fr_sp g = fr_sp f + int n" using grown_fields(1)[OF Suc.prems(2)] Suc.prems(1) by simp
    then have gr: "grown f (currentAddress (cs_cur s)) vs g1"
      using restarted_grown[OF Suc.prems(2), of "currentAddress (cs_cur s)" vs g1] g1(1,3) Suc.prems(1) by simp
    have "evLoop j (\<lambda>us. evBody ev body (benv us)) vs w1 = Some (r, w2)" using Suc.prems(4) r1 v by simp
    from Suc.IH[OF g1(1) gr loaded_comes[OF hp g1(2) _ Suc.prems(3)] this] show ?thesis by (intro ends_after[OF g1(2)]) simp
  next
    case False
    then have r: "r = r1" "w2 = w1" using Suc.prems(4) r1 by (auto split: answer.splits)
    have "ends VH None f g w (currentAddress (cs_cur s2)) us r1 w1"
    proof (cases "\<exists>v. r1 = Val v")
      case True
      then show ?thesis using ends_value[OF Suc.prems(2)] x by (fastforce simp: ends_def)
    next
      case no: False
      show ?thesis using x kept_trans[OF Suc.prems(2)] no False by (cases r1) (auto simp: ends_def)
    qed
    then have "ends VH None f g w (currentAddress (cs_cur st')) [] r1 w1"
    proof (rule ends_on)
      fix v g1 assume g: "grown f (currentAddress (cs_cur s2)) (us @ [v]) g1"
      have "fits P s2' st' f" using f(2) s2' by (simp add: fits_def currentAddress_def words_def)
      from run_popScope[OF this, of tc us v g1] e g n Suc.prems(1) s2'(1)
      show "\<exists>g2. comes VH g1 w1 (Running g2 [] w1) \<and> grown f (currentAddress (cs_cur st')) ([] @ [v]) g2" by (simp add: currentAddress_def)
    qed
    then show ?thesis unfolding r using False by (cases r1) (auto simp: ends_def)
  qed
qed simp

lemma loop_means:
  assumes S: "setting VH H e w0 P" and c: "loopCompiler cf (FVec m binds # body) st = Ok st'"
    and f: "\<forall>f\<in>set binds. form_ok w0 f" "\<forall>f\<in>set body. form_ok w0 f" and st: "ready st"
  shows "implements X VH H P ec st st' (evLoopForm n ev (FVec m binds # body))"
proof (rule implementsI)
  note h = setting_parts[OF S]
  let ?c = "cs_cur st" and ?tc = "cx_tail (cs_cur st)" and ?b = "length binds div 2"
  let ?s0 = "upd_cur (setTail False \<circ> pushLocals) st"
  fix f w env r w2
  assume a: "fits P st st' f" "loaded H P ec w f" "fr_ip f = currentAddress ?c" "fr_sp f = cx_sp ?c" "lexical X ?c env f"
    "evLoopForm n ev (FVec m binds # body) env w = Some (r, w2)"
  obtain s1 s2 where b: "compileBindings cf binds ?s0 = Ok s1" and d: "compileBody no_pre cf True body (upd_cur (pushRecurPoint ?b) s1) = Ok s2"
    and e: "st' = upd_cur (setTail ?tc \<circ> popScope ?b \<circ> popRecurPoint) s2"
    using c by (auto simp: loopCompiler_def Let_def obind_Ok)
  note o = bindings_ready[OF h(1) b f(1) st]
  let ?sr = "upd_cur (pushRecurPoint ?b) s1" and ?st = "upd_cur (setTail True) (upd_cur (pushRecurPoint ?b) s1)"
  have sp1: "cx_sp (cs_cur s1) = cx_sp ?c + int ?b" using o(1) by (simp add: ran_def)
  have rr: "ready ?sr" "ready ?st"
  proof -
    have "ctx_ok (pushRecurPoint ?b (cs_cur s1))" using ready_ok(2)[OF o(5)] by (simp add: ctx_ok_def pushRecurPoint_def currentAddress_def)
    then have ok: "st_ok ?sr" using chain_cur[OF ready_ok(1)[OF o(5)]] by (simp add: pushRecurPoint_def)
    have en: "enters (cs_cur ?sr) []" "enters (cs_cur ?st) []"
      using ready_ok(4)[OF o(5)] sp1 ready_ok(3)[OF st] o(3) by (simp_all add: enters_def passed_def pushRecurPoint_def setTail_def)
    have r: "cs_outer s1 = []" "cx_args (cs_cur s1) = []" "\<not> cx_isFunction (cs_cur s1)" using o(5) unfolding ready_def by blast+
    show "ready ?sr" unfolding ready_def using ok en(1) r o(3) by (simp add: pushRecurPoint_def del: chain_ok.simps)
    have "st_ok ?st" using ok chain_ok_tail by simp
    then show "ready ?st" unfolding ready_def using en(2) r by (simp add: pushRecurPoint_def del: chain_ok.simps)
  qed
  have tr: "\<not> cx_tail (cs_cur ?sr)" using o(3) by (simp add: pushRecurPoint_def)
  have i: "implements X VH H P ec ?st s2 (evBody ev body)" by (rule implements_body[OF S no_pre_env d f(2) rr tr])
  have b2: "compiled H w0 1 ?st (upd_cur (setTail True) s2)" by (rule compileBody_ok[OF h(1) no_pre_env d f(2) ready_ok(1)[OF rr(1)] tr])
  have g12: "grows s1 s2" using compiled_grows[OF b2] unfolding grows_tail by (simp add: grows_def pushRecurPoint_def)
  have gr: "grows st s1" "grows s2 st'" using o(1) grows_popScope(2)[of s2 ?tc ?b] by (simp_all add: ran_def e)
  note f1 = fits_split[OF a(1) gr(1) grows_trans[OF g12 gr(2)]]
  note f2 = fits_split[OF f1(2) g12 gr(2)]
  have z: "currentAddress (cs_cur ?s0) = currentAddress ?c" "cx_sp (cs_cur ?s0) = cx_sp ?c" "fits P ?s0 s1 f = fits P st s1 f" "cx_locals (cs_cur ?s0) \<noteq> []"
      "currentAddress (cs_cur ?st) = currentAddress (cs_cur s1)" "fits P ?st s2 f = fits P s1 s2 f" "cx_sp (cs_cur ?st) = cx_sp (cs_cur s1)"
      "cx_locals (cs_cur ?st) = cx_locals (cs_cur s1)"
    by (simp_all add: pushLocals_def pushRecurPoint_def currentAddress_def fits_def words_def)
  have g0: "grown f (currentAddress ?c) [] f"
    by (rule grown_refl) (use a(3,4) ready_ok(3)[OF st] fits_room[OF f1(1) _ st] gr(1) in \<open>simp_all add: grows_def\<close>)
  have pl: "placed f [] X (cs_cur ?s0) env"
    by (rule placed_same[OF placed_open[OF placed_nil[OF a(5) ready_ok(2)[OF st]]]]) (use a(4) in simp_all)
  have "cx_sp (cs_cur s2) = cx_sp ?c + int ?b + 1" using sp1 compiled_sp[OF b2] z(7) by simp
  then have bl: "int ?b < lim"
    using ready_ok(3)[OF st] st_ok_ctx[OF compiled_ok[OF b2]] f2(1) by (simp add: ctx_ok_tail' ctx_ok_def fits_def small_def)
  have t: "target (cs_cur ?st) = Some (fr_sp f + int ?b, currentAddress (cs_cur ?st), ?b)"
    using sp1 a(4) by (simp add: target_def pushRecurPoint_def passed_def setTail_def currentAddress_def)
  have m: "evBindings ev binds env w (\<lambda>bvs w1. evLoop n (\<lambda>vs. evBody ev body (bind_all env (zip (map fst bvs) vs))) (map snd bvs) w1) = Some (r, w2)"
    using a(6) by (simp add: evLoopForm_def)
  show "ends VH (target ?c) f f w (currentAddress (cs_cur st')) [] r w2"
  proof (rule run_bindings[OF S b f(1) o(4) _ z(4) _ f1(1)[folded z(3)] a(2) _ pl m])
    fix bvs w1 g1
    assume u: "map fst bvs = bnames binds" "list_all plain_name (bnames binds)" "length bvs = ?b"
      "grown f (currentAddress (cs_cur s1)) ([] @ map snd bvs) g1" "loaded H P ec w1 f"
      "evLoop n (\<lambda>vs. evBody ev body (bind_all env (zip (map fst bvs) vs))) (map snd bvs) w1 = Some (r, w2)"
    show "ends VH (target ?c) f g1 w1 (currentAddress (cs_cur st')) [] r w2"
    proof (rule run_loop[OF h(3) i t f2(1)[folded z(6)] f2(2) _ _ _ _ bl _ _ _ u(5) u(6)])
      show "placed f us X (cs_cur ?st) (bind_all env (zip (map fst bvs) us))" if "length us = ?b" for us
      proof (rule placed_same[OF _ z(8)])
        have "placed f ([] @ us) X (cs_cur s1) (bind_all env (zip (bnames binds) us))"
          by (rule bindings_placed[OF h(1) b f(1) o(4) _ z(4) pl]) (use u a(4) z(2) that in \<open>auto simp: list_all_iff\<close>)
        then show "placed f us X (cs_cur s1) (bind_all env (zip (map fst bvs) us))" by (simp add: u(1))
      qed
      show "st' = upd_cur (setTail ?tc \<circ> popScope ?b) (upd_cur popRecurPoint s2)" by (simp add: e)
    qed (use u(3,4) z(5,7) sp1 a(4) in \<open>simp_all add: popRecurPoint_def\<close>)
  qed (use g0 z a(4) in simp_all)
qed

lemma start_grown: "ready st \<Longrightarrow> fits P st s f \<Longrightarrow> grows st s \<Longrightarrow> fr_ip f = currentAddress (cs_cur st) \<Longrightarrow> fr_sp f = cx_sp (cs_cur st) \<Longrightarrow>
    grown f (currentAddress (cs_cur st)) [] f"
  by (rule grown_refl) (use ready_ok(3)[of st] fits_room[of P st s f] in \<open>simp_all add: grows_def\<close>)

text \<open>What lies on the stack was put there by some word of code.\<close>

lemma room_small:
  assumes "compiled H w0 (int n) st s" "ready st" "fits P s st' f" "grows s st'"
  shows "int n < lim"
proof -
  have "int n \<le> currentAddress (cs_cur s)" by (rule depth_address[OF assms(1) ready_ok(1)[OF assms(2)]])
  also have "\<dots> \<le> currentAddress (cs_cur st')" by (rule grows_address[OF assms(4)])
  also have "\<dots> < lim" using assms(3) by (simp add: fits_def small_def)
  finally show ?thesis .
qed

lemma recur_means:
  assumes S: "setting VH H e w0 P" and c: "recurCompiler cf args st = Ok st'" and f: "\<forall>f\<in>set args. form_ok w0 f" and st: "ready st"
  shows "implements X VH H P ec st st' (\<lambda>env w. evArgs ev args env w (\<lambda>us w1. Some (Again us, w1)))"
proof (rule implementsI)
  note h = setting_parts[OF S]
  let ?c = "cs_cur st" and ?s0 = "upd_cur (setTail False) st" and ?n = "length args"
  fix f w env r w2
  assume a: "fits P st st' f" "loaded H P ec w f" "fr_ip f = currentAddress ?c" "fr_sp f = cx_sp ?c" "lexical X ?c env f"
    "evArgs ev args env w (\<lambda>us w1. Some (Again us, w1)) = Some (r, w2)"
  have tail: "cx_tail ?c" using c by (simp add: recurCompiler_def Let_def split: if_splits)
  then obtain rp rps where rp: "cx_recurs ?c = rp # rps" using st by (cases "cx_recurs ?c") (auto simp: ready_def)
  obtain st1 where s: "compileAll cf args ?s0 = Ok st1" "?n = rp_argsc rp"
    and e: "st' = upd_cur (decSP (int ?n - 1) \<circ> setTail True \<circ> append32 (passed (cs_cur st1) rp) \<circ> append32 (int ?n) \<circ>
       emitWithArg OP_RECUR (currentAddress (cs_cur st1) - rp_address rp)) st1"
    using c tail rp by (auto simp: recurCompiler_def Let_def obind_Ok passed_def split: if_splits)
  note 1 = all_ok[OF h(1) s(1) f ready_setTail_False[OF st]]
  have k: "compiled H w0 (int ?n) ?s0 st1" using 1(1) by simp
  have sc: "passed (cs_cur st1) rp = passed ?c rp" "cx_sp (cs_cur st1) = cx_sp ?c + int ?n"
    using k compiled_sp[OF k] by (simp_all add: compiled_def same_ctx_def passed_def setTail_def)
  have gr: "grows ?s0 st1" "grows st1 st'" using compiled_grows[OF k] by (simp_all add: e grows_def ctx_simps)
  have ft: "fits P ?s0 st' f" using a(1) by simp
  note f1 = fits_split[OF ft gr]
  have en: "enters ?c []" "ctx_ok ?c" using st ready_ok(2)[OF st] unfolding ready_def by blast+
  have p: "0 \<le> passed ?c rp" "int ?n \<le> cx_sp ?c - passed ?c rp" "0 \<le> rp_address rp" "rp_address rp \<le> currentAddress ?c" "cx_sp ?c \<le> currentAddress ?c"
    using en tail rp s(2) by (simp_all add: enters_def ctx_ok_def passed_def)
  have ad: "currentAddress ?c \<le> currentAddress (cs_cur st1)" "currentAddress (cs_cur st1) < lim"
    using grows_address[OF gr(1)] f1(1) by (simp_all add: fits_def small_def)
  have hd: "holds (ck_code (fr_code f)) (currentAddress (cs_cur st1))
      (opword OP_RECUR (cx_sp (cs_cur st1)) # map word_of_int [currentAddress (cs_cur st1) - rp_address rp, int ?n, passed ?c rp])"
    using f1(2) by (simp add: fits_def e words_def ctx_simps sc(1))
  have g0: "grown f (currentAddress (cs_cur ?s0)) [] f"
    using start_grown[OF ready_setTail_False[OF st] f1(1) gr(1)] a(3,4) by simp
  show "ends VH (target ?c) f f w (currentAddress (cs_cur st')) [] r w2"
  proof (rule run_args[OF S s(1) f ready_setTail_False[OF st] _ g0 f1(1) a(2) _ _ a(6)])
    show "lexical X (cs_cur ?s0) env f" using a(5) by (simp add: lexical_def)
    fix us w1 g1
    assume d: "length us = ?n" "grown f (currentAddress (cs_cur st1)) ([] @ us) g1" "Some (Again us, w1) = Some (r, w2)"
    have h': "holds (ck_code (fr_code f)) (currentAddress (cs_cur st1))
      (opword OP_RECUR (cx_sp (cs_cur st1)) # map word_of_int [currentAddress (cs_cur st1) - rp_address rp, int (length us), passed ?c rp])"
      using hd d(1) by simp
    have b: "0 \<le> currentAddress (cs_cur st1) - rp_address rp" "currentAddress (cs_cur st1) - rp_address rp < lim" "int (length us) < lim"
      "passed ?c rp < lim" "int (length us) \<le> fr_sp f - passed ?c rp"
      using p ad d(1) a(4) by simp_all
    from run_recur[OF d(2)[simplified] h' b(1,2,3) p(1) b(4,5)] obtain g2 where
      "comes VH g1 w1 (Running g2 [] w1)" "restarted f (fr_sp f - passed ?c rp) (rp_address rp) us g2" by auto
    moreover have "target ?c = Some (fr_sp f - passed ?c rp, rp_address rp, length us)"
      using tail rp s(2) d(1) a(4) by (simp add: target_def)
    ultimately show "ends VH (target ?c) f g1 w1 (currentAddress (cs_cur st')) [] r w2" using d(3) by (auto simp: ends_def)
  qed (use a(4) in simp_all)
qed

lemma const_ready:
  assumes "ready st" "\<not> cx_tail (cs_cur st)" "val_ok w0 v"
  shows "compiled H w0 1 st (loadConstant v st)" "ready (loadConstant v st)" "\<not> cx_tail (cs_cur (loadConstant v st))"
proof -
  show 1: "compiled H w0 1 st (loadConstant v st)" by (rule loadConstant_ok[OF ready_ok(1)[OF assms(1)] assms(3)])
  show "ready (loadConstant v st)" by (rule ready_next[OF 1 assms(1,2) load_depth(2)])
  show "\<not> cx_tail (cs_cur (loadConstant v st))" using compiled_tail_eq[OF 1] assms(2) by simp
qed

lemma set_means:
  assumes S: "setting VH H e w0 P" and c: "setBangCompiler H cf args st = Ok st'" and f: "\<forall>f\<in>set args. form_ok w0 f" and st: "ready st"
  shows "implements X VH H P ec st st' (evSet VH H e ec ev args)"
proof (rule implementsI)
  note h = setting_parts[OF S]
  let ?c = "cs_cur st" and ?s0 = "upd_cur (setTail False) st"
  fix f w env r w2
  assume a: "fits P st st' f" "loaded H P ec w f" "fr_ip f = currentAddress ?c" "fr_sp f = cx_sp ?c" "lexical X ?c env f"
    "evSet VH H e ec ev args env w = Some (r, w2)"
  obtain s x where args: "args = [FSym s, x]" using c by (auto simp: setBangCompiler_def split: list.splits form.splits)
  define v where "v = (case ch_lookup H e s of Some u \<Rightarrow> VarV u | None \<Rightarrow> NIL)"
  let ?s1 = "loadConstant v ?s0"
  obtain s2 where s2: "cf x ?s1 = Ok s2" and e': "st' = upd_cur (setTail (cx_tail ?c) \<circ> decSP 1 \<circ> emit OP_SET_VAR) s2"
    using c by (auto simp: setBangCompiler_def args Let_def obind_Ok v_def steady_simps(1)[OF h(2), of "cs_env st"])
  have fx: "form_ok w0 x" and pv: "plain_const v" "val_ok w0 v" using f by (simp_all add: args v_def split: option.split)
  note 1 = const_ready[OF ready_setTail_False[OF st] _ pv(2)]
  have 1: "compiled H w0 1 ?s0 ?s1" "ready ?s1" "\<not> cx_tail (cs_cur ?s1)" using 1 by simp_all
  note 2 = part_ok[OF h(1) s2 fx 1(2,3)]
  have g2: "grows s2 st'" by (simp add: e' grows_def ctx_simps)
  have ft: "fits P ?s0 st' f" using a(1) by simp
  note f1 = fits_split[OF ft compiled_grows[OF 1(1)] grows_trans[OF 2(4) g2]]
  note f2 = fits_split[OF f1(2) 2(4) g2]
  have g0: "grown f (currentAddress (cs_cur ?s0)) [] f"
    using start_grown[OF ready_setTail_False[OF st] f1(1) compiled_grows[OF 1(1)]] a(3,4) by simp
  have i: "implements X VH H P ec ?s0 ?s1 (\<lambda>env. constant_answer v)"
    by (rule implements_const[OF ready_ok(3)[OF ready_setTail_False[OF st]] h(4)])
  define k :: "vv \<Rightarrow> 'h world \<Rightarrow> 'h eval" where "k = (\<lambda>val w1. case ch_lookup H e s of
         None \<Rightarrow> Some (Failed (execErr ''SET_VAR invalid Var''), w1)
       | Some v \<Rightarrow> (let d = (case setBinding ec v val (w_dyn w1) of Some d' \<Rightarrow> d' | None \<Rightarrow> SetRoot (ho_same VH) v val (w_dyn w1)) in
           Some (Val (VarV v), w1\<lparr>w_dyn := armTraceIfTruthy v val d\<rparr>)))"
  have m: "thenV (constant_answer v w) (\<lambda>u w1. if u = v then thenV (ev x env w1) k else None) = Some (r, w2)"
    using a(6) pv(1) by (simp add: evSet_def args k_def constant_answer_def thenV_def)
  show "ends VH (target ?c) f f w (currentAddress (cs_cur st')) [] r w2"
  proof (rule implements_then[OF i g0 f1(1) a(2) _ _ _ h(3) m])
    show l: "lexical X (cs_cur ?s0) env f" using a(5) by (simp add: lexical_def)
    fix u w1 g1
    assume b: "comes VH f w (Running g1 [] w1)" "grown f (currentAddress (cs_cur ?s1)) ([] @ [u]) g1" "loaded H P ec w1 f"
      "(if u = v then thenV (ev x env w1) k else None) = Some (r, w2)"
    have u: "u = v" and m2: "thenV (ev x env w1) k = Some (r, w2)" using b(4) by (simp_all split: if_splits)
    have l1: "lexical X (cs_cur ?s1) env g1"
      by (rule lexical_grown[OF l b(2)]) (use a(4) 1(1) ready_ok(2)[OF st] in \<open>simp_all add: ctx_ok_tail' compiled_def same_ctx_def\<close>)
    show "ends VH (target ?c) f g1 w1 (currentAddress (cs_cur st')) [] r w2"
    proof (rule implements_then[OF means[OF S s2 fx 1(2)] b(2) f2(1) b(3) _ l1 _ h(3) m2])
      fix val w3 g3
      assume d: "grown f (currentAddress (cs_cur s2)) (([] @ [u]) @ [val]) g3" "loaded H P ec w3 f" "k val w3 = Some (r, w2)"
      have hd: "holds (ck_code (fr_code f)) (currentAddress (cs_cur s2)) [opword OP_SET_VAR (cx_sp (cs_cur s2))]"
        using f2(2) by (simp add: fits_def e' words_def ctx_simps)
      have ad: "currentAddress (cs_cur st') = currentAddress (cs_cur s2) + 1" by (simp add: e' ctx_simps)
      have q: "fr_ec f = ec" using d(2) by (simp add: loaded_def)
      show "ends VH (target ?c) f g3 w3 (currentAddress (cs_cur st')) [] r w2"
      proof (cases "ch_lookup H e s")
        case None
        then have "grown f (currentAddress (cs_cur s2)) ([] @ [NIL, val]) g3" using d(1) u by (simp add: v_def)
        from run_set_bad[OF this hd] show ?thesis using d(3) None by (simp add: k_def ad)
      next
        case (Some y)
        then have "grown f (currentAddress (cs_cur s2)) ([] @ [VarV y, val]) g3" using d(1) u by (simp add: v_def)
        from run_set_var[OF this hd refl] show ?thesis using d(3) Some q by (auto simp: k_def ad Let_def)
      qed
    qed (use a(4) 1(3) compiled_sp[OF 1(1)] in simp_all)
  qed (use a(4) in simp_all)
qed

text \<open>Calls: the function, then its arguments.\<close>

lemma call_implements:
  assumes S: "setting VH H e w0 P" and st: "ready st" and i: "implements X VH H P ec (upd_cur (setTail False) st) s2 mf"
    and 1: "compiled H w0 1 (upd_cur (setTail False) st) s2" "ready s2" "\<not> cx_tail (cs_cur s2)"
    and c: "compileAll cf args s2 = Ok s3" and f: "\<forall>f\<in>set args. form_ok w0 f"
    and e: "st' = upd_cur (setTail tp \<circ> decSP (int (length args)) \<circ> emitWithArg OP_INVOKE (int (length args))) s3"
  shows "implements X VH H P ec st st' (\<lambda>env w. thenV (mf env w) (\<lambda>fn w1. evArgs ev args env w1 (callFunction VH n ec fn)))"
proof (rule implementsI)
  note h = setting_parts[OF S]
  let ?c = "cs_cur st" and ?s0 = "upd_cur (setTail False) st" and ?n = "length args"
  fix f w env r w2
  assume a: "fits P st st' f" "loaded H P ec w f" "fr_ip f = currentAddress ?c" "fr_sp f = cx_sp ?c" "lexical X ?c env f"
    "thenV (mf env w) (\<lambda>fn w1. evArgs ev args env w1 (callFunction VH n ec fn)) = Some (r, w2)"
  note 2 = all_ok[OF h(1) c f 1(2,3)]
  have g2: "grows s3 st'" by (simp add: e grows_def ctx_simps)
  have ft: "fits P ?s0 st' f" using a(1) by simp
  note f1 = fits_split[OF ft compiled_grows[OF 1(1)] grows_trans[OF 2(4) g2]]
  note f2 = fits_split[OF f1(2) 2(4) g2]
  have g0: "grown f (currentAddress (cs_cur ?s0)) [] f"
    using start_grown[OF ready_setTail_False[OF st] f1(1) compiled_grows[OF 1(1)]] a(3,4) by simp
  have n: "int ?n < lim" by (rule room_small[OF 2(1) 1(2) f2(2) g2])
  show "ends VH (target ?c) f f w (currentAddress (cs_cur st')) [] r w2"
  proof (rule implements_then[OF i g0 f1(1) a(2) _ _ _ h(3) a(6)])
    show l: "lexical X (cs_cur ?s0) env f" using a(5) by (simp add: lexical_def)
    fix fn w1 g1
    assume b: "comes VH f w (Running g1 [] w1)" "grown f (currentAddress (cs_cur s2)) ([] @ [fn]) g1" "loaded H P ec w1 f"
      "evArgs ev args env w1 (callFunction VH n ec fn) = Some (r, w2)"
    have l1: "lexical X (cs_cur s2) env g1"
      by (rule lexical_grown[OF l b(2)]) (use a(4) 1(1) ready_ok(2)[OF st] in \<open>simp_all add: ctx_ok_tail' compiled_def same_ctx_def\<close>)
    show "ends VH (target ?c) f g1 w1 (currentAddress (cs_cur st')) [] r w2"
    proof (rule run_args[OF S c f 1(2,3) b(2) f2(1) b(3) _ l1 b(4)])
      fix us w3 g3
      assume d: "length us = ?n" "grown f (currentAddress (cs_cur s3)) (([] @ [fn]) @ us) g3" "loaded H P ec w3 f"
        "callFunction VH n ec fn us w3 = Some (r, w2)"
      have hd: "holds (ck_code (fr_code f)) (currentAddress (cs_cur s3)) [opword OP_INVOKE (cx_sp (cs_cur s3)), word_of_int (int (length us))]"
        using f2(2) d(1) by (simp add: fits_def e words_def ctx_simps)
      have "currentAddress (cs_cur st') = currentAddress (cs_cur s3) + 2" "fr_ec f = ec" using d(3) by (simp_all add: e ctx_simps loaded_def)
      then show "ends VH (target ?c) f g3 w3 (currentAddress (cs_cur st')) [] r w2"
        using run_call[of f _ "[]" fn us g3, OF _ hd, of VH n w3 r w2] d n by simp
    qed (use a(4) compiled_sp[OF 1(1)] in simp_all)
  qed (use a(4) in simp_all)
qed

lemma primitive_implements:
  assumes S: "setting VH H e w0 P" and st: "ready st" and c: "compileAll cf args (upd_cur (setTail False) st) = Ok s2" and f: "\<forall>f\<in>set args. form_ok w0 f"
    and e: "st' = upd_cur (setTail tp \<circ> decSP (int (length args) - 1) \<circ> emit oc) s2"
  shows "implements X VH H P ec st st' (\<lambda>env w. evArgs ev args env w (applyPrimitive VH oc))"
proof (rule implementsI)
  note h = setting_parts[OF S]
  let ?c = "cs_cur st" and ?s0 = "upd_cur (setTail False) st" and ?n = "length args"
  fix f w env r w2
  assume a: "fits P st st' f" "loaded H P ec w f" "fr_ip f = currentAddress ?c" "fr_sp f = cx_sp ?c" "lexical X ?c env f"
    "evArgs ev args env w (applyPrimitive VH oc) = Some (r, w2)"
  have r0: "ready ?s0" "\<not> cx_tail (cs_cur ?s0)" using ready_setTail_False[OF st] by simp_all
  note 2 = all_ok[OF h(1) c f r0]
  have g2: "grows s2 st'" by (simp add: e grows_def ctx_simps)
  have ft: "fits P ?s0 st' f" using a(1) by simp
  note f1 = fits_split[OF ft 2(4) g2]
  have g0: "grown f (currentAddress (cs_cur ?s0)) [] f"
    using start_grown[OF ready_setTail_False[OF st] f1(1) 2(4)] a(3,4) by simp
  show "ends VH (target ?c) f f w (currentAddress (cs_cur st')) [] r w2"
  proof (rule run_args[OF S c f r0 g0 f1(1) a(2) _ _ a(6)])
    show "lexical X (cs_cur ?s0) env f" using a(5) by (simp add: lexical_def)
    fix us w3 g3
    assume d: "length us = ?n" "grown f (currentAddress (cs_cur s2)) ([] @ us) g3" "applyPrimitive VH oc us w3 = Some (r, w2)"
    have hd: "holds (ck_code (fr_code f)) (currentAddress (cs_cur s2)) [opword oc (cx_sp (cs_cur s2))]"
      using f1(2) by (simp add: fits_def e words_def ctx_simps)
    have "currentAddress (cs_cur st') = currentAddress (cs_cur s2) + 1" by (simp add: e ctx_simps)
    then show "ends VH (target ?c) f g3 w3 (currentAddress (cs_cur st')) [] r w2" using run_primitive[OF d(2) hd d(3)] by simp
  qed (use a(4) in simp_all)
qed

lemma literal_means:
  assumes S: "setting VH H e w0 P" and c: "compileAggregate H cf ctor whole None elems st = Ok st'" and st: "ready st"
    and f: "form_ok w0 whole" "\<forall>f\<in>set elems. form_ok w0 f"
  shows "implements X VH H P ec st st' (evLiteral VH H e n ec ev ctor whole elems)"
proof (cases "isConstantLiteral H whole")
  case True
  note h = setting_parts[OF S]
  have "st' = upd_cur (setTail (cx_tail (cs_cur st))) (loadConstant (const_of H whole) (upd_cur (setTail False) st))"
    using c True by (simp add: compileAggregate_def Let_def)
  moreover have "implements X VH H P ec (upd_cur (setTail False) st) (loadConstant (const_of H whole) (upd_cur (setTail False) st)) (\<lambda>env. constant_answer (const_of H whole))"
    by (rule implements_const) (use ready_ok(3)[OF st] h(4) in simp_all)
  ultimately have i: "implements X VH H P ec (upd_cur (setTail False) st) st' (\<lambda>env. constant_answer (const_of H whole))" by simp
  show ?thesis
  proof (rule implementsI)
    fix f w env r w1
    assume a: "fits P st st' f" "loaded H P ec w f" "fr_ip f = currentAddress (cs_cur st)" "fr_sp f = cx_sp (cs_cur st)" "lexical X (cs_cur st) env f"
      "evLiteral VH H e n ec ev ctor whole elems env w = Some (r, w1)"
    have "ends VH None f f w (currentAddress (cs_cur st')) [] r w1"
      using i[unfolded implements_def, rule_format, of f w env r w1] a True by (simp add: evLiteral_def lexical_def)
    moreover have "\<exists>v. r = Val v" using a(6) True by (auto simp: evLiteral_def constant_answer_def split: if_splits)
    ultimately show "ends VH (target (cs_cur st)) f f w (currentAddress (cs_cur st')) [] r w1" by (auto simp: ends_def)
  qed
next
  case False
  note h = setting_parts[OF S]
  define v where "v = (case ch_core H e ctor of Some v \<Rightarrow> VarV v | None \<Rightarrow> NIL)"
  let ?s0 = "upd_cur (setTail False) st"
  have v: "coreConst H ctor ?s0 = v" using steady_simps(3)[OF h(2), of "cs_env st"] by (simp add: coreConst_def v_def)
  obtain s3 where a: "compileAll cf elems (loadConstant v ?s0) = Ok s3"
    and e: "st' = upd_cur (setTail (cx_tail (cs_cur st)) \<circ> decSP (int (length elems)) \<circ> emitWithArg OP_INVOKE (int (length elems))) s3"
    using c False v by (auto simp: compileAggregate_def Let_def obind_Ok)
  have pv: "plain_const v" "val_ok w0 v" by (simp_all add: v_def split: option.split)
  note 1 = const_ready[OF ready_setTail_False[OF st] _ pv(2)]
  have "implements X VH H P ec st st' (\<lambda>env w. thenV (constant_answer v w) (\<lambda>fn w1. evArgs ev elems env w1 (callFunction VH n ec fn)))"
    by (rule call_implements[OF S st implements_const[OF ready_ok(3)[OF ready_setTail_False[OF st]] h(4)] _ _ _ a f(2) e]) (use 1 in simp_all)
  then show ?thesis
    by (rule implements_mono) (use False pv(1) in \<open>simp add: evLiteral_def v_def constant_answer_def thenV_def\<close>)
qed

text \<open>A call by name.\<close>

lemma coreName_ready:
  assumes st: "ready st" and s: "steady H e" and env: "env s = None \<longleftrightarrow> lookupLocal s (cs_cur st) = None"
  shows "fastOpcodeCoreName H s st = (coreName H e env s, st)"
  using env ready_lookup[OF st, of s] steady_simps(1,3)[OF s, of "cs_env st"]
  by (auto simp: fastOpcodeCoreName_def coreName_def resolveGlobal_def Let_def split: option.split)

lemma fastOpcode_ready:
  assumes st: "ready st" and s: "steady H e" and env: "env s = None \<longleftrightarrow> lookupLocal s (cs_cur st) = None" and u: "\<not> ch_uncheckedMath H e"
  shows "tryFastOpcode H s n st = (Option.bind (coreName H e env s) (\<lambda>name. primitive name n), st)"
  using u steady_simps(5)[OF s, of "cs_env st"]
  by (auto simp: tryFastOpcode_def coreName_ready[where env = env and s = s, OF st s env] primitive_def split: option.split)

lemma symbol_call_means:
  assumes S: "setting VH H e w0 P" and c: "compilePlainSymbolCall H cf s args st = Ok st'" and st: "ready st"
    and f: "form_ok w0 (FList (FSym s # args))"
  shows "implements X VH H P ec st st' (evSymbolCall VH H e n ec ev s args)"
proof (rule implementsI)
  note h = setting_parts[OF S]
  let ?c = "cs_cur st" and ?s0 = "upd_cur (setTail False) st"
  have fa: "\<forall>f\<in>set args. form_ok w0 f" using f by simp
  fix f w env r w2
  assume a: "fits P st st' f" "loaded H P ec w f" "fr_ip f = currentAddress ?c" "fr_sp f = cx_sp ?c" "lexical X ?c env f"
    "evSymbolCall VH H e n ec ev s args env w = Some (r, w2)"
  have g: "plain_name s" "\<not> ch_uncheckedMath H e" "\<not> (env s = None \<and> (case ch_lookup H e s of Some v \<Rightarrow> ch_isMacro H e v | None \<Rightarrow> False))"
    using a(6) by (simp_all add: evSymbolCall_def split: if_splits)
  have sp: "cx_spMax ?c \<le> cx_spMax (cs_cur st')"
    by (rule compiled_spMax[OF conjunct1[OF compilePlainSymbolCall_ok[OF h(1) c f ready_ok(1)[OF st]]]])
  have env: "env s = None \<longleftrightarrow> lookupLocal s ?c = None"
    by (rule lexical_None[OF a(5) ready_ok(2)[OF st] g(1) fits_room[OF a(1) sp st]])
  note sd = steady_simps[OF h(2), of "cs_env st"]
  have call: "compileCall H cf (FSym s) args st = Ok st'"
    using c g env ready_lexical[OF st, of s]
    by (auto simp: compilePlainSymbolCall_def compileMacroOrCall_def sd split: option.splits if_splits)
  have fo: "tryFastOpcode H s (length args) ?s0 = (Option.bind (coreName H e env s) (\<lambda>name. primitive name (length args)), ?s0)"
    by (rule fastOpcode_ready[OF ready_setTail_False[OF st] h(2) _ g(2)]) (use env in simp)
  show "ends VH (target ?c) f f w (currentAddress (cs_cur st')) [] r w2"
  proof (cases "Option.bind (coreName H e env s) (\<lambda>name. primitive name (length args))")
    case (Some oc)
    obtain s2 where 1: "compileAll cf args ?s0 = Ok s2" and e: "st' = upd_cur (setTail (cx_tail ?c) \<circ> decSP (int (length args) - 1) \<circ> emit oc) s2"
      using call fo Some by (auto simp: compileCall_def Let_def obind_Ok)
    from primitive_implements[OF S st 1 fa e, unfolded implements_def, rule_format, OF a(1-5)]
    show ?thesis using a(6) g Some by (simp add: evSymbolCall_def)
  next
    case None
    obtain s2 s3 where 1: "cf (FSym s) ?s0 = Ok s2" "compileAll cf args s2 = Ok s3"
      and e: "st' = upd_cur (setTail (cx_tail ?c) \<circ> decSP (int (length args)) \<circ>
        emitWithArg (if cx_tail ?c \<and> cx_recurs (cs_cur s3) = [] then OP_TAIL_CALL else OP_INVOKE) (int (length args))) s3"
      using call fo None by (auto simp: compileCall_def Let_def obind_Ok)
    have fs: "form_ok w0 (FSym s)" by simp
    note p = part_ok[OF h(1) 1(1) fs ready_setTail_False[OF st]]
    have p: "compiled H w0 1 ?s0 s2" "ready s2" "\<not> cx_tail (cs_cur s2)" using p by simp_all
    note q = all_ok[OF h(1) 1(2) fa p(2,3)]
    have "cx_recurs (cs_cur s3) = cx_recurs ?c" using p(1) q(1) by (simp add: compiled_def same_ctx_def)
    then have "\<not> (cx_tail ?c \<and> cx_recurs (cs_cur s3) = [])" using st by (auto simp: ready_def)
    note e = e[unfolded if_not_P[OF this]]
    from call_implements[OF S st means[OF S 1(1) fs ready_setTail_False[OF st]] p 1(2) fa e, unfolded implements_def, rule_format, OF a(1-5)]
    show ?thesis using a(6) g None by (simp add: evSymbolCall_def evCall_def)
  qed
qed

lemma call_means:
  assumes S: "setting VH H e w0 P" and c: "compileCall H cf fn args st = Ok st'" and ns: "\<And>s. fn \<noteq> FSym s" and st: "ready st"
    and f: "form_ok w0 fn" "\<forall>f\<in>set args. form_ok w0 f"
  shows "implements X VH H P ec st st' (evCall VH n ec ev fn args)"
proof -
  note h = setting_parts[OF S]
  let ?c = "cs_cur st" and ?s0 = "upd_cur (setTail False) st"
  obtain s2 s3 where 1: "cf fn ?s0 = Ok s2" "compileAll cf args s2 = Ok s3"
    and e: "st' = upd_cur (setTail (cx_tail ?c) \<circ> decSP (int (length args)) \<circ>
      emitWithArg (if cx_tail ?c \<and> cx_recurs (cs_cur s3) = [] then OP_TAIL_CALL else OP_INVOKE) (int (length args))) s3"
    using c ns by (cases fn) (auto simp: compileCall_def Let_def obind_Ok)
  note p = part_ok[OF h(1) 1(1) f(1) ready_setTail_False[OF st]]
  have p: "compiled H w0 1 ?s0 s2" "ready s2" "\<not> cx_tail (cs_cur s2)" using p by simp_all
  note q = all_ok[OF h(1) 1(2) f(2) p(2,3)]
  have "cx_recurs (cs_cur s3) = cx_recurs ?c" using p(1) q(1) by (simp add: compiled_def same_ctx_def)
  then have "\<not> (cx_tail ?c \<and> cx_recurs (cs_cur s3) = [])" using st by (auto simp: ready_def)
  note e = e[unfolded if_not_P[OF this]]
  from call_implements[OF S st means[OF S 1(1) f(1) ready_setTail_False[OF st]] p 1(2) f(2) e]
  show ?thesis by (rule implements_mono) (simp add: evCall_def)
qed

end

end
