(* ===== verification/LG_CorrectTry.thy ===== *)
theory LG_CorrectTry
  imports LG_Correct
begin

text \<open>
  Code with exception handlers: the layout of a \<open>try\<close>, what its parts leave to the code behind it,
  and the dispatch on the clauses. With this every form that is compiled does what the evaluator
  says.
\<close>

section \<open>Layout\<close>

lemma fits_handlers:
  "fits P st st' f \<Longrightarrow> (\<And>h. h \<in> set hs \<Longrightarrow> h_pending h \<noteq> None \<Longrightarrow> h_finallyIP h \<le> currentAddress (cs_cur st)) \<Longrightarrow>
   fits P st st' (with_handlers hs f)"
  by (auto simp: fits_def pending_before_def)

lemma loaded_handlers [simp]: "loaded H P ec w (with_handlers hs f) = loaded H P ec w f"
  by (simp add: loaded_def)

lemma lexical_handlers [simp]: "lexical X c env (with_handlers hs f) = lexical X c env f"
  by (simp add: lexical_def)

lemma placed_handlers: "placed f vs X c env \<Longrightarrow> placed (with_handlers hs f) vs X c env"
  unfolding placed_def
proof (intro allI impI)
  fix a g assume p: "\<forall>a g. grown f a vs g \<longrightarrow> lexical X c env g" and g: "grown (with_handlers hs f) a vs g"
  have "grown f a vs (with_handlers (fr_handlers f) g)" using grown_handlers[OF g, of "fr_handlers f"] by (simp add: with_handlers_id)
  then show "lexical X c env g" using p lexical_handlers by blast
qed

text \<open>How a \<open>try\<close> lies in memory, with the operands it gets in the end.\<close>

lemma try_code:
  assumes s1: "s1 = upd_cur (setTail False \<circ> append32 0 \<circ> append32 0 \<circ> emit OP_TRY_PUSH) st"
    and b: "extends (cx_code (cs_cur s1)) (cx_code (cs_cur s2))"
    and s4: "s4 = upd_cur (emitWithArg OP_JUMP 0 \<circ> emit OP_TRY_POP) s2"
    and c: "extends (cx_code (cs_cur s4)) (cx_code (cs_cur s5))"
    and s7: "s7 = upd_cur (updatePlaceholderArg (ac - 2) (ae - (ac - 2)) \<circ>
      (if fin then updatePlaceholderArg (a + 1) (ae - a) else id) \<circ> (if cat then updatePlaceholderArg a (ac - a) else id)) s5"
    and adr: "a = currentAddress (cs_cur st)" "ac = currentAddress (cs_cur s4)" "ae = currentAddress (cs_cur s5)"
    and e: "extends (cx_code (cs_cur s7)) (cx_code (cs_cur s8))"
  shows "cx_code (cs_cur s8) = cx_code (cs_cur st) @ [opword OP_TRY_PUSH (cx_sp (cs_cur st)), word_of_int (if cat then ac - a else 0),
      word_of_int (if fin then ae - a else 0)] @ words (cs_cur s1) (cs_cur s2) @ [opword OP_TRY_POP (cx_sp (cs_cur s2)), opword OP_JUMP (cx_sp (cs_cur s2)),
      word_of_int (ae - (ac - 2))] @ words (cs_cur s4) (cs_cur s5) @ words (cs_cur s7) (cs_cur s8)"
    and "currentAddress (cs_cur s1) = a + 3" "currentAddress (cs_cur s2) = a + 3 + int (length (words (cs_cur s1) (cs_cur s2)))"
    "ac = currentAddress (cs_cur s2) + 3" "ae = ac + int (length (words (cs_cur s4) (cs_cur s5)))" "currentAddress (cs_cur s7) = ae"
proof -
  let ?K = "cx_code (cs_cur st)" and ?wb = "words (cs_cur s1) (cs_cur s2)" and ?wc = "words (cs_cur s4) (cs_cur s5)"
  have k1: "cx_code (cs_cur s1) = ?K @ [opword OP_TRY_PUSH (cx_sp (cs_cur st)), 0, 0]" by (simp add: s1 ctx_simps)
  then show a1: "currentAddress (cs_cur s1) = a + 3" by (simp add: adr currentAddress_def)
  then show a2: "currentAddress (cs_cur s2) = a + 3 + int (length ?wb)" using words_address[OF b] by simp
  have k4: "cx_code (cs_cur s4) = cx_code (cs_cur s2) @ [opword OP_TRY_POP (cx_sp (cs_cur s2)), opword OP_JUMP (cx_sp (cs_cur s2)), 0]"
    by (simp add: s4 ctx_simps)
  then show a4: "ac = currentAddress (cs_cur s2) + 3" by (simp add: adr currentAddress_def)
  show a5: "ae = ac + int (length ?wc)" using words_address[OF c] adr by simp
  have k5: "cx_code (cs_cur s5) = ?K @ [opword OP_TRY_PUSH (cx_sp (cs_cur st)), 0, 0] @ ?wb @
      [opword OP_TRY_POP (cx_sp (cs_cur s2)), opword OP_JUMP (cx_sp (cs_cur s2)), 0] @ ?wc"
    using extends_words[OF c] extends_words[OF b] k1 k4 by simp
  have k7: "cx_code (cs_cur s7) = ?K @ [opword OP_TRY_PUSH (cx_sp (cs_cur st)), word_of_int (if cat then ac - a else 0),
      word_of_int (if fin then ae - a else 0)] @ ?wb @ [opword OP_TRY_POP (cx_sp (cs_cur s2)), opword OP_JUMP (cx_sp (cs_cur s2)),
      word_of_int (ae - (ac - 2))] @ ?wc"
    using try_patched[OF k5, of a "ac - 2" "ae - (ac - 2)" fin "ae - a" cat "ac - a"] adr(1) a2 a4 by (simp add: s7 currentAddress_def)
  show "currentAddress (cs_cur s7) = ae" by (simp add: s7 adr)
  show "cx_code (cs_cur s8) = ?K @ [opword OP_TRY_PUSH (cx_sp (cs_cur st)), word_of_int (if cat then ac - a else 0),
      word_of_int (if fin then ae - a else 0)] @ ?wb @ [opword OP_TRY_POP (cx_sp (cs_cur s2)), opword OP_JUMP (cx_sp (cs_cur s2)),
      word_of_int (ae - (ac - 2))] @ ?wc @ words (cs_cur s7) (cs_cur s8)"
    using extends_words[OF e] k7 by simp
qed

section \<open>What the protected part leaves\<close>

text \<open>At the code behind a \<open>try\<close> and its clauses, the outcome so far: a value on top of the frame, or
  an error raised in a frame that still has the handler \<open>x\<close> for the code of \<open>finally\<close>.\<close>

definition leaves :: "'h host \<Rightarrow> handler option \<Rightarrow> frame \<Rightarrow> frame \<Rightarrow> 'h world \<Rightarrow> int \<Rightarrow> answer \<Rightarrow> 'h world \<Rightarrow> bool" where
  "leaves VH x f g w a r w1 \<longleftrightarrow> (case r of
     Val v \<Rightarrow> \<exists>g1. comes VH g w (Running g1 [] w1) \<and> grown f a [v] g1
   | Raised y \<Rightarrow> \<exists>g1. comes VH g w (raise VH g1 [] y w1) \<and> kept (case x of Some h \<Rightarrow> with_handlers (h # fr_handlers f) f | None \<Rightarrow> f) g1
   | Failed y \<Rightarrow> comes VH g w (Halted (Err y) w1)
   | Again us \<Rightarrow> False)"

lemma leaves_ends: "leaves VH None f g w a r w1 \<Longrightarrow> ends VH T f g w a [] r w1"
  by (cases r) (auto simp: leaves_def ends_def)

lemma leaves_after: "comes VH g w (Running g1 [] w1) \<Longrightarrow> leaves VH x f g1 w1 a r w2 \<Longrightarrow> leaves VH x f g w a r w2"
  by (cases r) (auto simp: leaves_def intro: comes_trans)

lemma loaded_leaves:
  assumes hp: "host_pools VH" and l: "leaves VH x f g w a r w1" and p: "loaded H P ec w f"
  shows "loaded H P ec w1 f"
proof -
  have "\<exists>m. comes VH g w m \<and> machine_world m = w1"
  proof (cases r)
    case (Raised y)
    then obtain g1 where "comes VH g w (raise VH g1 [] y w1)" using l by (auto simp: leaves_def)
    then show ?thesis using raise_world by blast
  qed (use l in \<open>auto simp: leaves_def intro: exI[of _ "Running _ [] w1"] exI[of _ "Halted _ w1"]\<close>)
  then show ?thesis using loaded_comes[OF hp _ _ p] by blast
qed

text \<open>The code of \<open>finally\<close>: its value is dropped.\<close>

lemma run_finally_body:
  assumes i: "implements X VH H P ec s7 s9 mf" and t: "\<not> cx_tail (cs_cur s7)" and hp: "host_pools VH"
    and s10: "s10 = upd_cur (decSP 1 \<circ> emit OP_POP) s9" and g: "grown f (currentAddress (cs_cur s7)) [v] g"
    and f: "fits P s7 s9 f" "fits P s9 s10 f" "loaded H P ec w f" "cx_sp (cs_cur s7) = fr_sp f + 1" and l: "lexical X (cs_cur s7) env g"
    and m: "thenV (mf env w) (\<lambda>u w1. Some (r0, w1)) = Some (r, w2)"
    and c: "\<And>w1 g1. grown f (currentAddress (cs_cur s10)) [v] g1 \<Longrightarrow> r = r0 \<Longrightarrow> w2 = w1 \<Longrightarrow> ends VH T f g1 w1 e [] r w2"
  shows "ends VH T f g w e [] r w2"
proof (rule implements_then[OF i g f(1,3) _ l _ hp m])
  fix u w1 g1
  assume a: "grown f (currentAddress (cs_cur s9)) ([v] @ [u]) g1" "Some (r0, w1) = Some (r, w2)"
  have "holds (ck_code (fr_code f)) (currentAddress (cs_cur s9)) [opword OP_POP (cx_sp (cs_cur s9))]"
    using f(2) by (simp add: fits_def s10 words_def ctx_simps)
  note rp = run_pop[OF a(1) this]
  have "currentAddress (cs_cur s9) + 1 = currentAddress (cs_cur s10)" by (simp add: s10 ctx_simps)
  with rp obtain g2 where g2: "comes VH g1 w1 (Running g2 [] w1)" "grown f (currentAddress (cs_cur s10)) [v] g2" by auto
  show "ends VH T f g1 w1 e [] r w2" by (rule ends_after[OF g2(1) c[OF g2(2)]]) (use a(2) in simp_all)
qed (use f(4) t in simp_all)

text \<open>An error that leaves the code of \<open>finally\<close> passes the handler that is occupied.\<close>

lemma pending_ends:
  assumes e: "ends VH None (with_handlers (h # fr_handlers f) f) g w a [] r w1" and r: "\<forall>v. r \<noteq> Val v" and h: "h_pending h \<noteq> None"
  shows "ends VH T f g w a [] r w1"
proof (cases r)
  case (Raised y)
  let ?hs = "fr_handlers f"
  obtain g1 where g1: "comes VH g w (raise VH g1 [] y w1)" "kept (with_handlers (h # ?hs) f) g1" using e Raised by (auto simp: ends_def)
  have "raise VH g1 [] y w1 = raise VH (with_handlers ?hs g1) [] y w1"
    by (rule pass_handler[OF _ h]) (use kept_fields[OF g1(2)] in simp)
  moreover have "kept f (with_handlers ?hs g1)" using kept_handlers[OF g1(2), of ?hs] by (simp add: with_handlers_id)
  ultimately show ?thesis using g1(1) Raised by (auto simp: ends_def)
qed (use e r in \<open>auto simp: ends_def\<close>)

lemma run_finally:
  assumes i: "implements X VH H P ec s7 s9 mf" and t: "\<not> cx_tail (cs_cur s7)" and hp: "host_pools VH"
    and s10: "s10 = upd_cur (decSP 1 \<circ> emit OP_POP) s9" and s8: "s8 = upd_cur (emitWithArg OP_FINALLY_END (ae - currentAddress (cs_cur s10))) s10"
    and gr: "grows s7 s9" and ae: "ae = currentAddress (cs_cur s7)"
    and f: "fits P s7 s8 f" "pending_before f a" "a < ae" "loaded H P ec w1 f" "cx_sp (cs_cur s7) = fr_sp f + 1"
    and p: "placed f [] X c env" "cx_locals (cs_cur s7) = cx_locals c" "cx_sp c = fr_sp f" "ctx_ok c"
    and x: "h_pending x = None" "h_catchIP x < 0" "h_finallyIP x = ae" "h_savedSP x = fr_sp f" and r: "0 \<le> fr_sp f" "fr_sp f < int (length (fr_stack f))"
    and q: "leaves VH (Some x) f g w ae r1 w1" and m: "afterFinally (Some (r1, w1)) (mf env) = Some (r, w2)"
  shows "ends VH T f g w (currentAddress (cs_cur s8)) [] r w2"
proof -
  have gs: "grows s9 s10" "grows s10 s8" by (simp add: s10 grows_def ctx_simps, simp add: s8 grows_def ctx_simps)
  have le: "ae \<le> currentAddress (cs_cur s10)" "0 \<le> ae" "currentAddress (cs_cur s10) < lim"
    using grows_address[OF gr] grows_address[OF gs(1)] grows_address[OF gs(2)] f(1) ae by (simp_all add: currentAddress_def fits_def small_def)
  have ad: "currentAddress (cs_cur s8) = currentAddress (cs_cur s10) + 2" by (simp add: s8 ctx_simps)
  have off: "- lim \<le> ae - currentAddress (cs_cur s10)" "ae - currentAddress (cs_cur s10) < lim" using le by simp_all
  have lex: "lexical X (cs_cur s7) env g1" if "grown (with_handlers hs f) b [v] g1" for hs b v g1
  proof -
    have "lexical X c env f"
    proof -
      have "grown f (fr_ip f) [] f" by (rule grown_refl) (use r in simp_all)
      then show ?thesis by (rule placed_lexical[OF p(1)])
    qed
    then have "lexical X c env (with_handlers hs f)" by simp
    from lexical_grown[OF this that p(4) _ p(2)] show ?thesis using p(3) by simp
  qed
  have same: "with_handlers (fr_handlers f) f = f" by (simp add: with_handlers_id)
  have split: "fits P s7 s9 f'" "fits P s9 s10 f'" "fits P s10 s8 f'" if "fits P s7 s8 f'" for f'
  proof -
    note 1 = fits_split[OF that gr grows_trans[OF gs]]
    show "fits P s7 s9 f'" by (rule 1)
    show "fits P s9 s10 f'" "fits P s10 s8 f'" by (rule fits_split[OF 1(2) gs])+
  qed
  have hd: "holds (ck_code (fr_code f)) (currentAddress (cs_cur s10)) [opword OP_FINALLY_END (cx_sp (cs_cur s10)), word_of_int (ae - currentAddress (cs_cur s10))]"
    using split(3)[OF f(1)] by (simp add: fits_def s8 words_def ctx_simps)
  show ?thesis
  proof (cases r1)
    case (Val v)
    obtain g1 where g1: "comes VH g w (Running g1 [] w1)" "grown f ae [v] g1" using q Val by (auto simp: leaves_def)
    have m': "thenV (mf env w1) (\<lambda>u w1. Some (Val v, w1)) = Some (r, w2)" using m Val by (simp add: afterFinally_def)
    have "ends VH T f g1 w1 (currentAddress (cs_cur s8)) [] r w2"
    proof (rule run_finally_body[OF i t hp s10 g1(2)[unfolded ae] split(1,2)[OF f(1)] f(4,5) _ m'])
      show "lexical X (cs_cur s7) env g1" using lex[of "fr_handlers f"] g1(2) same by simp
      fix w3 g2 assume d: "grown f (currentAddress (cs_cur s10)) [v] g2" "r = Val v" "w2 = w3"
      have "\<exists>g3. comes VH g2 w3 (Running g3 [] w3) \<and> grown f (currentAddress (cs_cur s10) + 2) [v] g3"
        by (rule run_finally_end[OF d(1) hd off]) (use f(2,3) in \<open>auto simp: pending_before_def\<close>)
      then show "ends VH T f g2 w3 (currentAddress (cs_cur s8)) [] r w2"
        using d(2,3) by (auto simp: ends_def ad)
    qed
    then show ?thesis by (rule ends_after[OF g1(1)])
  next
    case (Raised y)
    let ?hp = "x\<lparr>h_pending := Some y\<rparr> # fr_handlers f"
    let ?f = "with_handlers ?hp f"
    obtain g1 where g1: "comes VH g w (raise VH g1 [] y w1)" "kept (with_handlers (x # fr_handlers f) f) g1" using q Raised by (auto simp: leaves_def)
    have m': "thenV (mf env w1) (\<lambda>u w1. Some (Raised y, w1)) = Some (r, w2)" using m Raised by (simp add: afterFinally_def)
    obtain g2 where g2: "raise VH g1 [] y w1 = Running g2 [] w1" "grown ?f ae [NIL] g2"
      using enter_finally[OF g1(2), of x "fr_handlers f" VH y w1] x r le(2) by auto
    have fp: "fits P s7 s8 ?f"
      by (rule fits_handlers[OF f(1)]) (use f(1) x(3) ae in \<open>auto simp: fits_def pending_before_def\<close>)
    have "ends VH None ?f g2 w1 (currentAddress (cs_cur s8)) [] r w2"
    proof (rule run_finally_body[OF i t hp s10 g2(2)[unfolded ae] split(1,2)[OF fp] _ _ lex[OF g2(2)] m'])
      fix w3 g3 assume d: "grown ?f (currentAddress (cs_cur s10)) [NIL] g3" "r = Raised y" "w2 = w3"
      have "comes VH g3 w3 (raise VH (with_handlers (fr_handlers f) g3) [] y w3)"
        by (rule run_finally_raise[OF d(1) hd off]) (use x(3) in simp_all)
      moreover have "raise VH g3 [] y w3 = raise VH (with_handlers (fr_handlers f) g3) [] y w3"
        by (rule pass_handler[of _ "x\<lparr>h_pending := Some y\<rparr>"]) (use grown_fields(9)[OF d(1)] in simp_all)
      ultimately show "ends VH None ?f g3 w3 (currentAddress (cs_cur s8)) [] r w2"
        using d(2,3) grown_keep[OF d(1)] unfolding ends_def by (simp only: answer.case) (intro exI[of _ g3], simp)
    qed (use f(4,5) in simp_all)
    moreover have "\<forall>v. r \<noteq> Val v" using m' by (auto simp: thenV_def split: option.splits prod.splits answer.splits)
    ultimately have "ends VH T f g2 w1 (currentAddress (cs_cur s8)) [] r w2" by (rule pending_ends) simp_all
    then have "ends VH T f g w (currentAddress (cs_cur s8)) [] r w2"
      using ends_after[of VH g w g2 w1] g1(1) g2(1) by simp
    then show ?thesis .
  next
    case (Failed y)
    then show ?thesis using q m by (auto simp: leaves_def ends_def afterFinally_def)
  next
    case (Again us)
    then show ?thesis using q by (simp add: leaves_def)
  qed
qed

text \<open>The code of the clauses, with the value that was thrown on the stack.\<close>

lemma run_catch:
  assumes i: "implements X VH H P ec s4p s5a md" and s4p: "s4p = upd_cur (addLocal caught \<circ> pushLocals) s4" and t: "\<not> cx_tail (cs_cur s4)"
    and s5: "s5 = upd_cur ((if fin then emit OP_TRY_POP else id) \<circ> popLocals \<circ> decSP 1 \<circ> emitWithArg OP_POP_N 1) s5a" and gr: "grows s4p s5a"
    and fc: "fc = with_handlers (if fin then hx # fr_handlers f else fr_handlers f) f" and f: "fits P s4 s5 fc" "loaded H P ec w f" "cx_sp (cs_cur s4) = fr_sp f + 1"
    and g: "grown fc (currentAddress (cs_cur s4)) [exn] g" and l: "lexical X (cs_cur s4p) env g" and m: "md env w = Some (r, w1)"
  shows "leaves VH (if fin then Some hx else None) f g w (currentAddress (cs_cur s5)) r w1"
proof -
  have gs: "grows s5a s5" by (simp add: s5 grows_def ctx_simps)
  have z: "fits P s4p s5 fc = fits P s4 s5 fc" "currentAddress (cs_cur s4p) = currentAddress (cs_cur s4)" "cx_sp (cs_cur s4p) = cx_sp (cs_cur s4)" "\<not> cx_tail (cs_cur s4p)"
    using t by (simp_all add: s4p fits_def words_def ctx_simps)
  note ft = fits_split[OF f(1)[folded z(1)] gr gs]
  have e: "ends VH None fc g w (currentAddress (cs_cur s5a)) [exn] r w1"
    by (rule implements_run[OF i g[folded z(2)] ft(1) _ _ l m]) (use f fc z in simp_all)
  show ?thesis
  proof (cases r)
    case (Val v)
    obtain g1 where g1: "comes VH g w (Running g1 [] w1)" "grown fc (currentAddress (cs_cur s5a)) ([] @ [exn] @ [v]) g1"
      using e Val by (auto simp: ends_def)
    have w: "words (cs_cur s5a) (cs_cur s5) = [opword OP_POP_N (cx_sp (cs_cur s5a)), word_of_int (int (length [exn]))] @
        (if fin then [opword OP_TRY_POP (cx_sp (cs_cur s5a) - 1)] else [])"
      by (simp add: s5 words_def ctx_simps)
    have "holds (ck_code (fr_code f)) (currentAddress (cs_cur s5a)) (words (cs_cur s5a) (cs_cur s5))" using ft(2) by (simp add: fits_def fc)
    note H = this[unfolded w holds_append]
    have hd: "holds (ck_code (fr_code fc)) (currentAddress (cs_cur s5a)) [opword OP_POP_N (cx_sp (cs_cur s5a)), word_of_int (int (length [exn]))]"
      "fin \<Longrightarrow> holds (ck_code (fr_code f)) (currentAddress (cs_cur s5a) + 2) [opword OP_TRY_POP (cx_sp (cs_cur s5a) - 1)]"
      by (use H in \<open>simp add: fc\<close>, use H in \<open>simp\<close>)
    from run_pop_n[OF g1(2) hd(1)] obtain g2 where g2: "comes VH g1 w1 (Running g2 [] w1)" "grown fc (currentAddress (cs_cur s5a) + 2) [v] g2" by auto
    obtain g3 where g3: "comes VH g2 w1 (Running g3 [] w1)" "grown f (currentAddress (cs_cur s5)) [v] g3"
    proof (atomize_elim)
      show "\<exists>g3. comes VH g2 w1 (Running g3 [] w1) \<and> grown f (currentAddress (cs_cur s5)) [v] g3"
    proof (cases fin)
      case True
      have "grown (with_handlers (hx # fr_handlers f) f) (currentAddress (cs_cur s5a) + 2) [v] g2" using g2(2) True fc by simp
      from run_try_pop[OF this hd(2)[OF True]] show ?thesis using True by (simp add: with_handlers_id s5 ctx_simps)
    next
      case False
      have e5: "currentAddress (cs_cur s5) = currentAddress (cs_cur s5a) + 2" using False by (simp add: s5 ctx_simps)
      have "fc = f" using fc False by (simp add: with_handlers_id)
      then have "grown f (currentAddress (cs_cur s5)) [v] g2" unfolding e5 using g2(2) by (simp only:)
      with comes_refl[of VH g2 w1] show ?thesis by (intro exI[of _ g2]) (rule conjI)
    qed
    qed
    show ?thesis using comes_trans[OF g1(1) comes_trans[OF g2(1) g3(1)]] g3(2) Val by (auto simp: leaves_def)
  next
    case (Raised y)
    have "(case if fin then Some hx else None of Some h \<Rightarrow> with_handlers (h # fr_handlers f) f | None \<Rightarrow> f) = fc" by (simp add: fc with_handlers_id)
    then show ?thesis using e Raised by (simp add: leaves_def ends_def)
  qed (use e in \<open>simp_all add: leaves_def ends_def\<close>)
qed

section \<open>A try\<close>

lemma implements_try:
  fixes cat fin :: bool
  assumes st: "ready st" and hp: "host_pools VH"
    and s1: "s1 = upd_cur (setTail False \<circ> append32 0 \<circ> append32 0 \<circ> emit OP_TRY_PUSH) st"
    and b: "compiled H w0 1 s1 s2" "cx_sp (cs_cur s2) \<le> cx_spMax (cs_cur s2)" and ib: "implements X VH H P ec s1 s2 mb"
    and s4: "s4 = upd_cur (emitWithArg OP_JUMP 0 \<circ> emit OP_TRY_POP) s2"
    and s4p: "s4p = upd_cur (addLocal caught \<circ> pushLocals) s4"
    and K: "if cat then grows s4p s5a \<and> implements (insert caught X) VH H P ec s4p s5a md \<and>
        s5 = upd_cur ((if fin then emit OP_TRY_POP else id) \<circ> popLocals \<circ> decSP 1 \<circ> emitWithArg OP_POP_N 1) s5a else s5 = s4"
    and c5: "same_ctx (cs_cur s4) (cs_cur s5)" "cx_sp (cs_cur s5) = cx_sp (cs_cur s4)"
    and s7: "s7 = upd_cur (updatePlaceholderArg (ac - 2) (ae - (ac - 2)) \<circ>
      (if fin then updatePlaceholderArg (a + 1) (ae - a) else id) \<circ> (if cat then updatePlaceholderArg a (ac - a) else id)) s5"
    and adr: "a = currentAddress (cs_cur st)" "ac = currentAddress (cs_cur s4)" "ae = currentAddress (cs_cur s5)"
    and F: "if fin then grows s7 s9 \<and> implements X VH H P ec s7 s9 mf \<and> s10 = upd_cur (decSP 1 \<circ> emit OP_POP) s9 \<and>
        s8 = upd_cur (emitWithArg OP_FINALLY_END (ae - currentAddress (cs_cur s10))) s10 else s8 = s7"
    and cf: "cat \<or> fin"
  shows "implements X VH H P ec st (upd_cur (setTail tc) s8) (\<lambda>env w. let r1 = mb env w;
      r2 = (case r1 of Some (Raised x, w1) \<Rightarrow> if cat then md (env(caught \<mapsto> errorToValue x)) w1 else r1 | _ \<Rightarrow> r1) in
      if fin then afterFinally r2 (mf env) else r2)"
proof (rule implementsI)
  let ?c = "cs_cur st" and ?T = "target (cs_cur st)" and ?d = "cx_sp (cs_cur st)"
  fix f w env r w'
  assume q: "fits P st (upd_cur (setTail tc) s8) f" "loaded H P ec w f" "fr_ip f = currentAddress ?c" "fr_sp f = ?d" "lexical X ?c env f"
    and m: "(let r1 = mb env w; r2 = (case r1 of Some (Raised x, w1) \<Rightarrow> if cat then md (env(caught \<mapsto> errorToValue x)) w1 else r1 | _ \<Rightarrow> r1) in
      if fin then afterFinally r2 (mf env) else r2) = Some (r, w')"
  have q1: "fits P st s8 f" using q(1) by simp
  have c1: "cx_sp (cs_cur s1) = ?d" "cx_locals (cs_cur s1) = cx_locals ?c" "\<not> cx_tail (cs_cur s1)" by (simp_all add: s1 ctx_simps)
  have c2: "cx_sp (cs_cur s2) = ?d + 1" "cx_locals (cs_cur s2) = cx_locals ?c" "\<not> cx_tail (cs_cur s2)"
    using b(1) compiled_sp[OF b(1)] c1 by (simp_all add: compiled_def same_ctx_def)
  have c4: "cx_sp (cs_cur s4) = ?d + 1" "cx_locals (cs_cur s4) = cx_locals ?c" "\<not> cx_tail (cs_cur s4)"
    using c2 by (simp_all add: s4 ctx_simps)
  have c7: "cx_sp (cs_cur s7) = ?d + 1" "cx_locals (cs_cur s7) = cx_locals ?c" "\<not> cx_tail (cs_cur s7)"
    using c4 c5 by (simp_all add: s7 same_ctx_def)
  have g12: "grows s1 s2" by (rule compiled_grows[OF b(1)])
  have g45: "grows s4 s5"
  proof (cases cat)
    case True
    have d: "s5 = upd_cur ((if fin then emit OP_TRY_POP else id) \<circ> popLocals \<circ> decSP 1 \<circ> emitWithArg OP_POP_N 1) s5a" "grows s4p s5a"
      using True K by simp_all
    have "grows s4 s4p" by (simp add: s4p grows_def ctx_simps)
    moreover have "grows s5a s5" by (simp add: d(1) grows_def ctx_simps)
    ultimately show ?thesis using d(2) grows_trans by blast
  qed (use K in simp)
  have g78: "grows s7 s8"
  proof (cases fin)
    case True
    have d: "s10 = upd_cur (decSP 1 \<circ> emit OP_POP) s9" "s8 = upd_cur (emitWithArg OP_FINALLY_END (ae - currentAddress (cs_cur s10))) s10" "grows s7 s9"
      using True F by simp_all
    have "grows s9 s10" by (simp add: d(1) grows_def ctx_simps)
    moreover have "grows s10 s8" by (simp add: d(2) grows_def ctx_simps)
    ultimately show ?thesis using d(3) grows_trans by blast
  qed (use F in simp)
  have x: "extends (cx_code (cs_cur s1)) (cx_code (cs_cur s2))" "extends (cx_code (cs_cur s4)) (cx_code (cs_cur s5))" "extends (cx_code (cs_cur s7)) (cx_code (cs_cur s8))"
    using g12 g45 g78 by (simp_all add: grows_def)
  define o1 o2 o3 :: u32 where o: "o1 = word_of_int (if cat then ac - a else 0)" "o2 = word_of_int (if fin then ae - a else 0)" "o3 = word_of_int (ae - (ac - 2))"
  note k = try_code[OF s1 x(1) s4 x(2) s7 adr x(3), folded o]
  let ?wb = "words (cs_cur s1) (cs_cur s2)" and ?wc = "words (cs_cur s4) (cs_cur s5)" and ?wz = "words (cs_cur s7) (cs_cur s8)"
  let ?tp = "[opword OP_TRY_PUSH ?d, o1, o2]" and ?pj = "[opword OP_TRY_POP (cx_sp (cs_cur s2)), opword OP_JUMP (cx_sp (cs_cur s2)), o3]"
  have sg: "store_grows s1 s2" "store_grows s2 s4" "store_grows s4 s5" "store_grows s5 s7" "store_grows s7 s8"
    using g12 g45 g78 by (simp_all add: grows_store store_same s4 s7 ctx_simps)
  then have sg: "store_grows s2 s8" "store_grows s5 s8" "store_grows s7 s8" by (meson store_trans)+
  have xs: "extends (cx_code ?c) (cx_code (cs_cur s8))" using k(1) by simp
  have f2: "fits P s1 s2 f"
    by (rule fits_part[OF q1 _ _ _ xs x(1) sg(1), where A = "cx_code ?c @ ?tp"]) (use k adr in \<open>simp_all add: currentAddress_def\<close>)
  have f5: "fits P s4 s5 f"
    by (rule fits_part[OF q1 _ _ _ xs x(2) sg(2), where A = "cx_code ?c @ ?tp @ ?wb @ ?pj"]) (use k adr in \<open>simp_all add: currentAddress_def\<close>)
  have f8: "fits P s7 s8 f"
    by (rule fits_part[OF q1 _ _ _ xs x(3), where A = "cx_code ?c @ ?tp @ ?wb @ ?pj @ ?wc" and B = "[]"])
      (use k adr in \<open>simp_all add: currentAddress_def store_grows_def\<close>)
  have h1: "holds (ck_code (fr_code f)) a ?tp" using holds_part[OF q1 k(1)] adr by (simp add: currentAddress_def)
  have "holds (ck_code (fr_code f)) (currentAddress (cs_cur s2)) ?pj"
    using holds_part[OF q1, of "cx_code ?c @ ?tp @ ?wb" ?pj "?wc @ ?wz"] k adr by (simp add: currentAddress_def algebra_simps)
  then have h2: "holds (ck_code (fr_code f)) (currentAddress (cs_cur s2)) [opword OP_TRY_POP (cx_sp (cs_cur s2))]"
    "holds (ck_code (fr_code f)) (currentAddress (cs_cur s2) + 1) [opword OP_JUMP (cx_sp (cs_cur s2)), o3]"
    using holds_append[of _ _ "[opword OP_TRY_POP (cx_sp (cs_cur s2))]" "[opword OP_JUMP (cx_sp (cs_cur s2)), o3]"] by simp_all
  have le: "0 \<le> a" "a + 3 \<le> currentAddress (cs_cur s2)" "currentAddress (cs_cur s2) + 3 = ac" "ac \<le> ae" "ae < lim"
    using k(3,4,5,6) adr f8 grows_address[OF g78] by (simp_all add: currentAddress_def fits_def small_def)
  have room: "0 \<le> fr_sp f" "fr_sp f < int (length (fr_stack f))" using ready_ok(3)[OF st] q(4) f2 b(2) c2(1) by (simp_all add: fits_def)
  have g0: "grown f a [] f" by (rule grown_refl) (use room q(3) adr in simp_all)
  define h where "h = \<lparr>h_catchIP = if cat then ac else - 1, h_finallyIP = if fin then ae else - 1, h_savedSP = fr_sp f, h_pending = None\<rparr>"
  let ?fp = "with_handlers (h # fr_handlers f) f"
  have off: "(if (if cat then ac - a else 0) \<noteq> 0 then a + (if cat then ac - a else 0) else - 1) = (if cat then ac else - 1)"
    "(if (if fin then ae - a else 0) \<noteq> 0 then a + (if fin then ae - a else 0) else - 1) = (if fin then ae else - 1)"
    using le by simp_all
  have h1': "holds (ck_code (fr_code f)) a (opword OP_TRY_PUSH ?d # map word_of_int [if cat then ac - a else 0, if fin then ae - a else 0])"
    using h1 by (simp add: o)
  have "\<exists>g1. comes VH f w (Running g1 [] w) \<and> grown ?fp (a + 3) [] g1"
    using run_try_push[OF g0 h1', of VH w] le unfolding off h_def by simp
  then obtain g1 where g1: "comes VH f w (Running g1 [] w)" "grown ?fp (a + 3) [] g1" by blast
  have pf: "pending_before f a" using q1 adr by (simp add: fits_def)
  have fp2: "fits P s1 s2 ?fp" by (rule fits_handlers[OF f2]) (use f2 in \<open>auto simp: h_def fits_def pending_before_def\<close>)
  have pl: "placed f [] X ?c env" by (rule placed_nil[OF q(5) ready_ok(2)[OF st]]) (use q(4) in simp)
  have l1: "lexical X (cs_cur s1) env g1"
    by (rule placed_lexical[OF placed_same[OF placed_handlers[OF pl] c1(2)] g1(2)])
  obtain r1 w1 where r1: "mb env w = Some (r1, w1)" using m by (cases "mb env w") (auto simp: afterFinally_def split: if_splits)
  have e1: "ends VH None ?fp g1 w (currentAddress (cs_cur s2)) [] r1 w1"
    by (rule implements_run[OF ib _ fp2 _ _ l1 r1]) (use g1(2) k(2) q(2,4) c1 in simp_all)
  define r2 where "r2 = (case r1 of Raised x \<Rightarrow> if cat then md (env(caught \<mapsto> errorToValue x)) w1 else Some (r1, w1) | _ \<Rightarrow> Some (r1, w1))"
  have "(case mb env w of Some (Raised x, w1) \<Rightarrow> if cat then md (env(caught \<mapsto> errorToValue x)) w1 else mb env w | _ \<Rightarrow> mb env w) = r2"
    unfolding r1 r2_def by (cases r1) simp_all
  then have m2: "(if fin then afterFinally r2 (mf env) else r2) = Some (r, w')" using m unfolding Let_def by (simp only:)
  then obtain r3 w3 where r3: "r2 = Some (r3, w3)" by (cases r2) (auto simp: afterFinally_def split: if_splits)
  let ?hx = "h\<lparr>h_catchIP := - 1\<rparr>"
  have L: "leaves VH (if fin then Some ?hx else None) f g1 w ae r3 w3"
  proof (cases r1)
    case (Val v)
    have e3: "r3 = Val v" "w3 = w1" using r3 Val by (simp_all add: r2_def)
    obtain g2 where g2: "comes VH g1 w (Running g2 [] w1)" "grown ?fp (currentAddress (cs_cur s2)) [v] g2" using e1 Val by (auto simp: ends_def)
    obtain g3 where g3: "comes VH g2 w1 (Running g3 [] w1)" "grown f (currentAddress (cs_cur s2) + 1) [v] g3"
      using run_try_pop[OF g2(2) h2(1), of VH w1] by (auto simp: with_handlers_id)
    obtain g4 where g4: "comes VH g3 w1 (Running g4 [] w1)" "grown f ae [v] g4"
      using run_jump[OF g3(2) h2(2)[unfolded o], of VH w1] le by auto
    show ?thesis using comes_trans[OF g2(1) comes_trans[OF g3(1) g4(1)]] g4(2) e3 by (auto simp: leaves_def)
  next
    case (Raised y)
    obtain g2 where g2: "comes VH g1 w (raise VH g2 [] y w1)" "kept ?fp g2" using e1 Raised by (auto simp: ends_def)
    show ?thesis
    proof (cases cat)
      case True
      let ?fc = "with_handlers (if fin then ?hx # fr_handlers f else fr_handlers f) f"
      have md: "md (env(caught \<mapsto> errorToValue y)) w1 = Some (r3, w3)" using r3 Raised True by (simp add: r2_def)
      obtain g3 where g3: "raise VH g2 [] y w1 = Running g3 [] w1" "grown ?fc ac [errorToValue y] g3"
        using enter_catch[OF g2(2), of h "fr_handlers f" VH y w1] True le room by (auto simp: h_def split: if_splits)
      have KK: "grows s4p s5a" "implements (insert caught X) VH H P ec s4p s5a md"
        "s5 = upd_cur ((if fin then emit OP_TRY_POP else id) \<circ> popLocals \<circ> decSP 1 \<circ> emitWithArg OP_POP_N 1) s5a"
        using K True by simp_all
      have f5': "fits P s4 s5 ?fc" by (rule fits_handlers[OF f5]) (use f5 in \<open>auto simp: h_def fits_def pending_before_def split: if_splits\<close>)
      have "placed f ([] @ [errorToValue y]) (insert caught X) (addLocal caught (pushLocals (cs_cur s4))) (env(caught \<mapsto> errorToValue y))"
        by (rule placed_name[OF placed_open[OF pl]]) (use c4 q(4) in \<open>simp_all add: pushLocals_def\<close>)
      then have "placed ?fc [errorToValue y] (insert caught X) (cs_cur s4p) (env(caught \<mapsto> errorToValue y))"
        by (intro placed_handlers) (simp add: s4p)
      from placed_lexical[OF this g3(2)] have l3: "lexical (insert caught X) (cs_cur s4p) (env(caught \<mapsto> errorToValue y)) g3" .
      have "loaded H P ec w1 f"
        by (rule loaded_comes[OF hp comes_trans[OF g1(1) g2(1)] _ q(2)]) simp
      from run_catch[OF KK(2) s4p c4(3) KK(3,1) refl f5' this _ g3(2)[unfolded adr] l3 md] c4(1) q(4)
      have "leaves VH (if fin then Some ?hx else None) f g3 w1 ae r3 w3" by (simp add: adr)
      then show ?thesis using leaves_after[of VH g1 w g3 w1] g2(1) g3(1) by simp
    next
      case False
      then have e3: "r3 = Raised y" "w3 = w1" "fin" "?hx = h" using r3 Raised cf by (simp_all add: r2_def h_def)
      then show ?thesis using g2 by (auto simp: leaves_def)
    qed
  next
    case (Failed y)
    then have "r3 = Failed y" "w3 = w1" using r3 by (simp_all add: r2_def)
    then show ?thesis using e1 Failed by (simp add: leaves_def ends_def)
  qed (use e1 in \<open>simp add: ends_def\<close>)
  have w3: "loaded H P ec w3 f" by (rule loaded_leaves[OF hp L loaded_comes[OF hp g1(1) _ q(2)]]) simp
  have "ends VH ?T f g1 w (currentAddress (cs_cur s8)) [] r w'"
  proof (cases fin)
    case True
    have FF: "grows s7 s9" "implements X VH H P ec s7 s9 mf" "s10 = upd_cur (decSP 1 \<circ> emit OP_POP) s9"
      "s8 = upd_cur (emitWithArg OP_FINALLY_END (ae - currentAddress (cs_cur s10))) s10"
      using F True by simp_all
    show ?thesis
      by (rule run_finally[OF FF(2) c7(3) hp FF(3,4,1) k(6)[symmetric] f8 pf _ w3 _ pl c7(2) _ ready_ok(2)[OF st], of ?hx g1 w r3])
        (use le c7(1) q(4) room L m2 r3 True in \<open>simp_all add: h_def\<close>)
  next
    case False
    then have "leaves VH None f g1 w ae r w'" using L m2 r3 by simp
    then show ?thesis using leaves_ends F False k(6) by simp
  qed
  from ends_after[OF g1(1) this] show "ends VH ?T f f w (currentAddress (cs_cur (upd_cur (setTail tc) s8))) [] r w'" by simp
qed

text \<open>The states between the parts are states of the top level.\<close>

lemma try_states:
  fixes cat fin :: bool
  assumes st: "ready st"
    and s1: "s1 = upd_cur (setTail False \<circ> append32 0 \<circ> append32 0 \<circ> emit OP_TRY_PUSH) st"
    and b: "compiled H w 1 s1 s2" "cx_sp (cs_cur s2) \<le> cx_spMax (cs_cur s2)"
    and s4: "s4 = upd_cur (emitWithArg OP_JUMP 0 \<circ> emit OP_TRY_POP) s2"
    and k: "st_ok s4 \<Longrightarrow> if cat then block H w Q s4 s5 else s5 = s4"
    and s7: "s7 = upd_cur (updatePlaceholderArg p3 o3 \<circ> (if fin then updatePlaceholderArg p2 o2 else id) \<circ>
      (if cat then updatePlaceholderArg p1 o1 else id)) s5"
  shows "ready s4" "ready s7" "\<not> cx_tail (cs_cur s4)" "\<not> cx_tail (cs_cur s7)" "cx_sp (cs_cur s4) = cx_sp (cs_cur st) + 1"
    "cx_locals (cs_cur s4) = cx_locals (cs_cur st)" "same_ctx (cs_cur s4) (cs_cur s5)" "cx_sp (cs_cur s5) = cx_sp (cs_cur s4)"
proof -
  let ?c = "cs_cur st" and ?c4 = "cs_cur s4"
  note ok = ready_ok[OF st]
  have c1: "same_ctx (setTail False ?c) (cs_cur s1)" "cx_sp (cs_cur s1) = cx_sp ?c" "cs_outer s1 = cs_outer st" "currentAddress (cs_cur s1) = currentAddress ?c + 3"
    by (simp_all add: s1 ctx_simps same_ctx_def)
  have c2: "same_ctx (setTail False ?c) (cs_cur s2)" "cx_sp (cs_cur s2) = cx_sp ?c + 1" "cs_outer s2 = []"
      "currentAddress ?c + 3 \<le> currentAddress (cs_cur s2)"
    using b(1) c1 same_ctx_trans compiled_sp[OF b(1)] ok(5) grows_address[OF compiled_grows[OF b(1)]]
    by (auto simp: compiled_def ran_def grows_def)
  have c4: "same_ctx (setTail False ?c) ?c4" "cx_sp ?c4 = cx_sp ?c + 1" "cs_outer s4 = []" "cx_captured ?c4 = cx_captured (cs_cur s2)"
      "cx_spMax ?c4 = cx_spMax (cs_cur s2)" "currentAddress ?c4 = currentAddress (cs_cur s2) + 3"
    using c2 by (simp_all add: s4 ctx_simps same_ctx_def)
  have "ctx_ok ?c4"
    by (rule ctx_ok_ops[OF st_ok_ctx[OF compiled_ok[OF b(1)]], where k = 0 and x = "opword OP_TRY_POP (cx_sp (cs_cur s2))" and
        args = "[opword OP_JUMP (cx_sp (cs_cur s2)), 0]"])
      (use st_ok_ctx[OF compiled_ok[OF b(1)]] c2 locals_below[OF ok(2), of "cs_cur s2"] in \<open>simp_all add: s4 ctx_simps same_ctx_def ctx_ok_def\<close>)
  then have ok4: "st_ok s4" using chain_cur[OF compiled_ok[OF b(1)]] c4 by (simp add: s4 ctx_simps)
  note k = k[OF ok4]
  show s: "\<not> cx_tail ?c4" "cx_sp ?c4 = cx_sp ?c + 1" "cx_locals ?c4 = cx_locals ?c" using c4 by (simp_all add: same_ctx_def)
  show 5: "same_ctx ?c4 (cs_cur s5)" "cx_sp (cs_cur s5) = cx_sp ?c4" using k by (auto simp: block_def split: if_splits)
  show r4: "ready s4"
    by (rule ready_at[OF st ok4 c4(3) under_False]) (use c4 c2 b(2) in \<open>simp_all add: same_ctx_def setTail_def\<close>)
  have ok5: "st_ok s5" using k ok4 by (auto simp: block_def split: if_splits)
  have g45: "grows s4 s5" using k block_grows by (auto split: if_splits)
  have c7: "same_ctx (setTail False ?c) (cs_cur s7)" "cx_sp (cs_cur s7) = cx_sp ?c + 1" "cx_spMax (cs_cur s7) = cx_spMax (cs_cur s5)"
      "cx_captured (cs_cur s7) = cx_captured (cs_cur s5)" "cs_outer s7 = cs_outer s5" "currentAddress (cs_cur s7) = currentAddress (cs_cur s5)"
      "ctx_ok (cs_cur s7) = ctx_ok (cs_cur s5)"
    using 5 c4 same_ctx_trans[OF c4(1) 5(1)] by (simp_all add: s7)
  have "st_ok s7" using chain_cur[OF ok5] c7 st_ok_ctx[OF ok5] by simp
  then show "ready s7"
  proof (rule ready_at[OF st _ _ under_False])
    show "cs_outer s7 = []" using ready_outer[OF r4 g45] c7(5) by simp
    show "cx_sp (cs_cur s7) \<le> cx_spMax (cs_cur s7)" using c7 c4 c2 b(2) g45 by (simp add: grows_def)
    show "currentAddress ?c \<le> currentAddress (cs_cur s7)" using grows_address[OF g45] c7 c4 c2 by simp
  qed (use c7(1) in \<open>simp_all add: same_ctx_def setTail_def\<close>)
  show "\<not> cx_tail (cs_cur s7)" using c7(1) by (simp add: same_ctx_def)
qed

context meaning
begin

lemma body_False_implements:
  assumes S: "setting VH H e w0 P" and c: "compileBody no_pre cf False fs st = Ok st1" and f: "\<forall>f\<in>set fs. form_ok w0 f"
    and st: "ready st" "\<not> cx_tail (cs_cur st)"
  shows "implements X VH H P ec st st1 (evBody ev fs)"
proof -
  have e: "upd_cur (setTail False) st = st" by (rule setTail_id) (use st(2) in simp)
  have r: "ready (upd_cur (setTail False) st)" unfolding e by (rule st(1))
  have "implements X VH H P ec (upd_cur (setTail False) st) st1 (evBody ev fs)"
    by (rule implements_body[OF S no_pre_env c f st(1) r st(2)])
  then show ?thesis unfolding e .
qed

lemma catchBlock_implements:
  assumes S: "setting VH H e w0 P" and c: "catchBlock cf caught form hf st = Ok st'" and f: "form_ok w0 form"
    and st: "ready st" "\<not> cx_tail (cs_cur st)" "1 \<le> cx_sp (cs_cur st)"
    and m: "\<And>s s'. ready s \<Longrightarrow> cf form s = Ok s' \<Longrightarrow> implements Y VH H P ec s s' md"
  obtains s5 where "grows (upd_cur (addLocal caught \<circ> pushLocals) st) s5"
    "implements Y VH H P ec (upd_cur (addLocal caught \<circ> pushLocals) st) s5 md"
    "st' = upd_cur ((if hf then emit OP_TRY_POP else id) \<circ> popLocals \<circ> decSP 1 \<circ> emitWithArg OP_POP_N 1) s5"
proof -
  note h = setting_parts[OF S]
  let ?sp = "upd_cur pushLocals st" and ?s = "upd_cur (addLocal caught) (upd_cur pushLocals st)"
  obtain s1 where c1: "cf form ?s = Ok s1"
    and e: "st' = upd_cur ((if hf then emit OP_TRY_POP else id) \<circ> popLocals \<circ> decSP 1 \<circ> emitWithArg OP_POP_N 1) s1"
    using c by (auto simp: catchBlock_def obind_Ok)
  have "ran H w0 0 st (upd_cur (setTail False \<circ> pushLocals) st)" by (rule ran_pushLocals[OF ran_refl[OF ready_ok(1)[OF st(1)]]])
  moreover have "upd_cur (setTail False \<circ> pushLocals) st = ?sp"
    using st(2) by (cases "cs_cur st") (simp add: setTail_def pushLocals_def)
  ultimately have "ran H w0 0 st ?sp" by simp
  then have r0: "ran H w0 0 st ?s" by (rule ran_addLocal) (use st(3) in \<open>simp_all add: pushLocals_def\<close>)
  have rs: "ready ?s"
    by (rule ready_ran[OF st(1) r0 under_False]) (use st ready_ok(4)[OF st(1)] in \<open>simp_all add: addLocal_def pushLocals_def\<close>)
  have "compiled H w0 1 ?s s1" by (rule sub[OF h(1) c1 f ready_ok(1)[OF rs]])
  from compiled_grows[OF this] m[OF rs c1] e show ?thesis by (intro that) simp_all
qed

text \<open>The code of a whole \<open>try\<close> with clauses or \<open>finally\<close>.\<close>

lemma tryLayout_implements:
  assumes S: "setting VH H e w0 P" and c: "tryLayout cf body handler fin st = Ok st'" and st: "ready st"
    and b: "\<forall>f\<in>set body. form_ok w0 f" and f: "\<forall>f\<in>set fin. form_ok w0 f" and hd: "handler \<noteq> None \<or> fin \<noteq> []"
    and k: "\<And>caught form. handler = Some (caught, form) \<Longrightarrow> form_ok w0 form \<and>
      (\<forall>s s'. ready s \<longrightarrow> cf form s = Ok s' \<longrightarrow> implements (insert caught X) VH H P ec s s' md)"
  shows "implements X VH H P ec st st' (\<lambda>env w. let r1 = evBody ev body env w;
      r2 = (case r1 of Some (Raised x, w1) \<Rightarrow> (case handler of Some (caught, form) \<Rightarrow> md (env(caught \<mapsto> errorToValue x)) w1 | None \<Rightarrow> r1) | _ \<Rightarrow> r1) in
      if fin \<noteq> [] then afterFinally r2 (evBody ev fin env) else r2)"
proof -
  note h = setting_parts[OF S]
  let ?s1 = "upd_cur (setTail False \<circ> append32 0 \<circ> append32 0 \<circ> emit OP_TRY_PUSH) st"
  let ?s4 = "\<lambda>s2. upd_cur (emitWithArg OP_JUMP 0 \<circ> emit OP_TRY_POP) s2"
  let ?a = "currentAddress (cs_cur st)" and ?cat = "handler \<noteq> None" and ?fin = "fin \<noteq> []"
  let ?s7 = "\<lambda>s2 s5. upd_cur (updatePlaceholderArg (currentAddress (cs_cur (?s4 s2)) - 2) (currentAddress (cs_cur s5) - (currentAddress (cs_cur (?s4 s2)) - 2)) \<circ>
      (if fin \<noteq> [] then updatePlaceholderArg (?a + 1) (currentAddress (cs_cur s5) - ?a) else id) \<circ>
      (if handler \<noteq> None then updatePlaceholderArg ?a (currentAddress (cs_cur (?s4 s2)) - ?a) else id)) s5"
  have adr: "currentAddress (emit OP_TRY_POP c) = currentAddress (emitWithArg OP_JUMP 0 (emit OP_TRY_POP c)) - 2" for c
    by (simp add: ctx_simps)
  have "tryLayout cf body handler fin st = obind (compileBody no_pre cf False body ?s1) (\<lambda>s2.
      obind (case handler of Some (caught, form) \<Rightarrow> catchBlock cf caught form (fin \<noteq> []) (?s4 s2) | None \<Rightarrow> Ok (?s4 s2)) (\<lambda>s5.
      obind (if fin = [] then Ok (?s7 s2 s5) else finallyBlock cf (currentAddress (cs_cur s5)) fin (?s7 s2 s5)) (\<lambda>s8.
      Ok (upd_cur (setTail (cx_tail (cs_cur st))) s8))))"
    by (cases handler; cases "fin = []") (auto simp: tryLayout_def Let_def adr obind_assoc)
  from trans[OF this[symmetric] c, unfolded obind_Ok]
  obtain s2 s5 s8 where 2: "compileBody no_pre cf False body ?s1 = Ok s2"
    and 5: "(case handler of Some (caught, form) \<Rightarrow> catchBlock cf caught form (fin \<noteq> []) (?s4 s2) | None \<Rightarrow> Ok (?s4 s2)) = Ok s5"
    and 8: "(if fin = [] then Ok (?s7 s2 s5) else finallyBlock cf (currentAddress (cs_cur s5)) fin (?s7 s2 s5)) = Ok s8"
    and e': "Ok (upd_cur (setTail (cx_tail (cs_cur st))) s8) = (Ok st' :: 'e cresult)"
    by blast
  have e: "st' = upd_cur (setTail (cx_tail (cs_cur st))) s8" using e' by simp
  have ok1: "st_ok ?s1" by (rule try_push_ok[OF ready_ok(1)[OF st]])
  have t1: "\<not> cx_tail (cs_cur ?s1)" by simp
  have r1: "ready ?s1"
    by (rule ready_at[OF st ok1 _ under_False]) (use ready_ok(4,5)[OF st] in \<open>simp_all add: ctx_simps\<close>)
  have b2: "compiled H w0 1 ?s1 s2" by (rule compileBody_False[OF h(1) 2 b ok1 t1])
  have "level ?s1 s2" by (rule compileBody_level[OF h(1) no_pre_env 2 b ok1 t1 disjI1[OF not_False]])
  then have lv: "cx_sp (cs_cur s2) \<le> cx_spMax (cs_cur s2)" using ready_ok(4)[OF r1] by (simp add: level_def)
  have K: "if ?cat then block H w0 (catch_entry ?fin) (?s4 s2) s5 else s5 = ?s4 s2" if ok4: "st_ok (?s4 s2)"
  proof (cases handler)
    case (Some x)
    obtain caught form where x: "x = (caught, form)" by fastforce
    have t4: "\<not> cx_tail (cs_cur (?s4 s2))" "1 \<le> cx_sp (cs_cur (?s4 s2))"
      using compiled_tail_eq[OF b2] t1 compiled_sp[OF b2] ready_ok(3)[OF r1] by (simp_all add: ctx_simps)
    have "catchBlock cf caught form ?fin (?s4 s2) = Ok s5" using 5 Some x by simp
    from catchBlock_ok[OF h(1) this _ ok4 t4] k[of caught form] show ?thesis using Some x by simp
  qed (use 5 in simp)
  note q = try_states[OF st refl b2 lv refl K refl]
  define cg where "cg = (case handler of Some (caught, form) \<Rightarrow> caught | None \<Rightarrow> '''')"
  have C: "\<exists>s5a. if ?cat then grows (upd_cur (addLocal cg \<circ> pushLocals) (?s4 s2)) s5a \<and>
        implements (insert cg X) VH H P ec (upd_cur (addLocal cg \<circ> pushLocals) (?s4 s2)) s5a md \<and>
        s5 = upd_cur ((if ?fin then emit OP_TRY_POP else id) \<circ> popLocals \<circ> decSP 1 \<circ> emitWithArg OP_POP_N 1) s5a else s5 = ?s4 s2"
  proof (cases handler)
    case (Some x)
    obtain caught form where x: "x = (caught, form)" by fastforce
    have 5: "catchBlock cf caught form ?fin (?s4 s2) = Ok s5" using 5 Some x by simp
    have fo: "form_ok w0 form" and kk: "\<And>s s'. ready s \<Longrightarrow> cf form s = Ok s' \<Longrightarrow> implements (insert caught X) VH H P ec s s' md"
      using k[of caught form] Some x by blast+
    have "1 \<le> cx_sp (cs_cur (?s4 s2))" using q(5) ready_ok(3)[OF st] by simp
    from catchBlock_implements[OF S 5 fo q(1,3) this kk] obtain s5a where
      "grows (upd_cur (addLocal caught \<circ> pushLocals) (?s4 s2)) s5a"
      "implements (insert caught X) VH H P ec (upd_cur (addLocal caught \<circ> pushLocals) (?s4 s2)) s5a md"
      "s5 = upd_cur ((if ?fin then emit OP_TRY_POP else id) \<circ> popLocals \<circ> decSP 1 \<circ> emitWithArg OP_POP_N 1) s5a" by blast
    then show ?thesis by (intro exI[of _ s5a]) (simp add: Some x cg_def)
  qed (use 5 in simp)
  then obtain s5a where C: "if ?cat then grows (upd_cur (addLocal cg \<circ> pushLocals) (?s4 s2)) s5a \<and>
        implements (insert cg X) VH H P ec (upd_cur (addLocal cg \<circ> pushLocals) (?s4 s2)) s5a md \<and>
        s5 = upd_cur ((if ?fin then emit OP_TRY_POP else id) \<circ> popLocals \<circ> decSP 1 \<circ> emitWithArg OP_POP_N 1) s5a else s5 = ?s4 s2" ..
  have F: "\<exists>s9. if ?fin then grows (?s7 s2 s5) s9 \<and> implements X VH H P ec (?s7 s2 s5) s9 (evBody ev fin) \<and>
      s8 = upd_cur (emitWithArg OP_FINALLY_END (currentAddress (cs_cur s5) - currentAddress (cs_cur (upd_cur (decSP 1 \<circ> emit OP_POP) s9))))
        (upd_cur (decSP 1 \<circ> emit OP_POP) s9) else s8 = ?s7 s2 s5"
  proof (cases "fin = []")
    case False
    then obtain s9 where 9: "compileBody no_pre cf False fin (?s7 s2 s5) = Ok s9"
      and e8: "s8 = upd_cur (emitWithArg OP_FINALLY_END (currentAddress (cs_cur s5) - currentAddress (cs_cur (upd_cur (decSP 1 \<circ> emit OP_POP) s9))))
        (upd_cur (decSP 1 \<circ> emit OP_POP) s9)"
      using 8 by (auto simp: finallyBlock_def obind_Ok Let_def)
    note compiled_grows[OF compileBody_False[OF h(1) 9 f ready_ok(1)[OF q(2)] q(4)]] body_False_implements[OF S 9 f q(2,4)]
    then show ?thesis using False e8 by (intro exI[of _ s9]) (simp only: if_True not_False_eq_True simp_thms)
  qed (use 8 in simp)
  then obtain s9 where F: "if ?fin then grows (?s7 s2 s5) s9 \<and> implements X VH H P ec (?s7 s2 s5) s9 (evBody ev fin) \<and>
      s8 = upd_cur (emitWithArg OP_FINALLY_END (currentAddress (cs_cur s5) - currentAddress (cs_cur (upd_cur (decSP 1 \<circ> emit OP_POP) s9))))
        (upd_cur (decSP 1 \<circ> emit OP_POP) s9) else s8 = ?s7 s2 s5" ..
  have i: "implements X VH H P ec st (upd_cur (setTail (cx_tail (cs_cur st))) s8) (\<lambda>env w. let r1 = evBody ev body env w;
      r2 = (case r1 of Some (Raised x, w1) \<Rightarrow> if ?cat then md (env(cg \<mapsto> errorToValue x)) w1 else r1 | _ \<Rightarrow> r1) in
      if ?fin then afterFinally r2 (evBody ev fin env) else r2)"
  proof (rule implements_try[OF st h(3) refl b2 lv body_False_implements[OF S 2 b r1 t1] refl refl C q(7,8) refl refl refl refl])
    show "if ?fin then grows (?s7 s2 s5) s9 \<and> implements X VH H P ec (?s7 s2 s5) s9 (evBody ev fin) \<and>
      upd_cur (decSP 1 \<circ> emit OP_POP) s9 = upd_cur (decSP 1 \<circ> emit OP_POP) s9 \<and>
      s8 = upd_cur (emitWithArg OP_FINALLY_END (currentAddress (cs_cur s5) - currentAddress (cs_cur (upd_cur (decSP 1 \<circ> emit OP_POP) s9))))
        (upd_cur (decSP 1 \<circ> emit OP_POP) s9) else s8 = ?s7 s2 s5"
      using F by (simp only: simp_thms)
    show "?cat \<or> ?fin" by (rule hd)
  qed
  have eq: "(if ?cat then md (env(cg \<mapsto> errorToValue x)) w1 else r) = (case handler of Some (caught, form) \<Rightarrow> md (env(caught \<mapsto> errorToValue x)) w1 | None \<Rightarrow> r)"
    for x env w1 r by (simp add: cg_def split: option.split prod.split)
  show ?thesis using i unfolding e eq .
qed

end

end
