(* ===== verification/LG_CorrectForms.thy ===== *)
theory LG_CorrectForms
  imports LG_CorrectTry
begin

text \<open>
  The clauses of a \<open>try\<close> become one dispatch form on the value that was thrown, which lives in a
  local that only this form can name. With its meaning every form that is compiled does what the
  evaluator says, by induction on the fuel of the evaluator.
\<close>

section \<open>The local of the thrown value\<close>

lemma show_digits_plain: "CHR ''/'' \<notin> set (show_digits k n)"
proof (induction k arbitrary: n)
  case (Suc k)
  have "char_of (48 + n) \<noteq> CHR ''/''" if "n < 10"
  proof
    assume "char_of (48 + n) = CHR ''/''"
    then have "of_char (char_of (48 + n)) = (of_char CHR ''/'' :: nat)" by simp
    then show False using that by simp
  qed
  moreover have "char_of (48 + n mod 10) \<noteq> CHR ''/''"
  proof
    assume "char_of (48 + n mod 10) = CHR ''/''"
    then have "of_char (char_of (48 + n mod 10)) = (of_char CHR ''/'' :: nat)" by simp
    moreover have "n mod 10 < 10" by simp
    ultimately show False by simp
  qed
  ultimately show ?case using Suc.IH[of "n div 10"] by auto
qed simp

lemma caughtSym_hidden: "\<not> plain_name (caughtSym n)" "splitNamespaced (caughtSym n) = None"
  using show_digits_plain[of "Suc n" n] by (auto simp: caughtSym_def plain_name_def splitNamespaced_def)

fun quotedForm :: "form \<Rightarrow> form option" where
  "quotedForm (FList [FSym q, x]) = (if q = ''quote'' then Some x else None)"
| "quotedForm f = None"

text \<open>The dispatch form sees the thrown value, the forms inside it do not.\<close>

definition withCaught :: "'e chost \<Rightarrow> 'e \<Rightarrow> ec \<Rightarrow> string \<Rightarrow> 'h evaluator \<Rightarrow> 'h evaluator" where
  "withCaught H e ec c ev f = (case f of
     FSym s \<Rightarrow> if s = c then (\<lambda>env w. map_option (\<lambda>v. (Val v, w)) (env c)) else evSymbol H e ec s
   | _ \<Rightarrow> (case quotedForm f of
       Some x \<Rightarrow> (\<lambda>env. constant_answer (const_of H x)) | None \<Rightarrow> (\<lambda>env. ev f (env(c := None)))))"

text \<open>An evaluator that takes symbols and quoted forms as the compiler does.\<close>

definition agrees :: "'e chost \<Rightarrow> 'e \<Rightarrow> ec \<Rightarrow> 'h evaluator \<Rightarrow> bool" where
  "agrees H e ec ev \<longleftrightarrow> (\<forall>f env w x. ev f env w = Some x \<longrightarrow> (case f of
     FSym s \<Rightarrow> evSymbol H e ec s env w = Some x
   | _ \<Rightarrow> (case quotedForm f of Some y \<Rightarrow> constant_answer (const_of H y) w = Some x | None \<Rightarrow> True)))"

lemma lexical_hide: "lexical {c} ctx env f \<Longrightarrow> \<not> plain_name c \<Longrightarrow> lexical {} ctx (env(c := None)) f"
  by (auto simp: lexical_def)

lemma implements_hide:
  "implements {} VH H P ec st st' m \<Longrightarrow> \<not> plain_name c \<Longrightarrow> implements {c} VH H P ec st st' (\<lambda>env. m (env(c := None)))"
  unfolding implements_def using lexical_hide by blast

lemma evSymbol_cong: "env s = env' s \<Longrightarrow> evSymbol H e ec s env w = evSymbol H e ec s env' w"
  by (simp add: evSymbol_def)

lemma withCaught_below:
  assumes a: "agrees H e ec ev" and c: "\<not> plain_name c" and x: "ev f (env(c := None)) w = Some x"
  shows "withCaught H e ec c ev f env w = Some x"
proof -
  have q: "case f of FSym s \<Rightarrow> evSymbol H e ec s (env(c := None)) w = Some x
     | _ \<Rightarrow> (case quotedForm f of Some y \<Rightarrow> constant_answer (const_of H y) w = Some x | None \<Rightarrow> True)"
    using a x unfolding agrees_def by blast
  show ?thesis
  proof (cases "\<exists>s. f = FSym s")
    case True
    then obtain s where f: "f = FSym s" by blast
    then have s: "evSymbol H e ec s (env(c := None)) w = Some x" using q by simp
    then have "s \<noteq> c" using c by (auto simp: evSymbol_def)
    then show ?thesis using s evSymbol_cong[of env s "env(c := None)" H e ec w] by (simp add: withCaught_def f)
  next
    case False
    then show ?thesis using q x by (cases f) (auto simp: withCaught_def split: option.splits)
  qed
qed

lemma thenV_below:
  assumes "thenV r k = Some x" "\<And>y. r = Some y \<Longrightarrow> r' = Some y" "\<And>v w. k v w = Some x \<Longrightarrow> k' v w = Some x"
  shows "thenV r' k' = Some x"
  using assms by (cases r) (auto simp: thenV_def split: answer.splits)

lemma evBody_below:
  assumes "\<And>f w x. ev f env w = Some x \<Longrightarrow> ev' f env' w = Some x"
  shows "evBody ev fs env w = Some x \<Longrightarrow> evBody ev' fs env' w = Some x"
proof (induction fs arbitrary: w x rule: induct_list012)
  case (3 f g fs)
  have "thenV (ev f env w) (\<lambda>v w1. evBody ev (g # fs) env w1) = Some x" using 3(3) by simp
  then have "thenV (ev' f env' w) (\<lambda>v w1. evBody ev' (g # fs) env' w1) = Some x"
    by (rule thenV_below) (use assms 3(2) in simp_all)
  then show ?case by simp
qed (simp_all add: assms)

section \<open>Calls on values\<close>

lemma evArgs_values:
  "list_all2 (\<lambda>a v. \<forall>w. ev a env w = Some (Val v, w)) args vs \<Longrightarrow> evArgs ev args env w k = k vs w"
  by (induction args vs arbitrary: k rule: list_all2_induct) (simp_all add: thenV_def)

lemma callNamed_below:
  assumes s: "splitNamespaced s \<noteq> None" and c: "splitNamespaced c = None"
    and v: "list_all2 (\<lambda>a v. \<forall>w. withCaught H e ec c ev a env w = Some (Val v, w)) args vs"
    and x: "callNamed VH H e k ec s vs (env(c := None)) w = Some x"
  shows "evSymbolCall VH H e k ec (withCaught H e ec c ev) s args env w = Some x"
proof -
  let ?env = "env(c := None)" and ?ev = "withCaught H e ec c ev"
  let ?ec = "\<lambda>f env w. case f of FVal v \<Rightarrow> Some (Val v, w) | FSym s \<Rightarrow> evSymbol H e ec s env w | _ \<Rightarrow> None"
  have sc: "s \<noteq> c" using s c by auto
  have n: "coreName H e ?env s = coreName H e env s" "?env s = env s" "length args = length vs"
    using sc v by (simp_all add: coreName_def list_all2_lengthD split: option.split)
  have a: "evArgs ?ev args env w k = k vs w" for w k by (rule evArgs_values[of ?ev env, OF v])
  have b: "evArgs ?ec (map FVal vs) ?env w k = k vs w" for w k
    by (rule evArgs_values) (simp add: list_all2_conv_all_nth)
  have f: "?ev (FSym s) env w = evSymbol H e ec s ?env w" for w
    using sc evSymbol_cong[of env s ?env] by (simp add: withCaught_def)
  show ?thesis
    using x unfolding callNamed_def evSymbolCall_def n evCall_def f a b length_map form.case by (simp only:)
qed

section \<open>The dispatch on the clauses\<close>

lemma implements_None: "(\<And>env w. m env w = None) \<Longrightarrow> implements X VH H P ec st st' m"
  by (simp add: implements_def)

lemma local_implements:
  assumes S: "setting VH H e w0 P" and c: "compileSymbol H c st = Ok st'" "splitNamespaced c = None" and st: "ready st"
  shows "implements {c} VH H P ec st st' (\<lambda>env w. map_option (\<lambda>v. (Val v, w)) (env c))"
proof (cases "lookupLocal c (cs_cur st)")
  case None
  show ?thesis
  proof (rule implements_cong)
    show "implements {c} VH H P ec st st' (\<lambda>env w. None)" by (rule implements_None) simp
  qed (use None in \<open>auto simp: lexical_def\<close>)
next
  case (Some l)
  then have "st' = upd_cur (emitCell (LocalCell l)) st" using c by (simp add: compileSymbol_def ready_lookup[OF st])
  then show ?thesis using implements_local[OF ready_ok(2)[OF st] Some, where X = "{c}"] by simp
qed

lemma meaning_caught:
  assumes m: "meaning H w0 (compileForm H m) VH e ec P {} ev" and c: "\<not> plain_name c" "splitNamespaced c = None"
  shows "meaning H w0 (compileForm H m) VH e ec P {c} (withCaught H e ec c ev)"
proof -
  have sub: "subcompiler H w0 (compileForm H m)" using m by (simp add: meaning_def)
  moreover have "implements {c} VH H P ec st st' (withCaught H e ec c ev f)"
    if S: "setting VH H e w0 P" and k: "compileForm H m f st = Ok st'" and f: "form_ok w0 f" and st: "ready st" for f st st'
  proof -
    obtain m' where k': "compileStep H (compileForm H m') f st = Ok st'" using k by (cases m) auto
    have h: "steady H e" "list_all plain_const P" using S by (simp_all add: setting_def)
    show ?thesis
    proof (cases "\<exists>s. f = FSym s")
      case True
      then obtain s where s: "f = FSym s" by blast
      then have cs: "compileSymbol H s st = Ok st'" using k' by (simp add: compileStep_def)
      show ?thesis
      proof (cases "s = c")
        case True
        then show ?thesis using local_implements[OF S _ c(2) st] cs by (simp add: withCaught_def s)
      next
        case False
        then show ?thesis using implements_symbol[OF h(1) st cs h(2)] by (simp add: withCaught_def s)
      qed
    next
      case ns: False
      show ?thesis
      proof (cases "quotedForm f")
        case (Some x)
        then have q: "f = FList [FSym ''quote'', x]" by (cases f rule: quotedForm.cases) (auto split: if_splits)
        then have "st' = loadConstant (const_of H x) st" using k' by (simp add: compileStep_def compileSymbolHead_def quoteCompiler_def)
        then show ?thesis using implements_const[OF ready_ok(3)[OF st] h(2)] q by (simp add: withCaught_def)
      next
        case None
        have "implements {} VH H P ec st st' (ev f)" using m S k f st unfolding meaning_def meaning_axioms_def by blast
        from implements_hide[OF this c(1)] show ?thesis using None ns by (cases f) (simp_all add: withCaught_def)
      qed
    qed
  qed
  ultimately show ?thesis by (simp add: meaning_def meaning_axioms_def)
qed

lemma dispatch_simps:
  "dispatchClauses c [] = FList [FSym ''core/throw'', FSym c]"
  "dispatchClauses c ((cl, b, body) # cls) = FList [FSym ''if'',
     FList [FSym ''core/catch-matches?'', FList [FSym ''quote'', FSym (if cl = '''' then ''Throwable'' else cl)], FSym c],
     FList (FSym ''let*'' # FVec None [FSym b, FSym c] # body), dispatchClauses c cls]"
  by (simp_all add: dispatchClauses_def)

definition caughtMeaning :: "'h host \<Rightarrow> 'e chost \<Rightarrow> 'e \<Rightarrow> nat \<Rightarrow> ec \<Rightarrow> 'h evaluator \<Rightarrow> string \<Rightarrow> (string \<times> string \<times> form list) list \<Rightarrow> 'h sem" where
  "caughtMeaning VH H e k ec ev c cls env w = (case env c of
     Some exn \<Rightarrow> evClauses ev (callNamed VH H e k ec) cls exn (env(c := None)) w | None \<Rightarrow> None)"

lemma clauses_implement:
  assumes m: "\<And>m. meaning H w0 (compileForm H m) VH e ec P {} ev" and S: "setting VH H e w0 P" and a: "agrees H e ec ev"
    and c: "\<not> plain_name c" "splitNamespaced c = None"
  shows "compileForm H m (dispatchClauses c cls) st = Ok st' \<Longrightarrow> \<forall>(cl, b, body)\<in>set cls. \<forall>f\<in>set body. form_ok w0 f \<Longrightarrow> ready st \<Longrightarrow>
    implements {c} VH H P ec st st' (caughtMeaning VH H e k ec ev c cls)"
proof (induction cls arbitrary: m st st')
  case Nil
  let ?ev = "withCaught H e ec c ev"
  obtain m1 where "compileStep H (compileForm H m1) (dispatchClauses c []) st = Ok st'" using Nil.prems(1) by (cases m) auto
  then have p: "compilePlainSymbolCall H (compileForm H m1) ''core/throw'' [FSym c] st = Ok st'"
    by (simp add: dispatch_simps compileStep_def compileSymbolHead_def ctorShorthand_def memberCall_def)
  have f: "form_ok w0 (FList [FSym ''core/throw'', FSym c])" by (simp add: special_ok_def)
  have "implements {c} VH H P ec st st' (evSymbolCall VH H e k ec ?ev ''core/throw'' [FSym c])"
    by (rule meaning.symbol_call_means[OF meaning_caught[OF m c] S p Nil.prems(3) f])
  then show ?case
  proof (rule implements_mono)
    fix env w x assume x: "caughtMeaning VH H e k ec ev c [] env w = Some x"
    then obtain exn where exn: "env c = Some exn" "callNamed VH H e k ec ''core/throw'' [exn] (env(c := None)) w = Some x"
      by (auto simp: caughtMeaning_def split: option.splits)
    show "evSymbolCall VH H e k ec ?ev ''core/throw'' [FSym c] env w = Some x"
      by (rule callNamed_below[OF _ c(2) _ exn(2)]) (simp_all add: splitNamespaced_def withCaught_def exn(1))
  qed
next
  case (Cons clause cls)
  obtain cl b body where cl: "clause = (cl, b, body)" by (cases clause) auto
  let ?ev = "withCaught H e ec c ev" and ?sym = "FSym (if cl = '''' then ''Throwable'' else cl)"
  let ?T = "FList [FSym ''core/catch-matches?'', FList [FSym ''quote'', ?sym], FSym c]"
  let ?L = "FList (FSym ''let*'' # FVec None [FSym b, FSym c] # body)" and ?D = "dispatchClauses c cls"
  have fb: "\<forall>f\<in>set body. form_ok w0 f" "\<forall>(cl, b, body)\<in>set cls. \<forall>f\<in>set body. form_ok w0 f" using Cons.prems(2) cl by auto
  obtain m1 where "compileStep H (compileForm H m1) (dispatchClauses c (clause # cls)) st = Ok st'" using Cons.prems(1) by (cases m) auto
  then have i: "ifCompiler (compileForm H m1) (?T # ?L # [?D]) st = Ok st'"
    by (simp add: cl dispatch_simps compileStep_def compileSymbolHead_def)
  have fT: "form_ok w0 ?T" "form_ok w0 ?L" using fb by (simp_all add: special_ok_def)
  then have fs: "\<forall>f\<in>set (?T # ?L # [?D]). form_ok w0 f" using dispatchClauses_ok[OF fb(2)] by simp
  let ?m1 = "evSymbolCall VH H e k ec ?ev ''core/catch-matches?'' [FList [FSym ''quote'', ?sym], FSym c]"
  let ?m2 = "evLet ?ev (FVec None [FSym b, FSym c] # body)" and ?m3 = "caughtMeaning VH H e k ec ev c cls"
  have "implements {c} VH H P ec st st' (\<lambda>env w. thenV (?m1 env w) (\<lambda>v w1. if IsTruthy v then ?m2 env w1 else ?m3 env w1))"
  proof (rule meaning.if_implements[OF meaning_caught[OF m c] S i fs Cons.prems(3)])
    fix s assume t: "compileForm H m1 ?T (upd_cur (setTail False) st) = Ok s"
    then obtain m2 where "compileStep H (compileForm H m2) ?T (upd_cur (setTail False) st) = Ok s" by (cases m1) auto
    then have p: "compilePlainSymbolCall H (compileForm H m2) ''core/catch-matches?'' [FList [FSym ''quote'', ?sym], FSym c] (upd_cur (setTail False) st) = Ok s"
      by (simp add: compileStep_def compileSymbolHead_def ctorShorthand_def memberCall_def)
    show "implements {c} VH H P ec (upd_cur (setTail False) st) s ?m1"
      by (rule meaning.symbol_call_means[OF meaning_caught[OF m c] S p ready_setTail_False[OF Cons.prems(3)] fT(1)])
  next
    fix s s' assume r: "ready s" and l: "compileForm H m1 ?L s = Ok s'"
    then obtain m2 where "compileStep H (compileForm H m2) ?L s = Ok s'" by (cases m1) auto
    then have "letCompiler (compileForm H m2) (FVec None [FSym b, FSym c] # body) s = Ok s'"
      by (simp add: compileStep_def compileSymbolHead_def)
    from meaning.let_means[OF meaning_caught[OF m c] S this _ fb(1) r] show "implements {c} VH H P ec s s' ?m2" by simp
  next
    fix s s' assume r: "ready s" and d: "(case [?D] of x # _ \<Rightarrow> compileForm H m1 x s | [] \<Rightarrow> Ok (loadConstant NIL s)) = Ok s'"
    from d have "compileForm H m1 ?D s = Ok s'" by simp
    from Cons.IH[OF this fb(2) r] show "implements {c} VH H P ec s s' ?m3" .
  qed
  then show ?case
  proof (rule implements_mono)
    fix env w x assume x: "caughtMeaning VH H e k ec ev c (clause # cls) env w = Some x"
    then obtain exn where exn: "env c = Some exn" and pb: "plain_name b" and
      t: "thenV (callNamed VH H e k ec ''core/catch-matches?'' [Prim (VSymbol (if cl = '''' then ''Throwable'' else cl)), exn] (env(c := None)) w)
        (\<lambda>t w1. if IsTruthy t then evBody ev body ((env(c := None))(b \<mapsto> exn)) w1
           else evClauses ev (callNamed VH H e k ec) cls exn (env(c := None)) w1) = Some x"
      by (auto simp: caughtMeaning_def cl split: option.splits if_splits)
    have bc: "b \<noteq> c" using pb c by auto
    show "thenV (?m1 env w) (\<lambda>v w1. if IsTruthy v then ?m2 env w1 else ?m3 env w1) = Some x"
    proof (rule thenV_below[OF t])
      fix y assume y: "callNamed VH H e k ec ''core/catch-matches?'' [Prim (VSymbol (if cl = '''' then ''Throwable'' else cl)), exn] (env(c := None)) w = Some y"
      show "?m1 env w = Some y"
        by (rule callNamed_below[OF _ c(2) _ y]) (simp_all add: splitNamespaced_def withCaught_def exn constant_answer_def)
    next
      fix v w1 assume v: "(if IsTruthy v then evBody ev body ((env(c := None))(b \<mapsto> exn)) w1
           else evClauses ev (callNamed VH H e k ec) cls exn (env(c := None)) w1) = Some x"
      show "(if IsTruthy v then ?m2 env w1 else ?m3 env w1) = Some x"
      proof (cases "IsTruthy v")
        case True
        have tw: "(env(c := None))(b \<mapsto> exn) = (env(b \<mapsto> exn))(c := None)" using bc by (rule fun_upd_twist[symmetric])
        have "evBody ?ev body (env(b \<mapsto> exn)) w1 = Some x"
        proof (rule evBody_below)
          show "evBody ev body ((env(b \<mapsto> exn))(c := None)) w1 = Some x" using v True unfolding tw by simp
        qed (rule withCaught_below[OF a c(1)])
        then have "?m2 env w1 = Some x"
          using pb exn by (simp add: evLet_def stripBindingMeta_def withCaught_def thenV_def)
        then show ?thesis using True by simp
      next
        case False
        then show ?thesis using v exn by (simp add: caughtMeaning_def)
      qed
    qed
  qed
qed

section \<open>Every form\<close>

locale handling = meaning H w0 cf VH e ec P "{}" ev
  for H :: "'e chost" and w0 :: "'h world" and cf :: "'e compiler" and VH :: "'h host" and e :: 'e and ec :: ec and P :: "vv list"
    and ev :: "'h evaluator" +
  assumes dispatched: "setting VH H e w0 P \<Longrightarrow> \<not> plain_name c \<Longrightarrow> splitNamespaced c = None \<Longrightarrow> cf (dispatchClauses c cls) st = Ok st' \<Longrightarrow>
    \<forall>(cl, b, body)\<in>set cls. \<forall>f\<in>set body. form_ok w0 f \<Longrightarrow> ready st \<Longrightarrow> implements {c} VH H P ec st st' (caughtMeaning VH H e k ec ev c cls)"
begin

lemma each_implements:
  assumes S: "setting VH H e w0 P"
  shows "compileEach cf fs st = Ok st' \<Longrightarrow> fs \<noteq> [] \<Longrightarrow> \<forall>f\<in>set fs. form_ok w0 f \<Longrightarrow> ready st \<Longrightarrow>
    implements {} VH H P ec st st' (evBody ev fs) \<and> grows st st'"
proof (induction fs arbitrary: st rule: induct_list012)
  case (2 f)
  then have c: "cf f st = Ok st'" "form_ok w0 f" by simp_all
  show ?case
    using means[OF S c 2(4)] compiled_grows[OF sub[OF setting_parts(1)[OF S] c ready_ok(1)[OF 2(4)]]] by simp
next
  case (3 f g fs)
  note h = setting_parts[OF S]
  obtain s where c: "cf f st = Ok s" and r: "compileEach cf (g # fs) (upd_cur (decSP 1 \<circ> emit OP_POP) s) = Ok st'"
    using 3(3) by (auto simp: obind_Ok)
  let ?s = "upd_cur (decSP 1 \<circ> emit OP_POP) s" and ?tp = "cx_tail (cs_cur st)"
  have f: "form_ok w0 f" "\<forall>f\<in>set (g # fs). form_ok w0 f" using 3(5) by simp_all
  have 1: "compiled H w0 1 st s" by (rule sub[OF h(1) c f(1) ready_ok(1)[OF 3(6)]])
  from compiled_pop[OF 1 ready_ok(1)[OF 3(6)]] have 2: "compiled H w0 0 st ?s" by simp
  have ih: "implements {} VH H P ec ?s st' (evBody ev (g # fs))" "grows ?s st'"
    using 3(2)[OF r _ f(2) ready_same[OF 3(6) 2]] by simp_all
  have e: "upd_cur (setTail ?tp) st = st" "upd_cur (setTail ?tp) ?s = ?s"
    by (rule setTail_id, rule refl, rule setTail_id) (use compiled_tail_eq[OF 2] in simp)
  have "implements {} VH H P ec (upd_cur (setTail ?tp) st) st' (\<lambda>env w. thenV (ev f env w) (\<lambda>v. evBody ev (g # fs) env))"
    by (rule implements_pop_then[OF S means[OF S c f(1) 3(6)] disjI2[OF refl] 1 3(6) refl _ ih(2)]) (simp only: e ih(1))
  then have "implements {} VH H P ec st st' (evBody ev (f # g # fs))" unfolding e by (rule implements_mono) simp
  moreover have "grows st st'" by (rule grows_trans[OF compiled_grows[OF 2] ih(2)])
  ultimately show ?case by blast
qed simp

lemma try_means:
  assumes S: "setting VH H e w0 P" and c: "tryCompiler H cf args st = Ok st'" and f: "\<forall>f\<in>set args. form_ok w0 f" and st: "ready st"
  shows "implements {} VH H P ec st st' (evTry H ev (callNamed VH H e k ec) args)"
proof -
  note h = setting_parts[OF S]
  obtain t where p: "parseTry H args \<lparr>tr_body = [], tr_clauses = [], tr_finally = []\<rparr> = Ok t"
    and r: "(if tr_clauses t = [] \<and> tr_finally t = [] then compileEach cf (tr_body t) st
        else if tr_clauses t = [] then tryLayout cf (tr_body t) None (tr_finally t) st
        else (let (caught, st1) = freshCaughtSym st in
          tryLayout cf (tr_body t) (Some (caught, dispatchClauses caught (tr_clauses t))) (tr_finally t) st1)) = Ok st'"
    using c by (auto simp: tryCompiler_def obind_Ok split: if_splits)
  have ev: "evTry H ev (callNamed VH H e k ec) args env w =
      (if tr_clauses t = [] \<and> tr_finally t = [] then (if tr_body t = [] then None else evBody ev (tr_body t) env w)
       else let r1 = evBody ev (tr_body t) env w;
           r2 = (case r1 of
             Some (Raised x, w1) \<Rightarrow> if tr_clauses t = [] then r1 else evClauses ev (callNamed VH H e k ec) (tr_clauses t) (errorToValue x) env w1
           | _ \<Rightarrow> r1) in
         if tr_finally t = [] then r2 else afterFinally r2 (evBody ev (tr_finally t) env))" for env w
    by (simp add: evTry_def p)
  have "parts_ok w0 t" by (rule parseTry_ok[OF p f]) (simp add: parts_ok_def)
  then have fs: "\<forall>f\<in>set (tr_body t). form_ok w0 f" "\<forall>f\<in>set (tr_finally t). form_ok w0 f"
      "\<forall>(cl, b, body)\<in>set (tr_clauses t). \<forall>f\<in>set body. form_ok w0 f"
    by (simp_all add: parts_ok_def)
  consider (a) "tr_clauses t = []" "tr_finally t = []" | (b) "tr_clauses t = []" "tr_finally t \<noteq> []" | (c) "tr_clauses t \<noteq> []" by blast
  then show ?thesis
  proof cases
    case a
    show ?thesis
    proof (cases "tr_body t = []")
      case True
      then show ?thesis using a by (intro implements_None) (simp add: ev)
    next
      case False
      have "compileEach cf (tr_body t) st = Ok st'" using r a by simp
      from each_implements[OF S this False fs(1) st] have "implements {} VH H P ec st st' (evBody ev (tr_body t))" by blast
      then show ?thesis by (rule implements_mono) (use a False in \<open>simp add: ev\<close>)
    qed
  next
    case b
    then have "tryLayout cf (tr_body t) None (tr_finally t) st = Ok st'" using r by simp
    from tryLayout_implements[OF S this st fs(1,2) _, of "\<lambda>env w. None"] b
    show ?thesis by (auto elim!: implements_mono simp: ev Let_def split: option.splits answer.splits if_splits)
  next
    case c
    define cg where "cg = caughtSym (Suc (cs_caught st))"
    let ?st = "st\<lparr>cs_caught := Suc (cs_caught st)\<rparr>"
    have cg: "\<not> plain_name cg" "splitNamespaced cg = None" unfolding cg_def by (rule caughtSym_hidden)+
    have tl: "tryLayout cf (tr_body t) (Some (cg, dispatchClauses cg (tr_clauses t))) (tr_finally t) ?st = Ok st'"
      using r c by (simp add: freshCaughtSym_def Let_def cg_def)
    have rd: "ready ?st" using st by (simp only: ready_env)
    have k: "form_ok w0 form \<and> (\<forall>s s'. ready s \<longrightarrow> cf form s = Ok s' \<longrightarrow>
        implements (insert caught {}) VH H P ec s s' (caughtMeaning VH H e k ec ev cg (tr_clauses t)))"
      if "Some (cg, dispatchClauses cg (tr_clauses t)) = Some (caught, form)" for caught form
      using that dispatchClauses_ok[OF fs(3), of cg] dispatched[OF S cg _ fs(3)] by auto
    let ?cm = "caughtMeaning VH H e k ec ev cg (tr_clauses t)"
    have i: "implements {} VH H P ec ?st st' (\<lambda>env w. let r1 = evBody ev (tr_body t) env w;
      r2 = (case r1 of Some (Raised x, w1) \<Rightarrow> ?cm (env(cg \<mapsto> errorToValue x)) w1 | _ \<Rightarrow> r1) in
      if tr_finally t \<noteq> [] then afterFinally r2 (evBody ev (tr_finally t) env) else r2)"
      by (rule tryLayout_implements[OF S tl rd fs(1,2) _ k, unfolded option.case prod.case]) simp_all
    have sm: "?cm (env(cg \<mapsto> v)) w = evClauses ev (callNamed VH H e k ec) (tr_clauses t) v env w" if "env cg = None" for env v w
      using that by (simp add: caughtMeaning_def fun_upd_idem)
    have "implements {} VH H P ec ?st st' (evTry H ev (callNamed VH H e k ec) args)"
    proof (rule implements_cong[OF i])
      fix f env w x
      assume l: "lexical {} (cs_cur ?st) env f" and x: "evTry H ev (callNamed VH H e k ec) args env w = Some x"
      have "env cg = None" using l cg(1) by (simp add: lexical_def)
      note sm = sm[of env, OF this]
      show "(let r1 = evBody ev (tr_body t) env w;
        r2 = (case r1 of Some (Raised x, w1) \<Rightarrow> ?cm (env(cg \<mapsto> errorToValue x)) w1 | _ \<Rightarrow> r1) in
        if tr_finally t \<noteq> [] then afterFinally r2 (evBody ev (tr_finally t) env) else r2) = Some x"
        unfolding sm using x c by (simp only: ev Let_def if_False simp_thms if_not_P cong: if_cong) (cases "tr_finally t = []"; simp only: if_True if_False simp_thms)
    qed
    then show ?thesis by (simp add: implements_from(1)[of ?st st])
  qed
qed

text \<open>A form with a symbol in front: a special form, a shorthand or a call.\<close>

lemma special_means:
  assumes S: "setting VH H e w0 P" and c: "compileSymbolHead H cf s args st = Ok st'"
    and f: "form_ok w0 (FList (FSym s # args))" and st: "ready st"
    and s: "s \<in> {''if'', ''do'', ''def'', ''set!'', ''fn*'', ''quote'', ''var'', ''let*'', ''loop*'', ''recur'', ''try''}"
  shows "implements {} VH H P ec st st' (evSymbolHead VH H e n ec ev s args)"
proof -
  have a: "\<forall>f\<in>set args. form_ok w0 f" using f by simp
  have nv: "implements {} VH H P ec st st' (evSymbolHead VH H e n ec ev s args)" if "\<And>env w. evSymbolHead VH H e n ec ev s args env w = None"
    by (rule implements_None) (rule that)
  from s have "s = ''if'' \<or> s = ''do'' \<or> s = ''def'' \<or> s = ''set!'' \<or> s = ''fn*'' \<or> s = ''quote'' \<or> s = ''var'' \<or> s = ''let*'' \<or> s = ''loop*'' \<or> s = ''recur'' \<or> s = ''try''"
    by (simp only: insert_iff empty_iff simp_thms)
  then show ?thesis
  proof (elim disjE)
    assume 1: "s = ''if''"
    then have "ifCompiler cf args st = Ok st'" using c by (simp add: compileSymbolHead_def)
    from if_means[OF S this a st] show ?thesis by (rule implements_mono) (simp add: 1 evSymbolHead_def)
  next
    assume 2: "s = ''do''"
    then have "doCompiler H cf args st = Ok st'" using c by (simp add: compileSymbolHead_def)
    from do_means[OF S this a st] show ?thesis by (rule implements_mono) (simp add: 2 evSymbolHead_def)
  next
    assume "s = ''def''"
    then show ?thesis by (intro nv) (simp add: evSymbolHead_def)
  next
    assume 4: "s = ''set!''"
    then have "setBangCompiler H cf args st = Ok st'" using c by (simp add: compileSymbolHead_def)
    from set_means[OF S this a st] show ?thesis by (rule implements_mono) (simp add: 4 evSymbolHead_def)
  next
    assume "s = ''fn*''"
    then show ?thesis by (intro nv) (simp add: evSymbolHead_def)
  next
    assume 6: "s = ''quote''"
    then have "quoteCompiler H args st = Ok st'" using c by (simp add: compileSymbolHead_def)
    from quote_means[OF S this st] show ?thesis by (rule implements_mono) (simp add: 6 evSymbolHead_def)
  next
    assume 7: "s = ''var''"
    then have "varCompiler H args st = Ok st'" using c by (simp add: compileSymbolHead_def)
    from var_means[OF S this st] show ?thesis by (rule implements_mono) (simp add: 7 evSymbolHead_def)
  next
    assume 8: "s = ''let*''"
    then have l: "letCompiler cf args st = Ok st'" using c by (simp add: compileSymbolHead_def)
    then obtain m binds body where args: "args = FVec m binds # body" by (auto simp: letCompiler_def split: list.splits form.splits)
    have "\<forall>f\<in>set binds. form_ok w0 f" "\<forall>f\<in>set body. form_ok w0 f" using a args by simp_all
    from let_means[OF S l[unfolded args] this st] show ?thesis
      unfolding args[symmetric] by (rule implements_mono) (simp add: 8 evSymbolHead_def)
  next
    assume 9: "s = ''loop*''"
    then have l: "loopCompiler cf args st = Ok st'" using c by (simp add: compileSymbolHead_def)
    then obtain m binds body where args: "args = FVec m binds # body" by (auto simp: loopCompiler_def split: list.splits form.splits)
    have "\<forall>f\<in>set binds. form_ok w0 f" "\<forall>f\<in>set body. form_ok w0 f" using a args by simp_all
    from loop_means[OF S l[unfolded args] this st, of n] show ?thesis
      unfolding args[symmetric] by (rule implements_mono) (simp add: 9 evSymbolHead_def)
  next
    assume 10: "s = ''recur''"
    then have "recurCompiler cf args st = Ok st'" using c by (simp add: compileSymbolHead_def)
    from recur_means[OF S this a st] show ?thesis by (rule implements_mono) (simp add: 10 evSymbolHead_def)
  next
    assume 11: "s = ''try''"
    then have "tryCompiler H cf args st = Ok st'" using c by (simp add: compileSymbolHead_def)
    from try_means[OF S this a st] show ?thesis by (rule implements_mono) (simp add: 11 evSymbolHead_def)
  qed
qed

lemma head_means:
  assumes S: "setting VH H e w0 P" and c: "compileSymbolHead H cf s args st = Ok st'"
    and f: "form_ok w0 (FList (FSym s # args))" and st: "ready st"
  shows "implements {} VH H P ec st st' (evSymbolHead VH H e n ec ev s args)"
proof (cases "s \<in> {''if'', ''do'', ''def'', ''set!'', ''fn*'', ''quote'', ''var'', ''let*'', ''loop*'', ''recur'', ''try''}")
  case False
  then have ne: "s \<noteq> ''if'' \<and> s \<noteq> ''do'' \<and> s \<noteq> ''def'' \<and> s \<noteq> ''set!'' \<and> s \<noteq> ''fn*'' \<and> s \<noteq> ''quote'' \<and> s \<noteq> ''var'' \<and> s \<noteq> ''let*'' \<and> s \<noteq> ''loop*'' \<and> s \<noteq> ''recur'' \<and> s \<noteq> ''try''"
    by (simp only: insert_iff empty_iff de_Morgan_disj simp_thms)
  have a: "\<forall>f\<in>set args. form_ok w0 f" using f by simp
  note c' = c[unfolded compileSymbolHead_def, simplified ne if_False]
  have e: "evSymbolHead VH H e n ec ev s args env w = (case ctorShorthand s of
          Some ctor \<Rightarrow> ev (FList (FSym ctor # args)) env w
        | None \<Rightarrow> (case memberCall s of
            Some member \<Rightarrow> (case args of
                [] \<Rightarrow> None
              | obj # rest \<Rightarrow> ev (FList (FSym ''.'' # obj # FList [FSym ''quote'', FSym member] # rest)) env w)
          | None \<Rightarrow> (case (if s = ''.'' then normalizeDotForm (FSym s # args) else None) of
              Some f \<Rightarrow> ev f env w
            | None \<Rightarrow> evSymbolCall VH H e n ec ev s args env w)))" for env w
    by (simp only: evSymbolHead_def ne if_False)
  have c': "(case ctorShorthand s of
          Some ctor \<Rightarrow> cf (FList (FSym ctor # args)) st
        | None \<Rightarrow> (case memberCall s of
            Some member \<Rightarrow> (case args of
                [] \<Rightarrow> Err (CompileError ''Malformed member expression'')
              | obj # rest \<Rightarrow> cf (FList (FSym ''.'' # obj # FList [FSym ''quote'', FSym member] # rest)) st)
          | None \<Rightarrow> (case (if s = ''.'' then normalizeDotForm (FSym s # args) else None) of
              Some f \<Rightarrow> cf f st
            | None \<Rightarrow> compilePlainSymbolCall H cf s args st))) = Ok st'"
    using c by (simp only: compileSymbolHead_def ne if_False)
  show ?thesis
  proof (cases "ctorShorthand s")
    case (Some ctor)
    have "implements {} VH H P ec st st' (ev (FList (FSym ctor # args)))"
      by (rule means[OF S _ _ st]) (use c' Some ctorShorthand_ok[OF Some a] in simp_all)
    then show ?thesis by (rule implements_mono) (simp add: e Some)
  next
    case ctor: None
    show ?thesis
    proof (cases "memberCall s")
      case (Some member)
      then obtain obj rest where args: "args = obj # rest" using c' ctor by (cases args) auto
      let ?g = "FList (FSym ''.'' # obj # FList [FSym ''quote'', FSym member] # rest)"
      have "form_ok w0 ?g \<and> \<not> silent ?g" by (rule call_form_ok) (use a args in \<open>simp_all add: special_ok_def\<close>)
      then have "implements {} VH H P ec st st' (ev ?g)" using means[OF S _ _ st, of ?g st'] c' ctor Some args by simp
      moreover have "evSymbolHead VH H e n ec ev s args env w = ev ?g env w" for env w
        unfolding e ctor Some by (simp add: args)
      ultimately show ?thesis by (elim implements_mono) (simp only:)
    next
      case mem: None
      show ?thesis
      proof (cases "if s = ''.'' then normalizeDotForm (FSym s # args) else None")
        case (Some g)
        then have "normalizeDotForm (FSym s # args) = Some g" by (simp split: if_splits)
        then have "implements {} VH H P ec st st' (ev g)"
          using means[OF S _ _ st, of g st'] normalizeDotForm_ok[OF _ a] c' ctor mem Some by simp
        then show ?thesis by (rule implements_mono) (simp only: e ctor mem Some option.case)
      next
        case None
        have "compilePlainSymbolCall H cf s args st = Ok st'" using c' ctor mem None by simp
        from symbol_call_means[OF S this st f] show ?thesis
          by (rule implements_mono) (simp only: e ctor mem None option.case)
      qed
    qed
  qed
qed (rule special_means[OF S c f st])

lemma step_means:
  assumes S: "setting VH H e w0 P" and c: "compileStep H cf f st = Ok st'" and f: "form_ok w0 f" and st: "ready st"
  shows "implements {} VH H P ec st st' (evStep VH H e n ec ev f)"
proof -
  note h = setting_parts[OF S] and sp = ready_ok(3)[OF st]
  have lit: "implements {} VH H P ec st st' (evLiteral VH H e n ec ev ctor whole elems)"
    if "compileAggregate H cf ctor whole None elems st = Ok st'" "form_ok w0 whole" "\<forall>f\<in>set elems. form_ok w0 f" for ctor whole elems
    by (rule literal_means[OF S that(1) st that(2,3)])
  show ?thesis
  proof (cases f)
    case (FVal v)
    then have e: "st' = loadConstant v st" and v: "self_evaluating H v \<or> v = Prim VEmptyList"
      using c by (auto simp: compileStep_def split: if_splits)
    from implements_const[OF sp h(4)] show ?thesis unfolding e
      by (rule implements_mono) (use v FVal in \<open>auto simp: evStep_def split: if_splits\<close>)
  next
    case (FSym s)
    then have "compileSymbol H s st = Ok st'" using c by (simp add: compileStep_def)
    from implements_symbol[OF h(2) st this h(4)] show ?thesis
      by (rule implements_mono) (simp add: FSym evStep_def)
  next
    case (FVec m fs)
    show ?thesis
    proof (cases m)
      case None
      have "compileAggregate H cf ''vector'' f None fs st = Ok st'" using c FVec None by (simp add: compileStep_def)
      moreover have "\<forall>f\<in>set fs. form_ok w0 f" using f FVec None by auto
      ultimately have "implements {} VH H P ec st st' (evLiteral VH H e n ec ev ''vector'' f fs)" using lit f by blast
      then show ?thesis by (rule implements_mono) (simp add: FVec None evStep_def)
    next
      case (Some x)
      then show ?thesis by (intro implements_None) (simp add: FVec evStep_def)
    qed
  next
    case (FMap m kvs)
    let ?fs = "concat (map (\<lambda>(k, v). [k, v]) kvs)"
    show ?thesis
    proof (cases m)
      case None
      have "compileAggregate H cf ''array-map'' f None ?fs st = Ok st'" using c FMap None by (simp add: compileStep_def)
      moreover have "\<forall>f\<in>set ?fs. form_ok w0 f" using f FMap None by auto
      ultimately have "implements {} VH H P ec st st' (evLiteral VH H e n ec ev ''array-map'' f ?fs)" using lit f by blast
      then show ?thesis by (rule implements_mono) (simp add: FMap None evStep_def)
    next
      case (Some x)
      then show ?thesis by (intro implements_None) (simp add: FMap evStep_def)
    qed
  next
    case (FSet m fs)
    show ?thesis
    proof (cases m)
      case None
      have "compileAggregate H cf ''hash-set'' f None fs st = Ok st'" using c FSet None by (simp add: compileStep_def)
      moreover have "\<forall>f\<in>set fs. form_ok w0 f" using f FSet None by auto
      ultimately have "implements {} VH H P ec st st' (evLiteral VH H e n ec ev ''hash-set'' f fs)" using lit f by blast
      then show ?thesis by (rule implements_mono) (simp add: FSet None evStep_def)
    next
      case (Some x)
      then show ?thesis by (intro implements_None) (simp add: FSet evStep_def)
    qed
  next
    case (FList fs)
    show ?thesis
    proof (cases fs)
      case Nil
      then have e: "st' = loadConstant (Prim VEmptyList) st" using c FList by (simp add: compileStep_def)
      from implements_const[OF sp h(4)] show ?thesis unfolding e
        by (rule implements_mono) (simp add: FList Nil evStep_def)
    next
      case (Cons fn args)
      show ?thesis
      proof (cases "\<exists>s. fn = FSym s")
        case True
        then obtain s where s: "fn = FSym s" by blast
        then have "compileSymbolHead H cf s args st = Ok st'" using c FList Cons by (simp add: compileStep_def)
        moreover have "form_ok w0 (FList (FSym s # args))" using f FList Cons s by simp
        ultimately have "implements {} VH H P ec st st' (evSymbolHead VH H e n ec ev s args)" using head_means[OF S _ _ st] by blast
        then show ?thesis by (rule implements_mono) (simp add: FList Cons s evStep_def)
      next
        case False
        then have "compileCall H cf fn args st = Ok st'" using c FList Cons by (cases fn) (simp_all add: compileStep_def)
        moreover have "form_ok w0 fn" "\<forall>f\<in>set args. form_ok w0 f" using f FList Cons by simp_all
        ultimately have "implements {} VH H P ec st st' (evCall VH n ec ev fn args)" using call_means[OF S _ _ st] False by blast
        then show ?thesis by (rule implements_mono) (use False in \<open>cases fn; simp add: FList Cons evStep_def\<close>)
      qed
    qed
  qed
qed

end

section \<open>Every form, with any fuel\<close>

lemma evalForm_agrees: "agrees H e ec (evalForm VH H e ec n)"
  unfolding agrees_def
proof (intro allI impI)
  fix f env w x assume x: "evalForm VH H e ec n f env w = Some x"
  then obtain m where m: "evStep VH H e (Suc m) ec (evalForm VH H e ec m) f env w = Some x" by (cases n) auto
  show "case f of FSym s \<Rightarrow> evSymbol H e ec s env w = Some x
    | _ \<Rightarrow> (case quotedForm f of Some y \<Rightarrow> constant_answer (const_of H y) w = Some x | None \<Rightarrow> True)"
  proof (cases "\<exists>y. f = FList [FSym ''quote'', y]")
    case True
    then show ?thesis using m by (auto simp: evStep_def evSymbolHead_def)
  next
    case False
    then have "quotedForm f = None" by (cases f rule: quotedForm.cases) auto
    then show ?thesis using m by (cases f) (auto simp: evStep_def)
  qed
qed

lemma handling_forms:
  assumes "\<And>m. meaning H w0 (compileForm H m) VH e ec P {} ev" "agrees H e ec ev"
  shows "handling H w0 (compileForm H m) VH e ec P ev"
proof -
  have "handling_axioms H w0 (compileForm H m) VH e ec P ev"
    by (rule handling_axioms.intro) (rule clauses_implement[OF assms(1) _ assms(2)])
  then show ?thesis using assms(1)[of m] by (simp add: handling_def)
qed

lemma evalForm_means: "meaning H w0 (compileForm H m) VH e ec P {} (evalForm VH H e ec n)"
proof (induction n arbitrary: m)
  case 0
  show ?case by (auto simp: meaning_def meaning_axioms_def implements_def intro: cform.subcompiler_axioms)
next
  case (Suc n)
  have "implements {} VH H P ec st st' (evalForm VH H e ec (Suc n) f)"
    if S: "setting VH H e w0 P" and c: "compileForm H m f st = Ok st'" and f: "form_ok w0 f" and st: "ready st" for f st st'
  proof -
    obtain m' where "compileStep H (compileForm H m') f st = Ok st'" using c by (cases m) auto
    from handling.step_means[OF handling_forms[OF Suc evalForm_agrees] S this f st, of "Suc n"]
    show ?thesis by (rule implements_mono) simp
  qed
  then show ?case unfolding meaning_def meaning_axioms_def using cform.subcompiler_axioms by blast
qed

interpretation forms: meaning H w0 "compileForm H m" VH e ec P "{}" "evalForm VH H e ec n"
  for H :: "'e chost" and w0 :: "'h world" and m VH e ec P n
  by (rule evalForm_means)

interpretation tries: handling H w0 "compileForm H m" VH e ec P "evalForm VH H e ec n"
  for H :: "'e chost" and w0 :: "'h world" and m VH e ec P n
  by (rule handling_forms[OF evalForm_means evalForm_agrees])

section \<open>A top-level form\<close>

fun answer_outcome :: "answer \<Rightarrow> (vm_err, vv) outcome option" where
  "answer_outcome (Val v) = Some (Ok v)"
| "answer_outcome (Raised x) = Some (Err x)"
| "answer_outcome (Failed x) = Some (Err x)"
| "answer_outcome (Again vs) = None"

lemma run_return:
  assumes g: "grown f a [v] g" and h: "holds (ck_code (fr_code f)) a [opword OP_RETURN d]"
  shows "comes VH g w (Halted (Ok v) w)"
proof -
  have p: "fr_pop g = Some (v, g\<lparr>fr_sp := fr_sp g - 1\<rparr>)" using pop_grown(1)[of f a "[]" v g] g by simp
  have "exec VH w g = Some (Return v (g\<lparr>fr_sp := fr_sp g - 1\<rparr>) w)"
    by (simp add: exec_at[OF g h] op_RETURN_def p)
  from comes_deliver[OF this] show ?thesis by simp
qed

lemma compiled_form_runs:
  assumes h: "chost_ok H w" "steady H e" "host_pools VH" and f: "form_ok w f" and c: "Compile H n f st = Ok (k, st')"
    and st: "cs_cur st = newContext" "cs_outer st = []" and s: "small st'" and P: "list_all plain_const (cs_pool st')"
    and w: "extends (cs_pool st') (w_pools w (ch_pool H))" and m: "evalForm VH H e None j f Map.empty w = Some (r, w1)"
  shows "\<exists>i out. answer_outcome r = Some out \<and> run VH i (Running (initFrame w k []) [] w) = Halted out w1"
proof -
  let ?st = "upd_cur (\<lambda>c. c\<lparr>cx_code := [], cx_sp := 0, cx_spMax := 0\<rparr>) st" and ?P = "cs_pool st'" and ?f = "initFrame w k []"
  obtain s1 where c1: "compileForm H n f ?st = Ok s1" and e: "st' = upd_cur (decSP 1 \<circ> emit OP_RETURN) s1" and k: "k = chunk_of H (cs_cur st')"
    using c by (auto simp: Compile_def obind_Ok Let_def)
  have r0: "ready ?st"
    using st by (simp add: ready_def enters_def newContext_def ctx_ok_def currentAddress_def)
  have S: "setting VH H e w ?P" using h P by (simp add: setting_def)
  have i: "implements {} VH H ?P None ?st s1 (evalForm VH H e None j f)" by (rule forms.means[OF S c1 f r0])
  have "compiled H w 1 ?st s1" by (rule cform.sub[OF h(1) c1 f ready_ok(1)[OF r0]])
  note g1 = compiled_grows[OF this]
  have code: "ck_code k = cx_code (cs_cur s1) @ [opword OP_RETURN (cx_sp (cs_cur s1))]" "ck_maxStack k = cx_spMax (cs_cur s1)" "ck_consts k = ch_pool H"
    by (simp_all add: k e chunk_of_def ctx_simps)
  have st0: "cx_code (cs_cur ?st) = []" "cx_sp (cs_cur ?st) = 0" "cx_locals (cs_cur ?st) = []" "\<not> cx_tail (cs_cur ?st)" using st by (simp_all add: newContext_def)
  have hd: "holds (ck_code (fr_code ?f)) 0 (words (cs_cur ?st) (cs_cur s1))"
    "holds (ck_code (fr_code ?f)) (currentAddress (cs_cur s1)) [opword OP_RETURN (cx_sp (cs_cur s1))]"
    by (simp_all add: initFrame_def code words_def st0 holds_def currentAddress_def nth_append)
  have s1: "small s1" using s by (auto simp: small_def e ctx_simps)
  have mx: "cx_spMax (cs_cur s1) \<le> int (nat (max (cx_spMax (cs_cur s1)) 4))" by linarith
  have ft: "fits ?P ?st s1 ?f"
    unfolding fits_def pending_before_def using s1 hd(1) code(2) mx by (simp add: initFrame_def stack_len_def e currentAddress_def st0)
  obtain x where x: "w_pools w (ch_pool H) = ?P @ x" using w by (auto simp: extends_def)
  have ld: "loaded H ?P None w ?f" using w by (simp add: loaded_def initFrame_def const_count_def code(3) x)
  have lx: "lexical {} (cs_cur ?st) Map.empty ?f" by (simp add: lexical_def lookupLocal_def st newContext_def)
  have "ends VH (target (cs_cur ?st)) ?f ?f w (currentAddress (cs_cur s1)) [] r w1"
    using i[unfolded implements_def, rule_format, OF ft ld _ _ lx m] st0 by (simp add: initFrame_def currentAddress_def)
  then have en: "ends VH None ?f ?f w (currentAddress (cs_cur s1)) [] r w1" using st0(4) by simp
  show ?thesis
  proof (cases r)
    case (Val v)
    then obtain g where g: "comes VH ?f w (Running g [] w1)" "grown ?f (currentAddress (cs_cur s1)) [v] g" using en by (auto simp: ends_def)
    have "comes VH ?f w (Halted (Ok v) w1)" by (rule comes_trans[OF g(1) run_return[OF g(2) hd(2)]])
    then show ?thesis using Val by (simp add: comes_def)
  next
    case (Raised y)
    then obtain g where g: "comes VH ?f w (raise VH g [] y w1)" "kept ?f g" using en by (auto simp: ends_def)
    have "fr_handlers g = []" using kept_fields[OF g(2)] by (simp add: initFrame_def)
    then have "raise VH g [] y w1 = Halted (Err y) w1" by (simp add: raise_def handleError_def)
    then show ?thesis using g(1) Raised by (simp add: comes_def)
  qed (use en in \<open>simp_all add: ends_def comes_def\<close>)
qed

end
