(* ===== verification/LG_CompilerFuel.thy ===== *)
theory LG_CompilerFuel
  imports LG_CompilerSafe
begin

text \<open>
  The fuel of the compiler. The locale \<open>fuel_relation\<close> compares two functions that compile
  subforms, on the forms that are \<open>good\<close>, by a relation of results that every step of the compiler
  respects. It has two instances: with less and more fuel the result is the same unless the fuel
  ran out (\<open>compileForm_more\<close>), and where no macro expands the fuel \<open>need\<close> of a form, a bound of its
  depth, is never used up (\<open>compileForm_enough\<close>).
\<close>

section \<open>Steps that respect a relation of results\<close>

lemma obind_eq_Err: "obind m k = Err e \<longleftrightarrow> m = Err e \<or> (\<exists>x. m = Ok x \<and> k x = Err e)"
  by (cases m) simp_all

lemma parseCatch_fuel: "parseCatch H rest \<noteq> Err OutOfFuel"
  by (auto simp: parseCatch_def Let_def split: list.splits form.splits)

lemma parseTry_fuel: "parseTry H fs t \<noteq> Err OutOfFuel"
proof (induction fs arbitrary: t)
  case (Cons f fs)
  then show ?case using parseCatch_fuel[of H]
    by (auto simp: obind_eq_Err split: option.splits list.splits form.splits if_splits outcome.splits)
qed simp

lemma enterArgs_fuel: "enterArgs as i fc \<noteq> Err OutOfFuel"
  by (induction as i fc rule: enterArgs.induct) (auto split: form.splits)

lemma defArgs_fuel: "defArgs args \<noteq> Err OutOfFuel"
proof
  assume "defArgs args = Err OutOfFuel"
  then show False by (auto simp: defArgs_def split: list.splits form.splits val.splits vv.splits)
qed

lemma defTarget_fuel: "defTarget s \<noteq> Err OutOfFuel"
  by (auto simp: defTarget_def split: list.splits form.splits)

text \<open>The names that can stand for a checked operator of the core, in some environment.\<close>

definition resolves_arith :: "'e chost \<Rightarrow> string \<Rightarrow> string \<Rightarrow> bool" where
  "resolves_arith H s base \<longleftrightarrow> (\<exists>e v. ch_lookup H e s = Some v \<and>
     find (\<lambda>name. ch_core H e name = Some v) [''+'', ''-'', ''*'', ''inc'', ''dec''] = Some base)"

lemma resolveCoreArith_names: "resolveCoreArith H s st = (Some base, st1) \<Longrightarrow> resolves_arith H s base"
  unfolding resolveCoreArith_def resolves_arith_def by (auto split: if_splits prod.splits option.splits)

text \<open>The forms that one step hands to the compiler of subforms.\<close>

definition call_asks :: "'e chost \<Rightarrow> (form \<Rightarrow> bool) \<Rightarrow> string \<Rightarrow> form list \<Rightarrow> bool" where
  "call_asks H good s args \<longleftrightarrow>
     (\<forall>ctor. ctorShorthand s = Some ctor \<longrightarrow> good (FList (FSym ctor # args))) \<and>
     (\<forall>m obj rest. ctorShorthand s = None \<longrightarrow> memberCall s = Some m \<longrightarrow> args = obj # rest \<longrightarrow>
        good (FList (FSym ''.'' # obj # FList [FSym ''quote'', FSym m] # rest))) \<and>
     (\<forall>f. s = ''.'' \<longrightarrow> normalizeDotForm (FSym s # args) = Some f \<longrightarrow> good f) \<and>
     (ctorShorthand s = None \<longrightarrow> memberCall s = None \<longrightarrow> (s = ''.'' \<longrightarrow> normalizeDotForm (FSym s # args) = None) \<longrightarrow>
        good (FSym s) \<and> (\<forall>f\<in>set args. good f) \<and>
        (\<forall>v e g. ch_isMacro H e v \<longrightarrow> fst (ch_expand H v (FList (FSym s # args)) args e) = Some g \<longrightarrow> good g) \<and>
        (\<forall>base g. resolves_arith H s base \<longrightarrow> rewriteUncheckedArith base args = Some g \<longrightarrow> good g))"

definition head_asks :: "'e chost \<Rightarrow> (form \<Rightarrow> bool) \<Rightarrow> string \<Rightarrow> form list \<Rightarrow> bool" where
  "head_asks H good s args \<longleftrightarrow>
     (s = ''if'' \<or> s = ''do'' \<or> s = ''set!'' \<or> s = ''recur'' \<longrightarrow> (\<forall>f\<in>set args. good f)) \<and>
     (s = ''def'' \<longrightarrow> (\<forall>t doc x. defArgs args = Ok (t, doc, Some x) \<longrightarrow> good x \<and>
        (\<forall>n y e e'. ch_irCompile H n x e = (Ok (Some y), e') \<longrightarrow> good y))) \<and>
     (s = ''fn*'' \<longrightarrow> (\<forall>m ps body. args = FVec m ps # body \<longrightarrow> (\<forall>f\<in>set body. good f)) \<and>
        (\<forall>a m ps body. a \<in> set args \<longrightarrow> formSeq a = Some (FVec m ps # body) \<longrightarrow> (\<forall>f\<in>set body. good f))) \<and>
     (s = ''let*'' \<or> s = ''loop*'' \<longrightarrow> (\<forall>m bs body. args = FVec m bs # body \<longrightarrow> (\<forall>f\<in>set bs \<union> set body. good f))) \<and>
     (s = ''try'' \<longrightarrow> (\<forall>t. parseTry H args \<lparr>tr_body = [], tr_clauses = [], tr_finally = []\<rparr> = Ok t \<longrightarrow>
        (\<forall>f\<in>set (tr_body t) \<union> set (tr_finally t). good f) \<and>
        (tr_clauses t \<noteq> [] \<longrightarrow> (\<forall>caught. good (dispatchClauses caught (tr_clauses t)))))) \<and>
     (s \<noteq> ''if'' \<and> s \<noteq> ''do'' \<and> s \<noteq> ''def'' \<and> s \<noteq> ''set!'' \<and> s \<noteq> ''fn*'' \<and> s \<noteq> ''quote'' \<and> s \<noteq> ''var'' \<and>
        s \<noteq> ''let*'' \<and> s \<noteq> ''loop*'' \<and> s \<noteq> ''recur'' \<and> s \<noteq> ''try'' \<longrightarrow> call_asks H good s args)"

fun asks :: "'e chost \<Rightarrow> (form \<Rightarrow> bool) \<Rightarrow> form \<Rightarrow> bool" where
  "asks H good (FVec m fs) \<longleftrightarrow> (\<forall>f\<in>set fs. good f) \<and> (\<forall>x. m = Some x \<longrightarrow> good (quoteTagHint x))"
| "asks H good (FSet m fs) \<longleftrightarrow> (\<forall>f\<in>set fs. good f) \<and> (\<forall>x. m = Some x \<longrightarrow> good (quoteTagHint x))"
| "asks H good (FMap m kvs) \<longleftrightarrow> (\<forall>kv\<in>set kvs. good (fst kv) \<and> good (snd kv)) \<and> (\<forall>x. m = Some x \<longrightarrow> good (quoteTagHint x))"
| "asks H good (FList (FSym s # args)) \<longleftrightarrow> head_asks H good s args"
| "asks H good (FList (f # args)) \<longleftrightarrow> good f \<and> (\<forall>f\<in>set args. good f)"
| "asks H good _ \<longleftrightarrow> True"

locale fuel_relation =
  fixes H :: "'e chost" and R :: "'e cresult \<Rightarrow> 'e cresult \<Rightarrow> bool" and good :: "form \<Rightarrow> bool"
    and cf cf' :: "'e compiler"
  assumes sub: "good f \<Longrightarrow> R (cf f st) (cf' f st)"
    and same: "r \<noteq> Err OutOfFuel \<Longrightarrow> R r r"
    and bind: "R r r' \<Longrightarrow> (\<And>x. R (k x) (k' x)) \<Longrightarrow> R (obind r k) (obind r' k')"
    and quiet: "R (Err OutOfFuel) (Err OutOfFuel) \<or>
      (\<forall>f e. ch_simulate H f e \<noteq> Err OutOfFuel) \<and> (\<forall>s f e. fst (ch_irCompile H s f e) \<noteq> Err OutOfFuel)"
begin

lemma service:
  assumes "R (Err OutOfFuel) (Err OutOfFuel) \<or> m \<noteq> Err OutOfFuel" "\<And>x. m = Ok x \<Longrightarrow> R (k x) (k' x)"
  shows "R (obind m k) (obind m k')"
proof (cases m)
  case (Err e)
  then show ?thesis using assms(1) same[of "Err e"] by (cases "e = OutOfFuel") simp_all
qed (use assms(2) same in simp_all)

lemma const [simp]: "R (Ok x) (Ok x)" "R Panic Panic" "R (Err (CompileError s)) (Err (CompileError s))"
    "R (Err (MacroFailed v)) (Err (MacroFailed v))"
  by (simp_all add: same)

lemma compileAll_rel: "\<forall>f\<in>set fs. good f \<Longrightarrow> R (compileAll cf fs st) (compileAll cf' fs st)"
  by (induction fs arbitrary: st) (simp_all add: bind sub)

lemma compileBody_rel:
  assumes pre: "\<And>f st. R (pre f st) (pre f st)"
  shows "\<forall>f\<in>set fs. good f \<Longrightarrow> R (compileBody pre cf tp fs st) (compileBody pre cf' tp fs st)"
proof (induction fs arbitrary: st)
  case (Cons f fs)
  then show ?case by (cases fs) (auto intro!: pre bind sub)
qed simp

lemma simulate_rel: "R (simulate H f st) (simulate H f st)"
  using quiet by (cases "simulate H f st = Err OutOfFuel") (auto simp: simulate_def obind_eq_Err same)

lemma ifCompiler_rel: "\<forall>f\<in>set args. good f \<Longrightarrow> R (ifCompiler cf args st) (ifCompiler cf' args st)"
  by (auto simp: ifCompiler_def Let_def intro!: bind sub split: list.split)

lemma doCompiler_rel: "\<forall>f\<in>set args. good f \<Longrightarrow> R (doCompiler H cf args st) (doCompiler H cf' args st)"
  by (auto simp: doCompiler_def Let_def intro!: bind compileBody_rel simulate_rel)

lemma compileBindings_rel: "\<forall>f\<in>set bs. good f \<Longrightarrow> R (compileBindings cf bs st) (compileBindings cf' bs st)"
proof (induction bs arbitrary: st rule: induct_list012)
  case (3 b v bs)
  then show ?case by (auto intro!: bind sub split: form.split)
qed (auto split: form.split)

lemma letCompiler_rel:
  "(\<And>m bs body. args = FVec m bs # body \<Longrightarrow> \<forall>f\<in>set bs \<union> set body. good f) \<Longrightarrow> R (letCompiler cf args st) (letCompiler cf' args st)"
  by (auto simp: letCompiler_def Let_def intro!: bind compileBindings_rel compileBody_rel split: list.split form.split)

lemma loopCompiler_rel:
  "(\<And>m bs body. args = FVec m bs # body \<Longrightarrow> \<forall>f\<in>set bs \<union> set body. good f) \<Longrightarrow> R (loopCompiler cf args st) (loopCompiler cf' args st)"
  by (auto simp: loopCompiler_def Let_def intro!: bind compileBindings_rel compileBody_rel split: list.split form.split)

lemma recurCompiler_rel: "\<forall>f\<in>set args. good f \<Longrightarrow> R (recurCompiler cf args st) (recurCompiler cf' args st)"
  by (auto simp: recurCompiler_def Let_def intro!: bind compileAll_rel split: list.split)

lemma setBangCompiler_rel: "\<forall>f\<in>set args. good f \<Longrightarrow> R (setBangCompiler H cf args st) (setBangCompiler H cf' args st)"
  by (auto simp: setBangCompiler_def Let_def intro!: bind sub split: list.split form.split)

lemma quoteCompiler_rel: "R (quoteCompiler H args st) (quoteCompiler H args st)"
  by (simp add: quoteCompiler_def)

lemma varCompiler_rel: "R (varCompiler H args st) (varCompiler H args st)"
  by (auto simp: varCompiler_def split: list.split form.split option.split)

lemma defCompiler_rel:
  assumes "\<And>s doc x. defArgs args = Ok (s, doc, Some x) \<Longrightarrow> good x"
    and "\<And>s doc x n y e e'. defArgs args = Ok (s, doc, Some x) \<Longrightarrow> ch_irCompile H n x e = (Ok (Some y), e') \<Longrightarrow> good y"
  shows "R (defCompiler H cf form args st) (defCompiler H cf' form args st)"
proof -
  have "R (case maybeIRCompileDefFnArg H name x s4 of (r, e3) \<Rightarrow> obind r (\<lambda>rw. obind (cf (case rw of Some y \<Rightarrow> y | None \<Rightarrow> x) (g e3)) k))
      (case maybeIRCompileDefFnArg H name x s4 of (r, e3) \<Rightarrow> obind r (\<lambda>rw. obind (cf' (case rw of Some y \<Rightarrow> y | None \<Rightarrow> x) (g e3)) k))"
    if "defArgs args = Ok (s, doc, Some x)" "\<And>z. R (k z) (k z)" for name x s4 g k s doc
  proof -
    obtain r e3 where ir: "maybeIRCompileDefFnArg H name x s4 = (r, e3)" by fastforce
    then have "R (Err OutOfFuel) (Err OutOfFuel) \<or> r \<noteq> Err OutOfFuel" and "\<And>y. r = Ok (Some y) \<Longrightarrow> good y"
      using quiet assms(2)[OF that(1), of name "cs_env s4"]
      by (auto simp: maybeIRCompileDefFnArg_def split: if_splits dest: arg_cong[of _ _ fst])
    then show ?thesis using assms(1)[OF that(1)] by (auto simp: ir intro!: service bind sub that(2) split: option.split)
  qed
  then show ?thesis unfolding defCompiler_def Let_def
    by (auto intro!: service defArgs_fuel defTarget_fuel disjI2 split: option.split prod.split)
qed

lemma fnFormCompiler_rel: "\<forall>f\<in>set body. good f \<Longrightarrow> R (fnFormCompiler H cf ps body st) (fnFormCompiler H cf' ps body st)"
  unfolding fnFormCompiler_def
  by (rule service) (auto simp: enterFn_def obind_eq_Err enterArgs_fuel leaveFn_def Let_def same intro!: bind compileBody_rel split: list.split)

lemma fnArms_rel:
  "(\<And>a m ps body. a \<in> set arms \<Longrightarrow> formSeq a = Some (FVec m ps # body) \<Longrightarrow> \<forall>f\<in>set body. good f) \<Longrightarrow>
   R (fnArms H cf arms st) (fnArms H cf' arms st)"
proof (induction arms arbitrary: st)
  case (Cons a arms)
  have "R (fnArms H cf arms st1) (fnArms H cf' arms st1)" for st1 by (rule Cons.IH, rule Cons.prems) auto
  then show ?case using Cons.prems[of a] by (auto intro!: bind fnFormCompiler_rel split: option.split list.split form.split)
qed simp

lemma fnCompiler_rel:
  assumes "\<And>m ps body. fs = FVec m ps # body \<Longrightarrow> \<forall>f\<in>set body. good f"
    and "\<And>a m ps body. a \<in> set fs \<Longrightarrow> formSeq a = Some (FVec m ps # body) \<Longrightarrow> \<forall>f\<in>set body. good f"
  shows "R (fnCompiler H cf fs st) (fnCompiler H cf' fs st)"
proof -
  have "R (fnArms H cf fs st) (fnArms H cf' fs st)" by (rule fnArms_rel) (rule assms(2))
  then show ?thesis using assms(1) by (auto simp: fnCompiler_def simp del: fnArms.simps intro!: bind fnFormCompiler_rel split: list.split form.split)
qed

lemma compileEach_rel: "\<forall>f\<in>set fs. good f \<Longrightarrow> R (compileEach cf fs st) (compileEach cf' fs st)"
proof (induction fs arbitrary: st)
  case (Cons f fs)
  then show ?case by (cases fs) (auto intro!: bind sub)
qed simp

lemma tryLayout_rel:
  assumes "\<forall>f\<in>set body \<union> set fin. good f" "\<And>s f. handler = Some (s, f) \<Longrightarrow> good f"
  shows "R (tryLayout cf body handler fin st) (tryLayout cf' body handler fin st)"
proof -
  have c: "R (catchBlock cf s f b st) (catchBlock cf' s f b st)" if "good f" for s f b st
    using that by (auto simp: catchBlock_def intro!: bind sub)
  have "R (finallyBlock cf a fin st) (finallyBlock cf' a fin st)" for a st
    using assms(1) by (auto simp: finallyBlock_def Let_def intro!: bind compileBody_rel)
  then show ?thesis
    using assms unfolding tryLayout_def Let_def
    by (auto intro!: bind compileBody_rel c split: option.split)
qed

lemma tryCompiler_rel:
  assumes "\<And>t. parseTry H args \<lparr>tr_body = [], tr_clauses = [], tr_finally = []\<rparr> = Ok t \<Longrightarrow>
      (\<forall>f\<in>set (tr_body t) \<union> set (tr_finally t). good f) \<and>
      (tr_clauses t \<noteq> [] \<longrightarrow> (\<forall>caught. good (dispatchClauses caught (tr_clauses t))))"
  shows "R (tryCompiler H cf args st) (tryCompiler H cf' args st)"
  using assms parseTry_fuel[of H args] unfolding tryCompiler_def
  by (auto simp: freshCaughtSym_def Let_def intro!: service compileEach_rel tryLayout_rel)

lemma compileCall_rel: "good fn \<Longrightarrow> \<forall>f\<in>set args. good f \<Longrightarrow> R (compileCall H cf fn args st) (compileCall H cf' fn args st)"
  unfolding compileCall_def Let_def by (auto intro!: bind sub compileAll_rel split: prod.split option.split)

lemma compileMacroOrCall_rel:
  assumes "\<And>v e g. ch_isMacro H e v \<Longrightarrow> fst (ch_expand H v (FList (FSym s # args)) args e) = Some g \<Longrightarrow> good g"
    and "good (FSym s)" "\<forall>f\<in>set args. good f"
  shows "R (compileMacroOrCall H cf s args st) (compileMacroOrCall H cf' s args st)"
proof -
  have "R (expandMacro H cf v (FList (FSym s # args)) args st) (expandMacro H cf' v (FList (FSym s # args)) args st)"
    if "ch_isMacro H (cs_env st) v" for v
    using assms(1)[OF that] by (cases "ch_expand H v (FList (FSym s # args)) args (cs_env st)") (auto simp: expandMacro_def intro: sub split: option.split)
  then show ?thesis
    using assms(2,3) by (auto simp: compileMacroOrCall_def intro!: compileCall_rel split: option.split)
qed

lemma compilePlainSymbolCall_rel:
  assumes "\<And>v e g. ch_isMacro H e v \<Longrightarrow> fst (ch_expand H v (FList (FSym s # args)) args e) = Some g \<Longrightarrow> good g"
    and "good (FSym s)" "\<forall>f\<in>set args. good f"
    and "\<And>base g. resolves_arith H s base \<Longrightarrow> rewriteUncheckedArith base args = Some g \<Longrightarrow> good g"
  shows "R (compilePlainSymbolCall H cf s args st) (compilePlainSymbolCall H cf' s args st)"
  using compileMacroOrCall_rel[OF assms(1-3)] assms(4)[OF resolveCoreArith_names]
  by (auto simp: compilePlainSymbolCall_def intro: sub split: prod.split option.split)

lemma compileAggregate_rel:
  "\<forall>f\<in>set elems. good f \<Longrightarrow> (\<And>m. meta = Some m \<Longrightarrow> good (quoteTagHint m)) \<Longrightarrow>
   R (compileAggregate H cf ctor whole meta elems st) (compileAggregate H cf' ctor whole meta elems st)"
  by (auto simp: compileAggregate_def Let_def intro!: bind sub compileAll_rel split: option.split)

lemma if_rel: "(c \<Longrightarrow> R a a') \<Longrightarrow> (\<not> c \<Longrightarrow> R b b') \<Longrightarrow> R (if c then a else b) (if c then a' else b')"
  by simp

lemma compileSymbolHead_rel:
  assumes a: "head_asks H good s args"
  shows "R (compileSymbolHead H cf s args st) (compileSymbolHead H cf' s args st)"
  unfolding compileSymbolHead_def
proof (intro if_rel)
  note h = a[unfolded head_asks_def]
  show "R (ifCompiler cf args st) (ifCompiler cf' args st)" if "s = ''if''"
    by (rule ifCompiler_rel) (use h that in auto)
  show "R (doCompiler H cf args st) (doCompiler H cf' args st)" if "s = ''do''"
    by (rule doCompiler_rel) (use h that in auto)
  show "R (defCompiler H cf (FList (FSym s # args)) args st) (defCompiler H cf' (FList (FSym s # args)) args st)" if "s = ''def''"
  proof (rule defCompiler_rel)
    have d: "\<forall>t doc x. defArgs args = Ok (t, doc, Some x) \<longrightarrow> good x \<and>
        (\<forall>n y e e'. ch_irCompile H n x e = (Ok (Some y), e') \<longrightarrow> good y)"
      using h[THEN conjunct2, THEN conjunct1] that by blast
    show "good x" if "defArgs args = Ok (t, doc, Some x)" for t doc x using d that by blast
    show "good y" if "defArgs args = Ok (t, doc, Some x)" "ch_irCompile H n x e = (Ok (Some y), e')" for t doc x n y e e'
      using d that by blast
  qed
  show "R (setBangCompiler H cf args st) (setBangCompiler H cf' args st)" if "s = ''set!''"
    by (rule setBangCompiler_rel) (use h that in auto)
  show "R (fnCompiler H cf args st) (fnCompiler H cf' args st)" if "s = ''fn*''"
    by (rule fnCompiler_rel) (use h that in auto)
  show "R (letCompiler cf args st) (letCompiler cf' args st)" if "s = ''let*''"
    by (rule letCompiler_rel) (use h that in auto)
  show "R (loopCompiler cf args st) (loopCompiler cf' args st)" if "s = ''loop*''"
    by (rule loopCompiler_rel) (use h that in auto)
  show "R (recurCompiler cf args st) (recurCompiler cf' args st)" if "s = ''recur''"
    by (rule recurCompiler_rel) (use h that in auto)
  show "R (tryCompiler H cf args st) (tryCompiler H cf' args st)" if "s = ''try''"
    by (rule tryCompiler_rel) (use h that in auto)
  assume n: "s \<noteq> ''if''" "s \<noteq> ''do''" "s \<noteq> ''def''" "s \<noteq> ''set!''" "s \<noteq> ''fn*''" "s \<noteq> ''quote''" "s \<noteq> ''var''"
    "s \<noteq> ''let*''" "s \<noteq> ''loop*''" "s \<noteq> ''recur''" "s \<noteq> ''try''"
  then have o: "call_asks H good s args" using h by simp
  have p: "R (compilePlainSymbolCall H cf s args st) (compilePlainSymbolCall H cf' s args st)"
    if "ctorShorthand s = None" "memberCall s = None" "s = ''.'' \<longrightarrow> normalizeDotForm (FSym s # args) = None"
    by (rule compilePlainSymbolCall_rel) (use o that in \<open>unfold call_asks_def, blast+\<close>)
  show "R (case ctorShorthand s of
          Some ctor \<Rightarrow> cf (FList (FSym ctor # args)) st
        | None \<Rightarrow> (case memberCall s of
            Some member \<Rightarrow> (case args of
                [] \<Rightarrow> Err (CompileError ''Malformed member expression'')
              | obj # rest \<Rightarrow> cf (FList (FSym ''.'' # obj # FList [FSym ''quote'', FSym member] # rest)) st)
          | None \<Rightarrow> (case (if s = ''.'' then normalizeDotForm (FSym s # args) else None) of
              Some f \<Rightarrow> cf f st
            | None \<Rightarrow> compilePlainSymbolCall H cf s args st)))
      (case ctorShorthand s of
          Some ctor \<Rightarrow> cf' (FList (FSym ctor # args)) st
        | None \<Rightarrow> (case memberCall s of
            Some member \<Rightarrow> (case args of
                [] \<Rightarrow> Err (CompileError ''Malformed member expression'')
              | obj # rest \<Rightarrow> cf' (FList (FSym ''.'' # obj # FList [FSym ''quote'', FSym member] # rest)) st)
          | None \<Rightarrow> (case (if s = ''.'' then normalizeDotForm (FSym s # args) else None) of
              Some f \<Rightarrow> cf' f st
            | None \<Rightarrow> compilePlainSymbolCall H cf' s args st)))"
  proof (cases "ctorShorthand s")
    case ctor: None
    show ?thesis
    proof (cases "memberCall s")
      case None
      then show ?thesis using ctor p o[unfolded call_asks_def, THEN conjunct2, THEN conjunct2, THEN conjunct1]
        by (cases "s = ''.''"; cases "normalizeDotForm (FSym s # args)") (simp_all add: sub)
    next
      case (Some m)
      then show ?thesis using ctor o[unfolded call_asks_def, THEN conjunct2, THEN conjunct1]
        by (cases args) (simp_all add: sub)
    qed
  qed (use o[unfolded call_asks_def, THEN conjunct1] in \<open>simp add: sub\<close>)
qed (simp_all add: quoteCompiler_rel varCompiler_rel)

lemma compileStep_rel:
  assumes a: "asks H good f"
  shows "R (compileStep H cf f st) (compileStep H cf' f st)"
proof (cases f)
  case (FSym s)
  have "R (compileSymbol H s st) (compileSymbol H s st)"
    by (rule same) (auto simp: compileSymbol_def Let_def split: option.split prod.split)
  then show ?thesis using FSym by (simp add: compileStep_def)
next
  case (FList fs)
  then show ?thesis
    using a by (cases fs) (auto simp: compileStep_def intro!: compileSymbolHead_rel compileCall_rel split: form.split)
qed (use a in \<open>force simp: compileStep_def intro!: compileAggregate_rel\<close>)+

end

section \<open>More fuel\<close>

definition below :: "'e cresult \<Rightarrow> 'e cresult \<Rightarrow> bool" where
  "below r r' \<longleftrightarrow> r = Err OutOfFuel \<or> r' = r"

lemma asks_all: "asks H (\<lambda>_. True) f"
  by (cases "(H, \<lambda>_ :: form. True, f)" rule: asks.cases) (simp_all add: head_asks_def call_asks_def)

lemma below_relation:
  assumes "\<And>f st. below (cf f st) (cf' f st)"
  shows "fuel_relation H below (\<lambda>_. True) cf cf'"
proof (rule fuel_relation.intro)
  fix r r' :: "'a cresult" and k k' :: "'a cstate \<Rightarrow> 'a cresult"
  assume "below r r'" "\<And>x. below (k x) (k' x)"
  then show "below (obind r k) (obind r' k')" by (cases r) (auto simp: below_def)
qed (use assms in \<open>auto simp: below_def\<close>)

lemma compileForm_below: "below (compileForm H n f st) (compileForm H (n + k) f st)"
proof (induction n arbitrary: f st)
  case (Suc n)
  from fuel_relation.compileStep_rel[OF below_relation[OF Suc] asks_all]
  show ?case by simp
qed (simp add: below_def)

interpretation more_fuel: fuel_relation H below "\<lambda>_. True" "compileForm H n" "compileForm H (n + k)" for H :: "'e chost" and n k
  by (rule below_relation) (rule compileForm_below)

section \<open>Enough fuel\<close>

text \<open>The names of the checked operators, in whatever namespace.\<close>

definition arith_name :: "string \<Rightarrow> bool" where
  "arith_name s \<longleftrightarrow> (case splitNamespaced s of Some (ns, name) \<Rightarrow> name | None \<Rightarrow> s) \<in> {''+'', ''-'', ''*'', ''inc'', ''dec''}"

definition head_cost :: "form list \<Rightarrow> nat" where
  "head_cost fs = (case fs of
     FSym s # args \<Rightarrow> (if s = ''try'' then 10 + 4 * length args else 0) +
       (if ctorShorthand s \<noteq> None then 8 + length args else 0) + (if arith_name s then length args else 0) +
       (if memberCall s \<noteq> None then 16 else 0) + (if s = ''.'' \<and> normalizeDotForm fs \<noteq> None then 6 else 0)
   | _ \<Rightarrow> 0)"

definition maxl :: "nat list \<Rightarrow> nat" where
  "maxl ns = foldr max ns 0"

fun need :: "form \<Rightarrow> nat" where
  "need (FVal v) = 1"
| "need (FSym s) = 1"
| "need (FList fs) = 1 + head_cost fs + maxl (map need fs)"
| "need (FVec m fs) = 1 + max (case m of Some x \<Rightarrow> need x + 1 | None \<Rightarrow> 0) (maxl (map need fs))"
| "need (FMap m kvs) = 1 + max (case m of Some x \<Rightarrow> need x + 1 | None \<Rightarrow> 0) (maxl (map (\<lambda>kv. max (need (fst kv)) (need (snd kv))) kvs))"
| "need (FSet m fs) = 1 + max (case m of Some x \<Rightarrow> need x + 1 | None \<Rightarrow> 0) (maxl (map need fs))"

lemma maxl_simps [simp]: "maxl [] = 0" "maxl (n # ns) = max n (maxl ns)" "maxl (ms @ ns) = max (maxl ms) (maxl ns)"
  by (induction ms) (simp_all add: maxl_def max.assoc)

lemma maxl_le: "maxl ns \<le> m \<longleftrightarrow> (\<forall>n\<in>set ns. n \<le> m)"
  by (induction ns) auto

lemma need_quoteTagHint: "need (quoteTagHint m) \<le> need m + 1"
proof (cases m)
  case (FMap x kvs)
  let ?q = "\<lambda>(k, v). case (k, v) of
     (FVal (Prim (VKeyword t)), FSym s) \<Rightarrow> (k, if t = ''tag'' then FList [FSym ''quote'', FSym s] else FSym s) | _ \<Rightarrow> (k, v)"
  have q: "max (need (fst (?q kv))) (need (snd (?q kv))) \<le> max (need (fst kv)) (need (snd kv)) + 1" for kv
  proof (cases "\<exists>t s. kv = (FVal (Prim (VKeyword t)), FSym s)")
    case True
    then show ?thesis by (auto simp: head_cost_def ctorShorthand_def memberCall_def arith_name_def splitNamespaced_def)
  next
    case False
    then have "?q kv = kv" by (cases kv) (auto split: form.split vv.split val.split)
    then show ?thesis by (simp only:)
  qed
  have L: "maxl (map (\<lambda>kv. max (need (fst kv)) (need (snd kv))) (map ?q kvs)) \<le>
      maxl (map (\<lambda>kv. max (need (fst kv)) (need (snd kv))) kvs) + 1"
  proof (induction kvs)
    case (Cons kv kvs)
    then show ?case using q[of kv] by (simp only: list.map maxl_simps max.bounded_iff) linarith
  qed simp
  have "1 + max a b' \<le> 1 + max a b + 1" if "b' \<le> b + 1" for a b b' :: nat using that by auto
  from this[OF L] show ?thesis by (simp only: FMap quoteTagHint.simps need.simps)
qed (simp_all del: need.simps)

text \<open>The parts of a form need less.\<close>

lemma need_mem: "f \<in> set fs \<Longrightarrow> need f \<le> maxl (map need fs)"
  using maxl_le[of "map need fs"] by auto

lemma need_formSeq: "formSeq f = Some fs \<Longrightarrow> g \<in> set fs \<Longrightarrow> Suc (need g) \<le> need f"
  using need_mem[of g fs] by (cases f rule: formSeq.cases) auto

lemma need_vec: "g \<in> set fs \<Longrightarrow> Suc (need g) \<le> need (FVec m fs)"
  using need_mem[of g fs] by simp

text \<open>A bound on the parts of a \<open>try\<close>, clause bodies included.\<close>

definition parts_need :: "nat \<Rightarrow> try_parts \<Rightarrow> bool" where
  "parts_need n t \<longleftrightarrow> (\<forall>f\<in>set (tr_body t). need f \<le> n) \<and> (\<forall>f\<in>set (tr_finally t). need f \<le> n) \<and>
     (\<forall>cl\<in>set (tr_clauses t). \<forall>f\<in>set (snd (snd cl)). need f \<le> n)"

lemma parseTry_need:
  "parseTry H fs t = Ok t' \<Longrightarrow> \<forall>f\<in>set fs. need f \<le> n \<Longrightarrow> parts_need n t \<Longrightarrow>
   parts_need n t' \<and> length (tr_clauses t') \<le> length (tr_clauses t) + length fs"
proof (induction fs arbitrary: t)
  case (Cons f fs)
  have fs: "\<forall>f\<in>set fs. need f \<le> n" using Cons.prems(2) by simp
  from Cons.prems(1) show ?case
  proof (cases rule: parseTry_cases)
    case (clause rest cn b body)
    have "\<forall>g\<in>set body. need g \<le> n"
    proof
      fix g assume g: "g \<in> set body"
      have "g \<in> set (FSym ''catch'' # rest)" using subsetD[OF parseCatch_body[OF clause(2)] g] by simp
      from need_formSeq[OF clause(1) this] Cons.prems(2) show "need g \<le> n" by simp
    qed
    then have "parts_need n (t\<lparr>tr_clauses := tr_clauses t @ [(cn, b, body)]\<rparr>)" using Cons.prems(3) by (simp add: parts_need_def)
    from Cons.IH[OF clause(3) fs this] show ?thesis by simp
  next
    case (cleanup rest)
    have "need g \<le> n" if "g \<in> set rest" for g
      using need_formSeq[OF cleanup(1), of g] that Cons.prems(2) by simp
    then have "parts_need n (t\<lparr>tr_finally := tr_finally t @ rest\<rparr>)" using Cons.prems(3) by (simp add: parts_need_def ball_Un)
    from Cons.IH[OF cleanup(2) fs this] show ?thesis by simp
  next
    case body
    have "parts_need n (t\<lparr>tr_body := tr_body t @ [f]\<rparr>)" using Cons.prems(2,3) by (simp add: parts_need_def ball_Un)
    from Cons.IH[OF body fs this] show ?thesis by simp
  qed
qed simp

lemma head_cost_plain: "\<not> arith_name s \<Longrightarrow> s \<noteq> ''try'' \<Longrightarrow> ctorShorthand s = None \<Longrightarrow> memberCall s = None \<Longrightarrow> s \<noteq> ''.'' \<Longrightarrow> head_cost (FSym s # fs) = 0"
  by (simp add: head_cost_def)

lemma head_cost_known [simp]:
  "head_cost (FSym ''if'' # fs) = 0" "head_cost (FSym ''let*'' # fs) = 0" "head_cost (FSym ''quote'' # fs) = 0"
  "head_cost (FSym ''core/throw'' # fs) = 0" "head_cost (FSym ''core/catch-matches?'' # fs) = 0"
  "head_cost (FSym ''clojure.core/unchecked-negate'' # fs) = 0" "head_cost (FSym (uncheckedArithFor base) # fs) = 0"
  by (rule head_cost_plain; simp add: ctorShorthand_def memberCall_def arith_name_def splitNamespaced_def uncheckedArithFor_def)+

lemma need_dispatch:
  assumes "\<forall>cl\<in>set cls. \<forall>f\<in>set (snd (snd cl)). need f \<le> n"
  shows "need (dispatchClauses caught cls) \<le> length cls + 4 + n"
  using assms
proof (induction cls)
  case (Cons cl cls)
  obtain cn b body where cl: "cl = (cn, b, body)" by (cases cl) blast
  have "maxl (map need body) \<le> n" using Cons.prems cl by (simp add: maxl_le)
  then show ?case using Cons cl by (simp add: dispatchClauses_def)
qed (simp add: dispatchClauses_def)

text \<open>The rewritten calls.\<close>

lemma ctor_cost:
  assumes "ctorShorthand s = Some ctor"
  shows "head_cost (FSym ctor # args) \<le> length args"
proof -
  have "ctor \<noteq> ''try''" "ctorShorthand ctor = None" "memberCall ctor = None" "ctor \<noteq> ''.''"
    using assms by (auto simp: ctorShorthand_def memberCall_def split: if_splits)
  then show ?thesis by (simp add: head_cost_def)
qed

lemma quoted_cost: "head_cost (FSym ''.'' # obj # FList [FSym ''quote'', FSym m] # rest) = 0"
  by (simp add: head_cost_def normalizeDotForm_def ctorShorthand_def memberCall_def arith_name_def splitNamespaced_def)

lemma need_normalize:
  assumes "normalizeDotForm (FSym ''.'' # args) = Some g"
  shows "need g < need (FList (FSym ''.'' # args))"
proof -
  have "head_cost (FSym ''.'' # args) = 6"
    using assms by (simp add: head_cost_def ctorShorthand_def memberCall_def arith_name_def splitNamespaced_def)
  moreover have "need g \<le> 1 + max 2 (maxl (map need args))"
    using assms unfolding normalizeDotForm_def
    by (auto simp: quoted_cost split: list.splits form.splits if_splits)
  ultimately show ?thesis by simp
qed

lemma need_pos: "1 \<le> need f"
  by (cases f) simp_all

lemma need_left_nested:
  "need (foldl (\<lambda>acc x. FList [FSym (uncheckedArithFor base), acc, x]) a as) \<le> length as + max (need a) (maxl (map need as))"
proof (induction as rule: rev_induct)
  case (snoc x as)
  then show ?case using need_pos[of x] by (simp, simp add: max_def split: if_splits)
qed simp

lemma need_unchecked:
  assumes "rewriteUncheckedArith base args = Some g"
  shows "need g \<le> length args + maxl (map need args)"
proof (cases "\<exists>a b as. args = a # b # as \<and> g = foldl (\<lambda>acc x. FList [FSym (uncheckedArithFor base), acc, x])
    (FList [FSym (uncheckedArithFor base), a, b]) as")
  case True
  then obtain a b as where e: "args = a # b # as" and g: "g = foldl (\<lambda>acc x. FList [FSym (uncheckedArithFor base), acc, x])
      (FList [FSym (uncheckedArithFor base), a, b]) as" by blast
  show ?thesis
    using need_left_nested[of base "FList [FSym (uncheckedArithFor base), a, b]" as] need_pos[of a] by (simp add: e g)
next
  case False
  then obtain a u where "args = [a]" "g = FList [FSym u, a]" "head_cost [FSym u, a] = 0"
    using assms by (auto simp: rewriteUncheckedArith_def split: if_splits list.splits)
  then show ?thesis using need_pos[of a] by simp
qed

lemma call_asks_need:
  assumes h: "\<forall>e v. \<not> ch_isMacro H e v" "\<forall>s base. resolves_arith H s base \<longrightarrow> arith_name s"
    and n: "need (FList (FSym s # args)) \<le> Suc n"
  shows "call_asks H (\<lambda>f. need f \<le> n) s args"
  unfolding call_asks_def
proof (intro conjI allI impI ballI)
  show "need (FList (FSym ctor # args)) \<le> n" if "ctorShorthand s = Some ctor" for ctor
  proof -
    have "8 + length args \<le> head_cost (FSym s # args)" using that by (simp add: head_cost_def)
    then show ?thesis using n ctor_cost[OF that, of args] by simp
  qed
  show "need (FList (FSym ''.'' # obj # FList [FSym ''quote'', FSym m] # rest)) \<le> n"
    if "memberCall s = Some m" "args = obj # rest" for m obj rest
  proof -
    have "16 \<le> head_cost (FSym s # args)" using that by (simp add: head_cost_def)
    then show ?thesis using n that(2) by (simp add: quoted_cost)
  qed
  show "need f \<le> n" if "s = ''.''" "normalizeDotForm (FSym s # args) = Some f" for f
    using need_normalize[of args f] that n by simp
  show "need f \<le> n" if "f \<in> set args" for f using need_mem[OF that] n by simp
  show "need g \<le> n" if "resolves_arith H s base" "rewriteUncheckedArith base args = Some g" for base g
  proof -
    have "arith_name s" using h(2) that(1) by blast
    then have "length args \<le> head_cost (FSym s # args)" by (simp add: head_cost_def del: if_split)
    then show ?thesis using need_unchecked[OF that(2)] n by simp
  qed
qed (use h n in auto)

text \<open>What the services around the compiler must keep to: no macro expands, only operators are named like
  operators, and a rewrite of the value of a \<open>def\<close> does not need more. Then the forms that a
  step compiles need less fuel than the whole.\<close>

definition macro_free :: "'e chost \<Rightarrow> bool" where
  "macro_free H \<longleftrightarrow> (\<forall>e v. \<not> ch_isMacro H e v) \<and> (\<forall>s base. resolves_arith H s base \<longrightarrow> arith_name s) \<and>
     (\<forall>s f e g. fst (ch_irCompile H s f e) = Ok (Some g) \<longrightarrow> need g \<le> need f) \<and>
     (\<forall>s f e. fst (ch_irCompile H s f e) \<noteq> Err OutOfFuel) \<and> (\<forall>f e. ch_simulate H f e \<noteq> Err OutOfFuel)"

lemma head_asks_need:
  assumes h: "macro_free H" and n: "need (FList (FSym s # args)) \<le> Suc n"
  shows "head_asks H (\<lambda>f. need f \<le> n) s args"
proof -
  have a: "need f \<le> n" if "f \<in> set args" for f using need_mem[OF that] n by simp
  have parts: "need f \<le> n" if "g \<in> set args" "formSeq g = Some fs" "f \<in> set fs" for f g fs
    using need_formSeq[OF that(2,3)] a[OF that(1)] by simp
  have vec: "need f \<le> n" if "args = FVec m bs # body" "f \<in> set bs \<union> set body" for m bs body f
    using that a[of f] a[of "FVec m bs"] need_vec[of f bs m] by auto
  have tries: "(\<forall>f\<in>set (tr_body t) \<union> set (tr_finally t). need f \<le> n) \<and> (\<forall>caught. need (dispatchClauses caught (tr_clauses t)) \<le> n)"
    if p: "parseTry H args \<lparr>tr_body = [], tr_clauses = [], tr_finally = []\<rparr> = Ok t" and s: "s = ''try''" for t
  proof -
    let ?k = "maxl (map need args)"
    have "parts_need ?k t \<and> length (tr_clauses t) \<le> length args"
      using parseTry_need[OF p, of ?k] need_mem[of _ args] by (simp add: parts_need_def)
    moreover have "10 + 4 * length args + ?k \<le> n" using n s by (simp add: head_cost_def)
    ultimately show ?thesis
      using need_dispatch[of "tr_clauses t" ?k] by (force simp: parts_need_def intro: order.trans)
  qed
  have d: "need x \<le> n" if "defArgs args = Ok (t, doc, Some x)" for t doc x
    using a[OF cform.defArgs_val[OF that refl]] .
  have ir: "need y \<le> n" if "defArgs args = Ok (t, doc, Some x)" "ch_irCompile H m x e = (Ok (Some y), e')" for t doc m x y e e'
  proof -
    have "need y \<le> need x" using h that(2) unfolding macro_free_def by (metis fst_conv)
    then show ?thesis using d[OF that(1)] by simp
  qed
  have call: "call_asks H (\<lambda>f. need f \<le> n) s args"
    by (rule call_asks_need[OF _ _ n]) (use h in \<open>simp_all add: macro_free_def\<close>)
  show ?thesis unfolding head_asks_def
    by (intro conjI impI allI ballI) (simp_all add: a parts vec tries d ir call)
qed

lemma asks_need:
  assumes h: "macro_free H" and n: "need f \<le> Suc n"
  shows "asks H (\<lambda>f. need f \<le> n) f"
proof -
  have hint: "need (quoteTagHint x) \<le> k" if "need x + 1 \<le> k" for x k
    using need_quoteTagHint[of x] that by linarith
  have mem: "need g \<le> n" if "f = FList fs" "g \<in> set fs" for g fs
    using need_mem[OF that(2)] n that(1) by simp
  show ?thesis
  proof (cases f)
    case (FList fs)
    show ?thesis
    proof (cases "\<exists>s args. fs = FSym s # args")
      case True
      then obtain s args where "fs = FSym s # args" by blast
      then show ?thesis using FList head_asks_need[OF h] n by simp
    next
      case False
      have "\<forall>g\<in>set fs. need g \<le> n" using mem[OF FList] by blast
      then show ?thesis using False FList by (cases fs; cases "hd fs") (simp_all del: need.simps)
    qed
  qed (use n in \<open>auto simp: maxl_le intro!: hint\<close>)
qed

lemma enough_relation:
  assumes "macro_free H" "\<And>f st. need f \<le> n \<Longrightarrow> cf f st \<noteq> Err OutOfFuel"
  shows "fuel_relation H (\<lambda>r r'. r \<noteq> Err OutOfFuel) (\<lambda>f. need f \<le> n) cf cf"
proof (rule fuel_relation.intro)
  fix r r' :: "'a cresult" and k k' :: "'a cstate \<Rightarrow> 'a cresult"
  assume "r \<noteq> Err OutOfFuel" "\<And>x. k x \<noteq> Err OutOfFuel"
  then show "obind r k \<noteq> Err OutOfFuel" by (cases r) auto
qed (use assms in \<open>auto simp: macro_free_def\<close>)

lemma compileForm_enough: "macro_free H \<Longrightarrow> need f \<le> n \<Longrightarrow> compileForm H n f st \<noteq> Err OutOfFuel"
proof (induction n arbitrary: f st)
  case 0
  then show ?case by (cases f) simp_all
next
  case (Suc n)
  from fuel_relation.compileStep_rel[OF enough_relation[OF Suc.prems(1) Suc.IH[OF Suc.prems(1)]] asks_need[OF Suc.prems]]
  show ?case by simp
qed

end
