(* ===== verification/LG_CompilerClaims.thy ===== *)
theory LG_CompilerClaims
  imports LG_CorrectForms LG_CompilerFuel LG_MachineClaims
begin

text \<open>The properties of the compiler, with the services and forms at which they are applied.\<close>

section \<open>A compiler state without definitions\<close>

definition core_names :: "(string \<times> nat) list" where
  "core_names = [(''+'', 0), (''-'', 1), (''inc'', 2), (''<'', 3), (''vector'', 4)]"

definition plain_chost :: "unit chost" where
  "plain_chost = \<lparr>ch_pool = 0, ch_lookup = (\<lambda>e. map_of core_names), ch_lookupPrivate = (\<lambda>e. map_of core_names),
     ch_core = (\<lambda>e. map_of core_names), ch_hostClass = (\<lambda>s. None), ch_isMacro = (\<lambda>e v. False),
     ch_expand = (\<lambda>v f args e. (None, e)), ch_intern = (\<lambda>s e. (7, e)),
     ch_defMeta = (\<lambda>s m d f v e. (NIL, e)), ch_irCompile = (\<lambda>s f e. (Ok None, e)),
     ch_detectInNS = (\<lambda>f e. e), ch_simulate = (\<lambda>f e. Ok e), ch_uncheckedMath = (\<lambda>e. False),
     ch_upper = (\<lambda>s. False), ch_object = (\<lambda>f. 0), ch_objType = (\<lambda>n. OtherType)\<rparr>"

lemma plain_chost_ok: "chost_ok plain_chost w"
  by (simp add: chost_ok_def plain_chost_def)

definition fresh :: "vv list \<Rightarrow> unit cstate" where
  "fresh pool = \<lparr>cs_cur = newContext, cs_outer = [], cs_pool = pool, cs_env = (), cs_caught = 0\<rparr>"

definition compiled_start :: "vv list \<Rightarrow> chunk \<Rightarrow> unit machine" where
  "compiled_start pool k = Running (initFrame (world_of pool) k []) [] (world_of pool)"

text \<open>The state after a form: nothing is left but the code and the constants.\<close>

definition finished :: "chunk \<Rightarrow> vv list \<Rightarrow> unit cstate" where
  "finished k pool = (fresh pool)\<lparr>cs_cur := newContext\<lparr>cx_code := ck_code k, cx_spMax := ck_maxStack k\<rparr>\<rparr>"

definition code_of :: "int \<Rightarrow> u32 list \<Rightarrow> chunk" where
  "code_of m code = \<lparr>ck_maxStack = m, ck_consts = 0, ck_code = code\<rparr>"

lemma finished_pool: "cs_pool (finished k P) = P"
  by (simp add: finished_def fresh_def)

abbreviation sy :: "string \<Rightarrow> form" where "sy \<equiv> FSym"
abbreviation num :: "i64 \<Rightarrow> form" where "num n \<equiv> FVal (IntV n)"
abbreviation vec :: "form list \<Rightarrow> form" where "vec \<equiv> FVec None"

text \<open>\<open>(let* [x 2 f (fn* [y] (+ x y))] (f 3))\<close>\<close>

definition closure_form :: form where
  "closure_form = FList [sy ''let*'', vec [sy ''x'', num 2, sy ''f'',
       FList [sy ''fn*'', vec [sy ''y''], FList [sy ''+'', sy ''x'', sy ''y'']]],
     FList [sy ''f'', num 3]]"

lemma closure_form_ok: "form_ok w closure_form"
  by (simp add: closure_form_def special_ok_def params_ok_def stripBindingMeta_def)

text \<open>Evaluation: one form compiler at a time, never below a step that has not been reached.\<close>

lemma obind_weak_cong: "r = r' \<Longrightarrow> obind r k = obind r' k"
  by simp

lemma compileForm_numeral: "compileForm H (numeral n) f st = compileStep H (compileForm H (pred_numeral n)) f st"
  by (simp add: numeral_eq_Suc)

lemma valueEquiv_VInt: "valueEquiv (VInt a) (VInt b) \<longleftrightarrow> a = b"
  by (simp add: valueEquiv_def)

lemmas compile_eval = Compile_def compileForm_numeral compileStep_def compileSymbolHead_def letCompiler_def
  loopCompiler_def recurCompiler_def ifCompiler_def doCompiler_def tryCompiler_def tryLayout_def
  fnCompiler_def fnFormCompiler_def enterFn_def leaveFn_def compileSymbol_def symbolLookup_def compilePlainSymbolCall_def
  compileMacroOrCall_def compileCall_def tryFastOpcode_def fastOpcodeCoreName_def fastOps1_def fastOps2_def fastOps3_def
  plain_chost_def core_names_def fresh_def newContext_def emit_def append32_def emitWithArg_def currentAddress_def
  updatePlaceholderArg_def incSP_def decSP_def setTail_def Intern_def poolConstant_def simulate_def loadConstant_def loadVar_def
  emitCell_def pushLocals_def popLocals_def addLocal_def lookupLocal_def arg_def capture_index_def resolvesAsLexical_def
  pushRecurPoint_def popRecurPoint_def popScope_def pushCapture_def chunk_of_def splitNamespaced_def ctorShorthand_def
  memberCall_def stripBindingMeta_def opword_def opnum_def opcodes_def finished_def code_of_def valueEquiv_VInt Let_def

definition closure_pool :: "vv list" where
  "closure_pool = [IntV 2, FuncV '''' 1 False (code_of 2 [14, 0, 65538, 0, 131095, 65540]), IntV 3]"

definition closure_chunk :: chunk where
  "closure_chunk = code_of 4 [1, 0, 65537, 1, 131085, 131082, 1, 196623, 131082, 0, 196609, 2, 262147, 1, 196617, 2, 65540]"

lemma closure_compiled: "Compile plain_chost 20 closure_form (fresh []) = Ok (closure_chunk, finished closure_chunk closure_pool)"
  by (simp add: compile_eval closure_form_def closure_chunk_def closure_pool_def cong: obind_weak_cong)

lemma finished_small: "small (finished closure_chunk closure_pool)"
  by (simp add: small_def finished_def fresh_def newContext_def currentAddress_def closure_chunk_def closure_pool_def code_of_def)

section \<open>Typed code\<close>

lemma fresh_compiled:
  assumes "chost_ok H w" "form_ok w f" "Compile H n f st = Ok (k, st')"
    and "cs_cur st = newContext" "cs_outer st = []" "pool_good H w (cs_pool st)" "small st'"
  shows "(\<exists>tab. check_chunk (cs_pool st') 0 k tab) \<and> pool_good H w (cs_pool st') \<and> ck_consts k = ch_pool H"
  using compiled_chunk[OF assms(1-3) _ _ assms(5) _ assms(6,7)] assms(4,5)
  by (simp add: newContext_def ctx_ok_def currentAddress_def)

lemma with_pool_ok:
  assumes w: "world_ok w" and p: "pool_good H w P"
  shows "world_ok (with_pool H w P)"
proof -
  obtain xs where "P = w_pools w (ch_pool H) @ xs" using p by (auto simp: pool_good_def extends_def)
  then have e: "wext w (with_pool H w P)" by (simp add: wext_def with_pool_def)
  show ?thesis
    using w p val_ok_wext(1)[OF e] dyn_vals_wext[OF e, of "w_dyn w"] unfolding world_ok_def pool_good_def
    by (auto simp: with_pool_def)
qed

lemma compiled_start_ok:
  assumes "chost_ok H w" "form_ok w f" "Compile H n f st = Ok (k, st')"
    and "cs_cur st = newContext" "cs_outer st = []" "cs_pool st = w_pools w (ch_pool H)" "small st'" "world_ok w"
  defines "w' \<equiv> with_pool H w (cs_pool st')"
  shows "machine_ok (Running (initFrame w' k []) [] w')"
proof -
  have "with_pool H w (cs_pool st) = w" by (simp add: with_pool_def assms(6))
  then have p: "pool_good H w (cs_pool st)" using assms(6,8) by (simp add: pool_good_def extends_def world_ok_def)
  obtain tab where t: "check_chunk (cs_pool st') 0 k tab" "pool_good H w (cs_pool st')" "ck_consts k = ch_pool H"
    using fresh_compiled[OF assms(1-5) p assms(7)] by blast
  have "frame_at w' (initFrame w' k []) 0 tab []"
    using t by (auto simp: frame_at_def base_ok_def initFrame_def check_chunk_def pending_ok_def w'_def)
  then show ?thesis using with_pool_ok[OF assms(8) t(2)] by (auto simp: w'_def frame_ok_def)
qed

text \<open>
  C3. The compiler emits typed code: when a well-formed form compiles from a fresh context, the chunk of its
  code passes the check that the interpreter's safety rests on - every jump lands on an
  instruction, every operand names a constant, an argument or a stack slot that is there, depths
  agree where paths meet and stay within the recorded maximum, and handlers are pushed and popped
  in pairs - and the constants that compilation added are well-formed, the code of every inner
  function included. Well-formed (\<open>form_ok\<close>) leaves out the forms whose compilation is wrong: a \<open>try\<close> of nothing but
  \<open>(finally)\<close>, a parameter list of nothing but \<open>&\<close>, a \<open>loop*\<close> without bindings whose body pushes nothing, like \<open>(recur)\<close>,
  and constants with ill-formed code. Macros, IR rewrites, host classes and metadata must give well-formed forms and values (\<open>chost_ok\<close>), and
  addresses, constants and captures must stay below \<open>2\<^sup>3\<^sup>1\<close> (\<open>small\<close>).
\<close>

theorem compiler_emits_typed_code:
  assumes "chost_ok H w" "form_ok w f" "Compile H n f st = Ok (k, st')"
    and "cs_cur st = newContext" "cs_outer st = []" "pool_good H w (cs_pool st)" "small st'"
  shows "(\<exists>tab. check_chunk (cs_pool st') 0 k tab) \<and> (\<forall>v\<in>set (cs_pool st'). val_ok (with_pool H w (cs_pool st')) v)"
  using fresh_compiled[OF assms] by (simp add: pool_good_def)

theorem compiler_emits_typed_code_witness:
  "(\<exists>tab. check_chunk closure_pool 0 closure_chunk tab) \<and>
   list_all (val_ok (with_pool plain_chost (world_of []) closure_pool)) closure_pool"
proof -
  have p: "pool_good plain_chost (world_of []) (cs_pool (fresh []))" by (simp add: pool_good_def extends_def world_of_def fresh_def)
  show ?thesis
    using compiler_emits_typed_code[OF plain_chost_ok closure_form_ok closure_compiled _ _ p finished_small]
    by (simp add: fresh_def finished_def list_all_iff)
qed

text \<open>
  C2. Compiled programs are safe: run in any well-formed world that holds the constants of the compiler, the
  code of a compiled well-formed form keeps the machine well-formed at every step and never ends in a Go panic,
  save one of the numeric tower inside an arithmetic instruction or one of the host that an instruction calls. The
  form, the compiler's services and the sizes must be in order as in C3, and the host must keep the heap well-formed
  when it returns, as in C1.
\<close>

theorem compiled_programs_are_safe:
  assumes "host_ok (recovering VH)" "chost_ok H w" "form_ok w f" "Compile H n f st = Ok (k, st')"
    and "cs_cur st = newContext" "cs_outer st = []" "cs_pool st = w_pools w (ch_pool H)" "small st'" "world_ok w"
  shows "let m = Running (initFrame (with_pool H w (cs_pool st')) k []) [] (with_pool H w (cs_pool st')) in
     machine_ok (run VH j m) \<or>
     (\<exists>i<j. \<exists>fr ps v. run VH i m = Running fr ps v \<and> (numeric_panic VH v fr \<or> host_panic VH v fr))"
  using machine_ok_run[OF assms(1) compiled_start_ok[OF assms(2-9)]] by (simp add: Let_def)

theorem compiled_programs_are_safe_witness:
  "let m = Running (initFrame (with_pool plain_chost (world_of []) closure_pool) closure_chunk []) []
       (with_pool plain_chost (world_of []) closure_pool) in
   (machine_ok (run plain_host 50 m) \<or>
      (\<exists>i<50. \<exists>fr ps v. run plain_host i m = Running fr ps v \<and> (numeric_panic plain_host v fr \<or> host_panic plain_host v fr))) \<and>
   outcome_of (run plain_host 50 m) = Some (Ok (IntV 5))"
proof -
  have "outcome_of (run plain_host 50 (Running (initFrame (with_pool plain_chost (world_of []) closure_pool) closure_chunk []) []
       (with_pool plain_chost (world_of []) closure_pool))) = Some (Ok (IntV 5))" by code_simp
  then show ?thesis
    using compiled_programs_are_safe[OF recovering_hosts_ok(1) plain_chost_ok closure_form_ok closure_compiled _ _ _ finished_small
        world_of_ok[of "[]"], of 50]
    by (simp add: Let_def fresh_def finished_def world_of_def plain_chost_def)
qed

section \<open>Compiled code does what its form means\<close>

text \<open>
  C4. The compiler is correct: a well-formed form (in the sense of C3: not a \<open>try\<close> of nothing but \<open>(finally)\<close>, for one)
  that compiles from a fresh context, evaluated in its source
  form - names looked up in scopes, \<open>let*\<close>, \<open>loop*\<close> and \<open>recur\<close>, \<open>if\<close>, \<open>do\<close>, \<open>set!\<close>, calls, literals, and
  \<open>try\<close> with clauses tried in order and with \<open>finally\<close> - to a value or to an error and to a world, has code
  that, run by the interpreter in any world that holds the constants of the compiler, ends after some
  number of instructions with the same value, or the same error, in the same world. The evaluator knows neither
  code nor stack nor handlers. \<open>def\<close>, \<open>fn*\<close>, macros and literals with metadata have no
  answer there, and a function that is called is run by the interpreter. Namespaces and macros must not change during the
  compilation (\<open>steady\<close>), native functions must keep the constants (\<open>host_pools\<close>), sizes must be within 31 bits, and the
  constants must be of kinds whose equality is identity of value (\<open>plain_const\<close>).
\<close>

theorem compiled_code_is_correct:
  assumes "chost_ok H w" "steady H e" "host_pools VH" "form_ok w f" "Compile H n f st = Ok (k, st')"
    and "cs_cur st = newContext" "cs_outer st = []" "small st'" "list_all plain_const (cs_pool st')"
    and "extends (cs_pool st') (w_pools w (ch_pool H))" "evalForm VH H e None j f Map.empty w = Some (r, w')"
  shows "\<exists>i out. answer_outcome r = Some out \<and> run VH i (Running (initFrame w k []) [] w) = Halted out w'"
  by (rule compiled_form_runs[OF assms(1-10) assms(11)])

definition catching_chost :: "unit chost" where
  "catching_chost = plain_chost\<lparr>ch_core := (\<lambda>e. map_of (core_names @ [(''catch-matches?'', 5), (''throw'', 6)]))\<rparr>"

text \<open>\<open>(loop* [i 3 acc 0] (if (< 0 i) (recur (- i 1) (try (+ acc i) (finally i))) (try (+ acc nil) (catch e acc))))\<close>\<close>

definition sum_form :: form where
  "sum_form = FList [sy ''loop*'', vec [sy ''i'', num 3, sy ''acc'', num 0],
     FList [sy ''if'', FList [sy ''<'', num 0, sy ''i''],
       FList [sy ''recur'', FList [sy ''-'', sy ''i'', num 1],
         FList [sy ''try'', FList [sy ''+'', sy ''acc'', sy ''i''], FList [sy ''finally'', sy ''i'']]],
       FList [sy ''try'', FList [sy ''+'', sy ''acc'', FVal NIL], FList [sy ''catch'', sy ''e'', sy ''acc'']]]]"

definition sum_pool :: "vv list" where
  "sum_pool = [IntV 3, IntV 0, IntV 1, NIL, VarV 5, Prim (VSymbol ''Throwable''), VarV 6]"

definition sum_chunk :: chunk where
  "sum_chunk = code_of 6 [1, 0, 65537, 1, 131073, 1, 196618, 2, 262177, 196614, 29, 131082, 1, 196609, 2, 262168, 196628, 0, 11,
     196618, 1, 262154, 3, 327703, 262165, 262151, 2, 262154, 3, 327688, 262190, 4294967293, 262160, 28, 2, 0, 131079, 39,
     131092, 11, 0, 131082, 0, 196609, 3, 262167, 196629, 196615, 28, 196620, 4, 262145, 5, 327690, 2, 393219, 2, 262150, 10,
     196618, 0, 262154, 2, 327689, 1, 196615, 8, 196620, 6, 262154, 1, 327683, 1, 262153, 1, 196617, 2, 65540]"

text \<open>Every var holds a function of two arguments that gives 3, and so tells that a clause matches.\<close>

definition catching_world :: "unit world" where
  "catching_world = (world_of sum_pool)\<lparr>w_dyn := no_dyn\<lparr>d_var := (\<lambda>v. (d_var no_dyn v)\<lparr>vc_root := Some (FuncV '''' 2 False (code_of 1 [1, 0, 65540]))\<rparr>)\<rparr>\<rparr>"


lemma sum_eval: "map_option fst (evalForm plain_host catching_chost () None 15 sum_form Map.empty catching_world) = Some (Val (IntV 6))"
  by code_simp

lemma valueEquiv_apart:
  "\<not> valueEquiv VNil (VInt n)" "\<not> valueEquiv (VInt n) VNil" "\<not> valueEquiv (VSymbol s) (VInt n)" "\<not> valueEquiv (VInt n) (VSymbol s)"
  "\<not> valueEquiv VNil (VSymbol s)" "\<not> valueEquiv (VSymbol s) VNil"
  by (simp_all add: valueEquiv_def valueEquals_def)

lemma first_caughtSym: "caughtSym (Suc 0) = ''__lg-caught-1'' @ [CHR 0x09]"
  by code_simp

lemma sum_compiled: "Compile catching_chost 30 sum_form (fresh []) = Ok (sum_chunk, (finished sum_chunk sum_pool)\<lparr>cs_caught := Suc 0\<rparr>)"
  by (simp add: compile_eval catching_chost_def sum_form_def sum_chunk_def sum_pool_def finallyBlock_def catchBlock_def parseCatch_def
    dispatchClauses_def freshCaughtSym_def first_caughtSym quoteCompiler_def valueEquiv_apart cong: obind_weak_cong)

lemma sum_small: "small ((finished sum_chunk sum_pool)\<lparr>cs_caught := Suc 0\<rparr>)"
  by (simp add: small_def finished_def fresh_def newContext_def currentAddress_def sum_chunk_def sum_pool_def code_of_def)

theorem compiled_code_is_correct_witness:
  "\<exists>i w'. run plain_host i (Running (initFrame catching_world sum_chunk []) [] catching_world) = Halted (Ok (IntV 6)) w'"
proof -
  have h: "chost_ok catching_chost catching_world" "steady catching_chost ()" "host_pools plain_host"
    by (simp_all add: chost_ok_def steady_def host_pools_def catching_chost_def plain_chost_def plain_host_def)
  have f: "form_ok catching_world sum_form" by (simp add: sum_form_def special_ok_def)
  have p: "list_all plain_const sum_pool" "extends sum_pool (w_pools catching_world (ch_pool catching_chost))"
    by (simp add: sum_pool_def, simp add: catching_world_def world_of_def)
  obtain w' where "evalForm plain_host catching_chost () None 15 sum_form Map.empty catching_world = Some (Val (IntV 6), w')"
    using sum_eval by auto
  from compiled_code_is_correct[OF h f sum_compiled _ _ sum_small _ _ this] p show ?thesis
    by (auto simp: fresh_def finished_pool)
qed

section \<open>Termination\<close>

text \<open>
  C5. The compiler terminates where no macro expands: every form compiles, or is refused, within a
  recursion depth that the form alone determines, whatever the state of the compiler - also \<open>try\<close>
  and the call shorthands, and checked arithmetic under \<open>*unchecked-math*\<close>, which are compiled by
  way of other forms - and more depth never changes the result. The services must keep to this: only names that end in an
  operator's name stand for a checked operator, the IR rewrite of the value of a \<open>def\<close> gives no form that needs
  more, and IR compilation and namespace simulation do not themselves run out of depth.
\<close>

theorem compiler_terminates:
  assumes "macro_free H" "need f \<le> n"
  shows "compileForm H n f st \<noteq> Err OutOfFuel \<and> compileForm H (n + k) f st = compileForm H n f st"
  using compileForm_enough[OF assms] compileForm_below[of H n f st k] by (auto simp: below_def)

text \<open>\<open>(try (.-pos (+ e e e)) (catch e e))\<close> under \<open>*unchecked-math*\<close>: four rewrites\<close>

definition rewritten_form :: form where
  "rewritten_form = FList [sy ''try'', FList [sy ''.-pos'', FList [sy ''+'', sy ''e'', sy ''e'', sy ''e'']],
     FList [sy ''catch'', sy ''e'', sy ''e'']]"

definition unchecked_chost :: "unit chost" where
  "unchecked_chost = plain_chost\<lparr>ch_uncheckedMath := (\<lambda>e. True)\<rparr>"

lemma unchecked_chost_free: "macro_free unchecked_chost"
proof -
  have "arith_name s" if "resolves_arith unchecked_chost s base" for s base
    using that unfolding resolves_arith_def
    by (auto simp: unchecked_chost_def plain_chost_def core_names_def arith_name_def splitNamespaced_def split: if_splits)
  then show ?thesis by (auto simp: macro_free_def unchecked_chost_def plain_chost_def)
qed

theorem compiler_terminates_witness:
  "need rewritten_form \<le> 60 \<and> compileForm unchecked_chost 60 rewritten_form (fresh []) \<noteq> Err OutOfFuel \<and>
   compileForm unchecked_chost 90 rewritten_form (fresh []) = compileForm unchecked_chost 60 rewritten_form (fresh [])"
proof -
  have "need rewritten_form \<le> 60" by code_simp
  then show ?thesis
    using compiler_terminates[OF unchecked_chost_free, of rewritten_form 60 "fresh []" 30] by simp
qed

section \<open>Bodies of try in tail position\<close>

text \<open>\<open>(let* [f (fn* [] 1) g (fn* [] 2) h (fn* [] (<head> (f) (g)))] (h))\<close>\<close>

definition both_calls :: "string \<Rightarrow> form" where
  "both_calls head = FList [sy ''let*'', vec [sy ''f'', FList [sy ''fn*'', vec [], num 1],
       sy ''g'', FList [sy ''fn*'', vec [], num 2],
       sy ''h'', FList [sy ''fn*'', vec [], FList [sy head, FList [sy ''f''], FList [sy ''g'']]]],
     FList [sy ''h'']]"

definition value_of_form :: "nat \<Rightarrow> nat \<Rightarrow> form \<Rightarrow> (vm_err, vv) outcome option" where
  "value_of_form n j f = (case Compile plain_chost n f (fresh []) of
     Ok (k, st) \<Rightarrow> outcome_of (run plain_host j (compiled_start (cs_pool st) k)) | _ \<Rightarrow> None)"

definition both_calls_chunk :: chunk where
  "both_calls_chunk = code_of 4 [1, 1, 65537, 3, 131073, 4, 196621, 196618, 2, 262159, 196618, 1, 262159, 196618, 0,
     262147, 0, 262153, 3, 65540]"

definition both_calls_pool :: "u32 \<Rightarrow> vv list" where
  "both_calls_pool call = [IntV 1, FuncV '''' 0 False (code_of 1 [1, 0, 65540]), IntV 2,
     FuncV '''' 0 False (code_of 1 [1, 2, 65540]), FuncV '''' 0 False (code_of 1 [14, 0, call, 0, 65544, 14, 1, 65555, 0, 65540])]"

lemma both_calls_compiled:
  "Compile plain_chost 20 (both_calls ''try'') (fresh []) = Ok (both_calls_chunk, finished both_calls_chunk (both_calls_pool 65555))"
  "Compile plain_chost 20 (both_calls ''do'') (fresh []) = Ok (both_calls_chunk, finished both_calls_chunk (both_calls_pool 65539))"
  by (simp_all add: compile_eval both_calls_def both_calls_chunk_def both_calls_pool_def cong: obind_weak_cong)

lemma both_calls_run:
  "outcome_of (run plain_host 50 (compiled_start (both_calls_pool 65555) both_calls_chunk)) = Some (Ok (IntV 1))"
  "outcome_of (run plain_host 50 (compiled_start (both_calls_pool 65539) both_calls_chunk)) = Some (Ok (IntV 2))"
  by code_simp+

text \<open>What the compiler of calls takes: no macro, no special form, no opcode of its own.\<close>

definition compiles_as_call :: "'e chost \<Rightarrow> nat \<Rightarrow> form \<Rightarrow> form list \<Rightarrow> 'e cstate \<Rightarrow> bool" where
  "compiles_as_call H m fn args st \<longleftrightarrow>
     compileForm H (Suc m) (FList (fn # args)) st = compileCall H (compileForm H m) fn args st \<and>
     (\<forall>s. fn = FSym s \<longrightarrow> fst (tryFastOpcode H s (length args) (upd_cur (setTail False) st)) = None)"

definition no_clause :: "form \<Rightarrow> bool" where
  "no_clause f \<longleftrightarrow> (case formSeq f of Some (FSym h # rest) \<Rightarrow> h \<noteq> ''catch'' \<and> h \<noteq> ''finally'' | _ \<Rightarrow> True)"

lemma parseTry_bare: "list_all no_clause fs \<Longrightarrow> parseTry H fs t = Ok (t\<lparr>tr_body := tr_body t @ fs\<rparr>)"
proof (induction fs arbitrary: t)
  case (Cons f fs)
  then have "parseTry H (f # fs) t = parseTry H fs (t\<lparr>tr_body := tr_body t @ [f]\<rparr>)"
    by (auto simp: no_clause_def split: option.split list.split form.split)
  then show ?case using Cons by simp
qed simp

lemma compiled_address: "compiled H w k st st' \<Longrightarrow> currentAddress (cs_cur st) + k \<le> currentAddress (cs_cur st')"
  by (simp add: compiled_def ran_def)

lemma tail_call_code:
  assumes h: "chost_ok H w" and f: "form_ok w fn" "\<forall>f\<in>set args. form_ok w f" and st: "st_ok st"
    and tail: "cx_tail (cs_cur st)" "cx_recurs (cs_cur st) = []" and k: "compiles_as_call H m fn args st"
    and c: "compileForm H (Suc m) (FList (fn # args)) st = Ok s"
  obtains A d where "cx_code (cs_cur s) = A @ [opword OP_TAIL_CALL d, word_of_int (int (length args))]"
    "length (cx_code (cs_cur st)) \<le> length A" "int (length args) \<le> currentAddress (cs_cur s)"
proof -
  let ?sf = "upd_cur (setTail False) st" and ?n = "length args"
  have okf: "st_ok ?sf" and tf: "\<not> cx_tail (cs_cur ?sf)" using st by simp_all
  have cc: "compileCall H (compileForm H m) fn args st = Ok s" using c k by (simp add: compiles_as_call_def)
  obtain r s1 where fo: "(case fn of FSym s \<Rightarrow> tryFastOpcode H s ?n ?sf | _ \<Rightarrow> (None, ?sf)) = (r, s1)" by fastforce
  have "r = None \<and> compiled H w 0 ?sf s1"
  proof (cases "\<exists>s. fn = FSym s")
    case True
    then obtain u where "fn = FSym u" "tryFastOpcode H u ?n ?sf = (r, s1)" using fo by auto
    then show ?thesis using k cform.tryFastOpcode_ok(1)[OF okf] by (fastforce simp: compiles_as_call_def)
  next
    case False
    then have "r = None" "s1 = ?sf" using fo by (cases fn; simp)+
    then show ?thesis using compiled_refl[OF okf] by simp
  qed
  then have r: "r = None" and 1: "compiled H w 0 ?sf s1" by simp_all
  have ok1: "st_ok s1" and t1: "\<not> cx_tail (cs_cur s1)" using compiled_ok[OF 1] compiled_tail_eq[OF 1] tf by simp_all
  obtain s2 s3 where a: "compileForm H m fn s1 = Ok s2" "compileAll (compileForm H m) args s2 = Ok s3"
    and e: "s = upd_cur (setTail True \<circ> decSP (int ?n) \<circ>
      emitWithArg (if cx_recurs (cs_cur s3) = [] then OP_TAIL_CALL else OP_INVOKE) (int ?n)) s3"
    using cc fo r tail(1) by (auto simp: compileCall_def Let_def obind_Ok)
  have 2: "compiled H w 1 s1 s2" by (rule cform.sub[OF h a(1) f(1) ok1])
  have ok2: "st_ok s2" and t2: "\<not> cx_tail (cs_cur s2)" using compiled_ok[OF 2] compiled_tail_eq[OF 2] t1 by simp_all
  have 3: "compiled H w (1 + int ?n) ?sf s3"
    using compiled_seq[OF compiled_seq[OF 1 2] cform.compileAll_ok[OF h a(2) f(2) ok2 t2]] tf by simp
  have "cx_recurs (cs_cur s3) = []" using 3 tail(2) by (simp add: compiled_def same_ctx_def setTail_def)
  then have "cx_code (cs_cur s) = cx_code (cs_cur s3) @ [opword OP_TAIL_CALL (cx_sp (cs_cur s3)), word_of_int (int ?n)]"
    by (simp add: e ctx_simps)
  then show ?thesis using that compiled_address[OF 3] by (simp add: currentAddress_def setTail_def)
qed

text \<open>
  C39. A \<open>try\<close> with neither \<open>catch\<close> nor \<open>finally\<close> in tail position of a function compiles its first
  form, where that is a call and more forms follow, to a tail call with the code of the other forms behind it. Where the
  callee is a function without captured values, the machine that comes to this instruction
  gives the frame to the callee, for good: the forms after the call never run. The form must be
  well-formed in the sense of C3, and its code within the range of addresses.
\<close>

theorem bare_try_drops_forms:
  assumes "chost_ok H w" "form_ok w (FList (FSym ''try'' # FList (fn # args) # g # gs))" "st_ok st"
    and "cx_tail (cs_cur st)" "cx_recurs (cs_cur st) = []"
    and "list_all no_clause (FList (fn # args) # g # gs)" "compiles_as_call H m fn args st"
    and "compileForm H (Suc (Suc m)) (FList (FSym ''try'' # FList (fn # args) # g # gs)) st = Ok st'" "small st'"
  shows "\<exists>a. currentAddress (cs_cur st) \<le> a \<and> a + 3 < currentAddress (cs_cur st') \<and>
    (\<forall>f. holds (ck_code (fr_code f)) (currentAddress (cs_cur st)) (words (cs_cur st) (cs_cur st')) \<longrightarrow> fr_ip f = a \<longrightarrow>
      at_instr f OP_TAIL_CALL \<and> operand 1 f = Some (int (length args)) \<and> at_instr (advance 2 f) OP_POP \<and>
      (\<forall>(VH :: 'v host) u ps callee vs target. fr_nth (int (length args)) f = Some callee \<longrightarrow> is_Func callee \<longrightarrow>
        fr_mult 0 (int (length args)) f = Some vs \<longrightarrow> resolveBytecodeCall VH u callee vs = Ok (Some target) \<longrightarrow>
        step VH (Running f ps u) = Running (installBytecodeCall u f target) ps u))"
proof -
  let ?b = "FList (fn # args)"
  have F: "form_ok w fn" "\<forall>f\<in>set args. form_ok w f" "\<forall>f\<in>set (g # gs). form_ok w f" using assms(2) by simp_all
  have "compileEach (compileForm H (Suc m)) (?b # g # gs) st = Ok st'"
    using assms(8) parseTry_bare[OF assms(6), of H "\<lparr>tr_body = [], tr_clauses = [], tr_finally = []\<rparr>"]
    by (simp add: compileStep_def compileSymbolHead_def tryCompiler_def del: compileEach.simps)
  then obtain s where c: "compileForm H (Suc m) ?b st = Ok s"
    and r: "compileEach (compileForm H (Suc m)) (g # gs) (upd_cur (decSP 1 \<circ> emit OP_POP) s) = Ok st'"
    by (auto simp: obind_Ok)
  obtain A d where A: "cx_code (cs_cur s) = A @ [opword OP_TAIL_CALL d, word_of_int (int (length args))]"
    "length (cx_code (cs_cur st)) \<le> length A" and n: "int (length args) \<le> currentAddress (cs_cur s)"
    by (rule tail_call_code[OF assms(1) F(1,2) assms(3-5,7) c])
  let ?s = "upd_cur (decSP 1 \<circ> emit OP_POP) s"
  have 1: "compiled H w 1 st s" by (rule cform.sub[OF assms(1) c _ assms(3)]) (use assms(2) in simp)
  have "st_ok ?s" using compiled_ok[OF compiled_pop[OF 1 assms(3)]] by simp
  then have 2: "compiled H w 1 ?s st'" using cform.compileEach_ok[OF assms(1) r _ F(3)] by simp
  then obtain B where B: "cx_code (cs_cur st') = A @ [opword OP_TAIL_CALL d, word_of_int (int (length args)), opword OP_POP (cx_sp (cs_cur s))] @ B"
    using A(1) by (auto simp: compiled_def ran_def grows_def extends_def decSP_def emit_def)
  show ?thesis
  proof (intro exI[of _ "int (length A)"] conjI allI impI)
    show "currentAddress (cs_cur st) \<le> int (length A)" using A(2) by (simp add: currentAddress_def)
    show "int (length A) + 3 < currentAddress (cs_cur st')"
      using compiled_address[OF 2] A(1) by (simp add: currentAddress_def decSP_def emit_def)
    fix f :: frame assume f: "holds (ck_code (fr_code f)) (currentAddress (cs_cur st)) (words (cs_cur st) (cs_cur st'))"
      and ip: "fr_ip f = int (length A)"
    let ?ws = "[opword OP_TAIL_CALL d, word_of_int (int (length args)), opword OP_POP (cx_sp (cs_cur s))]"
    have "holds (ck_code (fr_code f)) (int (length A)) ?ws"
      using f A(2) by (simp only: words_def B currentAddress_def holds_append drop_append) (simp add: of_nat_diff)
    then have H: "holds (ck_code (fr_code f)) (fr_ip f) ?ws" by (simp only: ip)
    show t: "at_instr f OP_TAIL_CALL" using holds_slot[OF H, of 0] by (simp add: at_instr_def del: slot_eq_Some)
    have "int (length args) < 2 ^ 31"
      using n assms(9) compiled_address[OF 2] by (simp add: small_def currentAddress_def decSP_def emit_def)
    then show o: "operand 1 f = Some (int (length args))"
      using holds_slot[OF H, of 1] sint_u32[of "int (length args)"] by (simp add: operand_def del: slot_eq_Some)
    show "at_instr (advance 2 f) OP_POP"
      using holds_slot[OF H, of 2] by (simp add: at_instr_def advance_def del: slot_eq_Some)
    fix VH :: "'v host" and u ps callee vs target
    assume v: "fr_nth (int (length args)) f = Some callee" "is_Func callee" "fr_mult 0 (int (length args)) f = Some vs"
      "resolveBytecodeCall VH u callee vs = Ok (Some target)"
    have "AsFn VH u callee" using v(2) by (cases callee) (simp_all add: AsFn_def)
    moreover have "vs = []" if "args = []" using v(3) that by (auto simp: fr_mult_def slice_def Let_def split: if_splits)
    ultimately show "step VH (Running f ps u) = Running (installBytecodeCall u f target) ps u"
      using v o by (cases "args = []") (simp_all add: exec_at_instr[OF t] op_TAIL_CALL_def)
  qed
qed

text \<open>The function \<open>(fn* [f g] (try (f) (g)))\<close>, at the call of \<open>f\<close>.\<close>

definition in_function :: "unit cstate" where
  "in_function = (fresh [])\<lparr>cs_cur := newContext\<lparr>cx_args := [(''g'', 1), (''f'', 0)], cx_argCount := 2, cx_isFunction := True, cx_tail := True\<rparr>\<rparr>"

definition bare_form :: form where
  "bare_form = FList [sy ''try'', FList [sy ''f''], FList [sy ''g'']]"

definition bare_code :: "u32 list" where
  "bare_code = [2, 0, 65555, 0, 65544, 2, 1, 65555, 0]"

definition bare_state :: "unit cstate" where
  "bare_state = in_function\<lparr>cs_cur := (cs_cur in_function)\<lparr>cx_code := bare_code, cx_sp := 1, cx_spMax := 1\<rparr>\<rparr>"

lemma bare_compiled: "compileForm plain_chost (Suc (Suc 3)) bare_form in_function = Ok bare_state"
  by (simp add: compile_eval in_function_def bare_form_def bare_state_def bare_code_def cong: obind_weak_cong)

definition callee :: vv where
  "callee = FuncV ''f'' 0 False (code_of 1 [1, 0, 65540])"

definition at_tail_call :: frame where
  "at_tail_call = (initFrame (world_of [IntV 1]) (code_of 2 (bare_code @ [65540])) [callee, callee])
     \<lparr>fr_stack := [callee, NIL], fr_sp := 1, fr_ip := 2\<rparr>"

theorem bare_try_drops_forms_witness:
  "at_instr at_tail_call OP_TAIL_CALL \<and>
   step plain_host (Running at_tail_call [] (world_of [IntV 1])) =
     Running (installBytecodeCall (world_of [IntV 1]) at_tail_call \<lparr>bt_chunk = fn_chunk callee, bt_args = [], bt_closedOvers = []\<rparr>)
       [] (world_of [IntV 1]) \<and>
   value_of_form 20 50 (both_calls ''try'') = Some (Ok (IntV 1)) \<and>
   value_of_form 20 50 (both_calls ''do'') = Some (Ok (IntV 2))"
proof -
  have st: "st_ok in_function" by (simp add: in_function_def fresh_def newContext_def ctx_ok_def currentAddress_def)
  have t: "cx_tail (cs_cur in_function)" "cx_recurs (cs_cur in_function) = []" by (simp_all add: in_function_def newContext_def)
  have k: "compiles_as_call plain_chost 3 (sy ''f'') [] in_function"
    by (simp add: compiles_as_call_def compile_eval in_function_def cong: obind_weak_cong)
  have s: "small bare_state"
    by (simp add: small_def bare_state_def bare_code_def in_function_def fresh_def newContext_def currentAddress_def)
  have n: "list_all no_clause [FList [sy ''f''], FList [sy ''g'']]" by (simp add: no_clause_def)
  have f: "form_ok (world_of [IntV 1]) bare_form" by (simp add: bare_form_def special_ok_def)
  let ?w = "world_of [IntV 1]" and ?ok = "\<lambda>a. at_instr (at_tail_call\<lparr>fr_ip := a\<rparr>) OP_TAIL_CALL"
  note general = bare_try_drops_forms[where 'v = unit, OF plain_chost_ok f[unfolded bare_form_def] st t n k bare_compiled[unfolded bare_form_def] s]
  have e: "currentAddress (cs_cur in_function) = 0" "currentAddress (cs_cur bare_state) = 9"
      "words (cs_cur in_function) (cs_cur bare_state) = bare_code"
    by (simp_all add: words_def currentAddress_def bare_state_def in_function_def newContext_def bare_code_def)
  have h: "holds (ck_code (fr_code (at_tail_call\<lparr>fr_ip := a\<rparr>))) 0 bare_code" for a
    unfolding holds_def by (simp add: at_tail_call_def initFrame_def code_of_def bare_code_def All_less_Suc numeral_nat)
  have no: "\<not> ?ok 0" "\<not> ?ok 1" "\<not> ?ok 3" "\<not> ?ok 4" "\<not> ?ok 5" unfolding at_instr_def by code_simp+
  have f2: "at_tail_call\<lparr>fr_ip := 2\<rparr> = at_tail_call" by (simp add: at_tail_call_def)
  have run: "fr_mult 0 0 at_tail_call = Some []" "fr_nth 0 at_tail_call = Some callee"
    "resolveBytecodeCall plain_host ?w callee [] = Ok (Some \<lparr>bt_chunk = fn_chunk callee, bt_args = [], bt_closedOvers = []\<rparr>)"
    "is_Func callee"
    by code_simp+
  from general[unfolded e list.size(3) of_nat_0] show ?thesis
  proof (elim exE conjE, goal_cases)
    case (1 a)
    note here = 1(3)[rule_format, OF h]
    have "a \<in> {0, 1, 2, 3, 4, 5}" using 1(1,2) by auto
    moreover have "?ok a" using here[of a] by simp
    ultimately have "a = 2" using no by auto
    then have "at_instr at_tail_call OP_TAIL_CALL"
      and "step plain_host (Running at_tail_call [] ?w) =
        Running (installBytecodeCall ?w at_tail_call \<lparr>bt_chunk = fn_chunk callee, bt_args = [], bt_closedOvers = []\<rparr>) [] ?w"
      using here[of 2, unfolded f2] run by (auto simp: at_tail_call_def)
    then show ?case by (simp add: value_of_form_def both_calls_compiled both_calls_run finished_pool)
  qed
qed

end
