(* ===== verification/Spec2Isabelle.thy ===== *)
theory Spec2Isabelle
  imports LG_NumberClaims LG_CollectionClaims LG_BytecodeClaims LG_MachineClaims LG_CompilerClaims
begin

text \<open>
  let-go is a dialect of Clojure in Go. A program text is read into forms
  (\<open>pkg/compiler/reader.go\<close>), a form is compiled to a chunk of 32-bit code words over a pool of
  constants (\<open>pkg/compiler/compiler.go\<close>, \<open>pkg/vm/constpool.go\<close>), chunks are written to and
  read from bundles (\<open>pkg/bytecode\<close>), and an interpreter runs them on the values of \<open>pkg/vm\<close>.
  This development models the core of these parts and proves what makes them correct.

  Conventions. A Go function becomes a HOL function of the same name where HOL allows it, a struct
  a record, an interface over known types a datatype. Mutable objects are values that are passed
  on, except where sharing matters (vars, contexts and closures are numbered cells of a world). \<open>int64\<close>
  is \<open>64 word\<close>, the code word \<open>32 word\<close>, \<open>big.Int\<close> and lengths and
  addresses are \<open>int\<close> or \<open>nat\<close>. \<open>None\<close>, or \<open>Panic\<close> in an \<open>outcome\<close>, is a Go panic; \<open>Err\<close>
  is a returned error. Functions stored in values, the Go types outside the parts below and the
  run-time library are parameters: an invoker or the record \<open>host\<close>. Keys and elements of collections are
  scalar values; a collection as a key is not a value of the model.

  Values and numbers. \<open>LG_Prelude\<close> has the shared lemmas, \<open>LG_Value\<close> the scalar values, \<open>LG_Float\<close>
  floating point by exact rounding of rationals (53 bits for \<open>float64\<close>, 128 for decimals),
  \<open>LG_Numbers\<close>, \<open>LG_Quotient\<close> and \<open>LG_NumCompare\<close> the number tower of \<open>numbers.go\<close>
  and \<open>numbers_promote.go\<close>. The lemmas relate each operation on exact types to the rationals,
  overflow and promotion included. \<open>LG_Hash\<close> has hashing and key equivalence (\<open>hash.go\<close>).

  Collections. \<open>LG_Chunks\<close> and \<open>LG_Vector\<close> are the persistent vector
  (\<open>persistent_vector.go\<close>): the invariant \<open>pv_ok\<close> of the trie and the refinement to lists.
  \<open>LG_ArrayVector\<close> has the array vector, its chunked sequence and the transient vector (\<open>vector.go\<close>,
  \<open>transient.go\<close>). \<open>LG_Bitmap\<close>, \<open>LG_Hamt\<close> and \<open>LG_Map\<close> are the hash trie and the map of
  \<open>persistent_map.go\<close> with its transient (\<open>Conj\<close> is given the pair or the entries of its argument),
  refining finite maps up to key equivalence, and
  \<open>LG_Set\<close> the set. \<open>LG_Seq\<close> has lists, ranges and queues. The trie functions of bounded
  depth take a fuel that the depth of 64 hash bits in steps of five never exhausts.

  Bytecode files. \<open>LG_Encoding\<close> has the primitive encodings (\<open>encoding.go\<close>), a locale for
  codecs and its instances; \<open>LG_Codec\<close> writes, reads and skips constants (\<open>encoder.go\<close>,
  \<open>decoder.go\<close>). The recursion of the reader is bounded by fuel; fuel above the length of the
  input is never used up. A preallocation of more than $2^{48}$ bytes is the panic of \<open>make\<close>; the round trip
  is stated for counts up to $2^{43}$, far from it. A list of no elements that is not the object \<open>EmptyList\<close>
  is a value of its own, since the encoder writes it wrongly.

  The interpreter. \<open>LG_VMValue\<close> has the values, callables and errors it moves, \<open>LG_Bindings\<close>
  vars, dynamic bindings and execution contexts (\<open>var.go\<close>, \<open>binding_stack.go\<close>,
  \<open>root_bindings.go\<close>, \<open>exec_context.go\<close>), with a locale for what a stack of bindings
  promises; the identity of roots (\<open>sameRootIdentity\<close>) is any relation, as Go's is not reflexive, and a
  panic of a body run by \<open>RunWithBindings\<close> leaves the snapshot installed. \<open>LG_VM\<close> has all opcodes of \<open>vm.go\<close>, call resolution (\<open>func.go\<close>), handlers and
  unwinding; \<open>step\<close> is one instruction and the inductive \<open>vm_step\<close> its relation. \<open>LG_VMType\<close>
  types bytecode by stack depth and handlers; its checker computes. \<open>LG_VMSafe\<close> proves that
  well-typed code stays well-typed and does not panic over a host that does not, \<open>LG_HostPanic\<close> extends this
  to hosts that panic, as native functions do in Go, up to the instruction whose call panics, and
  \<open>LG_VMRun\<close> shows how runs compose, unwind and select arms.

  The compiler. \<open>LG_Compiler\<close> has the contexts of \<open>compiler.go\<close> (code, locals, captured cells,
  recursion points, static stack depth and its maximum), the constant pool and one function per
  special form, call shorthand and literal. The state \<open>cstate\<close> holds the context being compiled, the
  enclosing ones, the pool and the environment; \<open>compileForm\<close> is the recursion over forms, with a
  fuel for its depth because a macro may return any form. The record \<open>chost\<close> stands for what the
  compiler asks of namespaces, macros and the library: resolution, expansion, interning, the
  rewriting by the IR (asked for outside of locals only), and the Go type of an object that occurs as a form, since
  UUIDs, instants, patterns and types are constants and other objects are refused. \<open>LG_CodeSeg\<close> types the code of a context that is still growing, \<open>LG_Contract\<close>
  states what every form compiler keeps of it, as a locale whose assumption is that subforms keep
  it, \<open>LG_ContractCode\<close> and \<open>LG_CompilerSafe\<close> prove it of every form compiler and interpret the
  locale on \<open>compileForm\<close>. It ends in typed code, so the safety of the interpreter extends to what
  the compiler emits. \<open>LG_CompilerFuel\<close> shows that more fuel never changes a result and that without
  macro expansions \<open>need f\<close>, computed from the form alone, is enough, the rewrites of \<open>try\<close>, of call shorthands and of
  arithmetic under \<open>*unchecked-math*\<close> included (\<open>macro_free\<close> says what the services must keep to).

  What forms mean. \<open>LG_Eval\<close> evaluates forms as they are read, in an environment of local names, with
  neither code nor stack nor handlers; \<open>LG_CodeRun\<close> says how one frame runs code that is in its place,
  instruction by instruction. \<open>implements\<close> in \<open>LG_Implements\<close> relates the code between two states
  of the compiler to a meaning. \<open>LG_Correct\<close> proves, in a locale whose assumption is that subforms
  are compiled to what they mean, that each form compiler implements the evaluator's clause, \<open>LG_CorrectTry\<close>
  does the layout of \<open>try\<close> and \<open>LG_CorrectForms\<close> the dispatch on its clauses; the locales are
  interpreted on \<open>compileForm\<close> and \<open>evalForm\<close>, for any fuel of both. The fuel of the evaluator bounds its
  depth, the rounds of a loop and the steps of a called function; where it gives an answer, compiled code
  reaches it. \<open>def\<close>, \<open>fn*\<close>, macros and literals with metadata have no answer, and a function
  that is called is run by the interpreter.

  The theorems on compiled code assume \<open>small\<close> (code, pool and captures below $2^{31}$, as an operand is
  32 bits wide), \<open>chost_ok\<close> (host classes and metadata are well-formed values; macros and IR rewrites give
  well-formed forms, and macros forms that push a value), and \<open>form_ok\<close>,
  which excludes the forms for which the compiler emits bad code: a parameter list of nothing but the rest
  marker, \<open>try\<close> with nothing but an empty \<open>finally\<close>, and \<open>loop*\<close> without bindings whose body pushes
  nothing. These are not technical: \<open>(let* [b 7 a (if true 1 (try (finally)))] b)\<close> compiles to code that returns 1.
  Safety assumes \<open>host_ok\<close> of the host with its panics recovered (what it returns, value or error, keeps the heap
  well-formed). Correctness assumes besides \<open>steady\<close> (lookups do not change during the compilation), \<open>host_pools\<close>
  (native functions keep the constants) and \<open>plain_const\<close> (constants whose sharing in the pool is invisible).

  The properties are in \<open>LG_NumberClaims\<close>, \<open>LG_CollectionClaims\<close>, \<open>LG_BytecodeClaims\<close>,
  \<open>LG_MachineClaims\<close> and \<open>LG_CompilerClaims\<close>, each with the concrete input at which its hypotheses
  hold.

  Not modelled. Concurrency: an atomic update is one step, and goroutines, atoms' retries and locks
  are left out. Pointer identity of collections, printing, metadata of functions and vars,
  source maps, tracing and profiling have no effect on the modelled results. Of the compiler, the
  loop over the forms of a file (\<open>compileMultiple\<close>), source positions and reflection warnings are
  left out; its simulation of namespace forms is a service of \<open>chost\<close>. The reader is text to forms;
  the model starts from forms. The run-time library
  \<open>pkg/rt\<close> mostly binds Go libraries; the generated primitives, the code generator, the
  command-line tools, the servers and the platform code are glue around the core. Sorted maps, lazy
  sequences, multimethods and protocols are planned.
\<close>

end
